(* ===== verification/LDB_Prelude.thy ===== *)
theory LDB_Prelude
  imports Main "HOL-Library.Word" "HOL-Library.Sublist"
begin

text \<open>
  Shared vocabulary of the LevelDB development.

  The library manipulates arrays of \<^verbatim>\<open>char\<close>. Here a byte is an 8-bit word, a string or a
  slice is a list of bytes, and the fixed-width integers of the sources keep their width:
  \<open>u32\<close> for \<^verbatim>\<open>uint32_t\<close>, \<open>u64\<close> for \<^verbatim>\<open>uint64_t\<close> and \<^verbatim>\<open>size_t\<close> where a wrap-around is
  possible. Lengths of byte lists are natural numbers, and every conversion of a length to a
  narrower type in the sources is an explicit \<^const>\<open>word_of_nat\<close> in the model.
\<close>

unbundle bit_operations_syntax

type_synonym byte = "8 word"
type_synonym bytes = "byte list"
type_synonym u32 = "32 word"
type_synonym u64 = "64 word"

named_theorems word_bounds \<open>lengths and values of encoded words\<close>
named_theorems roundtrips \<open>decoding inverts encoding\<close>

subsection \<open>Bytes of string literals\<close>

definition str :: "string \<Rightarrow> bytes" where
  "str s = map of_char s"

lemma length_str [simp]: "length (str s) = length s"
  by (simp add: str_def)

text \<open>The decimal digits of a number, as \<^verbatim>\<open>%u\<close> and \<^verbatim>\<open>%llu\<close> print it.\<close>

fun decimal :: "nat \<Rightarrow> bytes" where
  "decimal n = (if n < 10 then [48 + word_of_nat n] else decimal (n div 10) @ [48 + word_of_nat (n mod 10)])"

declare decimal.simps [simp del]

subsection \<open>Words\<close>

lemma unat_word_of_nat_small [simp]:
  "n < 2 ^ LENGTH('a) \<Longrightarrow> unat (word_of_nat n :: 'a::len word) = n"
  by (simp add: unat_of_nat)

lemma unat_bounds [word_bounds]:
  "unat (b :: byte) < 2 ^ 8" "unat (w :: u32) < 2 ^ 32" "unat (v :: u64) < 2 ^ 64"
proof -
  show "unat b < 2 ^ 8" using unsigned_less by (rule order.strict_trans2) simp
  show "unat w < 2 ^ 32" using unsigned_less by (rule order.strict_trans2) simp
  show "unat v < 2 ^ 64" using unsigned_less by (rule order.strict_trans2) simp
qed

lemma word_less_128_iff: "(w :: 'a::len word) < 128 \<longleftrightarrow> unat w < 128" if "LENGTH('a) \<ge> 8"
proof -
  have "(2::nat) ^ 8 \<le> 2 ^ LENGTH('a)"
    using that by (rule power_increasing) simp
  then have "unat (128 :: 'a word) = 128"
    by (simp add: unat_numeral take_bit_eq_mod)
  then show ?thesis by (simp add: word_less_nat_alt)
qed

text \<open>Bits of the masks 0x7f, 0x80 and 0xff.\<close>

lemma bit_mask_numerals:
  "bit (127 :: int) n \<longleftrightarrow> n < 7"
  "bit (128 :: int) n \<longleftrightarrow> n = 7"
  "bit (255 :: int) n \<longleftrightarrow> n < 8"
proof -
  have "(127 :: int) = mask 7" "(128 :: int) = 2 ^ 7" "(255 :: int) = mask 8"
    by (simp_all add: mask_eq_exp_minus_1)
  then show "bit (127 :: int) n \<longleftrightarrow> n < 7" "bit (128 :: int) n \<longleftrightarrow> n = 7"
    "bit (255 :: int) n \<longleftrightarrow> n < 8"
    by (simp_all only: bit_mask_iff bit_exp_iff) auto
qed

subsection \<open>Lists\<close>

lemma take_append_exact [simp]: "length xs = n \<Longrightarrow> take n (xs @ ys) = xs"
  by simp

lemma drop_append_exact [simp]: "length xs = n \<Longrightarrow> drop n (xs @ ys) = ys"
  by simp

lemma nth_append_first: "i < length xs \<Longrightarrow> (xs @ ys) ! i = xs ! i"
  by (simp add: nth_append)

lemma takeWhile_append_stop: "takeWhile P ys = [] \<Longrightarrow> takeWhile P (xs @ ys) = takeWhile P xs"
  by (induction xs) simp_all

text \<open>
  Several formats flatten a list of strings and remember where each one starts. \<open>starts xs\<close> are
  those positions, \<open>bounds xs\<close> the positions with the end of the last string added.
\<close>

definition starts :: "'a list list \<Rightarrow> nat list" where
  "starts xs = map (\<lambda>i. length (concat (take i xs))) [0..<length xs]"

lemma length_starts [simp]: "length (starts xs) = length xs"
  by (simp add: starts_def)

lemma starts_Nil [simp]: "starts [] = []"
  by (simp add: starts_def)

lemma starts_snoc: "starts (xs @ [x]) = starts xs @ [length (concat xs)]"
  by (simp add: starts_def)

lemma starts_snoc_nth: "i \<le> length xs \<Longrightarrow> (starts xs @ [length (concat xs)]) ! i = length (concat (take i xs))"
  by (auto simp: starts_def nth_append)

lemma concat_split_nth:
  "i < length xs \<Longrightarrow> concat xs = concat (take i xs) @ xs ! i @ concat (drop (Suc i) xs)"
  by (metis concat.simps(2) concat_append id_take_nth_drop)

lemma piece_of_concat:
  assumes "i < length xs"
  shows "take ((starts xs @ [length (concat xs)]) ! Suc i - (starts xs @ [length (concat xs)]) ! i)
      (drop ((starts xs @ [length (concat xs)]) ! i) (concat xs @ ys)) = xs ! i"
proof -
  have "length (concat (take (Suc i) xs)) = length (concat (take i xs)) + length (xs ! i)"
    using assms by (simp add: take_Suc_conv_app_nth)
  moreover have "drop (length (concat (take i xs))) (concat xs @ ys) =
      xs ! i @ concat (drop (Suc i) xs) @ ys"
    by (subst concat_split_nth [OF assms]) simp
  ultimately show ?thesis
    using assms by (simp add: starts_snoc_nth)
qed

lemma starts_mono:
  assumes "i \<le> j"
  shows "length (concat (take i xs)) \<le> length (concat (take j xs))"
proof -
  have "take j xs = take i xs @ take (j - i) (drop i xs)"
    using assms by (metis le_add_diff_inverse take_add)
  then show ?thesis by simp
qed

end
