(* ===== verification/LDB_Slice.thy ===== *)
theory LDB_Slice
  imports LDB_Prelude "HOL-Library.List_Lexorder"
begin

text \<open>
  \<^verbatim>\<open>include/leveldb/slice.h\<close>: the value semantics of \<^verbatim>\<open>Slice\<close>. A slice is the list of bytes
  it refers to; \<^verbatim>\<open>memcmp\<close> is the library routine the class relies on, restricted to the sign of
  its result (the only part of it the C standard fixes). The main fact is that
  \<^verbatim>\<open>Slice::compare\<close> decides the lexicographic order of byte strings.
\<close>

fun memcmp :: "bytes \<Rightarrow> bytes \<Rightarrow> nat \<Rightarrow> int" where
  "memcmp _ _ 0 = 0"
| "memcmp (x # xs) (y # ys) (Suc n) =
     (if x < y then -1 else if y < x then 1 else memcmp xs ys n)"
| "memcmp _ _ (Suc n) = 0"

definition slice_compare :: "bytes \<Rightarrow> bytes \<Rightarrow> int" where
  "slice_compare a b =
     (let min_len = (if length a < length b then length a else length b);
          r = memcmp a b min_len
      in if r = 0 then
           if length a < length b then -1
           else if length a > length b then 1
           else r
         else r)"

definition slice_eq :: "bytes \<Rightarrow> bytes \<Rightarrow> bool" where
  "slice_eq x y \<longleftrightarrow> length x = length y \<and> memcmp x y (length x) = 0"

definition starts_with :: "bytes \<Rightarrow> bytes \<Rightarrow> bool" where
  "starts_with s x \<longleftrightarrow> length s \<ge> length x \<and> memcmp s x (length x) = 0"

definition remove_prefix :: "bytes \<Rightarrow> nat \<Rightarrow> bytes" where
  "remove_prefix s n = drop n s"

subsection \<open>Comparison is the lexicographic order\<close>

lemma slice_compare_Nil [simp]:
  "slice_compare [] [] = 0"
  "slice_compare [] (y # ys) = -1"
  "slice_compare (x # xs) [] = 1"
  by (simp_all add: slice_compare_def)

lemma slice_compare_Cons [simp]:
  "slice_compare (x # xs) (y # ys) =
     (if x < y then -1 else if y < x then 1 else slice_compare xs ys)"
  by (auto simp: slice_compare_def Let_def)

lemma slice_compare_lex:
  "slice_compare a b = (if a < b then -1 else if b < a then 1 else 0)"
proof (induction a arbitrary: b)
  case Nil
  then show ?case by (cases b) simp_all
next
  case (Cons x xs)
  then show ?case by (cases b) auto
qed

lemma slice_compare_less_iff: "slice_compare a b < 0 \<longleftrightarrow> a < b"
  by (auto simp: slice_compare_lex)

lemma slice_compare_le_iff: "slice_compare a b \<le> 0 \<longleftrightarrow> a \<le> b"
  by (auto simp: slice_compare_lex)

lemma slice_compare_zero_iff: "slice_compare a b = 0 \<longleftrightarrow> a = b"
  by (auto simp: slice_compare_lex)

lemma slice_compare_greater_iff: "slice_compare a b > 0 \<longleftrightarrow> b < a"
  by (auto simp: slice_compare_lex)

lemmas slice_compare_iffs =
  slice_compare_less_iff slice_compare_le_iff slice_compare_zero_iff slice_compare_greater_iff

lemma memcmp_eq_iff:
  "length x = n \<Longrightarrow> length y \<ge> n \<Longrightarrow> memcmp y x n = 0 \<longleftrightarrow> take n y = x"
proof (induction n arbitrary: x y)
  case 0
  then show ?case by simp
next
  case (Suc n)
  then obtain a x' b y' where "x = a # x'" and "y = b # y'"
    by (metis Suc_le_length_iff length_Suc_conv)
  with Suc show ?case by auto
qed

lemma slice_eq_iff: "slice_eq x y \<longleftrightarrow> x = y"
  unfolding slice_eq_def by (metis memcmp_eq_iff order_refl take_all)

lemma starts_with_iff: "starts_with s x \<longleftrightarrow> prefix x s"
proof (cases "length x \<le> length s")
  case True
  then show ?thesis
    using memcmp_eq_iff [of x "length x" s]
    by (auto simp: starts_with_def prefix_def) (metis append_take_drop_id)
next
  case False
  then show ?thesis
    by (auto simp: starts_with_def prefix_def)
qed

end
