(* ===== verification/LDB_Coding.thy ===== *)
theory LDB_Coding
  imports LDB_Prelude LDB_Slice
begin

text \<open>
  \<^verbatim>\<open>util/coding.h\<close> and \<^verbatim>\<open>util/coding.cc\<close>: fixed-width little-endian integers, base-128
  varints and length-prefixed slices. A routine that writes through a pointer returns the bytes it
  writes; a routine that reads from \<open>[p, limit)\<close> takes those bytes and returns the value with the
  bytes that follow it, or \<^const>\<open>None\<close> where the code returns \<^verbatim>\<open>NULL\<close> or false. The two branches
  on \<^verbatim>\<open>port::kLittleEndian\<close> store the same bytes; the model writes them by shifts.
\<close>

subsection \<open>Fixed-width integers\<close>

definition EncodeFixed32 :: "u32 \<Rightarrow> bytes" where
  "EncodeFixed32 v =
     [ucast (v AND 0xff), ucast (drop_bit 8 v AND 0xff),
      ucast (drop_bit 16 v AND 0xff), ucast (drop_bit 24 v AND 0xff)]"

definition EncodeFixed64 :: "u64 \<Rightarrow> bytes" where
  "EncodeFixed64 v =
     [ucast (v AND 0xff), ucast (drop_bit 8 v AND 0xff),
      ucast (drop_bit 16 v AND 0xff), ucast (drop_bit 24 v AND 0xff),
      ucast (drop_bit 32 v AND 0xff), ucast (drop_bit 40 v AND 0xff),
      ucast (drop_bit 48 v AND 0xff), ucast (drop_bit 56 v AND 0xff)]"

definition PutFixed32 :: "bytes \<Rightarrow> u32 \<Rightarrow> bytes" where
  "PutFixed32 dst v = dst @ EncodeFixed32 v"

definition PutFixed64 :: "bytes \<Rightarrow> u64 \<Rightarrow> bytes" where
  "PutFixed64 dst v = dst @ EncodeFixed64 v"

definition DecodeFixed32 :: "bytes \<Rightarrow> u32" where
  "DecodeFixed32 p =
     ucast (p ! 0) OR push_bit 8 (ucast (p ! 1)) OR
     push_bit 16 (ucast (p ! 2)) OR push_bit 24 (ucast (p ! 3))"

definition DecodeFixed64 :: "bytes \<Rightarrow> u64" where
  "DecodeFixed64 p =
     (let lo = ucast (DecodeFixed32 p) :: u64;
          hi = ucast (DecodeFixed32 (drop 4 p)) :: u64
      in push_bit 32 hi OR lo)"

subsection \<open>Varints\<close>

definition EncodeVarint32 :: "u32 \<Rightarrow> bytes" where
  "EncodeVarint32 v =
     (if v < push_bit 7 1 then [ucast v]
      else if v < push_bit 14 1 then [ucast (v OR 128), ucast (drop_bit 7 v)]
      else if v < push_bit 21 1 then
        [ucast (v OR 128), ucast (drop_bit 7 v OR 128), ucast (drop_bit 14 v)]
      else if v < push_bit 28 1 then
        [ucast (v OR 128), ucast (drop_bit 7 v OR 128), ucast (drop_bit 14 v OR 128),
         ucast (drop_bit 21 v)]
      else
        [ucast (v OR 128), ucast (drop_bit 7 v OR 128), ucast (drop_bit 14 v OR 128),
         ucast (drop_bit 21 v OR 128), ucast (drop_bit 28 v)])"

definition PutVarint32 :: "bytes \<Rightarrow> u32 \<Rightarrow> bytes" where
  "PutVarint32 dst v = dst @ EncodeVarint32 v"

lemma drop_bit_7_less: "\<not> v < 128 \<Longrightarrow> unat (drop_bit 7 v) < unat (v :: u64)"
  by (simp add: drop_bit_eq_div unat_div word_less_nat_alt)

function EncodeVarint64 :: "u64 \<Rightarrow> bytes" where
  "EncodeVarint64 v =
     (if v \<ge> 128 then ucast ((v AND 127) OR 128) # EncodeVarint64 (drop_bit 7 v)
      else [ucast v])"
  by pat_completeness auto
termination
  by (relation "measure unat") (auto simp: drop_bit_7_less not_less)

declare EncodeVarint64.simps [simp del]

definition PutVarint64 :: "bytes \<Rightarrow> u64 \<Rightarrow> bytes" where
  "PutVarint64 dst v = dst @ EncodeVarint64 v"

definition PutLengthPrefixedSlice :: "bytes \<Rightarrow> bytes \<Rightarrow> bytes" where
  "PutLengthPrefixedSlice dst value = PutVarint32 dst (word_of_nat (length value)) @ value"

function VarintLength_loop :: "u64 \<Rightarrow> nat \<Rightarrow> nat" where
  "VarintLength_loop v len =
     (if v \<ge> 128 then VarintLength_loop (drop_bit 7 v) (len + 1) else len)"
  by pat_completeness auto
termination
  by (relation "measure (unat \<circ> fst)") (auto simp: drop_bit_7_less not_less)

declare VarintLength_loop.simps [simp del]

definition VarintLength :: "u64 \<Rightarrow> nat" where
  "VarintLength v = VarintLength_loop v 1"

text \<open>
  The reading loops run while \<open>shift\<close> is within the width of the result and bytes are left.
\<close>

fun GetVarint32Ptr_loop :: "u32 \<Rightarrow> nat \<Rightarrow> bytes \<Rightarrow> (u32 \<times> bytes) option" where
  "GetVarint32Ptr_loop result shift [] = None"
| "GetVarint32Ptr_loop result shift (c # p) =
     (if shift \<le> 28 then
        let byte = ucast c :: u32
        in if byte AND 128 \<noteq> 0
           then GetVarint32Ptr_loop (result OR push_bit shift (byte AND 127)) (shift + 7) p
           else Some (result OR push_bit shift byte, p)
      else None)"

definition GetVarint32PtrFallback :: "bytes \<Rightarrow> (u32 \<times> bytes) option" where
  "GetVarint32PtrFallback p = GetVarint32Ptr_loop 0 0 p"

definition GetVarint32Ptr :: "bytes \<Rightarrow> (u32 \<times> bytes) option" where
  "GetVarint32Ptr p =
     (case p of
        c # q \<Rightarrow>
          let result = ucast c :: u32
          in if result AND 128 = 0 then Some (result, q) else GetVarint32PtrFallback p
      | [] \<Rightarrow> GetVarint32PtrFallback p)"

definition GetVarint32 :: "bytes \<Rightarrow> (u32 \<times> bytes) option" where
  "GetVarint32 input = GetVarint32Ptr input"

fun GetVarint64Ptr_loop :: "u64 \<Rightarrow> nat \<Rightarrow> bytes \<Rightarrow> (u64 \<times> bytes) option" where
  "GetVarint64Ptr_loop result shift [] = None"
| "GetVarint64Ptr_loop result shift (c # p) =
     (if shift \<le> 63 then
        let byte = ucast c :: u64
        in if byte AND 128 \<noteq> 0
           then GetVarint64Ptr_loop (result OR push_bit shift (byte AND 127)) (shift + 7) p
           else Some (result OR push_bit shift byte, p)
      else None)"

definition GetVarint64Ptr :: "bytes \<Rightarrow> (u64 \<times> bytes) option" where
  "GetVarint64Ptr p = GetVarint64Ptr_loop 0 0 p"

definition GetVarint64 :: "bytes \<Rightarrow> (u64 \<times> bytes) option" where
  "GetVarint64 input = GetVarint64Ptr input"

text \<open>
  The two overloads of \<^verbatim>\<open>GetLengthPrefixedSlice\<close>, on a pair of pointers and on a \<^verbatim>\<open>Slice\<close>.
\<close>

definition GetLengthPrefixedSlicePtr :: "bytes \<Rightarrow> (bytes \<times> bytes) option" where
  "GetLengthPrefixedSlicePtr p =
     (case GetVarint32Ptr p of
        None \<Rightarrow> None
      | Some (len, q) \<Rightarrow>
          if unat len > length q then None
          else Some (take (unat len) q, drop (unat len) q))"

definition GetLengthPrefixedSlice :: "bytes \<Rightarrow> (bytes \<times> bytes) option" where
  "GetLengthPrefixedSlice input =
     (case GetVarint32 input of
        None \<Rightarrow> None
      | Some (len, input') \<Rightarrow>
          if length input' \<ge> unat len
          then Some (take (unat len) input', remove_prefix input' (unat len))
          else None)"

subsection \<open>Fixed-width round trips\<close>

lemma length_EncodeFixed [simp, word_bounds]:
  "length (EncodeFixed32 v) = 4" "length (EncodeFixed64 w) = 8"
  by (simp_all add: EncodeFixed32_def EncodeFixed64_def)

lemma bit_255: "bit (255 :: 'a::len word) n \<longleftrightarrow> n < LENGTH('a) \<and> n < 8"
proof -
  have "(255 :: 'a word) = mask 8" by (simp add: mask_eq_exp_minus_1)
  then show ?thesis by (simp only: bit_mask_iff) auto
qed

lemma bit_byte_of:
  "bit (ucast (drop_bit k v AND 0xff) :: byte) m \<longleftrightarrow> m < 8 \<and> bit (v :: 'a::len word) (k + m)"
  by (simp only: bit_unsigned_iff bit_and_iff bit_drop_bit_eq bit_255)
    (auto simp: possible_bit_word dest: bit_imp_le_length)

lemma bit_byte_of_0:
  "bit (ucast (v AND 0xff) :: byte) m \<longleftrightarrow> m < 8 \<and> bit (v :: 'a::len word) m"
  using bit_byte_of [of 0 v m] by simp

lemma bit_byte_at:
  "bit (push_bit k (ucast (b :: byte)) :: 'a::len word) n \<longleftrightarrow>
     k \<le> n \<and> n < LENGTH('a) \<and> n < k + 8 \<and> bit b (n - k)"
  by (auto simp: bit_simps dest: bit_imp_le_length)

lemma bit_byte_at_0:
  "bit (ucast (b :: byte) :: 'a::len word) n \<longleftrightarrow> n < LENGTH('a) \<and> n < 8 \<and> bit b n"
  using bit_byte_at [of 0 b n] by simp

lemmas byte_bits = bit_byte_of bit_byte_of_0 bit_byte_at bit_byte_at_0 bit_or_iff

lemma DecodeFixed32_EncodeFixed32 [simp, roundtrips]:
  "DecodeFixed32 (EncodeFixed32 v @ rest) = v"
proof (rule bit_word_eqI)
  fix n assume n: "n < LENGTH(32)"
  have d: "DecodeFixed32 (EncodeFixed32 v @ rest) =
      ucast (ucast (v AND 0xff) :: byte) OR
      push_bit 8 (ucast (ucast (drop_bit 8 v AND 0xff) :: byte)) OR
      push_bit 16 (ucast (ucast (drop_bit 16 v AND 0xff) :: byte)) OR
      push_bit 24 (ucast (ucast (drop_bit 24 v AND 0xff) :: byte))"
    by (simp add: DecodeFixed32_def EncodeFixed32_def)
  consider "n < 8" | "8 \<le> n" "n < 16" | "16 \<le> n" "n < 24" | "24 \<le> n" "n < 32"
    using n by fastforce
  then show "bit (DecodeFixed32 (EncodeFixed32 v @ rest)) n = bit v n"
    unfolding d byte_bits by cases (auto simp: bit_drop_bit_eq)
qed

lemma DecodeFixed32_append: "length p \<ge> 4 \<Longrightarrow> DecodeFixed32 (p @ rest) = DecodeFixed32 p"
  unfolding DecodeFixed32_def
  by (subst (1 2 3 4) nth_append_first) auto

lemma EncodeFixed64_halves:
  "EncodeFixed64 v = EncodeFixed32 (ucast v) @ EncodeFixed32 (ucast (drop_bit 32 v))"
proof -
  have lo: "(ucast (drop_bit k (ucast v :: u32) AND 0xff) :: byte) = ucast (drop_bit k v AND 0xff)"
    if "k \<le> 24" for k
    using that by (intro bit_word_eqI) (auto simp: bit_byte_of bit_simps)
  have hi: "(ucast (drop_bit k (ucast (drop_bit 32 v) :: u32) AND 0xff) :: byte) =
      ucast (drop_bit (k + 32) v AND 0xff)" if "k \<le> 24" for k
    using that by (intro bit_word_eqI) (auto simp: bit_byte_of bit_simps ac_simps)
  show ?thesis
    using lo [of 0] lo [of 8] lo [of 16] lo [of 24] hi [of 0] hi [of 8] hi [of 16] hi [of 24]
    by (simp add: EncodeFixed64_def EncodeFixed32_def)
qed

lemma DecodeFixed64_EncodeFixed64 [simp, roundtrips]:
  "DecodeFixed64 (EncodeFixed64 v @ rest) = v"
proof -
  have "push_bit 32 (ucast (ucast (drop_bit 32 v) :: u32)) OR ucast (ucast v :: u32) = v"
    by (rule bit_word_eqI) (auto simp: bit_simps)
  then show ?thesis
    by (simp add: DecodeFixed64_def EncodeFixed64_halves)
qed

lemmas DecodeFixed_exact [simp, roundtrips] =
  DecodeFixed32_EncodeFixed32 [where rest = "[]", simplified]
  DecodeFixed64_EncodeFixed64 [where rest = "[]", simplified]

lemma length_ge_4E:
  assumes "length p \<ge> 4"
  obtains b0 b1 b2 b3 q where "p = b0 # b1 # b2 # b3 # q"
  using assms by (auto simp: numeral_eq_Suc Suc_le_length_iff)

lemma EncodeFixed32_DecodeFixed32: "length p \<ge> 4 \<Longrightarrow> EncodeFixed32 (DecodeFixed32 p) = take 4 p"
proof (erule length_ge_4E)
  fix b0 b1 b2 b3 q assume p: "p = b0 # b1 # b2 # b3 # q"
  have d: "DecodeFixed32 p = ucast b0 OR push_bit 8 (ucast b1) OR push_bit 16 (ucast b2) OR push_bit 24 (ucast b3)"
    by (simp add: DecodeFixed32_def p)
  have "ucast (DecodeFixed32 p AND 0xff) = b0" "ucast (drop_bit 8 (DecodeFixed32 p) AND 0xff) = b1"
    "ucast (drop_bit 16 (DecodeFixed32 p) AND 0xff) = b2" "ucast (drop_bit 24 (DecodeFixed32 p) AND 0xff) = b3"
    by (rule bit_word_eqI; unfold bit_byte_of bit_byte_of_0 bit_drop_bit_eq comp_apply d byte_bits; auto dest: bit_imp_le_length)+
  then show ?thesis by (simp add: EncodeFixed32_def p)
qed

lemma u64_halves:
  fixes hi lo :: u32
  shows "ucast (drop_bit 32 (push_bit 32 (ucast hi) OR ucast lo :: u64)) = hi"
    and "ucast (push_bit 32 (ucast hi) OR ucast lo :: u64) = lo"
    and "ucast (ucast lo :: u64) = lo"
  by (rule bit_word_eqI; auto simp: bit_simps dest: bit_imp_le_length)+

lemma EncodeFixed64_DecodeFixed64: "length p \<ge> 8 \<Longrightarrow> EncodeFixed64 (DecodeFixed64 p) = take 8 p"
proof -
  assume l: "length p \<ge> 8"
  have h: "ucast (drop_bit 32 (DecodeFixed64 p)) = DecodeFixed32 (drop 4 p)" "ucast (DecodeFixed64 p) = DecodeFixed32 p"
    unfolding DecodeFixed64_def Let_def by (rule u64_halves)+
  have "take 8 p = take 4 p @ take 4 (drop 4 p)" by (simp flip: take_add)
  then show ?thesis
    using l by (simp add: EncodeFixed64_halves h EncodeFixed32_DecodeFixed32)
qed

text \<open>Arrays of fixed-width integers.\<close>

lemma fold_PutFixed32: "fold (\<lambda>off dst. PutFixed32 dst off) offs r = r @ concat (map EncodeFixed32 offs)"
  by (induction offs arbitrary: r) (simp_all add: PutFixed32_def)

lemma length_Fixed32_array [simp]: "length (concat (map EncodeFixed32 xs)) = 4 * length xs"
  by (induction xs) simp_all

lemma DecodeFixed32_array:
  "i < length xs \<Longrightarrow> DecodeFixed32 (drop (4 * i) (concat (map EncodeFixed32 xs) @ rest)) = xs ! i"
proof (induction xs arbitrary: i)
  case Nil
  then show ?case by simp
next
  case (Cons x xs)
  show ?case
  proof (cases i)
    case 0
    then show ?thesis by simp
  next
    case (Suc j)
    then show ?thesis using Cons by simp
  qed
qed

subsection \<open>Varints: a common specification\<close>

text \<open>
  Both encoders produce the base-128 digits of the value, least significant first, with the top
  bit set on every byte but the last; both decoders are one loop that differs in the width of its
  accumulator and in the last shift it allows.
\<close>

fun varint_spec :: "nat \<Rightarrow> bytes" where
  "varint_spec n =
     (if n < 128 then [word_of_nat n]
      else word_of_nat (n mod 128 + 128) # varint_spec (n div 128))"

declare varint_spec.simps [simp del]

lemma and_128_iff: "(w :: 'a::len word) AND 128 = 0 \<longleftrightarrow> \<not> bit w 7"
proof -
  have "(128 :: 'a word) = 2 ^ 7" by simp
  then show ?thesis by (simp only: and_exp_eq_0_iff_not_bit)
qed

lemma take_bit_nat_7: "take_bit 7 (n :: nat) = n mod 128"
  by (simp add: take_bit_eq_mod)

lemma varint_more_byte:
  "(word_of_nat (n mod 128 + 128) :: byte) = (word_of_nat n AND 127) OR 128"
proof -
  have "(127 :: byte) = mask 7" by (simp add: mask_eq_exp_minus_1)
  then have m: "word_of_nat (n mod 128) = (word_of_nat n :: byte) AND 127"
    by (metis take_bit_eq_mask take_bit_nat_7 take_bit_of_nat)
  have "((word_of_nat n :: byte) AND 127) + 128 = (word_of_nat n AND 127) OR 128"
    by (rule disjunctive_add) (auto simp: bit_simps bit_mask_numerals)
  with m show ?thesis by simp
qed

lemma EncodeVarint64_spec: "EncodeVarint64 v = varint_spec (unat v)"
proof (induction v rule: EncodeVarint64.induct)
  case (1 v)
  have b: "(ucast ((v AND 127) OR 128) :: byte) = word_of_nat (unat v mod 128 + 128)"
    unfolding varint_more_byte
    by (rule bit_word_eqI) (simp add: bit_unsigned_iff bit_and_iff bit_or_iff bit_mask_numerals bit_of_nat_iff possible_bit_word)
  have d: "unat (drop_bit 7 v) = unat v div 128"
    by (simp add: drop_bit_eq_div unat_div)
  show ?case
    using 1 b d by (simp add: EncodeVarint64.simps [of v] varint_spec.simps [of "unat v"] word_le_nat_alt)
qed

lemma varint_spec_simps:
  "n < 128 \<Longrightarrow> varint_spec n = [word_of_nat n]"
  "128 \<le> n \<Longrightarrow> varint_spec n = word_of_nat (n mod 128 + 128) # varint_spec (n div 128)"
  by (simp_all add: varint_spec.simps [of n])

lemma EncodeVarint32_spec: "EncodeVarint32 v = varint_spec (unat v)"
proof -
  have m: "(ucast (drop_bit k v OR 128) :: byte) = word_of_nat (unat v div 2 ^ k mod 128 + 128)" for k
    unfolding varint_more_byte
    by (rule bit_word_eqI) (simp add: bit_unsigned_iff bit_and_iff bit_or_iff bit_mask_numerals bit_of_nat_iff possible_bit_word
        bit_drop_bit_eq flip: drop_bit_eq_div, linarith)
  have l: "(ucast (drop_bit k v) :: byte) = word_of_nat (unat v div 2 ^ k)" for k
    by (rule bit_word_eqI) (simp add: bit_unsigned_iff bit_of_nat_iff possible_bit_word bit_drop_bit_eq flip: drop_bit_eq_div)
  have "unat v < 2 ^ 32" using unsigned_less [of v] by simp
  then have "unat v div 268435456 < 128" by simp
  then show ?thesis
    using m [of 0] m [of 7] m [of 14] m [of 21] l [of 0] l [of 7] l [of 14] l [of 21] l [of 28]
    by (auto simp: EncodeVarint32_def word_less_nat_alt varint_spec_simps  not_less div_mult2_eq[symmetric])
qed

fun varint_loop :: "nat \<Rightarrow> 'a::len word \<Rightarrow> nat \<Rightarrow> bytes \<Rightarrow> ('a word \<times> bytes) option" where
  "varint_loop max_shift result shift [] = None"
| "varint_loop max_shift result shift (c # p) =
     (if shift \<le> max_shift then
        if bit c 7
        then varint_loop max_shift (result OR push_bit shift (ucast c AND 127)) (shift + 7) p
        else Some (result OR push_bit shift (ucast c), p)
      else None)"

lemma GetVarint32Ptr_loop_eq: "GetVarint32Ptr_loop r s p = varint_loop 28 r s p"
  by (induction r s p rule: GetVarint32Ptr_loop.induct) (simp_all add: and_128_iff bit_unsigned_iff Let_def)

lemma GetVarint64Ptr_loop_eq: "GetVarint64Ptr_loop r s p = varint_loop 63 r s p"
  by (induction r s p rule: GetVarint64Ptr_loop.induct) (simp_all add: and_128_iff bit_unsigned_iff Let_def)

lemma varint_glue:
  "(r OR push_bit s (word_of_nat n AND 127)) OR push_bit (s + 7) (word_of_nat (n div 128)) =
     (r :: 'a::len word) OR push_bit s (word_of_nat n)"
proof (rule bit_word_eqI)
  fix i assume i: "i < LENGTH('a)"
  have d: "n div 128 = drop_bit 7 n" by (simp add: drop_bit_eq_div)
  have "7 + (i - (s + 7)) = i - s" if "s + 7 \<le> i" using that by simp
  then show "bit ((r OR push_bit s (word_of_nat n AND 127)) OR
      push_bit (s + 7) (word_of_nat (n div 128))) i = bit (r OR push_bit s (word_of_nat n)) i"
    unfolding d using i
    by (cases "s + 7 \<le> i") (auto simp: bit_or_iff bit_and_iff bit_push_bit_iff bit_of_nat_iff bit_mask_numerals
        bit_drop_bit_eq possible_bit_word)
qed

lemma varint_loop_spec:
  fixes r :: "'a::len word"
  assumes len: "8 \<le> LENGTH('a)"
    and max_ok: "\<And>s. s mod 7 = 0 \<Longrightarrow> s < LENGTH('a) \<Longrightarrow> s \<le> M"
    and "shift mod 7 = 0" "n * 2 ^ shift < 2 ^ LENGTH('a)" "shift < LENGTH('a)"
  shows "varint_loop M r shift (varint_spec n @ rest) = Some (r OR push_bit shift (word_of_nat n), rest)"
  using assms(3-)
proof (induction n arbitrary: r shift rule: varint_spec.induct)
  case (1 n)
  show ?case
  proof (cases "n < 128")
    case True
    then have "\<not> bit (word_of_nat n :: byte) 7"
      by (simp add: bit_of_nat_iff bit_iff_odd [of n])
    moreover from True have "(ucast (word_of_nat n :: byte) :: 'a word) = word_of_nat n"
      by (simp add: unsigned_of_nat take_bit_nat_eq_self)
    ultimately show ?thesis
      using True 1 max_ok by (simp add: varint_spec_simps)
  next
    case False
    let ?c = "word_of_nat (n mod 128 + 128) :: byte"
    have c: "bit ?c 7" "(ucast ?c :: 'a word) AND 127 = word_of_nat n AND 127"
      unfolding varint_more_byte using len
      by (auto simp: bit_or_iff bit_mask_numerals bit_unsigned_iff bit_and_iff bit_mask_numerals bit_of_nat_iff possible_bit_word intro!: bit_word_eqI)
    have "128 * 2 ^ shift \<le> n * 2 ^ shift" using False by simp
    moreover have "2 ^ (shift + 7) = 128 * (2 :: nat) ^ shift" by (simp add: power_add)
    ultimately have "2 ^ (shift + 7) < (2 :: nat) ^ LENGTH('a)"
      using 1(3) by linarith
    then have s: "shift + 7 < LENGTH('a)" by simp
    have "n div 128 * 2 ^ (shift + 7) \<le> n * 2 ^ shift"
      by (simp add: power_add mult.assoc)
    then have "n div 128 * 2 ^ (shift + 7) < 2 ^ LENGTH('a)"
      using 1(3) by simp
    moreover have "(r OR push_bit shift (word_of_nat n AND 127)) OR push_bit (shift + 7) (word_of_nat (n div 128)) 
       = r OR push_bit shift (word_of_nat n)"
      by (rule varint_glue)
    ultimately show ?thesis
      using False 1 c s max_ok by (simp add: varint_spec_simps)
  qed
qed

lemma varint_spec_nonempty [simp]: "varint_spec n \<noteq> []"
  by (subst varint_spec.simps) simp

lemma length_varint_spec: "n < 128 ^ k \<Longrightarrow> 0 < k \<Longrightarrow> length (varint_spec n) \<le> k"
proof (induction n arbitrary: k rule: varint_spec.induct)
  case (1 n)
  show ?case
  proof (cases "n < 128")
    case True
    then show ?thesis using 1 by (simp add: varint_spec_simps)
  next
    case False
    with 1(2) obtain m where m: "k = Suc m" "0 < m" by (cases k; cases "k = 1") auto
    then have "n div 128 < 128 ^ m" using 1(2) by (simp add: less_mult_imp_div_less mult.commute)
    then show ?thesis using False 1 m by (simp add: varint_spec_simps)
  qed
qed

lemma VarintLength_loop_spec: "VarintLength_loop v len + 1 = len + length (EncodeVarint64 v)"
proof (induction v len rule: VarintLength_loop.induct)
  case (1 v len)
  then show ?case
    by (simp add: VarintLength_loop.simps [of v] EncodeVarint64.simps [of v])
qed

lemma GetVarint64_spec:
  "n < 2 ^ 64 \<Longrightarrow> GetVarint64 (varint_spec n @ rest) = Some (word_of_nat n, rest)"
  unfolding GetVarint64_def GetVarint64Ptr_def GetVarint64Ptr_loop_eq
  by (subst varint_loop_spec) auto

lemma GetVarint32PtrFallback_spec:
  "n < 2 ^ 32 \<Longrightarrow> GetVarint32PtrFallback (varint_spec n @ rest) = Some (word_of_nat n, rest)"
  unfolding GetVarint32PtrFallback_def GetVarint32Ptr_loop_eq
  by (subst varint_loop_spec) auto

text \<open>The inlined fast path agrees with the loop.\<close>

lemma GetVarint32Ptr_eq_Fallback: "GetVarint32Ptr p = GetVarint32PtrFallback p"
  by (cases p) (simp_all add: GetVarint32Ptr_def GetVarint32PtrFallback_def Let_def)

lemma GetVarint32_spec:
  "n < 2 ^ 32 \<Longrightarrow> GetVarint32 (varint_spec n @ rest) = Some (word_of_nat n, rest)"
  by (simp add: GetVarint32_def GetVarint32Ptr_eq_Fallback GetVarint32PtrFallback_spec)

lemma varint_loop_None:
  "varint_loop M r s p = None \<longleftrightarrow>
     (\<forall>c \<in> set (take (if s \<le> M then (M - s) div 7 + 1 else 0) p). bit c 7)"
proof (induction M r s p rule: varint_loop.induct)
  case (1 M r s)
  then show ?case by simp
next
  case (2 M r s c p)
  show ?case
  proof (cases "s + 7 \<le> M")
    case True
    then have "(M - s) div 7 = (M - (s + 7)) div 7 + 1" by (auto dest: le_Suc_ex)
    then show ?thesis using 2 True by auto
  next
    case False
    then have "s \<le> M \<Longrightarrow> (M - s) div 7 = 0" by simp
    then show ?thesis using 2 False by auto
  qed
qed

lemma varint_loop_consumes:
  "varint_loop M r s p = Some (v, rest) \<Longrightarrow>
     \<exists>k \<in> {1..(M - s) div 7 + 1}. rest = drop k p \<and> k \<le> length p"
proof (induction M r s p rule: varint_loop.induct)
  case (1 M r s)
  then show ?case by simp
next
  case (2 M r s c p)
  show ?case
  proof (cases "bit c 7")
    case True
    then have e: "varint_loop M (r OR push_bit s (ucast c AND 127)) (s + 7) p = Some (v, rest)"
      and "s \<le> M" using 2(2) by (simp_all split: if_splits)
    then obtain k where k: "k \<in> {1..(M - (s + 7)) div 7 + 1}" "rest = drop k p" "k \<le> length p"
      using 2(1) True by blast
    have "s + 7 \<le> M" using e by (cases p) (auto split: if_splits)
    then have "(M - s) div 7 = (M - (s + 7)) div 7 + 1" by (auto dest: le_Suc_ex)
    then show ?thesis using k by (intro bexI [of _ "Suc k"]) auto
  next
    case False
    then show ?thesis using 2(2) by (intro bexI [of _ 1]) (auto split: if_splits)
  qed
qed

lemma GetVarint32_loop: "GetVarint32 p = varint_loop 28 0 0 p"
  by (simp add: GetVarint32_def GetVarint32Ptr_eq_Fallback GetVarint32PtrFallback_def
      GetVarint32Ptr_loop_eq)

lemma GetVarint64_loop: "GetVarint64 p = varint_loop 63 0 0 p"
  by (simp add: GetVarint64_def GetVarint64Ptr_def GetVarint64Ptr_loop_eq)

subsection \<open>Properties\<close>

lemma EncodeVarint_roundtrips [roundtrips]:
  "GetVarint64 (EncodeVarint64 v @ rest) = Some (v, rest)"
  "GetVarint32 (EncodeVarint32 w @ rest) = Some (w, rest)"
  "GetVarint32Ptr (EncodeVarint32 w @ rest) = Some (w, rest)"
  using unat_bounds(2) [of w] unat_bounds(3) [of v] GetVarint32_spec [of "unat w" rest]
  by (simp_all add: EncodeVarint64_spec EncodeVarint32_spec GetVarint64_spec GetVarint32_def)

lemma length_EncodeVarint [word_bounds]:
  "length (EncodeVarint64 v) \<in> {1..10}" "length (EncodeVarint32 w) \<in> {1..5}"
proof -
  have "unat v < 128 ^ 10" "unat w < 128 ^ 5"
    using unat_bounds(2) [of w] unat_bounds(3) [of v] by simp_all
  then show "length (EncodeVarint64 v) \<in> {1..10}" "length (EncodeVarint32 w) \<in> {1..5}"
    using length_varint_spec [of "unat v" 10] length_varint_spec [of "unat w" 5]
    by (simp_all add: EncodeVarint64_spec EncodeVarint32_spec Suc_le_eq)
qed

lemma GetLengthPrefixedSlice_Put [roundtrips]:
  "length value < 2 ^ 32 \<Longrightarrow>
     GetLengthPrefixedSlice (PutLengthPrefixedSlice [] value @ rest) = Some (value, rest)"
  by (simp add: GetLengthPrefixedSlice_def PutLengthPrefixedSlice_def PutVarint32_def
      EncodeVarint_roundtrips remove_prefix_def)

lemma PutLengthPrefixedSlice_append:
  "PutLengthPrefixedSlice dst value = dst @ PutLengthPrefixedSlice [] value"
  by (simp add: PutLengthPrefixedSlice_def PutVarint32_def)

text \<open>Claim C36: reading a varint back returns the value that was written and leaves exactly the
  bytes that follow it, for every 64-bit and every 32-bit value and whatever follows.\<close>

theorem varint_roundtrip:
  "GetVarint64 (PutVarint64 [] v @ rest) = Some (v, rest) \<and>
   GetVarint32 (PutVarint32 [] w @ rest) = Some (w, rest)"
  by (simp add: PutVarint64_def PutVarint32_def EncodeVarint_roundtrips)

text \<open>Claim C38: the unrolled 32-bit encoder writes the same bytes as the 64-bit encoding loop, at
  most five of them, and \<^verbatim>\<open>VarintLength\<close> is the number of bytes the encoding loop writes, at most
  ten.\<close>

theorem varint32_unrolled_equals_loop:
  "EncodeVarint32 w = EncodeVarint64 (ucast w) \<and> length (EncodeVarint32 w) \<le> 5 \<and>
   VarintLength v = length (EncodeVarint64 v) \<and> VarintLength v \<le> 10"
proof -
  have "VarintLength v = length (EncodeVarint64 v)"
    using VarintLength_loop_spec [of v 1] by (simp add: VarintLength_def)
  moreover have "unat (ucast w :: u64) = unat w"
    using unat_bounds(2) [of w] by (simp add: unsigned_ucast_eq take_bit_nat_eq_self_iff)
  ultimately show ?thesis
    using length_EncodeVarint(1) [of v] length_EncodeVarint(2) [of w]
    by (simp add: EncodeVarint64_spec EncodeVarint32_spec)
qed

text \<open>Claim C37: \<^verbatim>\<open>GetVarint32\<close> fails exactly when none of the first five bytes of the input ends a
  varint; when it succeeds it has consumed between one and five bytes of the input and never reads
  past its end.\<close>

theorem GetVarint32_fails_iff:
  "(GetVarint32 p = None \<longleftrightarrow> (\<forall>c \<in> set (take 5 p). bit c 7)) \<and>
   (\<forall>v rest. GetVarint32 p = Some (v, rest) \<longrightarrow>
      (\<exists>k. 1 \<le> k \<and> k \<le> 5 \<and> k \<le> length p \<and> rest = drop k p))"
  using varint_loop_None [of 28 0 0 p] varint_loop_consumes [of 28 0 0 p]
  by (fastforce simp: GetVarint32_loop)

theorem GetVarint32_fails_iff_witness:
  "GetVarint32 [0x96, 0x01, 0x2a] = Some (150, [0x2a]) \<and>
   (\<exists>k. 1 \<le> k \<and> k \<le> 5 \<and> k \<le> length [0x96, 0x01, 0x2a :: byte] \<and>
      [0x2a] = drop k [0x96, 0x01, 0x2a :: byte])"
proof -
  have "GetVarint32 [0x96, 0x01, 0x2a] = Some (150, [0x2a])"
    by code_simp
  then show ?thesis using GetVarint32_fails_iff by blast
qed

text \<open>A length-prefixed slice shorter than 2 to the 32 bytes is read back whole, and the
  rest of the input is left untouched.\<close>

theorem length_prefixed_roundtrip:
  assumes "length value < 2 ^ 32"
  shows "GetLengthPrefixedSlice (PutLengthPrefixedSlice [] value @ rest) = Some (value, rest)"
  using assms by (rule GetLengthPrefixedSlice_Put)

theorem length_prefixed_roundtrip_witness:
  "GetLengthPrefixedSlice (PutLengthPrefixedSlice [] [7, 8, 9] @ [1]) = Some ([7, 8, 9], [1])"
  by (rule length_prefixed_roundtrip) simp

end
