(* ===== verification/LDB_Status.thy ===== *)
theory LDB_Status
  imports LDB_Coding
begin

text \<open>
  \<^verbatim>\<open>include/leveldb/status.h\<close> and \<^verbatim>\<open>util/status.cc\<close>: the result of an operation that can fail.
  A status is its \<^verbatim>\<open>state_\<close> pointer, \<^const>\<open>None\<close> for success and otherwise the array of the
  length of the message (four bytes, in memory order), the code and the message.
\<close>

type_synonym status = "bytes option"

datatype code = kOk | kNotFound | kCorruption | kNotSupported | kInvalidArgument | kIOError

fun code_byte :: "code \<Rightarrow> byte" where
  "code_byte kOk = 0"
| "code_byte kNotFound = 1"
| "code_byte kCorruption = 2"
| "code_byte kNotSupported = 3"
| "code_byte kInvalidArgument = 4"
| "code_byte kIOError = 5"

definition Status_OK :: status where
  "Status_OK = None"

text \<open>The constructor \<^verbatim>\<open>Status(code, msg, msg2)\<close>; an empty second message leaves out the separator.\<close>

definition mk_Status :: "code \<Rightarrow> bytes \<Rightarrow> bytes \<Rightarrow> status" where
  "mk_Status c msg msg2 =
     (let len1 = word_of_nat (length msg) :: u32;
          len2 = word_of_nat (length msg2) :: u32;
          size = len1 + (if len2 \<noteq> 0 then 2 + len2 else 0)
      in Some (EncodeFixed32 size @ [code_byte c] @ take (unat len1) msg @
           (if len2 \<noteq> 0 then str '': '' @ take (unat len2) msg2 else [])))"

definition Status_NotFound :: "bytes \<Rightarrow> bytes \<Rightarrow> status" where
  "Status_NotFound msg msg2 = mk_Status kNotFound msg msg2"

definition Status_Corruption :: "bytes \<Rightarrow> bytes \<Rightarrow> status" where
  "Status_Corruption msg msg2 = mk_Status kCorruption msg msg2"

definition Status_NotSupported :: "bytes \<Rightarrow> bytes \<Rightarrow> status" where
  "Status_NotSupported msg msg2 = mk_Status kNotSupported msg msg2"

definition Status_InvalidArgument :: "bytes \<Rightarrow> bytes \<Rightarrow> status" where
  "Status_InvalidArgument msg msg2 = mk_Status kInvalidArgument msg msg2"

definition Status_IOError :: "bytes \<Rightarrow> bytes \<Rightarrow> status" where
  "Status_IOError msg msg2 = mk_Status kIOError msg msg2"

definition ok :: "status \<Rightarrow> bool" where
  "ok s \<longleftrightarrow> s = None"

definition status_code :: "status \<Rightarrow> byte" where
  "status_code s = (case s of None \<Rightarrow> code_byte kOk | Some state \<Rightarrow> state ! 4)"

definition IsNotFound :: "status \<Rightarrow> bool" where
  "IsNotFound s \<longleftrightarrow> status_code s = code_byte kNotFound"

definition IsCorruption :: "status \<Rightarrow> bool" where
  "IsCorruption s \<longleftrightarrow> status_code s = code_byte kCorruption"

definition IsIOError :: "status \<Rightarrow> bool" where
  "IsIOError s \<longleftrightarrow> status_code s = code_byte kIOError"

definition IsNotSupportedError :: "status \<Rightarrow> bool" where
  "IsNotSupportedError s \<longleftrightarrow> status_code s = code_byte kNotSupported"

definition IsInvalidArgument :: "status \<Rightarrow> bool" where
  "IsInvalidArgument s \<longleftrightarrow> status_code s = code_byte kInvalidArgument"

text \<open>Copying a status copies the header, the code and as many bytes as the header says.\<close>

definition CopyState :: "bytes \<Rightarrow> bytes" where
  "CopyState state = take (unat (DecodeFixed32 state) + 5) state"

text \<open>
  \<^verbatim>\<open>Status::ToString\<close>; the \<^verbatim>\<open>default\<close> branch of its switch prints the number of a code that no
  constructor produces, and is the argument \<open>unknown\<close>.
\<close>

definition ToString :: "(byte \<Rightarrow> bytes) \<Rightarrow> status \<Rightarrow> bytes" where
  "ToString unknown s =
     (case s of
        None \<Rightarrow> str ''OK''
      | Some state \<Rightarrow>
          let c = status_code s;
              type =
                (if c = code_byte kOk then str ''OK''
                 else if c = code_byte kNotFound then str ''NotFound: ''
                 else if c = code_byte kCorruption then str ''Corruption: ''
                 else if c = code_byte kNotSupported then str ''Not implemented: ''
                 else if c = code_byte kInvalidArgument then str ''Invalid argument: ''
                 else if c = code_byte kIOError then str ''IO error: ''
                 else unknown c)
          in type @ take (unat (DecodeFixed32 state)) (drop 5 state))"

subsection \<open>Facts\<close>

lemma code_byte_inject [simp]: "code_byte a = code_byte b \<longleftrightarrow> a = b"
  by (cases a; cases b) simp_all

lemma ok_simps [simp]:
  "ok Status_OK" "ok None" "\<not> ok (Some st)" "\<not> ok (mk_Status c m m2)"
  by (simp_all add: ok_def Status_OK_def mk_Status_def Let_def)

lemmas status_constructors =
  Status_NotFound_def Status_Corruption_def Status_NotSupported_def Status_InvalidArgument_def
  Status_IOError_def

lemma errors_not_ok [simp]:
  "\<not> ok (Status_NotFound m m2)" "\<not> ok (Status_Corruption m m2)" "\<not> ok (Status_NotSupported m m2)"
  "\<not> ok (Status_InvalidArgument m m2)" "\<not> ok (Status_IOError m m2)"
  by (simp_all add: status_constructors)

lemma errors_not_OK [simp]:
  "mk_Status c m m2 \<noteq> Status_OK" "Status_OK \<noteq> mk_Status c m m2"
  "Status_Corruption m m2 \<noteq> Status_OK" "Status_OK \<noteq> Status_Corruption m m2"
  "Status_NotFound m m2 \<noteq> Status_OK" "Status_OK \<noteq> Status_NotFound m m2"
  by (auto simp: Status_OK_def mk_Status_def Let_def status_constructors)

lemma ok_iff: "ok s \<longleftrightarrow> s = Status_OK"
  by (simp add: ok_def Status_OK_def)

lemma status_code_mk [simp]: "status_code (mk_Status c m m2) = code_byte c"
  by (simp add: status_code_def mk_Status_def Let_def nth_append)

lemma IsCorruption_Corruption [simp]: "IsCorruption (Status_Corruption m m2)"
  by (simp add: IsCorruption_def Status_Corruption_def)

lemma IsNotFound_NotFound [simp]: "IsNotFound (Status_NotFound m m2)"
  by (simp add: IsNotFound_def Status_NotFound_def)

definition status_message :: "bytes \<Rightarrow> bytes \<Rightarrow> bytes" where
  "status_message msg msg2 = (if msg2 = [] then msg else msg @ str '': '' @ msg2)"

lemma mk_Status_layout:
  assumes "length msg + length msg2 + 2 < 2 ^ 32"
  shows "mk_Status c msg msg2 =
    Some (EncodeFixed32 (word_of_nat (length (status_message msg msg2))) @ [code_byte c] @
      status_message msg msg2)"
proof (cases "msg2 = []")
  case True
  with assms show ?thesis by (simp add: mk_Status_def status_message_def Let_def)
next
  case False
  have "unat (word_of_nat (length msg2) :: u32) = length msg2"
    using assms by (intro unat_word_of_nat_small) simp
  with False have "(word_of_nat (length msg2) :: u32) \<noteq> 0" by auto
  moreover have "word_of_nat (length (status_message msg msg2)) =
      (word_of_nat (length msg) + (2 + word_of_nat (length msg2)) :: u32)"
    using False by (simp add: status_message_def)
  moreover have "unat (word_of_nat (length msg) :: u32) = length msg"
    using assms by (intro unat_word_of_nat_small) simp
  ultimately show ?thesis
    using False \<open>unat (word_of_nat (length msg2) :: u32) = length msg2\<close>
    by (simp add: mk_Status_def Let_def) (simp add: status_message_def)
qed

lemma length_status_message:
  "length (status_message msg msg2) \<le> length msg + length msg2 + 2"
  by (simp add: status_message_def)

subsection \<open>Properties\<close>

text \<open>An error status keeps its code and its message: it is never ok, the predicate of its
  own class is the only one that holds of it, a copy is equal to it, and printing it gives the name
  of the class and the message, the two parts of the message separated by a colon.\<close>

theorem status_keeps_code_and_message:
  assumes "length msg + length msg2 + 2 < 2 ^ 32"
  shows "\<exists>state. Status_Corruption msg msg2 = Some state \<and> CopyState state = state \<and>
      IsCorruption (Some state) \<and> \<not> IsNotFound (Some state) \<and> \<not> IsIOError (Some state) \<and>
      \<not> IsNotSupportedError (Some state) \<and> \<not> IsInvalidArgument (Some state) \<and> \<not> ok (Some state) \<and>
      ToString unknown (Some state) =
        str ''Corruption: '' @ (if msg2 = [] then msg else msg @ str '': '' @ msg2)"
proof -
  let ?m = "status_message msg msg2"
  let ?state = "EncodeFixed32 (word_of_nat (length ?m)) @ [code_byte kCorruption] @ ?m"
  have s: "Status_Corruption msg msg2 = Some ?state"
    unfolding Status_Corruption_def by (rule mk_Status_layout [OF assms])
  have "length ?m < 2 ^ 32"
    using assms length_status_message [of msg msg2] by simp
  then have n: "unat (DecodeFixed32 ?state) = length ?m" by simp
  have c: "status_code (Some ?state) = code_byte kCorruption"
    by (simp add: status_code_def nth_append)
  have "CopyState ?state = ?state"
    unfolding CopyState_def n by simp
  moreover have "ToString unknown (Some ?state) = str ''Corruption: '' @ ?m"
    unfolding ToString_def option.case Let_def c n by simp
  ultimately show ?thesis
    using s c by (simp add: IsCorruption_def IsNotFound_def IsIOError_def IsNotSupportedError_def
        IsInvalidArgument_def status_message_def del: append.simps)
qed

theorem status_keeps_code_and_message_witness:
  "\<exists>state. Status_Corruption (str ''bad'') (str ''f'') = Some state \<and> CopyState state = state \<and>
      IsCorruption (Some state) \<and> \<not> IsNotFound (Some state) \<and> \<not> IsIOError (Some state) \<and>
      \<not> IsNotSupportedError (Some state) \<and> \<not> IsInvalidArgument (Some state) \<and> \<not> ok (Some state) \<and>
      ToString (\<lambda>_. []) (Some state) =
        str ''Corruption: '' @
          (if str ''f'' = [] then str ''bad'' else str ''bad'' @ str '': '' @ str ''f'')"
  by (rule status_keeps_code_and_message) simp

end
