(* ===== verification/LDB_Env.thy ===== *)
theory LDB_Env
  imports LDB_Status LDB_Slice
begin

text \<open>
  The file abstractions of \<^verbatim>\<open>include/leveldb/env.h\<close> and the classes of \<^verbatim>\<open>util/env_posix.cc\<close> that
  implement them. \<^verbatim>\<open>SequentialFile\<close>, \<^verbatim>\<open>RandomAccessFile\<close> and \<^verbatim>\<open>WritableFile\<close> are the locales
  \<open>sequential_file\<close>, \<open>random_access_file\<close> and \<open>writable_file\<close>; the POSIX classes interpret them. What
  the classes use of the C library and the kernel is modelled by two records: a stream opened for
  reading, which may run into a device error, and a buffered stream opened for writing, whose
  device accepts a bounded number of bytes.
\<close>

subsection \<open>C streams\<close>

text \<open>A stream opened with mode \<open>r\<close>; \<open>cf_bad\<close> is the offset at which the device reports an error.\<close>

record read_stream =
  cf_data :: bytes
  cf_pos :: nat
  cf_bad :: "nat option"
  cf_errno :: bytes

definition fread_unlocked :: "nat \<Rightarrow> read_stream \<Rightarrow> bytes \<times> read_stream" where
  "fread_unlocked n f =
     (let limit = (case cf_bad f of None \<Rightarrow> length (cf_data f) | Some b \<Rightarrow> min b (length (cf_data f)));
          r = take n (drop (cf_pos f) (take limit (cf_data f)))
      in (r, f\<lparr>cf_pos := cf_pos f + length r\<rparr>))"

text \<open>The end-of-file indicator after a short read: the stream stands at the end of the data.\<close>

definition feof :: "read_stream \<Rightarrow> bool" where
  "feof f \<longleftrightarrow> length (cf_data f) \<le> cf_pos f"

text \<open>\<^verbatim>\<open>fseek (f, n, SEEK_CUR)\<close>; the offset is a signed 64-bit number and may pass the end.\<close>

definition fseek_cur :: "u64 \<Rightarrow> read_stream \<Rightarrow> bool \<times> read_stream" where
  "fseek_cur n f =
     (if int (cf_pos f) + sint n < 0 then (True, f)
      else (False, f\<lparr>cf_pos := nat (int (cf_pos f) + sint n)\<rparr>))"

text \<open>A buffered stream opened for writing; \<open>wf_room\<close> is what the device still takes.\<close>

record write_stream =
  wf_disk :: bytes
  wf_buf :: bytes
  wf_room :: nat
  wf_bad_flush :: bool
  wf_errno :: bytes

definition fwrite_unlocked :: "bytes \<Rightarrow> write_stream \<Rightarrow> nat \<times> write_stream" where
  "fwrite_unlocked d f =
     (let r = min (length d) (wf_room f)
      in (r, f\<lparr>wf_buf := wf_buf f @ take r d, wf_room := wf_room f - r\<rparr>))"

definition fflush_unlocked :: "write_stream \<Rightarrow> bool \<times> write_stream" where
  "fflush_unlocked f =
     (if wf_bad_flush f then (True, f)
      else (False, f\<lparr>wf_disk := wf_disk f @ wf_buf f, wf_buf := []\<rparr>))"

subsection \<open>The POSIX files\<close>

record posix_sequential =
  ps_filename :: bytes
  ps_file :: read_stream

definition PosixSequentialFile_Read ::
    "nat \<Rightarrow> posix_sequential \<Rightarrow> status \<times> bytes \<times> posix_sequential" where
  "PosixSequentialFile_Read n f =
     (let (result, file) = fread_unlocked n (ps_file f);
          s = (if length result < n then
                 if feof file then Status_OK
                 else Status_IOError (ps_filename f) (cf_errno file)
               else Status_OK)
      in (s, result, f\<lparr>ps_file := file\<rparr>))"

definition PosixSequentialFile_Skip :: "u64 \<Rightarrow> posix_sequential \<Rightarrow> status \<times> posix_sequential" where
  "PosixSequentialFile_Skip n f =
     (let (failed, file) = fseek_cur n (ps_file f)
      in if failed then (Status_IOError (ps_filename f) (cf_errno file), f\<lparr>ps_file := file\<rparr>)
         else (Status_OK, f\<lparr>ps_file := file\<rparr>))"

text \<open>The limiter of open descriptors and mappings: a counter, decremented while it is positive.\<close>

definition Limiter_Acquire :: "int \<Rightarrow> bool \<times> int" where
  "Limiter_Acquire allowed = (if allowed \<le> 0 then (False, allowed) else (True, allowed - 1))"

definition Limiter_Release :: "int \<Rightarrow> int" where
  "Limiter_Release allowed = allowed + 1"

text \<open>
  A file read with \<^verbatim>\<open>pread\<close>. Its descriptor stays open when the limiter allowed it and is otherwise
  opened again by every read; \<open>pr_open\<close> says whether that succeeds and \<open>pr_bad\<close> whether \<^verbatim>\<open>pread\<close>
  fails.
\<close>

record posix_random =
  pr_filename :: bytes
  pr_temporary_fd :: bool
  pr_data :: bytes
  pr_open :: bool
  pr_bad :: bool
  pr_errno :: bytes

definition PosixRandomAccessFile :: "bytes \<Rightarrow> bytes \<Rightarrow> bool \<Rightarrow> bool \<Rightarrow> bytes \<Rightarrow> int \<Rightarrow> posix_random \<times> int" where
  "PosixRandomAccessFile fname data can_open bad errno limiter =
     (let (acquired, limiter) = Limiter_Acquire limiter
      in (\<lparr>pr_filename = fname, pr_temporary_fd = (\<not> acquired), pr_data = data,
           pr_open = can_open, pr_bad = bad, pr_errno = errno\<rparr>, limiter))"

definition PosixRandomAccessFile_close :: "posix_random \<Rightarrow> int \<Rightarrow> int" where
  "PosixRandomAccessFile_close f limiter =
     (if \<not> pr_temporary_fd f then Limiter_Release limiter else limiter)"

definition PosixRandomAccessFile_Read :: "posix_random \<Rightarrow> u64 \<Rightarrow> nat \<Rightarrow> status \<times> bytes" where
  "PosixRandomAccessFile_Read f offset n =
     (if pr_temporary_fd f \<and> \<not> pr_open f then (Status_IOError (pr_filename f) (pr_errno f), [])
      else if pr_bad f \<or> sint offset < 0 then (Status_IOError (pr_filename f) (pr_errno f), [])
      else (Status_OK, take n (drop (unat offset) (pr_data f))))"

text \<open>
  A mapped file. The bounds check adds in 64 bits, as the code does; what lies outside of the
  mapping is not modelled, so the function has no value when the check lets such an address pass.
\<close>

record posix_mmap =
  pm_filename :: bytes
  pm_region :: bytes
  pm_einval :: bytes

definition PosixMmapReadableFile_Read :: "posix_mmap \<Rightarrow> u64 \<Rightarrow> u64 \<Rightarrow> (status \<times> bytes) option" where
  "PosixMmapReadableFile_Read f offset n =
     (if offset + n > word_of_nat (length (pm_region f)) then
        Some (Status_IOError (pm_filename f) (pm_einval f), [])
      else if unat offset + unat n \<le> length (pm_region f) then
        Some (Status_OK, take (unat n) (drop (unat offset) (pm_region f)))
      else None)"

record posix_writable =
  pw_filename :: bytes
  pw_file :: write_stream

definition PosixWritableFile_Append :: "bytes \<Rightarrow> posix_writable \<Rightarrow> status \<times> posix_writable" where
  "PosixWritableFile_Append data f =
     (let (r, file) = fwrite_unlocked data (pw_file f)
      in if r \<noteq> length data then (Status_IOError (pw_filename f) (wf_errno file), f\<lparr>pw_file := file\<rparr>)
         else (Status_OK, f\<lparr>pw_file := file\<rparr>))"

definition PosixWritableFile_Flush :: "posix_writable \<Rightarrow> status \<times> posix_writable" where
  "PosixWritableFile_Flush f =
     (let (failed, file) = fflush_unlocked (pw_file f)
      in if failed then (Status_IOError (pw_filename f) (wf_errno file), f\<lparr>pw_file := file\<rparr>)
         else (Status_OK, f\<lparr>pw_file := file\<rparr>))"

text \<open>The directory of a file name, cut at the last slash, and the base name.\<close>

definition split_path :: "bytes \<Rightarrow> bytes \<times> bytes" where
  "split_path f =
     (if 47 \<notin> set f then (str ''.'', f)
      else let base = takeWhile (\<lambda>c. c \<noteq> 47) (rev f)
           in (take (length f - length base - 1) f, rev base))"

text \<open>What the kernel answers to the calls of \<^verbatim>\<open>Sync\<close>.\<close>

record sync_os =
  os_open_dir :: "bytes \<Rightarrow> bool"
  os_fsync_dir :: "bytes \<Rightarrow> bool"
  os_fdatasync :: bool
  os_errno :: bytes

definition SyncDirIfManifest :: "sync_os \<Rightarrow> posix_writable \<Rightarrow> status" where
  "SyncDirIfManifest os f =
     (let (dir, basename) = split_path (pw_filename f)
      in if starts_with basename (str ''MANIFEST'') then
           if \<not> os_open_dir os dir then Status_IOError dir (os_errno os)
           else if \<not> os_fsync_dir os dir then Status_IOError dir (os_errno os)
           else Status_OK
         else Status_OK)"

definition PosixWritableFile_Sync :: "sync_os \<Rightarrow> posix_writable \<Rightarrow> status \<times> posix_writable" where
  "PosixWritableFile_Sync os f =
     (let s = SyncDirIfManifest os f
      in if \<not> ok s then (s, f)
         else
           let (failed, file) = fflush_unlocked (pw_file f);
               f = f\<lparr>pw_file := file\<rparr>
           in if failed \<or> \<not> os_fdatasync os then (Status_IOError (pw_filename f) (os_errno os), f)
              else (s, f))"

text \<open>The table of the files locked by this process.\<close>

definition PosixLockTable_Insert :: "bytes set \<Rightarrow> bytes \<Rightarrow> bool \<times> bytes set" where
  "PosixLockTable_Insert locked fname = (fname \<notin> locked, insert fname locked)"

definition PosixLockTable_Remove :: "bytes set \<Rightarrow> bytes \<Rightarrow> bytes set" where
  "PosixLockTable_Remove locked fname = locked - {fname}"

subsection \<open>The contracts\<close>

text \<open>
  \<open>remaining\<close> is what a sequential file has still to deliver, \<open>healthy\<close> says that its device works.
\<close>

locale sequential_file =
  fixes rd :: "nat \<Rightarrow> 'f \<Rightarrow> status \<times> bytes \<times> 'f"
    and remaining :: "'f \<Rightarrow> bytes"
    and healthy :: "'f \<Rightarrow> bool"
  assumes read_ok: "rd n f = (s, data, f') \<Longrightarrow> ok s \<Longrightarrow>
      data = take n (remaining f) \<and> remaining f' = drop n (remaining f)"
    and healthy_read: "healthy f \<Longrightarrow> rd n f = (s, data, f') \<Longrightarrow> ok s \<and> healthy f'"

locale random_access_file =
  fixes rd :: "'f \<Rightarrow> u64 \<Rightarrow> nat \<Rightarrow> status \<times> bytes"
    and content :: "'f \<Rightarrow> bytes"
  assumes random_read: "rd f off n = (s, data) \<Longrightarrow> ok s \<Longrightarrow> data = take n (drop (unat off) (content f))"

text \<open>
  \<open>content\<close> is everything a writable file has accepted. A failed append leaves a part of its data
  behind, after which the device takes no more.
\<close>

locale writable_file =
  fixes append :: "bytes \<Rightarrow> 'f \<Rightarrow> status \<times> 'f"
    and flush :: "'f \<Rightarrow> status \<times> 'f"
    and content :: "'f \<Rightarrow> bytes"
  assumes append_ok: "append d f = (s, f') \<Longrightarrow> ok s \<Longrightarrow> content f' = content f @ d"
    and append_partial: "append d f = (s, f') \<Longrightarrow> \<exists>k. content f' = content f @ take k d"
    and append_after_failure: "append d f = (s, f') \<Longrightarrow> \<not> ok s \<Longrightarrow> e \<noteq> [] \<Longrightarrow> \<not> ok (fst (append e f'))"
    and flush_content: "flush f = (s, f') \<Longrightarrow> content f' = content f"

subsection \<open>The POSIX files keep the contracts\<close>

definition seq_remaining :: "posix_sequential \<Rightarrow> bytes" where
  "seq_remaining f = drop (cf_pos (ps_file f)) (cf_data (ps_file f))"

definition seq_healthy :: "posix_sequential \<Rightarrow> bool" where
  "seq_healthy f \<longleftrightarrow> cf_bad (ps_file f) = None"

lemma fread_good:
  assumes "fread_unlocked n f = (r, f')" and "length r < n \<Longrightarrow> feof f'"
  shows "r = take n (drop (cf_pos f) (cf_data f)) \<and> drop (cf_pos f') (cf_data f') = drop n (drop (cf_pos f) (cf_data f))"
proof -
  define limit where
    "limit = (case cf_bad f of None \<Rightarrow> length (cf_data f) | Some b \<Rightarrow> min b (length (cf_data f)))"
  have lim: "limit \<le> length (cf_data f)" by (simp add: limit_def split: option.split)
  have r: "r = take n (drop (cf_pos f) (take limit (cf_data f)))" and f': "f' = f\<lparr>cf_pos := cf_pos f + length r\<rparr>"
    using assms(1) by (simp_all add: fread_unlocked_def Let_def flip: limit_def) auto
  show ?thesis
  proof (cases "length r < n")
    case True
    then have "length (cf_data f) \<le> cf_pos f + length r"
      using assms(2) f' by (simp add: feof_def)
    moreover have "length r = min n (limit - cf_pos f)" using lim by (simp add: r)
    ultimately show ?thesis
      using True lim unfolding f' r by (auto simp: min_def split: if_splits)
  next
    case False
    then have "n \<le> limit - cf_pos f" using lim by (simp add: r)
    then show ?thesis using lim unfolding f' r
      by (cases "n = 0") (auto simp: take_drop min_def add.commute)
  qed
qed

lemma fread_healthy:
  assumes "cf_bad f = None" and "fread_unlocked n f = (r, f')"
  shows "cf_bad f' = None \<and> (length r < n \<longrightarrow> feof f')"
  using assms by (auto simp: fread_unlocked_def feof_def Let_def)

interpretation posix_seq: sequential_file PosixSequentialFile_Read seq_remaining seq_healthy
proof
  fix n f s data f'
  assume read: "PosixSequentialFile_Read n f = (s, data, f')"
  obtain r g where g: "fread_unlocked n (ps_file f) = (r, g)" by force
  show "data = take n (seq_remaining f) \<and> seq_remaining f' = drop n (seq_remaining f)" if "ok s"
    using fread_good [OF g] read g that
    by (auto simp: PosixSequentialFile_Read_def seq_remaining_def split: if_splits)
  show "ok s \<and> seq_healthy f'" if "seq_healthy f"
    using fread_healthy [OF _ g] read g that
    by (auto simp: PosixSequentialFile_Read_def seq_healthy_def)
qed

interpretation posix_random: random_access_file PosixRandomAccessFile_Read pr_data
  by unfold_locales (auto simp: PosixRandomAccessFile_Read_def split: if_splits)

definition write_content :: "posix_writable \<Rightarrow> bytes" where
  "write_content f = wf_disk (pw_file f) @ wf_buf (pw_file f)"

lemmas posix_write_defs =
  PosixWritableFile_Append_def PosixWritableFile_Flush_def fwrite_unlocked_def fflush_unlocked_def
  write_content_def Let_def

interpretation posix_write:
  writable_file PosixWritableFile_Append PosixWritableFile_Flush write_content
  by unfold_locales (auto simp: posix_write_defs min_def split: if_splits intro: take_all [OF le_refl, symmetric])

subsection \<open>Properties\<close>

text \<open>Claim C39: the bounds check of the mapped file adds offset and length in 64 bits. It lets a read
  outside of the mapping pass exactly when the sum wraps around and the wrapped value is in range;
  every other read is answered, with the requested bytes when they are in the file and an error
  otherwise.\<close>

theorem mmap_read_out_of_bounds_iff:
  assumes "length (pm_region f) < 2 ^ 64"
  shows "(PosixMmapReadableFile_Read f offset n = None \<longleftrightarrow>
      2 ^ 64 \<le> unat offset + unat n \<and> unat offset + unat n - 2 ^ 64 \<le> length (pm_region f)) \<and>
    (unat offset + unat n < 2 ^ 64 \<longrightarrow> PosixMmapReadableFile_Read f offset n =
      Some (if unat offset + unat n \<le> length (pm_region f)
            then (Status_OK, take (unat n) (drop (unat offset) (pm_region f)))
            else (Status_IOError (pm_filename f) (pm_einval f), [])))"
proof -
  have o: "unat offset < 2 ^ 64" and n: "unat n < 2 ^ 64" by (rule unat_bounds)+
  have sum: "unat (offset + n) =
      (if unat offset + unat n < 2 ^ 64 then unat offset + unat n else unat offset + unat n - 2 ^ 64)"
  proof (cases "unat offset + unat n < 2 ^ 64")
    case False
    then have "(unat offset + unat n) mod 2 ^ 64 = unat offset + unat n - 2 ^ 64"
      using o n by (subst le_mod_geq) simp_all
    then show ?thesis using False by (simp add: unat_word_ariths)
  qed (simp add: unat_word_ariths)
  have "offset + n > word_of_nat (length (pm_region f)) \<longleftrightarrow> unat (offset + n) > length (pm_region f)"
    using assms by (simp add: word_less_nat_alt)
  then show ?thesis
    using assms unfolding PosixMmapReadableFile_Read_def sum by auto
qed

theorem mmap_read_out_of_bounds_witness:
  "PosixMmapReadableFile_Read \<lparr>pm_filename = [], pm_region = [1, 2, 3], pm_einval = []\<rparr> (- 2) 5 = None"
  using mmap_read_out_of_bounds_iff [of "\<lparr>pm_filename = [], pm_region = [1, 2, 3], pm_einval = []\<rparr>" "- 2" 5]
  by simp

end
