(* ===== verification/LDB_Log.thy ===== *)
theory LDB_Log
  imports LDB_Env LDB_Crc32c "HOL-Library.Monad_Syntax"
begin

text \<open>
  The write-ahead log: \<^verbatim>\<open>db/log_format.h\<close>, \<^verbatim>\<open>db/log_writer.cc\<close> and \<^verbatim>\<open>db/log_reader.cc\<close>.

  The writer and the reader are records with the fields of their classes. The file each of them
  works on is a value of an arbitrary type, together with the operations of \<^verbatim>\<open>WritableFile\<close> or
  \<^verbatim>\<open>SequentialFile\<close> that the code calls. Offsets in the file are 64-bit words and wrap as in the
  source. The reporter of the reader is the list of its calls.
\<close>

unbundle bit_operations_syntax

subsection \<open>The format\<close>

definition kZeroType :: u32 where "kZeroType = 0"
definition kFullType :: u32 where "kFullType = 1"
definition kFirstType :: u32 where "kFirstType = 2"
definition kMiddleType :: u32 where "kMiddleType = 3"
definition kLastType :: u32 where "kLastType = 4"
definition kMaxRecordType :: u32 where "kMaxRecordType = kLastType"
definition kEof :: u32 where "kEof = kMaxRecordType + 1"
definition kBadRecord :: u32 where "kBadRecord = kMaxRecordType + 2"

lemmas record_types = kZeroType_def kFullType_def kFirstType_def kMiddleType_def kLastType_def
  kMaxRecordType_def kEof_def kBadRecord_def

definition kBlockSize :: nat where "kBlockSize = 32768"
definition kHeaderSize :: nat where "kHeaderSize = 4 + 2 + 1"

lemmas log_sizes = kBlockSize_def kHeaderSize_def

subsection \<open>The writer\<close>

record 'f log_writer =
  lw_dest :: 'f
  lw_block_offset :: nat
  lw_type_crc :: "u32 list"

definition InitTypeCrc :: "u32 list" where
  "InitTypeCrc = map (\<lambda>i. crc_Value [word_of_nat i]) [0..<Suc (unat kMaxRecordType)]"

definition Writer :: "'f \<Rightarrow> 'f log_writer" where
  "Writer dest = \<lparr>lw_dest = dest, lw_block_offset = 0, lw_type_crc = InitTypeCrc\<rparr>"

definition Writer_at :: "'f \<Rightarrow> u64 \<Rightarrow> 'f log_writer" where
  "Writer_at dest dest_length =
     \<lparr>lw_dest = dest, lw_block_offset = unat (dest_length mod word_of_nat kBlockSize),
      lw_type_crc = InitTypeCrc\<rparr>"

definition EmitPhysicalRecord ::
    "(bytes \<Rightarrow> 'f \<Rightarrow> status \<times> 'f) \<Rightarrow> ('f \<Rightarrow> status \<times> 'f) \<Rightarrow> 'f log_writer \<Rightarrow> u32 \<Rightarrow> bytes \<Rightarrow>
     status \<times> 'f log_writer" where
  "EmitPhysicalRecord wappend wflush w t ptr =
     (let n = word_of_nat (length ptr) :: u64;
          buf = [ucast (n AND 0xff), ucast (drop_bit 8 n), ucast t];
          crc = crc_Extend (lw_type_crc w ! unat t) ptr;
          crc = Mask crc;
          buf = EncodeFixed32 crc @ buf;
          (s, dest) = wappend buf (lw_dest w);
          (s, dest) = (if ok s then wappend ptr dest else (s, dest));
          (s, dest) = (if ok s then wflush dest else (s, dest))
      in (s, w\<lparr>lw_dest := dest, lw_block_offset := lw_block_offset w + kHeaderSize + length ptr\<rparr>))"

text \<open>
  Note that the second \<open>ok s\<close> above also covers a failed header: \<open>s\<close> is then still not OK and
  neither the payload nor the flush is attempted, as in the nested conditions of the source.
\<close>

text \<open>One round of the loop up to the switch to a new block; the trailer's status is ignored.\<close>

definition switch_block :: "(bytes \<Rightarrow> 'f \<Rightarrow> status \<times> 'f) \<Rightarrow> 'f log_writer \<Rightarrow> 'f log_writer" where
  "switch_block wappend w =
     (let leftover = kBlockSize - lw_block_offset w
      in if leftover < kHeaderSize then
           (if leftover > 0
            then w\<lparr>lw_dest := snd (wappend (take leftover [0, 0, 0, 0, 0, 0]) (lw_dest w))\<rparr>
            else w)\<lparr>lw_block_offset := 0\<rparr>
         else w)"

definition record_type_of :: "bool \<Rightarrow> bool \<Rightarrow> u32" where
  "record_type_of begin end =
     (if begin \<and> end then kFullType else if begin then kFirstType
      else if end then kLastType else kMiddleType)"

lemma lw_block_offset_Emit [simp]:
  "lw_block_offset (snd (EmitPhysicalRecord wappend wflush w t ptr)) =
     lw_block_offset w + kHeaderSize + length ptr"
  by (simp add: EmitPhysicalRecord_def Let_def split: prod.split)

lemma lw_block_offset_EmitD:
  "(s, w') = EmitPhysicalRecord wappend wflush w t ptr \<Longrightarrow>
     lw_block_offset w' = lw_block_offset w + kHeaderSize + length ptr"
  by (metis lw_block_offset_Emit snd_conv)

lemma lw_block_offset_switch:
  "lw_block_offset (switch_block wappend w) =
     (if kBlockSize - lw_block_offset w < kHeaderSize then 0 else lw_block_offset w)"
  by (simp add: switch_block_def Let_def)

text \<open>
  Only a block with exactly the room for one header produces an empty fragment while data is left,
  and the next round starts a new block.
\<close>

function AddRecord_loop ::
    "(bytes \<Rightarrow> 'f \<Rightarrow> status \<times> 'f) \<Rightarrow> ('f \<Rightarrow> status \<times> 'f) \<Rightarrow> 'f log_writer \<Rightarrow> bytes \<Rightarrow> bool \<Rightarrow>
     status \<times> 'f log_writer" where
  "AddRecord_loop wappend wflush w ptr begin =
     (let w = switch_block wappend w;
          avail = kBlockSize - lw_block_offset w - kHeaderSize;
          fragment_length = (if length ptr < avail then length ptr else avail);
          end = (length ptr = fragment_length);
          (s, w) = EmitPhysicalRecord wappend wflush w (record_type_of begin end) (take fragment_length ptr);
          ptr = drop fragment_length ptr
      in if ok s \<and> ptr \<noteq> [] then AddRecord_loop wappend wflush w ptr False else (s, w))"
  by pat_completeness auto
termination
  by (relation "measures [\<lambda>(wappend, wflush, w, ptr, begin). length ptr,
      \<lambda>(wappend, wflush, w, ptr, begin). if kBlockSize - lw_block_offset w = kHeaderSize then 1 else 0]")
    (auto simp: lw_block_offset_switch log_sizes dest!: lw_block_offset_EmitD split: if_splits)

declare AddRecord_loop.simps [simp del]

definition AddRecord ::
    "(bytes \<Rightarrow> 'f \<Rightarrow> status \<times> 'f) \<Rightarrow> ('f \<Rightarrow> status \<times> 'f) \<Rightarrow> 'f log_writer \<Rightarrow> bytes \<Rightarrow>
     status \<times> 'f log_writer" where
  "AddRecord wappend wflush w data = AddRecord_loop wappend wflush w data True"

subsection \<open>The reader\<close>

record 'f log_reader =
  lr_file :: 'f
  lr_reporter :: "(u64 \<times> status) list option"
  lr_checksum :: bool
  lr_buffer :: bytes
  lr_eof :: bool
  lr_last_record_offset :: u64
  lr_end_of_buffer_offset :: u64
  lr_initial_offset :: u64
  lr_resyncing :: bool

definition Reader :: "'f \<Rightarrow> bool \<Rightarrow> bool \<Rightarrow> u64 \<Rightarrow> 'f log_reader" where
  "Reader file has_reporter checksum initial_offset =
     \<lparr>lr_file = file, lr_reporter = (if has_reporter then Some [] else None), lr_checksum = checksum,
      lr_buffer = [], lr_eof = False, lr_last_record_offset = 0, lr_end_of_buffer_offset = 0,
      lr_initial_offset = initial_offset, lr_resyncing = (initial_offset > 0)\<rparr>"

definition ReportDrop :: "u64 \<Rightarrow> status \<Rightarrow> 'f log_reader \<Rightarrow> 'f log_reader" where
  "ReportDrop bytes reason r =
     (case lr_reporter r of
        Some calls \<Rightarrow>
          if lr_end_of_buffer_offset r - word_of_nat (length (lr_buffer r)) - bytes \<ge> lr_initial_offset r
          then r\<lparr>lr_reporter := Some (calls @ [(bytes, reason)])\<rparr> else r
      | None \<Rightarrow> r)"

definition ReportCorruption :: "u64 \<Rightarrow> bytes \<Rightarrow> 'f log_reader \<Rightarrow> 'f log_reader" where
  "ReportCorruption bytes reason r = ReportDrop bytes (Status_Corruption reason []) r"

definition SkipToInitialBlock ::
    "(u64 \<Rightarrow> 'f \<Rightarrow> status \<times> 'f) \<Rightarrow> 'f log_reader \<Rightarrow> bool \<times> 'f log_reader" where
  "SkipToInitialBlock skip r =
     (let offset_in_block = lr_initial_offset r mod word_of_nat kBlockSize;
          block_start_location = lr_initial_offset r - offset_in_block;
          block_start_location =
            (if offset_in_block > word_of_nat (kBlockSize - 6)
             then block_start_location + word_of_nat kBlockSize else block_start_location);
          r = r\<lparr>lr_end_of_buffer_offset := block_start_location\<rparr>
      in if block_start_location > 0 then
           let (skip_status, file) = skip block_start_location (lr_file r);
               r = r\<lparr>lr_file := file\<rparr>
           in if \<not> ok skip_status then (False, ReportDrop block_start_location skip_status r)
              else (True, r)
         else (True, r))"

text \<open>
  The physical record at the front of the buffer. The result is the type, or one of the two special
  values, with the new contents of the out-parameter \<open>result\<close>, which some returns leave untouched.
\<close>

definition ParsePhysicalRecord :: "'f log_reader \<Rightarrow> bytes \<Rightarrow> u32 \<times> bytes \<times> 'f log_reader" where
  "ParsePhysicalRecord r result =
     (let header = lr_buffer r;
          a = ucast (header ! 4) AND 0xff :: u32;
          b = ucast (header ! 5) AND 0xff :: u32;
          type = scast (header ! 6) :: u32;
          len = unat (a OR push_bit 8 b)
      in if kHeaderSize + len > length header then
           let drop_size = word_of_nat (length header);
               r = r\<lparr>lr_buffer := []\<rparr>
           in if \<not> lr_eof r then (kBadRecord, result, ReportCorruption drop_size (str ''bad record length'') r)
              else (kEof, result, r)
         else if type = kZeroType \<and> len = 0 then (kBadRecord, result, r\<lparr>lr_buffer := []\<rparr>)
         else if lr_checksum r \<and>
             crc_Value (take (1 + len) (drop 6 header)) \<noteq> Unmask (DecodeFixed32 header) then
           let drop_size = word_of_nat (length header);
               r = r\<lparr>lr_buffer := []\<rparr>
           in (kBadRecord, result, ReportCorruption drop_size (str ''checksum mismatch'') r)
         else
           let r = r\<lparr>lr_buffer := drop (kHeaderSize + len) header\<rparr>
           in if lr_end_of_buffer_offset r - word_of_nat (length (lr_buffer r)) - word_of_nat kHeaderSize
                 - word_of_nat len < lr_initial_offset r
              then (kBadRecord, [], r)
              else (type, take len (drop kHeaderSize header), r))"

function ReadPhysicalRecord ::
    "(nat \<Rightarrow> 'f \<Rightarrow> status \<times> bytes \<times> 'f) \<Rightarrow> 'f log_reader \<Rightarrow> bytes \<Rightarrow> u32 \<times> bytes \<times> 'f log_reader" where
  "ReadPhysicalRecord rd r result =
     (if length (lr_buffer r) < kHeaderSize then
        if \<not> lr_eof r then
          let (s, buffer, file) = rd kBlockSize (lr_file r);
              r = r\<lparr>lr_file := file, lr_buffer := buffer,
                    lr_end_of_buffer_offset := lr_end_of_buffer_offset r + word_of_nat (length buffer)\<rparr>
          in if \<not> ok s then
               let r = r\<lparr>lr_buffer := []\<rparr>;
                   r = ReportDrop (word_of_nat kBlockSize) s r
               in (kEof, result, r\<lparr>lr_eof := True\<rparr>)
             else if length buffer < kBlockSize then ReadPhysicalRecord rd (r\<lparr>lr_eof := True\<rparr>) result
             else ReadPhysicalRecord rd r result
        else (kEof, result, r\<lparr>lr_buffer := []\<rparr>)
      else ParsePhysicalRecord r result)"
  by pat_completeness auto
termination
  by (relation "measure (\<lambda>(rd, r, result). if lr_eof r \<or> kHeaderSize \<le> length (lr_buffer r) then 0 else 1)")
    (auto simp: log_sizes split: if_splits)

declare ReadPhysicalRecord.simps [simp del]

text \<open>
  One round of the loop of \<^verbatim>\<open>ReadRecord\<close>: it returns, with the record if there is one, or goes on
  with new values of \<open>scratch\<close>, \<open>in_fragmented_record\<close>, \<open>prospective_record_offset\<close> and \<open>fragment\<close>.
\<close>

datatype 'f read_step =
    Return "bytes option" "'f log_reader"
  | Again "'f log_reader" bytes bool u64 bytes

definition ReadRecord_round ::
    "(nat \<Rightarrow> 'f \<Rightarrow> status \<times> bytes \<times> 'f) \<Rightarrow> 'f log_reader \<Rightarrow> bytes \<Rightarrow> bool \<Rightarrow> u64 \<Rightarrow> bytes \<Rightarrow>
     'f read_step" where
  "ReadRecord_round rd r scratch in_fragmented_record prospective_record_offset fragment =
     (let (record_type, fragment, r) = ReadPhysicalRecord rd r fragment;
          physical_record_offset = lr_end_of_buffer_offset r - word_of_nat (length (lr_buffer r))
            - word_of_nat kHeaderSize - word_of_nat (length fragment);
          resync = lr_resyncing r;
          r = (if resync \<and> record_type \<noteq> kMiddleType then r\<lparr>lr_resyncing := False\<rparr> else r)
      in if resync \<and> (record_type = kMiddleType \<or> record_type = kLastType) then
           Again r scratch in_fragmented_record prospective_record_offset fragment
         else if record_type = kFullType then
           let r = (if in_fragmented_record \<and> scratch \<noteq> [] then
                      ReportCorruption (word_of_nat (length scratch)) (str ''partial record without end(1)'') r
                    else r)
           in Return (Some fragment) (r\<lparr>lr_last_record_offset := physical_record_offset\<rparr>)
         else if record_type = kFirstType then
           let r = (if in_fragmented_record \<and> scratch \<noteq> [] then
                      ReportCorruption (word_of_nat (length scratch)) (str ''partial record without end(2)'') r
                    else r)
           in Again r fragment True physical_record_offset fragment
         else if record_type = kMiddleType then
           if \<not> in_fragmented_record then
             Again (ReportCorruption (word_of_nat (length fragment))
               (str ''missing start of fragmented record(1)'') r)
               scratch in_fragmented_record prospective_record_offset fragment
           else Again r (scratch @ fragment) in_fragmented_record
             prospective_record_offset fragment
         else if record_type = kLastType then
           if \<not> in_fragmented_record then
             Again (ReportCorruption (word_of_nat (length fragment))
               (str ''missing start of fragmented record(2)'') r)
               scratch in_fragmented_record prospective_record_offset fragment
           else Return (Some (scratch @ fragment)) (r\<lparr>lr_last_record_offset := prospective_record_offset\<rparr>)
         else if record_type = kEof then Return None r
         else if record_type = kBadRecord then
           if in_fragmented_record then
             Again (ReportCorruption (word_of_nat (length scratch))
               (str ''error in middle of record'') r) [] False prospective_record_offset fragment
           else Again r scratch in_fragmented_record prospective_record_offset fragment
         else
           Again
             (ReportCorruption (word_of_nat (length fragment + (if in_fragmented_record then length scratch else 0)))
               (str ''unknown record type '' @ decimal (unat record_type)) r)
             [] False prospective_record_offset fragment)"

text \<open>
  The loop may run forever on a file that never ends, so its result is an option: not returning is
  the value \<^const>\<open>None\<close>.
\<close>

partial_function (option) ReadRecord_loop ::
    "(nat \<Rightarrow> 'f \<Rightarrow> status \<times> bytes \<times> 'f) \<Rightarrow> 'f log_reader \<Rightarrow> bytes \<Rightarrow> bool \<Rightarrow> u64 \<Rightarrow> bytes \<Rightarrow>
     (bytes option \<times> 'f log_reader) option" where
  "ReadRecord_loop rd r scratch in_fragmented_record prospective_record_offset fragment =
     (case ReadRecord_round rd r scratch in_fragmented_record prospective_record_offset fragment of
        Return result r \<Rightarrow> Some (result, r)
      | Again r scratch in_fragmented_record prospective_record_offset fragment \<Rightarrow>
          ReadRecord_loop rd r scratch in_fragmented_record prospective_record_offset fragment)"

definition ReadRecord ::
    "(nat \<Rightarrow> 'f \<Rightarrow> status \<times> bytes \<times> 'f) \<Rightarrow> (u64 \<Rightarrow> 'f \<Rightarrow> status \<times> 'f) \<Rightarrow> 'f log_reader \<Rightarrow>
     (bytes option \<times> 'f log_reader) option" where
  "ReadRecord rd skip r =
     (let (found, r) = (if lr_last_record_offset r < lr_initial_offset r
                        then SkipToInitialBlock skip r else (True, r))
      in if \<not> found then Some (None, r) else ReadRecord_loop rd r [] False 0 [])"

text \<open>The loop with which the recovery code drains a log.\<close>

partial_function (option) ReadAll ::
    "(nat \<Rightarrow> 'f \<Rightarrow> status \<times> bytes \<times> 'f) \<Rightarrow> (u64 \<Rightarrow> 'f \<Rightarrow> status \<times> 'f) \<Rightarrow> 'f log_reader \<Rightarrow>
     (bytes list \<times> 'f log_reader) option" where
  "ReadAll rd skip r =
     do {
       (record, r) \<leftarrow> ReadRecord rd skip r;
       case record of
         None \<Rightarrow> Some ([], r)
       | Some x \<Rightarrow> do { (xs, r) \<leftarrow> ReadAll rd skip r; Some (x # xs, r) }
     }"

end
