(* ===== verification/LDB_LogSpec.thy ===== *)
theory LDB_LogSpec
  imports LDB_Log
begin

text \<open>
  What a log contains. The bytes of a log are described by the list of its physical records, each
  aligned by the trailer of a block where fewer than seven bytes are left. The writer is proved to
  produce this layout through any \<open>writable_file\<close>, and the reader to recover from any healthy
  \<open>sequential_file\<close> exactly the records that are completely in the file, without a report.
\<close>

unbundle bit_operations_syntax

subsection \<open>The layout\<close>

definition physical :: "u32 \<Rightarrow> bytes \<Rightarrow> bytes" where
  "physical t d = EncodeFixed32 (Mask (crc_Value (ucast t # d))) @
     [ucast ((word_of_nat (length d) :: u64) AND 0xff), ucast (drop_bit 8 (word_of_nat (length d) :: u64)), ucast t] @ d"

definition pad :: "nat \<Rightarrow> nat" where
  "pad p = (let leftover = 32768 - p mod 32768 in if leftover < 7 then leftover else 0)"

fun layout :: "nat \<Rightarrow> (u32 \<times> bytes) list \<Rightarrow> bytes" where
  "layout p [] = []"
| "layout p ((t, d) # fs) = replicate (pad p) 0 @ physical t d @ layout (p + pad p + 7 + length d) fs"

fun layout_end :: "nat \<Rightarrow> (u32 \<times> bytes) list \<Rightarrow> nat" where
  "layout_end p [] = p"
| "layout_end p ((t, d) # fs) = layout_end (p + pad p + 7 + length d) fs"

fun fits :: "nat \<Rightarrow> (u32 \<times> bytes) list \<Rightarrow> bool" where
  "fits p [] = True"
| "fits p ((t, d) # fs) \<longleftrightarrow> t \<in> {1, 2, 3, 4} \<and> (p + pad p) mod 32768 + 7 + length d \<le> 32768 \<and>
     fits (p + pad p + 7 + length d) fs"

text \<open>The fragments of one record that starts at position \<open>p\<close>.\<close>

lemma next_block: "p + (32768 - p mod 32768) = 32768 * (p div 32768 + 1)" for p :: nat
proof -
  define q m where "q = p div 32768" and "m = p mod 32768"
  have "p = 32768 * q + m" "m < 32768" by (simp_all add: q_def m_def)
  then have "p + (32768 - m) = 32768 * (q + 1)" by simp
  then show ?thesis by (simp only: q_def m_def)
qed

lemma pad_mod: "(p + pad p) mod 32768 \<le> 32761"
proof (cases "32768 - p mod 32768 < 7")
  case True
  then have "p + pad p = 32768 * (p div 32768 + 1)"
    unfolding pad_def Let_def by (subst if_P) (simp_all only: next_block)
  then have "(p + pad p) mod 32768 = 0" by simp
  then show ?thesis by simp
next
  case False
  then show ?thesis by (simp add: pad_def Let_def)
qed

definition room :: "nat \<Rightarrow> nat" where
  "room p = 32768 - (p + pad p) mod 32768 - 7"

lemma room_eq: "(p + pad p) mod 32768 + 7 + room p = 32768"
  using pad_mod [of p] by (simp add: room_def)

lemma room_after_full_block:
  assumes "room p = 0"
  shows "(p + pad p + 7) mod 32768 = 0"
proof -
  have "(p + pad p) mod 32768 = 32761" using assms room_eq [of p] by linarith
  then show ?thesis using mod_add_left_eq [of "p + pad p" 32768 7] by simp
qed

function frags :: "nat \<Rightarrow> bytes \<Rightarrow> bool \<Rightarrow> (u32 \<times> bytes) list" where
  "frags p ptr begin =
     (let n = min (length ptr) (room p);
          frag = (record_type_of begin (length ptr = n), take n ptr)
      in if drop n ptr \<noteq> [] then frag # frags (p + pad p + 7 + n) (drop n ptr) False else [frag])"
  by pat_completeness auto
termination
proof (relation "measures [\<lambda>(p, ptr, begin). length ptr, \<lambda>(p, ptr, begin). if p mod 32768 = 0 then 0 else 1]",
    goal_cases)
  case (2 p ptr "begin" n frag)
  show ?case
  proof (cases "n = 0")
    case True
    then have "room p = 0" using 2 by (auto simp: min_def split: if_splits)
    moreover have "p mod 32768 \<noteq> 0"
    proof
      assume "p mod 32768 = 0"
      then have "pad p = 0" "room p = 32761" by (simp_all add: room_def pad_def)
      then show False using \<open>room p = 0\<close> by simp
    qed
    ultimately show ?thesis using True room_after_full_block by simp
  next
    case False
    then show ?thesis using 2 by (auto simp: min_def split: if_splits)
  qed
qed simp

declare frags.simps [simp del]

fun log_frags :: "nat \<Rightarrow> bytes list \<Rightarrow> (u32 \<times> bytes) list" where
  "log_frags p [] = []"
| "log_frags p (x # xs) = frags p x True @ log_frags (layout_end p (frags p x True)) xs"

lemma layout_append: "layout p (fs @ gs) = layout p fs @ layout (layout_end p fs) gs"
  by (induction p fs rule: layout.induct) simp_all

lemma layout_end_append: "layout_end p (fs @ gs) = layout_end (layout_end p fs) gs"
  by (induction p fs rule: layout_end.induct) simp_all

lemma fits_append: "fits p (fs @ gs) \<longleftrightarrow> fits p fs \<and> fits (layout_end p fs) gs"
  by (induction p fs rule: fits.induct) simp_all

lemma length_physical [simp]: "length (physical t d) = 7 + length d"
  by (simp add: physical_def)

lemma length_layout: "layout_end p fs = p + length (layout p fs)"
  by (induction p fs rule: layout.induct) simp_all

lemma record_type_range: "record_type_of b e \<in> {1, 2, 3, 4}"
  by (simp add: record_type_of_def record_types)

lemma fits_frags: "fits p (frags p x b)"
proof (induction p x b rule: frags.induct)
  case (1 p ptr b)
  define n where "n = min (length ptr) (room p)"
  have "(p + pad p) mod 32768 + 7 + n \<le> 32768" "n \<le> length ptr"
    using room_eq [of p] by (simp_all add: n_def)
  then show ?case
    using 1 [OF n_def refl] record_type_range [of b "length ptr = n"]
    by (subst frags.simps) (auto simp: Let_def min_absorb2 simp flip: n_def)
qed

lemma fits_log_frags: "fits p (log_frags p xs)"
  by (induction p xs rule: log_frags.induct) (simp_all add: fits_append fits_frags)

subsection \<open>The writer produces the layout\<close>

text \<open>The writer stands at position \<open>p\<close> of the file.\<close>

definition writes_at :: "'f log_writer \<Rightarrow> nat \<Rightarrow> bool" where
  "writes_at w p \<longleftrightarrow> lw_block_offset w \<le> 32768 \<and> lw_block_offset w mod 32768 = p mod 32768 \<and>
     lw_type_crc w = InitTypeCrc"

lemma InitTypeCrc_nth:
  assumes "(t :: u32) \<in> {1, 2, 3, 4}"
  shows "InitTypeCrc ! unat t = crc_Value [ucast t]"
proof -
  have i: "InitTypeCrc = [crc_Value [0], crc_Value [1], crc_Value [2], crc_Value [3], crc_Value [4]]"
    by (simp add: InitTypeCrc_def record_types upt_rec)
  show ?thesis using assms unfolding i by auto
qed

lemma writes_at_cases:
  assumes "writes_at w p"
  shows "kBlockSize - lw_block_offset w < kHeaderSize \<longleftrightarrow> 32768 - lw_block_offset w < 7"
    and "32768 - lw_block_offset w < 7 \<Longrightarrow> lw_block_offset w < 32768 \<Longrightarrow> pad p = 32768 - lw_block_offset w"
    and "lw_block_offset w = 32768 \<Longrightarrow> pad p = 0"
    and "\<not> 32768 - lw_block_offset w < 7 \<Longrightarrow> pad p = 0 \<and> lw_block_offset w = p mod 32768"
proof -
  have "lw_block_offset w = p mod 32768 \<or> lw_block_offset w = 32768 \<and> p mod 32768 = 0"
    using assms by (auto simp: writes_at_def le_less)
  then show "kBlockSize - lw_block_offset w < kHeaderSize \<longleftrightarrow> 32768 - lw_block_offset w < 7"
    "32768 - lw_block_offset w < 7 \<Longrightarrow> lw_block_offset w < 32768 \<Longrightarrow> pad p = 32768 - lw_block_offset w"
    "lw_block_offset w = 32768 \<Longrightarrow> pad p = 0"
    "\<not> 32768 - lw_block_offset w < 7 \<Longrightarrow> pad p = 0 \<and> lw_block_offset w = p mod 32768"
    by (auto simp: log_sizes pad_def Let_def)
qed

lemma pad_aligned: "pad p \<noteq> 0 \<Longrightarrow> (p + pad p) mod 32768 = 0"
proof -
  assume "pad p \<noteq> 0"
  then have "32768 - p mod 32768 < 7" by (auto simp: pad_def Let_def split: if_splits)
  then have "p + pad p = 32768 * (p div 32768 + 1)"
    unfolding pad_def Let_def by (subst if_P) (simp_all only: next_block)
  then show ?thesis by simp
qed

lemma switch_block_offset:
  assumes "writes_at w p"
  shows "lw_block_offset (switch_block wappend w) = (p + pad p) mod 32768"
    and "lw_type_crc (switch_block wappend w) = InitTypeCrc"
proof -
  show "lw_block_offset (switch_block wappend w) = (p + pad p) mod 32768"
  proof (cases "32768 - lw_block_offset w < 7")
    case True
    then have "(p + pad p) mod 32768 = 0"
      using writes_at_cases [OF assms] assms pad_aligned [of p]
      by (cases "lw_block_offset w = 32768") (auto simp: writes_at_def)
    then show ?thesis using True writes_at_cases(1) [OF assms] by (simp add: lw_block_offset_switch)
  next
    case False
    then show ?thesis using writes_at_cases [OF assms] by (simp add: lw_block_offset_switch)
  qed
  show "lw_type_crc (switch_block wappend w) = InitTypeCrc"
    using assms by (simp add: writes_at_def switch_block_def Let_def)
qed

context writable_file
begin

lemma Emit_content:
  assumes "EmitPhysicalRecord append flush w t d = (s, w')" and "ok s"
    and "lw_type_crc w = InitTypeCrc" and "t \<in> {1, 2, 3, 4}"
  shows "content (lw_dest w') = content (lw_dest w) @ physical t d"
    and "lw_type_crc w' = InitTypeCrc"
proof -
  let ?buf = "EncodeFixed32 (Mask (crc_Extend (lw_type_crc w ! unat t) d)) @
    [ucast ((word_of_nat (length d) :: u64) AND 0xff), ucast (drop_bit 8 (word_of_nat (length d) :: u64)), ucast t]"
  obtain s1 f1 where 1: "append ?buf (lw_dest w) = (s1, f1)" by force
  obtain s2 f2 where 2: "append d f1 = (s2, f2)" by force
  obtain s3 f3 where 3: "flush f2 = (s3, f3)" by force
  have "crc_Extend (lw_type_crc w ! unat t) d = crc_Value (ucast t # d)"
    using InitTypeCrc_nth [OF assms(4)] assms(3) by (subst crc_Value_Cons) simp
  moreover have "ok s1" "ok s2" "ok s3" "lw_dest w' = f3"
    using assms(1,2) 1 2 3 by (auto simp: EmitPhysicalRecord_def Let_def split: if_splits prod.splits)
  ultimately show "content (lw_dest w') = content (lw_dest w) @ physical t d"
    using append_ok [OF 1] append_ok [OF 2] flush_content [OF 3]
    by (simp add: physical_def)
  show "lw_type_crc w' = InitTypeCrc"
    using assms(1,3) by (auto simp: EmitPhysicalRecord_def Let_def split: prod.splits)
qed

lemma Emit_fails_after_failure:
  assumes "append e f = (s0, lw_dest w)" and "\<not> ok s0"
  shows "\<not> ok (fst (EmitPhysicalRecord append flush w t d))"
  using append_after_failure [OF assms]
  by (auto simp: EmitPhysicalRecord_def Let_def split: prod.split)
     (metis fst_conv list.distinct(1) append_is_Nil_conv)

lemma switch_block_content:
  assumes "writes_at w p"
    and "ok (fst (EmitPhysicalRecord append flush (switch_block append w) t d))"
  shows "content (lw_dest (switch_block append w)) = content (lw_dest w) @ replicate (pad p) 0"
proof (cases "32768 - lw_block_offset w < 7 \<and> lw_block_offset w < 32768")
  case True
  let ?l = "32768 - lw_block_offset w"
  obtain s0 f0 where f0: "append (take ?l [0, 0, 0, 0, 0, 0]) (lw_dest w) = (s0, f0)" by force
  have dest: "lw_dest (switch_block append w) = f0"
    using True f0 by (simp add: switch_block_def log_sizes Let_def)
  then have "ok s0" using Emit_fails_after_failure assms(2) f0 by blast
  moreover have "pad p = ?l" using True writes_at_cases [OF assms(1)] by simp
  moreover have "take ?l [0, 0, 0, 0, 0, 0] = replicate ?l (0 :: byte)"
  proof -
    have "[0, 0, 0, 0, 0, 0 :: byte] = replicate 6 0" by (simp add: numeral_eq_Suc)
    then show ?thesis using True by (simp add: min_absorb1)
  qed
  ultimately show ?thesis using append_ok [OF f0] dest by simp
next
  case False
  then have "lw_dest (switch_block append w) = lw_dest w" "pad p = 0"
    using writes_at_cases [OF assms(1)] assms(1)
    by (auto simp: switch_block_def Let_def log_sizes writes_at_def)
  then show ?thesis by simp
qed

lemma AddRecord_loop_content:
  assumes "AddRecord_loop append flush w ptr b = (s, w')" and "ok s" and "writes_at w p"
  shows "content (lw_dest w') = content (lw_dest w) @ layout p (frags p ptr b) \<and>
    writes_at w' (layout_end p (frags p ptr b))"
  using assms
proof (induction p ptr b arbitrary: w rule: frags.induct)
  case (1 p ptr b)
  define n where "n = min (length ptr) (room p)"
  let ?w = "switch_block append w"
  let ?t = "record_type_of b (length ptr = n)"
  obtain s1 w1 where w1: "EmitPhysicalRecord append flush ?w ?t (take n ptr) = (s1, w1)" by force
  have off: "lw_block_offset ?w = (p + pad p) mod 32768" "lw_type_crc ?w = InitTypeCrc"
    using switch_block_offset [OF 1(4)] by simp_all
  have n: "(if length ptr < kBlockSize - lw_block_offset ?w - kHeaderSize then length ptr
      else kBlockSize - lw_block_offset ?w - kHeaderSize) = n"
    using off by (simp add: n_def log_sizes room_def min_def)
  have step: "AddRecord_loop append flush w ptr b =
      (if ok s1 \<and> drop n ptr \<noteq> [] then AddRecord_loop append flush w1 (drop n ptr) False else (s1, w1))"
    by (subst AddRecord_loop.simps) (simp only: Let_def n w1 prod.case)
  have frags: "frags p ptr b = (if drop n ptr \<noteq> []
      then (?t, take n ptr) # frags (p + pad p + 7 + n) (drop n ptr) False else [(?t, take n ptr)])"
    by (subst frags.simps) (simp only: Let_def flip: n_def)
  have len: "length (take n ptr) = n" by (simp add: n_def)
  have "ok s1" using step "1.prems"(1,2) by (auto split: if_splits)
  then have c1: "content (lw_dest w1) = content (lw_dest w) @ replicate (pad p) 0 @ physical ?t (take n ptr)"
    and crc1: "lw_type_crc w1 = InitTypeCrc"
    using Emit_content [OF w1] off record_type_range switch_block_content [OF "1.prems"(3)] w1
    by (metis append.assoc fst_conv)+
  have "lw_block_offset w1 = (p + pad p) mod 32768 + 7 + n"
    using lw_block_offset_EmitD [OF w1 [symmetric]] off len by (simp add: kHeaderSize_def)
  have at1: "writes_at w1 (p + pad p + 7 + n)"
  proof -
    have "(p + pad p) mod 32768 + 7 + n \<le> 32768" using room_eq [of p] by (simp add: n_def)
    moreover have "((p + pad p) mod 32768 + 7 + n) mod 32768 = (p + pad p + 7 + n) mod 32768"
      by (simp add: mod_add_left_eq add.assoc)
    ultimately show ?thesis using crc1 \<open>lw_block_offset w1 = _\<close> by (simp only: writes_at_def)
  qed
  show ?case
  proof (cases "drop n ptr \<noteq> []")
    case True
    have "AddRecord_loop append flush w1 (drop n ptr) False = (s, w')"
      using step "1.prems"(1) True \<open>ok s1\<close> by simp
    from "1.IH" [OF n_def refl True this "1.prems"(2) at1] show ?thesis
      using c1 frags True len by simp
  next
    case False
    then have "w' = w1" using step "1.prems"(1) by simp
    then show ?thesis using c1 at1 frags False len by simp
  qed
qed

end

subsection \<open>The reader finds the physical records\<close>

lemma length_field:
  assumes "n < 65536"
  shows "unat (ucast (ucast ((word_of_nat n :: u64) AND 0xff) :: byte) AND 0xff OR
    push_bit 8 (ucast (ucast (drop_bit 8 (word_of_nat n :: u64)) :: byte) AND 0xff) :: u32) = n"
proof -
  let ?n = "word_of_nat n :: u64"
  have masks: "(0xff :: u32) = mask 8" "(0xff :: u64) = mask 8"
    by (simp_all add: mask_eq_exp_minus_1)
  have "ucast (ucast (?n AND 0xff) :: byte) AND 0xff OR
      push_bit 8 (ucast (ucast (drop_bit 8 ?n) :: byte) AND 0xff) = take_bit 16 (word_of_nat n :: u32)"
    unfolding masks by (rule bit_word_eqI) (auto simp: bit_simps)
  moreover have "unat (take_bit 16 (word_of_nat n :: u32)) = n"
    using assms by (simp add: unsigned_take_bit_eq take_bit_nat_eq_self_iff)
  ultimately show ?thesis by simp
qed

lemma physical_fields:
  assumes "t \<in> {1, 2, 3, 4}" and "length d < 65536" and "7 \<le> m"
  shows "unat (ucast (take m (physical t d @ rest) ! 4) AND 0xff OR
      push_bit 8 (ucast (take m (physical t d @ rest) ! 5) AND 0xff) :: u32) = length d"
    and "scast (take m (physical t d @ rest) ! 6) = t"
    and "DecodeFixed32 (physical t d @ rest) = Mask (crc_Value (ucast t # d))"
    and "drop 6 (physical t d @ rest) = ucast t # d @ rest"
    and "drop 7 (physical t d @ rest) = d @ rest"
proof -
  have l: "length (EncodeFixed32 v) = 4" for v by simp
  have "physical t d ! 4 = ucast ((word_of_nat (length d) :: u64) AND 0xff)"
    "physical t d ! 5 = ucast (drop_bit 8 (word_of_nat (length d) :: u64))"
    "physical t d ! 6 = ucast t"
    by (simp_all add: physical_def nth_append)
  then have h: "take m (physical t d @ rest) ! 4 = ucast ((word_of_nat (length d) :: u64) AND 0xff)"
    "take m (physical t d @ rest) ! 5 = ucast (drop_bit 8 (word_of_nat (length d) :: u64))"
    "take m (physical t d @ rest) ! 6 = ucast t"
    using assms(3) by (simp_all add: nth_append)
  show "unat (ucast (take m (physical t d @ rest) ! 4) AND 0xff OR
      push_bit 8 (ucast (take m (physical t d @ rest) ! 5) AND 0xff) :: u32) = length d"
    unfolding h by (rule length_field [OF assms(2)])
  show "scast (take m (physical t d @ rest) ! 6) = t"
    unfolding h using assms(1) by auto
  show "DecodeFixed32 (physical t d @ rest) = Mask (crc_Value (ucast t # d))"
    by (simp add: physical_def)
  show "drop 6 (physical t d @ rest) = ucast t # d @ rest"
    "drop 7 (physical t d @ rest) = d @ rest"
    by (simp_all add: physical_def)
qed

context sequential_file
begin

text \<open>The reader stands at position \<open>p\<close> of the file, of which \<open>S\<close> is the rest.\<close>

definition stands :: "nat \<Rightarrow> 'f log_reader \<Rightarrow> bytes \<Rightarrow> bool" where
  "stands p r S \<longleftrightarrow>
     S = lr_buffer r @ remaining (lr_file r) \<and> healthy (lr_file r) \<and>
     p + length (lr_buffer r) \<le> 32768 * (p div 32768 + 1) \<and>
     (if lr_eof r then remaining (lr_file r) = [] else (p + length (lr_buffer r)) mod 32768 = 0) \<and>
     lr_initial_offset r = 0 \<and> \<not> lr_resyncing r"

lemma Parse_complete:
  assumes "lr_buffer r = physical t d @ rest" and "t \<in> {1, 2, 3, 4}" and "length d < 65536"
    and "lr_initial_offset r = 0"
  shows "ParsePhysicalRecord r result = (t, d, r\<lparr>lr_buffer := rest\<rparr>)"
proof -
  note f = physical_fields [OF assms(2,3), where rest = rest]
  have "t \<noteq> kZeroType" using assms(2) by (auto simp: record_types)
  moreover have "7 \<le> length (physical t d @ rest)" by simp
  ultimately show ?thesis
    using f(1,2) [of "length (physical t d @ rest)"] f(3-5) [OF order.refl] assms(1,4)
    by (simp add: ParsePhysicalRecord_def Let_def kHeaderSize_def)
qed

lemma Parse_truncated:
  assumes "lr_buffer r = take m (physical t d @ rest)" and "t \<in> {1, 2, 3, 4}" and "length d < 65536"
    and "7 \<le> m" and "m < 7 + length d" and "lr_eof r"
  shows "ParsePhysicalRecord r result = (kEof, result, r\<lparr>lr_buffer := []\<rparr>)"
proof -
  note f = physical_fields [OF assms(2-4), where rest = rest]
  have "length (lr_buffer r) = m" using assms(1,5) by simp
  then show ?thesis
    using f(1) assms unfolding ParsePhysicalRecord_def Let_def kHeaderSize_def by simp
qed

lemma block_of_buffer:
  assumes "stands p r S" and "\<not> lr_eof r" and "lr_buffer r \<noteq> []"
  shows "p mod 32768 + length (lr_buffer r) = 32768"
proof -
  define q m where "q = p div 32768" and "m = p mod 32768"
  have p: "p = 32768 * q + m" "m < 32768" by (simp_all add: q_def m_def)
  have e: "p + length (lr_buffer r) \<le> 32768 * (q + 1)" "(p + length (lr_buffer r)) mod 32768 = 0"
    using assms by (auto simp: stands_def q_def)
  then obtain k where k: "p + length (lr_buffer r) = 32768 * k" by (auto elim: dvdE simp flip: dvd_eq_mod_eq_0)
  have "0 < length (lr_buffer r)" using assms(3) by simp
  then have "32768 * q < 32768 * k" using k p(1) by linarith
  then have "k = q + 1" using e(1) k by simp
  then show ?thesis using k p by (simp flip: m_def)
qed

lemma stands_append:
  assumes "stands p r S" and "lr_buffer r = xs @ ys"
  shows "stands (p + length xs) (r\<lparr>lr_buffer := ys\<rparr>) (drop (length xs) S)"
proof -
  have "p div 32768 \<le> (p + length xs) div 32768" by (simp add: div_le_mono)
  then have "32768 * (p div 32768 + 1) \<le> 32768 * ((p + length xs) div 32768 + 1)"
    by (intro mult_le_mono) simp_all
  then show ?thesis
    using assms order_trans by (auto simp: stands_def add.assoc) 
qed

lemma pad_inside: "p + 7 \<le> 32768 * (p div 32768 + 1) \<Longrightarrow> pad p = 0"
  using next_block [of p] by (auto simp: pad_def Let_def)

lemma Parse_at:
  assumes "stands p r S" and "7 \<le> length (lr_buffer r)"
    and "S = take m (layout p ((t, d) # fs))" and "fits p ((t, d) # fs)"
  shows "pad p = 0"
    and "7 + length d \<le> m \<Longrightarrow> \<exists>r'. ParsePhysicalRecord r result = (t, d, r') \<and>
      stands (p + 7 + length d) r' (take (m - (7 + length d)) (layout (p + 7 + length d) fs)) \<and>
      lr_reporter r' = lr_reporter r"
    and "m < 7 + length d \<Longrightarrow> ParsePhysicalRecord r result = (kEof, result, r\<lparr>lr_buffer := []\<rparr>)"
proof -
  have "p + 7 \<le> 32768 * (p div 32768 + 1)" using assms(1,2) by (simp add: stands_def)
  then show pad: "pad p = 0" by (rule pad_inside)
  let ?X = "layout (p + 7 + length d) fs"
  have S: "S = take m (physical t d @ ?X)" using assms(3) pad by simp
  have t: "t \<in> {1, 2, 3, 4}" and len: "p mod 32768 + 7 + length d \<le> 32768"
    using assms(4) pad by simp_all
  then have d: "length d < 65536" by simp
  have room: "7 + length d \<le> length (lr_buffer r)" if "\<not> lr_eof r"
  proof -
    have "lr_buffer r \<noteq> []" using assms(2) by auto
    then show ?thesis using block_of_buffer [OF assms(1) that] len by linarith
  qed
  have buf: "S = lr_buffer r @ remaining (lr_file r)" and init: "lr_initial_offset r = 0"
    and eof: "lr_eof r \<Longrightarrow> lr_buffer r = S"
    using assms(1) by (auto simp: stands_def)
  show "\<exists>r'. ParsePhysicalRecord r result = (t, d, r') \<and>
      stands (p + 7 + length d) r' (take (m - (7 + length d)) ?X) \<and> lr_reporter r' = lr_reporter r"
    if m: "7 + length d \<le> m"
  proof -
    have S': "S = physical t d @ take (m - (7 + length d)) ?X" using S m by simp
    have "7 + length d \<le> length (lr_buffer r)" using room eof S' by (cases "lr_eof r") simp_all
    then have "take (7 + length d) (lr_buffer r) = physical t d"
      using buf S' by (metis append_eq_append_conv_if length_physical take_append_exact)
    then obtain rest where b: "lr_buffer r = physical t d @ rest"
      by (metis append_take_drop_id)
    then show ?thesis
      using Parse_complete [OF b t d init] stands_append [OF assms(1) b] S' by (simp add: add.assoc)
  qed
  show "ParsePhysicalRecord r result = (kEof, result, r\<lparr>lr_buffer := []\<rparr>)" if m: "m < 7 + length d"
  proof -
    have l: "length S = m" using S m by simp
    then have e: "lr_eof r" using room buf m by (cases "lr_eof r") auto
    moreover have "7 \<le> m" using eof [OF e] l assms(2) by simp
    ultimately show ?thesis using Parse_truncated [OF _ t d _ m] eof S by simp
  qed
qed

definition refilled :: "'f log_reader \<Rightarrow> bytes \<Rightarrow> 'f \<Rightarrow> 'f log_reader" where
  "refilled r data f =
     (let r0 = r\<lparr>lr_file := f, lr_buffer := data,
            lr_end_of_buffer_offset := lr_end_of_buffer_offset r + word_of_nat (length data)\<rparr>
      in if length data < kBlockSize then r0\<lparr>lr_eof := True\<rparr> else r0)"

lemma Read_refilled:
  assumes "length (lr_buffer r) < 7" and "\<not> lr_eof r" and "rd kBlockSize (lr_file r) = (s, data, f)" and "ok s"
  shows "ReadPhysicalRecord rd r result = ReadPhysicalRecord rd (refilled r data f) result"
  using assms by (subst ReadPhysicalRecord.simps) (simp add: kHeaderSize_def refilled_def Let_def)

lemma Read_refill:
  assumes "stands p r S" and "length (lr_buffer r) < 7" and "\<not> lr_eof r"
  shows "\<exists>r1. ReadPhysicalRecord rd r result = ReadPhysicalRecord rd r1 result \<and>
    stands (p + pad p) r1 (drop (pad p) S) \<and> (length (lr_buffer r1) < 7 \<longrightarrow> lr_eof r1) \<and>
    lr_reporter r1 = lr_reporter r"
proof -
  obtain s data f where rd: "rd kBlockSize (lr_file r) = (s, data, f)" by (metis prod_cases3)
  have h: "healthy (lr_file r)" using assms(1) by (simp add: stands_def)
  note ok = healthy_read [OF h rd] read_ok [OF rd]
  define r1 where "r1 = refilled r data f"
  have "ReadPhysicalRecord rd r result = ReadPhysicalRecord rd r1 result"
    using Read_refilled [OF assms(2,3) rd] ok by (simp add: r1_def)
  moreover have pad: "pad p = length (lr_buffer r)"
  proof (cases "lr_buffer r = []")
    case True
    then have "p mod 32768 = 0" using assms(1,3) by (simp add: stands_def)
    then show ?thesis using True by (simp add: pad_def)
  next
    case False
    then show ?thesis
      using block_of_buffer [OF assms(1,3)] assms(2) by (auto simp: pad_def Let_def)
  qed
  moreover have "stands (p + pad p) r1 (drop (pad p) S)"
  proof -
    have e: "(p + pad p) mod 32768 = 0" using assms(1,3) pad by (simp add: stands_def)
    have "length data \<le> 32768" using ok by (simp add: kBlockSize_def)
    moreover have "p + pad p = 32768 * ((p + pad p) div 32768)"
      using e mult_div_mod_eq [of 32768 "p + pad p"] by simp
    ultimately have "p + pad p + length data \<le> 32768 * ((p + pad p) div 32768 + 1)"
      unfolding distrib_left by linarith
    moreover have "length data < 32768 \<Longrightarrow> remaining f = []"
      using ok by (auto simp: kBlockSize_def)
    moreover have "(p + pad p + length data) mod 32768 = 0" if "\<not> length data < 32768"
    proof -
      have "length data = 32768" using that \<open>length data \<le> 32768\<close> by simp
      then show ?thesis using e by simp
    qed
    moreover have "drop (pad p) S = data @ remaining f"
      using assms(1) ok pad by (simp add: stands_def)
    moreover have "healthy f" "lr_initial_offset r = 0" "\<not> lr_resyncing r" "\<not> lr_eof r"
      using assms(1,3) ok by (simp_all add: stands_def)
    ultimately show ?thesis by (simp add: stands_def r1_def refilled_def Let_def kBlockSize_def)
  qed
  moreover have "length (lr_buffer r1) < 7 \<longrightarrow> lr_eof r1" "lr_reporter r1 = lr_reporter r"
    by (simp_all add: r1_def refilled_def Let_def kBlockSize_def)
  ultimately show ?thesis by blast
qed

lemma Read_full_buffer:
  "7 \<le> length (lr_buffer r) \<Longrightarrow> ReadPhysicalRecord rd r result = ParsePhysicalRecord r result"
  by (subst ReadPhysicalRecord.simps) (simp add: kHeaderSize_def)

lemma Read_at_eof:
  "length (lr_buffer r) < 7 \<Longrightarrow> lr_eof r \<Longrightarrow> ReadPhysicalRecord rd r result = (kEof, result, r\<lparr>lr_buffer := []\<rparr>)"
  by (subst ReadPhysicalRecord.simps) (simp add: kHeaderSize_def)

lemma layout_skip_pad: "drop (pad p) (take m (layout p ((t, d) # fs))) = take (m - pad p) (layout (p + pad p) ((t, d) # fs))"
  and pad_pad: "pad (p + pad p) = 0"
proof -
  show z: "pad (p + pad p) = 0" using pad_mod [of p] by (simp add: pad_def [of "p + pad p"] Let_def)
  show "drop (pad p) (take m (layout p ((t, d) # fs))) = take (m - pad p) (layout (p + pad p) ((t, d) # fs))"
    unfolding drop_take by (simp add: z)
qed

lemma Read_at:
  assumes "stands p r S" and "S = take m (layout p ((t, d) # fs))" and "fits p ((t, d) # fs)"
  shows "pad p + 7 + length d \<le> m \<Longrightarrow> \<exists>r'. ReadPhysicalRecord rd r result = (t, d, r') \<and>
      stands (p + pad p + 7 + length d) r'
        (take (m - (pad p + 7 + length d)) (layout (p + pad p + 7 + length d) fs)) \<and>
      lr_reporter r' = lr_reporter r" (is "_ \<Longrightarrow> ?complete")
    and "m < pad p + 7 + length d \<Longrightarrow> \<exists>r'. ReadPhysicalRecord rd r result = (kEof, result, r') \<and>
      lr_reporter r' = lr_reporter r" (is "_ \<Longrightarrow> ?truncated")
proof -
  have S: "length S = m" if "m < pad p + 7 + length d" using assms(2) that by simp
  have S': "pad p + 7 \<le> length S" if "pad p + 7 + length d \<le> m" using assms(2) that by simp
  consider (parse) "7 \<le> length (lr_buffer r)" | (eof) "length (lr_buffer r) < 7" "lr_eof r"
    | (refill) "length (lr_buffer r) < 7" "\<not> lr_eof r" by linarith
  then have "(pad p + 7 + length d \<le> m \<longrightarrow> ?complete) \<and> (m < pad p + 7 + length d \<longrightarrow> ?truncated)"
  proof cases
    case parse
    note at = Parse_at [OF assms(1) parse assms(2,3)]
    then show ?thesis using Read_full_buffer [OF parse] by simp
  next
    case eof
    then have "S = lr_buffer r" using assms(1) by (simp add: stands_def)
    then show ?thesis using eof Read_at_eof [OF eof] S' by auto
  next
    case refill
    then obtain r1 where r1: "ReadPhysicalRecord rd r result = ReadPhysicalRecord rd r1 result"
        "stands (p + pad p) r1 (drop (pad p) S)" "length (lr_buffer r1) < 7 \<longrightarrow> lr_eof r1"
        "lr_reporter r1 = lr_reporter r"
      using Read_refill [OF assms(1)] by blast
    have S1: "drop (pad p) S = take (m - pad p) (layout (p + pad p) ((t, d) # fs))"
      using assms(2) layout_skip_pad by simp
    have fits1: "fits (p + pad p) ((t, d) # fs)" using assms(3) by (simp add: pad_pad)
    show ?thesis
    proof (cases "length (lr_buffer r1) < 7")
      case True
      then have "drop (pad p) S = lr_buffer r1" using r1(2,3) by (simp add: stands_def)
      then have "length S - pad p < 7" using True by (metis length_drop)
      then have "\<not> pad p + 7 + length d \<le> m" using S' by linarith
      then show ?thesis using True r1 Read_at_eof by auto
    next
      case False
      then have full: "7 \<le> length (lr_buffer r1)" by simp
      show ?thesis
        using Parse_at(2,3) [OF r1(2) full S1 fits1] r1(1,4) Read_full_buffer [OF full]
        by (auto simp: less_diff_conv2 le_diff_conv2 algebra_simps)
    qed
  qed
  then show "pad p + 7 + length d \<le> m \<Longrightarrow> ?complete" "m < pad p + 7 + length d \<Longrightarrow> ?truncated"
    by blast+
qed

lemma Read_nothing:
  assumes "stands p r []"
  shows "\<exists>r'. ReadPhysicalRecord rd r result = (kEof, result, r') \<and> lr_reporter r' = lr_reporter r"
proof -
  have "layout p [(1, [])] \<noteq> []" by (simp add: physical_def)
  have "fits p [(1, [])]" using pad_mod [of p] by simp
  then show ?thesis using Read_at(2) [OF assms, of 0 1 "[]" "[]"] by simp
qed

end

context sequential_file
begin

lemma stands_last_offset [simp]: "stands p (r\<lparr>lr_last_record_offset := v\<rparr>) S = stands p r S"
  by (simp add: stands_def)

lemma round_eof:
  assumes "ReadPhysicalRecord rd r fragment = (kEof, fragment, r')" and "\<not> lr_resyncing r"
  shows "\<exists>r''. ReadRecord_round rd r scratch in_frag off fragment = Return None r'' \<and>
    lr_reporter r'' = lr_reporter r'"
  using assms by (simp add: ReadRecord_round_def Let_def record_types)

lemma round_record:
  assumes "ReadPhysicalRecord rd r fragment = (record_type_of b e, d, r')" and "\<not> lr_resyncing r'"
    and "b \<Longrightarrow> scratch = []"
  shows "\<exists>off' r''. ReadRecord_round rd r scratch (\<not> b) off fragment =
      (if e then Return (Some (scratch @ d)) r'' else Again r'' (scratch @ d) True off' d) \<and>
      r''\<lparr>lr_last_record_offset := 0\<rparr> = r'\<lparr>lr_last_record_offset := 0\<rparr>"
  using assms by (cases b; cases e) (auto simp: ReadRecord_round_def Let_def record_types record_type_of_def)

lemma loop_Return:
  "ReadRecord_round rd r scratch in_frag off fragment = Return x r' \<Longrightarrow>
   ReadRecord_loop rd r scratch in_frag off fragment = Some (x, r')"
  by (subst ReadRecord_loop.simps) simp

lemma loop_Again:
  "ReadRecord_round rd r scratch in_frag off fragment = Again r' scratch' in_frag' off' fragment' \<Longrightarrow>
   ReadRecord_loop rd r scratch in_frag off fragment = ReadRecord_loop rd r' scratch' in_frag' off' fragment'"
  by (subst ReadRecord_loop.simps) simp

lemma stands_cong:
  "r''\<lparr>lr_last_record_offset := 0\<rparr> = r'\<lparr>lr_last_record_offset := 0\<rparr> \<Longrightarrow>
   stands p r'' S = stands p r' S \<and> lr_reporter r'' = lr_reporter r'"
  by (metis stands_last_offset log_reader.select_convs(2) log_reader.surjective log_reader.update_convs(6))

text \<open>Reading one logical record whose fragments start at \<open>p\<close>, complete or cut after \<open>m\<close> bytes.\<close>

lemma Read_logical:
  assumes "stands p r (take m (layout p (frags p x b @ gs)))" and "fits p (frags p x b @ gs)"
    and "b \<Longrightarrow> scratch = []"
  shows "\<exists>r'. lr_reporter r' = lr_reporter r \<and>
    (if length (layout p (frags p x b)) \<le> m then
       ReadRecord_loop rd r scratch (\<not> b) off fragment = Some (Some (scratch @ x), r') \<and>
       stands (layout_end p (frags p x b)) r'
         (take (m - length (layout p (frags p x b))) (layout (layout_end p (frags p x b)) gs))
     else ReadRecord_loop rd r scratch (\<not> b) off fragment = Some (None, r'))"
  using assms
proof (induction p x b arbitrary: r m scratch off fragment rule: frags.induct)
  case (1 p ptr b)
  define n where "n = min (length ptr) (room p)"
  let ?t = "record_type_of b (length ptr = n)" and ?d = "take n ptr"
  let ?q = "p + pad p + 7 + length ?d" and ?l = "pad p + 7 + length ?d"
  define fs where "fs = (if drop n ptr \<noteq> [] then frags (p + pad p + 7 + n) (drop n ptr) False else [])"
  have frags: "frags p ptr b = (?t, ?d) # fs"
    by (subst frags.simps) (simp add: Let_def fs_def flip: n_def)
  have e: "(length ptr = n) = (drop n ptr = [])" and len: "length ?d = n"
    by (auto simp: n_def)
  note at = Read_at [OF "1.prems"(1) [unfolded frags append_Cons] refl "1.prems"(2) [unfolded frags append_Cons]]
  have nr: "\<not> lr_resyncing r" using "1.prems"(1) by (simp add: stands_def)
  show ?case
  proof (cases "?l \<le> m")
    case False
    then obtain r' where "ReadPhysicalRecord rd r fragment = (kEof, fragment, r')" "lr_reporter r' = lr_reporter r"
      using at(2) [of fragment] by auto
    then show ?thesis
      using round_eof [OF _ nr, of fragment r' scratch "\<not> b" off] False loop_Return frags by fastforce
  next
    case True
    then obtain r1 where r1: "ReadPhysicalRecord rd r fragment = (?t, ?d, r1)"
        "stands ?q r1 (take (m - ?l) (layout ?q (fs @ gs)))" "lr_reporter r1 = lr_reporter r"
      using at(1) [of fragment] by blast
    obtain off' r2 where r2: "ReadRecord_round rd r scratch (\<not> b) off fragment =
          (if length ptr = n then Return (Some (scratch @ ?d)) r2 else Again r2 (scratch @ ?d) True off' ?d)"
        "stands ?q r2 (take (m - ?l) (layout ?q (fs @ gs)))" "lr_reporter r2 = lr_reporter r"
    proof -
      have "\<not> lr_resyncing r1" using r1(2) by (simp add: stands_def)
      from round_record [OF r1(1) this "1.prems"(3), of off] r1(2,3) that
      show ?thesis using stands_cong by metis
    qed
    show ?thesis
    proof (cases "drop n ptr = []")
      case True
      then have "ReadRecord_loop rd r scratch (\<not> b) off fragment = Some (Some (scratch @ ptr), r2)"
        using r2(1) e loop_Return by simp
      moreover have "fs = []" using True by (simp add: fs_def)
      ultimately show ?thesis
        using r2(2,3) frags \<open>?l \<le> m\<close> by (intro exI [of _ r2]) (simp add: add.assoc)
    next
      case False
      let ?fs = "frags (p + pad p + 7 + n) (drop n ptr) False"
      have fs: "fs = ?fs" using False by (simp add: fs_def)
      have loop: "ReadRecord_loop rd r scratch (\<not> b) off fragment =
          ReadRecord_loop rd r2 (scratch @ ?d) True off' ?d"
        using r2(1) e False loop_Again by simp
      have "stands (p + pad p + 7 + n) r2 (take (m - ?l) (layout (p + pad p + 7 + n) (?fs @ gs)))"
        "fits (p + pad p + 7 + n) (?fs @ gs)"
        using r2(2) "1.prems"(2) frags len fs by simp_all
      from "1.IH" [OF n_def refl False this, of "scratch @ ?d" off' ?d]
      obtain r' where r': "lr_reporter r' = lr_reporter r2"
        "if length (layout (p + pad p + 7 + n) ?fs) \<le> m - ?l then
           ReadRecord_loop rd r2 (scratch @ ?d) (\<not> False) off' ?d = Some (Some ((scratch @ ?d) @ drop n ptr), r') \<and>
           stands (layout_end (p + pad p + 7 + n) ?fs) r'
            (take (m - ?l - length (layout (p + pad p + 7 + n) ?fs)) (layout (layout_end (p + pad p + 7 + n) ?fs) gs))
         else ReadRecord_loop rd r2 (scratch @ ?d) (\<not> False) off' ?d = Some (None, r')"
        by blast
      have "length (layout p (frags p ptr b)) = ?l + length (layout (p + pad p + 7 + n) ?fs)"
        using frags fs len by simp
      moreover have "layout_end p (frags p ptr b) = layout_end (p + pad p + 7 + n) ?fs"
        using frags fs len by simp
      ultimately show ?thesis
        using r' r2(3) loop \<open>?l \<le> m\<close> by (intro exI [of _ r']) (auto split: if_splits)
    qed
  qed
qed

text \<open>Draining a log of which the first \<open>m\<close> bytes are there.\<close>

lemma ReadRecord_no_skip:
  "lr_initial_offset r = 0 \<Longrightarrow> ReadRecord rd skip r = ReadRecord_loop rd r [] False 0 []"
  by (simp add: ReadRecord_def)

lemma ReadAll_layout:
  assumes "stands p r (take m (layout p (log_frags p xs)))"
  shows "\<exists>k r'. ReadAll rd skip r = Some (take k xs, r') \<and> lr_reporter r' = lr_reporter r \<and>
    k \<le> length xs \<and> (\<forall>j \<le> length xs. length (layout p (log_frags p (take j xs))) \<le> m \<longleftrightarrow> j \<le> k)"
  using assms
proof (induction xs arbitrary: p r m)
  case Nil
  then obtain r' where "ReadPhysicalRecord rd r [] = (kEof, [], r')" "lr_reporter r' = lr_reporter r"
    using Read_nothing [of p r "[]"] by auto
  moreover have "\<not> lr_resyncing r" "lr_initial_offset r = 0" using Nil by (simp_all add: stands_def)
  ultimately obtain r'' where "ReadRecord rd skip r = Some (None, r'')" "lr_reporter r'' = lr_reporter r"
    using round_eof [of r "[]" r' "[]" False 0] loop_Return ReadRecord_no_skip by metis
  then show ?case by (subst ReadAll.simps) auto
next
  case (Cons x xs)
  let ?fs = "frags p x True" and ?q = "layout_end p (frags p x True)"
  let ?L = "length (layout p ?fs)"
  have "fits p (?fs @ log_frags ?q xs)"
    by (simp add: fits_append fits_frags fits_log_frags)
  from Read_logical [OF Cons.prems [unfolded log_frags.simps] this, of "[]" 0 "[]"]
  obtain r1 where r1: "lr_reporter r1 = lr_reporter r"
      "if ?L \<le> m then ReadRecord_loop rd r [] (\<not> True) 0 [] = Some (Some ([] @ x), r1) \<and>
         stands ?q r1 (take (m - ?L) (layout ?q (log_frags ?q xs)))
       else ReadRecord_loop rd r [] (\<not> True) 0 [] = Some (None, r1)"
    by blast
  have rec: "ReadRecord rd skip r = ReadRecord_loop rd r [] False 0 []"
    using Cons.prems by (simp add: ReadRecord_no_skip stands_def)
  show ?case
  proof (cases "?L \<le> m")
    case True
    then obtain k r' where k: "ReadAll rd skip r1 = Some (take k xs, r')" "lr_reporter r' = lr_reporter r1"
        "k \<le> length xs" "\<forall>j \<le> length xs. length (layout ?q (log_frags ?q (take j xs))) \<le> m - ?L \<longleftrightarrow> j \<le> k"
      using Cons.IH [of ?q r1 "m - ?L"] r1(2) by auto
    have "length (layout p (log_frags p (take j (x # xs)))) \<le> m \<longleftrightarrow> j \<le> Suc k" if "j \<le> Suc (length xs)" for j
    proof (cases j)
      case (Suc i)
      then have "length (layout p (log_frags p (take j (x # xs)))) \<le> m \<longleftrightarrow>
          length (layout ?q (log_frags ?q (take i xs))) \<le> m - ?L"
        using True by (simp add: layout_append le_diff_conv2 add.commute)
      then show ?thesis using k(4) Suc that by simp
    qed simp
    moreover have "ReadAll rd skip r = Some (take (Suc k) (x # xs), r')"
      using r1(2) True k(1) rec by (subst ReadAll.simps) simp
    ultimately show ?thesis using k(2,3) r1(1) by (intro exI [of _ "Suc k"] exI [of _ r']) simp
  next
    case False
    then have "ReadAll rd skip r = Some (take 0 (x # xs), r1)"
      using r1(2) rec by (subst ReadAll.simps) simp
    moreover have "length (layout p (log_frags p (take j (x # xs)))) \<le> m \<longleftrightarrow> j \<le> 0" for j
      using False by (cases j) (simp_all add: layout_append)
    ultimately show ?thesis using r1(1) by (intro exI [of _ 0] exI [of _ r1]) simp
  qed
qed

lemma stands_initial:
  "healthy f \<Longrightarrow> stands 0 (Reader f reporter checksum 0) (remaining f)"
  by (simp add: stands_def Reader_def)

end

text \<open>Writing a list of records, up to the first failure.\<close>

fun AddRecords ::
    "(bytes \<Rightarrow> 'f \<Rightarrow> status \<times> 'f) \<Rightarrow> ('f \<Rightarrow> status \<times> 'f) \<Rightarrow> 'f log_writer \<Rightarrow> bytes list \<Rightarrow>
     status \<times> 'f log_writer" where
  "AddRecords wappend wflush w [] = (Status_OK, w)"
| "AddRecords wappend wflush w (x # xs) =
     (let (s, w) = AddRecord wappend wflush w x
      in if ok s then AddRecords wappend wflush w xs else (s, w))"

lemma AddRecords_take_ok:
  "ok (fst (AddRecords wappend wflush w xs)) \<Longrightarrow> ok (fst (AddRecords wappend wflush w (take j xs)))"
proof (induction xs arbitrary: w j)
  case (Cons x xs)
  then show ?case by (cases j) (auto split: if_splits prod.splits)
qed simp

context writable_file
begin

lemma AddRecords_content:
  assumes "AddRecords append flush w xs = (s, w')" and "ok s" and "writes_at w p"
  shows "content (lw_dest w') = content (lw_dest w) @ layout p (log_frags p xs) \<and>
    writes_at w' (layout_end p (log_frags p xs))"
  using assms
proof (induction xs arbitrary: w p)
  case Nil
  then show ?case by auto
next
  case (Cons x xs)
  obtain s1 w1 where w1: "AddRecord append flush w x = (s1, w1)" by force
  then have "ok s1" "AddRecords append flush w1 xs = (s, w')"
    using Cons.prems(1,2) by (auto split: if_splits)
  with AddRecord_loop_content [OF w1 [unfolded AddRecord_def] _ Cons.prems(3)] Cons.IH Cons.prems(2)
  show ?case by (fastforce simp: layout_append layout_end_append)
qed

lemma AddRecords_prefix_content:
  assumes "ok (fst (AddRecords append flush w xs))" and "writes_at w p"
  shows "content (lw_dest (snd (AddRecords append flush w (take j xs)))) =
    content (lw_dest w) @ layout p (log_frags p (take j xs))"
  using AddRecords_content [OF prod.collapse [symmetric] AddRecords_take_ok [OF assms(1)] assms(2)] by blast

end

lemma writes_at_Writer: "writes_at (Writer f) 0"
  by (simp add: writes_at_def Writer_def)

lemma writes_at_Writer_at: "n < 2 ^ 64 \<Longrightarrow> writes_at (Writer_at f (word_of_nat n)) n"
  by (simp add: writes_at_def Writer_at_def unat_mod kBlockSize_def less_imp_le)

subsection \<open>The reader always returns\<close>

lemma Report_simps [simp]:
  "lr_buffer (ReportDrop n s r) = lr_buffer r" "lr_file (ReportDrop n s r) = lr_file r"
  "lr_eof (ReportDrop n s r) = lr_eof r" "lr_initial_offset (ReportDrop n s r) = lr_initial_offset r"
  "lr_buffer (ReportCorruption n m r) = lr_buffer r" "lr_file (ReportCorruption n m r) = lr_file r"
  "lr_eof (ReportCorruption n m r) = lr_eof r"
  "lr_initial_offset (ReportCorruption n m r) = lr_initial_offset r"
  by (simp_all add: ReportDrop_def ReportCorruption_def split: option.split)

context sequential_file
begin

text \<open>The bytes the reader has not consumed yet, and one more while the end was not reached.\<close>

definition work :: "'f log_reader \<Rightarrow> nat" where
  "work r = (if lr_eof r then 0 else length (remaining (lr_file r)) + 1) + length (lr_buffer r)"

lemma work_cong [simp]:
  "work (ReportDrop n s r) = work r" "work (ReportCorruption n m r) = work r"
  "work (r\<lparr>lr_resyncing := b\<rparr>) = work r" "work (r\<lparr>lr_last_record_offset := v\<rparr>) = work r"
  by (simp_all add: work_def)

lemma Parse_progress:
  assumes "ParsePhysicalRecord r result = (t, d, r')" and "7 \<le> length (lr_buffer r)"
  shows "t = kEof \<or> work r' < work r" and "lr_initial_offset r' = lr_initial_offset r"
proof -
  have b: "lr_buffer r \<noteq> []" using assms(2) by auto
  show "t = kEof \<or> work r' < work r"
    using assms b unfolding ParsePhysicalRecord_def Let_def kHeaderSize_def
    by (auto simp: work_def split: if_splits)
  show "lr_initial_offset r' = lr_initial_offset r"
    using assms unfolding ParsePhysicalRecord_def Let_def by (auto split: if_splits)
qed

lemma Read_progress:
  "ReadPhysicalRecord rd r result = (t, d, r') \<Longrightarrow>
   (t = kEof \<or> work r' < work r) \<and> lr_initial_offset r' = lr_initial_offset r"
proof (induction "if lr_eof r \<or> kHeaderSize \<le> length (lr_buffer r) then 0 else 1 :: nat" arbitrary: r rule: less_induct)
  case less
  show ?case
  proof (cases "7 \<le> length (lr_buffer r)")
    case True
    then show ?thesis using Parse_progress Read_full_buffer less.prems by metis
  next
    case False
    then have b: "length (lr_buffer r) < 7" by simp
    show ?thesis
    proof (cases "lr_eof r")
      case True
      then show ?thesis using less.prems Read_at_eof [OF b True] by auto
    next
      case ne: False
      obtain s data f where rd: "rd kBlockSize (lr_file r) = (s, data, f)" by (metis prod_cases3)
      define r1 where "r1 = refilled r data f"
      have init: "lr_initial_offset r1 = lr_initial_offset r" by (simp add: r1_def refilled_def Let_def)
      show ?thesis
      proof (cases "ok s")
        case True
        then have "ReadPhysicalRecord rd r1 result = (t, d, r')"
          using Read_refilled [OF b ne rd] less.prems by (simp add: r1_def)
        moreover have "work r1 \<le> work r"
          using read_ok [OF rd True] ne by (simp add: work_def r1_def refilled_def Let_def kBlockSize_def)
        moreover have "lr_eof r1 \<or> kHeaderSize \<le> length (lr_buffer r1)"
          by (auto simp: r1_def refilled_def Let_def log_sizes)
        ultimately show ?thesis
          using less.hyps [of r1] b ne init by (fastforce simp: kHeaderSize_def)
      next
        case False
        then show ?thesis
          using less.prems b ne rd by (subst (asm) ReadPhysicalRecord.simps) (auto simp: kHeaderSize_def Let_def)
      qed
    qed
  qed
qed

lemma round_progress:
  assumes "ReadRecord_round rd r scratch in_frag off fragment = Again r' scratch' in_frag' off' fragment'"
  shows "work r' < work r"
proof -
  obtain t d r1 where 1: "ReadPhysicalRecord rd r fragment = (t, d, r1)" by (metis prod_cases3)
  have "t \<noteq> kEof \<and> work r' = work r1"
    using assms 1 by (auto simp: ReadRecord_round_def Let_def record_types split: if_splits)
  then show ?thesis using Read_progress [OF 1] by simp
qed

lemma loop_returns: "\<exists>x r'. ReadRecord_loop rd r scratch in_frag off fragment = Some (x, r')"
proof (induction r arbitrary: scratch in_frag off fragment rule: measure_induct_rule [of work])
  case (less r)
  show ?case
  proof (cases "ReadRecord_round rd r scratch in_frag off fragment")
    case (Return x r')
    then show ?thesis using loop_Return by blast
  next
    case (Again r' scratch' in_frag' off' fragment')
    then show ?thesis using less [OF round_progress [OF Again]] loop_Again [OF Again] by metis
  qed
qed

lemma ReadRecord_returns: "\<exists>x r'. ReadRecord rd skip r = Some (x, r')"
  using loop_returns by (auto simp: ReadRecord_def Let_def split: prod.split)

lemma loop_consumes:
  "ReadRecord_loop rd r scratch in_frag off fragment = Some (Some x, r') \<Longrightarrow>
   work r' < work r \<and> lr_initial_offset r' = lr_initial_offset r"
proof (induction r arbitrary: scratch in_frag off fragment rule: measure_induct_rule [of work])
  case (less r)
  obtain t d r1 where 1: "ReadPhysicalRecord rd r fragment = (t, d, r1)" by (metis prod_cases3)
  show ?case
  proof (cases "ReadRecord_round rd r scratch in_frag off fragment")
    case (Return y r2)
    then have "y = Some x" "r2 = r'" using less.prems loop_Return [OF Return] by auto
    moreover from this have "t \<noteq> kEof \<and> work r2 = work r1 \<and> lr_initial_offset r2 = lr_initial_offset r1"
      using Return 1 by (auto simp: ReadRecord_round_def Let_def record_types split: if_splits)
    ultimately show ?thesis using Read_progress [OF 1] by simp
  next
    case (Again r2 scratch' in_frag' off' fragment')
    have "lr_initial_offset r2 = lr_initial_offset r1"
      using Again 1 by (auto simp: ReadRecord_round_def Let_def record_types split: if_splits)
    then show ?thesis
      using less.IH [OF round_progress [OF Again]] less.prems loop_Again [OF Again] Read_progress [OF 1]
        round_progress [OF Again] by fastforce
  qed
qed

lemma ReadAll_returns: "lr_initial_offset r = 0 \<Longrightarrow> \<exists>xs r'. ReadAll rd skip r = Some (xs, r')"
proof (induction r rule: measure_induct_rule [of work])
  case (less r)
  obtain y r1 where y: "ReadRecord rd skip r = Some (y, r1)" using ReadRecord_returns by blast
  show ?case
  proof (cases y)
    case None
    then show ?thesis using y by (subst ReadAll.simps) simp
  next
    case (Some x)
    have "work r1 < work r" "lr_initial_offset r1 = 0"
      using loop_consumes [of r] y Some ReadRecord_no_skip [OF less.prems] less.prems by auto
    then obtain xs r' where "ReadAll rd skip r1 = Some (xs, r')" using less.IH by blast
    then show ?thesis using y Some by (subst ReadAll.simps) simp
  qed
qed

end

subsection \<open>Properties\<close>

lemma log_frags_append:
  "log_frags p (xs @ ys) = log_frags p xs @ log_frags (layout_end p (log_frags p xs)) ys"
  by (induction p xs rule: log_frags.induct) (simp_all add: layout_end_append)

definition new_log_file :: posix_writable where
  "new_log_file = \<lparr>pw_filename = str ''000003.log'', pw_file =
     \<lparr>wf_disk = [], wf_buf = [], wf_room = 1000, wf_bad_flush = False, wf_errno = []\<rparr>\<rparr>"

definition log_file_with :: "bytes \<Rightarrow> posix_sequential" where
  "log_file_with data = \<lparr>ps_filename = str ''000003.log'', ps_file =
     \<lparr>cf_data = data, cf_pos = 0, cf_bad = None, cf_errno = []\<rparr>\<rparr>"

lemma log_file_with_simps [simp]:
  "seq_remaining (log_file_with data) = data" "seq_healthy (log_file_with data)"
  by (simp_all add: log_file_with_def seq_remaining_def seq_healthy_def)

lemma write_content_new [simp]: "write_content new_log_file = []"
  by (simp add: write_content_def new_log_file_def)

lemmas log_write_eval =
  AddRecord_def AddRecord_loop.simps switch_block_def EmitPhysicalRecord_def Writer_def Writer_at_def
  new_log_file_def posix_write_defs log_sizes

text \<open>Claim C2: the log returns what was written to it, also after it was reopened for appending:
  draining a log gives the records of the first and of the second writer, in order, and no
  corruption is reported, whatever the sizes of the records and the block boundaries they cross.\<close>

theorem log_roundtrip:
  assumes "AddRecords PosixWritableFile_Append PosixWritableFile_Flush (Writer f) rs1 = (s1, w1)" and "ok s1"
    and "write_content f = []"
    and "length (write_content (lw_dest w1)) < 2 ^ 64"
    and "AddRecords PosixWritableFile_Append PosixWritableFile_Flush
      (Writer_at (lw_dest w1) (word_of_nat (length (write_content (lw_dest w1))))) rs2 = (s2, w2)" and "ok s2"
    and "seq_healthy g" and "seq_remaining g = write_content (lw_dest w2)"
  shows "\<exists>r. ReadAll PosixSequentialFile_Read PosixSequentialFile_Skip (Reader g True checksum 0) =
    Some (rs1 @ rs2, r) \<and> lr_reporter r = Some []"
proof -
  have 1: "write_content (lw_dest w1) = layout 0 (log_frags 0 rs1)"
    using posix_write.AddRecords_content [OF assms(1,2) writes_at_Writer] assms(3) by (simp add: Writer_def)
  then have n: "length (write_content (lw_dest w1)) = layout_end 0 (log_frags 0 rs1)"
    by (simp add: length_layout)
  have "write_content (lw_dest w2) = layout 0 (log_frags 0 (rs1 @ rs2))"
    using posix_write.AddRecords_content [OF assms(5,6) writes_at_Writer_at [OF assms(4)]] 1 n
    by (simp add: Writer_at_def layout_append log_frags_append)
  then have "posix_seq.stands 0 (Reader g True checksum 0)
      (take (length (seq_remaining g)) (layout 0 (log_frags 0 (rs1 @ rs2))))"
    using posix_seq.stands_initial [OF assms(7)] assms(8) by simp
  from posix_seq.ReadAll_layout [OF this, of PosixSequentialFile_Skip]
  obtain k r where k: "ReadAll PosixSequentialFile_Read PosixSequentialFile_Skip (Reader g True checksum 0) =
      Some (take k (rs1 @ rs2), r)" "lr_reporter r = Some []" "k \<le> length (rs1 @ rs2)"
      "\<forall>j \<le> length (rs1 @ rs2).
        length (layout 0 (log_frags 0 (take j (rs1 @ rs2)))) \<le> length (seq_remaining g) \<longleftrightarrow> j \<le> k"
    by (auto simp: Reader_def)
  have "length (rs1 @ rs2) \<le> k"
    using k(4) [rule_format, of "length (rs1 @ rs2)"] \<open>write_content (lw_dest w2) = _\<close> assms(8) by simp
  then show ?thesis using k(1,2) by simp
qed

theorem log_roundtrip_witness:
  "\<exists>r. ReadAll PosixSequentialFile_Read PosixSequentialFile_Skip
     (Reader (log_file_with (write_content (lw_dest (snd (AddRecords PosixWritableFile_Append
       PosixWritableFile_Flush (Writer_at (lw_dest (snd (AddRecords PosixWritableFile_Append
         PosixWritableFile_Flush (Writer new_log_file) [[1, 2], []]))) 16) [[3]]))))) True True 0) =
    Some ([[1, 2], []] @ [[3]], r) \<and> lr_reporter r = Some []"
proof -
  let ?A = "AddRecords PosixWritableFile_Append PosixWritableFile_Flush"
  let ?w1 = "?A (Writer new_log_file) [[1, 2], []]"
  let ?w2 = "?A (Writer_at (lw_dest (snd ?w1)) 16) [[3]]"
  have 1: "ok (fst ?w1)" by (simp add: log_write_eval)
  have 2: "length (write_content (lw_dest (snd ?w1))) = 16" by (simp add: log_write_eval)
  have 3: "ok (fst ?w2)" by (simp add: log_write_eval)
  have 4: "?A (Writer_at (lw_dest (snd ?w1)) (word_of_nat (length (write_content (lw_dest (snd ?w1)))))) [[3]] =
    (fst ?w2, snd ?w2)" unfolding 2 by simp
  show ?thesis
    by (rule log_roundtrip [OF prod.collapse [symmetric] 1 _ _ 4 3]) (simp_all add: 2 del: AddRecords.simps)
qed

text \<open>Claim C1: a log cut anywhere, as a crash cuts it, is read without a corruption report, and
  exactly the records come back whose bytes are completely in front of the cut.\<close>

theorem log_crash_recovery:
  assumes "AddRecords PosixWritableFile_Append PosixWritableFile_Flush (Writer f) rs = (s, w)" and "ok s"
    and "write_content f = []"
    and "seq_healthy g" and "seq_remaining g = take n (write_content (lw_dest w))"
  shows "\<exists>k r. ReadAll PosixSequentialFile_Read PosixSequentialFile_Skip (Reader g True checksum 0) =
      Some (take k rs, r) \<and> lr_reporter r = Some [] \<and> k \<le> length rs \<and>
    (\<forall>j \<le> length rs. length (write_content (lw_dest (snd (AddRecords PosixWritableFile_Append
        PosixWritableFile_Flush (Writer f) (take j rs))))) \<le> n \<longleftrightarrow> j \<le> k)"
proof -
  have c: "write_content (lw_dest (snd (AddRecords PosixWritableFile_Append PosixWritableFile_Flush
      (Writer f) (take j rs)))) = layout 0 (log_frags 0 (take j rs))" for j
    using posix_write.AddRecords_prefix_content [OF _ writes_at_Writer, of f rs j] assms(1-3)
    by (simp add: Writer_def)
  have "posix_seq.stands 0 (Reader g True checksum 0) (take n (layout 0 (log_frags 0 rs)))"
    using posix_seq.stands_initial [OF assms(4)] assms(1,5) c [of "length rs"] by simp
  from posix_seq.ReadAll_layout [OF this, of PosixSequentialFile_Skip] show ?thesis
    by (simp add: c Reader_def)
qed

theorem log_crash_recovery_witness:
  "\<exists>r. ReadAll PosixSequentialFile_Read PosixSequentialFile_Skip
      (Reader (log_file_with (take 11 (write_content (lw_dest (snd (AddRecords PosixWritableFile_Append
       PosixWritableFile_Flush (Writer new_log_file) [[1, 2], [3]])))))) True True 0) =
      Some ([[1, 2]], r) \<and> lr_reporter r = Some []"
proof -
  let ?A = "AddRecords PosixWritableFile_Append PosixWritableFile_Flush (Writer new_log_file)"
  let ?r = "Reader (log_file_with (take 11 (write_content (lw_dest (snd (?A [[1, 2], [3]])))))) True True 0"
  have "ok (fst (?A [[1, 2], [3]]))" by (simp add: log_write_eval)
  from log_crash_recovery [OF prod.collapse [symmetric] this, of "log_file_with (take 11
      (write_content (lw_dest (snd (?A [[1, 2], [3]])))))" 11 True]
  obtain k r where k: "ReadAll PosixSequentialFile_Read PosixSequentialFile_Skip ?r =
      Some (take k [[1, 2], [3]], r)" "lr_reporter r = Some []" "k \<le> 2"
      "\<And>j. j \<le> 2 \<Longrightarrow> length (write_content (lw_dest (snd (?A (take j [[1, 2], [3]]))))) \<le> 11 \<longleftrightarrow> j \<le> k"
    by (auto simp del: AddRecords.simps)
  have "length (write_content (lw_dest (snd (?A [[1, 2]])))) = 9"
    "length (write_content (lw_dest (snd (?A [[1, 2], [3]])))) = 17"
    by (simp_all add: log_write_eval)
  then have "k = 1" using k(3) k(4) [of 1] k(4) [of 2] by (simp del: AddRecords.simps)
  then show ?thesis using k(1,2) by auto
qed

text \<open>Claim C3: the reader terminates on every file, whatever its bytes and whether or not the
  device fails: from any state a call of \<^verbatim>\<open>ReadRecord\<close> returns, and draining a log returns.\<close>

theorem log_reader_returns:
  "(\<exists>result. ReadRecord PosixSequentialFile_Read PosixSequentialFile_Skip r = Some result) \<and>
   (\<exists>result. ReadAll PosixSequentialFile_Read PosixSequentialFile_Skip (Reader f reporter checksum 0) = Some result)"
  using posix_seq.ReadRecord_returns posix_seq.ReadAll_returns by (fastforce simp: Reader_def)

end
