(* ===== verification/LDB_Bloom.thy ===== *)
theory LDB_Bloom
  imports LDB_Coding
begin

text \<open>
  \<^verbatim>\<open>util/hash.cc\<close>, \<^verbatim>\<open>util/bloom.cc\<close> and the interface \<^verbatim>\<open>include/leveldb/filter_policy.h\<close>.
  The abstract class \<^verbatim>\<open>FilterPolicy\<close> is the locale \<open>filter_policy\<close>, whose law is the promise of
  its header: a filter never denies a key it was built from. The Bloom filter interprets it.
\<close>

unbundle bit_operations_syntax

subsection \<open>The hash function\<close>

definition hash_m :: u32 where
  "hash_m = 0xc6a4a793"

fun Hash_loop :: "u32 \<Rightarrow> bytes \<Rightarrow> u32 \<times> bytes" where
  "Hash_loop h (a # b # c # d # data) =
     (let w = DecodeFixed32 [a, b, c, d];
          h = h + w;
          h = h * hash_m;
          h = h XOR drop_bit 16 h
      in Hash_loop h data)"
| "Hash_loop h data = (h, data)"

text \<open>The switch on the remaining bytes falls through from case 3 to case 1.\<close>

definition Hash_tail :: "u32 \<Rightarrow> bytes \<Rightarrow> u32" where
  "Hash_tail h data =
     (let h = (if length data = 3 then h + push_bit 16 (ucast (data ! 2)) else h);
          h = (if length data \<in> {2, 3} then h + push_bit 8 (ucast (data ! 1)) else h)
      in if length data \<in> {1, 2, 3} then
           let h = h + ucast (data ! 0);
               h = h * hash_m
           in h XOR drop_bit 24 h
         else h)"

definition Hash :: "bytes \<Rightarrow> u32 \<Rightarrow> u32" where
  "Hash data seed =
     (let h = seed XOR (word_of_nat (length data) * hash_m);
          (h, rest) = Hash_loop h data
      in Hash_tail h rest)"

subsection \<open>Bloom filters\<close>

definition BloomHash :: "bytes \<Rightarrow> u32" where
  "BloomHash key = Hash key 0xbc9f1d34"

record bloom_policy =
  bits_per_key :: u64
  bloom_k :: nat

text \<open>
  The constructor takes a non-negative \<^verbatim>\<open>int\<close>, that is, a 31-bit number. The product with 0.69 is
  computed in floating point and rounded down; below 100 it is never an integer (except at 0) and
  from 44 on the result is cut to 30, so exact arithmetic gives the same value.
\<close>

definition BloomFilterPolicy :: "31 word \<Rightarrow> bloom_policy" where
  "BloomFilterPolicy n =
     (let k = unat n * 69 div 100;
          k = (if k < 1 then 1 else k);
          k = (if k > 30 then 30 else k)
      in \<lparr>bits_per_key = ucast n, bloom_k = k\<rparr>)"

definition bloom_delta :: "u32 \<Rightarrow> u32" where
  "bloom_delta h = drop_bit 17 h OR push_bit 15 h"

fun bloom_add :: "u64 \<Rightarrow> u32 \<Rightarrow> nat \<Rightarrow> u32 \<Rightarrow> bytes \<Rightarrow> bytes" where
  "bloom_add bits delta 0 h array = array"
| "bloom_add bits delta (Suc j) h array =
     (let bitpos = ucast (ucast h mod bits) :: u32;
          i = unat (bitpos div 8)
      in bloom_add bits delta j (h + delta)
           (array[i := array ! i OR push_bit (unat (bitpos mod 8)) 1]))"

fun bloom_add_keys :: "u64 \<Rightarrow> nat \<Rightarrow> bytes list \<Rightarrow> bytes \<Rightarrow> bytes" where
  "bloom_add_keys bits k [] array = array"
| "bloom_add_keys bits k (key # keys) array =
     (let h = BloomHash key
      in bloom_add_keys bits k keys (bloom_add bits (bloom_delta h) k h array))"

definition bloom_bytes :: "bloom_policy \<Rightarrow> nat \<Rightarrow> u64" where
  "bloom_bytes p n =
     (let bits = word_of_nat n * bits_per_key p;
          bits = (if bits < 64 then 64 else bits)
      in (bits + 7) div 8)"

definition CreateFilter :: "bloom_policy \<Rightarrow> bytes list \<Rightarrow> bytes \<Rightarrow> bytes" where
  "CreateFilter p keys dst =
     (let bytes = bloom_bytes p (length keys);
          bits = bytes * 8;
          array = replicate (unat bytes) 0
      in dst @ bloom_add_keys bits (bloom_k p) keys array @ [word_of_nat (bloom_k p)])"

fun bloom_test :: "u64 \<Rightarrow> u32 \<Rightarrow> nat \<Rightarrow> u32 \<Rightarrow> bytes \<Rightarrow> bool" where
  "bloom_test bits delta 0 h array = True"
| "bloom_test bits delta (Suc j) h array =
     (let bitpos = ucast (ucast h mod bits) :: u32
      in if array ! unat (bitpos div 8) AND push_bit (unat (bitpos mod 8)) 1 = 0 then False
         else bloom_test bits delta j (h + delta) array)"

definition KeyMayMatch :: "bytes \<Rightarrow> bytes \<Rightarrow> bool" where
  "KeyMayMatch key bloom_filter =
     (let len = length bloom_filter
      in if len < 2 then False
         else
           let bits = (word_of_nat len - 1) * 8 :: u64;
               k = scast (bloom_filter ! (len - 1)) :: u64
           in if k > 30 then True
              else let h = BloomHash key
                   in bloom_test bits (bloom_delta h) (unat k) h bloom_filter)"

subsection \<open>The contract of a filter policy\<close>

text \<open>
  \<open>max_keys\<close> bounds the number of keys of one filter: the code passes it as an \<^verbatim>\<open>int\<close>.
\<close>

locale filter_policy =
  fixes create :: "bytes list \<Rightarrow> bytes \<Rightarrow> bytes"
    and may_match :: "bytes \<Rightarrow> bytes \<Rightarrow> bool"
    and max_keys :: nat
  assumes create_appends: "create keys dst = dst @ create keys []"
    and no_false_negative:
      "length keys \<le> max_keys \<Longrightarrow> key \<in> set keys \<Longrightarrow> may_match key (create keys [])"

subsection \<open>Bits of the filter array\<close>

definition bit_at :: "bytes \<Rightarrow> nat \<Rightarrow> bool" where
  "bit_at array pos = bit (array ! (pos div 8)) (pos mod 8)"

lemma bit_at_set:
  assumes "i < length array" and "r < 8"
  shows "bit_at (array[i := array ! i OR 2 ^ r]) q \<longleftrightarrow> bit_at array q \<or> q = 8 * i + r"
proof -
  have "q = 8 * i + r \<longleftrightarrow> q div 8 = i \<and> q mod 8 = r" using assms(2) by auto
  then show ?thesis
    using assms by (cases "q div 8 = i") (auto simp: bit_at_def bit_simps)
qed

text \<open>The probe positions of a key, as both loops enumerate them.\<close>

fun probes :: "u64 \<Rightarrow> u32 \<Rightarrow> nat \<Rightarrow> u32 \<Rightarrow> nat list" where
  "probes bits delta 0 h = []"
| "probes bits delta (Suc j) h = unat h mod unat bits # probes bits delta j (h + delta)"

lemma bitpos_eq:
  assumes "bits \<noteq> 0"
  shows "unat (ucast (ucast (h :: u32) mod bits :: u64) :: u32) = unat h mod unat bits"
proof -
  have "unat (ucast h :: u64) = unat h"
    using unat_bounds(2) [of h] by (simp add: unsigned_ucast_eq take_bit_nat_eq_self_iff)
  then have "unat (ucast h mod bits) = unat h mod unat bits"
    by (simp add: unat_mod)
  moreover have "unat h mod unat bits < 2 ^ 32"
    using unat_bounds(2) [of h] mod_less_eq_dividend le_less_trans by blast
  ultimately show ?thesis
    by (simp add: unsigned_ucast_eq take_bit_nat_eq_self_iff)
qed

lemma unat_div_mod_8: "unat ((w :: u32) div 8) = unat w div 8" "unat (w mod 8) = unat w mod 8"
  by (simp_all add: unat_div unat_mod)

lemma length_bloom_add [simp]: "length (bloom_add bits delta j h array) = length array"
  by (induction j arbitrary: h array) (simp_all add: Let_def)

lemma length_bloom_add_keys [simp]: "length (bloom_add_keys bits k keys array) = length array"
  by (induction keys arbitrary: array) (simp_all add: Let_def)

lemma bit_at_bloom_add:
  assumes "bits \<noteq> 0" and "unat bits \<le> 8 * length array"
  shows "bit_at (bloom_add bits delta j h array) q \<longleftrightarrow>
    bit_at array q \<or> q \<in> set (probes bits delta j h)"
  using assms(2)
proof (induction j arbitrary: h array)
  case 0
  then show ?case by simp
next
  case (Suc j)
  let ?p = "unat h mod unat bits"
  have "0 < unat bits" using assms(1) by (simp add: unat_gt_0)
  then have "?p < 8 * length array" using Suc.prems mod_less_divisor order_less_le_trans by blast
  then have "?p div 8 < length array" by (simp add: less_mult_imp_div_less mult.commute)
  then show ?case
    using Suc bitpos_eq [OF assms(1)]
    by (auto simp: Let_def unat_div_mod_8 bit_at_set)
qed

lemma bit_at_bloom_add_keys:
  assumes "bits \<noteq> 0" and "unat bits \<le> 8 * length array"
  shows "bit_at (bloom_add_keys bits k keys array) q \<longleftrightarrow>
    bit_at array q \<or>
    (\<exists>key \<in> set keys. q \<in> set (probes bits (bloom_delta (BloomHash key)) k (BloomHash key)))"
  using assms(2)
  by (induction keys arbitrary: array)
    (auto simp: Let_def bit_at_bloom_add [OF assms(1)])

lemma probes_bound: "bits \<noteq> 0 \<Longrightarrow> q \<in> set (probes bits delta j h) \<Longrightarrow> q < unat bits"
  by (induction j arbitrary: h) (auto simp: unat_gt_0)

lemma bit_at_append: "q < 8 * length xs \<Longrightarrow> bit_at (xs @ ys) q = bit_at xs q"
  by (simp add: bit_at_def nth_append less_mult_imp_div_less mult.commute)

lemma bloom_test_iff:
  assumes "bits \<noteq> 0"
  shows "bloom_test bits delta j h array \<longleftrightarrow> (\<forall>q \<in> set (probes bits delta j h). bit_at array q)"
proof -
  have "(b :: byte) AND push_bit r 1 = 0 \<longleftrightarrow> \<not> bit b r" if "r < 8" for b r
    using that and_exp_eq_0_iff_not_bit [of b r] by (simp add: push_bit_eq_mult)
  then show ?thesis
    by (induction j arbitrary: h)
      (auto simp: Let_def bitpos_eq [OF assms] unat_div_mod_8 bit_at_def)
qed

subsection \<open>No false negatives\<close>

lemma bloom_k_range: "1 \<le> bloom_k (BloomFilterPolicy n) \<and> bloom_k (BloomFilterPolicy n) \<le> 30"
  by (simp add: BloomFilterPolicy_def Let_def)

lemma bloom_bytes_small:
  assumes "n < 2 ^ 31"
  shows "unat (bloom_bytes (BloomFilterPolicy b) n) \<le> 2 ^ 60" "8 \<le> unat (bloom_bytes (BloomFilterPolicy b) n)"
proof -
  let ?bits = "word_of_nat n * ucast b :: u64"
  have b: "unat b < 2 ^ 31" using unsigned_less [of b] by (rule order.strict_trans2) simp
  then have "n * unat b < 2 ^ 31 * 2 ^ 31"
    using assms by (intro mult_strict_mono) simp_all
  then have m: "n * unat b < 2 ^ 62" by simp
  have "unat (ucast b :: u64) = unat b"
    using b by (simp add: unsigned_ucast_eq take_bit_nat_eq_self_iff)
  moreover have "unat (word_of_nat n :: u64) = n"
    using assms by (intro unat_word_of_nat_small) simp
  ultimately have u: "unat ?bits = n * unat b"
    using m by (simp add: unat_word_ariths)
  define bits' where "bits' = (if ?bits < 64 then 64 else ?bits)"
  have "64 \<le> unat bits'" "unat bits' < 2 ^ 62"
    using u m by (simp_all add: bits'_def word_less_nat_alt)
  then have "unat ((bits' + 7) div 8) = (unat bits' + 7) div 8"
    by (simp add: unat_div unat_word_ariths)
  moreover have "bloom_bytes (BloomFilterPolicy b) n = (bits' + 7) div 8"
    by (simp add: bloom_bytes_def BloomFilterPolicy_def bits'_def Let_def)
  ultimately show "unat (bloom_bytes (BloomFilterPolicy b) n) \<le> 2 ^ 60"
    "8 \<le> unat (bloom_bytes (BloomFilterPolicy b) n)"
    using \<open>64 \<le> unat bits'\<close> \<open>unat bits' < 2 ^ 62\<close> by simp_all
qed

lemma CreateFilter_appends: "CreateFilter p keys dst = dst @ CreateFilter p keys []"
  by (simp add: CreateFilter_def Let_def)

lemma scast_small_byte: "k \<le> 30 \<Longrightarrow> (scast (word_of_nat k :: byte) :: u64) = word_of_nat k"
proof -
  assume "k \<le> 30"
  then have "signed_take_bit 7 (int k) = int k"
    by (simp add: signed_take_bit_int_eq_self_iff)
  then show ?thesis
    by (simp add: signed_of_nat)
qed

lemma bloom_no_false_negative:
  assumes "length keys < 2 ^ 31" and "key \<in> set keys"
  shows "KeyMayMatch key (CreateFilter (BloomFilterPolicy b) keys [])"
proof -
  let ?p = "BloomFilterPolicy b"
  let ?n = "bloom_bytes ?p (length keys)"
  let ?array = "bloom_add_keys (?n * 8) (bloom_k ?p) keys (replicate (unat ?n) 0)"
  let ?f = "?array @ [word_of_nat (bloom_k ?p)]"
  note n = bloom_bytes_small [OF assms(1), of b]
  have f: "CreateFilter ?p keys [] = ?f"
    by (simp add: CreateFilter_def Let_def)
  have bits: "unat (?n * 8) = unat ?n * 8" "?n * 8 \<noteq> 0"
    using n by (simp_all add: unat_word_ariths word_neq_0_conv word_less_nat_alt)
  have len: "(word_of_nat (length ?f) - 1) * 8 = (?n * 8 :: u64)"
    by simp
  have k: "unat (word_of_nat (bloom_k ?p) :: u64) = bloom_k ?p"
    using bloom_k_range [of b] by (intro unat_word_of_nat_small) simp
  have "bit_at ?f q"
    if q: "q \<in> set (probes (?n * 8) (bloom_delta (BloomHash key)) (bloom_k ?p) (BloomHash key))" for q
  proof -
    have "q < 8 * length ?array" using probes_bound [OF bits(2) q] bits(1) by simp
    moreover have "bit_at ?array q"
      using q assms(2) bits by (auto simp: bit_at_bloom_add_keys)
    ultimately show ?thesis by (simp add: bit_at_append)
  qed
  then have t: "bloom_test (?n * 8) (bloom_delta (BloomHash key)) (bloom_k ?p) (BloomHash key) ?f"
    by (simp add: bloom_test_iff [OF bits(2)])
  have "\<not> length ?f < 2" and "?f ! (length ?f - 1) = word_of_nat (bloom_k ?p)"
    using n by (simp_all add: nth_append)
  moreover have "\<not> (word_of_nat (bloom_k ?p) :: u64) > 30"
    using k bloom_k_range [of b] by (simp add: word_less_nat_alt)
  moreover have "scast (word_of_nat (bloom_k ?p) :: byte) = (word_of_nat (bloom_k ?p) :: u64)"
    using bloom_k_range [of b] by (intro scast_small_byte) simp
  ultimately show ?thesis
    unfolding f KeyMayMatch_def Let_def len using t k by simp
qed

interpretation bloom: filter_policy "CreateFilter (BloomFilterPolicy b)" KeyMayMatch "2 ^ 31 - 1"
  for b
  by unfold_locales (rule CreateFilter_appends, rule bloom_no_false_negative, auto)

subsection \<open>Properties\<close>

text \<open>Claim C35: a Bloom filter has no false negatives: whatever the number of bits per key, a key the
  filter was built from is always reported as a possible match, for any number of keys the code can
  pass.\<close>

theorem bloom_filter_no_false_negatives:
  assumes "length keys < 2 ^ 31" and "key \<in> set keys"
  shows "KeyMayMatch key (drop (length dst) (CreateFilter (BloomFilterPolicy b) keys dst))"
proof -
  have "drop (length dst) (CreateFilter (BloomFilterPolicy b) keys dst) =
      CreateFilter (BloomFilterPolicy b) keys []"
    by (subst bloom.create_appends) simp
  then show ?thesis using assms bloom.no_false_negative by simp
qed

theorem bloom_filter_no_false_negatives_witness:
  "KeyMayMatch [1, 2] (drop (length [9 :: byte]) (CreateFilter (BloomFilterPolicy 10) [[5], [1, 2]] [9]))"
  by (rule bloom_filter_no_false_negatives) simp_all

end
