(* ===== verification/LDB_FilterBlock.thy ===== *)
theory LDB_FilterBlock
  imports LDB_Bloom
begin

text \<open>
  \<^verbatim>\<open>table/filter_block.h\<close> and \<^verbatim>\<open>table/filter_block.cc\<close>: the block that stores one filter per two
  kilobytes of data block offsets. The builder is a record with the fields of the class; the policy
  it calls is the argument \<open>create\<close> (or \<open>may_match\<close> for the reader), constrained by the locale
  \<open>filter_policy\<close> in which the reader is proved to find every key that was added.
\<close>

unbundle bit_operations_syntax

definition kFilterBaseLg :: nat where
  "kFilterBaseLg = 11"

definition kFilterBase :: u64 where
  "kFilterBase = push_bit kFilterBaseLg 1"

record filter_builder =
  fb_keys :: bytes
  fb_start :: "nat list"
  fb_result :: bytes
  fb_offsets :: "u32 list"

definition new_filter_builder :: filter_builder where
  "new_filter_builder = \<lparr>fb_keys = [], fb_start = [], fb_result = [], fb_offsets = []\<rparr>"

definition GenerateFilter ::
    "(bytes list \<Rightarrow> bytes \<Rightarrow> bytes) \<Rightarrow> filter_builder \<Rightarrow> filter_builder" where
  "GenerateFilter create b =
     (let num_keys = length (fb_start b)
      in if num_keys = 0 then
           b\<lparr>fb_offsets := fb_offsets b @ [word_of_nat (length (fb_result b))]\<rparr>
         else
           let start = fb_start b @ [length (fb_keys b)];
               tmp_keys = map (\<lambda>i. take (start ! Suc i - start ! i) (drop (start ! i) (fb_keys b)))
                 [0..<num_keys]
           in b\<lparr>fb_offsets := fb_offsets b @ [word_of_nat (length (fb_result b))],
                fb_result := create tmp_keys (fb_result b),
                fb_keys := [], fb_start := []\<rparr>)"

lemma length_offsets_GenerateFilter [simp]:
  "length (fb_offsets (GenerateFilter create b)) = Suc (length (fb_offsets b))"
  by (simp add: GenerateFilter_def Let_def)

function StartBlock_loop ::
    "(bytes list \<Rightarrow> bytes \<Rightarrow> bytes) \<Rightarrow> nat \<Rightarrow> filter_builder \<Rightarrow> filter_builder" where
  "StartBlock_loop create filter_index b =
     (if filter_index > length (fb_offsets b)
      then StartBlock_loop create filter_index (GenerateFilter create b) else b)"
  by pat_completeness auto
termination
  by (relation "measure (\<lambda>(create, i, b). i - length (fb_offsets b))") auto

declare StartBlock_loop.simps [simp del]

definition StartBlock ::
    "(bytes list \<Rightarrow> bytes \<Rightarrow> bytes) \<Rightarrow> filter_builder \<Rightarrow> u64 \<Rightarrow> filter_builder" where
  "StartBlock create b block_offset =
     (let filter_index = block_offset div kFilterBase
      in StartBlock_loop create (unat filter_index) b)"

definition AddKey :: "filter_builder \<Rightarrow> bytes \<Rightarrow> filter_builder" where
  "AddKey b key =
     b\<lparr>fb_start := fb_start b @ [length (fb_keys b)], fb_keys := fb_keys b @ key\<rparr>"

definition FilterBlock_Finish :: "(bytes list \<Rightarrow> bytes \<Rightarrow> bytes) \<Rightarrow> filter_builder \<Rightarrow> bytes" where
  "FilterBlock_Finish create b =
     (let b = (if fb_start b \<noteq> [] then GenerateFilter create b else b);
          array_offset = word_of_nat (length (fb_result b)) :: u32;
          result = fold (\<lambda>off dst. PutFixed32 dst off) (fb_offsets b) (fb_result b);
          result = PutFixed32 result array_offset
      in result @ [word_of_nat kFilterBaseLg])"

record filter_reader =
  fr_data :: bytes
  fr_offset :: nat
  fr_num :: nat
  fr_base_lg :: nat

definition FilterBlockReader :: "bytes \<Rightarrow> filter_reader" where
  "FilterBlockReader contents =
     (let n = length contents;
          r = \<lparr>fr_data = [], fr_offset = 0, fr_num = 0, fr_base_lg = 0\<rparr>
      in if n < 5 then r
         else
           let r = r\<lparr>fr_base_lg := unat (scast (contents ! (n - 1)) :: u64)\<rparr>;
               last_word = unat (DecodeFixed32 (drop (n - 5) contents))
           in if last_word > n - 5 then r
              else r\<lparr>fr_data := contents, fr_offset := last_word,
                     fr_num := (n - 5 - last_word) div 4\<rparr>)"

definition FilterBlock_KeyMayMatch ::
    "(bytes \<Rightarrow> bytes \<Rightarrow> bool) \<Rightarrow> filter_reader \<Rightarrow> u64 \<Rightarrow> bytes \<Rightarrow> bool" where
  "FilterBlock_KeyMayMatch may_match r block_offset key =
     (let index = unat (drop_bit (fr_base_lg r) block_offset)
      in if index < fr_num r then
           let start = unat (DecodeFixed32 (drop (fr_offset r + index * 4) (fr_data r)));
               limit = unat (DecodeFixed32 (drop (fr_offset r + index * 4 + 4) (fr_data r)))
           in if start \<le> limit \<and> limit \<le> fr_offset r then
                may_match key (take (limit - start) (drop start (fr_data r)))
              else if start = limit then False
              else True
         else True)"

text \<open>The documented protocol of the builder: \<^verbatim>\<open>(StartBlock AddKey*)* Finish\<close>.\<close>

fun build_blocks ::
    "(bytes list \<Rightarrow> bytes \<Rightarrow> bytes) \<Rightarrow> filter_builder \<Rightarrow> (u64 \<times> bytes list) list \<Rightarrow> filter_builder" where
  "build_blocks create b [] = b"
| "build_blocks create b ((off, ks) # blocks) =
     build_blocks create (fold (\<lambda>k b. AddKey b k) ks (StartBlock create b off)) blocks"

subsection \<open>What the builder has collected\<close>

text \<open>
  \<open>all\<close> lists the keys of every filter, the last one still open. The builder stores the open keys
  flattened, the finished filters concatenated and their start offsets.
\<close>

definition filter_of :: "(bytes list \<Rightarrow> bytes \<Rightarrow> bytes) \<Rightarrow> bytes list \<Rightarrow> bytes" where
  "filter_of create ks = (if ks = [] then [] else create ks [])"

definition collected ::
    "(bytes list \<Rightarrow> bytes \<Rightarrow> bytes) \<Rightarrow> filter_builder \<Rightarrow> bytes list list \<Rightarrow> bytes list \<Rightarrow> bool" where
  "collected create b done cur \<longleftrightarrow>
     fb_keys b = concat cur \<and> fb_start b = starts cur \<and>
     fb_result b = concat (map (filter_of create) done) \<and>
     fb_offsets b = map word_of_nat (starts (map (filter_of create) done))"

lemma collected_new: "collected create new_filter_builder [] []"
  by (simp add: collected_def new_filter_builder_def)

lemma collected_AddKey: "collected create b done cur \<Longrightarrow> collected create (AddKey b k) done (cur @ [k])"
  by (simp add: collected_def AddKey_def starts_snoc)

lemma collected_AddKeys:
  "collected create b done cur \<Longrightarrow> collected create (fold (\<lambda>k b. AddKey b k) ks b) done (cur @ ks)"
proof (induction ks arbitrary: b cur)
  case Nil
  then show ?case by simp
next
  case (Cons k ks)
  then show ?case using collected_AddKey [of create b "done" cur k] by fastforce
qed

lemma collected_length: "collected create b done cur \<Longrightarrow> length (fb_offsets b) = length done"
  by (simp add: collected_def)

subsection \<open>The finished block and its reader\<close>

text \<open>The layout of the block: the filters, their offsets, the offset of the offsets, the base.\<close>

definition filter_block_layout :: "bytes list \<Rightarrow> bytes" where
  "filter_block_layout fs = concat fs @
     concat (map EncodeFixed32 (map word_of_nat (starts fs @ [length (concat fs)]))) @ [11]"

lemma offsets_of_layout:
  assumes "length (concat fs) < 2 ^ 32" and "i \<le> length fs"
  shows "unat (DecodeFixed32 (drop (length (concat fs) + 4 * i) (filter_block_layout fs))) =
    length (concat (take i fs))"
proof -
  let ?offs = "map word_of_nat (starts fs @ [length (concat fs)]) :: u32 list"
  have "drop (length (concat fs) + 4 * i) (filter_block_layout fs) =
      drop (4 * i) (concat (map EncodeFixed32 ?offs) @ [11])"
    by (simp add: filter_block_layout_def flip: drop_drop)
  moreover have "DecodeFixed32 (drop (4 * i) (concat (map EncodeFixed32 ?offs) @ [11])) = ?offs ! i"
    using assms(2) by (intro DecodeFixed32_array) simp
  moreover have "?offs ! i = word_of_nat (length (concat (take i fs)))"
    using assms(2) starts_snoc_nth [of i fs] by (simp del: starts_snoc_nth map_append add: nth_map)
  moreover have "length (concat (take i fs)) < 2 ^ 32"
    using starts_mono [of i "length fs" fs] assms by simp
  ultimately show ?thesis by simp
qed

lemma length_filter_block_layout:
  "length (filter_block_layout fs) = length (concat fs) + 4 * length fs + 5"
proof -
  have "length (concat (map EncodeFixed32 offs)) = 4 * length offs" for offs
    by (rule length_Fixed32_array)
  then show ?thesis by (simp only: filter_block_layout_def length_append length_map length_starts) simp
qed

lemma FilterBlockReader_layout:
  assumes "length (filter_block_layout fs) < 2 ^ 32"
  shows "FilterBlockReader (filter_block_layout fs) =
    \<lparr>fr_data = filter_block_layout fs, fr_offset = length (concat fs), fr_num = length fs, fr_base_lg = 11\<rparr>"
proof -
  let ?c = "filter_block_layout fs"
  note n = length_filter_block_layout [of fs]
  have "?c ! (length ?c - 1) = 11"
  proof -
    have "?c = butlast ?c @ [11]" by (simp add: filter_block_layout_def butlast_append)
    then show ?thesis by (metis length_append_singleton diff_Suc_1 nth_append_length)
  qed
  moreover have "unat (DecodeFixed32 (drop (length ?c - 5) ?c)) = length (concat fs)"
    using offsets_of_layout [of fs "length fs"] assms n by simp
  moreover have "unat (scast (11 :: byte) :: u64) = 11" by simp
  ultimately show ?thesis
    using n unfolding FilterBlockReader_def Let_def by simp
qed

lemma FilterBlock_KeyMayMatch_layout:
  assumes "length (filter_block_layout fs) < 2 ^ 32"
  shows "FilterBlock_KeyMayMatch may_match (FilterBlockReader (filter_block_layout fs)) off key =
    (unat off div 2048 < length fs \<longrightarrow> may_match key (fs ! (unat off div 2048)))"
proof (cases "unat off div 2048 < length fs")
  case True
  let ?i = "unat off div 2048"
  let ?c = "filter_block_layout fs"
  have small: "length (concat fs) < 2 ^ 32" using assms by (simp add: length_filter_block_layout)
  have "unat (drop_bit 11 off) = ?i" unfolding unat_drop_bit_eq by (simp add: drop_bit_eq_div)
  moreover have "unat (DecodeFixed32 (drop (length (concat fs) + ?i * 4) ?c)) = length (concat (take ?i fs))"
    "unat (DecodeFixed32 (drop (length (concat fs) + ?i * 4 + 4) ?c)) = length (concat (take (Suc ?i) fs))"
    using offsets_of_layout [OF small, of ?i] offsets_of_layout [OF small, of "Suc ?i"] True
    by (simp_all add: algebra_simps)
  moreover have "length (concat (take ?i fs)) \<le> length (concat (take (Suc ?i) fs))"
    "length (concat (take (Suc ?i) fs)) \<le> length (concat fs)"
    using starts_mono [of ?i "Suc ?i" fs] starts_mono [of "Suc ?i" "length fs" fs] True by simp_all
  moreover have "take (length (concat (take (Suc ?i) fs)) - length (concat (take ?i fs)))
      (drop (length (concat (take ?i fs))) ?c) = fs ! ?i"
    using True unfolding filter_block_layout_def
    by (subst (1 2 3) starts_snoc_nth [symmetric]) (simp_all only: piece_of_concat less_imp_le Suc_le_eq)
  ultimately show ?thesis
    using True unfolding FilterBlock_KeyMayMatch_def FilterBlockReader_layout [OF assms] Let_def
    by simp
next
  case False
  then show ?thesis
    unfolding FilterBlock_KeyMayMatch_def FilterBlockReader_layout [OF assms] Let_def
    by (simp add: unat_div drop_bit_eq_div)
qed

context filter_policy
begin

lemma collected_Generate:
  assumes "collected create b done cur"
  shows "collected create (GenerateFilter create b) (done @ [cur]) []"
proof (cases "cur = []")
  case True
  then show ?thesis
    using assms by (simp add: collected_def GenerateFilter_def starts_snoc filter_of_def)
next
  case False
  have "map (\<lambda>i. take ((starts cur @ [length (concat cur)]) ! Suc i - (starts cur @ [length (concat cur)]) ! i)
      (drop ((starts cur @ [length (concat cur)]) ! i) (concat cur))) [0..<length cur] = cur"
    using piece_of_concat [of _ cur "[]"] by (intro nth_equalityI) simp_all
  then show ?thesis
    using assms False create_appends [of cur "fb_result b"]
    by (simp add: collected_def GenerateFilter_def Let_def starts_snoc filter_of_def)
qed

lemma collected_StartBlock_loop:
  "collected create b done cur \<Longrightarrow> n \<ge> length done \<Longrightarrow>
     \<exists>done' cur'. collected create (StartBlock_loop create n b) done' cur' \<and> length done' = n \<and>
       done' @ [cur'] = done @ [cur] @ replicate (n - length done) []"
proof (induction "n - length done" arbitrary: b "done" cur)
  case 0
  then have "\<not> n > length (fb_offsets b)"
    using collected_length by fastforce
  then have "StartBlock_loop create n b = b"
    by (subst StartBlock_loop.simps) (rule if_not_P)
  with 0 show ?case
    by (intro exI [of _ "done"] exI [of _ cur]) auto
next
  case (Suc m)
  then have "StartBlock_loop create n b = StartBlock_loop create n (GenerateFilter create b)"
    by (simp add: StartBlock_loop.simps [of create n b] collected_length)
  moreover have "\<exists>done' cur'.
      collected create (StartBlock_loop create n (GenerateFilter create b)) done' cur' \<and>
      length done' = n \<and>
      done' @ [cur'] = (done @ [cur]) @ [[]] @ replicate (n - length (done @ [cur])) []"
    using Suc.hyps(2) Suc.prems by (intro Suc.hyps(1) collected_Generate) auto
  moreover have "[[]] @ replicate (n - length (done @ [cur])) [] = replicate (n - length done) []"
    using Suc.hyps(2) by (simp flip: replicate_Suc add: Suc_diff_Suc)
  ultimately show ?case by (metis append.assoc)
qed

lemma unat_filter_index: "unat ((off :: u64) div kFilterBase) = unat off div 2048"
proof -
  have "unat kFilterBase = 2048" by (simp add: kFilterBase_def kFilterBaseLg_def)
  then show ?thesis by (simp add: unat_div)
qed

text \<open>The key lists after a run of the protocol: every block finds its keys under its index.\<close>

lemma collected_build_blocks:
  assumes "collected create b done cur"
    and "sorted (length done # map (\<lambda>(off, ks). unat off div 2048) blocks)"
  shows "\<exists>done' cur'. collected create (build_blocks create b blocks) done' cur' \<and>
    (\<forall>i k. i \<le> length done \<and> k \<in> set ((done @ [cur]) ! i) \<longrightarrow>
       i \<le> length done' \<and> k \<in> set ((done' @ [cur']) ! i)) \<and>
    (\<forall>(off, ks) \<in> set blocks. \<forall>k \<in> set ks.
       unat off div 2048 \<le> length done' \<and> k \<in> set ((done' @ [cur']) ! (unat off div 2048))) \<and>
    length (concat (done' @ [cur'])) = length (concat (done @ [cur])) + length (concat (map snd blocks))"
  using assms
proof (induction blocks arbitrary: b "done" cur)
  case Nil
  then show ?case by auto
next
  case (Cons blk blocks)
  obtain off ks where blk: "blk = (off, ks)" by (cases blk)
  let ?n = "unat off div 2048"
  obtain d c where d: "collected create (StartBlock create b off) d c" "length d = ?n"
      "d @ [c] = done @ [cur] @ replicate (?n - length done) []"
    using collected_StartBlock_loop [OF Cons.prems(1), of ?n] Cons.prems(2) blk
    by (auto simp: StartBlock_def Let_def unat_filter_index)
  have pre: "(d @ [c]) ! i = (done @ [cur]) ! i" if "i \<le> length done" for i
    unfolding d(3) using that by (simp add: nth_append)
  have n: "length done \<le> ?n" using Cons.prems(2) blk by simp
  have len: "length (concat (d @ [c])) = length (concat (done @ [cur]))"
    unfolding d(3) by (simp add: concat_replicate_trivial)
  obtain d' c' where d': "collected create (build_blocks create b (blk # blocks)) d' c'"
      "\<forall>i k. i \<le> length d \<and> k \<in> set ((d @ [c @ ks]) ! i) \<longrightarrow> i \<le> length d' \<and> k \<in> set ((d' @ [c']) ! i)"
      "\<forall>(off, ks) \<in> set blocks. \<forall>k \<in> set ks.
        unat off div 2048 \<le> length d' \<and> k \<in> set ((d' @ [c']) ! (unat off div 2048))"
      "length (concat (d' @ [c'])) = length (concat (d @ [c @ ks])) + length (concat (map snd blocks))"
    using Cons.IH [OF collected_AddKeys [OF d(1)], of ks] Cons.prems(2) d(2) blk by auto
  have ext: "k \<in> set ((d @ [c]) ! i) \<Longrightarrow> i \<le> length d \<Longrightarrow> k \<in> set ((d @ [c @ ks]) ! i)" for i k
    by (cases "i = length d") (auto simp: nth_append)
  have cur: "k \<in> set ks \<Longrightarrow> k \<in> set ((d @ [c @ ks]) ! ?n)" for k
    using d(2) by (simp add: nth_append)
  have old: "i \<le> length d' \<and> k \<in> set ((d' @ [c']) ! i)"
    if "i \<le> length done" "k \<in> set ((done @ [cur]) ! i)" for i k
    using that d'(2) ext [of k i] pre [of i] n d(2) by auto
  have new: "?n \<le> length d' \<and> k \<in> set ((d' @ [c']) ! ?n)" if "k \<in> set ks" for k
    using d'(2) cur [OF that] d(2) by auto
  have "length (concat (d' @ [c'])) =
      length (concat (done @ [cur])) + length (concat (map snd (blk # blocks)))"
    using d'(4) len blk by simp
  then show ?case
    using d'(1,3) old new blk by (intro exI [of _ d'] exI [of _ c']) auto
qed

lemma Finish_layout:
  assumes "collected create b done cur"
  shows "FilterBlock_Finish create b =
    filter_block_layout (map (filter_of create) (if cur = [] then done else done @ [cur]))"
proof -
  have "FilterBlock_Finish create b = filter_block_layout (map (filter_of create) d)"
    if "collected create b' d []" "b' = (if fb_start b \<noteq> [] then GenerateFilter create b else b)" for b' d
    unfolding FilterBlock_Finish_def Let_def fold_PutFixed32 that(2) [symmetric]
    using that(1)
    by (simp add: collected_def PutFixed32_def filter_block_layout_def kFilterBaseLg_def)
  moreover have "fb_start b = [] \<longleftrightarrow> cur = []"
    using assms by (metis collected_def length_0_conv length_starts)
  ultimately show ?thesis
    using assms collected_Generate [OF assms] by (cases "cur = []") auto
qed

lemma filter_block_no_false_negative:
  assumes "sorted (map (\<lambda>(off, ks). unat off div 2048) blocks)"
    and "length (concat (map snd blocks)) \<le> max_keys"
    and "block = FilterBlock_Finish create (build_blocks create new_filter_builder blocks)"
    and "length block < 2 ^ 32"
    and "(off, ks) \<in> set blocks" and "k \<in> set ks"
  shows "FilterBlock_KeyMayMatch may_match (FilterBlockReader block) off k"
proof -
  let ?i = "unat off div 2048"
  have "sorted (length [] # map (\<lambda>(off, ks). unat off div 2048) blocks)"
    using assms(1) by simp
  from collected_build_blocks [OF collected_new this]
  obtain d c where d: "collected create (build_blocks create new_filter_builder blocks) d c"
      "\<forall>(off, ks) \<in> set blocks. \<forall>k \<in> set ks. unat off div 2048 \<le> length d \<and>
        k \<in> set ((d @ [c]) ! (unat off div 2048))"
      "length (concat (d @ [c])) = length (concat (map snd blocks))"
    by (elim exE conjE) simp
  have k: "?i \<le> length d" "k \<in> set ((d @ [c]) ! ?i)"
    using d(2) assms(5,6) by blast+
  define fs where "fs = (if c = [] then d else d @ [c])"
  have i: "?i < length fs" "(d @ [c]) ! ?i = fs ! ?i"
    using k by (auto simp: fs_def nth_append less_Suc_eq split: if_splits)
  have "length (fs ! ?i) \<le> length (concat fs)"
    by (subst concat_split_nth [OF i(1)]) simp
  also have "length (concat fs) \<le> max_keys" using d(3) assms(2) by (auto simp: fs_def)
  finally have "may_match k (filter_of create (fs ! ?i))"
    using no_false_negative [of "fs ! ?i" k] k(2) i(2) by (auto simp: filter_of_def)
  moreover have "block = filter_block_layout (map (filter_of create) fs)"
    using Finish_layout [OF d(1)] assms(3) by (simp add: fs_def)
  ultimately show ?thesis
    using FilterBlock_KeyMayMatch_layout [of "map (filter_of create) fs" may_match off k] assms(4) i(1)
    by simp
qed

end

subsection \<open>Properties\<close>

text \<open>Claim C34: the filter block of a table with the Bloom policy never hides a key: after the protocol
  (StartBlock AddKey*)* Finish with increasing block offsets, the reader of the finished block
  reports a possible match for every key under the offset of the block it was added to.\<close>

theorem filter_block_complete:
  assumes "sorted (map (\<lambda>(off, ks). unat off div 2048) blocks)"
    and "length (concat (map snd blocks)) < 2 ^ 31"
    and "length (FilterBlock_Finish (CreateFilter (BloomFilterPolicy n))
      (build_blocks (CreateFilter (BloomFilterPolicy n)) new_filter_builder blocks)) < 2 ^ 32"
    and "(off, ks) \<in> set blocks" and "k \<in> set ks"
  shows "FilterBlock_KeyMayMatch KeyMayMatch (FilterBlockReader
      (FilterBlock_Finish (CreateFilter (BloomFilterPolicy n))
        (build_blocks (CreateFilter (BloomFilterPolicy n)) new_filter_builder blocks))) off k"
  using assms by (intro bloom.filter_block_no_false_negative [OF assms(1) _ refl assms(3-5)]) simp

theorem filter_block_complete_witness:
  "FilterBlock_KeyMayMatch KeyMayMatch (FilterBlockReader
      (FilterBlock_Finish (CreateFilter (BloomFilterPolicy 10))
        (build_blocks (CreateFilter (BloomFilterPolicy 10)) new_filter_builder
          [(0, [[1]]), (5000, [[2, 3], [4]])]))) 5000 [4]"
proof (rule filter_block_complete [where ks = "[[2, 3], [4]]"])
  show "length (FilterBlock_Finish (CreateFilter (BloomFilterPolicy 10))
      (build_blocks (CreateFilter (BloomFilterPolicy 10)) new_filter_builder
        [(0, [[1]]), (5000, [[2, 3], [4]])])) < 2 ^ 32"
  proof -
    have "length (FilterBlock_Finish (CreateFilter (BloomFilterPolicy 10))
      (build_blocks (CreateFilter (BloomFilterPolicy 10)) new_filter_builder
        [(0, [[1]]), (5000, [[2, 3], [4]])])) = 35"
      by code_simp
    then show ?thesis by simp
  qed
qed simp_all

end
