(* ===== verification/LDB_Comparator.thy ===== *)
theory LDB_Comparator
  imports LDB_Slice
begin

text \<open>
  \<^verbatim>\<open>include/leveldb/comparator.h\<close> and \<^verbatim>\<open>util/comparator.cc\<close>. The abstract class
  \<^verbatim>\<open>Comparator\<close> is the locale \<open>comparator\<close>: a three-way comparison that is a total preorder on
  the valid keys, and the two key-shortening operations with the contract of the header comment.
  \<^verbatim>\<open>BytewiseComparatorImpl\<close> is modelled by the definitions below and interprets the locale.
\<close>

subsection \<open>The bytewise comparator\<close>

definition BytewiseCompare :: "bytes \<Rightarrow> bytes \<Rightarrow> int" where
  "BytewiseCompare a b = slice_compare a b"

text \<open>The loop that finds the length of the common prefix of two strings.\<close>

fun diff_index :: "bytes \<Rightarrow> bytes \<Rightarrow> nat" where
  "diff_index (x # xs) (y # ys) = (if x = y then Suc (diff_index xs ys) else 0)"
| "diff_index _ _ = 0"

definition FindShortestSeparator :: "bytes \<Rightarrow> bytes \<Rightarrow> bytes" where
  "FindShortestSeparator start limit =
     (let min_length = min (length start) (length limit);
          d = diff_index start limit
      in if d \<ge> min_length then start
         else let diff_byte = start ! d
              in if diff_byte < 0xff \<and> unat diff_byte + 1 < unat (limit ! d)
                 then take (d + 1) (start[d := diff_byte + 1])
                 else start)"

fun FindShortSuccessor :: "bytes \<Rightarrow> bytes" where
  "FindShortSuccessor [] = []"
| "FindShortSuccessor (b # bs) =
     (if b \<noteq> 0xff then [b + 1] else b # FindShortSuccessor bs)"

subsection \<open>The contract of a comparator\<close>

locale comparator =
  fixes Compare :: "bytes \<Rightarrow> bytes \<Rightarrow> int"
    and Separator :: "bytes \<Rightarrow> bytes \<Rightarrow> bytes"
    and Successor :: "bytes \<Rightarrow> bytes"
    and valid :: "bytes \<Rightarrow> bool"
  assumes cmp_self: "valid a \<Longrightarrow> Compare a a = 0"
    and cmp_flip: "valid a \<Longrightarrow> valid b \<Longrightarrow> Compare a b < 0 \<longleftrightarrow> Compare b a > 0"
    and cmp_trans: "valid a \<Longrightarrow> valid b \<Longrightarrow> valid c \<Longrightarrow>
      Compare a b \<le> 0 \<Longrightarrow> Compare b c \<le> 0 \<Longrightarrow> Compare a c \<le> 0"
    and separator: "valid s \<Longrightarrow> valid l \<Longrightarrow> Compare s l < 0 \<Longrightarrow>
      valid (Separator s l) \<and> Compare s (Separator s l) \<le> 0 \<and> Compare (Separator s l) l < 0"
    and successor: "valid k \<Longrightarrow> valid (Successor k) \<and> Compare k (Successor k) \<le> 0"
begin

lemma cmp_zero_sym: "valid a \<Longrightarrow> valid b \<Longrightarrow> Compare a b = 0 \<longleftrightarrow> Compare b a = 0"
  using cmp_flip [of a b] cmp_flip [of b a] by linarith

lemma cmp_total: "valid a \<Longrightarrow> valid b \<Longrightarrow> Compare a b \<le> 0 \<or> Compare b a \<le> 0"
  using cmp_flip [of a b] by linarith

lemma cmp_not_less: "valid a \<Longrightarrow> valid b \<Longrightarrow> \<not> Compare a b < 0 \<longleftrightarrow> Compare b a \<le> 0"
  using cmp_flip [of a b] cmp_flip [of b a] by linarith

lemma cmp_less_le_trans:
  assumes "valid a" "valid b" "valid c" "Compare a b < 0" "Compare b c \<le> 0"
  shows "Compare a c < 0"
proof (rule ccontr)
  assume "\<not> Compare a c < 0"
  then have "Compare c a \<le> 0" using assms(1,3) by (simp add: cmp_not_less)
  with assms have "Compare b a \<le> 0" using cmp_trans by blast
  then show False using assms by (metis cmp_not_less)
qed

lemma cmp_le_less_trans:
  assumes "valid a" "valid b" "valid c" "Compare a b \<le> 0" "Compare b c < 0"
  shows "Compare a c < 0"
proof (rule ccontr)
  assume "\<not> Compare a c < 0"
  then have "Compare c a \<le> 0" using assms(1,3) by (simp add: cmp_not_less)
  with assms have "Compare c b \<le> 0" using cmp_trans by blast
  then show False using assms by (metis cmp_not_less)
qed

lemma cmp_less_trans:
  "valid a \<Longrightarrow> valid b \<Longrightarrow> valid c \<Longrightarrow> Compare a b < 0 \<Longrightarrow> Compare b c < 0 \<Longrightarrow> Compare a c < 0"
  by (rule cmp_less_le_trans) auto

end

text \<open>What the containers of keys rely on: the order alone.\<close>

locale key_order =
  fixes cmp :: "'k \<Rightarrow> 'k \<Rightarrow> int"
    and valid :: "'k \<Rightarrow> bool"
  assumes flip: "valid a \<Longrightarrow> valid b \<Longrightarrow> cmp a b < 0 \<longleftrightarrow> 0 < cmp b a"
    and le_less_trans: "valid a \<Longrightarrow> valid b \<Longrightarrow> valid c \<Longrightarrow> cmp a b \<le> 0 \<Longrightarrow> cmp b c < 0 \<Longrightarrow> cmp a c < 0"
begin

lemma less_trans: "valid a \<Longrightarrow> valid b \<Longrightarrow> valid c \<Longrightarrow> cmp a b < 0 \<Longrightarrow> cmp b c < 0 \<Longrightarrow> cmp a c < 0"
  using le_less_trans [of a b c] by simp

lemma irrefl: "valid a \<Longrightarrow> \<not> cmp a a < 0"
  using flip [of a a] by linarith

lemma sorted_nth_less_iff:
  assumes "sorted_wrt (\<lambda>x y. cmp x y < 0) xs" and "\<forall>x \<in> set xs. valid x" and "i < length xs" and "j < length xs"
  shows "cmp (xs ! i) (xs ! j) < 0 \<longleftrightarrow> i < j"
proof (rule iffI)
  assume less: "cmp (xs ! i) (xs ! j) < 0"
  show "i < j"
  proof (rule ccontr)
    assume "\<not> i < j"
    then have "i = j \<or> cmp (xs ! j) (xs ! i) < 0" using sorted_wrt_nth_less [OF assms(1), of j i] assms(3) by force
    then show False using less assms flip [of "xs ! i" "xs ! j"] irrefl [of "xs ! i"] by auto
  qed
qed (use sorted_wrt_nth_less [OF assms(1)] assms(4) in simp)

end

sublocale comparator \<subseteq> order: key_order Compare valid
  using cmp_flip cmp_le_less_trans by unfold_locales blast+

text \<open>
  A comparator for user keys accepts every byte string. The comparator of internal keys asks it for
  a separator of two equal keys too, a case that \<^verbatim>\<open>include/leveldb/comparator.h\<close> leaves open; what it
  relies on is the last law.
\<close>

locale user_comparator = comparator Compare Separator Successor "\<lambda>_. True"
  for Compare Separator Successor +
  assumes separator_of_equal: "Compare s l = 0 \<Longrightarrow> Compare s (Separator s l) \<le> 0 \<Longrightarrow> Separator s l = s"

subsection \<open>The bytewise comparator meets the contract\<close>

lemma FindShortestSeparator_Nil [simp]:
  "FindShortestSeparator [] l = []"
  "FindShortestSeparator s [] = s"
  by (simp_all add: FindShortestSeparator_def)

lemma FindShortestSeparator_Cons [simp]:
  "FindShortestSeparator (x # xs) (y # ys) =
     (if x = y then x # FindShortestSeparator xs ys
      else if x < 0xff \<and> unat x + 1 < unat y then [x + 1] else x # xs)"
  by (simp add: FindShortestSeparator_def Let_def)

lemma byte_succ: "(b :: byte) < 0xff \<Longrightarrow> unat (b + 1) = unat b + 1"
  by (simp add: word_less_nat_alt unat_word_ariths)

lemma byte_succ_greater: "(b :: byte) \<noteq> 0xff \<Longrightarrow> b < b + 1"
proof -
  assume "b \<noteq> 0xff"
  then have "unat b \<noteq> unat (0xff :: byte)" by (metis word_unat_eq_iff)
  moreover have "unat b < 256" using unsigned_less [of b] by simp
  ultimately have "b < 0xff" by (simp add: word_less_nat_alt)
  then show ?thesis by (simp add: word_less_nat_alt byte_succ)
qed

lemma FindShortestSeparator_between:
  "s < l \<Longrightarrow> s \<le> FindShortestSeparator s l \<and> FindShortestSeparator s l < l"
proof (induction s arbitrary: l)
  case Nil
  then show ?case by simp
next
  case (Cons x xs)
  then obtain y ys where l: "l = y # ys" by (cases l) auto
  have *: "x < x + 1 \<and> x + 1 < y" if "x < 0xff" "unat x + 1 < unat y"
    using that by (simp add: word_less_nat_alt byte_succ)
  show ?case using Cons l * by auto
qed

lemma FindShortSuccessor_ge: "k \<le> FindShortSuccessor k"
  by (induction k) (auto simp: byte_succ_greater)

lemma FindShortestSeparator_self: "FindShortestSeparator s s = s"
  by (induction s) simp_all

interpretation bytewise: user_comparator BytewiseCompare FindShortestSeparator FindShortSuccessor
  by unfold_locales
    (auto simp: BytewiseCompare_def slice_compare_iffs FindShortSuccessor_ge FindShortestSeparator_self
      dest: FindShortestSeparator_between)

lemma length_FindShortestSeparator: "length (FindShortestSeparator s l) \<le> length s"
proof (induction s arbitrary: l)
  case Nil
  then show ?case by simp
next
  case (Cons x xs)
  then show ?case by (cases l) auto
qed

lemma length_FindShortSuccessor: "length (FindShortSuccessor k) \<le> length k"
  by (induction k) auto

end
