(* ===== verification/LDB_Logging.thy ===== *)
theory LDB_Logging
  imports LDB_Prelude
begin

text \<open>
  \<^verbatim>\<open>util/logging.cc\<close>: decimal numbers and escaped strings, used by the file names, the MANIFEST
  dumps and the comments of the log messages.
\<close>

definition AppendNumberTo :: "bytes \<Rightarrow> u64 \<Rightarrow> bytes" where
  "AppendNumberTo s num = s @ decimal (unat num)"

definition hex_digit :: "byte \<Rightarrow> byte" where
  "hex_digit d = (if d < 10 then 48 + d else 87 + d)"

fun AppendEscapedStringTo :: "bytes \<Rightarrow> bytes \<Rightarrow> bytes" where
  "AppendEscapedStringTo s [] = s"
| "AppendEscapedStringTo s (c # value) =
     (if c \<ge> 32 \<and> c \<le> 126 then AppendEscapedStringTo (s @ [c]) value
      else AppendEscapedStringTo (s @ [92, 120, hex_digit (c div 16), hex_digit (c mod 16)]) value)"

definition NumberToString :: "u64 \<Rightarrow> bytes" where
  "NumberToString num = AppendNumberTo [] num"

definition EscapeString :: "bytes \<Rightarrow> bytes" where
  "EscapeString value = AppendEscapedStringTo [] value"

text \<open>
  The result of the parser: the returned flag, the number it stored (nothing when the digits
  overflow) and what is left of the input.
\<close>

fun ConsumeDecimalNumber_loop :: "u64 \<Rightarrow> nat \<Rightarrow> bytes \<Rightarrow> bool \<times> u64 option \<times> bytes" where
  "ConsumeDecimalNumber_loop v digits [] = (digits > 0, Some v, [])"
| "ConsumeDecimalNumber_loop v digits (c # rest) =
     (if c \<ge> 48 \<and> c \<le> 57 then
        let delta = ucast (c - 48) :: u64;
            kMaxUint64 = - 1 :: u64
        in if v > kMaxUint64 div 10 \<or> (v = kMaxUint64 div 10 \<and> delta > kMaxUint64 mod 10)
           then (False, None, c # rest)
           else ConsumeDecimalNumber_loop (v * 10 + delta) (Suc digits) rest
      else (digits > 0, Some v, c # rest))"

definition ConsumeDecimalNumber :: "bytes \<Rightarrow> bool \<times> u64 option \<times> bytes" where
  "ConsumeDecimalNumber input = ConsumeDecimalNumber_loop 0 0 input"

subsection \<open>Digits\<close>

definition is_digit :: "byte \<Rightarrow> bool" where
  "is_digit c \<longleftrightarrow> 48 \<le> c \<and> c \<le> 57"

definition digit_value :: "byte \<Rightarrow> nat" where
  "digit_value c = unat c - 48"

lemma is_digit_unat: "is_digit c \<longleftrightarrow> 48 \<le> unat c \<and> unat c \<le> 57"
  by (simp add: is_digit_def word_le_nat_alt)

fun digits_value :: "nat \<Rightarrow> bytes \<Rightarrow> nat" where
  "digits_value v [] = v"
| "digits_value v (c # cs) = digits_value (v * 10 + digit_value c) cs"

lemma digits_value_append: "digits_value v (xs @ ys) = digits_value (digits_value v xs) ys"
  by (induction xs arbitrary: v) simp_all

lemma digits_value_mono: "v \<le> digits_value v cs"
proof (induction cs arbitrary: v)
  case (Cons c cs)
  have "v \<le> v * 10 + digit_value c" by simp
  then show ?case using Cons [of "v * 10 + digit_value c"] by simp
qed simp

lemma decimal_digit:
  assumes "n < 10"
  shows "is_digit (48 + word_of_nat n)" and "digit_value (48 + word_of_nat n) = n"
proof -
  have "unat (48 + word_of_nat n :: byte) = 48 + n"
    using assms by (simp add: unat_word_ariths)
  then show "is_digit (48 + word_of_nat n)" "digit_value (48 + word_of_nat n) = n"
    using assms by (simp_all add: is_digit_unat digit_value_def)
qed

lemma decimal_digits: "\<forall>c \<in> set (decimal n). is_digit c" and decimal_nonempty: "decimal n \<noteq> []"
  and decimal_value: "digits_value 0 (decimal n) = n"
proof -
  show "\<forall>c \<in> set (decimal n). is_digit c"
  proof (induction n rule: decimal.induct)
    case (1 n)
    then show ?case by (subst decimal.simps) (auto simp: decimal_digit)
  qed
  show "decimal n \<noteq> []" by (subst decimal.simps) simp
  show "digits_value 0 (decimal n) = n"
  proof (induction n rule: decimal.induct)
    case (1 n)
    then show ?case by (subst decimal.simps) (auto simp: decimal_digit digits_value_append)
  qed
qed

lemma max_div_mod: "unat (- 1 div 10 :: u64) = (2 ^ 64 - 1) div 10" "unat (- 1 mod 10 :: u64) = (2 ^ 64 - 1) mod 10"
  by (simp_all add: unat_div unat_mod unsigned_minus_1_eq_mask mask_eq_exp_minus_1)

lemma consume_step:
  assumes "is_digit c"
  shows "v > - 1 div 10 \<or> (v = - 1 div 10 \<and> (ucast (c - 48) :: u64) > - 1 mod 10) \<longleftrightarrow>
      2 ^ 64 \<le> unat v * 10 + digit_value c"
    and "unat v * 10 + digit_value c < 2 ^ 64 \<Longrightarrow>
      unat (v * 10 + ucast (c - 48) :: u64) = unat v * 10 + digit_value c"
proof -
  have c: "48 \<le> unat c" "unat c \<le> 57" using assms by (simp_all add: is_digit_unat)
  have "unat (c - 48) = digit_value c"
    using c by (simp add: digit_value_def unat_sub word_le_nat_alt)
  then have d: "unat (ucast (c - 48) :: u64) = digit_value c" "digit_value c < 10"
    using c by (simp_all add: unsigned_ucast_eq take_bit_nat_eq_self_iff digit_value_def)
  show "v > - 1 div 10 \<or> (v = - 1 div 10 \<and> (ucast (c - 48) :: u64) > - 1 mod 10) \<longleftrightarrow>
      2 ^ 64 \<le> unat v * 10 + digit_value c"
    unfolding word_less_nat_alt word_unat_eq_iff max_div_mod d(1) using d(2) by auto
  show "unat (v * 10 + ucast (c - 48) :: u64) = unat v * 10 + digit_value c"
    if "unat v * 10 + digit_value c < 2 ^ 64"
    using that d(1) by (simp add: unat_word_ariths)
qed

lemma ConsumeDecimalNumber_loop_spec:
  assumes "\<forall>c \<in> set ds. is_digit c" and "rest = [] \<or> \<not> is_digit (hd rest)"
  shows "(digits_value (unat v) ds < 2 ^ 64 \<longrightarrow> ConsumeDecimalNumber_loop v n (ds @ rest) =
      (n + length ds > 0, Some (word_of_nat (digits_value (unat v) ds)), rest)) \<and>
    (2 ^ 64 \<le> digits_value (unat v) ds \<longrightarrow>
      fst (ConsumeDecimalNumber_loop v n (ds @ rest)) = False)"
  using assms(1)
proof (induction ds arbitrary: v n)
  case Nil
  then show ?case using assms(2) unat_bounds(3) [of v] by (cases rest) (auto simp: is_digit_def)
next
  case (Cons c ds)
  have c: "is_digit c" "c \<ge> 48 \<and> c \<le> 57" using Cons.prems by (simp_all add: is_digit_def)
  note step = consume_step [OF c(1), of v]
  show ?case
  proof (cases "2 ^ 64 \<le> unat v * 10 + digit_value c")
    case True
    then have "2 ^ 64 \<le> digits_value (unat v) (c # ds)"
      using digits_value_mono [of "unat v * 10 + digit_value c" ds] by simp
    then show ?thesis using True step(1) c(2) by (simp add: Let_def)
  next
    case False
    then show ?thesis
      using Cons.IH [of "v * 10 + ucast (c - 48)" "Suc n"] Cons.prems step c(2) by (auto simp: Let_def)
  qed
qed

subsection \<open>Properties\<close>

text \<open>A printed number is read back: parsing the decimal digits of a 64-bit number, followed
  by anything that is not a digit, gives the number and leaves exactly what follows; a sequence of
  digits whose value does not fit in 64 bits is refused.\<close>

theorem decimal_number_roundtrip:
  assumes "rest = [] \<or> \<not> is_digit (hd rest)"
  shows "ConsumeDecimalNumber (NumberToString n @ rest) = (True, Some n, rest) \<and>
    (\<forall>ds. (\<forall>c \<in> set ds. is_digit c) \<and> 2 ^ 64 \<le> digits_value 0 ds \<longrightarrow>
      fst (ConsumeDecimalNumber (ds @ rest)) = False)"
  using ConsumeDecimalNumber_loop_spec [OF decimal_digits assms, of 0 "unat n" 0]
    ConsumeDecimalNumber_loop_spec [OF _ assms, of _ 0 0] unat_bounds(3) [of n]
    decimal_nonempty [of "unat n"]
  by (auto simp: ConsumeDecimalNumber_def NumberToString_def AppendNumberTo_def decimal_value)

theorem decimal_number_roundtrip_witness:
  "ConsumeDecimalNumber (NumberToString 1048576 @ [46, 108]) = (True, Some 1048576, [46, 108])"
  using decimal_number_roundtrip [of "[46, 108]" 1048576] by (simp add: is_digit_def)

end
