(* ===== verification/LDB_DbFormat.thy ===== *)
theory LDB_DbFormat
  imports LDB_Comparator LDB_Coding LDB_Bloom LDB_Logging
begin

text \<open>
  \<^verbatim>\<open>db/dbformat.h\<close> and \<^verbatim>\<open>db/dbformat.cc\<close>: internal keys, that is, user keys followed by a packed
  sequence number and value type, their order, and the key with which a lookup starts. The user's
  comparator and filter policy are arguments; that the comparator of internal keys is again a
  comparator, and the internal filter policy again a filter policy, are sublocale statements.
\<close>

unbundle bit_operations_syntax

definition kNumLevels :: nat where "kNumLevels = 7"
definition kL0_CompactionTrigger :: nat where "kL0_CompactionTrigger = 4"
definition kL0_SlowdownWritesTrigger :: nat where "kL0_SlowdownWritesTrigger = 8"
definition kL0_StopWritesTrigger :: nat where "kL0_StopWritesTrigger = 12"
definition kMaxMemCompactLevel :: nat where "kMaxMemCompactLevel = 2"
definition kReadBytesPeriod :: nat where "kReadBytesPeriod = 1048576"

text \<open>The enumeration of value types is stored in a byte, which may hold other values too.\<close>

type_synonym value_type = byte
type_synonym sequence_number = u64

definition kTypeDeletion :: value_type where "kTypeDeletion = 0"
definition kTypeValue :: value_type where "kTypeValue = 1"
definition kValueTypeForSeek :: value_type where "kValueTypeForSeek = kTypeValue"

definition kMaxSequenceNumber :: sequence_number where
  "kMaxSequenceNumber = push_bit 56 1 - 1"

record parsed_internal_key =
  pik_user_key :: bytes
  pik_sequence :: sequence_number
  pik_type :: value_type

definition InternalKeyEncodingLength :: "parsed_internal_key \<Rightarrow> nat" where
  "InternalKeyEncodingLength key = length (pik_user_key key) + 8"

definition PackSequenceAndType :: "u64 \<Rightarrow> value_type \<Rightarrow> u64" where
  "PackSequenceAndType seq t = push_bit 8 seq OR ucast t"

definition AppendInternalKey :: "bytes \<Rightarrow> parsed_internal_key \<Rightarrow> bytes" where
  "AppendInternalKey result key =
     PutFixed64 (result @ pik_user_key key) (PackSequenceAndType (pik_sequence key) (pik_type key))"

definition ExtractUserKey :: "bytes \<Rightarrow> bytes" where
  "ExtractUserKey internal_key = take (length internal_key - 8) internal_key"

definition ExtractValueType :: "bytes \<Rightarrow> value_type" where
  "ExtractValueType internal_key =
     (let n = length internal_key;
          num = DecodeFixed64 (drop (n - 8) internal_key)
      in ucast (num AND 0xff))"

definition ParseInternalKey :: "bytes \<Rightarrow> parsed_internal_key option" where
  "ParseInternalKey internal_key =
     (let n = length internal_key
      in if n < 8 then None
         else
           let num = DecodeFixed64 (drop (n - 8) internal_key);
               c = ucast (num AND 0xff) :: byte;
               result = \<lparr>pik_user_key = take (n - 8) internal_key, pik_sequence = drop_bit 8 num, pik_type = c\<rparr>
           in if c \<le> kTypeValue then Some result else None)"

definition ParsedInternalKey_DebugString :: "parsed_internal_key \<Rightarrow> bytes" where
  "ParsedInternalKey_DebugString key =
     (let buf = [39] @ str '' @ '' @ decimal (unat (pik_sequence key)) @ str '' : '' @ decimal (unat (pik_type key));
          result = [39];
          result = result @ EscapeString (pik_user_key key)
      in result @ buf)"

definition InternalKey_DebugString :: "bytes \<Rightarrow> bytes" where
  "InternalKey_DebugString rep =
     (case ParseInternalKey rep of
        Some parsed \<Rightarrow> ParsedInternalKey_DebugString parsed
      | None \<Rightarrow> str ''(bad)'' @ EscapeString rep)"

definition InternalKey :: "bytes \<Rightarrow> sequence_number \<Rightarrow> value_type \<Rightarrow> bytes" where
  "InternalKey user_key s t =
     AppendInternalKey [] \<lparr>pik_user_key = user_key, pik_sequence = s, pik_type = t\<rparr>"

definition InternalKey_Compare :: "(bytes \<Rightarrow> bytes \<Rightarrow> int) \<Rightarrow> bytes \<Rightarrow> bytes \<Rightarrow> int" where
  "InternalKey_Compare user_Compare akey bkey =
     (let r = user_Compare (ExtractUserKey akey) (ExtractUserKey bkey)
      in if r = 0 then
           let anum = DecodeFixed64 (drop (length akey - 8) akey);
               bnum = DecodeFixed64 (drop (length bkey - 8) bkey)
           in if anum > bnum then - 1 else if anum < bnum then 1 else r
         else r)"

definition InternalKey_FindShortestSeparator ::
    "(bytes \<Rightarrow> bytes \<Rightarrow> int) \<Rightarrow> (bytes \<Rightarrow> bytes \<Rightarrow> bytes) \<Rightarrow> bytes \<Rightarrow> bytes \<Rightarrow> bytes" where
  "InternalKey_FindShortestSeparator user_Compare user_Separator start limit =
     (let user_start = ExtractUserKey start;
          user_limit = ExtractUserKey limit;
          tmp = user_Separator user_start user_limit
      in if length tmp < length user_start \<and> user_Compare user_start tmp < 0
         then PutFixed64 tmp (PackSequenceAndType kMaxSequenceNumber kValueTypeForSeek)
         else start)"

definition InternalKey_FindShortSuccessor ::
    "(bytes \<Rightarrow> bytes \<Rightarrow> int) \<Rightarrow> (bytes \<Rightarrow> bytes) \<Rightarrow> bytes \<Rightarrow> bytes" where
  "InternalKey_FindShortSuccessor user_Compare user_Successor key =
     (let user_key = ExtractUserKey key;
          tmp = user_Successor user_key
      in if length tmp < length user_key \<and> user_Compare user_key tmp < 0
         then PutFixed64 tmp (PackSequenceAndType kMaxSequenceNumber kValueTypeForSeek)
         else key)"

text \<open>The filter policy replaces the keys in place by their user keys and passes them on.\<close>

definition InternalFilterPolicy_CreateFilter ::
    "(bytes list \<Rightarrow> bytes \<Rightarrow> bytes) \<Rightarrow> bytes list \<Rightarrow> bytes \<Rightarrow> bytes" where
  "InternalFilterPolicy_CreateFilter user_CreateFilter keys dst = user_CreateFilter (map ExtractUserKey keys) dst"

definition InternalFilterPolicy_KeyMayMatch :: "(bytes \<Rightarrow> bytes \<Rightarrow> bool) \<Rightarrow> bytes \<Rightarrow> bytes \<Rightarrow> bool" where
  "InternalFilterPolicy_KeyMayMatch user_KeyMayMatch key f = user_KeyMayMatch (ExtractUserKey key) f"

text \<open>The buffer of a lookup key, from \<open>start\<close> to \<open>end\<close>, and the offset of \<open>kstart\<close> in it.\<close>

record lookup_key =
  lk_buf :: bytes
  lk_kstart :: nat

definition LookupKey :: "bytes \<Rightarrow> sequence_number \<Rightarrow> lookup_key" where
  "LookupKey user_key s =
     (let usize = length user_key;
          dst = EncodeVarint32 (word_of_nat (usize + 8));
          kstart = length dst;
          dst = dst @ user_key;
          dst = dst @ EncodeFixed64 (PackSequenceAndType s kValueTypeForSeek)
      in \<lparr>lk_buf = dst, lk_kstart = kstart\<rparr>)"

definition memtable_key :: "lookup_key \<Rightarrow> bytes" where
  "memtable_key k = lk_buf k"

definition internal_key :: "lookup_key \<Rightarrow> bytes" where
  "internal_key k = drop (lk_kstart k) (lk_buf k)"

definition lookup_user_key :: "lookup_key \<Rightarrow> bytes" where
  "lookup_user_key k = take (length (lk_buf k) - lk_kstart k - 8) (drop (lk_kstart k) (lk_buf k))"

subsection \<open>Packing\<close>

lemma unpack:
  "drop_bit 8 (PackSequenceAndType s t) = take_bit 56 s"
  "ucast (PackSequenceAndType s t AND 0xff) = t"
proof -
  have "(0xff :: u64) = mask 8" by (simp add: mask_eq_exp_minus_1)
  note m = this
  show "drop_bit 8 (PackSequenceAndType s t) = take_bit 56 s"
    unfolding PackSequenceAndType_def
    by (rule bit_word_eqI) (auto simp: bit_simps dest: bit_imp_le_length)
  show "ucast (PackSequenceAndType s t AND 0xff) = t"
    unfolding PackSequenceAndType_def m by (rule bit_word_eqI) (auto simp: bit_simps)
qed

lemma Pack_unpack: "PackSequenceAndType (drop_bit 8 num) (ucast (num AND 0xff)) = num"
proof -
  have m: "(0xff :: u64) = mask 8" by (simp add: mask_eq_exp_minus_1)
  show ?thesis
    unfolding PackSequenceAndType_def m
  proof (rule bit_word_eqI)
    fix n assume "n < LENGTH(64)"
    then show "bit (push_bit 8 (drop_bit 8 num) OR ucast (ucast (num AND mask 8) :: byte)) n = bit num n"
      by (cases "n < 8") (simp_all add: bit_simps)
  qed
qed

lemma unat_kMax: "unat kMaxSequenceNumber = 2 ^ 56 - 1"
  by (simp add: kMaxSequenceNumber_def)

lemma take_bit_sequence: "s \<le> kMaxSequenceNumber \<Longrightarrow> take_bit 56 s = s"
proof -
  assume "s \<le> kMaxSequenceNumber"
  then have "unat s < 2 ^ 56" using unat_kMax by (simp add: word_le_nat_alt)
  then have "unat (take_bit 56 s) = unat s"
    by (simp add: unsigned_take_bit_eq take_bit_nat_eq_self_iff)
  then show ?thesis by (simp add: word_unat_eq_iff)
qed

lemma unat_Pack:
  assumes "s \<le> kMaxSequenceNumber"
  shows "unat (PackSequenceAndType s t) = unat s * 256 + unat t"
proof -
  have "push_bit 8 s AND ucast t = 0"
    by (rule bit_word_eqI) (auto simp: bit_simps dest: bit_imp_le_length)
  then have "PackSequenceAndType s t = push_bit 8 s + ucast t"
    by (simp add: PackSequenceAndType_def disjunctive_add_eq_or)
  moreover have s: "unat s < 2 ^ 56" using assms unat_kMax by (simp add: word_le_nat_alt)
  moreover have "unat (push_bit 8 s) = unat s * 256"
    using s by (simp add: push_bit_eq_mult unat_word_ariths)
  moreover have "unat (ucast t :: u64) = unat t"
    using unat_bounds(1) [of t] by (simp add: unsigned_ucast_eq take_bit_nat_eq_self_iff)
  ultimately show ?thesis
    using unat_bounds(1) [of t] by (simp add: unat_word_ariths)
qed

lemma Pack_less_iff:
  assumes "s \<le> kMaxSequenceNumber" and "s' \<le> kMaxSequenceNumber"
  shows "PackSequenceAndType s t < PackSequenceAndType s' t' \<longleftrightarrow> s < s' \<or> s = s' \<and> t < t'"
proof -
  have "unat s * 256 + unat t < unat s' * 256 + unat t' \<longleftrightarrow>
      unat s < unat s' \<or> unat s = unat s' \<and> unat t < unat t'"
    using unat_bounds(1) [of t] unat_bounds(1) [of t'] by auto
  then show ?thesis
    using assms by (simp add: word_less_nat_alt unat_Pack word_unat_eq_iff)
qed

text \<open>A valid internal key is a user key with eight bytes behind it.\<close>

lemma InternalKey_eq: "InternalKey k s t = k @ EncodeFixed64 (PackSequenceAndType s t)"
  by (simp add: InternalKey_def AppendInternalKey_def PutFixed64_def)

lemma ExtractUserKey_append [simp]: "length e = 8 \<Longrightarrow> ExtractUserKey (k @ e) = k"
  by (simp add: ExtractUserKey_def)

lemma internal_key_parts:
  "8 \<le> length k \<Longrightarrow> k = ExtractUserKey k @ EncodeFixed64 (DecodeFixed64 (drop (length k - 8) k))"
  by (simp add: ExtractUserKey_def EncodeFixed64_DecodeFixed64)

lemma InternalKey_Compare_append [simp]:
  "InternalKey_Compare cmp (a @ EncodeFixed64 m) (b @ EncodeFixed64 n) =
     (if cmp a b = 0 then if m > n then - 1 else if m < n then 1 else 0 else cmp a b)"
  by (simp add: InternalKey_Compare_def)

subsection \<open>Internal keys are ordered by a comparator\<close>

context user_comparator
begin

abbreviation icmp :: "bytes \<Rightarrow> bytes \<Rightarrow> int" where
  "icmp \<equiv> InternalKey_Compare Compare"

lemma icmp_less_iff:
  assumes "8 \<le> length a" and "8 \<le> length b"
  shows "icmp a b < 0 \<longleftrightarrow> Compare (ExtractUserKey a) (ExtractUserKey b) < 0 \<or>
    Compare (ExtractUserKey a) (ExtractUserKey b) = 0 \<and>
    DecodeFixed64 (drop (length b - 8) b) < DecodeFixed64 (drop (length a - 8) a)"
    and "icmp a b \<le> 0 \<longleftrightarrow> Compare (ExtractUserKey a) (ExtractUserKey b) < 0 \<or>
    Compare (ExtractUserKey a) (ExtractUserKey b) = 0 \<and>
    DecodeFixed64 (drop (length b - 8) b) \<le> DecodeFixed64 (drop (length a - 8) a)"
  by (auto simp: InternalKey_Compare_def Let_def)

lemma icmp_flip:
  "icmp a b < 0 \<longleftrightarrow> icmp b a > 0"
  using cmp_flip [of "ExtractUserKey a" "ExtractUserKey b"] cmp_flip [of "ExtractUserKey b" "ExtractUserKey a"]
    cmp_zero_sym [of "ExtractUserKey a" "ExtractUserKey b"]
  by (auto simp: InternalKey_Compare_def Let_def)

lemma icmp_trans:
  assumes "8 \<le> length a" "8 \<le> length b" "8 \<le> length c" "icmp a b \<le> 0" "icmp b c \<le> 0"
  shows "icmp a c \<le> 0"
proof -
  let ?u = ExtractUserKey
  have ab: "Compare (?u a) (?u b) \<le> 0" and bc: "Compare (?u b) (?u c) \<le> 0"
    using assms by (auto simp: icmp_less_iff)
  then have ac: "Compare (?u a) (?u c) \<le> 0" using cmp_trans by blast
  show ?thesis
  proof (cases "Compare (?u a) (?u c) = 0")
    case False
    then show ?thesis using ac assms by (simp add: icmp_less_iff)
  next
    case True
    have "\<not> Compare (?u a) (?u b) < 0"
      using cmp_less_le_trans [of "?u a" "?u b" "?u c"] bc True by auto
    moreover have "\<not> Compare (?u b) (?u c) < 0"
      using cmp_le_less_trans [of "?u a" "?u b" "?u c"] ab True by auto
    ultimately have "Compare (?u a) (?u b) = 0" "Compare (?u b) (?u c) = 0" using ab bc by simp_all
    then show ?thesis using assms True by (simp add: icmp_less_iff)
  qed
qed

lemma icmp_separator:
  assumes "8 \<le> length s" "8 \<le> length l" "icmp s l < 0"
  defines "m \<equiv> InternalKey_FindShortestSeparator Compare Separator s l"
  shows "8 \<le> length m \<and> icmp s m \<le> 0 \<and> icmp m l < 0"
proof (cases "m = s")
  case True
  then show ?thesis using assms by (simp add: icmp_less_iff cmp_self)
next
  case False
  let ?u = "ExtractUserKey s" and ?v = "ExtractUserKey l"
  let ?t = "Separator ?u ?v"
  have m: "m = ?t @ EncodeFixed64 (PackSequenceAndType kMaxSequenceNumber kValueTypeForSeek)"
    and t: "length ?t < length ?u" "Compare ?u ?t < 0"
    using False by (auto simp: m_def InternalKey_FindShortestSeparator_def Let_def PutFixed64_def split: if_splits)
  have "Compare ?u ?v < 0"
  proof (rule ccontr)
    assume "\<not> Compare ?u ?v < 0"
    then have "Compare ?u ?v = 0" using assms(1-3) by (auto simp: icmp_less_iff)
    then show False using separator_of_equal [of ?u ?v] t by auto
  qed
  then have "Compare ?t ?v < 0" using separator by simp
  then show ?thesis using t m assms(1,2) by (auto simp: icmp_less_iff)
qed

lemma icmp_successor:
  assumes "8 \<le> length k"
  defines "m \<equiv> InternalKey_FindShortSuccessor Compare Successor k"
  shows "8 \<le> length m \<and> icmp k m \<le> 0"
proof (cases "m = k")
  case True
  then show ?thesis using assms by (simp add: icmp_less_iff cmp_self)
next
  case False
  let ?u = "ExtractUserKey k"
  have "m = Successor ?u @ EncodeFixed64 (PackSequenceAndType kMaxSequenceNumber kValueTypeForSeek)"
    and "Compare ?u (Successor ?u) < 0"
    using False by (auto simp: m_def InternalKey_FindShortSuccessor_def Let_def PutFixed64_def split: if_splits)
  then show ?thesis using assms(1) by (auto simp: icmp_less_iff)
qed

end

sublocale user_comparator \<subseteq> internal: comparator "InternalKey_Compare Compare"
    "InternalKey_FindShortestSeparator Compare Separator"
    "InternalKey_FindShortSuccessor Compare Successor" "\<lambda>k. 8 \<le> length k"
proof
  show "8 \<le> length a \<Longrightarrow> icmp a a = 0" for a
    using cmp_self [of "ExtractUserKey a"] by (simp add: InternalKey_Compare_def)
qed (use icmp_flip icmp_trans icmp_separator icmp_successor in blast)+

context filter_policy
begin

lemma internal_policy:
  "filter_policy (InternalFilterPolicy_CreateFilter create) (InternalFilterPolicy_KeyMayMatch may_match) max_keys"
proof
  show "InternalFilterPolicy_CreateFilter create keys dst = dst @ InternalFilterPolicy_CreateFilter create keys []"
    for keys dst
    unfolding InternalFilterPolicy_CreateFilter_def by (rule create_appends)
  show "InternalFilterPolicy_KeyMayMatch may_match key (InternalFilterPolicy_CreateFilter create keys [])"
    if "length keys \<le> max_keys" "key \<in> set keys" for keys key
    using that unfolding InternalFilterPolicy_CreateFilter_def InternalFilterPolicy_KeyMayMatch_def
    by (intro no_false_negative) auto
qed

end

interpretation internal_bloom: filter_policy
    "InternalFilterPolicy_CreateFilter (CreateFilter (BloomFilterPolicy b))"
    "InternalFilterPolicy_KeyMayMatch KeyMayMatch" "2 ^ 31 - 1"
  for b
  by (rule bloom.internal_policy)

subsection \<open>Lookup keys\<close>

lemma LookupKey_parts:
  "internal_key (LookupKey k s) = InternalKey k s kValueTypeForSeek"
  "memtable_key (LookupKey k s) = EncodeVarint32 (word_of_nat (length k + 8)) @ InternalKey k s kValueTypeForSeek"
  "lookup_user_key (LookupKey k s) = k"
  by (simp_all add: LookupKey_def Let_def internal_key_def memtable_key_def lookup_user_key_def InternalKey_eq)

lemma ParseInternalKey_InternalKey:
  assumes "s \<le> kMaxSequenceNumber" and "t \<le> kTypeValue"
  shows "ParseInternalKey (InternalKey k s t) = Some \<lparr>pik_user_key = k, pik_sequence = s, pik_type = t\<rparr>"
  using assms unpack(2) [of s t]
  by (simp add: ParseInternalKey_def InternalKey_eq Let_def unpack(1) take_bit_sequence)

lemma InternalKey_Compare_keys:
  assumes "s \<le> kMaxSequenceNumber" and "s' \<le> kMaxSequenceNumber"
  shows "InternalKey_Compare cmp (InternalKey k s t) (InternalKey k' s' t') < 0 \<longleftrightarrow>
      cmp k k' < 0 \<or> cmp k k' = 0 \<and> (s' < s \<or> s' = s \<and> t' < t)"
    and "InternalKey_Compare cmp (InternalKey k s t) (InternalKey k' s' t') \<le> 0 \<longleftrightarrow>
      cmp k k' < 0 \<or> cmp k k' = 0 \<and> (s' < s \<or> s' = s \<and> t' \<le> t)"
  using Pack_less_iff [OF assms, of t t'] Pack_less_iff [OF assms(2,1), of t' t]
  by (auto simp: InternalKey_eq)

subsection \<open>Properties\<close>

text \<open>Claim C30: an internal key is parsed back into its user key, sequence number and type, and a byte
  string is refused exactly when it is shorter than eight bytes or its type byte is unknown; what is
  accepted re-encodes to the same bytes.\<close>

theorem internal_key_roundtrip:
  assumes "s \<le> kMaxSequenceNumber" and "t \<in> {kTypeDeletion, kTypeValue}"
  shows "ParseInternalKey (InternalKey k s t) = Some \<lparr>pik_user_key = k, pik_sequence = s, pik_type = t\<rparr> \<and>
    (ParseInternalKey bs = None \<longleftrightarrow> length bs < 8 \<or> kTypeValue < ExtractValueType bs) \<and>
    (\<forall>p. ParseInternalKey bs = Some p \<longrightarrow> AppendInternalKey [] p = bs)"
proof -
  have "AppendInternalKey [] p = bs" if p: "ParseInternalKey bs = Some p" for p
  proof -
    let ?num = "DecodeFixed64 (drop (length bs - 8) bs)"
    have n: "8 \<le> length bs" and p': "pik_user_key p = ExtractUserKey bs"
      "pik_sequence p = drop_bit 8 ?num" "pik_type p = ucast (?num AND 0xff)"
      using p by (auto simp: ParseInternalKey_def ExtractUserKey_def Let_def split: if_splits)
    have "PackSequenceAndType (drop_bit 8 ?num) (ucast (?num AND 0xff)) = ?num" by (rule Pack_unpack)
    then show ?thesis
      using internal_key_parts [OF n] p' by (simp add: AppendInternalKey_def PutFixed64_def)
  qed
  moreover have "t \<le> kTypeValue" using assms(2) by (auto simp: kTypeDeletion_def)
  moreover have "ParseInternalKey bs = None \<longleftrightarrow> length bs < 8 \<or> kTypeValue < ExtractValueType bs"
    by (auto simp: ParseInternalKey_def ExtractValueType_def Let_def not_le)
  ultimately show ?thesis using ParseInternalKey_InternalKey [OF assms(1)] by blast
qed

theorem internal_key_roundtrip_witness:
  "ParseInternalKey (InternalKey [1, 2] 7 kTypeDeletion) =
     Some \<lparr>pik_user_key = [1, 2], pik_sequence = 7, pik_type = kTypeDeletion\<rparr> \<and>
   ParseInternalKey [1] = None"
  using internal_key_roundtrip [of 7 kTypeDeletion "[1, 2]" "[1]"] by (simp add: kMaxSequenceNumber_def)

text \<open>Claim C29: internal keys sort by increasing user key and, under one user key, newest first: a
  lookup key for sequence number \<open>s\<close> is at or before exactly the entries of its user key that are not
  newer than \<open>s\<close>, and it is after every entry that is newer.\<close>

theorem lookup_key_position:
  assumes "s \<le> kMaxSequenceNumber" and "s' \<le> kMaxSequenceNumber" and "t' \<le> kTypeValue"
  shows "InternalKey_Compare BytewiseCompare (internal_key (LookupKey k s)) (InternalKey k' s' t') \<le> 0 \<longleftrightarrow>
    k < k' \<or> k = k' \<and> s' \<le> s"
  using assms(3) unfolding LookupKey_parts InternalKey_Compare_keys [OF assms(1,2)]
  by (auto simp: BytewiseCompare_def slice_compare_iffs kValueTypeForSeek_def)

theorem lookup_key_position_witness:
  "InternalKey_Compare BytewiseCompare (internal_key (LookupKey [5] 10)) (InternalKey [5] 9 kTypeValue) \<le> 0 \<longleftrightarrow>
    [5 :: byte] < [5] \<or> [5 :: byte] = [5] \<and> (9 :: u64) \<le> 10"
  by (rule lookup_key_position) (simp_all add: kMaxSequenceNumber_def)

text \<open>Claim C28: the comparator of internal keys over the bytewise order meets the contract of a
  comparator: a separator of two keys lies between them, the short successor is not smaller, and
  neither is longer than the key it replaces. (The assertions of the source about the
  shortened keys hold.)\<close>

theorem internal_separator_between:
  assumes "8 \<le> length start" and "8 \<le> length limit"
    and "InternalKey_Compare BytewiseCompare start limit < 0"
  shows "InternalKey_Compare BytewiseCompare start
      (InternalKey_FindShortestSeparator BytewiseCompare FindShortestSeparator start limit) \<le> 0 \<and>
    InternalKey_Compare BytewiseCompare
      (InternalKey_FindShortestSeparator BytewiseCompare FindShortestSeparator start limit) limit < 0 \<and>
    InternalKey_Compare BytewiseCompare limit
      (InternalKey_FindShortSuccessor BytewiseCompare FindShortSuccessor limit) \<le> 0 \<and>
    length (InternalKey_FindShortestSeparator BytewiseCompare FindShortestSeparator start limit) \<le> length start \<and>
    length (InternalKey_FindShortSuccessor BytewiseCompare FindShortSuccessor limit) \<le> length limit"
proof -
  have "length (InternalKey_FindShortestSeparator BytewiseCompare FindShortestSeparator start limit) \<le> length start"
    using assms(1) by (auto simp: InternalKey_FindShortestSeparator_def Let_def PutFixed64_def ExtractUserKey_def)
  moreover have "length (InternalKey_FindShortSuccessor BytewiseCompare FindShortSuccessor limit) \<le> length limit"
    using assms(2) by (auto simp: InternalKey_FindShortSuccessor_def Let_def PutFixed64_def ExtractUserKey_def)
  ultimately show ?thesis
    using bytewise.internal.separator [OF assms] bytewise.internal.successor [OF assms(2)] by blast
qed

theorem internal_separator_between_witness:
  "InternalKey_Compare BytewiseCompare (InternalKey [1, 9, 9] 5 1)
      (InternalKey_FindShortestSeparator BytewiseCompare FindShortestSeparator (InternalKey [1, 9, 9] 5 1) (InternalKey [4] 3 1)) \<le> 0 \<and>
    InternalKey_Compare BytewiseCompare
      (InternalKey_FindShortestSeparator BytewiseCompare FindShortestSeparator (InternalKey [1, 9, 9] 5 1) (InternalKey [4] 3 1))
      (InternalKey [4] 3 1) < 0 \<and>
    InternalKey_Compare BytewiseCompare (InternalKey [4] 3 1)
      (InternalKey_FindShortSuccessor BytewiseCompare FindShortSuccessor (InternalKey [4] 3 1)) \<le> 0 \<and>
    length (InternalKey_FindShortestSeparator BytewiseCompare FindShortestSeparator (InternalKey [1, 9, 9] 5 1) (InternalKey [4] 3 1))
      \<le> length (InternalKey [1, 9, 9] 5 1) \<and>
    length (InternalKey_FindShortSuccessor BytewiseCompare FindShortSuccessor (InternalKey [4] 3 1)) \<le> length (InternalKey [4] 3 1)"
proof (rule internal_separator_between)
  show "InternalKey_Compare BytewiseCompare (InternalKey [1, 9, 9] 5 1) (InternalKey [4] 3 1) < 0"
    by (subst InternalKey_Compare_keys)
      (simp_all add: kMaxSequenceNumber_def BytewiseCompare_def slice_compare_iffs)
qed (simp_all add: InternalKey_eq)

end
