(* ===== verification/LDB_WriteBatch.thy ===== *)
theory LDB_WriteBatch
  imports LDB_DbFormat LDB_Status
begin

text \<open>
  \<^verbatim>\<open>db/write_batch.cc\<close> and \<^verbatim>\<open>db/write_batch_internal.h\<close>. A batch is its representation \<open>rep\<close>: a
  twelve-byte header (sequence number and count) and the records. A handler is a state with the two
  callbacks that \<^verbatim>\<open>Iterate\<close> makes.
\<close>

definition kBatchHeader :: nat where "kBatchHeader = 12"

definition WriteBatch_Clear :: bytes where
  "WriteBatch_Clear = replicate kBatchHeader 0"

definition WriteBatch_Count :: "bytes \<Rightarrow> u32" where
  "WriteBatch_Count rep = DecodeFixed32 (drop 8 rep)"

definition WriteBatch_SetCount :: "bytes \<Rightarrow> u32 \<Rightarrow> bytes" where
  "WriteBatch_SetCount rep n = take 8 rep @ EncodeFixed32 n @ drop 12 rep"

definition WriteBatch_Sequence :: "bytes \<Rightarrow> sequence_number" where
  "WriteBatch_Sequence rep = DecodeFixed64 rep"

definition WriteBatch_SetSequence :: "bytes \<Rightarrow> sequence_number \<Rightarrow> bytes" where
  "WriteBatch_SetSequence rep seq = EncodeFixed64 seq @ drop 8 rep"

definition WriteBatch_Put :: "bytes \<Rightarrow> bytes \<Rightarrow> bytes \<Rightarrow> bytes" where
  "WriteBatch_Put rep key value =
     (let rep = WriteBatch_SetCount rep (WriteBatch_Count rep + 1);
          rep = rep @ [kTypeValue];
          rep = PutLengthPrefixedSlice rep key
      in PutLengthPrefixedSlice rep value)"

definition WriteBatch_Delete :: "bytes \<Rightarrow> bytes \<Rightarrow> bytes" where
  "WriteBatch_Delete rep key =
     (let rep = WriteBatch_SetCount rep (WriteBatch_Count rep + 1);
          rep = rep @ [kTypeDeletion]
      in PutLengthPrefixedSlice rep key)"

definition WriteBatch_Append :: "bytes \<Rightarrow> bytes \<Rightarrow> bytes" where
  "WriteBatch_Append dst src =
     WriteBatch_SetCount dst (WriteBatch_Count dst + WriteBatch_Count src) @ drop kBatchHeader src"

lemma GetLengthPrefixedSlice_shorter:
  "GetLengthPrefixedSlice input = Some (v, rest) \<Longrightarrow> length rest < length input"
  by (auto simp: GetLengthPrefixedSlice_def GetVarint32_loop remove_prefix_def
      split: option.splits if_splits prod.splits dest!: varint_loop_consumes)

function Iterate_loop ::
    "(bytes \<Rightarrow> bytes \<Rightarrow> 'h \<Rightarrow> 'h) \<Rightarrow> (bytes \<Rightarrow> 'h \<Rightarrow> 'h) \<Rightarrow> u32 \<Rightarrow> bytes \<Rightarrow> u32 \<Rightarrow> 'h \<Rightarrow> status \<times> 'h" where
  "Iterate_loop put delete count [] found handler =
     (if found \<noteq> count then (Status_Corruption (str ''WriteBatch has wrong count'') [], handler)
      else (Status_OK, handler))"
| "Iterate_loop put delete count (tag # input) found handler =
     (if tag = kTypeValue then
        case GetLengthPrefixedSlice input of
          None \<Rightarrow> (Status_Corruption (str ''bad WriteBatch Put'') [], handler)
        | Some (key, input1) \<Rightarrow>
            (case GetLengthPrefixedSlice input1 of
               None \<Rightarrow> (Status_Corruption (str ''bad WriteBatch Put'') [], handler)
             | Some (value, input2) \<Rightarrow>
                 Iterate_loop put delete count input2 (found + 1) (put key value handler))
      else if tag = kTypeDeletion then
        case GetLengthPrefixedSlice input of
          None \<Rightarrow> (Status_Corruption (str ''bad WriteBatch Delete'') [], handler)
        | Some (key, input1) \<Rightarrow> Iterate_loop put delete count input1 (found + 1) (delete key handler)
      else (Status_Corruption (str ''unknown WriteBatch tag'') [], handler))"
  by pat_completeness auto
termination
  by (relation "measure (\<lambda>(put, delete, count, input, found, handler). length input)")
    (auto dest!: GetLengthPrefixedSlice_shorter)

definition WriteBatch_Iterate ::
    "(bytes \<Rightarrow> bytes \<Rightarrow> 'h \<Rightarrow> 'h) \<Rightarrow> (bytes \<Rightarrow> 'h \<Rightarrow> 'h) \<Rightarrow> bytes \<Rightarrow> 'h \<Rightarrow> status \<times> 'h" where
  "WriteBatch_Iterate put delete rep handler =
     (if length rep < kBatchHeader then (Status_Corruption (str ''malformed WriteBatch (too small)'') [], handler)
      else Iterate_loop put delete (WriteBatch_Count rep) (drop kBatchHeader rep) 0 handler)"

text \<open>The handler that inserts into a memtable, given the memtable's \<^verbatim>\<open>Add\<close>.\<close>

record 'm inserter =
  ins_sequence :: sequence_number
  ins_mem :: 'm

definition MemTableInserter_Put ::
    "(sequence_number \<Rightarrow> value_type \<Rightarrow> bytes \<Rightarrow> bytes \<Rightarrow> 'm \<Rightarrow> 'm) \<Rightarrow> bytes \<Rightarrow> bytes \<Rightarrow> 'm inserter \<Rightarrow> 'm inserter" where
  "MemTableInserter_Put Add key value h =
     h\<lparr>ins_mem := Add (ins_sequence h) kTypeValue key value (ins_mem h), ins_sequence := ins_sequence h + 1\<rparr>"

definition MemTableInserter_Delete ::
    "(sequence_number \<Rightarrow> value_type \<Rightarrow> bytes \<Rightarrow> bytes \<Rightarrow> 'm \<Rightarrow> 'm) \<Rightarrow> bytes \<Rightarrow> 'm inserter \<Rightarrow> 'm inserter" where
  "MemTableInserter_Delete Add key h =
     h\<lparr>ins_mem := Add (ins_sequence h) kTypeDeletion key [] (ins_mem h), ins_sequence := ins_sequence h + 1\<rparr>"

definition WriteBatch_InsertInto ::
    "(sequence_number \<Rightarrow> value_type \<Rightarrow> bytes \<Rightarrow> bytes \<Rightarrow> 'm \<Rightarrow> 'm) \<Rightarrow> bytes \<Rightarrow> 'm \<Rightarrow> status \<times> 'm" where
  "WriteBatch_InsertInto Add rep memtable =
     (let (s, h) = WriteBatch_Iterate (MemTableInserter_Put Add) (MemTableInserter_Delete Add) rep
          \<lparr>ins_sequence = WriteBatch_Sequence rep, ins_mem = memtable\<rparr>
      in (s, ins_mem h))"

subsection \<open>The operations of a batch\<close>

datatype write_op = PutOp bytes bytes | DeleteOp bytes

fun op_small :: "write_op \<Rightarrow> bool" where
  "op_small (PutOp k v) \<longleftrightarrow> length k < 2 ^ 32 \<and> length v < 2 ^ 32"
| "op_small (DeleteOp k) \<longleftrightarrow> length k < 2 ^ 32"

fun batch_op :: "write_op \<Rightarrow> bytes \<Rightarrow> bytes" where
  "batch_op (PutOp k v) rep = WriteBatch_Put rep k v"
| "batch_op (DeleteOp k) rep = WriteBatch_Delete rep k"

fun handle_op :: "(bytes \<Rightarrow> bytes \<Rightarrow> 'h \<Rightarrow> 'h) \<Rightarrow> (bytes \<Rightarrow> 'h \<Rightarrow> 'h) \<Rightarrow> write_op \<Rightarrow> 'h \<Rightarrow> 'h" where
  "handle_op put delete (PutOp k v) h = put k v h"
| "handle_op put delete (DeleteOp k) h = delete k h"

fun op_bytes :: "write_op \<Rightarrow> bytes" where
  "op_bytes (PutOp k v) = [kTypeValue] @ PutLengthPrefixedSlice [] k @ PutLengthPrefixedSlice [] v"
| "op_bytes (DeleteOp k) = [kTypeDeletion] @ PutLengthPrefixedSlice [] k"

text \<open>A batch with header \<open>seq\<close> holds exactly the operations \<open>ops\<close>.\<close>

definition holds_ops :: "bytes \<Rightarrow> sequence_number \<Rightarrow> write_op list \<Rightarrow> bool" where
  "holds_ops rep seq ops \<longleftrightarrow>
     rep = EncodeFixed64 seq @ EncodeFixed32 (word_of_nat (length ops)) @ concat (map op_bytes ops)"

lemma holds_Clear: "holds_ops WriteBatch_Clear 0 []"
  by (simp add: holds_ops_def WriteBatch_Clear_def kBatchHeader_def EncodeFixed64_def EncodeFixed32_def numeral_eq_Suc)

lemma Count_holds [simp]: "holds_ops rep seq ops \<Longrightarrow> WriteBatch_Count rep = word_of_nat (length ops)"
  by (simp add: holds_ops_def WriteBatch_Count_def)

lemma Sequence_holds [simp]: "holds_ops rep seq ops \<Longrightarrow> WriteBatch_Sequence rep = seq"
  by (simp add: holds_ops_def WriteBatch_Sequence_def)

lemma SetSequence_holds: "holds_ops rep seq ops \<Longrightarrow> holds_ops (WriteBatch_SetSequence rep seq') seq' ops"
  by (simp add: holds_ops_def WriteBatch_SetSequence_def)

lemma SetCount_holds:
  "holds_ops rep seq ops \<Longrightarrow>
   WriteBatch_SetCount rep n = EncodeFixed64 seq @ EncodeFixed32 n @ concat (map op_bytes ops)"
  by (simp add: holds_ops_def WriteBatch_SetCount_def)

lemma PutLengthPrefixedSlice_nonempty:
  "dst \<noteq> [] \<Longrightarrow> PutLengthPrefixedSlice dst value = dst @ PutLengthPrefixedSlice [] value"
  by (rule PutLengthPrefixedSlice_append)

lemma batch_op_holds: "holds_ops rep seq ops \<Longrightarrow> holds_ops (batch_op a rep) seq (ops @ [a])"
  by (cases a)
    (simp_all add: WriteBatch_Put_def WriteBatch_Delete_def SetCount_holds Let_def holds_ops_def
      PutLengthPrefixedSlice_nonempty add.commute)

lemma batch_ops_holds: "holds_ops rep seq ops \<Longrightarrow> holds_ops (fold batch_op xs rep) seq (ops @ xs)"
proof (induction xs arbitrary: rep ops)
  case (Cons x xs)
  then show ?case using batch_op_holds [OF Cons.prems, of x] by fastforce
qed simp

lemma Append_holds:
  assumes "holds_ops dst seq xs" and "holds_ops src seq' ys"
  shows "holds_ops (WriteBatch_Append dst src) seq (xs @ ys)"
  using assms SetCount_holds [OF assms(1)]
  by (simp add: WriteBatch_Append_def kBatchHeader_def) (simp add: holds_ops_def)

lemma Iterate_loop_ops:
  assumes "\<forall>a \<in> set ops. op_small a"
  shows "Iterate_loop put delete count (concat (map op_bytes ops)) found h =
    (if found + word_of_nat (length ops) = count then Status_OK
     else Status_Corruption (str ''WriteBatch has wrong count'') [],
     fold (handle_op put delete) ops h)"
  using assms
proof (induction ops arbitrary: found h)
  case (Cons a ops)
  then show ?case
    by (cases a) (simp_all add: kTypeValue_def kTypeDeletion_def GetLengthPrefixedSlice_Put
        add.assoc)
qed simp

lemma Iterate_holds:
  assumes "holds_ops rep seq ops" and "\<forall>a \<in> set ops. op_small a"
  shows "WriteBatch_Iterate put delete rep h = (Status_OK, fold (handle_op put delete) ops h)"
  using assms Iterate_loop_ops [OF assms(2), of put delete "WriteBatch_Count rep" 0]
  by (simp add: WriteBatch_Iterate_def kBatchHeader_def) (simp add: holds_ops_def)

subsection \<open>What any bytes hold\<close>

text \<open>
  A slice is the bytes behind a varint with their number. The bytes of a batch, whoever made them, hold an operation in
  front of the rest, and a list of operations.
\<close>

definition slice_at :: "bytes \<Rightarrow> bytes \<Rightarrow> bytes \<Rightarrow> bool" where
  "slice_at input v rest \<longleftrightarrow> (\<exists>len. GetVarint32 input = Some (len, v @ rest) \<and> length v = unat len)"

inductive reads_op :: "bytes \<Rightarrow> write_op \<Rightarrow> bytes \<Rightarrow> bool" where
  put: "slice_at input k input1 \<Longrightarrow> slice_at input1 v rest \<Longrightarrow> reads_op (kTypeValue # input) (PutOp k v) rest"
| delete: "slice_at input k rest \<Longrightarrow> reads_op (kTypeDeletion # input) (DeleteOp k) rest"

inductive_simps reads_op_cons: "reads_op (tag # input) a rest"
inductive_simps reads_op_nil [simp]: "reads_op [] a rest"

inductive reads_ops :: "bytes \<Rightarrow> write_op list \<Rightarrow> bytes \<Rightarrow> bool" where
  nothing: "reads_ops input [] input"
| another: "reads_op input a input1 \<Longrightarrow> reads_ops input1 ops rest \<Longrightarrow> reads_ops input (a # ops) rest"

lemma slice_at_iff: "slice_at input v rest \<longleftrightarrow> GetLengthPrefixedSlice input = Some (v, rest)"
proof
  assume "slice_at input v rest"
  then show "GetLengthPrefixedSlice input = Some (v, rest)"
    by (auto simp: slice_at_def GetLengthPrefixedSlice_def remove_prefix_def)
next
  assume "GetLengthPrefixedSlice input = Some (v, rest)"
  then show "slice_at input v rest"
    by (auto simp: slice_at_def GetLengthPrefixedSlice_def remove_prefix_def split: option.splits if_splits)
qed

lemma reads_op_iff:
  "reads_op (tag # input) a rest \<longleftrightarrow>
     (\<exists>k in1 v. tag = kTypeValue \<and> a = PutOp k v \<and> GetLengthPrefixedSlice input = Some (k, in1) \<and> GetLengthPrefixedSlice in1 = Some (v, rest)) \<or>
     (\<exists>k. tag = kTypeDeletion \<and> a = DeleteOp k \<and> GetLengthPrefixedSlice input = Some (k, rest))"
  unfolding reads_op_cons slice_at_iff by blast

lemma value_not_deletion: "kTypeValue \<noteq> kTypeDeletion" "kTypeDeletion \<noteq> kTypeValue"
  by (simp_all add: kTypeValue_def kTypeDeletion_def)

lemma reads_op_unique: "reads_op input a rest \<Longrightarrow> reads_op input a' rest' \<Longrightarrow> a' = a \<and> rest' = rest"
  by (cases input) (auto simp: reads_op_iff value_not_deletion)

lemma reads_ops_unique:
  "reads_ops input ops rest \<Longrightarrow> \<nexists>a r. reads_op rest a r \<Longrightarrow> reads_ops input ops' rest' \<Longrightarrow> \<nexists>a r. reads_op rest' a r \<Longrightarrow>
   ops' = ops \<and> rest' = rest"
proof (induction arbitrary: ops' rest' rule: reads_ops.induct)
  case (nothing input)
  then show ?case by (auto elim: reads_ops.cases)
next
  case (another input a input1 ops rest)
  obtain a' input1' ops1 where "ops' = a' # ops1" "reads_op input a' input1'" "reads_ops input1' ops1 rest'"
    using another.prems(2,3) another.hyps(1) by (auto elim: reads_ops.cases)
  then show ?case using another.IH another.prems(1,3) reads_op_unique [OF another.hyps(1)] by blast
qed

lemma reads_ops_written: "\<forall>a \<in> set ops. op_small a \<Longrightarrow> reads_ops (concat (map op_bytes ops)) ops []"
proof (induction ops)
  case (Cons a ops)
  then have "reads_op (concat (map op_bytes (a # ops))) a (concat (map op_bytes ops))"
    by (cases a) (simp_all add: reads_op_iff GetLengthPrefixedSlice_Put)
  then show ?case using Cons by (auto intro: reads_ops.another)
qed (simp add: reads_ops.nothing)

text \<open>What the loop over the records does with any bytes.\<close>

lemma Iterate_loop_result:
  "Iterate_loop put delete count input found h = (s, h') \<Longrightarrow>
   \<exists>ops rest. reads_ops input ops rest \<and> (\<nexists>a rest'. reads_op rest a rest') \<and> h' = fold (handle_op put delete) ops h \<and>
     (ok s \<longleftrightarrow> rest = [] \<and> found + word_of_nat (length ops) = count) \<and> (ok s \<or> IsCorruption s)"
proof (induction put delete count input found h rule: Iterate_loop.induct)
  case (1 put delete count found handler)
  then show ?case by (intro exI [of _ "[]"]) (auto simp: reads_ops.nothing split: if_splits)
next
  case (2 put delete count tag input found handler)
  let ?f = "fold (handle_op put delete)"
  have stop: ?case if "h' = handler" "IsCorruption s" "\<not> ok s" "\<nexists>a rest'. reads_op (tag # input) a rest'"
    using that by (intro exI [of _ "[]"] exI [of _ "tag # input"]) (simp add: reads_ops.nothing)
  have go: ?case if a: "reads_op (tag # input) a input1" and "\<exists>ops rest. reads_ops input1 ops rest \<and>
      (\<nexists>a rest'. reads_op rest a rest') \<and> h' = ?f ops (handle_op put delete a handler) \<and>
      (ok s \<longleftrightarrow> rest = [] \<and> found + 1 + word_of_nat (length ops) = count) \<and> (ok s \<or> IsCorruption s)" for a input1
  proof -
    from that(2) obtain ops rest where "reads_ops input1 ops rest" "\<nexists>a rest'. reads_op rest a rest'" "h' = ?f (a # ops) handler"
      "ok s \<longleftrightarrow> rest = [] \<and> found + word_of_nat (length (a # ops)) = count" "ok s \<or> IsCorruption s" by (auto simp: add.assoc)
    then show ?thesis using reads_ops.another [OF a] by blast
  qed
  consider (put) "tag = kTypeValue" | (delete) "tag \<noteq> kTypeValue" "tag = kTypeDeletion"
    | (bad) "tag \<noteq> kTypeValue" "tag \<noteq> kTypeDeletion" by blast
  then show ?case
  proof cases
    case put
    show ?thesis
    proof (cases "GetLengthPrefixedSlice input")
      case None
      then show ?thesis using 2(3) put by (intro stop) (auto simp: reads_op_iff value_not_deletion)
    next
      case (Some p)
      obtain key in1 where p: "p = (key, in1)" by force
      show ?thesis
      proof (cases "GetLengthPrefixedSlice in1")
        case None
        then show ?thesis using 2(3) put Some p by (intro stop) (auto simp: reads_op_iff value_not_deletion)
      next
        case (Some q)
        obtain v in2 where q: "q = (v, in2)" by force
        have "reads_op (tag # input) (PutOp key v) in2"
          using put Some \<open>GetLengthPrefixedSlice input = Some p\<close> p q by (simp add: reads_op_iff)
        from go [OF this] show ?thesis
          using 2(1) [OF put \<open>GetLengthPrefixedSlice input = Some p\<close> p [symmetric] Some q [symmetric]] 2(3) put \<open>GetLengthPrefixedSlice input = Some p\<close> p Some q
          by auto
      qed
    qed
  next
    case delete
    show ?thesis
    proof (cases "GetLengthPrefixedSlice input")
      case None
      then show ?thesis using 2(3) delete by (intro stop) (auto simp: reads_op_iff value_not_deletion)
    next
      case (Some p)
      obtain key in1 where p: "p = (key, in1)" by force
      have "reads_op (tag # input) (DeleteOp key) in1"
        using delete Some p by (simp add: reads_op_iff)
      from go [OF this] show ?thesis
        using 2(2) [OF delete Some p [symmetric]] 2(3) delete Some p by (auto simp: value_not_deletion)
    qed
  next
    case bad
    then show ?thesis using 2(3) by (intro stop) (auto simp: reads_op_iff value_not_deletion)
  qed
qed

subsection \<open>Properties\<close>

text \<open>Claim C31: iterating over a batch calls the handler with exactly the operations that were put into
  it, in their order, and returns OK; appending one batch to another concatenates their operations.\<close>

theorem write_batch_iterate:
  assumes "\<forall>a \<in> set (xs @ ys). op_small a"
  shows "WriteBatch_Iterate put delete
      (WriteBatch_Append (fold batch_op xs WriteBatch_Clear) (fold batch_op ys WriteBatch_Clear)) h =
    (Status_OK, fold (handle_op put delete) (xs @ ys) h)"
  using Append_holds [OF batch_ops_holds [OF holds_Clear, of xs] batch_ops_holds [OF holds_Clear, of ys]] assms
  by (intro Iterate_holds) simp_all

theorem write_batch_iterate_witness:
  "WriteBatch_Iterate (\<lambda>k v h. h @ [(k, Some v)]) (\<lambda>k h. h @ [(k, None)])
      (WriteBatch_Append (fold batch_op [PutOp [1] [2, 3]] WriteBatch_Clear)
        (fold batch_op [DeleteOp [1], PutOp [] []] WriteBatch_Clear)) [] =
    (Status_OK, fold (handle_op (\<lambda>k v h. h @ [(k, Some v)]) (\<lambda>k h. h @ [(k, None)]))
      ([PutOp [1] [2, 3]] @ [DeleteOp [1], PutOp [] []]) [])"
  by (rule write_batch_iterate) simp

text \<open>The entries a batch adds, under consecutive sequence numbers.\<close>

fun add_ops ::
    "(sequence_number \<Rightarrow> value_type \<Rightarrow> bytes \<Rightarrow> bytes \<Rightarrow> 'm \<Rightarrow> 'm) \<Rightarrow> sequence_number \<Rightarrow> write_op list \<Rightarrow> 'm \<Rightarrow> 'm" where
  "add_ops Add seq [] m = m"
| "add_ops Add seq (PutOp k v # ops) m = add_ops Add (seq + 1) ops (Add seq kTypeValue k v m)"
| "add_ops Add seq (DeleteOp k # ops) m = add_ops Add (seq + 1) ops (Add seq kTypeDeletion k [] m)"

lemma fold_inserter:
  "fold (handle_op (MemTableInserter_Put Add) (MemTableInserter_Delete Add)) ops \<lparr>ins_sequence = seq, ins_mem = m\<rparr> =
   \<lparr>ins_sequence = seq + word_of_nat (length ops), ins_mem = add_ops Add seq ops m\<rparr>"
  by (induction Add seq ops m rule: add_ops.induct)
    (simp_all add: MemTableInserter_Put_def MemTableInserter_Delete_def add.assoc)

lemma InsertInto_holds:
  assumes "holds_ops rep seq ops" and "\<forall>a \<in> set ops. op_small a"
  shows "WriteBatch_InsertInto Add rep m = (Status_OK, add_ops Add seq ops m)"
  using assms by (simp add: WriteBatch_InsertInto_def Iterate_holds fold_inserter)

text \<open>Inserting a batch into a memtable adds its operations in order under consecutive
  sequence numbers that start at the number of the batch.\<close>

theorem write_batch_insert_into:
  assumes "\<forall>a \<in> set ops. op_small a"
  shows "WriteBatch_InsertInto Add (WriteBatch_SetSequence (fold batch_op ops WriteBatch_Clear) seq) m =
    (Status_OK, add_ops Add seq ops m)"
  using SetSequence_holds [OF batch_ops_holds [OF holds_Clear, of ops]] assms
  by (intro InsertInto_holds) simp_all

theorem write_batch_insert_into_witness:
  "WriteBatch_InsertInto (\<lambda>s t k v m. m @ [(s, t, k, v)])
      (WriteBatch_SetSequence (fold batch_op [PutOp [1] [2], DeleteOp [3]] WriteBatch_Clear) 100) [] =
    (Status_OK, add_ops (\<lambda>s t k v m. m @ [(s, t, k, v)]) 100 [PutOp [1] [2], DeleteOp [3]] [])"
  by (rule write_batch_insert_into) simp

text \<open>
  Claim C32: iterating over any bytes hands exactly the operations in them to the handler. A batch of fewer than twelve bytes is refused without a
  callback. Otherwise the handler gets, in order, the operations that the records hold up to the first place where no
  complete record starts; the batch is accepted exactly when that is its end and the number of operations is
  the count of the header, and refused as corrupt in all other cases.
\<close>

theorem write_batch_accepted:
  "if length rep < 12
   then IsCorruption (fst (WriteBatch_Iterate put delete rep h)) \<and> snd (WriteBatch_Iterate put delete rep h) = h
   else \<exists>ops rest. reads_ops (drop 12 rep) ops rest \<and> (\<nexists>a rest'. reads_op rest a rest') \<and>
     snd (WriteBatch_Iterate put delete rep h) = fold (handle_op put delete) ops h \<and>
     (ok (fst (WriteBatch_Iterate put delete rep h)) \<longleftrightarrow> rest = [] \<and> word_of_nat (length ops) = WriteBatch_Count rep) \<and>
     (ok (fst (WriteBatch_Iterate put delete rep h)) \<or> IsCorruption (fst (WriteBatch_Iterate put delete rep h)))"
proof -
  obtain s h' where l: "Iterate_loop put delete (WriteBatch_Count rep) (drop 12 rep) 0 h = (s, h')" by force
  from Iterate_loop_result [OF l] l show ?thesis by (auto simp: WriteBatch_Iterate_def kBatchHeader_def)
qed

text \<open>One record and a byte behind it that starts none.\<close>

theorem write_batch_accepted_witness:
  "let result = WriteBatch_Iterate (\<lambda>k v h. h @ [(k, v)]) (\<lambda>k h. h) (replicate 8 0 @ [1, 0, 0, 0] @ [1, 1, 7, 1, 1, 9]) []
   in snd result = [([7], [1])] \<and> IsCorruption (fst result)"
proof -
  let ?rep = "replicate 8 0 @ [1, 0, 0, 0] @ [1, 1, 7, 1, 1, 9] :: bytes" and ?put = "\<lambda>k v h. h @ [(k, v)] :: (bytes \<times> bytes) list"
  let ?r = "WriteBatch_Iterate ?put (\<lambda>k h. h) ?rep []"
  have len: "\<not> length ?rep < 12" and rep: "drop 12 ?rep = [1, 1, 7, 1, 1, 9]" by (simp_all add: numeral_eq_Suc)
  obtain ops rest where r: "reads_ops [1, 1, 7, 1, 1, 9] ops rest" "\<nexists>a rest'. reads_op rest a rest'"
      "snd ?r = fold (handle_op ?put (\<lambda>k h. h)) ops []" "ok (fst ?r) \<longrightarrow> rest = []" "ok (fst ?r) \<or> IsCorruption (fst ?r)"
    using write_batch_accepted [of ?rep ?put "\<lambda>k h. h" "[]"] unfolding rep if_not_P [OF len] by blast
  have "GetLengthPrefixedSlice [1, 7, 1, 1, 9] = Some ([7], [1, 1, 9])" "GetLengthPrefixedSlice [1, 1, 9] = Some ([1], [9])" by code_simp+
  then have "reads_ops [1, 1, 7, 1, 1, 9] [PutOp [7] [1]] [9]" by (intro reads_ops.another [of _ _ "[9]"] reads_ops.nothing) (simp add: reads_op_iff kTypeValue_def)
  moreover have "\<nexists>a rest'. reads_op [9] a rest'" by (simp add: reads_op_iff kTypeValue_def kTypeDeletion_def)
  ultimately have "ops = [PutOp [7] [1]] \<and> rest = [9]" using reads_ops_unique r(1,2) by blast
  then show ?thesis using r(3-5) by (auto simp: Let_def)
qed

end
