(* ===== verification/LDB_Block.thy ===== *)
theory LDB_Block
  imports LDB_Coding LDB_Comparator LDB_Status
begin

text \<open>
  \<^verbatim>\<open>table/block_builder.cc\<close> and \<^verbatim>\<open>table/block.cc\<close>: blocks of sorted entries with prefix-compressed
  keys and restart points, and the iterator over them.

  A pointer into the block is its offset. The fields that the source declares as \<^verbatim>\<open>uint32_t\<close> are
  32-bit words, and the conversions of pointer differences to that type are explicit. What lies
  behind the block in memory is not modelled: a slice that reaches past the end is cut there.
\<close>

unbundle bit_operations_syntax

subsection \<open>The builder\<close>

record block_builder =
  bb_buffer :: bytes
  bb_restarts :: "u32 list"
  bb_counter :: nat
  bb_finished :: bool
  bb_last_key :: bytes

definition new_block_builder :: block_builder where
  "new_block_builder =
     \<lparr>bb_buffer = [], bb_restarts = [0], bb_counter = 0, bb_finished = False, bb_last_key = []\<rparr>"

definition BlockBuilder_Reset :: "block_builder \<Rightarrow> block_builder" where
  "BlockBuilder_Reset b =
     b\<lparr>bb_buffer := [], bb_restarts := [0], bb_counter := 0, bb_finished := False, bb_last_key := []\<rparr>"

definition CurrentSizeEstimate :: "block_builder \<Rightarrow> nat" where
  "CurrentSizeEstimate b = length (bb_buffer b) + length (bb_restarts b) * 4 + 4"

definition BlockBuilder_Finish :: "block_builder \<Rightarrow> bytes \<times> block_builder" where
  "BlockBuilder_Finish b =
     (let buffer = fold (\<lambda>r dst. PutFixed32 dst r) (bb_restarts b) (bb_buffer b);
          buffer = PutFixed32 buffer (word_of_nat (length (bb_restarts b)));
          b = b\<lparr>bb_buffer := buffer, bb_finished := True\<rparr>
      in (buffer, b))"

fun shared_prefix :: "bytes \<Rightarrow> bytes \<Rightarrow> nat" where
  "shared_prefix (a # as) (b # bs) = (if a = b then Suc (shared_prefix as bs) else 0)"
| "shared_prefix as bs = 0"

definition BlockBuilder_Add :: "nat \<Rightarrow> block_builder \<Rightarrow> bytes \<Rightarrow> bytes \<Rightarrow> block_builder" where
  "BlockBuilder_Add block_restart_interval b key value =
     (let (shared, b) =
            (if bb_counter b < block_restart_interval then (shared_prefix (bb_last_key b) key, b)
             else (0, b\<lparr>bb_restarts := bb_restarts b @ [word_of_nat (length (bb_buffer b))], bb_counter := 0\<rparr>));
          non_shared = length key - shared;
          buffer = PutVarint32 (bb_buffer b) (word_of_nat shared);
          buffer = PutVarint32 buffer (word_of_nat non_shared);
          buffer = PutVarint32 buffer (word_of_nat (length value));
          buffer = buffer @ drop shared key;
          buffer = buffer @ value
      in b\<lparr>bb_buffer := buffer, bb_last_key := take shared (bb_last_key b) @ drop shared key,
           bb_counter := bb_counter b + 1\<rparr>)"

subsection \<open>Blocks\<close>

record block =
  blk_data :: bytes
  blk_size :: nat
  blk_restart_offset :: u32

definition NumRestarts :: "bytes \<Rightarrow> nat \<Rightarrow> u32" where
  "NumRestarts data n = DecodeFixed32 (drop (n - 4) data)"

definition Block :: "bytes \<Rightarrow> block" where
  "Block contents =
     (let n = length contents
      in if n < 4 then \<lparr>blk_data = contents, blk_size = 0, blk_restart_offset = 0\<rparr>
         else
           let max_restarts_allowed = (n - 4) div 4
           in if unat (NumRestarts contents n) > max_restarts_allowed
              then \<lparr>blk_data = contents, blk_size = 0, blk_restart_offset = 0\<rparr>
              else \<lparr>blk_data = contents, blk_size = n,
                    blk_restart_offset = word_of_nat (n - (1 + unat (NumRestarts contents n)) * 4)\<rparr>)"

text \<open>The decoder of an entry: the offset of the key delta and the three lengths.\<close>

definition DecodeEntry :: "bytes \<Rightarrow> nat \<Rightarrow> nat \<Rightarrow> (nat \<times> u32 \<times> u32 \<times> u32) option" where
  "DecodeEntry data p limit =
     (if int limit - int p < 3 then None
      else
        let bs = take (limit - p) (drop p data);
            decoded =
              (if (ucast (bs ! 0) OR ucast (bs ! 1) OR ucast (bs ! 2) :: u32) < 128
               then Some (p + 3, ucast (bs ! 0), ucast (bs ! 1), ucast (bs ! 2))
               else
                 (case GetVarint32Ptr bs of
                    None \<Rightarrow> None
                  | Some (shared, bs1) \<Rightarrow>
                      (case GetVarint32Ptr bs1 of
                         None \<Rightarrow> None
                       | Some (non_shared, bs2) \<Rightarrow>
                           (case GetVarint32Ptr bs2 of
                              None \<Rightarrow> None
                            | Some (value_length, bs3) \<Rightarrow>
                                Some (p + (length bs - length bs3), shared, non_shared, value_length)))))
        in case decoded of
             None \<Rightarrow> None
           | Some (q, shared, non_shared, value_length) \<Rightarrow>
               if (word_of_nat (limit - q) :: u32) < non_shared + value_length then None
               else Some (q, shared, non_shared, value_length))"

record block_iter =
  bi_data :: bytes
  bi_restarts :: u32
  bi_num_restarts :: u32
  bi_current :: u32
  bi_restart_index :: u32
  bi_key :: bytes
  bi_value_off :: nat
  bi_value_len :: nat
  bi_status :: status

definition bi_value :: "block_iter \<Rightarrow> bytes" where
  "bi_value it = take (bi_value_len it) (drop (bi_value_off it) (bi_data it))"

definition NextEntryOffset :: "block_iter \<Rightarrow> u32" where
  "NextEntryOffset it = word_of_nat (bi_value_off it + bi_value_len it)"

definition GetRestartPoint :: "block_iter \<Rightarrow> u32 \<Rightarrow> u32" where
  "GetRestartPoint it index = DecodeFixed32 (drop (unat (bi_restarts it) + unat index * 4) (bi_data it))"

definition SeekToRestartPoint :: "block_iter \<Rightarrow> u32 \<Rightarrow> block_iter" where
  "SeekToRestartPoint it index =
     (let offset = GetRestartPoint it index
      in it\<lparr>bi_key := [], bi_restart_index := index, bi_value_off := unat offset, bi_value_len := 0\<rparr>)"

definition Block_Iter :: "bytes \<Rightarrow> u32 \<Rightarrow> u32 \<Rightarrow> block_iter" where
  "Block_Iter data restarts num_restarts =
     \<lparr>bi_data = data, bi_restarts = restarts, bi_num_restarts = num_restarts, bi_current = restarts,
      bi_restart_index = num_restarts, bi_key = [], bi_value_off = 0, bi_value_len = 0,
      bi_status = Status_OK\<rparr>"

definition BlockIter_Valid :: "block_iter \<Rightarrow> bool" where
  "BlockIter_Valid it \<longleftrightarrow> bi_current it < bi_restarts it"

definition CorruptionError :: "block_iter \<Rightarrow> block_iter" where
  "CorruptionError it =
     it\<lparr>bi_current := bi_restarts it, bi_restart_index := bi_num_restarts it,
        bi_status := Status_Corruption (str ''bad entry in block'') [], bi_key := [],
        bi_value_off := 0, bi_value_len := 0\<rparr>"

lemma restart_index_progress:
  "(i :: u32) + 1 < n \<Longrightarrow> unat n - unat (2 + i) < unat n - unat (i + 1)"
proof -
  assume a: "i + 1 < n"
  then have "unat (i + 1) < unat n" by (simp add: word_less_nat_alt)
  moreover have "unat (i + 1 + 1) = unat (i + 1) + 1"
  proof -
    have "unat (i + 1) + 1 < 2 ^ 32" using \<open>unat (i + 1) < unat n\<close> unat_bounds(2) [of n] by linarith
    then show ?thesis by (subst unat_word_ariths(1)) simp
  qed
  ultimately show ?thesis by (simp add: add.assoc add.commute)
qed

function advance_restart_index :: "block_iter \<Rightarrow> u32 \<Rightarrow> u32" where
  "advance_restart_index it index =
     (if index + 1 < bi_num_restarts it \<and> GetRestartPoint it (index + 1) < bi_current it
      then advance_restart_index it (index + 1) else index)"
  by pat_completeness auto
termination
  by (relation "measure (\<lambda>(it, index). unat (bi_num_restarts it) - unat (index + 1))")
    (use restart_index_progress in auto)

declare advance_restart_index.simps [simp del]

definition ParseNextKey :: "block_iter \<Rightarrow> bool \<times> block_iter" where
  "ParseNextKey it =
     (let it = it\<lparr>bi_current := NextEntryOffset it\<rparr>;
          p = unat (bi_current it);
          limit = unat (bi_restarts it)
      in if p \<ge> limit then
           (False, it\<lparr>bi_current := bi_restarts it, bi_restart_index := bi_num_restarts it\<rparr>)
         else
           (case DecodeEntry (bi_data it) p limit of
              None \<Rightarrow> (False, CorruptionError it)
            | Some (p, shared, non_shared, value_length) \<Rightarrow>
                if length (bi_key it) < unat shared then (False, CorruptionError it)
                else
                  let it = it\<lparr>bi_key := take (unat shared) (bi_key it) @
                                take (unat non_shared) (drop p (bi_data it)),
                              bi_value_off := p + unat non_shared,
                              bi_value_len := unat value_length\<rparr>
                  in (True, it\<lparr>bi_restart_index := advance_restart_index it (bi_restart_index it)\<rparr>)))"

text \<open>A parsed entry ends behind the place where it started, whatever the bytes of the block are.\<close>

lemma DecodeEntry_bounds:
  assumes "DecodeEntry data p limit = Some (q, shared, non_shared, value_length)"
  shows "p < q \<and> q \<le> limit \<and> (word_of_nat (limit - q) :: u32) \<ge> non_shared + value_length"
proof -
  let ?bs = "take (limit - p) (drop p data)"
  have GV: "length r < length b" if "GetVarint32Ptr b = Some (v, r)" for b v r
    using that GetVarint32_loop [of b] varint_loop_consumes [of 28 0 0 b v r]
    by (auto simp: GetVarint32_def)
  have lim: "p + 3 \<le> limit" using assms by (auto simp: DecodeEntry_def split: if_splits)
  have len: "length ?bs \<le> limit - p" by simp
  show ?thesis
  proof (cases "(ucast (?bs ! 0) OR ucast (?bs ! 1) OR ucast (?bs ! 2) :: u32) < 128")
    case True
    then show ?thesis
      using assms lim by (auto simp: DecodeEntry_def Let_def not_less split: if_splits)
  next
    case False
    then obtain v1 b1 v2 b2 v3 b3 where b: "GetVarint32Ptr ?bs = Some (v1, b1)"
        "GetVarint32Ptr b1 = Some (v2, b2)" "GetVarint32Ptr b2 = Some (v3, b3)"
        "q = p + (length ?bs - length b3)" "(word_of_nat (limit - q) :: u32) \<ge> non_shared + value_length"
      using assms lim
      by (auto simp: DecodeEntry_def Let_def not_less split: if_splits option.splits prod.splits)
    have "length b3 < length ?bs"
      using GV [OF b(1)] GV [OF b(2)] GV [OF b(3)] by linarith
    then obtain k where k: "length ?bs = length b3 + k" "0 < k" using less_imp_add_positive by metis
    have "q = p + k" using b(4) unfolding k(1) by simp
    moreover have "k \<le> limit - p" using len unfolding k(1) by simp
    ultimately show ?thesis using b(5) k(2) lim by (simp del: of_nat_add of_nat_diff)
  qed
qed

lemma ParseNextKey_progress:
  assumes "ParseNextKey it = (True, it')"
  shows "unat (NextEntryOffset it) < unat (NextEntryOffset it') \<and>
    unat (NextEntryOffset it') \<le> unat (bi_restarts it) \<and> bi_restarts it' = bi_restarts it \<and>
    bi_data it' = bi_data it \<and> bi_num_restarts it' = bi_num_restarts it \<and>
    unat (NextEntryOffset it) < unat (bi_restarts it)"
proof -
  let ?p = "unat (NextEntryOffset it)" and ?limit = "unat (bi_restarts it)"
  obtain q shared ns vl where d: "DecodeEntry (bi_data it) ?p ?limit = Some (q, shared, ns, vl)"
      "bi_value_off it' = q + unat ns" "bi_value_len it' = unat vl" "?p < ?limit"
      "bi_restarts it' = bi_restarts it" "bi_data it' = bi_data it" "bi_num_restarts it' = bi_num_restarts it"
    using assms by (auto simp: ParseNextKey_def Let_def split: if_splits option.splits prod.splits)
  note b = DecodeEntry_bounds [OF d(1)]
  have lim: "?limit < 2 ^ 32" by (rule unat_bounds)
  have "unat (word_of_nat (?limit - q) :: u32) = ?limit - q"
    using lim by (intro unat_word_of_nat_small) simp
  then have sum: "unat (ns + vl) \<le> ?limit - q" using b by (simp only: word_le_nat_alt)
  have "NextEntryOffset it' = word_of_nat q + (ns + vl)"
    by (simp add: NextEntryOffset_def d(2,3) add.assoc)
  moreover have "unat (word_of_nat q :: u32) = q" using b lim by simp
  moreover have "q + unat (ns + vl) < 2 ^ 32" using sum b lim by linarith
  ultimately have "unat (NextEntryOffset it') = q + unat (ns + vl)"
    by (simp only: unat_word_ariths(1)) simp
  then show ?thesis using b sum d(4-7) by linarith
qed

subsection \<open>The operations of the iterator\<close>

definition BlockIter_Next :: "block_iter \<Rightarrow> block_iter" where
  "BlockIter_Next it = snd (ParseNextKey it)"

text \<open>The loop that parses entries as long as they end in front of \<open>bound\<close>.\<close>

function parse_until :: "block_iter \<Rightarrow> u32 \<Rightarrow> block_iter" where
  "parse_until it bound =
     (let (more, it') = ParseNextKey it
      in if more \<and> NextEntryOffset it' < bound then parse_until it' bound else it')"
  by pat_completeness auto
termination
  by (relation "measure (\<lambda>(it, bound). unat (bi_restarts it) - unat (NextEntryOffset it))")
    (auto dest!: sym [of "(_, _)"] ParseNextKey_progress)

declare parse_until.simps [simp del]

function prev_restart :: "block_iter \<Rightarrow> u32 \<Rightarrow> u32 \<Rightarrow> u32 option" where
  "prev_restart it original index =
     (if GetRestartPoint it index \<ge> original then
        if index = 0 then None else prev_restart it original (index - 1)
      else Some index)"
  by pat_completeness auto
termination
  by (relation "measure (\<lambda>(it, original, index). unat index)") (auto simp: measure_unat)

declare prev_restart.simps [simp del]

definition BlockIter_Prev :: "block_iter \<Rightarrow> block_iter" where
  "BlockIter_Prev it =
     (let original = bi_current it
      in case prev_restart it original (bi_restart_index it) of
           None \<Rightarrow> it\<lparr>bi_current := bi_restarts it, bi_restart_index := bi_num_restarts it\<rparr>
         | Some index \<Rightarrow> parse_until (SeekToRestartPoint it index) original)"

definition BlockIter_SeekToFirst :: "block_iter \<Rightarrow> block_iter" where
  "BlockIter_SeekToFirst it = snd (ParseNextKey (SeekToRestartPoint it 0))"

definition BlockIter_SeekToLast :: "block_iter \<Rightarrow> block_iter" where
  "BlockIter_SeekToLast it = parse_until (SeekToRestartPoint it (bi_num_restarts it - 1)) (bi_restarts it)"

text \<open>
  The binary search over the restart points: the index it ends with, or \<^const>\<open>None\<close> for a bad entry.
  The sum of the two bounds wraps at 32 bits, so the search is only known to end when there are at
  most \<open>2 ^ 31\<close> restart points; the outer option is \<^const>\<open>None\<close> when it does not end.
\<close>

partial_function (option) binary_seek ::
    "(bytes \<Rightarrow> bytes \<Rightarrow> int) \<Rightarrow> bytes \<Rightarrow> block_iter \<Rightarrow> u32 \<Rightarrow> u32 \<Rightarrow> u32 option option" where
  "binary_seek cmp target it left right =
     (if left < right then
        let mid = (left + right + 1) div 2;
            region_offset = GetRestartPoint it mid
        in case DecodeEntry (bi_data it) (unat region_offset) (unat (bi_restarts it)) of
             None \<Rightarrow> Some None
           | Some (key_ptr, shared, non_shared, value_length) \<Rightarrow>
               if shared \<noteq> 0 then Some None
               else if cmp (take (unat non_shared) (drop key_ptr (bi_data it))) target < 0
               then binary_seek cmp target it mid right
               else binary_seek cmp target it left (mid - 1)
      else Some (Some left))"

function linear_seek :: "(bytes \<Rightarrow> bytes \<Rightarrow> int) \<Rightarrow> bytes \<Rightarrow> block_iter \<Rightarrow> block_iter" where
  "linear_seek cmp target it =
     (let (more, it') = ParseNextKey it
      in if \<not> more then it' else if cmp (bi_key it') target \<ge> 0 then it' else linear_seek cmp target it')"
  by pat_completeness auto
termination
  by (relation "measure (\<lambda>(cmp, target, it). unat (bi_restarts it) - unat (NextEntryOffset it))")
    (auto dest!: sym [of "(_, _)"] ParseNextKey_progress)

declare linear_seek.simps [simp del]

definition BlockIter_Seek :: "(bytes \<Rightarrow> bytes \<Rightarrow> int) \<Rightarrow> block_iter \<Rightarrow> bytes \<Rightarrow> block_iter option" where
  "BlockIter_Seek cmp it target =
     (case binary_seek cmp target it 0 (bi_num_restarts it - 1) of
        None \<Rightarrow> None
      | Some None \<Rightarrow> Some (CorruptionError it)
      | Some (Some left) \<Rightarrow> Some (linear_seek cmp target (SeekToRestartPoint it left)))"

datatype block_iterator = EmptyIterator status | BlockIter block_iter

definition Block_NewIterator :: "block \<Rightarrow> block_iterator" where
  "Block_NewIterator blk =
     (if blk_size blk < 4 then EmptyIterator (Status_Corruption (str ''bad block contents'') [])
      else
        let num_restarts = NumRestarts (blk_data blk) (blk_size blk)
        in if num_restarts = 0 then EmptyIterator Status_OK
           else BlockIter (Block_Iter (blk_data blk) (blk_restart_offset blk) num_restarts))"

end
