(* ===== verification/LDB_Iterator.thy ===== *)
theory LDB_Iterator
  imports LDB_Status
begin

text \<open>
  \<^verbatim>\<open>include/leveldb/iterator.h\<close> and \<^verbatim>\<open>table/iterator.cc\<close>. The abstract class is a record of its virtual
  functions over the state \<open>'i\<close> of an implementation; its contract is the locale \<open>entry_iterator\<close>: an
  iterator over a list of entries stands at a position, and is not valid exactly at the position
  behind the last entry. The clients of an iterator only use these laws.
\<close>

type_synonym entry = "bytes \<times> bytes"

record 'i iterator_class =
  it_Valid :: "'i \<Rightarrow> bool"
  it_SeekToFirst :: "'i \<Rightarrow> 'i"
  it_SeekToLast :: "'i \<Rightarrow> 'i"
  it_Seek :: "'i \<Rightarrow> bytes \<Rightarrow> 'i"
  it_Next :: "'i \<Rightarrow> 'i"
  it_Prev :: "'i \<Rightarrow> 'i"
  it_key :: "'i \<Rightarrow> bytes"
  it_value :: "'i \<Rightarrow> bytes"
  it_status :: "'i \<Rightarrow> status"

subsection \<open>Cleanup functions\<close>

text \<open>
  The functions to run when an iterator is destroyed: the one stored in the iterator itself, and a
  list of further ones. A function with its two arguments is a state transformer.
\<close>

record 's cleanups =
  cl_function :: "('s \<Rightarrow> 's) option"
  cl_next :: "('s \<Rightarrow> 's) list"

definition Iterator_new :: "'s cleanups" where
  "Iterator_new = \<lparr>cl_function = None, cl_next = []\<rparr>"

definition RegisterCleanup :: "('s \<Rightarrow> 's) \<Rightarrow> 's cleanups \<Rightarrow> 's cleanups" where
  "RegisterCleanup func c =
     (case cl_function c of
        None \<Rightarrow> c\<lparr>cl_function := Some func\<rparr>
      | Some f \<Rightarrow> c\<lparr>cl_next := func # cl_next c\<rparr>)"

definition Iterator_destroy :: "'s cleanups \<Rightarrow> 's \<Rightarrow> 's" where
  "Iterator_destroy c s =
     (case cl_function c of None \<Rightarrow> s | Some f \<Rightarrow> fold (\<lambda>g. g) (cl_next c) (f s))"

text \<open>The first function registered runs first, the others in the reverse order of registration.\<close>

lemma cleanups_registered:
  "fs \<noteq> [] \<Longrightarrow> fold RegisterCleanup fs Iterator_new = \<lparr>cl_function = Some (hd fs), cl_next = rev (tl fs)\<rparr>"
proof (induction fs rule: rev_induct)
  case (snoc f fs)
  then show ?case by (cases fs) (simp_all add: RegisterCleanup_def Iterator_new_def)
qed simp

lemma cleanups_run:
  "Iterator_destroy (fold RegisterCleanup (f # fs) Iterator_new) s = fold (\<lambda>g. g) (rev fs) (f s)"
  using cleanups_registered [of "f # fs"] by (simp add: Iterator_destroy_def)

subsection \<open>The empty iterator\<close>

text \<open>Its state is its status. The functions that assert \<^verbatim>\<open>false\<close> are never called on it.\<close>

definition EmptyIterator_class :: "status iterator_class" where
  "EmptyIterator_class =
     \<lparr>it_Valid = (\<lambda>s. False), it_SeekToFirst = (\<lambda>s. s), it_SeekToLast = (\<lambda>s. s), it_Seek = (\<lambda>s t. s),
      it_Next = (\<lambda>s. s), it_Prev = (\<lambda>s. s), it_key = (\<lambda>s. []), it_value = (\<lambda>s. []), it_status = (\<lambda>s. s)\<rparr>"

definition NewEmptyIterator :: status where
  "NewEmptyIterator = Status_OK"

definition NewErrorIterator :: "status \<Rightarrow> status" where
  "NewErrorIterator s = s"

subsection \<open>The contract\<close>

text \<open>The position a seek ends at: the first key that is not smaller than the target.\<close>

definition first_ge :: "(bytes \<Rightarrow> bytes \<Rightarrow> int) \<Rightarrow> entry list \<Rightarrow> bytes \<Rightarrow> nat" where
  "first_ge cmp es target = length (takeWhile (\<lambda>e. cmp (fst e) target < 0) es)"

lemma first_ge_le: "first_ge cmp es target \<le> length es"
  by (simp add: first_ge_def length_takeWhile_le)

lemma first_ge_before: "i < first_ge cmp es t \<Longrightarrow> cmp (fst (es ! i)) t < 0"
  unfolding first_ge_def using nth_mem [of i "takeWhile (\<lambda>e. cmp (fst e) t < 0) es"]
  by (auto dest: set_takeWhileD simp: takeWhile_nth)

lemma first_ge_here: "first_ge cmp es t < length es \<Longrightarrow> \<not> cmp (fst (es ! first_ge cmp es t)) t < 0"
  unfolding first_ge_def by (drule nth_length_takeWhile)

text \<open>Walking forward or backward, as the clients do, for at most \<open>n\<close> entries.\<close>

fun collect :: "'i iterator_class \<Rightarrow> nat \<Rightarrow> 'i \<Rightarrow> entry list" where
  "collect ops 0 it = []"
| "collect ops (Suc n) it =
     (if it_Valid ops it then (it_key ops it, it_value ops it) # collect ops n (it_Next ops it) else [])"

fun collect_back :: "'i iterator_class \<Rightarrow> nat \<Rightarrow> 'i \<Rightarrow> entry list" where
  "collect_back ops 0 it = []"
| "collect_back ops (Suc n) it =
     (if it_Valid ops it then (it_key ops it, it_value ops it) # collect_back ops n (it_Prev ops it) else [])"

text \<open>
  What a client may do with an iterator, and an abstract cursor over a list of entries that does the same: \<open>None\<close>
  when \<^verbatim>\<open>Next\<close> or \<^verbatim>\<open>Prev\<close> is called on a cursor that is not valid.
\<close>

datatype cursor_op = ToFirst | ToLast | To bytes | Forward | Backward

fun cursor_move :: "(bytes \<Rightarrow> bytes \<Rightarrow> int) \<Rightarrow> entry list \<Rightarrow> cursor_op \<Rightarrow> nat \<Rightarrow> nat option" where
  "cursor_move cmp es ToFirst p = Some 0"
| "cursor_move cmp es ToLast p = Some (length es - 1)"
| "cursor_move cmp es (To t) p = Some (first_ge cmp es t)"
| "cursor_move cmp es Forward p = (if p < length es then Some (Suc p) else None)"
| "cursor_move cmp es Backward p = (if p < length es then Some (if p = 0 then length es else p - 1) else None)"

fun cursor_run :: "(bytes \<Rightarrow> bytes \<Rightarrow> int) \<Rightarrow> entry list \<Rightarrow> cursor_op list \<Rightarrow> nat \<Rightarrow> nat option" where
  "cursor_run cmp es [] p = Some p"
| "cursor_run cmp es (a # as) p = (case cursor_move cmp es a p of None \<Rightarrow> None | Some p \<Rightarrow> cursor_run cmp es as p)"

definition move_targets :: "cursor_op list \<Rightarrow> bytes list" where
  "move_targets as = concat (map (\<lambda>a. case a of To t \<Rightarrow> [t] | _ \<Rightarrow> []) as)"

fun it_move :: "'i iterator_class \<Rightarrow> cursor_op \<Rightarrow> 'i \<Rightarrow> 'i" where
  "it_move ops ToFirst it = it_SeekToFirst ops it"
| "it_move ops ToLast it = it_SeekToLast ops it"
| "it_move ops (To t) it = it_Seek ops it t"
| "it_move ops Forward it = it_Next ops it"
| "it_move ops Backward it = it_Prev ops it"

definition it_run :: "'i iterator_class \<Rightarrow> cursor_op list \<Rightarrow> 'i \<Rightarrow> 'i" where
  "it_run ops as it = fold (it_move ops) as it"

locale entry_iterator =
  fixes ops :: "'i iterator_class"
    and cmp :: "bytes \<Rightarrow> bytes \<Rightarrow> int"
    and entries :: "entry list"
    and stands :: "'i \<Rightarrow> nat \<Rightarrow> bool"
    and target_ok :: "bytes \<Rightarrow> bool"
  assumes stands_le: "stands it i \<Longrightarrow> i \<le> length entries"
    and valid_iff: "stands it i \<Longrightarrow> it_Valid ops it \<longleftrightarrow> i < length entries"
    and key_at: "stands it i \<Longrightarrow> i < length entries \<Longrightarrow> it_key ops it = fst (entries ! i)"
    and value_at: "stands it i \<Longrightarrow> i < length entries \<Longrightarrow> it_value ops it = snd (entries ! i)"
    and status_at: "stands it i \<Longrightarrow> ok (it_status ops it)"
    and next_at: "stands it i \<Longrightarrow> i < length entries \<Longrightarrow> stands (it_Next ops it) (Suc i)"
    and prev_at: "stands it i \<Longrightarrow> i < length entries \<Longrightarrow>
      stands (it_Prev ops it) (if i = 0 then length entries else i - 1)"
    and first_at: "stands it i \<Longrightarrow> stands (it_SeekToFirst ops it) 0"
    and last_at: "stands it i \<Longrightarrow> stands (it_SeekToLast ops it) (length entries - 1)"
    and seek_at: "stands it i \<Longrightarrow> target_ok target \<Longrightarrow>
      stands (it_Seek ops it target) (first_ge cmp entries target)"
begin

lemma collect_at:
  "stands it i \<Longrightarrow> length entries - i \<le> n \<Longrightarrow> collect ops n it = drop i entries"
proof (induction n arbitrary: it i)
  case 0
  then show ?case using stands_le [of it i] by simp
next
  case (Suc n)
  show ?case
  proof (cases "i < length entries")
    case True
    then have "collect ops n (it_Next ops it) = drop (Suc i) entries"
      using Suc.prems next_at [OF Suc.prems(1) True] by (intro Suc.IH) auto
    then show ?thesis
      using True Suc.prems(1) by (simp add: valid_iff key_at value_at Cons_nth_drop_Suc)
  next
    case False
    then show ?thesis using Suc.prems by (simp add: valid_iff)
  qed
qed

lemma collect_from_first:
  "stands it i \<Longrightarrow> length entries \<le> n \<Longrightarrow> collect ops n (it_SeekToFirst ops it) = entries"
  using collect_at [OF first_at, of it i n] by simp

lemma collect_back_at:
  "stands it i \<Longrightarrow> i < length entries \<Longrightarrow> Suc i \<le> n \<Longrightarrow>
   collect_back ops n it = rev (take (Suc i) entries)"
proof (induction n arbitrary: it i)
  case 0
  then show ?case by simp
next
  case (Suc n)
  have step: "collect_back ops (Suc n) it = entries ! i # collect_back ops n (it_Prev ops it)"
    using Suc.prems by (simp add: valid_iff key_at value_at)
  show ?case
  proof (cases i)
    case 0
    then have "stands (it_Prev ops it) (length entries)" using prev_at [OF Suc.prems(1,2)] by simp
    then have "collect_back ops n (it_Prev ops it) = []"
      by (cases n) (simp_all add: valid_iff)
    then show ?thesis using step Suc.prems(2) 0 by (simp add: take_Suc_conv_app_nth)
  next
    case (Suc j)
    then have "collect_back ops n (it_Prev ops it) = rev (take (Suc j) entries)"
      using Suc.prems prev_at [OF Suc.prems(1,2)] by (intro Suc.IH) simp_all
    moreover have "take (Suc i) entries = take (Suc j) entries @ [entries ! i]"
      unfolding Suc using Suc.prems(2) Suc by (intro take_Suc_conv_app_nth) simp
    ultimately show ?thesis using step by simp
  qed
qed

lemma collect_from_last:
  assumes "stands it i" and "length entries \<le> n"
  shows "collect_back ops n (it_SeekToLast ops it) = rev entries"
proof (cases "entries = []")
  case True
  then show ?thesis using last_at [OF assms(1)] by (cases n) (simp_all add: valid_iff)
next
  case False
  then show ?thesis
    using collect_back_at [OF last_at [OF assms(1)], of n] assms(2) by simp
qed

lemma collect_from_seek:
  assumes "stands it i" and "target_ok target" and "length entries \<le> n"
  shows "collect ops n (it_Seek ops it target) = dropWhile (\<lambda>e. cmp (fst e) target < 0) entries"
proof -
  have "length entries - first_ge cmp entries target \<le> n" using assms(3) by simp
  then show ?thesis
    using collect_at [OF seek_at [OF assms(1,2)], of n]
    by (simp add: first_ge_def dropWhile_eq_drop)
qed

lemma move_at:
  "stands it p \<Longrightarrow> cursor_move cmp entries a p = Some q \<Longrightarrow> \<forall>t \<in> set (move_targets [a]). target_ok t \<Longrightarrow> stands (it_move ops a it) q"
  by (cases a) (auto simp: move_targets_def simp del: One_nat_def intro: first_at last_at seek_at next_at dest: prev_at split: if_splits)

lemma run_at:
  "stands it p \<Longrightarrow> cursor_run cmp entries as p = Some q \<Longrightarrow> \<forall>t \<in> set (move_targets as). target_ok t \<Longrightarrow> stands (it_run ops as it) q"
proof (induction as arbitrary: it p)
  case (Cons a as)
  obtain p' where p': "cursor_move cmp entries a p = Some p'" "cursor_run cmp entries as p' = Some q"
    using Cons.prems(2) by (auto split: option.splits)
  have targets: "\<forall>t \<in> set (move_targets [a]). target_ok t" "\<forall>t \<in> set (move_targets as). target_ok t"
    using Cons.prems(3) by (simp_all add: move_targets_def)
  show ?case using Cons.IH [OF move_at [OF Cons.prems(1) p'(1) targets(1)] p'(2) targets(2)] by (simp add: it_run_def)
qed (simp add: it_run_def)

text \<open>A run that begins with a seek does not depend on where the iterator stood.\<close>

lemma run_from_anywhere:
  assumes "stands it p" and "as \<noteq> []" and "cursor_run cmp entries as (length entries) = Some q" and "\<forall>t \<in> set (move_targets as). target_ok t"
  shows "stands (it_run ops as it) q"
proof -
  have "cursor_run cmp entries as p = Some q"
    using assms(2,3) by (cases as) (auto split: option.splits cursor_op.splits elim: cursor_move.elims)
  then show ?thesis using run_at assms(1,4) by blast
qed

end

interpretation empty_iterator: entry_iterator EmptyIterator_class cmp "[]" "\<lambda>s i. ok s \<and> i = 0" "\<lambda>t. True"
  for cmp :: "bytes \<Rightarrow> bytes \<Rightarrow> int"
  by unfold_locales (simp_all add: EmptyIterator_class_def first_ge_def)

end
