(* ===== verification/LDB_BlockSpec.thy ===== *)
theory LDB_BlockSpec
  imports LDB_Block LDB_Iterator
begin

text \<open>
  The contents of a block as a function of its entries and the restart interval \<open>K\<close>; the builder
  produces exactly these bytes, and the iterator over them meets the contract \<open>entry_iterator\<close>.
\<close>

unbundle bit_operations_syntax

subsection \<open>The bytes of a block\<close>

definition entry_bytes :: "nat \<Rightarrow> entry \<Rightarrow> bytes" where
  "entry_bytes sh e =
     EncodeVarint32 (word_of_nat sh) @ EncodeVarint32 (word_of_nat (length (fst e) - sh)) @
     EncodeVarint32 (word_of_nat (length (snd e))) @ drop sh (fst e) @ snd e"

definition shared_at :: "nat \<Rightarrow> entry list \<Rightarrow> nat \<Rightarrow> nat" where
  "shared_at K es i = (if i mod K = 0 then 0 else shared_prefix (fst (es ! (i - 1))) (fst (es ! i)))"

definition encs :: "nat \<Rightarrow> entry list \<Rightarrow> bytes list" where
  "encs K es = map (\<lambda>i. entry_bytes (shared_at K es i) (es ! i)) [0..<length es]"

definition entry_off :: "nat \<Rightarrow> entry list \<Rightarrow> nat \<Rightarrow> nat" where
  "entry_off K es i = length (concat (take i (encs K es)))"

definition num_restart_points :: "nat \<Rightarrow> nat \<Rightarrow> nat" where
  "num_restart_points K n = (if n = 0 then 1 else (n - 1) div K + 1)"

definition restart_points :: "nat \<Rightarrow> entry list \<Rightarrow> u32 list" where
  "restart_points K es =
     map (\<lambda>j. word_of_nat (entry_off K es (j * K))) [0..<num_restart_points K (length es)]"

definition block_bytes :: "nat \<Rightarrow> entry list \<Rightarrow> bytes" where
  "block_bytes K es = concat (encs K es) @ concat (map EncodeFixed32 (restart_points K es)) @
     EncodeFixed32 (word_of_nat (num_restart_points K (length es)))"

lemma length_encs [simp]: "length (encs K es) = length es"
  by (simp add: encs_def)

lemma encs_snoc:
  "encs K (es @ [e]) = encs K es @ [entry_bytes (shared_at K (es @ [e]) (length es)) e]"
proof -
  have "entry_bytes (shared_at K (es @ [e]) i) ((es @ [e]) ! i) = entry_bytes (shared_at K es i) (es ! i)"
    if "i < length es" for i
    using that by (simp add: shared_at_def nth_append less_imp_diff_less)
  then show ?thesis by (simp add: encs_def nth_append cong: map_cong)
qed

lemma entry_off_snoc: "i \<le> length es \<Longrightarrow> entry_off K (es @ [e]) i = entry_off K es i"
  by (simp add: entry_off_def encs_snoc)

lemma entry_off_length: "entry_off K es (length es) = length (concat (encs K es))"
  by (simp add: entry_off_def)

lemma num_restart_points_snoc:
  assumes "0 < K" and "0 < n"
  shows "num_restart_points K (Suc n) =
    (if n mod K = 0 then Suc (num_restart_points K n) else num_restart_points K n)"
proof -
  obtain m where n: "n = Suc m" using assms(2) by (cases n) auto
  show ?thesis unfolding n by (simp add: num_restart_points_def div_Suc)
qed

lemma num_restart_points_mult:
  assumes "0 < K" and "j < num_restart_points K n"
  shows "j * K \<le> n" and "0 < n \<Longrightarrow> j * K < n"
proof -
  have "j * K \<le> (n - 1) div K * K" if "0 < n" using assms that by (simp add: num_restart_points_def)
  also have "(n - 1) div K * K \<le> n - 1" by simp
  finally have *: "j * K < n" if "0 < n" using that by fastforce
  show "j * K \<le> n" using * assms by (cases "n = 0") (auto simp: num_restart_points_def)
  show "0 < n \<Longrightarrow> j * K < n" by (rule *)
qed

lemma restart_points_snoc:
  assumes "0 < K"
  shows "restart_points K (es @ [e]) = (if es \<noteq> [] \<and> length es mod K = 0
    then restart_points K es @ [word_of_nat (length (concat (encs K es)))] else restart_points K es)"
proof (cases "es = []")
  case True
  then show ?thesis by (simp add: restart_points_def num_restart_points_def entry_off_def encs_def)
next
  case False
  let ?n = "num_restart_points K (length es)"
  have old: "map (\<lambda>j. word_of_nat (entry_off K (es @ [e]) (j * K)) :: u32) [0..<?n] = restart_points K es"
    using num_restart_points_mult(1) [OF assms] by (simp add: restart_points_def entry_off_snoc)
  have new: "?n * K = length es" if "length es mod K = 0"
  proof -
    obtain m where m: "length es = Suc m" using False by (cases es) auto
    then have "?n = length es div K" using that assms by (simp add: num_restart_points_def div_Suc)
    then show ?thesis using that by (simp add: mod_0_imp_dvd)
  qed
  show ?thesis
    using num_restart_points_snoc [OF assms, of "length es"] False old new
    by (simp add: restart_points_def [of K "es @ [e]"] entry_off_snoc entry_off_length)
qed

lemma take_shared_prefix: "take (shared_prefix a b) a = take (shared_prefix a b) b"
  by (induction a b rule: shared_prefix.induct) simp_all

lemma shared_prefix_rebuild [simp]: "take (shared_prefix a b) a @ drop (shared_prefix a b) b = b"
  by (metis append_take_drop_id take_shared_prefix)

lemma shared_prefix_le: "shared_prefix a b \<le> length a" "shared_prefix a b \<le> length b"
  by (induction a b rule: shared_prefix.induct) simp_all

subsection \<open>The builder\<close>

definition built :: "nat \<Rightarrow> entry list \<Rightarrow> block_builder \<Rightarrow> bool" where
  "built K es b \<longleftrightarrow> bb_buffer b = concat (encs K es) \<and> bb_restarts b = restart_points K es \<and>
     bb_counter b = (if es = [] then 0 else (length es - 1) mod K + 1) \<and>
     bb_last_key b = (if es = [] then [] else fst (last es)) \<and> \<not> bb_finished b"

lemma built_new: "built K [] new_block_builder" and built_Reset: "built K [] (BlockBuilder_Reset b)"
  by (simp_all add: built_def new_block_builder_def BlockBuilder_Reset_def encs_def restart_points_def
      num_restart_points_def entry_off_def)

lemma counter_less_iff:
  assumes "0 < K" and "es \<noteq> []"
  shows "(length es - 1) mod K + 1 < K \<longleftrightarrow> length es mod K \<noteq> 0"
    and "length es mod K \<noteq> 0 \<Longrightarrow> (length es - 1) mod K + 1 = length es mod K"
    and "length es mod K = 0 \<Longrightarrow> (length es - 1) mod K + 1 = K"
proof -
  obtain m where m: "length es = Suc m" using assms(2) by (cases es) auto
  have "m mod K < K" using assms(1) by simp
  then show "(length es - 1) mod K + 1 < K \<longleftrightarrow> length es mod K \<noteq> 0"
    "length es mod K \<noteq> 0 \<Longrightarrow> (length es - 1) mod K + 1 = length es mod K"
    "length es mod K = 0 \<Longrightarrow> (length es - 1) mod K + 1 = K"
    unfolding m by (auto simp: mod_Suc split: if_splits)
qed

lemma built_Add:
  assumes "built K es b" and "0 < K"
  shows "built K (es @ [(k, v)]) (BlockBuilder_Add K b k v)"
proof -
  let ?sh = "shared_at K (es @ [(k, v)]) (length es)"
  let ?restart = "es \<noteq> [] \<and> length es mod K = 0"
  have c: "bb_counter b < K \<longleftrightarrow> \<not> ?restart"
    using assms counter_less_iff(1) [OF assms(2)] by (auto simp: built_def)
  have sh: "?sh = (if ?restart then 0 else shared_prefix (bb_last_key b) k)"
    using assms(1) by (auto simp: shared_at_def built_def nth_append last_conv_nth)
  have cnt: "(if ?restart then 0 else bb_counter b) + 1 = (length (es @ [(k, v)]) - 1) mod K + 1"
    using assms(1) counter_less_iff(2) [OF assms(2), of es] by (auto simp: built_def)
  define b' where "b' = (if ?restart
    then b\<lparr>bb_restarts := bb_restarts b @ [word_of_nat (length (bb_buffer b))], bb_counter := 0\<rparr> else b)"
  have "BlockBuilder_Add K b k v = b'\<lparr>bb_buffer := bb_buffer b @ entry_bytes ?sh (k, v),
      bb_last_key := k, bb_counter := bb_counter b' + 1\<rparr>"
    using c sh
    by (cases ?restart) (auto simp: BlockBuilder_Add_def b'_def entry_bytes_def PutVarint32_def Let_def)
  moreover have "bb_counter b' + 1 = (length (es @ [(k, v)]) - 1) mod K + 1"
    using cnt by (auto simp: b'_def split: if_splits)
  moreover have "bb_restarts b' = restart_points K (es @ [(k, v)])"
    using assms restart_points_snoc [OF assms(2), of es "(k, v)"] by (simp add: b'_def built_def)
  ultimately show ?thesis
    using assms(1) by (simp add: built_def encs_snoc b'_def)
qed

definition build_block :: "nat \<Rightarrow> entry list \<Rightarrow> block_builder \<Rightarrow> block_builder" where
  "build_block K es b = fold (\<lambda>(k, v) b. BlockBuilder_Add K b k v) es b"

lemma built_build_block:
  "built K es b \<Longrightarrow> 0 < K \<Longrightarrow> built K (es @ fs) (build_block K fs b)"
  unfolding build_block_def
proof (induction fs arbitrary: es b)
  case (Cons f fs)
  obtain k v where f: "f = (k, v)" by (cases f)
  show ?case using Cons.IH [OF built_Add [OF Cons.prems, of k v] Cons.prems(2)] by (simp add: f)
qed simp

lemma Finish_built: "built K es b \<Longrightarrow> fst (BlockBuilder_Finish b) = block_bytes K es"
  unfolding BlockBuilder_Finish_def fold_PutFixed32 Let_def
  by (simp add: PutFixed32_def built_def block_bytes_def) (simp add: restart_points_def)

subsection \<open>Entries in the block\<close>

text \<open>The hypotheses under which the offsets of a block fit their fields.\<close>

definition block_ok :: "nat \<Rightarrow> entry list \<Rightarrow> bool" where
  "block_ok K es \<longleftrightarrow> 0 < K \<and> length (block_bytes K es) < 2 ^ 32"

lemma EncodeVarint32_nonempty: "length (EncodeVarint32 w) \<ge> 1"
  using length_EncodeVarint(2) [of w] by simp

lemma length_entry_bytes: "length (entry_bytes sh e) \<ge> 3 + length (drop sh (fst e)) + length (snd e)"
  using EncodeVarint32_nonempty [of "word_of_nat sh"]
    EncodeVarint32_nonempty [of "word_of_nat (length (fst e) - sh)"]
    EncodeVarint32_nonempty [of "word_of_nat (length (snd e))"]
  by (simp add: entry_bytes_def)

lemma entry_off_Suc:
  "i < length es \<Longrightarrow> entry_off K es (Suc i) = entry_off K es i + length (entry_bytes (shared_at K es i) (es ! i))"
  by (simp add: entry_off_def take_Suc_conv_app_nth encs_def)

lemma entry_off_mono: "i \<le> j \<Longrightarrow> entry_off K es i \<le> entry_off K es j"
  unfolding entry_off_def by (rule starts_mono)

lemma entry_off_strict:
  assumes "i < j" and "j \<le> length es"
  shows "entry_off K es i < entry_off K es j"
proof -
  have "entry_off K es i < entry_off K es (Suc i)"
    using assms length_entry_bytes [of "shared_at K es i" "es ! i"] by (auto simp: entry_off_Suc)
  also have "\<dots> \<le> entry_off K es j" using assms(1) by (intro entry_off_mono) simp
  finally show ?thesis .
qed

lemma entry_off_less_iff:
  "i \<le> length es \<Longrightarrow> j \<le> length es \<Longrightarrow> entry_off K es i < entry_off K es j \<longleftrightarrow> i < j"
  by (meson entry_off_mono entry_off_strict not_le)

lemma entry_off_0 [simp]: "entry_off K es 0 = 0"
  by (simp add: entry_off_def)

lemma length_block_bytes:
  "length (block_bytes K es) =
     entry_off K es (length es) + 4 * num_restart_points K (length es) + 4"
proof -
  have "length (concat (map EncodeFixed32 rs)) = 4 * length rs" for rs
    by (rule length_Fixed32_array)
  then show ?thesis
    by (simp only: block_bytes_def length_append entry_off_length) (simp add: restart_points_def)
qed

lemma entry_off_small: "block_ok K es \<Longrightarrow> entry_off K es i < 2 ^ 32"
proof -
  assume "block_ok K es"
  then have "entry_off K es (length es) < 2 ^ 32" by (simp add: block_ok_def length_block_bytes)
  moreover have "entry_off K es i \<le> entry_off K es (length es)"
  proof (cases "i \<le> length es")
    case False
    then have "entry_off K es i = entry_off K es (length es)" by (simp add: entry_off_def)
    then show ?thesis by simp
  qed (rule entry_off_mono)
  ultimately show ?thesis by linarith
qed

lemma unat_entry_off [simp]: "block_ok K es \<Longrightarrow> unat (word_of_nat (entry_off K es i) :: u32) = entry_off K es i"
  using entry_off_small by simp

lemma drop_entry_off:
  assumes "i < length es"
  shows "drop (entry_off K es i) (concat (encs K es)) =
    entry_bytes (shared_at K es i) (es ! i) @ concat (drop (Suc i) (encs K es))"
proof -
  have i: "i < length (encs K es)" using assms by simp
  have "encs K es ! i = entry_bytes (shared_at K es i) (es ! i)" using assms by (simp add: encs_def)
  then show ?thesis
    unfolding entry_off_def by (subst concat_split_nth [OF i]) simp
qed

lemma EncodeVarint32_first:
  "(EncodeVarint32 w @ rest) ! 0 < 128 \<longleftrightarrow> w < 128"
  "w < 128 \<Longrightarrow> EncodeVarint32 w = [ucast w]"
proof -
  show one: "w < 128 \<Longrightarrow> EncodeVarint32 w = [ucast w]"
    by (simp add: EncodeVarint32_def)
  show "(EncodeVarint32 w @ rest) ! 0 < 128 \<longleftrightarrow> w < 128"
  proof (cases "w < 128")
    case True
    then have "unat (ucast w :: byte) = unat w"
      by (simp add: word_less_nat_alt unsigned_ucast_eq take_bit_nat_eq_self_iff)
    then show ?thesis using True one by (simp add: word_less_nat_alt)
  next
    case False
    have "unat (word_of_nat (unat w mod 128 + 128) :: byte) = unat w mod 128 + 128"
    proof (rule unat_word_of_nat_small)
      have "unat w mod 128 < 128" by simp
      then show "unat w mod 128 + 128 < 2 ^ LENGTH(8)" by simp
    qed
    then have "\<not> (word_of_nat (unat w mod 128 + 128) :: byte) < 128"
      by (simp only: word_less_nat_alt) simp
    moreover have "128 \<le> unat w" using False by (simp add: word_less_nat_alt)
    ultimately show ?thesis using False unfolding EncodeVarint32_spec varint_spec_simps(2) [OF \<open>128 \<le> unat w\<close>]
      by simp
  qed
qed

lemma or_less_128:
  "(ucast (x :: byte) OR ucast (y :: byte) OR ucast (z :: byte) :: u32) < 128 \<longleftrightarrow> x < 128 \<and> y < 128 \<and> z < 128"
proof -
  have d: "(w :: u32) < 128 \<longleftrightarrow> drop_bit 7 w = 0" for w
  proof -
    have "drop_bit 7 w = 0 \<longleftrightarrow> unat (drop_bit 7 w) = 0" by (simp add: unat_eq_0)
    also have "\<dots> \<longleftrightarrow> unat w div 128 = 0" by (simp add: unat_drop_bit_eq drop_bit_eq_div unat_div)
    also have "\<dots> \<longleftrightarrow> w < 128" by (simp add: word_less_nat_alt div_eq_0_iff)
    finally show ?thesis by simp
  qed
  have u: "(ucast x :: u32) < 128 \<longleftrightarrow> x < 128" for x :: byte
  proof -
    have "unat (ucast x :: u32) = unat x"
      using unat_bounds(1) [of x] by (simp add: unsigned_ucast_eq take_bit_nat_eq_self_iff)
    then show ?thesis by (simp add: word_less_nat_alt)
  qed
  have "(drop_bit 7 (ucast x OR ucast y OR ucast z :: u32) = 0) \<longleftrightarrow>
      drop_bit 7 (ucast x :: u32) = 0 \<and> drop_bit 7 (ucast y :: u32) = 0 \<and> drop_bit 7 (ucast z :: u32) = 0"
    by (simp only: drop_bit_or or_eq_0_iff)
  then show ?thesis by (simp only: d [symmetric] u)
qed

lemma DecodeEntry_encoded:
  assumes "take (limit - p) (drop p data) = EncodeVarint32 a @ EncodeVarint32 b @ EncodeVarint32 c @ rest"
    and "unat b + unat c \<le> length rest" and "limit < 2 ^ 32" and "limit \<le> length data"
  shows "DecodeEntry data p limit = Some (limit - length rest, a, b, c)"
proof -
  let ?bs = "EncodeVarint32 a @ EncodeVarint32 b @ EncodeVarint32 c @ rest"
  let ?n = "length (EncodeVarint32 a) + length (EncodeVarint32 b) + length (EncodeVarint32 c)"
  have n: "3 \<le> ?n"
    using EncodeVarint32_nonempty [of a] EncodeVarint32_nonempty [of b] EncodeVarint32_nonempty [of c] by linarith
  have "length (take (limit - p) (drop p data)) = limit - p" using assms(4) by simp
  then have len: "limit - p = ?n + length rest" using assms(1) by simp
  then have q: "limit - length rest = p + ?n" and p: "p + 3 \<le> limit" using n by linarith+
  have fast: "(ucast (?bs ! 0) OR ucast (?bs ! 1) OR ucast (?bs ! 2) :: u32) < 128 \<longleftrightarrow> a < 128 \<and> b < 128 \<and> c < 128"
  proof -
    have 0: "?bs ! 0 < 128 \<longleftrightarrow> a < 128" by (rule EncodeVarint32_first)
    have 1: "?bs ! 1 < 128 \<longleftrightarrow> b < 128" if "a < 128"
      using EncodeVarint32_first(1) [of b "EncodeVarint32 c @ rest"] EncodeVarint32_first(2) [OF that] by simp
    have 2: "?bs ! 2 < 128 \<longleftrightarrow> c < 128" if "a < 128" "b < 128"
      using EncodeVarint32_first(1) [of c rest] EncodeVarint32_first(2) [OF that(1)] EncodeVarint32_first(2) [OF that(2)]
      by simp
    show ?thesis unfolding or_less_128 using 0 1 2 by blast
  qed
  have small: "unat (b + c) = unat b + unat c"
    using assms(2,3) len by (simp add: unat_word_ariths)
  have "unat (word_of_nat (limit - (p + ?n)) :: u32) = limit - (p + ?n)"
    using assms(3) by (intro unat_word_of_nat_small) simp
  then have check: "\<not> (word_of_nat (limit - (p + ?n)) :: u32) < b + c"
    using assms(2) small len by (simp only: word_less_nat_alt)
  show ?thesis
  proof (cases "a < 128 \<and> b < 128 \<and> c < 128")
    case True
    then have bs: "?bs = ucast a # ucast b # ucast c # rest" and n3: "?n = 3"
      by (simp_all add: EncodeVarint32_first(2))
    have u: "(ucast (ucast w :: byte) :: u32) = w" if "w < 128" for w
    proof -
      have "unat (take_bit 8 w) = unat w"
        using that by (simp add: word_less_nat_alt unsigned_take_bit_eq take_bit_nat_eq_self_iff)
      then show ?thesis
        by (simp add: word_unat_eq_iff unsigned_ucast_eq take_bit_nat_eq_self_iff)
    qed
    show ?thesis
      using fast True p check u q unfolding DecodeEntry_def Let_def assms(1) n3
      by (simp add: bs EncodeVarint32_first(2) del: of_nat_diff of_nat_add)
  next
    case False
    then show ?thesis
      using fast p check q unfolding DecodeEntry_def Let_def assms(1)
      by (auto simp: EncodeVarint_roundtrips add.assoc simp del: of_nat_diff of_nat_add)
  qed
qed

subsection \<open>The iterator\<close>

definition iter_for :: "nat \<Rightarrow> entry list \<Rightarrow> block_iter \<Rightarrow> bool" where
  "iter_for K es it \<longleftrightarrow> block_ok K es \<and> bi_data it = block_bytes K es \<and>
     bi_restarts it = word_of_nat (entry_off K es (length es)) \<and>
     bi_num_restarts it = word_of_nat (num_restart_points K (length es)) \<and> bi_status it = Status_OK"

text \<open>The restart index of an iterator at entry \<open>i\<close>: the restart point is not behind the entry.\<close>

definition index_for :: "nat \<Rightarrow> entry list \<Rightarrow> nat \<Rightarrow> u32 \<Rightarrow> bool" where
  "index_for K es i r \<longleftrightarrow> unat r < num_restart_points K (length es) \<and> unat r * K \<le> i"

text \<open>The iterator is about to parse entry \<open>i\<close>.\<close>

definition before :: "nat \<Rightarrow> entry list \<Rightarrow> nat \<Rightarrow> block_iter \<Rightarrow> bool" where
  "before K es i it \<longleftrightarrow> iter_for K es it \<and> i \<le> length es \<and>
     bi_value_off it + bi_value_len it = entry_off K es i \<and>
     (i mod K \<noteq> 0 \<longrightarrow> bi_key it = fst (es ! (i - 1))) \<and> index_for K es i (bi_restart_index it)"

text \<open>The iterator stands at entry \<open>i\<close>, or is not valid.\<close>

definition block_at :: "nat \<Rightarrow> entry list \<Rightarrow> block_iter \<Rightarrow> nat \<Rightarrow> bool" where
  "block_at K es it i \<longleftrightarrow> iter_for K es it \<and> i \<le> length es \<and>
     bi_current it = word_of_nat (entry_off K es i) \<and>
     (i < length es \<longrightarrow> bi_key it = fst (es ! i) \<and> bi_value it = snd (es ! i) \<and>
        bi_value_off it + bi_value_len it = entry_off K es (Suc i) \<and> index_for K es i (bi_restart_index it))"

lemma iter_for_update [simp]:
  "iter_for K es (it\<lparr>bi_current := a\<rparr>) = iter_for K es it"
  "iter_for K es (it\<lparr>bi_restart_index := b\<rparr>) = iter_for K es it"
  "iter_for K es (it\<lparr>bi_key := k\<rparr>) = iter_for K es it"
  "iter_for K es (it\<lparr>bi_value_off := n\<rparr>) = iter_for K es it"
  "iter_for K es (it\<lparr>bi_value_len := n\<rparr>) = iter_for K es it"
  by (simp_all add: iter_for_def)

lemma num_restart_points_small:
  "block_ok K es \<Longrightarrow> unat (word_of_nat (num_restart_points K (length es)) :: u32) = num_restart_points K (length es)"
  by (rule unat_word_of_nat_small) (simp add: block_ok_def length_block_bytes)

lemma GetRestartPoint_eq:
  assumes "iter_for K es it" and "unat r < num_restart_points K (length es)"
  shows "GetRestartPoint it r = word_of_nat (entry_off K es (unat r * K))"
proof -
  have "drop (entry_off K es (length es) + unat r * 4) (block_bytes K es) =
      drop (4 * unat r) (concat (map EncodeFixed32 (restart_points K es)) @
        EncodeFixed32 (word_of_nat (num_restart_points K (length es))))"
    by (simp add: block_bytes_def entry_off_length mult.commute flip: drop_drop)
  moreover have "unat r < length (restart_points K es)" using assms(2) by (simp add: restart_points_def)
  moreover have "unat (bi_restarts it) = entry_off K es (length es)"
    using assms(1) by (simp add: iter_for_def)
  ultimately have "GetRestartPoint it r = restart_points K es ! unat r"
    using assms(1) DecodeFixed32_array [of "unat r" "restart_points K es"]
    by (simp add: GetRestartPoint_def iter_for_def)
  then show ?thesis using assms(2) by (simp add: restart_points_def)
qed

lemma advance_index:
  assumes "iter_for K es it" and "bi_current it = word_of_nat (entry_off K es i)" and "i < length es"
    and "index_for K es i r"
  shows "index_for K es i (advance_restart_index it r)"
  using assms(4)
proof (induction "num_restart_points K (length es) - unat r" arbitrary: r rule: less_induct)
  case less
  let ?n = "num_restart_points K (length es)"
  have ok: "block_ok K es" and num: "unat (bi_num_restarts it) = ?n"
    using assms(1) num_restart_points_small [of K es] by (simp_all add: iter_for_def)
  show ?case
  proof (cases "r + 1 < bi_num_restarts it \<and> GetRestartPoint it (r + 1) < bi_current it")
    case True
    have "unat r < ?n" using less.prems by (simp add: index_for_def)
    moreover have "?n < 2 ^ 32" using num unat_bounds(2) [of "bi_num_restarts it"] by simp
    ultimately have r1: "unat (r + 1) = unat r + 1" by (simp add: unat_word_ariths)
    then have lt: "unat r + 1 < ?n" using True num by (simp add: word_less_nat_alt)
    have "entry_off K es ((unat r + 1) * K) < entry_off K es i"
      using True assms(2) GetRestartPoint_eq [OF assms(1), of "r + 1"] ok r1 lt by (simp add: word_less_nat_alt)
    moreover have "(unat r + 1) * K \<le> length es"
      using num_restart_points_mult(1) [of K "unat r + 1" "length es"] lt ok by (simp add: block_ok_def)
    ultimately have "(unat r + 1) * K < i" using assms(3) by (simp add: entry_off_less_iff)
    then have "index_for K es i (r + 1)" using lt r1 by (simp add: index_for_def)
    then have "index_for K es i (advance_restart_index it (r + 1))"
      using less.hyps [of "r + 1"] lt r1 by simp
    then show ?thesis using True by (subst advance_restart_index.simps) simp
  next
    case False
    then show ?thesis using less.prems by (subst advance_restart_index.simps) auto
  qed
qed

lemma Parse_end:
  assumes "before K es (length es) it"
  shows "\<exists>it'. ParseNextKey it = (False, it') \<and> block_at K es it' (length es)"
  using assms by (simp add: before_def ParseNextKey_def NextEntryOffset_def iter_for_def block_at_def Let_def)

lemma key_length_bound: "i < length es \<Longrightarrow> length (fst (es ! i)) \<le> entry_off K es (Suc i)"
proof (induction i)
  case 0
  then show ?case
    using length_entry_bytes [of 0 "es ! 0"] entry_off_Suc [of 0 es K] by (simp add: shared_at_def)
next
  case (Suc i)
  let ?sh = "shared_at K es (Suc i)"
  have "?sh \<le> length (fst (es ! i))" by (simp add: shared_at_def shared_prefix_le)
  then have "?sh \<le> entry_off K es (Suc i)" using Suc by simp
  moreover have "length (fst (es ! Suc i)) \<le> ?sh + length (drop ?sh (fst (es ! Suc i)))" by simp
  ultimately show ?case
    using length_entry_bytes [of ?sh "es ! Suc i"] entry_off_Suc [OF Suc.prems, of K] by linarith
qed

text \<open>What the decoder sees of entry \<open>i\<close>.\<close>

lemma Decode_at:
  assumes "block_ok K es" and "i < length es"
  defines "sh \<equiv> shared_at K es i" and "tail \<equiv> concat (drop (Suc i) (encs K es))"
  defines "rest \<equiv> drop sh (fst (es ! i)) @ snd (es ! i) @ tail"
  shows "DecodeEntry (block_bytes K es) (entry_off K es i) (entry_off K es (length es)) =
      Some (entry_off K es (length es) - length rest, word_of_nat sh,
        word_of_nat (length (fst (es ! i)) - sh), word_of_nat (length (snd (es ! i))))"
    and "entry_off K es (length es) = entry_off K es (Suc i) + length tail"
    and "drop (entry_off K es (length es) - length rest) (concat (encs K es)) = rest"
    and "length rest \<le> entry_off K es (length es)"
    and "sh \<le> length (fst (es ! i))"
    and "length (fst (es ! i)) < 2 ^ 32" and "length (snd (es ! i)) < 2 ^ 32"
proof -
  let ?e = "es ! i" and ?lim = "entry_off K es (length es)" and ?p = "entry_off K es i"
  have bytes: "drop ?p (concat (encs K es)) =
      EncodeVarint32 (word_of_nat sh) @ EncodeVarint32 (word_of_nat (length (fst ?e) - sh)) @
      EncodeVarint32 (word_of_nat (length (snd ?e))) @ rest"
    using drop_entry_off [OF assms(2), of K] by (simp add: entry_bytes_def sh_def tail_def rest_def)
  have data: "drop ?p (block_bytes K es) = drop ?p (concat (encs K es)) @
      concat (map EncodeFixed32 (restart_points K es)) @ EncodeFixed32 (word_of_nat (num_restart_points K (length es)))"
    using entry_off_mono [of i "length es" K es] assms(2) by (simp add: block_bytes_def entry_off_length)
  have lim: "length (drop ?p (concat (encs K es))) = ?lim - ?p" by (simp add: entry_off_length)
  then have seen: "take (?lim - ?p) (drop ?p (block_bytes K es)) =
      EncodeVarint32 (word_of_nat sh) @ EncodeVarint32 (word_of_nat (length (fst ?e) - sh)) @
      EncodeVarint32 (word_of_nat (length (snd ?e))) @ rest"
    unfolding data bytes [symmetric] by simp
  show sh: "sh \<le> length (fst ?e)"
    by (auto simp: sh_def shared_at_def shared_prefix_le)
  have restlen: "length rest \<le> ?lim - ?p" using lim unfolding bytes by simp
  then show rl: "length rest \<le> ?lim" by simp
  have small: "?lim < 2 ^ 32" using entry_off_small [OF assms(1)] .
  have l: "length (fst ?e) - sh < 2 ^ 32" "length (snd ?e) < 2 ^ 32"
    using rl small by (simp_all add: rest_def)
  show "length (fst ?e) < 2 ^ 32" "length (snd ?e) < 2 ^ 32"
    using l(2) key_length_bound [OF assms(2), of K] entry_off_small [OF assms(1), of "Suc i"] by simp_all
  have "unat (word_of_nat (length (fst ?e) - sh) :: u32) = length (fst ?e) - sh"
    "unat (word_of_nat (length (snd ?e)) :: u32) = length (snd ?e)"
    using l by (simp_all del: of_nat_diff)
  then have "unat (word_of_nat (length (fst ?e) - sh) :: u32) + unat (word_of_nat (length (snd ?e)) :: u32) \<le> length rest"
    by (simp add: rest_def del: of_nat_diff)
  moreover have "?lim \<le> length (block_bytes K es)" by (simp add: length_block_bytes)
  ultimately show "DecodeEntry (block_bytes K es) ?p ?lim =
      Some (?lim - length rest, word_of_nat sh, word_of_nat (length (fst ?e) - sh), word_of_nat (length (snd ?e)))"
    using DecodeEntry_encoded [OF seen _ small] by blast
  have "concat (encs K es) = concat (take (Suc i) (encs K es)) @ concat (drop (Suc i) (encs K es))"
    by (metis append_take_drop_id concat_append)
  then have "?lim = length (concat (take (Suc i) (encs K es)) @ concat (drop (Suc i) (encs K es)))"
    by (simp only: entry_off_length)
  then show "?lim = entry_off K es (Suc i) + length tail"
    by (simp add: entry_off_def tail_def)
  show "drop (?lim - length rest) (concat (encs K es)) = rest"
  proof -
    have "?lim - length rest = ?p + (length (drop ?p (concat (encs K es))) - length rest)"
      using lim restlen entry_off_mono [of i "length es" K es] assms(2) by simp
    then have "drop (?lim - length rest) (concat (encs K es)) =
        drop (length (drop ?p (concat (encs K es))) - length rest) (drop ?p (concat (encs K es)))"
      by (simp add: add.commute)
    then show ?thesis unfolding bytes by simp
  qed
qed

lemma Parse_next:
  assumes "before K es i it" and "i < length es"
  shows "\<exists>it'. ParseNextKey it = (True, it') \<and> block_at K es it' i \<and> before K es (Suc i) it'"
proof -
  let ?e = "es ! i" and ?lim = "entry_off K es (length es)"
  define sh where "sh = shared_at K es i"
  define rest where "rest = drop sh (fst ?e) @ snd ?e @ concat (drop (Suc i) (encs K es))"
  let ?q = "?lim - length rest"
  have for_it: "iter_for K es it" and ok: "block_ok K es" using assms(1) by (simp_all add: before_def iter_for_def)
  note dec = Decode_at [OF ok assms(2), folded sh_def, folded rest_def]
  have off: "NextEntryOffset it = word_of_nat (entry_off K es i)"
    using assms(1) by (simp add: NextEntryOffset_def before_def)
  have lt: "entry_off K es i < ?lim" using assms(2) by (simp add: entry_off_strict)
  have lim: "unat (bi_restarts it) = ?lim" and data: "bi_data it = block_bytes K es"
    using for_it by (simp_all add: iter_for_def)
  have tl: "drop ?q (block_bytes K es) = rest @ concat (map EncodeFixed32 (restart_points K es)) @
      EncodeFixed32 (word_of_nat (num_restart_points K (length es)))"
  proof -
    have "?q \<le> length (concat (encs K es))" by (simp add: entry_off_length)
    then show ?thesis using dec(3) by (simp add: block_bytes_def)
  qed
  have u: "unat (word_of_nat sh :: u32) = sh"
    "unat (word_of_nat (length (fst ?e) - sh) :: u32) = length (fst ?e) - sh"
    "unat (word_of_nat (length (snd ?e)) :: u32) = length (snd ?e)"
    using dec(5-7) by (simp_all del: of_nat_diff)
  have sh: "sh \<le> length (bi_key it)" "take sh (bi_key it) @ drop sh (fst ?e) = fst ?e"
    using assms(1) by (auto simp: sh_def shared_at_def before_def shared_prefix_le)
  have key: "take (length (fst ?e) - sh) (drop ?q (block_bytes K es)) = drop sh (fst ?e)"
    unfolding tl by (simp add: rest_def)
  have val: "take (length (snd ?e)) (drop (?q + (length (fst ?e) - sh)) (block_bytes K es)) = snd ?e"
    unfolding add.commute [of ?q] drop_drop [symmetric] tl by (simp add: rest_def)
  have pos: "?q + (length (fst ?e) - sh) + length (snd ?e) = entry_off K es (Suc i)"
    using dec(2,4) by (simp add: rest_def)
  define it1 where "it1 = it\<lparr>bi_current := NextEntryOffset it, bi_key := fst ?e,
    bi_value_off := ?q + (length (fst ?e) - sh), bi_value_len := length (snd ?e)\<rparr>"
  define it2 where "it2 = it1\<lparr>bi_restart_index := advance_restart_index it1 (bi_restart_index it)\<rparr>"
  have "ParseNextKey it = (True, it2)"
    using lt off dec(1) u sh key lim data ok
    by (simp add: ParseNextKey_def Let_def it2_def it1_def not_less del: of_nat_diff)
  moreover have "index_for K es i (bi_restart_index it2)"
    unfolding it2_def using assms off for_it advance_index [of K es it1 i "bi_restart_index it"]
    by (simp add: it1_def before_def)
  moreover have "bi_value it2 = snd ?e"
    using val data by (simp add: bi_value_def it2_def it1_def)
  ultimately show ?thesis
    using for_it off pos assms(2)
    by (intro exI [of _ it2]) (auto simp: block_at_def before_def it2_def it1_def index_for_def)
qed

lemma Restart_before:
  assumes "iter_for K es it" and "unat r < num_restart_points K (length es)"
  shows "before K es (unat r * K) (SeekToRestartPoint it r)"
  using assms GetRestartPoint_eq [OF assms] num_restart_points_mult(1) [of K "unat r" "length es"]
  by (simp add: before_def SeekToRestartPoint_def Let_def index_for_def iter_for_def block_ok_def
      flip: block_ok_def)
     (simp add: block_ok_def)

lemma parse_until_at:
  assumes "before K es i it" and "i < b" and "b \<le> length es"
  shows "block_at K es (parse_until it (word_of_nat (entry_off K es b))) (b - 1)"
  using assms
proof (induction "b - i" arbitrary: i it)
  case 0
  then show ?case by simp
next
  case (Suc n)
  obtain it' where it': "ParseNextKey it = (True, it')" "block_at K es it' i" "before K es (Suc i) it'"
    using Parse_next [OF Suc.prems(1)] Suc.prems(2,3) by auto
  have ok: "block_ok K es" using it'(2) by (simp add: block_at_def iter_for_def)
  have "NextEntryOffset it' = word_of_nat (entry_off K es (Suc i))"
    using it'(3) by (simp add: NextEntryOffset_def before_def)
  then have lt: "NextEntryOffset it' < word_of_nat (entry_off K es b) \<longleftrightarrow> Suc i < b"
    using ok Suc.prems(2,3) by (simp add: word_less_nat_alt entry_off_less_iff)
  show ?case
  proof (cases "Suc i < b")
    case True
    then have "block_at K es (parse_until it' (word_of_nat (entry_off K es b))) (b - 1)"
      using Suc.hyps(1) [OF _ it'(3) True] Suc.hyps(2) Suc.prems(3) by simp
    then show ?thesis using it'(1) lt True by (subst parse_until.simps) simp
  next
    case False
    then have "b - 1 = i" using Suc.prems(2) by simp
    then show ?thesis using it' lt False by (subst parse_until.simps) simp
  qed
qed

lemma parse_until_empty:
  assumes "before K es (length es) it"
  shows "block_at K es (parse_until it bound) (length es)"
  using Parse_end [OF assms] by (subst parse_until.simps) auto

lemma prev_restart_at:
  assumes "iter_for K es it" and "i < length es" and "index_for K es i r"
  shows "case prev_restart it (word_of_nat (entry_off K es i)) r of
      None \<Rightarrow> i = 0
    | Some r' \<Rightarrow> unat r' < num_restart_points K (length es) \<and> unat r' * K < i"
  using assms(3)
proof (induction "unat r" arbitrary: r)
  case 0
  have ok: "block_ok K es" using assms(1) by (simp add: iter_for_def)
  have "r = 0" using 0(1) by (simp add: unat_eq_0)
  then have "GetRestartPoint it r = 0"
    using GetRestartPoint_eq [OF assms(1), of r] 0 by (simp add: index_for_def)
  moreover have "(word_of_nat (entry_off K es i) :: u32) \<le> 0 \<longleftrightarrow> i = 0"
    using ok assms(2) entry_off_strict [of 0 i es K]
    by (cases "i = 0") (auto simp: word_le_nat_alt simp del: word_le_0_iff)
  ultimately show ?case
    using 0 \<open>r = 0\<close> by (subst prev_restart.simps) (auto simp: index_for_def)
next
  case (Suc n)
  have ok: "block_ok K es" using assms(1) by (simp add: iter_for_def)
  then have K: "0 < K" by (simp add: block_ok_def)
  have r0: "r \<noteq> 0" using Suc(2) by auto
  then have r1: "unat (r - 1) = n" using Suc(2) by (simp add: unat_minus_one)
  have le: "unat r * K \<le> i" and lt: "unat r < num_restart_points K (length es)"
    using Suc.prems by (simp_all add: index_for_def)
  have "GetRestartPoint it r = word_of_nat (entry_off K es (unat r * K))"
    using GetRestartPoint_eq [OF assms(1) lt] .
  then have ge: "word_of_nat (entry_off K es i) \<le> GetRestartPoint it r \<longleftrightarrow> i \<le> unat r * K"
    using ok le assms(2) entry_off_less_iff [of "unat r * K" es i K] by (simp add: word_le_nat_alt) linarith
  show ?case
  proof (cases "i \<le> unat r * K")
    case True
    have "n * K \<le> i" using le unfolding Suc(2) [symmetric] by simp
    then have "index_for K es i (r - 1)" using lt r1 Suc(2) by (simp add: index_for_def)
    with Suc.hyps(1) [of "r - 1"] r1 True ge r0 show ?thesis by (subst prev_restart.simps) simp
  next
    case False
    then show ?thesis using ge lt by (subst prev_restart.simps) simp
  qed
qed

lemma Prev_at:
  assumes "block_at K es it i" and "i < length es"
  shows "block_at K es (BlockIter_Prev it) (if i = 0 then length es else i - 1)"
proof -
  have it: "iter_for K es it" "bi_current it = word_of_nat (entry_off K es i)" "index_for K es i (bi_restart_index it)"
    using assms by (simp_all add: block_at_def)
  show ?thesis
  proof (cases "prev_restart it (bi_current it) (bi_restart_index it)")
    case None
    then have "i = 0" using prev_restart_at [OF it(1) assms(2) it(3)] it(2) by simp
    then show ?thesis using None it(1) by (simp add: BlockIter_Prev_def block_at_def iter_for_def)
  next
    case (Some r)
    then have r: "unat r < num_restart_points K (length es)" "unat r * K < i"
      using prev_restart_at [OF it(1) assms(2) it(3)] it(2) by simp_all
    have "block_at K es (parse_until (SeekToRestartPoint it r) (word_of_nat (entry_off K es i))) (i - 1)"
      using parse_until_at [OF Restart_before [OF it(1) r(1)] r(2)] assms(2) by simp
    then show ?thesis using Some r(2) it(2) by (simp add: BlockIter_Prev_def)
  qed
qed

lemma Next_at: "block_at K es it i \<Longrightarrow> i < length es \<Longrightarrow> block_at K es (BlockIter_Next it) (Suc i)"
proof -
  assume a: "block_at K es it i" "i < length es"
  then have b: "before K es (Suc i) it" by (auto simp: block_at_def before_def index_for_def)
  show ?thesis
  proof (cases "Suc i < length es")
    case True
    then show ?thesis using Parse_next [OF b] by (auto simp: BlockIter_Next_def)
  next
    case False
    then have "Suc i = length es" using a(2) by simp
    then show ?thesis using Parse_end [of K es it] b by (auto simp: BlockIter_Next_def)
  qed
qed

lemma restart_point_0: "(0::nat) < num_restart_points K n"
  by (simp add: num_restart_points_def)

lemma First_at: "iter_for K es it \<Longrightarrow> block_at K es (BlockIter_SeekToFirst it) 0"
proof -
  assume "iter_for K es it"
  then have b: "before K es 0 (SeekToRestartPoint it 0)"
    using Restart_before [of K es it 0] restart_point_0 by simp
  show ?thesis
  proof (cases "es = []")
    case True
    then show ?thesis
      using Parse_end [of K es "SeekToRestartPoint it 0"] b by (auto simp: BlockIter_SeekToFirst_def)
  next
    case False
    then show ?thesis using Parse_next [OF b] by (auto simp: BlockIter_SeekToFirst_def)
  qed
qed

lemma Last_at: "iter_for K es it \<Longrightarrow> block_at K es (BlockIter_SeekToLast it) (length es - 1)"
proof -
  assume it: "iter_for K es it"
  let ?n = "num_restart_points K (length es)" and ?r = "bi_num_restarts it - 1"
  have ok: "block_ok K es" using it by (simp add: iter_for_def)
  have "unat (bi_num_restarts it) = ?n" using it num_restart_points_small by (simp add: iter_for_def)
  moreover from this have "bi_num_restarts it \<noteq> 0" using restart_point_0 [of K "length es"] by auto
  ultimately have r: "unat ?r = ?n - 1" by (simp add: unat_minus_one)
  then have b: "before K es (unat ?r * K) (SeekToRestartPoint it ?r)"
    using Restart_before [OF it, of ?r] restart_point_0 [of K "length es"] by simp
  have lim: "bi_restarts it = word_of_nat (entry_off K es (length es))" using it by (simp add: iter_for_def)
  show ?thesis
  proof (cases "es = []")
    case True
    then have "before K es (length es) (SeekToRestartPoint it ?r)"
      using b r by (simp add: num_restart_points_def)
    then show ?thesis
      using parse_until_empty [of K es "SeekToRestartPoint it ?r" "bi_restarts it"] True
      by (simp add: BlockIter_SeekToLast_def)
  next
    case False
    then have "unat ?r * K < length es"
      using num_restart_points_mult(2) [of K "unat ?r" "length es"] ok r restart_point_0 [of K "length es"]
      by (simp add: block_ok_def)
    then show ?thesis using parse_until_at [OF b] lim by (simp add: BlockIter_SeekToLast_def)
  qed
qed

subsection \<open>Seeking\<close>

text \<open>What a seek needs of the order of the keys: the keys smaller than the target come first.\<close>

definition seek_ok :: "(bytes \<Rightarrow> bytes \<Rightarrow> int) \<Rightarrow> entry list \<Rightarrow> bytes \<Rightarrow> bool" where
  "seek_ok cmp es t \<longleftrightarrow> (\<forall>i j. i < j \<longrightarrow> j < length es \<longrightarrow> cmp (fst (es ! j)) t < 0 \<longrightarrow> cmp (fst (es ! i)) t < 0)"

lemma linear_seek_at:
  assumes "before K es i it"
  shows "block_at K es (linear_seek cmp target it)
    (i + length (takeWhile (\<lambda>e. cmp (fst e) target < 0) (drop i es)))"
  using assms
proof (induction "length es - i" arbitrary: i it)
  case 0
  then have "i = length es" by (simp add: before_def)
  then show ?case using Parse_end [of K es it] 0 by (subst linear_seek.simps) auto
next
  case (Suc n)
  then have i: "i < length es" by simp
  obtain it' where it': "ParseNextKey it = (True, it')" "block_at K es it' i" "before K es (Suc i) it'"
    using Parse_next [OF Suc.prems i] by blast
  have key: "bi_key it' = fst (es ! i)" using it'(2) i by (simp add: block_at_def)
  have d: "drop i es = es ! i # drop (Suc i) es" using i by (simp add: Cons_nth_drop_Suc)
  show ?case
  proof (cases "cmp (fst (es ! i)) target < 0")
    case True
    then show ?thesis
      using Suc.hyps(1) [OF _ it'(3)] Suc.hyps(2) it'(1) key d by (subst linear_seek.simps) simp
  next
    case False
    then show ?thesis using it'(1,2) key d by (subst linear_seek.simps) simp
  qed
qed

text \<open>The key the binary search reads at a restart point.\<close>

lemma restart_key:
  assumes "block_ok K es" and "j * K < length es"
  shows "\<exists>p n v. DecodeEntry (block_bytes K es) (entry_off K es (j * K)) (entry_off K es (length es)) =
      Some (p, 0, n, v) \<and> take (unat n) (drop p (block_bytes K es)) = fst (es ! (j * K))"
proof -
  let ?e = "es ! (j * K)" and ?lim = "entry_off K es (length es)"
  have sh: "shared_at K es (j * K) = 0" by (simp add: shared_at_def)
  define rest where "rest = drop 0 (fst ?e) @ snd ?e @ concat (drop (Suc (j * K)) (encs K es))"
  note dec = Decode_at [OF assms, unfolded sh, folded rest_def]
  have "?lim - length rest \<le> length (concat (encs K es))" by (simp add: entry_off_length)
  then have "take (length (fst ?e)) (drop (?lim - length rest) (block_bytes K es)) = fst ?e"
    using dec(3) by (simp add: block_bytes_def) (simp add: rest_def)
  moreover have "unat (word_of_nat (length (fst ?e)) :: u32) = length (fst ?e)"
    using dec(6) by simp
  ultimately show ?thesis using dec(1) by simp
qed

lemma middle:
  fixes l r :: u32
  assumes "l < r" and "unat r < 2 ^ 31"
  defines "m \<equiv> (l + r + 1) div 2"
  shows "unat m = (unat l + unat r + 1) div 2" and "l < m" and "m \<le> r" and "unat (m - 1) = unat m - 1"
proof -
  have lr: "unat l < unat r" using assms(1) by (simp add: word_less_nat_alt)
  have "unat (l + r + 1) = unat l + unat r + 1"
    using lr assms(2) by (simp add: unat_word_ariths)
  then show m: "unat m = (unat l + unat r + 1) div 2" by (simp add: m_def unat_div)
  show "l < m" "m \<le> r" using lr m by (simp_all add: word_less_nat_alt word_le_nat_alt)
  then have "m \<noteq> 0" by auto
  then show "unat (m - 1) = unat m - 1" by (rule unat_minus_one)
qed

lemma binary_seek_at:
  assumes "iter_for K es it" and "l \<le> r" and "unat r < num_restart_points K (length es)"
    and "l = 0 \<or> cmp (fst (es ! (unat l * K))) target < 0"
  shows "\<exists>m. binary_seek cmp target it l r = Some (Some m) \<and> unat m < num_restart_points K (length es) \<and>
    (m = 0 \<or> cmp (fst (es ! (unat m * K))) target < 0)"
  using assms(2-4)
proof (induction "unat r - unat l" arbitrary: l r rule: less_induct)
  case less
  have ok: "block_ok K es" using assms(1) by (simp add: iter_for_def)
  then have K: "0 < K" by (simp add: block_ok_def)
  show ?case
  proof (cases "l < r")
    case False
    then show ?thesis using less.prems by (subst binary_seek.simps) auto
  next
    case True
    let ?m = "(l + r + 1) div 2"
    have "unat r < 2 ^ 31" using ok less.prems(2) by (simp add: block_ok_def length_block_bytes)
    note m = middle [OF True this]
    have mn: "unat ?m < num_restart_points K (length es)" using m(3) less.prems(2) by (simp add: word_le_nat_alt)
    have "es \<noteq> []"
      using mn m(2) by (auto simp: num_restart_points_def word_less_nat_alt)
    then have mk: "unat ?m * K < length es" using num_restart_points_mult(2) [OF K mn] by simp
    obtain p n v where d: "DecodeEntry (block_bytes K es) (entry_off K es (unat ?m * K)) (entry_off K es (length es)) =
        Some (p, 0, n, v)" "take (unat n) (drop p (block_bytes K es)) = fst (es ! (unat ?m * K))"
      using restart_key [OF ok mk] by blast
    have step: "binary_seek cmp target it l r =
        (if cmp (fst (es ! (unat ?m * K))) target < 0 then binary_seek cmp target it ?m r
         else binary_seek cmp target it l (?m - 1))"
      using True d GetRestartPoint_eq [OF assms(1) mn] assms(1) ok
      by (subst binary_seek.simps) (simp add: iter_for_def Let_def)
    have lm: "unat l < unat ?m" "unat ?m \<le> unat r"
      using m(2,3) by (simp_all only: word_less_nat_alt word_le_nat_alt)
    show ?thesis
    proof (cases "cmp (fst (es ! (unat ?m * K))) target < 0")
      case True
      then show ?thesis using step less.hyps [of r ?m] less.prems(2) m(3) lm by auto
    next
      case False
      have "l \<le> ?m - 1" using m(4) lm by (simp add: word_le_nat_alt)
      moreover have "unat (?m - 1) < num_restart_points K (length es)" using m(4) mn by simp
      moreover have "unat (?m - 1) - unat l < unat r - unat l" using m(4) lm by linarith
      ultimately show ?thesis using False step less.hyps [of "?m - 1" l] less.prems(3) by simp
    qed
  qed
qed

lemma Seek_at:
  assumes "iter_for K es it" and "seek_ok cmp es target"
  shows "\<exists>it'. BlockIter_Seek cmp it target = Some it' \<and> block_at K es it' (first_ge cmp es target)"
proof -
  let ?n = "num_restart_points K (length es)" and ?P = "\<lambda>e. cmp (fst e) target < 0"
  have ok: "block_ok K es" using assms(1) by (simp add: iter_for_def)
  then have K: "0 < K" by (simp add: block_ok_def)
  have "unat (bi_num_restarts it) = ?n" using assms(1) num_restart_points_small by (simp add: iter_for_def)
  moreover from this have "bi_num_restarts it \<noteq> 0" using restart_point_0 [of K "length es"] by auto
  ultimately have r: "unat (bi_num_restarts it - 1) < ?n"
    using restart_point_0 [of K "length es"] by (simp add: unat_minus_one)
  obtain m where m: "binary_seek cmp target it 0 (bi_num_restarts it - 1) = Some (Some m)" "unat m < ?n"
      "m = 0 \<or> ?P (es ! (unat m * K))"
    using binary_seek_at [OF assms(1) _ r, of 0 cmp target] by auto
  have le: "unat m * K \<le> length es" using num_restart_points_mult(1) [OF K m(2)] .
  have "?P (es ! i)" if i: "i < unat m * K" for i
  proof -
    have "0 < length es" using i le by linarith
    then have "unat m * K < length es" by (rule num_restart_points_mult(2) [OF K m(2)])
    moreover have "?P (es ! (unat m * K))" using m(3) i by auto
    ultimately show ?thesis using assms(2) i unfolding seek_ok_def by blast
  qed
  then have "?P e" if "e \<in> set (take (unat m * K) es)" for e
    using that unfolding set_conv_nth by auto
  then have "takeWhile ?P es = take (unat m * K) es @ takeWhile ?P (drop (unat m * K) es)"
    using takeWhile_append2 [of "take (unat m * K) es" ?P "drop (unat m * K) es"] by simp
  then have "first_ge cmp es target = unat m * K + length (takeWhile ?P (drop (unat m * K) es))"
    using le by (simp add: first_ge_def)
  then show ?thesis
    using linear_seek_at [OF Restart_before [OF assms(1) m(2)], of cmp target] m(1)
    by (simp add: BlockIter_Seek_def)
qed

subsection \<open>Opening a block\<close>

lemma Block_opened:
  assumes "block_ok K es"
  shows "\<exists>it. Block_NewIterator (Block (block_bytes K es)) = BlockIter it \<and>
    iter_for K es it \<and> block_at K es it (length es)"
proof -
  let ?n = "num_restart_points K (length es)" and ?len = "length (block_bytes K es)"
  have tl: "drop (?len - 4) (block_bytes K es) = EncodeFixed32 (word_of_nat ?n)"
    by (simp add: block_bytes_def)
  then have num: "NumRestarts (block_bytes K es) ?len = word_of_nat ?n"
    by (simp add: NumRestarts_def)
  have len: "?len = entry_off K es (length es) + 4 * ?n + 4" by (rule length_block_bytes)
  then have max: "?n \<le> (?len - 4) div 4" by simp
  have off: "?len - (1 + ?n) * 4 = entry_off K es (length es)" using len by simp
  have n: "unat (word_of_nat ?n :: u32) = ?n" by (rule num_restart_points_small [OF assms])
  then have "(word_of_nat ?n :: u32) \<noteq> 0" using restart_point_0 [of K "length es"] by auto
  then have "Block_NewIterator (Block (block_bytes K es)) =
      BlockIter (Block_Iter (block_bytes K es) (word_of_nat (entry_off K es (length es))) (word_of_nat ?n))"
    using num max off len n by (simp add: Block_NewIterator_def Block_def Let_def del: of_nat_diff)
  then show ?thesis using assms by (simp add: Block_Iter_def iter_for_def block_at_def)
qed

text \<open>The iterator over a block meets the contract of \<^verbatim>\<open>include/leveldb/iterator.h\<close>.\<close>

definition BlockIter_class :: "(bytes \<Rightarrow> bytes \<Rightarrow> int) \<Rightarrow> block_iter iterator_class" where
  "BlockIter_class cmp =
     \<lparr>it_Valid = BlockIter_Valid, it_SeekToFirst = BlockIter_SeekToFirst, it_SeekToLast = BlockIter_SeekToLast,
      it_Seek = (\<lambda>it target. the (BlockIter_Seek cmp it target)), it_Next = BlockIter_Next,
      it_Prev = BlockIter_Prev, it_key = bi_key, it_value = bi_value, it_status = bi_status\<rparr>"

lemma BlockIter_class_simps [simp]:
  "it_Valid (BlockIter_class cmp) = BlockIter_Valid"
  "it_SeekToFirst (BlockIter_class cmp) = BlockIter_SeekToFirst"
  "it_SeekToLast (BlockIter_class cmp) = BlockIter_SeekToLast"
  "it_Seek (BlockIter_class cmp) it target = the (BlockIter_Seek cmp it target)"
  "it_Next (BlockIter_class cmp) = BlockIter_Next" "it_Prev (BlockIter_class cmp) = BlockIter_Prev"
  "it_key (BlockIter_class cmp) = bi_key" "it_value (BlockIter_class cmp) = bi_value"
  "it_status (BlockIter_class cmp) = bi_status"
  by (simp_all add: BlockIter_class_def)

interpretation block_iter: entry_iterator "BlockIter_class cmp" cmp es "block_at K es" "seek_ok cmp es"
  for cmp :: "bytes \<Rightarrow> bytes \<Rightarrow> int" and es :: "entry list" and K :: nat
proof (unfold_locales, unfold BlockIter_class_simps)
  fix it :: block_iter and i :: nat and target :: bytes
  assume at: "block_at K es it i"
  then have it: "iter_for K es it" by (simp add: block_at_def)
  show "BlockIter_Valid it = (i < length es)"
    using at entry_off_less_iff [of i es "length es" K]
    by (simp add: block_at_def BlockIter_Valid_def iter_for_def word_less_nat_alt)
  show "block_at K es (BlockIter_SeekToFirst it) 0" by (rule First_at [OF it])
  show "block_at K es (BlockIter_SeekToLast it) (length es - 1)" by (rule Last_at [OF it])
  show "seek_ok cmp es target \<Longrightarrow> block_at K es (the (BlockIter_Seek cmp it target)) (first_ge cmp es target)"
    using Seek_at [OF it, of cmp target] by auto
  show "i < length es \<Longrightarrow> block_at K es (BlockIter_Next it) (Suc i)" by (rule Next_at [OF at])
  show "i < length es \<Longrightarrow> block_at K es (BlockIter_Prev it) (if i = 0 then length es else i - 1)"
    by (rule Prev_at [OF at])
qed (simp_all add: block_at_def iter_for_def)

lemmas block_at_simps =
  block_iter.valid_iff [unfolded BlockIter_class_simps] block_iter.key_at [unfolded BlockIter_class_simps]
  block_iter.value_at [unfolded BlockIter_class_simps]

text \<open>Keys in strictly ascending order are in the order that a seek needs.\<close>

context comparator
begin

lemma sorted_seek_ok:
  assumes "sorted_wrt (\<lambda>a b. Compare (fst a) (fst b) < 0) es" and "\<And>e. e \<in> set es \<Longrightarrow> valid (fst e)"
    and "valid t"
  shows "seek_ok Compare es t"
  unfolding seek_ok_def
proof (intro allI impI)
  fix i j
  assume ij: "i < j" "j < length es" "Compare (fst (es ! j)) t < 0"
  then have "Compare (fst (es ! i)) (fst (es ! j)) < 0" using assms(1) by (simp add: sorted_wrt_iff_nth_less)
  then show "Compare (fst (es ! i)) t < 0"
    using assms(2,3) ij cmp_less_trans [of "fst (es ! i)" "fst (es ! j)" t] by simp
qed

end

subsection \<open>Properties\<close>

definition block_contents :: "nat \<Rightarrow> entry list \<Rightarrow> bytes" where
  "block_contents K es = fst (BlockBuilder_Finish (build_block K es new_block_builder))"

definition open_block :: "bytes \<Rightarrow> block_iter option" where
  "open_block contents =
     (case Block_NewIterator (Block contents) of BlockIter it \<Rightarrow> Some it | EmptyIterator s \<Rightarrow> None)"

lemma block_contents_eq: "0 < K \<Longrightarrow> block_contents K es = block_bytes K es"
  using Finish_built [OF built_build_block [OF built_new, of K es]] by (simp add: block_contents_def)

lemma block_contents_open:
  assumes "0 < K" and "length (block_contents K es) < 2 ^ 32"
  shows "\<exists>it. open_block (block_contents K es) = Some it \<and> block_at K es it (length es)"
  using Block_opened [of K es] assms by (auto simp: block_contents_eq block_ok_def open_block_def)

text \<open>The iterators that the clients of a block can hold.\<close>

inductive block_reach ::
    "(bytes \<Rightarrow> bytes \<Rightarrow> int) \<Rightarrow> (bytes \<Rightarrow> bool) \<Rightarrow> nat \<Rightarrow> entry list \<Rightarrow> block_iter \<Rightarrow> bool"
  for cmp targets K es where
  opened: "open_block (block_contents K es) = Some it \<Longrightarrow> block_reach cmp targets K es it"
| Next: "block_reach cmp targets K es it \<Longrightarrow> BlockIter_Valid it \<Longrightarrow>
    block_reach cmp targets K es (BlockIter_Next it)"
| Prev: "block_reach cmp targets K es it \<Longrightarrow> BlockIter_Valid it \<Longrightarrow>
    block_reach cmp targets K es (BlockIter_Prev it)"
| SeekToFirst: "block_reach cmp targets K es it \<Longrightarrow> block_reach cmp targets K es (BlockIter_SeekToFirst it)"
| SeekToLast: "block_reach cmp targets K es it \<Longrightarrow> block_reach cmp targets K es (BlockIter_SeekToLast it)"
| Seek: "block_reach cmp targets K es it \<Longrightarrow> targets target \<Longrightarrow> BlockIter_Seek cmp it target = Some it' \<Longrightarrow>
    block_reach cmp targets K es it'"

definition sorted_entries :: "(bytes \<Rightarrow> bytes \<Rightarrow> int) \<Rightarrow> (bytes \<Rightarrow> bool) \<Rightarrow> entry list \<Rightarrow> bool" where
  "sorted_entries cmp valid es \<longleftrightarrow>
     sorted_wrt (\<lambda>a b. cmp (fst a) (fst b) < 0) es \<and> list_all (\<lambda>e. valid (fst e)) es"

lemma sorted_entries_seek_ok:
  "comparator cmp sep succ valid \<Longrightarrow> sorted_entries cmp valid es \<Longrightarrow> valid t \<Longrightarrow> seek_ok cmp es t"
  using comparator.sorted_seek_ok [of cmp sep succ valid es t] by (simp add: sorted_entries_def list_all_iff)

lemma block_reach_at:
  assumes "block_reach cmp targets K es it" and "0 < K" and "length (block_contents K es) < 2 ^ 32"
    and "\<And>t. targets t \<Longrightarrow> seek_ok cmp es t"
  shows "\<exists>i. block_at K es it i"
  using assms(1)
proof induction
  case (opened it)
  then show ?case using block_contents_open [OF assms(2,3)] by auto
next
  case (Seek it target it')
  then obtain i where "block_at K es it i" by blast
  then show ?case
    using block_iter.seek_at [of K es it i cmp target] assms(4) Seek.hyps(2,3) by auto
qed (metis block_iter.valid_iff block_iter.next_at block_iter.prev_at block_iter.first_at block_iter.last_at
    BlockIter_class_simps)+

text \<open>
  Claim C25: a block read back holds what was put in. For every restart interval and every list of
  entries whose block is shorter than \<open>2 ^ 32\<close> bytes, the contents that \<open>BlockBuilder\<close> finishes open as a
  block with an iterator; walking it forward from the first entry, for any number of steps that is
  not too small, gives exactly the entries, and walking it backward from the last one gives them in
  reverse.
\<close>

theorem block_roundtrip:
  assumes "0 < K" and "length (block_contents K es) < 2 ^ 32" and "length es \<le> n"
  shows "\<exists>it. open_block (block_contents K es) = Some it \<and>
    collect (BlockIter_class cmp) n (BlockIter_SeekToFirst it) = es \<and>
    collect_back (BlockIter_class cmp) n (BlockIter_SeekToLast it) = rev es"
  using block_contents_open [OF assms(1,2)] block_iter.collect_from_first [OF _ assms(3)]
    block_iter.collect_from_last [OF _ assms(3)] by fastforce

definition sample_entries :: "entry list" where
  "sample_entries = [([1], [9]), ([1, 2], []), ([1, 2, 3], [7, 7]), ([2], [8])]"

lemma sample_contents:
  "block_contents 2 sample_entries =
     [0, 1, 1, 1, 9, 1, 1, 0, 2, 0, 3, 2, 1, 2, 3, 7, 7, 0, 1, 1, 2, 8, 0, 0, 0, 0, 9, 0, 0, 0, 2, 0, 0, 0]"
  by code_simp

theorem block_roundtrip_witness:
  "\<exists>it. open_block (block_contents 2 sample_entries) = Some it \<and>
    collect (BlockIter_class BytewiseCompare) 9 (BlockIter_SeekToFirst it) = sample_entries \<and>
    collect_back (BlockIter_class BytewiseCompare) 9 (BlockIter_SeekToLast it) = rev sample_entries"
  by (rule block_roundtrip) (simp_all add: sample_contents, simp add: sample_entries_def)

text \<open>
  Claim C24: \<^verbatim>\<open>Seek\<close> returns and finds the right entry. For a comparator that meets its contract and
  entries in strictly ascending order, from every iterator a client can hold, the binary search over
  the restart points and the linear search behind it end at the first entry whose key is not smaller
  than the target: walking on from there gives exactly the entries from that one on, and nothing when
  all keys are smaller.
\<close>

theorem block_seek:
  assumes "comparator cmp sep succ valid" and "sorted_entries cmp valid es" and "valid target"
    and "0 < K" and "length (block_contents K es) < 2 ^ 32" and "length es \<le> n"
    and "block_reach cmp valid K es it"
  shows "\<exists>it'. BlockIter_Seek cmp it target = Some it' \<and>
    collect (BlockIter_class cmp) n it' =
      dropWhile (\<lambda>e. cmp (fst e) target < 0) es"
proof -
  note ok = sorted_entries_seek_ok [OF assms(1,2)]
  obtain i where i: "block_at K es it i" using block_reach_at [OF assms(7,4,5) ok] by blast
  then obtain it' where "BlockIter_Seek cmp it target = Some it'"
    using Seek_at [of K es it cmp target] ok [OF assms(3)] by (auto simp: block_at_def)
  then show ?thesis
    using block_iter.collect_from_seek [OF i ok [OF assms(3)] assms(6)] by simp
qed

lemma sample_sorted: "sorted_entries BytewiseCompare (\<lambda>_. True) sample_entries"
  by code_simp

lemma sample_open: "open_block (block_contents 2 sample_entries) =
    Some (Block_Iter (block_contents 2 sample_entries) 22 2)"
  unfolding sample_contents by code_simp

theorem block_seek_witness:
  "\<exists>it'. BlockIter_Seek BytewiseCompare (Block_Iter (block_contents 2 sample_entries) 22 2) [1, 2, 1] = Some it' \<and>
    collect (BlockIter_class BytewiseCompare) 4 it' = [([1, 2, 3], [7, 7]), ([2], [8])]"
proof -
  have "block_reach BytewiseCompare (\<lambda>_. True) 2 sample_entries (Block_Iter (block_contents 2 sample_entries) 22 2)"
    by (rule block_reach.opened [OF sample_open])
  moreover have "dropWhile (\<lambda>e. BytewiseCompare (fst e) [1, 2, 1] < 0) sample_entries = [([1, 2, 3], [7, 7]), ([2], [8])]"
    by code_simp
  moreover have "comparator BytewiseCompare FindShortestSeparator FindShortSuccessor (\<lambda>_. True)"
    by unfold_locales
  ultimately show ?thesis
    using block_seek [of BytewiseCompare FindShortestSeparator FindShortSuccessor "\<lambda>_. True" sample_entries
        "[1, 2, 1]" 2 4] sample_sorted
    by (simp add: sample_contents) (simp add: sample_entries_def)
qed

text \<open>
  Claim C26: every iterator a client can reach by opening a block, moving from a valid position and
  seeking stands at an entry of the block or is not valid, and never reports corruption: its key and
  value are those of one entry, and \<^verbatim>\<open>Next\<close> and \<^verbatim>\<open>Prev\<close> go to the neighbours.
\<close>

theorem block_iterator_invariant:
  assumes "comparator cmp sep succ valid" and "sorted_entries cmp valid es"
    and "0 < K" and "length (block_contents K es) < 2 ^ 32" and "block_reach cmp valid K es it"
  shows "bi_status it = Status_OK \<and> (BlockIter_Valid it \<longrightarrow>
    (\<exists>i < length es. (bi_key it, bi_value it) = es ! i \<and>
      (BlockIter_Valid (BlockIter_Next it) \<longleftrightarrow> Suc i < length es) \<and>
      (BlockIter_Valid (BlockIter_Prev it) \<longleftrightarrow> 0 < i) \<and>
      (Suc i < length es \<longrightarrow> bi_key (BlockIter_Next it) = fst (es ! Suc i)) \<and>
      (0 < i \<longrightarrow> bi_key (BlockIter_Prev it) = fst (es ! (i - 1)))))"
proof -
  obtain i where i: "block_at K es it i"
    using block_reach_at [OF assms(5,3,4) sorted_entries_seek_ok [OF assms(1,2)]] by blast
  have "(bi_key it, bi_value it) = es ! i \<and>
      (BlockIter_Valid (BlockIter_Next it) \<longleftrightarrow> Suc i < length es) \<and>
      (BlockIter_Valid (BlockIter_Prev it) \<longleftrightarrow> 0 < i) \<and>
      (Suc i < length es \<longrightarrow> bi_key (BlockIter_Next it) = fst (es ! Suc i)) \<and>
      (0 < i \<longrightarrow> bi_key (BlockIter_Prev it) = fst (es ! (i - 1)))" if lt: "i < length es"
  proof -
    note nx = Next_at [OF i lt] and pv = Prev_at [OF i lt]
    have "0 < i \<Longrightarrow> i - 1 < length es" using lt by simp
    then show ?thesis
      using block_at_simps(2,3) [OF i] block_at_simps(1,2) [OF nx] block_at_simps(1,2) [OF pv] lt
      by (simp split: if_splits)
  qed
  moreover have "bi_status it = Status_OK" using i by (simp add: block_at_def iter_for_def)
  ultimately show ?thesis using block_at_simps(1) [OF i] by blast
qed

theorem block_iterator_invariant_witness:
  "bi_status (BlockIter_SeekToFirst (Block_Iter (block_contents 2 sample_entries) 22 2)) = Status_OK"
proof -
  have "block_reach BytewiseCompare (\<lambda>_. True) 2 sample_entries
      (BlockIter_SeekToFirst (Block_Iter (block_contents 2 sample_entries) 22 2))"
    by (intro block_reach.SeekToFirst block_reach.opened [OF sample_open])
  moreover have "comparator BytewiseCompare FindShortestSeparator FindShortSuccessor (\<lambda>_. True)"
    by unfold_locales
  ultimately show ?thesis
    using block_iterator_invariant [of BytewiseCompare FindShortestSeparator FindShortSuccessor "\<lambda>_. True"
        sample_entries 2] sample_sorted
    by (simp add: sample_contents)
qed

text \<open>
  The length check of \<^verbatim>\<open>DecodeEntry\<close> adds two 32-bit lengths that come from the block, and the
  sum wraps: an entry that claims a key delta of \<open>2 ^ 32 - 1\<close> bytes and a value of one byte passes the
  check when no bytes at all are left in front of the limit.
\<close>

theorem DecodeEntry_length_check_wraps:
  "DecodeEntry [0, 0xff, 0xff, 0xff, 0xff, 0x0f, 1] 0 7 = Some (7, 0, 0xffffffff, 1) \<and>
   7 + unat (0xffffffff :: u32) + unat (1 :: u32) > 7"
proof
  have 1: "GetVarint32Ptr [0, 0xff, 0xff, 0xff, 0xff, 0x0f, 1] = Some (0, [0xff, 0xff, 0xff, 0xff, 0x0f, 1])"
    and 2: "GetVarint32Ptr [0xff, 0xff, 0xff, 0xff, 0x0f, 1] = Some (0xffffffff, [1])"
    and 3: "GetVarint32Ptr [1] = Some (1, [])"
    by code_simp+
  show "DecodeEntry [0, 0xff, 0xff, 0xff, 0xff, 0x0f, 1] 0 7 = Some (7, 0, 0xffffffff, 1)"
    by (simp add: DecodeEntry_def 1 2 3)
qed simp

end
