(* ===== verification/LDB_Format.thy ===== *)
theory LDB_Format
  imports LDB_Coding LDB_Crc32c LDB_Status
begin

text \<open>
  \<^verbatim>\<open>table/format.h\<close> and \<^verbatim>\<open>table/format.cc\<close>: block handles, the footer of a table file, and reading a
  stored block with its type and checksum. The compression library behind \<^verbatim>\<open>port.h\<close> is a record of its
  three functions; without it they all fail.
\<close>

unbundle bit_operations_syntax

subsection \<open>Handles and the footer\<close>

record block_handle =
  bh_offset :: u64
  bh_size :: u64

definition new_BlockHandle :: block_handle where
  "new_BlockHandle = \<lparr>bh_offset = - 1, bh_size = - 1\<rparr>"

definition kMaxEncodedLength :: nat where "kMaxEncodedLength = 10 + 10"

definition BlockHandle_EncodeTo :: "block_handle \<Rightarrow> bytes \<Rightarrow> bytes" where
  "BlockHandle_EncodeTo h dst = PutVarint64 (PutVarint64 dst (bh_offset h)) (bh_size h)"

text \<open>
  The status, the handle with the fields that were read (the second one keeps its old value when
  only the first could be read) and what is left of the input.
\<close>

definition BlockHandle_DecodeFrom :: "block_handle \<Rightarrow> bytes \<Rightarrow> status \<times> block_handle \<times> bytes" where
  "BlockHandle_DecodeFrom h input =
     (case GetVarint64 input of
        None \<Rightarrow> (Status_Corruption (str ''bad block handle'') [], h, input)
      | Some (off, input) \<Rightarrow>
          let h = h\<lparr>bh_offset := off\<rparr>
          in (case GetVarint64 input of
                None \<Rightarrow> (Status_Corruption (str ''bad block handle'') [], h, input)
              | Some (n, input) \<Rightarrow> (Status_OK, h\<lparr>bh_size := n\<rparr>, input)))"

record footer =
  ft_metaindex_handle :: block_handle
  ft_index_handle :: block_handle

definition kEncodedLength :: nat where "kEncodedLength = 2 * kMaxEncodedLength + 8"

definition kTableMagicNumber :: u64 where "kTableMagicNumber = 0xdb4775248b80fb57"

definition kBlockTrailerSize :: nat where "kBlockTrailerSize = 5"

definition new_Footer :: footer where
  "new_Footer = \<lparr>ft_metaindex_handle = new_BlockHandle, ft_index_handle = new_BlockHandle\<rparr>"

text \<open>\<^verbatim>\<open>std::string::resize\<close> cuts the string or fills it up with zero bytes.\<close>

definition resize :: "nat \<Rightarrow> bytes \<Rightarrow> bytes" where
  "resize n s = take n s @ replicate (n - length s) 0"

definition Footer_EncodeTo :: "footer \<Rightarrow> bytes \<Rightarrow> bytes" where
  "Footer_EncodeTo f dst =
     (let dst = BlockHandle_EncodeTo (ft_metaindex_handle f) dst;
          dst = BlockHandle_EncodeTo (ft_index_handle f) dst;
          dst = resize (2 * kMaxEncodedLength) dst;
          dst = PutFixed32 dst (ucast (kTableMagicNumber AND 0xffffffff))
      in PutFixed32 dst (ucast (drop_bit 32 kTableMagicNumber)))"

definition Footer_DecodeFrom :: "footer \<Rightarrow> bytes \<Rightarrow> status \<times> footer \<times> bytes" where
  "Footer_DecodeFrom f input =
     (let magic_ptr = kEncodedLength - 8;
          magic_lo = DecodeFixed32 (drop magic_ptr input);
          magic_hi = DecodeFixed32 (drop (magic_ptr + 4) input);
          magic = push_bit 32 (ucast magic_hi) OR ucast magic_lo :: u64
      in if magic \<noteq> kTableMagicNumber then
           (Status_Corruption (str ''not an sstable (bad magic number)'') [], f, input)
         else
           let (result, metaindex, rest) = BlockHandle_DecodeFrom (ft_metaindex_handle f) input;
               f = f\<lparr>ft_metaindex_handle := metaindex\<rparr>
           in if \<not> ok result then (result, f, rest)
              else
                let (result, index, rest) = BlockHandle_DecodeFrom (ft_index_handle f) rest;
                    f = f\<lparr>ft_index_handle := index\<rparr>
                in if ok result then (result, f, drop (magic_ptr + 8) input) else (result, f, rest))"

subsection \<open>Reading a block\<close>

record snappy =
  Snappy_Compress :: "bytes \<Rightarrow> bytes option"
  Snappy_GetUncompressedLength :: "bytes \<Rightarrow> nat option"
  Snappy_Uncompress :: "bytes \<Rightarrow> bytes option"

definition no_snappy :: snappy where
  "no_snappy = \<lparr>Snappy_Compress = (\<lambda>d. None), Snappy_GetUncompressedLength = (\<lambda>d. None),
     Snappy_Uncompress = (\<lambda>d. None)\<rparr>"

text \<open>What the documentation of the library says: decompression inverts compression.\<close>

definition snappy_correct :: "snappy \<Rightarrow> bool" where
  "snappy_correct z \<longleftrightarrow> (\<forall>d c. Snappy_Compress z d = Some c \<longrightarrow>
     Snappy_GetUncompressedLength z c = Some (length d) \<and> Snappy_Uncompress z c = Some d)"

definition kNoCompression :: byte where "kNoCompression = 0"
definition kSnappyCompression :: byte where "kSnappyCompression = 1"

record block_contents_rec =
  bc_data :: bytes
  bc_cachable :: bool
  bc_heap_allocated :: bool

definition empty_BlockContents :: block_contents_rec where
  "empty_BlockContents = \<lparr>bc_data = [], bc_cachable = False, bc_heap_allocated = False\<rparr>"

text \<open>
  The file is the function \<open>rd\<close> for its \<^verbatim>\<open>Read\<close>, and \<open>in_place\<close> says that it hands out a pointer to
  data of its own. The size of the block plus the trailer is computed in 64 bits; when it wraps, the
  bytes behind the block are accessed outside of the buffer and the function has no value.
\<close>

definition ReadBlock ::
    "snappy \<Rightarrow> (u64 \<Rightarrow> nat \<Rightarrow> status \<times> bytes) \<Rightarrow> bool \<Rightarrow> bool \<Rightarrow> block_handle \<Rightarrow>
     (status \<times> block_contents_rec) option" where
  "ReadBlock z rd in_place verify_checksums handle =
     (let n = bh_size handle;
          total = n + word_of_nat kBlockTrailerSize;
          (s, contents) = rd (bh_offset handle) (unat total)
      in if \<not> ok s then Some (s, empty_BlockContents)
         else if length contents \<noteq> unat total then
           Some (Status_Corruption (str ''truncated block read'') [], empty_BlockContents)
         else if unat total < unat n then None
         else
           let crc = Unmask (DecodeFixed32 (drop (unat n + 1) contents));
               actual = crc_Value (take (unat n + 1) contents);
               data = take (unat n) contents
           in if verify_checksums \<and> actual \<noteq> crc then
                Some (Status_Corruption (str ''block checksum mismatch'') [], empty_BlockContents)
              else if contents ! unat n = kNoCompression then
                Some (Status_OK, \<lparr>bc_data = data, bc_cachable = (\<not> in_place), bc_heap_allocated = (\<not> in_place)\<rparr>)
              else if contents ! unat n = kSnappyCompression then
                (case Snappy_GetUncompressedLength z data of
                   None \<Rightarrow> Some (Status_Corruption (str ''corrupted compressed block contents'') [], empty_BlockContents)
                 | Some ulength \<Rightarrow>
                     (case Snappy_Uncompress z data of
                        None \<Rightarrow> Some (Status_Corruption (str ''corrupted compressed block contents'') [], empty_BlockContents)
                      | Some ubuf \<Rightarrow>
                          Some (Status_OK, \<lparr>bc_data = take ulength ubuf, bc_cachable = True, bc_heap_allocated = True\<rparr>)))
              else Some (Status_Corruption (str ''bad block type'') [], empty_BlockContents))"

subsection \<open>Round trips\<close>

lemma BlockHandle_roundtrip:
  "BlockHandle_DecodeFrom h0 (BlockHandle_EncodeTo h [] @ rest) = (Status_OK, h, rest)"
  by (simp add: BlockHandle_DecodeFrom_def BlockHandle_EncodeTo_def PutVarint64_def EncodeVarint_roundtrips)

lemma BlockHandle_EncodeTo_append: "BlockHandle_EncodeTo h dst = dst @ BlockHandle_EncodeTo h []"
  by (simp add: BlockHandle_EncodeTo_def PutVarint64_def)

lemma length_BlockHandle: "length (BlockHandle_EncodeTo h []) \<le> kMaxEncodedLength"
  using length_EncodeVarint(1) [of "bh_offset h"] length_EncodeVarint(1) [of "bh_size h"]
  by (simp add: BlockHandle_EncodeTo_def PutVarint64_def kMaxEncodedLength_def)

lemma BlockHandle_EncodeTo_inject: "BlockHandle_EncodeTo g [] = BlockHandle_EncodeTo h [] \<Longrightarrow> g = h"
  using BlockHandle_roundtrip [of new_BlockHandle g "[]"] BlockHandle_roundtrip [of new_BlockHandle h "[]"] by simp

lemma Footer_layout:
  "\<exists>pad. Footer_EncodeTo f [] = BlockHandle_EncodeTo (ft_metaindex_handle f) [] @
     BlockHandle_EncodeTo (ft_index_handle f) [] @ pad @ EncodeFixed32 0x8b80fb57 @ EncodeFixed32 0xdb477524 \<and>
     length (Footer_EncodeTo f []) = kEncodedLength"
proof -
  let ?a = "BlockHandle_EncodeTo (ft_metaindex_handle f) []" and ?b = "BlockHandle_EncodeTo (ft_index_handle f) []"
  have "length (?a @ ?b) \<le> 2 * kMaxEncodedLength"
    using length_BlockHandle [of "ft_metaindex_handle f"] length_BlockHandle [of "ft_index_handle f"] by simp
  then have "resize (2 * kMaxEncodedLength) (?a @ ?b) = ?a @ ?b @ replicate (2 * kMaxEncodedLength - length (?a @ ?b)) 0"
    and "length (resize (2 * kMaxEncodedLength) (?a @ ?b)) = 2 * kMaxEncodedLength"
    by (simp_all add: resize_def)
  moreover have "ucast (kTableMagicNumber AND 0xffffffff) = (0x8b80fb57 :: u32)"
    "ucast (drop_bit 32 kTableMagicNumber) = (0xdb477524 :: u32)"
    unfolding kTableMagicNumber_def by code_simp+
  moreover have "Footer_EncodeTo f [] = PutFixed32 (PutFixed32 (resize (2 * kMaxEncodedLength) (?a @ ?b))
      (ucast (kTableMagicNumber AND 0xffffffff))) (ucast (drop_bit 32 kTableMagicNumber))"
    unfolding Footer_EncodeTo_def Let_def BlockHandle_EncodeTo_append [of "ft_index_handle f" "?a"] ..
  ultimately show ?thesis by (simp add: PutFixed32_def kEncodedLength_def)
qed

lemma Footer_roundtrip:
  "Footer_DecodeFrom f0 (Footer_EncodeTo f [] @ rest) = (Status_OK, f, rest)"
proof -
  obtain pad where lay: "Footer_EncodeTo f [] = BlockHandle_EncodeTo (ft_metaindex_handle f) [] @
     BlockHandle_EncodeTo (ft_index_handle f) [] @ pad @ EncodeFixed32 0x8b80fb57 @ EncodeFixed32 0xdb477524"
     and len: "length (Footer_EncodeTo f []) = kEncodedLength"
    using Footer_layout [of f] by blast
  let ?head = "BlockHandle_EncodeTo (ft_metaindex_handle f) [] @ BlockHandle_EncodeTo (ft_index_handle f) [] @ pad"
  have h: "length ?head = kEncodedLength - 8" using len unfolding lay by simp
  have split: "Footer_EncodeTo f [] @ rest = ?head @ EncodeFixed32 0x8b80fb57 @ EncodeFixed32 0xdb477524 @ rest"
    unfolding lay by simp
  have "drop (kEncodedLength - 8) (Footer_EncodeTo f [] @ rest) = EncodeFixed32 0x8b80fb57 @ EncodeFixed32 0xdb477524 @ rest"
    unfolding split by (rule drop_append_exact [OF h])
  moreover from this have "drop (kEncodedLength - 8 + 4) (Footer_EncodeTo f [] @ rest) = EncodeFixed32 0xdb477524 @ rest"
    unfolding add.commute [of _ 4] drop_drop [symmetric] by (simp only: drop_append_exact length_EncodeFixed)
  moreover have "drop (kEncodedLength - 8 + 8) (Footer_EncodeTo f [] @ rest) = rest"
    using len by (simp add: kEncodedLength_def)
  moreover have "(push_bit 32 (ucast (0xdb477524 :: u32)) OR ucast (0x8b80fb57 :: u32) :: u64) = kTableMagicNumber"
    unfolding kTableMagicNumber_def by code_simp
  ultimately show ?thesis
    unfolding Footer_DecodeFrom_def Let_def
    by (simp add: lay BlockHandle_roundtrip)
qed

text \<open>The trailer of a block.\<close>

definition block_trailer :: "bytes \<Rightarrow> byte \<Rightarrow> bytes" where
  "block_trailer data type = type # EncodeFixed32 (Mask (crc_Value (data @ [type])))"

lemma length_block_trailer [simp]: "length (block_trailer data type) = kBlockTrailerSize"
  by (simp add: block_trailer_def kBlockTrailerSize_def)

text \<open>What a block is stored as, and what reading it gives.\<close>

definition stored_as :: "snappy \<Rightarrow> bytes \<Rightarrow> bytes \<Rightarrow> byte \<Rightarrow> bool" where
  "stored_as z raw data type \<longleftrightarrow> type = kNoCompression \<and> data = raw \<or>
     type = kSnappyCompression \<and> Snappy_Compress z raw = Some data"

lemma ReadBlock_stored:
  assumes "rd off (length data + kBlockTrailerSize) = (Status_OK, data @ block_trailer data type)"
    and "length data + kBlockTrailerSize < 2 ^ 64" and "stored_as z raw data type" and "snappy_correct z"
  shows "\<exists>c. ReadBlock z rd in_place verify \<lparr>bh_offset = off, bh_size = word_of_nat (length data)\<rparr> =
    Some (Status_OK, c) \<and> bc_data c = raw"
proof -
  let ?n = "word_of_nat (length data) :: u64"
  have n: "unat ?n = length data" using assms(2) by simp
  have total: "unat (?n + word_of_nat kBlockTrailerSize) = length data + kBlockTrailerSize"
    using assms(2) by (simp add: unat_word_ariths kBlockTrailerSize_def)
  have crc: "Unmask (DecodeFixed32 (drop (length data + 1) (data @ block_trailer data type))) =
      crc_Value (take (length data + 1) (data @ block_trailer data type))"
    by (simp add: block_trailer_def)
  have type: "(data @ block_trailer data type) ! length data = type" by (simp add: block_trailer_def)
  have ne: "kSnappyCompression \<noteq> kNoCompression" by (simp add: kSnappyCompression_def kNoCompression_def)
  show ?thesis
    using assms(1,3,4) crc type ne unfolding ReadBlock_def Let_def
    by (auto simp: n total stored_as_def snappy_correct_def)
qed

text \<open>
  Reading has a value unless the size of the handle is within the trailer size of \<open>2 ^ 64\<close>; in that
  case the sum of the two wraps and a file that answers the short read makes the code read outside
  of its buffer.
\<close>

lemma ReadBlock_undefined_iff:
  assumes "rd (bh_offset h) (unat (bh_size h + word_of_nat kBlockTrailerSize)) = (s, d)" and "ok s"
    and "length d = unat (bh_size h + word_of_nat kBlockTrailerSize)"
  shows "ReadBlock z rd in_place verify h = None \<longleftrightarrow> 2 ^ 64 \<le> unat (bh_size h) + kBlockTrailerSize"
proof -
  have "unat (bh_size h + word_of_nat kBlockTrailerSize) < unat (bh_size h) \<longleftrightarrow>
      2 ^ 64 \<le> unat (bh_size h) + kBlockTrailerSize"
  proof (cases "unat (bh_size h) + kBlockTrailerSize < 2 ^ 64")
    case True
    then show ?thesis by (simp add: unat_word_ariths kBlockTrailerSize_def)
  next
    case False
    then have "(unat (bh_size h) + kBlockTrailerSize) mod 2 ^ 64 = unat (bh_size h) + kBlockTrailerSize - 2 ^ 64"
      using unat_bounds(3) [of "bh_size h"] by (subst le_mod_geq) (simp_all add: kBlockTrailerSize_def)
    then show ?thesis using False unat_bounds(3) [of "bh_size h"] by (simp add: unat_word_ariths kBlockTrailerSize_def)
  qed
  then show ?thesis
    using assms by (auto simp: ReadBlock_def Let_def split: option.split)
qed

text \<open>A checksum that does not match is reported when checksums are verified.\<close>

lemma ReadBlock_checksum_error:
  assumes "rd off (length data + kBlockTrailerSize) = (Status_OK, data @ type # EncodeFixed32 m)"
    and "length data + kBlockTrailerSize < 2 ^ 64" and "m \<noteq> Mask (crc_Value (data @ [type]))"
  shows "ReadBlock z rd in_place True \<lparr>bh_offset = off, bh_size = word_of_nat (length data)\<rparr> =
    Some (Status_Corruption (str ''block checksum mismatch'') [], empty_BlockContents)"
proof -
  let ?n = "word_of_nat (length data) :: u64"
  have n: "unat ?n = length data" using assms(2) by simp
  have total: "unat (?n + word_of_nat kBlockTrailerSize) = length data + kBlockTrailerSize"
    using assms(2) by (simp add: unat_word_ariths kBlockTrailerSize_def)
  have "Unmask m \<noteq> crc_Value (data @ [type])"
    using assms(3) Mask_Unmask [of m] by metis
  moreover have "length (data @ type # EncodeFixed32 m) = length data + kBlockTrailerSize"
    by (simp add: kBlockTrailerSize_def)
  ultimately show ?thesis
    using assms(1) unfolding ReadBlock_def Let_def by (auto simp: n total)
qed

end
