(* ===== verification/LDB_Options.thy ===== *)
theory LDB_Options
  imports LDB_Comparator LDB_Bloom LDB_Format
begin

text \<open>
  \<^verbatim>\<open>include/leveldb/options.h\<close> and \<^verbatim>\<open>util/options.cc\<close>. The comparator and the filter policy of a database are
  records of the virtual functions of their classes. The environment, the logger and the cache are
  arguments of the functions that use them.
\<close>

record comparator_class =
  cmp_Name :: bytes
  cmp_Compare :: "bytes \<Rightarrow> bytes \<Rightarrow> int"
  cmp_FindShortestSeparator :: "bytes \<Rightarrow> bytes \<Rightarrow> bytes"
  cmp_FindShortSuccessor :: "bytes \<Rightarrow> bytes"

definition BytewiseComparator :: comparator_class where
  "BytewiseComparator =
     \<lparr>cmp_Name = str ''leveldb.BytewiseComparator'', cmp_Compare = BytewiseCompare,
      cmp_FindShortestSeparator = FindShortestSeparator, cmp_FindShortSuccessor = FindShortSuccessor\<rparr>"

record filter_policy_class =
  fp_Name :: bytes
  fp_CreateFilter :: "bytes list \<Rightarrow> bytes \<Rightarrow> bytes"
  fp_KeyMayMatch :: "bytes \<Rightarrow> bytes \<Rightarrow> bool"

definition NewBloomFilterPolicy :: "31 word \<Rightarrow> filter_policy_class" where
  "NewBloomFilterPolicy b =
     \<lparr>fp_Name = str ''leveldb.BuiltinBloomFilter2'',
      fp_CreateFilter = CreateFilter (BloomFilterPolicy b), fp_KeyMayMatch = KeyMayMatch\<rparr>"

record db_options =
  opt_comparator :: comparator_class
  opt_create_if_missing :: bool
  opt_error_if_exists :: bool
  opt_paranoid_checks :: bool
  opt_write_buffer_size :: nat
  opt_max_open_files :: int
  opt_block_size :: nat
  opt_block_restart_interval :: nat
  opt_max_file_size :: nat
  opt_compression :: byte
  opt_reuse_logs :: bool
  opt_filter_policy :: "filter_policy_class option"

definition Options :: db_options where
  "Options =
     \<lparr>opt_comparator = BytewiseComparator, opt_create_if_missing = False, opt_error_if_exists = False,
      opt_paranoid_checks = False, opt_write_buffer_size = 4 * 2 ^ 20, opt_max_open_files = 1000,
      opt_block_size = 4096, opt_block_restart_interval = 16, opt_max_file_size = 2 * 2 ^ 20,
      opt_compression = kSnappyCompression, opt_reuse_logs = False, opt_filter_policy = None\<rparr>"

record read_options =
  ro_verify_checksums :: bool
  ro_fill_cache :: bool
  ro_snapshot :: "u64 option"

definition ReadOptions :: read_options where
  "ReadOptions = \<lparr>ro_verify_checksums = False, ro_fill_cache = True, ro_snapshot = None\<rparr>"

record write_options =
  wo_sync :: bool

definition WriteOptions :: write_options where
  "WriteOptions = \<lparr>wo_sync = False\<rparr>"

end
