(* ===== verification/LDB_TwoLevel.thy ===== *)
theory LDB_TwoLevel
  imports LDB_Iterator LDB_Slice "HOL-Library.Monad_Syntax"
begin

text \<open>
  \<^verbatim>\<open>table/iterator_wrapper.h\<close> and \<^verbatim>\<open>table/two_level_iterator.cc\<close>: an index iterator whose values name
  blocks, and a block function that opens the iterator of a block. The two loops that skip empty
  blocks run as long as the index iterator is valid; they are partial functions, and inside the locale
  \<open>two_level\<close> they are shown to return.
\<close>

subsection \<open>The wrapper\<close>

record 'i iter_wrapper =
  iw_iter :: "'i option"
  iw_valid :: bool
  iw_key :: bytes

definition Wrapper_Update :: "'i iterator_class \<Rightarrow> 'i \<Rightarrow> 'i iter_wrapper \<Rightarrow> 'i iter_wrapper" where
  "Wrapper_Update ops it w =
     (let w = w\<lparr>iw_iter := Some it, iw_valid := it_Valid ops it\<rparr>
      in if iw_valid w then w\<lparr>iw_key := it_key ops it\<rparr> else w)"

definition Wrapper_Set :: "'i iterator_class \<Rightarrow> 'i option \<Rightarrow> 'i iter_wrapper \<Rightarrow> 'i iter_wrapper" where
  "Wrapper_Set ops iter w =
     (case iter of None \<Rightarrow> w\<lparr>iw_iter := None, iw_valid := False\<rparr> | Some it \<Rightarrow> Wrapper_Update ops it w)"

definition new_Wrapper :: "'i iterator_class \<Rightarrow> 'i option \<Rightarrow> 'i iter_wrapper" where
  "new_Wrapper ops iter = Wrapper_Set ops iter \<lparr>iw_iter = None, iw_valid = False, iw_key = []\<rparr>"

text \<open>The methods that require an iterator; the wrapper calls it and updates the cached fields.\<close>

definition Wrapper_apply :: "'i iterator_class \<Rightarrow> ('i \<Rightarrow> 'i) \<Rightarrow> 'i iter_wrapper \<Rightarrow> 'i iter_wrapper" where
  "Wrapper_apply ops f w = (case iw_iter w of None \<Rightarrow> w | Some it \<Rightarrow> Wrapper_Update ops (f it) w)"

definition Wrapper_value :: "'i iterator_class \<Rightarrow> 'i iter_wrapper \<Rightarrow> bytes" where
  "Wrapper_value ops w = (case iw_iter w of None \<Rightarrow> [] | Some it \<Rightarrow> it_value ops it)"

definition Wrapper_status :: "'i iterator_class \<Rightarrow> 'i iter_wrapper \<Rightarrow> status" where
  "Wrapper_status ops w = (case iw_iter w of None \<Rightarrow> Status_OK | Some it \<Rightarrow> it_status ops it)"

text \<open>A wrapper agrees with its iterator.\<close>

definition wraps :: "'i iterator_class \<Rightarrow> 'i iter_wrapper \<Rightarrow> 'i \<Rightarrow> bool" where
  "wraps ops w it \<longleftrightarrow> iw_iter w = Some it \<and> iw_valid w = it_Valid ops it \<and> (iw_valid w \<longrightarrow> iw_key w = it_key ops it)"

lemma wraps_Update [simp]: "wraps ops (Wrapper_Update ops it w) it"
  by (simp add: wraps_def Wrapper_Update_def Let_def)

lemma wraps_Set [simp]: "wraps ops (Wrapper_Set ops (Some it) w) it"
  by (simp add: Wrapper_Set_def)

lemma wraps_apply: "wraps ops w it \<Longrightarrow> wraps ops (Wrapper_apply ops f w) (f it)"
  by (simp add: Wrapper_apply_def wraps_def Wrapper_Update_def Let_def)

lemma Wrapper_Set_None [simp]:
  "iw_iter (Wrapper_Set ops None w) = None" "\<not> iw_valid (Wrapper_Set ops None w)"
  by (simp_all add: Wrapper_Set_def)

subsection \<open>The iterator\<close>

record ('i, 'd) two_level_iter =
  tl_status :: status
  tl_index_iter :: "'i iter_wrapper"
  tl_data_iter :: "'d iter_wrapper"
  tl_data_block_handle :: bytes

text \<open>The classes of the index and of the data iterators, and the block function with its argument.\<close>

record ('i, 'd) two_level_env =
  te_index :: "'i iterator_class"
  te_data :: "'d iterator_class"
  te_block_function :: "bytes \<Rightarrow> 'd"

definition NewTwoLevelIterator :: "('i, 'd) two_level_env \<Rightarrow> 'i \<Rightarrow> ('i, 'd) two_level_iter" where
  "NewTwoLevelIterator te index_iter =
     \<lparr>tl_status = Status_OK, tl_index_iter = new_Wrapper (te_index te) (Some index_iter),
      tl_data_iter = new_Wrapper (te_data te) None, tl_data_block_handle = []\<rparr>"

definition TwoLevel_Valid :: "('i, 'd) two_level_iter \<Rightarrow> bool" where
  "TwoLevel_Valid t = iw_valid (tl_data_iter t)"

definition TwoLevel_key :: "('i, 'd) two_level_iter \<Rightarrow> bytes" where
  "TwoLevel_key t = iw_key (tl_data_iter t)"

definition TwoLevel_value :: "('i, 'd) two_level_env \<Rightarrow> ('i, 'd) two_level_iter \<Rightarrow> bytes" where
  "TwoLevel_value te t = Wrapper_value (te_data te) (tl_data_iter t)"

definition TwoLevel_status :: "('i, 'd) two_level_env \<Rightarrow> ('i, 'd) two_level_iter \<Rightarrow> status" where
  "TwoLevel_status te t =
     (if \<not> ok (Wrapper_status (te_index te) (tl_index_iter t)) then Wrapper_status (te_index te) (tl_index_iter t)
      else if iw_iter (tl_data_iter t) \<noteq> None \<and> \<not> ok (Wrapper_status (te_data te) (tl_data_iter t))
      then Wrapper_status (te_data te) (tl_data_iter t)
      else tl_status t)"

definition SaveError :: "status \<Rightarrow> ('i, 'd) two_level_iter \<Rightarrow> ('i, 'd) two_level_iter" where
  "SaveError s t = (if ok (tl_status t) \<and> \<not> ok s then t\<lparr>tl_status := s\<rparr> else t)"

definition SetDataIterator ::
    "('i, 'd) two_level_env \<Rightarrow> 'd option \<Rightarrow> ('i, 'd) two_level_iter \<Rightarrow> ('i, 'd) two_level_iter" where
  "SetDataIterator te data_iter t =
     (let t = (if iw_iter (tl_data_iter t) \<noteq> None
               then SaveError (Wrapper_status (te_data te) (tl_data_iter t)) t else t)
      in t\<lparr>tl_data_iter := Wrapper_Set (te_data te) data_iter (tl_data_iter t)\<rparr>)"

definition InitDataBlock :: "('i, 'd) two_level_env \<Rightarrow> ('i, 'd) two_level_iter \<Rightarrow> ('i, 'd) two_level_iter" where
  "InitDataBlock te t =
     (if \<not> iw_valid (tl_index_iter t) then SetDataIterator te None t
      else
        let handle = Wrapper_value (te_index te) (tl_index_iter t)
        in if iw_iter (tl_data_iter t) \<noteq> None \<and> slice_compare handle (tl_data_block_handle t) = 0 then t
           else
             let iter = te_block_function te handle;
                 t = t\<lparr>tl_data_block_handle := handle\<rparr>
             in SetDataIterator te (Some iter) t)"

definition data_apply ::
    "('i, 'd) two_level_env \<Rightarrow> ('d \<Rightarrow> 'd) \<Rightarrow> ('i, 'd) two_level_iter \<Rightarrow> ('i, 'd) two_level_iter" where
  "data_apply te f t = t\<lparr>tl_data_iter := Wrapper_apply (te_data te) f (tl_data_iter t)\<rparr>"

definition index_apply ::
    "('i, 'd) two_level_env \<Rightarrow> ('i \<Rightarrow> 'i) \<Rightarrow> ('i, 'd) two_level_iter \<Rightarrow> ('i, 'd) two_level_iter" where
  "index_apply te f t = t\<lparr>tl_index_iter := Wrapper_apply (te_index te) f (tl_index_iter t)\<rparr>"

partial_function (option) SkipEmptyDataBlocksForward ::
    "('i, 'd) two_level_env \<Rightarrow> ('i, 'd) two_level_iter \<Rightarrow> ('i, 'd) two_level_iter option" where
  "SkipEmptyDataBlocksForward te t =
     (if iw_iter (tl_data_iter t) = None \<or> \<not> iw_valid (tl_data_iter t) then
        if \<not> iw_valid (tl_index_iter t) then Some (SetDataIterator te None t)
        else
          let t = InitDataBlock te (index_apply te (it_Next (te_index te)) t);
              t = data_apply te (it_SeekToFirst (te_data te)) t
          in SkipEmptyDataBlocksForward te t
      else Some t)"

partial_function (option) SkipEmptyDataBlocksBackward ::
    "('i, 'd) two_level_env \<Rightarrow> ('i, 'd) two_level_iter \<Rightarrow> ('i, 'd) two_level_iter option" where
  "SkipEmptyDataBlocksBackward te t =
     (if iw_iter (tl_data_iter t) = None \<or> \<not> iw_valid (tl_data_iter t) then
        if \<not> iw_valid (tl_index_iter t) then Some (SetDataIterator te None t)
        else
          let t = InitDataBlock te (index_apply te (it_Prev (te_index te)) t);
              t = data_apply te (it_SeekToLast (te_data te)) t
          in SkipEmptyDataBlocksBackward te t
      else Some t)"

definition TwoLevel_Seek ::
    "('i, 'd) two_level_env \<Rightarrow> ('i, 'd) two_level_iter \<Rightarrow> bytes \<Rightarrow> ('i, 'd) two_level_iter option" where
  "TwoLevel_Seek te t target =
     (let t = InitDataBlock te (index_apply te (\<lambda>it. it_Seek (te_index te) it target) t);
          t = data_apply te (\<lambda>it. it_Seek (te_data te) it target) t
      in SkipEmptyDataBlocksForward te t)"

definition TwoLevel_SeekToFirst ::
    "('i, 'd) two_level_env \<Rightarrow> ('i, 'd) two_level_iter \<Rightarrow> ('i, 'd) two_level_iter option" where
  "TwoLevel_SeekToFirst te t =
     (let t = InitDataBlock te (index_apply te (it_SeekToFirst (te_index te)) t);
          t = data_apply te (it_SeekToFirst (te_data te)) t
      in SkipEmptyDataBlocksForward te t)"

definition TwoLevel_SeekToLast ::
    "('i, 'd) two_level_env \<Rightarrow> ('i, 'd) two_level_iter \<Rightarrow> ('i, 'd) two_level_iter option" where
  "TwoLevel_SeekToLast te t =
     (let t = InitDataBlock te (index_apply te (it_SeekToLast (te_index te)) t);
          t = data_apply te (it_SeekToLast (te_data te)) t
      in SkipEmptyDataBlocksBackward te t)"

definition TwoLevel_Next ::
    "('i, 'd) two_level_env \<Rightarrow> ('i, 'd) two_level_iter \<Rightarrow> ('i, 'd) two_level_iter option" where
  "TwoLevel_Next te t = SkipEmptyDataBlocksForward te (data_apply te (it_Next (te_data te)) t)"

definition TwoLevel_Prev ::
    "('i, 'd) two_level_env \<Rightarrow> ('i, 'd) two_level_iter \<Rightarrow> ('i, 'd) two_level_iter option" where
  "TwoLevel_Prev te t = SkipEmptyDataBlocksBackward te (data_apply te (it_Prev (te_data te)) t)"

definition TwoLevel_class :: "('i, 'd) two_level_env \<Rightarrow> ('i, 'd) two_level_iter iterator_class" where
  "TwoLevel_class te =
     \<lparr>it_Valid = TwoLevel_Valid, it_SeekToFirst = (\<lambda>t. the (TwoLevel_SeekToFirst te t)),
      it_SeekToLast = (\<lambda>t. the (TwoLevel_SeekToLast te t)),
      it_Seek = (\<lambda>t target. the (TwoLevel_Seek te t target)), it_Next = (\<lambda>t. the (TwoLevel_Next te t)),
      it_Prev = (\<lambda>t. the (TwoLevel_Prev te t)), it_key = TwoLevel_key, it_value = TwoLevel_value te,
      it_status = TwoLevel_status te\<rparr>"

subsection \<open>Two levels make one list\<close>

text \<open>
  What the two-level iterator relies on: the index iterator meets its contract, a handle opens an
  iterator that meets the contract of the block with that handle, and the index is in step with the
  blocks: a seek in the index leads to the block in which the target belongs.
\<close>

locale two_level =
  fixes te :: "('i, 'd) two_level_env"
    and icmp cmp :: "bytes \<Rightarrow> bytes \<Rightarrow> int"
    and idx :: "entry list"
    and blocks :: "entry list list"
    and istands :: "'i \<Rightarrow> nat \<Rightarrow> bool"
    and dstands :: "bytes \<Rightarrow> 'd \<Rightarrow> nat \<Rightarrow> bool"
    and target_ok :: "bytes \<Rightarrow> bool"
  assumes index_iter: "entry_iterator (te_index te) icmp idx istands target_ok"
    and same_length: "length blocks = length idx"
    and data_iter: "j < length idx \<Longrightarrow>
      entry_iterator (te_data te) cmp (blocks ! j) (dstands (snd (idx ! j))) target_ok"
    and open_block_at: "j < length idx \<Longrightarrow>
      dstands (snd (idx ! j)) (te_block_function te (snd (idx ! j))) (length (blocks ! j))"
    and index_seek: "target_ok t \<Longrightarrow> i < length idx \<Longrightarrow> e \<in> set (blocks ! i) \<Longrightarrow>
      (i < first_ge icmp idx t \<longrightarrow> cmp (fst e) t < 0) \<and> (first_ge icmp idx t < i \<longrightarrow> 0 \<le> cmp (fst e) t)"
begin

text \<open>The first entry of a block in the list of all entries.\<close>

definition block_start :: "nat \<Rightarrow> nat" where
  "block_start j = length (concat (take j blocks))"

text \<open>
  The states between two steps of an operation: the index stands at \<open>j\<close>, and the data iterator at entry
  \<open>i\<close> of that block, or there is none when the index is not valid.
\<close>

definition inner :: "('i, 'd) two_level_iter \<Rightarrow> nat \<Rightarrow> nat \<Rightarrow> bool" where
  "inner t j i \<longleftrightarrow> ok (tl_status t) \<and> (\<exists>it. wraps (te_index te) (tl_index_iter t) it \<and> istands it j) \<and>
     (if j < length idx
      then tl_data_block_handle t = snd (idx ! j) \<and>
        (\<exists>d. wraps (te_data te) (tl_data_iter t) d \<and> dstands (snd (idx ! j)) d i)
      else iw_iter (tl_data_iter t) = None \<and> \<not> iw_valid (tl_data_iter t))"

definition tl_stands :: "('i, 'd) two_level_iter \<Rightarrow> nat \<Rightarrow> bool" where
  "tl_stands t p \<longleftrightarrow>
     (\<exists>j i. inner t j i \<and> j < length idx \<and> i < length (blocks ! j) \<and> p = block_start j + i) \<or>
     (p = length (concat blocks) \<and> ok (tl_status t) \<and> iw_iter (tl_data_iter t) = None \<and> \<not> iw_valid (tl_data_iter t) \<and>
      (\<exists>it j. wraps (te_index te) (tl_index_iter t) it \<and> istands it j))"

text \<open>Any state a client can leave the iterator in: the data iterator belongs to the handle.\<close>

definition loose :: "('i, 'd) two_level_iter \<Rightarrow> bool" where
  "loose t \<longleftrightarrow> ok (tl_status t) \<and>
     (iw_iter (tl_data_iter t) = None \<and> \<not> iw_valid (tl_data_iter t) \<or>
      (\<exists>k d i. k < length idx \<and> tl_data_block_handle t = snd (idx ! k) \<and>
        wraps (te_data te) (tl_data_iter t) d \<and> dstands (snd (idx ! k)) d i))"

lemma inner_loose: "inner t j i \<Longrightarrow> loose t"
  unfolding inner_def loose_def by (cases "j < length idx") auto

lemma stands_loose: "tl_stands t p \<Longrightarrow> loose t"
  unfolding tl_stands_def using inner_loose by (auto simp: loose_def)

lemma index_wraps: "tl_stands t p \<Longrightarrow> \<exists>it j. wraps (te_index te) (tl_index_iter t) it \<and> istands it j"
  unfolding tl_stands_def inner_def by blast

lemma loose_status: "loose t \<Longrightarrow> iw_iter (tl_data_iter t) \<noteq> None \<Longrightarrow> ok (Wrapper_status (te_data te) (tl_data_iter t))"
  unfolding loose_def wraps_def Wrapper_status_def
  by (auto dest: entry_iterator.status_at [OF data_iter])

lemma loose_Set: "loose t \<Longrightarrow> SetDataIterator te x t = t\<lparr>tl_data_iter := Wrapper_Set (te_data te) x (tl_data_iter t)\<rparr>"
  using loose_status [of t] by (simp add: SetDataIterator_def SaveError_def Let_def)

lemma slice_compare_zero: "slice_compare a b = 0 \<longleftrightarrow> a = b"
  by (simp add: slice_compare_iffs)

lemma Init_inner:
  assumes "loose t" and "wraps (te_index te) (tl_index_iter t) it" and "istands it j"
  shows "\<exists>i. inner (InitDataBlock te t) j i \<and> (j < length idx \<longrightarrow> i \<le> length (blocks ! j))"
proof (cases "j < length idx")
  case False
  then have "\<not> iw_valid (tl_index_iter t)"
    using assms(2,3) entry_iterator.valid_iff [OF index_iter] by (auto simp: wraps_def)
  then show ?thesis
    using assms False by (auto simp: InitDataBlock_def loose_Set inner_def loose_def)
next
  case True
  then have v: "iw_valid (tl_index_iter t)" "Wrapper_value (te_index te) (tl_index_iter t) = snd (idx ! j)"
    using assms(2,3) entry_iterator.valid_iff [OF index_iter] entry_iterator.value_at [OF index_iter]
    by (auto simp: wraps_def Wrapper_value_def)
  show ?thesis
  proof (cases "iw_iter (tl_data_iter t) \<noteq> None \<and> snd (idx ! j) = tl_data_block_handle t")
    case same: True
    then obtain d i where d: "wraps (te_data te) (tl_data_iter t) d" "dstands (snd (idx ! j)) d i"
      using assms(1) unfolding loose_def by auto
    then have "i \<le> length (blocks ! j)" using entry_iterator.stands_le [OF data_iter [OF True]] by blast
    moreover have "InitDataBlock te t = t"
      using same v by (simp add: InitDataBlock_def slice_compare_zero Let_def)
    ultimately show ?thesis
      using assms same d True by (auto simp: inner_def loose_def)
  next
    case False
    have "loose (t\<lparr>tl_data_block_handle := snd (idx ! j)\<rparr>)
        \<or> loose t" using assms(1) by blast
    have "InitDataBlock te t = SetDataIterator te (Some (te_block_function te (snd (idx ! j))))
        (t\<lparr>tl_data_block_handle := snd (idx ! j)\<rparr>)"
      using False v by (auto simp: InitDataBlock_def slice_compare_zero Let_def)
    also have "\<dots> = (SetDataIterator te (Some (te_block_function te (snd (idx ! j)))) t)
        \<lparr>tl_data_block_handle := snd (idx ! j)\<rparr>"
      by (simp add: SetDataIterator_def SaveError_def Let_def)
    finally have "InitDataBlock te t = t\<lparr>tl_data_iter := Wrapper_Set (te_data te)
        (Some (te_block_function te (snd (idx ! j)))) (tl_data_iter t), tl_data_block_handle := snd (idx ! j)\<rparr>"
      using loose_Set [OF assms(1)] by simp
    then show ?thesis
      using assms open_block_at [OF True] True
      by (intro exI [of _ "length (blocks ! j)"]) (auto simp: inner_def loose_def intro: wraps_Set)
  qed
qed

lemma data_apply_inner:
  assumes "inner t j i" and "\<And>d. j < length idx \<Longrightarrow> dstands (snd (idx ! j)) d i \<Longrightarrow> dstands (snd (idx ! j)) (f d) i'"
  shows "inner (data_apply te f t) j i'"
proof (cases "j < length idx")
  case True
  then show ?thesis
    using assms wraps_apply [of "te_data te" "tl_data_iter t" _ f] unfolding inner_def data_apply_def by auto
next
  case False
  then show ?thesis using assms(1) by (auto simp: inner_def data_apply_def Wrapper_apply_def)
qed

lemma index_apply_loose: "loose t \<Longrightarrow> loose (index_apply te f t)"
  by (simp add: loose_def index_apply_def)

lemma move_inner:
  assumes "loose t" and "wraps (te_index te) (tl_index_iter t) it" and "istands (f it) j"
  shows "\<exists>i. inner (InitDataBlock te (index_apply te f t)) j i \<and> (j < length idx \<longrightarrow> i \<le> length (blocks ! j))"
proof -
  have "wraps (te_index te) (tl_index_iter (index_apply te f t)) (f it)"
    using wraps_apply [OF assms(2), of f] by (simp add: index_apply_def)
  then show ?thesis using Init_inner [OF index_apply_loose [OF assms(1)] _ assms(3)] by blast
qed

lemma inner_valid:
  assumes "inner t j i"
  shows "iw_valid (tl_index_iter t) \<longleftrightarrow> j < length idx"
    and "iw_iter (tl_data_iter t) = None \<or> \<not> iw_valid (tl_data_iter t) \<longleftrightarrow> \<not> (j < length idx \<and> i < length (blocks ! j))"
  using assms entry_iterator.valid_iff [OF index_iter] entry_iterator.valid_iff [OF data_iter]
  unfolding inner_def wraps_def by (auto split: if_splits)

lemma block_start_Suc: "j < length idx \<Longrightarrow> block_start (Suc j) = block_start j + length (blocks ! j)"
  using same_length by (simp add: block_start_def take_Suc_conv_app_nth)

lemma block_start_end: "length idx \<le> j \<Longrightarrow> block_start j = length (concat blocks)"
  using same_length by (simp add: block_start_def)

lemma block_start_less: "j < length idx \<Longrightarrow> i < length (blocks ! j) \<Longrightarrow> block_start j + i < length (concat blocks)"
  using same_length concat_split_nth [of j blocks] by (simp add: block_start_def)

lemma nth_concat_block:
  assumes "j < length idx" and "i < length (blocks ! j)"
  shows "concat blocks ! (block_start j + i) = blocks ! j ! i"
  using same_length assms by (subst concat_split_nth [of j blocks]) (simp_all add: block_start_def nth_append)

lemma inner_stands: "inner t j i \<Longrightarrow> j < length idx \<Longrightarrow> i < length (blocks ! j) \<Longrightarrow> tl_stands t (block_start j + i)"
  unfolding tl_stands_def by blast

lemma off_end_stands:
  assumes "inner t j i" and "length idx \<le> j"
  shows "tl_stands (SetDataIterator te None t) (length (concat blocks))"
  using assms loose_Set [OF inner_loose [OF assms(1)], of None] unfolding tl_stands_def inner_def by auto

lemma skip_forward:
  assumes "inner t j i" and "j < length idx \<Longrightarrow> i \<le> length (blocks ! j)"
  shows "\<exists>t'. SkipEmptyDataBlocksForward te t = Some t' \<and>
    tl_stands t' (if j < length idx then block_start j + i else length (concat blocks))"
  using assms
proof (induction "length idx - j" arbitrary: j i t)
  case 0
  then have "SkipEmptyDataBlocksForward te t = Some (SetDataIterator te None t)"
    using inner_valid [of t j i] by (subst SkipEmptyDataBlocksForward.simps) simp
  then show ?case using off_end_stands [of t j i] 0 by simp
next
  case (Suc n)
  then have j: "j < length idx" by simp
  show ?case
  proof (cases "i < length (blocks ! j)")
    case True
    then have "SkipEmptyDataBlocksForward te t = Some t"
      using inner_valid [of t j i] Suc.prems j by (subst SkipEmptyDataBlocksForward.simps) auto
    then show ?thesis using inner_stands [of t j i] Suc.prems True j by simp
  next
    case False
    then have i: "i = length (blocks ! j)" using Suc.prems(2) j by simp
    obtain it where it: "wraps (te_index te) (tl_index_iter t) it" "istands it j"
      using Suc.prems(1) by (auto simp: inner_def)
    have "istands (it_Next (te_index te) it) (Suc j)"
      using entry_iterator.next_at [OF index_iter it(2) j] .
    then obtain i1 where "inner (InitDataBlock te (index_apply te (it_Next (te_index te)) t)) (Suc j) i1"
      using move_inner [OF inner_loose [OF Suc.prems(1)] it(1)] by blast
    then have in2: "inner (data_apply te (it_SeekToFirst (te_data te))
        (InitDataBlock te (index_apply te (it_Next (te_index te)) t))) (Suc j) 0" (is "inner ?t2 _ _")
      by (rule data_apply_inner) (rule entry_iterator.first_at [OF data_iter])
    have "SkipEmptyDataBlocksForward te t = SkipEmptyDataBlocksForward te ?t2"
      using inner_valid [OF Suc.prems(1)] False j by (subst SkipEmptyDataBlocksForward.simps) (simp add: Let_def)
    moreover have "(if Suc j < length idx then block_start (Suc j) + 0 else length (concat blocks)) = block_start j + i"
      using block_start_Suc [OF j] block_start_end [of "Suc j"] i by simp
    ultimately show ?thesis using Suc.hyps(1) [OF _ in2] Suc.hyps(2) j by simp
  qed
qed

text \<open>The last entry in front of block \<open>j\<close>, or the position behind all entries.\<close>

definition before_block :: "nat \<Rightarrow> nat" where
  "before_block j = (if block_start j = 0 then length (concat blocks) else block_start j - 1)"

lemma skip_backward_off:
  assumes "inner t j i" and "length idx \<le> j"
  shows "\<exists>t'. SkipEmptyDataBlocksBackward te t = Some t' \<and> tl_stands t' (length (concat blocks))"
  using off_end_stands [OF assms] inner_valid [OF assms(1)] assms(2)
  by (subst SkipEmptyDataBlocksBackward.simps) simp

lemma skip_backward:
  assumes "inner t j i" and "j < length idx" and "i \<le> length (blocks ! j)"
  shows "\<exists>t'. SkipEmptyDataBlocksBackward te t = Some t' \<and>
    tl_stands t' (if i < length (blocks ! j) then block_start j + i else before_block j)"
  using assms
proof (induction j arbitrary: i t rule: less_induct)
  case (less j)
  show ?case
  proof (cases "i < length (blocks ! j)")
    case True
    then have "SkipEmptyDataBlocksBackward te t = Some t"
      using inner_valid [OF less.prems(1)] less.prems(2) by (subst SkipEmptyDataBlocksBackward.simps) auto
    then show ?thesis using inner_stands less.prems True by simp
  next
    case False
    obtain it where it: "wraps (te_index te) (tl_index_iter t) it" "istands it j"
      using less.prems(1) by (auto simp: inner_def)
    let ?j = "if j = 0 then length idx else j - 1"
    let ?t2 = "data_apply te (it_SeekToLast (te_data te)) (InitDataBlock te (index_apply te (it_Prev (te_index te)) t))"
    have "istands (it_Prev (te_index te) it) ?j"
      using entry_iterator.prev_at [OF index_iter it(2) less.prems(2)] .
    then obtain i1 where "inner (InitDataBlock te (index_apply te (it_Prev (te_index te)) t)) ?j i1"
      using move_inner [OF inner_loose [OF less.prems(1)] it(1)] by blast
    then have in2: "inner ?t2 ?j (length (blocks ! ?j) - 1)"
      by (rule data_apply_inner) (rule entry_iterator.last_at [OF data_iter])
    have skip: "SkipEmptyDataBlocksBackward te t = SkipEmptyDataBlocksBackward te ?t2"
      using inner_valid [OF less.prems(1)] False less.prems(2)
      by (subst SkipEmptyDataBlocksBackward.simps) (simp add: Let_def)
    show ?thesis
    proof (cases "j = 0")
      case True
      then have "before_block j = length (concat blocks)" by (simp add: before_block_def block_start_def)
      then show ?thesis using skip_backward_off [OF in2] skip True False by simp
    next
      case j0: False
      then have j1: "j - 1 < length idx" "Suc (j - 1) = j" using less.prems(2) by simp_all
      have pos: "before_block j = (if length (blocks ! (j - 1)) - 1 < length (blocks ! (j - 1))
          then block_start (j - 1) + (length (blocks ! (j - 1)) - 1) else before_block (j - 1))"
        using block_start_Suc [OF j1(1)] unfolding j1(2) before_block_def
        by (cases "blocks ! (j - 1)") simp_all
      have "inner ?t2 (j - 1) (length (blocks ! (j - 1)) - 1)" using in2 j0 by simp
      from less.IH [OF _ this j1(1)] show ?thesis
        unfolding pos [symmetric] skip using False j0 by simp
    qed
  qed
qed

lemma first_ge_concat:
  assumes "target_ok t"
  defines "j \<equiv> first_ge icmp idx t"
  shows "first_ge cmp (concat blocks) t =
    (if j < length idx then block_start j + first_ge cmp (blocks ! j) t else length (concat blocks))"
proof -
  let ?P = "\<lambda>e. cmp (fst e) t < 0"
  have pre: "?P e" if e: "e \<in> set (concat (take j blocks))" for e
  proof -
    obtain i where "i < length (take j blocks)" "e \<in> set (take j blocks ! i)"
      using e by (auto simp: in_set_conv_nth [of _ "take j blocks"])
    then show ?thesis using same_length index_seek [OF assms(1), of i e] by (simp add: j_def)
  qed
  show ?thesis
  proof (cases "j < length idx")
    case True
    have "\<not> ?P e" if e: "e \<in> set (concat (drop (Suc j) blocks))" for e
    proof -
      obtain i where "i < length (drop (Suc j) blocks)" "e \<in> set (drop (Suc j) blocks ! i)"
        using e by (auto simp: in_set_conv_nth [of _ "drop (Suc j) blocks"])
      then have "Suc j + i < length idx" "e \<in> set (blocks ! (Suc j + i))" using same_length by simp_all
      then show ?thesis using index_seek [OF assms(1), of "Suc j + i" e] by (simp add: j_def)
    qed
    then have "takeWhile ?P (concat (drop (Suc j) blocks)) = []"
      by (metis list.set_sel(1) takeWhile_eq_Nil_iff)
    then have "takeWhile ?P (blocks ! j @ concat (drop (Suc j) blocks)) = takeWhile ?P (blocks ! j)"
      by (rule takeWhile_append_stop)
    moreover have "concat blocks = concat (take j blocks) @ blocks ! j @ concat (drop (Suc j) blocks)"
      by (rule concat_split_nth) (use True same_length in simp)
    ultimately have "takeWhile ?P (concat blocks) = concat (take j blocks) @ takeWhile ?P (blocks ! j)"
      using takeWhile_append2 [of "concat (take j blocks)" ?P] pre by simp
    then show ?thesis using True by (simp add: first_ge_def block_start_def)
  next
    case False
    then have "take j blocks = blocks" using same_length by simp
    then have "takeWhile ?P (concat blocks) = concat blocks" using pre by (simp add: takeWhile_eq_all_conv)
    then have "first_ge cmp (concat blocks) t = length (concat blocks)" by (simp only: first_ge_def)
    then show ?thesis using False by simp
  qed
qed

lemma at_position:
  assumes "tl_stands t p"
  shows "p \<le> length (concat blocks)" and "TwoLevel_Valid t \<longleftrightarrow> p < length (concat blocks)"
    and "p < length (concat blocks) \<Longrightarrow> TwoLevel_key t = fst (concat blocks ! p) \<and>
      TwoLevel_value te t = snd (concat blocks ! p)"
    and "ok (TwoLevel_status te t)"
proof -
  have "p \<le> length (concat blocks) \<and> (TwoLevel_Valid t \<longleftrightarrow> p < length (concat blocks)) \<and>
    (p < length (concat blocks) \<longrightarrow> TwoLevel_key t = fst (concat blocks ! p) \<and>
      TwoLevel_value te t = snd (concat blocks ! p))"
    using assms unfolding tl_stands_def
  proof
    assume "\<exists>j i. inner t j i \<and> j < length idx \<and> i < length (blocks ! j) \<and> p = block_start j + i"
    then obtain j i where ji: "inner t j i" "j < length idx" "i < length (blocks ! j)" "p = block_start j + i" by blast
    then obtain d where d: "wraps (te_data te) (tl_data_iter t) d" "dstands (snd (idx ! j)) d i"
      by (auto simp: inner_def)
    note D = entry_iterator.valid_iff [OF data_iter [OF ji(2)] d(2)] entry_iterator.key_at [OF data_iter [OF ji(2)] d(2) ji(3)]
      entry_iterator.value_at [OF data_iter [OF ji(2)] d(2) ji(3)]
    show ?thesis
      using D d(1) ji(3,4) block_start_less [OF ji(2,3)] nth_concat_block [OF ji(2,3)]
      by (simp add: TwoLevel_Valid_def TwoLevel_key_def TwoLevel_value_def wraps_def Wrapper_value_def)
  qed (simp add: TwoLevel_Valid_def)
  then show "p \<le> length (concat blocks)" "TwoLevel_Valid t \<longleftrightarrow> p < length (concat blocks)"
    "p < length (concat blocks) \<Longrightarrow> TwoLevel_key t = fst (concat blocks ! p) \<and>
      TwoLevel_value te t = snd (concat blocks ! p)" by blast+
  obtain it j where "wraps (te_index te) (tl_index_iter t) it" "istands it j" using index_wraps [OF assms] by blast
  then have "ok (Wrapper_status (te_index te) (tl_index_iter t))"
    using entry_iterator.status_at [OF index_iter] by (simp add: wraps_def Wrapper_status_def)
  then show "ok (TwoLevel_status te t)"
    using loose_status [OF stands_loose [OF assms]] stands_loose [OF assms]
    unfolding TwoLevel_status_def loose_def by (cases "iw_iter (tl_data_iter t)") simp_all
qed

lemma start_move:
  assumes "tl_stands t p" and "\<And>it j. istands it j \<Longrightarrow> istands (f it) j'"
    and "\<And>d i. j' < length idx \<Longrightarrow> dstands (snd (idx ! j')) d i \<Longrightarrow> dstands (snd (idx ! j')) (g d) i'"
  shows "inner (data_apply te g (InitDataBlock te (index_apply te f t))) j' i'"
proof -
  obtain it j where it: "wraps (te_index te) (tl_index_iter t) it" "istands it j"
    using index_wraps [OF assms(1)] by blast
  obtain i where "inner (InitDataBlock te (index_apply te f t)) j' i"
    using move_inner [OF stands_loose [OF assms(1)] it(1), of f j'] assms(2) [OF it(2)] by blast
  then show ?thesis using assms(3) by (rule data_apply_inner)
qed

lemma Seek_stands:
  assumes "tl_stands t p" and "target_ok target"
  shows "\<exists>t'. TwoLevel_Seek te t target = Some t' \<and> tl_stands t' (first_ge cmp (concat blocks) target)"
proof -
  let ?j = "first_ge icmp idx target"
  have "inner (data_apply te (\<lambda>it. it_Seek (te_data te) it target)
      (InitDataBlock te (index_apply te (\<lambda>it. it_Seek (te_index te) it target) t))) ?j (first_ge cmp (blocks ! ?j) target)"
    using assms entry_iterator.seek_at [OF index_iter _ assms(2)] entry_iterator.seek_at [OF data_iter _ assms(2)]
    by (intro start_move) auto
  from skip_forward [OF this first_ge_le] show ?thesis
    by (simp add: TwoLevel_Seek_def Let_def first_ge_concat [OF assms(2)])
qed

lemma First_stands:
  assumes "tl_stands t p"
  shows "\<exists>t'. TwoLevel_SeekToFirst te t = Some t' \<and> tl_stands t' 0"
proof -
  have "inner (data_apply te (it_SeekToFirst (te_data te))
      (InitDataBlock te (index_apply te (it_SeekToFirst (te_index te)) t))) 0 0"
    using assms entry_iterator.first_at [OF index_iter] entry_iterator.first_at [OF data_iter]
    by (intro start_move) auto
  moreover have "(if 0 < length idx then block_start 0 + 0 else length (concat blocks)) = 0"
    using block_start_end [of 0] by (simp add: block_start_def)
  ultimately show ?thesis
    using skip_forward [of _ 0 0] unfolding TwoLevel_SeekToFirst_def Let_def by auto
qed

lemma Last_stands:
  assumes "tl_stands t p"
  shows "\<exists>t'. TwoLevel_SeekToLast te t = Some t' \<and> tl_stands t' (length (concat blocks) - 1)"
proof -
  let ?j = "length idx - 1"
  let ?t1 = "data_apply te (it_SeekToLast (te_data te))
      (InitDataBlock te (index_apply te (it_SeekToLast (te_index te)) t))"
  have in1: "inner ?t1 ?j (length (blocks ! ?j) - 1)"
    using assms entry_iterator.last_at [OF index_iter] entry_iterator.last_at [OF data_iter]
    by (intro start_move) auto
  show ?thesis
  proof (cases "idx = []")
    case True
    then show ?thesis
      using skip_backward_off [OF in1] same_length by (simp add: TwoLevel_SeekToLast_def Let_def)
  next
    case False
    then have j: "?j < length idx" "Suc ?j = length idx" by (cases idx; simp)+
    have total: "length (concat blocks) = block_start ?j + length (blocks ! ?j)"
      using block_start_Suc [OF j(1)] block_start_end [of "length idx"] j(2) by simp
    then have "(if length (blocks ! ?j) - 1 < length (blocks ! ?j) then block_start ?j + (length (blocks ! ?j) - 1)
        else before_block ?j) = length (concat blocks) - 1"
      by (cases "blocks ! ?j") (simp_all add: before_block_def)
    then show ?thesis using skip_backward [OF in1 j(1)] by (simp add: TwoLevel_SeekToLast_def Let_def)
  qed
qed

lemma stands_inner:
  assumes "tl_stands t p" and "p < length (concat blocks)"
  obtains j i where "inner t j i" "j < length idx" "i < length (blocks ! j)" "p = block_start j + i"
  using assms unfolding tl_stands_def by blast

lemma Next_stands:
  assumes "tl_stands t p" and "p < length (concat blocks)"
  shows "\<exists>t'. TwoLevel_Next te t = Some t' \<and> tl_stands t' (Suc p)"
proof -
  obtain j i where ji: "inner t j i" "j < length idx" "i < length (blocks ! j)" "p = block_start j + i"
    using stands_inner [OF assms] .
  have "inner (data_apply te (it_Next (te_data te)) t) j (Suc i)"
    using ji entry_iterator.next_at [OF data_iter] by (intro data_apply_inner [OF ji(1)]) auto
  from skip_forward [OF this] show ?thesis using ji by (simp add: TwoLevel_Next_def)
qed

lemma Prev_stands:
  assumes "tl_stands t p" and "p < length (concat blocks)"
  shows "\<exists>t'. TwoLevel_Prev te t = Some t' \<and> tl_stands t' (if p = 0 then length (concat blocks) else p - 1)"
proof -
  obtain j i where ji: "inner t j i" "j < length idx" "i < length (blocks ! j)" "p = block_start j + i"
    using stands_inner [OF assms] .
  let ?i = "if i = 0 then length (blocks ! j) else i - 1"
  have in1: "inner (data_apply te (it_Prev (te_data te)) t) j ?i"
    by (rule data_apply_inner [OF ji(1)]) (rule entry_iterator.prev_at [OF data_iter _ ji(3)])
  have le: "?i \<le> length (blocks ! j)" using ji(3) by auto
  have pos: "(if ?i < length (blocks ! j) then block_start j + ?i else before_block j) =
      (if p = 0 then length (concat blocks) else p - 1)"
    using ji by (auto simp: before_block_def)
  show ?thesis using skip_backward [OF in1 ji(2) le] unfolding pos TwoLevel_Prev_def .
qed

text \<open>A new two-level iterator over an index iterator at any position is not valid.\<close>

lemma new_stands: "istands it j \<Longrightarrow> tl_stands (NewTwoLevelIterator te it) (length (concat blocks))"
  unfolding tl_stands_def NewTwoLevelIterator_def new_Wrapper_def by (auto intro: wraps_Set)

lemma operations_return:
  assumes "tl_stands t p"
  shows "TwoLevel_SeekToFirst te t \<noteq> None" and "TwoLevel_SeekToLast te t \<noteq> None"
    and "target_ok target \<Longrightarrow> TwoLevel_Seek te t target \<noteq> None"
    and "p < length (concat blocks) \<Longrightarrow> TwoLevel_Next te t \<noteq> None \<and> TwoLevel_Prev te t \<noteq> None"
  using First_stands [OF assms] Last_stands [OF assms] Seek_stands [OF assms] Next_stands [OF assms]
    Prev_stands [OF assms] by auto

end

text \<open>The two-level iterator over the blocks is an iterator over all their entries.\<close>

sublocale two_level \<subseteq> whole: entry_iterator "TwoLevel_class te" cmp "concat blocks" tl_stands target_ok
proof (unfold_locales, unfold TwoLevel_class_def iterator_class.select_convs)
  fix t p target
  assume at: "tl_stands t p"
  show "p \<le> length (concat blocks)" "TwoLevel_Valid t = (p < length (concat blocks))"
    "ok (TwoLevel_status te t)"
    "p < length (concat blocks) \<Longrightarrow> TwoLevel_key t = fst (concat blocks ! p)"
    "p < length (concat blocks) \<Longrightarrow> TwoLevel_value te t = snd (concat blocks ! p)"
    using at_position [OF at] by simp_all
  show "p < length (concat blocks) \<Longrightarrow> tl_stands (the (TwoLevel_Next te t)) (Suc p)"
    using Next_stands [OF at] by auto
  show "p < length (concat blocks) \<Longrightarrow>
      tl_stands (the (TwoLevel_Prev te t)) (if p = 0 then length (concat blocks) else p - 1)"
    using Prev_stands [OF at] by auto
  show "tl_stands (the (TwoLevel_SeekToFirst te t)) 0" using First_stands [OF at] by auto
  show "tl_stands (the (TwoLevel_SeekToLast te t)) (length (concat blocks) - 1)" using Last_stands [OF at] by auto
  show "target_ok target \<Longrightarrow> tl_stands (the (TwoLevel_Seek te t target)) (first_ge cmp (concat blocks) target)"
    using Seek_stands [OF at, of target] by auto
qed

end
