(* ===== verification/LDB_Table.thy ===== *)
theory LDB_Table
  imports LDB_Options LDB_BlockSpec LDB_FilterBlock LDB_TwoLevel
begin

text \<open>
  \<^verbatim>\<open>table/table_builder.cc\<close> and \<^verbatim>\<open>table/table.cc\<close>: writing and reading a table file. The builder is the
  record \<^verbatim>\<open>TableBuilder::Rep\<close> over a file \<open>'f\<close>; its operations take the \<^verbatim>\<open>Append\<close> and \<^verbatim>\<open>Flush\<close> of the file.
  Here a block is read from the file whenever it is opened, as with options that have no block cache; the theory
  \<open>LDB_BlockCache\<close> models the reading through a cache and shows that it opens the same iterators.
\<close>

subsection \<open>The builder\<close>

record 'f table_builder =
  tb_options :: db_options
  tb_index_block_options :: db_options
  tb_file :: 'f
  tb_offset :: u64
  tb_status :: status
  tb_data_block :: block_builder
  tb_index_block :: block_builder
  tb_last_key :: bytes
  tb_num_entries :: nat
  tb_closed :: bool
  tb_filter_block :: "filter_builder option"
  tb_pending_index_entry :: bool
  tb_pending_handle :: block_handle
  tb_compressed_output :: bytes

text \<open>The functions of the file and of the compression library.\<close>

record 'f table_env =
  tv_Append :: "bytes \<Rightarrow> 'f \<Rightarrow> status \<times> 'f"
  tv_Flush :: "'f \<Rightarrow> status \<times> 'f"
  tv_snappy :: snappy

text \<open>The functions of the filter policy, when there is one.\<close>

definition filter_create :: "db_options \<Rightarrow> bytes list \<Rightarrow> bytes \<Rightarrow> bytes" where
  "filter_create opt = (case opt_filter_policy opt of Some p \<Rightarrow> fp_CreateFilter p | None \<Rightarrow> (\<lambda>ks dst. dst))"

definition TableBuilder_Rep :: "db_options \<Rightarrow> 'f \<Rightarrow> 'f table_builder" where
  "TableBuilder_Rep opt f =
     \<lparr>tb_options = opt, tb_index_block_options = opt\<lparr>opt_block_restart_interval := 1\<rparr>, tb_file = f,
      tb_offset = 0, tb_status = Status_OK, tb_data_block = new_block_builder,
      tb_index_block = new_block_builder, tb_last_key = [], tb_num_entries = 0, tb_closed = False,
      tb_filter_block = (if opt_filter_policy opt = None then None else Some new_filter_builder),
      tb_pending_index_entry = False, tb_pending_handle = new_BlockHandle, tb_compressed_output = []\<rparr>"

definition TableBuilder :: "db_options \<Rightarrow> 'f \<Rightarrow> 'f table_builder" where
  "TableBuilder opt f =
     (let r = TableBuilder_Rep opt f
      in r\<lparr>tb_filter_block := map_option (\<lambda>fb. StartBlock (filter_create opt) fb 0) (tb_filter_block r)\<rparr>)"

definition ChangeOptions :: "db_options \<Rightarrow> 'f table_builder \<Rightarrow> bool \<Rightarrow> status \<times> 'f table_builder" where
  "ChangeOptions opt r same_comparator =
     (if \<not> same_comparator then
        (Status_InvalidArgument (str ''changing comparator while building table'') [], r)
      else (Status_OK, r\<lparr>tb_options := opt, tb_index_block_options := opt\<lparr>opt_block_restart_interval := 1\<rparr>\<rparr>))"

definition WriteRawBlock ::
    "'f table_env \<Rightarrow> bytes \<Rightarrow> byte \<Rightarrow> 'f table_builder \<Rightarrow> block_handle \<times> 'f table_builder" where
  "WriteRawBlock tv data type r =
     (let handle = \<lparr>bh_offset = tb_offset r, bh_size = word_of_nat (length data)\<rparr>;
          (s, file) = tv_Append tv data (tb_file r);
          r = r\<lparr>tb_status := s, tb_file := file\<rparr>
      in if ok (tb_status r) then
           let crc = crc_Value data;
               crc = crc_Extend crc [type];
               trailer = type # EncodeFixed32 (Mask crc);
               (s, file) = tv_Append tv trailer (tb_file r);
               r = r\<lparr>tb_status := s, tb_file := file\<rparr>
           in if ok (tb_status r)
              then (handle, r\<lparr>tb_offset := tb_offset r + word_of_nat (length data + kBlockTrailerSize)\<rparr>)
              else (handle, r)
         else (handle, r))"

text \<open>The switch on the compression type; an unknown type leaves the contents empty.\<close>

definition compress_block :: "snappy \<Rightarrow> byte \<Rightarrow> bytes \<Rightarrow> bytes \<times> byte" where
  "compress_block z type raw =
     (if type = kNoCompression then (raw, type)
      else if type = kSnappyCompression then
        (case Snappy_Compress z raw of
           Some compressed \<Rightarrow>
             if length compressed < length raw - length raw div 8 then (compressed, type)
             else (raw, kNoCompression)
         | None \<Rightarrow> (raw, kNoCompression))
      else ([], type))"

definition WriteBlock ::
    "'f table_env \<Rightarrow> block_builder \<Rightarrow> 'f table_builder \<Rightarrow> block_builder \<times> block_handle \<times> 'f table_builder" where
  "WriteBlock tv block r =
     (let (raw, block) = BlockBuilder_Finish block;
          (data, type) = compress_block (tv_snappy tv) (opt_compression (tb_options r)) raw;
          (handle, r) = WriteRawBlock tv data type r
      in (BlockBuilder_Reset block, handle, r\<lparr>tb_compressed_output := []\<rparr>))"

definition TableBuilder_Flush :: "'f table_env \<Rightarrow> 'f table_builder \<Rightarrow> 'f table_builder" where
  "TableBuilder_Flush tv r =
     (if \<not> ok (tb_status r) then r
      else if bb_buffer (tb_data_block r) = [] then r
      else
        let (data_block, handle, r) = WriteBlock tv (tb_data_block r) r;
            r = r\<lparr>tb_data_block := data_block, tb_pending_handle := handle\<rparr>;
            r = (if ok (tb_status r) then
                   let (s, file) = tv_Flush tv (tb_file r)
                   in r\<lparr>tb_pending_index_entry := True, tb_status := s, tb_file := file\<rparr>
                 else r)
        in r\<lparr>tb_filter_block :=
               map_option (\<lambda>fb. StartBlock (filter_create (tb_options r)) fb (tb_offset r)) (tb_filter_block r)\<rparr>)"

definition TableBuilder_Add :: "'f table_env \<Rightarrow> bytes \<Rightarrow> bytes \<Rightarrow> 'f table_builder \<Rightarrow> 'f table_builder" where
  "TableBuilder_Add tv key value r =
     (if \<not> ok (tb_status r) then r
      else
        let cmp = opt_comparator (tb_options r);
            r = (if tb_pending_index_entry r then
                   let last_key = cmp_FindShortestSeparator cmp (tb_last_key r) key;
                       handle_encoding = BlockHandle_EncodeTo (tb_pending_handle r) []
                   in r\<lparr>tb_last_key := last_key,
                        tb_index_block := BlockBuilder_Add (opt_block_restart_interval (tb_index_block_options r))
                          (tb_index_block r) last_key handle_encoding,
                        tb_pending_index_entry := False\<rparr>
                 else r);
            r = r\<lparr>tb_filter_block := map_option (\<lambda>fb. AddKey fb key) (tb_filter_block r)\<rparr>;
            r = r\<lparr>tb_last_key := key, tb_num_entries := tb_num_entries r + 1,
                  tb_data_block := BlockBuilder_Add (opt_block_restart_interval (tb_options r)) (tb_data_block r) key value\<rparr>
        in if CurrentSizeEstimate (tb_data_block r) \<ge> opt_block_size (tb_options r)
           then TableBuilder_Flush tv r else r)"

text \<open>The four parts of \<^verbatim>\<open>Finish\<close>: filter block, metaindex block, index block and footer.\<close>

definition finish_filter :: "'f table_env \<Rightarrow> 'f table_builder \<Rightarrow> block_handle \<times> 'f table_builder" where
  "finish_filter tv r =
     (case tb_filter_block r of
        Some fb \<Rightarrow>
          if ok (tb_status r)
          then WriteRawBlock tv (FilterBlock_Finish (filter_create (tb_options r)) fb) kNoCompression r
          else (new_BlockHandle, r)
      | None \<Rightarrow> (new_BlockHandle, r))"

definition finish_metaindex ::
    "'f table_env \<Rightarrow> block_handle \<Rightarrow> 'f table_builder \<Rightarrow> block_handle \<times> 'f table_builder" where
  "finish_metaindex tv filter_block_handle r =
     (if ok (tb_status r) then
        let meta_index_block = new_block_builder;
            meta_index_block =
              (case (tb_filter_block r, opt_filter_policy (tb_options r)) of
                 (Some fb, Some policy) \<Rightarrow>
                   BlockBuilder_Add (opt_block_restart_interval (tb_options r)) meta_index_block
                     (str ''filter.'' @ fp_Name policy) (BlockHandle_EncodeTo filter_block_handle [])
               | _ \<Rightarrow> meta_index_block);
            (b, handle, r) = WriteBlock tv meta_index_block r
        in (handle, r)
      else (new_BlockHandle, r))"

definition finish_index :: "'f table_env \<Rightarrow> 'f table_builder \<Rightarrow> block_handle \<times> 'f table_builder" where
  "finish_index tv r =
     (if ok (tb_status r) then
        let r = (if tb_pending_index_entry r then
                   let last_key = cmp_FindShortSuccessor (opt_comparator (tb_options r)) (tb_last_key r);
                       handle_encoding = BlockHandle_EncodeTo (tb_pending_handle r) []
                   in r\<lparr>tb_last_key := last_key,
                        tb_index_block := BlockBuilder_Add (opt_block_restart_interval (tb_index_block_options r))
                          (tb_index_block r) last_key handle_encoding,
                        tb_pending_index_entry := False\<rparr>
                 else r);
            (index_block, handle, r) = WriteBlock tv (tb_index_block r) r
        in (handle, r\<lparr>tb_index_block := index_block\<rparr>)
      else (new_BlockHandle, r))"

definition finish_footer ::
    "'f table_env \<Rightarrow> block_handle \<Rightarrow> block_handle \<Rightarrow> 'f table_builder \<Rightarrow> 'f table_builder" where
  "finish_footer tv metaindex_handle index_handle r =
     (if ok (tb_status r) then
        let footer = \<lparr>ft_metaindex_handle = metaindex_handle, ft_index_handle = index_handle\<rparr>;
            footer_encoding = Footer_EncodeTo footer [];
            (s, file) = tv_Append tv footer_encoding (tb_file r);
            r = r\<lparr>tb_status := s, tb_file := file\<rparr>
        in if ok (tb_status r) then r\<lparr>tb_offset := tb_offset r + word_of_nat (length footer_encoding)\<rparr> else r
      else r)"

definition TableBuilder_Finish :: "'f table_env \<Rightarrow> 'f table_builder \<Rightarrow> status \<times> 'f table_builder" where
  "TableBuilder_Finish tv r =
     (let r = TableBuilder_Flush tv r;
          r = r\<lparr>tb_closed := True\<rparr>;
          (filter_block_handle, r) = finish_filter tv r;
          (metaindex_block_handle, r) = finish_metaindex tv filter_block_handle r;
          (index_block_handle, r) = finish_index tv r;
          r = finish_footer tv metaindex_block_handle index_block_handle r
      in (tb_status r, r))"

definition Abandon :: "'f table_builder \<Rightarrow> 'f table_builder" where
  "Abandon r = r\<lparr>tb_closed := True\<rparr>"

definition TableBuilder_FileSize :: "'f table_builder \<Rightarrow> u64" where
  "TableBuilder_FileSize r = tb_offset r"

subsection \<open>The table\<close>

record table_file =
  tf_Read :: "u64 \<Rightarrow> nat \<Rightarrow> status \<times> bytes"
  tf_in_place :: bool
  tf_snappy :: snappy

record table =
  tbl_options :: db_options
  tbl_file :: table_file
  tbl_filter :: "filter_reader option"
  tbl_metaindex_handle :: block_handle
  tbl_index_block :: block

abbreviation table_ReadBlock :: "table_file \<Rightarrow> bool \<Rightarrow> block_handle \<Rightarrow> (status \<times> block_contents_rec) option" where
  "table_ReadBlock f verify handle \<equiv> ReadBlock (tf_snappy f) (tf_Read f) (tf_in_place f) verify handle"

text \<open>
  The functions below are partial where \<^verbatim>\<open>ReadBlock\<close> is, and where a seek in a block does not return.
\<close>

definition ReadFilter :: "bytes \<Rightarrow> table \<Rightarrow> table option" where
  "ReadFilter filter_handle_value tbl =
     (case BlockHandle_DecodeFrom new_BlockHandle filter_handle_value of
        (s, filter_handle, v) \<Rightarrow>
          if \<not> ok s then Some tbl
          else do {
            (s, contents) \<leftarrow> table_ReadBlock (tbl_file tbl) (opt_paranoid_checks (tbl_options tbl)) filter_handle;
            if \<not> ok s then Some tbl
            else Some (tbl\<lparr>tbl_filter := Some (FilterBlockReader (bc_data contents))\<rparr>)
          })"

definition ReadMeta :: "footer \<Rightarrow> table \<Rightarrow> table option" where
  "ReadMeta footer tbl =
     (case opt_filter_policy (tbl_options tbl) of
        None \<Rightarrow> Some tbl
      | Some policy \<Rightarrow> do {
          (s, contents) \<leftarrow> table_ReadBlock (tbl_file tbl) (opt_paranoid_checks (tbl_options tbl))
            (ft_metaindex_handle footer);
          if \<not> ok s then Some tbl
          else
            let key = str ''filter.'' @ fp_Name policy
            in (case Block_NewIterator (Block (bc_data contents)) of
                  EmptyIterator s \<Rightarrow> Some tbl
                | BlockIter iter \<Rightarrow> do {
                    iter \<leftarrow> BlockIter_Seek BytewiseCompare iter key;
                    if BlockIter_Valid iter \<and> bi_key iter = key then ReadFilter (bi_value iter) tbl else Some tbl
                  })
        })"

definition Table_Open :: "db_options \<Rightarrow> table_file \<Rightarrow> u64 \<Rightarrow> (status \<times> table option) option" where
  "Table_Open opt file n =
     (if unat n < kEncodedLength then
        Some (Status_Corruption (str ''file is too short to be an sstable'') [], None)
      else
        case tf_Read file (n - word_of_nat kEncodedLength) kEncodedLength of
          (s, footer_input) \<Rightarrow>
            if \<not> ok s then Some (s, None)
            else
              (case Footer_DecodeFrom new_Footer footer_input of
                 (s, footer, rest) \<Rightarrow>
                   if \<not> ok s then Some (s, None)
                   else do {
                     (s, contents) \<leftarrow> table_ReadBlock file (opt_paranoid_checks opt) (ft_index_handle footer);
                     if \<not> ok s then Some (s, None)
                     else do {
                       tbl \<leftarrow> ReadMeta footer
                         \<lparr>tbl_options = opt, tbl_file = file, tbl_filter = None,
                          tbl_metaindex_handle = ft_metaindex_handle footer,
                          tbl_index_block = Block (bc_data contents)\<rparr>;
                       Some (s, Some tbl)
                     }
                   }))"

text \<open>The iterators over blocks, the empty one included, as a class.\<close>

definition block_iterator_class :: "(bytes \<Rightarrow> bytes \<Rightarrow> int) \<Rightarrow> block_iterator iterator_class" where
  "block_iterator_class cmp =
     (let apply = (\<lambda>f it. case it of EmptyIterator s \<Rightarrow> EmptyIterator s | BlockIter b \<Rightarrow> BlockIter (f b))
      in \<lparr>it_Valid = (\<lambda>it. case it of EmptyIterator s \<Rightarrow> False | BlockIter b \<Rightarrow> BlockIter_Valid b),
          it_SeekToFirst = apply BlockIter_SeekToFirst, it_SeekToLast = apply BlockIter_SeekToLast,
          it_Seek = (\<lambda>it target. apply (\<lambda>b. the (BlockIter_Seek cmp b target)) it),
          it_Next = apply BlockIter_Next, it_Prev = apply BlockIter_Prev,
          it_key = (\<lambda>it. case it of EmptyIterator s \<Rightarrow> [] | BlockIter b \<Rightarrow> bi_key b),
          it_value = (\<lambda>it. case it of EmptyIterator s \<Rightarrow> [] | BlockIter b \<Rightarrow> bi_value b),
          it_status = (\<lambda>it. case it of EmptyIterator s \<Rightarrow> s | BlockIter b \<Rightarrow> bi_status b)\<rparr>)"

definition BlockReader :: "table \<Rightarrow> read_options \<Rightarrow> bytes \<Rightarrow> block_iterator option" where
  "BlockReader tbl options index_value =
     (case BlockHandle_DecodeFrom new_BlockHandle index_value of
        (s, handle, input) \<Rightarrow>
          if ok s then do {
            (s, contents) \<leftarrow> table_ReadBlock (tbl_file tbl) (ro_verify_checksums options) handle;
            if ok s then Some (Block_NewIterator (Block (bc_data contents)))
            else Some (EmptyIterator (NewErrorIterator s))
          }
          else Some (EmptyIterator (NewErrorIterator s)))"

definition table_env_of :: "table \<Rightarrow> read_options \<Rightarrow> (block_iterator, block_iterator) two_level_env" where
  "table_env_of tbl options =
     \<lparr>te_index = block_iterator_class (cmp_Compare (opt_comparator (tbl_options tbl))),
      te_data = block_iterator_class (cmp_Compare (opt_comparator (tbl_options tbl))),
      te_block_function = (\<lambda>handle. the (BlockReader tbl options handle))\<rparr>"

definition Table_NewIterator ::
    "table \<Rightarrow> read_options \<Rightarrow> (block_iterator, block_iterator) two_level_iter" where
  "Table_NewIterator tbl options =
     NewTwoLevelIterator (table_env_of tbl options) (Block_NewIterator (tbl_index_block tbl))"

text \<open>\<^verbatim>\<open>InternalGet\<close>: the status, and the key and value for which the saver is called.\<close>

definition InternalGet :: "table \<Rightarrow> read_options \<Rightarrow> bytes \<Rightarrow> (status \<times> entry option) option" where
  "InternalGet tbl options k =
     (let ops = block_iterator_class (cmp_Compare (opt_comparator (tbl_options tbl)));
          iiter = it_Seek ops (Block_NewIterator (tbl_index_block tbl)) k
      in if it_Valid ops iiter then
           let handle_value = it_value ops iiter;
               (s, handle, v) = BlockHandle_DecodeFrom new_BlockHandle handle_value;
               filtered =
                 (case (tbl_filter tbl, opt_filter_policy (tbl_options tbl)) of
                    (Some reader, Some policy) \<Rightarrow>
                      ok s \<and> \<not> FilterBlock_KeyMayMatch (fp_KeyMayMatch policy) reader (bh_offset handle) k
                  | _ \<Rightarrow> False)
           in if filtered then Some (it_status ops iiter, None)
              else do {
                block_iter \<leftarrow> BlockReader tbl options handle_value;
                let block_iter = it_Seek ops block_iter k;
                    saved = (if it_Valid ops block_iter
                             then Some (it_key ops block_iter, it_value ops block_iter) else None);
                    s = it_status ops block_iter
                in Some (if ok s then it_status ops iiter else s, saved)
              }
         else Some (it_status ops iiter, None))"

definition ApproximateOffsetOf :: "table \<Rightarrow> bytes \<Rightarrow> u64" where
  "ApproximateOffsetOf tbl key =
     (let ops = block_iterator_class (cmp_Compare (opt_comparator (tbl_options tbl)));
          index_iter = it_Seek ops (Block_NewIterator (tbl_index_block tbl)) key
      in if it_Valid ops index_iter then
           (case BlockHandle_DecodeFrom new_BlockHandle (it_value ops index_iter) of
              (s, handle, input) \<Rightarrow>
                if ok s then bh_offset handle else bh_offset (tbl_metaindex_handle tbl))
         else bh_offset (tbl_metaindex_handle tbl))"

end
