(* ===== verification/LDB_TableBuild.thy ===== *)
theory LDB_TableBuild
  imports LDB_Table LDB_Env
begin

text \<open>
  What a table builder has written. A stored block is the triple of its entries, the bytes in the
  file (compressed or not) and the type; behind each block stands its trailer. The invariant
  \<open>table_inv\<close> relates the fields of the builder to the blocks written so far, the entries of the open
  block and the index keys chosen so far.
\<close>

type_synonym stored_block = "entry list \<times> bytes \<times> byte"

fun piece :: "stored_block \<Rightarrow> bytes" where
  "piece (es, data, type) = data @ block_trailer data type"

definition pieces :: "stored_block list \<Rightarrow> bytes" where
  "pieces dn = concat (map piece dn)"

lemma pieces_simps [simp]: "pieces [] = []" "pieces (d # dn) = piece d @ pieces dn" "pieces (xs @ ys) = pieces xs @ pieces ys"
  by (simp_all add: pieces_def)

definition handle_of :: "stored_block list \<Rightarrow> nat \<Rightarrow> block_handle" where
  "handle_of dn j = \<lparr>bh_offset = word_of_nat (length (pieces (take j dn))),
     bh_size = word_of_nat (length (fst (snd (dn ! j))))\<rparr>"

definition index_entries :: "stored_block list \<Rightarrow> bytes list \<Rightarrow> entry list" where
  "index_entries dn seps = map (\<lambda>j. (seps ! j, BlockHandle_EncodeTo (handle_of dn j) [])) [0..<length seps]"

definition table_entries :: "stored_block list \<Rightarrow> entry list" where
  "table_entries dn = concat (map fst dn)"

lemma table_entries_simps [simp]:
  "table_entries [] = []" "table_entries (xs @ ys) = table_entries xs @ table_entries ys"
  "table_entries (d # dn) = fst d @ table_entries dn"
  by (simp_all add: table_entries_def)

definition filter_blocks :: "stored_block list \<Rightarrow> entry list \<Rightarrow> (u64 \<times> bytes list) list" where
  "filter_blocks dn cur =
     map (\<lambda>j. (word_of_nat (length (pieces (take j dn))), map fst (fst (dn ! j)))) [0..<length dn] @
     [(word_of_nat (length (pieces dn)), map fst cur)]"

lemma handle_of_append: "j < length dn \<Longrightarrow> handle_of (dn @ dn') j = handle_of dn j"
  by (simp add: handle_of_def nth_append)

lemma index_entries_append: "length seps \<le> length dn \<Longrightarrow> index_entries (dn @ dn') seps = index_entries dn seps"
  by (simp add: index_entries_def handle_of_append)

lemma index_entries_snoc:
  "index_entries dn (seps @ [s]) = index_entries dn seps @ [(s, BlockHandle_EncodeTo (handle_of dn (length seps)) [])]"
  by (simp add: index_entries_def nth_append)

lemma length_index_entries [simp]: "length (index_entries dn seps) = length seps"
  by (simp add: index_entries_def)

lemma build_blocks_append: "build_blocks create b (xs @ ys) = build_blocks create (build_blocks create b xs) ys"
  by (induction xs arbitrary: b) auto

lemma filter_blocks_snoc:
  "filter_blocks dn (cur @ [e]) = butlast (filter_blocks dn cur) @ [(word_of_nat (length (pieces dn)), map fst cur @ [fst e])]"
  by (simp add: filter_blocks_def)

subsection \<open>Writing blocks\<close>

definition compression_ok :: "db_options \<Rightarrow> bool" where
  "compression_ok opt \<longleftrightarrow> opt_compression opt = kNoCompression \<or> opt_compression opt = kSnappyCompression"

text \<open>The contract of the file, for the record of functions that the builder uses.\<close>

locale table_writer =
  fixes tv :: "'f table_env"
    and content :: "'f \<Rightarrow> bytes"
  assumes writes: "writable_file (tv_Append tv) (tv_Flush tv) content"
begin

lemma Append_ok: "tv_Append tv d f = (s, f') \<Longrightarrow> ok s \<Longrightarrow> content f' = content f @ d"
  using writable_file.append_ok [OF writes] .

lemma Flush_content: "tv_Flush tv f = (s, f') \<Longrightarrow> content f' = content f"
  using writable_file.flush_content [OF writes] .

lemma WriteRawBlock_ok:
  assumes "WriteRawBlock tv data type r = (h, r')" and "ok (tb_status r')"
  shows "h = \<lparr>bh_offset = tb_offset r, bh_size = word_of_nat (length data)\<rparr>"
    and "\<exists>f. content f = content (tb_file r) @ data @ block_trailer data type \<and>
      r' = r\<lparr>tb_status := Status_OK, tb_file := f,
             tb_offset := tb_offset r + word_of_nat (length (data @ block_trailer data type))\<rparr>"
proof -
  obtain s1 f1 where a1: "tv_Append tv data (tb_file r) = (s1, f1)" by (cases "tv_Append tv data (tb_file r)")
  let ?t = "type # EncodeFixed32 (Mask (crc_Extend (crc_Value data) [type]))"
  have t: "?t = block_trailer data type" by (simp add: block_trailer_def crc_Value_def crc_Extend_append)
  obtain s2 f2 where a2: "tv_Append tv ?t f1 = (s2, f2)" by (cases "tv_Append tv ?t f1")
  show h: "h = \<lparr>bh_offset = tb_offset r, bh_size = word_of_nat (length data)\<rparr>"
    using assms(1) a1 a2 by (auto simp: WriteRawBlock_def Let_def split: if_splits)
  have ok: "ok s1" "ok s2" "r' = r\<lparr>tb_status := s2, tb_file := f2,
      tb_offset := tb_offset r + word_of_nat (length data + kBlockTrailerSize)\<rparr>"
    using assms a1 a2 by (auto simp: WriteRawBlock_def Let_def split: if_splits)
  then have "s2 = Status_OK" by (simp add: ok_def Status_OK_def)
  then show "\<exists>f. content f = content (tb_file r) @ data @ block_trailer data type \<and>
      r' = r\<lparr>tb_status := Status_OK, tb_file := f,
             tb_offset := tb_offset r + word_of_nat (length (data @ block_trailer data type))\<rparr>"
    using ok Append_ok [OF a1] Append_ok [OF a2] t by (intro exI [of _ f2]) simp
qed

lemma WriteBlock_ok:
  assumes "WriteBlock tv block r = (block', h, r')" and "ok (tb_status r')" and "built K es block"
    and "compression_ok (tb_options r)"
  shows "built K [] block'"
    and "\<exists>data type f. stored_as (tv_snappy tv) (block_bytes K es) data type \<and>
      h = \<lparr>bh_offset = tb_offset r, bh_size = word_of_nat (length data)\<rparr> \<and>
      content f = content (tb_file r) @ piece (es, data, type) \<and>
      r' = r\<lparr>tb_status := Status_OK, tb_file := f, tb_compressed_output := [],
             tb_offset := tb_offset r + word_of_nat (length (piece (es, data, type)))\<rparr>"
proof -
  obtain raw bl where fin: "BlockBuilder_Finish block = (raw, bl)" by (cases "BlockBuilder_Finish block")
  then have raw: "raw = block_bytes K es" using Finish_built [OF assms(3)] by simp
  obtain data type where dt: "compress_block (tv_snappy tv) (opt_compression (tb_options r)) raw = (data, type)"
    by (cases "compress_block (tv_snappy tv) (opt_compression (tb_options r)) raw")
  have st: "stored_as (tv_snappy tv) raw data type"
    using dt assms(4) unfolding compress_block_def compression_ok_def stored_as_def
    by (auto split: if_splits option.splits)
  obtain h1 r1 where w: "WriteRawBlock tv data type r = (h1, r1)" by (cases "WriteRawBlock tv data type r")
  have res: "(block', h, r') = (BlockBuilder_Reset bl, h1, r1\<lparr>tb_compressed_output := []\<rparr>)"
    using assms(1) fin w dt by (simp add: WriteBlock_def)
  then show "built K [] block'" using built_Reset by simp
  have "ok (tb_status r1)" using assms(2) res by simp
  note wr = WriteRawBlock_ok [OF w this]
  then show "\<exists>data type f. stored_as (tv_snappy tv) (block_bytes K es) data type \<and>
      h = \<lparr>bh_offset = tb_offset r, bh_size = word_of_nat (length data)\<rparr> \<and>
      content f = content (tb_file r) @ piece (es, data, type) \<and>
      r' = r\<lparr>tb_status := Status_OK, tb_file := f, tb_compressed_output := [],
             tb_offset := tb_offset r + word_of_nat (length (piece (es, data, type)))\<rparr>"
    using st raw res by (intro exI [of _ data] exI [of _ type]) auto
qed

end

subsection \<open>The invariant of the builder\<close>

text \<open>
  \<open>dn\<close> are the blocks in the file, \<open>cur\<close> the entries of the open block and \<open>seps\<close> the index keys. The
  index entry of the last block is pending as long as the open block is empty.
\<close>

definition index_keys_ok :: "(bytes \<Rightarrow> bytes \<Rightarrow> int) \<Rightarrow> (bytes \<Rightarrow> bool) \<Rightarrow> stored_block list \<Rightarrow> entry list \<Rightarrow> bytes list \<Rightarrow> bool" where
  "index_keys_ok cmp valid dn cur seps \<longleftrightarrow> (\<forall>j < length seps. valid (seps ! j) \<and>
     length (seps ! j) \<le> length (fst (last (fst (dn ! j)))) \<and>
     cmp (fst (last (fst (dn ! j)))) (seps ! j) \<le> 0 \<and>
     (\<forall>e \<in> set (table_entries (drop (Suc j) dn) @ cur). cmp (seps ! j) (fst e) < 0))"

definition table_inv ::
    "snappy \<Rightarrow> ('f \<Rightarrow> bytes) \<Rightarrow> (bytes \<Rightarrow> bool) \<Rightarrow> db_options \<Rightarrow> 'f table_builder \<Rightarrow> stored_block list \<Rightarrow> entry list \<Rightarrow> bytes list \<Rightarrow> bool" where
  "table_inv z content valid opt b dn cur seps \<longleftrightarrow>
     tb_options b = opt \<and> tb_index_block_options b = opt\<lparr>opt_block_restart_interval := 1\<rparr> \<and>
     content (tb_file b) = pieces dn \<and> tb_offset b = word_of_nat (length (pieces dn)) \<and>
     built (opt_block_restart_interval opt) cur (tb_data_block b) \<and>
     built 1 (index_entries dn seps) (tb_index_block b) \<and>
     tb_pending_index_entry b = (dn \<noteq> [] \<and> cur = []) \<and>
     length seps = (if dn \<noteq> [] \<and> cur = [] then length dn - 1 else length dn) \<and>
     (dn \<noteq> [] \<and> cur = [] \<longrightarrow> tb_pending_handle b = handle_of dn (length dn - 1)) \<and>
     (\<forall>(es, data, type) \<in> set dn. es \<noteq> [] \<and> stored_as z (block_bytes (opt_block_restart_interval opt) es) data type) \<and>
     (table_entries dn @ cur \<noteq> [] \<longrightarrow> tb_last_key b = fst (last (table_entries dn @ cur))) \<and>
     index_keys_ok (cmp_Compare (opt_comparator opt)) valid dn cur seps \<and>
     tb_filter_block b = (if opt_filter_policy opt = None then None
       else Some (build_blocks (filter_create opt) new_filter_builder (filter_blocks dn cur)))"

lemma table_inv_new:
  "content f = [] \<Longrightarrow> table_inv z content valid opt (TableBuilder opt f) [] [] []"
  by (simp add: table_inv_def TableBuilder_def TableBuilder_Rep_def built_new index_entries_def index_keys_ok_def
      filter_blocks_def Let_def)

text \<open>A failed builder stays failed.\<close>

lemma Flush_failed: "\<not> ok (tb_status b) \<Longrightarrow> TableBuilder_Flush tv b = b"
  by (simp add: TableBuilder_Flush_def)

lemma Add_failed: "\<not> ok (tb_status b) \<Longrightarrow> TableBuilder_Add tv k v b = b"
  by (simp add: TableBuilder_Add_def)

lemma built_empty_iff:
  assumes "built K es b"
  shows "bb_buffer b = [] \<longleftrightarrow> es = []"
proof -
  have "length (bb_buffer b) = entry_off K es (length es)" using assms by (simp add: built_def entry_off_length)
  then have "bb_buffer b = [] \<longleftrightarrow> entry_off K es (length es) = 0" by (metis length_0_conv)
  then show ?thesis using entry_off_strict [of 0 "length es" es K] by (cases "es = []") auto
qed

text \<open>
  The contract of the comparator, with the bound on the length of separators that keeps the index
  block small.
\<close>

definition comparator_ok :: "(bytes \<Rightarrow> bool) \<Rightarrow> comparator_class \<Rightarrow> bool" where
  "comparator_ok valid c \<longleftrightarrow>
     comparator (cmp_Compare c) (cmp_FindShortestSeparator c) (cmp_FindShortSuccessor c) valid \<and>
     (\<forall>a b. valid a \<longrightarrow> valid b \<longrightarrow> cmp_Compare c a b < 0 \<longrightarrow> length (cmp_FindShortestSeparator c a b) \<le> length a) \<and>
     (\<forall>a. valid a \<longrightarrow> length (cmp_FindShortSuccessor c a) \<le> length a)"

lemma comparator_ok_bytewise: "comparator_ok (\<lambda>k. True) BytewiseComparator"
proof -
  have "comparator BytewiseCompare FindShortestSeparator FindShortSuccessor (\<lambda>_. True)" by unfold_locales
  then show ?thesis
    by (simp add: comparator_ok_def BytewiseComparator_def length_FindShortestSeparator length_FindShortSuccessor)
qed

text \<open>The next key joins the open block, and settles the pending index key.\<close>

definition add_mid :: "bytes \<Rightarrow> bytes \<Rightarrow> 'f table_builder \<Rightarrow> 'f table_builder" where
  "add_mid key value r =
     (let cmp = opt_comparator (tb_options r);
          r = (if tb_pending_index_entry r then
                 let last_key = cmp_FindShortestSeparator cmp (tb_last_key r) key;
                     handle_encoding = BlockHandle_EncodeTo (tb_pending_handle r) []
                 in r\<lparr>tb_last_key := last_key,
                      tb_index_block := BlockBuilder_Add (opt_block_restart_interval (tb_index_block_options r))
                        (tb_index_block r) last_key handle_encoding,
                      tb_pending_index_entry := False\<rparr>
               else r);
          r = r\<lparr>tb_filter_block := map_option (\<lambda>fb. AddKey fb key) (tb_filter_block r)\<rparr>
      in r\<lparr>tb_last_key := key, tb_num_entries := tb_num_entries r + 1,
           tb_data_block := BlockBuilder_Add (opt_block_restart_interval (tb_options r)) (tb_data_block r) key value\<rparr>)"

lemma Add_split:
  "ok (tb_status r) \<Longrightarrow> TableBuilder_Add tv key value r =
     (let r = add_mid key value r
      in if CurrentSizeEstimate (tb_data_block r) \<ge> opt_block_size (tb_options r)
         then TableBuilder_Flush tv r else r)"
  by (simp add: TableBuilder_Add_def add_mid_def Let_def)

lemma last_of_last_block:
  assumes "dn \<noteq> []" and "\<forall>(es, data, type) \<in> set dn. es \<noteq> []"
  shows "last (table_entries dn) = last (fst (dn ! (length dn - 1)))" and "table_entries dn \<noteq> []"
proof -
  obtain dn' d where dn: "dn = dn' @ [d]" using assms(1) by (metis append_butlast_last_id)
  then have "fst d \<noteq> []" using assms(2) by (cases d) auto
  then show "last (table_entries dn) = last (fst (dn ! (length dn - 1)))" "table_entries dn \<noteq> []"
    using dn by simp_all
qed

text \<open>A key behind all entries is behind all index keys: each of these is in front of a later entry.\<close>

lemma index_keys_ok_snoc:
  assumes "comparator cmp sep succ valid" and "index_keys_ok cmp valid dn cur seps"
    and "length seps = (if dn \<noteq> [] \<and> cur = [] then length dn - 1 else length dn)"
    and "\<forall>(es, data, type) \<in> set dn. es \<noteq> []"
    and "\<forall>e \<in> set (table_entries dn @ cur). valid (fst e) \<and> cmp (fst e) k < 0" and "valid k"
  shows "index_keys_ok cmp valid dn (cur @ [(k, v)]) seps"
  unfolding index_keys_ok_def
proof (intro allI impI conjI ballI)
  fix j e
  assume j: "j < length seps" and e: "e \<in> set (table_entries (drop (Suc j) dn) @ cur @ [(k, v)])"
  have jd: "j < length dn" using j assms(3) by (auto split: if_splits)
  have old: "\<forall>e \<in> set (table_entries (drop (Suc j) dn) @ cur). cmp (seps ! j) (fst e) < 0" "valid (seps ! j)"
    using assms(2) j by (auto simp: index_keys_ok_def)
  have "table_entries (drop (Suc j) dn) @ cur \<noteq> []"
  proof (cases "cur = []")
    case True
    then have "Suc j < length dn" using j assms(3) by (auto split: if_splits)
    moreover have "\<forall>(es, data, type) \<in> set (drop (Suc j) dn). es \<noteq> []"
      using assms(4) by (meson in_set_dropD)
    ultimately show ?thesis using last_of_last_block(2) [of "drop (Suc j) dn"] by simp
  qed simp
  then obtain e' where e': "e' \<in> set (table_entries (drop (Suc j) dn) @ cur)" by (meson list.set_sel(1))
  have "e' \<in> set (table_entries dn @ cur)"
  proof -
    have "table_entries dn = table_entries (take (Suc j) dn) @ table_entries (drop (Suc j) dn)"
      by (metis append_take_drop_id table_entries_simps(2))
    then show ?thesis using e' by auto
  qed
  then have "cmp (seps ! j) k < 0"
    using assms(5,6) old e' comparator.cmp_less_trans [OF assms(1), of "seps ! j" "fst e'" k] by blast
  then show "cmp (seps ! j) (fst e) < 0" using e old(1) by auto
qed (use assms(2) in \<open>auto simp: index_keys_ok_def\<close>)

lemma index_keys_ok_extend:
  assumes "index_keys_ok cmp valid dn cur seps" and "valid s"
    and "length s \<le> length (fst (last (fst (dn ! length seps))))"
    and "cmp (fst (last (fst (dn ! length seps)))) s \<le> 0"
    and "\<forall>e \<in> set (table_entries (drop (Suc (length seps)) dn) @ cur). cmp s (fst e) < 0"
  shows "index_keys_ok cmp valid dn cur (seps @ [s])"
  unfolding index_keys_ok_def
proof (intro allI impI)
  fix j assume "j < length (seps @ [s])"
  then consider "j < length seps" | "j = length seps" by fastforce
  then show "valid ((seps @ [s]) ! j) \<and> length ((seps @ [s]) ! j) \<le> length (fst (last (fst (dn ! j)))) \<and>
    cmp (fst (last (fst (dn ! j)))) ((seps @ [s]) ! j) \<le> 0 \<and>
    (\<forall>e \<in> set (table_entries (drop (Suc j) dn) @ cur). cmp ((seps @ [s]) ! j) (fst e) < 0)"
  proof cases
    case 1
    then show ?thesis using assms(1) by (simp add: index_keys_ok_def nth_append)
  next
    case 2
    then show ?thesis using assms(2-5) by simp
  qed
qed

lemma add_mid_inv:
  assumes inv: "table_inv z content valid opt b dn cur seps"
    and c: "comparator_ok valid (opt_comparator opt)" and K: "0 < opt_block_restart_interval opt"
    and keys: "\<forall>e \<in> set (table_entries dn @ cur). valid (fst e) \<and> cmp_Compare (opt_comparator opt) (fst e) k < 0"
    and k: "valid k"
  shows "\<exists>seps'. table_inv z content valid opt (add_mid k v b) dn (cur @ [(k, v)]) seps'"
proof -
  let ?cmp = "cmp_Compare (opt_comparator opt)"
  note ct = c [unfolded comparator_ok_def, THEN conjunct1]
  have I: "tb_options b = opt" "tb_index_block_options b = opt\<lparr>opt_block_restart_interval := 1\<rparr>"
    "built (opt_block_restart_interval opt) cur (tb_data_block b)" "built 1 (index_entries dn seps) (tb_index_block b)"
    "tb_pending_index_entry b = (dn \<noteq> [] \<and> cur = [])"
    "length seps = (if dn \<noteq> [] \<and> cur = [] then length dn - 1 else length dn)"
    "\<forall>(es, data, type) \<in> set dn. es \<noteq> []" "index_keys_ok ?cmp valid dn cur seps"
    using inv unfolding table_inv_def by (auto split: prod.splits)
  have keys': "index_keys_ok ?cmp valid dn (cur @ [(k, v)]) seps"
    by (rule index_keys_ok_snoc [OF ct I(8,6,7) keys k])
  have flt: "map_option (\<lambda>fb. AddKey fb k) (tb_filter_block b) = (if opt_filter_policy opt = None then None
      else Some (build_blocks (filter_create opt) new_filter_builder (filter_blocks dn (cur @ [(k, v)]))))"
    using inv by (simp add: table_inv_def filter_blocks_def build_blocks_append)
  show ?thesis
  proof (cases "dn \<noteq> [] \<and> cur = []")
    case True
    let ?s = "cmp_FindShortestSeparator (opt_comparator opt) (tb_last_key b) k"
    let ?last = "fst (last (fst (dn ! (length dn - 1))))"
    note ll = last_of_last_block [OF _ I(7)]
    have lk: "tb_last_key b = ?last" using inv True ll by (simp add: table_inv_def)
    have "last (table_entries dn) \<in> set (table_entries dn)" using ll(2) True by (intro last_in_set) blast
    then have lt: "valid ?last" "?cmp ?last k < 0" using keys ll True by (metis Un_iff set_append)+
    have sep: "valid ?s" "?cmp ?last ?s \<le> 0" "?cmp ?s k < 0" "length ?s \<le> length ?last"
      using comparator.separator [OF ct lt(1) k lt(2)] c lt k lk by (auto simp: comparator_ok_def)
    have "built 1 (index_entries dn (seps @ [?s])) (BlockBuilder_Add 1 (tb_index_block b) ?s
        (BlockHandle_EncodeTo (tb_pending_handle b) []))"
      using built_Add [OF I(4), of ?s] inv True I(6) by (simp add: index_entries_snoc table_inv_def)
    moreover have "index_keys_ok ?cmp valid dn (cur @ [(k, v)]) (seps @ [?s])"
      using index_keys_ok_extend [OF keys', of ?s] sep I(6) True by simp
    ultimately have "table_inv z content valid opt (add_mid k v b) dn (cur @ [(k, v)]) (seps @ [?s])"
      using inv True I flt built_Add [OF I(3) K, of k v] unfolding table_inv_def add_mid_def Let_def by auto
    then show ?thesis by blast
  next
    case False
    then have "table_inv z content valid opt (add_mid k v b) dn (cur @ [(k, v)]) seps"
      using inv I flt keys' built_Add [OF I(3) K, of k v] unfolding table_inv_def add_mid_def Let_def by auto
    then show ?thesis by blast
  qed
qed

context table_writer
begin

lemma Flush_inv:
  assumes "table_inv (tv_snappy tv) content valid opt b dn cur seps" and "ok (tb_status b)"
    and "ok (tb_status (TableBuilder_Flush tv b))" and "compression_ok opt"
  shows "\<exists>dn'. table_inv (tv_snappy tv) content valid opt (TableBuilder_Flush tv b) dn' [] seps \<and>
    table_entries dn' = table_entries dn @ cur"
proof (cases "cur = []")
  case True
  then have "TableBuilder_Flush tv b = b"
    using assms(1,2) built_empty_iff by (auto simp: TableBuilder_Flush_def table_inv_def)
  then show ?thesis using assms(1) True by auto
next
  case False
  let ?K = "opt_block_restart_interval opt"
  have data: "built ?K cur (tb_data_block b)" and opt: "tb_options b = opt"
    using assms(1) by (simp_all add: table_inv_def)
  obtain bl h r where w: "WriteBlock tv (tb_data_block b) b = (bl, h, r)"
    by (cases "WriteBlock tv (tb_data_block b) b")
  obtain s f where fl: "tv_Flush tv (tb_file r) = (s, f)" by (cases "tv_Flush tv (tb_file r)")
  have nz: "bb_buffer (tb_data_block b) \<noteq> []" using built_empty_iff [OF data] False by simp
  have flush: "TableBuilder_Flush tv b =
      (let r = r\<lparr>tb_data_block := bl, tb_pending_handle := h\<rparr>;
           r = (if ok (tb_status r) then r\<lparr>tb_pending_index_entry := True, tb_status := s, tb_file := f\<rparr> else r)
       in r\<lparr>tb_filter_block :=
              map_option (\<lambda>fb. StartBlock (filter_create (tb_options r)) fb (tb_offset r)) (tb_filter_block r)\<rparr>)"
    using w fl nz assms(2) by (simp add: TableBuilder_Flush_def Let_def)
  then have rok: "ok (tb_status r)" "ok s" using assms(3) by (auto simp: Let_def split: if_splits)
  have comp: "compression_ok (tb_options b)" using assms(4) opt by simp
  note wb = WriteBlock_ok [OF w rok(1) data comp]
  then obtain dat type f1 where st: "stored_as (tv_snappy tv) (block_bytes ?K cur) dat type"
      and h: "h = \<lparr>bh_offset = tb_offset b, bh_size = word_of_nat (length dat)\<rparr>"
      and f1: "content f1 = content (tb_file b) @ piece (cur, dat, type)"
      and r: "r = b\<lparr>tb_status := Status_OK, tb_file := f1, tb_compressed_output := [],
             tb_offset := tb_offset b + word_of_nat (length (piece (cur, dat, type)))\<rparr>"
    by blast
  let ?dn = "dn @ [(cur, dat, type)]"
  have f: "content f = pieces ?dn"
    using Flush_content [OF fl] f1 r assms(1) by (simp add: table_inv_def)
  have len: "length seps = length dn" using assms(1) False by (simp add: table_inv_def)
  have hd: "h = handle_of ?dn (length dn)"
    using h assms(1) by (simp add: handle_of_def table_inv_def)
  have idx: "index_entries ?dn seps = index_entries dn seps" using len by (simp add: index_entries_append)
  have keys: "index_keys_ok (cmp_Compare (opt_comparator opt)) valid ?dn [] seps"
    using assms(1) len unfolding table_inv_def index_keys_ok_def by (simp add: nth_append)
  have flt: "filter_blocks ?dn [] = filter_blocks dn cur @ [(word_of_nat (length (pieces ?dn)), [])]"
    by (simp add: filter_blocks_def nth_append)
  have "table_inv (tv_snappy tv) content valid opt (TableBuilder_Flush tv b) ?dn [] seps"
    using assms(1) rok r f hd idx keys wb(1) st False len flt unfolding flush table_inv_def Let_def
    by (auto simp: build_blocks_append)
  then show ?thesis by (intro exI [of _ ?dn]) simp
qed

lemma add_mid_status: "tb_status (add_mid k v b) = tb_status b" and add_mid_options: "tb_options (add_mid k v b) = tb_options b"
  by (simp_all add: add_mid_def Let_def)

lemma Add_inv:
  assumes "table_inv (tv_snappy tv) content valid opt b dn cur seps" and "ok (tb_status b)"
    and "ok (tb_status (TableBuilder_Add tv k v b))" and "compression_ok opt"
    and "comparator_ok valid (opt_comparator opt)" and "0 < opt_block_restart_interval opt"
    and "\<forall>e \<in> set (table_entries dn @ cur). valid (fst e) \<and> cmp_Compare (opt_comparator opt) (fst e) k < 0"
    and "valid k"
  shows "\<exists>dn' cur' seps'. table_inv (tv_snappy tv) content valid opt (TableBuilder_Add tv k v b) dn' cur' seps' \<and>
    table_entries dn' @ cur' = table_entries dn @ cur @ [(k, v)]"
proof -
  obtain seps' where mid: "table_inv (tv_snappy tv) content valid opt (add_mid k v b) dn (cur @ [(k, v)]) seps'"
    using add_mid_inv [OF assms(1,5-8)] by blast
  show ?thesis
  proof (cases "CurrentSizeEstimate (tb_data_block (add_mid k v b)) \<ge> opt_block_size (tb_options (add_mid k v b))")
    case True
    then have fl: "TableBuilder_Add tv k v b = TableBuilder_Flush tv (add_mid k v b)"
      using assms(2) by (simp add: Add_split Let_def)
    have "ok (tb_status (add_mid k v b))" using assms(2) by (simp add: add_mid_status)
    from Flush_inv [OF mid this _ assms(4)] show ?thesis
      using assms(3) fl by (metis append_Nil2 append_assoc)
  next
    case False
    then show ?thesis using assms(2) mid by (metis Add_split)
  qed
qed

end

text \<open>The client adds the entries in order.\<close>

definition add_all :: "'f table_env \<Rightarrow> entry list \<Rightarrow> 'f table_builder \<Rightarrow> 'f table_builder" where
  "add_all tv es b = fold (\<lambda>(k, v) b. TableBuilder_Add tv k v b) es b"

lemma add_all_simps [simp]:
  "add_all tv [] b = b" "add_all tv (es @ [(k, v)]) b = TableBuilder_Add tv k v (add_all tv es b)"
  by (simp_all add: add_all_def)

text \<open>The complete contents of a table file.\<close>

definition filter_data :: "db_options \<Rightarrow> stored_block list \<Rightarrow> bytes" where
  "filter_data opt dn = FilterBlock_Finish (filter_create opt)
     (build_blocks (filter_create opt) new_filter_builder (filter_blocks dn []))"

definition filter_piece :: "db_options \<Rightarrow> stored_block list \<Rightarrow> bytes" where
  "filter_piece opt dn =
     (if opt_filter_policy opt = None then []
      else filter_data opt dn @ block_trailer (filter_data opt dn) kNoCompression)"

definition filter_handle :: "db_options \<Rightarrow> stored_block list \<Rightarrow> block_handle" where
  "filter_handle opt dn =
     \<lparr>bh_offset = word_of_nat (length (pieces dn)), bh_size = word_of_nat (length (filter_data opt dn))\<rparr>"

definition meta_entries :: "db_options \<Rightarrow> stored_block list \<Rightarrow> entry list" where
  "meta_entries opt dn =
     (case opt_filter_policy opt of
        None \<Rightarrow> []
      | Some policy \<Rightarrow> [(str ''filter.'' @ fp_Name policy, BlockHandle_EncodeTo (filter_handle opt dn) [])])"

definition table_layout ::
    "snappy \<Rightarrow> (bytes \<Rightarrow> bool) \<Rightarrow> db_options \<Rightarrow> stored_block list \<Rightarrow> bytes list \<Rightarrow> bytes \<Rightarrow> bool" where
  "table_layout z valid opt dn seps data \<longleftrightarrow>
     (\<forall>(es, d, type) \<in> set dn. es \<noteq> [] \<and> stored_as z (block_bytes (opt_block_restart_interval opt) es) d type) \<and>
     length seps = length dn \<and> index_keys_ok (cmp_Compare (opt_comparator opt)) valid dn [] seps \<and>
     (\<exists>mdata mtype idata itype.
        stored_as z (block_bytes (opt_block_restart_interval opt) (meta_entries opt dn)) mdata mtype \<and>
        stored_as z (block_bytes 1 (index_entries dn seps)) idata itype \<and>
        data = pieces dn @ filter_piece opt dn @ (mdata @ block_trailer mdata mtype) @
          (idata @ block_trailer idata itype) @
          Footer_EncodeTo
            \<lparr>ft_metaindex_handle = \<lparr>bh_offset = word_of_nat (length (pieces dn @ filter_piece opt dn)),
                                    bh_size = word_of_nat (length mdata)\<rparr>,
             ft_index_handle = \<lparr>bh_offset = word_of_nat (length (pieces dn @ filter_piece opt dn @ mdata @ block_trailer mdata mtype)),
                                bh_size = word_of_nat (length idata)\<rparr>\<rparr> [])"

lemma finish_failed:
  "\<not> ok (tb_status r) \<Longrightarrow> finish_filter tv r = (new_BlockHandle, r)"
  "\<not> ok (tb_status r) \<Longrightarrow> finish_metaindex tv h r = (new_BlockHandle, r)"
  "\<not> ok (tb_status r) \<Longrightarrow> finish_index tv r = (new_BlockHandle, r)"
  "\<not> ok (tb_status r) \<Longrightarrow> finish_footer tv h h' r = r"
  by (simp_all add: finish_filter_def finish_metaindex_def finish_index_def finish_footer_def split: option.split)

context table_writer
begin

lemma add_all_failed: "\<not> ok (tb_status b) \<Longrightarrow> add_all tv es b = b"
  by (induction es rule: rev_induct) (auto simp: Add_failed)

lemma add_all_inv:
  assumes "content f = []" and "compression_ok opt" and "comparator_ok valid (opt_comparator opt)"
    and "0 < opt_block_restart_interval opt" and "sorted_entries (cmp_Compare (opt_comparator opt)) valid es"
    and "ok (tb_status (add_all tv es (TableBuilder opt f)))"
  shows "\<exists>dn cur seps. table_inv (tv_snappy tv) content valid opt (add_all tv es (TableBuilder opt f)) dn cur seps \<and>
    table_entries dn @ cur = es"
  using assms(5,6)
proof (induction es rule: rev_induct)
  case Nil
  have "table_inv (tv_snappy tv) content valid opt (TableBuilder opt f) [] [] []"
    using assms(1) by (rule table_inv_new)
  then show ?case by (intro exI [of _ "[]"]) simp
next
  case (snoc e es)
  obtain k v where e: "e = (k, v)" by (cases e)
  let ?b = "add_all tv es (TableBuilder opt f)"
  have ok: "ok (tb_status ?b)" using snoc.prems(2) Add_failed [of ?b tv k v] by (cases "ok (tb_status ?b)") (simp_all add: e)
  have "sorted_entries (cmp_Compare (opt_comparator opt)) valid es"
    using snoc.prems(1) by (simp add: sorted_entries_def sorted_wrt_append)
  then obtain dn cur seps where inv: "table_inv (tv_snappy tv) content valid opt ?b dn cur seps"
      "table_entries dn @ cur = es"
    using snoc.IH ok by blast
  have keys: "\<forall>x \<in> set (table_entries dn @ cur). valid (fst x) \<and> cmp_Compare (opt_comparator opt) (fst x) k < 0"
    and k: "valid k"
    using snoc.prems(1) unfolding inv(2) by (auto simp: e sorted_entries_def sorted_wrt_append list_all_iff)
  have "ok (tb_status (TableBuilder_Add tv k v ?b))" using snoc.prems(2) by (simp add: e)
  from Add_inv [OF inv(1) ok this assms(2,3,4) keys k] show ?case
    using inv(2) unfolding e add_all_simps append_assoc [symmetric] by auto
qed

lemma finish_filter_ok:
  assumes "finish_filter tv r = (h, r')" and "ok (tb_status r')" and "tb_options r = opt"
    and "tb_filter_block r = (if opt_filter_policy opt = None then None
       else Some (build_blocks (filter_create opt) new_filter_builder (filter_blocks dn [])))"
    and "content (tb_file r) = pieces dn" and "tb_offset r = word_of_nat (length (pieces dn))"
    and "tb_status r = Status_OK"
  shows "(opt_filter_policy opt \<noteq> None \<longrightarrow> h = filter_handle opt dn) \<and>
    (\<exists>f. content f = pieces dn @ filter_piece opt dn \<and>
      r' = r\<lparr>tb_file := f, tb_offset := word_of_nat (length (pieces dn @ filter_piece opt dn))\<rparr>)"
proof (cases "opt_filter_policy opt = None")
  case True
  then show ?thesis
    using assms by (auto simp: finish_filter_def filter_piece_def intro!: exI [of _ "tb_file r"])
next
  case False
  then have "tb_filter_block r = Some (build_blocks (filter_create opt) new_filter_builder (filter_blocks dn []))"
    using assms(4) by simp
  then have w: "WriteRawBlock tv (filter_data opt dn) kNoCompression r = (h, r')"
    using assms(1,3,7) by (simp add: finish_filter_def filter_data_def ok_def Status_OK_def)
  show ?thesis
    using WriteRawBlock_ok [OF w assms(2)] assms(5,6,7) False
    by (auto simp: filter_handle_def filter_piece_def)
qed

lemma finish_metaindex_ok:
  assumes "finish_metaindex tv fh r = (h, r')" and "ok (tb_status r)" and "ok (tb_status r')" and "tb_options r = opt"
    and "tb_filter_block r = None \<longleftrightarrow> opt_filter_policy opt = None" and "compression_ok opt"
    and "opt_filter_policy opt \<noteq> None \<longrightarrow> fh = filter_handle opt dn" and "0 < opt_block_restart_interval opt"
  shows "\<exists>data type f. stored_as (tv_snappy tv) (block_bytes (opt_block_restart_interval opt) (meta_entries opt dn)) data type \<and>
    h = \<lparr>bh_offset = tb_offset r, bh_size = word_of_nat (length data)\<rparr> \<and>
    content f = content (tb_file r) @ data @ block_trailer data type \<and>
    r' = r\<lparr>tb_status := Status_OK, tb_file := f, tb_compressed_output := [],
           tb_offset := tb_offset r + word_of_nat (length (data @ block_trailer data type))\<rparr>"
proof -
  let ?K = "opt_block_restart_interval opt"
  define mb where "mb = (case (tb_filter_block r, opt_filter_policy opt) of
      (Some fb, Some policy) \<Rightarrow> BlockBuilder_Add ?K new_block_builder (str ''filter.'' @ fp_Name policy) (BlockHandle_EncodeTo fh [])
    | _ \<Rightarrow> new_block_builder)"
  have mb: "built ?K (meta_entries opt dn) mb"
    using assms(5,7) built_new [of ?K] built_Add [OF built_new assms(8)]
    by (auto simp: mb_def meta_entries_def split: option.splits)
  obtain bl h1 r1 where w: "WriteBlock tv mb r = (bl, h1, r1)" by (cases "WriteBlock tv mb r")
  have "(h, r') = (h1, r1)"
    using assms(1,2) w unfolding finish_metaindex_def Let_def assms(4) mb_def [symmetric] by simp
  then show ?thesis
    using WriteBlock_ok(2) [OF w _ mb] assms(3,4,6) by simp
qed

lemma finish_index_ok:
  assumes "finish_index tv r = (h, r')" and "ok (tb_status r)" and "ok (tb_status r')"
    and "built 1 (index_entries dn seps) (tb_index_block r)"
    and "tb_options r = opt" "tb_index_block_options r = opt\<lparr>opt_block_restart_interval := 1\<rparr>" and "compression_ok opt"
    and "tb_pending_index_entry r \<Longrightarrow> tb_pending_handle r = handle_of dn (length seps)"
  defines "seps' \<equiv> (if tb_pending_index_entry r
    then seps @ [cmp_FindShortSuccessor (opt_comparator opt) (tb_last_key r)] else seps)"
  shows "\<exists>data type f. stored_as (tv_snappy tv) (block_bytes 1 (index_entries dn seps')) data type \<and>
    h = \<lparr>bh_offset = tb_offset r, bh_size = word_of_nat (length data)\<rparr> \<and>
    content f = content (tb_file r) @ data @ block_trailer data type \<and> tb_file r' = f \<and> tb_status r' = Status_OK \<and>
    tb_offset r' = tb_offset r + word_of_nat (length (data @ block_trailer data type))"
proof -
  define r1 where "r1 = (if tb_pending_index_entry r then
        let last_key = cmp_FindShortSuccessor (opt_comparator (tb_options r)) (tb_last_key r);
            handle_encoding = BlockHandle_EncodeTo (tb_pending_handle r) []
        in r\<lparr>tb_last_key := last_key,
             tb_index_block := BlockBuilder_Add (opt_block_restart_interval (tb_index_block_options r))
               (tb_index_block r) last_key handle_encoding,
             tb_pending_index_entry := False\<rparr>
      else r)"
  have ib: "built 1 (index_entries dn seps') (tb_index_block r1)"
    using assms(4,5,6,8) built_Add [OF assms(4)] by (auto simp: r1_def seps'_def index_entries_snoc Let_def)
  have same: "tb_options r1 = opt" "tb_offset r1 = tb_offset r" "tb_file r1 = tb_file r"
    using assms(5) by (auto simp: r1_def Let_def)
  obtain bl h2 r2 where w: "WriteBlock tv (tb_index_block r1) r1 = (bl, h2, r2)"
    by (cases "WriteBlock tv (tb_index_block r1) r1")
  have res: "(h, r') = (h2, r2\<lparr>tb_index_block := bl\<rparr>)"
    using assms(1,2) w unfolding finish_index_def Let_def r1_def [unfolded Let_def, symmetric] by simp
  then have "ok (tb_status r2)" using assms(3) by simp
  from WriteBlock_ok(2) [OF w this ib] show ?thesis using same res assms(7) by auto
qed

lemma index_keys_finish:
  assumes inv: "table_inv z content valid opt r dn [] seps" and c: "comparator_ok valid (opt_comparator opt)"
    and sorted: "sorted_entries (cmp_Compare (opt_comparator opt)) valid (table_entries dn)"
  defines "seps' \<equiv> (if tb_pending_index_entry r
    then seps @ [cmp_FindShortSuccessor (opt_comparator opt) (tb_last_key r)] else seps)"
  shows "length seps' = length dn \<and> index_keys_ok (cmp_Compare (opt_comparator opt)) valid dn [] seps'"
proof (cases "dn = []")
  case True
  then show ?thesis using inv by (simp add: table_inv_def seps'_def index_keys_ok_def)
next
  case False
  note I = inv [unfolded table_inv_def]
  have I7: "\<forall>(es, data, type) \<in> set dn. es \<noteq> []" using I by (auto split: prod.splits)
  let ?last = "fst (last (fst (dn ! (length dn - 1))))"
  note ll = last_of_last_block [OF False I7]
  have lk: "tb_last_key r = ?last" using I ll by simp
  have "last (table_entries dn) \<in> set (table_entries dn)" using ll(2) by simp
  then have v: "valid ?last" using sorted ll(1) by (auto simp: sorted_entries_def list_all_iff)
  have len: "length seps = length dn - 1" using I False by simp
  have "valid (cmp_FindShortSuccessor (opt_comparator opt) ?last)"
    "cmp_Compare (opt_comparator opt) ?last (cmp_FindShortSuccessor (opt_comparator opt) ?last) \<le> 0"
    "length (cmp_FindShortSuccessor (opt_comparator opt) ?last) \<le> length ?last"
    using c v comparator.successor [OF c [unfolded comparator_ok_def, THEN conjunct1] v]
    by (simp_all add: comparator_ok_def)
  moreover have "index_keys_ok (cmp_Compare (opt_comparator opt)) valid dn [] seps" using I by simp
  ultimately show ?thesis
    using I False len lk index_keys_ok_extend by (simp add: seps'_def)
qed

lemma finish_footer_ok:
  assumes "r' = finish_footer tv mh ih r" and "ok (tb_status r')"
  shows "ok (tb_status r)"
    and "content (tb_file r') = content (tb_file r) @ Footer_EncodeTo \<lparr>ft_metaindex_handle = mh, ft_index_handle = ih\<rparr> []"
    and "tb_offset r' = tb_offset r + word_of_nat (length (Footer_EncodeTo \<lparr>ft_metaindex_handle = mh, ft_index_handle = ih\<rparr> []))"
proof -
  show ok: "ok (tb_status r)" using assms by (auto simp: finish_footer_def split: if_splits)
  obtain s f where a: "tv_Append tv (Footer_EncodeTo \<lparr>ft_metaindex_handle = mh, ft_index_handle = ih\<rparr> []) (tb_file r) = (s, f)"
    by (cases "tv_Append tv (Footer_EncodeTo \<lparr>ft_metaindex_handle = mh, ft_index_handle = ih\<rparr> []) (tb_file r)")
  show "content (tb_file r') = content (tb_file r) @ Footer_EncodeTo \<lparr>ft_metaindex_handle = mh, ft_index_handle = ih\<rparr> []"
    and "tb_offset r' = tb_offset r + word_of_nat (length (Footer_EncodeTo \<lparr>ft_metaindex_handle = mh, ft_index_handle = ih\<rparr> []))"
    using assms ok a Append_ok [OF a] by (auto simp: finish_footer_def Let_def split: if_splits)
qed

lemma finish_layout:
  assumes inv: "table_inv (tv_snappy tv) content valid opt r1 dn [] seps"
    and oks: "ok (tb_status r1)" "ok (tb_status r2)" "ok (tb_status r3)"
    and fl: "finish_filter tv (r1\<lparr>tb_closed := True\<rparr>) = (fh, r2)" and me: "finish_metaindex tv fh r2 = (mh, r3)"
    and ix: "finish_index tv r3 = (ih, r4)" and b: "b = finish_footer tv mh ih r4" "ok (tb_status b)"
    and c: "compression_ok opt" "comparator_ok valid (opt_comparator opt)" and K: "0 < opt_block_restart_interval opt"
    and sorted: "sorted_entries (cmp_Compare (opt_comparator opt)) valid (table_entries dn)"
  shows "(\<exists>seps. table_layout (tv_snappy tv) valid opt dn seps (content (tb_file b))) \<and>
    TableBuilder_FileSize b = word_of_nat (length (content (tb_file b)))"
proof -
  note I = inv [unfolded table_inv_def]
  have I7: "\<forall>(es, data, type) \<in> set dn. es \<noteq> []" using I by (auto split: prod.splits)
  have r1: "tb_status r1 = Status_OK" using oks(1) by (simp add: ok_def Status_OK_def)
  obtain f2 where fh: "opt_filter_policy opt \<noteq> None \<longrightarrow> fh = filter_handle opt dn"
      and f2: "content f2 = pieces dn @ filter_piece opt dn"
      and r2: "r2 = r1\<lparr>tb_closed := True, tb_file := f2, tb_offset := word_of_nat (length (pieces dn @ filter_piece opt dn))\<rparr>"
    using finish_filter_ok [OF fl oks(2), of opt dn] I r1 by auto
  have opt2: "tb_options r2 = opt" and flt2: "tb_filter_block r2 = None \<longleftrightarrow> opt_filter_policy opt = None"
    using I r2 by simp_all
  obtain md mt f3 where ms: "stored_as (tv_snappy tv) (block_bytes (opt_block_restart_interval opt) (meta_entries opt dn)) md mt"
      and mh: "mh = \<lparr>bh_offset = tb_offset r2, bh_size = word_of_nat (length md)\<rparr>"
      and f3: "content f3 = content (tb_file r2) @ md @ block_trailer md mt"
      and r3: "r3 = r2\<lparr>tb_status := Status_OK, tb_file := f3, tb_compressed_output := [],
           tb_offset := tb_offset r2 + word_of_nat (length (md @ block_trailer md mt))\<rparr>"
    using finish_metaindex_ok [OF me oks(2,3) opt2 flt2 c(1) fh K] by blast
  let ?p = "tb_pending_index_entry r1"
  let ?seps = "if ?p then seps @ [cmp_FindShortSuccessor (opt_comparator opt) (tb_last_key r1)] else seps"
  have pend: "tb_pending_handle r3 = handle_of dn (length seps)" if "tb_pending_index_entry r3"
    using I that r2 r3 by simp
  have idx3: "built 1 (index_entries dn seps) (tb_index_block r3)" "tb_options r3 = opt"
      "tb_index_block_options r3 = opt\<lparr>opt_block_restart_interval := 1\<rparr>"
      "tb_pending_index_entry r3 = ?p" "tb_last_key r3 = tb_last_key r1"
    using I r2 r3 by simp_all
  obtain xd xt f4 where xs: "stored_as (tv_snappy tv) (block_bytes 1 (index_entries dn ?seps)) xd xt"
      and ih: "ih = \<lparr>bh_offset = tb_offset r3, bh_size = word_of_nat (length xd)\<rparr>"
      and f4: "content f4 = content (tb_file r3) @ xd @ block_trailer xd xt" "tb_file r4 = f4"
      and o4: "tb_offset r4 = tb_offset r3 + word_of_nat (length (xd @ block_trailer xd xt))"
    using finish_index_ok [OF ix oks(3) finish_footer_ok(1) [OF b] idx3(1-3) c(1) pend] unfolding idx3(4,5) by blast
  have keys: "length ?seps = length dn \<and> index_keys_ok (cmp_Compare (opt_comparator opt)) valid dn [] ?seps"
    using index_keys_finish [OF inv c(2) sorted] .
  have lay: "content (tb_file b) = pieces dn @ filter_piece opt dn @ (md @ block_trailer md mt) @
      (xd @ block_trailer xd xt) @ Footer_EncodeTo \<lparr>ft_metaindex_handle = mh, ft_index_handle = ih\<rparr> []"
    using finish_footer_ok(2) [OF b] f4 f3 f2 r2 r3 by simp
  have "TableBuilder_FileSize b = word_of_nat (length (content (tb_file b)))"
    unfolding lay TableBuilder_FileSize_def finish_footer_ok(3) [OF b] o4 using r2 r3 by simp
  moreover have "table_layout (tv_snappy tv) valid opt dn ?seps (content (tb_file b))"
    unfolding table_layout_def
  proof (intro conjI exI)
    show "\<forall>(es, d, type) \<in> set dn. es \<noteq> [] \<and> stored_as (tv_snappy tv) (block_bytes (opt_block_restart_interval opt) es) d type"
      using I by blast
    have "mh = \<lparr>bh_offset = word_of_nat (length (pieces dn @ filter_piece opt dn)), bh_size = word_of_nat (length md)\<rparr>"
      and "ih = \<lparr>bh_offset = word_of_nat (length (pieces dn @ filter_piece opt dn @ md @ block_trailer md mt)),
        bh_size = word_of_nat (length xd)\<rparr>"
      using mh ih r2 r3 by simp_all
    then show "content (tb_file b) = pieces dn @ filter_piece opt dn @ (md @ block_trailer md mt) @
        (xd @ block_trailer xd xt) @ Footer_EncodeTo
          \<lparr>ft_metaindex_handle = \<lparr>bh_offset = word_of_nat (length (pieces dn @ filter_piece opt dn)),
                                  bh_size = word_of_nat (length md)\<rparr>,
           ft_index_handle = \<lparr>bh_offset = word_of_nat (length (pieces dn @ filter_piece opt dn @ md @ block_trailer md mt)),
                              bh_size = word_of_nat (length xd)\<rparr>\<rparr> []"
      using lay by simp
  qed (use keys ms xs in blast)+
  ultimately show ?thesis by blast
qed

text \<open>When \<^verbatim>\<open>Finish\<close> succeeds, the file has the layout of a table, and the builder knows its size.\<close>

lemma Finish_layout:
  assumes "content f = []" and "compression_ok opt" and "comparator_ok valid (opt_comparator opt)"
    and "0 < opt_block_restart_interval opt" and "sorted_entries (cmp_Compare (opt_comparator opt)) valid es"
    and fin: "TableBuilder_Finish tv (add_all tv es (TableBuilder opt f)) = (s, b)" and "ok s"
  shows "\<exists>dn seps. table_layout (tv_snappy tv) valid opt dn seps (content (tb_file b)) \<and> table_entries dn = es"
    and "TableBuilder_FileSize b = word_of_nat (length (content (tb_file b)))"
proof -
  let ?b0 = "add_all tv es (TableBuilder opt f)"
  define r1 where "r1 = TableBuilder_Flush tv ?b0"
  obtain fh r2 where fl: "finish_filter tv (r1\<lparr>tb_closed := True\<rparr>) = (fh, r2)"
    by (cases "finish_filter tv (r1\<lparr>tb_closed := True\<rparr>)")
  obtain mh r3 where me: "finish_metaindex tv fh r2 = (mh, r3)" by (cases "finish_metaindex tv fh r2")
  obtain ih r4 where ix: "finish_index tv r3 = (ih, r4)" by (cases "finish_index tv r3")
  have b: "b = finish_footer tv mh ih r4" "ok (tb_status b)"
    using fin \<open>ok s\<close> fl me ix by (auto simp: TableBuilder_Finish_def r1_def Let_def)
  note ft = finish_footer_ok [OF b]
  have ok3: "ok (tb_status r3)" using finish_failed(3) [of r3 tv] ix ft(1) by (cases "ok (tb_status r3)") auto
  have ok2: "ok (tb_status r2)" using finish_failed(2) [of r2 tv fh] me ok3 by (cases "ok (tb_status r2)") auto
  have ok1: "ok (tb_status r1)"
    using finish_failed(1) [of "r1\<lparr>tb_closed := True\<rparr>" tv] fl ok2 by (cases "ok (tb_status r1)") auto
  have ok0: "ok (tb_status ?b0)" using Flush_failed [of ?b0] ok1 by (cases "ok (tb_status ?b0)") (auto simp: r1_def)
  obtain dn0 cur seps0 where inv0: "table_inv (tv_snappy tv) content valid opt ?b0 dn0 cur seps0"
      and es0: "table_entries dn0 @ cur = es"
    using add_all_inv [OF assms(1-5) ok0] by blast
  obtain dn where inv: "table_inv (tv_snappy tv) content valid opt r1 dn [] seps0" and es: "table_entries dn = es"
    using Flush_inv [OF inv0 ok0 _ assms(2)] ok1 es0 by (auto simp: r1_def)
  note lay = finish_layout [OF inv ok1 ok2 ok3 fl me ix b(1) b(2) assms(2,3,4)]
  have "sorted_entries (cmp_Compare (opt_comparator opt)) valid (table_entries dn)" using assms(5) es by simp
  from lay [OF this] show "\<exists>dn seps. table_layout (tv_snappy tv) valid opt dn seps (content (tb_file b)) \<and> table_entries dn = es"
    and "TableBuilder_FileSize b = word_of_nat (length (content (tb_file b)))"
    using es by auto
qed

end

end
