(* ===== verification/LDB_TableSpec.thy ===== *)
theory LDB_TableSpec
  imports LDB_TableBuild
begin

text \<open>
  Reading back what a table builder wrote: opening the file gives a table whose iterator walks over
  the entries, and whose lookups find them.
\<close>

subsection \<open>The size of blocks\<close>

definition entries_size :: "entry list \<Rightarrow> nat" where
  "entries_size es = sum_list (map (\<lambda>(k, v). length k + length v + 39) es) + 8"

lemma length_entry_bytes_le: "length (entry_bytes sh e) \<le> length (fst e) + length (snd e) + 15"
  using length_EncodeVarint(2) [of "word_of_nat sh"] length_EncodeVarint(2) [of "word_of_nat (length (fst e) - sh)"]
    length_EncodeVarint(2) [of "word_of_nat (length (snd e))"]
  by (cases e) (auto simp: entry_bytes_def)

lemma length_block_bytes_le:
  "length (block_bytes K es) \<le> sum_list (map (\<lambda>(k, v). length k + length v + 19) es) + 8"
proof -
  have "length (concat (encs K es)) \<le> sum_list (map (\<lambda>i. length (fst (es ! i)) + length (snd (es ! i)) + 15) [0..<length es])"
    unfolding encs_def length_concat map_map
    by (rule sum_list_mono) (simp add: length_entry_bytes_le)
  also have "\<dots> = sum_list (map (\<lambda>(k, v). length k + length v + 15) es)"
    by (rule arg_cong [where f = sum_list], rule nth_equalityI) (auto simp: split_beta)
  finally have "entry_off K es (length es) \<le> sum_list (map (\<lambda>(k, v). length k + length v + 15) es)"
    by (simp add: entry_off_length)
  moreover have "num_restart_points K (length es) \<le> length es + 1"
  proof -
    have "(length es - 1) div K \<le> length es"
      using div_le_dividend [of "length es - 1" K] by linarith
    then show ?thesis by (simp add: num_restart_points_def)
  qed
  moreover have "sum_list (map (\<lambda>(k, v). length k + length v + 15) es) + 4 * length es =
      sum_list (map (\<lambda>(k, v). length k + length v + 19) es)"
    by (induction es) auto
  ultimately show ?thesis by (simp add: length_block_bytes)
qed

lemma length_data_block: "length (block_bytes K es) \<le> entries_size es"
proof -
  have "sum_list (map (\<lambda>(k, v). length k + length v + 19) es) \<le> sum_list (map (\<lambda>(k, v). length k + length v + 39) es)"
    by (rule sum_list_mono) auto
  then show ?thesis using length_block_bytes_le [of K es] by (simp add: entries_size_def)
qed

lemma entries_size_mem: "d \<in> set dn \<Longrightarrow> entries_size (fst d) \<le> entries_size (table_entries dn)"
  by (induction dn) (auto simp: entries_size_def)

lemma last_entry_size: "es \<noteq> [] \<Longrightarrow> length (fst (last es)) + 39 \<le> sum_list (map (\<lambda>(k, v). length k + length v + 39) es)"
  by (induction es) auto

lemma length_index_block:
  assumes "index_keys_ok cmp valid dn [] seps" and "length seps = length dn" and "\<forall>(es, d, t) \<in> set dn. es \<noteq> []"
  shows "length (block_bytes 1 (index_entries dn seps)) \<le> entries_size (table_entries dn)"
proof -
  let ?f = "\<lambda>(k :: bytes, v :: bytes). length k + length v + 39"
  have "sum_list (map (\<lambda>(k, v). length k + length v + 19) (index_entries dn seps)) =
      sum_list (map (\<lambda>j. length (seps ! j) + length (BlockHandle_EncodeTo (handle_of dn j) []) + 19) [0..<length dn])"
    using assms(2) by (simp add: index_entries_def comp_def)
  also have "\<dots> \<le> sum_list (map (\<lambda>j. sum_list (map ?f (fst (dn ! j)))) [0..<length dn])"
  proof (rule sum_list_mono)
    fix j assume j: "j \<in> set [0..<length dn]"
    then have "fst (dn ! j) \<noteq> []" using assms(3) nth_mem [of j dn] by (cases "dn ! j") auto
    moreover have "length (seps ! j) \<le> length (fst (last (fst (dn ! j))))"
      using assms(1,2) j by (simp add: index_keys_ok_def)
    ultimately show "length (seps ! j) + length (BlockHandle_EncodeTo (handle_of dn j) []) + 19 \<le> sum_list (map ?f (fst (dn ! j)))"
      using length_BlockHandle [of "handle_of dn j"] last_entry_size [of "fst (dn ! j)"] by (simp add: kMaxEncodedLength_def)
  qed
  also have "\<dots> = sum_list (map (\<lambda>d. sum_list (map ?f (fst d))) dn)"
    by (rule arg_cong [where f = sum_list], rule nth_equalityI) auto
  also have "\<dots> = sum_list (map ?f (table_entries dn))" by (induction dn) auto
  finally show ?thesis using length_block_bytes_le [of 1 "index_entries dn seps"] by (simp add: entries_size_def)
qed

subsection \<open>Opening the file\<close>

text \<open>A file that delivers its data.\<close>

definition reads_file :: "table_file \<Rightarrow> bytes \<Rightarrow> bool" where
  "reads_file f data \<longleftrightarrow> (\<forall>off n. unat off + n \<le> length data \<longrightarrow>
     tf_Read f off n = (Status_OK, take n (drop (unat off) data)))"

lemma read_stored:
  assumes "reads_file f (pre @ (d @ block_trailer d type) @ post)"
    and "length (pre @ (d @ block_trailer d type) @ post) < 2 ^ 32"
    and "stored_as (tf_snappy f) raw d type" and "snappy_correct (tf_snappy f)"
  shows "\<exists>c. table_ReadBlock f verify \<lparr>bh_offset = word_of_nat (length pre), bh_size = word_of_nat (length d)\<rparr> =
    Some (Status_OK, c) \<and> bc_data c = raw"
proof (rule ReadBlock_stored [OF _ _ assms(3,4)])
  have off: "unat (word_of_nat (length pre) :: u64) = length pre" using assms(2) by simp
  show "tf_Read f (word_of_nat (length pre)) (length d + kBlockTrailerSize) = (Status_OK, d @ block_trailer d type)"
    using assms(1) unfolding reads_file_def off by (auto simp: off)
  show "length d + kBlockTrailerSize < 2 ^ 64" using assms(2) by simp
qed

definition small_table :: "db_options \<Rightarrow> entry list \<Rightarrow> bytes \<Rightarrow> bool" where
  "small_table opt es data \<longleftrightarrow> entries_size es < 2 ^ 32 \<and> length data < 2 ^ 32 \<and>
     (\<forall>p. opt_filter_policy opt = Some p \<longrightarrow> length (fp_Name p) < 2 ^ 31)"

definition table_is :: "db_options \<Rightarrow> table_file \<Rightarrow> stored_block list \<Rightarrow> bytes list \<Rightarrow> table \<Rightarrow> bool" where
  "table_is opt f dn seps tbl \<longleftrightarrow> tbl_options tbl = opt \<and> tbl_file tbl = f \<and>
     tbl_index_block tbl = Block (block_bytes 1 (index_entries dn seps)) \<and>
     tbl_filter tbl = (if opt_filter_policy opt = None then None else Some (FilterBlockReader (filter_data opt dn)))"

lemma meta_block_ok:
  assumes "small_table opt es data" and "0 < K"
  shows "block_ok K (meta_entries opt dn)"
proof -
  have "length (block_bytes K (meta_entries opt dn)) \<le>
      sum_list (map (\<lambda>(k, v). length k + length v + 19) (meta_entries opt dn)) + 8"
    by (rule length_block_bytes_le)
  also have "\<dots> < 2 ^ 32"
    using assms(1) length_BlockHandle [of "filter_handle opt dn"]
    by (auto simp: meta_entries_def small_table_def str_def kMaxEncodedLength_def split: option.split)
  finally show ?thesis using assms(2) by (simp add: block_ok_def)
qed

lemma ReadMeta_layout:
  assumes "reads_file f (pieces dn @ filter_piece opt dn @ (md @ block_trailer md mt) @ post)"
    and "small_table opt es (pieces dn @ filter_piece opt dn @ (md @ block_trailer md mt) @ post)"
    and "stored_as (tf_snappy f) (block_bytes (opt_block_restart_interval opt) (meta_entries opt dn)) md mt"
    and "snappy_correct (tf_snappy f)" and "0 < opt_block_restart_interval opt"
    and "ft_metaindex_handle footer = \<lparr>bh_offset = word_of_nat (length (pieces dn @ filter_piece opt dn)),
      bh_size = word_of_nat (length md)\<rparr>"
    and "tbl_options tbl = opt" "tbl_file tbl = f" "tbl_filter tbl = None"
  shows "ReadMeta footer tbl = Some (tbl\<lparr>tbl_filter :=
    (if opt_filter_policy opt = None then None else Some (FilterBlockReader (filter_data opt dn)))\<rparr>)"
proof (cases "opt_filter_policy opt")
  case None
  then show ?thesis using assms(7-9) by (simp add: ReadMeta_def)
next
  case (Some p)
  let ?K = "opt_block_restart_interval opt" and ?key = "str ''filter.'' @ fp_Name p"
  let ?me = "meta_entries opt dn" and ?fd = "filter_data opt dn"
  have me: "?me = [(?key, BlockHandle_EncodeTo (filter_handle opt dn) [])]" using Some by (simp add: meta_entries_def)
  obtain c where c: "table_ReadBlock f (opt_paranoid_checks opt) (ft_metaindex_handle footer) = Some (Status_OK, c)"
      "bc_data c = block_bytes ?K ?me"
    using read_stored [of f "pieces dn @ filter_piece opt dn" md mt post, OF _ _ assms(3,4)] assms(1,2)
    unfolding assms(6) small_table_def append_assoc by blast
  obtain it where it: "Block_NewIterator (Block (block_bytes ?K ?me)) = BlockIter it" "block_at ?K ?me it (length ?me)"
      "iter_for ?K ?me it"
    using Block_opened [OF meta_block_ok [OF assms(2,5)]] by blast
  have sk: "seek_ok BytewiseCompare ?me ?key" by (simp add: me seek_ok_def)
  have fg: "first_ge BytewiseCompare ?me ?key = 0"
    by (simp add: me first_ge_def bytewise.cmp_self)
  obtain it' where it': "BlockIter_Seek BytewiseCompare it ?key = Some it'" "block_at ?K ?me it' 0"
    using Seek_at [OF it(3) sk] unfolding fg by blast
  have at: "BlockIter_Valid it'" "bi_key it' = ?key" "bi_value it' = BlockHandle_EncodeTo (filter_handle opt dn) []"
    using it'(2) block_at_simps [of ?K ?me it' 0] by (simp_all add: me)
  have fp: "filter_piece opt dn = ?fd @ block_trailer ?fd kNoCompression" using Some by (simp add: filter_piece_def)
  obtain c' where c': "table_ReadBlock f (opt_paranoid_checks opt) (filter_handle opt dn) = Some (Status_OK, c')" "bc_data c' = ?fd"
  proof -
    have st: "stored_as (tf_snappy f) ?fd ?fd kNoCompression" by (simp add: stored_as_def)
    from read_stored [of f "pieces dn" ?fd kNoCompression "(md @ block_trailer md mt) @ post", OF _ _ st assms(4)]
    show thesis
      using assms(1,2) that unfolding fp small_table_def filter_handle_def by blast
  qed
  have dec: "BlockHandle_DecodeFrom new_BlockHandle (bi_value it') = (Status_OK, filter_handle opt dn, [])"
    using BlockHandle_roundtrip [of new_BlockHandle "filter_handle opt dn" "[]"] at(3) by simp
  have "ReadFilter (bi_value it') tbl = Some (tbl\<lparr>tbl_filter := Some (FilterBlockReader ?fd)\<rparr>)"
    using dec c' assms(7,8) by (simp add: ReadFilter_def)
  then show ?thesis
    using Some c it(1) it'(1) at(1,2) assms(7,8) by (simp add: ReadMeta_def)
qed

lemma Open_layout:
  assumes "table_layout (tf_snappy f) valid opt dn seps data" and "reads_file f data"
    and "small_table opt es data" and "snappy_correct (tf_snappy f)" and "0 < opt_block_restart_interval opt"
  shows "\<exists>tbl. Table_Open opt f (word_of_nat (length data)) = Some (Status_OK, Some tbl) \<and> table_is opt f dn seps tbl"
proof -
  obtain md mt xd xt where
    ms: "stored_as (tf_snappy f) (block_bytes (opt_block_restart_interval opt) (meta_entries opt dn)) md mt" and
    xs: "stored_as (tf_snappy f) (block_bytes 1 (index_entries dn seps)) xd xt" and
    lay: "data = pieces dn @ filter_piece opt dn @ (md @ block_trailer md mt) @
          (xd @ block_trailer xd xt) @
          Footer_EncodeTo
            \<lparr>ft_metaindex_handle = \<lparr>bh_offset = word_of_nat (length (pieces dn @ filter_piece opt dn)),
                                    bh_size = word_of_nat (length md)\<rparr>,
             ft_index_handle = \<lparr>bh_offset = word_of_nat (length (pieces dn @ filter_piece opt dn @ md @ block_trailer md mt)),
                                bh_size = word_of_nat (length xd)\<rparr>\<rparr> []"
    using assms(1) unfolding table_layout_def by blast
  define ft where "ft = \<lparr>ft_metaindex_handle = \<lparr>bh_offset = word_of_nat (length (pieces dn @ filter_piece opt dn)),
      bh_size = word_of_nat (length md)\<rparr>,
    ft_index_handle = \<lparr>bh_offset = word_of_nat (length (pieces dn @ filter_piece opt dn @ md @ block_trailer md mt)),
      bh_size = word_of_nat (length xd)\<rparr>\<rparr>"
  note lay' = lay [folded ft_def]
  have small: "length data < 2 ^ 32" using assms(3) by (simp add: small_table_def)
  have ftl: "length (Footer_EncodeTo ft []) = kEncodedLength" using Footer_layout by blast
  have off: "unat (word_of_nat (length data) - word_of_nat kEncodedLength :: u64) = length data - kEncodedLength"
    and n: "unat (word_of_nat (length data) :: u64) = length data"
  proof -
    have le: "kEncodedLength \<le> length data" using ftl lay' by simp
    then have "word_of_nat (length data) - word_of_nat kEncodedLength = (word_of_nat (length data - kEncodedLength) :: u64)"
      by simp
    then show "unat (word_of_nat (length data) - word_of_nat kEncodedLength :: u64) = length data - kEncodedLength"
      using small by simp
    show "unat (word_of_nat (length data) :: u64) = length data" using small by simp
  qed
  have rd: "tf_Read f (word_of_nat (length data) - word_of_nat kEncodedLength) kEncodedLength = (Status_OK, Footer_EncodeTo ft [])"
  proof -
    have "drop (length data - kEncodedLength) data = Footer_EncodeTo ft []"
      using ftl lay' by simp
    moreover have "kEncodedLength \<le> length data" using ftl lay' by simp
    ultimately show ?thesis
      using assms(2) [unfolded reads_file_def, rule_format, of "word_of_nat (length data) - word_of_nat kEncodedLength" kEncodedLength] ftl
      unfolding off by simp
  qed
  have fd: "Footer_DecodeFrom new_Footer (Footer_EncodeTo ft []) = (Status_OK, ft, [])"
    using Footer_roundtrip [of new_Footer ft "[]"] by simp
  obtain c where c: "table_ReadBlock f (opt_paranoid_checks opt) (ft_index_handle ft) = Some (Status_OK, c)"
      "bc_data c = block_bytes 1 (index_entries dn seps)"
    using read_stored [of f "pieces dn @ filter_piece opt dn @ md @ block_trailer md mt" xd xt "Footer_EncodeTo ft []"]
      assms(2,4) small xs lay' by (auto simp: ft_def)
  let ?t = "\<lparr>tbl_options = opt, tbl_file = f, tbl_filter = None,
      tbl_metaindex_handle = ft_metaindex_handle ft, tbl_index_block = Block (bc_data c)\<rparr>"
  have "ReadMeta ft ?t = Some (?t\<lparr>tbl_filter :=
      (if opt_filter_policy opt = None then None else Some (FilterBlockReader (filter_data opt dn)))\<rparr>)"
    by (rule ReadMeta_layout [OF assms(2) [unfolded lay'] assms(3) [unfolded lay'] ms assms(4,5)]) (simp_all add: ft_def)
  then show ?thesis
    using rd fd c ftl lay' n by (simp add: Table_Open_def table_is_def)
qed

subsection \<open>The iterator over a table\<close>

text \<open>The iterators over blocks, with the positions they stand at.\<close>

fun bstands :: "nat \<Rightarrow> entry list \<Rightarrow> block_iterator \<Rightarrow> nat \<Rightarrow> bool" where
  "bstands K es (BlockIter b) i = block_at K es b i"
| "bstands K es (EmptyIterator s) i = False"

interpretation block_iterator: entry_iterator "block_iterator_class cmp" cmp es "bstands K es" "seek_ok cmp es"
  for cmp :: "bytes \<Rightarrow> bytes \<Rightarrow> int" and es :: "entry list" and K :: nat
proof (unfold_locales, unfold block_iterator_class_def Let_def iterator_class.select_convs)
  fix it i target
  assume "bstands K es it i"
  then obtain b where b: "it = BlockIter b" "block_at K es b i" by (cases it) auto
  note bl = block_iter.stands_le [OF b(2)] block_iter.valid_iff [OF b(2)] block_iter.key_at [OF b(2)]
    block_iter.value_at [OF b(2)] block_iter.status_at [OF b(2)] block_iter.next_at [OF b(2)]
    block_iter.prev_at [OF b(2)] block_iter.first_at [OF b(2)] block_iter.last_at [OF b(2)]
    block_iter.seek_at [OF b(2), of cmp target]
  from bl show "i \<le> length es" and "(case it of EmptyIterator s \<Rightarrow> False | BlockIter b \<Rightarrow> BlockIter_Valid b) = (i < length es)"
    and "i < length es \<Longrightarrow> (case it of EmptyIterator s \<Rightarrow> [] | BlockIter b \<Rightarrow> bi_key b) = fst (es ! i)"
    and "i < length es \<Longrightarrow> (case it of EmptyIterator s \<Rightarrow> [] | BlockIter b \<Rightarrow> bi_value b) = snd (es ! i)"
    and "ok (case it of EmptyIterator s \<Rightarrow> s | BlockIter b \<Rightarrow> bi_status b)"
    by (simp_all add: b(1))
  from bl show "i < length es \<Longrightarrow>
      bstands K es (case it of EmptyIterator s \<Rightarrow> EmptyIterator s | BlockIter b \<Rightarrow> BlockIter (BlockIter_Next b)) (Suc i)"
    and "i < length es \<Longrightarrow>
      bstands K es (case it of EmptyIterator s \<Rightarrow> EmptyIterator s | BlockIter b \<Rightarrow> BlockIter (BlockIter_Prev b))
        (if i = 0 then length es else i - 1)"
    and "bstands K es (case it of EmptyIterator s \<Rightarrow> EmptyIterator s | BlockIter b \<Rightarrow> BlockIter (BlockIter_SeekToFirst b)) 0"
    and "bstands K es (case it of EmptyIterator s \<Rightarrow> EmptyIterator s | BlockIter b \<Rightarrow> BlockIter (BlockIter_SeekToLast b))
        (length es - 1)"
    and "seek_ok cmp es target \<Longrightarrow> bstands K es (case it of EmptyIterator s \<Rightarrow> EmptyIterator s
        | BlockIter b \<Rightarrow> BlockIter (the (BlockIter_Seek cmp b target))) (first_ge cmp es target)"
    by (simp_all add: b(1) split del: if_split)
qed

text \<open>An iterator under a condition, with fewer targets.\<close>

context entry_iterator
begin

lemma restrict:
  assumes "\<And>t. G \<Longrightarrow> target_ok' t \<Longrightarrow> target_ok t"
  shows "entry_iterator ops cmp entries (\<lambda>it i. G \<and> stands it i) target_ok'"
  by unfold_locales
    (auto simp: stands_le valid_iff key_at value_at status_at next_at first_at last_at assms
        last_at [unfolded One_nat_def] intro: seek_at dest: prev_at split: if_splits)

end

text \<open>
  What is known of a table that was written with \<open>dn\<close> as its blocks and \<open>seps\<close> as its index keys, and
  opened again.
\<close>

definition good_table ::
    "(bytes \<Rightarrow> bool) \<Rightarrow> read_options \<Rightarrow> stored_block list \<Rightarrow> bytes list \<Rightarrow> table \<Rightarrow> bool" where
  "good_table valid ro dn seps tbl \<longleftrightarrow>
     (let opt = tbl_options tbl; cmp = cmp_Compare (opt_comparator opt); K = opt_block_restart_interval opt
      in comparator_ok valid (opt_comparator opt) \<and> sorted_entries cmp valid (table_entries dn) \<and>
         table_is opt (tbl_file tbl) dn seps tbl \<and> length seps = length dn \<and> index_keys_ok cmp valid dn [] seps \<and>
         block_ok 1 (index_entries dn seps) \<and> length (pieces dn) < 2 ^ 32 \<and>
         (\<forall>j < length dn. fst (dn ! j) \<noteq> [] \<and> block_ok K (fst (dn ! j)) \<and>
            (\<exists>c. table_ReadBlock (tbl_file tbl) (ro_verify_checksums ro) (handle_of dn j) = Some (Status_OK, c) \<and>
                 bc_data c = block_bytes K (fst (dn ! j)))))"

lemma handle_of_inject:
  assumes "length (pieces dn) < 2 ^ 32" and "handle_of dn i = handle_of dn j" and "i < length dn" and "j < length dn"
  shows "i = j"
proof -
  have mono: "length (pieces (take a dn)) < length (pieces (take b dn))" if "a < b" "b \<le> length dn" for a b
  proof -
    have "take b dn = take a dn @ dn ! a # drop (Suc a) (take b dn)"
      using that id_take_nth_drop [of a "take b dn"] by simp
    then have "pieces (take b dn) = pieces (take a dn) @ piece (dn ! a) @ pieces (drop (Suc a) (take b dn))"
      by (metis pieces_simps(2,3))
    moreover have "0 < length (piece (dn ! a))" by (cases "dn ! a") (simp add: kBlockTrailerSize_def)
    ultimately show ?thesis by simp
  qed
  have le: "length (pieces (take a dn)) < 2 ^ 32" for a
  proof -
    have "length (pieces dn) = length (pieces (take a dn)) + length (pieces (drop a dn))"
      by (metis append_take_drop_id length_append pieces_simps(3))
    then show ?thesis using assms(1) by simp
  qed
  have "(word_of_nat (length (pieces (take i dn))) :: u64) = word_of_nat (length (pieces (take j dn)))"
    using assms(2) by (simp add: handle_of_def)
  then have "unat (word_of_nat (length (pieces (take i dn))) :: u64) = unat (word_of_nat (length (pieces (take j dn))) :: u64)"
    by simp
  then have "length (pieces (take i dn)) = length (pieces (take j dn))" using le [of i] le [of j] by simp
  then show ?thesis using mono [of i j] mono [of j i] assms(3,4) by (cases i j rule: linorder_cases) auto
qed

lemma good_table_opens:
  assumes "good_table valid ro dn seps tbl" and "j < length dn"
  shows "\<exists>it. BlockReader tbl ro (BlockHandle_EncodeTo (handle_of dn j) []) = Some it \<and>
    bstands (opt_block_restart_interval (tbl_options tbl)) (fst (dn ! j)) it (length (fst (dn ! j)))"
proof -
  let ?K = "opt_block_restart_interval (tbl_options tbl)"
  obtain c where c: "block_ok ?K (fst (dn ! j))"
      "table_ReadBlock (tbl_file tbl) (ro_verify_checksums ro) (handle_of dn j) = Some (Status_OK, c)"
      "bc_data c = block_bytes ?K (fst (dn ! j))"
    using assms by (auto simp: good_table_def Let_def)
  have "BlockHandle_DecodeFrom new_BlockHandle (BlockHandle_EncodeTo (handle_of dn j) []) = (Status_OK, handle_of dn j, [])"
    using BlockHandle_roundtrip [of new_BlockHandle "handle_of dn j" "[]"] by simp
  then show ?thesis using c(2,3) Block_opened [OF c(1)] by (auto simp: BlockReader_def)
qed

lemma block_split:
  assumes "i < length dn" and "j < length dn" and "e \<in> set (fst (dn ! j))"
  shows "i < j \<Longrightarrow> e \<in> set (table_entries (drop (Suc i) dn))" and "e \<in> set (table_entries dn)"
proof -
  show "e \<in> set (table_entries dn)" using assms by (auto simp: table_entries_def)
  assume "i < j"
  then have "dn ! j \<in> set (drop (Suc i) dn)" using assms(2) by (auto simp: in_set_conv_nth intro!: exI [of _ "j - Suc i"])
  then show "e \<in> set (table_entries (drop (Suc i) dn))" using assms(3) by (auto simp: table_entries_def)
qed

lemma block_of_entry: "e \<in> set (table_entries dn) \<Longrightarrow> \<exists>i < length dn. e \<in> set (fst (dn ! i))"
proof -
  assume "e \<in> set (table_entries dn)"
  then obtain d where "d \<in> set dn" "e \<in> set (fst d)" by (auto simp: table_entries_def)
  then show ?thesis unfolding in_set_conv_nth [of d] by blast
qed

lemma sorted_block:
  assumes "sorted_entries cmp valid (table_entries dn)" and "d \<in> set dn"
  shows "sorted_entries cmp valid (fst d)"
proof -
  obtain xs ys where "dn = xs @ d # ys" using assms(2) by (meson split_list)
  then show ?thesis using assms(1) by (simp add: sorted_entries_def sorted_wrt_append)
qed

lemma sorted_last:
  assumes "comparator cmp sep succ valid" and "sorted_entries cmp valid es" and "e \<in> set es"
  shows "cmp (fst e) (fst (last es)) \<le> 0"
proof -
  obtain xs x where es: "es = xs @ [x]" using assms(3) by (cases es rule: rev_cases) auto
  then show ?thesis
    using assms(2,3) comparator.cmp_self [OF assms(1)] by (auto simp: sorted_entries_def sorted_wrt_append)
qed

text \<open>The index sends a target to the block it belongs to.\<close>

lemma index_in_step:
  assumes good: "good_table valid ro dn seps tbl" and t: "valid t" and i: "i < length dn" and e: "e \<in> set (fst (dn ! i))"
  defines "cmp \<equiv> cmp_Compare (opt_comparator (tbl_options tbl))"
  defines "g \<equiv> first_ge cmp (index_entries dn seps) t"
  shows "i < g \<Longrightarrow> cmp (fst e) t < 0" and "g < i \<Longrightarrow> 0 < cmp (fst e) t"
proof -
  have ct: "comparator cmp (cmp_FindShortestSeparator (opt_comparator (tbl_options tbl)))
      (cmp_FindShortSuccessor (opt_comparator (tbl_options tbl))) valid"
    and len: "length seps = length dn" and keys: "index_keys_ok cmp valid dn [] seps"
    and so: "sorted_entries cmp valid (table_entries dn)"
    using good by (simp_all add: good_table_def Let_def comparator_ok_def cmp_def)
  have ve: "valid (fst e)" using so block_split(2) [OF i i e] by (auto simp: sorted_entries_def list_all_iff)
  have key: "fst (index_entries dn seps ! j) = seps ! j" if "j < length dn" for j
    using that len by (simp add: index_entries_def)
  show "cmp (fst e) t < 0" if "i < g"
  proof -
    have "cmp (seps ! i) t < 0"
      using first_ge_before [of i cmp "index_entries dn seps" t] that key [OF i] by (simp add: g_def)
    moreover have sl: "sorted_entries cmp valid (fst (dn ! i))" using sorted_block [OF so] i by simp
    have "cmp (fst e) (fst (last (fst (dn ! i)))) \<le> 0" by (rule sorted_last [OF ct sl e])
    moreover have "valid (fst (last (fst (dn ! i))))"
      using sl e by (cases "fst (dn ! i)" rule: rev_cases) (auto simp: sorted_entries_def)
    moreover have "cmp (fst (last (fst (dn ! i)))) (seps ! i) \<le> 0" "valid (seps ! i)"
      using keys i len by (simp_all add: index_keys_ok_def)
    ultimately show ?thesis
      using comparator.cmp_trans [OF ct ve] comparator.cmp_le_less_trans [OF ct ve] t by blast
  qed
  show "0 < cmp (fst e) t" if "g < i"
  proof -
    have g: "g < length dn" using that i by simp
    then have "\<not> cmp (fst (index_entries dn seps ! g)) t < 0"
      using first_ge_here [of cmp "index_entries dn seps" t] len by (simp add: g_def)
    then have ge: "\<not> cmp (seps ! g) t < 0" using key [OF g] by simp
    have "cmp (seps ! g) (fst e) < 0" "valid (seps ! g)"
      using keys g len block_split(1) [OF g i e that] by (auto simp: index_keys_ok_def)
    then show ?thesis
      using ge comparator.cmp_le_less_trans [OF ct t _ ve, of "seps ! g"] comparator.cmp_not_less [OF ct _ t]
        comparator.cmp_flip [OF ct t ve] by blast
  qed
qed

text \<open>The two levels of a table: the index block and the data blocks.\<close>

definition index_at :: "(bytes \<Rightarrow> bool) \<Rightarrow> read_options \<Rightarrow> stored_block list \<Rightarrow> bytes list \<Rightarrow> table \<Rightarrow>
    block_iterator \<Rightarrow> nat \<Rightarrow> bool" where
  "index_at valid ro dn seps tbl it i \<longleftrightarrow> good_table valid ro dn seps tbl \<and> bstands 1 (index_entries dn seps) it i"

definition data_at :: "(bytes \<Rightarrow> bool) \<Rightarrow> read_options \<Rightarrow> stored_block list \<Rightarrow> bytes list \<Rightarrow> table \<Rightarrow>
    bytes \<Rightarrow> block_iterator \<Rightarrow> nat \<Rightarrow> bool" where
  "data_at valid ro dn seps tbl handle it i \<longleftrightarrow> good_table valid ro dn seps tbl \<and>
     (\<exists>j < length dn. handle = BlockHandle_EncodeTo (handle_of dn j) [] \<and>
        bstands (opt_block_restart_interval (tbl_options tbl)) (fst (dn ! j)) it i)"

lemma good_table_facts:
  assumes "good_table valid ro dn seps tbl"
  shows "length seps = length dn" and "sorted_entries (cmp_Compare (opt_comparator (tbl_options tbl))) valid (table_entries dn)"
    and "comparator (cmp_Compare (opt_comparator (tbl_options tbl))) (cmp_FindShortestSeparator (opt_comparator (tbl_options tbl)))
      (cmp_FindShortSuccessor (opt_comparator (tbl_options tbl))) valid"
    and "index_keys_ok (cmp_Compare (opt_comparator (tbl_options tbl))) valid dn [] seps"
    and "block_ok 1 (index_entries dn seps)" and "length (pieces dn) < 2 ^ 32"
    and "tbl_index_block tbl = Block (block_bytes 1 (index_entries dn seps))"
  using assms by (simp_all add: good_table_def Let_def comparator_ok_def table_is_def)

lemma data_at_block:
  assumes "good_table valid ro dn seps tbl" and "j < length dn"
  shows "data_at valid ro dn seps tbl (BlockHandle_EncodeTo (handle_of dn j) []) it i \<longleftrightarrow>
    bstands (opt_block_restart_interval (tbl_options tbl)) (fst (dn ! j)) it i"
  using assms handle_of_inject [OF good_table_facts(6) [OF assms(1)] BlockHandle_EncodeTo_inject]
  unfolding data_at_def by blast

lemma index_seek_ok:
  assumes good: "good_table valid ro dn seps tbl" and t: "valid t"
  shows "seek_ok (cmp_Compare (opt_comparator (tbl_options tbl))) (index_entries dn seps) t"
  unfolding seek_ok_def
proof (intro allI impI)
  let ?cmp = "cmp_Compare (opt_comparator (tbl_options tbl))"
  note g = good_table_facts [OF good]
  fix i j assume ij: "i < j" "j < length (index_entries dn seps)" "?cmp (fst (index_entries dn seps ! j)) t < 0"
  then have j: "j < length dn" "fst (index_entries dn seps ! i) = seps ! i" "fst (index_entries dn seps ! j) = seps ! j"
    using g(1) by (simp_all add: index_entries_def)
  have ne: "fst (dn ! j) \<noteq> []" using good j(1) by (simp add: good_table_def Let_def)
  then have l: "last (fst (dn ! j)) \<in> set (fst (dn ! j))" by simp
  let ?l = "fst (last (fst (dn ! j)))"
  have i: "i < length dn" using ij(1) j(1) by simp
  have "?cmp (seps ! i) ?l < 0" "valid (seps ! i)" "?cmp ?l (seps ! j) \<le> 0" "valid (seps ! j)"
    using g(1,4) j(1) i block_split(1) [OF i j(1) l ij(1)] by (auto simp: index_keys_ok_def)
  moreover have "valid ?l" using g(2) block_split(2) [OF i j(1) l] by (auto simp: sorted_entries_def list_all_iff)
  ultimately show "?cmp (fst (index_entries dn seps ! i)) t < 0"
    using ij(3) j t comparator.cmp_less_le_trans [OF g(3), of "seps ! i" ?l "seps ! j"]
      comparator.cmp_less_trans [OF g(3), of "seps ! i" "seps ! j" t] by simp
qed

interpretation table_iter: two_level "table_env_of tbl ro" "cmp_Compare (opt_comparator (tbl_options tbl))"
    "cmp_Compare (opt_comparator (tbl_options tbl))"
    "if good_table valid ro dn seps tbl then index_entries dn seps else []"
    "if good_table valid ro dn seps tbl then map fst dn else []"
    "index_at valid ro dn seps tbl" "data_at valid ro dn seps tbl" valid
  for tbl :: table and ro :: read_options and valid :: "bytes \<Rightarrow> bool" and dn :: "stored_block list"
    and seps :: "bytes list"
proof (cases "good_table valid ro dn seps tbl")
  case False
  then show "two_level (table_env_of tbl ro) (cmp_Compare (opt_comparator (tbl_options tbl)))
      (cmp_Compare (opt_comparator (tbl_options tbl)))
      (if good_table valid ro dn seps tbl then index_entries dn seps else [])
      (if good_table valid ro dn seps tbl then map fst dn else [])
      (index_at valid ro dn seps tbl) (data_at valid ro dn seps tbl) valid"
    unfolding index_at_def data_at_def by unfold_locales simp_all
next
  case True
  let ?cmp = "cmp_Compare (opt_comparator (tbl_options tbl))" and ?K = "opt_block_restart_interval (tbl_options tbl)"
  note g = good_table_facts [OF True]
  have te: "te_index (table_env_of tbl ro) = block_iterator_class ?cmp" "te_data (table_env_of tbl ro) = block_iterator_class ?cmp"
    by (simp_all add: table_env_of_def)
  have idx: "snd (index_entries dn seps ! j) = BlockHandle_EncodeTo (handle_of dn j) []" if "j < length dn" for j
    using that g(1) by (simp add: index_entries_def)
  have at: "data_at valid ro dn seps tbl (snd (index_entries dn seps ! j)) = bstands ?K (fst (dn ! j))" if "j < length dn" for j
    using that data_at_block [OF True] by (auto simp: idx fun_eq_iff)
  have "entry_iterator (block_iterator_class ?cmp) ?cmp (index_entries dn seps) (index_at valid ro dn seps tbl) valid"
    unfolding index_at_def [abs_def] by (rule block_iterator.restrict) (rule index_seek_ok)
  moreover have "entry_iterator (block_iterator_class ?cmp) ?cmp (map fst dn ! j)
      (data_at valid ro dn seps tbl (snd (index_entries dn seps ! j))) valid" if j: "j < length dn" for j
  proof -
    have "seek_ok ?cmp (fst (dn ! j)) t" if "valid t" for t
      using sorted_entries_seek_ok [OF g(3) sorted_block [OF g(2)] that] j by simp
    then show ?thesis
      using block_iterator.restrict [of True valid ?cmp "fst (dn ! j)" ?K] j by (simp add: at)
  qed
  moreover have "data_at valid ro dn seps tbl (snd (index_entries dn seps ! j))
      (te_block_function (table_env_of tbl ro) (snd (index_entries dn seps ! j))) (length (map fst dn ! j))" if "j < length dn" for j
    using good_table_opens [OF True that] that data_at_block [OF True that] by (auto simp: idx table_env_of_def)
  ultimately show "two_level (table_env_of tbl ro) (cmp_Compare (opt_comparator (tbl_options tbl)))
      (cmp_Compare (opt_comparator (tbl_options tbl)))
      (if good_table valid ro dn seps tbl then index_entries dn seps else [])
      (if good_table valid ro dn seps tbl then map fst dn else [])
      (index_at valid ro dn seps tbl) (data_at valid ro dn seps tbl) valid"
    using g(1) index_in_step(1) [OF True] less_imp_le [OF index_in_step(2) [OF True]] True
    by (intro two_level.intro) (simp_all add: te)
qed

subsection \<open>Writing and reading\<close>

text \<open>The steps of a client that writes a table.\<close>

definition write_table :: "'f table_env \<Rightarrow> db_options \<Rightarrow> entry list \<Rightarrow> 'f \<Rightarrow> status \<times> 'f table_builder" where
  "write_table tv opt es f = TableBuilder_Finish tv (add_all tv es (TableBuilder opt f))"

lemma layout_good_table:
  assumes lay: "table_layout (tf_snappy f) valid opt dn seps data" and rd: "reads_file f data"
    and small: "small_table opt (table_entries dn) data" and z: "snappy_correct (tf_snappy f)"
    and K: "0 < opt_block_restart_interval opt" and c: "comparator_ok valid (opt_comparator opt)"
    and sorted: "sorted_entries (cmp_Compare (opt_comparator opt)) valid (table_entries dn)"
    and tbl: "table_is opt f dn seps tbl"
  shows "good_table valid ro dn seps tbl"
proof -
  have opt: "tbl_options tbl = opt" "tbl_file tbl = f" using tbl by (simp_all add: table_is_def)
  have L: "\<forall>(es, d, type) \<in> set dn. es \<noteq> [] \<and> stored_as (tf_snappy f) (block_bytes (opt_block_restart_interval opt) es) d type"
    "length seps = length dn" "index_keys_ok (cmp_Compare (opt_comparator opt)) valid dn [] seps"
    "\<exists>post. data = pieces dn @ post"
    using lay unfolding table_layout_def by blast+
  obtain post where data: "data = pieces dn @ post" using L(4) by blast
  have sz: "entries_size (table_entries dn) < 2 ^ 32" "length data < 2 ^ 32" using small by (simp_all add: small_table_def)
  have ne: "\<forall>(es, d, t) \<in> set dn. es \<noteq> []" using L(1) by (auto split: prod.splits)
  have "block_ok 1 (index_entries dn seps)"
    using length_index_block [OF L(3,2) ne] sz by (simp add: block_ok_def)
  moreover have "fst (dn ! j) \<noteq> [] \<and> block_ok (opt_block_restart_interval opt) (fst (dn ! j)) \<and>
      (\<exists>c. table_ReadBlock f (ro_verify_checksums ro) (handle_of dn j) = Some (Status_OK, c) \<and>
         bc_data c = block_bytes (opt_block_restart_interval opt) (fst (dn ! j)))" if j: "j < length dn" for j
  proof -
    obtain es d t where dj: "dn ! j = (es, d, t)" by (cases "dn ! j")
    have mem: "dn ! j \<in> set dn" using j by simp
    have st: "es \<noteq> []" "stored_as (tf_snappy f) (block_bytes (opt_block_restart_interval opt) es) d t"
      using L(1) mem dj by auto
    have "dn = take j dn @ dn ! j # drop (Suc j) dn" using j by (simp add: id_take_nth_drop)
    then have "pieces dn = pieces (take j dn) @ piece (dn ! j) @ pieces (drop (Suc j) dn)" by (metis pieces_simps(2,3))
    then have sp: "data = pieces (take j dn) @ (d @ block_trailer d t) @ pieces (drop (Suc j) dn) @ post"
      using data dj by simp
    have "block_ok (opt_block_restart_interval opt) es"
      using K sz entries_size_mem [OF mem] length_data_block [of "opt_block_restart_interval opt" es] dj
      by (simp add: block_ok_def)
    then show ?thesis
      using read_stored [OF rd [unfolded sp] sz(2) [unfolded sp] st(2) z] st(1) dj by (simp add: handle_of_def)
  qed
  ultimately show ?thesis
    unfolding good_table_def Let_def opt using c sorted tbl L(2,3) sz data by simp
qed

lemma index_opened:
  assumes "good_table valid ro dn seps tbl"
  shows "bstands 1 (index_entries dn seps) (Block_NewIterator (tbl_index_block tbl)) (length (index_entries dn seps))"
  using Block_opened [OF good_table_facts(5) [OF assms]] good_table_facts(7) [OF assms] by auto

lemma table_iterator_at_end:
  assumes "good_table valid ro dn seps tbl"
  shows "table_iter.tl_stands tbl ro valid dn seps (Table_NewIterator tbl ro) (length (table_entries dn))"
  using table_iter.new_stands [of valid ro dn seps tbl] index_opened [OF assms] assms
  by (simp add: Table_NewIterator_def index_at_def table_entries_def)

text \<open>The files of the POSIX environment.\<close>

definition posix_table :: "snappy \<Rightarrow> posix_writable table_env" where
  "posix_table z = \<lparr>tv_Append = PosixWritableFile_Append, tv_Flush = PosixWritableFile_Flush, tv_snappy = z\<rparr>"

interpretation posix_writer: table_writer "posix_table z" write_content for z :: snappy
  by (rule table_writer.intro, unfold posix_table_def table_env.select_convs, unfold_locales)

lemma written_table_opens:
  assumes "write_content f = []" and "compression_ok opt" and "comparator_ok valid (opt_comparator opt)"
    and "0 < opt_block_restart_interval opt" and "sorted_entries (cmp_Compare (opt_comparator opt)) valid es"
    and "write_table (posix_table (tf_snappy rf)) opt es f = (s, b)" and "ok s"
    and "snappy_correct (tf_snappy rf)" and "small_table opt es (write_content (tb_file b))"
    and "reads_file rf (write_content (tb_file b))"
  shows "\<exists>tbl dn seps. Table_Open opt rf (TableBuilder_FileSize b) = Some (Status_OK, Some tbl) \<and>
    table_entries dn = es \<and> tbl_options tbl = opt \<and> table_is opt rf dn seps tbl \<and>
    length (filter_piece opt dn) < 2 ^ 32 \<and> (\<forall>ro. good_table valid ro dn seps tbl)"
proof -
  let ?data = "write_content (tb_file b)"
  have tv: "tv_snappy (posix_table (tf_snappy rf)) = tf_snappy rf" by (simp add: posix_table_def)
  note fin = posix_writer.Finish_layout [OF assms(1-5) assms(6) [unfolded write_table_def] assms(7), unfolded tv]
  obtain dn seps where lay: "table_layout (tf_snappy rf) valid opt dn seps ?data" and es: "table_entries dn = es"
    using fin(1) by blast
  obtain tbl where op: "Table_Open opt rf (TableBuilder_FileSize b) = Some (Status_OK, Some tbl)"
      and tbl: "table_is opt rf dn seps tbl"
    using Open_layout [OF lay assms(10,9,8,4)] fin(2) by auto
  have "length (filter_piece opt dn) < 2 ^ 32"
    using lay assms(9) unfolding table_layout_def small_table_def by auto
  moreover have "good_table valid ro dn seps tbl" for ro
    using layout_good_table [OF lay assms(10) _ assms(8,4,3) _ tbl] es assms(5,9) by simp
  ultimately show ?thesis using op tbl es by (auto simp: table_is_def)
qed

subsection \<open>Properties\<close>

text \<open>
  Claim C4: a table file read back holds what was put in. When the builder has taken the entries, in
  ascending order of their keys, and \<^verbatim>\<open>Finish\<close> reports success, then opening the file succeeds, and the
  two-level iterator over it, with or without checksums, compression and a filter, delivers exactly
  the entries: forward from the first one, backward from the last one, and after a seek the entries
  from the target on.
\<close>

theorem table_roundtrip:
  assumes "write_content f = []" and "compression_ok opt" and "comparator_ok valid (opt_comparator opt)"
    and "0 < opt_block_restart_interval opt" and "sorted_entries (cmp_Compare (opt_comparator opt)) valid es"
    and "write_table (posix_table (tf_snappy rf)) opt es f = (s, b)" and "ok s"
    and "snappy_correct (tf_snappy rf)" and "small_table opt es (write_content (tb_file b))"
    and "reads_file rf (write_content (tb_file b))" and "length es \<le> n" and "valid target"
  shows "\<exists>tbl. Table_Open opt rf (TableBuilder_FileSize b) = Some (Status_OK, Some tbl) \<and>
    (let ops = TwoLevel_class (table_env_of tbl ro); it = Table_NewIterator tbl ro
     in collect ops n (it_SeekToFirst ops it) = es \<and>
        collect_back ops n (it_SeekToLast ops it) = rev es \<and>
        collect ops n (it_Seek ops it target) =
          dropWhile (\<lambda>e. cmp_Compare (opt_comparator opt) (fst e) target < 0) es)"
proof -
  obtain tbl dn seps where t: "Table_Open opt rf (TableBuilder_FileSize b) = Some (Status_OK, Some tbl)"
      "table_entries dn = es" "tbl_options tbl = opt" "\<forall>ro. good_table valid ro dn seps tbl"
    using written_table_opens [OF assms(1-10)] by blast
  have g: "good_table valid ro dn seps tbl" using t(4) by blast
  have es: "concat (if good_table valid ro dn seps tbl then map fst dn else []) = es"
    using g t(2) by (simp add: table_entries_def)
  note at = table_iterator_at_end [OF g, unfolded t(2)]
  show ?thesis
    using t(1) table_iter.whole.collect_from_first [OF at, unfolded es, OF assms(11)]
      table_iter.whole.collect_from_last [OF at, unfolded es, OF assms(11)]
      table_iter.whole.collect_from_seek [OF at assms(12), unfolded es t(3), OF assms(11)]
    by (auto simp: Let_def)
qed

text \<open>A file with the given data and no defects.\<close>

definition memory_file :: "snappy \<Rightarrow> bytes \<Rightarrow> table_file" where
  "memory_file z data = \<lparr>tf_Read = (\<lambda>off n. (Status_OK, take n (drop (unat off) data))), tf_in_place = False, tf_snappy = z\<rparr>"

lemma reads_memory_file: "reads_file (memory_file z data) data"
  by (simp add: reads_file_def memory_file_def)

definition empty_writable :: posix_writable where
  "empty_writable = \<lparr>pw_filename = [], pw_file =
     \<lparr>wf_disk = [], wf_buf = [], wf_room = 1000, wf_bad_flush = False, wf_errno = []\<rparr>\<rparr>"

definition sample_options :: db_options where
  "sample_options =
     \<lparr>opt_comparator = BytewiseComparator, opt_create_if_missing = False, opt_error_if_exists = False,
      opt_paranoid_checks = True, opt_write_buffer_size = 0, opt_max_open_files = 0,
      opt_block_size = 20, opt_block_restart_interval = 2, opt_max_file_size = 0,
      opt_compression = kNoCompression, opt_reuse_logs = False, opt_filter_policy = Some (NewBloomFilterPolicy 10)\<rparr>"

definition sample_table :: "status \<times> posix_writable table_builder" where
  "sample_table = write_table (posix_table no_snappy) sample_options sample_entries empty_writable"

text \<open>In the evaluation of samples the checksums stay as they are.\<close>

declare crc_Value_def [code del] crc_Extend_def [code del]

lemma sample_table_ok: "fst sample_table = Status_OK" "length (write_content (tb_file (snd sample_table))) \<le> 300"
  by code_simp+

lemma sample_written:
  "write_table (posix_table no_snappy) sample_options sample_entries empty_writable = (Status_OK, snd sample_table)"
  unfolding sample_table_def [symmetric] using sample_table_ok(1) by (metis prod.collapse)

lemma sample_table_setup:
  "compression_ok sample_options" "comparator_ok (\<lambda>k. True) (opt_comparator sample_options)"
  "0 < opt_block_restart_interval sample_options" "snappy_correct no_snappy" "write_content empty_writable = []"
  "sorted_entries (cmp_Compare (opt_comparator sample_options)) (\<lambda>k. True) sample_entries"
  "small_table sample_options sample_entries (write_content (tb_file (snd sample_table)))"
  using sample_table_ok(2) comparator_ok_bytewise
  by (simp_all add: sample_options_def compression_ok_def snappy_correct_def no_snappy_def empty_writable_def
      write_content_def sorted_entries_def sample_entries_def BytewiseComparator_def BytewiseCompare_def small_table_def
      entries_size_def NewBloomFilterPolicy_def str_def slice_compare_iffs)

theorem table_roundtrip_witness:
  "let rf = memory_file no_snappy (write_content (tb_file (snd sample_table)))
   in \<exists>tbl. Table_Open sample_options rf (TableBuilder_FileSize (snd sample_table)) = Some (Status_OK, Some tbl) \<and>
    (let ops = TwoLevel_class (table_env_of tbl ReadOptions); it = Table_NewIterator tbl ReadOptions
     in collect ops 4 (it_SeekToFirst ops it) = sample_entries \<and>
        collect_back ops 4 (it_SeekToLast ops it) = rev sample_entries \<and>
        collect ops 4 (it_Seek ops it [1, 2, 3]) = [([1, 2, 3], [7, 7]), ([2], [8])])"
proof -
  let ?rf = "memory_file no_snappy (write_content (tb_file (snd sample_table)))"
  have w: "write_table (posix_table (tf_snappy ?rf)) sample_options sample_entries empty_writable = (Status_OK, snd sample_table)"
    using sample_written by (simp add: memory_file_def)
  have seek: "dropWhile (\<lambda>e. cmp_Compare (opt_comparator sample_options) (fst e) [1, 2, 3] < 0) sample_entries =
      [([1, 2, 3], [7, 7]), ([2], [8])]" by code_simp
  have z: "snappy_correct (tf_snappy ?rf)" using sample_table_setup(4) by (simp add: memory_file_def)
  have Status_OK_ok: "ok Status_OK" by (simp add: ok_iff)
  have "length sample_entries \<le> 4" by (simp add: sample_entries_def)
  from table_roundtrip [OF sample_table_setup(5,1,2,3,6) w Status_OK_ok z sample_table_setup(7) reads_memory_file this TrueI,
    of ReadOptions "[1, 2, 3]"]
  show ?thesis unfolding seek by simp
qed

subsection \<open>Lookups\<close>

lemma sorted_offsets:
  assumes "length (pieces dn) < 2 ^ 32"
  shows "sorted (map (\<lambda>(off, ks). unat (off :: u64) div 2048) (filter_blocks dn []))"
proof -
  have le: "length (pieces (take i dn)) \<le> length (pieces (take j dn))" if "i \<le> j" for i j
  proof -
    have "take j dn = take i dn @ take (j - i) (drop i dn)" using that take_add [of i "j - i" dn] by simp
    then show ?thesis by simp
  qed
  have small: "length (pieces (take i dn)) < 2 ^ 64" for i
    using le [of i "max i (length dn)"] assms by simp
  have small': "length (pieces dn) < 2 ^ 64" using assms by simp
  have "sorted (map (\<lambda>j. length (pieces (take j dn)) div 2048) [0..<Suc (length dn)])"
    by (rule sorted_iff_nth_mono [THEN iffD2]) (auto simp: le div_le_mono simp del: upt_Suc)
  moreover have "map (\<lambda>(off, ks). unat (off :: u64) div 2048) (filter_blocks dn []) =
      map (\<lambda>j. length (pieces (take j dn)) div 2048) [0..<Suc (length dn)]"
    using small small' by (simp add: filter_blocks_def)
  ultimately show ?thesis by simp
qed

lemma filter_keeps:
  assumes "filter_policy (fp_CreateFilter p) (fp_KeyMayMatch p) (2 ^ 31 - 1)" and "opt_filter_policy opt = Some p"
    and "length (pieces dn) < 2 ^ 32" and "length (filter_data opt dn) < 2 ^ 32" and "length (table_entries dn) < 2 ^ 31"
    and "j < length dn" and "k \<in> fst ` set (fst (dn ! j))"
  shows "FilterBlock_KeyMayMatch (fp_KeyMayMatch p) (FilterBlockReader (filter_data opt dn)) (bh_offset (handle_of dn j)) k"
proof -
  have create: "filter_create opt = fp_CreateFilter p" using assms(2) by (simp add: filter_create_def)
  have "map snd (filter_blocks dn []) = map (map fst \<circ> fst) dn @ [[]]"
    by (rule nth_equalityI) (auto simp: filter_blocks_def nth_append)
  then have "length (concat (map snd (filter_blocks dn []))) = length (table_entries dn)"
    by (simp add: table_entries_def length_concat comp_def)
  then have "length (concat (map snd (filter_blocks dn []))) \<le> 2 ^ 31 - 1" using assms(5) by simp
  moreover have "(bh_offset (handle_of dn j), map fst (fst (dn ! j))) \<in> set (filter_blocks dn [])"
    using assms(6) by (auto simp: filter_blocks_def handle_of_def)
  ultimately show ?thesis
    using filter_policy.filter_block_no_false_negative [OF assms(1) sorted_offsets [OF assms(3)]] assms(4,7)
    by (auto simp: filter_data_def create)
qed

lemma found_position:
  assumes "comparator cmp sep succ valid" and "sorted_entries cmp valid es" and "(k, v) \<in> set es"
  shows "first_ge cmp es k < length es \<and> es ! first_ge cmp es k = (k, v)"
proof -
  obtain q where q: "q < length es" "es ! q = (k, v)" using assms(3) by (auto simp: in_set_conv_nth)
  have k: "cmp k k = 0" using assms comparator.cmp_self by (fastforce simp: sorted_entries_def list_all_iff)
  let ?p = "first_ge cmp es k"
  have "\<not> q < ?p" using first_ge_before [of q cmp es k] q k by auto
  moreover from this have p: "?p < length es" using q by simp
  moreover have "\<not> ?p < q"
    using first_ge_here [OF p] q assms(2) unfolding sorted_entries_def sorted_wrt_iff_nth_less by (metis fst_conv)
  ultimately show ?thesis using q by (metis linorder_less_linear)
qed

text \<open>The index leads to the block with the key, and the filter lets it pass.\<close>

lemma InternalGet_good:
  assumes good: "good_table valid ro dn seps tbl" and k: "valid k"
    and flt: "\<And>p j. opt_filter_policy (tbl_options tbl) = Some p \<Longrightarrow> j < length dn \<Longrightarrow> k \<in> fst ` set (fst (dn ! j)) \<Longrightarrow>
      FilterBlock_KeyMayMatch (fp_KeyMayMatch p) (FilterBlockReader (filter_data (tbl_options tbl) dn)) (bh_offset (handle_of dn j)) k"
  shows "\<exists>r. InternalGet tbl ro k = Some (Status_OK, r) \<and>
    (\<forall>v. (k, v) \<in> set (table_entries dn) \<longrightarrow> r = Some (k, v)) \<and>
    (\<forall>e. r = Some e \<longrightarrow> e \<in> set (table_entries dn) \<and> 0 \<le> cmp_Compare (opt_comparator (tbl_options tbl)) (fst e) k)"
proof -
  let ?cmp = "cmp_Compare (opt_comparator (tbl_options tbl))" and ?K = "opt_block_restart_interval (tbl_options tbl)"
  let ?ops = "block_iterator_class ?cmp" and ?idx = "index_entries dn seps"
  note g = good_table_facts [OF good]
  define j where "j = first_ge ?cmp ?idx k"
  define ii where "ii = it_Seek ?ops (Block_NewIterator (tbl_index_block tbl)) k"
  have ii: "bstands 1 ?idx ii j"
    unfolding ii_def j_def by (rule block_iterator.seek_at [OF index_opened [OF good] index_seek_ok [OF good k]])
  have st: "it_status ?ops ii = Status_OK" using block_iterator.status_at [OF ii] by (simp add: ok_iff)
  have in_block: "i = j" if "i < length dn" "(k, v) \<in> set (fst (dn ! i))" for i v
    using index_in_step [OF good k that] comparator.cmp_self [OF g(3) k] by (fastforce simp: j_def)
  show ?thesis
  proof (cases "j < length dn")
    case False
    then have "InternalGet tbl ro k = Some (Status_OK, None)"
      using block_iterator.valid_iff [OF ii] st g(1) by (simp add: InternalGet_def Let_def flip: ii_def)
    moreover have "(k, v) \<notin> set (table_entries dn)" for v
      using in_block False block_of_entry by blast
    ultimately show ?thesis by auto
  next
    case True
    let ?b = "fst (dn ! j)" and ?h = "BlockHandle_EncodeTo (handle_of dn j) []"
    have v: "it_Valid ?ops ii" "it_value ?ops ii = ?h"
      using block_iterator.valid_iff [OF ii] block_iterator.value_at [OF ii] True g(1) by (simp_all add: index_entries_def)
    have dec: "BlockHandle_DecodeFrom new_BlockHandle ?h = (Status_OK, handle_of dn j, [])"
      using BlockHandle_roundtrip [of new_BlockHandle "handle_of dn j" "[]"] by simp
    obtain it where it: "BlockReader tbl ro ?h = Some it" "bstands ?K ?b it (length ?b)"
      using good_table_opens [OF good True] by blast
    have so: "sorted_entries ?cmp valid ?b" using sorted_block [OF g(2)] True by simp
    let ?i = "first_ge ?cmp ?b k" and ?it = "it_Seek ?ops it k"
    have at: "bstands ?K ?b ?it ?i"
      by (rule block_iterator.seek_at [OF it(2) sorted_entries_seek_ok [OF g(3) so k]])
    define saved where "saved = (if ?i < length ?b then Some (?b ! ?i) else None)"
    have sv: "(if it_Valid ?ops ?it then Some (it_key ?ops ?it, it_value ?ops ?it) else None) = saved"
      "it_status ?ops ?it = Status_OK"
      using block_iterator.valid_iff [OF at] block_iterator.key_at [OF at] block_iterator.value_at [OF at]
        block_iterator.status_at [OF at] by (auto simp: saved_def ok_iff)
    define filtered where "filtered = (case tbl_filter tbl of None \<Rightarrow> False | Some reader \<Rightarrow>
        (case opt_filter_policy (tbl_options tbl) of None \<Rightarrow> False | Some policy \<Rightarrow>
          ok Status_OK \<and> \<not> FilterBlock_KeyMayMatch (fp_KeyMayMatch policy) reader (bh_offset (handle_of dn j)) k))"
    have get: "InternalGet tbl ro k = Some (Status_OK, if filtered then None else saved)"
      unfolding InternalGet_def Let_def ii_def [symmetric] v(2) dec prod.case filtered_def [symmetric] it(1)
      using v(1) st sv by (simp add: ok_iff)
    have pass: "\<not> filtered" if "(k, v) \<in> set ?b" for v
    proof -
      have "k \<in> fst ` set ?b" using that by force
      moreover have "tbl_filter tbl = (if opt_filter_policy (tbl_options tbl) = None then None
          else Some (FilterBlockReader (filter_data (tbl_options tbl) dn)))"
        using good by (simp add: good_table_def table_is_def Let_def)
      ultimately show ?thesis using flt [OF _ True] by (auto simp: filtered_def split: option.splits if_splits)
    qed
    have "(if filtered then None else saved) = Some (k, v)" if "(k, v) \<in> set (table_entries dn)" for v
    proof -
      have kb: "(k, v) \<in> set ?b" using block_of_entry [OF that] in_block by blast
      show ?thesis using pass [OF kb] found_position [OF g(3) so kb] by (simp add: saved_def)
    qed
    moreover have "e \<in> set (table_entries dn) \<and> 0 \<le> ?cmp (fst e) k" if "(if filtered then None else saved) = Some e" for e
    proof -
      have "?i < length ?b" "e = ?b ! ?i" using that by (auto simp: saved_def split: if_splits)
      then show ?thesis using first_ge_here [of ?cmp ?b k] block_split(2) [OF True True, of e] by auto
    qed
    ultimately show ?thesis using get by blast
  qed
qed

text \<open>
  Claim C5: looking up a key in a table finds it. When the entries were written by the builder and the
  file opened again, \<^verbatim>\<open>InternalGet\<close> returns for every key that was added its value: neither the index
  nor the filter block hides it. For other keys it reports success and no entry, or an entry of the
  table whose key is not smaller, from which the caller sees that the key is missing.
\<close>

theorem table_get:
  assumes "write_content f = []" and "compression_ok opt" and "comparator_ok valid (opt_comparator opt)"
    and "0 < opt_block_restart_interval opt" and "sorted_entries (cmp_Compare (opt_comparator opt)) valid es"
    and "write_table (posix_table (tf_snappy rf)) opt es f = (s, b)" and "ok s"
    and "snappy_correct (tf_snappy rf)" and "small_table opt es (write_content (tb_file b))"
    and "reads_file rf (write_content (tb_file b))" and "valid k"
    and "\<And>p. opt_filter_policy opt = Some p \<Longrightarrow> filter_policy (fp_CreateFilter p) (fp_KeyMayMatch p) (2 ^ 31 - 1)"
  shows "\<exists>tbl r. Table_Open opt rf (TableBuilder_FileSize b) = Some (Status_OK, Some tbl) \<and>
    InternalGet tbl ro k = Some (Status_OK, r) \<and> (\<forall>v. (k, v) \<in> set es \<longrightarrow> r = Some (k, v)) \<and>
    (\<forall>e. r = Some e \<longrightarrow> e \<in> set es \<and> 0 \<le> cmp_Compare (opt_comparator opt) (fst e) k)"
proof -
  obtain tbl dn seps where t: "Table_Open opt rf (TableBuilder_FileSize b) = Some (Status_OK, Some tbl)"
      "table_entries dn = es" "tbl_options tbl = opt" "length (filter_piece opt dn) < 2 ^ 32"
      "\<forall>ro. good_table valid ro dn seps tbl"
    using written_table_opens [OF assms(1-10)] by blast
  have g: "good_table valid ro dn seps tbl" using t(5) by blast
  have "length es < 2 ^ 31"
  proof -
    have "39 * length es \<le> entries_size es" by (induction es) (auto simp: entries_size_def)
    then show ?thesis using assms(9) by (simp add: small_table_def)
  qed
  then have "FilterBlock_KeyMayMatch (fp_KeyMayMatch p) (FilterBlockReader (filter_data opt dn)) (bh_offset (handle_of dn j)) k"
    if "opt_filter_policy opt = Some p" "j < length dn" "k \<in> fst ` set (fst (dn ! j))" for p j
    using filter_keeps [OF assms(12) [OF that(1)] that(1) good_table_facts(6) [OF g] _ _ that(2,3)] t(2,4) that(1)
    by (simp add: filter_piece_def)
  then show ?thesis using InternalGet_good [OF g assms(11)] t by auto
qed

theorem table_get_witness:
  "let rf = memory_file no_snappy (write_content (tb_file (snd sample_table)))
   in \<exists>tbl. Table_Open sample_options rf (TableBuilder_FileSize (snd sample_table)) = Some (Status_OK, Some tbl) \<and>
     InternalGet tbl ReadOptions [1, 2, 3] = Some (Status_OK, Some ([1, 2, 3], [7, 7]))"
proof -
  let ?rf = "memory_file no_snappy (write_content (tb_file (snd sample_table)))"
  have w: "write_table (posix_table (tf_snappy ?rf)) sample_options sample_entries empty_writable = (Status_OK, snd sample_table)"
    using sample_written by (simp add: memory_file_def)
  have z: "snappy_correct (tf_snappy ?rf)" using sample_table_setup(4) by (simp add: memory_file_def)
  have fp: "filter_policy (fp_CreateFilter p) (fp_KeyMayMatch p) (2 ^ 31 - 1)"
    if "opt_filter_policy sample_options = Some p" for p
  proof -
    have "p = NewBloomFilterPolicy 10" using that by (simp add: sample_options_def)
    moreover have "filter_policy (CreateFilter (BloomFilterPolicy 10)) KeyMayMatch (2 ^ 31 - 1)" by unfold_locales
    ultimately show ?thesis by (simp add: NewBloomFilterPolicy_def)
  qed
  have "([1, 2, 3], [7, 7]) \<in> set sample_entries" by (simp add: sample_entries_def)
  with table_get [OF sample_table_setup(5,1,2,3,6) w _ z sample_table_setup(7) reads_memory_file TrueI fp,
      of ReadOptions "[1, 2, 3]"]
  show ?thesis by (auto simp: ok_iff)
qed

end
