(* ===== verification/LDB_FileName.thy ===== *)
theory LDB_FileName
  imports LDB_Logging LDB_Slice
begin

text \<open>
  \<^verbatim>\<open>db/filename.cc\<close>: the names of the files of a database and their parser. The buffer that
  \<^verbatim>\<open>snprintf\<close> prints into has 100 bytes, more than the longest of these names needs.
\<close>

subsection \<open>Names\<close>

datatype FileType = kLogFile | kDBLockFile | kTableFile | kDescriptorFile | kCurrentFile | kTempFile
  | kInfoLogFile

text \<open>The conversion \<^verbatim>\<open>%06llu\<close>.\<close>

definition decimal06 :: "u64 \<Rightarrow> bytes" where
  "decimal06 n = replicate (6 - length (decimal (unat n))) 48 @ decimal (unat n)"

definition MakeFileName :: "bytes \<Rightarrow> u64 \<Rightarrow> bytes \<Rightarrow> bytes" where
  "MakeFileName name number ext = name @ str ''/'' @ decimal06 number @ str ''.'' @ ext"

definition LogFileName :: "bytes \<Rightarrow> u64 \<Rightarrow> bytes" where
  "LogFileName name number = MakeFileName name number (str ''log'')"

definition TableFileName :: "bytes \<Rightarrow> u64 \<Rightarrow> bytes" where
  "TableFileName name number = MakeFileName name number (str ''ldb'')"

definition SSTTableFileName :: "bytes \<Rightarrow> u64 \<Rightarrow> bytes" where
  "SSTTableFileName name number = MakeFileName name number (str ''sst'')"

definition DescriptorFileName :: "bytes \<Rightarrow> u64 \<Rightarrow> bytes" where
  "DescriptorFileName dbname number = dbname @ str ''/MANIFEST-'' @ decimal06 number"

definition CurrentFileName :: "bytes \<Rightarrow> bytes" where
  "CurrentFileName dbname = dbname @ str ''/CURRENT''"

definition LockFileName :: "bytes \<Rightarrow> bytes" where
  "LockFileName dbname = dbname @ str ''/LOCK''"

definition TempFileName :: "bytes \<Rightarrow> u64 \<Rightarrow> bytes" where
  "TempFileName dbname number = MakeFileName dbname number (str ''dbtmp'')"

definition InfoLogFileName :: "bytes \<Rightarrow> bytes" where
  "InfoLogFileName dbname = dbname @ str ''/LOG''"

definition OldInfoLogFileName :: "bytes \<Rightarrow> bytes" where
  "OldInfoLogFileName dbname = dbname @ str ''/LOG.old''"

text \<open>The parser: the number and the type it stores, or \<^const>\<open>None\<close> when it returns false.\<close>

definition ParseFileName :: "bytes \<Rightarrow> (u64 \<times> FileType) option" where
  "ParseFileName fname =
     (let rest = fname
      in if rest = str ''CURRENT'' then Some (0, kCurrentFile)
         else if rest = str ''LOCK'' then Some (0, kDBLockFile)
         else if rest = str ''LOG'' \<or> rest = str ''LOG.old'' then Some (0, kInfoLogFile)
         else if starts_with rest (str ''MANIFEST-'') then
           let rest = remove_prefix rest (length ''MANIFEST-'')
           in (case ConsumeDecimalNumber rest of
                 (True, Some num, rest) \<Rightarrow> if rest \<noteq> [] then None else Some (num, kDescriptorFile)
               | _ \<Rightarrow> None)
         else
           (case ConsumeDecimalNumber rest of
              (True, Some num, rest) \<Rightarrow>
                let ext = rest
                in if ext = str ''.log'' then Some (num, kLogFile)
                   else if ext = str ''.sst'' \<or> ext = str ''.ldb'' then Some (num, kTableFile)
                   else if ext = str ''.dbtmp'' then Some (num, kTempFile)
                   else None
            | _ \<Rightarrow> None))"

subsection \<open>The grammar of the names\<close>

definition numeral_for :: "bytes \<Rightarrow> u64 \<Rightarrow> bool" where
  "numeral_for ds n \<longleftrightarrow> ds \<noteq> [] \<and> list_all is_digit ds \<and> digits_value 0 ds = unat n"

definition parsed_file :: "bytes \<Rightarrow> u64 \<Rightarrow> FileType \<Rightarrow> bool" where
  "parsed_file f n t \<longleftrightarrow>
     (case t of
        kCurrentFile \<Rightarrow> f = str ''CURRENT'' \<and> n = 0
      | kDBLockFile \<Rightarrow> f = str ''LOCK'' \<and> n = 0
      | kInfoLogFile \<Rightarrow> (f = str ''LOG'' \<or> f = str ''LOG.old'') \<and> n = 0
      | kDescriptorFile \<Rightarrow> (\<exists>ds. numeral_for ds n \<and> f = str ''MANIFEST-'' @ ds)
      | kLogFile \<Rightarrow> (\<exists>ds. numeral_for ds n \<and> f = ds @ str ''.log'')
      | kTableFile \<Rightarrow> (\<exists>ds. numeral_for ds n \<and> (f = ds @ str ''.sst'' \<or> f = ds @ str ''.ldb''))
      | kTempFile \<Rightarrow> (\<exists>ds. numeral_for ds n \<and> f = ds @ str ''.dbtmp''))"

text \<open>
  The grammar in the comment of \<^verbatim>\<open>ParseFileName\<close>, for numbers of 64 bits, and the names of temporary files, which the comment
  leaves out.
\<close>

definition owned_file :: "bytes \<Rightarrow> u64 \<Rightarrow> FileType \<Rightarrow> bool" where
  "owned_file f n t \<longleftrightarrow>
     (f = str ''CURRENT'' \<and> n = 0 \<and> t = kCurrentFile) \<or>
     (f = str ''LOCK'' \<and> n = 0 \<and> t = kDBLockFile) \<or>
     (f \<in> {str ''LOG'', str ''LOG.old''} \<and> n = 0 \<and> t = kInfoLogFile) \<or>
     (\<exists>ds. numeral_for ds n \<and> (f = str ''MANIFEST-'' @ ds \<and> t = kDescriptorFile \<or> f = ds @ str ''.log'' \<and> t = kLogFile \<or>
        f \<in> {ds @ str ''.sst'', ds @ str ''.ldb''} \<and> t = kTableFile))"

definition temp_file :: "bytes \<Rightarrow> u64 \<Rightarrow> bool" where
  "temp_file f n \<longleftrightarrow> (\<exists>ds. numeral_for ds n \<and> f = ds @ str ''.dbtmp'')"

lemma parsed_file_iff: "parsed_file f n t \<longleftrightarrow> owned_file f n t \<or> t = kTempFile \<and> temp_file f n"
  unfolding parsed_file_def owned_file_def temp_file_def by (cases t) auto

text \<open>What the number parser accepts: the digits in front, when their value fits.\<close>

lemma Consume_iff:
  "ConsumeDecimalNumber f = (True, Some n, rest) \<longleftrightarrow>
     (\<exists>ds. numeral_for ds n \<and> f = ds @ rest \<and> (rest = [] \<or> \<not> is_digit (hd rest)))"
proof -
  define ds where "ds = takeWhile is_digit f"
  define r where "r = dropWhile is_digit f"
  have f: "f = ds @ r" by (simp add: ds_def r_def)
  have d: "\<forall>c\<in>set ds. is_digit c" by (auto simp: ds_def dest: set_takeWhileD)
  have r: "r = [] \<or> \<not> is_digit (hd r)" using hd_dropWhile r_def by blast
  note spec = ConsumeDecimalNumber_loop_spec [OF d r, of 0 0]
  have uniq: "ds' = ds \<and> rest = r"
    if "f = ds' @ rest" "rest = [] \<or> \<not> is_digit (hd rest)" "list_all is_digit ds'" for ds'
  proof -
    have "takeWhile is_digit rest = []" using that(2) by (cases rest) auto
    moreover have "takeWhile is_digit f = ds' @ takeWhile is_digit rest"
      unfolding that(1) by (rule takeWhile_append2) (use that(3) in \<open>auto simp: list_all_iff\<close>)
    ultimately have "takeWhile is_digit f = ds'" by simp
    then have "ds' = ds" by (simp add: ds_def)
    with that(1) f show ?thesis by (metis same_append_eq)
  qed
  show ?thesis
  proof
    assume *: "ConsumeDecimalNumber f = (True, Some n, rest)"
    then have small: "digits_value 0 ds < 2 ^ 64" using spec f by (force simp: ConsumeDecimalNumber_def)
    then have "n = word_of_nat (digits_value 0 ds)" "rest = r" "ds \<noteq> []"
      using spec f * by (auto simp: ConsumeDecimalNumber_def)
    then show "\<exists>ds. numeral_for ds n \<and> f = ds @ rest \<and> (rest = [] \<or> \<not> is_digit (hd rest))"
      using small f d r by (intro exI [of _ ds]) (simp add: numeral_for_def list_all_iff)
  next
    assume "\<exists>ds. numeral_for ds n \<and> f = ds @ rest \<and> (rest = [] \<or> \<not> is_digit (hd rest))"
    then obtain ds' where ds': "numeral_for ds' n" "f = ds' @ rest" "rest = [] \<or> \<not> is_digit (hd rest)" by blast
    then have "ds' = ds" "rest = r" using uniq by (auto simp: numeral_for_def)
    then show "ConsumeDecimalNumber f = (True, Some n, rest)"
      using ds' spec unat_bounds(3) [of n] by (simp add: numeral_for_def ConsumeDecimalNumber_def flip: f)
  qed
qed

lemma Consume_case:
  "(case ConsumeDecimalNumber f of (True, Some num, rest) \<Rightarrow> g num rest | _ \<Rightarrow> None) = Some x \<longleftrightarrow>
     (\<exists>num rest. ConsumeDecimalNumber f = (True, Some num, rest) \<and> g num rest = Some x)"
  by (auto split: prod.splits bool.splits option.splits)

lemma numeral_for_hd: "numeral_for ds n \<Longrightarrow> is_digit (hd (ds @ r))"
  by (cases ds) (auto simp: numeral_for_def)

abbreviation special_names :: "bytes set" where
  "special_names \<equiv> {str ''CURRENT'', str ''LOCK'', str ''LOG'', str ''LOG.old''}"

lemma name_heads:
  "w \<in> special_names \<Longrightarrow> \<not> is_digit (hd w)"
  "\<not> is_digit (hd (str ''MANIFEST-'' @ g))"
  "str ''MANIFEST-'' @ g \<notin> special_names"
  "r \<in> {[], str ''.log'', str ''.sst'', str ''.ldb'', str ''.dbtmp''} \<Longrightarrow> r = [] \<or> \<not> is_digit (hd r)"
  by (auto simp: str_def is_digit_def)

lemma not_numeral:
  assumes "\<not> is_digit (hd f)"
  shows "\<nexists>ds. numeral_for ds n \<and> f = ds @ r" and "\<nexists>ds. numeral_for ds n \<and> (f = ds @ r \<or> f = ds @ r')"
  using assms numeral_for_hd by blast+

lemma Parse_special: "f \<in> special_names \<Longrightarrow> ParseFileName f = Some (n, t) \<longleftrightarrow> parsed_file f n t"
proof -
  assume f: "f \<in> special_names"
  then have "\<nexists>ds. numeral_for ds n \<and> f = str ''MANIFEST-'' @ ds" using name_heads(3) by blast
  then show ?thesis
    using f not_numeral [OF name_heads(1) [OF f], of n] unfolding parsed_file_def ParseFileName_def Let_def
    by (cases t) (auto simp: str_def)
qed

lemma Parse_manifest:
  "ParseFileName (str ''MANIFEST-'' @ g) = Some (n, t) \<longleftrightarrow> parsed_file (str ''MANIFEST-'' @ g) n t"
proof -
  have "ParseFileName (str ''MANIFEST-'' @ g) =
      (case ConsumeDecimalNumber g of
         (True, Some num, rest) \<Rightarrow> if rest \<noteq> [] then None else Some (num, kDescriptorFile) | _ \<Rightarrow> None)"
    using name_heads(3) [of g]
    by (simp add: ParseFileName_def Let_def starts_with_iff remove_prefix_def split: prod.split)
  then have "ParseFileName (str ''MANIFEST-'' @ g) = Some (n, t) \<longleftrightarrow> t = kDescriptorFile \<and> numeral_for g n"
    by (auto simp: Consume_case Consume_iff split: if_splits)
  then show ?thesis
    using name_heads(3) [of g] not_numeral [OF name_heads(2) [of g], of n]
    unfolding parsed_file_def by (cases t) auto
qed

lemma Parse_numbered:
  assumes "f \<notin> special_names" and "\<not> prefix (str ''MANIFEST-'') f"
  shows "ParseFileName f = Some (n, t) \<longleftrightarrow> parsed_file f n t"
proof -
  have "ParseFileName f = Some (n, t) \<longleftrightarrow> (\<exists>num r. ConsumeDecimalNumber f = (True, Some num, r) \<and>
      (if r = str ''.log'' then Some (num, kLogFile)
       else if r = str ''.sst'' \<or> r = str ''.ldb'' then Some (num, kTableFile)
       else if r = str ''.dbtmp'' then Some (num, kTempFile) else None) = Some (n, t))"
    using assms by (simp add: ParseFileName_def Let_def starts_with_iff Consume_case)
  also have "\<dots> \<longleftrightarrow> (\<exists>ds r. numeral_for ds n \<and> f = ds @ r \<and>
      (r = str ''.log'' \<and> t = kLogFile \<or> (r = str ''.sst'' \<or> r = str ''.ldb'') \<and> t = kTableFile \<or>
       r = str ''.dbtmp'' \<and> t = kTempFile))"
  proof -
    have ne: "str ''.log'' \<noteq> str ''.sst''" "str ''.log'' \<noteq> str ''.ldb''" "str ''.log'' \<noteq> str ''.dbtmp''"
      "str ''.sst'' \<noteq> str ''.dbtmp''" "str ''.ldb'' \<noteq> str ''.dbtmp''"
      by (simp_all add: str_def)
    show ?thesis
      unfolding Consume_iff using name_heads(4) ne by (auto split: if_splits)
  qed
  also have "\<dots> \<longleftrightarrow> parsed_file f n t"
    using assms unfolding parsed_file_def by (cases t) (auto simp: prefix_def)
  finally show ?thesis .
qed

lemma ParseFileName_iff: "ParseFileName f = Some (n, t) \<longleftrightarrow> parsed_file f n t"
  using Parse_special [of f n t] Parse_manifest [of _ n t] Parse_numbered [of f n t] by (auto simp: prefix_def)

lemma digits_value_zeros: "digits_value 0 (replicate k 48 @ ds) = digits_value 0 ds"
  by (induction k) (simp_all add: digit_value_def)

lemma numeral_for_decimal06: "numeral_for (decimal06 n) n"
  using decimal_digits [of "unat n"] decimal_nonempty [of "unat n"]
  by (auto simp: numeral_for_def decimal06_def digits_value_zeros decimal_value list_all_iff is_digit_def)

lemma TempFileName_not_current: "TempFileName db n \<noteq> CurrentFileName db"
proof
  assume "TempFileName db n = CurrentFileName db"
  then have "last (TempFileName db n) = last (CurrentFileName db)" by simp
  then show False by (simp add: TempFileName_def CurrentFileName_def MakeFileName_def str_def)
qed

subsection \<open>Properties\<close>

text \<open>
  Claim C33: the parser of file names accepts exactly the names of the grammar in its comment, with the
  number and the type they carry, and beyond it the names of temporary files; and every name that the library makes is parsed back: behind the
  directory, the names of logs, tables (old and new style), descriptors and temporary files give their
  number and type.
\<close>

theorem file_names_parsed:
  "(ParseFileName f = Some (k, t) \<longleftrightarrow> owned_file f k t \<or> t = kTempFile \<and> temp_file f k) \<and>
   ParseFileName (drop (length db + 1) (LogFileName db n)) = Some (n, kLogFile) \<and>
   ParseFileName (drop (length db + 1) (TableFileName db n)) = Some (n, kTableFile) \<and>
   ParseFileName (drop (length db + 1) (SSTTableFileName db n)) = Some (n, kTableFile) \<and>
   ParseFileName (drop (length db + 1) (DescriptorFileName db n)) = Some (n, kDescriptorFile) \<and>
   ParseFileName (drop (length db + 1) (TempFileName db n)) = Some (n, kTempFile) \<and>
   ParseFileName (drop (length db + 1) (CurrentFileName db)) = Some (0, kCurrentFile) \<and>
   ParseFileName (drop (length db + 1) (LockFileName db)) = Some (0, kDBLockFile) \<and>
   ParseFileName (drop (length db + 1) (InfoLogFileName db)) = Some (0, kInfoLogFile) \<and>
   ParseFileName (drop (length db + 1) (OldInfoLogFileName db)) = Some (0, kInfoLogFile)"
  unfolding parsed_file_iff [symmetric] ParseFileName_iff parsed_file_def
  using numeral_for_decimal06 [of n]
  by (auto simp: LogFileName_def TableFileName_def SSTTableFileName_def DescriptorFileName_def
      TempFileName_def CurrentFileName_def LockFileName_def InfoLogFileName_def OldInfoLogFileName_def
      MakeFileName_def str_def)

end
