(* ===== verification/LDB_FileSystem.thy ===== *)
theory LDB_FileSystem
  imports LDB_Env LDB_FileName "HOL-Library.Monad_Syntax"
begin

text \<open>
  The environment: the operations of \<^verbatim>\<open>PosixEnv\<close> in \<^verbatim>\<open>util/env_posix.cc\<close> on a file system, the
  helpers of \<^verbatim>\<open>util/env.cc\<close> and \<^verbatim>\<open>SetCurrentFile\<close> of \<^verbatim>\<open>db/filename.cc\<close>. The helpers work on an
  arbitrary environment, a record of the virtual functions they call; the locale \<open>file_env\<close> says what
  they rely on, and the POSIX environment interprets it.

  The kernel decides which calls fail: call number \<open>n\<close> fails when \<open>k_fail n\<close> holds, and a stream opened
  by it accepts \<open>k_room n\<close> bytes and cannot be flushed when \<open>k_bad_flush n\<close> holds. A crash in the middle
  of an operation is a kernel in which all later calls fail.
\<close>

subsection \<open>The POSIX environment\<close>

record kernel =
  k_fail :: "nat \<Rightarrow> bool"
  k_room :: "nat \<Rightarrow> nat"
  k_bad_flush :: "nat \<Rightarrow> bool"
  k_bad_read :: "nat \<Rightarrow> nat option"
  k_errno :: "nat \<Rightarrow> bytes"

record fs =
  fs_files :: "bytes \<Rightarrow> bytes option"
  fs_calls :: nat
  fs_locked :: "bytes set"
  fs_held :: "bytes set"
  fs_foreign :: "bytes set"
  fs_mmap_limit :: int
  fs_fd_limit :: int

definition tick :: "fs \<Rightarrow> fs" where
  "tick e = e\<lparr>fs_calls := Suc (fs_calls e)\<rparr>"

lemma tick_simps [simp]:
  "fs_files (tick e) = fs_files e" "fs_locked (tick e) = fs_locked e" "fs_held (tick e) = fs_held e"
  "fs_foreign (tick e) = fs_foreign e" "fs_mmap_limit (tick e) = fs_mmap_limit e"
  "fs_fd_limit (tick e) = fs_fd_limit e" "fs_calls (tick e) = Suc (fs_calls e)"
  by (simp_all add: tick_def)

definition call_fails :: "kernel \<Rightarrow> fs \<Rightarrow> bool" where
  "call_fails k e = k_fail k (fs_calls e)"

definition env_IOError :: "kernel \<Rightarrow> bytes \<Rightarrow> fs \<Rightarrow> status" where
  "env_IOError k context e = Status_IOError context (k_errno k (fs_calls e))"

definition PosixEnv_NewSequentialFile :: "kernel \<Rightarrow> bytes \<Rightarrow> fs \<Rightarrow> status \<times> posix_sequential option \<times> fs" where
  "PosixEnv_NewSequentialFile k fname e =
     (case fs_files e fname of
        Some data \<Rightarrow>
          if call_fails k e then (env_IOError k fname e, None, tick e)
          else (Status_OK,
            Some \<lparr>ps_filename = fname, ps_file = \<lparr>cf_data = data, cf_pos = 0,
                    cf_bad = k_bad_read k (fs_calls e), cf_errno = k_errno k (fs_calls e)\<rparr>\<rparr>, tick e)
      | None \<Rightarrow> (env_IOError k fname e, None, tick e))"

text \<open>\<^verbatim>\<open>fopen\<close> with mode \<open>w\<close> or \<open>a\<close>: the stream starts with what the file holds then.\<close>

definition open_stream :: "kernel \<Rightarrow> bytes \<Rightarrow> bytes \<Rightarrow> fs \<Rightarrow> posix_writable" where
  "open_stream k fname data e =
     \<lparr>pw_filename = fname, pw_file = \<lparr>wf_disk = data, wf_buf = [], wf_room = k_room k (fs_calls e),
        wf_bad_flush = k_bad_flush k (fs_calls e), wf_errno = k_errno k (fs_calls e)\<rparr>\<rparr>"

definition PosixEnv_NewWritableFile :: "kernel \<Rightarrow> bytes \<Rightarrow> fs \<Rightarrow> status \<times> posix_writable option \<times> fs" where
  "PosixEnv_NewWritableFile k fname e =
     (if call_fails k e then (env_IOError k fname e, None, tick e)
      else (Status_OK, Some (open_stream k fname [] e), (tick e)\<lparr>fs_files := (fs_files e)(fname \<mapsto> [])\<rparr>))"

definition PosixEnv_NewAppendableFile :: "kernel \<Rightarrow> bytes \<Rightarrow> fs \<Rightarrow> status \<times> posix_writable option \<times> fs" where
  "PosixEnv_NewAppendableFile k fname e =
     (if call_fails k e then (env_IOError k fname e, None, tick e)
      else
        let data = (case fs_files e fname of Some d \<Rightarrow> d | None \<Rightarrow> [])
        in (Status_OK, Some (open_stream k fname data e), (tick e)\<lparr>fs_files := (fs_files e)(fname \<mapsto> data)\<rparr>))"

definition PosixEnv_FileExists :: "bytes \<Rightarrow> fs \<Rightarrow> bool" where
  "PosixEnv_FileExists fname e \<longleftrightarrow> fs_files e fname \<noteq> None"

definition PosixEnv_DeleteFile :: "kernel \<Rightarrow> bytes \<Rightarrow> fs \<Rightarrow> status \<times> fs" where
  "PosixEnv_DeleteFile k fname e =
     (if call_fails k e \<or> fs_files e fname = None then (env_IOError k fname e, tick e)
      else (Status_OK, (tick e)\<lparr>fs_files := (fs_files e)(fname := None)\<rparr>))"

definition PosixEnv_GetFileSize :: "kernel \<Rightarrow> bytes \<Rightarrow> fs \<Rightarrow> status \<times> u64 \<times> fs" where
  "PosixEnv_GetFileSize k fname e =
     (case fs_files e fname of
        Some data \<Rightarrow>
          if call_fails k e then (env_IOError k fname e, 0, tick e)
          else (Status_OK, word_of_nat (length data), tick e)
      | None \<Rightarrow> (env_IOError k fname e, 0, tick e))"

text \<open>\<^verbatim>\<open>rename\<close> replaces the target in one step or does nothing.\<close>

definition PosixEnv_RenameFile :: "kernel \<Rightarrow> bytes \<Rightarrow> bytes \<Rightarrow> fs \<Rightarrow> status \<times> fs" where
  "PosixEnv_RenameFile k src target e =
     (case fs_files e src of
        Some data \<Rightarrow>
          if call_fails k e then (env_IOError k src e, tick e)
          else (Status_OK, (tick e)\<lparr>fs_files := (fs_files e)(src := None, target \<mapsto> data)\<rparr>)
      | None \<Rightarrow> (env_IOError k src e, tick e))"

text \<open>
  A table file is mapped while the limiter allows it and otherwise read with \<^verbatim>\<open>pread\<close>. The calls of
  \<^verbatim>\<open>open\<close>, \<^verbatim>\<open>stat\<close> and \<^verbatim>\<open>mmap\<close> are three calls of the kernel.
\<close>

datatype posix_table_file = Mapped posix_mmap | Pread posix_random

definition PosixEnv_NewRandomAccessFile ::
    "kernel \<Rightarrow> bytes \<Rightarrow> fs \<Rightarrow> status \<times> posix_table_file option \<times> fs" where
  "PosixEnv_NewRandomAccessFile k fname e =
     (case fs_files e fname of
        None \<Rightarrow> (env_IOError k fname e, None, tick e)
      | Some data \<Rightarrow>
          if call_fails k e then (env_IOError k fname e, None, tick e)
          else
            let e = tick e;
                (acquired, limit) = Limiter_Acquire (fs_mmap_limit e);
                e = e\<lparr>fs_mmap_limit := limit\<rparr>
            in if acquired then
                 let (s, n, e) = PosixEnv_GetFileSize k fname e;
                     (s, result, e) =
                       (if ok s then
                          if call_fails k e then (env_IOError k fname e, None, tick e)
                          else (s, Some (Mapped \<lparr>pm_filename = fname, pm_region = data,
                                                  pm_einval = k_errno k (fs_calls e)\<rparr>), tick e)
                        else (s, None, e));
                     e = (if \<not> ok s then e\<lparr>fs_mmap_limit := Limiter_Release (fs_mmap_limit e)\<rparr> else e)
                 in (s, result, e)
               else
                 let (f, limit) = PosixRandomAccessFile fname data (\<not> call_fails k e) False
                       (k_errno k (fs_calls e)) (fs_fd_limit e)
                 in (Status_OK, Some (Pread f), e\<lparr>fs_fd_limit := limit\<rparr>))"

text \<open>
  The lock file. \<open>fs_locked\<close> is the table of this process, \<open>fs_held\<close> are the locks the kernel keeps for
  it and \<open>fs_foreign\<close> those of other processes, which make \<^verbatim>\<open>fcntl\<close> fail. Closing any descriptor of a
  file releases the lock the process has on it.
\<close>

definition close_fd :: "bytes \<Rightarrow> fs \<Rightarrow> fs" where
  "close_fd fname e = e\<lparr>fs_held := fs_held e - {fname}\<rparr>"

definition PosixEnv_LockFile :: "kernel \<Rightarrow> bytes \<Rightarrow> fs \<Rightarrow> status \<times> bytes option \<times> fs" where
  "PosixEnv_LockFile k fname e =
     (if call_fails k e then (env_IOError k fname e, None, tick e)
      else
        let e = (tick e)\<lparr>fs_files := (fs_files e)(fname \<mapsto> case fs_files e fname of Some d \<Rightarrow> d | None \<Rightarrow> [])\<rparr>;
            (inserted, locked) = PosixLockTable_Insert (fs_locked e) fname;
            e = e\<lparr>fs_locked := locked\<rparr>
        in if \<not> inserted then
             (Status_IOError (str ''lock '' @ fname) (str ''already held by process''), None, close_fd fname e)
           else if fname \<in> fs_foreign e \<or> call_fails k e then
             (env_IOError k (str ''lock '' @ fname) e, None,
              (close_fd fname (tick e))\<lparr>fs_locked := PosixLockTable_Remove (fs_locked e) fname\<rparr>)
           else (Status_OK, Some fname, (tick e)\<lparr>fs_held := insert fname (fs_held e)\<rparr>))"

definition PosixEnv_UnlockFile :: "kernel \<Rightarrow> bytes \<Rightarrow> fs \<Rightarrow> status \<times> fs" where
  "PosixEnv_UnlockFile k lock e =
     (let result = (if call_fails k e then env_IOError k (str ''unlock'') e else Status_OK);
          e = (tick e)\<lparr>fs_locked := PosixLockTable_Remove (fs_locked e) lock\<rparr>
      in (result, close_fd lock e))"

text \<open>
  A lock that was granted excludes every further one, but the refused attempt closes its descriptor
  and with that gives up the lock that the kernel keeps against other processes.
\<close>

lemma second_LockFile_drops_lock:
  assumes "PosixEnv_LockFile k fname e = (s, Some l, e1)" and "PosixEnv_LockFile k fname e1 = (s2, r, e2)"
    and "\<not> call_fails k e1"
  shows "ok s \<and> fname \<in> fs_held e1 \<and> \<not> ok s2 \<and> r = None \<and> fname \<in> fs_locked e2 \<and> fname \<notin> fs_held e2"
  using assms
  by (auto simp: PosixEnv_LockFile_def PosixLockTable_Insert_def close_fd_def Let_def split: if_splits)

text \<open>An open stream writes to its file. Its name is not reused while it is open.\<close>

definition store :: "posix_writable \<Rightarrow> fs \<Rightarrow> fs" where
  "store w e = e\<lparr>fs_files := (fs_files e)(pw_filename w \<mapsto> wf_disk (pw_file w))\<rparr>"

definition kernel_sync :: "kernel \<Rightarrow> fs \<Rightarrow> sync_os" where
  "kernel_sync k e =
     \<lparr>os_open_dir = (\<lambda>d. \<not> k_fail k (fs_calls e)), os_fsync_dir = (\<lambda>d. \<not> k_fail k (Suc (fs_calls e))),
      os_fdatasync = (\<not> k_fail k (Suc (Suc (fs_calls e)))), os_errno = k_errno k (fs_calls e)\<rparr>"

definition fs_Append :: "posix_writable \<Rightarrow> bytes \<Rightarrow> fs \<Rightarrow> status \<times> posix_writable \<times> fs" where
  "fs_Append w d e = (let (s, w) = PosixWritableFile_Append d w in (s, w, store w e))"

definition fs_Sync :: "kernel \<Rightarrow> posix_writable \<Rightarrow> fs \<Rightarrow> status \<times> posix_writable \<times> fs" where
  "fs_Sync k w e =
     (let (s, w) = PosixWritableFile_Sync (kernel_sync k e) w in (s, w, store w (tick (tick (tick e)))))"

text \<open>\<^verbatim>\<open>fclose\<close> flushes; the destructor of a file that is still open does it without looking at the result.\<close>

definition PosixWritableFile_Close :: "kernel \<Rightarrow> posix_writable \<Rightarrow> fs \<Rightarrow> status \<times> fs" where
  "PosixWritableFile_Close k w e =
     (let (failed, file) = fflush_unlocked (pw_file w);
          result = (if failed \<or> call_fails k e then env_IOError k (pw_filename w) e else Status_OK)
      in (result, store (w\<lparr>pw_file := file\<rparr>) (tick e)))"

subsection \<open>An environment\<close>

text \<open>
  The virtual functions of \<^verbatim>\<open>Env\<close>, \<^verbatim>\<open>WritableFile\<close> and \<^verbatim>\<open>SequentialFile\<close> that the helpers call, over a state \<open>'e\<close>, writable
  files \<open>'w\<close> and sequential files \<open>'r\<close>.
\<close>

record ('e, 'w, 'r) env_class =
  NewWritableFile :: "bytes \<Rightarrow> 'e \<Rightarrow> status \<times> 'w option \<times> 'e"
  file_Append :: "'w \<Rightarrow> bytes \<Rightarrow> 'e \<Rightarrow> status \<times> 'w \<times> 'e"
  file_Sync :: "'w \<Rightarrow> 'e \<Rightarrow> status \<times> 'w \<times> 'e"
  file_Close :: "'w \<Rightarrow> 'e \<Rightarrow> status \<times> 'e"
  DeleteFile :: "bytes \<Rightarrow> 'e \<Rightarrow> status \<times> 'e"
  RenameFile :: "bytes \<Rightarrow> bytes \<Rightarrow> 'e \<Rightarrow> status \<times> 'e"
  NewSequentialFile :: "bytes \<Rightarrow> 'e \<Rightarrow> status \<times> 'r option \<times> 'e"
  file_Read :: "nat \<Rightarrow> 'r \<Rightarrow> status \<times> bytes \<times> 'r"

definition PosixEnv :: "kernel \<Rightarrow> (fs, posix_writable, posix_sequential) env_class" where
  "PosixEnv k =
     \<lparr>NewWritableFile = PosixEnv_NewWritableFile k, file_Append = fs_Append, file_Sync = fs_Sync k,
      file_Close = PosixWritableFile_Close k, DeleteFile = PosixEnv_DeleteFile k,
      RenameFile = PosixEnv_RenameFile k, NewSequentialFile = PosixEnv_NewSequentialFile k,
      file_Read = PosixSequentialFile_Read\<rparr>"

text \<open>\<^verbatim>\<open>delete file\<close> closes the file when it is still open.\<close>

definition DoWriteStringToFile :: "('e, 'w, 'r) env_class \<Rightarrow> bytes \<Rightarrow> bytes \<Rightarrow> bool \<Rightarrow> 'e \<Rightarrow> status \<times> 'e" where
  "DoWriteStringToFile env data fname should_sync e =
     (case NewWritableFile env fname e of
        (s, Some file, e) \<Rightarrow>
          let (s, file, e) = file_Append env file data e;
              (s, file, e) = (if ok s \<and> should_sync then file_Sync env file e else (s, file, e));
              (s, e) = (if ok s then file_Close env file e else (s, snd (file_Close env file e)))
          in if \<not> ok s then (s, snd (DeleteFile env fname e)) else (s, e)
      | (s, None, e) \<Rightarrow> (s, e))"

definition WriteStringToFile :: "('e, 'w, 'r) env_class \<Rightarrow> bytes \<Rightarrow> bytes \<Rightarrow> 'e \<Rightarrow> status \<times> 'e" where
  "WriteStringToFile env data fname e = DoWriteStringToFile env data fname False e"

definition WriteStringToFileSync :: "('e, 'w, 'r) env_class \<Rightarrow> bytes \<Rightarrow> bytes \<Rightarrow> 'e \<Rightarrow> status \<times> 'e" where
  "WriteStringToFileSync env data fname e = DoWriteStringToFile env data fname True e"

partial_function (option) ReadFile_loop ::
    "(nat \<Rightarrow> 'r \<Rightarrow> status \<times> bytes \<times> 'r) \<Rightarrow> bytes \<Rightarrow> 'r \<Rightarrow> (status \<times> bytes) option" where
  "ReadFile_loop rd data file =
     (let (s, fragment, file) = rd 8192 file
      in if \<not> ok s then Some (s, data)
         else if fragment = [] then Some (s, data @ fragment)
         else ReadFile_loop rd (data @ fragment) file)"

definition ReadFileToString :: "('e, 'w, 'r) env_class \<Rightarrow> bytes \<Rightarrow> 'e \<Rightarrow> (status \<times> bytes \<times> 'e) option" where
  "ReadFileToString env fname e =
     (case NewSequentialFile env fname e of
        (s, Some file, e) \<Rightarrow> do { (s, data) \<leftarrow> ReadFile_loop (file_Read env) [] file; Some (s, data, e) }
      | (s, None, e) \<Rightarrow> Some (s, [], e))"

definition SetCurrentFile :: "('e, 'w, 'r) env_class \<Rightarrow> bytes \<Rightarrow> u64 \<Rightarrow> 'e \<Rightarrow> status \<times> 'e" where
  "SetCurrentFile env dbname descriptor_number e =
     (let manifest = DescriptorFileName dbname descriptor_number;
          contents = remove_prefix manifest (length dbname + 1);
          tmp = TempFileName dbname descriptor_number;
          (s, e) = WriteStringToFileSync env (contents @ [10]) tmp e;
          (s, e) = (if ok s then RenameFile env tmp (CurrentFileName dbname) e else (s, e))
      in if \<not> ok s then (s, snd (DeleteFile env tmp e)) else (s, e))"

subsection \<open>What the helpers rely on\<close>

text \<open>
  \<open>content\<close> are the files as other processes, and this one after a restart, see them. A writable file
  has a name and has \<open>accepted\<close> some bytes; after a successful sync or close they are in the file.
\<close>

locale file_env =
  fixes env :: "('e, 'w, 'r) env_class"
    and content :: "'e \<Rightarrow> bytes \<Rightarrow> bytes option"
    and name :: "'w \<Rightarrow> bytes"
    and accepted :: "'w \<Rightarrow> bytes"
  assumes new_file: "NewWritableFile env f e = (s, w, e') \<Longrightarrow>
      (\<forall>g. g \<noteq> f \<longrightarrow> content e' g = content e g) \<and> (ok s \<longleftrightarrow> w \<noteq> None) \<and>
      (\<forall>h. w = Some h \<longrightarrow> name h = f \<and> accepted h = [])"
    and append_file: "file_Append env h d e = (s, h', e') \<Longrightarrow>
      (\<forall>g. g \<noteq> name h \<longrightarrow> content e' g = content e g) \<and> name h' = name h \<and>
      (ok s \<longrightarrow> accepted h' = accepted h @ d)"
    and sync_file: "file_Sync env h e = (s, h', e') \<Longrightarrow>
      (\<forall>g. g \<noteq> name h \<longrightarrow> content e' g = content e g) \<and> name h' = name h \<and> accepted h' = accepted h"
    and close_file: "file_Close env h e = (s, e') \<Longrightarrow>
      (\<forall>g. g \<noteq> name h \<longrightarrow> content e' g = content e g) \<and> (ok s \<longrightarrow> content e' (name h) = Some (accepted h))"
    and delete_file: "DeleteFile env f e = (s, e') \<Longrightarrow> (\<forall>g. g \<noteq> f \<longrightarrow> content e' g = content e g)"
    and rename_file: "RenameFile env f t e = (s, e') \<Longrightarrow>
      content e' = (if ok s then (content e)(f := None, t := content e f) else content e)"
begin

lemma write_string:
  assumes "DoWriteStringToFile env d f sync e = (s, e')"
  shows "(\<forall>g. g \<noteq> f \<longrightarrow> content e' g = content e g) \<and> (ok s \<longrightarrow> content e' f = Some d)"
proof -
  obtain s0 w e0 where new: "NewWritableFile env f e = (s0, w, e0)" by (cases "NewWritableFile env f e")
  show ?thesis
  proof (cases w)
    case None
    then show ?thesis using assms new new_file [OF new] by (auto simp: DoWriteStringToFile_def)
  next
    case (Some h)
    obtain s1 h1 e1 where ap: "file_Append env h d e0 = (s1, h1, e1)" by (cases "file_Append env h d e0")
    obtain s2 h2 e2 where sy: "(if ok s1 \<and> sync then file_Sync env h1 e1 else (s1, h1, e1)) = (s2, h2, e2)"
      by (cases "if ok s1 \<and> sync then file_Sync env h1 e1 else (s1, h1, e1)")
    obtain s3 e3 where cl: "file_Close env h2 e2 = (s3, e3)" by (cases "file_Close env h2 e2")
    obtain s4 e4 where de: "DeleteFile env f e3 = (s4, e4)" by (cases "DeleteFile env f e3")
    have h: "name h = f" "accepted h = []" "name h1 = f" "ok s1 \<Longrightarrow> accepted h1 = d"
      using new_file [OF new] append_file [OF ap] Some by auto
    have h2: "name h2 = f" "ok s2 \<Longrightarrow> ok s1 \<and> accepted h2 = accepted h1"
      "\<forall>g. g \<noteq> f \<longrightarrow> content e2 g = content e1 g"
      using sy sync_file [of h1 e1 s2 h2 e2] h(3) by (auto split: if_splits)
    have "\<forall>g. g \<noteq> f \<longrightarrow> content e4 g = content e g" "\<forall>g. g \<noteq> f \<longrightarrow> content e3 g = content e g"
      using new_file [OF new] append_file [OF ap] h h2 close_file [OF cl] delete_file [OF de] by auto
    moreover have "(s, e') = (if ok s2 then if ok s3 then (s3, e3) else (s3, e4) else (s2, e4))"
      using assms Some new ap sy cl de by (auto simp: DoWriteStringToFile_def split: if_splits)
    ultimately show ?thesis
      using close_file [OF cl] h h2 by (auto split: if_splits)
  qed
qed

lemma set_current:
  assumes "SetCurrentFile env db n e = (s, e')"
  shows "content e' (CurrentFileName db) =
      (if ok s then Some (drop (length db + 1) (DescriptorFileName db n) @ [10])
       else content e (CurrentFileName db)) \<and>
    (\<forall>g. g \<noteq> CurrentFileName db \<and> g \<noteq> TempFileName db n \<longrightarrow> content e' g = content e g)"
proof -
  let ?tmp = "TempFileName db n" and ?cur = "CurrentFileName db"
  let ?d = "drop (length db + 1) (DescriptorFileName db n) @ [10]"
  have ne: "?tmp \<noteq> ?cur" by (rule TempFileName_not_current)
  obtain s1 e1 where wr: "DoWriteStringToFile env ?d ?tmp True e = (s1, e1)"
    by (cases "DoWriteStringToFile env ?d ?tmp True e")
  note w = write_string [OF wr]
  obtain s2 e2 where re: "RenameFile env ?tmp ?cur e1 = (s2, e2)" by (cases "RenameFile env ?tmp ?cur e1")
  note r = rename_file [OF re]
  have del: "\<forall>g. g \<noteq> ?tmp \<longrightarrow> content (snd (DeleteFile env ?tmp x)) g = content x g" for x
    using delete_file [of ?tmp x] by (metis surjective_pairing)
  have "(s, e') = (if ok s1 then if ok s2 then (s2, e2) else (s2, snd (DeleteFile env ?tmp e2))
      else (s1, snd (DeleteFile env ?tmp e1)))"
    using assms wr re by (auto simp: SetCurrentFile_def WriteStringToFileSync_def remove_prefix_def Let_def split: if_splits)
  then show ?thesis using w r del ne by (auto split: if_splits)
qed

end

lemma flush_disk:
  "fflush_unlocked f = (b, f') \<Longrightarrow> wf_disk f' @ wf_buf f' = wf_disk f @ wf_buf f \<and> (\<not> b \<longrightarrow> wf_buf f' = [])"
  by (auto simp: fflush_unlocked_def split: if_splits)

lemma store_files [simp]: "fs_files (store w e) = (fs_files e)(pw_filename w \<mapsto> wf_disk (pw_file w))"
  by (simp add: store_def)

lemma PosixWritableFile_ops:
  "PosixWritableFile_Append d w = (s, w') \<Longrightarrow> pw_filename w' = pw_filename w"
  "PosixWritableFile_Sync os w = (s, w') \<Longrightarrow> pw_filename w' = pw_filename w \<and> write_content w' = write_content w"
  by (auto simp: PosixWritableFile_Append_def PosixWritableFile_Sync_def write_content_def Let_def
      fflush_unlocked_def split: if_splits prod.splits)

lemma PosixEnv_simps [simp]:
  "NewWritableFile (PosixEnv k) = PosixEnv_NewWritableFile k" "file_Append (PosixEnv k) = fs_Append"
  "file_Sync (PosixEnv k) = fs_Sync k" "file_Close (PosixEnv k) = PosixWritableFile_Close k"
  "DeleteFile (PosixEnv k) = PosixEnv_DeleteFile k" "RenameFile (PosixEnv k) = PosixEnv_RenameFile k"
  "NewSequentialFile (PosixEnv k) = PosixEnv_NewSequentialFile k"
  "file_Read (PosixEnv k) = PosixSequentialFile_Read"
  by (simp_all add: PosixEnv_def)

interpretation posix_env: file_env "PosixEnv k" fs_files pw_filename write_content
proof (unfold_locales, unfold PosixEnv_simps)
  fix f e s w e'
  assume "PosixEnv_NewWritableFile k f e = (s, w, e')"
  then show "(\<forall>g. g \<noteq> f \<longrightarrow> fs_files e' g = fs_files e g) \<and> (ok s \<longleftrightarrow> w \<noteq> None) \<and>
      (\<forall>h. w = Some h \<longrightarrow> pw_filename h = f \<and> write_content h = [])"
    by (auto simp: PosixEnv_NewWritableFile_def open_stream_def write_content_def env_IOError_def split: if_splits)
next
  fix h d e s h' e'
  assume "fs_Append h d e = (s, h', e')"
  then show "(\<forall>g. g \<noteq> pw_filename h \<longrightarrow> fs_files e' g = fs_files e g) \<and> pw_filename h' = pw_filename h \<and>
      (ok s \<longrightarrow> write_content h' = write_content h @ d)"
    using PosixWritableFile_ops(1) [of d h s h'] posix_write.append_ok [of d h s h']
    by (auto simp: fs_Append_def split: prod.splits)
next
  fix h e s h' e'
  assume "fs_Sync k h e = (s, h', e')"
  then show "(\<forall>g. g \<noteq> pw_filename h \<longrightarrow> fs_files e' g = fs_files e g) \<and> pw_filename h' = pw_filename h \<and>
      write_content h' = write_content h"
    using PosixWritableFile_ops(2) [of "kernel_sync k e" h s h'] by (auto simp: fs_Sync_def split: prod.splits)
next
  fix h e s e'
  assume "PosixWritableFile_Close k h e = (s, e')"
  then show "(\<forall>g. g \<noteq> pw_filename h \<longrightarrow> fs_files e' g = fs_files e g) \<and>
      (ok s \<longrightarrow> fs_files e' (pw_filename h) = Some (write_content h))"
    using flush_disk [of "pw_file h"]
    by (fastforce simp: PosixWritableFile_Close_def write_content_def env_IOError_def Let_def
        split: prod.splits if_splits)
next
  fix f e s e'
  assume "PosixEnv_DeleteFile k f e = (s, e')"
  then show "\<forall>g. g \<noteq> f \<longrightarrow> fs_files e' g = fs_files e g"
    by (auto simp: PosixEnv_DeleteFile_def split: if_splits)
next
  fix f t e s e'
  assume "PosixEnv_RenameFile k f t e = (s, e')"
  then show "fs_files e' = (if ok s then (fs_files e)(f := None, t := fs_files e f) else fs_files e)"
    by (auto simp: PosixEnv_RenameFile_def env_IOError_def split: if_splits option.splits)
qed

text \<open>Reading a whole file: the loop returns on every sequential file and delivers what is left of it.\<close>

context sequential_file
begin

lemma ReadFile_loop_returns:
  "\<exists>s d. ReadFile_loop rd data f = Some (s, d) \<and> (ok s \<longrightarrow> d = data @ remaining f) \<and> (healthy f \<longrightarrow> ok s)"
proof (induction "length (remaining f)" arbitrary: f data rule: less_induct)
  case less
  obtain s fr f' where rd: "rd 8192 f = (s, fr, f')" by (cases "rd 8192 f")
  have h: "healthy f \<Longrightarrow> ok s \<and> healthy f'" using healthy_read [of f 8192] rd by blast
  show ?case
  proof (cases "ok s \<and> fr \<noteq> []")
    case True
    then have fr: "fr = take 8192 (remaining f)" "remaining f' = drop 8192 (remaining f)"
      using read_ok [OF rd] by auto
    then have lt: "length (remaining f') < length (remaining f)" using True by (cases "remaining f") auto
    have "fr @ remaining f' = remaining f" using fr by simp
    then show ?thesis
      using less.hyps [OF lt, of "data @ fr"] True rd h
      by (subst ReadFile_loop.simps) (auto simp: append_assoc)
  next
    case False
    then show ?thesis
      using rd h read_ok [OF rd] by (subst ReadFile_loop.simps) (auto simp: Let_def)
  qed
qed

end

subsection \<open>Properties\<close>

text \<open>
  Claim C21: switching the database to a new descriptor is atomic. Whatever the kernel refuses, the file
  \<^verbatim>\<open>CURRENT\<close> holds the name of the new descriptor and a newline exactly when \<^verbatim>\<open>SetCurrentFile\<close> returns OK,
  and is untouched otherwise; apart from the temporary file no other file changes. Reading \<^verbatim>\<open>CURRENT\<close>
  back always returns, and when the read succeeds after a successful switch its contents without the
  newline are a file name that is parsed as the descriptor of that number.
\<close>

theorem set_current_atomic:
  assumes "SetCurrentFile (PosixEnv k) db n e = (s, e')"
  shows "fs_files e' (CurrentFileName db) =
      (if ok s then Some (drop (length db + 1) (DescriptorFileName db n) @ [10])
       else fs_files e (CurrentFileName db)) \<and>
    (\<forall>g. g \<noteq> CurrentFileName db \<and> g \<noteq> TempFileName db n \<longrightarrow> fs_files e' g = fs_files e g) \<and>
    (\<exists>s2 d e2. ReadFileToString (PosixEnv k') (CurrentFileName db) e' = Some (s2, d, e2) \<and>
      (ok s \<and> ok s2 \<longrightarrow> last d = 10 \<and> ParseFileName (butlast d) = Some (n, kDescriptorFile)))"
proof -
  let ?cur = "CurrentFileName db" and ?name = "drop (length db + 1) (DescriptorFileName db n)"
  note set = posix_env.set_current [OF assms]
  have "\<exists>s2 d e2. ReadFileToString (PosixEnv k') ?cur e' = Some (s2, d, e2) \<and>
      (ok s \<and> ok s2 \<longrightarrow> d = ?name @ [10])"
  proof -
    obtain s1 r e1 where new: "PosixEnv_NewSequentialFile k' ?cur e' = (s1, r, e1)"
      by (cases "PosixEnv_NewSequentialFile k' ?cur e'")
    show ?thesis
    proof (cases r)
      case None
      then have "\<not> ok s1"
        using new by (auto simp: PosixEnv_NewSequentialFile_def env_IOError_def split: option.splits if_splits)
      then show ?thesis using None new by (simp add: ReadFileToString_def)
    next
      case (Some f)
      then have "ok s \<Longrightarrow> seq_remaining f = ?name @ [10]"
        using new set by (auto simp: PosixEnv_NewSequentialFile_def seq_remaining_def split: option.splits if_splits)
      then show ?thesis
        using Some new posix_seq.ReadFile_loop_returns [of "[]" f] by (auto simp: ReadFileToString_def)
    qed
  qed
  moreover have "ParseFileName ?name = Some (n, kDescriptorFile)"
    unfolding ParseFileName_iff parsed_file_def
    using numeral_for_decimal06 [of n] by (auto simp: DescriptorFileName_def str_def)
  ultimately show ?thesis using set by (metis butlast_snoc last_snoc)
qed

definition good_kernel :: kernel where
  "good_kernel = \<lparr>k_fail = (\<lambda>n. False), k_room = (\<lambda>n. 1000), k_bad_flush = (\<lambda>n. False),
     k_bad_read = (\<lambda>n. None), k_errno = (\<lambda>n. [])\<rparr>"

definition empty_fs :: fs where
  "empty_fs = \<lparr>fs_files = (\<lambda>f. None), fs_calls = 0, fs_locked = {}, fs_held = {}, fs_foreign = {},
     fs_mmap_limit = 1000, fs_fd_limit = 50\<rparr>"

theorem set_current_atomic_witness:
  "fs_files (snd (SetCurrentFile (PosixEnv good_kernel) (str ''db'') 7 empty_fs)) (str ''db/CURRENT'') =
     Some (str ''MANIFEST-000007'' @ [10])"
proof -
  have "ok (fst (SetCurrentFile (PosixEnv good_kernel) (str ''db'') 7 empty_fs))"
    by code_simp
  moreover have "CurrentFileName (str ''db'') = str ''db/CURRENT''"
    "drop (length (str ''db'') + 1) (DescriptorFileName (str ''db'') 7) = str ''MANIFEST-000007''"
    by code_simp+
  ultimately show ?thesis
    using set_current_atomic [of good_kernel "str ''db''" 7 empty_fs] by (metis prod.collapse)
qed

end
