(* ===== verification/LDB_VersionEdit.thy ===== *)
theory LDB_VersionEdit
  imports LDB_DbFormat LDB_Status "HOL-Library.Product_Lexorder" "HOL-Library.Monad_Syntax"
begin

text \<open>
  \<^verbatim>\<open>db/version_edit.h\<close> and \<^verbatim>\<open>db/version_edit.cc\<close>: the change of a version as it is logged in the
  MANIFEST. An internal key is its encoded representation. The set of deleted files is the list of
  its elements in ascending order, which is the order in which they are written.
\<close>

record FileMetaData =
  fm_refs :: int
  fm_allowed_seeks :: int
  fm_number :: u64
  fm_file_size :: u64
  fm_smallest :: bytes
  fm_largest :: bytes

record version_edit =
  ve_comparator :: bytes
  ve_log_number :: u64
  ve_prev_log_number :: u64
  ve_next_file_number :: u64
  ve_last_sequence :: sequence_number
  ve_has_comparator :: bool
  ve_has_log_number :: bool
  ve_has_prev_log_number :: bool
  ve_has_next_file_number :: bool
  ve_has_last_sequence :: bool
  ve_compact_pointers :: "(nat \<times> bytes) list"
  ve_deleted_files :: "(nat \<times> u64) list"
  ve_new_files :: "(nat \<times> FileMetaData) list"

text \<open>A file as the constructor leaves it; the number has no initial value and is an argument.\<close>

definition new_FileMetaData :: "u64 \<Rightarrow> FileMetaData" where
  "new_FileMetaData number =
     \<lparr>fm_refs = 0, fm_allowed_seeks = 2 ^ 30, fm_number = number, fm_file_size = 0,
      fm_smallest = [], fm_largest = []\<rparr>"

definition VersionEdit_Clear :: "version_edit \<Rightarrow> version_edit" where
  "VersionEdit_Clear e =
     e\<lparr>ve_comparator := [], ve_log_number := 0, ve_prev_log_number := 0, ve_last_sequence := 0,
       ve_next_file_number := 0, ve_has_comparator := False, ve_has_log_number := False,
       ve_has_prev_log_number := False, ve_has_next_file_number := False, ve_has_last_sequence := False,
       ve_deleted_files := [], ve_new_files := []\<rparr>"

definition new_VersionEdit :: version_edit where
  "new_VersionEdit =
     \<lparr>ve_comparator = [], ve_log_number = 0, ve_prev_log_number = 0, ve_next_file_number = 0,
      ve_last_sequence = 0, ve_has_comparator = False, ve_has_log_number = False,
      ve_has_prev_log_number = False, ve_has_next_file_number = False, ve_has_last_sequence = False,
      ve_compact_pointers = [], ve_deleted_files = [], ve_new_files = []\<rparr>"

definition SetComparatorName :: "bytes \<Rightarrow> version_edit \<Rightarrow> version_edit" where
  "SetComparatorName name e = e\<lparr>ve_has_comparator := True, ve_comparator := name\<rparr>"

definition SetLogNumber :: "u64 \<Rightarrow> version_edit \<Rightarrow> version_edit" where
  "SetLogNumber num e = e\<lparr>ve_has_log_number := True, ve_log_number := num\<rparr>"

definition SetPrevLogNumber :: "u64 \<Rightarrow> version_edit \<Rightarrow> version_edit" where
  "SetPrevLogNumber num e = e\<lparr>ve_has_prev_log_number := True, ve_prev_log_number := num\<rparr>"

definition SetNextFile :: "u64 \<Rightarrow> version_edit \<Rightarrow> version_edit" where
  "SetNextFile num e = e\<lparr>ve_has_next_file_number := True, ve_next_file_number := num\<rparr>"

definition SetLastSequence :: "sequence_number \<Rightarrow> version_edit \<Rightarrow> version_edit" where
  "SetLastSequence seq e = e\<lparr>ve_has_last_sequence := True, ve_last_sequence := seq\<rparr>"

definition SetCompactPointer :: "nat \<Rightarrow> bytes \<Rightarrow> version_edit \<Rightarrow> version_edit" where
  "SetCompactPointer level key e = e\<lparr>ve_compact_pointers := ve_compact_pointers e @ [(level, key)]\<rparr>"

definition AddFile :: "nat \<Rightarrow> u64 \<Rightarrow> u64 \<Rightarrow> bytes \<Rightarrow> bytes \<Rightarrow> version_edit \<Rightarrow> version_edit" where
  "AddFile level file file_size smallest largest e =
     (let f = (new_FileMetaData file)\<lparr>fm_file_size := file_size, fm_smallest := smallest, fm_largest := largest\<rparr>
      in e\<lparr>ve_new_files := ve_new_files e @ [(level, f)]\<rparr>)"

definition VersionEdit_DeleteFile :: "nat \<Rightarrow> u64 \<Rightarrow> version_edit \<Rightarrow> version_edit" where
  "VersionEdit_DeleteFile level file e =
     e\<lparr>ve_deleted_files := insort_insert (level, file) (ve_deleted_files e)\<rparr>"

subsection \<open>Encoding\<close>

definition kTagComparator :: u32 where "kTagComparator = 1"
definition kTagLogNumber :: u32 where "kTagLogNumber = 2"
definition kTagNextFileNumber :: u32 where "kTagNextFileNumber = 3"
definition kTagLastSequence :: u32 where "kTagLastSequence = 4"
definition kTagCompactPointer :: u32 where "kTagCompactPointer = 5"
definition kTagDeletedFile :: u32 where "kTagDeletedFile = 6"
definition kTagNewFile :: u32 where "kTagNewFile = 7"
definition kTagPrevLogNumber :: u32 where "kTagPrevLogNumber = 9"

lemmas version_edit_tags = kTagComparator_def kTagLogNumber_def kTagNextFileNumber_def kTagLastSequence_def
  kTagCompactPointer_def kTagDeletedFile_def kTagNewFile_def kTagPrevLogNumber_def

definition VersionEdit_EncodeTo :: "version_edit \<Rightarrow> bytes \<Rightarrow> bytes" where
  "VersionEdit_EncodeTo e dst =
     (let dst = (if ve_has_comparator e
                 then PutLengthPrefixedSlice (PutVarint32 dst kTagComparator) (ve_comparator e) else dst);
          dst = (if ve_has_log_number e
                 then PutVarint64 (PutVarint32 dst kTagLogNumber) (ve_log_number e) else dst);
          dst = (if ve_has_prev_log_number e
                 then PutVarint64 (PutVarint32 dst kTagPrevLogNumber) (ve_prev_log_number e) else dst);
          dst = (if ve_has_next_file_number e
                 then PutVarint64 (PutVarint32 dst kTagNextFileNumber) (ve_next_file_number e) else dst);
          dst = (if ve_has_last_sequence e
                 then PutVarint64 (PutVarint32 dst kTagLastSequence) (ve_last_sequence e) else dst);
          dst = fold (\<lambda>(level, key) dst.
                   PutLengthPrefixedSlice (PutVarint32 (PutVarint32 dst kTagCompactPointer) (word_of_nat level)) key)
                 (ve_compact_pointers e) dst;
          dst = fold (\<lambda>(level, number) dst.
                   PutVarint64 (PutVarint32 (PutVarint32 dst kTagDeletedFile) (word_of_nat level)) number)
                 (ve_deleted_files e) dst
      in fold (\<lambda>(level, f) dst.
           let dst = PutVarint32 (PutVarint32 dst kTagNewFile) (word_of_nat level);
               dst = PutVarint64 (PutVarint64 dst (fm_number f)) (fm_file_size f)
           in PutLengthPrefixedSlice (PutLengthPrefixedSlice dst (fm_smallest f)) (fm_largest f))
         (ve_new_files e) dst)"

subsection \<open>Decoding\<close>

definition GetInternalKey :: "bytes \<Rightarrow> (bytes \<times> bytes) option" where
  "GetInternalKey input = GetLengthPrefixedSlice input"

definition GetLevel :: "bytes \<Rightarrow> (nat \<times> bytes) option" where
  "GetLevel input =
     (case GetVarint32 input of
        Some (v, input) \<Rightarrow> if unat v < kNumLevels then Some (unat v, input) else None
      | None \<Rightarrow> None)"

text \<open>The body of the switch: what is left of the input with the new edit, or the message.\<close>

definition decode_field :: "u32 \<Rightarrow> bytes \<Rightarrow> version_edit \<Rightarrow> bytes + bytes \<times> version_edit" where
  "decode_field tag input e =
     (if tag = kTagComparator then
        (case GetLengthPrefixedSlice input of
           Some (s, input) \<Rightarrow> Inr (input, e\<lparr>ve_comparator := s, ve_has_comparator := True\<rparr>)
         | None \<Rightarrow> Inl (str ''comparator name''))
      else if tag = kTagLogNumber then
        (case GetVarint64 input of
           Some (n, input) \<Rightarrow> Inr (input, e\<lparr>ve_log_number := n, ve_has_log_number := True\<rparr>)
         | None \<Rightarrow> Inl (str ''log number''))
      else if tag = kTagPrevLogNumber then
        (case GetVarint64 input of
           Some (n, input) \<Rightarrow> Inr (input, e\<lparr>ve_prev_log_number := n, ve_has_prev_log_number := True\<rparr>)
         | None \<Rightarrow> Inl (str ''previous log number''))
      else if tag = kTagNextFileNumber then
        (case GetVarint64 input of
           Some (n, input) \<Rightarrow> Inr (input, e\<lparr>ve_next_file_number := n, ve_has_next_file_number := True\<rparr>)
         | None \<Rightarrow> Inl (str ''next file number''))
      else if tag = kTagLastSequence then
        (case GetVarint64 input of
           Some (n, input) \<Rightarrow> Inr (input, e\<lparr>ve_last_sequence := n, ve_has_last_sequence := True\<rparr>)
         | None \<Rightarrow> Inl (str ''last sequence number''))
      else if tag = kTagCompactPointer then
        (case do { (level, input) \<leftarrow> GetLevel input; (key, input) \<leftarrow> GetInternalKey input;
                   Some (level, key, input) } of
           Some (level, key, input) \<Rightarrow>
             Inr (input, e\<lparr>ve_compact_pointers := ve_compact_pointers e @ [(level, key)]\<rparr>)
         | None \<Rightarrow> Inl (str ''compaction pointer''))
      else if tag = kTagDeletedFile then
        (case do { (level, input) \<leftarrow> GetLevel input; (number, input) \<leftarrow> GetVarint64 input;
                   Some (level, number, input) } of
           Some (level, number, input) \<Rightarrow>
             Inr (input, e\<lparr>ve_deleted_files := insort_insert (level, number) (ve_deleted_files e)\<rparr>)
         | None \<Rightarrow> Inl (str ''deleted file''))
      else if tag = kTagNewFile then
        (case do { (level, input) \<leftarrow> GetLevel input; (number, input) \<leftarrow> GetVarint64 input;
                   (file_size, input) \<leftarrow> GetVarint64 input; (smallest, input) \<leftarrow> GetInternalKey input;
                   (largest, input) \<leftarrow> GetInternalKey input;
                   Some (level, (new_FileMetaData number)\<lparr>fm_file_size := file_size,
                     fm_smallest := smallest, fm_largest := largest\<rparr>, input) } of
           Some (level, f, input) \<Rightarrow> Inr (input, e\<lparr>ve_new_files := ve_new_files e @ [(level, f)]\<rparr>)
         | None \<Rightarrow> Inl (str ''new-file entry''))
      else Inl (str ''unknown tag''))"

text \<open>Every field consumes input, so the loop ends.\<close>

lemma Get_consumes:
  "GetVarint32 p = Some (v, r) \<Longrightarrow> length r < length p"
  "GetVarint64 p = Some (w, r) \<Longrightarrow> length r < length p"
  using varint_loop_consumes [of 28 0 0 p v r] varint_loop_consumes [of 63 0 0 p w r]
  by (auto simp: GetVarint32_loop GetVarint64_loop)

lemma Get_consumes_more:
  "GetLengthPrefixedSlice p = Some (x, r) \<Longrightarrow> length r < length p"
  "GetInternalKey p = Some (x, r) \<Longrightarrow> length r < length p"
  "GetLevel p = Some (l, r) \<Longrightarrow> length r < length p"
proof -
  show *: "GetLengthPrefixedSlice p = Some (x, r) \<Longrightarrow> length r < length p"
    by (auto simp: GetLengthPrefixedSlice_def remove_prefix_def split: option.splits if_splits
        dest!: Get_consumes(1))
  then show "GetInternalKey p = Some (x, r) \<Longrightarrow> length r < length p" by (simp add: GetInternalKey_def)
  show "GetLevel p = Some (l, r) \<Longrightarrow> length r < length p"
    by (auto simp: GetLevel_def split: option.splits if_splits dest: Get_consumes(1))
qed

lemma decode_field_consumes: "decode_field tag p e = Inr (r, e') \<Longrightarrow> length r \<le> length p"
  unfolding decode_field_def
  by (auto split: if_splits option.splits bind_splits dest!: Get_consumes Get_consumes_more)

function DecodeFrom_loop :: "bytes \<Rightarrow> version_edit \<Rightarrow> bytes option \<times> version_edit" where
  "DecodeFrom_loop input e =
     (case GetVarint32 input of
        None \<Rightarrow> (if input \<noteq> [] then Some (str ''invalid tag'') else None, e)
      | Some (tag, input) \<Rightarrow>
          (case decode_field tag input e of
             Inl msg \<Rightarrow> (Some msg, e)
           | Inr (input, e) \<Rightarrow> DecodeFrom_loop input e))"
  by pat_completeness auto
termination
  by (relation "measure (\<lambda>(input, e). length input)")
    (auto dest!: Get_consumes(1) decode_field_consumes)

declare DecodeFrom_loop.simps [simp del]

definition VersionEdit_DecodeFrom :: "bytes \<Rightarrow> version_edit \<Rightarrow> status \<times> version_edit" where
  "VersionEdit_DecodeFrom src e =
     (let (msg, e) = DecodeFrom_loop src (VersionEdit_Clear e)
      in (case msg of Some m \<Rightarrow> Status_Corruption (str ''VersionEdit'') m | None \<Rightarrow> Status_OK, e))"

definition VersionEdit_DebugString :: "version_edit \<Rightarrow> bytes" where
  "VersionEdit_DebugString e =
     (let r = str ''VersionEdit {'';
          r = (if ve_has_comparator e then r @ [10] @ str ''  Comparator: '' @ ve_comparator e else r);
          r = (if ve_has_log_number e then AppendNumberTo (r @ [10] @ str ''  LogNumber: '') (ve_log_number e) else r);
          r = (if ve_has_prev_log_number e
               then AppendNumberTo (r @ [10] @ str ''  PrevLogNumber: '') (ve_prev_log_number e) else r);
          r = (if ve_has_next_file_number e
               then AppendNumberTo (r @ [10] @ str ''  NextFile: '') (ve_next_file_number e) else r);
          r = (if ve_has_last_sequence e
               then AppendNumberTo (r @ [10] @ str ''  LastSeq: '') (ve_last_sequence e) else r);
          r = fold (\<lambda>(level, key) r. AppendNumberTo (r @ [10] @ str ''  CompactPointer: '') (word_of_nat level) @
                str '' '' @ InternalKey_DebugString key) (ve_compact_pointers e) r;
          r = fold (\<lambda>(level, number) r. AppendNumberTo (AppendNumberTo (r @ [10] @ str ''  DeleteFile: '')
                (word_of_nat level) @ str '' '') number) (ve_deleted_files e) r;
          r = fold (\<lambda>(level, f) r.
                let r = AppendNumberTo (r @ [10] @ str ''  AddFile: '') (word_of_nat level) @ str '' '';
                    r = AppendNumberTo (AppendNumberTo r (fm_number f) @ str '' '') (fm_file_size f) @ str '' ''
                in r @ InternalKey_DebugString (fm_smallest f) @ str '' .. '' @ InternalKey_DebugString (fm_largest f))
              (ve_new_files e) r
      in r @ [10] @ str ''}'' @ [10])"

subsection \<open>Decoding inverts encoding\<close>

text \<open>One field as it is written, and the edit with the field set.\<close>

lemma decode_step:
  assumes "decode_field tag (payload @ rest) e = Inr (rest, e')"
  shows "DecodeFrom_loop (EncodeVarint32 tag @ payload @ rest) e = DecodeFrom_loop rest e'"
  using assms by (subst DecodeFrom_loop.simps) (simp add: EncodeVarint_roundtrips)

lemma GetLevel_encoded: "level < kNumLevels \<Longrightarrow> GetLevel (EncodeVarint32 (word_of_nat level) @ rest) = Some (level, rest)"
  by (simp add: GetLevel_def EncodeVarint_roundtrips kNumLevels_def)

lemmas decode_fields = decode_field_def version_edit_tags EncodeVarint_roundtrips GetLevel_encoded
  GetLengthPrefixedSlice_Put GetInternalKey_def

lemma decode_list:
  assumes "\<And>x e rest. x \<in> set xs \<Longrightarrow> DecodeFrom_loop (enc x @ rest) e = DecodeFrom_loop rest (upd x e)"
  shows "DecodeFrom_loop (concat (map enc xs) @ rest) e = DecodeFrom_loop rest (fold upd xs e)"
  using assms by (induction xs arbitrary: e) simp_all

text \<open>The encodings of the fields.\<close>

definition enc_comparator :: "bytes \<Rightarrow> bytes" where
  "enc_comparator name = EncodeVarint32 kTagComparator @ PutLengthPrefixedSlice [] name"

definition enc_number :: "u32 \<Rightarrow> u64 \<Rightarrow> bytes" where
  "enc_number tag n = EncodeVarint32 tag @ EncodeVarint64 n"

fun enc_pointer :: "nat \<times> bytes \<Rightarrow> bytes" where
  "enc_pointer (level, key) =
     EncodeVarint32 kTagCompactPointer @ EncodeVarint32 (word_of_nat level) @ PutLengthPrefixedSlice [] key"

fun enc_deleted :: "nat \<times> u64 \<Rightarrow> bytes" where
  "enc_deleted (level, n) =
     EncodeVarint32 kTagDeletedFile @ EncodeVarint32 (word_of_nat level) @ EncodeVarint64 n"

fun enc_file :: "nat \<times> FileMetaData \<Rightarrow> bytes" where
  "enc_file (level, f) =
     EncodeVarint32 kTagNewFile @ EncodeVarint32 (word_of_nat level) @ EncodeVarint64 (fm_number f) @
     EncodeVarint64 (fm_file_size f) @ PutLengthPrefixedSlice [] (fm_smallest f) @
     PutLengthPrefixedSlice [] (fm_largest f)"

lemma fold_append: "fold (\<lambda>x dst. dst @ g x) xs d = d @ concat (map g xs)"
  by (induction xs arbitrary: d) simp_all

lemma EncodeTo_fields:
  "VersionEdit_EncodeTo e dst = dst @
     (if ve_has_comparator e then enc_comparator (ve_comparator e) else []) @
     (if ve_has_log_number e then enc_number kTagLogNumber (ve_log_number e) else []) @
     (if ve_has_prev_log_number e then enc_number kTagPrevLogNumber (ve_prev_log_number e) else []) @
     (if ve_has_next_file_number e then enc_number kTagNextFileNumber (ve_next_file_number e) else []) @
     (if ve_has_last_sequence e then enc_number kTagLastSequence (ve_last_sequence e) else []) @
     concat (map enc_pointer (ve_compact_pointers e)) @ concat (map enc_deleted (ve_deleted_files e)) @
     concat (map enc_file (ve_new_files e))"
proof -
  have P: "(\<lambda>(level, key) dst. PutLengthPrefixedSlice
      (PutVarint32 (PutVarint32 dst kTagCompactPointer) (word_of_nat level)) key) = (\<lambda>x dst. dst @ enc_pointer x)"
    by (intro ext) (simp add: PutLengthPrefixedSlice_def PutVarint32_def split: prod.split)
  have D: "(\<lambda>(level, number) dst. PutVarint64 (PutVarint32 (PutVarint32 dst kTagDeletedFile) (word_of_nat level)) number)
      = (\<lambda>x dst. dst @ enc_deleted x)"
    by (intro ext) (simp add: PutVarint32_def PutVarint64_def split: prod.split)
  have F: "(\<lambda>(level, f) dst.
           let dst = PutVarint32 (PutVarint32 dst kTagNewFile) (word_of_nat level);
               dst = PutVarint64 (PutVarint64 dst (fm_number f)) (fm_file_size f)
           in PutLengthPrefixedSlice (PutLengthPrefixedSlice dst (fm_smallest f)) (fm_largest f))
      = (\<lambda>x dst. dst @ enc_file x)"
    by (intro ext) (simp add: PutLengthPrefixedSlice_def PutVarint32_def PutVarint64_def Let_def split: prod.split)
  show ?thesis
    unfolding VersionEdit_EncodeTo_def P D F fold_append
    by (simp add: Let_def enc_comparator_def enc_number_def PutVarint32_def PutVarint64_def
        PutLengthPrefixedSlice_def)
qed

text \<open>What the format can carry: levels in range and strings shorter than \<open>2 ^ 32\<close> bytes.\<close>

definition edit_ok :: "version_edit \<Rightarrow> bool" where
  "edit_ok e \<longleftrightarrow> length (ve_comparator e) < 2 ^ 32 \<and>
     list_all (\<lambda>(level, key). level < kNumLevels \<and> length key < 2 ^ 32) (ve_compact_pointers e) \<and>
     list_all (\<lambda>(level, n). level < kNumLevels) (ve_deleted_files e) \<and>
     sorted (ve_deleted_files e) \<and> distinct (ve_deleted_files e) \<and>
     list_all (\<lambda>(level, f). level < kNumLevels \<and> length (fm_smallest f) < 2 ^ 32 \<and>
       length (fm_largest f) < 2 ^ 32) (ve_new_files e)"

text \<open>What comes back: absent fields are zero and a file has the counters of a new one.\<close>

definition stored_file :: "FileMetaData \<Rightarrow> FileMetaData" where
  "stored_file f = (new_FileMetaData (fm_number f))\<lparr>fm_file_size := fm_file_size f,
     fm_smallest := fm_smallest f, fm_largest := fm_largest f\<rparr>"

definition stored_edit :: "version_edit \<Rightarrow> version_edit" where
  "stored_edit e =
     e\<lparr>ve_comparator := (if ve_has_comparator e then ve_comparator e else []),
       ve_log_number := (if ve_has_log_number e then ve_log_number e else 0),
       ve_prev_log_number := (if ve_has_prev_log_number e then ve_prev_log_number e else 0),
       ve_next_file_number := (if ve_has_next_file_number e then ve_next_file_number e else 0),
       ve_last_sequence := (if ve_has_last_sequence e then ve_last_sequence e else 0),
       ve_new_files := map (\<lambda>(level, f). (level, stored_file f)) (ve_new_files e)\<rparr>"

lemma decode_headers:
  "length c < 2 ^ 32 \<Longrightarrow> DecodeFrom_loop (enc_comparator c @ rest) e =
     DecodeFrom_loop rest (e\<lparr>ve_comparator := c, ve_has_comparator := True\<rparr>)"
  "DecodeFrom_loop (enc_number kTagLogNumber n @ rest) e =
     DecodeFrom_loop rest (e\<lparr>ve_log_number := n, ve_has_log_number := True\<rparr>)"
  "DecodeFrom_loop (enc_number kTagPrevLogNumber n @ rest) e =
     DecodeFrom_loop rest (e\<lparr>ve_prev_log_number := n, ve_has_prev_log_number := True\<rparr>)"
  "DecodeFrom_loop (enc_number kTagNextFileNumber n @ rest) e =
     DecodeFrom_loop rest (e\<lparr>ve_next_file_number := n, ve_has_next_file_number := True\<rparr>)"
  "DecodeFrom_loop (enc_number kTagLastSequence n @ rest) e =
     DecodeFrom_loop rest (e\<lparr>ve_last_sequence := n, ve_has_last_sequence := True\<rparr>)"
  unfolding enc_comparator_def enc_number_def append_assoc
  by (rule decode_step; simp add: decode_fields)+

lemma decode_headers_opt:
  "length c < 2 ^ 32 \<Longrightarrow> DecodeFrom_loop ((if b then enc_comparator c else []) @ rest) e =
     DecodeFrom_loop rest (if b then e\<lparr>ve_comparator := c, ve_has_comparator := True\<rparr> else e)"
  "DecodeFrom_loop ((if b then enc_number kTagLogNumber n else []) @ rest) e =
     DecodeFrom_loop rest (if b then e\<lparr>ve_log_number := n, ve_has_log_number := True\<rparr> else e)"
  "DecodeFrom_loop ((if b then enc_number kTagPrevLogNumber n else []) @ rest) e =
     DecodeFrom_loop rest (if b then e\<lparr>ve_prev_log_number := n, ve_has_prev_log_number := True\<rparr> else e)"
  "DecodeFrom_loop ((if b then enc_number kTagNextFileNumber n else []) @ rest) e =
     DecodeFrom_loop rest (if b then e\<lparr>ve_next_file_number := n, ve_has_next_file_number := True\<rparr> else e)"
  "DecodeFrom_loop ((if b then enc_number kTagLastSequence n else []) @ rest) e =
     DecodeFrom_loop rest (if b then e\<lparr>ve_last_sequence := n, ve_has_last_sequence := True\<rparr> else e)"
  by (simp_all add: decode_headers)

lemma stored_headers:
  "(let e1 = VersionEdit_Clear e0;
        e1 = (if ve_has_comparator e then e1\<lparr>ve_comparator := ve_comparator e, ve_has_comparator := True\<rparr> else e1);
        e1 = (if ve_has_log_number e then e1\<lparr>ve_log_number := ve_log_number e, ve_has_log_number := True\<rparr> else e1);
        e1 = (if ve_has_prev_log_number e
              then e1\<lparr>ve_prev_log_number := ve_prev_log_number e, ve_has_prev_log_number := True\<rparr> else e1);
        e1 = (if ve_has_next_file_number e
              then e1\<lparr>ve_next_file_number := ve_next_file_number e, ve_has_next_file_number := True\<rparr> else e1)
    in if ve_has_last_sequence e
       then e1\<lparr>ve_last_sequence := ve_last_sequence e, ve_has_last_sequence := True\<rparr> else e1) =
   (stored_edit e)\<lparr>ve_compact_pointers := ve_compact_pointers e0, ve_deleted_files := [], ve_new_files := []\<rparr>"
  by (cases e, cases e0) (simp add: Let_def VersionEdit_Clear_def stored_edit_def)

lemma decode_pointer:
  assumes "level < kNumLevels" and "length key < 2 ^ 32"
  shows "DecodeFrom_loop (enc_pointer (level, key) @ rest) e =
    DecodeFrom_loop rest (e\<lparr>ve_compact_pointers := ve_compact_pointers e @ [(level, key)]\<rparr>)"
  using assms decode_step [of kTagCompactPointer "EncodeVarint32 (word_of_nat level) @ PutLengthPrefixedSlice [] key"]
  by (simp add: decode_fields)

lemma decode_deleted:
  assumes "level < kNumLevels"
  shows "DecodeFrom_loop (enc_deleted (level, n) @ rest) e =
    DecodeFrom_loop rest (e\<lparr>ve_deleted_files := insort_insert (level, n) (ve_deleted_files e)\<rparr>)"
  using assms decode_step [of kTagDeletedFile "EncodeVarint32 (word_of_nat level) @ EncodeVarint64 n"]
  by (simp add: decode_fields)

lemma decode_file:
  assumes "level < kNumLevels" and "length (fm_smallest f) < 2 ^ 32" and "length (fm_largest f) < 2 ^ 32"
  shows "DecodeFrom_loop (enc_file (level, f) @ rest) e =
    DecodeFrom_loop rest (e\<lparr>ve_new_files := ve_new_files e @ [(level, stored_file f)]\<rparr>)"
  using assms decode_step [of kTagNewFile "EncodeVarint32 (word_of_nat level) @ EncodeVarint64 (fm_number f) @
     EncodeVarint64 (fm_file_size f) @ PutLengthPrefixedSlice [] (fm_smallest f) @
     PutLengthPrefixedSlice [] (fm_largest f)"]
  by (simp add: decode_fields stored_file_def)

lemma fold_pointers: "fold (\<lambda>p e. e\<lparr>ve_compact_pointers := ve_compact_pointers e @ [p]\<rparr>) ps e =
    e\<lparr>ve_compact_pointers := ve_compact_pointers e @ ps\<rparr>"
  by (induction ps arbitrary: e) simp_all

lemma fold_files: "fold (\<lambda>(l, f) e. e\<lparr>ve_new_files := ve_new_files e @ [(l, stored_file f)]\<rparr>) fs e =
    e\<lparr>ve_new_files := ve_new_files e @ map (\<lambda>(level, f). (level, stored_file f)) fs\<rparr>"
  by (induction fs arbitrary: e) (simp_all split: prod.split)

lemma fold_deleted: "fold (\<lambda>d e. e\<lparr>ve_deleted_files := insort_insert d (ve_deleted_files e)\<rparr>) ds e =
    e\<lparr>ve_deleted_files := fold insort_insert ds (ve_deleted_files e)\<rparr>"
  by (induction ds arbitrary: e) simp_all

lemma insort_insert_last: "sorted (xs @ [x]) \<Longrightarrow> distinct (xs @ [x]) \<Longrightarrow> insort_insert x xs = xs @ [x]"
proof (induction xs)
  case (Cons a xs)
  then show ?case by (auto simp: insort_insert_key_def insort_is_Cons)
qed (simp add: insort_insert_key_def)

lemma fold_insort_insert: "sorted ds \<Longrightarrow> distinct ds \<Longrightarrow> fold insort_insert ds [] = ds"
proof (induction ds rule: rev_induct)
  case (snoc x xs)
  then show ?case using insort_insert_last [of xs x] by (simp add: sorted_append)
qed simp

lemma decode_pointers:
  assumes "list_all (\<lambda>(level, key). level < kNumLevels \<and> length key < 2 ^ 32) ps"
  shows "DecodeFrom_loop (concat (map enc_pointer ps) @ rest) e =
    DecodeFrom_loop rest (e\<lparr>ve_compact_pointers := ve_compact_pointers e @ ps\<rparr>)"
proof -
  have "DecodeFrom_loop (enc_pointer p @ rest) e =
      DecodeFrom_loop rest (e\<lparr>ve_compact_pointers := ve_compact_pointers e @ [p]\<rparr>)" if "p \<in> set ps" for p rest e
    using assms that decode_pointer [of "fst p" "snd p" rest e] by (auto simp: list_all_iff)
  then have "DecodeFrom_loop (concat (map enc_pointer ps) @ rest) e = DecodeFrom_loop rest
      (fold (\<lambda>p e. e\<lparr>ve_compact_pointers := ve_compact_pointers e @ [p]\<rparr>) ps e)"
    by (rule decode_list)
  then show ?thesis by (simp only: fold_pointers)
qed

lemma decode_deleteds:
  assumes "list_all (\<lambda>(level, n). level < kNumLevels) ds"
  shows "DecodeFrom_loop (concat (map enc_deleted ds) @ rest) e =
    DecodeFrom_loop rest (e\<lparr>ve_deleted_files := fold insort_insert ds (ve_deleted_files e)\<rparr>)"
proof -
  have "DecodeFrom_loop (enc_deleted d @ rest) e =
      DecodeFrom_loop rest (e\<lparr>ve_deleted_files := insort_insert d (ve_deleted_files e)\<rparr>)" if "d \<in> set ds" for d rest e
    using assms that decode_deleted [of "fst d" "snd d" rest e] by (auto simp: list_all_iff)
  then have "DecodeFrom_loop (concat (map enc_deleted ds) @ rest) e = DecodeFrom_loop rest
      (fold (\<lambda>d e. e\<lparr>ve_deleted_files := insort_insert d (ve_deleted_files e)\<rparr>) ds e)"
    by (rule decode_list)
  then show ?thesis by (simp only: fold_deleted)
qed

lemma decode_files:
  assumes "list_all (\<lambda>(level, f). level < kNumLevels \<and> length (fm_smallest f) < 2 ^ 32 \<and>
      length (fm_largest f) < 2 ^ 32) fs"
  shows "DecodeFrom_loop (concat (map enc_file fs) @ rest) e = DecodeFrom_loop rest
    (e\<lparr>ve_new_files := ve_new_files e @ map (\<lambda>(level, f). (level, stored_file f)) fs\<rparr>)"
proof -
  have "DecodeFrom_loop (enc_file x @ rest) e =
      DecodeFrom_loop rest ((\<lambda>(l, f) e. e\<lparr>ve_new_files := ve_new_files e @ [(l, stored_file f)]\<rparr>) x e)"
    if "x \<in> set fs" for x rest e
    using assms that decode_file [of "fst x" "snd x" rest e] by (auto simp: list_all_iff)
  then have "DecodeFrom_loop (concat (map enc_file fs) @ rest) e = DecodeFrom_loop rest
      (fold (\<lambda>(l, f) e. e\<lparr>ve_new_files := ve_new_files e @ [(l, stored_file f)]\<rparr>) fs e)"
    by (rule decode_list)
  then show ?thesis by (simp only: fold_files)
qed

lemma DecodeFrom_EncodeTo:
  assumes "edit_ok e"
  shows "VersionEdit_DecodeFrom (VersionEdit_EncodeTo e []) e0 =
    (Status_OK, (stored_edit e)\<lparr>ve_compact_pointers := ve_compact_pointers e0 @ ve_compact_pointers e\<rparr>)"
proof -
  define e1 where "e1 = (stored_edit e)\<lparr>ve_compact_pointers := ve_compact_pointers e0, ve_deleted_files := [],
    ve_new_files := []\<rparr>"
  let ?tail = "concat (map enc_pointer (ve_compact_pointers e)) @ concat (map enc_deleted (ve_deleted_files e)) @
     concat (map enc_file (ve_new_files e))"
  have "DecodeFrom_loop (VersionEdit_EncodeTo e []) (VersionEdit_Clear e0) = DecodeFrom_loop ?tail e1"
    using assms unfolding EncodeTo_fields append_Nil
    by (simp only: edit_ok_def decode_headers_opt stored_headers [of e0 e, unfolded Let_def, folded e1_def])
  also have "\<dots> = DecodeFrom_loop [] (e1\<lparr>ve_compact_pointers := ve_compact_pointers e1 @ ve_compact_pointers e,
          ve_deleted_files := ve_deleted_files e,
          ve_new_files := map (\<lambda>(level, f). (level, stored_file f)) (ve_new_files e)\<rparr>)"
    using assms decode_files [of "ve_new_files e" "[]"] fold_insort_insert [of "ve_deleted_files e"]
    by (simp add: edit_ok_def decode_pointers decode_deleteds e1_def)
  also have "\<dots> = (None, (stored_edit e)\<lparr>ve_compact_pointers := ve_compact_pointers e0 @ ve_compact_pointers e\<rparr>)"
    by (subst DecodeFrom_loop.simps) (simp add: e1_def stored_edit_def GetVarint32_loop)
  finally show ?thesis by (simp add: VersionEdit_DecodeFrom_def)
qed

text \<open>Whatever the bytes, the levels that are stored are levels of the database.\<close>

definition edit_levels_ok :: "version_edit \<Rightarrow> bool" where
  "edit_levels_ok e \<longleftrightarrow> list_all (\<lambda>x. fst x < kNumLevels) (ve_compact_pointers e) \<and>
     list_all (\<lambda>x. fst x < kNumLevels) (ve_deleted_files e) \<and> list_all (\<lambda>x. fst x < kNumLevels) (ve_new_files e) \<and>
     sorted (ve_deleted_files e) \<and> distinct (ve_deleted_files e)"

lemma GetLevel_range: "GetLevel p = Some (l, r) \<Longrightarrow> l < kNumLevels"
  by (auto simp: GetLevel_def split: option.splits if_splits)

lemma list_all_insort_insert: "list_all P (insort_insert x xs) \<longleftrightarrow> P x \<and> list_all P xs"
  by (auto simp: list_all_iff set_insort_insert)

lemma decode_field_levels:
  "decode_field tag p e = Inr (r, e') \<Longrightarrow> edit_levels_ok e \<Longrightarrow> edit_levels_ok e'"
  unfolding decode_field_def
  by (auto simp: edit_levels_ok_def list_all_insort_insert sorted_insort_insert distinct_insort_insert
      split: if_splits option.splits bind_splits dest!: GetLevel_range)

lemma DecodeFrom_levels: "edit_levels_ok e \<Longrightarrow> edit_levels_ok (snd (DecodeFrom_loop p e))"
proof (induction p e rule: DecodeFrom_loop.induct)
  case (1 p e)
  show ?case
  proof (cases "\<exists>tag q r e'. GetVarint32 p = Some (tag, q) \<and> decode_field tag q e = Inr (r, e')")
    case True
    then obtain tag q r e' where *: "GetVarint32 p = Some (tag, q)" "decode_field tag q e = Inr (r, e')" by blast
    then have "edit_levels_ok (snd (DecodeFrom_loop r e'))"
      using "1.IH" "1.prems" decode_field_levels by blast
    then show ?thesis using * by (subst DecodeFrom_loop.simps) simp
  next
    case False
    then show ?thesis
      using "1.prems" by (subst DecodeFrom_loop.simps) (auto split: option.split sum.split)
  qed
qed

subsection \<open>Properties\<close>

text \<open>
  Claim C27: an edit written to the MANIFEST is read back: with levels in range and strings shorter than
  \<open>2 ^ 32\<close> bytes, decoding its encoding succeeds and gives the edit, with zero for the absent fields and
  fresh counters in the files; the compaction pointers of the edit it is decoded into stay in front.
  Whatever the bytes are, the levels an edit is decoded to are in range.
\<close>

theorem version_edit_roundtrip:
  assumes "edit_ok e"
  shows "VersionEdit_DecodeFrom (VersionEdit_EncodeTo e []) e0 =
      (Status_OK, (stored_edit e)\<lparr>ve_compact_pointers := ve_compact_pointers e0 @ ve_compact_pointers e\<rparr>) \<and>
    edit_levels_ok (snd (VersionEdit_DecodeFrom src new_VersionEdit))"
proof -
  have "edit_levels_ok (VersionEdit_Clear new_VersionEdit)"
    by (simp add: edit_levels_ok_def new_VersionEdit_def VersionEdit_Clear_def)
  then show ?thesis
    using DecodeFrom_EncodeTo [OF assms] DecodeFrom_levels [of "VersionEdit_Clear new_VersionEdit" src]
    by (simp add: VersionEdit_DecodeFrom_def [of src] case_prod_beta)
qed

definition sample_edit :: version_edit where
  "sample_edit = AddFile 1 42 1000 [97, 1, 1, 0, 0, 0, 0, 0, 0] [98, 1, 2, 0, 0, 0, 0, 0, 0]
     (VersionEdit_DeleteFile 2 7 (SetCompactPointer 1 [97, 1, 1, 0, 0, 0, 0, 0, 0]
       (SetLastSequence 300 (SetNextFile 43 (SetLogNumber 41 (SetComparatorName (str ''c'') new_VersionEdit))))))"

theorem version_edit_roundtrip_witness:
  "VersionEdit_DecodeFrom (VersionEdit_EncodeTo sample_edit []) new_VersionEdit = (Status_OK, sample_edit)"
proof -
  have "edit_ok sample_edit"
    by (simp add: edit_ok_def sample_edit_def AddFile_def VersionEdit_DeleteFile_def SetCompactPointer_def
        SetLastSequence_def SetNextFile_def SetLogNumber_def SetComparatorName_def new_VersionEdit_def
        new_FileMetaData_def kNumLevels_def insort_insert_key_def)
  moreover have "(stored_edit sample_edit)\<lparr>ve_compact_pointers :=
      ve_compact_pointers new_VersionEdit @ ve_compact_pointers sample_edit\<rparr> = sample_edit"
    by (simp add: stored_edit_def stored_file_def sample_edit_def AddFile_def VersionEdit_DeleteFile_def
        SetCompactPointer_def SetLastSequence_def SetNextFile_def SetLogNumber_def SetComparatorName_def
        new_VersionEdit_def new_FileMetaData_def)
  ultimately show ?thesis using version_edit_roundtrip [of sample_edit new_VersionEdit "[]"] by simp
qed

end
