(* ===== verification/LDB_Arena.thy ===== *)
theory LDB_Arena
  imports LDB_Prelude
begin

text \<open>
  \<^verbatim>\<open>util/arena.h\<close>, \<^verbatim>\<open>util/arena.cc\<close> and \<^verbatim>\<open>util/random.h\<close>: the memory of a memtable and the random numbers
  behind the heights of its nodes. Addresses and sizes are natural numbers. The allocator behind
  \<^verbatim>\<open>new char[]\<close> is a function from the sizes requested so far, the newest one last, to an address.
\<close>

unbundle bit_operations_syntax

subsection \<open>The arena\<close>

definition arena_kBlockSize :: nat where "arena_kBlockSize = 4096"

record arena =
  ar_alloc_ptr :: nat
  ar_alloc_bytes_remaining :: nat
  ar_blocks :: "nat list"
  ar_block_sizes :: "nat list"
  ar_memory_usage :: nat

definition Arena :: arena where
  "Arena = \<lparr>ar_alloc_ptr = 0, ar_alloc_bytes_remaining = 0, ar_blocks = [], ar_block_sizes = [], ar_memory_usage = 0\<rparr>"

type_synonym heap = "nat list \<Rightarrow> nat"

definition AllocateNewBlock :: "heap \<Rightarrow> nat \<Rightarrow> arena \<Rightarrow> nat \<times> arena" where
  "AllocateNewBlock h block_bytes a =
     (let result = h (ar_block_sizes a @ [block_bytes])
      in (result, a\<lparr>ar_blocks := ar_blocks a @ [result], ar_block_sizes := ar_block_sizes a @ [block_bytes],
                    ar_memory_usage := ar_memory_usage a + block_bytes + 8\<rparr>))"

definition AllocateFallback :: "heap \<Rightarrow> nat \<Rightarrow> arena \<Rightarrow> nat \<times> arena" where
  "AllocateFallback h n a =
     (if n > arena_kBlockSize div 4 then AllocateNewBlock h n a
      else
        let (block, a) = AllocateNewBlock h arena_kBlockSize a;
            a = a\<lparr>ar_alloc_ptr := block, ar_alloc_bytes_remaining := arena_kBlockSize\<rparr>;
            result = ar_alloc_ptr a
        in (result, a\<lparr>ar_alloc_ptr := ar_alloc_ptr a + n,
                      ar_alloc_bytes_remaining := ar_alloc_bytes_remaining a - n\<rparr>))"

definition Allocate :: "heap \<Rightarrow> nat \<Rightarrow> arena \<Rightarrow> nat \<times> arena" where
  "Allocate h n a =
     (if n \<le> ar_alloc_bytes_remaining a then
        (ar_alloc_ptr a, a\<lparr>ar_alloc_ptr := ar_alloc_ptr a + n,
                           ar_alloc_bytes_remaining := ar_alloc_bytes_remaining a - n\<rparr>)
      else AllocateFallback h n a)"

definition arena_align :: nat where "arena_align = 8"

definition AllocateAligned :: "heap \<Rightarrow> nat \<Rightarrow> arena \<Rightarrow> nat \<times> arena" where
  "AllocateAligned h n a =
     (let current_mod = ar_alloc_ptr a mod arena_align;
          slop = (if current_mod = 0 then 0 else arena_align - current_mod);
          needed = n + slop
      in if needed \<le> ar_alloc_bytes_remaining a then
           (ar_alloc_ptr a + slop, a\<lparr>ar_alloc_ptr := ar_alloc_ptr a + needed,
                                     ar_alloc_bytes_remaining := ar_alloc_bytes_remaining a - needed\<rparr>)
         else AllocateFallback h n a)"

definition MemoryUsage :: "arena \<Rightarrow> nat" where
  "MemoryUsage a = ar_memory_usage a"

subsection \<open>Allocations do not overlap\<close>

text \<open>What the arena relies on: fresh blocks are aligned and do not overlap.\<close>

definition block_range :: "heap \<Rightarrow> nat list \<Rightarrow> nat \<Rightarrow> nat set" where
  "block_range h sizes i = {h (take (Suc i) sizes) ..< h (take (Suc i) sizes) + sizes ! i}"

definition heap_ok :: "heap \<Rightarrow> bool" where
  "heap_ok h \<longleftrightarrow> (\<forall>sizes. 8 dvd h sizes) \<and>
     (\<forall>sizes i j. i < j \<longrightarrow> j < length sizes \<longrightarrow> block_range h sizes i \<inter> block_range h sizes j = {})"

text \<open>A request is a size and whether it has to be aligned; the ranges handed out are collected.\<close>

fun run_requests :: "heap \<Rightarrow> (nat \<times> bool) list \<Rightarrow> arena \<Rightarrow> nat list \<times> arena" where
  "run_requests h [] a = ([], a)"
| "run_requests h ((n, aligned) # rs) a =
     (let (p, a) = (if aligned then AllocateAligned h n a else Allocate h n a);
          (ps, a) = run_requests h rs a
      in (p # ps, a))"

definition handed_out :: "(nat \<times> bool) list \<Rightarrow> nat list \<Rightarrow> nat set list" where
  "handed_out rs ps = map2 (\<lambda>r p. {p ..< p + fst r}) rs ps"

text \<open>
  The invariant, with the union \<open>used\<close> of the ranges handed out: they lie in the blocks, and the rest
  of the current block is free.
\<close>

definition arena_inv :: "heap \<Rightarrow> arena \<Rightarrow> nat set \<Rightarrow> bool" where
  "arena_inv h a used \<longleftrightarrow>
     used \<subseteq> (\<Union>i < length (ar_block_sizes a). block_range h (ar_block_sizes a) i) \<and>
     {ar_alloc_ptr a ..< ar_alloc_ptr a + ar_alloc_bytes_remaining a} \<subseteq>
       (\<Union>i < length (ar_block_sizes a). block_range h (ar_block_sizes a) i) \<and>
     used \<inter> {ar_alloc_ptr a ..< ar_alloc_ptr a + ar_alloc_bytes_remaining a} = {}"

lemma arena_inv_new: "arena_inv h Arena {}"
  by (simp add: arena_inv_def Arena_def)

abbreviation block_memory :: "heap \<Rightarrow> nat list \<Rightarrow> nat set" where
  "block_memory h sizes \<equiv> (\<Union>i < length sizes. block_range h sizes i)"

lemma block_memory_snoc:
  "block_memory h (sizes @ [n]) = block_memory h sizes \<union> {h (sizes @ [n]) ..< h (sizes @ [n]) + n}"
proof -
  have "block_range h (sizes @ [n]) i = block_range h sizes i" if "i < length sizes" for i
    using that by (simp add: block_range_def nth_append)
  moreover have "block_range h (sizes @ [n]) (length sizes) = {h (sizes @ [n]) ..< h (sizes @ [n]) + n}"
    by (simp add: block_range_def)
  ultimately show ?thesis by (auto simp: lessThan_Suc)
qed

lemma fresh_block:
  assumes "heap_ok h"
  shows "block_memory h sizes \<inter> {h (sizes @ [n]) ..< h (sizes @ [n]) + n} = {}"
proof -
  have "block_range h sizes i \<inter> {h (sizes @ [n]) ..< h (sizes @ [n]) + n} = {}" if "i < length sizes" for i
  proof -
    have "block_range h (sizes @ [n]) i \<inter> block_range h (sizes @ [n]) (length sizes) = {}"
      using assms that by (simp add: heap_ok_def)
    then show ?thesis using that by (simp add: block_range_def nth_append)
  qed
  then show ?thesis by blast
qed

text \<open>One allocation: the range is new, and the invariant is kept with it.\<close>

definition allocated :: "heap \<Rightarrow> arena \<Rightarrow> nat set \<Rightarrow> nat \<Rightarrow> nat \<times> arena \<Rightarrow> bool" where
  "allocated h a used n r \<longleftrightarrow> used \<inter> {fst r ..< fst r + n} = {} \<and> arena_inv h (snd r) (used \<union> {fst r ..< fst r + n}) \<and>
     ar_memory_usage a \<le> ar_memory_usage (snd r)"

lemma allocate_from_block:
  assumes "arena_inv h a used" and "slop + n \<le> ar_alloc_bytes_remaining a"
  shows "allocated h a used n (ar_alloc_ptr a + slop, a\<lparr>ar_alloc_ptr := ar_alloc_ptr a + (slop + n),
      ar_alloc_bytes_remaining := ar_alloc_bytes_remaining a - (slop + n)\<rparr>)"
proof -
  let ?free = "{ar_alloc_ptr a ..< ar_alloc_ptr a + ar_alloc_bytes_remaining a}"
  let ?new = "{ar_alloc_ptr a + slop ..< ar_alloc_ptr a + slop + n}"
  let ?rest = "{ar_alloc_ptr a + (slop + n) ..< ar_alloc_ptr a + (slop + n) + (ar_alloc_bytes_remaining a - (slop + n))}"
  have "?new \<subseteq> ?free" "?rest \<subseteq> ?free" "?new \<inter> ?rest = {}" using assms(2) by auto
  then show ?thesis using assms(1) unfolding allocated_def arena_inv_def by (simp, blast)
qed

lemma AllocateFallback_allocated:
  assumes "heap_ok h" and "arena_inv h a used" and "AllocateFallback h n a = r"
  shows "allocated h a used n r" and "8 dvd fst r"
proof -
  let ?s = "ar_block_sizes a"
  note fresh = fresh_block [OF assms(1), of ?s]
  show "8 dvd fst r"
    using assms(1,3) by (auto simp: AllocateFallback_def AllocateNewBlock_def Let_def heap_ok_def split: if_splits)
  show "allocated h a used n r"
  proof (cases "n > arena_kBlockSize div 4")
    case True
    then have r: "r = (h (?s @ [n]), a\<lparr>ar_blocks := ar_blocks a @ [h (?s @ [n])], ar_block_sizes := ?s @ [n],
        ar_memory_usage := ar_memory_usage a + n + 8\<rparr>)"
      using assms(3) by (simp add: AllocateFallback_def AllocateNewBlock_def Let_def)
    show ?thesis
      using assms(2) fresh [of n] block_memory_snoc [of h ?s n] unfolding allocated_def arena_inv_def r by auto
  next
    case False
    let ?b = "h (?s @ [arena_kBlockSize])"
    have r: "r = (?b, a\<lparr>ar_blocks := ar_blocks a @ [?b], ar_block_sizes := ?s @ [arena_kBlockSize],
        ar_memory_usage := ar_memory_usage a + arena_kBlockSize + 8, ar_alloc_ptr := ?b + n,
        ar_alloc_bytes_remaining := arena_kBlockSize - n\<rparr>)"
      using assms(3) False by (simp add: AllocateFallback_def AllocateNewBlock_def Let_def)
    have "{?b ..< ?b + n} \<subseteq> {?b ..< ?b + arena_kBlockSize}" using False by (auto simp: arena_kBlockSize_def)
    then show ?thesis
      using assms(2) fresh [of arena_kBlockSize] block_memory_snoc [of h ?s arena_kBlockSize]
      unfolding allocated_def arena_inv_def r by auto
  qed
qed

lemma Allocate_allocated:
  assumes "heap_ok h" and "arena_inv h a used"
  shows "allocated h a used n (Allocate h n a)"
  using allocate_from_block [OF assms(2), of 0 n] AllocateFallback_allocated(1) [OF assms refl, of n]
  by (simp add: Allocate_def)

lemma AllocateAligned_allocated:
  assumes "heap_ok h" and "arena_inv h a used"
  shows "allocated h a used n (AllocateAligned h n a)" and "8 dvd fst (AllocateAligned h n a)"
proof -
  define slop where "slop = (if ar_alloc_ptr a mod 8 = 0 then 0 else 8 - ar_alloc_ptr a mod 8)"
  have al: "8 dvd ar_alloc_ptr a + slop"
    unfolding slop_def by presburger
  have eq: "AllocateAligned h n a = (if slop + n \<le> ar_alloc_bytes_remaining a
      then (ar_alloc_ptr a + slop, a\<lparr>ar_alloc_ptr := ar_alloc_ptr a + (slop + n),
             ar_alloc_bytes_remaining := ar_alloc_bytes_remaining a - (slop + n)\<rparr>)
      else AllocateFallback h n a)"
    by (simp add: AllocateAligned_def Let_def arena_align_def slop_def add.commute)
  show "allocated h a used n (AllocateAligned h n a)" "8 dvd fst (AllocateAligned h n a)"
    using allocate_from_block [OF assms(2), of slop n] AllocateFallback_allocated [OF assms refl, of n] al
    unfolding eq by (auto split del: if_split split: if_splits)
qed

lemma run_requests_allocated:
  assumes "heap_ok h" and "arena_inv h a used" and "run_requests h rs a = (ps, a')"
  shows "length ps = length rs \<and> arena_inv h a' (used \<union> \<Union> (set (handed_out rs ps))) \<and>
    (\<forall>r \<in> set (handed_out rs ps). used \<inter> r = {}) \<and>
    (\<forall>i j. i < j \<longrightarrow> j < length rs \<longrightarrow> handed_out rs ps ! i \<inter> handed_out rs ps ! j = {}) \<and>
    (\<forall>i < length rs. snd (rs ! i) \<longrightarrow> 8 dvd ps ! i)"
  using assms(2,3)
proof (induction rs arbitrary: a used ps a')
  case Nil
  then show ?case by (simp add: handed_out_def)
next
  case (Cons req rs)
  obtain n aligned where req: "req = (n, aligned)" by (cases req)
  obtain p a1 where one: "(if aligned then AllocateAligned h n a else Allocate h n a) = (p, a1)" by fastforce
  obtain ps1 a2 where rest: "run_requests h rs a1 = (ps1, a2)" by fastforce
  have ps: "ps = p # ps1" "a' = a2" using Cons.prems(2) one rest by (simp_all add: req)
  let ?new = "{p ..< p + n}"
  have al: "allocated h a used n (p, a1)" "aligned \<Longrightarrow> 8 dvd p"
    using Allocate_allocated [OF assms(1) Cons.prems(1), of n] AllocateAligned_allocated [OF assms(1) Cons.prems(1), of n] one
    by (auto split: if_splits)
  have inv1: "arena_inv h a1 (used \<union> ?new)" and new: "used \<inter> ?new = {}" using al(1) by (simp_all add: allocated_def)
  note IH = Cons.IH [OF inv1 rest]
  have ho: "handed_out (req # rs) ps = ?new # handed_out rs ps1" by (simp add: handed_out_def ps req)
  have len: "length (handed_out rs ps1) = length rs" using IH by (simp add: handed_out_def)
  have "(?new # handed_out rs ps1) ! i \<inter> (?new # handed_out rs ps1) ! j = {}" if "i < j" "j < Suc (length rs)" for i j
  proof (cases i)
    case 0
    then have "(?new # handed_out rs ps1) ! j \<in> set (handed_out rs ps1)" using that len by (cases j) simp_all
    then show ?thesis using IH 0 by auto
  next
    case (Suc i')
    then show ?thesis using that IH by (cases j) auto
  qed
  moreover have "snd ((req # rs) ! i) \<longrightarrow> 8 dvd ps ! i" if "i < Suc (length rs)" for i
    using that IH al(2) by (cases i) (auto simp: ps req)
  ultimately show ?case
    unfolding ho using IH new by (auto simp: ps Un_assoc)
qed

subsection \<open>Random numbers\<close>

definition Random :: "u32 \<Rightarrow> u32" where
  "Random s =
     (let seed = s AND 0x7fffffff
      in if seed = 0 \<or> seed = 2147483647 then 1 else seed)"

definition Random_Next :: "u32 \<Rightarrow> u32" where
  "Random_Next seed =
     (let M = 2147483647 :: u32; A = 16807 :: u64;
          product = ucast seed * A;
          seed = ucast (drop_bit 31 product + (product AND ucast M))
      in if seed > M then seed - M else seed)"

definition Uniform :: "u32 \<Rightarrow> u32 \<Rightarrow> u32 \<times> u32" where
  "Uniform n seed = (let seed = Random_Next seed in (seed mod n, seed))"

definition OneIn :: "u32 \<Rightarrow> u32 \<Rightarrow> bool \<times> u32" where
  "OneIn n seed = (let seed = Random_Next seed in (seed mod n = 0, seed))"

definition Skewed :: "nat \<Rightarrow> u32 \<Rightarrow> u32 \<times> u32" where
  "Skewed max_log seed =
     (let (base, seed) = Uniform (word_of_nat (max_log + 1)) seed
      in Uniform (push_bit (unat base) 1) seed)"

text \<open>The division by \<open>2 ^ 31 - 1\<close> is replaced by shifts and one subtraction.\<close>

lemma mersenne_step:
  fixes p :: nat
  assumes "p < (2 ^ 31 - 1) * 16807" and "\<not> (2 ^ 31 - 1) dvd p"
  defines "q \<equiv> p div 2 ^ 31 + p mod 2 ^ 31"
  shows "(if q > 2 ^ 31 - 1 then q - (2 ^ 31 - 1) else q) = p mod (2 ^ 31 - 1)" and "q < 2 ^ 32"
proof -
  let ?M = "2 ^ 31 - 1 :: nat"
  have d: "p div 2 ^ 31 \<le> 16807" using assms(1) by (simp add: div_le_mono less_mult_imp_div_less order_less_imp_le)
  have m: "p mod 2 ^ 31 \<le> ?M" by (simp add: mod_less_divisor less_Suc_eq_le [symmetric])
  then show "q < 2 ^ 32" using d unfolding q_def by simp
  have p: "p = ?M * (p div 2 ^ 31) + q" unfolding q_def using div_mult_mod_eq [of p "2 ^ 31"] by simp
  then have "q mod ?M = p mod ?M" by (metis mod_mult_self4)
  moreover have "q \<noteq> ?M"
  proof
    assume "q = ?M"
    then have "p = ?M * Suc (p div 2 ^ 31)" using p by simp
    then show False using assms(2) by (metis dvd_triv_left)
  qed
  moreover have "q < 2 * ?M" using d m unfolding q_def by simp
  ultimately show "(if q > ?M then q - ?M else q) = p mod ?M"
    using le_mod_geq [of ?M q] mod_less [of "q - ?M" ?M] mod_less [of q ?M] by auto
qed

lemma Random_Next_value:
  assumes "unat seed \<in> {1 .. 2 ^ 31 - 2}"
  shows "unat (Random_Next seed) = unat seed * 16807 mod (2 ^ 31 - 1) \<and>
    unat (Random_Next seed) \<in> {1 .. 2 ^ 31 - 2} \<and> unat (Random s) \<in> {1 .. 2 ^ 31 - 2}"
proof -
  let ?M = "2 ^ 31 - 1 :: nat" and ?p = "unat seed * 16807"
  have lt: "?p < ?M * 16807" using assms by simp
  have "coprime ?M 16807" by (simp add: coprime_iff_gcd_eq_1 gcd_nat.simps)
  then have nd: "\<not> ?M dvd ?p"
    using assms by (auto simp: coprime_dvd_mult_left_iff dest: dvd_imp_le)
  note st = mersenne_step [OF lt nd]
  let ?prod = "ucast seed * 16807 :: u64" and ?q = "?p div 2 ^ 31 + ?p mod 2 ^ 31"
  have prod: "unat ?prod = ?p"
    using lt by (simp add: unat_word_ariths unsigned_ucast_eq take_bit_eq_mod)
  have "?prod AND ucast (2147483647 :: u32) = take_bit 31 ?prod"
    by (simp add: take_bit_eq_mask mask_eq_exp_minus_1)
  then have "unat (?prod AND ucast (2147483647 :: u32)) = ?p mod 2 ^ 31"
    using prod by (simp only: unsigned_take_bit_eq) (simp add: take_bit_eq_mod)
  moreover have "unat (drop_bit 31 ?prod) = ?p div 2 ^ 31" using prod by (simp only: unat_drop_bit_eq) (simp add: drop_bit_eq_div)
  ultimately have "unat (drop_bit 31 ?prod + (?prod AND ucast (2147483647 :: u32))) = ?q"
    using st(2) by (simp add: unat_word_ariths)
  then have q: "unat (ucast (drop_bit 31 ?prod + (?prod AND ucast (2147483647 :: u32))) :: u32) = ?q"
    using st(2) by (simp add: unsigned_ucast_eq take_bit_eq_mod)
  have "unat (Random_Next seed) = (if ?q > ?M then ?q - ?M else ?q)"
    using q st(2) by (auto simp: Random_Next_def Let_def word_less_nat_alt unat_sub_if')
  then have n: "unat (Random_Next seed) = ?p mod ?M" using st(1) by simp
  have "?p mod ?M \<noteq> 0" using nd by (simp add: dvd_eq_mod_eq_0)
  moreover have "?p mod ?M < ?M" by (rule mod_less_divisor) simp
  moreover have "unat (Random s) \<in> {1 .. 2 ^ 31 - 2}"
  proof -
    have "s AND 0x7fffffff = take_bit 31 s" by (simp add: take_bit_eq_mask mask_eq_exp_minus_1)
    then have "unat (s AND 0x7fffffff) < 2 ^ 31"
      using take_bit_nat_less_exp [of 31 "unat s"] by (simp add: unsigned_take_bit_eq)
    moreover have "unat (s AND 0x7fffffff) \<noteq> 0 \<and> unat (s AND 0x7fffffff) \<noteq> 2147483647"
      if "s AND 0x7fffffff \<noteq> 0" "s AND 0x7fffffff \<noteq> 2147483647"
      using that unat_eq_zero [of "s AND 0x7fffffff"] word_unat_eq_iff [of "s AND 0x7fffffff" 2147483647] by simp
    ultimately show ?thesis
      by (cases "s AND 0x7fffffff = 0 \<or> s AND 0x7fffffff = 2147483647") (simp_all add: Random_def Let_def)
  qed
  ultimately show ?thesis using n by auto
qed

text \<open>
  Claim C23: the generator is the minimal standard one. From every seed in the range, \<^verbatim>\<open>Next\<close> computes the
  seed times 16807 modulo \<open>2 ^ 31 - 1\<close> without overflow, and stays in the range \<open>1 .. 2 ^ 31 - 2\<close>, in
  which every constructor argument puts it.
\<close>

theorem random_next_minimal_standard:
  assumes "unat seed \<in> {1 .. 2 ^ 31 - 2}"
  shows "unat (Random_Next seed) = unat seed * 16807 mod (2 ^ 31 - 1) \<and>
    unat (Random_Next seed) \<in> {1 .. 2 ^ 31 - 2} \<and> unat (Random s) \<in> {1 .. 2 ^ 31 - 2}"
  by (rule Random_Next_value [OF assms])

theorem random_next_minimal_standard_witness:
  "unat (Random_Next 1) = 16807 \<and> unat (Random 0xdeadbeef) \<in> {1 .. 2 ^ 31 - 2}"
  using random_next_minimal_standard [of 1 "0xdeadbeef"] by simp

text \<open>
  Claim C20: the arena hands out memory safely. For every sequence of plain and aligned requests, over
  an allocator whose blocks are aligned and do not overlap, the ranges that were handed out lie in
  the blocks of the arena, no two of them overlap, and the aligned ones start at a multiple of eight.
\<close>

theorem arena_allocations_disjoint:
  assumes "heap_ok h" and "run_requests h rs Arena = (ps, a)"
  shows "length ps = length rs \<and> \<Union> (set (handed_out rs ps)) \<subseteq> block_memory h (ar_block_sizes a) \<and>
    (\<forall>i j. i < j \<longrightarrow> j < length rs \<longrightarrow> handed_out rs ps ! i \<inter> handed_out rs ps ! j = {}) \<and>
    (\<forall>i < length rs. snd (rs ! i) \<longrightarrow> 8 dvd ps ! i)"
  using run_requests_allocated [OF assms(1) arena_inv_new assms(2)] by (auto simp: arena_inv_def)

text \<open>An allocator that never reuses memory.\<close>

definition bump_heap :: heap where
  "bump_heap sizes = 8 * sum_list (butlast sizes)"

lemma bump_heap_ok: "heap_ok bump_heap"
  unfolding heap_ok_def
proof (intro conjI allI impI)
  show "8 dvd bump_heap sizes" for sizes by (simp add: bump_heap_def)
  fix sizes :: "nat list" and i j assume ij: "i < j" "j < length sizes"
  have b: "butlast (take (Suc k) sizes) = take k sizes" if "k < length sizes" for k
    using that by (simp add: butlast_take)
  have "take j sizes = take i sizes @ sizes ! i # drop (Suc i) (take j sizes)"
    using ij id_take_nth_drop [of i "take j sizes"] by simp
  then have "sum_list (take i sizes) + sizes ! i \<le> sum_list (take j sizes)"
    by (metis add_le_cancel_left le_add1 sum_list.Cons sum_list_append)
  then show "block_range bump_heap sizes i \<inter> block_range bump_heap sizes j = {}"
    using ij by (auto simp: block_range_def bump_heap_def b)
qed

theorem arena_allocations_disjoint_witness:
  "fst (run_requests bump_heap [(3, False), (16, True), (5000, False)] Arena) = [0, 8, 32768] \<and>
   8 dvd fst (run_requests bump_heap [(3, False), (16, True), (5000, False)] Arena) ! 1"
proof -
  let ?rs = "[(3, False), (16, True), (5000, False)]"
  obtain ps a where r: "run_requests bump_heap ?rs Arena = (ps, a)" by fastforce
  have "fst (run_requests bump_heap ?rs Arena) = [0, 8, 32768]"
    by (simp add: Allocate_def AllocateAligned_def AllocateFallback_def AllocateNewBlock_def Arena_def bump_heap_def
        arena_kBlockSize_def arena_align_def Let_def)
  then show ?thesis using arena_allocations_disjoint [OF bump_heap_ok r] r by force
qed

end
