(* ===== verification/LDB_SkipList.thy ===== *)
theory LDB_SkipList
  imports LDB_Arena "HOL-Library.Monad_Syntax"
begin

text \<open>
  \<^verbatim>\<open>db/skiplist.h\<close>. The nodes live in a list, a pointer is an index into it and the head is node 0; a node
  holds its key and its array of next pointers, whose length is the height of the node. Reading an
  array outside of its bounds has no value, and neither has a loop that does not end.

  The list is modelled for one thread: the barriers of the atomic pointers order the accesses of
  other threads and have no effect here.
\<close>

subsection \<open>The data structure\<close>

record 'k skip_node =
  nd_key :: 'k
  nd_next :: "nat option list"

record 'k skiplist =
  sl_compare :: "'k \<Rightarrow> 'k \<Rightarrow> int"
  sl_nodes :: "'k skip_node list"
  sl_max_height :: nat
  sl_rnd :: u32

definition kMaxHeight :: nat where "kMaxHeight = 12"

definition sl_head :: nat where "sl_head = 0"

definition node_Next :: "'k skiplist \<Rightarrow> nat \<Rightarrow> nat \<Rightarrow> nat option option" where
  "node_Next sl x n =
     (if x < length (sl_nodes sl) \<and> n < length (nd_next (sl_nodes sl ! x)) then Some (nd_next (sl_nodes sl ! x) ! n)
      else None)"

definition node_SetNext :: "nat \<Rightarrow> nat \<Rightarrow> nat option \<Rightarrow> 'k skiplist \<Rightarrow> 'k skiplist option" where
  "node_SetNext x n y sl =
     (if x < length (sl_nodes sl) \<and> n < length (nd_next (sl_nodes sl ! x))
      then Some (sl\<lparr>sl_nodes := (sl_nodes sl)[x := (sl_nodes sl ! x)\<lparr>nd_next := (nd_next (sl_nodes sl ! x))[n := y]\<rparr>]\<rparr>)
      else None)"

definition node_key :: "'k skiplist \<Rightarrow> nat \<Rightarrow> 'k" where
  "node_key sl x = nd_key (sl_nodes sl ! x)"

text \<open>
  A new node of the given height, in memory from the arena: a node with one pointer takes 16 bytes
  and each further pointer 8 more. Its pointers are not set yet.
\<close>

definition node_bytes :: "nat \<Rightarrow> nat" where
  "node_bytes height = 16 + 8 * (height - 1)"

definition NewNode :: "heap \<Rightarrow> 'k \<Rightarrow> nat \<Rightarrow> arena \<Rightarrow> 'k skiplist \<Rightarrow> nat \<times> arena \<times> 'k skiplist" where
  "NewNode h key height a sl =
     (let (mem, a) = AllocateAligned h (node_bytes height) a
      in (length (sl_nodes sl), a, sl\<lparr>sl_nodes := sl_nodes sl @ [\<lparr>nd_key = key, nd_next = replicate height None\<rparr>]\<rparr>))"

definition SkipList :: "heap \<Rightarrow> ('k \<Rightarrow> 'k \<Rightarrow> int) \<Rightarrow> 'k \<Rightarrow> arena \<Rightarrow> arena \<times> 'k skiplist" where
  "SkipList h cmp any_key a =
     (let (hd, a, sl) = NewNode h any_key kMaxHeight a
            \<lparr>sl_compare = cmp, sl_nodes = [], sl_max_height = 1, sl_rnd = Random 0xdeadbeef\<rparr>
      in (a, sl))"

definition Equal :: "'k skiplist \<Rightarrow> 'k \<Rightarrow> 'k \<Rightarrow> bool" where
  "Equal sl a b \<longleftrightarrow> sl_compare sl a b = 0"

definition KeyIsAfterNode :: "'k skiplist \<Rightarrow> 'k \<Rightarrow> nat option \<Rightarrow> bool" where
  "KeyIsAfterNode sl key n = (case n of None \<Rightarrow> False | Some n \<Rightarrow> sl_compare sl (node_key sl n) key < 0)"

text \<open>
  The loop of the three searches: it moves on in the list of a level while the test holds for the
  next node, and switches to the level below otherwise. At the lowest level it ends with the last
  node it reached and the one behind it; \<open>prev\<close> collects the last node of each level.
\<close>

partial_function (option) search_loop ::
    "'k skiplist \<Rightarrow> (nat option \<Rightarrow> bool) \<Rightarrow> nat \<Rightarrow> nat \<Rightarrow> nat option list \<Rightarrow>
     (nat \<times> nat option \<times> nat option list) option" where
  "search_loop sl after level x prev = do {
     next \<leftarrow> node_Next sl x level;
     if after next then search_loop sl after level (the next) prev
     else
       let prev = prev[level := Some x]
       in if level = 0 then Some (x, next, prev)
          else search_loop sl after (level - 1) x prev
   }"

definition FindGreaterOrEqual :: "'k skiplist \<Rightarrow> 'k \<Rightarrow> (nat option \<times> nat option list) option" where
  "FindGreaterOrEqual sl key = do {
     (x, next, prev) \<leftarrow> search_loop sl (KeyIsAfterNode sl key) (sl_max_height sl - 1) sl_head (replicate kMaxHeight None);
     Some (next, prev)
   }"

definition FindLessThan :: "'k skiplist \<Rightarrow> 'k \<Rightarrow> nat option" where
  "FindLessThan sl key = do {
     (x, next, prev) \<leftarrow> search_loop sl
       (\<lambda>next. \<not> (next = None \<or> sl_compare sl (node_key sl (the next)) key \<ge> 0)) (sl_max_height sl - 1) sl_head [];
     Some x
   }"

definition FindLast :: "'k skiplist \<Rightarrow> nat option" where
  "FindLast sl = do {
     (x, next, prev) \<leftarrow> search_loop sl (\<lambda>next. next \<noteq> None) (sl_max_height sl - 1) sl_head [];
     Some x
   }"

definition kBranching :: u32 where "kBranching = 4"

function RandomHeight_loop :: "nat \<Rightarrow> u32 \<Rightarrow> nat \<times> u32" where
  "RandomHeight_loop height seed =
     (if height < kMaxHeight then
        let seed = Random_Next seed
        in if seed mod kBranching = 0 then RandomHeight_loop (height + 1) seed else (height, seed)
      else (height, seed))"
  by auto
termination by (relation "measure (\<lambda>(height, seed). kMaxHeight - height)") auto

declare RandomHeight_loop.simps [simp del]

definition RandomHeight :: "u32 \<Rightarrow> nat \<times> u32" where
  "RandomHeight seed = RandomHeight_loop 1 seed"

text \<open>The loop that links the new node \<open>x\<close> into the lists of its levels.\<close>

fun link_levels :: "nat \<Rightarrow> nat option list \<Rightarrow> nat list \<Rightarrow> 'k skiplist \<Rightarrow> 'k skiplist option" where
  "link_levels x prev [] sl = Some sl"
| "link_levels x prev (i # is) sl = do {
     p \<leftarrow> prev ! i;
     next \<leftarrow> node_Next sl p i;
     sl \<leftarrow> node_SetNext x i next sl;
     sl \<leftarrow> node_SetNext p i (Some x) sl;
     link_levels x prev is sl
   }"

definition SkipList_Insert :: "heap \<Rightarrow> 'k \<Rightarrow> arena \<Rightarrow> 'k skiplist \<Rightarrow> (arena \<times> 'k skiplist) option" where
  "SkipList_Insert h key a sl = do {
     (x, prev) \<leftarrow> FindGreaterOrEqual sl key;
     let (height, rnd) = RandomHeight (sl_rnd sl);
         sl = sl\<lparr>sl_rnd := rnd\<rparr>;
         (prev, sl) =
           (if height > sl_max_height sl then
              (fold (\<lambda>i prev. prev[i := Some sl_head]) [sl_max_height sl ..< height] prev, sl\<lparr>sl_max_height := height\<rparr>)
            else (prev, sl));
         (x, a, sl) = NewNode h key height a sl
     in do {
       sl \<leftarrow> link_levels x prev [0..<height] sl;
       Some (a, sl)
     }
   }"

definition Contains :: "'k skiplist \<Rightarrow> 'k \<Rightarrow> bool option" where
  "Contains sl key = do {
     (x, prev) \<leftarrow> FindGreaterOrEqual sl key;
     Some (case x of None \<Rightarrow> False | Some x \<Rightarrow> Equal sl key (node_key sl x))
   }"

subsection \<open>The iterator\<close>

text \<open>An iterator is the node it stands at; the list it belongs to is an argument.\<close>

type_synonym skip_iter = "nat option"

definition SkipIter :: skip_iter where "SkipIter = None"

definition SkipIter_Valid :: "skip_iter \<Rightarrow> bool" where "SkipIter_Valid it \<longleftrightarrow> it \<noteq> None"

definition SkipIter_key :: "'k skiplist \<Rightarrow> skip_iter \<Rightarrow> 'k" where
  "SkipIter_key sl it = node_key sl (the it)"

definition SkipIter_Next :: "'k skiplist \<Rightarrow> skip_iter \<Rightarrow> skip_iter option" where
  "SkipIter_Next sl it = node_Next sl (the it) 0"

definition SkipIter_Prev :: "'k skiplist \<Rightarrow> skip_iter \<Rightarrow> skip_iter option" where
  "SkipIter_Prev sl it = do {
     node \<leftarrow> FindLessThan sl (node_key sl (the it));
     Some (if node = sl_head then None else Some node)
   }"

definition SkipIter_Seek :: "'k skiplist \<Rightarrow> 'k \<Rightarrow> skip_iter option" where
  "SkipIter_Seek sl target = do { (x, prev) \<leftarrow> FindGreaterOrEqual sl target; Some x }"

definition SkipIter_SeekToFirst :: "'k skiplist \<Rightarrow> skip_iter option" where
  "SkipIter_SeekToFirst sl = node_Next sl sl_head 0"

definition SkipIter_SeekToLast :: "'k skiplist \<Rightarrow> skip_iter option" where
  "SkipIter_SeekToLast sl = do {
     node \<leftarrow> FindLast sl;
     Some (if node = sl_head then None else Some node)
   }"

end
