(* ===== verification/LDB_SkipListSpec.thy ===== *)
theory LDB_SkipListSpec
  imports LDB_SkipList LDB_Comparator "HOL-Library.Multiset"
begin

text \<open>
  The skip list implements an ordered list of keys. The invariant \<open>skip_inv\<close> relates the nodes to the
  order \<open>ns\<close> of their addresses: on each level the next pointers lead through the nodes that are
  higher than the level. The searches find the place of a key in this order, and an insertion puts
  the new node there.
\<close>

subsection \<open>Paths\<close>

fun path :: "(nat \<Rightarrow> nat option option) \<Rightarrow> nat \<Rightarrow> nat list \<Rightarrow> bool" where
  "path f x [] \<longleftrightarrow> f x = Some None"
| "path f x (y # ys) \<longleftrightarrow> f x = Some (Some y) \<and> path f y ys"

fun first :: "'a list \<Rightarrow> 'a option" where
  "first [] = None"
| "first (x # xs) = Some x"

lemma first_append: "first (xs @ ys) = (if xs = [] then first ys else first xs)"
  by (cases xs) auto

lemma path_next: "path f z xs \<Longrightarrow> z # xs = us @ x # vs \<Longrightarrow> f x = Some (first vs)"
proof (induction us arbitrary: z xs)
  case Nil
  then show ?case by (cases xs) auto
next
  case (Cons u us)
  then show ?case by (cases xs) auto
qed

lemma path_cong: "path f z xs \<Longrightarrow> (\<And>x. x \<in> set (z # xs) \<Longrightarrow> g x = f x) \<Longrightarrow> path g z xs"
  by (induction xs arbitrary: z) auto

lemma path_insert:
  assumes "path f z (xs @ ys)" and "distinct (z # xs @ ys)" and "a \<notin> set (z # xs @ ys)"
  shows "path (f(a := Some (first ys), last (z # xs) := Some (Some a))) z (xs @ a # ys)"
  using assms
proof (induction xs arbitrary: z)
  case Nil
  define g where "g = f(a := Some (first ys), z := Some (Some a))"
  have g: "g z = Some (Some a)" "g a = Some (first ys)" "\<And>x. x \<noteq> a \<Longrightarrow> x \<noteq> z \<Longrightarrow> g x = f x"
    using Nil.prems by (auto simp: g_def)
  have "path g a ys"
  proof (cases ys)
    case (Cons y ys')
    then have "path f y ys'" using Nil.prems by simp
    then have "path g y ys'"
    proof (rule path_cong)
      fix x assume "x \<in> set (y # ys')"
      then have "x \<noteq> a" "x \<noteq> z" using Nil.prems Cons by auto
      then show "g x = f x" by (rule g(3))
    qed
    then show ?thesis using Cons g(2) by simp
  qed (use g(2) in simp)
  then have "path g z (a # ys)" using g(1) by simp
  then show ?case by (simp only: g_def append_Nil last.simps if_True refl)
next
  case (Cons x xs)
  then show ?case by auto
qed

subsection \<open>The invariant\<close>

definition node_height :: "'k skiplist \<Rightarrow> nat \<Rightarrow> nat" where
  "node_height sl x = length (nd_next (sl_nodes sl ! x))"

definition level_list :: "'k skiplist \<Rightarrow> nat list \<Rightarrow> nat \<Rightarrow> nat list" where
  "level_list sl ns l = filter (\<lambda>x. l < node_height sl x) ns"

definition skip_inv :: "('k \<Rightarrow> 'k \<Rightarrow> int) \<Rightarrow> ('k \<Rightarrow> bool) \<Rightarrow> 'k skiplist \<Rightarrow> nat list \<Rightarrow> bool" where
  "skip_inv cmp valid sl ns \<longleftrightarrow>
     sl_compare sl = cmp \<and> distinct (0 # ns) \<and> sl_nodes sl \<noteq> [] \<and> node_height sl 0 = kMaxHeight \<and>
     1 \<le> sl_max_height sl \<and> sl_max_height sl \<le> kMaxHeight \<and>
     (\<forall>x \<in> set ns. x < length (sl_nodes sl) \<and> 1 \<le> node_height sl x \<and> node_height sl x \<le> sl_max_height sl \<and>
        valid (node_key sl x)) \<and>
     sorted_wrt (\<lambda>x y. cmp (node_key sl x) (node_key sl y) < 0) ns \<and>
     (\<forall>l < kMaxHeight. path (\<lambda>x. node_Next sl x l) 0 (level_list sl ns l))"

text \<open>The keys of a list in order.\<close>

definition holds_keys :: "('k \<Rightarrow> 'k \<Rightarrow> int) \<Rightarrow> ('k \<Rightarrow> bool) \<Rightarrow> 'k skiplist \<Rightarrow> 'k list \<Rightarrow> bool" where
  "holds_keys cmp valid sl ks \<longleftrightarrow> (\<exists>ns. skip_inv cmp valid sl ns \<and> map (node_key sl) ns = ks)"

lemma skip_inv_new: "skip_inv cmp valid (snd (SkipList h cmp any_key a)) []"
  by (auto simp: SkipList_def NewNode_def skip_inv_def node_height_def level_list_def node_Next_def kMaxHeight_def
      split: prod.splits)

subsection \<open>Searching\<close>

lemma level_list_append: "level_list sl (xs @ ys) l = level_list sl xs l @ level_list sl ys l"
  by (simp add: level_list_def)

lemma level_list_0: "skip_inv cmp valid sl ns \<Longrightarrow> set xs \<subseteq> set ns \<Longrightarrow> level_list sl xs 0 = xs"
  unfolding level_list_def filter_id_conv skip_inv_def by fastforce

text \<open>The predecessors that a search collects on the levels below and including \<open>l\<close>.\<close>

definition collected_prev :: "'k skiplist \<Rightarrow> nat list \<Rightarrow> nat \<Rightarrow> nat option list \<Rightarrow> nat option list" where
  "collected_prev sl A l prev = fold (\<lambda>i p. p[i := Some (last (0 # level_list sl A i))]) (rev [0..<Suc l]) prev"

lemma collected_prev_0: "collected_prev sl A 0 prev = prev[0 := Some (last (0 # level_list sl A 0))]"
  by (simp add: collected_prev_def)

lemma collected_prev_Suc:
  "collected_prev sl A (Suc l) prev = collected_prev sl A l (prev[Suc l := Some (last (0 # level_list sl A (Suc l)))])"
  by (simp add: collected_prev_def)

lemma collected_prev_nth:
  "length (collected_prev sl A l prev) = length prev"
  "i \<le> l \<Longrightarrow> i < length prev \<Longrightarrow> collected_prev sl A l prev ! i = Some (last (0 # level_list sl A i))"
proof -
  show "length (collected_prev sl A l prev) = length prev"
    by (induction l arbitrary: prev) (auto simp: collected_prev_0 collected_prev_Suc)
  have keep: "collected_prev sl A l prev ! i = prev ! i" if "l < i" for i l and prev :: "nat option list"
    using that by (induction l arbitrary: prev) (auto simp: collected_prev_0 collected_prev_Suc)
  show "i \<le> l \<Longrightarrow> i < length prev \<Longrightarrow> collected_prev sl A l prev ! i = Some (last (0 # level_list sl A i))"
    by (induction l arbitrary: prev) (auto simp: collected_prev_0 collected_prev_Suc keep le_Suc_eq)
qed

lemma search_level:
  assumes inv: "skip_inv cmp valid sl (A @ B)" and l: "l < kMaxHeight"
    and A: "\<And>x. x \<in> set A \<Longrightarrow> after (Some x)" and B: "\<And>x. x \<in> set B \<Longrightarrow> \<not> after (Some x)" and N: "\<not> after None"
    and at: "0 # level_list sl A l = us @ x # vs"
  shows "search_loop sl after l x prev =
    (let x = last (0 # level_list sl A l); prev = prev[l := Some x]
     in if l = 0 then Some (x, first (level_list sl B 0), prev) else search_loop sl after (l - 1) x prev)"
  using at
proof (induction vs arbitrary: us x)
  case Nil
  have p: "path (\<lambda>x. node_Next sl x l) 0 (level_list sl A l @ level_list sl B l)"
    using inv l by (simp add: skip_inv_def level_list_append)
  have "0 # level_list sl A l @ level_list sl B l = us @ x # level_list sl B l" using Nil.prems by simp
  then have nx: "node_Next sl x l = Some (first (level_list sl B l))" by (rule path_next [OF p])
  have x: "last (0 # level_list sl A l) = x" using Nil.prems by (metis last_snoc)
  have "\<not> after (first (level_list sl B l))"
    using N B by (cases "level_list sl B l") (auto simp: level_list_def dest: filter_eq_ConsD)
  then show ?case unfolding x by (subst search_loop.simps) (simp add: nx Let_def)
next
  case (Cons v vs)
  have p: "path (\<lambda>x. node_Next sl x l) 0 (level_list sl A l @ level_list sl B l)"
    using inv l by (simp add: skip_inv_def level_list_append)
  have "0 # level_list sl A l @ level_list sl B l = us @ x # (v # vs @ level_list sl B l)" using Cons.prems by simp
  from path_next [OF p this] have nx: "node_Next sl x l = Some (Some v)" by simp
  have "v \<in> set (level_list sl A l)" using Cons.prems by (cases us) auto
  then have "after (Some v)" using A by (simp add: level_list_def)
  then show ?case
    using Cons.IH [of "us @ [x]" v] Cons.prems by (subst search_loop.simps) (simp add: nx)
qed

lemma search_result:
  assumes inv: "skip_inv cmp valid sl (A @ B)" and l: "l < kMaxHeight"
    and A: "\<And>x. x \<in> set A \<Longrightarrow> after (Some x)" and B: "\<And>x. x \<in> set B \<Longrightarrow> \<not> after (Some x)" and N: "\<not> after None"
    and x: "x \<in> set (0 # level_list sl A l)"
  shows "search_loop sl after l x prev = Some (last (0 # A), first B, collected_prev sl A l prev)"
  using l x
proof (induction l arbitrary: x prev)
  case 0
  obtain us vs where "0 # level_list sl A 0 = us @ x # vs" using "0.prems"(2) by (meson split_list)
  from search_level [where after = after, OF inv "0.prems"(1) A B N this] show ?case
    using level_list_0 [OF inv, of A] level_list_0 [OF inv, of B] by (simp add: collected_prev_0 Let_def)
next
  case (Suc l)
  obtain us vs where "0 # level_list sl A (Suc l) = us @ x # vs" using Suc.prems(2) by (meson split_list)
  note step = search_level [where after = after, OF inv Suc.prems(1) A B N this]
  have "last (0 # level_list sl A (Suc l)) \<in> set (0 # level_list sl A (Suc l))" by (rule last_in_set) simp
  then have "last (0 # level_list sl A (Suc l)) \<in> set (0 # level_list sl A l)" by (auto simp: level_list_def)
  with Suc.IH [of "last (0 # level_list sl A (Suc l))"] Suc.prems(1) step show ?case
    by (simp add: collected_prev_Suc Let_def)
qed

subsection \<open>Inserting\<close>

lemma node_Next_SetNext:
  "node_SetNext x n y sl = Some sl' \<Longrightarrow> node_Next sl' x' n' = (if x' = x \<and> n' = n then Some y else node_Next sl x' n')"
  by (auto simp: node_SetNext_def node_Next_def nth_list_update split: if_splits)

lemma SetNext_same:
  assumes "node_SetNext x n y sl = Some sl'"
  shows "node_key sl' z = node_key sl z" and "node_height sl' z = node_height sl z"
    and "length (sl_nodes sl') = length (sl_nodes sl)" and "sl_max_height sl' = sl_max_height sl"
    and "sl_compare sl' = sl_compare sl" and "sl_rnd sl' = sl_rnd sl"
  using assms by (auto simp: node_SetNext_def node_key_def node_height_def nth_list_update split: if_splits)

lemma SetNext_defined:
  "x < length (sl_nodes sl) \<Longrightarrow> n < node_height sl x \<Longrightarrow> \<exists>sl'. node_SetNext x n y sl = Some sl'"
  by (simp add: node_SetNext_def node_height_def)

text \<open>The part of the list that linking does not change.\<close>

definition same_nodes :: "'k skiplist \<Rightarrow> 'k skiplist \<Rightarrow> bool" where
  "same_nodes sl sl' \<longleftrightarrow> (\<forall>z. node_key sl' z = node_key sl z) \<and> (\<forall>z. node_height sl' z = node_height sl z) \<and>
     length (sl_nodes sl') = length (sl_nodes sl) \<and> sl_max_height sl' = sl_max_height sl \<and> sl_compare sl' = sl_compare sl"

lemma same_nodes_trans: "same_nodes a b \<Longrightarrow> same_nodes b c \<Longrightarrow> same_nodes a c"
  by (simp add: same_nodes_def)

lemma same_level_list: "same_nodes sl sl' \<Longrightarrow> level_list sl' ns l = level_list sl ns l"
  by (simp add: same_nodes_def level_list_def)

text \<open>Linking node \<open>a\<close> between \<open>A\<close> and \<open>B\<close>, from level \<open>j\<close> on.\<close>

lemma link_levels_ok:
  assumes "distinct (0 # A @ B)" and "a \<notin> set (0 # A @ B)" and "a < length (sl_nodes sl)" and "h = node_height sl a"
    and "h \<le> kMaxHeight" and "node_height sl 0 = kMaxHeight" and "\<forall>x \<in> set (0 # A). x < length (sl_nodes sl)"
    and "\<And>i. i < h \<Longrightarrow> prev ! i = Some (last (0 # level_list sl A i))"
    and "\<And>l. l < j \<Longrightarrow> path (\<lambda>x. node_Next sl x l) 0 (level_list sl A l @ a # level_list sl B l)"
    and "\<And>l. j \<le> l \<Longrightarrow> l < kMaxHeight \<Longrightarrow> path (\<lambda>x. node_Next sl x l) 0 (level_list sl A l @ level_list sl B l)"
    and "j \<le> h"
  shows "\<exists>sl'. link_levels a prev [j..<h] sl = Some sl' \<and> same_nodes sl sl' \<and>
    (\<forall>l < h. path (\<lambda>x. node_Next sl' x l) 0 (level_list sl A l @ a # level_list sl B l)) \<and>
    (\<forall>l. h \<le> l \<longrightarrow> l < kMaxHeight \<longrightarrow> path (\<lambda>x. node_Next sl' x l) 0 (level_list sl A l @ level_list sl B l))"
  using assms(3-11)
proof (induction "h - j" arbitrary: j sl)
  case 0
  then have "j = h" by simp
  then show ?case using "0.prems" by (auto simp: same_nodes_def)
next
  case (Suc d)
  then have j: "j < h" by simp
  then have up: "[j..<h] = j # [Suc j..<h]" by (simp add: upt_conv_Cons)
  let ?A = "level_list sl A j" and ?B = "level_list sl B j"
  define pr where "pr = last (0 # ?A)"
  have jk: "j < kMaxHeight" using j Suc.prems(3) by simp
  have p: "path (\<lambda>x. node_Next sl x j) 0 (?A @ ?B)" using Suc.prems(8) [of j] jk by simp
  have "0 # ?A @ ?B = butlast (0 # ?A) @ pr # ?B"
    using append_butlast_last_id [of "0 # ?A"] by (simp add: pr_def)
  from path_next [OF p this] have nx: "node_Next sl pr j = Some (first ?B)" .
  have pin: "pr \<in> set (0 # ?A)" unfolding pr_def by (rule last_in_set) simp
  then have ph: "pr < length (sl_nodes sl)" "j < node_height sl pr"
    using Suc.prems(4,5) jk by (auto simp: level_list_def)
  obtain sl1 where s1: "node_SetNext a j (first ?B) sl = Some sl1"
    using SetNext_defined [of a sl j] Suc.prems(1,2) j by blast
  note same1 = SetNext_same [OF s1]
  obtain sl2 where s2: "node_SetNext pr j (Some a) sl1 = Some sl2"
    using SetNext_defined [of pr sl1 j] ph by (auto simp: same1)
  note same2 = SetNext_same [OF s2]
  have sn: "same_nodes sl sl2" using same1 same2 by (simp add: same_nodes_def)
  have ll: "level_list sl2 xs l = level_list sl xs l" for xs l by (rule same_level_list [OF sn])
  have nn: "node_Next sl2 x l = (if l = j then ((\<lambda>x. node_Next sl x j)(a := Some (first ?B), pr := Some (Some a))) x
      else node_Next sl x l)" for x l
    using node_Next_SetNext [OF s1] node_Next_SetNext [OF s2] by auto
  have fresh: "distinct (0 # ?A @ ?B)" "a \<notin> set (0 # ?A @ ?B)" using assms(1,2) by (auto simp: level_list_def)
  have new: "path (\<lambda>x. node_Next sl2 x j) 0 (?A @ a # ?B)"
  proof -
    have "(\<lambda>x. node_Next sl2 x j) = (\<lambda>x. node_Next sl x j)(a := Some (first ?B), pr := Some (Some a))"
      by (rule ext) (simp add: nn)
    then show ?thesis using path_insert [OF p fresh, folded pr_def] by (simp only:)
  qed
  have "\<exists>sl'. link_levels a prev [Suc j..<h] sl2 = Some sl' \<and> same_nodes sl2 sl' \<and>
    (\<forall>l < h. path (\<lambda>x. node_Next sl' x l) 0 (level_list sl2 A l @ a # level_list sl2 B l)) \<and>
    (\<forall>l. h \<le> l \<longrightarrow> l < kMaxHeight \<longrightarrow> path (\<lambda>x. node_Next sl' x l) 0 (level_list sl2 A l @ level_list sl2 B l))"
  proof (rule Suc.hyps(1))
    show "d = h - Suc j" using Suc.hyps(2) by simp
    show "path (\<lambda>x. node_Next sl2 x l) 0 (level_list sl2 A l @ a # level_list sl2 B l)" if "l < Suc j" for l
      using that new Suc.prems(7) [of l] by (cases "l = j") (simp_all add: ll nn)
    show "path (\<lambda>x. node_Next sl2 x l) 0 (level_list sl2 A l @ level_list sl2 B l)" if "Suc j \<le> l" "l < kMaxHeight" for l
      using that Suc.prems(8) [of l] by (simp add: ll nn)
  qed (use Suc.prems same1 same2 j in \<open>auto simp: ll\<close>)
  then show ?case
    using same_nodes_trans [OF sn] Suc.prems(6) [OF j, folded pr_def] nx s1 s2 by (auto simp: up ll)
qed

definition insert_key :: "('k \<Rightarrow> 'k \<Rightarrow> int) \<Rightarrow> 'k \<Rightarrow> 'k list \<Rightarrow> 'k list" where
  "insert_key cmp k ks = takeWhile (\<lambda>x. cmp x k < 0) ks @ k # dropWhile (\<lambda>x. cmp x k < 0) ks"

lemma RandomHeight_range: "fst (RandomHeight seed) \<in> {1 .. kMaxHeight}"
proof -
  have "fst (RandomHeight_loop height seed) \<in> {height .. kMaxHeight}" if "height \<le> kMaxHeight" for height
    using that
  proof (induction height seed rule: RandomHeight_loop.induct)
    case (1 height seed)
    show ?case
    proof (cases "height < kMaxHeight \<and> Random_Next seed mod kBranching = 0")
      case True
      then show ?thesis using "1.IH" [OF _ refl] by (subst RandomHeight_loop.simps) (simp add: Let_def)
    next
      case False
      then have "RandomHeight_loop height seed = (height, if height < kMaxHeight then Random_Next seed else seed)"
        unfolding RandomHeight_loop.simps [of height seed] Let_def by (metis (full_types))
      then show ?thesis using "1.prems" by simp
    qed
  qed
  then show ?thesis by (simp add: RandomHeight_def kMaxHeight_def)
qed

lemma fold_update_nth:
  "length (fold (\<lambda>i p. p[i := v]) [m..<n] p) = length p"
  "i < length p \<Longrightarrow> fold (\<lambda>i p. p[i := v]) [m..<n] p ! i = (if m \<le> i \<and> i < n then v else p ! i)"
proof -
  show len: "length (fold (\<lambda>i p. p[i := v]) [m..<n] p) = length p" for n by (induction n) auto
  show "i < length p \<Longrightarrow> fold (\<lambda>i p. p[i := v]) [m..<n] p ! i = (if m \<le> i \<and> i < n then v else p ! i)"
    by (induction n) (auto simp: nth_list_update len less_Suc_eq)
qed

lemma NewNode_simps:
  assumes "NewNode h k height a sl = (x, a', sl')"
  shows "x = length (sl_nodes sl)" and "length (sl_nodes sl') = Suc x" and "node_key sl' x = k"
    and "node_height sl' x = height" and "sl_max_height sl' = sl_max_height sl" and "sl_compare sl' = sl_compare sl"
    and "y < x \<Longrightarrow> node_key sl' y = node_key sl y" and "y < x \<Longrightarrow> node_height sl' y = node_height sl y"
    and "y < x \<Longrightarrow> node_Next sl' y l = node_Next sl y l"
  using assms by (auto simp: NewNode_def node_key_def node_height_def node_Next_def nth_append split: prod.splits)

context key_order
begin

lemma split_at_key:
  assumes "skip_inv cmp valid sl ns" and "valid k" and "x \<in> set (dropWhile (\<lambda>x. cmp (node_key sl x) k < 0) ns)"
  shows "\<not> cmp (node_key sl x) k < 0"
proof
  let ?P = "\<lambda>x. cmp (node_key sl x) k < 0"
  assume x: "?P x"
  obtain b B where B: "dropWhile ?P ns = b # B" using assms(3) by (cases "dropWhile ?P ns") auto
  then have b: "\<not> ?P b" by (simp add: dropWhile_eq_Cons_conv)
  have ns: "ns = takeWhile ?P ns @ b # B" using takeWhile_dropWhile_id [of ?P ns] B by simp
  have "x \<noteq> b" using x b by auto
  then have "x \<in> set B" using assms(3) B by simp
  moreover have "sorted_wrt (\<lambda>x y. cmp (node_key sl x) (node_key sl y) < 0) (takeWhile ?P ns @ b # B)"
    using assms(1) ns by (simp add: skip_inv_def)
  ultimately have "cmp (node_key sl b) (node_key sl x) < 0" by (simp add: sorted_wrt_append)
  moreover have "b \<in> set ns" "x \<in> set ns" using ns \<open>x \<in> set B\<close> by (metis in_set_conv_decomp, metis Un_iff list.set_intros(2) set_append)
  then have "valid (node_key sl b)" "valid (node_key sl x)" using assms(1) by (auto simp: skip_inv_def)
  ultimately show False using less_trans x b assms(2) by blast
qed

lemma FindGreaterOrEqual_result:
  assumes inv: "skip_inv cmp valid sl ns" and k: "valid k"
  defines "A \<equiv> takeWhile (\<lambda>x. cmp (node_key sl x) k < 0) ns"
    and "B \<equiv> dropWhile (\<lambda>x. cmp (node_key sl x) k < 0) ns"
  shows "FindGreaterOrEqual sl k = Some (first B, collected_prev sl A (sl_max_height sl - 1) (replicate kMaxHeight None))"
proof -
  have ns: "ns = A @ B" by (simp add: A_def B_def)
  have c: "sl_compare sl = cmp" "sl_max_height sl - 1 < kMaxHeight" using inv by (auto simp: skip_inv_def)
  have A: "KeyIsAfterNode sl k (Some x)" if "x \<in> set A" for x
    using that by (auto simp: A_def KeyIsAfterNode_def c dest: set_takeWhileD)
  have B: "\<not> KeyIsAfterNode sl k (Some x)" if "x \<in> set B" for x
    using split_at_key [OF inv k that [unfolded B_def]] unfolding KeyIsAfterNode_def c by simp
  have "search_loop sl (KeyIsAfterNode sl k) (sl_max_height sl - 1) 0 (replicate kMaxHeight None) =
      Some (last (0 # A), first B, collected_prev sl A (sl_max_height sl - 1) (replicate kMaxHeight None))"
    by (rule search_result [where after = "KeyIsAfterNode sl k", OF inv [unfolded ns] c(2) A B])
      (simp_all add: KeyIsAfterNode_def)
  then show ?thesis by (simp add: FindGreaterOrEqual_def sl_head_def)
qed

lemma FindLessThan_result:
  assumes inv: "skip_inv cmp valid sl ns" and k: "valid k"
  shows "FindLessThan sl k = Some (last (0 # takeWhile (\<lambda>x. cmp (node_key sl x) k < 0) ns))"
proof -
  let ?A = "takeWhile (\<lambda>x. cmp (node_key sl x) k < 0) ns" and ?B = "dropWhile (\<lambda>x. cmp (node_key sl x) k < 0) ns"
  let ?after = "\<lambda>next. \<not> (next = None \<or> sl_compare sl (node_key sl (the next)) k \<ge> 0)"
  have c: "sl_compare sl = cmp" "sl_max_height sl - 1 < kMaxHeight" using inv by (auto simp: skip_inv_def)
  have "search_loop sl ?after (sl_max_height sl - 1) 0 [] =
      Some (last (0 # ?A), first ?B, collected_prev sl ?A (sl_max_height sl - 1) [])"
  proof (rule search_result [OF _ c(2)])
    show "skip_inv cmp valid sl (?A @ ?B)" using inv by simp
    show "?after (Some x)" if "x \<in> set ?A" for x using set_takeWhileD [OF that] by (simp add: c)
    show "\<not> ?after (Some x)" if "x \<in> set ?B" for x using split_at_key [OF inv k that] by (simp add: c)
  qed simp_all
  then show ?thesis by (simp add: FindLessThan_def sl_head_def)
qed

lemma FindLast_result:
  assumes inv: "skip_inv cmp valid sl ns"
  shows "FindLast sl = Some (last (0 # ns))"
proof -
  have c: "sl_max_height sl - 1 < kMaxHeight" using inv by (auto simp: skip_inv_def)
  have "search_loop sl (\<lambda>next. next \<noteq> None) (sl_max_height sl - 1) 0 [] =
      Some (last (0 # ns), first [], collected_prev sl ns (sl_max_height sl - 1) [])"
    by (rule search_result [where B = "[]", OF _ c]) (use inv in auto)
  then show ?thesis by (simp add: FindLast_def sl_head_def)
qed

text \<open>The state in which the new node is linked.\<close>

lemma Insert_linked:
  assumes inv: "skip_inv cmp valid sl (A @ B)" and k: "valid k" and A: "\<forall>x \<in> set A. cmp (node_key sl x) k < 0"
    and B: "\<forall>x \<in> set B. cmp k (node_key sl x) < 0" and height: "1 \<le> height" "height \<le> kMaxHeight"
    and prev: "\<And>i. i < height \<Longrightarrow> prev ! i = Some (last (0 # level_list sl A i))"
    and new: "NewNode h k height a (sl\<lparr>sl_rnd := rnd, sl_max_height := max (sl_max_height sl) height\<rparr>) = (x, a', sl2)"
  shows "\<exists>sl'. link_levels x prev [0..<height] sl2 = Some sl' \<and> skip_inv cmp valid sl' (A @ x # B) \<and>
    map (node_key sl') (A @ x # B) = map (node_key sl) A @ k # map (node_key sl) B"
proof -
  note N = NewNode_simps [OF new]
  have I: "distinct (0 # A @ B)" "sl_nodes sl \<noteq> []" "node_height sl 0 = kMaxHeight"
    "\<forall>y \<in> set (A @ B). y < length (sl_nodes sl) \<and> 1 \<le> node_height sl y \<and> node_height sl y \<le> sl_max_height sl \<and> valid (node_key sl y)"
    "sorted_wrt (\<lambda>x y. cmp (node_key sl x) (node_key sl y) < 0) (A @ B)"
    "\<forall>l < kMaxHeight. path (\<lambda>x. node_Next sl x l) 0 (level_list sl A l @ level_list sl B l)"
    "sl_compare sl = cmp" "sl_max_height sl \<le> kMaxHeight"
    using inv by (simp_all add: skip_inv_def level_list_append)
  have x: "x = length (sl_nodes sl)" using N(1) by simp
  have lt: "y < x" if "y \<in> set (0 # A @ B)" for y using that I(2,4) by (auto simp: x)
  have same: "node_key sl2 y = node_key sl y" "node_height sl2 y = node_height sl y" "node_Next sl2 y l = node_Next sl y l"
    if "y < x" for y l
    using N(7) [of y] N(8) [of y] N(9) [of y l] that by (simp_all add: node_key_def node_height_def node_Next_def)
  have ll: "level_list sl2 xs l = level_list sl xs l" if "set xs \<subseteq> set (A @ B)" for xs l
    unfolding level_list_def using that lt same(2) by (intro filter_cong) auto
  have "path (\<lambda>y. node_Next sl2 y l) 0 (level_list sl2 A l @ level_list sl2 B l)" if "l < kMaxHeight" for l
  proof (rule path_cong)
    show "path (\<lambda>y. node_Next sl y l) 0 (level_list sl2 A l @ level_list sl2 B l)" using I(6) that by (simp add: ll)
    show "node_Next sl2 y l = node_Next sl y l" if "y \<in> set (0 # level_list sl2 A l @ level_list sl2 B l)" for y
      using that lt by (intro same(3)) (auto simp: level_list_def)
  qed
  note paths2 = this
  have "x \<notin> set (0 # A @ B)" using lt by auto
  have "\<exists>sl'. link_levels x prev [0..<height] sl2 = Some sl' \<and> same_nodes sl2 sl' \<and>
    (\<forall>l < height. path (\<lambda>y. node_Next sl' y l) 0 (level_list sl2 A l @ x # level_list sl2 B l)) \<and>
    (\<forall>l. height \<le> l \<longrightarrow> l < kMaxHeight \<longrightarrow> path (\<lambda>y. node_Next sl' y l) 0 (level_list sl2 A l @ level_list sl2 B l))"
  proof (rule link_levels_ok [OF I(1) \<open>x \<notin> set (0 # A @ B)\<close>])
    show "node_height sl2 0 = kMaxHeight" using same(2) [of 0] lt [of 0] I(3) by simp
    show "\<forall>y \<in> set (0 # A). y < length (sl_nodes sl2)" using lt N(2) by (auto simp: less_Suc_eq)
    show "prev ! i = Some (last (0 # level_list sl2 A i))" if "i < height" for i using prev [OF that] ll [of A i] by simp
  qed (use N(2,4) height paths2 in simp_all)
  then obtain sl' where l: "link_levels x prev [0..<height] sl2 = Some sl'" and sn: "same_nodes sl2 sl'"
      and lo: "\<forall>l < height. path (\<lambda>y. node_Next sl' y l) 0 (level_list sl2 A l @ x # level_list sl2 B l)"
      and hi: "\<forall>l. height \<le> l \<longrightarrow> l < kMaxHeight \<longrightarrow> path (\<lambda>y. node_Next sl' y l) 0 (level_list sl2 A l @ level_list sl2 B l)"
    by blast
  have keys: "map (node_key sl') (A @ x # B) = map (node_key sl) A @ k # map (node_key sl) B"
    using sn N(3) same(1) lt by (simp add: same_nodes_def)
  have key: "node_key sl' y = node_key sl y" "node_height sl' y = node_height sl y" if "y \<in> set (0 # A @ B)" for y
    using sn same lt [OF that] by (simp_all add: same_nodes_def)
  have xk: "node_key sl' x = k" "node_height sl' x = height" using sn N(3,4) by (simp_all add: same_nodes_def)
  have "level_list sl' (A @ x # B) l = level_list sl2 A l @ (if l < height then [x] else []) @ level_list sl2 B l" for l
    using sn N(4) by (simp add: level_list_def same_nodes_def)
  then have paths: "path (\<lambda>y. node_Next sl' y l) 0 (level_list sl' (A @ x # B) l)" if "l < kMaxHeight" for l
    using lo hi that by (cases "l < height") auto
  have "sorted_wrt (\<lambda>a b. cmp (node_key sl' a) (node_key sl' b) < 0) (A @ x # B)"
    unfolding sorted_wrt_append sorted_wrt.simps
  proof (intro conjI ballI)
    have so: "sorted_wrt (\<lambda>x y. cmp (node_key sl x) (node_key sl y) < 0) A" "sorted_wrt (\<lambda>x y. cmp (node_key sl x) (node_key sl y) < 0) B"
        "\<forall>y \<in> set A. \<forall>z \<in> set B. cmp (node_key sl y) (node_key sl z) < 0"
      using I(5) by (simp_all add: sorted_wrt_append)
    show "sorted_wrt (\<lambda>a b. cmp (node_key sl' a) (node_key sl' b) < 0) A"
      by (rule sorted_wrt_mono_rel [OF _ so(1)]) (simp add: key)
    show "sorted_wrt (\<lambda>a b. cmp (node_key sl' a) (node_key sl' b) < 0) B"
      by (rule sorted_wrt_mono_rel [OF _ so(2)]) (simp add: key)
    show "cmp (node_key sl' x) (node_key sl' y) < 0" if "y \<in> set B" for y using B that by (simp add: xk key)
    show "cmp (node_key sl' y) (node_key sl' z) < 0" if "y \<in> set A" "z \<in> set (x # B)" for y z
      using A that so(3) by (auto simp: xk key)
  qed
  moreover have len: "length (sl_nodes sl') = Suc x" "sl_max_height sl' = max (sl_max_height sl) height" "sl_compare sl' = cmp"
    using sn N(2,5,6) I(7) by (simp_all add: same_nodes_def)
  moreover have "y < length (sl_nodes sl') \<and> 1 \<le> node_height sl' y \<and> node_height sl' y \<le> sl_max_height sl' \<and>
      valid (node_key sl' y)" if "y \<in> set (A @ x # B)" for y
  proof (cases "y = x")
    case True
    then show ?thesis using len xk height k by simp
  next
    case False
    then have y: "y \<in> set (A @ B)" using that by simp
    then have "y \<in> set (0 # A @ B)" by simp
    then show ?thesis using len key [of y] lt [of y] I(4) [rule_format, OF y] by auto
  qed
  moreover have "sl_nodes sl' \<noteq> []" using len(1) by auto
  moreover have "node_height sl' 0 = kMaxHeight" using key(2) [of 0] I(3) by simp
  moreover have "distinct (0 # A @ x # B)" using I(1) \<open>x \<notin> set (0 # A @ B)\<close> by auto
  moreover have "1 \<le> sl_max_height sl'" "sl_max_height sl' \<le> kMaxHeight" using len(2) height I(8) by simp_all
  ultimately have "skip_inv cmp valid sl' (A @ x # B)"
    using paths unfolding skip_inv_def by blast
  then show ?thesis using l keys by blast
qed

lemma Insert_holds:
  assumes "holds_keys cmp valid sl ks" and k: "valid k" and fresh: "\<forall>x \<in> set ks. cmp x k \<noteq> 0"
  shows "\<exists>a' sl'. SkipList_Insert h k a sl = Some (a', sl') \<and> holds_keys cmp valid sl' (insert_key cmp k ks)"
proof -
  obtain ns where inv: "skip_inv cmp valid sl ns" and ks: "map (node_key sl) ns = ks"
    using assms(1) by (auto simp: holds_keys_def)
  let ?P = "\<lambda>x. cmp (node_key sl x) k < 0"
  define A where "A = takeWhile ?P ns" define B where "B = dropWhile ?P ns"
  have ns: "ns = A @ B" by (simp add: A_def B_def)
  let ?prev = "collected_prev sl A (sl_max_height sl - 1) (replicate kMaxHeight None)"
  have fge: "FindGreaterOrEqual sl k = Some (first B, ?prev)"
    unfolding A_def B_def by (rule FindGreaterOrEqual_result [OF inv k])
  obtain height rnd where r: "RandomHeight (sl_rnd sl) = (height, rnd)" by fastforce
  then have height: "1 \<le> height" "height \<le> kMaxHeight" using RandomHeight_range [of "sl_rnd sl"] by auto
  define prev where "prev = (if height > sl_max_height sl
    then fold (\<lambda>i prev. prev[i := Some sl_head]) [sl_max_height sl ..< height] ?prev else ?prev)"
  have mh: "1 \<le> sl_max_height sl" "sl_max_height sl \<le> kMaxHeight" using inv by (auto simp: skip_inv_def)
  have "prev ! i = Some (last (0 # level_list sl A i))" if "i < height" for i
  proof (cases "i < sl_max_height sl")
    case True
    then show ?thesis
      using that height mh collected_prev_nth(2) [of i "sl_max_height sl - 1" "replicate kMaxHeight None" sl A]
      by (auto simp: prev_def fold_update_nth collected_prev_nth(1))
  next
    case False
    have "\<forall>x \<in> set A. node_height sl x \<le> sl_max_height sl" using inv unfolding ns by (simp add: skip_inv_def)
    then have "level_list sl A i = []" using False by (auto simp: level_list_def filter_empty_conv)
    then show ?thesis
      using False that height by (simp add: prev_def fold_update_nth collected_prev_nth(1) sl_head_def)
  qed
  moreover obtain x a' sl2 where new: "NewNode h k height a (sl\<lparr>sl_rnd := rnd, sl_max_height := max (sl_max_height sl) height\<rparr>) = (x, a', sl2)"
    by (metis prod_cases3)
  moreover have "\<forall>x \<in> set A. ?P x" unfolding A_def by (auto dest: set_takeWhileD)
  moreover have "cmp k (node_key sl x) < 0" if "x \<in> set B" for x
  proof -
    have "x \<in> set ns" using that ns by simp
    then have "cmp (node_key sl x) k \<noteq> 0" "valid (node_key sl x)" using fresh ks inv by (auto simp: skip_inv_def)
    moreover have "\<not> ?P x" by (rule split_at_key [OF inv k that [unfolded B_def]])
    ultimately show ?thesis using flip [OF k, of "node_key sl x"] by linarith
  qed
  ultimately obtain sl' where sl': "link_levels x prev [0..<height] sl2 = Some sl'" "skip_inv cmp valid sl' (A @ x # B)"
      "map (node_key sl') (A @ x # B) = map (node_key sl) A @ k # map (node_key sl) B"
    using Insert_linked [OF inv [unfolded ns] k _ _ height] by blast
  have "SkipList_Insert h k a sl = Some (a', sl')"
    using fge r new sl'(1) unfolding SkipList_Insert_def prev_def
    by (cases "height > sl_max_height sl") (simp_all add: max_def Let_def)
  moreover have "map (node_key sl) A @ k # map (node_key sl) B = insert_key cmp k ks"
    by (simp add: insert_key_def A_def B_def takeWhile_map dropWhile_map comp_def flip: ks)
  ultimately show ?thesis using sl' by (auto simp: holds_keys_def)
qed

lemma insert_key_sorted:
  assumes "sorted_wrt (\<lambda>x y. cmp x y < 0) ks" and "\<forall>x \<in> set ks. valid x" and "valid k" and "\<forall>x \<in> set ks. cmp x k \<noteq> 0"
  shows "sorted_wrt (\<lambda>x y. cmp x y < 0) (insert_key cmp k ks)"
proof -
  define A where "A = takeWhile (\<lambda>x. cmp x k < 0) ks"
  define B where "B = dropWhile (\<lambda>x. cmp x k < 0) ks"
  have so: "sorted_wrt (\<lambda>x y. cmp x y < 0) (A @ B)" using assms(1) by (simp add: A_def B_def)
  have lt: "\<forall>x \<in> set A. cmp x k < 0" unfolding A_def by (auto dest: set_takeWhileD)
  have gt: "cmp k x < 0" if "x \<in> set B" for x
  proof (cases B)
    case (Cons b B')
    then have "\<not> cmp b k < 0" by (simp add: dropWhile_eq_Cons_conv B_def)
    moreover have "b \<in> set ks" "x \<in> set ks" using Cons that unfolding B_def by (metis list.set_intros(1) set_dropWhileD)+
    ultimately have b: "\<not> cmp b k < 0" "b \<in> set ks" "x \<in> set ks" by blast+
    then have kb: "cmp k b < 0" using assms(2-4) flip [of k b] by fastforce
    have "x = b \<or> cmp b x < 0" using so that Cons by (auto simp: sorted_wrt_append)
    then show ?thesis using kb less_trans [OF assms(3), of b x] assms(2) b by blast
  next
    case Nil
    then show ?thesis using that by (simp only: list.set empty_iff)
  qed
  have "sorted_wrt (\<lambda>x y. cmp x y < 0) A" "sorted_wrt (\<lambda>x y. cmp x y < 0) B" "\<forall>x \<in> set A. \<forall>y \<in> set B. cmp x y < 0"
    using so unfolding sorted_wrt_append by blast+
  then show ?thesis unfolding insert_key_def A_def [symmetric] B_def [symmetric] sorted_wrt_append sorted_wrt.simps using lt gt by auto
qed

text \<open>The iterator stands at a position of the list, or is not valid.\<close>

lemma lowest_path: "skip_inv cmp valid sl ns \<Longrightarrow> path (\<lambda>x. node_Next sl x 0) 0 ns"
proof -
  assume inv: "skip_inv cmp valid sl ns"
  then have "path (\<lambda>x. node_Next sl x 0) 0 (level_list sl ns 0)" by (simp add: skip_inv_def kMaxHeight_def)
  then show ?thesis using level_list_0 [OF inv order.refl] by simp
qed

lemma Next_position:
  assumes "skip_inv cmp valid sl ns" and "i < length ns"
  shows "SkipIter_Next sl (Some (ns ! i)) = Some (first (drop (Suc i) ns))"
proof -
  note p = lowest_path [OF assms(1)]
  have "0 # ns = (0 # take i ns) @ ns ! i # drop (Suc i) ns" using assms(2) by (simp add: id_take_nth_drop)
  from path_next [OF p this] show ?thesis by (simp add: SkipIter_Next_def)
qed

lemma First_position:
  assumes "skip_inv cmp valid sl ns"
  shows "SkipIter_SeekToFirst sl = Some (first ns)"
proof -
  note p = lowest_path [OF assms]
  have "0 # ns = [] @ 0 # ns" by simp
  from path_next [OF p this] show ?thesis by (simp add: SkipIter_SeekToFirst_def sl_head_def)
qed

lemma Last_position:
  assumes "skip_inv cmp valid sl ns"
  shows "SkipIter_SeekToLast sl = Some (if ns = [] then None else Some (last ns))"
proof -
  have "last ns \<noteq> 0" if "ns \<noteq> []" using assms that by (metis distinct.simps(2) last_in_set skip_inv_def)
  then show ?thesis
    by (cases "ns = []") (simp_all add: SkipIter_SeekToLast_def FindLast_result [OF assms] sl_head_def)
qed

lemma Seek_position:
  assumes "skip_inv cmp valid sl ns" and "valid k"
  shows "SkipIter_Seek sl k = Some (first (dropWhile (\<lambda>x. cmp (node_key sl x) k < 0) ns))"
  by (simp add: SkipIter_Seek_def FindGreaterOrEqual_result [OF assms])

lemma before_position:
  assumes "skip_inv cmp valid sl ns" and "i < length ns"
  shows "takeWhile (\<lambda>x. cmp (node_key sl x) (node_key sl (ns ! i)) < 0) ns = take i ns"
proof -
  let ?P = "\<lambda>x. cmp (node_key sl x) (node_key sl (ns ! i)) < 0"
  have so: "sorted_wrt (\<lambda>x y. cmp (node_key sl x) (node_key sl y) < 0) ns" and v: "valid (node_key sl (ns ! i))"
    using assms by (auto simp: skip_inv_def)
  have "\<not> ?P (ns ! i)" using flip [OF v v] by linarith
  then have "takeWhile ?P (take i ns @ ns ! i # drop (Suc i) ns) = take i ns"
    using so assms(2) by (subst takeWhile_append2) (auto simp: sorted_wrt_iff_nth_less in_set_conv_nth)
  then show ?thesis using assms(2) by (simp add: id_take_nth_drop [symmetric])
qed

lemma Prev_position:
  assumes "skip_inv cmp valid sl ns" and "i < length ns"
  shows "SkipIter_Prev sl (Some (ns ! i)) = Some (if i = 0 then None else Some (ns ! (i - 1)))"
proof -
  have v: "valid (node_key sl (ns ! i))" using assms by (auto simp: skip_inv_def)
  have "ns ! (i - 1) \<in> set ns" using assms(2) by simp
  then have "ns ! (i - 1) \<noteq> 0" using assms(1) by (metis distinct.simps(2) skip_inv_def)
  moreover have "last (0 # take i ns) = (if i = 0 then 0 else ns ! (i - 1))"
    using assms(2) by (cases i) (auto simp: last_conv_nth)
  ultimately show ?thesis
    by (simp add: SkipIter_Prev_def FindLessThan_result [OF assms(1) v] before_position [OF assms] sl_head_def)
qed

lemma Contains_holds:
  assumes "holds_keys cmp valid sl ks" and k: "valid k"
  shows "Contains sl k = Some (\<exists>x \<in> set ks. cmp k x = 0)"
proof -
  obtain ns where inv: "skip_inv cmp valid sl ns" and ks: "map (node_key sl) ns = ks"
    using assms(1) by (auto simp: holds_keys_def)
  let ?P = "\<lambda>x. cmp (node_key sl x) k < 0"
  have c: "sl_compare sl = cmp" and v: "\<forall>x \<in> set ns. valid (node_key sl x)" and
    so: "sorted_wrt (\<lambda>x y. cmp (node_key sl x) (node_key sl y) < 0) (takeWhile ?P ns @ dropWhile ?P ns)"
    using inv by (auto simp: skip_inv_def)
  have "(case first (dropWhile ?P ns) of None \<Rightarrow> False | Some x \<Rightarrow> Equal sl k (node_key sl x)) \<longleftrightarrow>
      (\<exists>x \<in> set ns. cmp k (node_key sl x) = 0)"
  proof (cases "dropWhile ?P ns")
    case Nil
    then have "\<forall>x \<in> set ns. ?P x" by (simp add: dropWhile_eq_Nil_conv)
    then have "\<forall>x \<in> set ns. 0 < cmp k (node_key sl x)" using flip [OF _ k] v by blast
    then show ?thesis unfolding Nil first.simps option.case by auto
  next
    case (Cons b B)
    have b: "b \<in> set ns" "\<not> ?P b" using Cons by (metis list.set_intros(1) set_dropWhileD, simp add: dropWhile_eq_Cons_conv)
    have "x = b" if x: "x \<in> set ns" "cmp k (node_key sl x) = 0" for x
    proof (rule ccontr)
      assume "x \<noteq> b"
      have "\<not> ?P x" using flip [of "node_key sl x" k] v x k by auto
      then have "x \<notin> set (takeWhile ?P ns)" by (auto dest: set_takeWhileD)
      moreover have "x \<in> set (takeWhile ?P ns @ dropWhile ?P ns)" using x by simp
      ultimately have "x \<in> set B" using \<open>x \<noteq> b\<close> Cons by simp
      then have "cmp (node_key sl b) (node_key sl x) < 0" using so Cons by (simp add: sorted_wrt_append)
      moreover have "cmp k (node_key sl b) \<le> 0" using b(2) flip [of "node_key sl b" k] flip [of k "node_key sl b"] v b k by force
      ultimately show False
        using le_less_trans [of k "node_key sl b" "node_key sl x"] v b x k by auto
    qed
    then show ?thesis using Cons b by (auto simp: Equal_def c)
  qed
  then show ?thesis
    by (simp add: Contains_def FindGreaterOrEqual_result [OF inv k] flip: ks)
qed

end

interpretation bytes_order: key_order BytewiseCompare "\<lambda>k. True"
  by (rule bytewise.order.key_order_axioms)

subsection \<open>Properties\<close>

text \<open>A client inserts keys one by one and then walks through the list.\<close>

fun insert_all :: "heap \<Rightarrow> 'k list \<Rightarrow> arena \<times> 'k skiplist \<Rightarrow> (arena \<times> 'k skiplist) option" where
  "insert_all h [] st = Some st"
| "insert_all h (k # ks) (a, sl) = do { st \<leftarrow> SkipList_Insert h k a sl; insert_all h ks st }"

fun skip_keys :: "'k skiplist \<Rightarrow> nat \<Rightarrow> skip_iter \<Rightarrow> 'k list option" where
  "skip_keys sl 0 it = Some []"
| "skip_keys sl (Suc n) it =
     (if SkipIter_Valid it then do {
        it' \<leftarrow> SkipIter_Next sl it;
        ks \<leftarrow> skip_keys sl n it';
        Some (SkipIter_key sl it # ks)
      }
      else Some [])"

definition unequal :: "('k \<Rightarrow> 'k \<Rightarrow> int) \<Rightarrow> 'k list \<Rightarrow> bool" where
  "unequal cmp ks \<longleftrightarrow> sorted_wrt (\<lambda>x y. cmp x y \<noteq> 0) ks"

lemma mset_insert_key: "mset (insert_key cmp k ks) = add_mset k (mset ks)"
proof -
  have "mset ks = mset (takeWhile (\<lambda>x. cmp x k < 0) ks @ dropWhile (\<lambda>x. cmp x k < 0) ks)" by simp
  then show ?thesis unfolding insert_key_def mset_append by simp
qed

lemma set_insert_key: "set (insert_key cmp k ks) = insert k (set ks)"
  by (metis mset_insert_key set_mset_add_mset_insert set_mset_mset)

context key_order
begin

lemma holds_sorted: "holds_keys cmp valid sl ks \<Longrightarrow> sorted_wrt (\<lambda>x y. cmp x y < 0) ks"
  by (auto simp: holds_keys_def skip_inv_def sorted_wrt_map)

lemma insert_all_holds:
  assumes "holds_keys cmp valid sl ks0" and "\<forall>k \<in> set ks. valid k" and "unequal cmp (ks0 @ ks)"
  shows "\<exists>a' sl'. insert_all h ks (a, sl) = Some (a', sl') \<and> holds_keys cmp valid sl' (fold (insert_key cmp) ks ks0)"
  using assms
proof (induction ks arbitrary: a sl ks0)
  case (Cons k ks)
  have "\<forall>x \<in> set ks0. cmp x k \<noteq> 0" using Cons.prems(3) by (simp add: unequal_def sorted_wrt_append)
  then obtain a1 sl1 where one: "SkipList_Insert h k a sl = Some (a1, sl1)" "holds_keys cmp valid sl1 (insert_key cmp k ks0)"
    using Insert_holds [OF Cons.prems(1), of k h a] Cons.prems(2) by auto
  have valid0: "\<forall>x \<in> set ks0. valid x" using Cons.prems(1) by (auto simp: holds_keys_def skip_inv_def)
  have so: "sorted_wrt (\<lambda>x y. cmp x y < 0) (insert_key cmp k ks0)"
    by (rule holds_sorted [OF one(2)])
  have "sorted_wrt (\<lambda>x y. cmp x y \<noteq> 0) (insert_key cmp k ks0)"
    by (rule sorted_wrt_mono_rel [OF _ so]) auto
  then have "unequal cmp (insert_key cmp k ks0 @ ks)"
    using Cons.prems(3) by (auto simp: unequal_def sorted_wrt_append set_insert_key)
  then show ?case using Cons.IH [OF one(2)] Cons.prems(2) one(1) by auto
qed auto

lemma skip_keys_from:
  assumes "skip_inv cmp valid sl ns" and "i \<le> length ns" and "length ns - i \<le> n"
  shows "skip_keys sl n (first (drop i ns)) = Some (map (node_key sl) (drop i ns))"
  using assms(2,3)
proof (induction n arbitrary: i)
  case (Suc n)
  show ?case
  proof (cases "i < length ns")
    case True
    then have d: "drop i ns = ns ! i # drop (Suc i) ns" by (simp add: Cons_nth_drop_Suc)
    show ?thesis
      unfolding d using Suc.IH [of "Suc i"] Suc.prems True Next_position [OF assms(1) True]
      by (simp add: SkipIter_Valid_def SkipIter_key_def)
  qed (use Suc.prems in \<open>simp add: SkipIter_Valid_def\<close>)
qed simp

lemma holds_walk:
  assumes "holds_keys cmp valid sl ks" and "length ks \<le> n"
  shows "\<exists>it. SkipIter_SeekToFirst sl = Some it \<and> skip_keys sl n it = Some ks"
proof -
  obtain ns where inv: "skip_inv cmp valid sl ns" and ks: "map (node_key sl) ns = ks"
    using assms(1) by (auto simp: holds_keys_def)
  then show ?thesis using First_position [OF inv] skip_keys_from [OF inv, of 0 n] assms(2) by auto
qed

end

lemma mset_fold_insert: "mset (fold (insert_key cmp) ks ks0) = mset ks0 + mset ks"
  by (induction ks arbitrary: ks0) (simp_all add: mset_insert_key)

text \<open>
  Claim C18: the skip list implements an ordered set. Inserting any keys of which no two compare equal
  returns, whatever heights the random numbers give; afterwards walking from the first node delivers
  exactly the inserted keys in ascending order, as the insertion into a sorted list would, and
  \<^verbatim>\<open>Contains\<close> answers exactly for the keys that were inserted.
\<close>

theorem skiplist_implements_ordered_set:
  assumes "key_order cmp valid" and "\<forall>k \<in> set ks. valid k" and "unequal cmp ks" and "length ks \<le> n" and "valid k"
  shows "\<exists>a' sl' it. insert_all h ks (SkipList h cmp any_key a) = Some (a', sl') \<and>
    SkipIter_SeekToFirst sl' = Some it \<and> skip_keys sl' n it = Some (fold (insert_key cmp) ks []) \<and>
    sorted_wrt (\<lambda>x y. cmp x y < 0) (fold (insert_key cmp) ks []) \<and> mset (fold (insert_key cmp) ks []) = mset ks \<and>
    Contains sl' k = Some (\<exists>x \<in> set ks. cmp k x = 0)"
proof -
  let ?s = "fold (insert_key cmp) ks []"
  obtain a0 sl0 where new: "SkipList h cmp any_key a = (a0, sl0)" by fastforce
  have "holds_keys cmp valid sl0 []" using skip_inv_new [of cmp valid h any_key a] new by (auto simp: holds_keys_def)
  then obtain a' sl' where ins: "insert_all h ks (a0, sl0) = Some (a', sl')" "holds_keys cmp valid sl' ?s"
    using key_order.insert_all_holds [OF assms(1), of sl0 "[]" ks h a0] assms(2,3) by auto
  have ms: "mset ?s = mset ks" by (simp add: mset_fold_insert)
  then have "length ?s \<le> n" "set ?s = set ks" using assms(4) by (metis size_mset, metis set_mset_mset)
  then show ?thesis
    using key_order.holds_walk [OF assms(1) ins(2)] key_order.Contains_holds [OF assms(1) ins(2) assms(5)]
      key_order.holds_sorted [OF assms(1) ins(2)] ins(1) ms new by auto
qed

theorem skiplist_implements_ordered_set_witness:
  "\<exists>a' sl' it. insert_all bump_heap [[2], [1, 1], [1]] (SkipList bump_heap BytewiseCompare [] Arena) = Some (a', sl') \<and>
    SkipIter_SeekToFirst sl' = Some it \<and> skip_keys sl' 5 it = Some [[1], [1, 1], [2]] \<and> Contains sl' [1, 1] = Some True"
proof -
  have u: "unequal BytewiseCompare [[2], [1, 1], [1]]" and s: "fold (insert_key BytewiseCompare) [[2], [1, 1], [1]] [] = [[1], [1, 1], [2]]"
    by (simp_all add: unequal_def insert_key_def BytewiseCompare_def slice_compare_iffs)
  have "key_order BytewiseCompare (\<lambda>k. True)" by unfold_locales
  from skiplist_implements_ordered_set [where k = "[1, 1]" and n = 5 and h = bump_heap and a = Arena and any_key = "[]", OF this _ u]
  show ?thesis unfolding s by (auto simp: BytewiseCompare_def slice_compare_iffs)
qed

end
