(* ===== verification/LDB_MemTable.thy ===== *)
theory LDB_MemTable
  imports LDB_SkipListSpec LDB_DbFormat LDB_Options LDB_Iterator LDB_Status
begin

text \<open>
  \<^verbatim>\<open>db/memtable.h\<close> and \<^verbatim>\<open>db/memtable.cc\<close>. A key of the skip list is the buffer with the encoded entry; the
  pointer to a buffer and its bytes are not told apart, since buffers never change.
\<close>

subsection \<open>Encoded entries\<close>

text \<open>
  \<^verbatim>\<open>GetLengthPrefixedSlice (const char *)\<close>: the slice behind a length, and the memory behind the slice.
  The length is looked for in the first five bytes only; without one there is no slice.
\<close>

definition mem_slice :: "bytes \<Rightarrow> (bytes \<times> bytes) option" where
  "mem_slice data =
     (case GetVarint32Ptr (take 5 data) of
        None \<Rightarrow> None
      | Some (len, q) \<Rightarrow>
          let p = drop (length (take 5 data) - length q) data
          in Some (take (unat len) p, drop (unat len) p))"

definition KeyComparator :: "(bytes \<Rightarrow> bytes \<Rightarrow> int) \<Rightarrow> bytes \<Rightarrow> bytes \<Rightarrow> int" where
  "KeyComparator user_Compare aptr bptr =
     (let a = fst (the (mem_slice aptr));
          b = fst (the (mem_slice bptr))
      in InternalKey_Compare user_Compare a b)"

definition EncodeKey :: "bytes \<Rightarrow> bytes" where
  "EncodeKey target = PutVarint32 [] (word_of_nat (length target)) @ target"

subsection \<open>The memtable\<close>

record memtable =
  mt_comparator :: comparator_class
  mt_refs :: int
  mt_arena :: arena
  mt_table :: "bytes skiplist"

definition MemTable :: "heap \<Rightarrow> comparator_class \<Rightarrow> memtable" where
  "MemTable h cmp =
     (let (a, sl) = SkipList h (KeyComparator (cmp_Compare cmp)) [] Arena
      in \<lparr>mt_comparator = cmp, mt_refs = 0, mt_arena = a, mt_table = sl\<rparr>)"

definition MemTable_Ref :: "memtable \<Rightarrow> memtable" where
  "MemTable_Ref m = m\<lparr>mt_refs := mt_refs m + 1\<rparr>"

text \<open>\<^verbatim>\<open>Unref\<close> deletes the table with its last reference.\<close>

definition MemTable_Unref :: "memtable \<Rightarrow> memtable option" where
  "MemTable_Unref m = (let m = m\<lparr>mt_refs := mt_refs m - 1\<rparr> in if mt_refs m \<le> 0 then None else Some m)"

definition ApproximateMemoryUsage :: "memtable \<Rightarrow> nat" where
  "ApproximateMemoryUsage m = MemoryUsage (mt_arena m)"

definition MemTable_Add ::
    "heap \<Rightarrow> sequence_number \<Rightarrow> value_type \<Rightarrow> bytes \<Rightarrow> bytes \<Rightarrow> memtable \<Rightarrow> memtable option" where
  "MemTable_Add h s type key value m =
     (let key_size = length key;
          val_size = length value;
          internal_key_size = key_size + 8;
          encoded_len = VarintLength (word_of_nat internal_key_size) + internal_key_size +
            VarintLength (word_of_nat val_size) + val_size;
          (ptr, a) = Allocate h encoded_len (mt_arena m);
          buf = EncodeVarint32 (word_of_nat internal_key_size);
          buf = buf @ key;
          buf = buf @ EncodeFixed64 (push_bit 8 s OR ucast type);
          buf = buf @ EncodeVarint32 (word_of_nat val_size);
          buf = buf @ value
      in do {
        (a, sl) \<leftarrow> SkipList_Insert h buf a (mt_table m);
        Some (m\<lparr>mt_arena := a, mt_table := sl\<rparr>)
      })"

text \<open>The three answers of \<^verbatim>\<open>Get\<close>: a value, a deletion, or nothing about the key.\<close>

datatype lookup = Found bytes | Deleted | Missing

definition MemTable_Get :: "memtable \<Rightarrow> lookup_key \<Rightarrow> lookup option" where
  "MemTable_Get m key = do {
     let memkey = memtable_key key in do {
     iter \<leftarrow> SkipIter_Seek (mt_table m) memkey;
     if SkipIter_Valid iter then
       let entry = SkipIter_key (mt_table m) iter
       in do {
         (key_length, q) \<leftarrow> GetVarint32Ptr (take 5 entry);
         let key_ptr = drop (length (take 5 entry) - length q) entry
         in if cmp_Compare (mt_comparator m) (take (unat (key_length - 8)) key_ptr) (lookup_user_key key) = 0 then
              let tag = DecodeFixed64 (drop (unat key_length - 8) key_ptr);
                  type = ucast (tag AND 0xff) :: value_type
              in if type = kTypeValue then
                   map_option (\<lambda>(v, rest). Found v) (mem_slice (drop (unat key_length) key_ptr))
                 else if type = kTypeDeletion then Some Deleted
                 else Some Missing
            else Some Missing
       }
     else Some Missing
   }}"

subsection \<open>The iterator\<close>

definition MemTableIterator_class :: "memtable \<Rightarrow> skip_iter iterator_class" where
  "MemTableIterator_class m =
     \<lparr>it_Valid = SkipIter_Valid,
      it_SeekToFirst = (\<lambda>it. the (SkipIter_SeekToFirst (mt_table m))),
      it_SeekToLast = (\<lambda>it. the (SkipIter_SeekToLast (mt_table m))),
      it_Seek = (\<lambda>it k. the (SkipIter_Seek (mt_table m) (EncodeKey k))),
      it_Next = (\<lambda>it. the (SkipIter_Next (mt_table m) it)),
      it_Prev = (\<lambda>it. the (SkipIter_Prev (mt_table m) it)),
      it_key = (\<lambda>it. fst (the (mem_slice (SkipIter_key (mt_table m) it)))),
      it_value = (\<lambda>it. let (key_slice, rest) = the (mem_slice (SkipIter_key (mt_table m) it))
                       in fst (the (mem_slice rest))),
      it_status = (\<lambda>it. Status_OK)\<rparr>"

definition MemTable_NewIterator :: skip_iter where
  "MemTable_NewIterator = SkipIter"

end
