(* ===== verification/LDB_MemTableSpec.thy ===== *)
theory LDB_MemTableSpec
  imports LDB_MemTable LDB_WriteBatch
begin

text \<open>
  What a memtable holds and what its operations do: the entries are in the order of internal keys,
  adding inserts one, the iterator walks over them, and a lookup finds the newest entry of a user key that
  is not newer than the sequence number of the lookup.
\<close>

subsection \<open>The entries of a memtable\<close>

definition mem_entry :: "entry \<Rightarrow> bytes" where
  "mem_entry e = EncodeVarint32 (word_of_nat (length (fst e))) @ fst e @ EncodeVarint32 (word_of_nat (length (snd e))) @ snd e"

definition mem_key_ok :: "bytes \<Rightarrow> bool" where
  "mem_key_ok b \<longleftrightarrow> (\<exists>ik rest. b = EncodeVarint32 (word_of_nat (length ik)) @ ik @ rest \<and> 8 \<le> length ik \<and> length ik < 2 ^ 32)"

lemma GetVarint32Ptr_take:
  "GetVarint32Ptr (take 5 (EncodeVarint32 w @ rest)) = Some (w, take (5 - length (EncodeVarint32 w)) rest)"
  using length_EncodeVarint(2) [of w] by (simp add: EncodeVarint_roundtrips(3))

lemma mem_slice_encoded:
  assumes "length b < 2 ^ 32"
  shows "mem_slice (EncodeVarint32 (word_of_nat (length b)) @ b @ rest) = Some (b, rest)"
proof -
  let ?e = "EncodeVarint32 (word_of_nat (length b))"
  have len: "length ?e \<le> 5" using length_EncodeVarint(2) [of "word_of_nat (length b)"] by simp
  have "length (take 5 (?e @ b @ rest)) - length (take (5 - length ?e) (b @ rest)) = length ?e"
    using len by simp
  moreover have "unat (word_of_nat (length b) :: u32) = length b" using assms by simp
  ultimately show ?thesis
    unfolding mem_slice_def GetVarint32Ptr_take by (simp add: Let_def)
qed


subsection \<open>The order of entries\<close>

definition entry_ok :: "entry \<Rightarrow> bool" where
  "entry_ok e \<longleftrightarrow> 8 \<le> length (fst e) \<and> length (fst e) < 2 ^ 32 \<and> length (snd e) < 2 ^ 32"

lemma mem_entry_ok: "entry_ok e \<Longrightarrow> mem_key_ok (mem_entry e)"
  unfolding mem_key_ok_def mem_entry_def entry_ok_def by blast

lemma KeyComparator_encoded:
  assumes "length a < 2 ^ 32" and "length b < 2 ^ 32"
  shows "KeyComparator cmp (EncodeVarint32 (word_of_nat (length a)) @ a @ r) (EncodeVarint32 (word_of_nat (length b)) @ b @ r') =
    InternalKey_Compare cmp a b"
  by (simp add: KeyComparator_def mem_slice_encoded [OF assms(1)] mem_slice_encoded [OF assms(2)])

lemma KeyComparator_entry:
  "entry_ok e \<Longrightarrow> entry_ok e' \<Longrightarrow> KeyComparator cmp (mem_entry e) (mem_entry e') = InternalKey_Compare cmp (fst e) (fst e')"
  by (simp add: mem_entry_def entry_ok_def KeyComparator_encoded)

lemma mem_slice_entry:
  assumes "entry_ok e"
  shows "\<exists>rest. mem_slice (mem_entry e) = Some (fst e, rest) \<and> mem_slice rest = Some (snd e, [])"
  using assms mem_slice_encoded [of "snd e" "[]"] by (simp add: entry_ok_def mem_entry_def mem_slice_encoded)

lemma EncodeKey_eq: "EncodeKey k = EncodeVarint32 (word_of_nat (length k)) @ k @ []"
  by (simp add: EncodeKey_def PutVarint32_def)

lemma KeyComparator_target:
  assumes "entry_ok e" and "length k < 2 ^ 32"
  shows "KeyComparator cmp (mem_entry e) (EncodeKey k) = InternalKey_Compare cmp (fst e) k"
  unfolding EncodeKey_eq mem_entry_def using assms by (intro KeyComparator_encoded) (simp_all add: entry_ok_def)

context user_comparator
begin

lemma mem_order: "key_order (KeyComparator Compare) mem_key_ok"
proof
  fix a b assume "mem_key_ok a" "mem_key_ok b"
  then show "KeyComparator Compare a b < 0 \<longleftrightarrow> 0 < KeyComparator Compare b a"
    by (auto simp: mem_key_ok_def KeyComparator_encoded icmp_flip [THEN iffD1] icmp_flip [THEN iffD2])
next
  fix a b c assume "mem_key_ok a" "mem_key_ok b" "mem_key_ok c"
    and "KeyComparator Compare a b \<le> 0" "KeyComparator Compare b c < 0"
  then show "KeyComparator Compare a c < 0"
    by (auto simp: mem_key_ok_def KeyComparator_encoded intro: internal.cmp_le_less_trans)
qed

end

interpretation mem_keys: key_order "KeyComparator BytewiseCompare" mem_key_ok
  by (rule bytewise.mem_order)

subsection \<open>What a memtable holds\<close>

definition mem_holds :: "comparator_class \<Rightarrow> memtable \<Rightarrow> entry list \<Rightarrow> bool" where
  "mem_holds c m es \<longleftrightarrow> mt_comparator m = c \<and> (\<forall>e \<in> set es. entry_ok e) \<and>
     holds_keys (KeyComparator (cmp_Compare c)) mem_key_ok (mt_table m) (map mem_entry es)"

definition insert_entry :: "(bytes \<Rightarrow> bytes \<Rightarrow> int) \<Rightarrow> entry \<Rightarrow> entry list \<Rightarrow> entry list" where
  "insert_entry cmp e es =
     takeWhile (\<lambda>x. InternalKey_Compare cmp (fst x) (fst e) < 0) es @ e #
     dropWhile (\<lambda>x. InternalKey_Compare cmp (fst x) (fst e) < 0) es"

lemma set_insert_entry: "set (insert_entry cmp e es) = insert e (set es)"
proof -
  have "insert_entry cmp e es = insert_key (\<lambda>x y. InternalKey_Compare cmp (fst x) (fst y)) e es"
    by (simp add: insert_entry_def insert_key_def)
  then show ?thesis by (simp add: set_insert_key)
qed

lemma insert_entry_encoded:
  assumes "\<forall>x \<in> set es. entry_ok x" and "entry_ok e"
  shows "insert_key (KeyComparator cmp) (mem_entry e) (map mem_entry es) = map mem_entry (insert_entry cmp e es)"
proof -
  let ?P = "\<lambda>x. KeyComparator cmp (mem_entry x) (mem_entry e) < 0"
  let ?Q = "\<lambda>x. InternalKey_Compare cmp (fst x) (fst e) < 0"
  have "takeWhile ?P es = takeWhile ?Q es" "dropWhile ?P es = dropWhile ?Q es"
    using assms by (auto simp: KeyComparator_entry intro!: takeWhile_cong dropWhile_cong)
  then show ?thesis by (simp add: insert_key_def insert_entry_def takeWhile_map dropWhile_map comp_def)
qed

lemma MemTable_holds: "mem_holds c (MemTable h c) []"
  using skip_inv_new [of "KeyComparator (cmp_Compare c)" mem_key_ok h "[]" Arena]
  by (auto simp: mem_holds_def MemTable_def holds_keys_def split: prod.splits)

text \<open>The entry that \<^verbatim>\<open>Add\<close> writes.\<close>

lemma Add_buffer:
  "MemTable_Add h s t k v m = do {
     (a, sl) \<leftarrow> SkipList_Insert h (mem_entry (InternalKey k s t, v))
       (snd (Allocate h (VarintLength (word_of_nat (length k + 8)) + (length k + 8) + VarintLength (word_of_nat (length v)) + length v)
         (mt_arena m))) (mt_table m);
     Some (m\<lparr>mt_arena := a, mt_table := sl\<rparr>)
   }"
  by (simp add: MemTable_Add_def mem_entry_def InternalKey_eq PackSequenceAndType_def Let_def split: prod.splits)

lemma user_comparator_holds_sorted:
  assumes "user_comparator (cmp_Compare c) S U" and "mem_holds c m es"
  shows "sorted_wrt (\<lambda>x y. InternalKey_Compare (cmp_Compare c) (fst x) (fst y) < 0) es"
proof -
  have "sorted_wrt (\<lambda>x y. KeyComparator (cmp_Compare c) (mem_entry x) (mem_entry y) < 0) es"
    using key_order.holds_sorted [OF user_comparator.mem_order [OF assms(1)], of "mt_table m" "map mem_entry es"] assms(2)
    by (simp add: mem_holds_def sorted_wrt_map)
  then show ?thesis
    by (rule sorted_wrt_mono_rel [rotated]) (use assms(2) in \<open>auto simp: mem_holds_def KeyComparator_entry\<close>)
qed

lemma Add_holds:
  assumes "user_comparator (cmp_Compare c) S U" and holds: "mem_holds c m es" and "entry_ok (InternalKey k s t, v)"
    and "\<forall>e \<in> set es. InternalKey_Compare (cmp_Compare c) (fst e) (InternalKey k s t) \<noteq> 0"
  shows "\<exists>m'. MemTable_Add h s t k v m = Some m' \<and> mem_holds c m' (insert_entry (cmp_Compare c) (InternalKey k s t, v) es)"
proof -
  let ?e = "(InternalKey k s t, v)" and ?cmp = "KeyComparator (cmp_Compare c)"
  have fresh: "\<forall>x \<in> set (map mem_entry es). ?cmp x (mem_entry ?e) \<noteq> 0"
    using assms(3,4) holds by (auto simp: mem_holds_def KeyComparator_entry)
  have keys: "holds_keys ?cmp mem_key_ok (mt_table m) (map mem_entry es)" and es: "\<forall>e \<in> set es. entry_ok e"
    using holds by (simp_all add: mem_holds_def)
  obtain a sl where "SkipList_Insert h (mem_entry ?e)
       (snd (Allocate h (VarintLength (word_of_nat (length k + 8)) + (length k + 8) + VarintLength (word_of_nat (length v)) + length v)
         (mt_arena m))) (mt_table m) = Some (a, sl)"
      "holds_keys ?cmp mem_key_ok sl (insert_key ?cmp (mem_entry ?e) (map mem_entry es))"
    using key_order.Insert_holds [OF user_comparator.mem_order [OF assms(1)] keys mem_entry_ok [OF assms(3)] fresh] by blast
  then show ?thesis
    using holds es assms(3) unfolding Add_buffer insert_entry_encoded [OF es assms(3)]
    by (auto simp: mem_holds_def set_insert_entry)
qed

subsection \<open>The iterator walks over the entries\<close>

definition mem_stands :: "comparator_class \<Rightarrow> memtable \<Rightarrow> entry list \<Rightarrow> skip_iter \<Rightarrow> nat \<Rightarrow> bool" where
  "mem_stands c m es it i \<longleftrightarrow> mt_comparator m = c \<and> (\<forall>e \<in> set es. entry_ok e) \<and> i \<le> length es \<and>
     (\<exists>ns. skip_inv (KeyComparator (cmp_Compare c)) mem_key_ok (mt_table m) ns \<and>
        map (node_key (mt_table m)) ns = map mem_entry es \<and> it = first (drop i ns))"

lemma mem_holds_nodes:
  assumes "mem_holds c m es"
  obtains ns where "skip_inv (KeyComparator (cmp_Compare c)) mem_key_ok (mt_table m) ns"
    and "map (node_key (mt_table m)) ns = map mem_entry es" and "length ns = length es"
    and "\<forall>e \<in> set es. entry_ok e"
  using assms by (metis mem_holds_def holds_keys_def length_map)

lemma first_drop: "i < length xs \<Longrightarrow> first (drop i xs) = Some (xs ! i)"
  by (simp flip: Cons_nth_drop_Suc)

lemma Seek_entry:
  assumes c: "user_comparator (cmp_Compare c) S U" and k: "8 \<le> length k" "length k < 2 ^ 32"
    and inv: "skip_inv (KeyComparator (cmp_Compare c)) mem_key_ok (mt_table m) ns"
    and ns: "map (node_key (mt_table m)) ns = map mem_entry es" and es: "\<forall>e \<in> set es. entry_ok e"
  shows "SkipIter_Seek (mt_table m) (EncodeKey k) = Some (first (drop (first_ge (InternalKey_Compare (cmp_Compare c)) es k) ns))"
proof -
  let ?lt = "\<lambda>b. KeyComparator (cmp_Compare c) b (EncodeKey k) < 0"
  have "mem_key_ok (EncodeKey k)" using k unfolding mem_key_ok_def EncodeKey_eq by blast
  note seek = key_order.Seek_position [OF user_comparator.mem_order [OF c] inv this]
  have "length (takeWhile (\<lambda>x. ?lt (node_key (mt_table m) x)) ns) = length (takeWhile ?lt (map mem_entry es))"
    by (simp add: takeWhile_map comp_def flip: ns)
  also have "\<dots> = length (takeWhile (\<lambda>e. ?lt (mem_entry e)) es)" by (simp add: takeWhile_map comp_def)
  also have "takeWhile (\<lambda>e. ?lt (mem_entry e)) es = takeWhile (\<lambda>e. InternalKey_Compare (cmp_Compare c) (fst e) k < 0) es"
    using es k(2) by (intro takeWhile_cong) (simp_all add: KeyComparator_target)
  finally show ?thesis unfolding seek dropWhile_eq_drop first_ge_def by simp
qed

lemma mem_stands_nodes:
  assumes "mem_stands c m es it i"
  obtains ns where "skip_inv (KeyComparator (cmp_Compare c)) mem_key_ok (mt_table m) ns"
    and "map (node_key (mt_table m)) ns = map mem_entry es" and "length ns = length es"
    and "it = first (drop i ns)" and "i \<le> length es"
  using assms unfolding mem_stands_def by (metis length_map)

lemma mem_stands_entry:
  assumes "mem_stands c m es it i" and "i < length es"
  shows "entry_ok (es ! i)" and "SkipIter_key (mt_table m) it = mem_entry (es ! i)"
proof -
  obtain ns where ns: "map (node_key (mt_table m)) ns = map mem_entry es" "length ns = length es" "it = first (drop i ns)"
    by (rule mem_stands_nodes [OF assms(1)])
  then have "node_key (mt_table m) (ns ! i) = mem_entry (es ! i)" using assms(2) by (metis nth_map)
  then show "SkipIter_key (mt_table m) it = mem_entry (es ! i)" using ns assms(2) by (simp add: SkipIter_key_def first_drop)
  show "entry_ok (es ! i)" using assms by (simp add: mem_stands_def)
qed

lemma mem_iterator:
  assumes "user_comparator (cmp_Compare c) S U"
  shows "entry_iterator (MemTableIterator_class m) (InternalKey_Compare (cmp_Compare c)) es (mem_stands c m es)
    (\<lambda>k. 8 \<le> length k \<and> length k < 2 ^ 32)"
proof -
  note order = user_comparator.mem_order [OF assms]
  let ?inv = "skip_inv (KeyComparator (cmp_Compare c)) mem_key_ok (mt_table m)"
  have stands: "mem_stands c m es (first (drop j ns)) j"
    if "mem_stands c m es it i" "?inv ns" "map (node_key (mt_table m)) ns = map mem_entry es" "j \<le> length es" for it i ns j
    using that unfolding mem_stands_def by blast
  show ?thesis
  proof
    fix it i assume st: "mem_stands c m es it i"
    then show "i \<le> length es" by (simp add: mem_stands_def)
    obtain ns where inv: "?inv ns" and ns: "map (node_key (mt_table m)) ns = map mem_entry es" "length ns = length es"
      and it: "it = first (drop i ns)" and i: "i \<le> length es" by (rule mem_stands_nodes [OF st])
    note to = stands [OF st inv ns(1)]
    show "it_Valid (MemTableIterator_class m) it = (i < length es)"
      using it i ns(2) by (cases "i < length es") (simp_all add: MemTableIterator_class_def SkipIter_Valid_def first_drop)
    show "ok (it_status (MemTableIterator_class m) it)" by (simp add: MemTableIterator_class_def)
    show "mem_stands c m es (it_SeekToFirst (MemTableIterator_class m) it) 0"
      using to [of 0] by (simp add: MemTableIterator_class_def key_order.First_position [OF order inv])
    have "(if ns = [] then None else Some (last ns)) = first (drop (length es - 1) ns)"
      using first_drop [of "length ns - 1" ns] last_conv_nth [of ns] by (cases "ns = []") (simp_all flip: ns(2))
    then show "mem_stands c m es (it_SeekToLast (MemTableIterator_class m) it) (length es - 1)"
      using to [of "length es - 1"] by (simp add: MemTableIterator_class_def key_order.Last_position [OF order inv])
    show "mem_stands c m es (it_Seek (MemTableIterator_class m) it target) (first_ge (InternalKey_Compare (cmp_Compare c)) es target)"
      if "8 \<le> length target \<and> length target < 2 ^ 32" for target
      using to [OF first_ge_le] Seek_entry [OF assms _ _ inv ns(1)] that st
      by (simp add: MemTableIterator_class_def mem_stands_def)
    assume lt: "i < length es"
    obtain rest where sl: "mem_slice (mem_entry (es ! i)) = Some (fst (es ! i), rest)" "mem_slice rest = Some (snd (es ! i), [])"
      using mem_slice_entry [OF mem_stands_entry(1) [OF st lt]] by blast
    show "it_key (MemTableIterator_class m) it = fst (es ! i)" "it_value (MemTableIterator_class m) it = snd (es ! i)"
      using mem_stands_entry(2) [OF st lt] sl by (simp_all add: MemTableIterator_class_def)
    have it: "it = Some (ns ! i)" using it lt ns(2) by (simp add: first_drop)
    show "mem_stands c m es (it_Next (MemTableIterator_class m) it) (Suc i)"
      using to [of "Suc i"] lt ns(2) key_order.Next_position [OF order inv, of i] by (simp add: MemTableIterator_class_def it)
    show "mem_stands c m es (it_Prev (MemTableIterator_class m) it) (if i = 0 then length es else i - 1)"
      using to [of "if i = 0 then length es else i - 1"] lt ns(2) key_order.Prev_position [OF order inv, of i]
      by (cases "i = 0") (simp_all add: MemTableIterator_class_def it first_drop)
  qed
qed

lemma uc_bytewise: "user_comparator (cmp_Compare BytewiseComparator) FindShortestSeparator FindShortSuccessor"
  by (simp add: BytewiseComparator_def bytewise.user_comparator_axioms)

interpretation mem_iter: entry_iterator "MemTableIterator_class m" "InternalKey_Compare (cmp_Compare BytewiseComparator)" es
    "mem_stands BytewiseComparator m es" "\<lambda>k. 8 \<le> length k \<and> length k < 2 ^ 32"
  for m es
  by (rule mem_iterator [OF uc_bytewise])

subsection \<open>Looking up a key\<close>

definition entry_answer :: "(bytes \<Rightarrow> bytes \<Rightarrow> int) \<Rightarrow> bytes \<Rightarrow> entry \<Rightarrow> lookup" where
  "entry_answer cmp k e =
     (if cmp (ExtractUserKey (fst e)) k = 0 then
        if ExtractValueType (fst e) = kTypeValue then Found (snd e)
        else if ExtractValueType (fst e) = kTypeDeletion then Deleted else Missing
      else Missing)"

lemma memtable_key_EncodeKey: "memtable_key (LookupKey k s) = EncodeKey (internal_key (LookupKey k s))"
  unfolding EncodeKey_eq LookupKey_parts by (simp add: InternalKey_eq)

text \<open>What \<^verbatim>\<open>Get\<close> reads from the entry it found.\<close>

lemma read_entry:
  assumes "entry_ok e"
  obtains q where "GetVarint32Ptr (take 5 (mem_entry e)) = Some (word_of_nat (length (fst e)), q)"
    and "drop (length (take 5 (mem_entry e)) - length q) (mem_entry e) =
      fst e @ EncodeVarint32 (word_of_nat (length (snd e))) @ snd e @ []"
proof -
  let ?n = "EncodeVarint32 (word_of_nat (length (fst e)))" and ?r = "fst e @ EncodeVarint32 (word_of_nat (length (snd e))) @ snd e"
  have "length ?n \<le> 5" using length_EncodeVarint(2) [of "word_of_nat (length (fst e))"] by simp
  then have "length (take 5 (mem_entry e)) - length (take (5 - length ?n) ?r) = length ?n"
    by (simp add: mem_entry_def)
  then show ?thesis using that [OF GetVarint32Ptr_take [of "word_of_nat (length (fst e))" ?r, folded mem_entry_def]]
    by (simp add: mem_entry_def)
qed

lemma Get_result:
  fixes s :: sequence_number
  assumes c: "user_comparator (cmp_Compare c) S U" and holds: "mem_holds c m es" and k: "length k + 8 < 2 ^ 32"
  defines "i \<equiv> first_ge (InternalKey_Compare (cmp_Compare c)) es (InternalKey k s kValueTypeForSeek)"
  shows "MemTable_Get m (LookupKey k s) =
    Some (if i < length es then entry_answer (cmp_Compare c) k (es ! i) else Missing)"
proof -
  obtain ns where inv: "skip_inv (KeyComparator (cmp_Compare c)) mem_key_ok (mt_table m) ns"
    and ns: "map (node_key (mt_table m)) ns = map mem_entry es" "length ns = length es" and es: "\<forall>e \<in> set es. entry_ok e"
    by (rule mem_holds_nodes [OF holds])
  have "8 \<le> length (InternalKey k s kValueTypeForSeek)" "length (InternalKey k s kValueTypeForSeek) < 2 ^ 32"
    using k by (simp_all add: InternalKey_eq)
  note seek = Seek_entry [OF c this inv ns(1) es, folded i_def]
  show ?thesis
  proof (cases "i < length es")
    case False
    then show ?thesis
      using ns(2) by (simp add: MemTable_Get_def memtable_key_EncodeKey LookupKey_parts(1) seek SkipIter_Valid_def)
  next
    case True
    then have e: "entry_ok (es ! i)" and x: "node_key (mt_table m) (ns ! i) = mem_entry (es ! i)"
      using es ns by (simp, metis nth_map)
    have len: "unat (word_of_nat (length (fst (es ! i))) :: u32) = length (fst (es ! i))" "8 \<le> length (fst (es ! i))"
      "length (snd (es ! i)) < 2 ^ 32"
      using e by (simp_all add: entry_ok_def)
    have len8: "unat (word_of_nat (length (fst (es ! i))) - 8 :: u32) = length (fst (es ! i)) - 8"
      using len by (simp add: unat_sub word_le_nat_alt)
    obtain q where q: "GetVarint32Ptr (take 5 (mem_entry (es ! i))) = Some (word_of_nat (length (fst (es ! i))), q)"
      "drop (length (take 5 (mem_entry (es ! i))) - length q) (mem_entry (es ! i)) =
        fst (es ! i) @ EncodeVarint32 (word_of_nat (length (snd (es ! i)))) @ snd (es ! i) @ []"
      by (rule read_entry [OF e])
    have type: "DecodeFixed64 (drop (length (fst (es ! i)) - 8) (fst (es ! i)) @ r) = DecodeFixed64 (drop (length (fst (es ! i)) - 8) (fst (es ! i)))" for r
      using len(2) by (simp add: DecodeFixed64_def DecodeFixed32_append)
    show ?thesis
      using True ns(2) len len8 holds
      by (simp add: mem_holds_def MemTable_Get_def memtable_key_EncodeKey LookupKey_parts seek SkipIter_Valid_def SkipIter_key_def first_drop
          x q(1) q(2) [unfolded length_take] Let_def entry_answer_def ExtractUserKey_def ExtractValueType_def type mem_slice_encoded [OF len(3), of "[]", simplified])
  qed
qed

subsection \<open>The newest write\<close>

text \<open>
  A write is a sequence number, a type, a user key and a value. What a reader at sequence number \<open>s\<close> is
  to see of a key: the last of the writes to it that are not newer.
\<close>

type_synonym mem_write = "sequence_number \<times> value_type \<times> bytes \<times> bytes"

definition mem_lookup :: "(bytes \<Rightarrow> bytes \<Rightarrow> int) \<Rightarrow> mem_write list \<Rightarrow> bytes \<Rightarrow> sequence_number \<Rightarrow> lookup" where
  "mem_lookup cmp ws k s =
     (case filter (\<lambda>(s', t, k', v). cmp k' k = 0 \<and> s' \<le> s) (rev ws) of
        [] \<Rightarrow> Missing
      | (s', t, k', v) # older \<Rightarrow> if t = kTypeValue then Found v else Deleted)"

fun mem_add_all :: "heap \<Rightarrow> mem_write list \<Rightarrow> memtable \<Rightarrow> memtable option" where
  "mem_add_all h [] m = Some m"
| "mem_add_all h ((s, t, k, v) # ws) m = do { m \<leftarrow> MemTable_Add h s t k v m; mem_add_all h ws m }"

fun write_ok :: "mem_write \<Rightarrow> bool" where
  "write_ok (s, t, k, v) \<longleftrightarrow> s \<le> kMaxSequenceNumber \<and> t \<in> {kTypeDeletion, kTypeValue} \<and> length k + 8 < 2 ^ 32 \<and> length v < 2 ^ 32"

fun write_entry :: "mem_write \<Rightarrow> entry" where
  "write_entry (s, t, k, v) = (InternalKey k s t, v)"

lemma write_entry_ok: "write_ok w \<Longrightarrow> entry_ok (write_entry w)"
  by (cases w) (auto simp: entry_ok_def InternalKey_eq)

lemma write_entry_unequal:
  assumes "write_ok w" and "write_ok w'" and "fst w \<noteq> fst w'"
  shows "InternalKey_Compare cmp (fst (write_entry w)) (fst (write_entry w')) \<noteq> 0"
proof -
  obtain s t k v s' t' k' v' where w: "w = (s, t, k, v)" "w' = (s', t', k', v')" by (metis prod_cases4)
  then have "PackSequenceAndType s t \<noteq> PackSequenceAndType s' t'"
    using assms unpack(1) [of s t] unpack(1) [of s' t'] by (auto simp: take_bit_sequence)
  then show ?thesis by (auto simp: w InternalKey_eq not_less_iff_gr_or_eq)
qed

lemma add_all_holds:
  assumes "user_comparator (cmp_Compare c) S U" and "mem_holds c m es" and "set es = write_entry ` set us"
    and "sorted_wrt (\<lambda>a b. fst a < fst b) (us @ ws)" and "\<forall>w \<in> set (us @ ws). write_ok w"
  shows "\<exists>m' es'. mem_add_all h ws m = Some m' \<and> mem_holds c m' es' \<and> set es' = write_entry ` set (us @ ws)"
  using assms(2-)
proof (induction ws arbitrary: m es us)
  case (Cons w ws)
  obtain s t k v where w: "w = (s, t, k, v)" by (metis prod_cases4)
  have "InternalKey_Compare (cmp_Compare c) (fst e) (InternalKey k s t) \<noteq> 0" if e: "e \<in> set es" for e
  proof -
    obtain u where u: "u \<in> set us" "e = write_entry u" using e unfolding Cons.prems(2) by blast
    then have "fst u \<noteq> fst w" using Cons.prems(3) by (auto simp: sorted_wrt_append)
    then show ?thesis using write_entry_unequal [of u w "cmp_Compare c"] u Cons.prems(4) by (simp add: w)
  qed
  moreover have "entry_ok (InternalKey k s t, v)" using write_entry_ok [of w] Cons.prems(4) by (simp add: w)
  ultimately obtain m1 where m1: "MemTable_Add h s t k v m = Some m1"
      "mem_holds c m1 (insert_entry (cmp_Compare c) (InternalKey k s t, v) es)"
    using Add_holds [OF assms(1) Cons.prems(1), of k s t v h] by blast
  have "set (insert_entry (cmp_Compare c) (InternalKey k s t, v) es) = write_entry ` set (us @ [w])"
    using Cons.prems(2) by (simp add: set_insert_entry w)
  then show ?case using Cons.IH [OF m1(2), of "us @ [w]"] Cons.prems(3,4) m1(1) by (simp add: w)
qed auto

lemma newest_first:
  assumes "sorted_wrt (\<lambda>a b. fst b < fst a) xs" and "w \<in> set xs" and "\<forall>r \<in> set xs. fst r \<le> (fst w :: sequence_number)"
  shows "\<exists>ys. xs = w # ys"
  using assms by (cases xs) auto

lemma before_lookup:
  assumes "s \<le> kMaxSequenceNumber" and "write_ok (s', t, k', v)"
  shows "InternalKey_Compare cmp (fst (write_entry (s', t, k', v))) (InternalKey k s kValueTypeForSeek) < 0 \<longleftrightarrow>
    cmp k' k < 0 \<or> cmp k' k = 0 \<and> s < s'"
  using assms by (auto simp: InternalKey_Compare_keys kValueTypeForSeek_def kTypeDeletion_def kTypeValue_def)

lemma behind_lookup:
  assumes s: "s \<le> kMaxSequenceNumber" and es: "set es = write_entry ` set ws" and ok: "\<forall>w \<in> set ws. write_ok w"
    and r: "(s', t, k', v) \<in> set ws" "cmp k' k = 0" "s' \<le> s"
  shows "\<exists>j < length es. first_ge (InternalKey_Compare cmp) es (InternalKey k s kValueTypeForSeek) \<le> j \<and>
    es ! j = write_entry (s', t, k', v)"
proof -
  let ?L = "InternalKey k s kValueTypeForSeek"
  have "write_entry (s', t, k', v) \<in> set es" using r(1) unfolding es by (rule imageI)
  then obtain j where j: "j < length es" "es ! j = write_entry (s', t, k', v)" unfolding in_set_conv_nth by blast
  moreover have "\<not> InternalKey_Compare cmp (fst (es ! j)) ?L < 0"
    unfolding j(2) before_lookup [OF s bspec [OF ok r(1)]] using r by auto
  ultimately show ?thesis using first_ge_before [of j "InternalKey_Compare cmp" es ?L] by (auto intro: leI)
qed

lemma first_ge_lookup:
  fixes k :: bytes
  assumes c: "user_comparator cmp S U" and sorted: "sorted_wrt (\<lambda>x y. InternalKey_Compare cmp (fst x) (fst y) < 0) es"
    and es: "set es = write_entry ` set ws" and ws: "sorted_wrt (\<lambda>a b. fst a < fst b) ws" "\<forall>w \<in> set ws. write_ok w"
    and s: "s \<le> kMaxSequenceNumber"
  defines "i \<equiv> first_ge (InternalKey_Compare cmp) es (InternalKey k s kValueTypeForSeek)"
  shows "(if i < length es then entry_answer cmp k (es ! i) else Missing) = mem_lookup cmp ws k s"
proof -
  let ?L = "InternalKey k s kValueTypeForSeek" and ?P = "\<lambda>(s', t, k', v). cmp k' k = 0 \<and> s' \<le> s"
  have seen: "\<exists>j < length es. i \<le> j \<and> es ! j = write_entry (s', t, k', v)"
    if "(s', t, k', v) \<in> set ws" "cmp k' k = 0" "s' \<le> s" for s' t k' v
    unfolding i_def by (rule behind_lookup [where cmp = cmp and k = k, OF s es ws(2) that])
  show ?thesis
  proof (cases "i < length es")
    case False
    then have "\<not> ?P r" if "r \<in> set ws" for r
      using seen [of "fst r" "fst (snd r)" "fst (snd (snd r))" "snd (snd (snd r))"] that by (cases r) (auto simp del: write_entry.simps)
    then have "filter ?P (rev ws) = []" unfolding filter_empty_conv set_rev by blast
    then show ?thesis using False by (simp add: mem_lookup_def)
  next
    case True
    obtain s' t k' v where w: "(s', t, k', v) \<in> set ws" "es ! i = (InternalKey k' s' t, v)"
      using nth_mem [OF True] es by auto
    then have ok: "write_ok (s', t, k', v)" using ws(2) by blast
    have "\<not> InternalKey_Compare cmp (fst (es ! i)) ?L < 0" using True unfolding i_def by (rule first_ge_here)
    then have here: "\<not> cmp k' k < 0" "cmp k' k = 0 \<Longrightarrow> s' \<le> s" using before_lookup [OF assms(6) ok, of cmp k] w(2) by auto
    have older: "cmp k' k = 0 \<and> s1 \<le> s'" if r: "(s1, t1, k1, v1) \<in> set ws" "cmp k1 k = 0" "s1 \<le> s" for s1 t1 k1 v1
    proof -
      obtain j where j: "j < length es" "i \<le> j" "es ! j = (InternalKey k1 s1 t1, v1)" using seen [OF r] by auto
      have "InternalKey_Compare cmp (InternalKey k' s' t) (InternalKey k1 s1 t1) \<le> 0"
        using sorted_wrt_nth_less [OF sorted, of i j] j w(2) InternalKey_Compare_append [of cmp k' _ k']
          comparator.cmp_self [OF user_comparator.axioms(1) [OF c]]
        by (cases "i = j") (auto simp: InternalKey_eq)
      then have "cmp k' k1 < 0 \<or> cmp k' k1 = 0 \<and> s1 \<le> s'"
        using ok ws(2) r(1) by (fastforce simp: InternalKey_Compare_keys)
      then show ?thesis
        using here(1) r(2) comparator.cmp_less_le_trans [OF user_comparator.axioms(1) [OF c], of k' k1 k]
          comparator.cmp_trans [OF user_comparator.axioms(1) [OF c], of k' k1 k] by fastforce
    qed
    show ?thesis
    proof (cases "cmp k' k = 0")
      case False
      then have "\<not> ?P r" if "r \<in> set ws" for r using older that by (cases r) (auto simp only: prod.case)
      then have "filter ?P (rev ws) = []" unfolding filter_empty_conv set_rev by blast
      then show ?thesis using True False w(2) by (simp add: mem_lookup_def entry_answer_def InternalKey_eq)
    next
      case eq: True
      have "\<exists>ys. filter ?P (rev ws) = (s', t, k', v) # ys"
      proof (rule newest_first)
        show "sorted_wrt (\<lambda>a b. fst b < fst a) (filter ?P (rev ws))" using ws(1) by (simp add: sorted_wrt_filter sorted_wrt_rev)
      qed (use eq here(2) w(1) older in auto)
      moreover have "t = kTypeValue \<or> t = kTypeDeletion" using ok by auto
      ultimately show ?thesis
        using True eq w(2) unpack(2) [of s' t]
        by (auto simp: mem_lookup_def entry_answer_def InternalKey_eq ExtractValueType_def kTypeValue_def kTypeDeletion_def)
    qed
  qed
qed

text \<open>A memtable after a list of writes.\<close>

lemma Get_after_adds:
  fixes s :: sequence_number
  assumes "user_comparator (cmp_Compare c) S U" and "sorted_wrt (\<lambda>a b. fst a < fst b) ws" and "\<forall>w \<in> set ws. write_ok w"
    and "mem_add_all h ws (MemTable h c) = Some m" and "s \<le> kMaxSequenceNumber" and "length k + 8 < 2 ^ 32"
  shows "MemTable_Get m (LookupKey k s) = Some (mem_lookup (cmp_Compare c) ws k s)"
proof -
  obtain es where es: "mem_holds c m es" "set es = write_entry ` set ws"
    using add_all_holds [OF assms(1) MemTable_holds [of c h], where us = "[]" and ws = ws and h = h] assms(2-4) by auto
  show ?thesis
    unfolding Get_result [OF assms(1) es(1) assms(6)]
    by (simp only: first_ge_lookup [OF assms(1) user_comparator_holds_sorted [OF assms(1) es(1)] es(2) assms(2,3,5)])
qed

lemma adds_return:
  assumes "user_comparator (cmp_Compare c) S U" and "sorted_wrt (\<lambda>a b. fst a < fst b) ws" and "\<forall>w \<in> set ws. write_ok w"
  shows "\<exists>m. mem_add_all h ws (MemTable h c) = Some m"
  using add_all_holds [OF assms(1) MemTable_holds [of c h], where us = "[]" and ws = ws and h = h] assms(2,3) by auto

subsection \<open>A batch becomes visible operation by operation\<close>

fun op_write :: "sequence_number \<Rightarrow> write_op \<Rightarrow> mem_write" where
  "op_write s (PutOp k v) = (s, kTypeValue, k, v)"
| "op_write s (DeleteOp k) = (s, kTypeDeletion, k, [])"

fun op_writes :: "sequence_number \<Rightarrow> write_op list \<Rightarrow> mem_write list" where
  "op_writes s [] = []"
| "op_writes s (a # ops) = op_write s a # op_writes (s + 1) ops"

fun view_op :: "(bytes \<Rightarrow> bytes \<Rightarrow> int) \<Rightarrow> bytes \<Rightarrow> write_op \<Rightarrow> lookup \<Rightarrow> lookup" where
  "view_op cmp k (PutOp k' v) seen = (if cmp k' k = 0 then Found v else seen)"
| "view_op cmp k (DeleteOp k') seen = (if cmp k' k = 0 then Deleted else seen)"

definition opt_Add ::
    "heap \<Rightarrow> sequence_number \<Rightarrow> value_type \<Rightarrow> bytes \<Rightarrow> bytes \<Rightarrow> memtable option \<Rightarrow> memtable option" where
  "opt_Add h s t k v m = do { m \<leftarrow> m; MemTable_Add h s t k v m }"

lemma mem_add_all_append: "mem_add_all h (us @ ws) m = do { m \<leftarrow> mem_add_all h us m; mem_add_all h ws m }"
  by (induction h us m rule: mem_add_all.induct) (auto split: bind_splits)

lemma add_ops_writes: "add_ops (opt_Add h) s ops m = do { m \<leftarrow> m; mem_add_all h (op_writes s ops) m }"
proof (induction ops arbitrary: s m)
  case (Cons a ops)
  then show ?case by (cases a; cases m) (simp_all add: opt_Add_def)
next
  case Nil
  then show ?case by (cases m) simp_all
qed

lemma op_writes_append: "op_writes s (xs @ ys) = op_writes s xs @ op_writes (s + word_of_nat (length xs)) ys"
  by (induction xs arbitrary: s) (simp_all add: add.assoc)

lemma op_writes_range:
  "unat s + length ops \<le> 2 ^ 56 \<Longrightarrow> w \<in> set (op_writes s ops) \<Longrightarrow> unat s \<le> unat (fst w) \<and> unat (fst w) < unat s + length ops"
proof (induction ops arbitrary: s)
  case (Cons a ops)
  have "unat (s + 1) = unat s + 1" using Cons.prems(1) by (simp add: unat_word_ariths)
  then show ?case using Cons.IH [of "s + 1"] Cons.prems by (cases a) auto
qed simp

lemma op_writes_sorted: "unat s + length ops \<le> 2 ^ 56 \<Longrightarrow> sorted_wrt (\<lambda>a b. fst a < fst b) (op_writes s ops)"
proof (induction ops arbitrary: s)
  case (Cons a ops)
  have s: "unat (s + 1) = unat s + 1" using Cons.prems(1) by (simp add: unat_word_ariths)
  have "fst (op_write s a) < fst w" if "w \<in> set (op_writes (s + 1) ops)" for w
    using op_writes_range [OF _ that] s Cons.prems by (cases a) (auto simp: word_less_nat_alt)
  then show ?case using Cons s by simp
qed simp

lemma op_writes_ok:
  assumes "unat s + length ops \<le> 2 ^ 56" and "\<forall>a \<in> set ops. write_ok (op_write 0 a)"
  shows "\<forall>w \<in> set (op_writes s ops). write_ok w"
proof -
  have "write_ok w" if "w \<in> set (op_writes s' ops')" "set ops' \<subseteq> set ops" "fst w \<le> kMaxSequenceNumber" for w s' ops'
    using that
  proof (induction ops' arbitrary: s')
    case (Cons a ops')
    then have "write_ok (op_write 0 a)" using assms(2) by simp
    then show ?case using Cons by (cases a) auto
  qed simp
  moreover have "fst w \<le> kMaxSequenceNumber" if "w \<in> set (op_writes s ops)" for w
    using op_writes_range [OF assms(1) that] assms(1) by (simp add: word_le_nat_alt unat_kMax)
  ultimately show ?thesis by blast
qed

lemma op_write_small: "write_ok (op_write s a) \<Longrightarrow> op_small a"
  by (cases a) auto

lemma lookup_snoc:
  "mem_lookup cmp (ws @ [op_write s' a]) k s = (if s' \<le> s then view_op cmp k a (mem_lookup cmp ws k s) else mem_lookup cmp ws k s)"
  by (cases a) (simp_all add: mem_lookup_def kTypeValue_def kTypeDeletion_def)

lemma lookup_ops:
  assumes "unat s + length ops \<le> 2 ^ 56" and "unat s + i < 2 ^ 56"
  shows "mem_lookup cmp (ws @ op_writes s ops) k (s + word_of_nat i) =
    fold (view_op cmp k) (take (Suc i) ops) (mem_lookup cmp ws k (s + word_of_nat i))"
  using assms(1)
proof (induction ops rule: rev_induct)
  case (snoc a ops)
  have u: "unat (s + word_of_nat n) = unat s + n" if "unat s + n < 2 ^ 64" for n
    using that by (simp add: unat_word_ariths unat_of_nat)
  have "s + word_of_nat (length ops) \<le> s + word_of_nat i \<longleftrightarrow> length ops \<le> i"
    using snoc.prems assms(2) by (simp add: word_le_nat_alt u)
  then show ?case
    using snoc.IH snoc.prems by (simp add: op_writes_append lookup_snoc flip: append_assoc)
qed simp

lemma lookup_older:
  assumes "\<forall>w \<in> set ws'. s < fst w"
  shows "mem_lookup cmp (ws @ ws') k s = mem_lookup cmp ws k s"
proof -
  have "filter (\<lambda>(s', t, k', v). cmp k' k = 0 \<and> s' \<le> s) (rev ws') = []"
    using assms by (fastforce simp: filter_empty_conv)
  then show ?thesis by (simp add: mem_lookup_def)
qed

lemma lookup_newer:
  assumes "\<forall>w \<in> set ws. fst w < s" and "s \<le> s'"
  shows "mem_lookup cmp ws k s' = mem_lookup cmp ws k s"
proof -
  have "filter (\<lambda>(s1, t, k', v). cmp k' k = 0 \<and> s1 \<le> s') (rev ws) = filter (\<lambda>(s1, t, k', v). cmp k' k = 0 \<and> s1 \<le> s) (rev ws)"
    using assms by (intro filter_cong) (auto intro: order.trans less_imp_le)
  then show ?thesis by (simp add: mem_lookup_def)
qed

subsection \<open>Properties\<close>

text \<open>
  Claim C6: a memtable returns the newest value. Writes under increasing sequence numbers all return;
  afterwards a lookup at any sequence number finds the value, or the deletion, of the last write to the
  key that is not newer, and nothing exactly when there is none, for every user comparator.
\<close>

theorem memtable_get:
  assumes "user_comparator (cmp_Compare c) S U"
    and "sorted_wrt (\<lambda>a b. fst a < fst b) ws" and "\<forall>w \<in> set ws. write_ok w"
    and "s \<le> kMaxSequenceNumber" and "length k + 8 < 2 ^ 32"
  shows "\<exists>m. mem_add_all h ws (MemTable h c) = Some m \<and>
    MemTable_Get m (LookupKey k s) = Some (mem_lookup (cmp_Compare c) ws k s)"
  using adds_return [OF assms(1-3)] Get_after_adds [OF assms(1-3) _ assms(4,5)] by blast

theorem memtable_get_witness:
  "\<exists>m. mem_add_all bump_heap [(1, kTypeValue, [7], [1]), (2, kTypeValue, [8], [2]), (3, kTypeDeletion, [7], [])]
      (MemTable bump_heap BytewiseComparator) = Some m \<and>
    MemTable_Get m (LookupKey [7] 2) = Some (Found [1])"
  using memtable_get [OF uc_bytewise, where s = 2 and k = "[7]" and h = bump_heap and
      ws = "[(1, kTypeValue, [7], [1]), (2, kTypeValue, [8], [2]), (3, kTypeDeletion, [7], [])]"]
  by (simp add: kMaxSequenceNumber_def mem_lookup_def BytewiseComparator_def BytewiseCompare_def slice_compare_iffs
      kTypeValue_def kTypeDeletion_def)

text \<open>
  Claim C19: a batch inserted behind older writes becomes visible operation by operation: a reader at the
  number of the \<open>i\<close>-th operation sees the effect of the operations up to it on what was there before,
  and readers with an older number see what they saw before the batch.
\<close>

theorem batch_snapshots:
  assumes "user_comparator (cmp_Compare c) S U"
    and "sorted_wrt (\<lambda>a b. fst a < fst b) ws" and "\<forall>w \<in> set ws. write_ok w \<and> fst w < seq"
    and "\<forall>a \<in> set ops. write_ok (op_write 0 a)" and "unat seq + length ops \<le> 2 ^ 56"
    and "length k + 8 < 2 ^ 32" and "i < length ops" and "s < seq"
  shows "\<exists>m m'. mem_add_all h ws (MemTable h c) = Some m \<and>
    WriteBatch_InsertInto (opt_Add h) (WriteBatch_SetSequence (fold batch_op ops WriteBatch_Clear) seq) (Some m) = (Status_OK, Some m') \<and>
    MemTable_Get m' (LookupKey k (seq + word_of_nat i)) =
      Some (fold (view_op (cmp_Compare c) k) (take (Suc i) ops) (mem_lookup (cmp_Compare c) ws k seq)) \<and>
    MemTable_Get m' (LookupKey k s) = MemTable_Get m (LookupKey k s)"
proof -
  let ?ws = "ws @ op_writes seq ops" and ?cmp = "cmp_Compare c"
  have small: "\<forall>a \<in> set ops. op_small a" using assms(4) op_write_small by blast
  have new: "seq \<le> fst w" if "w \<in> set (op_writes seq ops)" for w
    using op_writes_range [OF assms(5) that] by (simp add: word_le_nat_alt)
  have sorted: "sorted_wrt (\<lambda>a b. fst a < fst b) ?ws"
    using assms(2,3) op_writes_sorted [OF assms(5)] new by (auto simp: sorted_wrt_append intro: order.strict_trans2)
  have ok: "\<forall>w \<in> set ?ws. write_ok w" and ok0: "\<forall>w \<in> set ws. write_ok w"
    using assms(3) op_writes_ok [OF assms(5,4)] by auto
  obtain m where m: "mem_add_all h ws (MemTable h c) = Some m" using adds_return [OF assms(1,2) ok0] by blast
  obtain m' where m': "mem_add_all h ?ws (MemTable h c) = Some m'" using adds_return [OF assms(1) sorted ok] by blast
  have "WriteBatch_InsertInto (opt_Add h) (WriteBatch_SetSequence (fold batch_op ops WriteBatch_Clear) seq) (Some m) = (Status_OK, Some m')"
    using InsertInto_holds [OF SetSequence_holds [OF batch_ops_holds [OF holds_Clear, of ops]], of "opt_Add h" seq "Some m"]
      small m m' by (simp add: add_ops_writes mem_add_all_append)
  moreover have max: "s \<le> kMaxSequenceNumber" "seq + word_of_nat i \<le> kMaxSequenceNumber"
    using assms(5,7,8) by (simp_all add: word_le_nat_alt word_less_nat_alt unat_kMax unat_word_ariths unat_of_nat)
  moreover have "mem_lookup ?cmp ws k (seq + word_of_nat i) = mem_lookup ?cmp ws k seq"
    using assms(3,5,7) by (intro lookup_newer) (auto simp: word_le_nat_alt unat_word_ariths unat_of_nat)
  moreover have "mem_lookup ?cmp ?ws k s = mem_lookup ?cmp ws k s"
    using new assms(8) by (intro lookup_older) (auto intro: order.strict_trans2)
  ultimately show ?thesis
    using m Get_after_adds [OF assms(1) sorted ok m' max(1) assms(6)] Get_after_adds [OF assms(1) sorted ok m' max(2) assms(6)]
      Get_after_adds [OF assms(1,2) ok0 m max(1) assms(6)] lookup_ops [OF assms(5), of i ?cmp ws k] assms(5,7)
    by auto
qed

theorem batch_snapshots_witness:
  "\<exists>m m'. mem_add_all bump_heap [(4, kTypeValue, [7], [1])] (MemTable bump_heap BytewiseComparator) = Some m \<and>
    WriteBatch_InsertInto (opt_Add bump_heap)
      (WriteBatch_SetSequence (fold batch_op [DeleteOp [7], PutOp [7] [2]] WriteBatch_Clear) 5) (Some m) = (Status_OK, Some m') \<and>
    MemTable_Get m' (LookupKey [7] 5) = Some Deleted \<and>
    MemTable_Get m' (LookupKey [7] 4) = MemTable_Get m (LookupKey [7] 4)"
  using batch_snapshots [OF uc_bytewise, where s = 4 and seq = 5 and k = "[7]" and h = bump_heap and i = 0 and
      ws = "[(4, kTypeValue, [7], [1])]" and ops = "[DeleteOp [7], PutOp [7] [2]]"]
  by (simp add: kMaxSequenceNumber_def BytewiseComparator_def BytewiseCompare_def slice_compare_iffs
      kTypeValue_def kTypeDeletion_def)

end
