(* ===== verification/LDB_MergerSpec.thy ===== *)
theory LDB_MergerSpec
  imports LDB_Merger LDB_MemTableSpec
begin

text \<open>
  The merging iterator walks over the merge of its children. The position of a child is described by
  how many of its entries are among the first \<open>p\<close> of the merge: moving forward a child stands behind
  these entries, moving backward it stands at the last of them.
\<close>

subsection \<open>Choosing a child\<close>

lemma pick_child_none: "\<forall>i \<in> set is. \<not> iw_valid (cs ! i) \<Longrightarrow> pick_child better cs is = None"
  unfolding pick_child_def by (induction "is") (simp_all add: Let_def)

lemma pick_child_best:
  assumes "c \<in> set is" and "iw_valid (cs ! c)"
    and "\<And>i. i \<in> set is \<Longrightarrow> iw_valid (cs ! i) \<Longrightarrow> i \<noteq> c \<Longrightarrow> better (cs ! c) (cs ! i) \<and> \<not> better (cs ! i) (cs ! c)"
    and "\<not> better (cs ! c) (cs ! c)"
  shows "pick_child better cs is = Some c"
proof -
  let ?step = "\<lambda>i best. let child = cs ! i in if iw_valid child then
      (case best of None \<Rightarrow> Some i | Some b \<Rightarrow> if better child (cs ! b) then Some i else best) else best"
  have same: "b = c" if "b \<in> set is" "iw_valid (cs ! b)" "\<not> better (cs ! c) (cs ! b)" for b
    using assms(3) that by blast
  have keep: "fold ?step js (Some c) = Some c" if "set js \<subseteq> set is" for js
    using that by (induction js) (use assms(3,4) in \<open>auto simp: Let_def\<close>)
  have "fold ?step js best = Some c"
    if "set js \<subseteq> set is" "c \<in> set js" "best = None \<or> (\<exists>b \<in> set is. best = Some b \<and> iw_valid (cs ! b))" for js best
    using that
  proof (induction js arbitrary: best)
    case (Cons j js)
    show ?case
    proof (cases "j = c")
      case True
      then have "?step j best = Some c" using Cons.prems(3) assms(1,2,4) same by (auto simp: Let_def)
      then show ?thesis using keep [of js] Cons.prems(1) by simp
    next
      case False
      then show ?thesis using Cons by (auto simp: Let_def)
    qed
  qed simp
  then show ?thesis using assms(1) by (simp add: pick_child_def)
qed

subsection \<open>Positions of the children\<close>

text \<open>A list of entries is the merge of the lists of \<open>n\<close> children, which have no key in common.\<close>

definition merges :: "(bytes \<Rightarrow> bytes \<Rightarrow> int) \<Rightarrow> nat \<Rightarrow> (nat \<Rightarrow> entry list) \<Rightarrow> entry list \<Rightarrow> bool" where
  "merges cmp n es M \<longleftrightarrow> sorted_wrt (\<lambda>x y. cmp (fst x) (fst y) < 0) M \<and>
     (\<forall>c < n. sorted_wrt (\<lambda>x y. cmp (fst x) (fst y) < 0) (es c)) \<and>
     set M = (\<Union>c < n. set (es c)) \<and> (\<forall>c < n. \<forall>c' < n. c \<noteq> c' \<longrightarrow> set (es c) \<inter> set (es c') = {})"

definition passed :: "entry list \<Rightarrow> entry list \<Rightarrow> nat \<Rightarrow> nat" where
  "passed M es p = length (filter (\<lambda>e. e \<in> set (take p M)) es)"

definition stepped_back :: "entry list \<Rightarrow> entry list \<Rightarrow> nat \<Rightarrow> nat" where
  "stepped_back M es p = (if passed M es p = 0 then length es else passed M es p - 1)"

lemma passed_bounds [simp]: "passed M es 0 = 0" "passed M es p \<le> length es"
  by (simp_all add: passed_def)

lemma passed_Suc:
  assumes "distinct es" and "distinct M" and "p < length M"
  shows "passed M es (Suc p) = passed M es p + (if M ! p \<in> set es then 1 else 0)"
proof -
  have "M ! p \<notin> set (take p M)" using assms(2,3) by (auto simp: in_set_conv_nth nth_eq_iff_index_eq)
  then show ?thesis
    using assms(1) by (induction es) (auto simp: passed_def take_Suc_conv_app_nth assms(3))
qed

text \<open>The first \<open>p\<close> entries of a sorted list are a prefix of each of its sorted parts.\<close>

lemma closed_takeWhile: "sorted_wrt (\<lambda>x y. Q y \<longrightarrow> Q x) xs \<Longrightarrow> takeWhile Q xs = filter Q xs"
proof (induction xs)
  case (Cons x xs)
  then show ?case by (cases "Q x") (auto simp: filter_empty_conv)
qed simp

lemma takeWhile_filter_nth: "takeWhile Q xs = filter Q xs \<Longrightarrow> i < length xs \<Longrightarrow> Q (xs ! i) \<longleftrightarrow> i < length (filter Q xs)"
proof (induction xs arbitrary: i)
  case (Cons x xs)
  show ?case
  proof (cases "Q x")
    case True
    then show ?thesis using Cons by (cases i) auto
  next
    case False
    then have "filter Q (x # xs) = []" using Cons.prems(1) by simp
    then show ?thesis using nth_mem [OF Cons.prems(2)] unfolding filter_empty_conv by fastforce
  qed
qed simp

lemma nth_in_take: "distinct xs \<Longrightarrow> q < length xs \<Longrightarrow> xs ! q \<in> set (take p xs) \<longleftrightarrow> q < p"
  by (auto simp: in_set_conv_nth nth_eq_iff_index_eq)

definition child_at :: "'i iterator_class list \<Rightarrow> (nat \<Rightarrow> 'i \<Rightarrow> nat \<Rightarrow> bool) \<Rightarrow> 'i merging_iter \<Rightarrow> nat \<Rightarrow> nat \<Rightarrow> bool" where
  "child_at opss st m c i \<longleftrightarrow> (\<exists>it. wraps (opss ! c) (mi_children m ! c) it \<and> st c it i)"

locale merged_children = key_order cmp target_ok
  for cmp :: "bytes \<Rightarrow> bytes \<Rightarrow> int" and target_ok :: "bytes \<Rightarrow> bool" +
  fixes opss :: "'i iterator_class list" and es :: "nat \<Rightarrow> entry list" and st :: "nat \<Rightarrow> 'i \<Rightarrow> nat \<Rightarrow> bool"
  assumes child: "c < length opss \<Longrightarrow> entry_iterator (opss ! c) cmp (es c) (st c) target_ok"
begin

definition merge_ok :: "entry list \<Rightarrow> bool" where
  "merge_ok M \<longleftrightarrow> merges cmp (length opss) es M \<and> (\<forall>e \<in> set M. target_ok (fst e))"

lemma sorted_distinct:
  assumes "sorted_wrt (\<lambda>x y. cmp (fst x) (fst y) < 0) xs" and "\<forall>e \<in> set xs. target_ok (fst e)"
  shows "distinct xs"
  using assms by (induction xs) (auto dest: irrefl)

lemma merge_facts:
  assumes "merge_ok M"
  shows M_distinct: "distinct M"
    and M_less: "q < length M \<Longrightarrow> r < length M \<Longrightarrow> cmp (fst (M ! q)) (fst (M ! r)) < 0 \<longleftrightarrow> q < r"
proof -
  show "distinct M" using assms by (auto simp: merge_ok_def merges_def intro: sorted_distinct)
  have "sorted_wrt (\<lambda>x y. cmp x y < 0) (map fst M)" using assms by (simp add: merge_ok_def merges_def sorted_wrt_map)
  then show "cmp (fst (M ! q)) (fst (M ! r)) < 0 \<longleftrightarrow> q < r" if "q < length M" "r < length M"
    using sorted_nth_less_iff [of "map fst M" q r] assms that by (simp add: merge_ok_def)
qed

lemma child_entry:
  assumes "merge_ok M" and "c < length opss" and "e \<in> set (es c)"
  obtains q where "q < length M" and "e = M ! q" and "target_ok (fst e)"
proof -
  have e: "e \<in> set M" using assms by (auto simp: merge_ok_def merges_def)
  then obtain q where "q < length M" "e = M ! q" by (auto simp: in_set_conv_nth)
  then show ?thesis using that assms(1) e by (simp add: merge_ok_def)
qed

lemma child_distinct: "merge_ok M \<Longrightarrow> c < length opss \<Longrightarrow> distinct (es c)"
  by (rule sorted_distinct) (auto simp: merge_ok_def merges_def)

lemma child_prefix:
  assumes ok: "merge_ok M" and c: "c < length opss"
  shows "takeWhile (\<lambda>e. e \<in> set (take p M)) (es c) = filter (\<lambda>e. e \<in> set (take p M)) (es c)"
proof (rule closed_takeWhile, rule sorted_wrt_mono_rel)
  show "sorted_wrt (\<lambda>x y. cmp (fst x) (fst y) < 0) (es c)" using ok c by (simp add: merge_ok_def merges_def)
  fix x y assume x: "x \<in> set (es c)" and y: "y \<in> set (es c)" and less: "cmp (fst x) (fst y) < 0"
  obtain q where q: "q < length M" "x = M ! q" by (rule child_entry [OF ok c x])
  obtain r where r: "r < length M" "y = M ! r" by (rule child_entry [OF ok c y])
  show "y \<in> set (take p M) \<longrightarrow> x \<in> set (take p M)"
    using less M_less [OF ok q(1) r(1)] q r by (simp add: nth_in_take M_distinct [OF ok])
qed

lemma passed_iff:
  assumes "merge_ok M" and "c < length opss" and "i < length (es c)"
  shows "es c ! i \<in> set (take p M) \<longleftrightarrow> i < passed M (es c) p"
  using takeWhile_filter_nth [OF child_prefix [OF assms(1,2)] assms(3)] by (simp add: passed_def)

lemma first_ge_passed:
  assumes "merge_ok M" and "c < length opss" and "\<And>q. q < length M \<Longrightarrow> cmp (fst (M ! q)) t < 0 \<longleftrightarrow> q < p"
  shows "first_ge cmp (es c) t = passed M (es c) p"
proof -
  have "takeWhile (\<lambda>e. cmp (fst e) t < 0) (es c) = takeWhile (\<lambda>e. e \<in> set (take p M)) (es c)"
  proof (rule takeWhile_cong [OF refl])
    fix e assume "e \<in> set (es c)"
    then obtain q where "q < length M" "e = M ! q" by (rule child_entry [OF assms(1,2)])
    then show "(cmp (fst e) t < 0) = (e \<in> set (take p M))" using assms(3) by (simp add: nth_in_take M_distinct [OF assms(1)])
  qed
  then show ?thesis by (simp add: first_ge_def passed_def child_prefix [OF assms(1,2)])
qed

lemma owner:
  assumes "merge_ok M" and "p < length M"
  obtains c where "c < length opss" and "M ! p \<in> set (es c)" and "\<And>c'. c' < length opss \<Longrightarrow> c' \<noteq> c \<Longrightarrow> M ! p \<notin> set (es c')"
proof -
  have "M ! p \<in> set M" using assms(2) by simp
  then show ?thesis using that assms(1) unfolding merge_ok_def merges_def by (metis (no_types, lifting) UN_E disjoint_iff lessThan_iff)
qed

lemma owner_position:
  assumes ok: "merge_ok M" and p: "p < length M" and c: "c < length opss" and own: "M ! p \<in> set (es c)"
  shows "passed M (es c) p < length (es c)" and "es c ! passed M (es c) p = M ! p"
proof -
  obtain j where j: "j < length (es c)" "es c ! j = M ! p" using own by (auto simp: in_set_conv_nth)
  have "\<not> j < passed M (es c) p" using passed_iff [OF ok c j(1), of p] j(2) p by (simp add: nth_in_take M_distinct [OF ok])
  moreover have "j < passed M (es c) (Suc p)" using passed_iff [OF ok c j(1), of "Suc p"] j(2) p by (simp add: nth_in_take M_distinct [OF ok])
  ultimately have "j = passed M (es c) p"
    using passed_Suc [OF child_distinct [OF ok c] M_distinct [OF ok] p] own by simp
  then show "passed M (es c) p < length (es c)" "es c ! passed M (es c) p = M ! p" using j by simp_all
qed

definition all_at :: "'i merging_iter \<Rightarrow> (nat \<Rightarrow> nat) \<Rightarrow> bool" where
  "all_at m b \<longleftrightarrow> length (mi_children m) = length opss \<and> (\<forall>c < length opss. child_at opss st m c (b c))"

definition merge_stands :: "entry list \<Rightarrow> 'i merging_iter \<Rightarrow> nat \<Rightarrow> bool" where
  "merge_stands M m p \<longleftrightarrow> merge_ok M \<and> p \<le> length M \<and> (\<exists>b. all_at m b) \<and>
     (if p = length M then mi_current m = None
      else \<exists>c0 < length opss. mi_current m = Some c0 \<and> M ! p \<in> set (es c0) \<and> child_at opss st m c0 (passed M (es c0) p) \<and>
        (\<forall>c < length opss. c \<noteq> c0 \<longrightarrow> M ! p \<notin> set (es c) \<and> child_at opss st m c
          (case mi_direction m of kForward \<Rightarrow> passed M (es c) p | kReverse \<Rightarrow> stepped_back M (es c) p)))"

lemma all_atD: "all_at m b \<Longrightarrow> c < length opss \<Longrightarrow> child_at opss st m c (b c)"
  by (simp add: all_at_def)

lemma all_at_same: "all_at m b \<Longrightarrow> mi_children m' = mi_children m \<Longrightarrow> all_at m' b"
  by (simp add: all_at_def child_at_def)

lemma Find_same [simp]:
  "mi_children (FindSmallest cmp m) = mi_children m" "mi_direction (FindSmallest cmp m) = mi_direction m"
  "mi_children (FindLargest cmp m) = mi_children m" "mi_direction (FindLargest cmp m) = mi_direction m"
  "child_at opss st (FindSmallest cmp m) = child_at opss st m" "child_at opss st (FindLargest cmp m) = child_at opss st m"
  by (simp_all add: FindSmallest_def FindLargest_def child_at_def fun_eq_iff)

lemma Find_direction:
  "(FindSmallest cmp m)\<lparr>mi_direction := dir\<rparr> = FindSmallest cmp (m\<lparr>mi_direction := dir\<rparr>)"
  "(FindLargest cmp m)\<lparr>mi_direction := dir\<rparr> = FindLargest cmp (m\<lparr>mi_direction := dir\<rparr>)"
  by (simp_all add: FindSmallest_def FindLargest_def)

lemma stands_end: "merge_ok M \<Longrightarrow> all_at m b \<Longrightarrow> mi_current m = None \<Longrightarrow> merge_stands M m (length M)"
  by (auto simp: merge_stands_def)

lemma stands_at:
  assumes "merge_ok M" and "p < length M" and "all_at m b" and "c0 < length opss" and "mi_current m = Some c0"
    and "M ! p \<in> set (es c0)" and "child_at opss st m c0 (passed M (es c0) p)"
    and "\<And>c. c < length opss \<Longrightarrow> c \<noteq> c0 \<Longrightarrow> M ! p \<notin> set (es c)"
    and "\<And>c. c < length opss \<Longrightarrow> c \<noteq> c0 \<Longrightarrow> child_at opss st m c
      (case mi_direction m of kForward \<Rightarrow> passed M (es c) p | kReverse \<Rightarrow> stepped_back M (es c) p)"
  shows "merge_stands M m p"
  using assms by (auto simp: merge_stands_def)

lemma child_facts:
  assumes "c < length opss" and "child_at opss st m c i"
  shows child_valid: "iw_valid (mi_children m ! c) \<longleftrightarrow> i < length (es c)"
    and child_key: "i < length (es c) \<Longrightarrow> iw_key (mi_children m ! c) = fst (es c ! i)"
    and child_value: "i < length (es c) \<Longrightarrow> Wrapper_value (opss ! c) (mi_children m ! c) = snd (es c ! i)"
    and child_status: "ok (Wrapper_status (opss ! c) (mi_children m ! c))"
  using assms entry_iterator.valid_iff [OF child [OF assms(1)]] entry_iterator.key_at [OF child [OF assms(1)]]
    entry_iterator.value_at [OF child [OF assms(1)]] entry_iterator.status_at [OF child [OF assms(1)]]
  by (auto simp: child_at_def wraps_def Wrapper_value_def Wrapper_status_def)

lemma smallest_stands:
  assumes ok: "merge_ok M" and p: "p \<le> length M" and all: "all_at m (\<lambda>c. passed M (es c) p)" and dir: "mi_direction m = kForward"
  shows "merge_stands M (FindSmallest cmp m) p"
proof (cases "p = length M")
  case True
  have "\<not> iw_valid (mi_children m ! c)" if c: "c < length opss" for c
  proof -
    have "passed M (es c) p = length (es c)"
    proof -
      have "e \<in> set (take p M)" if "e \<in> set (es c)" for e
        using child_entry [OF ok c that] True by (metis order_refl nth_mem take_all)
      then show ?thesis by (simp add: passed_def filter_id_conv)
    qed
    then show ?thesis using child_valid [OF c all_atD [OF all c]] by simp
  qed
  then have "mi_current (FindSmallest cmp m) = None"
    using all by (simp add: FindSmallest_def all_at_def pick_child_none)
  then show ?thesis using stands_end [OF ok all_at_same [OF all]] True by simp
next
  case False
  then have p: "p < length M" using p by simp
  obtain c0 where c0: "c0 < length opss" "M ! p \<in> set (es c0)" and others: "\<And>c. c < length opss \<Longrightarrow> c \<noteq> c0 \<Longrightarrow> M ! p \<notin> set (es c)"
    using owner [OF ok p] by blast
  let ?cs = "mi_children m"
  have at: "child_at opss st m c (passed M (es c) p)" if "c < length opss" for c using all that by (simp add: all_at_def)
  have v0: "iw_valid (?cs ! c0)" and k0: "iw_key (?cs ! c0) = fst (M ! p)"
    using child_valid [OF c0(1) at] child_key [OF c0(1) at] owner_position [OF ok p c0] c0(1) by simp_all
  have less: "cmp (fst (M ! p)) (iw_key (?cs ! c)) < 0 \<and> \<not> cmp (iw_key (?cs ! c)) (fst (M ! p)) < 0"
    if c: "c < length opss" "c \<noteq> c0" "iw_valid (?cs ! c)" for c
  proof -
    have i: "passed M (es c) p < length (es c)" using child_valid [OF c(1) at] c by simp
    obtain q where q: "q < length M" "es c ! passed M (es c) p = M ! q" using child_entry [OF ok c(1) nth_mem [OF i]] .
    have "\<not> q < p" using passed_iff [OF ok c(1) i, of p] q by (simp add: nth_in_take M_distinct [OF ok])
    moreover have "q \<noteq> p" using others [OF c(1,2)] nth_mem [OF i] q(2) by metis
    ultimately show ?thesis using M_less [OF ok p q(1)] M_less [OF ok q(1) p] child_key [OF c(1) at i] c(1) q(2) by simp
  qed
  have "pick_child (\<lambda>child smallest. cmp (iw_key child) (iw_key smallest) < 0) ?cs [0..<length ?cs] = Some c0"
    by (rule pick_child_best) (use c0 v0 less all k0 M_less [OF ok p p] in \<open>auto simp: all_at_def\<close>)
  then have "mi_current (FindSmallest cmp m) = Some c0" by (simp add: FindSmallest_def)
  then show ?thesis
    using at c0(1) dir by (intro stands_at [OF ok p all_at_same [OF all] c0(1) _ c0(2) _ others]) simp_all
qed

lemma stepped_back_Suc:
  assumes "merge_ok M" and "p < length M" and "c < length opss"
  shows "stepped_back M (es c) (Suc p) = (if M ! p \<in> set (es c) then passed M (es c) p else stepped_back M (es c) p)"
  using passed_Suc [OF child_distinct [OF assms(1,3)] M_distinct [OF assms(1)] assms(2)] by (simp add: stepped_back_def)

lemma stepped_back_entry:
  assumes ok: "merge_ok M" and c: "c < length opss" and valid: "stepped_back M (es c) p < length (es c)" and p: "p \<le> length M"
  obtains q where "q < p" and "es c ! stepped_back M (es c) p = M ! q"
proof -
  have "passed M (es c) p \<noteq> 0" using valid by (cases "passed M (es c) p") (simp_all add: stepped_back_def)
  then have "es c ! stepped_back M (es c) p \<in> set (take p M)"
    using passed_iff [OF ok c valid, of p] by (simp add: stepped_back_def)
  then show ?thesis using that p by (auto simp: in_set_conv_nth)
qed

lemma largest_stands:
  assumes ok: "merge_ok M" and p: "p \<le> length M" and all: "all_at m (\<lambda>c. stepped_back M (es c) p)" and dir: "mi_direction m = kReverse"
  shows "merge_stands M (FindLargest cmp m) (if p = 0 then length M else p - 1)"
proof (cases p)
  case 0
  have "\<not> iw_valid (mi_children m ! c)" if c: "c < length opss" for c
    using child_valid [OF c all_atD [OF all c]] by (simp add: stepped_back_def 0)
  then have "mi_current (FindLargest cmp m) = None"
    using all by (simp add: FindLargest_def all_at_def pick_child_none)
  then show ?thesis using stands_end [OF ok all_at_same [OF all]] 0 by simp
next
  case (Suc r)
  then have r: "r < length M" using p by simp
  obtain c0 where c0: "c0 < length opss" "M ! r \<in> set (es c0)" and others: "\<And>c. c < length opss \<Longrightarrow> c \<noteq> c0 \<Longrightarrow> M ! r \<notin> set (es c)"
    using owner [OF ok r] by blast
  let ?cs = "mi_children m"
  have at: "child_at opss st m c (stepped_back M (es c) p)" if "c < length opss" for c using all that by (simp add: all_at_def)
  have at0: "child_at opss st m c0 (passed M (es c0) r)" using at [OF c0(1)] stepped_back_Suc [OF ok r c0(1)] c0(2) by (simp add: Suc)
  have atc: "child_at opss st m c (stepped_back M (es c) r)" if "c < length opss" "c \<noteq> c0" for c
    using at [OF that(1)] stepped_back_Suc [OF ok r that(1)] others [OF that] by (simp add: Suc)
  have v0: "iw_valid (?cs ! c0)" and k0: "iw_key (?cs ! c0) = fst (M ! r)"
    using child_valid [OF c0(1) at0] child_key [OF c0(1) at0] owner_position [OF ok r c0] by simp_all
  have less: "cmp (iw_key (?cs ! c)) (fst (M ! r)) < 0 \<and> \<not> cmp (fst (M ! r)) (iw_key (?cs ! c)) < 0 \<and> target_ok (iw_key (?cs ! c))"
    if c: "c < length opss" "c \<noteq> c0" "iw_valid (?cs ! c)" for c
  proof -
    have i: "stepped_back M (es c) r < length (es c)" using child_valid [OF c(1) atc] c by simp
    obtain q where q: "q < r" "es c ! stepped_back M (es c) r = M ! q" using stepped_back_entry [OF ok c(1) i] r by auto
    then show ?thesis
      using M_less [OF ok r, of q] M_less [OF ok _ r, of q] child_key [OF c(1) atc i] c r ok by (simp add: merge_ok_def)
  qed
  have t0: "target_ok (fst (M ! r))" using ok r by (simp add: merge_ok_def)
  have "pick_child (\<lambda>child largest. 0 < cmp (iw_key child) (iw_key largest)) ?cs (rev [0..<length ?cs]) = Some c0"
    by (rule pick_child_best) (use c0 v0 less all k0 t0 irrefl [OF t0] flip [OF _ t0] flip [OF t0] flip [OF t0 t0] in \<open>auto simp: all_at_def\<close>)
  then have "mi_current (FindLargest cmp m) = Some c0" by (simp add: FindLargest_def)
  then have "merge_stands M (FindLargest cmp m) r"
    using at0 atc dir by (intro stands_at [OF ok r all_at_same [OF all] c0(1) _ c0(2) _ others]) simp_all
  then show ?thesis by (simp add: Suc)
qed

subsection \<open>The moves\<close>

lemma child_moved:
  assumes "child_at opss st m c i" and "\<And>it. st c it i \<Longrightarrow> st c (f it) j"
  shows "\<exists>it. wraps (opss ! c) (Wrapper_apply (opss ! c) f (mi_children m ! c)) it \<and> st c it j"
proof -
  obtain it where "wraps (opss ! c) (mi_children m ! c) it" "st c it i" using assms(1) by (auto simp: child_at_def)
  then show ?thesis using assms(2) [of it] wraps_apply [of "opss ! c" "mi_children m ! c" it f] by blast
qed

lemma all_moved:
  assumes "all_at m b0" and "\<And>c it i. c < length opss \<Longrightarrow> st c it i \<Longrightarrow> st c (f (opss ! c) it) (b c)"
  shows "all_at (children_apply opss f m) b"
proof -
  have "child_at opss st (children_apply opss f m) c (b c)" if c: "c < length opss" for c
    using child_moved [OF all_atD [OF assms(1) c] assms(2) [OF c]] c assms(1)
    by (simp add: child_at_def children_apply_def all_at_def)
  then show ?thesis using assms(1) by (simp add: all_at_def children_apply_def)
qed

lemma stands_key:
  assumes "merge_stands M m p" and "p < length M"
  shows "Merging_Valid m" and "Merging_key m = fst (M ! p)" and "Merging_value opss m = snd (M ! p)"
proof -
  have ok: "merge_ok M" using assms(1) by (simp add: merge_stands_def)
  obtain c0 where c0: "c0 < length opss" "mi_current m = Some c0" "M ! p \<in> set (es c0)" "child_at opss st m c0 (passed M (es c0) p)"
    using assms by (auto simp: merge_stands_def)
  then show "Merging_Valid m" "Merging_key m = fst (M ! p)" "Merging_value opss m = snd (M ! p)"
    using child_key [OF c0(1,4)] child_value [OF c0(1,4)] owner_position [OF ok assms(2) c0(1,3)]
    by (simp_all add: Merging_Valid_def Merging_key_def Merging_value_def)
qed

lemma other_children_stands:
  assumes stands: "merge_stands M m p" and p: "p < length M"
    and move: "\<And>c w it i. c < length opss \<Longrightarrow> M ! p \<notin> set (es c) \<Longrightarrow> wraps (opss ! c) w it \<Longrightarrow> st c it i \<Longrightarrow>
      \<exists>it'. wraps (opss ! c) (f (opss ! c) w) it' \<and> 
        st c it' (case dir of kForward \<Rightarrow> passed M (es c) p | kReverse \<Rightarrow> stepped_back M (es c) p)"
  shows "merge_stands M ((other_children opss f m)\<lparr>mi_direction := dir\<rparr>) p"
proof -
  let ?m = "(other_children opss f m)\<lparr>mi_direction := dir\<rparr>"
  define b where "b c = (case dir of kForward \<Rightarrow> passed M (es c) p | kReverse \<Rightarrow> stepped_back M (es c) p)" for c
  have ok: "merge_ok M" using stands by (simp add: merge_stands_def)
  obtain c0 b0 where c0: "c0 < length opss" "mi_current m = Some c0" "M ! p \<in> set (es c0)" "child_at opss st m c0 (passed M (es c0) p)"
    and others: "\<And>c. c < length opss \<Longrightarrow> c \<noteq> c0 \<Longrightarrow> M ! p \<notin> set (es c)" and all: "all_at m b0"
    using stands p by (auto simp: merge_stands_def)
  have kids: "mi_children ?m ! c = (if c \<noteq> c0 then f (opss ! c) (mi_children m ! c) else mi_children m ! c)" if "c < length opss" for c
    using that all c0(2) by (simp add: other_children_def all_at_def Let_def)
  have other: "child_at opss st ?m c (b c)" if "c < length opss" "c \<noteq> c0" for c
    using all_atD [OF all that(1)] move [OF that(1) others [OF that]] kids [OF that(1)] that(2) by (auto simp: child_at_def b_def)
  have here: "child_at opss st ?m c0 (passed M (es c0) p)" using c0 kids [OF c0(1)] by (simp add: child_at_def)
  then have "all_at ?m (\<lambda>c. if c = c0 then passed M (es c0) p else b c)"
    using other all by (auto simp: all_at_def other_children_def)
  then show ?thesis
    by (rule stands_at [OF ok p _ c0(1) _ c0(3) here others]) (use c0(2) other in \<open>simp_all add: b_def other_children_def\<close>)
qed

lemma seek_key:
  assumes "merge_stands M m p" and "p < length M" and c: "c < length opss" and "wraps (opss ! c) w it" and "st c it i"
  defines "w1 \<equiv> Wrapper_apply (opss ! c) (\<lambda>it. it_Seek (opss ! c) it (Merging_key m)) w"
  obtains it1 where "wraps (opss ! c) w1 it1" and "st c it1 (passed M (es c) p)"
    and "iw_valid w1 \<longleftrightarrow> passed M (es c) p < length (es c)"
    and "iw_valid w1 \<longrightarrow> iw_key w1 = fst (es c ! passed M (es c) p)"
proof -
  have ok: "merge_ok M" using assms(1) by (simp add: merge_stands_def)
  have "target_ok (Merging_key m)" using ok assms(2) stands_key(2) [OF assms(1,2)] by (simp add: merge_ok_def)
  then have st: "st c (it_Seek (opss ! c) it (Merging_key m)) (first_ge cmp (es c) (Merging_key m))"
    by (rule entry_iterator.seek_at [OF child [OF c] assms(5)])
  have "first_ge cmp (es c) (Merging_key m) = passed M (es c) p"
    by (rule first_ge_passed [OF ok c]) (simp add: stands_key(2) [OF assms(1,2)] M_less [OF ok _ assms(2)])
  then have st1: "st c (it_Seek (opss ! c) it (Merging_key m)) (passed M (es c) p)" using st by simp
  have w1: "wraps (opss ! c) w1 (it_Seek (opss ! c) it (Merging_key m))" unfolding w1_def by (rule wraps_apply [OF assms(4)])
  show ?thesis
    by (rule that [OF w1 st1])
      (use w1 entry_iterator.valid_iff [OF child [OF c] st1] entry_iterator.key_at [OF child [OF c] st1] in \<open>auto simp: wraps_def\<close>)
qed

lemma turn_forward_stands:
  assumes "merge_stands M m p" and p: "p < length M"
  shows "merge_stands M (turn_forward cmp opss m) p"
  unfolding turn_forward_def
proof (rule other_children_stands [OF assms])
  fix c w it i assume c: "c < length opss" and other: "M ! p \<notin> set (es c)" and w: "wraps (opss ! c) w it" "st c it i"
  have ok: "merge_ok M" using assms(1) by (simp add: merge_stands_def)
  let ?w1 = "Wrapper_apply (opss ! c) (\<lambda>it. it_Seek (opss ! c) it (Merging_key m)) w"
  obtain it1 where it1: "wraps (opss ! c) ?w1 it1" "st c it1 (passed M (es c) p)"
    and valid: "iw_valid ?w1 \<longleftrightarrow> passed M (es c) p < length (es c)"
    and key: "iw_valid ?w1 \<longrightarrow> iw_key ?w1 = fst (es c ! passed M (es c) p)"
    by (rule seek_key [OF assms c w])
  have "\<not> (iw_valid ?w1 \<and> cmp (Merging_key m) (iw_key ?w1) = 0)"
  proof
    assume a: "iw_valid ?w1 \<and> cmp (Merging_key m) (iw_key ?w1) = 0"
    then have i: "passed M (es c) p < length (es c)" using valid by simp
    obtain q where q: "q < length M" "es c ! passed M (es c) p = M ! q" "target_ok (fst (es c ! passed M (es c) p))"
      using child_entry [OF ok c nth_mem [OF i]] .
    have "cmp (fst (M ! p)) (fst (M ! q)) = 0" using a key q(2) by (simp add: stands_key(2) [OF assms])
    moreover from this have "\<not> cmp (fst (M ! q)) (fst (M ! p)) < 0"
      using flip [of "fst (M ! q)" "fst (M ! p)"] q ok p by (simp add: merge_ok_def)
    ultimately have "p = q" using M_less [OF ok p q(1)] M_less [OF ok q(1) p] by simp
    then show False using other nth_mem [OF i] q(2) by simp
  qed
  then show "\<exists>it'. wraps (opss ! c) (let child = ?w1 in if iw_valid child \<and> cmp (Merging_key m) (iw_key child) = 0
      then Wrapper_apply (opss ! c) (it_Next (opss ! c)) child else child) it' \<and>
      st c it' (case kForward of kForward \<Rightarrow> passed M (es c) p | kReverse \<Rightarrow> stepped_back M (es c) p)"
    using it1 by (auto simp: Let_def)
qed

lemma turn_reverse_stands:
  assumes "merge_stands M m p" and p: "p < length M"
  shows "merge_stands M (turn_reverse opss m) p"
  unfolding turn_reverse_def
proof (rule other_children_stands [OF assms])
  fix c w it i assume c: "c < length opss" and other: "M ! p \<notin> set (es c)" and w: "wraps (opss ! c) w it" "st c it i"
  let ?w1 = "Wrapper_apply (opss ! c) (\<lambda>it. it_Seek (opss ! c) it (Merging_key m)) w"
  obtain it1 where it1: "wraps (opss ! c) ?w1 it1" "st c it1 (passed M (es c) p)"
    and valid: "iw_valid ?w1 \<longleftrightarrow> passed M (es c) p < length (es c)"
    by (rule seek_key [OF assms c w])
  have "st c (if iw_valid ?w1 then it_Prev (opss ! c) it1 else it_SeekToLast (opss ! c) it1) (stepped_back M (es c) p)"
  proof (cases "iw_valid ?w1")
    case True
    then show ?thesis
      using entry_iterator.prev_at [OF child [OF c] it1(2)] valid by (simp add: stepped_back_def)
  next
    case False
    moreover have "passed M (es c) p = length (es c)" using False valid passed_bounds(2) [of M "es c" p] by simp
    moreover from this have "stepped_back M (es c) p = length (es c) - 1" by (simp add: stepped_back_def)
    ultimately show ?thesis using entry_iterator.last_at [OF child [OF c] it1(2)] by simp
  qed
  then show "\<exists>it'. wraps (opss ! c) (let child = ?w1 in if iw_valid child
      then Wrapper_apply (opss ! c) (it_Prev (opss ! c)) child else Wrapper_apply (opss ! c) (it_SeekToLast (opss ! c)) child) it' \<and>
      st c it' (case kReverse of kForward \<Rightarrow> passed M (es c) p | kReverse \<Rightarrow> stepped_back M (es c) p)"
    using wraps_apply [OF it1(1)] by (auto simp: Let_def split: if_splits)
qed

lemma current_moved:
  assumes "merge_stands M m p" and "p < length M"
    and "\<And>c it. c < length opss \<Longrightarrow> M ! p \<in> set (es c) \<Longrightarrow> st c it (passed M (es c) p) \<Longrightarrow> st c (f (opss ! c) it) (b c)"
    and "\<And>c. c < length opss \<Longrightarrow> M ! p \<notin> set (es c) \<Longrightarrow>
      b c = (case mi_direction m of kForward \<Rightarrow> passed M (es c) p | kReverse \<Rightarrow> stepped_back M (es c) p)"
  shows "all_at (move_current opss f m) b"
proof -
  obtain c0 b0 where c0: "c0 < length opss" "mi_current m = Some c0" "M ! p \<in> set (es c0)" "child_at opss st m c0 (passed M (es c0) p)"
    and others: "\<And>c. c < length opss \<Longrightarrow> c \<noteq> c0 \<Longrightarrow> M ! p \<notin> set (es c) \<and> child_at opss st m c
      (case mi_direction m of kForward \<Rightarrow> passed M (es c) p | kReverse \<Rightarrow> stepped_back M (es c) p)" and all: "all_at m b0"
    using assms(1,2) by (auto simp: merge_stands_def)
  have "child_at opss st (move_current opss f m) c (b c)" if c: "c < length opss" for c
  proof (cases "c = c0")
    case True
    then show ?thesis
      using child_moved [OF c0(4) assms(3) [OF c0(1,3)]] c0 all by (simp add: child_at_def move_current_def all_at_def Let_def)
  next
    case False
    then show ?thesis
      using others [OF c False] assms(4) [OF c] c0 by (simp add: child_at_def move_current_def Let_def)
  qed
  then show ?thesis using all by (simp add: all_at_def move_current_def Let_def)
qed

lemma Next_stands:
  assumes "merge_stands M m p" and p: "p < length M"
  shows "merge_stands M (Merging_Next cmp opss m) (Suc p)"
proof -
  define m1 where "m1 = (if mi_direction m \<noteq> kForward then turn_forward cmp opss m else m)"
  have dir: "mi_direction m1 = kForward" by (simp add: m1_def turn_forward_def)
  have m1: "merge_stands M m1 p" using assms turn_forward_stands by (simp add: m1_def)
  have ok: "merge_ok M" using assms(1) by (simp add: merge_stands_def)
  have all: "all_at (move_current opss it_Next m1) (\<lambda>c. passed M (es c) (Suc p))"
  proof (rule current_moved [OF m1 p])
    fix c assume c: "c < length opss"
    note suc = passed_Suc [OF child_distinct [OF ok c] M_distinct [OF ok] p]
    show "st c (it_Next (opss ! c) it) (passed M (es c) (Suc p))" if "M ! p \<in> set (es c)" "st c it (passed M (es c) p)" for it
      using entry_iterator.next_at [OF child [OF c] that(2) owner_position(1) [OF ok p c that(1)]] suc that(1) by simp
    show "passed M (es c) (Suc p) = (case mi_direction m1 of kForward \<Rightarrow> passed M (es c) p | kReverse \<Rightarrow> stepped_back M (es c) p)"
      if "M ! p \<notin> set (es c)" using suc that dir by simp
  qed
  have "mi_direction (move_current opss it_Next m1) = kForward" using dir by (simp add: move_current_def Let_def)
  then have "merge_stands M (FindSmallest cmp (move_current opss it_Next m1)) (Suc p)"
    using p by (intro smallest_stands [OF ok _ all]) simp_all
  then show ?thesis by (simp add: Merging_Next_def m1_def Let_def)
qed

lemma Prev_stands:
  assumes "merge_stands M m p" and p: "p < length M"
  shows "merge_stands M (Merging_Prev cmp opss m) (if p = 0 then length M else p - 1)"
proof -
  define m1 where "m1 = (if mi_direction m \<noteq> kReverse then turn_reverse opss m else m)"
  have dir: "mi_direction m1 = kReverse" by (simp add: m1_def turn_reverse_def)
  have m1: "merge_stands M m1 p" using assms turn_reverse_stands by (simp add: m1_def)
  have ok: "merge_ok M" using assms(1) by (simp add: merge_stands_def)
  have all: "all_at (move_current opss it_Prev m1) (\<lambda>c. stepped_back M (es c) p)"
  proof (rule current_moved [OF m1 p])
    fix c assume c: "c < length opss"
    show "st c (it_Prev (opss ! c) it) (stepped_back M (es c) p)" if "M ! p \<in> set (es c)" "st c it (passed M (es c) p)" for it
      using entry_iterator.prev_at [OF child [OF c] that(2) owner_position(1) [OF ok p c that(1)]] by (simp add: stepped_back_def)
    show "stepped_back M (es c) p = (case mi_direction m1 of kForward \<Rightarrow> passed M (es c) p | kReverse \<Rightarrow> stepped_back M (es c) p)"
      using dir by simp
  qed
  have "mi_direction (move_current opss it_Prev m1) = kReverse" using dir by (simp add: move_current_def Let_def)
  then have "merge_stands M (FindLargest cmp (move_current opss it_Prev m1)) (if p = 0 then length M else p - 1)"
    using p by (intro largest_stands [OF ok _ all]) simp_all
  then show ?thesis by (simp add: Merging_Prev_def m1_def Let_def)
qed

lemma Seek_stands:
  assumes "merge_stands M m p"
  shows "target_ok t \<Longrightarrow> merge_stands M (Merging_Seek cmp opss m t) (first_ge cmp M t)"
    and "merge_stands M (Merging_SeekToFirst cmp opss m) 0"
    and "merge_stands M (Merging_SeekToLast cmp opss m) (length M - 1)"
proof -
  have ok: "merge_ok M" using assms(1) by (simp add: merge_stands_def)
  obtain b where b: "all_at m b" using assms by (auto simp: merge_stands_def)
  let ?kids = "\<lambda>f dir. (children_apply opss f m)\<lparr>mi_direction := dir\<rparr>"
  have moved: "all_at (?kids f dir) b'" if "\<And>c it i. c < length opss \<Longrightarrow> st c it i \<Longrightarrow> st c (f (opss ! c) it) (b' c)" for f dir b'
    using all_moved [OF b that] by (rule all_at_same) simp_all
  show "merge_stands M (Merging_SeekToFirst cmp opss m) 0"
  proof -
    have "all_at (?kids it_SeekToFirst kForward) (\<lambda>c. passed M (es c) 0)"
      by (rule moved) (simp add: entry_iterator.first_at [OF child])
    from smallest_stands [OF ok _ this] show ?thesis by (simp add: Merging_SeekToFirst_def Find_direction)
  qed
  show "merge_stands M (Merging_SeekToLast cmp opss m) (length M - 1)"
  proof -
    have "passed M (es c) (length M) = length (es c)" if c: "c < length opss" for c
    proof -
      have "e \<in> set M" if "e \<in> set (es c)" for e using child_entry [OF ok c that] by (metis nth_mem)
      then show ?thesis by (simp add: passed_def filter_id_conv)
    qed
    then have "all_at (?kids it_SeekToLast kReverse) (\<lambda>c. stepped_back M (es c) (length M))"
      by (intro moved) (auto simp: stepped_back_def dest: entry_iterator.last_at [OF child])
    from largest_stands [OF ok _ this] show ?thesis
      by (cases "length M = 0") (simp_all add: Merging_SeekToLast_def Find_direction)
  qed
  assume t: "target_ok t"
  let ?p = "first_ge cmp M t"
  have "cmp (fst (M ! q)) t < 0 \<longleftrightarrow> q < ?p" if q: "q < length M" for q
  proof (cases "q < ?p")
    case False
    then have "\<not> cmp (fst (M ! ?p)) t < 0" using first_ge_here [of cmp M t] q by simp
    moreover have "?p = q \<or> cmp (fst (M ! ?p)) (fst (M ! q)) < 0" using False M_less [OF ok _ q, of ?p] q by auto
    ultimately show ?thesis
      using less_trans [of "fst (M ! ?p)" "fst (M ! q)" t] ok t q False by (auto simp: merge_ok_def)
  qed (simp add: first_ge_before)
  then have "first_ge cmp (es c) t = passed M (es c) ?p" if "c < length opss" for c using first_ge_passed [OF ok that] by simp
  then have "all_at (?kids (\<lambda>ops it. it_Seek ops it t) kForward) (\<lambda>c. passed M (es c) ?p)"
    by (intro moved) (metis entry_iterator.seek_at [OF child] t)
  from smallest_stands [OF ok first_ge_le this] show "merge_stands M (Merging_Seek cmp opss m t) ?p"
    by (simp add: Merging_Seek_def Find_direction)
qed

lemma merging_status:
  assumes "merge_stands M m p"
  shows "ok (Merging_status opss m)"
proof -
  obtain b where b: "all_at m b" using assms by (auto simp: merge_stands_def)
  then have "\<forall>s \<in> set (map2 Wrapper_status opss (mi_children m)). ok s"
    using child_status [OF _ all_atD [OF b]] by (auto simp: set_zip all_at_def)
  moreover have "ok (first_error ss s)" if "\<forall>s \<in> set ss. ok s" "ok s" for ss s using that by (induction ss arbitrary: s) simp_all
  ultimately show ?thesis by (simp add: Merging_status_def)
qed

lemma merging_iterator: "entry_iterator (Merging_class cmp opss) cmp M (merge_stands M) target_ok"
proof
  fix m p assume st: "merge_stands M m p"
  show "p \<le> length M" using st by (simp add: merge_stands_def)
  show "it_Valid (Merging_class cmp opss) m = (p < length M)"
    using st stands_key(1) [OF st] by (cases "p < length M") (auto simp: Merging_class_def Merging_Valid_def merge_stands_def)
  show "ok (it_status (Merging_class cmp opss) m)" using merging_status [OF st] by (simp add: Merging_class_def)
  show "merge_stands M (it_SeekToFirst (Merging_class cmp opss) m) 0"
    "merge_stands M (it_SeekToLast (Merging_class cmp opss) m) (length M - 1)"
    "target_ok t \<Longrightarrow> merge_stands M (it_Seek (Merging_class cmp opss) m t) (first_ge cmp M t)" for t
    using Seek_stands [OF st] by (simp_all add: Merging_class_def)
  assume "p < length M"
  then show "it_key (Merging_class cmp opss) m = fst (M ! p)" "it_value (Merging_class cmp opss) m = snd (M ! p)"
    "merge_stands M (it_Next (Merging_class cmp opss) m) (Suc p)"
    "merge_stands M (it_Prev (Merging_class cmp opss) m) (if p = 0 then length M else p - 1)"
    using stands_key [OF st] Next_stands [OF st] Prev_stands [OF st] by (simp_all add: Merging_class_def)
qed

lemma sorted_unique:
  assumes "sorted_wrt (\<lambda>x y. cmp (fst x) (fst y) < 0) xs" and "sorted_wrt (\<lambda>x y. cmp (fst x) (fst y) < 0) ys"
    and "set xs = set ys" and "\<forall>e \<in> set xs. target_ok (fst e)"
  shows "xs = ys"
  using assms
proof (induction xs arbitrary: ys)
  case (Cons x xs)
  then obtain y ys' where ys: "ys = y # ys'" by (cases ys) auto
  have ok: "target_ok (fst x)" "target_ok (fst y)" using Cons.prems(3,4) ys by auto
  have "x = y"
  proof (rule ccontr)
    assume "x \<noteq> y"
    then have "x \<in> set ys'" "y \<in> set xs" using Cons.prems(3) ys by auto
    then have "cmp (fst y) (fst x) < 0" "cmp (fst x) (fst y) < 0" using Cons.prems(1,2) ys by auto
    then show False using flip [OF ok] by simp
  qed
  moreover have "distinct (x # xs)" by (rule sorted_distinct [OF Cons.prems(1,4)])
  moreover have "distinct ys" using Cons.prems(3,4) by (intro sorted_distinct [OF Cons.prems(2)]) simp
  ultimately have "set xs = set ys'" using Cons.prems(3) ys by simp (metis insert_ident)
  then show ?case using Cons.IH [of ys'] Cons.prems ys \<open>x = y\<close> by simp
qed simp

fun merged_stands :: "entry list \<Rightarrow> 'i merged \<Rightarrow> nat \<Rightarrow> bool" where
  "merged_stands M (NoChild s) p \<longleftrightarrow> merge_ok M \<and> length opss = 0 \<and> ok s \<and> p = 0"
| "merged_stands M (OneChild it) p \<longleftrightarrow> merge_ok M \<and> length opss = 1 \<and> st 0 it p"
| "merged_stands M (Children m) p \<longleftrightarrow> merge_stands M m p"

lemma merged_iterator: "entry_iterator (merged_class cmp opss) cmp M (merged_stands M) target_ok"
proof -
  have none: "M = []" if "merge_ok M" "length opss = 0" using that by (auto simp: merge_ok_def merges_def)
  have one: "M = es 0" if "merge_ok M" "length opss = 1"
    using that by (intro sorted_unique) (auto simp: merge_ok_def merges_def)
  let ?c = "merged_class cmp opss" and ?stands = "merged_stands M"
  have all: "p \<le> length M \<and> it_Valid ?c m = (p < length M) \<and> ok (it_status ?c m) \<and>
    ?stands (it_SeekToFirst ?c m) 0 \<and> ?stands (it_SeekToLast ?c m) (length M - 1) \<and>
    (\<forall>t. target_ok t \<longrightarrow> ?stands (it_Seek ?c m t) (first_ge cmp M t)) \<and>
    (p < length M \<longrightarrow> it_key ?c m = fst (M ! p) \<and> it_value ?c m = snd (M ! p) \<and>
      ?stands (it_Next ?c m) (Suc p) \<and> ?stands (it_Prev ?c m) (if p = 0 then length M else p - 1))"
    if st: "?stands m p" for m p
  proof (cases m)
    case (NoChild s)
    then show ?thesis using st none by (simp add: merged_class_def EmptyIterator_class_def first_ge_def del: length_0_conv)
  next
    case (OneChild it)
    then have ok: "merge_ok M" "length opss = 1" and s: "st 0 it p" using st by simp_all
    then have c: "0 < length opss" by simp
    show ?thesis
      using ok entry_iterator.stands_le [OF child [OF c] s] entry_iterator.valid_iff [OF child [OF c] s]
        entry_iterator.status_at [OF child [OF c] s] entry_iterator.first_at [OF child [OF c] s]
        entry_iterator.last_at [OF child [OF c] s] entry_iterator.seek_at [OF child [OF c] s]
        entry_iterator.key_at [OF child [OF c] s] entry_iterator.value_at [OF child [OF c] s]
        entry_iterator.next_at [OF child [OF c] s] entry_iterator.prev_at [OF child [OF c] s]
      by (cases "p = 0") (simp_all add: OneChild merged_class_def one [OF ok])
  next
    case (Children m')
    then have s: "merge_stands M m' p" using st by simp
    show ?thesis
      using entry_iterator.stands_le [OF merging_iterator s] entry_iterator.valid_iff [OF merging_iterator s]
        entry_iterator.status_at [OF merging_iterator s] entry_iterator.first_at [OF merging_iterator s]
        entry_iterator.last_at [OF merging_iterator s] entry_iterator.seek_at [OF merging_iterator s]
        entry_iterator.key_at [OF merging_iterator s] entry_iterator.value_at [OF merging_iterator s]
        entry_iterator.next_at [OF merging_iterator s] entry_iterator.prev_at [OF merging_iterator s]
      by (simp add: Children merged_class_def)
  qed
  show ?thesis
    by unfold_locales (use all in blast)+
qed

lemma new_merged:
  assumes ok: "merge_ok M" and "length its = length opss" and "\<And>c. c < length opss \<Longrightarrow> st c (its ! c) (pos c)"
  shows "\<exists>p. merged_stands M (NewMergingIterator opss its) p"
proof -
  consider "length its = 0" | "length its = 1" | "1 < length its" by linarith
  then show ?thesis
  proof cases
    case 3
    have "all_at (MergingIterator opss its) pos"
      using assms(2,3) by (auto simp: all_at_def child_at_def MergingIterator_def new_Wrapper_def intro!: exI [where x = "its ! c" for c])
    from stands_end [OF ok this] show ?thesis
      using 3 by (auto simp: NewMergingIterator_def MergingIterator_def)
  qed (use assms in \<open>auto simp: NewMergingIterator_def NewEmptyIterator_def simp del: length_0_conv\<close>)
qed

end

subsection \<open>Merging memtables\<close>

lemma internal_key_order: "key_order (InternalKey_Compare BytewiseCompare) (\<lambda>k. 8 \<le> length k \<and> length k < 2 ^ 32)"
  using bytewise.internal.order.flip bytewise.internal.order.le_less_trans by unfold_locales blast+

text \<open>The iterators of memtables meet the contract of the children, whatever entries the tables hold.\<close>

interpretation mem_merge: merged_children "InternalKey_Compare (cmp_Compare BytewiseComparator)" "\<lambda>k. 8 \<le> length k \<and> length k < 2 ^ 32"
    "map MemTableIterator_class ms" es "\<lambda>c. mem_stands BytewiseComparator (ms ! c) (es c)"
  for ms es
proof (intro merged_children.intro merged_children_axioms.intro)
  show "key_order (InternalKey_Compare (cmp_Compare BytewiseComparator)) (\<lambda>k. 8 \<le> length k \<and> length k < 2 ^ 32)"
    using internal_key_order by (simp add: BytewiseComparator_def)
qed (simp only: length_map nth_map mem_iter.entry_iterator_axioms)

subsection \<open>Properties\<close>

text \<open>
  Claim C7: a merging iterator over any number of children, none and one included, is a cursor over the
  merge of their entries. Whatever classes the children have, if each meets the iterator contract and
  no two of them share a key, then after every sequence of operations that a client may make, with any seeks and any changes
  of direction, the iterator is valid, shows an entry and goes on in both directions as the cursor does.
\<close>

theorem merging_iterator_merges:
  assumes "key_order cmp target_ok" and "\<forall>c < length opss. entry_iterator (opss ! c) cmp (es c) (st c) target_ok"
    and "length its = length opss" and "\<forall>c < length opss. st c (its ! c) (pos c)"
    and "merges cmp (length opss) es M" and "\<forall>e \<in> set M. target_ok (fst e)" and "length M \<le> n"
    and "as \<noteq> []" and "\<forall>t \<in> set (move_targets as). target_ok t" and "cursor_run cmp M as (length M) = Some q"
  shows "let ops = merged_class cmp opss; it = it_run ops as (NewMergingIterator opss its) in
    (it_Valid ops it \<longleftrightarrow> q < length M) \<and> ok (it_status ops it) \<and>
    (q < length M \<longrightarrow> (it_key ops it, it_value ops it) = M ! q) \<and>
    collect ops n it = drop q M \<and>
    (q < length M \<longrightarrow> collect_back ops n it = rev (take (Suc q) M))"
proof -
  have mc: "merged_children cmp target_ok opss es st"
    by (intro merged_children.intro merged_children_axioms.intro) (use assms(1,2) in blast)+
  have ok: "merged_children.merge_ok cmp target_ok opss es M"
    unfolding merged_children.merge_ok_def [OF mc] using assms(5,6) by blast
  obtain p where st: "merged_children.merged_stands cmp target_ok opss es st M (NewMergingIterator opss its) p"
    using merged_children.new_merged [OF mc ok assms(3)] assms(4) by blast
  note it = merged_children.merged_iterator [OF mc, of M]
  note at = entry_iterator.run_from_anywhere [OF it st assms(8,10,9)]
  show ?thesis
    using entry_iterator.valid_iff [OF it at] entry_iterator.status_at [OF it at] entry_iterator.key_at [OF it at] entry_iterator.value_at [OF it at]
      entry_iterator.collect_at [OF it at, of n] entry_iterator.collect_back_at [OF it at, of n] assms(7)
    by (simp add: Let_def prod_eq_iff)
qed

text \<open>A memtable with one entry, and its new iterator.\<close>

lemma one_entry:
  assumes "entry_ok (InternalKey k s t, v)"
  shows "\<exists>m. MemTable_Add h s t k v (MemTable h BytewiseComparator) = Some m \<and>
    mem_stands BytewiseComparator m [(InternalKey k s t, v)] MemTable_NewIterator 1"
proof -
  obtain m where m: "MemTable_Add h s t k v (MemTable h BytewiseComparator) = Some m"
      "mem_holds BytewiseComparator m [(InternalKey k s t, v)]"
    using Add_holds [OF uc_bytewise MemTable_holds assms] by (auto simp: insert_entry_def)
  from m(2) have "mem_stands BytewiseComparator m [(InternalKey k s t, v)] MemTable_NewIterator 1"
    by (rule mem_holds_nodes) (auto simp: mem_stands_def MemTable_NewIterator_def SkipIter_def m(2) [unfolded mem_holds_def])
  then show ?thesis using m(1) by blast
qed

text \<open>The last entry, the one before it, and back again: the children turn around twice.\<close>

theorem merging_iterator_merges_witness:
  "\<exists>m1 m2. MemTable_Add bump_heap 5 kTypeValue [7] [1] (MemTable bump_heap BytewiseComparator) = Some m1 \<and>
    MemTable_Add bump_heap 9 kTypeValue [7] [2] (MemTable bump_heap BytewiseComparator) = Some m2 \<and>
    (let ops = merged_class (InternalKey_Compare BytewiseCompare) [MemTableIterator_class m1, MemTableIterator_class m2];
         it = NewMergingIterator [MemTableIterator_class m1, MemTableIterator_class m2] [MemTable_NewIterator, MemTable_NewIterator]
     in collect ops 2 (it_run ops [ToLast, Backward, Forward, Backward] it) =
       [(InternalKey [7] 9 kTypeValue, [2]), (InternalKey [7] 5 kTypeValue, [1])])"
proof -
  let ?e1 = "(InternalKey [7] 5 kTypeValue, [1 :: byte])" and ?e2 = "(InternalKey [7] 9 kTypeValue, [2 :: byte])"
  obtain m1 where m1: "MemTable_Add bump_heap 5 kTypeValue [7] [1] (MemTable bump_heap BytewiseComparator) = Some m1"
      "mem_stands BytewiseComparator m1 [?e1] MemTable_NewIterator 1"
    using one_entry [of "[7]" 5 kTypeValue "[1]" bump_heap] by (auto simp: entry_ok_def InternalKey_eq)
  obtain m2 where m2: "MemTable_Add bump_heap 9 kTypeValue [7] [2] (MemTable bump_heap BytewiseComparator) = Some m2"
      "mem_stands BytewiseComparator m2 [?e2] MemTable_NewIterator 1"
    using one_entry [of "[7]" 9 kTypeValue "[2]" bump_heap] by (auto simp: entry_ok_def InternalKey_eq)
  let ?es = "\<lambda>c. if c = (0 :: nat) then [?e1] else [?e2]" and ?m = "\<lambda>c. if c = (0 :: nat) then m1 else m2"
  let ?cmp = "InternalKey_Compare BytewiseCompare" and ?ok = "\<lambda>k :: bytes. 8 \<le> length k \<and> length k < 2 ^ 32"
  have less: "?cmp (fst ?e2) (fst ?e1) < 0"
    by (subst fst_conv, subst fst_conv, subst InternalKey_Compare_keys)
      (simp_all add: kMaxSequenceNumber_def BytewiseCompare_def slice_compare_iffs)
  have ne: "?e1 \<noteq> ?e2" by simp
  have it: "entry_iterator (MemTableIterator_class m) ?cmp es (mem_stands BytewiseComparator m es) ?ok" for m es
    using mem_iter.entry_iterator_axioms by (simp add: BytewiseComparator_def)
  let ?opss = "[MemTableIterator_class m1, MemTableIterator_class m2]" and ?its = "[MemTable_NewIterator, MemTable_NewIterator]"
  let ?st = "\<lambda>c. mem_stands BytewiseComparator (?m c) (?es c)"
  have children: "\<forall>c < length ?opss. entry_iterator (?opss ! c) ?cmp (?es c) (?st c) ?ok"
    using it by (simp add: less_2_cases_iff)
  have pos: "\<forall>c < length ?opss. ?st c (?its ! c) 1" using m1(2) m2(2) by (simp add: less_2_cases_iff)
  have merges: "merges ?cmp (length ?opss) ?es [?e2, ?e1]" using less ne by (auto simp: merges_def lessThan_Suc less_Suc_eq)
  have keys: "\<forall>e \<in> set [?e2, ?e1]. ?ok (fst e)" by (simp add: InternalKey_eq)
  have len: "length ?its = length ?opss" "length [?e2, ?e1] \<le> 2" by simp_all
  have as: "\<forall>t \<in> set (move_targets [ToLast, Backward, Forward, Backward]). ?ok t" "[ToLast, Backward, Forward, Backward] \<noteq> []"
    "cursor_run ?cmp [?e2, ?e1] [ToLast, Backward, Forward, Backward] (length [?e2, ?e1]) = Some 0"
    by (simp_all add: move_targets_def)
  from merging_iterator_merges [OF internal_key_order children len(1) pos merges keys len(2) as(2,1,3)]
  show ?thesis using m1(1) m2(1) unfolding Let_def drop_0 by blast
qed

end
