(* ===== verification/LDB_Version.thy ===== *)
theory LDB_Version
  imports Complex_Main LDB_VersionEdit LDB_Options LDB_TwoLevel
begin

text \<open>
  The classes \<^verbatim>\<open>Version\<close> and the file searches of \<^verbatim>\<open>db/version_set.cc\<close>. Versions share their files, so a
  file is a pointer into a store of \<^verbatim>\<open>FileMetaData\<close> objects and a version holds pointers; what changes in
  a file, its reference count and the seeks allowed, changes for every version that has it. The
  indices of the binary search are natural numbers: the sum of two of them wraps in the sources only for
  a vector with more than \<open>2 ^ 31\<close> files.
\<close>

subsection \<open>Limits\<close>

text \<open>
  The sizes are computed in \<^verbatim>\<open>int\<close>, whatever the result type is. A product out of range is undefined
  in C++; it wraps here, as it does on the machines the library supports.
\<close>

definition TargetFileSize :: "db_options \<Rightarrow> 32 word" where
  "TargetFileSize options = word_of_nat (opt_max_file_size options)"

definition MaxGrandParentOverlapBytes :: "db_options \<Rightarrow> int" where
  "MaxGrandParentOverlapBytes options = sint (10 * TargetFileSize options)"

definition ExpandedCompactionByteSizeLimit :: "db_options \<Rightarrow> int" where
  "ExpandedCompactionByteSizeLimit options = sint (25 * TargetFileSize options)"

fun MaxBytesForLevel :: "nat \<Rightarrow> rat" where
  "MaxBytesForLevel level = (if level > 1 then MaxBytesForLevel (level - 1) * 10 else 10 * 1048576)"

declare MaxBytesForLevel.simps [simp del]

definition MaxFileSizeForLevel :: "db_options \<Rightarrow> nat \<Rightarrow> u64" where
  "MaxFileSizeForLevel options level = scast (TargetFileSize options)"

definition TotalFileSize :: "FileMetaData list \<Rightarrow> int" where
  "TotalFileSize files = sint (sum_list (map fm_file_size files))"

subsection \<open>Searching for files\<close>

function FindFile_loop :: "(bytes \<Rightarrow> bytes \<Rightarrow> int) \<Rightarrow> FileMetaData list \<Rightarrow> bytes \<Rightarrow> nat \<Rightarrow> nat \<Rightarrow> nat" where
  "FindFile_loop icmp files key left right =
     (if left < right then
        let mid = (left + right) div 2;
            f = files ! mid
        in if icmp (fm_largest f) key < 0 then FindFile_loop icmp files key (mid + 1) right
           else FindFile_loop icmp files key left mid
      else right)"
  by auto
termination
  by (relation "measure (\<lambda>(icmp, files, key, left, right). right - left)") auto

declare FindFile_loop.simps [simp del]

definition FindFile :: "(bytes \<Rightarrow> bytes \<Rightarrow> int) \<Rightarrow> FileMetaData list \<Rightarrow> bytes \<Rightarrow> nat" where
  "FindFile icmp files key = FindFile_loop icmp files key 0 (length files)"

definition AfterFile :: "(bytes \<Rightarrow> bytes \<Rightarrow> int) \<Rightarrow> bytes option \<Rightarrow> FileMetaData \<Rightarrow> bool" where
  "AfterFile ucmp user_key f \<longleftrightarrow>
     (case user_key of None \<Rightarrow> False | Some k \<Rightarrow> ucmp k (ExtractUserKey (fm_largest f)) > 0)"

definition BeforeFile :: "(bytes \<Rightarrow> bytes \<Rightarrow> int) \<Rightarrow> bytes option \<Rightarrow> FileMetaData \<Rightarrow> bool" where
  "BeforeFile ucmp user_key f \<longleftrightarrow>
     (case user_key of None \<Rightarrow> False | Some k \<Rightarrow> ucmp k (ExtractUserKey (fm_smallest f)) < 0)"

fun overlap_loop :: "(bytes \<Rightarrow> bytes \<Rightarrow> int) \<Rightarrow> FileMetaData list \<Rightarrow> bytes option \<Rightarrow> bytes option \<Rightarrow> bool" where
  "overlap_loop ucmp [] smallest_user_key largest_user_key = False"
| "overlap_loop ucmp (f # files) smallest_user_key largest_user_key =
     (if AfterFile ucmp smallest_user_key f \<or> BeforeFile ucmp largest_user_key f
      then overlap_loop ucmp files smallest_user_key largest_user_key
      else True)"

definition SomeFileOverlapsRange ::
    "(bytes \<Rightarrow> bytes \<Rightarrow> int) \<Rightarrow> bool \<Rightarrow> FileMetaData list \<Rightarrow> bytes option \<Rightarrow> bytes option \<Rightarrow> bool" where
  "SomeFileOverlapsRange ucmp disjoint_sorted_files files smallest_user_key largest_user_key =
     (if \<not> disjoint_sorted_files then overlap_loop ucmp files smallest_user_key largest_user_key
      else
        let index =
              (case smallest_user_key of
                 None \<Rightarrow> 0
               | Some k \<Rightarrow> FindFile (InternalKey_Compare ucmp) files (InternalKey k kMaxSequenceNumber kValueTypeForSeek))
        in if index \<ge> length files then False
           else \<not> BeforeFile ucmp largest_user_key (files ! index))"

subsection \<open>The iterator over the files of a level\<close>

definition LevelFileNumIterator_class :: "(bytes \<Rightarrow> bytes \<Rightarrow> int) \<Rightarrow> FileMetaData list \<Rightarrow> nat iterator_class" where
  "LevelFileNumIterator_class icmp flist =
     \<lparr>it_Valid = (\<lambda>index. index < length flist),
      it_SeekToFirst = (\<lambda>index. 0),
      it_SeekToLast = (\<lambda>index. if flist = [] then 0 else length flist - 1),
      it_Seek = (\<lambda>index target. FindFile icmp flist target),
      it_Next = (\<lambda>index. index + 1),
      it_Prev = (\<lambda>index. if index = 0 then length flist else index - 1),
      it_key = (\<lambda>index. fm_largest (flist ! index)),
      it_value = (\<lambda>index. EncodeFixed64 (fm_number (flist ! index)) @ EncodeFixed64 (fm_file_size (flist ! index))),
      it_status = (\<lambda>index. Status_OK)\<rparr>"

definition LevelFileNumIterator :: "FileMetaData list \<Rightarrow> nat" where
  "LevelFileNumIterator flist = length flist"

text \<open>
  What the version needs of the table cache: its iterators, an iterator that holds an error, and
  \<^verbatim>\<open>Get\<close>, which delivers the entry that is handed to the callback, if any.
\<close>

record 'd table_source =
  ts_class :: "'d iterator_class"
  ts_error :: "status \<Rightarrow> 'd"
  ts_NewIterator :: "u64 \<Rightarrow> u64 \<Rightarrow> 'd"
  ts_Get :: "u64 \<Rightarrow> u64 \<Rightarrow> bytes \<Rightarrow> status \<times> entry option"

definition GetFileIterator :: "'d table_source \<Rightarrow> bytes \<Rightarrow> 'd" where
  "GetFileIterator cache file_value =
     (if length file_value \<noteq> 16 then ts_error cache (Status_Corruption (str ''FileReader invoked with unexpected value'') [])
      else ts_NewIterator cache (DecodeFixed64 file_value) (DecodeFixed64 (drop 8 file_value)))"

definition level_env :: "(bytes \<Rightarrow> bytes \<Rightarrow> int) \<Rightarrow> 'd table_source \<Rightarrow> FileMetaData list \<Rightarrow> (nat, 'd) two_level_env" where
  "level_env icmp cache flist =
     \<lparr>te_index = LevelFileNumIterator_class icmp flist, te_data = ts_class cache, te_block_function = GetFileIterator cache\<rparr>"

definition NewConcatenatingIterator ::
    "(bytes \<Rightarrow> bytes \<Rightarrow> int) \<Rightarrow> 'd table_source \<Rightarrow> FileMetaData list \<Rightarrow> (nat, 'd) two_level_iter" where
  "NewConcatenatingIterator icmp cache flist =
     NewTwoLevelIterator (level_env icmp cache flist) (LevelFileNumIterator flist)"

subsection \<open>Versions\<close>

type_synonym file_ptr = nat
type_synonym file_store = "file_ptr \<Rightarrow> FileMetaData"

record version =
  v_refs :: int
  v_files :: "nat \<Rightarrow> file_ptr list"
  v_file_to_compact :: "file_ptr option"
  v_file_to_compact_level :: int
  v_compaction_score :: rat
  v_compaction_level :: int

definition new_Version :: version where
  "new_Version =
     \<lparr>v_refs = 0, v_files = (\<lambda>level. []), v_file_to_compact = None, v_file_to_compact_level = - 1,
      v_compaction_score = - 1, v_compaction_level = - 1\<rparr>"

abbreviation level_files :: "file_store \<Rightarrow> version \<Rightarrow> nat \<Rightarrow> FileMetaData list" where
  "level_files h v level \<equiv> map h (v_files v level)"

text \<open>The iterators that yield a version when merged: of tables for level 0, of levels for the others.\<close>

definition AddIterators ::
    "(bytes \<Rightarrow> bytes \<Rightarrow> int) \<Rightarrow> 'd table_source \<Rightarrow> file_store \<Rightarrow> version \<Rightarrow>
     ('d + (nat, 'd) two_level_iter) list \<Rightarrow> ('d + (nat, 'd) two_level_iter) list" where
  "AddIterators icmp cache h v iters =
     iters @ map (\<lambda>f. Inl (ts_NewIterator cache (fm_number f) (fm_file_size f))) (level_files h v 0) @
     map (\<lambda>level. Inr (NewConcatenatingIterator icmp cache (level_files h v level)))
       (filter (\<lambda>level. v_files v level \<noteq> []) [1..<kNumLevels])"

subsection \<open>Lookups\<close>

datatype saver_state = kNotFound | kFound | kDeleted | kCorrupt

record saver =
  sv_state :: saver_state
  sv_user_key :: bytes
  sv_value :: bytes

definition SaveValue :: "(bytes \<Rightarrow> bytes \<Rightarrow> int) \<Rightarrow> bytes \<Rightarrow> bytes \<Rightarrow> saver \<Rightarrow> saver" where
  "SaveValue ucmp ikey v s =
     (case ParseInternalKey ikey of
        None \<Rightarrow> s\<lparr>sv_state := kCorrupt\<rparr>
      | Some parsed_key \<Rightarrow>
          if ucmp (pik_user_key parsed_key) (sv_user_key s) = 0 then
            let s = s\<lparr>sv_state := (if pik_type parsed_key = kTypeValue then kFound else kDeleted)\<rparr>
            in if sv_state s = kFound then s\<lparr>sv_value := v\<rparr> else s
          else s)"

definition NewestFirst :: "file_store \<Rightarrow> file_ptr \<Rightarrow> file_ptr \<Rightarrow> bool" where
  "NewestFirst h a b \<longleftrightarrow> fm_number (h a) > fm_number (h b)"

text \<open>\<^verbatim>\<open>std::sort\<close> by this order; files of a version have different numbers, so the result is determined.\<close>

definition sort_NewestFirst :: "file_store \<Rightarrow> file_ptr list \<Rightarrow> file_ptr list" where
  "sort_NewestFirst h fs = sort_key (\<lambda>p. - int (unat (fm_number (h p)))) fs"

definition overlapping0 :: "(bytes \<Rightarrow> bytes \<Rightarrow> int) \<Rightarrow> file_store \<Rightarrow> bytes \<Rightarrow> file_ptr list \<Rightarrow> file_ptr list" where
  "overlapping0 ucmp h user_key fs =
     filter (\<lambda>p. ucmp user_key (ExtractUserKey (fm_smallest (h p))) \<ge> 0 \<and>
       ucmp user_key (ExtractUserKey (fm_largest (h p))) \<le> 0) fs"

text \<open>The callback gets its argument and returns it changed, with whether to go on.\<close>

fun call_each :: "('a \<Rightarrow> nat \<Rightarrow> file_ptr \<Rightarrow> bool \<times> 'a) \<Rightarrow> nat \<Rightarrow> file_ptr list \<Rightarrow> 'a \<Rightarrow> bool \<times> 'a" where
  "call_each func level [] arg = (True, arg)"
| "call_each func level (f # fs) arg =
     (let (more, arg) = func arg level f in if \<not> more then (False, arg) else call_each func level fs arg)"

fun each_level ::
    "(bytes \<Rightarrow> bytes \<Rightarrow> int) \<Rightarrow> file_store \<Rightarrow> version \<Rightarrow> bytes \<Rightarrow> bytes \<Rightarrow> ('a \<Rightarrow> nat \<Rightarrow> file_ptr \<Rightarrow> bool \<times> 'a) \<Rightarrow> nat list \<Rightarrow> 'a \<Rightarrow> 'a" where
  "each_level ucmp h v user_key ikey func [] arg = arg"
| "each_level ucmp h v user_key ikey func (level # levels) arg =
     (let num_files = length (v_files v level)
      in if num_files = 0 then each_level ucmp h v user_key ikey func levels arg
         else
           let index = FindFile (InternalKey_Compare ucmp) (level_files h v level) ikey
           in if index < num_files then
                let f = v_files v level ! index
                in if ucmp user_key (ExtractUserKey (fm_smallest (h f))) < 0
                   then each_level ucmp h v user_key ikey func levels arg
                   else
                     let (more, arg) = func arg level f
                     in if \<not> more then arg else each_level ucmp h v user_key ikey func levels arg
              else each_level ucmp h v user_key ikey func levels arg)"

definition ForEachOverlapping ::
    "(bytes \<Rightarrow> bytes \<Rightarrow> int) \<Rightarrow> file_store \<Rightarrow> version \<Rightarrow> bytes \<Rightarrow> bytes \<Rightarrow> ('a \<Rightarrow> nat \<Rightarrow> file_ptr \<Rightarrow> bool \<times> 'a) \<Rightarrow> 'a \<Rightarrow> 'a" where
  "ForEachOverlapping ucmp h v user_key ikey func arg =
     (let tmp = overlapping0 ucmp h user_key (v_files v 0);
          (more, arg) = call_each func 0 (sort_NewestFirst h tmp) arg
      in if \<not> more then arg else each_level ucmp h v user_key ikey func [1..<kNumLevels] arg)"

record get_stats =
  gs_seek_file :: "file_ptr option"
  gs_seek_file_level :: int

text \<open>The files to search in a level.\<close>

definition files_to_search ::
    "(bytes \<Rightarrow> bytes \<Rightarrow> int) \<Rightarrow> file_store \<Rightarrow> version \<Rightarrow> bytes \<Rightarrow> bytes \<Rightarrow> nat \<Rightarrow> file_ptr list" where
  "files_to_search ucmp h v user_key ikey level =
     (if level = 0 then sort_NewestFirst h (overlapping0 ucmp h user_key (v_files v 0))
      else
        let index = FindFile (InternalKey_Compare ucmp) (level_files h v level) ikey
        in if index \<ge> length (v_files v level) then []
           else if ucmp user_key (ExtractUserKey (fm_smallest (h (v_files v level ! index)))) < 0 then []
           else [v_files v level ! index])"

text \<open>The loop over the files of a level: a result of \<^verbatim>\<open>Get\<close>, or the statistics with the last file read.\<close>

fun Get_files ::
    "(bytes \<Rightarrow> bytes \<Rightarrow> int) \<Rightarrow> 'd table_source \<Rightarrow> file_store \<Rightarrow> bytes \<Rightarrow> bytes \<Rightarrow> bytes \<Rightarrow> nat \<Rightarrow> file_ptr list \<Rightarrow>
     get_stats \<times> (file_ptr \<times> nat) option \<Rightarrow>
     (status \<times> bytes \<times> get_stats) + (get_stats \<times> (file_ptr \<times> nat) option)" where
  "Get_files ucmp cache h user_key ikey value level [] (stats, last_file_read) = Inr (stats, last_file_read)"
| "Get_files ucmp cache h user_key ikey value level (f # fs) (stats, last_file_read) =
     (let stats =
            (case last_file_read of
               Some (file, file_level) \<Rightarrow>
                 if gs_seek_file stats = None
                 then stats\<lparr>gs_seek_file := Some file, gs_seek_file_level := int file_level\<rparr> else stats
             | None \<Rightarrow> stats);
          saver = \<lparr>sv_state = kNotFound, sv_user_key = user_key, sv_value = value\<rparr>;
          (s, found) = ts_Get cache (fm_number (h f)) (fm_file_size (h f)) ikey;
          saver = (case found of None \<Rightarrow> saver | Some (k, v) \<Rightarrow> SaveValue ucmp k v saver)
      in if \<not> ok s then Inl (s, sv_value saver, stats)
         else
           case sv_state saver of
             kNotFound \<Rightarrow> Get_files ucmp cache h user_key ikey (sv_value saver) level fs (stats, Some (f, level))
           | kFound \<Rightarrow> Inl (s, sv_value saver, stats)
           | kDeleted \<Rightarrow> Inl (Status_NotFound [] [], sv_value saver, stats)
           | kCorrupt \<Rightarrow> Inl (Status_Corruption (str ''corrupted key for '') user_key, sv_value saver, stats))"

fun Get_levels ::
    "(bytes \<Rightarrow> bytes \<Rightarrow> int) \<Rightarrow> 'd table_source \<Rightarrow> file_store \<Rightarrow> version \<Rightarrow> bytes \<Rightarrow> bytes \<Rightarrow> bytes \<Rightarrow> nat list \<Rightarrow>
     get_stats \<times> (file_ptr \<times> nat) option \<Rightarrow> status \<times> bytes \<times> get_stats" where
  "Get_levels ucmp cache h v user_key ikey value [] (stats, last_file_read) = (Status_NotFound [] [], value, stats)"
| "Get_levels ucmp cache h v user_key ikey value (level # levels) (stats, last_file_read) =
     (if v_files v level = [] then Get_levels ucmp cache h v user_key ikey value levels (stats, last_file_read)
      else
        case Get_files ucmp cache h user_key ikey value level (files_to_search ucmp h v user_key ikey level) (stats, last_file_read) of
          Inl result \<Rightarrow> result
        | Inr state \<Rightarrow> Get_levels ucmp cache h v user_key ikey value levels state)"

definition Version_Get ::
    "(bytes \<Rightarrow> bytes \<Rightarrow> int) \<Rightarrow> 'd table_source \<Rightarrow> file_store \<Rightarrow> version \<Rightarrow> lookup_key \<Rightarrow> bytes \<Rightarrow> status \<times> bytes \<times> get_stats" where
  "Version_Get ucmp cache h v k value =
     Get_levels ucmp cache h v (lookup_user_key k) (internal_key k) value [0..<kNumLevels]
       (\<lparr>gs_seek_file = None, gs_seek_file_level = - 1\<rparr>, None)"

subsection \<open>Seek statistics\<close>

definition UpdateStats :: "get_stats \<Rightarrow> file_store \<Rightarrow> version \<Rightarrow> bool \<times> file_store \<times> version" where
  "UpdateStats stats h v =
     (case gs_seek_file stats of
        None \<Rightarrow> (False, h, v)
      | Some f \<Rightarrow>
          let h = h(f := (h f)\<lparr>fm_allowed_seeks := fm_allowed_seeks (h f) - 1\<rparr>)
          in if fm_allowed_seeks (h f) \<le> 0 \<and> v_file_to_compact v = None
             then (True, h, v\<lparr>v_file_to_compact := Some f, v_file_to_compact_level := gs_seek_file_level stats\<rparr>)
             else (False, h, v))"

record match_state =
  ms_stats :: get_stats
  ms_matches :: nat

definition Match :: "match_state \<Rightarrow> nat \<Rightarrow> file_ptr \<Rightarrow> bool \<times> match_state" where
  "Match state level f =
     (let state = state\<lparr>ms_matches := ms_matches state + 1\<rparr>;
          state = (if ms_matches state = 1
                   then state\<lparr>ms_stats := \<lparr>gs_seek_file = Some f, gs_seek_file_level = int level\<rparr>\<rparr> else state)
      in (ms_matches state < 2, state))"

definition RecordReadSample ::
    "(bytes \<Rightarrow> bytes \<Rightarrow> int) \<Rightarrow> bytes \<Rightarrow> file_store \<Rightarrow> version \<Rightarrow> bool \<times> file_store \<times> version" where
  "RecordReadSample ucmp ikey h v =
     (case ParseInternalKey ikey of
        None \<Rightarrow> (False, h, v)
      | Some parsed \<Rightarrow>
          let state = ForEachOverlapping ucmp h v (pik_user_key parsed) ikey Match
                \<lparr>ms_stats = \<lparr>gs_seek_file = None, gs_seek_file_level = - 1\<rparr>, ms_matches = 0\<rparr>
          in if ms_matches state \<ge> 2 then UpdateStats (ms_stats state) h v else (False, h, v))"

subsection \<open>Overlapping inputs\<close>

text \<open>
  The loop over the files of a level. For level 0 a file that reaches outside of the range widens it
  and the loop starts again; that it ends depends on the order of the keys.
\<close>

definition overlapping_step ::
    "(bytes \<Rightarrow> bytes \<Rightarrow> int) \<Rightarrow> file_store \<Rightarrow> nat \<Rightarrow> file_ptr \<Rightarrow> nat \<times> bytes option \<times> bytes option \<times> file_ptr list \<Rightarrow>
     nat \<times> bytes option \<times> bytes option \<times> file_ptr list" where
  "overlapping_step user_cmp h level f = (\<lambda>(i, user_begin, user_end, inputs).
     let i = i + 1;
         file_start = ExtractUserKey (fm_smallest (h f));
         file_limit = ExtractUserKey (fm_largest (h f))
     in if user_begin \<noteq> None \<and> user_cmp file_limit (the user_begin) < 0 then (i, user_begin, user_end, inputs)
        else if user_end \<noteq> None \<and> user_cmp file_start (the user_end) > 0 then (i, user_begin, user_end, inputs)
        else
          let inputs = inputs @ [f]
          in if level = 0 then
               if user_begin \<noteq> None \<and> user_cmp file_start (the user_begin) < 0 then (0, Some file_start, user_end, [])
               else if user_end \<noteq> None \<and> user_cmp file_limit (the user_end) > 0 then (0, user_begin, Some file_limit, [])
               else (i, user_begin, user_end, inputs)
             else (i, user_begin, user_end, inputs))"

partial_function (option) overlapping_loop ::
    "(bytes \<Rightarrow> bytes \<Rightarrow> int) \<Rightarrow> file_store \<Rightarrow> nat \<Rightarrow> file_ptr list \<Rightarrow> nat \<times> bytes option \<times> bytes option \<times> file_ptr list \<Rightarrow>
     file_ptr list option" where
  "overlapping_loop user_cmp h level files state =
     (if fst state < length files
      then overlapping_loop user_cmp h level files (overlapping_step user_cmp h level (files ! fst state) state)
      else Some (snd (snd (snd state))))"

definition GetOverlappingInputs ::
    "(bytes \<Rightarrow> bytes \<Rightarrow> int) \<Rightarrow> file_store \<Rightarrow> version \<Rightarrow> nat \<Rightarrow> bytes option \<Rightarrow> bytes option \<Rightarrow> file_ptr list option" where
  "GetOverlappingInputs user_cmp h v level begin_key end_key =
     overlapping_loop user_cmp h level (v_files v level)
       (0, map_option ExtractUserKey begin_key, map_option ExtractUserKey end_key, [])"

definition OverlapInLevel ::
    "(bytes \<Rightarrow> bytes \<Rightarrow> int) \<Rightarrow> file_store \<Rightarrow> version \<Rightarrow> nat \<Rightarrow> bytes option \<Rightarrow> bytes option \<Rightarrow> bool" where
  "OverlapInLevel ucmp h v level smallest_user_key largest_user_key =
     SomeFileOverlapsRange ucmp (level > 0) (level_files h v level) smallest_user_key largest_user_key"

function pick_level_loop ::
    "(bytes \<Rightarrow> bytes \<Rightarrow> int) \<Rightarrow> db_options \<Rightarrow> file_store \<Rightarrow> version \<Rightarrow> bytes \<Rightarrow> bytes \<Rightarrow> nat \<Rightarrow> nat option" where
  "pick_level_loop ucmp options h v smallest_user_key largest_user_key level =
     (if level < kMaxMemCompactLevel then
        if OverlapInLevel ucmp h v (level + 1) (Some smallest_user_key) (Some largest_user_key) then Some level
        else if level + 2 < kNumLevels then
          case GetOverlappingInputs ucmp h v (level + 2)
                 (Some (InternalKey smallest_user_key kMaxSequenceNumber kValueTypeForSeek))
                 (Some (InternalKey largest_user_key 0 0)) of
            None \<Rightarrow> None
          | Some overlaps \<Rightarrow>
              if TotalFileSize (map h overlaps) > MaxGrandParentOverlapBytes options then Some level
              else pick_level_loop ucmp options h v smallest_user_key largest_user_key (level + 1)
        else pick_level_loop ucmp options h v smallest_user_key largest_user_key (level + 1)
      else Some level)"
  by auto
termination
  by (relation "measure (\<lambda>(ucmp, options, h, v, s, l, level). kMaxMemCompactLevel - level)") auto

declare pick_level_loop.simps [simp del]

definition PickLevelForMemTableOutput ::
    "(bytes \<Rightarrow> bytes \<Rightarrow> int) \<Rightarrow> db_options \<Rightarrow> file_store \<Rightarrow> version \<Rightarrow> bytes \<Rightarrow> bytes \<Rightarrow> nat option" where
  "PickLevelForMemTableOutput ucmp options h v smallest_user_key largest_user_key =
     (if \<not> OverlapInLevel ucmp h v 0 (Some smallest_user_key) (Some largest_user_key)
      then pick_level_loop ucmp options h v smallest_user_key largest_user_key 0
      else Some 0)"

subsection \<open>Printing\<close>

definition file_DebugString :: "FileMetaData \<Rightarrow> bytes" where
  "file_DebugString f =
     str '' '' @ AppendNumberTo [] (fm_number f) @ str '':'' @ AppendNumberTo [] (fm_file_size f) @ str ''['' @
     InternalKey_DebugString (fm_smallest f) @ str '' .. '' @ InternalKey_DebugString (fm_largest f) @ str '']'' @ [10]"

definition Version_DebugString :: "file_store \<Rightarrow> version \<Rightarrow> bytes" where
  "Version_DebugString h v =
     concat (map (\<lambda>level. str ''--- level '' @ AppendNumberTo [] (word_of_nat level) @ str '' ---'' @ [10] @
       concat (map file_DebugString (level_files h v level))) [0..<kNumLevels])"

end
