(* ===== verification/LDB_VersionSpec.thy ===== *)
theory LDB_VersionSpec
  imports LDB_Version
begin

text \<open>
  The searches among the files of a version do what their comments say: the binary search finds the first
  file that ends at or after a key, the overlap test is exact, and the inputs of a compaction are closed
  under overlap.
\<close>

subsection \<open>Levels\<close>

definition file_ok :: "(bytes \<Rightarrow> bytes \<Rightarrow> int) \<Rightarrow> FileMetaData \<Rightarrow> bool" where
  "file_ok cmp f \<longleftrightarrow> 8 \<le> length (fm_smallest f) \<and> 8 \<le> length (fm_largest f) \<and>
     InternalKey_Compare cmp (fm_smallest f) (fm_largest f) \<le> 0 \<and> ExtractValueType (fm_largest f) \<le> kTypeValue"

text \<open>The files of a level above level 0: sorted and disjoint.\<close>

definition level_ok :: "(bytes \<Rightarrow> bytes \<Rightarrow> int) \<Rightarrow> FileMetaData list \<Rightarrow> bool" where
  "level_ok cmp fs \<longleftrightarrow> (\<forall>f \<in> set fs. file_ok cmp f) \<and>
     sorted_wrt (\<lambda>f g. InternalKey_Compare cmp (fm_largest f) (fm_smallest g) < 0) fs"

text \<open>A file overlaps a range of user keys; \<open>None\<close> is before or behind all keys.\<close>

definition touches :: "(bytes \<Rightarrow> bytes \<Rightarrow> int) \<Rightarrow> bytes option \<Rightarrow> bytes option \<Rightarrow> FileMetaData \<Rightarrow> bool" where
  "touches ucmp lo hi f \<longleftrightarrow>
     (case lo of None \<Rightarrow> True | Some k \<Rightarrow> ucmp k (ExtractUserKey (fm_largest f)) \<le> 0) \<and>
     (case hi of None \<Rightarrow> True | Some k \<Rightarrow> ucmp (ExtractUserKey (fm_smallest f)) k \<le> 0)"

text \<open>The entries of the level iterator: largest keys with the numbers and sizes of the files.\<close>

definition level_entry :: "FileMetaData \<Rightarrow> entry" where
  "level_entry f = (fm_largest f, EncodeFixed64 (fm_number f) @ EncodeFixed64 (fm_file_size f))"

subsection \<open>The binary search\<close>

lemma takeWhile_unique:
  assumes "n \<le> length xs" and "\<And>i. i < n \<Longrightarrow> P (xs ! i)" and "n < length xs \<Longrightarrow> \<not> P (xs ! n)"
  shows "length (takeWhile P xs) = n"
proof (rule antisym)
  show "length (takeWhile P xs) \<le> n"
  proof (rule ccontr)
    assume "\<not> length (takeWhile P xs) \<le> n"
    then have "n < length (takeWhile P xs)" by simp
    then have "xs ! n \<in> set (takeWhile P xs)" by (metis nth_mem takeWhile_nth)
    moreover have "n < length xs" using \<open>n < _\<close> length_takeWhile_le [of P xs] by linarith
    ultimately show False using assms(3) set_takeWhileD by metis
  qed
  show "n \<le> length (takeWhile P xs)"
    using assms(1,2) nth_length_takeWhile [of P xs] by (metis linorder_not_le order.strict_trans2)
qed

lemma FindFile_loop_result:
  assumes "l \<le> r" and "r \<le> length fs" and "\<And>i. i < l \<Longrightarrow> icmp (fm_largest (fs ! i)) key < 0"
    and "\<And>i. r \<le> i \<Longrightarrow> i < length fs \<Longrightarrow> \<not> icmp (fm_largest (fs ! i)) key < 0"
    and "\<And>i j. i < j \<Longrightarrow> j < length fs \<Longrightarrow> icmp (fm_largest (fs ! j)) key < 0 \<Longrightarrow> icmp (fm_largest (fs ! i)) key < 0"
  shows "FindFile_loop icmp fs key l r = length (takeWhile (\<lambda>f. icmp (fm_largest f) key < 0) fs)"
  using assms
proof (induction icmp fs key l r rule: FindFile_loop.induct)
  case (1 icmp fs key l r)
  let ?less = "\<lambda>i. icmp (fm_largest (fs ! i)) key < 0" and ?mid = "(l + r) div 2"
  show ?case
  proof (cases "l < r")
    case True
    then have mid: "l \<le> ?mid" "?mid < r" by auto
    show ?thesis
    proof (cases "?less ?mid")
      case less: True
      have "?less i" if "i < Suc ?mid" for i
        using that less "1.prems"(5) [of i ?mid] mid "1.prems"(2) by (cases "i = ?mid") auto
      then show ?thesis
        using "1.IH"(1) [OF True refl refl] less mid "1.prems" True by (subst FindFile_loop.simps) (simp add: Let_def)
    next
      case False
      have "\<not> ?less i" if "?mid \<le> i" "i < length fs" for i
        using that False "1.prems"(5) [of ?mid i] by (cases "i = ?mid") auto
      then show ?thesis
        using "1.IH"(2) [OF True refl refl] False mid "1.prems" True by (subst FindFile_loop.simps) (simp add: Let_def)
    qed
  next
    case False
    then have "length (takeWhile (\<lambda>f. icmp (fm_largest f) key < 0) fs) = r"
      using "1.prems" by (intro takeWhile_unique) auto
    then show ?thesis using False by (subst FindFile_loop.simps) simp
  qed
qed

context user_comparator
begin

lemma largest_sorted:
  assumes "level_ok Compare fs"
  shows "sorted_wrt (\<lambda>f g. icmp (fm_largest f) (fm_largest g) < 0) fs"
proof (rule sorted_wrt_mono_rel)
  show "sorted_wrt (\<lambda>f g. icmp (fm_largest f) (fm_smallest g) < 0) fs" using assms by (simp add: level_ok_def)
  show "icmp (fm_largest f) (fm_largest g) < 0"
    if "f \<in> set fs" "g \<in> set fs" "icmp (fm_largest f) (fm_smallest g) < 0" for f g
    using assms that internal.cmp_less_le_trans [of "fm_largest f" "fm_smallest g" "fm_largest g"]
    by (auto simp: level_ok_def file_ok_def)
qed

lemma FindFile_first:
  assumes ok: "level_ok Compare fs" and k: "8 \<le> length key"
  shows "FindFile icmp fs key = length (takeWhile (\<lambda>f. icmp (fm_largest f) key < 0) fs)"
  unfolding FindFile_def
proof (rule FindFile_loop_result)
  fix i j assume ij: "i < j" "j < length fs" and less: "icmp (fm_largest (fs ! j)) key < 0"
  have "icmp (fm_largest (fs ! i)) (fm_largest (fs ! j)) < 0"
    using sorted_wrt_nth_less [OF largest_sorted [OF ok] ij] .
  then show "icmp (fm_largest (fs ! i)) key < 0"
    using internal.cmp_less_trans [OF _ _ k, of "fm_largest (fs ! i)" "fm_largest (fs ! j)"] less ok ij
    by (auto simp: level_ok_def file_ok_def)
qed auto

lemma level_iterator:
  "entry_iterator (LevelFileNumIterator_class icmp fs) icmp (map level_entry fs)
     (\<lambda>i p. level_ok Compare fs \<and> i = p \<and> p \<le> length fs) (\<lambda>k. 8 \<le> length k)"
proof
  fix it i and target :: bytes
  assume "level_ok Compare fs \<and> it = i \<and> i \<le> length fs" and "8 \<le> length target"
  then have ok: "level_ok Compare fs" "it = i" and t: "8 \<le> length target" by simp_all
  have "first_ge icmp (map level_entry fs) target = length (takeWhile (\<lambda>f. icmp (fm_largest f) target < 0) fs)"
    by (simp add: first_ge_def takeWhile_map level_entry_def comp_def)
  then show "level_ok Compare fs \<and> it_Seek (LevelFileNumIterator_class icmp fs) it target = first_ge icmp (map level_entry fs) target \<and>
      first_ge icmp (map level_entry fs) target \<le> length fs"
    using ok FindFile_first [OF ok(1) t] by (simp add: LevelFileNumIterator_class_def length_takeWhile_le)
qed (auto simp: LevelFileNumIterator_class_def level_entry_def)

end

interpretation level_iter: entry_iterator "LevelFileNumIterator_class (InternalKey_Compare BytewiseCompare) fs"
    "InternalKey_Compare BytewiseCompare" "map level_entry fs"
    "\<lambda>i p. level_ok BytewiseCompare fs \<and> i = p \<and> p \<le> length fs" "\<lambda>k. 8 \<le> length k"
  for fs
  by (rule bytewise.level_iterator)

subsection \<open>Overlap\<close>

text \<open>The key from which the search for a user key starts is at or before every internal key of it.\<close>

lemma before_first_key:
  assumes "8 \<le> length key" and "ExtractValueType key \<le> kTypeValue"
  shows "InternalKey_Compare cmp key (InternalKey k kMaxSequenceNumber kValueTypeForSeek) < 0 \<longleftrightarrow> cmp (ExtractUserKey key) k < 0"
proof -
  let ?n = "DecodeFixed64 (drop (length key - 8) key)"
  have "unat (drop_bit 8 ?n) \<le> unat kMaxSequenceNumber"
    using unat_bounds(3) [of ?n] by (simp add: unat_kMax drop_bit_eq_div unat_div_distrib)
  then have "drop_bit 8 ?n \<le> kMaxSequenceNumber" by (simp add: word_le_nat_alt)
  then have "\<not> PackSequenceAndType kMaxSequenceNumber kValueTypeForSeek < PackSequenceAndType (drop_bit 8 ?n) (ucast (?n AND 0xff))"
    using assms(2) by (subst Pack_less_iff) (auto simp: ExtractValueType_def Let_def kValueTypeForSeek_def)
  then have "\<not> PackSequenceAndType kMaxSequenceNumber kValueTypeForSeek < ?n" by (subst (asm) Pack_unpack)
  moreover have "DecodeFixed64 (drop (length (InternalKey k kMaxSequenceNumber kValueTypeForSeek) - 8)
      (InternalKey k kMaxSequenceNumber kValueTypeForSeek)) = PackSequenceAndType kMaxSequenceNumber kValueTypeForSeek"
    "ExtractUserKey (InternalKey k kMaxSequenceNumber kValueTypeForSeek) = k" by (simp_all add: InternalKey_eq)
  ultimately show ?thesis by (auto simp: InternalKey_Compare_def Let_def)
qed

lemma linear_overlap: "overlap_loop ucmp fs lo hi \<longleftrightarrow> (\<exists>f \<in> set fs. \<not> AfterFile ucmp lo f \<and> \<not> BeforeFile ucmp hi f)"
  by (induction fs) auto

context user_comparator
begin

lemma touches_iff: "touches Compare lo hi f \<longleftrightarrow> \<not> AfterFile Compare lo f \<and> \<not> BeforeFile Compare hi f"
  using cmp_flip by (auto simp: touches_def AfterFile_def BeforeFile_def not_less split: option.splits)

lemma file_users:
  "file_ok Compare f \<Longrightarrow> Compare (ExtractUserKey (fm_smallest f)) (ExtractUserKey (fm_largest f)) \<le> 0"
  by (auto simp: file_ok_def icmp_less_iff)

lemma level_users:
  assumes "level_ok Compare fs" and "i < j" and "j < length fs"
  shows "Compare (ExtractUserKey (fm_largest (fs ! i))) (ExtractUserKey (fm_smallest (fs ! j))) \<le> 0"
proof -
  have "icmp (fm_largest (fs ! i)) (fm_smallest (fs ! j)) < 0"
    using assms sorted_wrt_nth_less by (fastforce simp: level_ok_def)
  then show ?thesis using assms by (auto simp: level_ok_def file_ok_def icmp_less_iff)
qed

text \<open>
  In a sorted level the first file that ends at or after the beginning of the range decides.
\<close>

lemma first_file_decides:
  assumes ok: "level_ok Compare fs" and n: "n = length (takeWhile (\<lambda>f. AfterFile Compare lo f) fs)"
  shows "(\<exists>f \<in> set fs. touches Compare lo hi f) \<longleftrightarrow> n < length fs \<and> \<not> BeforeFile Compare hi (fs ! n)"
proof
  assume "n < length fs \<and> \<not> BeforeFile Compare hi (fs ! n)"
  moreover from this have "\<not> AfterFile Compare lo (fs ! n)" using nth_length_takeWhile n by blast
  ultimately show "\<exists>f \<in> set fs. touches Compare lo hi f" by (auto simp: touches_iff)
next
  assume "\<exists>f \<in> set fs. touches Compare lo hi f"
  then obtain j where j: "j < length fs" "\<not> AfterFile Compare lo (fs ! j)" "\<not> BeforeFile Compare hi (fs ! j)"
    by (auto simp: touches_iff in_set_conv_nth)
  have "n \<le> j"
  proof (rule ccontr)
    assume "\<not> n \<le> j"
    then have "fs ! j \<in> set (takeWhile (\<lambda>f. AfterFile Compare lo f) fs)" unfolding n by (metis not_le nth_mem takeWhile_nth)
    then show False using j(2) set_takeWhileD by fast
  qed
  moreover have "\<not> BeforeFile Compare hi (fs ! n)" if "n < j"
  proof
    assume before: "BeforeFile Compare hi (fs ! n)"
    then obtain k where k: "hi = Some k" "Compare k (ExtractUserKey (fm_smallest (fs ! n))) < 0"
      by (auto simp: BeforeFile_def split: option.splits)
    have "Compare (ExtractUserKey (fm_smallest (fs ! n))) (ExtractUserKey (fm_smallest (fs ! j))) \<le> 0"
      using file_users [of "fs ! n"] level_users [OF ok that j(1)] cmp_trans ok that j(1) by (fastforce simp: level_ok_def)
    then have "Compare k (ExtractUserKey (fm_smallest (fs ! j))) < 0" using k(2) cmp_less_le_trans by blast
    then show False using j(3) k(1) by (simp add: BeforeFile_def)
  qed
  ultimately show "n < length fs \<and> \<not> BeforeFile Compare hi (fs ! n)" using j by (cases "n = j") auto
qed

lemma overlaps_range:
  assumes "disjoint \<longrightarrow> level_ok Compare fs"
  shows "SomeFileOverlapsRange Compare disjoint fs lo hi \<longleftrightarrow> (\<exists>f \<in> set fs. touches Compare lo hi f)"
proof (cases disjoint)
  case False
  then show ?thesis by (simp add: SomeFileOverlapsRange_def linear_overlap touches_iff)
next
  case True
  then have ok: "level_ok Compare fs" using assms by simp
  let ?n = "length (takeWhile (\<lambda>f. AfterFile Compare lo f) fs)"
  have "(case lo of None \<Rightarrow> 0 | Some k \<Rightarrow> FindFile icmp fs (InternalKey k kMaxSequenceNumber kValueTypeForSeek)) = ?n"
  proof (cases lo)
    case None
    then show ?thesis by (cases fs) (simp_all add: AfterFile_def)
  next
    case (Some k)
    have "takeWhile (\<lambda>f. icmp (fm_largest f) (InternalKey k kMaxSequenceNumber kValueTypeForSeek) < 0) fs =
        takeWhile (\<lambda>f. AfterFile Compare lo f) fs"
    proof (rule takeWhile_cong [OF refl])
      fix f assume "f \<in> set fs"
      then have "icmp (fm_largest f) (InternalKey k kMaxSequenceNumber kValueTypeForSeek) < 0 \<longleftrightarrow> Compare (ExtractUserKey (fm_largest f)) k < 0"
        using ok by (intro before_first_key) (auto simp: level_ok_def file_ok_def)
      then show "(icmp (fm_largest f) (InternalKey k kMaxSequenceNumber kValueTypeForSeek) < 0) = AfterFile Compare lo f"
        using cmp_flip Some by (simp add: AfterFile_def)
    qed
    then show ?thesis using FindFile_first [OF ok] Some by (simp add: InternalKey_eq)
  qed
  then show ?thesis
    using True first_file_decides [OF ok refl, of lo hi] by (simp add: SomeFileOverlapsRange_def Let_def not_le)
qed

end

subsection \<open>Overlapping inputs\<close>

definition inside :: "(bytes \<Rightarrow> bytes \<Rightarrow> int) \<Rightarrow> bytes option \<Rightarrow> bytes option \<Rightarrow> FileMetaData \<Rightarrow> bool" where
  "inside ucmp lo hi f \<longleftrightarrow>
     (case lo of None \<Rightarrow> True | Some k \<Rightarrow> ucmp k (ExtractUserKey (fm_smallest f)) \<le> 0) \<and>
     (case hi of None \<Rightarrow> True | Some k \<Rightarrow> ucmp (ExtractUserKey (fm_largest f)) k \<le> 0)"

definition overlap :: "(bytes \<Rightarrow> bytes \<Rightarrow> int) \<Rightarrow> FileMetaData \<Rightarrow> FileMetaData \<Rightarrow> bool" where
  "overlap ucmp f g \<longleftrightarrow> touches ucmp (Some (ExtractUserKey (fm_smallest f))) (Some (ExtractUserKey (fm_largest f))) g"

text \<open>A set of files that has every file in a range and every file that overlaps one of its own.\<close>

definition closed_inputs ::
    "(bytes \<Rightarrow> bytes \<Rightarrow> int) \<Rightarrow> file_store \<Rightarrow> file_ptr list \<Rightarrow> bytes option \<Rightarrow> bytes option \<Rightarrow> file_ptr set \<Rightarrow> bool" where
  "closed_inputs ucmp h files lo hi S \<longleftrightarrow>
     (\<forall>q \<in> set files. touches ucmp lo hi (h q) \<longrightarrow> q \<in> S) \<and>
     (\<forall>p \<in> S. \<forall>q \<in> set files. overlap ucmp (h p) (h q) \<longrightarrow> q \<in> S)"

context user_comparator
begin

lemma overlapping_step_cases:
  assumes "i < length files"
  defines "f \<equiv> files ! i"
  shows "overlapping_step Compare h level f (i, ub, ue, inputs) =
    (if \<not> touches Compare ub ue (h f) then (Suc i, ub, ue, inputs)
     else if level = 0 \<and> (\<exists>k. ub = Some k \<and> Compare (ExtractUserKey (fm_smallest (h f))) k < 0)
     then (0, Some (ExtractUserKey (fm_smallest (h f))), ue, [])
     else if level = 0 \<and> (\<exists>k. ue = Some k \<and> Compare (ExtractUserKey (fm_largest (h f))) k > 0)
     then (0, ub, Some (ExtractUserKey (fm_largest (h f))), [])
     else (Suc i, ub, ue, inputs @ [f]))"
  using cmp_flip by (cases ub; cases ue) (auto simp: overlapping_step_def touches_iff AfterFile_def BeforeFile_def Let_def)

lemma overlapping_sorted_level:
  assumes "0 < level" and "i \<le> length files"
  shows "overlapping_loop Compare h level files (i, ub, ue, inputs) =
    Some (inputs @ filter (\<lambda>p. touches Compare ub ue (h p)) (drop i files))"
  using assms(2)
proof (induction "length files - i" arbitrary: i inputs)
  case 0
  then show ?case by (subst overlapping_loop.simps) simp
next
  case (Suc n)
  then have i: "i < length files" by simp
  note step = overlapping_step_cases [OF i, of h level ub ue inputs]
  have "drop i files = files ! i # drop (Suc i) files" using i by (simp add: Cons_nth_drop_Suc)
  then show ?case
    using Suc.hyps(1) [of "Suc i"] Suc.hyps(2) i assms(1) step by (subst overlapping_loop.simps) simp
qed

lemma widened_low:
  assumes "touches Compare (Some k) hi f" and "Compare (ExtractUserKey (fm_smallest f)) k < 0"
    and "touches Compare (Some (ExtractUserKey (fm_smallest f))) hi g" and "file_ok Compare g"
  shows "touches Compare (Some k) hi g \<or> overlap Compare f g"
proof (cases "Compare k (ExtractUserKey (fm_largest g)) \<le> 0")
  case True
  then show ?thesis using assms(3) by (simp add: touches_def)
next
  case False
  then have "Compare (ExtractUserKey (fm_largest g)) k \<le> 0" using cmp_total by blast
  moreover have "Compare k (ExtractUserKey (fm_largest f)) \<le> 0" using assms(1) by (simp add: touches_def)
  ultimately have "Compare (ExtractUserKey (fm_smallest g)) (ExtractUserKey (fm_largest f)) \<le> 0"
    using file_users [OF assms(4)] cmp_trans by blast
  then show ?thesis using assms(3) by (simp add: overlap_def touches_def)
qed

lemma widened_high:
  assumes "touches Compare lo (Some k) f" and "Compare (ExtractUserKey (fm_largest f)) k > 0"
    and "touches Compare lo (Some (ExtractUserKey (fm_largest f))) g" and "file_ok Compare g"
  shows "touches Compare lo (Some k) g \<or> overlap Compare f g"
proof (cases "Compare (ExtractUserKey (fm_smallest g)) k \<le> 0")
  case True
  then show ?thesis using assms(3) by (simp add: touches_def)
next
  case False
  then have "Compare k (ExtractUserKey (fm_smallest g)) \<le> 0" using cmp_total by blast
  moreover have "Compare (ExtractUserKey (fm_smallest f)) k \<le> 0" using assms(1) by (simp add: touches_def)
  ultimately have "Compare (ExtractUserKey (fm_smallest f)) (ExtractUserKey (fm_largest g)) \<le> 0"
    using file_users [OF assms(4)] cmp_trans by blast
  then show ?thesis using assms(3) by (simp add: overlap_def touches_def)
qed

text \<open>How many files reach out of the range decreases with every new start.\<close>

definition reaching :: "file_store \<Rightarrow> file_ptr list \<Rightarrow> bytes option \<Rightarrow> bytes option \<Rightarrow> nat" where
  "reaching h files ub ue =
     length (filter (\<lambda>p. \<exists>k. ub = Some k \<and> Compare (ExtractUserKey (fm_smallest (h p))) k < 0) files) +
     length (filter (\<lambda>p. \<exists>k. ue = Some k \<and> Compare (ExtractUserKey (fm_largest (h p))) k > 0) files)"

lemma fewer_filtered:
  assumes "\<And>x. x \<in> set xs \<Longrightarrow> P x \<Longrightarrow> Q x" and "y \<in> set xs" and "Q y" and "\<not> P y"
  shows "length (filter P xs) < length (filter Q xs)"
  using assms
proof (induction xs)
  case (Cons x xs)
  have le: "length (filter P zs) \<le> length (filter Q zs)" if "set zs \<subseteq> set (x # xs)" for zs
    using that Cons.prems(1) by (induction zs) auto
  show ?case
  proof (cases "y = x")
    case True
    then show ?thesis using le [OF set_subset_Cons] Cons.prems by (auto simp: less_Suc_eq_le)
  next
    case False
    then show ?thesis using Cons by auto
  qed
qed simp

lemma reaching_low:
  assumes "f \<in> set files" and "Compare (ExtractUserKey (fm_smallest (h f))) k < 0"
  shows "reaching h files (Some (ExtractUserKey (fm_smallest (h f)))) ue < reaching h files (Some k) ue"
  unfolding reaching_def using assms cmp_self
  by (intro add_strict_right_mono fewer_filtered [where y = f]) (auto intro: cmp_less_trans)

lemma cmp_greater_trans: "0 < Compare a b \<Longrightarrow> 0 < Compare b c \<Longrightarrow> 0 < Compare a c"
  using cmp_less_trans [of c b a] cmp_flip [of c b] cmp_flip [of b a] cmp_flip [of c a] by simp

lemma reaching_high:
  assumes "f \<in> set files" and "Compare (ExtractUserKey (fm_largest (h f))) k > 0"
  shows "reaching h files ub (Some (ExtractUserKey (fm_largest (h f)))) < reaching h files ub (Some k)"
  unfolding reaching_def using assms cmp_self
  by (intro add_strict_left_mono fewer_filtered [where y = f]) (auto intro: cmp_greater_trans)

text \<open>The state of the loop for level 0.\<close>

definition inputs_inv ::
    "file_store \<Rightarrow> file_ptr list \<Rightarrow> bytes option \<Rightarrow> bytes option \<Rightarrow> nat \<times> bytes option \<times> bytes option \<times> file_ptr list \<Rightarrow> bool" where
  "inputs_inv h files lo hi = (\<lambda>(i, ub, ue, inputs). i \<le> length files \<and>
     inputs = filter (\<lambda>p. touches Compare ub ue (h p)) (take i files) \<and>
     (\<forall>p \<in> set inputs. inside Compare ub ue (h p)) \<and>
     (\<forall>f. touches Compare lo hi f \<longrightarrow> touches Compare ub ue f) \<and>
     (\<forall>S. closed_inputs Compare h files lo hi S \<longrightarrow> (\<forall>q \<in> set files. touches Compare ub ue (h q) \<longrightarrow> q \<in> S)))"

lemma inputs_inv_step:
  assumes inv: "inputs_inv h files lo hi (i, ub, ue, inputs)" and i: "i < length files"
    and ok: "\<forall>p \<in> set files. file_ok Compare (h p)"
  shows "inputs_inv h files lo hi (overlapping_step Compare h 0 (files ! i) (i, ub, ue, inputs))"
proof -
  let ?f = "files ! i"
  have f: "?f \<in> set files" using i by simp
  note unfold_inv = inputs_inv_def prod.case
  have least: "q \<in> S" if "closed_inputs Compare h files lo hi S" "q \<in> set files" "touches Compare ub ue (h q)" for S q
    using inv that unfolding unfold_inv by blast
  have wider: "touches Compare ub ue g" if "touches Compare lo hi g" for g using inv that unfolding unfold_inv by blast
  note step = overlapping_step_cases [OF i, of h 0 ub ue inputs]
  consider (skip) "\<not> touches Compare ub ue (h ?f)"
    | (low) k where "touches Compare ub ue (h ?f)" "ub = Some k" "Compare (ExtractUserKey (fm_smallest (h ?f))) k < 0"
    | (high) k where "touches Compare ub ue (h ?f)" "\<not> (\<exists>k. ub = Some k \<and> Compare (ExtractUserKey (fm_smallest (h ?f))) k < 0)"
        "ue = Some k" "Compare (ExtractUserKey (fm_largest (h ?f))) k > 0"
    | (keep) "touches Compare ub ue (h ?f)" "\<not> (\<exists>k. ub = Some k \<and> Compare (ExtractUserKey (fm_smallest (h ?f))) k < 0)"
        "\<not> (\<exists>k. ue = Some k \<and> Compare (ExtractUserKey (fm_largest (h ?f))) k > 0)"
    by blast
  then show ?thesis
  proof cases
    case skip
    then show ?thesis using inv i unfolding unfold_inv step by (simp add: take_Suc_conv_app_nth)
  next
    case low
    let ?lo = "Some (ExtractUserKey (fm_smallest (h ?f)))"
    have "touches Compare ?lo ue g" if "touches Compare ub ue g" for g
      using that low(2,3) cmp_trans [of "ExtractUserKey (fm_smallest (h ?f))" k] by (auto simp: touches_def)
    moreover have "q \<in> S" if S: "closed_inputs Compare h files lo hi S" and q: "q \<in> set files" "touches Compare ?lo ue (h q)" for S q
    proof -
      have "?f \<in> S" using least [OF S f] low(1) by simp
      moreover have "touches Compare ub ue (h q) \<or> overlap Compare (h ?f) (h q)"
        using widened_low [of k ue "h ?f" "h q"] low q ok by simp
      ultimately show ?thesis using least [OF S q(1)] S q(1) by (auto simp: closed_inputs_def)
    qed
    ultimately show ?thesis using low wider unfolding unfold_inv step by auto
  next
    case high
    let ?hi = "Some (ExtractUserKey (fm_largest (h ?f)))"
    have k: "Compare k (ExtractUserKey (fm_largest (h ?f))) \<le> 0" using high(4) cmp_flip by (simp add: order.order_iff_strict)
    have "touches Compare ub ?hi g" if "touches Compare ub ue g" for g
      using that high(3) k cmp_trans [of _ k "ExtractUserKey (fm_largest (h ?f))"] by (auto simp: touches_def)
    moreover have "q \<in> S" if S: "closed_inputs Compare h files lo hi S" and q: "q \<in> set files" "touches Compare ub ?hi (h q)" for S q
    proof -
      have "?f \<in> S" using least [OF S f] high(1) by simp
      moreover have "touches Compare ub ue (h q) \<or> overlap Compare (h ?f) (h q)"
        using widened_high [of ub k "h ?f" "h q"] high q ok by simp
      ultimately show ?thesis using least [OF S q(1)] S q(1) by (auto simp: closed_inputs_def)
    qed
    ultimately show ?thesis using high wider unfolding unfold_inv step by auto
  next
    case keep
    then have "inside Compare ub ue (h ?f)"
      using cmp_flip by (auto simp: inside_def not_less split: option.splits)
    then show ?thesis using inv i keep unfolding unfold_inv step by (auto simp: take_Suc_conv_app_nth)
  qed
qed

lemma overlapping_level0:
  assumes "inputs_inv h files lo hi (i, ub, ue, inputs)" and ok: "\<forall>p \<in> set files. file_ok Compare (h p)"
  shows "\<exists>b e result. overlapping_loop Compare h 0 files (i, ub, ue, inputs) = Some result \<and>
    inputs_inv h files lo hi (length files, b, e, result)"
  using assms(1)
proof (induction "reaching h files ub ue * (length files + 1) + (length files - i)" arbitrary: i ub ue inputs rule: less_induct)
  case less
  note inv = less.prems
  show ?case
  proof (cases "i < length files")
    case False
    then have "i = length files" using inv by (simp add: inputs_inv_def)
    then show ?thesis using inv by (subst overlapping_loop.simps) auto
  next
    case True
    obtain j b e ins where step: "overlapping_step Compare h 0 (files ! i) (i, ub, ue, inputs) = (j, b, e, ins)"
      by (metis prod_cases4)
    have "reaching h files b e * (length files + 1) + (length files - j) <
        reaching h files ub ue * (length files + 1) + (length files - i)"
    proof (cases "reaching h files b e < reaching h files ub ue")
      case fewer: True
      then have "(reaching h files b e + 1) * (length files + 1) \<le> reaching h files ub ue * (length files + 1)"
        by (intro mult_right_mono) simp_all
      then show ?thesis by simp
    next
      case False
      then have "b = ub \<and> e = ue \<and> j = Suc i"
        using step reaching_low [of "files ! i" files h _ ue] reaching_high [of "files ! i" files h _ ub] True
        unfolding overlapping_step_cases [OF True] by (fastforce split: if_splits)
      then show ?thesis using True by auto
    qed
    moreover have "inputs_inv h files lo hi (j, b, e, ins)" using inputs_inv_step [OF inv True ok] step by simp
    ultimately show ?thesis
      using less.hyps [of b e j ins] True step by (subst overlapping_loop.simps) simp
  qed
qed

lemma inside_overlap:
  "inside Compare lo hi f \<Longrightarrow> overlap Compare f g \<Longrightarrow> touches Compare lo hi g"
  using cmp_trans by (auto simp: inside_def overlap_def touches_def split: option.splits)

lemma overlapping_inputs:
  assumes "level = 0 \<Longrightarrow> \<forall>p \<in> set (v_files v 0). file_ok Compare (h p)"
  shows "\<exists>inputs. GetOverlappingInputs Compare h v level lo hi = Some inputs \<and>
    (if level = 0
     then closed_inputs Compare h (v_files v 0) (map_option ExtractUserKey lo) (map_option ExtractUserKey hi) (set inputs) \<and>
       set inputs \<subseteq> set (v_files v 0) \<and>
       (\<forall>S. closed_inputs Compare h (v_files v 0) (map_option ExtractUserKey lo) (map_option ExtractUserKey hi) S \<longrightarrow> set inputs \<subseteq> S)
     else inputs = filter (\<lambda>p. touches Compare (map_option ExtractUserKey lo) (map_option ExtractUserKey hi) (h p)) (v_files v level))"
proof (cases "level = 0")
  case False
  then show ?thesis by (simp add: GetOverlappingInputs_def overlapping_sorted_level)
next
  case True
  let ?lo = "map_option ExtractUserKey lo" and ?hi = "map_option ExtractUserKey hi" and ?files = "v_files v 0"
  have "inputs_inv h ?files ?lo ?hi (0, ?lo, ?hi, [])" by (auto simp: inputs_inv_def closed_inputs_def)
  then obtain b e result where loop: "overlapping_loop Compare h 0 ?files (0, ?lo, ?hi, []) = Some result"
    and inv: "inputs_inv h ?files ?lo ?hi (length ?files, b, e, result)"
    using overlapping_level0 assms True by blast
  have result: "result = filter (\<lambda>p. touches Compare b e (h p)) ?files" using inv by (simp add: inputs_inv_def)
  have all_inside: "inside Compare b e (h p)" if "p \<in> set result" for p using inv that by (simp add: inputs_inv_def)
  have "closed_inputs Compare h ?files ?lo ?hi (set result)"
    unfolding closed_inputs_def
  proof (intro conjI ballI impI)
    show "q \<in> set result" if "q \<in> set ?files" "touches Compare ?lo ?hi (h q)" for q
      using inv that by (auto simp: inputs_inv_def result)
    show "q \<in> set result" if "p \<in> set result" "q \<in> set ?files" "overlap Compare (h p) (h q)" for p q
      using inside_overlap [OF all_inside [OF that(1)] that(3)] that(2) by (simp add: result)
  qed
  moreover have "\<forall>S. closed_inputs Compare h ?files ?lo ?hi S \<longrightarrow> set result \<subseteq> S"
    using inv by (auto simp: inputs_inv_def)
  moreover have "set result \<subseteq> set ?files" by (auto simp: result)
  ultimately show ?thesis using loop True by (simp add: GetOverlappingInputs_def)
qed

end

subsection \<open>Versions\<close>

definition version_ok :: "(bytes \<Rightarrow> bytes \<Rightarrow> int) \<Rightarrow> file_store \<Rightarrow> version \<Rightarrow> bool" where
  "version_ok cmp h v \<longleftrightarrow>
     (\<forall>p \<in> set (v_files v 0). file_ok cmp (h p)) \<and> (\<forall>level \<in> {0<..<kNumLevels}. level_ok cmp (level_files h v level))"

context user_comparator
begin

lemma overlap_in_level:
  assumes "version_ok Compare h v" and "level < kNumLevels"
  shows "OverlapInLevel Compare h v level lo hi \<longleftrightarrow> (\<exists>p \<in> set (v_files v level). touches Compare lo hi (h p))"
proof -
  have "0 < level \<longrightarrow> level_ok Compare (level_files h v level)" using assms by (simp add: version_ok_def)
  then show ?thesis by (simp add: OverlapInLevel_def overlaps_range)
qed

lemma pick_level_loop_safe:
  assumes "version_ok Compare h v" and "level \<le> kMaxMemCompactLevel"
    and "\<And>i p. i \<le> level \<Longrightarrow> p \<in> set (v_files v i) \<Longrightarrow> \<not> touches Compare (Some lo) (Some hi) (h p)"
  shows "\<exists>l. pick_level_loop Compare options h v lo hi level = Some l \<and> l \<le> kMaxMemCompactLevel \<and>
    (\<forall>i \<le> l. \<forall>p \<in> set (v_files v i). \<not> touches Compare (Some lo) (Some hi) (h p))"
  using assms(2,3)
proof (induction "kMaxMemCompactLevel - level" arbitrary: level)
  case 0
  then show ?case by (subst pick_level_loop.simps) auto
next
  case (Suc n)
  then have level: "level < kMaxMemCompactLevel" by simp
  show ?case
  proof (cases "OverlapInLevel Compare h v (level + 1) (Some lo) (Some hi)")
    case True
    then show ?thesis using Suc.prems Suc.hyps(2) by (subst pick_level_loop.simps) auto
  next
    case False
    have next_level: "level + 1 < kNumLevels" using Suc.hyps(2) by (simp add: kMaxMemCompactLevel_def kNumLevels_def)
    have "\<not> touches Compare (Some lo) (Some hi) (h p)" if "i \<le> level + 1" "p \<in> set (v_files v i)" for i p
    proof (cases "i = level + 1")
      case True
      then show ?thesis using False overlap_in_level [OF assms(1) next_level] that(2) by auto
    next
      case False
      then show ?thesis using Suc.prems(2) [of i p] that by simp
    qed
    then have rec: "\<exists>l. pick_level_loop Compare options h v lo hi (level + 1) = Some l \<and> l \<le> kMaxMemCompactLevel \<and>
        (\<forall>i \<le> l. \<forall>p \<in> set (v_files v i). \<not> touches Compare (Some lo) (Some hi) (h p))"
      using Suc.hyps(1) [of "level + 1"] Suc.hyps(2) by simp
    obtain inputs where inputs: "GetOverlappingInputs Compare h v (level + 2)
        (Some (InternalKey lo kMaxSequenceNumber kValueTypeForSeek)) (Some (InternalKey hi 0 0)) = Some inputs"
      using overlapping_inputs [of "level + 2" v h] by fastforce
    show ?thesis
    proof (cases "level + 2 < kNumLevels \<and> TotalFileSize (map h inputs) > MaxGrandParentOverlapBytes options")
      case True
      then show ?thesis using Suc.prems Suc.hyps(2) False inputs by (subst pick_level_loop.simps) auto
    next
      case small: False
      then have "pick_level_loop Compare options h v lo hi level = pick_level_loop Compare options h v lo hi (level + 1)"
        using level False inputs by (subst pick_level_loop.simps) simp
      then show ?thesis using rec by simp
    qed
  qed
qed

lemma pick_level:
  assumes "version_ok Compare h v"
  shows "\<exists>l. PickLevelForMemTableOutput Compare options h v lo hi = Some l \<and> l \<le> kMaxMemCompactLevel \<and>
    (0 < l \<longrightarrow> (\<forall>i \<le> l. \<forall>p \<in> set (v_files v i). \<not> touches Compare (Some lo) (Some hi) (h p)))"
proof (cases "OverlapInLevel Compare h v 0 (Some lo) (Some hi)")
  case True
  then show ?thesis by (simp add: PickLevelForMemTableOutput_def)
next
  case False
  then have "\<not> touches Compare (Some lo) (Some hi) (h p)" if "i \<le> 0" "p \<in> set (v_files v i)" for i p
    using overlap_in_level [OF assms, of 0] that by (simp add: kNumLevels_def)
  then show ?thesis
    using pick_level_loop_safe [OF assms, of 0 lo hi options] False by (auto simp: PickLevelForMemTableOutput_def)
qed

end

text \<open>
  Claim C14. The inputs of a compaction: the loop of \<^verbatim>\<open>GetOverlappingInputs\<close> ends although it starts again whenever a
  file of level 0 widens the range, and what it returns for level 0 is the least set of files that has every
  file in the range and every file that overlaps one of its own; for a sorted level it is the files in
  the range, in their order.
\<close>

theorem overlapping_inputs_closed:
  assumes "user_comparator ucmp Separator Successor"
    and "\<forall>p \<in> set (v_files v 0). file_ok ucmp (h p)"
  shows "\<exists>inputs. GetOverlappingInputs ucmp h v level lo hi = Some inputs \<and>
    (if level = 0
     then closed_inputs ucmp h (v_files v 0) (map_option ExtractUserKey lo) (map_option ExtractUserKey hi) (set inputs) \<and>
       set inputs \<subseteq> set (v_files v 0) \<and>
       (\<forall>S. closed_inputs ucmp h (v_files v 0) (map_option ExtractUserKey lo) (map_option ExtractUserKey hi) S \<longrightarrow> set inputs \<subseteq> S)
     else inputs = filter (\<lambda>p. touches ucmp (map_option ExtractUserKey lo) (map_option ExtractUserKey hi) (h p)) (v_files v level))"
  using user_comparator.overlapping_inputs [OF assms(1)] assms(2) by blast

definition two_files :: "file_store" where
  "two_files p = \<lparr>fm_refs = 1, fm_allowed_seeks = 100, fm_number = word_of_nat p + 4, fm_file_size = 1000,
     fm_smallest = InternalKey (if p = 0 then str ''b'' else str ''d'') 9 kTypeValue,
     fm_largest = InternalKey (if p = 0 then str ''e'' else str ''g'') 8 kTypeValue\<rparr>"

lemma two_files_ok: "file_ok BytewiseCompare (two_files 0) \<and> file_ok BytewiseCompare (two_files (Suc 0))"
  by code_simp

text \<open>The range \<^verbatim>\<open>f\<close> to \<^verbatim>\<open>f\<close> meets only the second file, whose beginning overlaps the first one.\<close>

theorem overlapping_inputs_closed_witness:
  "\<exists>inputs. GetOverlappingInputs BytewiseCompare two_files (new_Version\<lparr>v_files := (\<lambda>l. if l = 0 then [0, 1] else [])\<rparr>) 0
     (Some (InternalKey (str ''f'') 5 kTypeValue)) (Some (InternalKey (str ''f'') 5 kTypeValue)) = Some inputs \<and>
   closed_inputs BytewiseCompare two_files [0, 1] (Some (str ''f'')) (Some (str ''f'')) (set inputs)"
proof -
  have ok: "\<forall>p \<in> set (v_files (new_Version\<lparr>v_files := (\<lambda>l. if l = 0 then [0, 1] else [])\<rparr>) 0). file_ok BytewiseCompare (two_files p)"
    using two_files_ok by simp
  have user: "ExtractUserKey (InternalKey (str ''f'') 5 kTypeValue) = str ''f''" by code_simp
  show ?thesis
    using overlapping_inputs_closed [OF bytewise.user_comparator_axioms ok, of 0
      "Some (InternalKey (str ''f'') 5 kTypeValue)" "Some (InternalKey (str ''f'') 5 kTypeValue)"]
    by (auto simp: user)
qed

text \<open>
  Claim C15. A memtable goes to a level at which it hides nothing newer: the level that is picked for it is at most
  \<open>kMaxMemCompactLevel\<close>, and unless it is level 0, no file of the version from level 0 down to this level has a
  key in its range. The choice is always made.
\<close>

theorem pick_level_safe:
  assumes "user_comparator ucmp Separator Successor" and "version_ok ucmp h v"
  shows "\<exists>level. PickLevelForMemTableOutput ucmp options h v lo hi = Some level \<and> level \<le> kMaxMemCompactLevel \<and>
    (0 < level \<longrightarrow> (\<forall>i \<le> level. \<forall>p \<in> set (v_files v i). \<not> touches ucmp (Some lo) (Some hi) (h p)))"
  by (rule user_comparator.pick_level [OF assms])

theorem pick_level_safe_witness:
  "\<exists>level. PickLevelForMemTableOutput BytewiseCompare Options two_files
     (new_Version\<lparr>v_files := (\<lambda>l. if l = 0 then [0] else if l = 2 then [1] else [])\<rparr>) (str ''f'') (str ''h'') = Some level \<and>
     (0 < level \<longrightarrow> \<not> touches BytewiseCompare (Some (str ''f'')) (Some (str ''h'')) (two_files 0))"
proof -
  have ok: "version_ok BytewiseCompare two_files (new_Version\<lparr>v_files := (\<lambda>l. if l = 0 then [0] else if l = 2 then [1] else [])\<rparr>)"
    using two_files_ok by (auto simp: version_ok_def level_ok_def)
  show ?thesis
    using pick_level_safe [OF bytewise.user_comparator_axioms ok, of Options "str ''f''" "str ''h''"] by auto
qed

end
