(* ===== verification/LDB_VersionBuilder.thy ===== *)
theory LDB_VersionBuilder
  imports LDB_VersionSpec
begin

text \<open>
  The shared objects of a version set and the class \<^verbatim>\<open>VersionSet::Builder\<close> of \<^verbatim>\<open>db/version_set.cc\<close>.
  Versions and the files they share are objects on a heap and live as long as their reference
  counts are positive. The linked list of the versions is the list of their pointers.
\<close>

subsection \<open>The heap\<close>

type_synonym version_ptr = nat

record version_heap =
  vh_files :: file_store
  vh_live_files :: "file_ptr set"
  vh_next_file :: file_ptr
  vh_versions :: "version_ptr \<Rightarrow> version"
  vh_list :: "version_ptr list"
  vh_next_version :: version_ptr

definition set_refs :: "file_ptr \<Rightarrow> int \<Rightarrow> 'a version_heap_scheme \<Rightarrow> 'a version_heap_scheme" where
  "set_refs p n st = st\<lparr>vh_files := (vh_files st)(p := (vh_files st p)\<lparr>fm_refs := n\<rparr>)\<rparr>"

text \<open>\<^verbatim>\<open>f->refs--\<close>, and the file is deleted when nothing refers to it any more.\<close>

definition unref_file :: "file_ptr \<Rightarrow> 'a version_heap_scheme \<Rightarrow> 'a version_heap_scheme" where
  "unref_file p st =
     (let st = set_refs p (fm_refs (vh_files st p) - 1) st
      in if fm_refs (vh_files st p) \<le> 0 then st\<lparr>vh_live_files := vh_live_files st - {p}\<rparr> else st)"

definition new_file :: "FileMetaData \<Rightarrow> 'a version_heap_scheme \<Rightarrow> file_ptr \<times> 'a version_heap_scheme" where
  "new_file f st =
     (vh_next_file st,
      st\<lparr>vh_files := (vh_files st)(vh_next_file st := f), vh_live_files := insert (vh_next_file st) (vh_live_files st),
         vh_next_file := Suc (vh_next_file st)\<rparr>)"

definition create_Version :: "'a version_heap_scheme \<Rightarrow> version_ptr \<times> 'a version_heap_scheme" where
  "create_Version st =
     (vh_next_version st,
      st\<lparr>vh_versions := (vh_versions st)(vh_next_version st := new_Version), vh_next_version := Suc (vh_next_version st)\<rparr>)"

definition delete_Version :: "version_ptr \<Rightarrow> 'a version_heap_scheme \<Rightarrow> 'a version_heap_scheme" where
  "delete_Version v st =
     (let st = st\<lparr>vh_list := remove1 v (vh_list st)\<rparr>
      in fold (\<lambda>level. fold unref_file (v_files (vh_versions st v) level)) [0..<kNumLevels] st)"

definition set_version_refs :: "version_ptr \<Rightarrow> int \<Rightarrow> 'a version_heap_scheme \<Rightarrow> 'a version_heap_scheme" where
  "set_version_refs v n st = st\<lparr>vh_versions := (vh_versions st)(v := (vh_versions st v)\<lparr>v_refs := n\<rparr>)\<rparr>"

definition Version_Ref :: "version_ptr \<Rightarrow> 'a version_heap_scheme \<Rightarrow> 'a version_heap_scheme" where
  "Version_Ref v st = set_version_refs v (v_refs (vh_versions st v) + 1) st"

definition Version_Unref :: "version_ptr \<Rightarrow> 'a version_heap_scheme \<Rightarrow> 'a version_heap_scheme" where
  "Version_Unref v st =
     (let st = set_version_refs v (v_refs (vh_versions st v) - 1) st
      in if v_refs (vh_versions st v) = 0 then delete_Version v st else st)"

subsection \<open>The builder\<close>

definition BySmallestKey :: "(bytes \<Rightarrow> bytes \<Rightarrow> int) \<Rightarrow> file_store \<Rightarrow> file_ptr \<Rightarrow> file_ptr \<Rightarrow> bool" where
  "BySmallestKey icmp h f1 f2 =
     (let r = icmp (fm_smallest (h f1)) (fm_smallest (h f2))
      in if r \<noteq> 0 then r < 0 else fm_number (h f1) < fm_number (h f2))"

text \<open>
  \<^verbatim>\<open>std::set\<close> with an order: the list of the elements. An element that is equivalent to one of the
  set is not inserted. \<^verbatim>\<open>std::upper_bound\<close> is the end of the elements that are not behind the
  given one.
\<close>

definition set_insert :: "('a \<Rightarrow> 'a \<Rightarrow> bool) \<Rightarrow> 'a \<Rightarrow> 'a list \<Rightarrow> 'a list" where
  "set_insert lt x s =
     (let smaller = takeWhile (\<lambda>y. lt y x) s; rest = dropWhile (\<lambda>y. lt y x) s
      in case rest of [] \<Rightarrow> smaller @ [x] | y # _ \<Rightarrow> if lt x y then smaller @ x # rest else s)"

record level_state =
  ls_deleted_files :: "u64 set"
  ls_added_files :: "file_ptr list"

record builder =
  bd_base :: version_ptr
  bd_levels :: "nat \<Rightarrow> level_state"

definition Builder :: "version_ptr \<Rightarrow> 'a version_heap_scheme \<Rightarrow> builder \<times> 'a version_heap_scheme" where
  "Builder base st =
     (\<lparr>bd_base = base, bd_levels = (\<lambda>level. \<lparr>ls_deleted_files = {}, ls_added_files = []\<rparr>)\<rparr>, Version_Ref base st)"

definition Builder_delete :: "builder \<Rightarrow> 'a version_heap_scheme \<Rightarrow> 'a version_heap_scheme" where
  "Builder_delete b st =
     Version_Unref (bd_base b)
       (fold (\<lambda>level. fold unref_file (ls_added_files (bd_levels b level))) [0..<kNumLevels] st)"

text \<open>The number of seeks is an \<^verbatim>\<open>int\<close>, which takes the low bits of the quotient.\<close>

definition allowed_seeks_for :: "u64 \<Rightarrow> int" where
  "allowed_seeks_for file_size =
     (let n = sint (ucast (file_size div 16384) :: 32 word) in if n < 100 then 100 else n)"

definition delete_in_level :: "nat \<times> u64 \<Rightarrow> builder \<Rightarrow> builder" where
  "delete_in_level = (\<lambda>(level, number) b.
     b\<lparr>bd_levels := (bd_levels b)(level := (bd_levels b level)
       \<lparr>ls_deleted_files := insert number (ls_deleted_files (bd_levels b level))\<rparr>)\<rparr>)"

definition add_to_level ::
    "(bytes \<Rightarrow> bytes \<Rightarrow> int) \<Rightarrow> nat \<times> FileMetaData \<Rightarrow> builder \<times> 'a version_heap_scheme \<Rightarrow> builder \<times> 'a version_heap_scheme" where
  "add_to_level icmp = (\<lambda>(level, file) (b, st).
     let (f, st) = new_file (file\<lparr>fm_refs := 1, fm_allowed_seeks := allowed_seeks_for (fm_file_size file)\<rparr>) st;
         ls = bd_levels b level;
         ls = ls\<lparr>ls_deleted_files := ls_deleted_files ls - {fm_number (vh_files st f)}\<rparr>;
         ls = ls\<lparr>ls_added_files := set_insert (BySmallestKey icmp (vh_files st)) f (ls_added_files ls)\<rparr>
     in (b\<lparr>bd_levels := (bd_levels b)(level := ls)\<rparr>, st))"

definition apply_pointers :: "version_edit \<Rightarrow> (nat \<Rightarrow> bytes) \<Rightarrow> nat \<Rightarrow> bytes" where
  "apply_pointers edit compact_pointer = fold (\<lambda>(level, key) c. c(level := key)) (ve_compact_pointers edit) compact_pointer"

definition Builder_Apply ::
    "(bytes \<Rightarrow> bytes \<Rightarrow> int) \<Rightarrow> version_edit \<Rightarrow> (nat \<Rightarrow> bytes) \<times> builder \<times> 'a version_heap_scheme \<Rightarrow>
     (nat \<Rightarrow> bytes) \<times> builder \<times> 'a version_heap_scheme" where
  "Builder_Apply icmp edit = (\<lambda>(compact_pointer, b, st).
     (apply_pointers edit compact_pointer,
      fold (add_to_level icmp) (ve_new_files edit) (fold delete_in_level (ve_deleted_files edit) b, st)))"

definition MaybeAddFile ::
    "builder \<Rightarrow> version_ptr \<Rightarrow> nat \<Rightarrow> file_ptr \<Rightarrow> 'a version_heap_scheme \<Rightarrow> 'a version_heap_scheme" where
  "MaybeAddFile b v level f st =
     (if fm_number (vh_files st f) \<in> ls_deleted_files (bd_levels b level) then st
      else
        let st = set_refs f (fm_refs (vh_files st f) + 1) st;
            ver = vh_versions st v
        in st\<lparr>vh_versions := (vh_versions st)(v := ver\<lparr>v_files := (v_files ver)(level := v_files ver level @ [f])\<rparr>)\<rparr>)"

text \<open>The loop over the added files; \<open>base\<close> is what is left of the files of the base version.\<close>

fun SaveTo_loop ::
    "(bytes \<Rightarrow> bytes \<Rightarrow> int) \<Rightarrow> builder \<Rightarrow> version_ptr \<Rightarrow> nat \<Rightarrow> file_ptr list \<Rightarrow> file_ptr list \<Rightarrow>
     'a version_heap_scheme \<Rightarrow> 'a version_heap_scheme" where
  "SaveTo_loop icmp b v level base [] st = fold (MaybeAddFile b v level) base st"
| "SaveTo_loop icmp b v level base (a # added) st =
     (let before = (\<lambda>f. \<not> BySmallestKey icmp (vh_files st) a f);
          st = fold (MaybeAddFile b v level) (takeWhile before base) st;
          st = MaybeAddFile b v level a st
      in SaveTo_loop icmp b v level (dropWhile before base) added st)"

definition SaveTo ::
    "(bytes \<Rightarrow> bytes \<Rightarrow> int) \<Rightarrow> builder \<Rightarrow> version_ptr \<Rightarrow> 'a version_heap_scheme \<Rightarrow> 'a version_heap_scheme" where
  "SaveTo icmp b v st =
     fold (\<lambda>level st. SaveTo_loop icmp b v level (v_files (vh_versions st (bd_base b)) level)
         (ls_added_files (bd_levels b level)) st) [0..<kNumLevels] st"

text \<open>The check that debug builds make of every level but the first when it is saved.\<close>

definition level_disjoint :: "(bytes \<Rightarrow> bytes \<Rightarrow> int) \<Rightarrow> FileMetaData list \<Rightarrow> bool" where
  "level_disjoint icmp fs \<longleftrightarrow>
     (\<forall>i \<in> {1..<length fs}. \<not> icmp (fm_largest (fs ! (i - 1))) (fm_smallest (fs ! i)) \<ge> 0)"

subsection \<open>The list of versions\<close>

definition AppendVersion :: "version_ptr \<Rightarrow> version_ptr option \<Rightarrow> 'a version_heap_scheme \<Rightarrow> 'a version_heap_scheme" where
  "AppendVersion v current st =
     (let st = (case current of Some c \<Rightarrow> Version_Unref c st | None \<Rightarrow> st);
          st = Version_Ref v st
      in st\<lparr>vh_list := vh_list st @ [v]\<rparr>)"

definition AddLiveFiles :: "'a version_heap_scheme \<Rightarrow> u64 set \<Rightarrow> u64 set" where
  "AddLiveFiles st live =
     fold (\<lambda>v live. fold (\<lambda>level live. fold (\<lambda>f live. insert (fm_number (vh_files st f)) live)
       (v_files (vh_versions st v) level) live) [0..<kNumLevels] live) (vh_list st) live"

end
