(* ===== verification/LDB_VersionBuilderSpec.thy ===== *)
theory LDB_VersionBuilderSpec
  imports LDB_VersionBuilder "HOL-Library.Multiset"
begin

text \<open>
  What the builder saves is the base version without the deleted files and with the added ones, in
  order, and the reference counts of the shared files are right all along: no version has a file that
  was deleted and every file that is left has a holder.
\<close>

subsection \<open>Reference counts\<close>

text \<open>\<open>M\<close> has every file as often as it is referred to.\<close>

definition refs_ok :: "'a version_heap_scheme \<Rightarrow> file_ptr multiset \<Rightarrow> bool" where
  "refs_ok st M \<longleftrightarrow> vh_live_files st = set_mset M \<and> (\<forall>p \<in># M. fm_refs (vh_files st p) = int (count M p)) \<and>
     (\<forall>p \<in># M. p < vh_next_file st)"

definition version_files :: "version \<Rightarrow> file_ptr multiset" where
  "version_files v = mset (concat (map (v_files v) [0..<kNumLevels]))"

definition held :: "'a version_heap_scheme \<Rightarrow> version_ptr list \<Rightarrow> file_ptr multiset" where
  "held st vs = \<Sum>\<^sub># (image_mset (\<lambda>v. version_files (vh_versions st v)) (mset vs))"

text \<open>
  The state of the heap: \<open>pending\<close> are versions that are not in the list yet, \<open>extra\<close> are the files held
  by a builder, and \<open>holders\<close> has every version as often as it is referred to.
\<close>

definition heap_inv ::
    "'a version_heap_scheme \<Rightarrow> version_ptr list \<Rightarrow> file_ptr multiset \<Rightarrow> version_ptr multiset \<Rightarrow> bool" where
  "heap_inv st pending extra holders \<longleftrightarrow>
     refs_ok st (held st (vh_list st @ pending) + extra) \<and> distinct (vh_list st @ pending) \<and>
     (\<forall>v \<in> set (vh_list st @ pending). v < vh_next_version st) \<and>
     set_mset holders = set (vh_list st) \<and>
     (\<forall>v \<in># holders. v_refs (vh_versions st v) = int (count holders v)) \<and>
     (\<forall>v \<in> set pending. v_refs (vh_versions st v) = 0)"

lemma set_refs_simps [simp]:
  "vh_live_files (set_refs p n st) = vh_live_files st" "vh_next_file (set_refs p n st) = vh_next_file st"
  "vh_versions (set_refs p n st) = vh_versions st" "vh_list (set_refs p n st) = vh_list st"
  "vh_next_version (set_refs p n st) = vh_next_version st"
  "vh_files (set_refs p n st) = (vh_files st)(p := (vh_files st p)\<lparr>fm_refs := n\<rparr>)"
  by (simp_all add: set_refs_def)

lemma unref_file_simps [simp]:
  "vh_next_file (unref_file p st) = vh_next_file st" "vh_versions (unref_file p st) = vh_versions st"
  "vh_list (unref_file p st) = vh_list st" "vh_next_version (unref_file p st) = vh_next_version st"
  "vh_files (unref_file p st) = (vh_files st)(p := (vh_files st p)\<lparr>fm_refs := fm_refs (vh_files st p) - 1\<rparr>)"
  by (simp_all add: unref_file_def Let_def)

lemma unref_file_ok: "refs_ok st (add_mset p M) \<Longrightarrow> refs_ok (unref_file p st) M"
  by (auto simp: refs_ok_def unref_file_def Let_def count_eq_zero_iff split: if_splits)

lemma unref_files_ok: "refs_ok st (mset ps + M) \<Longrightarrow> refs_ok (fold unref_file ps st) M"
  by (induction ps arbitrary: st) (simp_all add: unref_file_ok)

lemma fold_nested: "fold (\<lambda>l. fold f (g l)) ls = fold f (concat (map g ls))"
  by (induction ls) (auto simp: fun_eq_iff)

lemma unref_files_frame [simp]:
  "vh_versions (fold unref_file ps st) = vh_versions st" "vh_list (fold unref_file ps st) = vh_list st"
  "vh_next_version (fold unref_file ps st) = vh_next_version st" "vh_next_file (fold unref_file ps st) = vh_next_file st"
  by (induction ps arbitrary: st) simp_all

lemma held_simps [simp]:
  "held st [] = {#}" "held st (v # vs) = version_files (vh_versions st v) + held st vs"
  "held st (vs @ ws) = held st vs + held st ws"
  by (simp_all add: held_def)

lemma held_cong: "(\<And>v. v \<in> set vs \<Longrightarrow> version_files (vh_versions st v) = version_files (vh_versions st' v)) \<Longrightarrow> held st vs = held st' vs"
  by (induction vs) simp_all

lemma held_remove: "v \<in> set vs \<Longrightarrow> held st vs = version_files (vh_versions st v) + held st (remove1 v vs)"
  by (induction vs) auto

lemma delete_Version_frame [simp]:
  "vh_versions (delete_Version v st) = vh_versions st" "vh_list (delete_Version v st) = remove1 v (vh_list st)"
  "vh_next_version (delete_Version v st) = vh_next_version st" "vh_next_file (delete_Version v st) = vh_next_file st"
  by (simp_all add: delete_Version_def fold_nested Let_def)

lemma delete_Version_refs:
  "refs_ok st (version_files (vh_versions st v) + M) \<Longrightarrow> refs_ok (delete_Version v st) M"
  unfolding delete_Version_def Let_def fold_nested
  by (rule unref_files_ok) (simp add: refs_ok_def version_files_def)

lemma version_files_refs [simp]: "version_files (v\<lparr>v_refs := n\<rparr>) = version_files v"
  by (simp add: version_files_def)

lemma set_version_refs_simps [simp]:
  "vh_files (set_version_refs v n st) = vh_files st" "vh_live_files (set_version_refs v n st) = vh_live_files st"
  "vh_next_file (set_version_refs v n st) = vh_next_file st" "vh_list (set_version_refs v n st) = vh_list st"
  "vh_next_version (set_version_refs v n st) = vh_next_version st"
  "vh_versions (set_version_refs v n st) = (vh_versions st)(v := (vh_versions st v)\<lparr>v_refs := n\<rparr>)"
  by (simp_all add: set_version_refs_def)

lemma held_set_version_refs [simp]: "held (set_version_refs v n st) vs = held st vs"
  by (rule held_cong) simp

lemma refs_ok_set_version_refs [simp]: "refs_ok (set_version_refs v n st) M \<longleftrightarrow> refs_ok st M"
  by (simp add: refs_ok_def)

lemma Version_Ref_inv:
  assumes "heap_inv st pending extra holders" and "v \<in> set (vh_list st)"
  shows "heap_inv (Version_Ref v st) pending extra (add_mset v holders)"
  using assms by (auto simp: heap_inv_def Version_Ref_def)

lemma Version_Unref_inv:
  assumes "heap_inv st pending extra (add_mset v holders)"
  shows "heap_inv (Version_Unref v st) pending extra holders"
proof -
  let ?st = "set_version_refs v (v_refs (vh_versions st v) - 1) st"
  have v: "v \<in> set (vh_list st)" "v_refs (vh_versions st v) - 1 = int (count holders v)"
    using assms by (auto simp: heap_inv_def)
  show ?thesis
  proof (cases "v \<in># holders")
    case True
    then show ?thesis
      using assms v by (auto simp: heap_inv_def Version_Unref_def Let_def count_eq_zero_iff)
  next
    case False
    then have un: "Version_Unref v st = delete_Version v ?st"
      using v by (simp add: Version_Unref_def Let_def count_eq_zero_iff)
    have "refs_ok ?st (version_files (vh_versions ?st v) + (held st (remove1 v (vh_list st) @ pending) + extra))"
      using assms held_remove [OF v(1), of st] by (simp add: heap_inv_def ac_simps)
    then have "refs_ok (delete_Version v ?st) (held st (remove1 v (vh_list st) @ pending) + extra)"
      by (rule delete_Version_refs)
    moreover have "held (delete_Version v ?st) (remove1 v (vh_list st) @ pending) = held st (remove1 v (vh_list st) @ pending)"
      by (rule held_cong) simp
    moreover have "set_mset holders = set (remove1 v (vh_list st))" "distinct (vh_list st)"
      using assms False by (auto simp: heap_inv_def)
    ultimately show ?thesis
      using assms False unfolding un heap_inv_def
      by (auto simp: heap_inv_def dest: notin_set_remove1)
  qed
qed

lemma Version_Unref_list:
  assumes "heap_inv st pending extra (add_mset v holders)" and "v \<in># holders"
  shows "vh_list (Version_Unref v st) = vh_list st"
proof -
  have "v_refs (vh_versions st v) - 1 = int (count holders v)" using assms(1) by (auto simp: heap_inv_def)
  moreover obtain n where "count holders v = Suc n" using assms(2) by (metis count_eq_zero_iff not0_implies_Suc)
  ultimately show ?thesis by (simp add: Version_Unref_def Let_def)
qed

lemma create_Version_inv:
  assumes "heap_inv st [] extra holders" and "create_Version st = (v, st')"
  shows "heap_inv st' [v] extra holders"
proof -
  have v: "v = vh_next_version st" "st' = st\<lparr>vh_versions := (vh_versions st)(v := new_Version), vh_next_version := Suc v\<rparr>"
    using assms(2) by (auto simp: create_Version_def)
  have fresh: "v \<notin> set (vh_list st)" using assms(1) v(1) by (auto simp: heap_inv_def)
  then have "held st' (vh_list st) = held st (vh_list st)" by (intro held_cong) (auto simp: v(2))
  moreover have "version_files new_Version = {#}" by (simp add: version_files_def new_Version_def)
  ultimately show ?thesis
    using assms(1) fresh unfolding v(2) by (auto simp: heap_inv_def refs_ok_def v(1) new_Version_def less_Suc_eq)
qed

lemma new_file_refs:
  assumes "refs_ok st M" and "fm_refs f = 1"
  shows "refs_ok (snd (new_file f st)) (add_mset (vh_next_file st) M)"
proof -
  have "vh_next_file st \<notin># M" using assms(1) by (auto simp: refs_ok_def)
  then show ?thesis using assms by (auto simp: refs_ok_def new_file_def count_eq_zero_iff less_Suc_eq)
qed

lemma new_file_inv:
  assumes "heap_inv st pending extra holders" and "new_file f st = (p, st')" and "fm_refs f = 1"
  shows "heap_inv st' pending (add_mset p extra) holders"
proof -
  have st': "p = vh_next_file st" "st' = snd (new_file f st)" "vh_versions st' = vh_versions st" "vh_list st' = vh_list st"
    "vh_next_version st' = vh_next_version st" using assms(2) by (auto simp: new_file_def)
  have "held st' vs = held st vs" for vs by (rule held_cong) (simp add: st'(3))
  moreover have "refs_ok st' (add_mset p (held st (vh_list st @ pending) + extra))"
    using new_file_refs [of st "held st (vh_list st @ pending) + extra" f] assms(1,3) by (simp add: heap_inv_def st')
  ultimately show ?thesis using assms(1) by (simp add: heap_inv_def st'(3-5))
qed

subsection \<open>What is saved\<close>

text \<open>The data of the files: what does not change while they are shared.\<close>

definition data_of :: "file_store \<Rightarrow> file_store" where
  "data_of h = (\<lambda>p. (h p)\<lparr>fm_refs := 0\<rparr>)"

lemma data_of_refs [simp]: "data_of (h(p := (h p)\<lparr>fm_refs := n\<rparr>)) = data_of h"
  by (auto simp: data_of_def)

lemma data_of_fields:
  assumes "data_of h = data_of h'"
  shows "fm_number (h p) = fm_number (h' p)" and "fm_smallest (h p) = fm_smallest (h' p)"
    and "fm_largest (h p) = fm_largest (h' p)" and "fm_file_size (h p) = fm_file_size (h' p)"
  using fun_cong [OF assms, of p] by (cases "h p"; cases "h' p"; simp add: data_of_def)+

lemma BySmallestKey_cong: "h' p = h p \<Longrightarrow> h' q = h q \<Longrightarrow> BySmallestKey icmp h' p q = BySmallestKey icmp h p q"
  by (simp add: BySmallestKey_def)

lemma BySmallestKey_data: "data_of h = data_of h' \<Longrightarrow> BySmallestKey icmp h = BySmallestKey icmp h'"
  by (simp add: BySmallestKey_def fun_eq_iff data_of_fields [of h h'])

fun merge_added :: "('a \<Rightarrow> 'a \<Rightarrow> bool) \<Rightarrow> 'a list \<Rightarrow> 'a list \<Rightarrow> 'a list" where
  "merge_added lt base [] = base"
| "merge_added lt base (a # added) =
     takeWhile (\<lambda>f. \<not> lt a f) base @ a # merge_added lt (dropWhile (\<lambda>f. \<not> lt a f) base) added"

definition saved_level :: "(bytes \<Rightarrow> bytes \<Rightarrow> int) \<Rightarrow> file_store \<Rightarrow> level_state \<Rightarrow> file_ptr list \<Rightarrow> file_ptr list" where
  "saved_level icmp h ls base =
     filter (\<lambda>p. fm_number (h p) \<notin> ls_deleted_files ls) (merge_added (BySmallestKey icmp h) base (ls_added_files ls))"

text \<open>\<open>st'\<close> is \<open>st\<close> after the files \<open>ps\<close> were added to a level of the version \<open>v\<close>.\<close>

definition appended ::
    "'a version_heap_scheme \<Rightarrow> version_ptr \<Rightarrow> nat \<Rightarrow> file_ptr list \<Rightarrow> 'a version_heap_scheme \<Rightarrow> bool" where
  "appended st v level ps st' \<longleftrightarrow>
     data_of (vh_files st') = data_of (vh_files st) \<and>
     vh_versions st' = (vh_versions st)(v := (vh_versions st v)\<lparr>v_files :=
       (v_files (vh_versions st v))(level := v_files (vh_versions st v) level @ ps)\<rparr>) \<and>
     vh_list st' = vh_list st \<and> vh_next_file st' = vh_next_file st \<and> vh_next_version st' = vh_next_version st"

lemma appended_refl: "appended st v level [] st"
  by (simp add: appended_def)

lemma appended_trans: "appended st v level ps st' \<Longrightarrow> appended st' v level qs st'' \<Longrightarrow> appended st v level (ps @ qs) st''"
  by (simp add: appended_def)

lemma MaybeAddFile_appended:
  "appended st v level (if fm_number (vh_files st f) \<in> ls_deleted_files (bd_levels b level) then [] else [f]) (MaybeAddFile b v level f st)"
  by (simp add: MaybeAddFile_def appended_def Let_def)

lemma MaybeAddFiles_appended:
  "appended st v level (filter (\<lambda>p. fm_number (vh_files st p) \<notin> ls_deleted_files (bd_levels b level)) ps)
     (fold (MaybeAddFile b v level) ps st)"
proof (induction ps arbitrary: st)
  case Nil
  show ?case by (simp add: appended_refl)
next
  case (Cons f ps)
  let ?st = "MaybeAddFile b v level f st"
  have "appended st v level ((if fm_number (vh_files st f) \<in> ls_deleted_files (bd_levels b level) then [] else [f]) @
      filter (\<lambda>p. fm_number (vh_files ?st p) \<notin> ls_deleted_files (bd_levels b level)) ps) (fold (MaybeAddFile b v level) ps ?st)"
    by (rule appended_trans [OF MaybeAddFile_appended Cons.IH])
  moreover have "fm_number (vh_files ?st p) = fm_number (vh_files st p)" for p
    using MaybeAddFile_appended [of st v level f b] by (intro data_of_fields(1)) (simp add: appended_def)
  ultimately show ?case by (simp split: if_splits)
qed

lemma SaveTo_loop_appended:
  assumes "data_of (vh_files st) = data_of h"
  shows "appended st v level (filter (\<lambda>p. fm_number (h p) \<notin> ls_deleted_files (bd_levels b level))
    (merge_added (BySmallestKey icmp h) base added)) (SaveTo_loop icmp b v level base added st)"
  using assms
proof (induction added arbitrary: base st)
  case Nil
  then show ?case using MaybeAddFiles_appended [of st v level b base] data_of_fields(1) [OF Nil.prems] by simp
next
  case (Cons a added)
  let ?keep = "\<lambda>p. fm_number (h p) \<notin> ls_deleted_files (bd_levels b level)"
  let ?before = "\<lambda>f. \<not> BySmallestKey icmp h a f"
  let ?st1 = "fold (MaybeAddFile b v level) (takeWhile ?before base) st"
  let ?st2 = "MaybeAddFile b v level a ?st1"
  have num: "fm_number (vh_files st p) = fm_number (h p)" for p using Cons.prems data_of_fields(1) by blast
  have st1: "appended st v level (filter ?keep (takeWhile ?before base)) ?st1"
    using MaybeAddFiles_appended [of st v level b] num by simp
  then have d1: "data_of (vh_files ?st1) = data_of h" using Cons.prems by (simp add: appended_def)
  have st2: "appended ?st1 v level (filter ?keep [a]) ?st2"
    using MaybeAddFile_appended [of ?st1 v level a b] data_of_fields(1) [OF d1] by (simp split: if_splits)
  then have d2: "data_of (vh_files ?st2) = data_of h" using d1 by (simp add: appended_def)
  have "appended st v level ((filter ?keep (takeWhile ?before base) @ filter ?keep [a]) @
      filter ?keep (merge_added (BySmallestKey icmp h) (dropWhile ?before base) added))
      (SaveTo_loop icmp b v level (dropWhile ?before base) added ?st2)"
    by (rule appended_trans [OF appended_trans [OF st1 st2] Cons.IH [OF d2]])
  then show ?case using BySmallestKey_data [OF Cons.prems, of icmp] by (simp add: Let_def split: if_splits)
qed

lemma SaveTo_levels:
  fixes icmp :: "bytes \<Rightarrow> bytes \<Rightarrow> int"
  assumes "data_of (vh_files st) = data_of h" and "v \<noteq> bd_base b" and "distinct levels"
    and "v_files (vh_versions st v) = (\<lambda>level. [])"
  defines "st' \<equiv> fold (\<lambda>level st. SaveTo_loop icmp b v level (v_files (vh_versions st (bd_base b)) level)
         (ls_added_files (bd_levels b level)) st) levels st"
  shows "data_of (vh_files st') = data_of h \<and> vh_list st' = vh_list st \<and> vh_next_file st' = vh_next_file st \<and>
    vh_next_version st' = vh_next_version st \<and>
    vh_versions st' = (vh_versions st)(v := (vh_versions st v)\<lparr>v_files := (\<lambda>level.
      if level \<in> set levels then saved_level icmp h (bd_levels b level) (v_files (vh_versions st (bd_base b)) level) else [])\<rparr>)"
  unfolding st'_def using assms(3)
proof (induction levels rule: rev_induct)
  case Nil
  have "(\<lambda>level::nat. []) = v_files (vh_versions st v)" using assms(4) by simp
  then show ?case using assms(1) by simp
next
  case (snoc l levels)
  let ?loop = "\<lambda>level st. SaveTo_loop icmp b v level (v_files (vh_versions st (bd_base b)) level) (ls_added_files (bd_levels b level)) st"
  let ?st = "fold ?loop levels st"
  note IH = snoc.IH
  have ih: "data_of (vh_files ?st) = data_of h" "vh_versions ?st = (vh_versions st)(v := (vh_versions st v)\<lparr>v_files := (\<lambda>level.
      if level \<in> set levels then saved_level icmp h (bd_levels b level) (v_files (vh_versions st (bd_base b)) level) else [])\<rparr>)"
    using snoc by auto
  have "appended ?st v l (saved_level icmp h (bd_levels b l) (v_files (vh_versions ?st (bd_base b)) l)) (?loop l ?st)"
    unfolding saved_level_def by (rule SaveTo_loop_appended [OF ih(1)])
  then show ?case
    using snoc ih assms(2) by (auto simp: appended_def fun_eq_iff)
qed

subsection \<open>Saving keeps the counts\<close>

lemma version_files_append:
  assumes "level < kNumLevels"
  shows "version_files (ver\<lparr>v_files := (v_files ver)(level := v_files ver level @ [f])\<rparr>) = add_mset f (version_files ver)"
proof -
  have "[0..<kNumLevels] = [0..<level] @ level # [Suc level..<kNumLevels]"
    using assms upt_add_eq_append [of 0 level "kNumLevels - level"] by (simp add: upt_conv_Cons)
  then show ?thesis by (simp add: version_files_def)
qed

lemma refs_ok_add:
  "refs_ok st M \<Longrightarrow> f \<in># M \<Longrightarrow> refs_ok (set_refs f (fm_refs (vh_files st f) + 1) st) (add_mset f M)"
  by (auto simp: refs_ok_def)

lemma refs_ok_cong:
  "refs_ok st M \<Longrightarrow> vh_files st' = vh_files st \<Longrightarrow> vh_live_files st' = vh_live_files st \<Longrightarrow> vh_next_file st' = vh_next_file st \<Longrightarrow>
    refs_ok st' M"
  by (simp add: refs_ok_def)

lemma MaybeAddFile_inv:
  fixes b :: builder
  assumes inv: "heap_inv st [v] extra holders" and f: "f \<in># held st (vh_list st) + extra" and level: "level < kNumLevels"
  defines "st' \<equiv> MaybeAddFile b v level f st"
  shows "heap_inv st' [v] extra holders \<and> held st' (vh_list st') = held st (vh_list st)"
proof (cases "fm_number (vh_files st f) \<in> ls_deleted_files (bd_levels b level)")
  case True
  then show ?thesis using inv by (simp add: st'_def MaybeAddFile_def)
next
  case False
  let ?st = "set_refs f (fm_refs (vh_files st f) + 1) st" and ?ver = "vh_versions st v"
  let ?new = "?ver\<lparr>v_files := (v_files ?ver)(level := v_files ?ver level @ [f])\<rparr>"
  have st': "st' = ?st\<lparr>vh_versions := (vh_versions st)(v := ?new)\<rparr>" using False by (simp add: st'_def MaybeAddFile_def Let_def)
  have v: "v \<notin> set (vh_list st)" using inv by (simp add: heap_inv_def)
  have old: "held st' (vh_list st) = held st (vh_list st)" using v by (intro held_cong) (auto simp: st')
  have "held st' [v] = add_mset f (held st [v])" using version_files_append [OF level, of ?ver f] by (simp add: st')
  then have eq: "held st' (vh_list st @ [v]) + extra = add_mset f (held st (vh_list st @ [v]) + extra)" using old by simp
  have "f \<in># held st (vh_list st @ [v]) + extra" using f by auto
  then have "refs_ok ?st (add_mset f (held st (vh_list st @ [v]) + extra))"
    using inv by (intro refs_ok_add) (simp_all add: heap_inv_def)
  then have "refs_ok st' (held st' (vh_list st @ [v]) + extra)"
    unfolding eq by (rule refs_ok_cong) (simp_all only: st', simp_all)
  moreover have "v_refs (vh_versions st' u) = v_refs (vh_versions st u)" for u by (simp add: st')
  moreover have "vh_list st' = vh_list st" "vh_next_version st' = vh_next_version st" by (simp_all add: st')
  ultimately show ?thesis using inv old by (simp add: heap_inv_def)
qed

lemma MaybeAddFiles_inv:
  fixes b :: builder
  assumes "heap_inv st [v] extra holders" and "set ps \<subseteq> set_mset (held st (vh_list st) + extra)" and "level < kNumLevels"
  defines "st' \<equiv> fold (MaybeAddFile b v level) ps st"
  shows "heap_inv st' [v] extra holders \<and> held st' (vh_list st') = held st (vh_list st)"
  unfolding st'_def using assms(1,2)
proof (induction ps arbitrary: st)
  case (Cons f ps)
  have step: "heap_inv (MaybeAddFile b v level f st) [v] extra holders \<and>
      held (MaybeAddFile b v level f st) (vh_list (MaybeAddFile b v level f st)) = held st (vh_list st)"
    using Cons.prems by (intro MaybeAddFile_inv [OF _ _ assms(3)]) auto
  then show ?case using Cons.IH [of "MaybeAddFile b v level f st"] Cons.prems(2) by simp
qed simp

lemma SaveTo_loop_inv:
  fixes b :: builder and icmp :: "bytes \<Rightarrow> bytes \<Rightarrow> int"
  assumes "heap_inv st [v] extra holders" and "set base \<union> set added \<subseteq> set_mset (held st (vh_list st) + extra)" and "level < kNumLevels"
  defines "st' \<equiv> SaveTo_loop icmp b v level base added st"
  shows "heap_inv st' [v] extra holders \<and> held st' (vh_list st') = held st (vh_list st)"
  unfolding st'_def using assms(1,2)
proof (induction added arbitrary: st base)
  case Nil
  then show ?case using MaybeAddFiles_inv [OF Nil.prems(1) _ assms(3), of base] by simp
next
  case (Cons a added)
  let ?before = "\<lambda>f. \<not> BySmallestKey icmp (vh_files st) a f"
  let ?st1 = "fold (MaybeAddFile b v level) (takeWhile ?before base) st"
  let ?st2 = "MaybeAddFile b v level a ?st1"
  have 1: "heap_inv ?st1 [v] extra holders \<and> held ?st1 (vh_list ?st1) = held st (vh_list st)"
    using Cons.prems(2) set_takeWhileD by (intro MaybeAddFiles_inv [OF Cons.prems(1) _ assms(3)]) fastforce
  then have 2: "heap_inv ?st2 [v] extra holders \<and> held ?st2 (vh_list ?st2) = held st (vh_list st)"
    using MaybeAddFile_inv [of ?st1 v extra holders a level b] Cons.prems(2) assms(3) by simp
  have "set (dropWhile ?before base) \<union> set added \<subseteq> set_mset (held ?st2 (vh_list ?st2) + extra)"
    using 2 Cons.prems(2) set_dropWhileD by fastforce
  then show ?case using Cons.IH [of ?st2 "dropWhile ?before base"] 2 by (simp add: Let_def)
qed

definition builder_files :: "builder \<Rightarrow> file_ptr multiset" where
  "builder_files b = mset (concat (map (\<lambda>level. ls_added_files (bd_levels b level)) [0..<kNumLevels]))"

lemma version_files_level: "level < kNumLevels \<Longrightarrow> p \<in> set (v_files ver level) \<Longrightarrow> p \<in># version_files ver"
  by (auto simp: version_files_def)

lemma builder_files_level: "level < kNumLevels \<Longrightarrow> p \<in> set (ls_added_files (bd_levels b level)) \<Longrightarrow> p \<in># builder_files b"
  by (auto simp: builder_files_def)

lemma held_version: "v \<in> set vs \<Longrightarrow> p \<in># version_files (vh_versions st v) \<Longrightarrow> p \<in># held st vs"
  by (induction vs) auto

lemma SaveTo_inv:
  assumes inv: "heap_inv st [v] (builder_files b + extra) holders" and base: "bd_base b \<in> set (vh_list st)"
  shows "heap_inv (SaveTo icmp b v st) [v] (builder_files b + extra) holders"
proof -
  let ?loop = "\<lambda>level st. SaveTo_loop icmp b v level (v_files (vh_versions st (bd_base b)) level) (ls_added_files (bd_levels b level)) st"
  have "heap_inv (fold ?loop levels st) [v] (builder_files b + extra) holders \<and> vh_list (fold ?loop levels st) = vh_list st"
    if "set levels \<subseteq> {..<kNumLevels}" for levels
    using that
  proof (induction levels rule: rev_induct)
    case (snoc l levels)
    let ?st = "fold ?loop levels st"
    have ih: "heap_inv ?st [v] (builder_files b + extra) holders" "vh_list ?st = vh_list st" and l: "l < kNumLevels" using snoc by auto
    have "set (v_files (vh_versions ?st (bd_base b)) l) \<union> set (ls_added_files (bd_levels b l)) \<subseteq>
        set_mset (held ?st (vh_list ?st) + (builder_files b + extra))"
      using held_version [of "bd_base b" "vh_list ?st" _ ?st] version_files_level [OF l] builder_files_level [OF l] base ih(2) by auto
    then have "heap_inv (?loop l ?st) [v] (builder_files b + extra) holders" using SaveTo_loop_inv [OF ih(1) _ l] by blast
    moreover have "vh_list (?loop l ?st) = vh_list ?st"
      using SaveTo_loop_appended [OF refl, of ?st v l b icmp "v_files (vh_versions ?st (bd_base b)) l" "ls_added_files (bd_levels b l)"]
      unfolding appended_def by simp
    ultimately show ?case using ih(2) by simp
  qed (use inv in simp)
  moreover have "set [0..<kNumLevels] \<subseteq> {..<kNumLevels}" by auto
  ultimately show ?thesis unfolding SaveTo_def by blast
qed

lemma unref_files_inv:
  assumes "heap_inv st pending (mset ps + extra) holders"
  shows "heap_inv (fold unref_file ps st) pending extra holders"
proof -
  have "refs_ok st (mset ps + (held st (vh_list st @ pending) + extra))"
    using assms by (simp add: heap_inv_def ac_simps)
  then have "refs_ok (fold unref_file ps st) (held st (vh_list st @ pending) + extra)" by (rule unref_files_ok)
  moreover have "held (fold unref_file ps st) vs = held st vs" for vs by (rule held_cong) simp
  ultimately show ?thesis using assms by (simp add: heap_inv_def)
qed

lemma Builder_delete_inv:
  assumes "heap_inv st pending (builder_files b + extra) (add_mset (bd_base b) holders)"
  shows "heap_inv (Builder_delete b st) pending extra holders"
  unfolding Builder_delete_def fold_nested
  by (rule Version_Unref_inv, rule unref_files_inv) (use assms in \<open>simp only: builder_files_def\<close>)

lemma Builder_delete_list:
  assumes "heap_inv st pending (builder_files b + extra) (add_mset (bd_base b) holders)" and "bd_base b \<in># holders"
  shows "vh_list (Builder_delete b st) = vh_list st"
proof -
  let ?ps = "concat (map (\<lambda>level. ls_added_files (bd_levels b level)) [0..<kNumLevels])"
  have "heap_inv (fold unref_file ?ps st) pending extra (add_mset (bd_base b) holders)"
    by (rule unref_files_inv) (use assms(1) in \<open>simp only: builder_files_def\<close>)
  from Version_Unref_list [OF this assms(2)] show ?thesis unfolding Builder_delete_def fold_nested by simp
qed

lemma AppendVersion_inv:
  assumes "heap_inv st [v] extra (case current of Some c \<Rightarrow> add_mset c holders | None \<Rightarrow> holders)"
  shows "heap_inv (AppendVersion v current st) [] extra (add_mset v holders)"
proof -
  let ?st = "case current of Some c \<Rightarrow> Version_Unref c st | None \<Rightarrow> st"
  have inv: "heap_inv ?st [v] extra holders" using assms Version_Unref_inv by (auto split: option.splits)
  have v: "v_refs (vh_versions ?st v) = 0" "v \<notin># holders" "v \<notin> set (vh_list ?st)" using inv by (auto simp: heap_inv_def)
  have "held (set_version_refs v 1 ?st) vs = held ?st vs" for vs by simp
  then show ?thesis
    using inv v by (auto simp: AppendVersion_def Let_def Version_Ref_def heap_inv_def count_eq_zero_iff refs_ok_def held_def)
qed

lemma delete_pending_inv:
  assumes "heap_inv st [v] {#} holders"
  shows "heap_inv (delete_Version v st) [] {#} holders"
proof -
  have v: "v \<notin> set (vh_list st)" using assms by (simp add: heap_inv_def)
  have "refs_ok st (version_files (vh_versions st v) + held st (vh_list st))"
    using assms by (simp add: heap_inv_def ac_simps)
  then have "refs_ok (delete_Version v st) (held st (vh_list st))" by (rule delete_Version_refs)
  moreover have "held (delete_Version v st) (vh_list st) = held st (vh_list st)" by (rule held_cong) simp
  ultimately show ?thesis using assms v by (auto simp: heap_inv_def remove1_idem)
qed

subsection \<open>Order\<close>

lemma merge_added_mset: "mset (merge_added lt base added) = mset base + mset added"
proof (induction added arbitrary: base)
  case (Cons a added)
  have "mset (takeWhile P base) + mset (dropWhile P base) = mset base" for P
    by (metis mset_append takeWhile_dropWhile_id)
  then show ?case using Cons.IH by simp
qed simp

lemma set_merge_added [simp]: "set (merge_added lt base added) = set base \<union> set added"
  using merge_added_mset [of lt base added] by (metis set_mset_mset set_mset_union)

lemma sorted_wrt_split:
  assumes "sorted_wrt lt s"
  shows "sorted_wrt lt (takeWhile P s)" and "sorted_wrt lt (dropWhile P s)"
    and "x \<in> set (takeWhile P s) \<Longrightarrow> y \<in> set (dropWhile P s) \<Longrightarrow> lt x y"
  using assms sorted_wrt_append [of lt "takeWhile P s" "dropWhile P s"] by simp_all

lemma sorted_wrt_middle:
  assumes "sorted_wrt lt xs" and "sorted_wrt lt ys" and "\<And>x. x \<in> set xs \<Longrightarrow> lt x a" and "\<And>y. y \<in> set ys \<Longrightarrow> lt a y"
    and "\<And>x y. x \<in> set xs \<Longrightarrow> y \<in> set ys \<Longrightarrow> lt x y"
  shows "sorted_wrt lt (xs @ a # ys)"
  using assms by (auto simp: sorted_wrt_append)

lemma merge_added_sorted:
  assumes "sorted_wrt lt base" and "sorted_wrt lt added"
    and trans: "\<And>x y z. x \<in> S \<Longrightarrow> y \<in> S \<Longrightarrow> z \<in> S \<Longrightarrow> lt x y \<Longrightarrow> lt y z \<Longrightarrow> lt x z"
    and total: "\<And>x a. x \<in> set base \<Longrightarrow> a \<in> set added \<Longrightarrow> lt x a \<or> lt a x"
    and S: "set base \<union> set added \<subseteq> S"
  shows "sorted_wrt lt (merge_added lt base added)"
  using assms(1,2) total S
proof (induction added arbitrary: base)
  case (Cons a added)
  let ?P = "\<lambda>f. \<not> lt a f"
  let ?tw = "takeWhile ?P base" and ?dw = "dropWhile ?P base"
  note base = sorted_wrt_split [OF Cons.prems(1), where P = ?P]
  have sub: "set ?tw \<subseteq> set base" "set ?dw \<subseteq> set base" by (auto dest: set_takeWhileD set_dropWhileD)
  have tw: "lt x a" if "x \<in> set ?tw" for x using that Cons.prems(3) [of x a] set_takeWhileD [OF that] by simp
  have dw: "lt a y" if "y \<in> set ?dw" for y
  proof (cases ?dw)
    case Nil
    then show ?thesis using that by (simp only: list.set(1) empty_iff)
  next
    case (Cons d ds)
    then have "lt a d" using hd_dropWhile [of ?P base] by (metis list.sel(1) list.distinct(1))
    moreover have "y = d \<or> lt d y" using that Cons base(2) by auto
    ultimately show ?thesis using trans [of a d y] sub Cons.prems(4) that Cons by auto
  qed
  have added: "lt a y" if "y \<in> set added" for y using Cons.prems(2) that by simp
  have rest: "sorted_wrt lt (merge_added lt ?dw added)"
  proof (rule Cons.IH [OF base(2)])
    show "sorted_wrt lt added" using Cons.prems(2) by simp
    show "lt x y \<or> lt y x" if "x \<in> set ?dw" "y \<in> set added" for x y using Cons.prems(3) [of x y] that sub(2) by auto
    show "set ?dw \<union> set added \<subseteq> S" using Cons.prems(4) sub(2) by auto
  qed
  have apart: "lt x y" if "x \<in> set ?tw" "y \<in> set ?dw \<union> set added" for x y
  proof (cases "y \<in> set ?dw")
    case True
    then show ?thesis using base(3) that(1) by blast
  next
    case False
    then have y: "y \<in> set added" using that(2) by blast
    have "x \<in> S" "a \<in> S" "y \<in> S" using that(1) y sub(1) Cons.prems(4) by auto
    then show ?thesis using trans [of x a y] tw [OF that(1)] added [OF y] by blast
  qed
  have above: "lt a y" if "y \<in> set (merge_added lt ?dw added)" for y
    using that dw [of y] added [of y] unfolding set_merge_added by blast
  show ?case
    unfolding merge_added.simps
  proof (rule sorted_wrt_middle [OF base(1) rest tw above])
    show "lt x y" if "x \<in> set ?tw" "y \<in> set (merge_added lt ?dw added)" for x y
      using apart [OF that(1)] that(2) unfolding set_merge_added by blast
  qed
qed simp

lemma set_insert_sorted:
  assumes sorted: "sorted_wrt lt s" and trans: "\<And>x y z. x \<in> S \<Longrightarrow> y \<in> S \<Longrightarrow> z \<in> S \<Longrightarrow> lt x y \<Longrightarrow> lt y z \<Longrightarrow> lt x z"
    and total: "\<And>y. y \<in> set s \<Longrightarrow> lt x y \<or> lt y x" and S: "insert x (set s) \<subseteq> S"
  shows "mset (set_insert lt x s) = add_mset x (mset s) \<and> sorted_wrt lt (set_insert lt x s)"
proof -
  let ?P = "\<lambda>y. lt y x"
  let ?tw = "takeWhile ?P s" and ?dw = "dropWhile ?P s"
  have sub: "set ?tw \<subseteq> set s" "set ?dw \<subseteq> set s" by (auto dest: set_takeWhileD set_dropWhileD)
  have tw: "lt y x" if "y \<in> set ?tw" for y using set_takeWhileD [OF that] by simp
  note parts = sorted_wrt_split [OF sorted, where P = ?P]
  have dw: "lt x z" if "z \<in> set ?dw" for z
  proof (cases ?dw)
    case Nil
    then show ?thesis using that by (simp only: list.set(1) empty_iff)
  next
    case (Cons d ds)
    then have "\<not> lt d x" using hd_dropWhile [of ?P s] by (metis list.sel(1) list.distinct(1))
    then have "lt x d" using total [of d] sub Cons by auto
    moreover have "z = d \<or> lt d z" using that Cons parts(2) by auto
    ultimately show ?thesis using trans [of x d z] sub S that Cons by auto
  qed
  have "set_insert lt x s = ?tw @ x # ?dw"
  proof (cases ?dw)
    case Nil
    then show ?thesis by (simp only: set_insert_def Let_def list.case)
  next
    case (Cons d ds)
    then have "lt x d" using dw [of d] by simp
    then show ?thesis using Cons by (simp only: set_insert_def Let_def list.case if_True)
  qed
  moreover have "mset ?tw + mset ?dw = mset s" by (metis mset_append takeWhile_dropWhile_id)
  moreover have "sorted_wrt lt (?tw @ x # ?dw)" by (rule sorted_wrt_middle [OF parts(1,2) tw dw parts(3)])
  ultimately show ?thesis by (simp only: mset_append mset.simps union_mset_add_mset_right)
qed

context user_comparator
begin

lemma by_smallest_trans:
  assumes "8 \<le> length (fm_smallest (h a))" and "8 \<le> length (fm_smallest (h b))" and "8 \<le> length (fm_smallest (h c))"
    and "BySmallestKey icmp h a b" and "BySmallestKey icmp h b c"
  shows "BySmallestKey icmp h a c"
proof -
  let ?a = "fm_smallest (h a)" and ?b = "fm_smallest (h b)" and ?c = "fm_smallest (h c)"
  have ab: "icmp ?a ?b < 0 \<or> icmp ?a ?b = 0 \<and> fm_number (h a) < fm_number (h b)"
    and bc: "icmp ?b ?c < 0 \<or> icmp ?b ?c = 0 \<and> fm_number (h b) < fm_number (h c)"
    using assms(4,5) by (auto simp: BySmallestKey_def Let_def split: if_splits)
  have "icmp ?a ?c < 0 \<or> icmp ?a ?c = 0 \<and> fm_number (h a) < fm_number (h c)"
  proof (cases "icmp ?a ?b < 0 \<or> icmp ?b ?c < 0")
    case True
    then show ?thesis
      using ab bc internal.cmp_less_le_trans [of ?a ?b ?c] internal.cmp_le_less_trans [of ?a ?b ?c] assms(1-3) by auto
  next
    case False
    then have zero: "icmp ?a ?b = 0" "icmp ?b ?c = 0" using ab bc by auto
    then have "icmp ?b ?a = 0" "icmp ?c ?b = 0" using internal.cmp_zero_sym assms(1-3) by blast+
    then have "icmp ?a ?c \<le> 0" "icmp ?c ?a \<le> 0"
      using zero internal.cmp_trans [of ?a ?b ?c] internal.cmp_trans [of ?c ?b ?a] assms(1-3) by auto
    then have "icmp ?a ?c = 0" using internal.cmp_flip [of ?c ?a] internal.cmp_flip [of ?a ?c] assms(1-3) by linarith
    then show ?thesis using ab bc False by auto
  qed
  then show ?thesis by (auto simp: BySmallestKey_def Let_def)
qed

lemma by_smallest_total:
  assumes "8 \<le> length (fm_smallest (h a))" and "8 \<le> length (fm_smallest (h b))" and "fm_number (h a) \<noteq> fm_number (h b)"
  shows "BySmallestKey icmp h a b \<or> BySmallestKey icmp h b a"
  using assms internal.cmp_zero_sym [of "fm_smallest (h a)" "fm_smallest (h b)"]
    internal.cmp_flip [of "fm_smallest (h b)" "fm_smallest (h a)"]
  by (auto simp: BySmallestKey_def Let_def)

end

subsection \<open>The edits\<close>

text \<open>
  The abstract view: a version is the set of its files for every level, and an edit takes some away and adds
  others.
\<close>

definition edit_level :: "version_edit \<Rightarrow> nat \<Rightarrow> FileMetaData set \<Rightarrow> FileMetaData set" where
  "edit_level e level S =
     {f \<in> S. (level, fm_number f) \<notin> set (ve_deleted_files e)} \<union> {stored_file f |f. (level, f) \<in> set (ve_new_files e)}"

definition stored_level :: "file_store \<Rightarrow> file_ptr list \<Rightarrow> FileMetaData set" where
  "stored_level h ps = (\<lambda>p. stored_file (h p)) ` set ps"

text \<open>A level whose files are disjoint, as a set.\<close>

definition disjoint_files :: "(bytes \<Rightarrow> bytes \<Rightarrow> int) \<Rightarrow> FileMetaData set \<Rightarrow> bool" where
  "disjoint_files cmp S \<longleftrightarrow> (\<forall>f \<in> S. \<forall>g \<in> S. f \<noteq> g \<longrightarrow>
     InternalKey_Compare cmp (fm_largest f) (fm_smallest g) < 0 \<or> InternalKey_Compare cmp (fm_largest g) (fm_smallest f) < 0)"

definition edit_numbers :: "version_edit \<Rightarrow> (nat \<times> u64) list" where
  "edit_numbers e = map (\<lambda>(level, f). (level, fm_number f)) (ve_new_files e)"

definition edit_files_ok :: "(bytes \<Rightarrow> bytes \<Rightarrow> int) \<Rightarrow> version_edit \<Rightarrow> bool" where
  "edit_files_ok cmp e \<longleftrightarrow> (\<forall>(level, f) \<in> set (ve_new_files e). level < kNumLevels \<and> file_ok cmp f)"

lemma stored_file_fields [simp]:
  "fm_number (stored_file f) = fm_number f" "fm_file_size (stored_file f) = fm_file_size f"
  "fm_smallest (stored_file f) = fm_smallest f" "fm_largest (stored_file f) = fm_largest f"
  "stored_file (f\<lparr>fm_refs := n\<rparr>) = stored_file f" "stored_file (f\<lparr>fm_allowed_seeks := m\<rparr>) = stored_file f"
  by (simp_all add: stored_file_def new_FileMetaData_def)

lemma stored_file_data: "data_of h = data_of h' \<Longrightarrow> stored_file (h p) = stored_file (h' p)"
  using data_of_fields [of h h' p] by (simp add: stored_file_def)

lemma file_ok_stored [simp]: "file_ok cmp (stored_file f) \<longleftrightarrow> file_ok cmp f"
  by (simp add: file_ok_def)

text \<open>
  The state of the builder: \<open>base\<close> are the files of the base version, \<open>used\<close> has the numbers that occurred in each
  level and \<open>S\<close> are the files to be saved.
\<close>

definition level_inv ::
    "(bytes \<Rightarrow> bytes \<Rightarrow> int) \<Rightarrow> file_store \<Rightarrow> file_ptr \<Rightarrow> file_ptr list \<Rightarrow> level_state \<Rightarrow> u64 set \<Rightarrow> FileMetaData set \<Rightarrow> bool" where
  "level_inv cmp h n base ls used S \<longleftrightarrow>
     sorted_wrt (BySmallestKey (InternalKey_Compare cmp) h) (ls_added_files ls) \<and>
     (\<forall>p \<in> set base \<union> set (ls_added_files ls). p < n \<and> fm_number (h p) \<in> used \<and> file_ok cmp (h p)) \<and>
     (\<forall>p \<in> set base. \<forall>a \<in> set (ls_added_files ls). fm_number (h p) \<noteq> fm_number (h a)) \<and>
     S = (\<lambda>p. stored_file (h p)) ` {p \<in> set base \<union> set (ls_added_files ls). fm_number (h p) \<notin> ls_deleted_files ls}"

definition builder_inv ::
    "(bytes \<Rightarrow> bytes \<Rightarrow> int) \<Rightarrow> 'a version_heap_scheme \<Rightarrow> builder \<Rightarrow> (nat \<Rightarrow> file_ptr list) \<Rightarrow> (nat \<times> u64) set \<Rightarrow>
     (nat \<Rightarrow> FileMetaData set) \<Rightarrow> bool" where
  "builder_inv cmp st b base used S \<longleftrightarrow> (\<forall>level < kNumLevels.
     level_inv cmp (vh_files st) (vh_next_file st) (base level) (bd_levels b level) {n. (level, n) \<in> used} (S level))"

lemma image_filter_cong:
  "(\<And>p. p \<in> A \<Longrightarrow> f p = g p) \<Longrightarrow> (\<And>p. p \<in> A \<Longrightarrow> P p = Q p) \<Longrightarrow> f ` {p \<in> A. P p} = g ` {p \<in> A. Q p}"
  by (rule image_cong) auto

lemma level_inv_frame:
  assumes inv: "level_inv cmp h n base ls used S" and same: "\<And>p. p < n \<Longrightarrow> h' p = h p" and "n \<le> n'" and "used \<subseteq> used'"
  shows "level_inv cmp h' n' base ls used' S"
proof -
  have p: "p < n" if "p \<in> set base \<union> set (ls_added_files ls)" for p using inv that by (simp add: level_inv_def)
  have h': "h' p = h p" if "p \<in> set base \<union> set (ls_added_files ls)" for p using same p that by blast
  have "sorted_wrt (BySmallestKey (InternalKey_Compare cmp) h') (ls_added_files ls)"
  proof (rule sorted_wrt_mono_rel)
    show "sorted_wrt (BySmallestKey (InternalKey_Compare cmp) h) (ls_added_files ls)" using inv by (simp add: level_inv_def)
    show "BySmallestKey (InternalKey_Compare cmp) h' x y"
      if "x \<in> set (ls_added_files ls)" "y \<in> set (ls_added_files ls)" "BySmallestKey (InternalKey_Compare cmp) h x y" for x y
      using that BySmallestKey_cong [of h' x h y] h' by simp
  qed
  moreover have "S = (\<lambda>p. stored_file (h' p)) ` {p \<in> set base \<union> set (ls_added_files ls). fm_number (h' p) \<notin> ls_deleted_files ls}"
  proof -
    have "(\<lambda>p. stored_file (h' p)) ` {p \<in> set base \<union> set (ls_added_files ls). fm_number (h' p) \<notin> ls_deleted_files ls} =
        (\<lambda>p. stored_file (h p)) ` {p \<in> set base \<union> set (ls_added_files ls). fm_number (h p) \<notin> ls_deleted_files ls}"
      by (rule image_filter_cong) (simp_all only: h')
    then show ?thesis using inv by (simp only: level_inv_def)
  qed
  moreover have "p < n' \<and> fm_number (h' p) \<in> used' \<and> file_ok cmp (h' p)" if "p \<in> set base \<union> set (ls_added_files ls)" for p
  proof -
    have "p < n" "fm_number (h p) \<in> used" "file_ok cmp (h p)" using inv that by (simp_all add: level_inv_def)
    then show ?thesis using h' [OF that] assms(3,4) by auto
  qed
  moreover have "fm_number (h' p) \<noteq> fm_number (h' a)" if "p \<in> set base" "a \<in> set (ls_added_files ls)" for p a
    using inv that h' [of p] h' [of a] by (simp add: level_inv_def)
  ultimately show ?thesis unfolding level_inv_def by blast
qed

lemma delete_in_level_inv:
  assumes "builder_inv cmp st b base used S" and "d = (level, number)"
  shows "builder_inv cmp st (delete_in_level d b) base used (\<lambda>l. {f \<in> S l. (l, fm_number f) \<noteq> d})"
  using assms by (auto simp: builder_inv_def delete_in_level_def level_inv_def)

lemma delete_in_levels_inv:
  assumes "builder_inv cmp st b base used S"
  shows "builder_inv cmp st (fold delete_in_level ds b) base used (\<lambda>l. {f \<in> S l. (l, fm_number f) \<notin> set ds})"
  using assms
proof (induction ds arbitrary: b S)
  case (Cons d ds)
  obtain level number where d: "d = (level, number)" by (cases d)
  have "{f \<in> S l. (l, fm_number f) \<noteq> d \<and> (l, fm_number f) \<notin> set ds} = {f \<in> S l. (l, fm_number f) \<notin> set (d # ds)}" for l by auto
  then show ?case using Cons.IH [OF delete_in_level_inv [OF Cons.prems d]] by simp
qed simp

lemma delete_in_levels_frame [simp]:
  "bd_base (fold delete_in_level ds b) = bd_base b"
  "ls_added_files (bd_levels (fold delete_in_level ds b) level) = ls_added_files (bd_levels b level)"
  by (induction ds arbitrary: b) (auto simp: delete_in_level_def split: prod.splits)

lemma builder_files_delete [simp]: "builder_files (fold delete_in_level ds b) = builder_files b"
  by (simp add: builder_files_def)

lemma builder_files_added:
  assumes "level < kNumLevels" and "mset (ls_added_files ls) = add_mset p (mset (ls_added_files (bd_levels b level)))"
  shows "builder_files (b\<lparr>bd_levels := (bd_levels b)(level := ls)\<rparr>) = add_mset p (builder_files b)"
proof -
  have "[0..<kNumLevels] = [0..<level] @ level # [Suc level..<kNumLevels]"
    using assms(1) upt_add_eq_append [of 0 level "kNumLevels - level"] by (simp add: upt_conv_Cons)
  moreover have "(\<lambda>l. ls_added_files (((bd_levels b)(level := ls)) l)) =
      (\<lambda>l. ls_added_files (bd_levels b l))(level := ls_added_files ls)" by auto
  ultimately show ?thesis using assms(2) by (simp add: builder_files_def fun_upd_same del: fun_upd_apply)
qed

text \<open>What building leaves as it is.\<close>

definition same_versions :: "'a version_heap_scheme \<Rightarrow> 'a version_heap_scheme \<Rightarrow> bool" where
  "same_versions st st' \<longleftrightarrow> vh_versions st' = vh_versions st \<and> vh_list st' = vh_list st \<and>
     vh_next_version st' = vh_next_version st \<and> (\<forall>p < vh_next_file st. vh_files st' p = vh_files st p) \<and>
     vh_next_file st \<le> vh_next_file st'"

lemma same_versions_refl [simp]: "same_versions st st" and
  same_versions_trans: "same_versions st st' \<Longrightarrow> same_versions st' st'' \<Longrightarrow> same_versions st st''"
  by (auto simp: same_versions_def)

context user_comparator
begin

lemma level_inv_add:
  assumes inv: "level_inv Compare h n base ls used S" and f: "file_ok Compare f" "fm_number f \<notin> used"
  defines "h' \<equiv> h(n := f)"
  defines "ls' \<equiv> ls\<lparr>ls_deleted_files := ls_deleted_files ls - {fm_number f},
    ls_added_files := set_insert (BySmallestKey icmp h') n (ls_added_files ls)\<rparr>"
  shows "level_inv Compare h' (Suc n) base ls' (insert (fm_number f) used) (insert (stored_file f) S) \<and>
    mset (ls_added_files ls') = add_mset n (mset (ls_added_files ls))"
proof -
  let ?lt = "BySmallestKey icmp h'" and ?added = "ls_added_files ls"
  have old: "level_inv Compare h' (Suc n) base ls (insert (fm_number f) used) S"
    by (rule level_inv_frame [OF inv]) (auto simp: h'_def)
  have below: "p < n" "fm_number (h' p) \<in> used" if "p \<in> set base \<union> set ?added" for p
    using inv that by (auto simp: level_inv_def h'_def)
  have ok: "8 \<le> length (fm_smallest (h' p))" if "p \<in> insert n (set ?added)" for p
  proof (cases "p = n")
    case True
    then show ?thesis using f(1) by (simp add: file_ok_def h'_def)
  next
    case False
    then show ?thesis using old that by (simp add: level_inv_def file_ok_def)
  qed
  have "mset (set_insert ?lt n ?added) = add_mset n (mset ?added) \<and> sorted_wrt ?lt (set_insert ?lt n ?added)"
  proof (rule set_insert_sorted [where S = "insert n (set ?added)"])
    show "sorted_wrt ?lt ?added" using old by (simp add: level_inv_def)
    show "?lt x z" if "x \<in> insert n (set ?added)" "y \<in> insert n (set ?added)" "z \<in> insert n (set ?added)" "?lt x y" "?lt y z" for x y z
      using by_smallest_trans [OF ok [OF that(1)] ok [OF that(2)] ok [OF that(3)] that(4,5)] .
    show "?lt n y \<or> ?lt y n" if "y \<in> set ?added" for y
      using below(2) [of y] f(2) that ok [of n] ok [of y] by (intro by_smallest_total) (auto simp: h'_def)
  qed simp
  then have ins: "mset (ls_added_files ls') = add_mset n (mset ?added)" "sorted_wrt ?lt (ls_added_files ls')" by (simp_all add: ls'_def)
  then have set': "set (ls_added_files ls') = insert n (set ?added)" by (metis set_mset_add_mset_insert set_mset_mset)
  have n: "h' n = f" by (simp add: h'_def)
  have number: "fm_number (h' p) \<noteq> fm_number f" if "p \<in> set base \<union> set ?added" for p using below(2) [OF that] f(2) by metis
  have "insert (stored_file f) S = (\<lambda>p. stored_file (h' p)) ` {p \<in> set base \<union> insert n (set ?added). fm_number (h' p) \<notin> ls_deleted_files ls'}"
  proof -
    have "{p \<in> set base \<union> insert n (set ?added). fm_number (h' p) \<notin> ls_deleted_files ls'} =
        insert n {p \<in> set base \<union> set ?added. fm_number (h' p) \<notin> ls_deleted_files ls}"
      using number n by (auto simp: ls'_def)
    then show ?thesis using old n by (simp add: level_inv_def)
  qed
  then have "level_inv Compare h' (Suc n) base ls' (insert (fm_number f) used) (insert (stored_file f) S)"
    using old ins(2) set' number n f(1) unfolding level_inv_def by (auto simp: ls'_def)
  then show ?thesis using ins by blast
qed

lemma add_to_level_inv:
  assumes inv: "builder_inv Compare st b base used S" and heap: "heap_inv st pending (builder_files b + extra) holders"
    and l: "l < kNumLevels" and fresh: "(l, fm_number f) \<notin> used" and ok: "file_ok Compare f"
    and add: "add_to_level icmp (l, f) (b, st) = (b', st')"
  shows "builder_inv Compare st' b' base (insert (l, fm_number f) used) (\<lambda>k. S k \<union> {stored_file g |g. (k, g) = (l, f)}) \<and>
    heap_inv st' pending (builder_files b' + extra) holders \<and> same_versions st st' \<and> bd_base b' = bd_base b"
proof -
  let ?n = "vh_next_file st" and ?g = "f\<lparr>fm_refs := 1, fm_allowed_seeks := allowed_seeks_for (fm_file_size f)\<rparr>"
  let ?h = "(vh_files st)(?n := ?g)" and ?ls = "bd_levels b l"
  define ls where "ls = ?ls\<lparr>ls_deleted_files := ls_deleted_files ?ls - {fm_number ?g},
    ls_added_files := set_insert (BySmallestKey icmp ?h) ?n (ls_added_files ?ls)\<rparr>"
  have new: "new_file ?g st = (?n, st')" "vh_files st' = ?h" "vh_next_file st' = Suc ?n"
    "b' = b\<lparr>bd_levels := (bd_levels b)(l := ls)\<rparr>"
    using add by (auto simp: add_to_level_def new_file_def ls_def Let_def)
  have g: "file_ok Compare ?g" "fm_number ?g \<notin> {m. (l, m) \<in> used}" "stored_file ?g = stored_file f"
    using ok fresh by (simp_all add: file_ok_def)
  have "level_inv Compare (vh_files st) ?n (base l) ?ls {m. (l, m) \<in> used} (S l)" using inv l by (simp add: builder_inv_def)
  from level_inv_add [OF this g(1,2)]
  have level: "level_inv Compare ?h (Suc ?n) (base l) ls (insert (fm_number f) {m. (l, m) \<in> used}) (insert (stored_file f) (S l))"
    and mset: "mset (ls_added_files ls) = add_mset ?n (mset (ls_added_files ?ls))"
    by (simp_all add: ls_def g(3))
  have "builder_inv Compare st' b' base (insert (l, fm_number f) used) (\<lambda>k. S k \<union> {stored_file g |g. (k, g) = (l, f)})"
    unfolding builder_inv_def
  proof (intro allI impI)
    fix k assume k: "k < kNumLevels"
    show "level_inv Compare (vh_files st') (vh_next_file st') (base k) (bd_levels b' k) {m. (k, m) \<in> insert (l, fm_number f) used}
        (S k \<union> {stored_file g |g. (k, g) = (l, f)})"
    proof (cases "k = l")
      case True
      have "{m. (l, m) \<in> insert (l, fm_number f) used} = insert (fm_number f) {m. (l, m) \<in> used}" by auto
      then show ?thesis using level True by (simp add: new)
    next
      case False
      have "level_inv Compare (vh_files st) ?n (base k) (bd_levels b k) {m. (k, m) \<in> used} (S k)" using inv k by (simp add: builder_inv_def)
      then have "level_inv Compare ?h (Suc ?n) (base k) (bd_levels b k) {m. (k, m) \<in> used} (S k)" by (rule level_inv_frame) auto
      then show ?thesis using False by (simp add: new)
    qed
  qed
  moreover have "heap_inv st' pending (builder_files b' + extra) holders"
    using new_file_inv [OF heap new(1)] builder_files_added [OF l mset] by (simp add: new(4))
  moreover have "same_versions st st'" using new(1) by (auto simp: same_versions_def new_file_def)
  ultimately show ?thesis by (simp add: new(4))
qed

lemma add_to_levels_inv:
  assumes "builder_inv Compare st b base used S" and "heap_inv st pending (builder_files b + extra) holders"
    and "\<forall>(l, f) \<in> set files. l < kNumLevels \<and> file_ok Compare f"
    and "distinct (map (\<lambda>(l, f). (l, fm_number f)) files)" and "used \<inter> (\<lambda>(l, f). (l, fm_number f)) ` set files = {}"
    and "fold (add_to_level icmp) files (b, st) = (b', st')"
  shows "builder_inv Compare st' b' base (used \<union> (\<lambda>(l, f). (l, fm_number f)) ` set files) (\<lambda>k. S k \<union> {stored_file g |g. (k, g) \<in> set files}) \<and>
    heap_inv st' pending (builder_files b' + extra) holders \<and> same_versions st st' \<and> bd_base b' = bd_base b"
  using assms
proof (induction files arbitrary: b st used S)
  case (Cons lf files)
  obtain l f where lf: "lf = (l, f)" by (cases lf)
  obtain b1 st1 where step: "add_to_level icmp (l, f) (b, st) = (b1, st1)" by force
  have one: "builder_inv Compare st1 b1 base (insert (l, fm_number f) used) (\<lambda>k. S k \<union> {stored_file g |g. (k, g) = (l, f)}) \<and>
      heap_inv st1 pending (builder_files b1 + extra) holders \<and> same_versions st st1 \<and> bd_base b1 = bd_base b"
    using Cons.prems lf by (intro add_to_level_inv [OF Cons.prems(1,2) _ _ _ step]) auto
  have "builder_inv Compare st' b' base (insert (l, fm_number f) used \<union> (\<lambda>(l, f). (l, fm_number f)) ` set files)
      (\<lambda>k. (S k \<union> {stored_file g |g. (k, g) = (l, f)}) \<union> {stored_file g |g. (k, g) \<in> set files}) \<and>
      heap_inv st' pending (builder_files b' + extra) holders \<and> same_versions st1 st' \<and> bd_base b' = bd_base b1"
    using one Cons.prems(3-6) step lf by (intro Cons.IH) (auto simp: image_iff)
  moreover have "(S k \<union> {stored_file g |g. (k, g) = (l, f)}) \<union> {stored_file g |g. (k, g) \<in> set files} =
      S k \<union> {stored_file g |g. (k, g) \<in> set (lf # files)}" for k by (auto simp: lf)
  ultimately show ?case using one same_versions_trans by (auto simp: lf)
qed simp

lemma Builder_Apply_inv:
  assumes inv: "builder_inv Compare st b base used S" and heap: "heap_inv st pending (builder_files b + extra) holders"
    and ok: "edit_files_ok Compare e" and fresh: "distinct (edit_numbers e)" "used \<inter> set (edit_numbers e) = {}"
    and app: "Builder_Apply icmp e (cp, b, st) = (cp', b', st')"
  shows "cp' = apply_pointers e cp \<and> builder_inv Compare st' b' base (used \<union> set (edit_numbers e)) (\<lambda>k. edit_level e k (S k)) \<and>
    heap_inv st' pending (builder_files b' + extra) holders \<and> same_versions st st' \<and> bd_base b' = bd_base b"
proof -
  let ?b = "fold delete_in_level (ve_deleted_files e) b"
  have app': "cp' = apply_pointers e cp" "fold (add_to_level icmp) (ve_new_files e) (?b, st) = (b', st')"
    using app by (simp_all add: Builder_Apply_def)
  have "builder_inv Compare st' b' base (used \<union> (\<lambda>(l, f). (l, fm_number f)) ` set (ve_new_files e))
      (\<lambda>k. {f \<in> S k. (k, fm_number f) \<notin> set (ve_deleted_files e)} \<union> {stored_file g |g. (k, g) \<in> set (ve_new_files e)}) \<and>
      heap_inv st' pending (builder_files b' + extra) holders \<and> same_versions st st' \<and> bd_base b' = bd_base ?b"
    using ok fresh heap
    by (intro add_to_levels_inv [OF delete_in_levels_inv [OF inv] _ _ _ _ app'(2)]) (simp_all add: edit_files_ok_def edit_numbers_def)
  then show ?thesis using app'(1) by (simp add: edit_level_def edit_numbers_def)
qed

lemma Builder_Applies_inv:
  assumes "builder_inv Compare st b base used S" and "heap_inv st pending (builder_files b + extra) holders"
    and "\<forall>e \<in> set es. edit_files_ok Compare e" and "distinct (concat (map edit_numbers es))"
    and "used \<inter> set (concat (map edit_numbers es)) = {}"
    and "fold (Builder_Apply icmp) es (cp, b, st) = (cp', b', st')"
  shows "cp' = fold apply_pointers es cp \<and>
    builder_inv Compare st' b' base (used \<union> set (concat (map edit_numbers es))) (\<lambda>k. fold (\<lambda>e. edit_level e k) es (S k)) \<and>
    heap_inv st' pending (builder_files b' + extra) holders \<and> same_versions st st' \<and> bd_base b' = bd_base b"
  using assms
proof (induction es arbitrary: cp b st used S)
  case (Cons e es)
  obtain cp1 b1 st1 where step: "Builder_Apply icmp e (cp, b, st) = (cp1, b1, st1)" by (metis prod_cases3)
  have one: "cp1 = apply_pointers e cp \<and> builder_inv Compare st1 b1 base (used \<union> set (edit_numbers e)) (\<lambda>k. edit_level e k (S k)) \<and>
      heap_inv st1 pending (builder_files b1 + extra) holders \<and> same_versions st st1 \<and> bd_base b1 = bd_base b"
    using Cons.prems by (intro Builder_Apply_inv [OF Cons.prems(1,2) _ _ _ step]) auto
  have "cp' = fold apply_pointers es cp1 \<and>
      builder_inv Compare st' b' base (used \<union> set (edit_numbers e) \<union> set (concat (map edit_numbers es)))
        (\<lambda>k. fold (\<lambda>e. edit_level e k) es (edit_level e k (S k))) \<and>
      heap_inv st' pending (builder_files b' + extra) holders \<and> same_versions st1 st' \<and> bd_base b' = bd_base b1"
    using one Cons.prems(3-6) step by (intro Cons.IH) auto
  then show ?case using one same_versions_trans [of st st1 st'] by (simp add: Un_assoc)
qed simp

end

subsection \<open>The versions\<close>

text \<open>The levels of a version that was built: sorted by smallest key.\<close>

definition version_sorted :: "(bytes \<Rightarrow> bytes \<Rightarrow> int) \<Rightarrow> file_store \<Rightarrow> version \<Rightarrow> bool" where
  "version_sorted cmp h v \<longleftrightarrow> (\<forall>level < kNumLevels.
     sorted_wrt (BySmallestKey (InternalKey_Compare cmp) h) (v_files v level) \<and> (\<forall>p \<in> set (v_files v level). file_ok cmp (h p)))"

definition version_numbers :: "file_store \<Rightarrow> version \<Rightarrow> (nat \<times> u64) set" where
  "version_numbers h v = {(level, fm_number (h p)) |level p. level < kNumLevels \<and> p \<in> set (v_files v level)}"

text \<open>Two states with the same versions and the same data in their files.\<close>

definition same_data :: "'a version_heap_scheme \<Rightarrow> 'a version_heap_scheme \<Rightarrow> bool" where
  "same_data st st' \<longleftrightarrow> data_of (vh_files st') = data_of (vh_files st) \<and>
     (\<forall>v. v_files (vh_versions st' v) = v_files (vh_versions st v)) \<and> vh_next_file st' = vh_next_file st \<and>
     vh_next_version st' = vh_next_version st"

lemma same_data_refl [simp]: "same_data st st" and
  same_data_trans: "same_data st st' \<Longrightarrow> same_data st' st'' \<Longrightarrow> same_data st st''"
  by (auto simp: same_data_def)

lemma unref_files_data: "same_data st (fold unref_file ps st)"
proof (induction ps arbitrary: st)
  case (Cons p ps)
  have "same_data st (unref_file p st)" by (simp add: same_data_def)
  then show ?case using Cons.IH [of "unref_file p st"] same_data_trans by simp
qed simp

lemma delete_Version_data: "same_data st (delete_Version v st)"
proof -
  have "same_data st (st\<lparr>vh_list := remove1 v (vh_list st)\<rparr>)" by (simp add: same_data_def)
  then show ?thesis unfolding delete_Version_def Let_def fold_nested using unref_files_data same_data_trans by blast
qed

lemma set_version_refs_data: "same_data st (set_version_refs v n st)"
  by (simp add: same_data_def)

lemma Version_Unref_data: "same_data st (Version_Unref v st)"
  by (simp add: Version_Unref_def Let_def same_data_trans [OF set_version_refs_data delete_Version_data] set_version_refs_data)

lemma Builder_delete_data: "same_data st (Builder_delete b st)"
  unfolding Builder_delete_def fold_nested using unref_files_data Version_Unref_data same_data_trans by blast

lemma AppendVersion_data: "same_data st (AppendVersion v current st)"
proof -
  have "same_data st (case current of Some c \<Rightarrow> Version_Unref c st | None \<Rightarrow> st)"
    by (simp add: Version_Unref_data split: option.split)
  moreover have "same_data st' ((Version_Ref v st')\<lparr>vh_list := vs\<rparr>)" for st' :: "'a version_heap_scheme" and vs
    by (simp add: same_data_def Version_Ref_def)
  ultimately show ?thesis using same_data_trans unfolding AppendVersion_def Let_def by blast
qed

lemma version_sorted_data:
  assumes "same_data st st'"
  shows "version_sorted cmp (vh_files st') (vh_versions st' v) \<longleftrightarrow> version_sorted cmp (vh_files st) (vh_versions st v)"
proof -
  have data: "data_of (vh_files st') = data_of (vh_files st)" using assms by (simp add: same_data_def)
  have "v_files (vh_versions st' v) = v_files (vh_versions st v)" using assms by (simp add: same_data_def)
  then show ?thesis
    unfolding version_sorted_def file_ok_def by (simp only: BySmallestKey_data [OF data] data_of_fields [OF data])
qed

lemma stored_level_data: "data_of h = data_of h' \<Longrightarrow> stored_level h ps = stored_level h' ps"
  unfolding stored_level_def by (rule image_cong [OF refl]) (rule stored_file_data)

text \<open>A builder on a version starts from the files of the version.\<close>

lemma Builder_inv:
  assumes heap: "heap_inv st pending extra holders" and base: "base \<in> set (vh_list st)"
    and sorted: "version_sorted cmp (vh_files st) (vh_versions st base)" and new: "Builder base st = (b, st')"
  shows "builder_inv cmp st' b (v_files (vh_versions st base)) (version_numbers (vh_files st) (vh_versions st base))
      (\<lambda>level. stored_level (vh_files st) (v_files (vh_versions st base) level)) \<and>
    heap_inv st' pending (builder_files b + extra) (add_mset base holders) \<and> same_data st st' \<and> vh_list st' = vh_list st \<and>
    bd_base b = base"
proof -
  have eqs: "st' = Version_Ref base st" "b = \<lparr>bd_base = base, bd_levels = (\<lambda>level. \<lparr>ls_deleted_files = {}, ls_added_files = []\<rparr>)\<rparr>"
    using new by (simp_all add: Builder_def)
  have below: "p < vh_next_file st" if "level < kNumLevels" "p \<in> set (v_files (vh_versions st base) level)" for level p
  proof -
    have "p \<in># held st (vh_list st)" using held_version [OF base] version_files_level [OF that] by blast
    then show ?thesis using heap by (auto simp: heap_inv_def refs_ok_def)
  qed
  have "builder_inv cmp st' b (v_files (vh_versions st base)) (version_numbers (vh_files st) (vh_versions st base))
      (\<lambda>level. stored_level (vh_files st) (v_files (vh_versions st base) level))"
    using below sorted
    by (auto simp: builder_inv_def level_inv_def eqs Version_Ref_def version_numbers_def version_sorted_def stored_level_def)
  moreover have "builder_files b = {#}" by (simp add: builder_files_def eqs)
  moreover have "same_data st st'" by (simp add: eqs Version_Ref_def set_version_refs_data)
  ultimately show ?thesis using Version_Ref_inv [OF heap base] by (simp add: eqs Version_Ref_def)
qed

lemma create_Version_data:
  assumes "heap_inv st pending extra holders" and "create_Version st = (v, st')"
  shows "v \<notin> set (vh_list st)" and "vh_files st' = vh_files st" and "vh_list st' = vh_list st" and "vh_next_file st' = vh_next_file st"
    and "v_files (vh_versions st' v) = (\<lambda>level. [])" and "\<And>u. u \<noteq> v \<Longrightarrow> vh_versions st' u = vh_versions st u"
  using assms by (auto simp: create_Version_def heap_inv_def new_Version_def)

text \<open>The versions of the list and the files that were there are as before, apart from reference counts.\<close>

definition old_kept :: "'a version_heap_scheme \<Rightarrow> 'b version_heap_scheme \<Rightarrow> bool" where
  "old_kept st st' \<longleftrightarrow> vh_list st' = vh_list st \<and>
     (\<forall>u \<in> set (vh_list st). v_files (vh_versions st' u) = v_files (vh_versions st u)) \<and>
     (\<forall>p < vh_next_file st. stored_file (vh_files st' p) = stored_file (vh_files st p))"

context user_comparator
begin

lemma SaveTo_saves:
  assumes inv: "builder_inv Compare st b (v_files (vh_versions st (bd_base b))) used S"
    and heap: "heap_inv st [v] (builder_files b + extra) holders" and base: "bd_base b \<in> set (vh_list st)"
    and old: "\<And>level. level < kNumLevels \<Longrightarrow>
      sorted_wrt (BySmallestKey icmp (vh_files st)) (v_files (vh_versions st (bd_base b)) level)"
    and empty: "v_files (vh_versions st v) = (\<lambda>level. [])"
  defines "st' \<equiv> SaveTo icmp b v st"
  shows "heap_inv st' [v] (builder_files b + extra) holders \<and> version_sorted Compare (vh_files st') (vh_versions st' v) \<and>
    (\<forall>level < kNumLevels. stored_level (vh_files st') (v_files (vh_versions st' v) level) = S level) \<and>
    data_of (vh_files st') = data_of (vh_files st) \<and> vh_list st' = vh_list st \<and> vh_next_file st' = vh_next_file st \<and>
    (\<forall>u. u \<noteq> v \<longrightarrow> vh_versions st' u = vh_versions st u)"
proof -
  let ?h = "vh_files st" and ?base = "v_files (vh_versions st (bd_base b))"
  let ?saved = "\<lambda>level. saved_level icmp ?h (bd_levels b level) (?base level)"
  have v: "v \<noteq> bd_base b" using heap base by (auto simp: heap_inv_def)
  have levels: "level \<in> set [0..<kNumLevels] \<longleftrightarrow> level < kNumLevels" for level by simp
  have saved: "data_of (vh_files st') = data_of ?h" "vh_list st' = vh_list st" "vh_next_file st' = vh_next_file st"
    "vh_versions st' = (vh_versions st)(v := (vh_versions st v)\<lparr>v_files := (\<lambda>level. if level < kNumLevels then ?saved level else [])\<rparr>)"
    using SaveTo_levels [OF refl v distinct_upt [of 0 kNumLevels] empty, where icmp = icmp] unfolding levels st'_def SaveTo_def by blast+
  have "sorted_wrt (BySmallestKey icmp ?h) (?saved level) \<and> (\<forall>p \<in> set (?saved level). file_ok Compare (?h p)) \<and>
      stored_level ?h (?saved level) = S level" if "level < kNumLevels" for level
  proof -
    let ?ls = "bd_levels b level"
    have level: "level_inv Compare ?h (vh_next_file st) (?base level) ?ls {n. (level, n) \<in> used} (S level)"
      using inv that by (simp add: builder_inv_def)
    have ok: "8 \<le> length (fm_smallest (?h p))" if "p \<in> set (?base level) \<union> set (ls_added_files ?ls)" for p
      using level that by (simp add: level_inv_def file_ok_def)
    have "sorted_wrt (BySmallestKey icmp ?h) (merge_added (BySmallestKey icmp ?h) (?base level) (ls_added_files ?ls))"
    proof (rule merge_added_sorted [OF old [OF that], where S = "set (?base level) \<union> set (ls_added_files ?ls)"])
      show "sorted_wrt (BySmallestKey icmp ?h) (ls_added_files ?ls)" using level by (simp add: level_inv_def)
      show "BySmallestKey icmp ?h x a \<or> BySmallestKey icmp ?h a x" if "x \<in> set (?base level)" "a \<in> set (ls_added_files ?ls)" for x a
        using level that ok [of x] ok [of a] by (intro by_smallest_total) (auto simp: level_inv_def)
    qed (use by_smallest_trans ok in blast)+
    moreover have "stored_level ?h (?saved level) = S level"
      using level unfolding level_inv_def stored_level_def saved_level_def by simp
    moreover have "\<forall>p \<in> set (?saved level). file_ok Compare (?h p)"
      using level unfolding level_inv_def saved_level_def by simp
    ultimately show ?thesis unfolding saved_level_def by (simp add: sorted_wrt_filter)
  qed
  then have "version_sorted Compare (vh_files st') (vh_versions st' v) \<and>
      (\<forall>level < kNumLevels. stored_level (vh_files st') (v_files (vh_versions st' v) level) = S level)"
    using BySmallestKey_data [OF saved(1)] data_of_fields [OF saved(1)] stored_level_data [OF saved(1)]
    unfolding version_sorted_def file_ok_def saved(4) by simp
  then show ?thesis using saved SaveTo_inv [OF heap base] by (simp add: st'_def)
qed

lemma sorted_disjoint:
  assumes "sorted_wrt (BySmallestKey icmp h) ps" and ok: "\<forall>p \<in> set ps. file_ok Compare (h p)"
    and disjoint: "disjoint_files Compare (stored_level h ps)"
  shows "level_ok Compare (map h ps)"
proof -
  have "icmp (fm_largest (h p)) (fm_smallest (h q)) < 0"
    if lt: "BySmallestKey icmp h p q" and pq: "p \<in> set ps" "q \<in> set ps" for p q
  proof (rule ccontr)
    assume not: "\<not> icmp (fm_largest (h p)) (fm_smallest (h q)) < 0"
    have len: "8 \<le> length (fm_smallest (h p))" "8 \<le> length (fm_smallest (h q))" "8 \<le> length (fm_largest (h q))"
      and q: "icmp (fm_smallest (h q)) (fm_largest (h q)) \<le> 0"
      using ok pq by (auto simp: file_ok_def)
    have le: "icmp (fm_smallest (h p)) (fm_smallest (h q)) \<le> 0" using lt by (auto simp: BySmallestKey_def Let_def split: if_splits)
    have "fm_smallest (h p) \<noteq> fm_smallest (h q) \<or> fm_number (h p) \<noteq> fm_number (h q)"
      using lt internal.cmp_self [OF len(1)] by (auto simp: BySmallestKey_def Let_def)
    then have "stored_file (h p) \<noteq> stored_file (h q)" by (metis stored_file_fields(1,3))
    then have "icmp (fm_largest (h q)) (fm_smallest (h p)) < 0"
      using disjoint pq not by (auto simp: disjoint_files_def stored_level_def)
    then have "icmp (fm_largest (h q)) (fm_smallest (h q)) < 0" using internal.cmp_less_le_trans [OF len(3,1,2)] le by blast
    then have "icmp (fm_smallest (h q)) (fm_smallest (h q)) < 0" using internal.cmp_le_less_trans [OF len(2,3,2)] q by blast
    then show False using internal.cmp_self [OF len(2)] by simp
  qed
  then have "sorted_wrt (\<lambda>p q. icmp (fm_largest (h p)) (fm_smallest (h q)) < 0) ps"
    by (intro sorted_wrt_mono_rel [OF _ assms(1)])
  then show ?thesis using ok by (simp add: level_ok_def sorted_wrt_map)
qed

lemma sorted_version_ok:
  assumes "version_sorted Compare h v" and "\<forall>level \<in> {0<..<kNumLevels}. disjoint_files Compare (stored_level h (v_files v level))"
  shows "version_ok Compare h v"
proof -
  have "level_ok Compare (level_files h v level)" if "level \<in> {0<..<kNumLevels}" for level
    using assms that by (intro sorted_disjoint) (auto simp: version_sorted_def)
  moreover have "0 < kNumLevels" by (simp add: kNumLevels_def)
  ultimately show ?thesis using assms(1) unfolding version_ok_def version_sorted_def by blast
qed

lemma build_version:
  assumes heap: "heap_inv st [] {#} holders" and cur: "current \<in> set (vh_list st)"
    and sorted: "version_sorted Compare (vh_files st) (vh_versions st current)"
    and ok: "\<forall>e \<in> set es. edit_files_ok Compare e" and fresh: "distinct (concat (map edit_numbers es))"
      "version_numbers (vh_files st) (vh_versions st current) \<inter> set (concat (map edit_numbers es)) = {}"
    and create: "create_Version st = (v, st1)" and builder: "Builder current st1 = (b, st2)"
    and apply_es: "fold (Builder_Apply icmp) es (cp, b, st2) = (cp', b', st3)"
  defines "st' \<equiv> Builder_delete b' (SaveTo icmp b' v st3)"
  shows "heap_inv st' [v] {#} holders \<and> version_sorted Compare (vh_files st') (vh_versions st' v) \<and>
    (\<forall>level < kNumLevels. stored_level (vh_files st') (v_files (vh_versions st' v) level) =
      fold (\<lambda>e. edit_level e level) es (stored_level (vh_files st) (v_files (vh_versions st current) level))) \<and>
    cp' = fold apply_pointers es cp \<and> old_kept st st'"
proof -
  note cv = create_Version_data [OF heap create]
  let ?files = "v_files (vh_versions st current)"
  have cur1: "current \<in> set (vh_list st1)" and curv: "current \<noteq> v" using cur cv(1,3) by auto
  then have current: "vh_versions st1 current = vh_versions st current" using cv(6) by blast
  have sorted1: "version_sorted Compare (vh_files st1) (vh_versions st1 current)" using sorted cv(2) current by simp
  have "heap_inv st1 [v] {#} holders" by (rule create_Version_inv [OF heap create])
  note start = Builder_inv [OF this cur1 sorted1 builder]
  then have inv2: "builder_inv Compare st2 b ?files (version_numbers (vh_files st) (vh_versions st current))
      (\<lambda>level. stored_level (vh_files st) (?files level))" and heap2: "heap_inv st2 [v] (builder_files b + {#}) (add_mset current holders)"
    and same2: "same_data st1 st2" "vh_list st2 = vh_list st1" and base: "bd_base b = current"
    using cv(2) current by simp_all
  from Builder_Applies_inv [OF inv2 heap2 ok fresh apply_es]
  have inv3: "builder_inv Compare st3 b' ?files
        (version_numbers (vh_files st) (vh_versions st current) \<union> set (concat (map edit_numbers es)))
        (\<lambda>level. fold (\<lambda>e. edit_level e level) es (stored_level (vh_files st) (?files level)))"
    and heap3: "heap_inv st3 [v] (builder_files b' + {#}) (add_mset current holders)"
    and same3: "same_versions st2 st3" and base': "bd_base b' = current" and cp: "cp' = fold apply_pointers es cp"
    using base by simp_all
  have files3: "v_files (vh_versions st3 u) = v_files (vh_versions st1 u)" for u
    using same2(1) same3 by (simp add: same_versions_def same_data_def)
  then have base3: "v_files (vh_versions st3 (bd_base b')) = ?files" using base' current by simp
  have old: "sorted_wrt (BySmallestKey icmp (vh_files st3)) (v_files (vh_versions st3 (bd_base b')) level)" if level: "level < kNumLevels" for level
  proof (rule sorted_wrt_mono_rel)
    have "data_of (vh_files st2) = data_of (vh_files st)" using same2(1) cv(2) by (simp add: same_data_def)
    then show "sorted_wrt (BySmallestKey icmp (vh_files st2)) (v_files (vh_versions st3 (bd_base b')) level)"
      using sorted level BySmallestKey_data base3 by (metis version_sorted_def)
    show "BySmallestKey icmp (vh_files st3) p q" if "p \<in> set (v_files (vh_versions st3 (bd_base b')) level)"
      "q \<in> set (v_files (vh_versions st3 (bd_base b')) level)" "BySmallestKey icmp (vh_files st2) p q" for p q
    proof -
      have "p < vh_next_file st2" "q < vh_next_file st2"
        using inv2 that(1,2) level base3 by (auto simp: builder_inv_def level_inv_def)
      then have "vh_files st3 p = vh_files st2 p" "vh_files st3 q = vh_files st2 q" using same3 by (simp_all add: same_versions_def)
      then show ?thesis using that(3) BySmallestKey_cong [of "vh_files st3" p "vh_files st2" q icmp] by simp
    qed
  qed
  have base_listed: "bd_base b' \<in> set (vh_list st3)" using base' cur1 same2(2) same3 by (simp add: same_versions_def)
  have empty: "v_files (vh_versions st3 v) = (\<lambda>level. [])" using files3 cv(5) by simp
  let ?st4 = "SaveTo icmp b' v st3"
  note save = SaveTo_saves [OF inv3 [folded base3] heap3 base_listed old empty]
  then have "heap_inv ?st4 [v] (builder_files b' + {#}) (add_mset (bd_base b') holders)" using base' by simp
  then have "heap_inv st' [v] {#} holders" unfolding st'_def by (rule Builder_delete_inv)
  moreover have data: "same_data ?st4 st'" unfolding st'_def by (rule Builder_delete_data)
  moreover have "stored_level (vh_files st') (v_files (vh_versions st' v) level) = stored_level (vh_files ?st4) (v_files (vh_versions ?st4 v) level)" for level
  proof -
    have "data_of (vh_files st') = data_of (vh_files ?st4)" "v_files (vh_versions st' v) = v_files (vh_versions ?st4 v)"
      using data by (simp_all only: same_data_def)
    then show ?thesis by (simp only: stored_level_data [of "vh_files st'" "vh_files ?st4"])
  qed
  moreover have "version_sorted Compare (vh_files st') (vh_versions st' v)"
    using save version_sorted_data [OF data, of Compare v] by blast
  moreover have "old_kept st st'"
    unfolding old_kept_def
  proof (intro conjI ballI allI impI)
    have "current \<in># holders" using heap cur by (simp add: heap_inv_def)
    then have "bd_base b' \<in># holders" using base' by simp
    then have "vh_list st' = vh_list ?st4"
      unfolding st'_def by (rule Builder_delete_list [OF \<open>heap_inv ?st4 [v] (builder_files b' + {#}) (add_mset (bd_base b') holders)\<close>])
    then show "vh_list st' = vh_list st" using save same3 same2(2) cv(3) by (simp add: same_versions_def)
  next
    fix u assume "u \<in> set (vh_list st)"
    then have "u \<noteq> v" using cv(1) by blast
    then show "v_files (vh_versions st' u) = v_files (vh_versions st u)"
      using data save files3 cv(6) by (simp add: same_data_def)
  next
    fix p assume p: "p < vh_next_file st"
    have "stored_file (vh_files st' p) = stored_file (vh_files ?st4 p)" using data by (intro stored_file_data) (simp add: same_data_def)
    also have "\<dots> = stored_file (vh_files st3 p)" using save by (intro stored_file_data) simp
    also have "vh_files st3 p = vh_files st2 p" using same3 same2(1) cv(4) p by (simp add: same_versions_def same_data_def)
    also have "stored_file (vh_files st2 p) = stored_file (vh_files st1 p)" using same2(1) by (intro stored_file_data) (simp add: same_data_def)
    finally show "stored_file (vh_files st' p) = stored_file (vh_files st p)" using cv(2) by simp
  qed
  ultimately show ?thesis using save cp base3 by simp
qed

end

subsection \<open>Properties\<close>

text \<open>
  Claim C13. A new version is the old one with the edits applied: after the builder has collected any number of edits
  and saved them, every level has exactly the files that remain when the edits are applied one after the
  other to the set of files of the level, sorted by smallest key, and the levels above level 0 are in
  order whenever these files are disjoint, which is what debug builds check. All reference counts
  are right at the end: every file has as many references as there are versions that list it, no version
  has a deleted file, and nothing is left over.
\<close>

theorem builder_saves_edits:
  assumes "user_comparator ucmp Separator Successor"
    and "heap_inv st [] {#} holders" and "current \<in> set (vh_list st)"
    and "version_sorted ucmp (vh_files st) (vh_versions st current)"
    and "\<forall>e \<in> set es. edit_files_ok ucmp e" and "distinct (concat (map edit_numbers es))"
    and "version_numbers (vh_files st) (vh_versions st current) \<inter> set (concat (map edit_numbers es)) = {}"
    and "create_Version st = (v, st1)" and "Builder current st1 = (b, st2)"
    and "fold (Builder_Apply (InternalKey_Compare ucmp)) es (cp, b, st2) = (cp', b', st3)"
    and "st' = Builder_delete b' (SaveTo (InternalKey_Compare ucmp) b' v st3)"
  shows "heap_inv st' [v] {#} holders \<and> version_sorted ucmp (vh_files st') (vh_versions st' v) \<and>
    (\<forall>level < kNumLevels. stored_level (vh_files st') (v_files (vh_versions st' v) level) =
      fold (\<lambda>e. edit_level e level) es (stored_level (vh_files st) (v_files (vh_versions st current) level))) \<and>
    ((\<forall>level \<in> {0<..<kNumLevels}. disjoint_files ucmp
        (fold (\<lambda>e. edit_level e level) es (stored_level (vh_files st) (v_files (vh_versions st current) level)))) \<longrightarrow>
      version_ok ucmp (vh_files st') (vh_versions st' v))"
proof -
  note build = user_comparator.build_version [OF assms(1-10)]
  then show ?thesis
    unfolding assms(11) using user_comparator.sorted_version_ok [OF assms(1)] by simp
qed

definition empty_heap :: version_heap where
  "empty_heap = \<lparr>vh_files = (\<lambda>p. new_FileMetaData 0), vh_live_files = {}, vh_next_file = 0,
     vh_versions = (\<lambda>v. new_Version), vh_list = [], vh_next_version = 0\<rparr>"

lemma empty_heap_inv: "heap_inv empty_heap [] {#} {#}"
  by (simp add: heap_inv_def empty_heap_def refs_ok_def)

lemma first_version:
  assumes "create_Version empty_heap = (v, st)"
  shows "heap_inv (AppendVersion v None st) [] {#} {#v#}" and "vh_list (AppendVersion v None st) = [v]"
    and "v_files (vh_versions (AppendVersion v None st) v) = (\<lambda>level. [])"
proof -
  have "heap_inv st [v] {#} {#}" by (rule create_Version_inv [OF empty_heap_inv assms])
  then show "heap_inv (AppendVersion v None st) [] {#} {#v#}" using AppendVersion_inv [of st v "{#}" "{#}" None] by simp
  show "vh_list (AppendVersion v None st) = [v]" "v_files (vh_versions (AppendVersion v None st) v) = (\<lambda>level. [])"
    using assms by (auto simp: AppendVersion_def create_Version_def empty_heap_def Version_Ref_def new_Version_def)
qed

definition two_edits :: "version_edit list" where
  "two_edits =
     [AddFile 1 5 200 (InternalKey (str ''k'') 9 kTypeValue) (InternalKey (str ''p'') 8 kTypeValue)
        (AddFile 1 4 100 (InternalKey (str ''a'') 7 kTypeValue) (InternalKey (str ''c'') 6 kTypeValue) new_VersionEdit),
      AddFile 2 4 100 (InternalKey (str ''a'') 7 kTypeValue) (InternalKey (str ''c'') 6 kTypeValue)
        (VersionEdit_DeleteFile 1 4 new_VersionEdit)]"

lemma two_edits_ok: "\<forall>e \<in> set two_edits. edit_files_ok BytewiseCompare e" "distinct (concat (map edit_numbers two_edits))"
  by code_simp+

theorem builder_saves_edits_witness:
  "\<exists>(st' :: version_heap) v. heap_inv st' [v] {#} {#0#} \<and> stored_level (vh_files st') (v_files (vh_versions st' v) 1) =
     {(new_FileMetaData 5)\<lparr>fm_file_size := 200, fm_smallest := InternalKey (str ''k'') 9 kTypeValue,
       fm_largest := InternalKey (str ''p'') 8 kTypeValue\<rparr>}"
proof -
  let ?st = "AppendVersion 0 None (snd (create_Version empty_heap))"
  have create: "create_Version empty_heap = (0, snd (create_Version empty_heap))" by (simp add: create_Version_def empty_heap_def)
  note first = first_version [OF create]
  obtain v st1 where v: "create_Version ?st = (v, st1)" by force
  obtain b st2 where b: "Builder 0 st1 = (b, st2)" by force
  obtain cp b' st3 where es: "fold (Builder_Apply (InternalKey_Compare BytewiseCompare)) two_edits (\<lambda>l. [], b, st2) = (cp, b', st3)"
    by (metis prod_cases3)
  have empty: "version_sorted BytewiseCompare (vh_files ?st) (vh_versions ?st 0)" "version_numbers (vh_files ?st) (vh_versions ?st 0) = {}"
    "stored_level (vh_files ?st) (v_files (vh_versions ?st 0) level) = {}" for level
    using first(3) by (simp_all add: version_sorted_def version_numbers_def stored_level_def)
  have result: "fold (\<lambda>e. edit_level e 1) two_edits {} =
     {(new_FileMetaData 5)\<lparr>fm_file_size := 200, fm_smallest := InternalKey (str ''k'') 9 kTypeValue,
       fm_largest := InternalKey (str ''p'') 8 kTypeValue\<rparr>}"
    by (auto simp: two_edits_def edit_level_def AddFile_def VersionEdit_DeleteFile_def new_VersionEdit_def stored_file_def
        new_FileMetaData_def insort_insert_key_def Let_def
        intro!: exI [where x = "\<lparr>fm_refs = 0, fm_allowed_seeks = 2 ^ 30, fm_number = 5, fm_file_size = 200,
          fm_smallest = InternalKey (str ''k'') 9 kTypeValue, fm_largest = InternalKey (str ''p'') 8 kTypeValue\<rparr>"])
  have mem: "0 \<in> set (vh_list ?st)" using first(2) by simp
  have fresh: "version_numbers (vh_files ?st) (vh_versions ?st 0) \<inter> set (concat (map edit_numbers two_edits)) = {}"
    unfolding empty(2) by blast
  have one: "1 < kNumLevels" by (simp add: kNumLevels_def)
  let ?st' = "Builder_delete b' (SaveTo (InternalKey_Compare BytewiseCompare) b' v st3)"
  note built = builder_saves_edits [OF bytewise.user_comparator_axioms first(1) mem empty(1) two_edits_ok fresh v b es refl]
  from built have "heap_inv ?st' [v] {#} {#0#}" by blast
  moreover from built one have "stored_level (vh_files ?st') (v_files (vh_versions ?st' v) 1) =
      fold (\<lambda>e. edit_level e 1) two_edits (stored_level (vh_files ?st) (v_files (vh_versions ?st 0) 1))" by blast
  ultimately show ?thesis unfolding empty(3) result by blast
qed

end
