(* ===== verification/LDB_VersionSet.thy ===== *)
theory LDB_VersionSet
  imports LDB_VersionBuilderSpec LDB_FileSystem LDB_LogSpec "HOL-Library.Log_Nat"
begin

text \<open>
  The class \<^verbatim>\<open>VersionSet\<close> of \<^verbatim>\<open>db/version_set.cc\<close>: the current version, the counters of the database and the
  MANIFEST, the log of version edits from which they are recovered. The state extends the heap of
  the versions; the environment is the record of the virtual functions that are called. The mutex that
  \<^verbatim>\<open>LogAndApply\<close> releases while it writes does not appear: nothing else changes the version
  set meanwhile, as its comment requires. The lines for the information log are left out.
\<close>

subsection \<open>The environment\<close>

record ('e, 'w, 'r) db_env = "('e, 'w, 'r) env_class" +
  file_Flush :: "'w \<Rightarrow> 'e \<Rightarrow> status \<times> 'w \<times> 'e"
  file_Skip :: "u64 \<Rightarrow> 'r \<Rightarrow> status \<times> 'r"
  NewAppendableFile :: "bytes \<Rightarrow> 'e \<Rightarrow> status \<times> 'w option \<times> 'e"
  GetFileSize :: "bytes \<Rightarrow> 'e \<Rightarrow> status \<times> u64 \<times> 'e"

definition fs_Flush :: "posix_writable \<Rightarrow> fs \<Rightarrow> status \<times> posix_writable \<times> fs" where
  "fs_Flush w e = (let (s, w) = PosixWritableFile_Flush w in (s, w, store w e))"

definition PosixDbEnv :: "kernel \<Rightarrow> (fs, posix_writable, posix_sequential) db_env" where
  "PosixDbEnv k = env_class.extend (PosixEnv k)
     (db_env.fields fs_Flush PosixSequentialFile_Skip (PosixEnv_NewAppendableFile k) (PosixEnv_GetFileSize k))"

text \<open>A log writer on a file of the environment: each operation changes the environment too.\<close>

definition append_in :: "('e, 'w, 'r) db_env \<Rightarrow> bytes \<Rightarrow> 'w \<times> 'e \<Rightarrow> status \<times> ('w \<times> 'e)" where
  "append_in env d = (\<lambda>(w, e). file_Append env w d e)"

definition flush_in :: "('e, 'w, 'r) db_env \<Rightarrow> 'w \<times> 'e \<Rightarrow> status \<times> ('w \<times> 'e)" where
  "flush_in env = (\<lambda>(w, e). file_Flush env w e)"

definition with_dest :: "'f log_writer \<Rightarrow> 'g \<Rightarrow> 'g log_writer" where
  "with_dest lg dest = \<lparr>lw_dest = dest, lw_block_offset = lw_block_offset lg, lw_type_crc = lw_type_crc lg\<rparr>"

definition log_AddRecord ::
    "('e, 'w, 'r) db_env \<Rightarrow> 'w log_writer \<Rightarrow> bytes \<Rightarrow> 'e \<Rightarrow> status \<times> 'w log_writer \<times> 'e" where
  "log_AddRecord env lg data e =
     (let (s, lg) = AddRecord (append_in env) (flush_in env) (with_dest lg (lw_dest lg, e)) data
      in (s, with_dest lg (fst (lw_dest lg)), snd (lw_dest lg)))"

subsection \<open>The state\<close>

record 'w version_set = version_heap +
  vs_dbname :: bytes
  vs_options :: db_options
  vs_user_comparator :: comparator_class
  vs_next_file_number :: u64
  vs_manifest_file_number :: u64
  vs_last_sequence :: u64
  vs_log_number :: u64
  vs_prev_log_number :: u64
  vs_descriptor_log :: "'w log_writer option"
  vs_current :: "version_ptr option"
  vs_compact_pointer :: "nat \<Rightarrow> bytes"

abbreviation vs_icmp :: "'w version_set \<Rightarrow> bytes \<Rightarrow> bytes \<Rightarrow> int" where
  "vs_icmp st \<equiv> InternalKey_Compare (cmp_Compare (vs_user_comparator st))"

abbreviation current_version :: "'w version_set \<Rightarrow> version" where
  "current_version st \<equiv> vh_versions st (the (vs_current st))"

text \<open>\<^verbatim>\<open>VersionSet::AppendVersion\<close> also makes the version the current one.\<close>

definition install_version :: "version_ptr \<Rightarrow> 'w version_set \<Rightarrow> 'w version_set" where
  "install_version v st = (AppendVersion v (vs_current st) st)\<lparr>vs_current := Some v\<rparr>"

definition VersionSet :: "bytes \<Rightarrow> db_options \<Rightarrow> comparator_class \<Rightarrow> 'w version_set" where
  "VersionSet dbname options ucmp =
     (let (v, st) = create_Version (version_heap.extend empty_heap
            (version_set.fields dbname options ucmp 2 0 0 0 0 None None (\<lambda>level. [])))
      in install_version v st)"

subsection \<open>Counters\<close>

definition NewFileNumber :: "'w version_set \<Rightarrow> u64 \<times> 'w version_set" where
  "NewFileNumber st = (vs_next_file_number st, st\<lparr>vs_next_file_number := vs_next_file_number st + 1\<rparr>)"

definition ReuseFileNumber :: "u64 \<Rightarrow> 'w version_set \<Rightarrow> 'w version_set" where
  "ReuseFileNumber file_number st =
     (if vs_next_file_number st = file_number + 1 then st\<lparr>vs_next_file_number := file_number\<rparr> else st)"

definition MarkFileNumberUsed :: "u64 \<Rightarrow> 'w version_set \<Rightarrow> 'w version_set" where
  "MarkFileNumberUsed number st =
     (if vs_next_file_number st \<le> number then st\<lparr>vs_next_file_number := number + 1\<rparr> else st)"

definition SetLastSequence_vs :: "u64 \<Rightarrow> 'w version_set \<Rightarrow> 'w version_set" where
  "SetLastSequence_vs s st = st\<lparr>vs_last_sequence := s\<rparr>"

subsection \<open>Scores\<close>

text \<open>
  Rounding to a double: 53 binary digits, to the nearest number and to the even one of two. The numbers
  that occur here are neither too large nor too small for a double.
\<close>

definition round_half_even :: "rat \<Rightarrow> int" where
  "round_half_even q =
     (let f = \<lfloor>q\<rfloor>; d = q - of_int f
      in if d < 1 / 2 then f else if d > 1 / 2 then f + 1 else if even f then f else f + 1)"

definition double_of :: "rat \<Rightarrow> rat" where
  "double_of q =
     (if q = 0 then 0
      else
        let (a, b) = quotient_of q;
            e = int (floorlog 2 (nat \<bar>a\<bar>)) - int (floorlog 2 (nat b)) - 53;
            e = (if \<bar>q\<bar> / 2 powi e \<ge> 2 ^ 53 then e + 1 else e)
        in of_int (round_half_even (q / 2 powi e)) * 2 powi e)"

definition level_score :: "'w version_set \<Rightarrow> version \<Rightarrow> nat \<Rightarrow> rat" where
  "level_score st v level =
     (if level = 0 then double_of (double_of (of_nat (length (v_files v 0))) / of_nat kL0_CompactionTrigger)
      else
        let level_bytes = word_of_int (TotalFileSize (level_files (vh_files st) v level)) :: u64
        in double_of (double_of (of_nat (unat level_bytes)) / MaxBytesForLevel level))"

definition best_level :: "'w version_set \<Rightarrow> version \<Rightarrow> int \<times> rat" where
  "best_level st v =
     fold (\<lambda>level (best_level, best_score).
         let score = level_score st v level
         in if score > best_score then (int level, score) else (best_level, best_score))
       [0..<kNumLevels - 1] (- 1, - 1)"

definition Finalize :: "version_ptr \<Rightarrow> 'w version_set \<Rightarrow> 'w version_set" where
  "Finalize v st =
     (let ver = vh_versions st v; (level, score) = best_level st ver
      in st\<lparr>vh_versions := (vh_versions st)(v := ver\<lparr>v_compaction_level := level, v_compaction_score := score\<rparr>)\<rparr>)"

definition NeedsCompaction :: "'w version_set \<Rightarrow> bool" where
  "NeedsCompaction st \<longleftrightarrow>
     v_compaction_score (current_version st) \<ge> 1 \<or> v_file_to_compact (current_version st) \<noteq> None"

subsection \<open>The MANIFEST\<close>

definition snapshot_edit :: "'w version_set \<Rightarrow> version_edit" where
  "snapshot_edit st =
     (let edit = SetComparatorName (cmp_Name (vs_user_comparator st)) new_VersionEdit;
          edit = fold (\<lambda>level edit. if vs_compact_pointer st level \<noteq> []
                   then SetCompactPointer level (vs_compact_pointer st level) edit else edit) [0..<kNumLevels] edit
      in fold (\<lambda>level. fold (\<lambda>f. AddFile level (fm_number f) (fm_file_size f) (fm_smallest f) (fm_largest f))
           (level_files (vh_files st) (current_version st) level)) [0..<kNumLevels] edit)"

definition WriteSnapshot ::
    "('e, 'w, 'r) db_env \<Rightarrow> 'w version_set \<Rightarrow> 'w log_writer \<Rightarrow> 'e \<Rightarrow> status \<times> 'w log_writer \<times> 'e" where
  "WriteSnapshot env st lg e = log_AddRecord env lg (VersionEdit_EncodeTo (snapshot_edit st) []) e"

definition complete_edit :: "'w version_set \<Rightarrow> version_edit \<Rightarrow> version_edit" where
  "complete_edit st edit =
     (let edit = (if ve_has_log_number edit then edit else SetLogNumber (vs_log_number st) edit);
          edit = (if \<not> ve_has_prev_log_number edit then SetPrevLogNumber (vs_prev_log_number st) edit else edit)
      in SetLastSequence (vs_last_sequence st) (SetNextFile (vs_next_file_number st) edit))"

text \<open>
  The new version, and the state with it. The compaction pointers that \<^verbatim>\<open>Builder::Apply\<close> stores in the
  version set are handed through beside the heap.
\<close>

definition build_new_version :: "version_edit \<Rightarrow> 'w version_set \<Rightarrow> version_ptr \<times> 'w version_set" where
  "build_new_version edit st =
     (let (v, st) = create_Version st;
          (b, st) = Builder (the (vs_current st)) st;
          (compact_pointer, b, st) = Builder_Apply (vs_icmp st) edit (vs_compact_pointer st, b, st);
          st = Builder_delete b (SaveTo (vs_icmp st) b v st);
          st = st\<lparr>vs_compact_pointer := compact_pointer\<rparr>
      in (v, Finalize v st))"

text \<open>A new MANIFEST with a snapshot of the current version, when there is no open one; the result has its name.\<close>

definition open_manifest ::
    "('e, 'w, 'r) db_env \<Rightarrow> 'w version_set \<Rightarrow> 'e \<Rightarrow> status \<times> bytes \<times> 'w version_set \<times> 'e" where
  "open_manifest env st e =
     (case vs_descriptor_log st of
        Some lg \<Rightarrow> (Status_OK, [], st, e)
      | None \<Rightarrow>
          let new_manifest_file = DescriptorFileName (vs_dbname st) (vs_manifest_file_number st)
          in (case NewWritableFile env new_manifest_file e of
                (s, Some file, e) \<Rightarrow>
                  let (s, lg, e) = WriteSnapshot env st (Writer file) e
                  in (s, new_manifest_file, st\<lparr>vs_descriptor_log := Some lg\<rparr>, e)
              | (s, None, e) \<Rightarrow> (s, new_manifest_file, st, e)))"

definition write_manifest_record ::
    "('e, 'w, 'r) db_env \<Rightarrow> bytes \<Rightarrow> 'w version_set \<Rightarrow> 'e \<Rightarrow> status \<times> 'w version_set \<times> 'e" where
  "write_manifest_record env data st e =
     (let (s, lg, e) = log_AddRecord env (the (vs_descriptor_log st)) data e;
          (s, file, e) = (if ok s then file_Sync env (lw_dest lg) e else (s, lw_dest lg, e))
      in (s, st\<lparr>vs_descriptor_log := Some (with_dest lg file)\<rparr>, e))"

text \<open>\<^verbatim>\<open>delete descriptor_file_\<close> closes the file.\<close>

definition delete_descriptor :: "('e, 'w, 'r) db_env \<Rightarrow> 'w version_set \<Rightarrow> 'e \<Rightarrow> 'w version_set \<times> 'e" where
  "delete_descriptor env st e =
     (case vs_descriptor_log st of
        Some lg \<Rightarrow> (st\<lparr>vs_descriptor_log := None\<rparr>, snd (file_Close env (lw_dest lg) e))
      | None \<Rightarrow> (st, e))"

definition VersionSet_delete :: "('e, 'w, 'r) db_env \<Rightarrow> 'w version_set \<Rightarrow> 'e \<Rightarrow> 'w version_set \<times> 'e" where
  "VersionSet_delete env st e = delete_descriptor env (Version_Unref (the (vs_current st)) st) e"

definition LogAndApply ::
    "('e, 'w, 'r) db_env \<Rightarrow> version_edit \<Rightarrow> 'w version_set \<Rightarrow> 'e \<Rightarrow> status \<times> 'w version_set \<times> 'e" where
  "LogAndApply env edit st e =
     (let edit = complete_edit st edit;
          (v, st) = build_new_version edit st;
          (s, new_manifest_file, st, e) = open_manifest env st e;
          (s, st, e) = (if ok s then write_manifest_record env (VersionEdit_EncodeTo edit []) st e else (s, st, e));
          (s, e) = (if ok s \<and> new_manifest_file \<noteq> []
                    then SetCurrentFile (env_class.truncate env) (vs_dbname st) (vs_manifest_file_number st) e else (s, e))
      in if ok s then
           (s, (install_version v st)\<lparr>vs_log_number := ve_log_number edit, vs_prev_log_number := ve_prev_log_number edit\<rparr>, e)
         else
           let st = delete_Version v st
           in if new_manifest_file \<noteq> [] then
                let (st, e) = delete_descriptor env st e
                in (s, st, snd (DeleteFile env new_manifest_file e))
              else (s, st, e))"

subsection \<open>Recovery\<close>

text \<open>The local variables of \<^verbatim>\<open>Recover\<close>; a field that no record has set is \<^const>\<open>None\<close>.\<close>

record recovered =
  rc_log_number :: "u64 option"
  rc_prev_log_number :: "u64 option"
  rc_next_file :: "u64 option"
  rc_last_sequence :: "u64 option"

definition note_edit :: "version_edit \<Rightarrow> recovered \<Rightarrow> recovered" where
  "note_edit edit rc =
     \<lparr>rc_log_number = (if ve_has_log_number edit then Some (ve_log_number edit) else rc_log_number rc),
      rc_prev_log_number = (if ve_has_prev_log_number edit then Some (ve_prev_log_number edit) else rc_prev_log_number rc),
      rc_next_file = (if ve_has_next_file_number edit then Some (ve_next_file_number edit) else rc_next_file rc),
      rc_last_sequence = (if ve_has_last_sequence edit then Some (ve_last_sequence edit) else rc_last_sequence rc)\<rparr>"

text \<open>The reporter keeps the first error in the status.\<close>

definition reported :: "'r log_reader \<Rightarrow> status \<Rightarrow> status" where
  "reported reader s =
     (case lr_reporter reader of
        Some calls \<Rightarrow> fold (\<lambda>(bytes, reason) s. if ok s then reason else s) calls s
      | None \<Rightarrow> s)"

definition recover_record ::
    "bytes \<Rightarrow> status \<times> recovered \<times> (nat \<Rightarrow> bytes) \<times> builder \<times> 'w version_set \<Rightarrow>
     status \<times> recovered \<times> (nat \<Rightarrow> bytes) \<times> builder \<times> 'w version_set" where
  "recover_record data = (\<lambda>(s, rc, built).
     let st = snd (snd built);
         (s, edit) = VersionEdit_DecodeFrom data new_VersionEdit;
         s = (if ok s \<and> ve_has_comparator edit \<and> ve_comparator edit \<noteq> cmp_Name (vs_user_comparator st)
              then Status_InvalidArgument (ve_comparator edit @ str '' does not match existing comparator '')
                     (cmp_Name (vs_user_comparator st))
              else s);
         built = (if ok s then Builder_Apply (vs_icmp st) edit built else built)
     in (s, note_edit edit rc, built))"

partial_function (option) recover_loop ::
    "(nat \<Rightarrow> 'r \<Rightarrow> status \<times> bytes \<times> 'r) \<Rightarrow> (u64 \<Rightarrow> 'r \<Rightarrow> status \<times> 'r) \<Rightarrow>
     'r log_reader \<times> status \<times> recovered \<times> (nat \<Rightarrow> bytes) \<times> builder \<times> 'w version_set \<Rightarrow>
     (status \<times> recovered \<times> (nat \<Rightarrow> bytes) \<times> builder \<times> 'w version_set) option" where
  "recover_loop rd skip state =
     (case ReadRecord rd skip (fst state) of
        None \<Rightarrow> None
      | Some (None, reader) \<Rightarrow> Some (reported reader (fst (snd state)), snd (snd state))
      | Some (Some data, reader) \<Rightarrow>
          if ok (reported reader (fst (snd state)))
          then recover_loop rd skip (reader, recover_record data (snd state))
          else Some (reported reader (fst (snd state)), snd (snd state)))"

definition ReuseManifest ::
    "('e, 'w, 'r) db_env \<Rightarrow> bytes \<Rightarrow> bytes \<Rightarrow> 'w version_set \<Rightarrow> 'e \<Rightarrow> bool \<times> 'w version_set \<times> 'e" where
  "ReuseManifest env dscname dscbase st e =
     (if \<not> opt_reuse_logs (vs_options st) then (False, st, e)
      else
        case ParseFileName dscbase of
          Some (manifest_number, kDescriptorFile) \<Rightarrow>
            let (s, manifest_size, e) = GetFileSize env dscname e
            in if \<not> ok s \<or> manifest_size \<ge> scast (TargetFileSize (vs_options st)) then (False, st, e)
               else
                 (case NewAppendableFile env dscname e of
                    (r, Some file, e) \<Rightarrow>
                      (True, st\<lparr>vs_descriptor_log := Some (Writer_at file manifest_size),
                                vs_manifest_file_number := manifest_number\<rparr>, e)
                  | (r, None, e) \<Rightarrow> (False, st, e))
        | _ \<Rightarrow> (False, st, e))"

definition check_recovered :: "recovered \<Rightarrow> status" where
  "check_recovered rc =
     (if rc_next_file rc = None then Status_Corruption (str ''no meta-nextfile entry in descriptor'') []
      else if rc_log_number rc = None then Status_Corruption (str ''no meta-lognumber entry in descriptor'') []
      else if rc_last_sequence rc = None then Status_Corruption (str ''no last-sequence-number entry in descriptor'') []
      else Status_OK)"

definition or_zero :: "u64 option \<Rightarrow> u64" where
  "or_zero n = (case n of Some x \<Rightarrow> x | None \<Rightarrow> 0)"

text \<open>What follows when the descriptor was read without an error; the last component tells to save a new MANIFEST.\<close>

definition install_recovered ::
    "('e, 'w, 'r) db_env \<Rightarrow> bytes \<Rightarrow> bytes \<Rightarrow> recovered \<Rightarrow> builder \<Rightarrow> 'w version_set \<Rightarrow> 'e \<Rightarrow>
     bool \<times> 'w version_set \<times> 'e" where
  "install_recovered env dscname current rc b st e =
     (let (v, st) = create_Version st;
          st = install_version v (Finalize v (SaveTo (vs_icmp st) b v st));
          st = st\<lparr>vs_manifest_file_number := or_zero (rc_next_file rc),
                  vs_next_file_number := or_zero (rc_next_file rc) + 1,
                  vs_last_sequence := or_zero (rc_last_sequence rc),
                  vs_log_number := or_zero (rc_log_number rc),
                  vs_prev_log_number := or_zero (rc_prev_log_number rc)\<rparr>;
          (reused, st, e) = ReuseManifest env dscname current st e
      in (\<not> reused, st, e))"

definition Recover ::
    "('e, 'w, 'r) db_env \<Rightarrow> 'w version_set \<Rightarrow> 'e \<Rightarrow> (status \<times> bool \<times> 'w version_set \<times> 'e) option" where
  "Recover env st e =
     (case ReadFileToString (env_class.truncate env) (CurrentFileName (vs_dbname st)) e of
        None \<Rightarrow> None
      | Some (s, current, e) \<Rightarrow>
          if \<not> ok s then Some (s, False, st, e)
          else if current = [] \<or> last current \<noteq> 10 then
            Some (Status_Corruption (str ''CURRENT file does not end with newline'') [], False, st, e)
          else
            let current = butlast current; dscname = vs_dbname st @ str ''/'' @ current
            in case NewSequentialFile env dscname e of
                 (s, None, e) \<Rightarrow> Some (s, False, st, e)
               | (s, Some file, e) \<Rightarrow>
                   let (b, st) = Builder (the (vs_current st)) st;
                       rc = \<lparr>rc_log_number = None, rc_prev_log_number = None, rc_next_file = None, rc_last_sequence = None\<rparr>
                   in case recover_loop (file_Read env) (file_Skip env) (Reader file True True 0, s, rc, vs_compact_pointer st, b, st) of
                        None \<Rightarrow> None
                      | Some (s, rc, compact_pointer, b, st) \<Rightarrow>
                          let st = st\<lparr>vs_compact_pointer := compact_pointer\<rparr>;
                              (s, st) = (if ok s then
                                (check_recovered rc,
                                 MarkFileNumberUsed (or_zero (rc_log_number rc)) (MarkFileNumberUsed (or_zero (rc_prev_log_number rc)) st))
                              else (s, st));
                              (save_manifest, st, e) = (if ok s then install_recovered env dscname current rc b st e else (False, st, e))
                          in Some (s, save_manifest, Builder_delete b st, e))"

subsection \<open>Queries\<close>

definition NumLevelFiles :: "'w version_set \<Rightarrow> nat \<Rightarrow> nat" where
  "NumLevelFiles st level = length (v_files (current_version st) level)"

definition NumLevelBytes :: "'w version_set \<Rightarrow> nat \<Rightarrow> int" where
  "NumLevelBytes st level = TotalFileSize (level_files (vh_files st) (current_version st) level)"

definition LevelSummary :: "'w version_set \<Rightarrow> bytes" where
  "LevelSummary st =
     str ''files[ '' @ concat (map (\<lambda>level. decimal (NumLevelFiles st level) @ str '' '') [0..<7]) @ str '']''"

text \<open>
  \<open>offset_in\<close> opens a table and gives the approximate offset of the key in it, or \<^const>\<open>None\<close> when that fails.
\<close>

fun offset_in_level ::
    "(u64 \<Rightarrow> u64 \<Rightarrow> bytes \<Rightarrow> u64 option) \<Rightarrow> (bytes \<Rightarrow> bytes \<Rightarrow> int) \<Rightarrow> nat \<Rightarrow> bytes \<Rightarrow> FileMetaData list \<Rightarrow> u64 \<Rightarrow> u64" where
  "offset_in_level offset_in icmp level ikey [] result = result"
| "offset_in_level offset_in icmp level ikey (f # files) result =
     (if icmp (fm_largest f) ikey \<le> 0 then offset_in_level offset_in icmp level ikey files (result + fm_file_size f)
      else if icmp (fm_smallest f) ikey > 0 then
        if level > 0 then result else offset_in_level offset_in icmp level ikey files result
      else
        (case offset_in (fm_number f) (fm_file_size f) ikey of
           Some n \<Rightarrow> offset_in_level offset_in icmp level ikey files (result + n)
         | None \<Rightarrow> offset_in_level offset_in icmp level ikey files result))"

definition VersionSet_ApproximateOffsetOf ::
    "(u64 \<Rightarrow> u64 \<Rightarrow> bytes \<Rightarrow> u64 option) \<Rightarrow> 'w version_set \<Rightarrow> version \<Rightarrow> bytes \<Rightarrow> u64" where
  "VersionSet_ApproximateOffsetOf offset_in st v ikey =
     fold (\<lambda>level. offset_in_level offset_in (vs_icmp st) level ikey (level_files (vh_files st) v level)) [0..<kNumLevels] 0"

fun max_overlap :: "'w version_set \<Rightarrow> nat \<Rightarrow> file_ptr list \<Rightarrow> int \<Rightarrow> int option" where
  "max_overlap st level [] result = Some result"
| "max_overlap st level (p # ps) result =
     (case GetOverlappingInputs (cmp_Compare (vs_user_comparator st)) (vh_files st) (current_version st) (level + 1)
             (Some (fm_smallest (vh_files st p))) (Some (fm_largest (vh_files st p))) of
        None \<Rightarrow> None
      | Some overlaps \<Rightarrow>
          let sum = TotalFileSize (map (vh_files st) overlaps)
          in max_overlap st level ps (if sum > result then sum else result))"

definition MaxNextLevelOverlappingBytes :: "'w version_set \<Rightarrow> int option" where
  "MaxNextLevelOverlappingBytes st =
     fold (\<lambda>level r. case r of None \<Rightarrow> None | Some result \<Rightarrow> max_overlap st level (v_files (current_version st) level) result)
       [1..<kNumLevels - 1] (Some 0)"

end
