(* ===== verification/LDB_VersionSetSpec.thy ===== *)
theory LDB_VersionSetSpec
  imports LDB_VersionSet
begin

text \<open>
  Applying an edit installs the new version exactly when it was logged, and what the MANIFEST holds then
  is enough to recover the version set.
\<close>

subsection \<open>What the operations of the heap leave alone\<close>

lemma more_heap_ops [simp]:
  "version_heap.more (set_refs p n st) = version_heap.more st"
  "version_heap.more (set_version_refs v n st) = version_heap.more st"
  "version_heap.more (unref_file p st) = version_heap.more st"
  by (simp_all add: set_refs_def set_version_refs_def unref_file_def Let_def)

lemma more_folds [simp]:
  "(\<And>x st. version_heap.more (f x st) = version_heap.more st) \<Longrightarrow> version_heap.more (fold f xs st) = version_heap.more st"
  by (induction xs arbitrary: st) simp_all

lemma more_version_ops [simp]:
  "version_heap.more (delete_Version v st) = version_heap.more st"
  "version_heap.more (Version_Ref v st) = version_heap.more st"
  "version_heap.more (Version_Unref v st) = version_heap.more st"
  "version_heap.more (AppendVersion v current st) = version_heap.more st"
  by (simp_all add: delete_Version_def Version_Ref_def Version_Unref_def AppendVersion_def Let_def split: option.split)

lemma more_MaybeAddFile [simp]: "version_heap.more (MaybeAddFile b v level f st) = version_heap.more st"
  by (simp add: MaybeAddFile_def Let_def)

lemma more_SaveTo_loop [simp]: "version_heap.more (SaveTo_loop icmp b v level base added st) = version_heap.more st"
  by (induction icmp b v level base added st rule: SaveTo_loop.induct) (simp_all add: Let_def)

lemma more_builder_ops [simp]:
  "version_heap.more (SaveTo icmp b v st) = version_heap.more st"
  "version_heap.more (Builder_delete b st) = version_heap.more st"
  "version_heap.more (snd (Builder base st)) = version_heap.more st"
  "version_heap.more (snd (create_Version st)) = version_heap.more st"
  by (simp_all add: SaveTo_def Builder_delete_def Builder_def create_Version_def)

lemma more_add_to_level: "add_to_level icmp lf (b, st) = (b', st') \<Longrightarrow> version_heap.more st' = version_heap.more st"
  by (auto simp: add_to_level_def new_file_def Let_def split: prod.splits)

lemma more_Builder_Apply: "Builder_Apply icmp e (cp, b, st) = (cp', b', st') \<Longrightarrow> version_heap.more st' = version_heap.more st"
proof -
  have "fold (add_to_level icmp) files (b, st) = (b', st') \<Longrightarrow> version_heap.more st' = version_heap.more st" for files b st
  proof (induction files arbitrary: b st)
    case (Cons f files)
    obtain b1 st1 where "add_to_level icmp f (b, st) = (b1, st1)" by force
    then show ?case using Cons more_add_to_level by simp
  qed simp
  then show "Builder_Apply icmp e (cp, b, st) = (cp', b', st') \<Longrightarrow> version_heap.more st' = version_heap.more st"
    by (auto simp: Builder_Apply_def)
qed

lemma more_fields:
  fixes st st' :: "'w version_set"
  assumes "version_heap.more st' = version_heap.more st"
  shows "vs_dbname st' = vs_dbname st" and "vs_options st' = vs_options st" and "vs_user_comparator st' = vs_user_comparator st"
    and "vs_next_file_number st' = vs_next_file_number st" and "vs_manifest_file_number st' = vs_manifest_file_number st"
    and "vs_last_sequence st' = vs_last_sequence st" and "vs_log_number st' = vs_log_number st"
    and "vs_prev_log_number st' = vs_prev_log_number st" and "vs_descriptor_log st' = vs_descriptor_log st"
    and "vs_current st' = vs_current st" and "vs_compact_pointer st' = vs_compact_pointer st"
  using assms by (cases st; cases st'; simp)+

text \<open>The heap part of the invariant does not look at the other fields.\<close>

lemma heap_inv_cong:
  assumes "vh_files st' = vh_files st" and "vh_live_files st' = vh_live_files st" and "vh_next_file st' = vh_next_file st"
    and "vh_list st' = vh_list st" and "vh_next_version st' = vh_next_version st"
    and "\<And>v. v_files (vh_versions st' v) = v_files (vh_versions st v) \<and> v_refs (vh_versions st' v) = v_refs (vh_versions st v)"
  shows "heap_inv st' pending extra holders \<longleftrightarrow> heap_inv st pending extra holders"
proof -
  have "held st' vs = held st vs" for vs by (rule held_cong) (simp add: version_files_def assms(6))
  then show ?thesis using assms by (simp add: heap_inv_def refs_ok_def)
qed

subsection \<open>The invariant\<close>

abbreviation vs_cmp :: "'w version_set \<Rightarrow> bytes \<Rightarrow> bytes \<Rightarrow> int" where
  "vs_cmp st \<equiv> cmp_Compare (vs_user_comparator st)"

definition current_levels :: "'w version_set \<Rightarrow> nat \<Rightarrow> FileMetaData set" where
  "current_levels st level = stored_level (vh_files st) (v_files (current_version st) level)"

text \<open>\<open>others\<close> are the references to versions that iterators and compactions hold.\<close>

definition vset_inv :: "'w version_set \<Rightarrow> version_ptr multiset \<Rightarrow> bool" where
  "vset_inv st others \<longleftrightarrow> (\<exists>c. vs_current st = Some c \<and> heap_inv st [] {#} (add_mset c others) \<and>
     version_sorted (vs_cmp st) (vh_files st) (vh_versions st c))"

definition edit_fits :: "version_edit \<Rightarrow> 'w version_set \<Rightarrow> bool" where
  "edit_fits edit st \<longleftrightarrow> edit_files_ok (vs_cmp st) edit \<and> distinct (edit_numbers edit) \<and>
     version_numbers (vh_files st) (current_version st) \<inter> set (edit_numbers edit) = {}"

lemma old_kept_version:
  assumes "old_kept st st'" and "heap_inv st [] extra holders" and "u \<in> set (vh_list st)"
  shows "\<And>level. level < kNumLevels \<Longrightarrow>
      stored_level (vh_files st') (v_files (vh_versions st' u) level) = stored_level (vh_files st) (v_files (vh_versions st u) level)"
    and "version_sorted cmp (vh_files st) (vh_versions st u) \<Longrightarrow> version_sorted cmp (vh_files st') (vh_versions st' u)"
proof -
  have files: "v_files (vh_versions st' u) = v_files (vh_versions st u)" using assms(1,3) by (simp add: old_kept_def)
  have stored: "stored_file (vh_files st' p) = stored_file (vh_files st p)"
    if "level < kNumLevels" "p \<in> set (v_files (vh_versions st u) level)" for level p
  proof -
    have "p \<in># held st (vh_list st)" using held_version [OF assms(3)] version_files_level [OF that] by blast
    then have "p < vh_next_file st" using assms(2) by (auto simp: heap_inv_def refs_ok_def)
    then show ?thesis using assms(1) by (simp add: old_kept_def)
  qed
  show "stored_level (vh_files st') (v_files (vh_versions st' u) level) = stored_level (vh_files st) (v_files (vh_versions st u) level)"
    if "level < kNumLevels" for level
    unfolding files stored_level_def by (rule image_cong [OF refl]) (rule stored [OF that])
  show "version_sorted cmp (vh_files st') (vh_versions st' u)" if sorted: "version_sorted cmp (vh_files st) (vh_versions st u)"
    unfolding version_sorted_def files
  proof (intro allI impI conjI ballI)
    fix level assume level: "level < kNumLevels"
    have fields: "fm_smallest (vh_files st' p) = fm_smallest (vh_files st p) \<and> fm_number (vh_files st' p) = fm_number (vh_files st p) \<and>
        fm_largest (vh_files st' p) = fm_largest (vh_files st p)" if "p \<in> set (v_files (vh_versions st u) level)" for p
      using stored [OF level that] by (metis stored_file_fields(1,3,4))
    show "file_ok cmp (vh_files st' p)" if "p \<in> set (v_files (vh_versions st u) level)" for p
      using sorted fields [OF that] level that by (simp add: version_sorted_def file_ok_def)
    show "sorted_wrt (BySmallestKey (InternalKey_Compare cmp) (vh_files st')) (v_files (vh_versions st u) level)"
    proof (rule sorted_wrt_mono_rel)
      show "sorted_wrt (BySmallestKey (InternalKey_Compare cmp) (vh_files st)) (v_files (vh_versions st u) level)"
        using sorted level by (simp add: version_sorted_def)
    qed (use fields in \<open>simp add: BySmallestKey_def Let_def\<close>)
  qed
qed

subsection \<open>Applying an edit\<close>

lemma Finalize_simps [simp]:
  "vh_files (Finalize v st) = vh_files st" "vh_live_files (Finalize v st) = vh_live_files st"
  "vh_next_file (Finalize v st) = vh_next_file st" "vh_list (Finalize v st) = vh_list st"
  "vh_next_version (Finalize v st) = vh_next_version st" "version_heap.more (Finalize v st) = version_heap.more st"
  "v_files (vh_versions (Finalize v st) u) = v_files (vh_versions st u)"
  "v_refs (vh_versions (Finalize v st) u) = v_refs (vh_versions st u)"
  by (simp_all add: Finalize_def Let_def split: prod.split)

lemma Finalize_inv [simp]:
  "heap_inv (Finalize v st) pending extra holders \<longleftrightarrow> heap_inv st pending extra holders"
  "version_sorted cmp h (vh_versions (Finalize v st) u) \<longleftrightarrow> version_sorted cmp h (vh_versions st u)"
  "old_kept st0 (Finalize v st) \<longleftrightarrow> old_kept st0 st"
  by (rule heap_inv_cong) (simp_all add: version_sorted_def old_kept_def)

lemma build_new_version_inv:
  fixes st :: "'w version_set"
  assumes uc: "user_comparator (vs_cmp st) Separator Successor" and inv: "vset_inv st others" and edit: "edit_fits edit st"
    and build: "build_new_version edit st = (v, st')"
  shows "heap_inv st' [v] {#} (add_mset (the (vs_current st)) others) \<and>
    version_sorted (vs_cmp st) (vh_files st') (vh_versions st' v) \<and>
    (\<forall>level < kNumLevels. stored_level (vh_files st') (v_files (vh_versions st' v) level) = edit_level edit level (current_levels st level)) \<and>
    old_kept st st' \<and>
    version_heap.more st' = version_heap.more (st\<lparr>vs_compact_pointer := apply_pointers edit (vs_compact_pointer st)\<rparr>)"
proof -
  obtain c where c: "vs_current st = Some c" "heap_inv st [] {#} (add_mset c others)"
    "version_sorted (vs_cmp st) (vh_files st) (vh_versions st c)"
    using inv by (auto simp: vset_inv_def)
  obtain st1 where create: "create_Version st = (v, st1)"
    using build by (auto simp: build_new_version_def Let_def split: prod.splits)
  obtain b st2 where builder: "Builder c st1 = (b, st2)" by force
  obtain cp b' st3 where app: "Builder_Apply (vs_icmp st) edit (vs_compact_pointer st, b, st2) = (cp, b', st3)" by (metis prod_cases3)
  have m1: "version_heap.more st1 = version_heap.more st" by (metis more_builder_ops(4) create snd_conv)
  have m2: "version_heap.more st2 = version_heap.more st" by (metis more_builder_ops(3) builder snd_conv m1)
  have m3: "version_heap.more st3 = version_heap.more st" using more_Builder_Apply [OF app] m2 by simp
  note f1 = more_fields [OF m1] and f2 = more_fields [OF m2] and f3 = more_fields [OF m3]
  let ?built = "Builder_delete b' (SaveTo (vs_icmp st) b' v st3)"
  have st': "st' = Finalize v (?built\<lparr>vs_compact_pointer := cp\<rparr>)"
    using build create builder app c(1) f1 f2 f3 by (simp add: build_new_version_def Let_def)
  have fits: "\<forall>e \<in> set [edit]. edit_files_ok (vs_cmp st) e" "distinct (concat (map edit_numbers [edit]))"
    "version_numbers (vh_files st) (vh_versions st c) \<inter> set (concat (map edit_numbers [edit])) = {}"
    using edit c(1) by (simp_all add: edit_fits_def)
  have cur: "c \<in> set (vh_list st)" using c(2) by (auto simp: heap_inv_def)
  have app': "fold (Builder_Apply (vs_icmp st)) [edit] (vs_compact_pointer st, b, st2) = (cp, b', st3)" using app by simp
  note built = user_comparator.build_version [OF uc c(2) cur c(3) fits create builder app']
  have "heap_inv (?built\<lparr>vs_compact_pointer := cp\<rparr>) [v] {#} (add_mset c others)"
    using built by (subst heap_inv_cong [of _ ?built]) simp_all
  moreover have "version_heap.more (?built\<lparr>vs_compact_pointer := cp\<rparr>) =
      version_heap.more (st\<lparr>vs_compact_pointer := apply_pointers edit (vs_compact_pointer st)\<rparr>)"
  proof -
    have "version_heap.more ?built = version_heap.more st" using m3 by simp
    moreover have "cp = apply_pointers edit (vs_compact_pointer st)" using built by simp
    ultimately show ?thesis by (cases ?built; cases st) simp
  qed
  ultimately show ?thesis using built c(1) by (simp add: st' old_kept_def current_levels_def)
qed

lemma open_manifest_state: "open_manifest env st e = (s, name, st', e') \<Longrightarrow> \<exists>d. st' = st\<lparr>vs_descriptor_log := d\<rparr>"
  by (auto simp: open_manifest_def Let_def split: option.splits prod.splits intro: exI [of _ "vs_descriptor_log st"])

lemma write_manifest_state: "write_manifest_record env data st e = (s, st', e') \<Longrightarrow> \<exists>d. st' = st\<lparr>vs_descriptor_log := d\<rparr>"
  by (auto simp: write_manifest_record_def split: prod.splits)

lemma delete_descriptor_state: "delete_descriptor env st e = (st', e') \<Longrightarrow> \<exists>d. st' = st\<lparr>vs_descriptor_log := d\<rparr>"
  by (auto simp: delete_descriptor_def split: option.splits intro: exI [of _ "vs_descriptor_log st"])

lemma LogAndApply_result:
  assumes "LogAndApply env edit st e = (s, st', e')" and "build_new_version (complete_edit st edit) st = (v, st1)"
  shows "\<exists>d d'. st' = (if ok s
    then (install_version v (st1\<lparr>vs_descriptor_log := d\<rparr>))
      \<lparr>vs_log_number := ve_log_number (complete_edit st edit), vs_prev_log_number := ve_prev_log_number (complete_edit st edit)\<rparr>
    else (delete_Version v (st1\<lparr>vs_descriptor_log := d\<rparr>))\<lparr>vs_descriptor_log := d'\<rparr>)"
proof -
  obtain s1 name st2 e1 where op: "open_manifest env st1 e = (s1, name, st2, e1)" by (metis prod_cases4)
  obtain s2 st3 e2 where wr: "(if ok s1 then write_manifest_record env (VersionEdit_EncodeTo (complete_edit st edit) []) st2 e1
      else (s1, st2, e1)) = (s2, st3, e2)" by (metis prod_cases3)
  obtain s3 e3 where cu: "(if ok s2 \<and> name \<noteq> [] then SetCurrentFile (env_class.truncate env) (vs_dbname st3) (vs_manifest_file_number st3) e2
      else (s2, e2)) = (s3, e3)" by force
  obtain d where d: "st3 = st1\<lparr>vs_descriptor_log := d\<rparr>"
  proof -
    obtain d2 where "st2 = st1\<lparr>vs_descriptor_log := d2\<rparr>" using open_manifest_state [OF op] by blast
    moreover have "\<exists>d3. st3 = st2\<lparr>vs_descriptor_log := d3\<rparr>"
    proof (cases "ok s1")
      case True
      then show ?thesis using wr write_manifest_state by (metis (full_types))
    next
      case False
      then show ?thesis using wr by (intro exI [of _ "vs_descriptor_log st2"]) auto
    qed
    ultimately show ?thesis using that by auto
  qed
  let ?del = "delete_Version v st3"
  have res: "(s, st', e') = (if ok s3
      then (s3, (install_version v st3)\<lparr>vs_log_number := ve_log_number (complete_edit st edit),
        vs_prev_log_number := ve_prev_log_number (complete_edit st edit)\<rparr>, e3)
      else if name \<noteq> [] then (let (st, e) = delete_descriptor env ?del e3 in (s3, st, snd (DeleteFile env name e)))
      else (s3, ?del, e3))"
    using assms op wr cu by (simp add: LogAndApply_def Let_def split: if_splits)
  show ?thesis
  proof (cases "ok s3")
    case True
    then show ?thesis using res d by (auto simp: Let_def)
  next
    case False
    obtain st4 e4 where de: "delete_descriptor env ?del e3 = (st4, e4)" by force
    obtain d' where "st4 = ?del\<lparr>vs_descriptor_log := d'\<rparr>" using delete_descriptor_state [OF de] by blast
    moreover have "\<exists>d'. ?del = ?del\<lparr>vs_descriptor_log := d'\<rparr>" by (rule exI [of _ "vs_descriptor_log ?del"]) simp
    ultimately obtain d2 where d2: "st' = ?del\<lparr>vs_descriptor_log := d2\<rparr>" using res de False by (auto split: if_splits)
    moreover have "s = s3" using res de False by (auto split: if_splits)
    ultimately show ?thesis using False unfolding d by (intro exI [of _ d] exI [of _ d2]) simp
  qed
qed

lemma complete_edit_simps [simp]:
  "edit_level (complete_edit st edit) = edit_level edit" "edit_fits (complete_edit st edit) st' \<longleftrightarrow> edit_fits edit st'"
  "apply_pointers (complete_edit st edit) = apply_pointers edit"
  by (simp_all add: fun_eq_iff complete_edit_def Let_def edit_level_def edit_fits_def edit_files_ok_def edit_numbers_def apply_pointers_def
      SetLogNumber_def SetPrevLogNumber_def SetNextFile_def SetLastSequence_def)

lemma complete_edit_numbers:
  "ve_log_number (complete_edit st edit) = (if ve_has_log_number edit then ve_log_number edit else vs_log_number st)"
  "ve_prev_log_number (complete_edit st edit) = (if ve_has_prev_log_number edit then ve_prev_log_number edit else vs_prev_log_number st)"
  by (simp_all add: complete_edit_def Let_def SetLogNumber_def SetPrevLogNumber_def SetNextFile_def SetLastSequence_def)

text \<open>The fields of a version set that neither the heap operations nor the descriptor change.\<close>

lemma update_simps [simp]:
  "vh_files (st\<lparr>vs_descriptor_log := d\<rparr>) = vh_files st" "heap_inv (st\<lparr>vs_descriptor_log := d\<rparr>) pending extra holders \<longleftrightarrow> heap_inv st pending extra holders"
  by simp (rule heap_inv_cong, simp_all)

lemma vset_inv_frame:
  fixes st :: "'w version_set"
  assumes "version_heap.truncate st' = version_heap.truncate st" and "vs_current st' = vs_current st"
    and "vs_user_comparator st' = vs_user_comparator st"
  shows "vset_inv st' others \<longleftrightarrow> vset_inv st others" and "current_levels st' = current_levels st"
proof -
  have "vh_files st' = vh_files st" "vh_live_files st' = vh_live_files st" "vh_next_file st' = vh_next_file st"
    "vh_versions st' = vh_versions st" "vh_list st' = vh_list st" "vh_next_version st' = vh_next_version st"
    using assms(1) by (simp_all add: version_heap.defs)
  then show "vset_inv st' others \<longleftrightarrow> vset_inv st others" "current_levels st' = current_levels st"
    using assms(2,3) heap_inv_cong [of st' st] unfolding vset_inv_def current_levels_def by simp_all
qed

lemma install_version_inv:
  fixes st :: "'w version_set"
  assumes heap: "heap_inv st [v] extra (add_mset c others)" and c: "vs_current st = Some c"
    and sorted: "version_sorted (vs_cmp st) (vh_files st) (vh_versions st v)"
  defines "st' \<equiv> install_version v st"
  shows "heap_inv st' [] extra (add_mset v others) \<and> version_sorted (vs_cmp st) (vh_files st') (vh_versions st' v) \<and>
    vs_current st' = Some v \<and> same_data st (AppendVersion v (Some c) st) \<and>
    current_levels st' = (\<lambda>level. stored_level (vh_files st) (v_files (vh_versions st v) level)) \<and>
    vs_user_comparator st' = vs_user_comparator st"
proof -
  let ?st = "AppendVersion v (Some c) st"
  have data: "same_data st ?st" by (rule AppendVersion_data)
  have more: "version_heap.more ?st = version_heap.more st" by simp
  note fields = more_fields [OF more]
  have "heap_inv ?st [] extra (add_mset v others)" by (rule AppendVersion_inv) (use heap in simp)
  then have "heap_inv st' [] extra (add_mset v others)"
    unfolding st'_def install_version_def c by (subst heap_inv_cong [of _ ?st]) simp_all
  moreover have "version_sorted (vs_cmp st) (vh_files ?st) (vh_versions ?st v)" using version_sorted_data [OF data] sorted by blast
  moreover have "stored_level (vh_files ?st) (v_files (vh_versions ?st v) level) = stored_level (vh_files st) (v_files (vh_versions st v) level)" for level
    using data stored_level_data [of "vh_files ?st" "vh_files st"] by (simp add: same_data_def)
  ultimately show ?thesis using data fields by (simp add: st'_def install_version_def c current_levels_def fun_eq_iff)
qed

text \<open>A successful call installs the new version, a failed one leaves everything but the pointers of the compactions as it was.\<close>

lemma LogAndApply_inv:
  fixes st :: "'w version_set"
  assumes uc: "user_comparator (vs_cmp st) Separator Successor" and inv: "vset_inv st others" and edit: "edit_fits edit st"
    and apply_edit: "LogAndApply env edit st e = (s, st', e')"
  shows "vset_inv st' others \<and>
    (\<forall>level < kNumLevels. current_levels st' level = (if ok s then edit_level edit level (current_levels st level) else current_levels st level)) \<and>
    (\<forall>u \<in># others. \<forall>level < kNumLevels.
      stored_level (vh_files st') (v_files (vh_versions st' u) level) = stored_level (vh_files st) (v_files (vh_versions st u) level)) \<and>
    vs_log_number st' = (if ok s \<and> ve_has_log_number edit then ve_log_number edit else vs_log_number st) \<and>
    vs_prev_log_number st' = (if ok s \<and> ve_has_prev_log_number edit then ve_prev_log_number edit else vs_prev_log_number st) \<and>
    vs_compact_pointer st' = apply_pointers edit (vs_compact_pointer st)"
proof -
  obtain c where c: "vs_current st = Some c" "heap_inv st [] {#} (add_mset c others)"
    "version_sorted (vs_cmp st) (vh_files st) (vh_versions st c)"
    using inv by (auto simp: vset_inv_def)
  obtain v st1 where build: "build_new_version (complete_edit st edit) st = (v, st1)" by force
  have fits: "edit_fits (complete_edit st edit) st" using edit by simp
  note built = build_new_version_inv [OF uc inv fits build]
  have "version_heap.more st1 = version_heap.more (st\<lparr>vs_compact_pointer := apply_pointers edit (vs_compact_pointer st)\<rparr>)" using built by simp
  note fields = more_fields [OF this]
  have kept: "old_kept st st1" using built by blast
  have heap1: "heap_inv st1 [v] {#} (add_mset c others)" using built c(1) by simp
  have listed: "set_mset (add_mset c others) = set (vh_list st)" using c(2) by (simp add: heap_inv_def)
  have later: "stored_level (vh_files X) (v_files (vh_versions X u) level) = stored_level (vh_files st) (v_files (vh_versions st u) level)"
    if "same_data st1 X" "u \<in># add_mset c others" "level < kNumLevels" for X :: "'w version_set" and u level
  proof -
    have "stored_level (vh_files X) (v_files (vh_versions X u) level) = stored_level (vh_files st1) (v_files (vh_versions st1 u) level)"
      using that(1) stored_level_data [of "vh_files X" "vh_files st1"] by (simp add: same_data_def)
    moreover have "u \<in> set (vh_list st)" using that(2) listed by auto
    ultimately show ?thesis using old_kept_version(1) [OF kept c(2) _ that(3), of u] by simp
  qed
  obtain d d' where st': "st' = (if ok s
      then (install_version v (st1\<lparr>vs_descriptor_log := d\<rparr>))
        \<lparr>vs_log_number := ve_log_number (complete_edit st edit), vs_prev_log_number := ve_prev_log_number (complete_edit st edit)\<rparr>
      else (delete_Version v (st1\<lparr>vs_descriptor_log := d\<rparr>))\<lparr>vs_descriptor_log := d'\<rparr>)"
    using LogAndApply_result [OF apply_edit build] by blast
  let ?st2 = "st1\<lparr>vs_descriptor_log := d\<rparr>"
  have heap2: "heap_inv ?st2 [v] {#} (add_mset c others)" using heap1 by simp
  have same12: "same_data st1 ?st2" by (simp add: same_data_def)
  show ?thesis
  proof (cases "ok s")
    case True
    let ?st3 = "install_version v ?st2"
    have cur2: "vs_current ?st2 = Some c" using fields c(1) by simp
    have sorted2: "version_sorted (vs_cmp ?st2) (vh_files ?st2) (vh_versions ?st2 v)" using built fields by simp
    note inst = install_version_inv [OF heap2 cur2 sorted2]
    have same: "same_data st1 ?st3"
    proof -
      have "same_data st1 (AppendVersion v (Some c) ?st2)" using same_data_trans [OF same12] inst by blast
      then show ?thesis by (simp add: install_version_def cur2 fields c(1) same_data_def)
    qed
    have more3: "version_heap.more (AppendVersion v (vs_current ?st2) ?st2) = version_heap.more ?st2" by simp
    note fields3 = more_fields [OF more3]
    have "vset_inv ?st3 others" using inst by (simp add: vset_inv_def)
    then have "vset_inv st' others" "current_levels st' = current_levels ?st3"
      using True vset_inv_frame [of st' ?st3] unfolding st' by (simp_all add: version_heap.defs)
    moreover have "current_levels ?st3 level = edit_level edit level (current_levels st level)" if "level < kNumLevels" for level
      using inst built that by simp
    moreover have "stored_level (vh_files st') (v_files (vh_versions st' u) level) = stored_level (vh_files st) (v_files (vh_versions st u) level)"
      if "u \<in># others" "level < kNumLevels" for u level
      using later [OF same, of u level] that True unfolding st' by simp
    moreover have "vs_compact_pointer st' = apply_pointers edit (vs_compact_pointer st)"
      using True fields fields3 unfolding st' by (simp add: install_version_def)
    ultimately show ?thesis using True complete_edit_numbers [of st edit] unfolding st' by simp
  next
    case False
    let ?st3 = "delete_Version v ?st2"
    have more3: "version_heap.more ?st3 = version_heap.more ?st2" by simp
    note fields3 = more_fields [OF more3]
    have data3: "same_data st1 ?st3" using same_data_trans [OF same12 delete_Version_data] .
    have heap3: "heap_inv ?st3 [] {#} (add_mset c others)" by (rule delete_pending_inv [OF heap2])
    have "version_sorted (vs_cmp st) (vh_files st1) (vh_versions st1 c)"
      using old_kept_version(2) [OF kept c(2) _ c(3)] listed by auto
    then have "version_sorted (vs_cmp st) (vh_files ?st3) (vh_versions ?st3 c)" using version_sorted_data [OF data3] by blast
    then have "vset_inv ?st3 others" using heap3 fields fields3 c(1) by (simp add: vset_inv_def)
    then have "vset_inv st' others" "current_levels st' = current_levels ?st3"
      using False vset_inv_frame [of st' ?st3] unfolding st' by (simp_all add: version_heap.defs)
    moreover have "current_levels ?st3 level = current_levels st level" if "level < kNumLevels" for level
      using later [OF data3 _ that, of c] fields fields3 c(1) by (simp add: current_levels_def)
    moreover have "stored_level (vh_files st') (v_files (vh_versions st' u) level) = stored_level (vh_files st) (v_files (vh_versions st u) level)"
      if "u \<in># others" "level < kNumLevels" for u level
      using later [OF data3, of u level] that False unfolding st' by simp
    ultimately show ?thesis using False fields fields3 unfolding st' by simp
  qed
qed

subsection \<open>The MANIFEST on a POSIX file system\<close>

lemma PosixDbEnv_simps [simp]:
  "env_class.truncate (PosixDbEnv k) = PosixEnv k" "NewWritableFile (PosixDbEnv k) = PosixEnv_NewWritableFile k"
  "file_Append (PosixDbEnv k) = fs_Append" "file_Flush (PosixDbEnv k) = fs_Flush" "file_Sync (PosixDbEnv k) = fs_Sync k"
  "file_Close (PosixDbEnv k) = PosixWritableFile_Close k" "NewSequentialFile (PosixDbEnv k) = PosixEnv_NewSequentialFile k"
  "file_Read (PosixDbEnv k) = PosixSequentialFile_Read" "file_Skip (PosixDbEnv k) = PosixSequentialFile_Skip"
  "DeleteFile (PosixDbEnv k) = PosixEnv_DeleteFile k" "NewAppendableFile (PosixDbEnv k) = PosixEnv_NewAppendableFile k"
  "GetFileSize (PosixDbEnv k) = PosixEnv_GetFileSize k"
  by (simp_all add: PosixDbEnv_def PosixEnv_def env_class.defs db_env.defs)

interpretation logged: writable_file "append_in (PosixDbEnv k)" "flush_in (PosixDbEnv k)" "\<lambda>(w, e). write_content w"
proof (unfold_locales, unfold append_in_def flush_in_def PosixDbEnv_simps)
  fix d e :: bytes and f f' s
  assume app: "(case f of (w, e) \<Rightarrow> fs_Append w d e) = (s, f')"
  then have *: "PosixWritableFile_Append d (fst f) = (s, fst f')" by (auto simp: fs_Append_def split: prod.splits)
  show "ok s \<Longrightarrow> (case f' of (w, e) \<Rightarrow> write_content w) = (case f of (w, e) \<Rightarrow> write_content w) @ d"
    using posix_write.append_ok [OF *] by (simp add: case_prod_beta)
  show "\<exists>k. (case f' of (w, e) \<Rightarrow> write_content w) = (case f of (w, e) \<Rightarrow> write_content w) @ take k d"
    using posix_write.append_partial [OF *] by (simp add: case_prod_beta)
  show "\<not> ok s \<Longrightarrow> e \<noteq> [] \<Longrightarrow> \<not> ok (fst (case f' of (w, s) \<Rightarrow> fs_Append w e s))"
    using posix_write.append_after_failure [OF *] by (auto simp: fs_Append_def case_prod_beta)
next
  fix f f' s
  assume "(case f of (w, e) \<Rightarrow> fs_Flush w e) = (s, f')"
  then have *: "PosixWritableFile_Flush (fst f) = (s, fst f')" by (auto simp: fs_Flush_def split: prod.splits)
  show "(case f' of (w, e) \<Rightarrow> write_content w) = (case f of (w, e) \<Rightarrow> write_content w)"
    using posix_write.flush_content [OF *] by (simp add: case_prod_beta)
qed

lemma Emit_keeps:
  assumes "\<And>d f. P f \<Longrightarrow> P (snd (ap d f))" and "\<And>f. P f \<Longrightarrow> P (snd (fl f))" and "P (lw_dest w)"
  shows "P (lw_dest (snd (EmitPhysicalRecord ap fl w t p)))"
  using assms by (auto simp: EmitPhysicalRecord_def Let_def split: prod.splits) (metis snd_conv)+

lemma switch_keeps:
  assumes "\<And>d f. P f \<Longrightarrow> P (snd (ap d f))" and "P (lw_dest w)"
  shows "P (lw_dest (switch_block ap w))"
  using assms by (simp add: switch_block_def Let_def)

lemma AddRecord_loop_keeps:
  assumes "\<And>d f. P f \<Longrightarrow> P (snd (ap d f))" and "\<And>f. P f \<Longrightarrow> P (snd (fl f))" and "P (lw_dest w)"
  shows "P (lw_dest (snd (AddRecord_loop ap fl w p b)))"
  using assms
proof (induction ap fl w p b rule: AddRecord_loop.induct)
  case (1 ap fl w p b)
  let ?w = "switch_block ap w"
  let ?avail = "kBlockSize - lw_block_offset ?w - kHeaderSize"
  let ?n = "if length p < ?avail then length p else ?avail"
  let ?t = "record_type_of b (length p = ?n)"
  obtain s1 w1 where emit: "EmitPhysicalRecord ap fl ?w ?t (take ?n p) = (s1, w1)" by force
  have "P (lw_dest ?w)" using switch_keeps [of P ap w] "1.prems"(1,3) by blast
  then have "P (lw_dest (snd (EmitPhysicalRecord ap fl ?w ?t (take ?n p))))"
    using Emit_keeps [of P ap fl ?w] "1.prems"(1,2) by blast
  then have w1: "P (lw_dest w1)" by (simp only: emit snd_conv)
  have more: "P (lw_dest (snd (AddRecord_loop ap fl w1 (drop ?n p) False)))" if "ok s1 \<and> drop ?n p \<noteq> []"
    using that w1 "1.prems"(1,2) emit by (intro "1.IH" [OF refl refl refl refl emit [symmetric] refl refl]) simp_all
  have eq: "AddRecord_loop ap fl w p b =
      (if ok s1 \<and> drop ?n p \<noteq> [] then AddRecord_loop ap fl w1 (drop ?n p) False else (s1, w1))"
    by (subst AddRecord_loop.simps) (simp only: Let_def emit prod.case)
  show ?case
  proof (cases "ok s1 \<and> drop ?n p \<noteq> []")
    case True
    show ?thesis unfolding eq if_P [OF True] by (rule more [OF True])
  next
    case False
    show ?thesis unfolding eq if_not_P [OF False] snd_conv by (rule w1)
  qed
qed

lemma AddRecord_keeps:
  assumes "\<And>d f. P f \<Longrightarrow> P (snd (ap d f))" and "\<And>f. P f \<Longrightarrow> P (snd (fl f))" and "P (lw_dest w)"
  shows "P (lw_dest (snd (AddRecord ap fl w d)))"
  unfolding AddRecord_def using AddRecord_loop_keeps [of P ap fl w] assms by blast

text \<open>One record: what the file has accepted, where the writer stands and which files are touched.\<close>

definition log_at :: "posix_writable log_writer \<Rightarrow> bytes list \<Rightarrow> bool" where
  "log_at lg records \<longleftrightarrow> write_content (lw_dest lg) = layout 0 (log_frags 0 records) \<and>
     writes_at lg (length (layout 0 (log_frags 0 records)))"

lemma writes_at_with_dest [simp]: "writes_at (with_dest lg d) p \<longleftrightarrow> writes_at lg p"
  by (simp add: writes_at_def with_dest_def)

lemma with_dest_simps [simp]: "lw_dest (with_dest lg d) = d"
  by (simp add: with_dest_def)

lemma log_AddRecord_posix:
  assumes add: "log_AddRecord (PosixDbEnv k) lg data e = (s, lg', e')"
  shows "pw_filename (lw_dest lg') = pw_filename (lw_dest lg) \<and> (\<forall>g. g \<noteq> pw_filename (lw_dest lg) \<longrightarrow> fs_files e' g = fs_files e g) \<and>
    (ok s \<longrightarrow> log_at lg records \<longrightarrow> log_at lg' (records @ [data]))"
proof -
  let ?ap = "append_in (PosixDbEnv k)" and ?fl = "flush_in (PosixDbEnv k)" and ?name = "pw_filename (lw_dest lg)"
  let ?w = "with_dest lg (lw_dest lg, e)"
  obtain w' where w': "AddRecord ?ap ?fl ?w data = (s, w')" "lg' = with_dest w' (fst (lw_dest w'))" "e' = snd (lw_dest w')"
    using add by (auto simp: log_AddRecord_def split: prod.splits)
  let ?P = "\<lambda>f. pw_filename (fst f) = ?name \<and> (\<forall>g. g \<noteq> ?name \<longrightarrow> fs_files (snd f) g = fs_files e g)"
  have "?P (lw_dest (snd (AddRecord ?ap ?fl ?w data)))"
  proof (rule AddRecord_keeps)
    show "?P (snd (?ap d f))" if "?P f" for d f
      using that by (auto simp: append_in_def fs_Append_def PosixWritableFile_Append_def Let_def split: prod.splits if_splits)
    show "?P (snd (?fl f))" if "?P f" for f
      using that by (auto simp: flush_in_def fs_Flush_def PosixWritableFile_Flush_def Let_def split: prod.splits if_splits)
  qed simp
  moreover have "log_at lg' (records @ [data])" if "ok s" and at: "log_at lg records"
  proof -
    let ?p = "length (layout 0 (log_frags 0 records))"
    have records: "AddRecords ?ap ?fl ?w [data] = (Status_OK, w')" using w'(1) that(1) by simp
    have p: "layout_end 0 (log_frags 0 records) = ?p" by (simp add: length_layout)
    have "ok Status_OK" "writes_at ?w ?p" using at by (simp_all add: log_at_def)
    from logged.AddRecords_content [OF records this] at
    have "write_content (fst (lw_dest w')) = layout 0 (log_frags 0 records) @ layout ?p (log_frags ?p [data])"
      "writes_at w' (layout_end ?p (log_frags ?p [data]))"
      by (simp_all add: log_at_def case_prod_beta)
    then show ?thesis
      unfolding log_at_def w'(2) log_frags_append layout_append p by (simp add: length_layout layout_append p log_frags_append)
  qed
  ultimately show ?thesis using w' by simp
qed

text \<open>A successful sync leaves everything that was accepted in the file.\<close>

lemma fs_Sync_posix:
  assumes "fs_Sync k w e = (s, w', e')"
  shows "pw_filename w' = pw_filename w \<and> write_content w' = write_content w \<and>
    (\<forall>g. g \<noteq> pw_filename w \<longrightarrow> fs_files e' g = fs_files e g) \<and>
    (ok s \<longrightarrow> fs_files e' (pw_filename w) = Some (write_content w))"
  using assms
  by (auto simp: fs_Sync_def PosixWritableFile_Sync_def SyncDirIfManifest_def write_content_def Let_def
      fflush_unlocked_def split: prod.splits if_splits)

text \<open>The open MANIFEST has these records, and the file is the one of its number.\<close>

definition manifest_open :: "posix_writable version_set \<Rightarrow> bytes list \<Rightarrow> bool" where
  "manifest_open st records \<longleftrightarrow> (\<exists>lg. vs_descriptor_log st = Some lg \<and> log_at lg records \<and>
     pw_filename (lw_dest lg) = DescriptorFileName (vs_dbname st) (vs_manifest_file_number st))"

definition manifest_on_disk :: "fs \<Rightarrow> bytes \<Rightarrow> u64 \<Rightarrow> bytes list \<Rightarrow> bool" where
  "manifest_on_disk e dbname number records \<longleftrightarrow>
     fs_files e (CurrentFileName dbname) = Some (drop (length dbname + 1) (DescriptorFileName dbname number) @ [10]) \<and>
     fs_files e (DescriptorFileName dbname number) = Some (layout 0 (log_frags 0 records))"

lemma open_manifest_posix:
  assumes "open_manifest (PosixDbEnv k) st e = (s, name, st', e')" and "ok s"
  shows "case vs_descriptor_log st of
      Some lg \<Rightarrow> name = [] \<and> st' = st \<and> e' = e
    | None \<Rightarrow> name = DescriptorFileName (vs_dbname st) (vs_manifest_file_number st) \<and>
        manifest_open st' [VersionEdit_EncodeTo (snapshot_edit st) []]"
proof (cases "vs_descriptor_log st")
  case None
  let ?name = "DescriptorFileName (vs_dbname st) (vs_manifest_file_number st)"
  obtain s1 f e1 where new: "PosixEnv_NewWritableFile k ?name e = (s1, f, e1)" by (metis prod_cases3)
  then obtain w where w: "f = Some w" "pw_filename w = ?name" "write_content w = []"
    using assms None by (auto simp: open_manifest_def Let_def PosixEnv_NewWritableFile_def open_stream_def write_content_def
        env_IOError_def split: if_splits)
  obtain s2 lg e2 where snap: "WriteSnapshot (PosixDbEnv k) st (Writer w) e1 = (s2, lg, e2)" by (metis prod_cases3)
  have "log_at (Writer w) []"
    using w(3) writes_at_Writer [of w] by (simp add: log_at_def) (simp add: Writer_def)
  moreover have res: "s = s2" "name = ?name" "st' = st\<lparr>vs_descriptor_log := Some lg\<rparr>"
    using assms(1) None new w(1) snap by (auto simp: open_manifest_def Let_def)
  moreover have "lw_dest (Writer w) = w" by (simp add: Writer_def)
  ultimately have "log_at lg [VersionEdit_EncodeTo (snapshot_edit st) []]" "pw_filename (lw_dest lg) = ?name"
    using log_AddRecord_posix [OF snap [unfolded WriteSnapshot_def], of "[]"] assms(2) w(2) by simp_all
  then show ?thesis using None res by (simp add: manifest_open_def)
next
  case (Some lg)
  then show ?thesis using assms(1) by (simp add: open_manifest_def)
qed

lemma write_manifest_posix:
  assumes "write_manifest_record (PosixDbEnv k) data st e = (s, st', e')" and "ok s" and "manifest_open st records"
  defines "name \<equiv> DescriptorFileName (vs_dbname st) (vs_manifest_file_number st)"
  shows "manifest_open st' (records @ [data]) \<and> fs_files e' name = Some (layout 0 (log_frags 0 (records @ [data]))) \<and>
    (\<forall>g. g \<noteq> name \<longrightarrow> fs_files e' g = fs_files e g)"
proof -
  obtain lg where lg: "vs_descriptor_log st = Some lg" "log_at lg records" "pw_filename (lw_dest lg) = name"
    using assms(3) by (auto simp: manifest_open_def name_def)
  obtain s1 lg1 e1 where add: "log_AddRecord (PosixDbEnv k) lg data e = (s1, lg1, e1)" by (metis prod_cases3)
  obtain s2 w e2 where sync: "(if ok s1 then fs_Sync k (lw_dest lg1) e1 else (s1, lw_dest lg1, e1)) = (s2, w, e2)" by (metis prod_cases3)
  have res: "s = s2" "st' = st\<lparr>vs_descriptor_log := Some (with_dest lg1 w)\<rparr>" "e' = e2"
    using assms(1) lg(1) add sync by (auto simp: write_manifest_record_def split: if_splits)
  then have s1: "ok s1" using assms(2) sync by (auto split: if_splits)
  then have sync': "fs_Sync k (lw_dest lg1) e1 = (s2, w, e2)" using sync by simp
  note add' = log_AddRecord_posix [OF add, of records] and synced = fs_Sync_posix [OF sync']
  then have at: "log_at lg1 (records @ [data])" "pw_filename (lw_dest lg1) = name" using s1 lg by simp_all
  then have "log_at (with_dest lg1 w) (records @ [data])" using synced by (simp add: log_at_def)
  moreover have "fs_files e2 name = Some (layout 0 (log_frags 0 (records @ [data])))"
    using synced at assms(2) res(1) by (simp add: log_at_def)
  ultimately show ?thesis using res at synced add' lg(3) by (auto simp: manifest_open_def name_def)
qed

lemma DescriptorFileName_others:
  "DescriptorFileName db n \<noteq> CurrentFileName db" "DescriptorFileName db n \<noteq> TempFileName db m"
proof -
  show "DescriptorFileName db n \<noteq> CurrentFileName db" by (simp add: DescriptorFileName_def CurrentFileName_def str_def)
  have "is_digit (last (DescriptorFileName db n))"
    using decimal_digits [of "unat n"] decimal_nonempty [of "unat n"] by (simp add: DescriptorFileName_def decimal06_def)
  moreover have "last (TempFileName db m) = 112" by (simp add: TempFileName_def MakeFileName_def str_def)
  ultimately show "DescriptorFileName db n \<noteq> TempFileName db m" by (auto simp: is_digit_def)
qed

text \<open>What a successful call leaves on the disk.\<close>

lemma LogAndApply_posix:
  fixes st :: "posix_writable version_set"
  assumes call: "LogAndApply (PosixDbEnv k) edit st e = (s, st', e')" and s: "ok s"
    and build: "build_new_version (complete_edit st edit) st = (v, st1)"
    and fields: "vs_dbname st1 = vs_dbname st" "vs_manifest_file_number st1 = vs_manifest_file_number st" "vs_descriptor_log st1 = vs_descriptor_log st"
    and before: "case vs_descriptor_log st of None \<Rightarrow> records = [VersionEdit_EncodeTo (snapshot_edit st1) []]
      | Some lg \<Rightarrow> manifest_open st records \<and> manifest_on_disk e (vs_dbname st) (vs_manifest_file_number st) records"
  defines "records' \<equiv> records @ [VersionEdit_EncodeTo (complete_edit st edit) []]"
  shows "manifest_open st' records' \<and> manifest_on_disk e' (vs_dbname st) (vs_manifest_file_number st) records' \<and>
    vs_dbname st' = vs_dbname st \<and> vs_manifest_file_number st' = vs_manifest_file_number st"
proof -
  let ?data = "VersionEdit_EncodeTo (complete_edit st edit) []" and ?db = "vs_dbname st" and ?n = "vs_manifest_file_number st"
  let ?name = "DescriptorFileName ?db ?n"
  obtain s1 name st2 e1 where op: "open_manifest (PosixDbEnv k) st1 e = (s1, name, st2, e1)" by (metis prod_cases4)
  obtain s2 st3 e2 where wr: "(if ok s1 then write_manifest_record (PosixDbEnv k) ?data st2 e1 else (s1, st2, e1)) = (s2, st3, e2)"
    by (metis prod_cases3)
  obtain s3 e3 where cu: "(if ok s2 \<and> name \<noteq> [] then SetCurrentFile (PosixEnv k) (vs_dbname st3) (vs_manifest_file_number st3) e2
      else (s2, e2)) = (s3, e3)" by force
  have "s3 = s \<and> e' = e3 \<and> st' = (install_version v st3)\<lparr>vs_log_number := ve_log_number (complete_edit st edit),
      vs_prev_log_number := ve_prev_log_number (complete_edit st edit)\<rparr>"
    using call s op wr cu build unfolding LogAndApply_def
    by (simp add: Let_def split: if_splits prod.splits)
  then have s3: "ok s3" and e': "e' = e3" and st': "st' = (install_version v st3)\<lparr>vs_log_number := ve_log_number (complete_edit st edit),
      vs_prev_log_number := ve_prev_log_number (complete_edit st edit)\<rparr>" using s by simp_all
  have s2: "ok s2" using cu s3 by (auto simp: SetCurrentFile_def split: if_splits)
  then have s1: "ok s1" using wr by (auto split: if_splits)
  obtain d where st2: "st2 = st1\<lparr>vs_descriptor_log := d\<rparr>" using open_manifest_state [OF op] by blast
  then have same2: "vs_dbname st2 = ?db" "vs_manifest_file_number st2 = ?n" using fields by simp_all
  have opened: "manifest_open st2 records"
  proof (cases "vs_descriptor_log st")
    case None
    then show ?thesis using open_manifest_posix [OF op s1] before fields by simp
  next
    case (Some lg)
    then have "st2 = st1" "manifest_open st records" using open_manifest_posix [OF op s1] before fields by simp_all
    then show ?thesis using fields by (simp add: manifest_open_def)
  qed
  have wr': "write_manifest_record (PosixDbEnv k) ?data st2 e1 = (s2, st3, e2)" using wr s1 by simp
  from write_manifest_posix [OF wr' s2 opened]
  have written: "manifest_open st3 records'" "fs_files e2 ?name = Some (layout 0 (log_frags 0 records'))"
    "\<forall>g. g \<noteq> ?name \<longrightarrow> fs_files e2 g = fs_files e1 g" using same2 by (simp_all add: records'_def)
  obtain d3 where "st3 = st2\<lparr>vs_descriptor_log := d3\<rparr>" using write_manifest_state [OF wr'] by blast
  then have same3: "vs_dbname st3 = ?db" "vs_manifest_file_number st3 = ?n" using same2 by simp_all
  have more3: "version_heap.more (AppendVersion v (vs_current st3) st3) = version_heap.more st3" by simp
  note fields3 = more_fields [OF more3]
  have "manifest_open st' records'" using written(1) fields3 unfolding st' by (simp add: manifest_open_def install_version_def)
  moreover have "manifest_on_disk e3 ?db ?n records'"
  proof (cases "vs_descriptor_log st")
    case None
    then have "name \<noteq> []" using open_manifest_posix [OF op s1] fields by (simp add: DescriptorFileName_def str_def)
    then have "SetCurrentFile (PosixEnv k) ?db ?n e2 = (s3, e3)" using cu s2 same3 by simp
    from posix_env.set_current [OF this] s3
    show ?thesis using written(2) DescriptorFileName_others by (simp add: manifest_on_disk_def)
  next
    case (Some lg)
    then have "name = []" "e1 = e" using open_manifest_posix [OF op s1] fields by simp_all
    then have "e3 = e2" using cu by simp
    then show ?thesis
      using Some before written(2,3) \<open>e1 = e\<close> DescriptorFileName_others(1) [THEN not_sym] by (simp add: manifest_on_disk_def)
  qed
  ultimately show ?thesis using fields3 same3 unfolding st' e' by (simp add: install_version_def)
qed

subsection \<open>A new version set, and the property\<close>

lemma VersionSet_inv: "vset_inv (VersionSet dbname options ucmp :: 'w version_set) {#}" and VersionSet_levels: "current_levels (VersionSet dbname options ucmp :: 'w version_set) level = {}"
  and VersionSet_fields [simp]: "vs_dbname (VersionSet dbname options ucmp :: 'w version_set) = dbname"
    "vs_user_comparator (VersionSet dbname options ucmp :: 'w version_set) = ucmp"
    "vs_options (VersionSet dbname options ucmp :: 'w version_set) = options"
    "vs_compact_pointer (VersionSet dbname options ucmp :: 'w version_set) = (\<lambda>level. [])"
    "vs_descriptor_log (VersionSet dbname options ucmp :: 'w version_set) = None"
    "vs_current (VersionSet dbname options ucmp :: 'w version_set) = Some 0"
    "version_numbers (vh_files (VersionSet dbname options ucmp :: 'w version_set)) (vh_versions (VersionSet dbname options ucmp :: 'w version_set) 0) = {}"    "vs_log_number (VersionSet dbname options ucmp :: 'w version_set) = 0" "vs_prev_log_number (VersionSet dbname options ucmp :: 'w version_set) = 0"
    "vs_manifest_file_number (VersionSet dbname options ucmp :: 'w version_set) = 0"
proof -
  let ?st0 = "version_heap.extend empty_heap (version_set.fields dbname options ucmp 2 0 0 0 0 None None (\<lambda>level. [])) :: 'w version_set"
  obtain v st1 where create: "create_Version ?st0 = (v, st1)" by force
  have v: "v = 0" and st1: "st1 = ?st0\<lparr>vh_versions := (vh_versions ?st0)(0 := new_Version), vh_next_version := 1\<rparr>"
    using create by (auto simp: create_Version_def version_heap.extend_def empty_heap_def)
  have vs: "VersionSet dbname options ucmp = (install_version 0 st1 :: 'w version_set)" using create v by (simp add: VersionSet_def)
  have "heap_inv ?st0 [] {#} {#}" by (simp add: heap_inv_def refs_ok_def version_heap.extend_def empty_heap_def)
  then have heap1: "heap_inv st1 [0] {#} {#}" using create_Version_inv [OF _ create] v by blast
  have none: "vs_current st1 = None" by (simp add: st1 version_heap.extend_def version_set.fields_def)
  let ?st2 = "AppendVersion 0 None st1"
  have heap2: "heap_inv ?st2 [] {#} {#0#}" using AppendVersion_inv [of st1 0 "{#}" "{#}" None] heap1 by simp
  then have heap': "heap_inv (install_version 0 st1) [] {#} {#0#}"
    unfolding install_version_def none by (subst heap_inv_cong [of _ ?st2]) simp_all
  have empty: "v_files (vh_versions (install_version 0 st1 :: 'w version_set) 0) = (\<lambda>level. [])"
    unfolding install_version_def none
    by (simp add: AppendVersion_def Version_Ref_def set_version_refs_def st1 new_Version_def)
  have "version_heap.more ?st2 = version_heap.more st1" by simp
  note fields = more_fields [OF this]
  have cur: "vs_current (install_version 0 st1) = Some 0" by (simp add: install_version_def)
  show "vset_inv (VersionSet dbname options ucmp :: 'w version_set) {#}"
    unfolding vs vset_inv_def by (rule exI [of _ 0]) (use heap' cur empty in \<open>simp add: version_sorted_def\<close>)
  show "current_levels (VersionSet dbname options ucmp :: 'w version_set) level = {}"
    unfolding vs current_levels_def cur using empty by (simp add: stored_level_def)
  show "vs_current (VersionSet dbname options ucmp :: 'w version_set) = Some 0" unfolding vs by (rule cur)
  show "version_numbers (vh_files (VersionSet dbname options ucmp :: 'w version_set)) (vh_versions (VersionSet dbname options ucmp :: 'w version_set) 0) = {}"
    unfolding vs using empty by (simp add: version_numbers_def)
  show "vs_dbname (VersionSet dbname options ucmp :: 'w version_set) = dbname"
    "vs_user_comparator (VersionSet dbname options ucmp :: 'w version_set) = ucmp"
    "vs_options (VersionSet dbname options ucmp :: 'w version_set) = options"
    "vs_compact_pointer (VersionSet dbname options ucmp :: 'w version_set) = (\<lambda>level. [])"
    "vs_descriptor_log (VersionSet dbname options ucmp :: 'w version_set) = None"
    "vs_log_number (VersionSet dbname options ucmp :: 'w version_set) = 0" "vs_prev_log_number (VersionSet dbname options ucmp :: 'w version_set) = 0"
    "vs_manifest_file_number (VersionSet dbname options ucmp :: 'w version_set) = 0"
    unfolding vs install_version_def none using fields by (simp_all add: st1 version_heap.extend_def version_set.fields_def)
qed

text \<open>
  Claim C12. \<^verbatim>\<open>VersionSet::LogAndApply\<close> is atomic on any environment: when it returns an error the files of every level and
  the log numbers are those of before, and when it succeeds they are what the edit says. Either way
  every version that an iterator or a compaction still holds keeps its files, and the reference counts
  and the order of the files are right.
\<close>

theorem log_and_apply_atomic:
  fixes st :: "'w version_set"
  assumes "user_comparator (vs_cmp st) Separator Successor" and "vset_inv st others" and "edit_fits edit st"
    and "LogAndApply env edit st e = (s, st', e')"
  shows "vset_inv st' others \<and>
    (\<forall>level < kNumLevels. current_levels st' level = (if ok s then edit_level edit level (current_levels st level) else current_levels st level)) \<and>
    (\<forall>u \<in># others. \<forall>level < kNumLevels.
      stored_level (vh_files st') (v_files (vh_versions st' u) level) = stored_level (vh_files st) (v_files (vh_versions st u) level)) \<and>
    vs_log_number st' = (if ok s \<and> ve_has_log_number edit then ve_log_number edit else vs_log_number st) \<and>
    vs_prev_log_number st' = (if ok s \<and> ve_has_prev_log_number edit then ve_prev_log_number edit else vs_prev_log_number st)"
  using LogAndApply_inv [OF assms] by blast

lemma LogAndApply_no_file:
  fixes st :: "posix_writable version_set"
  assumes "user_comparator (vs_cmp st) Separator Successor" and "vset_inv st others" and "edit_fits edit st"
    and "vs_descriptor_log st = None" and "\<And>n. k_fail k n" and "LogAndApply (PosixDbEnv k) edit st e = (s, st', e')"
  shows "\<not> ok s"
proof -
  obtain v st1 where build: "build_new_version (complete_edit st edit) st = (v, st1)" by force
  have fits: "edit_fits (complete_edit st edit) st" using assms(3) by simp
  have "version_heap.more st1 = version_heap.more (st\<lparr>vs_compact_pointer := apply_pointers edit (vs_compact_pointer st)\<rparr>)"
    using build_new_version_inv [OF assms(1,2) fits build] by simp
  then have none: "vs_descriptor_log st1 = None" using more_fields(9) assms(4) by force
  have "\<exists>name e1. open_manifest (PosixDbEnv k) st1 e = (env_IOError k name e, name, st1, e1)"
    unfolding open_manifest_def none by (simp add: Let_def PosixEnv_NewWritableFile_def call_fails_def assms(5))
  then obtain name e1 where "open_manifest (PosixDbEnv k) st1 e = (env_IOError k name e, name, st1, e1)" by blast
  moreover have "\<not> ok (env_IOError k name e)" by (simp add: env_IOError_def)
  ultimately show ?thesis
    using assms(6) build unfolding LogAndApply_def by (auto simp: Let_def split: if_splits prod.splits)
qed

definition bad_kernel :: kernel where
  "bad_kernel = good_kernel\<lparr>k_fail := \<lambda>n. True\<rparr>"

lemma first_edit_fits: "edit_fits (hd two_edits) (VersionSet dbname options BytewiseComparator :: 'w version_set)"
proof -
  have "edit_files_ok BytewiseCompare (hd two_edits)" "distinct (edit_numbers (hd two_edits))" by code_simp+
  moreover have "cmp_Compare BytewiseComparator = BytewiseCompare" by (simp add: BytewiseComparator_def)
  ultimately show ?thesis by (simp add: edit_fits_def)
qed

theorem log_and_apply_atomic_witness:
  "\<exists>s st' e'. LogAndApply (PosixDbEnv bad_kernel) (hd two_edits) (VersionSet (str ''db'') Options BytewiseComparator) empty_fs = (s, st', e') \<and>
     \<not> ok s \<and> vset_inv st' {#} \<and> current_levels st' 1 = {}"
proof -
  let ?st = "VersionSet (str ''db'') Options BytewiseComparator :: posix_writable version_set"
  obtain s st' e' where call: "LogAndApply (PosixDbEnv bad_kernel) (hd two_edits) ?st empty_fs = (s, st', e')" by (metis prod_cases3)
  have "user_comparator (vs_cmp ?st) FindShortestSeparator FindShortSuccessor"
    using bytewise.user_comparator_axioms by (simp add: BytewiseComparator_def)
  note atomic = log_and_apply_atomic [OF this VersionSet_inv first_edit_fits call]
  have "\<not> ok s" by (rule LogAndApply_no_file [OF _ VersionSet_inv first_edit_fits VersionSet_fields(5) _ call])
      (use bytewise.user_comparator_axioms in \<open>simp_all add: BytewiseComparator_def bad_kernel_def\<close>)
  moreover have "current_levels st' 1 = current_levels ?st 1" using atomic \<open>\<not> ok s\<close> by (simp add: kNumLevels_def)
  ultimately show ?thesis using call atomic VersionSet_levels by blast
qed

end
