(* ===== verification/LDB_RecoverSpec.thy ===== *)
theory LDB_RecoverSpec
  imports LDB_VersionSetSpec
begin

text \<open>
  What \<^verbatim>\<open>VersionSet::Recover\<close> rebuilds from the \<^verbatim>\<open>MANIFEST\<close> that \<^verbatim>\<open>LogAndApply\<close> wrote
  (\<^verbatim>\<open>db/version_set.cc\<close>): the records come back one by one, every edit is applied to the
  builder, and the version that is installed has the files the writing set had.
\<close>

subsection \<open>Reading the MANIFEST\<close>

text \<open>What the loop of \<^verbatim>\<open>Recover\<close> does with a list of records, up to the first one that it cannot use.\<close>

fun recover_records ::
    "bytes list \<Rightarrow> status \<times> recovered \<times> (nat \<Rightarrow> bytes) \<times> builder \<times> 'w version_set \<Rightarrow>
     status \<times> recovered \<times> (nat \<Rightarrow> bytes) \<times> builder \<times> 'w version_set" where
  "recover_records [] state = state"
| "recover_records (data # records) state =
     (if ok (fst state) then recover_records records (recover_record data state) else state)"

context sequential_file
begin

lemma recover_loop_records:
  assumes "stands p r (layout p (log_frags p records))" and "lr_reporter r = Some []"
  shows "recover_loop rd skip (r, state) = Some (recover_records records state)"
  using assms
proof (induction records arbitrary: p r state)
  case Nil
  then obtain r' where "ReadPhysicalRecord rd r [] = (kEof, [], r')" "lr_reporter r' = lr_reporter r"
    using Read_nothing [of p r "[]"] by auto
  moreover have "\<not> lr_resyncing r" "lr_initial_offset r = 0" using Nil by (simp_all add: stands_def)
  ultimately obtain r'' where "ReadRecord rd skip r = Some (None, r'')" "lr_reporter r'' = lr_reporter r"
    using round_eof [of r "[]" r' "[]" False 0] loop_Return ReadRecord_no_skip by metis
  then show ?case using Nil by (subst recover_loop.simps) (cases state, simp add: reported_def)
next
  case (Cons x xs)
  let ?fs = "frags p x True" and ?q = "layout_end p (frags p x True)"
  let ?L = "length (layout p ?fs)" and ?m = "length (layout p (log_frags p (x # xs)))"
  have fits: "fits p (?fs @ log_frags ?q xs)" by (simp add: fits_append fits_frags fits_log_frags)
  have stands: "stands p r (take ?m (layout p (?fs @ log_frags ?q xs)))" using Cons.prems(1) by simp
  have m: "?m = ?L + length (layout ?q (log_frags ?q xs))" by (simp add: layout_append)
  from Read_logical [OF stands fits, of "[]" 0 "[]"]
  obtain r1 where r1: "lr_reporter r1 = Some []" "ReadRecord_loop rd r [] False 0 [] = Some (Some x, r1)"
      "stands ?q r1 (layout ?q (log_frags ?q xs))"
    using m Cons.prems(2) by auto
  have "ReadRecord rd skip r = ReadRecord_loop rd r [] False 0 []"
    using Cons.prems by (simp add: ReadRecord_no_skip stands_def)
  then show ?case
    using r1 Cons.IH [OF r1(3,1)] by (subst recover_loop.simps) (cases state, simp add: reported_def)
qed

end

lemma recover_record_edit:
  assumes d: "edit_ok d" "ve_has_comparator d \<longrightarrow> ve_comparator d = cmp_Name (vs_user_comparator st)"
  shows "recover_record (VersionEdit_EncodeTo d []) (Status_OK, rc, cp, b, st) =
    (Status_OK, note_edit (stored_edit d) rc, Builder_Apply (vs_icmp st) (stored_edit d) (cp, b, st))"
proof -
  have "VersionEdit_DecodeFrom (VersionEdit_EncodeTo d []) new_VersionEdit = (Status_OK, stored_edit d)"
    using DecodeFrom_EncodeTo [OF d(1), of new_VersionEdit] by (simp add: new_VersionEdit_def stored_edit_def)
  moreover have "ve_has_comparator (stored_edit d) = ve_has_comparator d" "ve_has_comparator d \<Longrightarrow> ve_comparator (stored_edit d) = ve_comparator d"
    by (simp_all add: stored_edit_def)
  ultimately show ?thesis using d(2) by (cases "ve_has_comparator d") (simp_all add: recover_record_def)
qed

lemma recover_records_edits:
  fixes st :: "'w version_set"
  assumes "\<forall>d \<in> set ds. edit_ok d \<and> (ve_has_comparator d \<longrightarrow> ve_comparator d = cmp_Name (vs_user_comparator st))"
  shows "recover_records (map (\<lambda>d. VersionEdit_EncodeTo d []) ds) (Status_OK, rc, cp, b, st) =
    (Status_OK, fold note_edit (map stored_edit ds) rc, fold (Builder_Apply (vs_icmp st)) (map stored_edit ds) (cp, b, st))"
  using assms
proof (induction ds arbitrary: rc cp b st)
  case (Cons d ds)
  obtain cp1 b1 st1 where app: "Builder_Apply (vs_icmp st) (stored_edit d) (cp, b, st) = (cp1, b1, st1)" by (metis prod_cases3)
  have "vs_user_comparator st1 = vs_user_comparator st" using more_fields(3) [OF more_Builder_Apply [OF app]] .
  then show ?case using Cons app recover_record_edit [of d st rc cp b] by simp
qed simp

lemma stored_edit_simps [simp]:
  "edit_level (stored_edit d) = edit_level d" "edit_numbers (stored_edit d) = edit_numbers d"
  "edit_files_ok cmp (stored_edit d) = edit_files_ok cmp d" "apply_pointers (stored_edit d) = apply_pointers d"
proof -
  have idem: "stored_file (stored_file f) = stored_file f" for f by (simp add: stored_file_def new_FileMetaData_def)
  show "edit_level (stored_edit d) = edit_level d"
  proof (intro ext)
    fix level S
    let ?new = "\<lambda>d. {stored_file f |f. (level, f) \<in> set (ve_new_files d)}"
    have "x \<in> ?new d" if x: "x \<in> ?new (stored_edit d)" for x
    proof -
      obtain f where "(level, f) \<in> set (ve_new_files d)" "x = stored_file (stored_file f)" using x by (auto simp: stored_edit_def)
      then show ?thesis using idem by auto
    qed
    moreover have "x \<in> ?new (stored_edit d)" if x: "x \<in> ?new d" for x
    proof -
      obtain f where f: "(level, f) \<in> set (ve_new_files d)" "x = stored_file f" using x by auto
      then have "(level, stored_file f) \<in> set (ve_new_files (stored_edit d))" by (force simp: stored_edit_def)
      then show ?thesis using f(2) idem [of f] by (intro CollectI exI [of _ "stored_file f"] conjI) simp_all
    qed
    ultimately have "?new (stored_edit d) = ?new d" by blast
    then show "edit_level (stored_edit d) level S = edit_level d level S" by (simp add: edit_level_def) (simp add: stored_edit_def)
  qed
  show "edit_numbers (stored_edit d) = edit_numbers d" by (simp add: edit_numbers_def stored_edit_def case_prod_beta)
  show "edit_files_ok cmp (stored_edit d) = edit_files_ok cmp d" by (auto simp: edit_files_ok_def stored_edit_def)
  show "apply_pointers (stored_edit d) = apply_pointers d" by (simp add: fun_eq_iff apply_pointers_def stored_edit_def)
qed

lemma ReuseManifest_frame:
  assumes "ReuseManifest env dscname dscbase st e = (r, st', e')"
  shows "\<exists>d n. st' = st\<lparr>vs_descriptor_log := d, vs_manifest_file_number := n\<rparr>"
proof -
  have "st' = st \<or> (\<exists>d n. st' = st\<lparr>vs_descriptor_log := d, vs_manifest_file_number := n\<rparr>)"
    using assms by (auto simp: ReuseManifest_def Let_def split: if_splits option.splits prod.splits FileType.splits)
  moreover have "st = st\<lparr>vs_descriptor_log := vs_descriptor_log st, vs_manifest_file_number := vs_manifest_file_number st\<rparr>" by simp
  ultimately show ?thesis by metis
qed

subsection \<open>Recovery\<close>

definition healthy_kernel :: "kernel \<Rightarrow> bool" where
  "healthy_kernel k \<longleftrightarrow> (\<forall>n. \<not> k_fail k n \<and> k_bad_read k n = None)"

lemma open_healthy:
  assumes "healthy_kernel k" and "fs_files e f = Some data"
  shows "\<exists>file. PosixEnv_NewSequentialFile k f e = (Status_OK, Some file, tick e) \<and> seq_remaining file = data \<and> seq_healthy file"
  using assms by (simp add: healthy_kernel_def PosixEnv_NewSequentialFile_def call_fails_def seq_remaining_def seq_healthy_def)

lemma read_healthy:
  assumes "healthy_kernel k" and "fs_files e f = Some data"
  shows "\<exists>s. ReadFileToString (PosixEnv k) f e = Some (s, data, tick e) \<and> ok s"
proof -
  obtain sq where sq: "PosixEnv_NewSequentialFile k f e = (Status_OK, Some sq, tick e)" "seq_remaining sq = data" "seq_healthy sq"
    using open_healthy [OF assms] by blast
  then show ?thesis using posix_seq.ReadFile_loop_returns [of "[]" sq] by (auto simp: ReadFileToString_def)
qed

definition nothing_recovered :: recovered where
  "nothing_recovered = \<lparr>rc_log_number = None, rc_prev_log_number = None, rc_next_file = None, rc_last_sequence = None\<rparr>"

text \<open>The version that is installed from what was collected.\<close>

lemma install_recovered_inv:
  fixes st :: "'w version_set"
  assumes uc: "user_comparator (vs_cmp st) Separator Successor" and heap: "heap_inv st [] (builder_files b + {#}) (add_mset c (add_mset c others))"
    and cur: "vs_current st = Some c" "bd_base b = c" and inv: "builder_inv (vs_cmp st) st b (v_files (vh_versions st c)) used S"
    and sorted: "version_sorted (vs_cmp st) (vh_files st) (vh_versions st c)"
    and install: "install_recovered env dscname current rc b st e = (save, st', e')"
  shows "vset_inv (Builder_delete b st') others \<and>
    (\<forall>level < kNumLevels. current_levels (Builder_delete b st') level = S level) \<and>
    vs_next_file_number st' = or_zero (rc_next_file rc) + 1 \<and> vs_last_sequence st' = or_zero (rc_last_sequence rc) \<and>
    vs_log_number st' = or_zero (rc_log_number rc) \<and> vs_prev_log_number st' = or_zero (rc_prev_log_number rc) \<and>
    vs_compact_pointer st' = vs_compact_pointer st"
proof -
  obtain v st1 where create: "create_Version st = (v, st1)" by force
  note cv = create_Version_data [OF heap create]
  have listed: "c \<in> set (vh_list st)" using heap by (auto simp: heap_inv_def)
  have curv: "c \<noteq> v" using listed cv(1) by auto
  have current: "vh_versions st1 c = vh_versions st c" by (rule cv(6) [OF curv])
  have heap1: "heap_inv st1 [v] (builder_files b + {#}) (add_mset c (add_mset c others))" by (rule create_Version_inv [OF heap create])
  have inv1: "builder_inv (vs_cmp st) st1 b (v_files (vh_versions st1 (bd_base b))) used S"
    using inv cv(2,4) cur(2) current by (simp add: builder_inv_def)
  have "sorted_wrt (BySmallestKey (vs_icmp st) (vh_files st1)) (v_files (vh_versions st1 (bd_base b)) level)" if "level < kNumLevels" for level
    using sorted that cv(2) cur(2) current by (simp add: version_sorted_def)
  note save = user_comparator.SaveTo_saves [OF uc inv1 heap1 _ this cv(5)]
  let ?st2 = "SaveTo (vs_icmp st) b v st1"
  let ?st3 = "Finalize v ?st2"
  have saved: "heap_inv ?st2 [v] (builder_files b + {#}) (add_mset c (add_mset c others))"
    "version_sorted (vs_cmp st) (vh_files ?st2) (vh_versions ?st2 v)"
    "\<And>level. level < kNumLevels \<Longrightarrow> stored_level (vh_files ?st2) (v_files (vh_versions ?st2 v) level) = S level"
    using save cur(2) listed cv(3) by simp_all
  have "version_heap.more st1 = version_heap.more st" using more_builder_ops(4) [of st] create by simp
  then have more3: "version_heap.more ?st3 = version_heap.more st" by simp
  note fields3 = more_fields [OF more3]
  have heap3: "heap_inv ?st3 [v] (builder_files b + {#}) (add_mset c (add_mset c others))" using saved(1) by simp
  have sorted3: "version_sorted (vs_cmp ?st3) (vh_files ?st3) (vh_versions ?st3 v)" using saved(2) fields3 by simp
  have cur3: "vs_current ?st3 = Some c" using fields3 cur(1) by simp
  note inst = install_version_inv [OF heap3 cur3 sorted3]
  let ?st4 = "install_version v ?st3"
  have f4: "vs_compact_pointer ?st4 = vs_compact_pointer st" "vs_icmp st1 = vs_icmp st" "vs_user_comparator ?st4 = vs_user_comparator st"
  proof -
    have "version_heap.more (AppendVersion v (vs_current ?st3) ?st3) = version_heap.more ?st3" by simp
    note more_fields [OF this]
    then show "vs_compact_pointer ?st4 = vs_compact_pointer st" "vs_user_comparator ?st4 = vs_user_comparator st"
      using fields3 by (simp_all add: install_version_def)
    show "vs_icmp st1 = vs_icmp st" using more_fields(3) [OF \<open>version_heap.more st1 = version_heap.more st\<close>] by simp
  qed
  let ?st5 = "?st4\<lparr>vs_manifest_file_number := or_zero (rc_next_file rc), vs_next_file_number := or_zero (rc_next_file rc) + 1,
     vs_last_sequence := or_zero (rc_last_sequence rc), vs_log_number := or_zero (rc_log_number rc),
     vs_prev_log_number := or_zero (rc_prev_log_number rc)\<rparr>"
  obtain reused where reuse: "ReuseManifest env dscname current ?st5 e = (reused, st', e')"
    using install create f4(2) by (auto simp: install_recovered_def Let_def split: prod.splits)
  obtain d n where st': "st' = ?st5\<lparr>vs_descriptor_log := d, vs_manifest_file_number := n\<rparr>" using ReuseManifest_frame [OF reuse] by blast
  have "heap_inv st' [] (builder_files b + {#}) (add_mset v (add_mset c others)) \<longleftrightarrow>
      heap_inv ?st4 [] (builder_files b + {#}) (add_mset v (add_mset c others))"
    unfolding st' by (rule heap_inv_cong) simp_all
  then have "heap_inv st' [] (builder_files b + {#}) (add_mset (bd_base b) (add_mset v others))"
    using inst cur(2) by (simp add: add_mset_commute)
  then have heap': "heap_inv (Builder_delete b st') [] {#} (add_mset v others)" by (rule Builder_delete_inv)
  have data: "same_data st' (Builder_delete b st')" by (rule Builder_delete_data)
  have "version_heap.more (Builder_delete b st') = version_heap.more st'" by simp
  note fields' = more_fields [OF this]
  have same4: "vh_files st' = vh_files ?st4" "vh_versions st' = vh_versions ?st4" "vs_current st' = Some v"
    "vs_user_comparator st' = vs_user_comparator st"
    using inst f4 by (simp_all add: st')
  have "version_sorted (vs_cmp st) (vh_files st') (vh_versions st' v)" using inst same4 fields3 by simp
  then have "version_sorted (vs_cmp st) (vh_files (Builder_delete b st')) (vh_versions (Builder_delete b st') v)"
    using version_sorted_data [OF data] by blast
  then have "vset_inv (Builder_delete b st') others" using heap' fields' same4 by (simp add: vset_inv_def)
  moreover have "current_levels (Builder_delete b st') level = S level" if "level < kNumLevels" for level
  proof -
    have "data_of (vh_files (Builder_delete b st')) = data_of (vh_files st')"
      "v_files (vh_versions (Builder_delete b st') v) = v_files (vh_versions st' v)" using data by (simp_all add: same_data_def)
    then have "stored_level (vh_files (Builder_delete b st')) (v_files (vh_versions (Builder_delete b st') v) level) =
        stored_level (vh_files st') (v_files (vh_versions st' v) level)"
      using stored_level_data [of "vh_files (Builder_delete b st')" "vh_files st'"] by metis
    also have "\<dots> = stored_level (vh_files ?st4) (v_files (vh_versions ?st4 v) level)" unfolding same4(1,2) ..
    also have "\<dots> = current_levels ?st4 level" unfolding current_levels_def using inst by simp
    also have "\<dots> = S level" using inst saved(3) [OF that] by simp
    finally show ?thesis unfolding current_levels_def using fields' same4(3) by simp
  qed
  ultimately show ?thesis using f4 by (simp add: st')
qed

lemma note_stored_edit [simp]: "note_edit (stored_edit d) = note_edit d"
  by (auto simp: fun_eq_iff note_edit_def stored_edit_def)

lemma fold_stored_edits [simp]:
  "fold note_edit (map stored_edit ds) = fold note_edit ds" "fold apply_pointers (map stored_edit ds) = fold apply_pointers ds"
  "fold (\<lambda>d. edit_level d level) (map stored_edit ds) = fold (\<lambda>d. edit_level d level) ds"
  by (induction ds) simp_all

lemma MarkFileNumberUsed_state: "\<exists>n. MarkFileNumberUsed number st = st\<lparr>vs_next_file_number := n\<rparr>"
  by (cases "vs_next_file_number st \<le> number") (auto simp: MarkFileNumberUsed_def intro: exI [of _ "vs_next_file_number st"])

lemma MarkFileNumbersUsed_state: "\<exists>n. MarkFileNumberUsed number (MarkFileNumberUsed number' st) = st\<lparr>vs_next_file_number := n\<rparr>"
proof -
  obtain n where "MarkFileNumberUsed number' st = st\<lparr>vs_next_file_number := n\<rparr>" using MarkFileNumberUsed_state by blast
  moreover obtain m where "MarkFileNumberUsed number (st\<lparr>vs_next_file_number := n\<rparr>) = (st\<lparr>vs_next_file_number := n\<rparr>)\<lparr>vs_next_file_number := m\<rparr>"
    using MarkFileNumberUsed_state by blast
  ultimately show ?thesis by auto
qed

text \<open>The edits of the records are what the builder has collected when the end of the file is reached.\<close>

lemma recover_loop_posix:
  fixes st :: "'w version_set"
  assumes "seq_healthy sq" and "seq_remaining sq = layout 0 (log_frags 0 (map (\<lambda>d. VersionEdit_EncodeTo d []) ds))"
    and "\<forall>d \<in> set ds. edit_ok d \<and> (ve_has_comparator d \<longrightarrow> ve_comparator d = cmp_Name (vs_user_comparator st))"
  shows "recover_loop PosixSequentialFile_Read PosixSequentialFile_Skip (Reader sq True True 0, Status_OK, rc, cp, b, st) =
    Some (Status_OK, fold note_edit ds rc, fold (Builder_Apply (vs_icmp st)) (map stored_edit ds) (cp, b, st))"
proof -
  have "posix_seq.stands 0 (Reader sq True True 0) (layout 0 (log_frags 0 (map (\<lambda>d. VersionEdit_EncodeTo d []) ds)))"
    using posix_seq.stands_initial [OF assms(1)] assms(2) by simp
  moreover have "lr_reporter (Reader sq True True 0) = Some []" by (simp add: Reader_def)
  ultimately show ?thesis
    using posix_seq.recover_loop_records recover_records_edits [OF assms(3)] by (metis fold_stored_edits(1))
qed

lemma recover_posix:
  fixes st :: "posix_writable version_set"
  assumes uc: "user_comparator (vs_cmp st) Separator Successor" and inv: "vset_inv st others" and kernel: "healthy_kernel k"
    and disk: "manifest_on_disk e (vs_dbname st) number (map (\<lambda>d. VersionEdit_EncodeTo d []) ds)"
    and ds: "\<forall>d \<in> set ds. edit_ok d \<and> (ve_has_comparator d \<longrightarrow> ve_comparator d = cmp_Name (vs_user_comparator st)) \<and> edit_files_ok (vs_cmp st) d"
    and numbers: "distinct (concat (map edit_numbers ds))"
      "version_numbers (vh_files st) (current_version st) \<inter> set (concat (map edit_numbers ds)) = {}"
  defines "rc \<equiv> fold note_edit ds nothing_recovered"
  assumes complete: "check_recovered rc = Status_OK"
  shows "\<exists>save st' e'. Recover (PosixDbEnv k) st e = Some (Status_OK, save, st', e') \<and> vset_inv st' others \<and>
    (\<forall>level < kNumLevels. current_levels st' level = fold (\<lambda>d. edit_level d level) ds (current_levels st level)) \<and>
    vs_next_file_number st' = or_zero (rc_next_file rc) + 1 \<and> vs_last_sequence st' = or_zero (rc_last_sequence rc) \<and>
    vs_log_number st' = or_zero (rc_log_number rc) \<and> vs_prev_log_number st' = or_zero (rc_prev_log_number rc)"
proof -
  let ?manifest = "DescriptorFileName (vs_dbname st) number" and ?icmp = "vs_icmp st"
  let ?current = "drop (length (vs_dbname st) + 1) ?manifest"
  let ?layout = "layout 0 (log_frags 0 (map (\<lambda>d. VersionEdit_EncodeTo d []) ds))"
  have files: "fs_files e (CurrentFileName (vs_dbname st)) = Some (?current @ [10])" "fs_files (tick e) ?manifest = Some ?layout"
    using disk by (simp_all add: manifest_on_disk_def)
  obtain s where read: "ReadFileToString (PosixEnv k) (CurrentFileName (vs_dbname st)) e = Some (s, ?current @ [10], tick e)" "ok s"
    using read_healthy [OF kernel files(1)] by blast
  obtain sq where sq: "PosixEnv_NewSequentialFile k ?manifest (tick e) = (Status_OK, Some sq, tick (tick e))"
    "seq_remaining sq = ?layout" "seq_healthy sq" using open_healthy [OF kernel files(2)] by blast
  have name: "vs_dbname st @ str ''/'' @ ?current = ?manifest" by (simp add: DescriptorFileName_def str_def)
  obtain c where c: "vs_current st = Some c" "heap_inv st [] {#} (add_mset c others)" "version_sorted (vs_cmp st) (vh_files st) (vh_versions st c)"
    using inv by (auto simp: vset_inv_def)
  have cur: "c \<in> set (vh_list st)" using c(2) by (auto simp: heap_inv_def)
  obtain b st1 where builder: "Builder c st = (b, st1)" by force
  note init = Builder_inv [OF c(2) cur c(3) builder, unfolded c]
  have "version_heap.more st1 = version_heap.more st" using more_builder_ops(3) [of c st] builder by simp
  note f1 = more_fields [OF this]
  obtain cp b' st2 where app: "fold (Builder_Apply ?icmp) (map stored_edit ds) (vs_compact_pointer st, b, st1) = (cp, b', st2)"
    by (metis prod_cases3)
  have loop: "recover_loop PosixSequentialFile_Read PosixSequentialFile_Skip
      (Reader sq True True 0, Status_OK, nothing_recovered, vs_compact_pointer st, b, st1) = Some (Status_OK, rc, cp, b', st2)"
    using recover_loop_posix [OF sq(3,2), of st1] ds f1 app by (simp add: rc_def)
  have edits: "\<forall>d \<in> set (map stored_edit ds). edit_files_ok (vs_cmp st) d" "distinct (concat (map edit_numbers (map stored_edit ds)))"
    "version_numbers (vh_files st) (vh_versions st c) \<inter> set (concat (map edit_numbers (map stored_edit ds))) = {}"
    using ds numbers c(1) by (simp_all add: o_def)
  have b1: "builder_inv (vs_cmp st) st1 b (v_files (vh_versions st c)) (version_numbers (vh_files st) (vh_versions st c))
      (\<lambda>level. stored_level (vh_files st) (v_files (vh_versions st c) level))" and base: "bd_base b = c"
    and heap1: "heap_inv st1 [] (builder_files b + {#}) (add_mset c (add_mset c others))"
    using init by blast+
  from user_comparator.Builder_Applies_inv [OF uc b1 heap1 edits app] base
  have applied: "cp = fold apply_pointers ds (vs_compact_pointer st)"
    "builder_inv (vs_cmp st) st2 b' (v_files (vh_versions st c))
      (version_numbers (vh_files st) (vh_versions st c) \<union> set (concat (map edit_numbers (map stored_edit ds))))
      (\<lambda>level. fold (\<lambda>d. edit_level d level) ds (stored_level (vh_files st) (v_files (vh_versions st c) level)))"
    "heap_inv st2 [] (builder_files b' + {#}) (add_mset c (add_mset c others))" "same_versions st1 st2" "bd_base b' = c"
    by simp_all
  have more2: "version_heap.more st2 = version_heap.more st"
  proof -
    have "version_heap.more (snd (snd (fold (Builder_Apply ?icmp) es (cp0, b0, st0)))) = version_heap.more st0" for es cp0 b0 and st0 :: "posix_writable version_set"
    proof (induction es arbitrary: cp0 b0 st0)
      case (Cons d es)
      obtain cp1 b1 st1 where one: "Builder_Apply ?icmp d (cp0, b0, st0) = (cp1, b1, st1)" by (metis prod_cases3)
      then show ?case using Cons more_Builder_Apply [OF one] by simp
    qed simp
    from this [of "map stored_edit ds" "vs_compact_pointer st" b st1] show ?thesis
      using app \<open>version_heap.more st1 = version_heap.more st\<close> by simp
  qed
  note f2 = more_fields [OF more2]
  have kept: "old_kept st st2"
  proof -
    have "stored_file (vh_files st2 p) = stored_file (vh_files st p)" if "p < vh_next_file st" for p
    proof -
      have "vh_files st2 p = vh_files st1 p" using applied(4) init that by (simp add: same_versions_def same_data_def)
      then show ?thesis using init stored_file_data [of "vh_files st1" "vh_files st" p] by (simp add: same_data_def)
    qed
    then show ?thesis using init applied(4) by (simp add: old_kept_def same_versions_def same_data_def)
  qed
  obtain n where mark: "MarkFileNumberUsed (or_zero (rc_log_number rc)) (MarkFileNumberUsed (or_zero (rc_prev_log_number rc)) (st2\<lparr>vs_compact_pointer := cp\<rparr>)) =
      st2\<lparr>vs_compact_pointer := cp, vs_next_file_number := n\<rparr>"
    using MarkFileNumbersUsed_state by blast
  let ?st3 = "st2\<lparr>vs_compact_pointer := cp, vs_next_file_number := n\<rparr>"
  obtain save st4 e4 where install: "install_recovered (PosixDbEnv k) ?manifest ?current rc b' ?st3 (tick (tick e)) = (save, st4, e4)"
    by (metis prod_cases3)
  have heap3: "heap_inv ?st3 [] (builder_files b' + {#}) (add_mset c (add_mset c others))"
    using applied(3) by (subst heap_inv_cong [of _ st2]) simp_all
  have sorted3: "version_sorted (vs_cmp ?st3) (vh_files ?st3) (vh_versions ?st3 c)"
    using old_kept_version(2) [OF kept c(2) cur c(3)] f2 by simp
  have builder3: "builder_inv (vs_cmp ?st3) ?st3 b' (v_files (vh_versions ?st3 c))
      (version_numbers (vh_files st) (vh_versions st c) \<union> set (concat (map edit_numbers (map stored_edit ds))))
      (\<lambda>level. fold (\<lambda>d. edit_level d level) ds (stored_level (vh_files st) (v_files (vh_versions st c) level)))"
    using applied(2) kept cur f2 by (simp add: builder_inv_def old_kept_def)
  have uc3: "user_comparator (vs_cmp ?st3) Separator Successor" and cur3: "vs_current ?st3 = Some c" using uc f2 c(1) by simp_all
  note installed = install_recovered_inv [OF uc3 heap3 cur3 applied(5) builder3 sorted3 install]
  have "Recover (PosixDbEnv k) st e = Some (Status_OK, save, Builder_delete b' st4, e4)"
    using read sq(1) name builder loop mark install complete c(1) f1(11)
    by (simp add: Recover_def nothing_recovered_def)
  moreover have "version_heap.more (Builder_delete b' st4) = version_heap.more st4" by simp
  note f4 = more_fields [OF this]
  ultimately show ?thesis using installed f4 c(1) by (simp add: current_levels_def)
qed

subsection \<open>What the MANIFEST holds\<close>

lemma fold_SetCompactPointer:
  "fold (\<lambda>level edit. if P level then SetCompactPointer level (ptr level) edit else edit) levels edit =
    edit\<lparr>ve_compact_pointers := ve_compact_pointers edit @ map (\<lambda>level. (level, ptr level)) (filter P levels)\<rparr>"
  by (induction levels arbitrary: edit) (simp_all add: SetCompactPointer_def)

lemma AddFile_stored:
  "AddFile level (fm_number f) (fm_file_size f) (fm_smallest f) (fm_largest f) edit = edit\<lparr>ve_new_files := ve_new_files edit @ [(level, stored_file f)]\<rparr>"
  by (simp add: AddFile_def stored_file_def Let_def)

lemma fold_AddFile:
  "fold (\<lambda>level. fold (\<lambda>f. AddFile level (fm_number f) (fm_file_size f) (fm_smallest f) (fm_largest f)) (files level)) levels edit =
    edit\<lparr>ve_new_files := ve_new_files edit @ concat (map (\<lambda>level. map (\<lambda>f. (level, stored_file f)) (files level)) levels)\<rparr>"
proof -
  have "fold (\<lambda>f. AddFile level (fm_number f) (fm_file_size f) (fm_smallest f) (fm_largest f)) fs edit =
      edit\<lparr>ve_new_files := ve_new_files edit @ map (\<lambda>f. (level, stored_file f)) fs\<rparr>" for level fs edit
    by (induction fs arbitrary: edit) (simp_all add: AddFile_stored)
  then show ?thesis by (induction levels arbitrary: edit) simp_all
qed

definition version_entries :: "'w version_set \<Rightarrow> (nat \<times> FileMetaData) list" where
  "version_entries st =
     concat (map (\<lambda>level. map (\<lambda>p. (level, stored_file (vh_files st p))) (v_files (current_version st) level)) [0..<kNumLevels])"

lemma snapshot_edit_eq:
  "snapshot_edit st = (SetComparatorName (cmp_Name (vs_user_comparator st)) new_VersionEdit)
    \<lparr>ve_compact_pointers := map (\<lambda>level. (level, vs_compact_pointer st level)) (filter (\<lambda>level. vs_compact_pointer st level \<noteq> []) [0..<kNumLevels]),
     ve_new_files := version_entries st\<rparr>"
  by (simp add: snapshot_edit_def Let_def fold_SetCompactPointer fold_AddFile SetComparatorName_def new_VersionEdit_def
      version_entries_def o_def)

lemma version_entries_level:
  "(level, f) \<in> set (version_entries st) \<longleftrightarrow> level < kNumLevels \<and> f \<in> current_levels st level"
  by (auto simp: version_entries_def current_levels_def stored_level_def)

definition snapshot_ok :: "'w version_set \<Rightarrow> bool" where
  "snapshot_ok st \<longleftrightarrow> length (cmp_Name (vs_user_comparator st)) < 2 ^ 32 \<and>
     (\<forall>level < kNumLevels. length (vs_compact_pointer st level) < 2 ^ 32 \<and>
       (\<forall>f \<in> current_levels st level. length (fm_smallest f) < 2 ^ 32 \<and> length (fm_largest f) < 2 ^ 32))"

lemma snapshot_edit_ok:
  fixes st :: "'w version_set"
  assumes "snapshot_ok st" and "version_sorted (vs_cmp st) (vh_files st) (current_version st)"
  shows "edit_ok (snapshot_edit st)" and "edit_files_ok (vs_cmp st) (snapshot_edit st)"
    and "edit_level (snapshot_edit st) level {} = (if level < kNumLevels then current_levels st level else {})"
    and "edit_numbers (snapshot_edit st) = map (\<lambda>(level, f). (level, fm_number f)) (version_entries st)"
    and "ve_comparator (snapshot_edit st) = cmp_Name (vs_user_comparator st)"
proof -
  have stored: "stored_file f = f" if "f \<in> current_levels st level" for f level
    using that by (auto simp: current_levels_def stored_level_def stored_file_def new_FileMetaData_def)
  show "edit_ok (snapshot_edit st)"
    using assms(1) version_entries_level [of _ _ st]
    by (auto simp: edit_ok_def snapshot_edit_eq SetComparatorName_def new_VersionEdit_def snapshot_ok_def list_all_iff)
  have "file_ok (vs_cmp st) f" if files: "level < kNumLevels" "f \<in> current_levels st level" for level f
  proof -
    obtain p where "f = stored_file (vh_files st p)" "p \<in> set (v_files (current_version st) level)"
      using files(2) by (auto simp: current_levels_def stored_level_def)
    then show ?thesis using files(1) assms(2) by (auto simp: version_sorted_def file_ok_def)
  qed
  then show "edit_files_ok (vs_cmp st) (snapshot_edit st)"
    by (auto simp: edit_files_ok_def snapshot_edit_eq version_entries_level)
  show "edit_level (snapshot_edit st) level {} = (if level < kNumLevels then current_levels st level else {})"
    using stored by (force simp: edit_level_def snapshot_edit_eq version_entries_level SetComparatorName_def new_VersionEdit_def)
  show "edit_numbers (snapshot_edit st) = map (\<lambda>(level, f). (level, fm_number f)) (version_entries st)"
    by (simp add: edit_numbers_def snapshot_edit_eq)
  show "ve_comparator (snapshot_edit st) = cmp_Name (vs_user_comparator st)"
    by (simp add: snapshot_edit_eq SetComparatorName_def)
qed

lemma complete_edit_ok [simp]:
  "edit_ok (complete_edit st d) = edit_ok d" "edit_files_ok cmp (complete_edit st d) = edit_files_ok cmp d"
  "edit_numbers (complete_edit st d) = edit_numbers d" "ve_has_comparator (complete_edit st d) = ve_has_comparator d"
  "ve_comparator (complete_edit st d) = ve_comparator d"
  by (simp_all add: complete_edit_def edit_ok_def edit_files_ok_def edit_numbers_def Let_def SetLogNumber_def SetPrevLogNumber_def
      SetNextFile_def SetLastSequence_def)

lemma note_complete_edit:
  "note_edit (complete_edit st d) rc = \<lparr>rc_log_number = Some (ve_log_number (complete_edit st d)),
     rc_prev_log_number = Some (ve_prev_log_number (complete_edit st d)), rc_next_file = Some (vs_next_file_number st),
     rc_last_sequence = Some (vs_last_sequence st)\<rparr>"
  by (simp add: note_edit_def complete_edit_def Let_def SetLogNumber_def SetPrevLogNumber_def SetNextFile_def SetLastSequence_def)

text \<open>Every file of a level was added by one of the edits.\<close>

lemma fold_edit_level_numbers:
  "f \<in> fold (\<lambda>d. edit_level d level) ds {} \<Longrightarrow> (level, fm_number f) \<in> set (concat (map edit_numbers ds))"
proof (induction ds arbitrary: f rule: rev_induct)
  case (snoc d ds)
  then have "f \<in> edit_level d level (fold (\<lambda>d. edit_level d level) ds {})" by simp
  then consider "f \<in> fold (\<lambda>d. edit_level d level) ds {}" | g where "(level, g) \<in> set (ve_new_files d)" "f = stored_file g"
    unfolding edit_level_def [of d] by blast
  then show ?case
  proof cases
    case 2
    then have "(level, fm_number f) \<in> set (edit_numbers d)" by (force simp: edit_numbers_def)
    then show ?thesis by simp
  qed (use snoc.IH in auto)
qed simp

definition edit_good :: "comparator_class \<Rightarrow> version_edit \<Rightarrow> bool" where
  "edit_good ucmp d \<longleftrightarrow> edit_ok d \<and> (ve_has_comparator d \<longrightarrow> ve_comparator d = cmp_Name ucmp) \<and> edit_files_ok (cmp_Compare ucmp) d"

definition manifest_inv :: "posix_writable version_set \<Rightarrow> fs \<Rightarrow> version_edit list \<Rightarrow> bool" where
  "manifest_inv st e ds \<longleftrightarrow>
     manifest_open st (map (\<lambda>d. VersionEdit_EncodeTo d []) ds) \<and>
     manifest_on_disk e (vs_dbname st) (vs_manifest_file_number st) (map (\<lambda>d. VersionEdit_EncodeTo d []) ds) \<and>
     (\<forall>d \<in> set ds. edit_good (vs_user_comparator st) d) \<and> distinct (concat (map edit_numbers ds)) \<and>
     (\<forall>level < kNumLevels. current_levels st level = fold (\<lambda>d. edit_level d level) ds {})"

lemma version_numbers_levels:
  "version_numbers (vh_files st) (current_version st) = {(level, fm_number f) |level f. level < kNumLevels \<and> f \<in> current_levels st level}"
proof (rule set_eqI)
  fix x :: "nat \<times> u64"
  obtain level n where x: "x = (level, n)" by force
  have "(\<exists>f \<in> current_levels st level. n = fm_number f) \<longleftrightarrow> (\<exists>p \<in> set (v_files (current_version st) level). n = fm_number (vh_files st p))"
    by (simp add: current_levels_def stored_level_def)
  then show "x \<in> version_numbers (vh_files st) (current_version st) \<longleftrightarrow>
      x \<in> {(level, fm_number f) |level f. level < kNumLevels \<and> f \<in> current_levels st level}"
    unfolding version_numbers_def x by blast
qed

text \<open>One successful call adds the edit to the MANIFEST; the first one also writes the snapshot.\<close>

lemma LogAndApply_manifest:
  fixes st :: "posix_writable version_set"
  assumes uc: "user_comparator (vs_cmp st) Separator Successor" and inv: "vset_inv st others"
    and d: "edit_good (vs_user_comparator st) d" and call: "LogAndApply (PosixDbEnv k) d st e = (s, st', e')" and s: "ok s"
    and before: "if vs_descriptor_log st = None then snapshot_ok st \<and> ds = [] else manifest_inv st e ds"
    and numbers: "distinct (concat (map edit_numbers ds') @ edit_numbers d)" "ds' = (if vs_descriptor_log st = None then [snapshot_edit st] else ds)"
  shows "\<exists>ds0. manifest_inv st' e' (ds0 @ [complete_edit st d]) \<and> map edit_numbers ds0 = map edit_numbers ds'"
    and "vset_inv st' others" and "vs_user_comparator st' = vs_user_comparator st" and "vs_dbname st' = vs_dbname st"
    and "vs_log_number st' = ve_log_number (complete_edit st d)" and "vs_prev_log_number st' = ve_prev_log_number (complete_edit st d)"
    and "vs_next_file_number st' = vs_next_file_number st" and "vs_last_sequence st' = vs_last_sequence st" and "vs_descriptor_log st' \<noteq> None"
proof -
  have old: "version_numbers (vh_files st) (current_version st) \<subseteq> set (concat (map edit_numbers ds'))"
  proof (cases "vs_descriptor_log st")
    case None
    have "set (version_entries st) = {(level, f). level < kNumLevels \<and> f \<in> current_levels st level}"
      using version_entries_level [of _ _ st] by auto
    moreover have "version_sorted (vs_cmp st) (vh_files st) (current_version st)" "snapshot_ok st" using inv before None by (auto simp: vset_inv_def)
    ultimately show ?thesis using None numbers(2) snapshot_edit_ok(4) [of st] by (auto simp: version_numbers_levels)
  next
    case (Some lg)
    then have "current_levels st level = fold (\<lambda>d. edit_level d level) ds' {}" if "level < kNumLevels" for level
      using that before numbers(2) by (simp add: manifest_inv_def)
    then show ?thesis using fold_edit_level_numbers [of _ _ ds'] by (auto simp: version_numbers_levels simp del: set_concat)
  qed
  have fits: "edit_fits d st" using d numbers(1) old by (auto simp: edit_fits_def edit_good_def)
  note result = LogAndApply_inv [OF uc inv fits call]
  then show "vset_inv st' others" by blast
  obtain v st1 where build: "build_new_version (complete_edit st d) st = (v, st1)" by force
  have "edit_fits (complete_edit st d) st" using fits by simp
  note built = build_new_version_inv [OF uc inv this build]
  then have more: "version_heap.more st1 = version_heap.more (st\<lparr>vs_compact_pointer := apply_pointers d (vs_compact_pointer st)\<rparr>)" by simp
  note fields = more_fields [OF more]
  obtain x where st': "st' = (install_version v (st1\<lparr>vs_descriptor_log := x\<rparr>))
      \<lparr>vs_log_number := ve_log_number (complete_edit st d), vs_prev_log_number := ve_prev_log_number (complete_edit st d)\<rparr>"
    using LogAndApply_result [OF call build] s by auto
  have "version_heap.more (AppendVersion v (vs_current (st1\<lparr>vs_descriptor_log := x\<rparr>)) (st1\<lparr>vs_descriptor_log := x\<rparr>)) =
      version_heap.more (st1\<lparr>vs_descriptor_log := x\<rparr>)" by simp
  note fields' = more_fields [OF this]
  show cmp': "vs_user_comparator st' = vs_user_comparator st" and db': "vs_dbname st' = vs_dbname st"
    and "vs_log_number st' = ve_log_number (complete_edit st d)" and "vs_prev_log_number st' = ve_prev_log_number (complete_edit st d)"
    and "vs_next_file_number st' = vs_next_file_number st" and "vs_last_sequence st' = vs_last_sequence st"
    using fields fields' by (simp_all add: st' install_version_def)
  define ds0 where "ds0 = (case vs_descriptor_log st of None \<Rightarrow> [snapshot_edit st1] | Some lg \<Rightarrow> ds)"
  have "case vs_descriptor_log st of None \<Rightarrow> map (\<lambda>d. VersionEdit_EncodeTo d []) ds0 = [VersionEdit_EncodeTo (snapshot_edit st1) []]
      | Some lg \<Rightarrow> manifest_open st (map (\<lambda>d. VersionEdit_EncodeTo d []) ds0) \<and>
          manifest_on_disk e (vs_dbname st) (vs_manifest_file_number st) (map (\<lambda>d. VersionEdit_EncodeTo d []) ds0)"
    using before by (auto simp: ds0_def manifest_inv_def split: option.split)
  note disk = LogAndApply_posix [OF call s build _ _ _ this]
  have good0: "(\<forall>d \<in> set ds0. edit_good (vs_user_comparator st) d) \<and> map edit_numbers ds0 = map edit_numbers ds' \<and>
      (\<forall>level < kNumLevels. fold (\<lambda>d. edit_level d level) ds0 {} = current_levels st level)"
  proof (cases "vs_descriptor_log st")
    case (Some lg)
    then show ?thesis using before numbers(2) by (simp add: ds0_def manifest_inv_def)
  next
    case None
    have kept: "old_kept st st1" and cur: "vs_current st1 = vs_current st" using built fields by simp_all
    obtain c where c: "vs_current st = Some c" "heap_inv st [] {#} (add_mset c others)" using inv by (auto simp: vset_inv_def)
    have listed: "c \<in> set (vh_list st)" using c(2) by (auto simp: heap_inv_def)
    note levels = old_kept_version(1) [OF kept c(2) listed]
    have same: "current_levels st1 level = current_levels st level" if "level < kNumLevels" for level
      using levels [OF that] cur c(1) by (simp add: current_levels_def)
    have entries: "version_entries st1 = version_entries st"
    proof -
      have "stored_file (vh_files st1 p) = stored_file (vh_files st p)" if "level < kNumLevels" "p \<in> set (v_files (vh_versions st c) level)" for level p
      proof -
        have "p \<in># held st (vh_list st)" using held_version [OF listed] version_files_level [OF that] by blast
        then have "p < vh_next_file st" using c(2) by (auto simp: heap_inv_def refs_ok_def)
        then show ?thesis using kept by (simp add: old_kept_def)
      qed
      moreover have "v_files (vh_versions st1 c) = v_files (vh_versions st c)" using kept listed by (simp add: old_kept_def)
      ultimately have "map (\<lambda>level. map (\<lambda>p. (level, stored_file (vh_files st1 p))) (v_files (current_version st1) level)) [0..<kNumLevels] =
          map (\<lambda>level. map (\<lambda>p. (level, stored_file (vh_files st p))) (v_files (current_version st) level)) [0..<kNumLevels]"
        using cur c(1) by (intro map_cong) simp_all
      then show ?thesis unfolding version_entries_def by (rule arg_cong)
    qed
    have pointer: "length (apply_pointers d p level) < 2 ^ 32" if "length (p level) < 2 ^ 32" for p level
    proof -
      have "length (fold (\<lambda>(level, key) cp. cp(level := key)) xs p level) < 2 ^ 32"
        if "list_all (\<lambda>(level, key). level < kNumLevels \<and> length key < 2 ^ 32) xs" "length (p level) < 2 ^ 32" for xs :: "(nat \<times> bytes) list" and p
        using that by (induction xs arbitrary: p) auto
      then show ?thesis using d that by (simp add: apply_pointers_def edit_good_def edit_ok_def)
    qed
    have "snapshot_ok st1" using before None same pointer fields by (simp add: snapshot_ok_def)
    moreover have "version_sorted (vs_cmp st1) (vh_files st1) (current_version st1)"
      using old_kept_version(2) [OF kept c(2) listed] inv c(1) cur fields by (simp add: vset_inv_def)
    ultimately have snap: "edit_ok (snapshot_edit st1)" "edit_files_ok (vs_cmp st1) (snapshot_edit st1)"
        "edit_numbers (snapshot_edit st1) = map (\<lambda>(level, f). (level, fm_number f)) (version_entries st1)"
        "ve_comparator (snapshot_edit st1) = cmp_Name (vs_user_comparator st1)"
        "\<And>level. level < kNumLevels \<Longrightarrow> edit_level (snapshot_edit st1) level {} = current_levels st1 level"
      using snapshot_edit_ok [of st1] by simp_all
    have "version_sorted (vs_cmp st) (vh_files st) (current_version st)" "snapshot_ok st" using inv before None by (auto simp: vset_inv_def)
    then have "edit_numbers (snapshot_edit st) = edit_numbers (snapshot_edit st1)" using snapshot_edit_ok(4) entries snap(3) by simp
    then show ?thesis using None numbers(2) snap fields same by (simp add: ds0_def edit_good_def)
  qed
  have "manifest_inv st' e' (ds0 @ [complete_edit st d])"
    unfolding manifest_inv_def
  proof (intro conjI ballI allI impI)
    show "manifest_open st' (map (\<lambda>d. VersionEdit_EncodeTo d []) (ds0 @ [complete_edit st d]))"
      "manifest_on_disk e' (vs_dbname st') (vs_manifest_file_number st') (map (\<lambda>d. VersionEdit_EncodeTo d []) (ds0 @ [complete_edit st d]))"
      using disk fields by simp_all
    show "edit_good (vs_user_comparator st') x" if "x \<in> set (ds0 @ [complete_edit st d])" for x
      using that good0 d cmp' by (auto simp: edit_good_def)
    show "distinct (concat (map edit_numbers (ds0 @ [complete_edit st d])))" using good0 numbers(1) by simp
    show "current_levels st' level = fold (\<lambda>d. edit_level d level) (ds0 @ [complete_edit st d]) {}" if "level < kNumLevels" for level
      using that good0 result s by simp
  qed
  then show "\<exists>ds0. manifest_inv st' e' (ds0 @ [complete_edit st d]) \<and> map edit_numbers ds0 = map edit_numbers ds'"
    using good0 by blast
  from \<open>manifest_inv st' e' (ds0 @ [complete_edit st d])\<close> show "vs_descriptor_log st' \<noteq> None"
    by (auto simp: manifest_inv_def manifest_open_def)
qed

text \<open>A sequence of calls up to the first failure; the counters may have changed before each of them.\<close>

fun LogAndApplies ::
    "('e, 'w, 'r) db_env \<Rightarrow> (u64 \<times> u64 \<times> version_edit) list \<Rightarrow> 'w version_set \<Rightarrow> 'e \<Rightarrow> status \<times> 'w version_set \<times> 'e" where
  "LogAndApplies env [] st e = (Status_OK, st, e)"
| "LogAndApplies env ((next_file, last_sequence, d) # calls) st e =
     (let (s, st, e) = LogAndApply env d (st\<lparr>vs_next_file_number := next_file, vs_last_sequence := last_sequence\<rparr>) e
      in if ok s then LogAndApplies env calls st e else (s, st, e))"

definition counters_kept :: "'w version_set \<Rightarrow> version_edit list \<Rightarrow> bool" where
  "counters_kept st ds \<longleftrightarrow> fold note_edit ds nothing_recovered =
     \<lparr>rc_log_number = Some (vs_log_number st), rc_prev_log_number = Some (vs_prev_log_number st),
      rc_next_file = Some (vs_next_file_number st), rc_last_sequence = Some (vs_last_sequence st)\<rparr>"

lemma LogAndApplies_manifest:
  fixes st :: "posix_writable version_set"
  assumes "user_comparator (vs_cmp st) Separator Successor" and "vset_inv st others"
    and "\<forall>(n, q, d) \<in> set calls. edit_good (vs_user_comparator st) d" and "LogAndApplies (PosixDbEnv k) calls st e = (s, st', e')" and "ok s"
    and "if vs_descriptor_log st = None then snapshot_ok st \<and> ds = [] \<and> calls \<noteq> [] else manifest_inv st e ds \<and> counters_kept st ds"
    and "distinct (concat (map edit_numbers (if vs_descriptor_log st = None then [snapshot_edit st] else ds)) @
      concat (map (\<lambda>(n, q, d). edit_numbers d) calls))"
  shows "\<exists>ds'. manifest_inv st' e' ds' \<and> counters_kept st' ds' \<and> vset_inv st' others \<and> vs_user_comparator st' = vs_user_comparator st \<and>
    vs_dbname st' = vs_dbname st"
  using assms
proof (induction calls arbitrary: st e ds)
  case Nil
  then show ?case by (auto split: if_splits)
next
  case (Cons call calls)
  obtain n q d where c: "call = (n, q, d)" by (cases call)
  let ?st = "st\<lparr>vs_next_file_number := n, vs_last_sequence := q\<rparr>"
  obtain s1 st1 e1 where one: "LogAndApply (PosixDbEnv k) d ?st e = (s1, st1, e1)" by (metis prod_cases3)
  have s1: "ok s1" and rest: "LogAndApplies (PosixDbEnv k) calls st1 e1 = (s, st', e')"
    using Cons.prems(4,5) one c by (auto split: if_splits)
  have frame: "version_heap.truncate ?st = version_heap.truncate st" by (simp add: version_heap.truncate_def)
  have levels: "current_levels ?st = current_levels st" and entries: "version_entries ?st = version_entries st"
    by (simp_all add: current_levels_def version_entries_def fun_eq_iff)
  have snap: "snapshot_edit ?st = snapshot_edit st" unfolding snapshot_edit_eq entries by simp
  have inv: "vset_inv ?st others" using vset_inv_frame(1) [OF frame] Cons.prems(2) by simp
  have good: "edit_good (vs_user_comparator ?st) d" using Cons.prems(3) c by simp
  let ?ds = "if vs_descriptor_log ?st = None then [snapshot_edit ?st] else ds"
  have before: "if vs_descriptor_log ?st = None then snapshot_ok ?st \<and> ds = [] else manifest_inv ?st e ds"
  proof (cases "vs_descriptor_log st")
    case None
    then show ?thesis using Cons.prems(6) levels by (simp add: snapshot_ok_def)
  next
    case (Some lg)
    then have "manifest_inv st e ds" using Cons.prems(6) by simp
    then have "manifest_inv ?st e ds" unfolding manifest_inv_def manifest_open_def levels by simp
    then show ?thesis using Some by simp
  qed
  have all: "distinct (concat (map edit_numbers ?ds) @ edit_numbers d @ concat (map (\<lambda>(n, q, d). edit_numbers d) calls))"
    using Cons.prems(7) c snap by (cases "vs_descriptor_log st") simp_all
  then have numbers: "distinct (concat (map edit_numbers ?ds) @ edit_numbers d)"
    by (metis append.assoc distinct_append)
  have uc: "user_comparator (vs_cmp ?st) Separator Successor" using Cons.prems(1) by simp
  note step = LogAndApply_manifest [OF uc inv good one s1 before numbers refl]
  from step(1) obtain ds0 where ds0: "manifest_inv st1 e1 (ds0 @ [complete_edit ?st d])" "map edit_numbers ds0 = map edit_numbers ?ds" by blast
  have kept: "counters_kept st1 (ds0 @ [complete_edit ?st d])"
    using step(5-8) by (simp add: counters_kept_def note_complete_edit)
  have "\<exists>ds'. manifest_inv st' e' ds' \<and> counters_kept st' ds' \<and> vset_inv st' others \<and> vs_user_comparator st' = vs_user_comparator st1 \<and>
    vs_dbname st' = vs_dbname st1"
  proof (rule Cons.IH [OF _ step(2) _ rest Cons.prems(5)])
    show "user_comparator (vs_cmp st1) Separator Successor" "\<forall>(n, q, d) \<in> set calls. edit_good (vs_user_comparator st1) d"
      using Cons.prems(1,3) step(3) by simp_all
    show "if vs_descriptor_log st1 = None then snapshot_ok st1 \<and> ds0 @ [complete_edit ?st d] = [] \<and> calls \<noteq> []
        else manifest_inv st1 e1 (ds0 @ [complete_edit ?st d]) \<and> counters_kept st1 (ds0 @ [complete_edit ?st d])"
      using step(9) ds0(1) kept by simp
    show "distinct (concat (map edit_numbers (if vs_descriptor_log st1 = None then [snapshot_edit st1] else ds0 @ [complete_edit ?st d])) @
        concat (map (\<lambda>(n, q, d). edit_numbers d) calls))"
      using step(9) ds0(2) all by (simp only: if_False map_append list.map complete_edit_ok concat_append concat.simps append_Nil2 append.assoc)
  qed
  then show ?case using step(3,4) by simp
qed

text \<open>
  Claim C11. What was logged is recovered. Take any version set that has not opened a \<^verbatim>\<open>MANIFEST\<close> yet and any sequence of
  calls of \<^verbatim>\<open>LogAndApply\<close> on the POSIX environment that succeed, with any changes of the counters between them. When
  the files of the database are opened afterwards by a process whose reads do not fail, \<^verbatim>\<open>Recover\<close> returns, with success,
  and its version set has the same files at every level, the same log numbers and last sequence
  number, and a next file number that is past the one of before. The sequence may
  add and delete files in any way that never puts the same file twice into a level.
\<close>

theorem manifest_recovery:
  fixes st :: "posix_writable version_set"
  assumes "user_comparator (vs_cmp st) Separator Successor" and "vset_inv st others" and "vs_descriptor_log st = None"
    and "snapshot_ok st" and "calls \<noteq> []" and "\<forall>(n, q, d) \<in> set calls. edit_good (vs_user_comparator st) d"
    and "distinct (edit_numbers (snapshot_edit st) @ concat (map (\<lambda>(n, q, d). edit_numbers d) calls))"
    and "LogAndApplies (PosixDbEnv k) calls st e = (s, st', e')" and "ok s" and "healthy_kernel k'"
  shows "\<exists>save st'' e''. Recover (PosixDbEnv k') (VersionSet (vs_dbname st) options (vs_user_comparator st)) e' = Some (Status_OK, save, st'', e'') \<and>
    vset_inv st'' {#} \<and> (\<forall>level < kNumLevels. current_levels st'' level = current_levels st' level) \<and>
    vs_log_number st'' = vs_log_number st' \<and> vs_prev_log_number st'' = vs_prev_log_number st' \<and>
    vs_last_sequence st'' = vs_last_sequence st' \<and> vs_next_file_number st'' = vs_next_file_number st' + 1"
proof -
  let ?new = "VersionSet (vs_dbname st) options (vs_user_comparator st) :: posix_writable version_set"
  have "if vs_descriptor_log st = None then snapshot_ok st \<and> ([] :: version_edit list) = [] \<and> calls \<noteq> [] else manifest_inv st e [] \<and> counters_kept st []"
    "distinct (concat (map edit_numbers (if vs_descriptor_log st = None then [snapshot_edit st] else [])) @ concat (map (\<lambda>(n, q, d). edit_numbers d) calls))"
    using assms(3-5,7) by simp_all
  from LogAndApplies_manifest [OF assms(1,2,6,8,9) this]
  obtain ds where ds: "manifest_inv st' e' ds" "counters_kept st' ds" and same: "vs_user_comparator st' = vs_user_comparator st" "vs_dbname st' = vs_dbname st"
    by blast
  have uc: "user_comparator (vs_cmp ?new) Separator Successor" using assms(1) by simp
  have disk: "manifest_on_disk e' (vs_dbname ?new) (vs_manifest_file_number st') (map (\<lambda>d. VersionEdit_EncodeTo d []) ds)"
    and good: "\<forall>d \<in> set ds. edit_ok d \<and> (ve_has_comparator d \<longrightarrow> ve_comparator d = cmp_Name (vs_user_comparator ?new)) \<and> edit_files_ok (vs_cmp ?new) d"
    and numbers: "distinct (concat (map edit_numbers ds))"
      "version_numbers (vh_files ?new) (current_version ?new) \<inter> set (concat (map edit_numbers ds)) = {}"
    and levels: "\<forall>level < kNumLevels. current_levels st' level = fold (\<lambda>d. edit_level d level) ds {}"
    using ds(1) same by (simp_all add: manifest_inv_def edit_good_def)
  have complete: "check_recovered (fold note_edit ds nothing_recovered) = Status_OK"
    using ds(2) by (simp add: counters_kept_def check_recovered_def)
  from recover_posix [OF uc VersionSet_inv assms(10) disk good numbers complete]
  obtain save st'' e'' where "Recover (PosixDbEnv k') ?new e' = Some (Status_OK, save, st'', e'') \<and> vset_inv st'' {#} \<and>
      (\<forall>level < kNumLevels. current_levels st'' level = fold (\<lambda>d. edit_level d level) ds {}) \<and>
      vs_next_file_number st'' = vs_next_file_number st' + 1 \<and> vs_last_sequence st'' = vs_last_sequence st' \<and>
      vs_log_number st'' = vs_log_number st' \<and> vs_prev_log_number st'' = vs_prev_log_number st'"
    unfolding ds(2) [unfolded counters_kept_def] VersionSet_levels by (auto simp: or_zero_def)
  then show ?thesis using levels by (intro exI [of _ save] exI [of _ st''] exI [of _ e'']) simp
qed

text \<open>For the witness: on a kernel without failures the first call succeeds when its records fit into one block.\<close>

lemma log_AddRecord_small:
  assumes "lw_block_offset lg + 7 + length data \<le> 32768" and "7 + length data \<le> wf_room (pw_file (lw_dest lg))"
    and "\<not> wf_bad_flush (pw_file (lw_dest lg))"
  shows "\<exists>lg' e'. log_AddRecord (PosixDbEnv k) lg data e = (Status_OK, lg', e') \<and> lw_block_offset lg' = lw_block_offset lg + 7 + length data \<and>
    wf_room (pw_file (lw_dest lg')) = wf_room (pw_file (lw_dest lg)) - (7 + length data) \<and> \<not> wf_bad_flush (pw_file (lw_dest lg'))"
proof -
  let ?w = "with_dest lg (lw_dest lg, e)" and ?ap = "append_in (PosixDbEnv k)" and ?fl = "flush_in (PosixDbEnv k)"
  have room: "\<not> kBlockSize - lw_block_offset lg < kHeaderSize" "length data \<le> kBlockSize - lw_block_offset lg - kHeaderSize"
    using assms(1) by (simp_all add: log_sizes)
  have switch: "switch_block ?ap ?w = ?w" using room(1) by (simp add: switch_block_def with_dest_def)
  have emit: "AddRecord ?ap ?fl ?w data = EmitPhysicalRecord ?ap ?fl ?w (record_type_of True True) data"
    unfolding AddRecord_def by (subst AddRecord_loop.simps, unfold switch Let_def) (use room(2) in \<open>auto simp: with_dest_def split: prod.splits\<close>)
  have append: "\<exists>w' e'. ?ap d (w, e) = (Status_OK, w', e') \<and> wf_room (pw_file w') = wf_room (pw_file w) - length d \<and> \<not> wf_bad_flush (pw_file w')"
    if "length d \<le> wf_room (pw_file w)" "\<not> wf_bad_flush (pw_file w)" for d w e
    using that by (simp add: append_in_def fs_Append_def PosixWritableFile_Append_def fwrite_unlocked_def Let_def)
  have flush: "\<exists>w' e'. ?fl (w, e) = (Status_OK, w', e') \<and> wf_room (pw_file w') = wf_room (pw_file w) \<and> \<not> wf_bad_flush (pw_file w')"
    if "\<not> wf_bad_flush (pw_file w)" for w e
    using that by (simp add: flush_in_def fs_Flush_def PosixWritableFile_Flush_def fflush_unlocked_def)
  define header where "header = EncodeFixed32 (Mask (crc_Extend (lw_type_crc lg ! unat (record_type_of True True)) data)) @
    [ucast ((word_of_nat (length data) :: u64) AND 0xff), ucast (drop_bit 8 (word_of_nat (length data) :: u64)), ucast (record_type_of True True)]"
  have header: "length header = 7" by (simp add: header_def)
  obtain w1 e1 where 1: "?ap header (lw_dest lg, e) = (Status_OK, w1, e1)" "wf_room (pw_file w1) = wf_room (pw_file (lw_dest lg)) - 7" "\<not> wf_bad_flush (pw_file w1)"
    using append [of header "lw_dest lg" e] assms(2,3) header by auto
  obtain w2 e2 where 2: "?ap data (w1, e1) = (Status_OK, w2, e2)" "wf_room (pw_file w2) = wf_room (pw_file w1) - length data" "\<not> wf_bad_flush (pw_file w2)"
    using append [of data w1 e1] assms(2) 1(2,3) by fastforce
  obtain w3 e3 where 3: "?fl (w2, e2) = (Status_OK, w3, e3)" "wf_room (pw_file w3) = wf_room (pw_file w2)" "\<not> wf_bad_flush (pw_file w3)"
    using flush [of w2 e2] 2(3) by blast
  show ?thesis
    using emit 1 2 3 by (simp add: log_AddRecord_def EmitPhysicalRecord_def Let_def with_dest_def kHeaderSize_def header_def)
qed

lemma fs_Sync_good:
  assumes "\<not> wf_bad_flush (pw_file w)"
  shows "\<exists>w' e'. fs_Sync good_kernel w e = (Status_OK, w', e')"
proof -
  have "SyncDirIfManifest (kernel_sync good_kernel e) w = Status_OK"
    by (simp add: SyncDirIfManifest_def kernel_sync_def good_kernel_def case_prod_beta)
  then show ?thesis using assms
    by (simp add: fs_Sync_def PosixWritableFile_Sync_def kernel_sync_def good_kernel_def fflush_unlocked_def Let_def)
qed

lemma SetCurrentFile_good:
  assumes "length (DescriptorFileName db n) < 900"
  shows "\<exists>e'. SetCurrentFile (PosixEnv good_kernel) db n e = (Status_OK, e')"
  using assms
  by (simp add: SetCurrentFile_def WriteStringToFileSync_def DoWriteStringToFile_def PosixEnv_def PosixEnv_NewWritableFile_def call_fails_def
    good_kernel_def open_stream_def fs_Append_def PosixWritableFile_Append_def fwrite_unlocked_def Let_def fs_Sync_def PosixWritableFile_Sync_def
    SyncDirIfManifest_def kernel_sync_def fflush_unlocked_def PosixWritableFile_Close_def PosixEnv_RenameFile_def store_def remove_prefix_def
    split: prod.splits option.splits)


lemma LogAndApply_good:
  fixes st :: "posix_writable version_set"
  assumes "user_comparator (vs_cmp st) Separator Successor" and "vset_inv st others" and "edit_fits edit st"
    and "vs_descriptor_log st = None" and "LogAndApply (PosixDbEnv good_kernel) edit st e = (s, st', e')"
    and "length (DescriptorFileName (vs_dbname st) (vs_manifest_file_number st)) < 900"
    and "version_entries st = []"
    and "length (VersionEdit_EncodeTo (snapshot_edit (st\<lparr>vs_compact_pointer := apply_pointers edit (vs_compact_pointer st)\<rparr>)) []) +
      length (VersionEdit_EncodeTo (complete_edit st edit) []) < 900"
  shows "ok s"
proof -
  let ?st = "st\<lparr>vs_compact_pointer := apply_pointers edit (vs_compact_pointer st)\<rparr>"
  obtain v st1 where build: "build_new_version (complete_edit st edit) st = (v, st1)" by force
  have "edit_fits (complete_edit st edit) st" using assms(3) by simp
  note built = build_new_version_inv [OF assms(1,2) this build]
  then have more: "version_heap.more st1 = version_heap.more ?st" by simp
  note fields = more_fields [OF more]
  have kept: "old_kept st st1" using built by blast
  obtain c where c: "vs_current st = Some c" "heap_inv st [] {#} (add_mset c others)" using assms(2) by (auto simp: vset_inv_def)
  have "c \<in> set (vh_list st)" using c(2) by (auto simp: heap_inv_def)
  then have "v_files (vh_versions st1 c) = v_files (vh_versions st c)" using kept by (simp add: old_kept_def)
  moreover have "v_files (vh_versions st c) level = []" if "level < kNumLevels" for level
    using assms(7) c(1) that by (simp add: version_entries_def)
  ultimately have "version_entries st1 = []" using fields c(1) by (simp add: version_entries_def)
  moreover have "version_entries ?st = []" using assms(7) by (simp add: version_entries_def)
  ultimately have snap: "snapshot_edit st1 = snapshot_edit ?st" using fields by (simp add: snapshot_edit_eq)
  let ?name = "DescriptorFileName (vs_dbname st) (vs_manifest_file_number st)"
  let ?file = "open_stream good_kernel ?name [] e"
  have new: "PosixEnv_NewWritableFile good_kernel ?name e = (Status_OK, Some ?file, (tick e)\<lparr>fs_files := (fs_files e)(?name \<mapsto> [])\<rparr>)"
    by (simp add: PosixEnv_NewWritableFile_def call_fails_def good_kernel_def)
  have room: "wf_room (pw_file ?file) = 1000" "\<not> wf_bad_flush (pw_file ?file)" by (simp_all add: open_stream_def good_kernel_def)
  let ?snap = "VersionEdit_EncodeTo (snapshot_edit ?st) []" and ?data = "VersionEdit_EncodeTo (complete_edit st edit) []"
  have lens: "length ?snap + length ?data < 900" using assms(8) .
  have "lw_block_offset (Writer ?file) + 7 + length ?snap \<le> 32768" "7 + length ?snap \<le> wf_room (pw_file (lw_dest (Writer ?file)))"
    "\<not> wf_bad_flush (pw_file (lw_dest (Writer ?file)))"
    using lens room by (simp_all add: Writer_def)
  from log_AddRecord_small [OF this, of good_kernel "(tick e)\<lparr>fs_files := (fs_files e)(?name \<mapsto> [])\<rparr>"] obtain lg1 e1 where first:
    "log_AddRecord (PosixDbEnv good_kernel) (Writer ?file) ?snap ((tick e)\<lparr>fs_files := (fs_files e)(?name \<mapsto> [])\<rparr>) = (Status_OK, lg1, e1)"
    "lw_block_offset lg1 = 7 + length ?snap" "wf_room (pw_file (lw_dest lg1)) = 1000 - (7 + length ?snap)" "\<not> wf_bad_flush (pw_file (lw_dest lg1))"
    using room by (auto simp: Writer_def)
  have op: "open_manifest (PosixDbEnv good_kernel) st1 e = (Status_OK, ?name, st1\<lparr>vs_descriptor_log := Some lg1\<rparr>, e1)"
    using fields assms(4) new first(1) snap by (simp add: open_manifest_def WriteSnapshot_def)
  have "lw_block_offset lg1 + 7 + length ?data \<le> 32768" "7 + length ?data \<le> wf_room (pw_file (lw_dest lg1))" using first(2,3) lens by simp_all
  from log_AddRecord_small [OF this first(4), of good_kernel e1] obtain lg2 e2 where second:
    "log_AddRecord (PosixDbEnv good_kernel) lg1 ?data e1 = (Status_OK, lg2, e2)" "\<not> wf_bad_flush (pw_file (lw_dest lg2))" by blast
  obtain w e3 where sync: "fs_Sync good_kernel (lw_dest lg2) e2 = (Status_OK, w, e3)" using fs_Sync_good [OF second(2)] by blast
  obtain e4 where cur: "SetCurrentFile (PosixEnv good_kernel) (vs_dbname st) (vs_manifest_file_number st) e3 = (Status_OK, e4)"
    using SetCurrentFile_good [OF assms(6)] by blast
  have "write_manifest_record (PosixDbEnv good_kernel) ?data (st1\<lparr>vs_descriptor_log := Some lg1\<rparr>) e1 =
      (Status_OK, st1\<lparr>vs_descriptor_log := Some (with_dest lg2 w)\<rparr>, e3)"
    using second(1) sync by (simp add: write_manifest_record_def)
  then show ?thesis using assms(5) build op cur fields unfolding LogAndApply_def by (auto simp: Let_def split: if_splits)
qed

theorem manifest_recovery_witness:
  "\<exists>st' e' save st'' e''. LogAndApplies (PosixDbEnv good_kernel) [(6, 20, hd two_edits)]
       (VersionSet (str ''db'') Options BytewiseComparator) empty_fs = (Status_OK, st', e') \<and>
     Recover (PosixDbEnv good_kernel) (VersionSet (str ''db'') Options BytewiseComparator) e' = Some (Status_OK, save, st'', e'') \<and>
     current_levels st'' 1 = edit_level (hd two_edits) 1 {} \<and> vs_last_sequence st'' = vs_last_sequence st'"
proof -
  let ?st = "VersionSet (str ''db'') Options BytewiseComparator :: posix_writable version_set"
  let ?used = "?st\<lparr>vs_next_file_number := 6, vs_last_sequence := 20\<rparr>"
  have uc: "user_comparator (vs_cmp ?st) FindShortestSeparator FindShortSuccessor"
    using bytewise.user_comparator_axioms by (simp add: BytewiseComparator_def)
  have entries: "version_entries ?st = []"
  proof -
    have "x \<notin> set (version_entries ?st)" for x
      using version_entries_level [of "fst x" "snd x" ?st] by (simp add: VersionSet_levels)
    then show ?thesis by (metis list.set_intros(1) neq_Nil_conv)
  qed
  have sorted: "vset_inv ?st {#}" "vset_inv ?used {#}" using VersionSet_inv vset_inv_frame(1) [of ?used ?st] by (simp_all add: version_heap.truncate_def)
  have levels0: "current_levels ?used 1 = {}"
    using vset_inv_frame(2) [of ?used ?st] by (simp add: version_heap.truncate_def VersionSet_levels)
  have snap: "snapshot_edit ?st = SetComparatorName (str ''leveldb.BytewiseComparator'') new_VersionEdit"
    "edit_numbers (snapshot_edit ?st) = []"
    using entries by (simp_all add: snapshot_edit_eq edit_numbers_def BytewiseComparator_def SetComparatorName_def new_VersionEdit_def)
  have "length (str ''leveldb.BytewiseComparator'') < 2 ^ 32" by simp
  then have ok: "snapshot_ok ?st" by (simp add: snapshot_ok_def BytewiseComparator_def VersionSet_levels)
  have "edit_ok (hd two_edits)"
    by (simp add: two_edits_def edit_ok_def AddFile_def new_VersionEdit_def new_FileMetaData_def InternalKey_def AppendInternalKey_def PutFixed64_def kNumLevels_def Let_def)
  moreover have "edit_files_ok BytewiseCompare (hd two_edits)" "\<not> ve_has_comparator (hd two_edits)"
    "ve_compact_pointers (hd two_edits) = []" "distinct (edit_numbers (hd two_edits))" by code_simp+
  ultimately have good: "edit_good BytewiseComparator (hd two_edits)" and pointers: "apply_pointers (hd two_edits) = (\<lambda>p. p)"
    and distinct: "distinct (edit_numbers (hd two_edits))"
    by (simp_all add: edit_good_def BytewiseComparator_def apply_pointers_def fun_eq_iff)
  obtain s st' e' where call: "LogAndApply (PosixDbEnv good_kernel) (hd two_edits) ?used empty_fs = (s, st', e')" by (metis prod_cases3)
  have complete: "complete_edit ?used (hd two_edits) = SetLastSequence 20 (SetNextFile 6 (SetPrevLogNumber 0 (SetLogNumber 0 (hd two_edits))))"
    by (simp add: complete_edit_def two_edits_def AddFile_def new_VersionEdit_def SetLogNumber_def Let_def)
  have "length (VersionEdit_EncodeTo (SetComparatorName (str ''leveldb.BytewiseComparator'') new_VersionEdit) []) +
      length (VersionEdit_EncodeTo (SetLastSequence 20 (SetNextFile 6 (SetPrevLogNumber 0 (SetLogNumber 0 (hd two_edits))))) []) < 900"
    "length (DescriptorFileName (str ''db'') 0) < 900" by code_simp+
  moreover have "?used\<lparr>vs_compact_pointer := apply_pointers (hd two_edits) (vs_compact_pointer ?used)\<rparr> = ?used" by (simp add: pointers)
  moreover have "snapshot_edit ?used = snapshot_edit ?st" "version_entries ?used = []"
    using entries by (simp_all add: snapshot_edit_eq version_entries_def)
  moreover have fits: "edit_fits (hd two_edits) ?used" using first_edit_fits [of "str ''db''" Options] by (simp add: edit_fits_def)
  ultimately have s: "ok s"
    using LogAndApply_good [OF _ sorted(2) _ _ call] uc complete snap(1) by simp
  then have "s = Status_OK" by (simp add: ok_def Status_OK_def)
  then have calls: "LogAndApplies (PosixDbEnv good_kernel) [(6, 20, hd two_edits)] ?st empty_fs = (Status_OK, st', e')"
    using call by simp
  have edits: "\<forall>(n, q, d) \<in> set [(6, 20, hd two_edits)]. edit_good (vs_user_comparator ?st) d"
    "distinct (edit_numbers (snapshot_edit ?st) @ concat (map (\<lambda>(n, q, d). edit_numbers d) [(6 :: u64, 20 :: u64, hd two_edits)]))"
    using good snap(2) distinct by simp_all
  have healthy: "healthy_kernel good_kernel" by (simp add: healthy_kernel_def good_kernel_def)
  have "current_levels st' 1 = edit_level (hd two_edits) 1 {}"
    using LogAndApply_inv [OF _ sorted(2) fits call] uc s levels0 by (simp add: kNumLevels_def)
  have "[(6, 20, hd two_edits)] \<noteq> []" "ok Status_OK" by simp_all
  from manifest_recovery [OF uc sorted(1) VersionSet_fields(5) ok this(1) edits calls this(2) healthy, of Options]
  show ?thesis using calls \<open>current_levels st' 1 = _\<close> by (auto simp: kNumLevels_def)
qed

end
