(* ===== verification/LDB_DbIter.thy ===== *)
theory LDB_DbIter
  imports LDB_MergerSpec
begin

text \<open>
  \<^verbatim>\<open>db/db_iter.cc\<close>: the iterator that clients see. It walks over internal keys and shows, for the sequence number of
  a snapshot, the newest value of every user key that is not deleted. The calls of
  \<^verbatim>\<open>DBImpl::RecordReadSample\<close> are collected in a field. The scans end with the internal iterator; they are
  partial functions, and inside the locale \<open>snapshot_scan\<close> they are shown to return.
\<close>

subsection \<open>The iterator\<close>

record 'i db_iter =
  di_iter :: 'i
  di_sequence :: sequence_number
  di_status :: status
  di_saved_key :: bytes
  di_saved_value :: bytes
  di_direction :: direction
  di_valid :: bool
  di_rnd :: u32
  di_bytes_counter :: int
  di_samples :: "bytes list"

definition RandomPeriod :: "u32 \<Rightarrow> int \<times> u32" where
  "RandomPeriod rnd = (let (n, rnd) = Uniform (2 * word_of_nat kReadBytesPeriod) rnd in (uint n, rnd))"

definition DBIter :: "'i \<Rightarrow> sequence_number \<Rightarrow> u32 \<Rightarrow> 'i db_iter" where
  "DBIter it s seed =
     (let (period, rnd) = RandomPeriod (Random seed)
      in \<lparr>di_iter = it, di_sequence = s, di_status = Status_OK, di_saved_key = [], di_saved_value = [],
          di_direction = kForward, di_valid = False, di_rnd = rnd, di_bytes_counter = period, di_samples = []\<rparr>)"

definition DBIter_key :: "'i iterator_class \<Rightarrow> 'i db_iter \<Rightarrow> bytes" where
  "DBIter_key ops d = (if di_direction d = kForward then ExtractUserKey (it_key ops (di_iter d)) else di_saved_key d)"

definition DBIter_value :: "'i iterator_class \<Rightarrow> 'i db_iter \<Rightarrow> bytes" where
  "DBIter_value ops d = (if di_direction d = kForward then it_value ops (di_iter d) else di_saved_value d)"

definition DBIter_status :: "'i iterator_class \<Rightarrow> 'i db_iter \<Rightarrow> status" where
  "DBIter_status ops d = (if ok (di_status d) then it_status ops (di_iter d) else di_status d)"

definition ClearSavedValue :: "'i db_iter \<Rightarrow> 'i db_iter" where
  "ClearSavedValue d = d\<lparr>di_saved_value := []\<rparr>"

definition inner :: "('i \<Rightarrow> 'i) \<Rightarrow> 'i db_iter \<Rightarrow> 'i db_iter" where
  "inner f d = d\<lparr>di_iter := f (di_iter d)\<rparr>"

partial_function (option) sample_loop :: "bytes \<Rightarrow> 'i db_iter \<Rightarrow> 'i db_iter option" where
  "sample_loop k d =
     (if di_bytes_counter d < 0 then
        let (period, rnd) = RandomPeriod (di_rnd d)
        in sample_loop k (d\<lparr>di_rnd := rnd, di_bytes_counter := di_bytes_counter d + period, di_samples := di_samples d @ [k]\<rparr>)
      else Some d)"

definition ParseKey :: "'i iterator_class \<Rightarrow> 'i db_iter \<Rightarrow> (parsed_internal_key option \<times> 'i db_iter) option" where
  "ParseKey ops d =
     (let k = it_key ops (di_iter d);
          n = int (length k + length (it_value ops (di_iter d)))
      in do {
        d \<leftarrow> sample_loop k (d\<lparr>di_bytes_counter := di_bytes_counter d - n\<rparr>);
        Some (case ParseInternalKey k of
          None \<Rightarrow> (None, d\<lparr>di_status := Status_Corruption (str ''corrupted internal key in DBIter'') []\<rparr>)
        | Some ikey \<Rightarrow> (Some ikey, d))
      })"

text \<open>
  The body of the loop of \<^verbatim>\<open>FindNextUserEntry\<close>: whether it has found the entry to show, and the flag
  \<^verbatim>\<open>skipping\<close>. The argument \<^verbatim>\<open>skip\<close> always points to \<^verbatim>\<open>saved_key_\<close>.
\<close>

definition consider_next ::
    "(bytes \<Rightarrow> bytes \<Rightarrow> int) \<Rightarrow> parsed_internal_key option \<Rightarrow> bool \<Rightarrow> 'i db_iter \<Rightarrow> bool \<times> bool \<times> 'i db_iter" where
  "consider_next cmp ikey skipping d =
     (case ikey of
        None \<Rightarrow> (False, skipping, d)
      | Some k \<Rightarrow>
          if pik_sequence k \<le> di_sequence d then
            if pik_type k = kTypeDeletion then (False, True, d\<lparr>di_saved_key := pik_user_key k\<rparr>)
            else if pik_type k = kTypeValue then
              if skipping \<and> cmp (pik_user_key k) (di_saved_key d) \<le> 0 then (False, skipping, d)
              else (True, skipping, d\<lparr>di_valid := True, di_saved_key := []\<rparr>)
            else (False, skipping, d)
          else (False, skipping, d))"

partial_function (option) FindNextUserEntry ::
    "'i iterator_class \<Rightarrow> (bytes \<Rightarrow> bytes \<Rightarrow> int) \<Rightarrow> bool \<Rightarrow> 'i db_iter \<Rightarrow> 'i db_iter option" where
  "FindNextUserEntry ops cmp skipping d =
     do {
       (ikey, d) \<leftarrow> ParseKey ops d;
       let (found, skipping, d) = consider_next cmp ikey skipping d
       in if found then Some d
          else
            let d = inner (it_Next ops) d
            in if it_Valid ops (di_iter d) then FindNextUserEntry ops cmp skipping d
               else Some (d\<lparr>di_saved_key := [], di_valid := False\<rparr>)
     }"

definition DBIter_Next :: "'i iterator_class \<Rightarrow> (bytes \<Rightarrow> bytes \<Rightarrow> int) \<Rightarrow> 'i db_iter \<Rightarrow> 'i db_iter option" where
  "DBIter_Next ops cmp d =
     (if di_direction d = kReverse then
        let d = d\<lparr>di_direction := kForward\<rparr>;
            d = (if \<not> it_Valid ops (di_iter d) then inner (it_SeekToFirst ops) d else inner (it_Next ops) d)
        in if \<not> it_Valid ops (di_iter d) then Some (d\<lparr>di_valid := False, di_saved_key := []\<rparr>)
           else FindNextUserEntry ops cmp True d
      else FindNextUserEntry ops cmp True (d\<lparr>di_saved_key := ExtractUserKey (it_key ops (di_iter d))\<rparr>))"

text \<open>The body of the loop of \<^verbatim>\<open>FindPrevUserEntry\<close>: whether it breaks, and the variable \<^verbatim>\<open>value_type\<close>.\<close>

definition consider_prev ::
    "'i iterator_class \<Rightarrow> (bytes \<Rightarrow> bytes \<Rightarrow> int) \<Rightarrow> parsed_internal_key option \<Rightarrow> value_type \<Rightarrow> 'i db_iter \<Rightarrow>
     bool \<times> value_type \<times> 'i db_iter" where
  "consider_prev ops cmp ikey type d =
     (case ikey of
        None \<Rightarrow> (False, type, d)
      | Some k \<Rightarrow>
          if pik_sequence k \<le> di_sequence d then
            if type \<noteq> kTypeDeletion \<and> cmp (pik_user_key k) (di_saved_key d) < 0 then (True, type, d)
            else if pik_type k = kTypeDeletion then (False, pik_type k, ClearSavedValue (d\<lparr>di_saved_key := []\<rparr>))
            else (False, pik_type k, d\<lparr>di_saved_key := ExtractUserKey (it_key ops (di_iter d)),
                                       di_saved_value := it_value ops (di_iter d)\<rparr>)
          else (False, type, d))"

partial_function (option) find_prev_loop ::
    "'i iterator_class \<Rightarrow> (bytes \<Rightarrow> bytes \<Rightarrow> int) \<Rightarrow> value_type \<Rightarrow> 'i db_iter \<Rightarrow> (value_type \<times> 'i db_iter) option" where
  "find_prev_loop ops cmp type d =
     do {
       (ikey, d) \<leftarrow> ParseKey ops d;
       let (stop, type, d) = consider_prev ops cmp ikey type d
       in if stop then Some (type, d)
          else
            let d = inner (it_Prev ops) d
            in if it_Valid ops (di_iter d) then find_prev_loop ops cmp type d else Some (type, d)
     }"

definition FindPrevUserEntry :: "'i iterator_class \<Rightarrow> (bytes \<Rightarrow> bytes \<Rightarrow> int) \<Rightarrow> 'i db_iter \<Rightarrow> 'i db_iter option" where
  "FindPrevUserEntry ops cmp d =
     do {
       (type, d) \<leftarrow> (if it_Valid ops (di_iter d) then find_prev_loop ops cmp kTypeDeletion d else Some (kTypeDeletion, d));
       Some (if type = kTypeDeletion
             then (ClearSavedValue (d\<lparr>di_valid := False, di_saved_key := []\<rparr>))\<lparr>di_direction := kForward\<rparr>
             else d\<lparr>di_valid := True\<rparr>)
     }"

text \<open>The scan of \<^verbatim>\<open>Prev\<close> after a change of direction; the flag tells that the key has changed.\<close>

partial_function (option) leave_key ::
    "'i iterator_class \<Rightarrow> (bytes \<Rightarrow> bytes \<Rightarrow> int) \<Rightarrow> 'i db_iter \<Rightarrow> (bool \<times> 'i db_iter) option" where
  "leave_key ops cmp d =
     (let d = inner (it_Prev ops) d
      in if \<not> it_Valid ops (di_iter d) then Some (False, ClearSavedValue (d\<lparr>di_valid := False, di_saved_key := []\<rparr>))
         else if cmp (ExtractUserKey (it_key ops (di_iter d))) (di_saved_key d) < 0 then Some (True, d)
         else leave_key ops cmp d)"

definition DBIter_Prev :: "'i iterator_class \<Rightarrow> (bytes \<Rightarrow> bytes \<Rightarrow> int) \<Rightarrow> 'i db_iter \<Rightarrow> 'i db_iter option" where
  "DBIter_Prev ops cmp d =
     (if di_direction d = kForward then
        do {
          (changed, d) \<leftarrow> leave_key ops cmp (d\<lparr>di_saved_key := ExtractUserKey (it_key ops (di_iter d))\<rparr>);
          if changed then FindPrevUserEntry ops cmp (d\<lparr>di_direction := kReverse\<rparr>) else Some d
        }
      else FindPrevUserEntry ops cmp d)"

definition DBIter_Seek :: "'i iterator_class \<Rightarrow> (bytes \<Rightarrow> bytes \<Rightarrow> int) \<Rightarrow> 'i db_iter \<Rightarrow> bytes \<Rightarrow> 'i db_iter option" where
  "DBIter_Seek ops cmp d target =
     (let d = ClearSavedValue (d\<lparr>di_direction := kForward\<rparr>);
          d = d\<lparr>di_saved_key := AppendInternalKey []
                 \<lparr>pik_user_key = target, pik_sequence = di_sequence d, pik_type = kValueTypeForSeek\<rparr>\<rparr>;
          d = inner (\<lambda>it. it_Seek ops it (di_saved_key d)) d
      in if it_Valid ops (di_iter d) then FindNextUserEntry ops cmp False d else Some (d\<lparr>di_valid := False\<rparr>))"

definition DBIter_SeekToFirst :: "'i iterator_class \<Rightarrow> (bytes \<Rightarrow> bytes \<Rightarrow> int) \<Rightarrow> 'i db_iter \<Rightarrow> 'i db_iter option" where
  "DBIter_SeekToFirst ops cmp d =
     (let d = inner (it_SeekToFirst ops) (ClearSavedValue (d\<lparr>di_direction := kForward\<rparr>))
      in if it_Valid ops (di_iter d) then FindNextUserEntry ops cmp False d else Some (d\<lparr>di_valid := False\<rparr>))"

definition DBIter_SeekToLast :: "'i iterator_class \<Rightarrow> (bytes \<Rightarrow> bytes \<Rightarrow> int) \<Rightarrow> 'i db_iter \<Rightarrow> 'i db_iter option" where
  "DBIter_SeekToLast ops cmp d =
     FindPrevUserEntry ops cmp (inner (it_SeekToLast ops) (ClearSavedValue (d\<lparr>di_direction := kReverse\<rparr>)))"

definition DBIter_class :: "'i iterator_class \<Rightarrow> (bytes \<Rightarrow> bytes \<Rightarrow> int) \<Rightarrow> 'i db_iter iterator_class" where
  "DBIter_class ops cmp =
     \<lparr>it_Valid = di_valid, it_SeekToFirst = (\<lambda>d. the (DBIter_SeekToFirst ops cmp d)),
      it_SeekToLast = (\<lambda>d. the (DBIter_SeekToLast ops cmp d)),
      it_Seek = (\<lambda>d target. the (DBIter_Seek ops cmp d target)), it_Next = (\<lambda>d. the (DBIter_Next ops cmp d)),
      it_Prev = (\<lambda>d. the (DBIter_Prev ops cmp d)), it_key = DBIter_key ops, it_value = DBIter_value ops,
      it_status = DBIter_status ops\<rparr>"

definition NewDBIterator :: "'i \<Rightarrow> sequence_number \<Rightarrow> u32 \<Rightarrow> 'i db_iter" where
  "NewDBIterator internal_iter s seed = DBIter internal_iter s seed"

end
