(* ===== verification/LDB_DbIterSpec.thy ===== *)
theory LDB_DbIterSpec
  imports LDB_DbIter
begin

text \<open>
  The iterator of \<^verbatim>\<open>db/db_iter.cc\<close> over sorted internal keys is an iterator over the view of its snapshot: the
  newest visible entry of every user key, when it is a value. All its loops return.
\<close>

subsection \<open>Sampling\<close>

definition seed_ok :: "u32 \<Rightarrow> bool" where
  "seed_ok seed \<longleftrightarrow> unat seed \<in> {1 .. 2 ^ 31 - 2}"

lemma seed_ok_Next [simp]: "seed_ok seed \<Longrightarrow> seed_ok (Random_Next seed)" and seed_ok_Random [simp]: "seed_ok (Random s)"
  using Random_Next_value unfolding seed_ok_def by (blast, use Random_Next_value [of 1 s] in simp)

text \<open>The generator never gives two multiples of the period one after the other, so the loop makes progress.\<close>

lemma Random_Next_not_twice:
  assumes ok: "seed_ok seed" and zero: "unat (Random_Next seed) mod 2 ^ 21 = 0"
  shows "unat (Random_Next (Random_Next seed)) mod 2 ^ 21 \<noteq> 0"
proof
  let ?M = "2 ^ 31 - 1 :: nat"
  assume "unat (Random_Next (Random_Next seed)) mod 2 ^ 21 = 0"
  then obtain b where b: "unat (Random_Next (Random_Next seed)) = 2 ^ 21 * b" by (metis mod_eq_0_iff_dvd dvdE)
  obtain a where a: "unat (Random_Next seed) = 2 ^ 21 * a" using zero by (metis mod_eq_0_iff_dvd dvdE)
  have ok1: "seed_ok (Random_Next seed)" and ok2: "seed_ok (Random_Next (Random_Next seed))" using ok by simp_all
  then have range: "0 < a" "a < 1024" "0 < b" "b < 1024" using a b by (auto simp: seed_ok_def)
  have "2 ^ 21 * b = (2 ^ 21 * (a * 16807)) mod ?M"
    using Random_Next_value [OF ok1 [unfolded seed_ok_def]] a b by (simp add: mult.assoc)
  then have "?M dvd 2 ^ 21 * (a * 16807) - 2 ^ 21 * b" by (metis dvd_minus_mod)
  then have "?M dvd 2 ^ 21 * (a * 16807 - b)" by (simp add: diff_mult_distrib2)
  moreover have "coprime ?M (2 ^ 21)" by (simp add: coprime_iff_gcd_eq_1 gcd_nat.simps)
  ultimately have "?M dvd a * 16807 - b" using coprime_dvd_mult_right_iff by blast
  moreover have "0 < a * 16807 - b" using range by simp
  ultimately have "?M \<le> a * 16807 - b" by (rule dvd_imp_le)
  then show False using range by simp
qed

definition sampled :: "'i db_iter \<Rightarrow> 'i db_iter \<Rightarrow> bool" where
  "sampled d d' \<longleftrightarrow> di_iter d' = di_iter d \<and> di_sequence d' = di_sequence d \<and> di_status d' = di_status d \<and>
     di_saved_key d' = di_saved_key d \<and> di_saved_value d' = di_saved_value d \<and> di_direction d' = di_direction d \<and>
     di_valid d' = di_valid d \<and> seed_ok (di_rnd d')"

lemma RandomPeriod_value: "fst (RandomPeriod rnd) = int (unat (Random_Next rnd) mod 2 ^ 21)" "snd (RandomPeriod rnd) = Random_Next rnd"
proof -
  have "(2 * word_of_nat kReadBytesPeriod :: u32) = 2097152" by (simp add: kReadBytesPeriod_def)
  then show "fst (RandomPeriod rnd) = int (unat (Random_Next rnd) mod 2 ^ 21)" "snd (RandomPeriod rnd) = Random_Next rnd"
    by (simp_all add: RandomPeriod_def Uniform_def Let_def uint_mod zmod_int)
qed

lemma sample_loop_returns:
  "seed_ok (di_rnd d) \<Longrightarrow> \<exists>d'. sample_loop k d = Some d' \<and> sampled d d'"
proof (induction "nat (- di_bytes_counter d)" arbitrary: d rule: less_induct)
  case less
  let ?step = "\<lambda>d. d\<lparr>di_rnd := Random_Next (di_rnd d), di_bytes_counter := di_bytes_counter d + int (unat (Random_Next (di_rnd d)) mod 2 ^ 21),
      di_samples := di_samples d @ [k]\<rparr>"
  have unfold: "sample_loop k d = (if di_bytes_counter d < 0 then sample_loop k (?step d) else Some d)" for d :: "'a db_iter"
    using RandomPeriod_value [of "di_rnd d"] by (subst sample_loop.simps) (simp add: case_prod_beta)
  have IH: "\<exists>d''. sample_loop k d' = Some d'' \<and> sampled d d''" if "di_bytes_counter d < di_bytes_counter d'" "di_bytes_counter d < 0" "sampled d d'" for d'
  proof -
    have "seed_ok (di_rnd d')" using that(3) by (simp add: sampled_def)
    moreover have "nat (- di_bytes_counter d') < nat (- di_bytes_counter d)" using that(1,2) by simp
    ultimately obtain d'' where "sample_loop k d' = Some d''" "sampled d' d''" using less.hyps by blast
    then show ?thesis using that(3) by (auto simp: sampled_def)
  qed
  have step: "sampled d (?step d)" and step2: "sampled d (?step (?step d))" using less.prems by (auto simp: sampled_def)
  show ?case
  proof (cases "di_bytes_counter d < 0")
    case False
    then show ?thesis using less.prems unfold [of d] by (simp add: sampled_def)
  next
    case True
    have one: "sample_loop k d = sample_loop k (?step d)" by (subst unfold) (simp only: True if_True)
    show ?thesis
    proof (cases "unat (Random_Next (di_rnd d)) mod 2 ^ 21 = 0")
      case False
      then show ?thesis unfolding one by (intro IH [OF _ True step]) simp
    next
      case zero: True
      have pos: "0 < unat (Random_Next (Random_Next (di_rnd d))) mod 2 ^ 21"
        using Random_Next_not_twice [OF less.prems zero] by (simp only: neq0_conv)
      have "di_bytes_counter (?step d) < 0" using True zero by simp
      then have two: "sample_loop k (?step d) = sample_loop k (?step (?step d))" by (subst unfold) (simp only: if_True)
      have "di_bytes_counter d < di_bytes_counter (?step (?step d))" using pos zero by (simp del: power_numeral_reduce numeral_power_eq_of_nat_cancel_iff)
      from IH [OF this True step2] show ?thesis unfolding one two .
    qed
  qed
qed

subsection \<open>The view of a snapshot\<close>

definition visible :: "sequence_number \<Rightarrow> entry \<Rightarrow> bool" where
  "visible S e = (case ParseInternalKey (fst e) of Some k \<Rightarrow> pik_sequence k \<le> S | None \<Rightarrow> False)"

text \<open>The entry is visible and a value, and no visible entry before it has the same user key.\<close>

definition shown :: "(bytes \<Rightarrow> bytes \<Rightarrow> int) \<Rightarrow> sequence_number \<Rightarrow> entry list \<Rightarrow> nat \<Rightarrow> bool" where
  "shown cmp S es i \<longleftrightarrow> visible S (es ! i) \<and> ExtractValueType (fst (es ! i)) = kTypeValue \<and>
     (\<forall>j < i. visible S (es ! j) \<longrightarrow> cmp (ExtractUserKey (fst (es ! j))) (ExtractUserKey (fst (es ! i))) \<noteq> 0)"

definition snapshot_view :: "(bytes \<Rightarrow> bytes \<Rightarrow> int) \<Rightarrow> sequence_number \<Rightarrow> entry list \<Rightarrow> entry list" where
  "snapshot_view cmp S es =
     map (\<lambda>i. (ExtractUserKey (fst (es ! i)), snd (es ! i))) (filter (shown cmp S es) [0..<length es])"

definition keys_ok :: "entry list \<Rightarrow> bool" where
  "keys_ok es \<longleftrightarrow> (\<forall>e \<in> set es. \<exists>k s t. fst e = InternalKey k s t \<and> s \<le> kMaxSequenceNumber \<and> t \<le> kTypeValue)"

text \<open>Entries in the order of internal keys, as a memtable, a table or a merge of them has them.\<close>

locale sorted_keys = user_comparator Compare Separator Successor
  for Compare Separator Successor +
  fixes es :: "entry list"
  assumes keys: "keys_ok es"
    and sorted: "sorted_wrt (\<lambda>a b. InternalKey_Compare Compare (fst a) (fst b) < 0) es"
begin

abbreviation uk :: "nat \<Rightarrow> bytes" where "uk i \<equiv> ExtractUserKey (fst (es ! i))"
abbreviation ty :: "nat \<Rightarrow> value_type" where "ty i \<equiv> ExtractValueType (fst (es ! i))"

lemma key_parts:
  assumes "i < length es"
  obtains k s t where "fst (es ! i) = InternalKey k s t" "s \<le> kMaxSequenceNumber" "t \<le> kTypeValue"
    "uk i = k" "ty i = t" "\<And>S. visible S (es ! i) \<longleftrightarrow> s \<le> S" "ParseInternalKey (fst (es ! i)) = Some \<lparr>pik_user_key = k, pik_sequence = s, pik_type = t\<rparr>"
proof -
  obtain k s t where e: "fst (es ! i) = InternalKey k s t" "s \<le> kMaxSequenceNumber" "t \<le> kTypeValue"
    using keys nth_mem [OF assms] unfolding keys_ok_def by blast
  have "ParseInternalKey (InternalKey k s t) = Some \<lparr>pik_user_key = k, pik_sequence = s, pik_type = t\<rparr>"
    using ParseInternalKey_InternalKey e by blast
  moreover have "ExtractValueType (InternalKey k s t) = t"
    using unpack(2) [of s t] by (simp add: ExtractValueType_def InternalKey_eq unpack(1) Let_def)
  moreover have "ExtractUserKey (InternalKey k s t) = k" by (simp add: InternalKey_eq)
  ultimately show ?thesis using that e by (simp add: visible_def)
qed

lemma uk_sorted: "i \<le> j \<Longrightarrow> j < length es \<Longrightarrow> Compare (uk i) (uk j) \<le> 0"
proof (cases "i = j")
  case True
  then show ?thesis using cmp_self by simp
next
  case False
  assume "i \<le> j" "j < length es"
  then have less: "InternalKey_Compare Compare (fst (es ! i)) (fst (es ! j)) < 0" using sorted_wrt_nth_less [OF sorted] False by simp
  have len: "8 \<le> length (fst (es ! x))" if "x < length es" for x using that by (rule key_parts) (simp add: InternalKey_eq)
  show ?thesis using icmp_less_iff(1) [OF len len, of i j] less \<open>i \<le> j\<close> \<open>j < length es\<close> by auto
qed

lemma key_same:
  assumes "i \<le> j" and "j \<le> m" and "m < length es" and "Compare (uk i) (uk m) = 0"
  shows "Compare (uk i) (uk j) = 0" and "Compare (uk j) (uk m) = 0"
proof -
  have "Compare (uk i) (uk j) \<le> 0" "Compare (uk j) (uk m) \<le> 0" using uk_sorted assms by simp_all
  moreover have "Compare (uk m) (uk i) \<le> 0" using assms(4) cmp_zero_sym [of "uk i" "uk m"] by simp
  ultimately have "Compare (uk j) (uk i) \<le> 0" "Compare (uk m) (uk j) \<le> 0" using cmp_trans by blast+
  then show "Compare (uk i) (uk j) = 0" "Compare (uk j) (uk m) = 0"
    using \<open>Compare (uk i) (uk j) \<le> 0\<close> \<open>Compare (uk j) (uk m) \<le> 0\<close> cmp_flip by (metis linorder_not_less order_le_less)+
qed

lemma same_trans: "Compare a b = 0 \<Longrightarrow> Compare b c = 0 \<Longrightarrow> Compare a c = 0"
  using cmp_trans [of a b c] cmp_trans [of c b a] cmp_zero_sym [of a b] cmp_zero_sym [of b c] cmp_flip [of a c] by force

end

locale snapshot_scan = internal: entry_iterator ops "InternalKey_Compare Compare" es stands target_ok +
    sorted_keys Compare Separator Successor es
  for ops :: "'i iterator_class" and Compare Separator Successor es stands target_ok +
  fixes S :: sequence_number
  assumes sequence: "S \<le> kMaxSequenceNumber"
begin

abbreviation vis :: "nat \<Rightarrow> bool" where "vis i \<equiv> visible S (es ! i)"
abbreviation shows_at :: "nat \<Rightarrow> bool" where "shows_at i \<equiv> shown Compare S es i"

lemma parts:
  assumes "i < length es"
  obtains k s t where "fst (es ! i) = InternalKey k s t" "s \<le> kMaxSequenceNumber" "t \<le> kTypeValue"
    "uk i = k" "ty i = t" "vis i \<longleftrightarrow> s \<le> S" "ParseInternalKey (fst (es ! i)) = Some \<lparr>pik_user_key = k, pik_sequence = s, pik_type = t\<rparr>"
proof (rule key_parts [OF assms])
  fix k s t
  assume "fst (es ! i) = InternalKey k s t" "s \<le> kMaxSequenceNumber" "t \<le> kTypeValue" "uk i = k" "ty i = t"
    "\<And>S. visible S (es ! i) \<longleftrightarrow> s \<le> S" "ParseInternalKey (fst (es ! i)) = Some \<lparr>pik_user_key = k, pik_sequence = s, pik_type = t\<rparr>"
  then show thesis by (rule that)
qed

lemma shows_first: "shows_at i \<Longrightarrow> j < i \<Longrightarrow> vis j \<Longrightarrow> Compare (uk j) (uk i) \<noteq> 0"
  by (simp add: shown_def)

subsection \<open>Positions in the view\<close>

definition pos :: "nat \<Rightarrow> nat" where
  "pos i = length (filter shows_at [0..<i])"

abbreviation view :: "entry list" where "view \<equiv> snapshot_view Compare S es"

lemma pos_Suc [simp]: "pos (Suc i) = (if shows_at i then Suc (pos i) else pos i)"
  by (simp add: pos_def)

lemma pos_0 [simp]: "pos 0 = 0"
  by (simp add: pos_def)

lemma pos_length: "pos (length es) = length view"
  by (simp add: pos_def snapshot_view_def)

lemma pos_same: "i \<le> j \<Longrightarrow> \<forall>m. i \<le> m \<longrightarrow> m < j \<longrightarrow> \<not> shows_at m \<Longrightarrow> pos j = pos i"
  by (induction j rule: dec_induct) auto

lemma pos_nth:
  assumes "i < length es" and "shows_at i"
  shows "pos i < length view" and "view ! pos i = (uk i, snd (es ! i))"
proof -
  have split: "[0..<length es] = [0..<i] @ i # [Suc i..<length es]" using assms(1) by (metis less_imp_le_nat upt_add_eq_append upt_conv_Cons le0 le_add_diff_inverse)
  then have "filter shows_at [0..<length es] = filter shows_at [0..<i] @ i # filter shows_at [Suc i..<length es]" using assms(2) by simp
  then show "pos i < length view" "view ! pos i = (uk i, snd (es ! i))"
    by (simp_all add: snapshot_view_def pos_def nth_append)
qed

subsection \<open>Looking at one entry\<close>

definition fresh :: "'i db_iter \<Rightarrow> bool" where
  "fresh d \<longleftrightarrow> seed_ok (di_rnd d) \<and> di_sequence d = S \<and> ok (di_status d)"

lemma fresh_simps [simp]:
  "fresh (d\<lparr>di_saved_key := k\<rparr>) = fresh d" "fresh (d\<lparr>di_saved_value := v\<rparr>) = fresh d" "fresh (d\<lparr>di_valid := b\<rparr>) = fresh d"
  "fresh (d\<lparr>di_direction := dir\<rparr>) = fresh d" "fresh (inner f d) = fresh d" "fresh (ClearSavedValue d) = fresh d"
  by (simp_all add: fresh_def inner_def ClearSavedValue_def)

lemma inner_simps [simp]:
  "di_iter (inner f d) = f (di_iter d)" "di_saved_key (inner f d) = di_saved_key d" "di_saved_value (inner f d) = di_saved_value d"
  "di_direction (inner f d) = di_direction d" "di_valid (inner f d) = di_valid d" "di_sequence (inner f d) = di_sequence d"
  by (simp_all add: inner_def)

lemma ClearSavedValue_simps [simp]:
  "di_iter (ClearSavedValue d) = di_iter d" "di_saved_key (ClearSavedValue d) = di_saved_key d"
  "di_direction (ClearSavedValue d) = di_direction d" "di_valid (ClearSavedValue d) = di_valid d" "di_sequence (ClearSavedValue d) = di_sequence d"
  by (simp_all add: ClearSavedValue_def)

lemma ParseKey_at:
  assumes "stands (di_iter d) i" and "i < length es" and "fresh d"
  obtains k d' where "ParseKey ops d = Some (Some k, d')" "pik_user_key k = uk i" "pik_type k = ty i"
    "pik_sequence k \<le> di_sequence d' \<longleftrightarrow> vis i" "ty i = kTypeDeletion \<or> ty i = kTypeValue" "fresh d'"
    "di_iter d' = di_iter d" "di_saved_key d' = di_saved_key d" "di_saved_value d' = di_saved_value d" "di_direction d' = di_direction d"
proof -
  obtain k s t where e: "fst (es ! i) = InternalKey k s t" "t \<le> kTypeValue" "uk i = k" "ty i = t" "vis i \<longleftrightarrow> s \<le> S"
    "ParseInternalKey (fst (es ! i)) = Some \<lparr>pik_user_key = k, pik_sequence = s, pik_type = t\<rparr>"
    using assms(2) by (rule parts)
  have key: "it_key ops (di_iter d) = fst (es ! i)" using internal.key_at assms(1,2) by blast
  let ?d = "d\<lparr>di_bytes_counter := di_bytes_counter d - int (length (it_key ops (di_iter d)) + length (it_value ops (di_iter d)))\<rparr>"
  have "seed_ok (di_rnd ?d)" using assms(3) by (simp add: fresh_def)
  from sample_loop_returns [OF this] obtain d' where d': "sample_loop (fst (es ! i)) ?d = Some d'" "sampled ?d d'" by blast
  have "unat t < 2" using e(2) by (simp add: kTypeValue_def word_le_nat_alt)
  then have "unat t = unat (0 :: byte) \<or> unat t = unat (1 :: byte)" by (simp add: less_2_cases_iff)
  then have "t = kTypeDeletion \<or> t = kTypeValue"
    unfolding kTypeDeletion_def kTypeValue_def by (simp only: word_unat_eq_iff [symmetric])
  moreover have "ParseKey ops d = Some (Some \<lparr>pik_user_key = k, pik_sequence = s, pik_type = t\<rparr>, d')"
    using d'(1) key e(6) by (simp add: ParseKey_def Let_def)
  ultimately show ?thesis
    using that d'(2) e assms(3) by (simp add: sampled_def fresh_def)
qed

subsection \<open>Scanning forward\<close>

text \<open>
  The entries from \<open>i\<close> on that the flag and the saved key hide are those whose key has a visible entry
  before \<open>i\<close>, or before the bound \<open>b\<close> behind the entry that is left.
\<close>

definition hides :: "nat \<Rightarrow> nat \<Rightarrow> bool \<Rightarrow> bytes \<Rightarrow> bool" where
  "hides b i skipping sk \<longleftrightarrow> (\<forall>j. i \<le> j \<longrightarrow> j < length es \<longrightarrow> vis j \<longrightarrow>
     (skipping \<and> Compare (uk j) sk \<le> 0 \<longleftrightarrow> (\<exists>m < max i b. vis m \<and> Compare (uk m) (uk j) = 0)))"

lemma less_max_Suc: "m < max (Suc i) b \<longleftrightarrow> m < max i b \<or> m = i"
  by (auto simp: less_max_iff_disj)

lemma hides_invisible:
  assumes "hides b i skipping sk" and "\<not> vis i"
  shows "hides b (Suc i) skipping sk"
  unfolding hides_def
proof (intro allI impI)
  fix j assume j: "Suc i \<le> j" "j < length es" "vis j"
  have "(\<exists>m < max i b. vis m \<and> Compare (uk m) (uk j) = 0) \<longleftrightarrow> (\<exists>m < max (Suc i) b. vis m \<and> Compare (uk m) (uk j) = 0)"
    unfolding less_max_Suc using assms(2) by blast
  then show "(skipping \<and> Compare (uk j) sk \<le> 0) = (\<exists>m < max (Suc i) b. vis m \<and> Compare (uk m) (uk j) = 0)"
    using assms(1) j by (simp add: hides_def)
qed

lemma hides_hidden:
  assumes "hides b i skipping sk" and "i < length es" and "vis i" and "skipping" and "Compare (uk i) sk \<le> 0"
  shows "hides b (Suc i) skipping sk"
  unfolding hides_def
proof (intro allI impI)
  fix j assume j: "Suc i \<le> j" "j < length es" "vis j"
  obtain m where m: "m < max i b" "vis m" "Compare (uk m) (uk i) = 0" using assms by (auto simp: hides_def)
  have "Compare (uk m) (uk j) = 0" if "Compare (uk i) (uk j) = 0" using same_trans [OF m(3) that] .
  then have "(\<exists>m < max (Suc i) b. vis m \<and> Compare (uk m) (uk j) = 0) \<longleftrightarrow> (\<exists>m < max i b. vis m \<and> Compare (uk m) (uk j) = 0)"
    unfolding less_max_Suc using m by blast
  then show "(skipping \<and> Compare (uk j) sk \<le> 0) = (\<exists>m < max (Suc i) b. vis m \<and> Compare (uk m) (uk j) = 0)"
    using assms(1) j by (simp add: hides_def)
qed

lemma hides_from:
  assumes "x < length es" and "vis x" and "x < b" and "q \<le> x" and "\<forall>m. x < m \<longrightarrow> m < b \<longrightarrow> Compare (uk x) (uk m) = 0"
    and "\<forall>m. q \<le> m \<longrightarrow> m < x \<longrightarrow> \<not> vis m" and "b \<le> length es"
  shows "hides b q True (uk x)"
  unfolding hides_def
proof (intro allI impI)
  fix j assume j: "q \<le> j" "j < length es" "vis j"
  then have xj: "x \<le> j" using assms(6) by force
  have "Compare (uk j) (uk x) \<le> 0 \<longleftrightarrow> Compare (uk x) (uk j) = 0"
    using uk_sorted [OF xj j(2)] cmp_flip [of "uk x" "uk j"] cmp_flip [of "uk j" "uk x"] by simp linarith
  also have "\<dots> \<longleftrightarrow> (\<exists>m < max q b. vis m \<and> Compare (uk m) (uk j) = 0)"
  proof
    assume "Compare (uk x) (uk j) = 0"
    then show "\<exists>m < max q b. vis m \<and> Compare (uk m) (uk j) = 0" using assms(2,3) by (intro exI [of _ x]) simp
  next
    assume "\<exists>m < max q b. vis m \<and> Compare (uk m) (uk j) = 0"
    then obtain m where m: "m < b" "Compare (uk m) (uk j) = 0" using assms(3,4) by auto
    show "Compare (uk x) (uk j) = 0"
    proof (cases "x < m")
      case True
      then have *: "Compare (uk x) (uk m) = 0" using assms(5) m(1) by blast
      then show ?thesis using same_trans m(2) by blast
    next
      case False
      then show ?thesis using key_same(2) [of m x j] m(2) xj j(2) by simp
    qed
  qed
  finally show "(True \<and> Compare (uk j) (uk x) \<le> 0) = (\<exists>m < max q b. vis m \<and> Compare (uk m) (uk j) = 0)" by simp
qed

lemma hides_deletion:
  assumes "hides b i skipping sk" and "i < length es" and "vis i" and "b \<le> length es"
    and "\<forall>m. i < m \<longrightarrow> m < b \<longrightarrow> Compare (uk i) (uk m) = 0"
  shows "hides b (Suc i) True (uk i)"
proof (cases "i < b")
  case True
  have "hides b i True (uk i)" by (rule hides_from) (use assms True in auto)
  then show ?thesis using hides_hidden [of b i True "uk i"] assms(2,3) cmp_self by simp
next
  case False
  have "hides (Suc i) i True (uk i)" by (rule hides_from) (use assms(2,3) in auto)
  then have "hides (Suc i) (Suc i) True (uk i)" using hides_hidden [of "Suc i" i True "uk i"] assms(2,3) cmp_self by simp
  then show ?thesis using False by (simp add: hides_def max_def)
qed

text \<open>
  The bound \<open>b\<close> is right behind the entry \<open>x\<close> that is left, so that all entries between have its key or a smaller one;
  without such an entry it is not behind \<open>i\<close>.
\<close>

definition next_found :: "nat \<Rightarrow> nat \<Rightarrow> 'i db_iter \<Rightarrow> bool" where
  "next_found b i d \<longleftrightarrow> fresh d \<and> di_direction d = kForward \<and>
     (\<exists>j \<le> length es. stands (di_iter d) j \<and> i \<le> j \<and> (di_valid d \<longleftrightarrow> j < length es) \<and>
        (\<forall>m. i \<le> m \<longrightarrow> b \<le> m \<longrightarrow> m < j \<longrightarrow> \<not> shows_at m) \<and> (j < length es \<longrightarrow> b \<le> j \<and> shows_at j))"

lemma FindNext_finds:
  assumes "stands (di_iter d) i" and "i < length es" and "fresh d" and "di_direction d = kForward"
    and "hides b i skipping (di_saved_key d)" and "b \<le> length es"
    and "\<forall>m m'. i \<le> m \<longrightarrow> m < m' \<longrightarrow> m' < b \<longrightarrow> vis m \<longrightarrow> Compare (uk m) (uk m') = 0"
  shows "\<exists>d'. FindNextUserEntry ops Compare skipping d = Some d' \<and> next_found b i d'"
  using assms
proof (induction "length es - i" arbitrary: d i skipping rule: less_induct)
  case less
  note at = less.prems(1,2)
  from ParseKey_at [OF at less.prems(3)]
  obtain k d1 where parse: "ParseKey ops d = Some (Some k, d1)" "pik_user_key k = uk i" "pik_type k = ty i"
    "pik_sequence k \<le> di_sequence d1 \<longleftrightarrow> vis i" "ty i = kTypeDeletion \<or> ty i = kTypeValue" "fresh d1"
    "di_iter d1 = di_iter d" "di_saved_key d1 = di_saved_key d" "di_direction d1 = di_direction d"
    by metis
  have kinds: "kTypeDeletion \<noteq> kTypeValue" by (simp add: kTypeDeletion_def kTypeValue_def)
  obtain found sk d2 where step: "consider_next Compare (Some k) skipping d1 = (found, sk, d2)" by (metis prod_cases3)
  have eq: "FindNextUserEntry ops Compare skipping d = (if found then Some d2
      else if it_Valid ops (it_Next ops (di_iter d2)) then FindNextUserEntry ops Compare sk (inner (it_Next ops) d2)
      else Some ((inner (it_Next ops) d2)\<lparr>di_saved_key := [], di_valid := False\<rparr>))"
    using parse(1) step by (subst FindNextUserEntry.simps) (simp add: Let_def)
  show ?case
  proof (cases found)
    case True
    then have f: "vis i" "ty i = kTypeValue" "\<not> (skipping \<and> Compare (uk i) (di_saved_key d) \<le> 0)" "d2 = d1\<lparr>di_valid := True, di_saved_key := []\<rparr>"
      using step parse kinds by (auto simp: consider_next_def split: if_splits)
    then have none: "\<not> (\<exists>m < max i b. vis m \<and> Compare (uk m) (uk i) = 0)"
      using less.prems(5) [unfolded hides_def, rule_format, OF order_refl less.prems(2) f(1)] f(3) by blast
    then have "shows_at i" using f by (auto simp: shown_def)
    moreover have "b \<le> i" using none f(1) cmp_self [of "uk i"] by (meson linorder_not_le less_max_iff_disj)
    moreover have "fresh d2" "di_direction d2 = kForward" "di_iter d2 = di_iter d" "di_valid d2"
      using f(4) parse(6,7,9) less.prems(4) by simp_all
    ultimately have "next_found b i d2" using at unfolding next_found_def by (intro conjI exI [of _ i]) simp_all
    then show ?thesis using eq True by simp
  next
    case False
    have hidden: "hides b (Suc i) sk (di_saved_key d2)"
      and d2: "di_iter d2 = di_iter d" "fresh d2" "di_direction d2 = kForward" and not_shown: "\<not> (b \<le> i \<and> shows_at i)"
    proof -
      consider "\<not> vis i" "sk = skipping" "d2 = d1" | "vis i" "ty i = kTypeDeletion" "sk = True" "d2 = d1\<lparr>di_saved_key := uk i\<rparr>"
        | "vis i" "skipping" "Compare (uk i) (di_saved_key d) \<le> 0" "sk = skipping" "d2 = d1"
        using step False parse kinds by (auto simp: consider_next_def split: if_splits)
      then have "hides b (Suc i) sk (di_saved_key d2) \<and> di_iter d2 = di_iter d \<and> fresh d2 \<and> di_direction d2 = kForward \<and> \<not> (b \<le> i \<and> shows_at i)"
      proof cases
        case 1
        then show ?thesis using hides_invisible less.prems(5) parse less.prems(4) by (simp add: shown_def)
      next
        case 2
        have "\<forall>m. i < m \<longrightarrow> m < b \<longrightarrow> Compare (uk i) (uk m) = 0" using less.prems(7) 2(1) by blast
        then have "hides b (Suc i) True (uk i)" using hides_deletion less.prems(2,5,6) 2(1) by blast
        then show ?thesis using 2 parse kinds less.prems(4) by (simp add: shown_def)
      next
        case 3
        have "\<exists>m < max i b. vis m \<and> Compare (uk m) (uk i) = 0" using less.prems(2,5) 3 by (auto simp: hides_def)
        then have "\<not> (b \<le> i \<and> shows_at i)" using shows_first by (auto simp: max_def)
        then show ?thesis using hides_hidden [OF less.prems(5,2) 3(1-3)] 3 parse less.prems(4) by simp
      qed
      then show "hides b (Suc i) sk (di_saved_key d2)" "di_iter d2 = di_iter d" "fresh d2" "di_direction d2 = kForward" "\<not> (b \<le> i \<and> shows_at i)"
        by blast+
    qed
    let ?d = "inner (it_Next ops) d2"
    have st: "stands (di_iter ?d) (Suc i)" using internal.next_at at d2(1) by simp
    show ?thesis
    proof (cases "Suc i < length es")
      case True
      have "\<exists>d'. FindNextUserEntry ops Compare sk ?d = Some d' \<and> next_found b (Suc i) d'"
        using True st d2 hidden less.prems(6,7) at(2) by (intro less.hyps) auto
      moreover have "next_found b i d'" if "next_found b (Suc i) d'" for d'
        using that not_shown unfolding next_found_def by (metis Suc_le_eq le_eq_less_or_eq)
      ultimately show ?thesis using eq False st True by (auto simp: internal.valid_iff)
    next
      case end_reached: False
      then have "Suc i = length es" using at(2) by simp
      moreover have "next_found b i (?d\<lparr>di_saved_key := [], di_valid := False\<rparr>)"
      proof -
        have "m = i" if "i \<le> m" "m < Suc i" for m using that by simp
        then have "\<forall>m. i \<le> m \<longrightarrow> b \<le> m \<longrightarrow> m < Suc i \<longrightarrow> \<not> shows_at m" using not_shown by blast
        then show ?thesis unfolding next_found_def using d2 st calculation by (intro conjI exI [of _ "Suc i"]) simp_all
      qed
      ultimately show ?thesis using eq False st by (auto simp: internal.valid_iff)
    qed
  qed
qed

subsection \<open>Scanning backward\<close>

text \<open>The inner iterator stands in front of the entry \<open>q\<close>; it is not valid in front of the first one.\<close>

definition before :: "'i \<Rightarrow> nat \<Rightarrow> bool" where
  "before it q \<longleftrightarrow> q \<le> length es \<and> stands it (if q = 0 then length es else q - 1)"

lemma before_valid: "before it q \<Longrightarrow> it_Valid ops it \<longleftrightarrow> 0 < q"
  unfolding before_def by (cases q) (auto simp: internal.valid_iff)

lemma before_prev: "before it (Suc q) \<Longrightarrow> before (it_Prev ops it) q"
  unfolding before_def using internal.prev_at [of it q] by auto

text \<open>What was collected from the entries between \<open>q\<close> and \<open>q'\<close>.\<close>

definition collected :: "nat \<Rightarrow> nat \<Rightarrow> value_type \<Rightarrow> 'i db_iter \<Rightarrow> bool" where
  "collected q q' type d \<longleftrightarrow>
     (if type = kTypeDeletion then \<forall>m. q \<le> m \<longrightarrow> m < q' \<longrightarrow> \<not> shows_at m
      else \<exists>m. q \<le> m \<and> m < q' \<and> vis m \<and> ty m = kTypeValue \<and> di_saved_key d = uk m \<and> di_saved_value d = snd (es ! m) \<and>
        (\<forall>j. q \<le> j \<longrightarrow> j < m \<longrightarrow> \<not> vis j) \<and> (\<forall>j. m < j \<longrightarrow> j < q' \<longrightarrow> \<not> shows_at j))"

definition prev_found :: "nat \<Rightarrow> value_type \<Rightarrow> 'i db_iter \<Rightarrow> bool" where
  "prev_found q' type d \<longleftrightarrow>
     (if type = kTypeDeletion then \<forall>m < q'. \<not> shows_at m
      else \<exists>m < q'. shows_at m \<and> di_saved_key d = uk m \<and> di_saved_value d = snd (es ! m) \<and>
        (\<exists>q \<le> m. before (di_iter d) q \<and> (\<forall>j. q \<le> j \<longrightarrow> j < m \<longrightarrow> \<not> vis j)) \<and> (\<forall>j. m < j \<longrightarrow> j < q' \<longrightarrow> \<not> shows_at j))"

lemma later_not_shown:
  assumes "collected (Suc i) q' type d" and "vis i" and "type = kTypeDeletion \<or> \<not> Compare (uk i) (di_saved_key d) < 0"
    and "q' \<le> length es" and "i < m" and "m < q'"
  shows "\<not> shows_at m"
proof (cases "type = kTypeDeletion")
  case True
  then show ?thesis using assms by (simp add: collected_def)
next
  case False
  then obtain x where x: "Suc i \<le> x" "x < q'" "di_saved_key d = uk x" "\<forall>j. Suc i \<le> j \<longrightarrow> j < x \<longrightarrow> \<not> vis j"
      "\<forall>j. x < j \<longrightarrow> j < q' \<longrightarrow> \<not> shows_at j"
    using assms(1) by (auto simp: collected_def)
  have "Compare (uk i) (uk x) \<le> 0" using uk_sorted [of i x] x assms(4) by simp
  then have "Compare (uk i) (uk x) = 0" using assms(3) False x(3) by simp
  then have "\<not> shows_at x" using shows_first [of x i] assms(2) x(1) by auto
  then show ?thesis using x assms(5,6) by (metis Suc_leI linorder_neqE_nat shown_def)
qed

lemma find_prev_finds:
  assumes "before (di_iter d) q" and "0 < q" and "q \<le> q'" and "q' \<le> length es" and "fresh d" and "collected q q' type d"
  shows "\<exists>type' d'. find_prev_loop ops Compare type d = Some (type', d') \<and> fresh d' \<and> di_direction d' = di_direction d \<and>
    (\<exists>j. stands (di_iter d') j) \<and> prev_found q' type' d'"
  using assms
proof (induction q arbitrary: d type)
  case (Suc i)
  have at: "stands (di_iter d) i" "i < length es" using Suc.prems(1,3,4) by (simp_all add: before_def)
  from ParseKey_at [OF at Suc.prems(5)]
  obtain k d1 where parse: "ParseKey ops d = Some (Some k, d1)" "pik_user_key k = uk i" "pik_type k = ty i"
    "pik_sequence k \<le> di_sequence d1 \<longleftrightarrow> vis i" "ty i = kTypeDeletion \<or> ty i = kTypeValue" "fresh d1"
    "di_iter d1 = di_iter d" "di_saved_key d1 = di_saved_key d" "di_saved_value d1 = di_saved_value d" "di_direction d1 = di_direction d"
    by metis
  have kinds: "kTypeDeletion \<noteq> kTypeValue" by (simp add: kTypeDeletion_def kTypeValue_def)
  have key: "it_key ops (di_iter d1) = fst (es ! i)" "it_value ops (di_iter d1) = snd (es ! i)"
    using internal.key_at [OF at] internal.value_at [OF at] parse(7) by simp_all
  obtain stop t d2 where step: "consider_prev ops Compare (Some k) type d1 = (stop, t, d2)" by (metis prod_cases3)
  have eq: "find_prev_loop ops Compare type d = (if stop then Some (t, d2)
      else if it_Valid ops (it_Prev ops (di_iter d2)) then find_prev_loop ops Compare t (inner (it_Prev ops) d2)
      else Some (t, inner (it_Prev ops) d2))"
    using parse(1) step by (subst find_prev_loop.simps) (simp add: Let_def)
  show ?case
  proof (cases stop)
    case True
    then have s: "vis i" "type \<noteq> kTypeDeletion" "Compare (uk i) (di_saved_key d) < 0" "t = type" "d2 = d1"
      using step parse by (auto simp: consider_prev_def split: if_splits)
    then obtain m where m: "Suc i \<le> m" "m < q'" "vis m" "ty m = kTypeValue" "di_saved_key d = uk m" "di_saved_value d = snd (es ! m)"
      "\<forall>j. Suc i \<le> j \<longrightarrow> j < m \<longrightarrow> \<not> vis j" "\<forall>j. m < j \<longrightarrow> j < q' \<longrightarrow> \<not> shows_at j"
      using Suc.prems(6) by (auto simp: collected_def)
    have "Compare (uk j) (uk m) \<noteq> 0" if "j < m" "vis j" for j
    proof
      assume zero: "Compare (uk j) (uk m) = 0"
      have "j \<le> i" using m(7) that by (meson not_less_eq_eq)
      then have "Compare (uk i) (uk m) = 0" using key_same(2) [of j i m] zero m(1,2) Suc.prems(4) by simp
      then show False using s(3) m(5) by simp
    qed
    then have "shows_at m" using m(3,4) by (auto simp: shown_def)
    moreover have "\<exists>q \<le> m. before (di_iter d2) q \<and> (\<forall>j. q \<le> j \<longrightarrow> j < m \<longrightarrow> \<not> vis j)"
      using Suc.prems(1) s(5) parse(7) m(1,7) by (intro exI [of _ "Suc i"]) simp
    moreover have "di_saved_key d2 = uk m" "di_saved_value d2 = snd (es ! m)" using s(5) parse(8,9) m(5,6) by simp_all
    ultimately have "prev_found q' t d2" using s(2,4) m(2,8) unfolding prev_found_def by (simp only: if_False) blast
    then show ?thesis using eq True s parse at by auto
  next
    case False
    have "collected i q' t d2 \<and> fresh d2 \<and> di_iter d2 = di_iter d \<and> di_direction d2 = di_direction d"
    proof -
      consider "\<not> vis i" "t = type" "d2 = d1"
        | "vis i" "ty i = kTypeDeletion" "t = kTypeDeletion" "d2 = ClearSavedValue (d1\<lparr>di_saved_key := []\<rparr>)"
            "type = kTypeDeletion \<or> \<not> Compare (uk i) (di_saved_key d) < 0"
        | "vis i" "ty i = kTypeValue" "t = kTypeValue" "d2 = d1\<lparr>di_saved_key := uk i, di_saved_value := snd (es ! i)\<rparr>"
            "type = kTypeDeletion \<or> \<not> Compare (uk i) (di_saved_key d) < 0"
        using step False parse key kinds by (auto simp: consider_prev_def split: if_splits)
      then show ?thesis
      proof cases
        case 1
        have "collected i q' type d1"
        proof (cases "type = kTypeDeletion")
          case True
          then show ?thesis using Suc.prems(6) 1(1) by (simp add: collected_def shown_def) (metis Suc_leI le_eq_less_or_eq)
        next
          case nd: False
          then obtain m where m: "Suc i \<le> m" "m < q'" "vis m" "ty m = kTypeValue" "di_saved_key d = uk m" "di_saved_value d = snd (es ! m)"
            "\<forall>j. Suc i \<le> j \<longrightarrow> j < m \<longrightarrow> \<not> vis j" "\<forall>j. m < j \<longrightarrow> j < q' \<longrightarrow> \<not> shows_at j"
            using Suc.prems(6) by (auto simp: collected_def)
          then have "\<forall>j. i \<le> j \<longrightarrow> j < m \<longrightarrow> \<not> vis j" using 1(1) by (metis Suc_leI le_eq_less_or_eq)
          then show ?thesis using nd m parse by (auto simp: collected_def intro!: exI [of _ m])
        qed
        then show ?thesis using 1 parse by simp
      next
        case 2
        have "\<not> shows_at m" if "i \<le> m" "m < q'" for m
          using later_not_shown [OF Suc.prems(6) 2(1,5) Suc.prems(4)] that 2(2) kinds
          by (cases "m = i") (simp_all add: shown_def)
        then show ?thesis using 2 parse by (simp add: collected_def)
      next
        case 3
        have "\<not> shows_at m" if "i < m" "m < q'" for m
          using later_not_shown [OF Suc.prems(6) 3(1,5) Suc.prems(4)] that by simp
        then have "collected i q' kTypeValue d2" using 3 Suc.prems(3) kinds by (auto simp: collected_def intro!: exI [of _ i])
        then show ?thesis using 3 parse by simp
      qed
    qed
    then have d2: "collected i q' t d2" "fresh d2" "di_iter d2 = di_iter d" "di_direction d2 = di_direction d" by blast+
    let ?d = "inner (it_Prev ops) d2"
    have st: "before (di_iter ?d) i" using before_prev [OF Suc.prems(1)] d2(3) by simp
    have col: "collected i q' t ?d" using d2(1) by (simp add: collected_def)
    show ?thesis
    proof (cases "i = 0")
      case True
      have "prev_found q' t ?d"
      proof (cases "t = kTypeDeletion")
        case t: True
        then show ?thesis using col True by (simp add: collected_def prev_found_def)
      next
        case nd: False
        then obtain m where m: "m < q'" "vis m" "ty m = kTypeValue" "di_saved_key ?d = uk m" "di_saved_value ?d = snd (es ! m)"
            "\<forall>j < m. \<not> vis j" "\<forall>j. m < j \<longrightarrow> j < q' \<longrightarrow> \<not> shows_at j" using col True by (auto simp: collected_def)
        have "shows_at m" using m(2,3,6) by (auto simp: shown_def)
        moreover have "\<exists>q \<le> m. before (di_iter ?d) q \<and> (\<forall>j. q \<le> j \<longrightarrow> j < m \<longrightarrow> \<not> vis j)"
          using st True m(6) by (intro exI [of _ 0]) simp
        ultimately show ?thesis using m(1,4,5,7) nd unfolding prev_found_def by (simp only: if_False) blast
      qed
      moreover have "\<exists>j. stands (di_iter ?d) j" using st by (auto simp: before_def)
      ultimately show ?thesis using eq False before_valid [OF st] True d2 by auto
    next
      case more: False
      then have "\<exists>t' d'. find_prev_loop ops Compare t ?d = Some (t', d') \<and> fresh d' \<and> di_direction d' = di_direction ?d \<and>
          (\<exists>j. stands (di_iter d') j) \<and> prev_found q' t' d'"
        using st col d2 Suc.prems(3,4) by (intro Suc.IH) auto
      then show ?thesis using eq False before_valid [OF st] more d2 by auto
    qed
  qed
qed simp

subsection \<open>The iterator walks over the view\<close>

definition db_stands :: "'i db_iter \<Rightarrow> nat \<Rightarrow> bool" where
  "db_stands d p \<longleftrightarrow> fresh d \<and> (\<exists>j. stands (di_iter d) j) \<and>
     (if di_valid d then \<exists>i < length es. shows_at i \<and> p = pos i \<and>
        (if di_direction d = kForward then stands (di_iter d) i
         else di_saved_key d = uk i \<and> di_saved_value d = snd (es ! i) \<and>
           (\<exists>q \<le> i. before (di_iter d) q \<and> (\<forall>m. q \<le> m \<longrightarrow> m < i \<longrightarrow> \<not> vis m)))
      else p = length view)"

lemma not_vis_not_shown: "\<not> vis i \<Longrightarrow> \<not> shows_at i"
  by (simp add: shown_def)

lemma next_found_stands:
  assumes "next_found b i d" and "i \<le> b" and "b \<le> length es"
  shows "db_stands d (pos b)"
proof -
  obtain j where j: "j \<le> length es" "stands (di_iter d) j" "di_valid d \<longleftrightarrow> j < length es"
      "\<forall>m. i \<le> m \<longrightarrow> b \<le> m \<longrightarrow> m < j \<longrightarrow> \<not> shows_at m" "j < length es \<longrightarrow> b \<le> j \<and> shows_at j"
    and d: "fresh d" "di_direction d = kForward" using assms(1) by (auto simp: next_found_def)
  have "b \<le> j" using j(1,5) assms(3) by (cases "j < length es") auto
  then have same: "pos j = pos b" using j(4) assms(2) by (intro pos_same) auto
  show ?thesis
  proof (cases "j < length es")
    case True
    then show ?thesis using j d same unfolding db_stands_def by (auto intro!: exI [of _ j])
  next
    case False
    then have "pos b = length view" using j(1) same pos_length by simp
    then show ?thesis using False j d unfolding db_stands_def by auto
  qed
qed

lemma db_stands_reverse:
  assumes "fresh d" and "stands (di_iter d) j" and "di_valid d" and "di_direction d = kReverse" and "i < length es" and "shows_at i"
    and "di_saved_key d = uk i" and "di_saved_value d = snd (es ! i)" and "\<exists>q \<le> i. before (di_iter d) q \<and> (\<forall>m. q \<le> m \<longrightarrow> m < i \<longrightarrow> \<not> vis m)"
    and "p = pos i"
  shows "db_stands d p"
  unfolding db_stands_def using assms by (simp only: if_True direction.distinct if_False) blast

lemma FindPrev_stands:
  assumes "before (di_iter d) q" and "fresh d" and "di_direction d = kReverse"
  shows "\<exists>d'. FindPrevUserEntry ops Compare d = Some d' \<and> db_stands d' (if pos q = 0 then length view else pos q - 1)"
proof -
  have q: "q \<le> length es" "\<exists>j. stands (di_iter d) j" using assms(1) by (auto simp: before_def)
  show ?thesis
  proof (cases "q = 0")
    case True
    then show ?thesis using before_valid [OF assms(1)] assms(2) q
      by (simp add: FindPrevUserEntry_def db_stands_def ClearSavedValue_def fresh_def)
  next
    case False
    have col: "collected q q kTypeDeletion d" by (simp add: collected_def)
    then obtain t d' where d': "find_prev_loop ops Compare kTypeDeletion d = Some (t, d')" "fresh d'" "di_direction d' = kReverse"
        "\<exists>j. stands (di_iter d') j" "prev_found q t d'"
      using find_prev_finds [OF assms(1) _ order_refl q(1) assms(2) col] False assms(3) by (metis neq0_conv)
    have eq: "FindPrevUserEntry ops Compare d = Some (if t = kTypeDeletion
        then (ClearSavedValue (d'\<lparr>di_valid := False, di_saved_key := []\<rparr>))\<lparr>di_direction := kForward\<rparr> else d'\<lparr>di_valid := True\<rparr>)"
      using d'(1) before_valid [OF assms(1)] False by (simp add: FindPrevUserEntry_def)
    show ?thesis
    proof (cases "t = kTypeDeletion")
      case True
      then have "pos q = pos 0" using d'(5) by (intro pos_same) (simp_all add: prev_found_def)
      then show ?thesis using eq True d' by (simp add: db_stands_def)
    next
      case nd: False
      then obtain m where m: "m < q" "shows_at m" "di_saved_key d' = uk m" "di_saved_value d' = snd (es ! m)"
          "\<exists>q \<le> m. before (di_iter d') q \<and> (\<forall>j. q \<le> j \<longrightarrow> j < m \<longrightarrow> \<not> vis j)" "\<forall>j. m < j \<longrightarrow> j < q \<longrightarrow> \<not> shows_at j"
        using d'(5) by (auto simp: prev_found_def)
      obtain j where j: "stands (di_iter d') j" using d'(4) by blast
      have "pos q = pos (Suc m)" using m(1,6) by (intro pos_same) auto
      then have "pos q = Suc (pos m)" using m(2) by simp
      moreover have "m < length es" using m(1) q(1) by simp
      ultimately have "db_stands (d'\<lparr>di_valid := True\<rparr>) (pos q - 1)"
        using db_stands_reverse [of "d'\<lparr>di_valid := True\<rparr>" j m] m(2-5) d'(2,3) j \<open>pos q = Suc (pos m)\<close> by simp
      then show ?thesis using eq nd \<open>pos q = Suc (pos m)\<close> by simp
    qed
  qed
qed

lemma db_stands_valid:
  assumes "db_stands d p" and "di_valid d"
  shows "\<exists>i < length es. shows_at i \<and> p = pos i \<and> (if di_direction d = kForward then stands (di_iter d) i
      else di_saved_key d = uk i \<and> di_saved_value d = snd (es ! i) \<and>
        (\<exists>q \<le> i. before (di_iter d) q \<and> (\<forall>m. q \<le> m \<longrightarrow> m < i \<longrightarrow> \<not> vis m)))"
  using assms(1) unfolding db_stands_def by (simp only: assms(2) if_True)

lemma Next_stands:
  assumes "db_stands d p" and "di_valid d"
  shows "\<exists>d'. DBIter_Next ops Compare d = Some d' \<and> db_stands d' (Suc p)"
proof -
  obtain i where i: "i < length es" "shows_at i" "p = pos i" and dir: "if di_direction d = kForward then stands (di_iter d) i
      else di_saved_key d = uk i \<and> di_saved_value d = snd (es ! i) \<and>
        (\<exists>q \<le> i. before (di_iter d) q \<and> (\<forall>m. q \<le> m \<longrightarrow> m < i \<longrightarrow> \<not> vis m))"
    using db_stands_valid [OF assms] by blast
  have fresh: "fresh d" and vis: "vis i" using assms(1) i(2) by (auto simp: db_stands_def shown_def)
  have go: "\<exists>d'. FindNextUserEntry ops Compare True d1 = Some d' \<and> db_stands d' (Suc p)"
    if d1: "stands (di_iter d1) q" "q \<le> i" "fresh d1" "di_direction d1 = kForward" "di_saved_key d1 = uk i" "\<forall>m. q \<le> m \<longrightarrow> m < i \<longrightarrow> \<not> vis m" for d1 q
  proof -
    have "hides (Suc i) q True (di_saved_key d1)" unfolding d1(5) using i(1) vis d1(2,6) by (intro hides_from) auto
    then obtain d' where "FindNextUserEntry ops Compare True d1 = Some d'" "next_found (Suc i) q d'"
      using FindNext_finds [OF d1(1) _ d1(3,4), of "Suc i" True] d1(2,6) i(1) by fastforce
    then show ?thesis using next_found_stands [of "Suc i" q d'] d1(2) i by auto
  qed
  show ?thesis
  proof (cases "di_direction d = kForward")
    case True
    then have "it_key ops (di_iter d) = fst (es ! i)" using internal.key_at dir i(1) by simp
    then show ?thesis using go [of "d\<lparr>di_saved_key := uk i\<rparr>" i] True dir fresh by (simp add: DBIter_Next_def)
  next
    case False
    then have rev: "di_direction d = kReverse" by (cases "di_direction d") simp_all
    obtain q where q: "q \<le> i" "before (di_iter d) q" "\<forall>m. q \<le> m \<longrightarrow> m < i \<longrightarrow> \<not> vis m" using dir False by auto
    let ?d = "d\<lparr>di_direction := kForward\<rparr>"
    let ?d1 = "if \<not> it_Valid ops (di_iter d) then inner (it_SeekToFirst ops) ?d else inner (it_Next ops) ?d"
    have st: "stands (di_iter ?d1) q"
    proof (cases "q = 0")
      case True
      then show ?thesis using before_valid [OF q(2)] q(2) internal.first_at by (auto simp: before_def)
    next
      case pos: False
      then show ?thesis using before_valid [OF q(2)] q(1,2) i(1) internal.next_at [of "di_iter d" "q - 1"] by (simp add: before_def)
    qed
    have valid: "it_Valid ops (di_iter ?d1)" using internal.valid_iff [OF st] q(1) i(1) by simp
    have "DBIter_Next ops Compare d = FindNextUserEntry ops Compare True ?d1"
      using rev valid by (simp add: DBIter_Next_def Let_def)
    then show ?thesis using go [OF st q(1) _ _ _ q(3)] fresh dir False by auto
  qed
qed

lemma leave_key_leaves:
  assumes "stands (di_iter d) i" and "i \<le> x" and "x < length es" and "di_saved_key d = uk x" and "Compare (uk i) (uk x) = 0"
  shows "\<exists>changed d'. leave_key ops Compare d = Some (changed, d') \<and> (\<exists>j. stands (di_iter d') j) \<and> (fresh d \<longrightarrow> fresh d') \<and>
    (if changed then \<exists>q \<le> i. before (di_iter d') q \<and> (\<forall>m. q \<le> m \<longrightarrow> m \<le> i \<longrightarrow> Compare (uk m) (uk x) = 0)
     else \<not> di_valid d' \<and> (\<forall>m \<le> i. Compare (uk m) (uk x) = 0))"
  using assms
proof (induction i arbitrary: d)
  case 0
  then have "stands (it_Prev ops (di_iter d)) (length es)" using internal.prev_at [of "di_iter d" 0] by force
  then show ?case using 0 internal.valid_iff
    by (subst leave_key.simps) (auto simp: Let_def intro!: exI [of _ False])
next
  case (Suc i)
  then have st: "stands (it_Prev ops (di_iter d)) i" using internal.prev_at [of "di_iter d" "Suc i"] by force
  have i: "i < length es" using Suc.prems(2,3) by simp
  have valid: "it_Valid ops (it_Prev ops (di_iter d))" and key: "it_key ops (it_Prev ops (di_iter d)) = fst (es ! i)"
    using internal.valid_iff [OF st] internal.key_at [OF st i] i by simp_all
  have eq: "leave_key ops Compare d = (if Compare (uk i) (uk x) < 0 then Some (True, inner (it_Prev ops) d)
      else leave_key ops Compare (inner (it_Prev ops) d))"
    using valid key Suc.prems(4) by (subst leave_key.simps) (simp add: Let_def)
  have upto: "(\<forall>m. q \<le> m \<longrightarrow> m \<le> Suc i \<longrightarrow> Compare (uk m) (uk x) = 0)" if "\<forall>m. q \<le> m \<longrightarrow> m \<le> i \<longrightarrow> Compare (uk m) (uk x) = 0" for q
    using that Suc.prems(5) by (auto simp: le_Suc_eq)
  show ?case
  proof (cases "Compare (uk i) (uk x) < 0")
    case True
    have "before (di_iter (inner (it_Prev ops) d)) (Suc i)" using st i by (simp add: before_def)
    moreover have "\<forall>m. Suc i \<le> m \<longrightarrow> m \<le> Suc i \<longrightarrow> Compare (uk m) (uk x) = 0" using Suc.prems(5) by (simp add: le_antisym)
    ultimately show ?thesis using True st unfolding eq by (intro exI [of _ True] exI [of _ "inner (it_Prev ops) d"]) auto
  next
    case False
    then have "Compare (uk i) (uk x) = 0" using uk_sorted [of i x] Suc.prems(2,3) by simp
    then obtain changed d' where IH: "leave_key ops Compare (inner (it_Prev ops) d) = Some (changed, d')" "\<exists>j. stands (di_iter d') j"
        "fresh d \<longrightarrow> fresh d'" "if changed then \<exists>q \<le> i. before (di_iter d') q \<and> (\<forall>m. q \<le> m \<longrightarrow> m \<le> i \<longrightarrow> Compare (uk m) (uk x) = 0)
          else \<not> di_valid d' \<and> (\<forall>m \<le> i. Compare (uk m) (uk x) = 0)"
      using Suc.IH [of "inner (it_Prev ops) d"] st Suc.prems(2-4) by auto
    have "if changed then \<exists>q \<le> Suc i. before (di_iter d') q \<and> (\<forall>m. q \<le> m \<longrightarrow> m \<le> Suc i \<longrightarrow> Compare (uk m) (uk x) = 0)
          else \<not> di_valid d' \<and> (\<forall>m \<le> Suc i. Compare (uk m) (uk x) = 0)"
    proof (cases changed)
      case True
      then show ?thesis using IH(4) upto le_SucI by (simp only: if_True) blast
    next
      case False
      then show ?thesis using IH(4) upto [of 0] by simp
    qed
    then show ?thesis using IH(1-3) False unfolding eq by (intro exI [of _ changed] exI [of _ d']) simp
  qed
qed

lemma Prev_stands:
  assumes "db_stands d p" and "di_valid d"
  shows "\<exists>d'. DBIter_Prev ops Compare d = Some d' \<and> db_stands d' (if p = 0 then length view else p - 1)"
proof -
  obtain i where i: "i < length es" "shows_at i" "p = pos i" and dir: "if di_direction d = kForward then stands (di_iter d) i
      else di_saved_key d = uk i \<and> di_saved_value d = snd (es ! i) \<and>
        (\<exists>q \<le> i. before (di_iter d) q \<and> (\<forall>m. q \<le> m \<longrightarrow> m < i \<longrightarrow> \<not> vis m))"
    using db_stands_valid [OF assms] by blast
  have fresh: "fresh d" using assms(1) by (simp add: db_stands_def)
  show ?thesis
  proof (cases "di_direction d = kForward")
    case True
    then have st: "stands (di_iter d) i" and key: "it_key ops (di_iter d) = fst (es ! i)" using internal.key_at dir i(1) by simp_all
    let ?d = "d\<lparr>di_saved_key := uk i\<rparr>"
    obtain changed d' where l: "leave_key ops Compare ?d = Some (changed, d')" "\<exists>j. stands (di_iter d') j" "fresh d'"
        "if changed then \<exists>q \<le> i. before (di_iter d') q \<and> (\<forall>m. q \<le> m \<longrightarrow> m \<le> i \<longrightarrow> Compare (uk m) (uk i) = 0)
         else \<not> di_valid d' \<and> (\<forall>m \<le> i. Compare (uk m) (uk i) = 0)"
      using leave_key_leaves [of ?d i i] st i(1) fresh cmp_self by auto
    have hidden: "\<not> shows_at m" if "m < i" "Compare (uk m) (uk i) = 0" for m
      using shows_first [OF i(2) that(1)] that(2) not_vis_not_shown by blast
    have eq: "DBIter_Prev ops Compare d = (if changed then FindPrevUserEntry ops Compare (d'\<lparr>di_direction := kReverse\<rparr>) else Some d')"
      using True key l(1) by (simp add: DBIter_Prev_def)
    show ?thesis
    proof (cases changed)
      case c: True
      then obtain q where q: "q \<le> i" "before (di_iter d') q" "\<forall>m. q \<le> m \<longrightarrow> m \<le> i \<longrightarrow> Compare (uk m) (uk i) = 0"
        using l(4) by auto
      have "pos i = pos q" using hidden q(1,3) by (intro pos_same) auto
      moreover have "\<exists>d''. FindPrevUserEntry ops Compare (d'\<lparr>di_direction := kReverse\<rparr>) = Some d'' \<and>
          db_stands d'' (if pos q = 0 then length view else pos q - 1)"
        by (rule FindPrev_stands) (use q(2) l(3) in simp_all)
      ultimately show ?thesis unfolding eq i(3) by (simp only: c if_True)
    next
      case c: False
      then have l0: "\<not> di_valid d'" "\<forall>m \<le> i. Compare (uk m) (uk i) = 0" using l(4) by simp_all
      then have "pos i = pos 0" using hidden by (intro pos_same) auto
      then show ?thesis using eq c l(2,3) l0(1) i(3) by (simp add: db_stands_def)
    qed
  next
    case False
    then have rev: "di_direction d = kReverse" by (cases "di_direction d") simp_all
    obtain q where q: "q \<le> i" "before (di_iter d) q" "\<forall>m. q \<le> m \<longrightarrow> m < i \<longrightarrow> \<not> vis m" using dir False by auto
    have "pos i = pos q" using q(1,3) not_vis_not_shown by (intro pos_same) auto
    then show ?thesis
      using FindPrev_stands [OF q(2) fresh rev] unfolding i(3) by (simp only: DBIter_Prev_def rev direction.distinct if_False)
  qed
qed

lemma FindNext_from:
  assumes "stands (di_iter d) i" and "fresh d" and "di_direction d = kForward"
    and new: "\<And>m j. m < i \<Longrightarrow> i \<le> j \<Longrightarrow> j < length es \<Longrightarrow> vis m \<Longrightarrow> vis j \<Longrightarrow> Compare (uk m) (uk j) \<noteq> 0"
  shows "\<exists>d'. (if it_Valid ops (di_iter d) then FindNextUserEntry ops Compare False d else Some (d\<lparr>di_valid := False\<rparr>)) = Some d' \<and>
    db_stands d' (pos i)"
proof (cases "i < length es")
  case True
  have "hides i i False (di_saved_key d)" using new by (auto simp: hides_def)
  then obtain d' where "FindNextUserEntry ops Compare False d = Some d'" "next_found i i d'"
    using FindNext_finds [OF assms(1) True assms(2,3), of i False] True by fastforce
  then show ?thesis using next_found_stands [of i i d'] True internal.valid_iff [OF assms(1)] by auto
next
  case False
  then have "i = length es" using internal.stands_le [OF assms(1)] by simp
  then show ?thesis using internal.valid_iff [OF assms(1)] assms(1,2) pos_length by (auto simp: db_stands_def)
qed

lemma SeekToFirst_stands:
  assumes "db_stands d p"
  shows "\<exists>d'. DBIter_SeekToFirst ops Compare d = Some d' \<and> db_stands d' 0"
proof -
  obtain j where "fresh d" "stands (di_iter d) j" using assms by (auto simp: db_stands_def)
  then show ?thesis
    using FindNext_from [of "inner (it_SeekToFirst ops) (ClearSavedValue (d\<lparr>di_direction := kForward\<rparr>))" 0] internal.first_at
    by (simp add: DBIter_SeekToFirst_def Let_def)
qed

lemma SeekToLast_stands:
  assumes "db_stands d p"
  shows "\<exists>d'. DBIter_SeekToLast ops Compare d = Some d' \<and> db_stands d' (length view - 1)"
proof -
  obtain j where j: "fresh d" "stands (di_iter d) j" using assms by (auto simp: db_stands_def)
  let ?d = "inner (it_SeekToLast ops) (ClearSavedValue (d\<lparr>di_direction := kReverse\<rparr>))"
  have "before (di_iter ?d) (length es)" using internal.last_at [OF j(2)] by (auto simp: before_def)
  from FindPrev_stands [OF this] show ?thesis using j(1) pos_length
    by (simp add: DBIter_SeekToLast_def split: if_splits)
qed

subsection \<open>Seeking\<close>

lemma seek_order:
  assumes "i < length es"
  shows "vis i \<Longrightarrow> InternalKey_Compare Compare (fst (es ! i)) (InternalKey t S kValueTypeForSeek) < 0 \<longleftrightarrow> Compare (uk i) t < 0"
    and "Compare (uk i) t < 0 \<Longrightarrow> InternalKey_Compare Compare (fst (es ! i)) (InternalKey t S kValueTypeForSeek) < 0"
proof -
  obtain k s ty where e: "fst (es ! i) = InternalKey k s ty" "s \<le> kMaxSequenceNumber" "ty \<le> kTypeValue" "uk i = k" "vis i \<longleftrightarrow> s \<le> S"
    using parts [OF assms(1)] by metis
  note cmp = InternalKey_Compare_keys(1) [OF e(2) sequence, of Compare k ty t kValueTypeForSeek]
  show "InternalKey_Compare Compare (fst (es ! i)) (InternalKey t S kValueTypeForSeek) < 0 \<longleftrightarrow> Compare (uk i) t < 0" if "vis i"
    using that cmp e by (auto simp: kValueTypeForSeek_def)
  show "Compare (uk i) t < 0 \<Longrightarrow> InternalKey_Compare Compare (fst (es ! i)) (InternalKey t S kValueTypeForSeek) < 0"
    using cmp e by simp
qed

lemma seek_splits:
  assumes i_def: "i = first_ge (InternalKey_Compare Compare) es (InternalKey t S kValueTypeForSeek)"
  shows "m < i \<Longrightarrow> vis m \<Longrightarrow> Compare (uk m) t < 0" and "i \<le> j \<Longrightarrow> j < length es \<Longrightarrow> \<not> Compare (uk j) t < 0"
proof -
  have le: "i \<le> length es" unfolding i_def by (rule first_ge_le)
  show "Compare (uk m) t < 0" if "m < i" "vis m"
    using first_ge_before [of m _ es] that seek_order(1) [of m t] le unfolding i_def by fastforce
  assume j: "i \<le> j" "j < length es"
  then have "\<not> Compare (uk i) t < 0"
    using first_ge_here [of "InternalKey_Compare Compare" es] seek_order(2) [of i t] unfolding i_def by fastforce
  then show "\<not> Compare (uk j) t < 0"
    using uk_sorted [OF j] cmp_trans [of t "uk i" "uk j"] cmp_flip [of "uk i" t] cmp_flip [of "uk j" t] by force
qed

lemma takeWhile_split: "\<forall>x \<in> set xs. P x \<Longrightarrow> \<forall>y \<in> set ys. \<not> P y \<Longrightarrow> takeWhile P (xs @ ys) = xs"
  by (induction xs) (auto simp: takeWhile_eq_Nil_iff dest: hd_in_set)

lemma first_ge_view: "first_ge Compare view t = pos (first_ge (InternalKey_Compare Compare) es (InternalKey t S kValueTypeForSeek))"
proof -
  let ?i = "first_ge (InternalKey_Compare Compare) es (InternalKey t S kValueTypeForSeek)" and ?f = "\<lambda>i. (uk i, snd (es ! i))"
  let ?P = "\<lambda>e. Compare (fst e) t < 0"
  have "[0..<length es] = [0..<?i] @ [?i..<length es]" using first_ge_le upt_add_eq_append le_add_diff_inverse by (metis le0)
  then have split: "view = map ?f (filter shows_at [0..<?i]) @ map ?f (filter shows_at [?i..<length es])"
    by (simp add: snapshot_view_def)
  have "\<forall>e \<in> set (map ?f (filter shows_at [0..<?i])). ?P e" using seek_splits(1) [OF refl, of _ t] by (auto simp: shown_def)
  moreover have "\<forall>e \<in> set (map ?f (filter shows_at [?i..<length es])). \<not> ?P e" using seek_splits(2) [OF refl, of t] by auto
  ultimately have "takeWhile ?P view = map ?f (filter shows_at [0..<?i])" unfolding split by (rule takeWhile_split)
  then show ?thesis unfolding first_ge_def [of Compare] pos_def by (simp only: length_map)
qed

lemma Seek_stands:
  assumes "db_stands d p" and "target_ok (InternalKey t S kValueTypeForSeek)"
  shows "\<exists>d'. DBIter_Seek ops Compare d t = Some d' \<and> db_stands d' (first_ge Compare view t)"
proof -
  obtain j where j: "fresh d" "stands (di_iter d) j" using assms by (auto simp: db_stands_def)
  let ?T = "InternalKey t S kValueTypeForSeek"
  let ?i = "first_ge (InternalKey_Compare Compare) es ?T"
  let ?d = "inner (\<lambda>it. it_Seek ops it ?T) ((ClearSavedValue (d\<lparr>di_direction := kForward\<rparr>))\<lparr>di_saved_key := ?T\<rparr>)"
  have eq: "DBIter_Seek ops Compare d t = (if it_Valid ops (di_iter ?d) then FindNextUserEntry ops Compare False ?d else Some (?d\<lparr>di_valid := False\<rparr>))"
    using j(1) by (simp add: DBIter_Seek_def Let_def fresh_def InternalKey_def inner_def)
  have "Compare (uk m) (uk j) \<noteq> 0" if "m < ?i" "?i \<le> j" "j < length es" "vis m" for m j
  proof
    assume "Compare (uk m) (uk j) = 0"
    then have "Compare (uk j) (uk m) \<le> 0" using cmp_zero_sym [of "uk m" "uk j"] by simp
    moreover have "Compare t (uk j) \<le> 0" using seek_splits(2) [OF refl that(2,3)] cmp_flip [of "uk j" t] by simp
    ultimately have "Compare t (uk m) \<le> 0" using cmp_trans by blast
    then show False using seek_splits(1) [OF refl that(1,4)] cmp_flip [of "uk m" t] by simp
  qed
  then show ?thesis using FindNext_from [of ?d ?i] internal.seek_at [OF j(2) assms(2)] j(1) first_ge_view [of t] eq by auto
qed

theorem db_iterator: "entry_iterator (DBIter_class ops Compare) Compare view db_stands (\<lambda>t. target_ok (InternalKey t S kValueTypeForSeek))"
proof
  fix d p assume st: "db_stands d p"
  then show valid: "it_Valid (DBIter_class ops Compare) d \<longleftrightarrow> p < length view"
    using pos_nth(1) by (auto simp: db_stands_def DBIter_class_def split: if_splits)
  show "p \<le> length view" using st pos_nth(1) by (fastforce simp: db_stands_def split: if_splits)
  show "it_key (DBIter_class ops Compare) d = fst (view ! p)" "it_value (DBIter_class ops Compare) d = snd (view ! p)" if p: "p < length view"
  proof -
    obtain i where i: "i < length es" "shows_at i" "p = pos i" "if di_direction d = kForward then stands (di_iter d) i
        else di_saved_key d = uk i \<and> di_saved_value d = snd (es ! i) \<and>
        (\<exists>q \<le> i. before (di_iter d) q \<and> (\<forall>m. q \<le> m \<longrightarrow> m < i \<longrightarrow> \<not> vis m))"
      using db_stands_valid [OF st] valid p by (simp add: DBIter_class_def) blast
    then show "it_key (DBIter_class ops Compare) d = fst (view ! p)" "it_value (DBIter_class ops Compare) d = snd (view ! p)"
      using pos_nth(2) [OF i(1,2)] internal.key_at internal.value_at
      by (simp_all add: DBIter_class_def DBIter_key_def DBIter_value_def split: if_splits)
  qed
  show "ok (it_status (DBIter_class ops Compare) d)"
    using st internal.status_at by (auto simp: db_stands_def fresh_def DBIter_class_def DBIter_status_def)
  show "db_stands (it_Next (DBIter_class ops Compare) d) (Suc p)" "db_stands (it_Prev (DBIter_class ops Compare) d) (if p = 0 then length view else p - 1)"
    if "p < length view"
    using Next_stands [OF st] Prev_stands [OF st] valid that by (auto simp: DBIter_class_def)
  show "db_stands (it_SeekToFirst (DBIter_class ops Compare) d) 0" "db_stands (it_SeekToLast (DBIter_class ops Compare) d) (length view - 1)"
    using SeekToFirst_stands [OF st] SeekToLast_stands [OF st] by (auto simp: DBIter_class_def)
  show "db_stands (it_Seek (DBIter_class ops Compare) d t) (first_ge Compare view t)" if "target_ok (InternalKey t S kValueTypeForSeek)" for t
    using Seek_stands [OF st that] by (auto simp: DBIter_class_def)
qed

lemma new_stands: "stands it j \<Longrightarrow> db_stands (NewDBIterator it S seed) (length view)"
  by (auto simp: db_stands_def fresh_def NewDBIterator_def DBIter_def case_prod_beta RandomPeriod_value Status_OK_def ok_def)

end

subsection \<open>Runs of the iterator\<close>

fun db_move :: "'i iterator_class \<Rightarrow> (bytes \<Rightarrow> bytes \<Rightarrow> int) \<Rightarrow> cursor_op \<Rightarrow> 'i db_iter \<Rightarrow> 'i db_iter option" where
  "db_move ops cmp ToFirst d = DBIter_SeekToFirst ops cmp d"
| "db_move ops cmp ToLast d = DBIter_SeekToLast ops cmp d"
| "db_move ops cmp (To t) d = DBIter_Seek ops cmp d t"
| "db_move ops cmp Forward d = DBIter_Next ops cmp d"
| "db_move ops cmp Backward d = DBIter_Prev ops cmp d"

fun db_run :: "'i iterator_class \<Rightarrow> (bytes \<Rightarrow> bytes \<Rightarrow> int) \<Rightarrow> cursor_op list \<Rightarrow> 'i db_iter \<Rightarrow> 'i db_iter option" where
  "db_run ops cmp [] d = Some d"
| "db_run ops cmp (a # as) d = (case db_move ops cmp a d of None \<Rightarrow> None | Some d \<Rightarrow> db_run ops cmp as d)"

context snapshot_scan
begin

lemma valid_at: "db_stands d p \<Longrightarrow> di_valid d \<longleftrightarrow> p < length view"
  using entry_iterator.valid_iff [OF db_iterator] by (simp add: DBIter_class_def)

lemma move_stands:
  assumes "db_stands d p" and "cursor_move Compare view a p = Some p'" and "\<forall>t \<in> set (move_targets [a]). target_ok (InternalKey t S kValueTypeForSeek)"
  shows "\<exists>d'. db_move ops Compare a d = Some d' \<and> db_stands d' p'"
  using assms Next_stands [OF assms(1)] Prev_stands [OF assms(1)] valid_at [OF assms(1)] Seek_stands [OF assms(1)]
    SeekToFirst_stands [OF assms(1)] SeekToLast_stands [OF assms(1)]
  by (cases a) (auto simp: move_targets_def split: if_splits)

lemma run_stands:
  "db_stands d p \<Longrightarrow> cursor_run Compare view as p = Some p' \<Longrightarrow> \<forall>t \<in> set (move_targets as). target_ok (InternalKey t S kValueTypeForSeek) \<Longrightarrow>
   \<exists>d'. db_run ops Compare as d = Some d' \<and> db_stands d' p'"
proof (induction as arbitrary: d p)
  case (Cons a as)
  obtain q where q: "cursor_move Compare view a p = Some q" "cursor_run Compare view as q = Some p'"
    using Cons.prems(2) by (auto split: option.splits)
  have "\<forall>t \<in> set (move_targets [a]). target_ok (InternalKey t S kValueTypeForSeek)" "\<forall>t \<in> set (move_targets as). target_ok (InternalKey t S kValueTypeForSeek)"
    using Cons.prems(3) by (simp_all add: move_targets_def)
  moreover from move_stands [OF Cons.prems(1) q(1) calculation(1)] obtain d1 where "db_move ops Compare a d = Some d1" "db_stands d1 q" by blast
  ultimately show ?case using Cons.IH [OF _ q(2)] by simp
qed simp

end

subsection \<open>Scanning memtables\<close>

text \<open>Every memtable can be scanned; entries that are not in the order of internal keys cannot be in one.\<close>

definition scannable :: "entry list \<Rightarrow> entry list" where
  "scannable es = (if keys_ok es \<and> sorted_wrt (\<lambda>a b. InternalKey_Compare BytewiseCompare (fst a) (fst b) < 0) es then es else [])"

interpretation mem_keys: sorted_keys BytewiseCompare FindShortestSeparator FindShortSuccessor "scannable es"
  for es
  by (intro sorted_keys.intro sorted_keys_axioms.intro) (simp_all add: bytewise.user_comparator_axioms scannable_def keys_ok_def)

interpretation mem_scan: snapshot_scan "MemTableIterator_class m" BytewiseCompare FindShortestSeparator FindShortSuccessor
    "scannable es" "mem_stands BytewiseComparator m (scannable es)" "\<lambda>k. 8 \<le> length k \<and> length k < 2 ^ 32" "min s kMaxSequenceNumber"
  for m es s
proof (intro snapshot_scan.intro snapshot_scan_axioms.intro mem_keys.sorted_keys_axioms)
  show "entry_iterator (MemTableIterator_class m) (InternalKey_Compare BytewiseCompare) (scannable es)
     (mem_stands BytewiseComparator m (scannable es)) (\<lambda>k. 8 \<le> length k \<and> length k < 2 ^ 32)"
    using mem_iter.entry_iterator_axioms by (simp add: BytewiseComparator_def)
qed simp

subsection \<open>Properties\<close>

text \<open>
  Claim C8: the iterator that clients get is a cursor over the snapshot. Whatever the client does with it, in either
  direction and with any changes of direction, every operation returns, and key, value and
  validity are those of a cursor over the newest visible entries that are not deleted. This holds over any
  iterator for sorted internal keys that meets the iterator contract, and for every state of the sampling generator.
\<close>

theorem db_iterator_refines_cursor:
  assumes "user_comparator cmp Separator Successor" and "entry_iterator ops (InternalKey_Compare cmp) es stands target_ok"
    and "keys_ok es" and "sorted_wrt (\<lambda>a b. InternalKey_Compare cmp (fst a) (fst b) < 0) es" and "S \<le> kMaxSequenceNumber"
    and "stands it j" and "\<forall>t \<in> set (move_targets as). target_ok (InternalKey t S kValueTypeForSeek)"
    and "cursor_run cmp (snapshot_view cmp S es) as (length (snapshot_view cmp S es)) = Some p"
  shows "\<exists>d. db_run ops cmp as (NewDBIterator it S seed) = Some d \<and>
    (let view = snapshot_view cmp S es in
      (di_valid d \<longleftrightarrow> p < length view) \<and> ok (DBIter_status ops d) \<and>
      (p < length view \<longrightarrow> (DBIter_key ops d, DBIter_value ops d) = view ! p))"
proof -
  have scan: "snapshot_scan ops cmp Separator Successor es stands target_ok S"
    using assms(1-5) by (intro snapshot_scan.intro snapshot_scan_axioms.intro sorted_keys.intro sorted_keys_axioms.intro)
  note it = snapshot_scan.db_iterator [OF scan]
  obtain d where d: "db_run ops cmp as (NewDBIterator it S seed) = Some d" and st: "snapshot_scan.db_stands cmp es stands S d p"
    using snapshot_scan.run_stands [OF scan snapshot_scan.new_stands [OF scan assms(6)] assms(8,7)] by blast
  then show ?thesis
    using entry_iterator.valid_iff [OF it st] entry_iterator.status_at [OF it st] entry_iterator.key_at [OF it st] entry_iterator.value_at [OF it st]
    by (auto simp: DBIter_class_def Let_def prod_eq_iff)
qed

text \<open>A memtable with two versions of a key, read between them.\<close>

theorem db_iterator_refines_cursor_witness:
  "\<exists>m d. mem_add_all bump_heap [(5, kTypeValue, [7], [1]), (9, kTypeDeletion, [7], [])] (MemTable bump_heap BytewiseComparator) = Some m \<and>
    db_run (MemTableIterator_class m) BytewiseCompare [ToLast, Backward, To [6], Forward, ToLast] (NewDBIterator MemTable_NewIterator 7 301) = Some d \<and>
    DBIter_key (MemTableIterator_class m) d = [7] \<and> DBIter_value (MemTableIterator_class m) d = [1]"
proof -
  let ?m0 = "MemTable bump_heap BytewiseComparator" and ?k1 = "InternalKey [7] 5 kTypeValue" and ?k2 = "InternalKey [7] 9 kTypeDeletion"
  let ?es = "[(?k2, []), (?k1, [1 :: byte])]"
  have less: "InternalKey_Compare BytewiseCompare ?k2 ?k1 < 0" "\<not> InternalKey_Compare BytewiseCompare ?k1 ?k2 < 0"
    by (simp_all add: InternalKey_Compare_keys kMaxSequenceNumber_def BytewiseCompare_def slice_compare_iffs)
  then have ne: "InternalKey_Compare BytewiseCompare ?k1 ?k2 \<noteq> 0" using bytewise.internal.cmp_zero_sym [of ?k1 ?k2] by (simp add: InternalKey_eq)
  have ok: "entry_ok (?k1, [1])" "entry_ok (?k2, [])" by (simp_all add: entry_ok_def InternalKey_eq)
  obtain m1 where m1: "MemTable_Add bump_heap 5 kTypeValue [7] [1] ?m0 = Some m1" "mem_holds BytewiseComparator m1 [(?k1, [1])]"
    using Add_holds [OF uc_bytewise MemTable_holds ok(1)] by (auto simp: insert_entry_def)
  obtain m where m: "MemTable_Add bump_heap 9 kTypeDeletion [7] [] m1 = Some m" "mem_holds BytewiseComparator m ?es"
    using Add_holds [OF uc_bytewise m1(2) ok(2), of bump_heap] less ne by (auto simp: insert_entry_def BytewiseComparator_def)
  from m(2) have st: "mem_stands BytewiseComparator m ?es MemTable_NewIterator 2"
    by (rule mem_holds_nodes) (auto simp: mem_stands_def MemTable_NewIterator_def SkipIter_def m(2) [unfolded mem_holds_def])
  have it: "entry_iterator (MemTableIterator_class m) (InternalKey_Compare BytewiseCompare) ?es (mem_stands BytewiseComparator m ?es) (\<lambda>k. 8 \<le> length k \<and> length k < 2 ^ 32)"
    using mem_iter.entry_iterator_axioms by (simp add: BytewiseComparator_def)
  have "\<exists>k s t. ?k1 = InternalKey k s t \<and> s \<le> kMaxSequenceNumber \<and> t \<le> kTypeValue"
    by (intro exI [of _ "[7]"] exI [of _ 5] exI [of _ kTypeValue]) (simp add: kMaxSequenceNumber_def)
  moreover have "\<exists>k s t. ?k2 = InternalKey k s t \<and> s \<le> kMaxSequenceNumber \<and> t \<le> kTypeValue"
    by (intro exI [of _ "[7]"] exI [of _ 9] exI [of _ kTypeDeletion]) (simp add: kMaxSequenceNumber_def kTypeDeletion_def)
  ultimately have keys: "keys_ok ?es" by (simp add: keys_ok_def)
  have parse: "ParseInternalKey (InternalKey [7] s t) = Some \<lparr>pik_user_key = [7], pik_sequence = s, pik_type = t\<rparr>"
    if "s \<le> kMaxSequenceNumber" "t \<le> kTypeValue" for s t using ParseInternalKey_InternalKey that by blast
  have "visible 7 (?k1, [1])" "\<not> visible 7 (?k2, [])"
    by (simp_all add: visible_def parse kMaxSequenceNumber_def kTypeValue_def kTypeDeletion_def)
  moreover have "ExtractValueType ?k1 = kTypeValue" using unpack(2) [of 5 kTypeValue] by (simp add: ExtractValueType_def InternalKey_eq unpack(1) Let_def)
  moreover have "ExtractUserKey ?k1 = [7]" by (subst InternalKey_eq, rule ExtractUserKey_append) simp
  ultimately have view: "snapshot_view BytewiseCompare 7 ?es = [([7], [1])]"
    by (simp add: snapshot_view_def shown_def)
  let ?as = "[ToLast, Backward, To [6], Forward, ToLast]"
  have run: "cursor_run BytewiseCompare (snapshot_view BytewiseCompare 7 ?es) ?as (length (snapshot_view BytewiseCompare 7 ?es)) = Some 0"
    unfolding view by (simp add: first_ge_def BytewiseCompare_def slice_compare_iffs)
  have "\<exists>d. db_run (MemTableIterator_class m) BytewiseCompare ?as (NewDBIterator MemTable_NewIterator 7 301) = Some d \<and>
      (DBIter_key (MemTableIterator_class m) d, DBIter_value (MemTableIterator_class m) d) = ([7], [1])"
    using db_iterator_refines_cursor [OF bytewise.user_comparator_axioms it keys _ _ st _ run, of 301] less(1) unfolding view
    by (auto simp: move_targets_def InternalKey_eq kMaxSequenceNumber_def simp del: db_run.simps)
  then show ?thesis using m1(1) m(1) by (auto simp del: db_run.simps)
qed

end
