(* ===== verification/LDB_Builder.thy ===== *)
theory LDB_Builder
  imports LDB_VersionSet LDB_TableSpec LDB_MemTableSpec
begin

text \<open>
  \<^verbatim>\<open>BuildTable\<close> of \<^verbatim>\<open>db/builder.cc\<close>, which writes a table file with the entries of an iterator, and the comparator and the filter policy
  that tables of a database are written with. The table cache is an argument: the tables it can
  read are those of the environment.
\<close>

subsection \<open>Classes for internal keys\<close>

definition InternalKeyComparator :: "comparator_class \<Rightarrow> comparator_class" where
  "InternalKeyComparator c =
     \<lparr>cmp_Name = str ''leveldb.InternalKeyComparator'', cmp_Compare = InternalKey_Compare (cmp_Compare c),
      cmp_FindShortestSeparator = InternalKey_FindShortestSeparator (cmp_Compare c) (cmp_FindShortestSeparator c),
      cmp_FindShortSuccessor = InternalKey_FindShortSuccessor (cmp_Compare c) (cmp_FindShortSuccessor c)\<rparr>"

definition InternalFilterPolicy :: "filter_policy_class \<Rightarrow> filter_policy_class" where
  "InternalFilterPolicy p =
     \<lparr>fp_Name = fp_Name p, fp_CreateFilter = InternalFilterPolicy_CreateFilter (fp_CreateFilter p),
      fp_KeyMayMatch = InternalFilterPolicy_KeyMayMatch (fp_KeyMayMatch p)\<rparr>"

subsection \<open>Writing a table\<close>

definition TableBuilder_NumEntries :: "'f table_builder \<Rightarrow> nat" where
  "TableBuilder_NumEntries r = tb_num_entries r"

definition TableBuilder_Abandon :: "'f table_builder \<Rightarrow> 'f table_builder" where
  "TableBuilder_Abandon r = r\<lparr>tb_closed := True\<rparr>"

text \<open>The file of the builder with the environment it changes.\<close>

definition file_table :: "('e, 'w, 'r) db_env \<Rightarrow> snappy \<Rightarrow> ('w \<times> 'e) table_env" where
  "file_table env z = \<lparr>tv_Append = append_in env, tv_Flush = flush_in env, tv_snappy = z\<rparr>"

partial_function (option) build_loop ::
    "'f table_env \<Rightarrow> 'i iterator_class \<Rightarrow> 'i \<Rightarrow> FileMetaData \<Rightarrow> 'f table_builder \<Rightarrow>
     ('i \<times> FileMetaData \<times> 'f table_builder) option" where
  "build_loop tv ops iter meta builder =
     (if it_Valid ops iter then
        let key = it_key ops iter
        in build_loop tv ops (it_Next ops iter) (meta\<lparr>fm_largest := key\<rparr>) (TableBuilder_Add tv key (it_value ops iter) builder)
      else Some (iter, meta, builder))"

text \<open>\<^verbatim>\<open>Sync\<close> and \<^verbatim>\<open>Close\<close> when all went well; \<^verbatim>\<open>delete file\<close> closes a file that is still open.\<close>

definition sync_and_close :: "('e, 'w, 'r) db_env \<Rightarrow> status \<Rightarrow> 'w \<times> 'e \<Rightarrow> status \<times> 'e" where
  "sync_and_close env s = (\<lambda>(file, e).
     let (s, file, e) = (if ok s then file_Sync env file e else (s, file, e));
         (closed, e) = file_Close env file e
     in (if ok s then closed else s, e))"

definition table_usable :: "('e \<Rightarrow> read_options \<Rightarrow> 'd table_source) \<Rightarrow> u64 \<Rightarrow> u64 \<Rightarrow> 'e \<Rightarrow> status" where
  "table_usable cache number file_size e =
     (let ts = cache e ReadOptions in it_status (ts_class ts) (ts_NewIterator ts number file_size))"

definition keep_or_delete :: "('e, 'w, 'r) db_env \<Rightarrow> bytes \<Rightarrow> status \<Rightarrow> FileMetaData \<Rightarrow> status \<Rightarrow> 'e \<Rightarrow> status \<times> FileMetaData \<times> 'e" where
  "keep_or_delete env fname iter_status meta s e =
     (let s = (if \<not> ok iter_status then iter_status else s)
      in if ok s \<and> fm_file_size meta > 0 then (s, meta, e) else (s, meta, snd (DeleteFile env fname e)))"

definition BuildTable ::
    "bytes \<Rightarrow> ('e, 'w, 'r) db_env \<Rightarrow> snappy \<Rightarrow> db_options \<Rightarrow> ('e \<Rightarrow> read_options \<Rightarrow> 'd table_source) \<Rightarrow> 'i iterator_class \<Rightarrow> 'i \<Rightarrow>
     FileMetaData \<Rightarrow> 'e \<Rightarrow> (status \<times> FileMetaData \<times> 'e) option" where
  "BuildTable dbname env z options table_cache ops iter meta e =
     (let meta = meta\<lparr>fm_file_size := 0\<rparr>;
          iter = it_SeekToFirst ops iter;
          fname = TableFileName dbname (fm_number meta)
      in if it_Valid ops iter then
           case NewWritableFile env fname e of
             (s, Some file, e) \<Rightarrow> do {
               (iter, meta, builder) \<leftarrow> build_loop (file_table env z) ops iter (meta\<lparr>fm_smallest := it_key ops iter\<rparr>)
                 (TableBuilder options (file, e));
               let (s, builder) = TableBuilder_Finish (file_table env z) builder;
                   meta = (if ok s then meta\<lparr>fm_file_size := TableBuilder_FileSize builder\<rparr> else meta);
                   (s, e) = sync_and_close env s (tb_file builder);
                   s = (if ok s then table_usable table_cache (fm_number meta) (fm_file_size meta) e else s)
               in Some (keep_or_delete env fname (it_status ops iter) meta s e)
             }
           | (s, None, e) \<Rightarrow> Some (s, meta, e)
         else Some (keep_or_delete env fname (it_status ops iter) meta Status_OK e))"

end
