(* ===== verification/LDB_Compaction.thy ===== *)
theory LDB_Compaction
  imports LDB_VersionSet LDB_Merger
begin

text \<open>
  The choice of a compaction and the class \<^verbatim>\<open>Compaction\<close> of \<^verbatim>\<open>db/version_set.cc\<close>. A compaction holds a reference
  to its input version on the heap of the version set; \<^verbatim>\<open>input_version_->vset_\<close> is the version set itself. What
  goes to the information log is left out. The results are \<^const>\<open>None\<close> where the search for overlapping
  inputs would not end.
\<close>

subsection \<open>The state\<close>

record compaction =
  cp_level :: nat
  cp_max_output_file_size :: u64
  cp_input_version :: "version_ptr option"
  cp_edit :: version_edit
  cp_inputs :: "nat \<Rightarrow> file_ptr list"
  cp_grandparents :: "file_ptr list"
  cp_grandparent_index :: nat
  cp_seen_key :: bool
  cp_overlapped_bytes :: int
  cp_level_ptrs :: "nat \<Rightarrow> nat"

definition Compaction :: "db_options \<Rightarrow> nat \<Rightarrow> compaction" where
  "Compaction options level =
     \<lparr>cp_level = level, cp_max_output_file_size = MaxFileSizeForLevel options level, cp_input_version = None,
      cp_edit = new_VersionEdit, cp_inputs = (\<lambda>which. []), cp_grandparents = [], cp_grandparent_index = 0,
      cp_seen_key = False, cp_overlapped_bytes = 0, cp_level_ptrs = (\<lambda>i. 0)\<rparr>"

definition Compaction_delete :: "compaction \<Rightarrow> 'w version_set \<Rightarrow> 'w version_set" where
  "Compaction_delete c st = (case cp_input_version c of Some v \<Rightarrow> Version_Unref v st | None \<Rightarrow> st)"

definition ReleaseInputs :: "compaction \<Rightarrow> 'w version_set \<Rightarrow> compaction \<times> 'w version_set" where
  "ReleaseInputs c st =
     (case cp_input_version c of Some v \<Rightarrow> (c\<lparr>cp_input_version := None\<rparr>, Version_Unref v st) | None \<Rightarrow> (c, st))"

definition num_input_files :: "nat \<Rightarrow> compaction \<Rightarrow> nat" where
  "num_input_files which c = length (cp_inputs c which)"

definition compaction_input :: "nat \<Rightarrow> nat \<Rightarrow> compaction \<Rightarrow> file_ptr" where
  "compaction_input which i c = cp_inputs c which ! i"

definition MaxOutputFileSize :: "compaction \<Rightarrow> u64" where
  "MaxOutputFileSize c = cp_max_output_file_size c"

subsection \<open>Ranges\<close>

definition GetRange :: "(bytes \<Rightarrow> bytes \<Rightarrow> int) \<Rightarrow> FileMetaData list \<Rightarrow> bytes \<times> bytes" where
  "GetRange icmp inputs =
     fold (\<lambda>(i, f) (smallest, largest).
         if i = 0 then (fm_smallest f, fm_largest f)
         else (if icmp (fm_smallest f) smallest < 0 then fm_smallest f else smallest,
               if icmp (fm_largest f) largest > 0 then fm_largest f else largest))
       (enumerate 0 inputs) ([], [])"

definition GetRange2 :: "(bytes \<Rightarrow> bytes \<Rightarrow> int) \<Rightarrow> FileMetaData list \<Rightarrow> FileMetaData list \<Rightarrow> bytes \<times> bytes" where
  "GetRange2 icmp inputs1 inputs2 = GetRange icmp (inputs1 @ inputs2)"

subsection \<open>The iterator over the inputs\<close>

text \<open>A call of a virtual function goes to the class of the object.\<close>

definition either_class :: "'a iterator_class \<Rightarrow> 'b iterator_class \<Rightarrow> ('a + 'b) iterator_class" where
  "either_class a b =
     \<lparr>it_Valid = case_sum (it_Valid a) (it_Valid b),
      it_SeekToFirst = map_sum (it_SeekToFirst a) (it_SeekToFirst b),
      it_SeekToLast = map_sum (it_SeekToLast a) (it_SeekToLast b),
      it_Seek = (\<lambda>it target. map_sum (\<lambda>x. it_Seek a x target) (\<lambda>y. it_Seek b y target) it),
      it_Next = map_sum (it_Next a) (it_Next b),
      it_Prev = map_sum (it_Prev a) (it_Prev b),
      it_key = case_sum (it_key a) (it_key b),
      it_value = case_sum (it_value a) (it_value b),
      it_status = case_sum (it_status a) (it_status b)\<rparr>"

text \<open>The children, each with its class: the tables of level 0 and one concatenating iterator for another level.\<close>

definition input_list ::
    "(bytes \<Rightarrow> bytes \<Rightarrow> int) \<Rightarrow> (read_options \<Rightarrow> 'd table_source) \<Rightarrow> db_options \<Rightarrow> file_store \<Rightarrow> compaction \<Rightarrow>
     (('d + (nat, 'd) two_level_iter) iterator_class \<times> ('d + (nat, 'd) two_level_iter)) list" where
  "input_list icmp table_cache options h c =
     (let cache = table_cache (ReadOptions\<lparr>ro_verify_checksums := opt_paranoid_checks options, ro_fill_cache := False\<rparr>)
      in concat (map (\<lambda>which.
          let files = map h (cp_inputs c which); ops = either_class (ts_class cache) (TwoLevel_class (level_env icmp cache files))
          in if files \<noteq> [] then
               if cp_level c + which = 0
               then map (\<lambda>f. (ops, Inl (ts_NewIterator cache (fm_number f) (fm_file_size f)))) files
               else [(ops, Inr (NewConcatenatingIterator icmp cache files))]
             else []) [0, 1]))"

definition MakeInputIterator ::
    "(bytes \<Rightarrow> bytes \<Rightarrow> int) \<Rightarrow> (read_options \<Rightarrow> 'd table_source) \<Rightarrow> db_options \<Rightarrow> file_store \<Rightarrow> compaction \<Rightarrow>
     ('d + (nat, 'd) two_level_iter) iterator_class list \<times> ('d + (nat, 'd) two_level_iter) merged" where
  "MakeInputIterator icmp table_cache options h c =
     (let list = input_list icmp table_cache options h c
      in (map fst list, NewMergingIterator (map fst list) (map snd list)))"

subsection \<open>Choosing the inputs\<close>

definition CurrentOverlappingInputs :: "'w version_set \<Rightarrow> nat \<Rightarrow> bytes option \<Rightarrow> bytes option \<Rightarrow> file_ptr list option" where
  "CurrentOverlappingInputs st level lo hi =
     GetOverlappingInputs (cmp_Compare (vs_user_comparator st)) (vh_files st) (current_version st) level lo hi"

text \<open>
  The attempt to grow the inputs of the level without changing those of the next: the inputs of both levels
  with the range of the first one and of both.
\<close>

type_synonym ranged_inputs = "(file_ptr list \<times> file_ptr list) \<times> (bytes \<times> bytes) \<times> bytes \<times> bytes"

definition expand_inputs :: "nat \<Rightarrow> ranged_inputs \<Rightarrow> 'w version_set \<Rightarrow> ranged_inputs option" where
  "expand_inputs level = (\<lambda>((inputs0, inputs1), (smallest, largest), (all_start, all_limit)) st.
     let files = map (vh_files st) in do {
       expanded0 \<leftarrow> CurrentOverlappingInputs st level (Some all_start) (Some all_limit);
       let inputs1_size = TotalFileSize (files inputs1);
           expanded0_size = TotalFileSize (files expanded0)
       in if length expanded0 > length inputs0 \<and>
             inputs1_size + expanded0_size < ExpandedCompactionByteSizeLimit (vs_options st)
          then
            let (new_start, new_limit) = GetRange (vs_icmp st) (files expanded0) in do {
              expanded1 \<leftarrow> CurrentOverlappingInputs st (level + 1) (Some new_start) (Some new_limit);
              Some (if length expanded1 = length inputs1
                    then ((expanded0, expanded1), (new_start, new_limit),
                      GetRange2 (vs_icmp st) (files expanded0) (files expanded1))
                    else ((inputs0, inputs1), (smallest, largest), (all_start, all_limit)))
            }
          else Some ((inputs0, inputs1), (smallest, largest), (all_start, all_limit))
     })"

definition SetupOtherInputs :: "compaction \<Rightarrow> 'w version_set \<Rightarrow> (compaction \<times> 'w version_set) option" where
  "SetupOtherInputs c st =
     (let level = cp_level c; files = map (vh_files st);
          (smallest, largest) = GetRange (vs_icmp st) (files (cp_inputs c 0)) in do {
        inputs1 \<leftarrow> CurrentOverlappingInputs st (level + 1) (Some smallest) (Some largest);
        let ranges = ((cp_inputs c 0, inputs1), (smallest, largest),
              GetRange2 (vs_icmp st) (files (cp_inputs c 0)) (files inputs1)) in do {
          ((inputs0, inputs1), (smallest, largest), (all_start, all_limit)) \<leftarrow>
            (if inputs1 \<noteq> [] then expand_inputs level ranges st else Some ranges);
          grandparents \<leftarrow>
            (if level + 2 < kNumLevels then CurrentOverlappingInputs st (level + 2) (Some all_start) (Some all_limit)
             else Some (cp_grandparents c));
          Some (c\<lparr>cp_inputs := (cp_inputs c)(0 := inputs0, 1 := inputs1), cp_grandparents := grandparents,
                  cp_edit := SetCompactPointer level largest (cp_edit c)\<rparr>,
                st\<lparr>vs_compact_pointer := (vs_compact_pointer st)(level := largest)\<rparr>)
        }
      })"

definition first_after_pointer :: "'w version_set \<Rightarrow> nat \<Rightarrow> file_ptr list \<Rightarrow> file_ptr list" where
  "first_after_pointer st level files =
     (case find (\<lambda>f. vs_compact_pointer st level = [] \<or>
            vs_icmp st (fm_largest (vh_files st f)) (vs_compact_pointer st level) > 0) files of
        Some f \<Rightarrow> [f] | None \<Rightarrow> [])"

definition use_current_version :: "compaction \<Rightarrow> 'w version_set \<Rightarrow> compaction \<times> 'w version_set" where
  "use_current_version c st =
     (c\<lparr>cp_input_version := vs_current st\<rparr>, Version_Ref (the (vs_current st)) st)"

text \<open>The level to compact and the file that was picked, when the size or the seeks ask for a compaction.\<close>

definition picked :: "'w version_set \<Rightarrow> nat \<times> file_ptr list" where
  "picked st =
     (let v = current_version st
      in if v_compaction_score v \<ge> 1 then
           let level = nat (v_compaction_level v);
               inputs0 = first_after_pointer st level (v_files v level)
           in (level, if inputs0 = [] then [v_files v level ! 0] else inputs0)
         else (nat (v_file_to_compact_level v), [the (v_file_to_compact v)]))"

definition PickCompaction :: "'w version_set \<Rightarrow> (compaction option \<times> 'w version_set) option" where
  "PickCompaction st =
     (let v = current_version st
      in if v_compaction_score v \<ge> 1 \<or> v_file_to_compact v \<noteq> None then
           let (level, inputs0) = picked st;
               (c, st) = use_current_version (Compaction (vs_options st) level) st
           in do {
             inputs0 \<leftarrow>
               (if level = 0 then
                  let (smallest, largest) = GetRange (vs_icmp st) (map (vh_files st) inputs0)
                  in CurrentOverlappingInputs st 0 (Some smallest) (Some largest)
                else Some inputs0);
             (c, st) \<leftarrow> SetupOtherInputs (c\<lparr>cp_inputs := (cp_inputs c)(0 := inputs0)\<rparr>) st;
             Some (Some c, st)
           }
         else Some (None, st))"

fun limit_inputs :: "file_store \<Rightarrow> u64 \<Rightarrow> u64 \<Rightarrow> file_ptr list \<Rightarrow> file_ptr list" where
  "limit_inputs h limit so_far [] = []"
| "limit_inputs h limit so_far (f # fs) =
     (let so_far = so_far + fm_file_size (h f)
      in f # (if so_far \<ge> limit then [] else limit_inputs h limit so_far fs))"

definition CompactRange ::
    "nat \<Rightarrow> bytes option \<Rightarrow> bytes option \<Rightarrow> 'w version_set \<Rightarrow> (compaction option \<times> 'w version_set) option" where
  "CompactRange level begin_key end_key st = do {
     inputs \<leftarrow> CurrentOverlappingInputs st level begin_key end_key;
     if inputs = [] then Some (None, st)
     else
       let inputs = (if level > 0 then limit_inputs (vh_files st) (MaxFileSizeForLevel (vs_options st) level) 0 inputs
                     else inputs);
           (c, st) = use_current_version (Compaction (vs_options st) level) st
       in do {
         (c, st) \<leftarrow> SetupOtherInputs (c\<lparr>cp_inputs := (cp_inputs c)(0 := inputs)\<rparr>) st;
         Some (Some c, st)
       }
   }"

subsection \<open>Operations of a compaction\<close>

definition IsTrivialMove :: "compaction \<Rightarrow> 'w version_set \<Rightarrow> bool" where
  "IsTrivialMove c st \<longleftrightarrow>
     num_input_files 0 c = 1 \<and> num_input_files 1 c = 0 \<and>
     TotalFileSize (map (vh_files st) (cp_grandparents c)) \<le> MaxGrandParentOverlapBytes (vs_options st)"

definition AddInputDeletions :: "file_store \<Rightarrow> compaction \<Rightarrow> version_edit \<Rightarrow> version_edit" where
  "AddInputDeletions h c edit =
     fold (\<lambda>which. fold (\<lambda>f. VersionEdit_DeleteFile (cp_level c + which) (fm_number (h f))) (cp_inputs c which)) [0, 1] edit"

text \<open>The loop over the files of one level: the new \<^verbatim>\<open>level_ptrs_[lvl]\<close> and whether the key is in a file's range.\<close>

function advance_level_ptr ::
    "(bytes \<Rightarrow> bytes \<Rightarrow> int) \<Rightarrow> FileMetaData list \<Rightarrow> bytes \<Rightarrow> nat \<Rightarrow> nat \<times> bool" where
  "advance_level_ptr user_cmp files user_key i =
     (if i < length files then
        let f = files ! i
        in if user_cmp user_key (ExtractUserKey (fm_largest f)) \<le> 0
           then (i, user_cmp user_key (ExtractUserKey (fm_smallest f)) \<ge> 0)
           else advance_level_ptr user_cmp files user_key (i + 1)
      else (i, False))"
  by auto
termination
  by (relation "measure (\<lambda>(user_cmp, files, user_key, i). length files - i)") auto

declare advance_level_ptr.simps [simp del]

fun base_level_loop ::
    "(bytes \<Rightarrow> bytes \<Rightarrow> int) \<Rightarrow> file_store \<Rightarrow> version \<Rightarrow> bytes \<Rightarrow> nat list \<Rightarrow> (nat \<Rightarrow> nat) \<Rightarrow> bool \<times> (nat \<Rightarrow> nat)" where
  "base_level_loop user_cmp h v user_key [] level_ptrs = (True, level_ptrs)"
| "base_level_loop user_cmp h v user_key (lvl # lvls) level_ptrs =
     (let (i, inside) = advance_level_ptr user_cmp (level_files h v lvl) user_key (level_ptrs lvl);
          level_ptrs = level_ptrs(lvl := i)
      in if inside then (False, level_ptrs) else base_level_loop user_cmp h v user_key lvls level_ptrs)"

definition IsBaseLevelForKey :: "bytes \<Rightarrow> 'w version_set \<Rightarrow> compaction \<Rightarrow> bool \<times> compaction" where
  "IsBaseLevelForKey user_key st c =
     (let (base, level_ptrs) = base_level_loop (cmp_Compare (vs_user_comparator st)) (vh_files st)
            (vh_versions st (the (cp_input_version c))) user_key [cp_level c + 2..<kNumLevels] (cp_level_ptrs c)
      in (base, c\<lparr>cp_level_ptrs := level_ptrs\<rparr>))"

function pass_grandparents :: "(bytes \<Rightarrow> bytes \<Rightarrow> int) \<Rightarrow> file_store \<Rightarrow> bytes \<Rightarrow> compaction \<Rightarrow> compaction" where
  "pass_grandparents icmp h key c =
     (if cp_grandparent_index c < length (cp_grandparents c) \<and>
         icmp key (fm_largest (h (cp_grandparents c ! cp_grandparent_index c))) > 0
      then
        let c = (if cp_seen_key c
                 then c\<lparr>cp_overlapped_bytes := cp_overlapped_bytes c +
                          sint (fm_file_size (h (cp_grandparents c ! cp_grandparent_index c)))\<rparr> else c)
        in pass_grandparents icmp h key (c\<lparr>cp_grandparent_index := cp_grandparent_index c + 1\<rparr>)
      else c)"
  by auto
termination
  by (relation "measure (\<lambda>(icmp, h, k, c). length (cp_grandparents c) - cp_grandparent_index c)") auto

declare pass_grandparents.simps [simp del]

definition ShouldStopBefore :: "bytes \<Rightarrow> 'w version_set \<Rightarrow> compaction \<Rightarrow> bool \<times> compaction" where
  "ShouldStopBefore key st c =
     (let c = (pass_grandparents (vs_icmp st) (vh_files st) key c)\<lparr>cp_seen_key := True\<rparr>
      in if cp_overlapped_bytes c > MaxGrandParentOverlapBytes (vs_options st)
         then (True, c\<lparr>cp_overlapped_bytes := 0\<rparr>) else (False, c))"

end
