(* ===== verification/LDB_DbImpl.thy ===== *)
theory LDB_DbImpl
  imports LDB_Builder LDB_Compaction
begin

text \<open>
  The parts of \<^verbatim>\<open>db/db_impl.cc\<close> that keep the database: its state, memtables written to level 0, and
  compactions. A function here is what one thread does with the state while it holds the mutex; where the
  code releases the mutex around work that only this thread may do (writing a table, merging
  files), no other thread interferes. Times, statistics of compactions and the information log are left out. The
  environment is a record of functions, the table cache a function of it.
\<close>

subsection \<open>Options\<close>

text \<open>
  A template of the type \<^verbatim>\<open>T\<close> of the field, here with the cast of a \<^verbatim>\<open>T\<close> to the type \<^verbatim>\<open>int\<close> of the bounds and the one back.
\<close>

definition ClipToRange :: "('t \<Rightarrow> int) \<Rightarrow> (int \<Rightarrow> 't) \<Rightarrow> 't \<Rightarrow> int \<Rightarrow> int \<Rightarrow> 't" where
  "ClipToRange cast back x minvalue maxvalue =
     (let x = (if cast x > maxvalue then back maxvalue else x) in if cast x < minvalue then back minvalue else x)"

text \<open>\<^verbatim>\<open>static_cast<int>\<close> of a \<^verbatim>\<open>size_t\<close> keeps the low 32 bits.\<close>

definition int_of_size :: "nat \<Rightarrow> int" where
  "int_of_size n = sint (of_nat n :: 32 word)"

definition kNumNonTableCacheFiles :: int where
  "kNumNonTableCacheFiles = 10"

definition SanitizeOptions :: "db_options \<Rightarrow> db_options" where
  "SanitizeOptions src =
     src\<lparr>opt_comparator := InternalKeyComparator (opt_comparator src),
         opt_filter_policy := map_option InternalFilterPolicy (opt_filter_policy src),
         opt_max_open_files := ClipToRange id id (opt_max_open_files src) (64 + kNumNonTableCacheFiles) 50000,
         opt_write_buffer_size := ClipToRange int_of_size nat (opt_write_buffer_size src) (2 ^ 16) (2 ^ 30),
         opt_max_file_size := ClipToRange int_of_size nat (opt_max_file_size src) (2 ^ 20) (2 ^ 30),
         opt_block_size := ClipToRange int_of_size nat (opt_block_size src) (2 ^ 10) (2 ^ 22)\<rparr>"

text \<open>A write buffer of 4 GB becomes the smallest one: the comparison is made after the cast.\<close>

lemma SanitizeOptions_huge_write_buffer:
  assumes "opt_write_buffer_size src = 2 ^ 32"
  shows "opt_write_buffer_size (SanitizeOptions src) = 2 ^ 16"
proof -
  have "int_of_size (2 ^ 32) = 0" by (simp add: int_of_size_def)
  then show ?thesis by (simp add: SanitizeOptions_def assms ClipToRange_def)
qed

subsection \<open>Snapshots\<close>

text \<open>The circular list of \<^verbatim>\<open>db/snapshot.h\<close> from its oldest element on; a snapshot is known by its address.\<close>

record snapshot_list =
  sl_list :: "(nat \<times> sequence_number) list"
  sl_fresh :: nat

definition SnapshotList :: snapshot_list where
  "SnapshotList = \<lparr>sl_list = [], sl_fresh = 0\<rparr>"

definition SnapshotList_empty :: "snapshot_list \<Rightarrow> bool" where
  "SnapshotList_empty l \<longleftrightarrow> sl_list l = []"

definition SnapshotList_oldest :: "snapshot_list \<Rightarrow> nat \<times> sequence_number" where
  "SnapshotList_oldest l = hd (sl_list l)"

definition SnapshotList_newest :: "snapshot_list \<Rightarrow> nat \<times> sequence_number" where
  "SnapshotList_newest l = last (sl_list l)"

definition SnapshotList_New :: "sequence_number \<Rightarrow> snapshot_list \<Rightarrow> nat \<times> snapshot_list" where
  "SnapshotList_New seq l = (sl_fresh l, \<lparr>sl_list = sl_list l @ [(sl_fresh l, seq)], sl_fresh = Suc (sl_fresh l)\<rparr>)"

definition SnapshotList_Delete :: "nat \<Rightarrow> snapshot_list \<Rightarrow> snapshot_list" where
  "SnapshotList_Delete s l = l\<lparr>sl_list := filter (\<lambda>(a, seq). a \<noteq> s) (sl_list l)\<rparr>"

subsection \<open>The state\<close>

text \<open>
  What does not change: the operations of the environment on its state, the table cache, the directory, the comparator of the
  user and the options after \<^const>\<open>SanitizeOptions\<close>. A lock is known by the name of its file.
\<close>

record ('e, 'w, 'r, 'd) db_params =
  dp_env :: "('e, 'w, 'r) db_env"
  dp_table_cache :: "'e \<Rightarrow> read_options \<Rightarrow> 'd table_source"
  dp_snappy :: snappy
  dp_GetChildren :: "'e \<Rightarrow> status \<times> bytes list"
  dp_FileExists :: "bytes \<Rightarrow> 'e \<Rightarrow> bool"
  dp_CreateDir :: "'e \<Rightarrow> status \<times> 'e"
  dp_DeleteDir :: "'e \<Rightarrow> status \<times> 'e"
  dp_LockFile :: "bytes \<Rightarrow> 'e \<Rightarrow> status \<times> 'e"
  dp_UnlockFile :: "bytes \<Rightarrow> 'e \<Rightarrow> status \<times> 'e"
  dp_heap :: heap
  dp_dbname :: bytes
  dp_user_comparator :: comparator_class
  dp_options :: db_options

record manual_compaction =
  mc_level :: nat
  mc_done :: bool
  mc_begin :: "bytes option"
  mc_end :: "bytes option"

record ('e, 'w) db_state =
  db_env :: 'e
  db_versions :: "'w version_set"
  db_shutting_down :: bool
  db_mem :: memtable
  db_imm :: "memtable option"
  db_logfile_number :: u64
  db_log :: "'w log_writer option"
  db_seed :: u32
  db_snapshots :: snapshot_list
  db_pending_outputs :: "u64 set"
  db_bg_compaction_scheduled :: bool
  db_manual_compaction :: "manual_compaction option"
  db_bg_error :: status

abbreviation db_ucmp :: "('e, 'w) db_state \<Rightarrow> bytes \<Rightarrow> bytes \<Rightarrow> int" where
  "db_ucmp db \<equiv> cmp_Compare (vs_user_comparator (db_versions db))"

definition MaybeIgnoreError :: "db_options \<Rightarrow> status \<Rightarrow> status" where
  "MaybeIgnoreError options s = (if ok s \<or> opt_paranoid_checks options then s else Status_OK)"

definition RecordBackgroundError :: "status \<Rightarrow> ('e, 'w) db_state \<Rightarrow> ('e, 'w) db_state" where
  "RecordBackgroundError s db = (if ok (db_bg_error db) then db\<lparr>db_bg_error := s\<rparr> else db)"

text \<open>\<^verbatim>\<open>Env::Schedule\<close> runs \<^verbatim>\<open>BackgroundCall\<close> some time later, in the background thread.\<close>

definition MaybeScheduleCompaction :: "('e, 'w) db_state \<Rightarrow> ('e, 'w) db_state" where
  "MaybeScheduleCompaction db =
     (if db_bg_compaction_scheduled db then db
      else if db_shutting_down db then db
      else if \<not> ok (db_bg_error db) then db
      else if db_imm db = None \<and> db_manual_compaction db = None \<and> \<not> NeedsCompaction (db_versions db) then db
      else db\<lparr>db_bg_compaction_scheduled := True\<rparr>)"

definition NewDB :: "('e, 'w, 'r, 'd) db_params \<Rightarrow> 'e \<Rightarrow> status \<times> 'e" where
  "NewDB p e =
     (let env = dp_env p;
          new_db = SetLastSequence 0 (SetNextFile 2 (SetLogNumber 0
            (SetComparatorName (cmp_Name (dp_user_comparator p)) new_VersionEdit)));
          manifest = DescriptorFileName (dp_dbname p) 1
      in case NewWritableFile env manifest e of
           (s, Some file, e) \<Rightarrow>
             let (s, lg, e) = log_AddRecord env (Writer file) (VersionEdit_EncodeTo new_db []) e;
                 (closed, e) = file_Close env (lw_dest lg) e;
                 s = (if ok s then closed else s)
             in if ok s then SetCurrentFile (env_class.truncate env) (dp_dbname p) 1 e
                else (s, snd (DeleteFile env manifest e))
         | (s, None, e) \<Rightarrow> (s, e))"

subsection \<open>Writing a memtable to level 0\<close>

definition NewFileNumber_db :: "('e, 'w) db_state \<Rightarrow> u64 \<times> ('e, 'w) db_state" where
  "NewFileNumber_db db =
     (let (number, versions) = NewFileNumber (db_versions db)
      in (number, db\<lparr>db_versions := versions, db_pending_outputs := insert number (db_pending_outputs db)\<rparr>))"

definition WriteLevel0Table ::
    "('e, 'w, 'r, 'd) db_params \<Rightarrow> memtable \<Rightarrow> version_edit \<Rightarrow> version_ptr option \<Rightarrow> ('e, 'w) db_state \<Rightarrow>
     (status \<times> version_edit \<times> ('e, 'w) db_state) option" where
  "WriteLevel0Table p mem edit base db =
     (let (number, db) = NewFileNumber_db db
      in do {
        (s, meta, e) \<leftarrow> BuildTable (dp_dbname p) (dp_env p) (dp_snappy p) (dp_options p) (dp_table_cache p)
          (MemTableIterator_class mem) MemTable_NewIterator (new_FileMetaData number) (db_env db);
        let db = db\<lparr>db_env := e, db_pending_outputs := db_pending_outputs db - {fm_number meta}\<rparr>
        in if ok s \<and> fm_file_size meta > 0 then do {
             level \<leftarrow> (case base of
                 None \<Rightarrow> Some 0
               | Some v \<Rightarrow> PickLevelForMemTableOutput (db_ucmp db) (vs_options (db_versions db)) (vh_files (db_versions db))
                   (vh_versions (db_versions db) v) (ExtractUserKey (fm_smallest meta)) (ExtractUserKey (fm_largest meta)));
             Some (s, AddFile level (fm_number meta) (fm_file_size meta) (fm_smallest meta) (fm_largest meta) edit, db)
           }
           else Some (s, edit, db)
      })"

subsection \<open>Obsolete files\<close>

text \<open>Which of the files in the directory, with their types and numbers, are kept.\<close>

definition keep_file :: "('e, 'w) db_state \<Rightarrow> u64 set \<Rightarrow> u64 \<Rightarrow> FileType \<Rightarrow> bool" where
  "keep_file db live number type =
     (case type of
        kLogFile \<Rightarrow> number \<ge> vs_log_number (db_versions db) \<or> number = vs_prev_log_number (db_versions db)
      | kDescriptorFile \<Rightarrow> number \<ge> vs_manifest_file_number (db_versions db)
      | kTableFile \<Rightarrow> number \<in> live
      | kTempFile \<Rightarrow> number \<in> live
      | kCurrentFile \<Rightarrow> True
      | kDBLockFile \<Rightarrow> True
      | kInfoLogFile \<Rightarrow> True)"

text \<open>Evicting a deleted table from the cache is not modelled.\<close>

definition DeleteObsoleteFiles ::
    "('e, 'w, 'r, 'd) db_params \<Rightarrow> ('e, 'w) db_state \<Rightarrow> ('e, 'w) db_state" where
  "DeleteObsoleteFiles p db =
     (if \<not> ok (db_bg_error db) then db
      else
        let live = AddLiveFiles (db_versions db) (db_pending_outputs db)
        in fold (\<lambda>filename db.
             case ParseFileName filename of
               Some (number, type) \<Rightarrow>
                 if \<not> keep_file db live number type
                 then db\<lparr>db_env := snd (DeleteFile (dp_env p) (dp_dbname p @ str ''/'' @ filename) (db_env db))\<rparr> else db
             | None \<Rightarrow> db) (snd (dp_GetChildren p (db_env db))) db)"

definition LogAndApply_db ::
    "('e, 'w, 'r, 'd) db_params \<Rightarrow> version_edit \<Rightarrow> ('e, 'w) db_state \<Rightarrow> status \<times> ('e, 'w) db_state" where
  "LogAndApply_db p edit db =
     (let (s, versions, e) = LogAndApply (dp_env p) edit (db_versions db) (db_env db)
      in (s, db\<lparr>db_versions := versions, db_env := e\<rparr>))"

definition CompactMemTable ::
    "('e, 'w, 'r, 'd) db_params \<Rightarrow> ('e, 'w) db_state \<Rightarrow> ('e, 'w) db_state option" where
  "CompactMemTable p db =
     (let base = the (vs_current (db_versions db));
          db = db\<lparr>db_versions := Version_Ref base (db_versions db)\<rparr>
      in do {
        (s, edit, db) \<leftarrow> WriteLevel0Table p (the (db_imm db)) new_VersionEdit (Some base) db;
        let db = db\<lparr>db_versions := Version_Unref base (db_versions db)\<rparr>;
            s = (if ok s \<and> db_shutting_down db then Status_IOError (str ''Deleting DB during memtable compaction'') [] else s);
            (s, db) =
              (if ok s then LogAndApply_db p (SetLogNumber (db_logfile_number db) (SetPrevLogNumber 0 edit)) db else (s, db))
        in Some (if ok s then DeleteObsoleteFiles p (db\<lparr>db_imm := None\<rparr>) else RecordBackgroundError s db)
      })"

end
