(* ===== verification/LDB_CompactionWork.thy ===== *)
theory LDB_CompactionWork
  imports LDB_DbImpl
begin

text \<open>
  Compactions in \<^verbatim>\<open>db/db_impl.cc\<close>: the loop of \<^verbatim>\<open>DoCompactionWork\<close> with the rule for dropping entries, the output
  files, the installation of the results, and the background call that starts it all. The output file is part
  of its table builder, together with the environment, which is put in before each use.
\<close>

subsection \<open>The state of a compaction\<close>

record compaction_output =
  out_number :: u64
  out_file_size :: u64
  out_smallest :: bytes
  out_largest :: bytes

record ('e, 'w) compaction_state =
  cs_compaction :: compaction
  cs_smallest_snapshot :: sequence_number
  cs_outputs :: "compaction_output list"
  cs_builder :: "('w \<times> 'e) table_builder option"
  cs_total_bytes :: u64

definition CompactionState :: "compaction \<Rightarrow> sequence_number \<Rightarrow> ('e, 'w) compaction_state" where
  "CompactionState c smallest_snapshot =
     \<lparr>cs_compaction = c, cs_smallest_snapshot = smallest_snapshot, cs_outputs = [], cs_builder = None, cs_total_bytes = 0\<rparr>"

definition set_current_output :: "(compaction_output \<Rightarrow> compaction_output) \<Rightarrow> ('e, 'w) compaction_state \<Rightarrow> ('e, 'w) compaction_state" where
  "set_current_output f cs = cs\<lparr>cs_outputs := butlast (cs_outputs cs) @ [f (last (cs_outputs cs))]\<rparr>"

definition in_env :: "'e \<Rightarrow> ('w \<times> 'e) table_builder \<Rightarrow> ('w \<times> 'e) table_builder" where
  "in_env e b = b\<lparr>tb_file := (fst (tb_file b), e)\<rparr>"

subsection \<open>Output files\<close>

definition OpenCompactionOutputFile ::
    "('e, 'w, 'r, 'd) db_params \<Rightarrow> ('e, 'w) compaction_state \<Rightarrow> ('e, 'w) db_state \<Rightarrow>
     status \<times> ('e, 'w) compaction_state \<times> ('e, 'w) db_state" where
  "OpenCompactionOutputFile p cs db =
     (let (file_number, db) = NewFileNumber_db db;
          cs = cs\<lparr>cs_outputs := cs_outputs cs @ [\<lparr>out_number = file_number, out_file_size = 0, out_smallest = [], out_largest = []\<rparr>]\<rparr>
      in case NewWritableFile (dp_env p) (TableFileName (dp_dbname p) file_number) (db_env db) of
           (s, Some outfile, e) \<Rightarrow> (s, cs\<lparr>cs_builder := Some (TableBuilder (dp_options p) (outfile, e))\<rparr>, db\<lparr>db_env := e\<rparr>)
         | (s, None, e) \<Rightarrow> (s, cs, db\<lparr>db_env := e\<rparr>))"

definition FinishCompactionOutputFile ::
    "('e, 'w, 'r, 'd) db_params \<Rightarrow> status \<Rightarrow> ('e, 'w) compaction_state \<Rightarrow> ('e, 'w) db_state \<Rightarrow>
     status \<times> ('e, 'w) compaction_state \<times> ('e, 'w) db_state" where
  "FinishCompactionOutputFile p input_status cs db =
     (let output_number = out_number (last (cs_outputs cs));
          builder = in_env (db_env db) (the (cs_builder cs));
          current_entries = TableBuilder_NumEntries builder;
          (s, builder) = (if ok input_status then TableBuilder_Finish (file_table (dp_env p) (dp_snappy p)) builder
                          else (input_status, TableBuilder_Abandon builder));
          current_bytes = TableBuilder_FileSize builder;
          cs = (set_current_output (\<lambda>out. out\<lparr>out_file_size := current_bytes\<rparr>) cs)
            \<lparr>cs_total_bytes := cs_total_bytes cs + current_bytes, cs_builder := None\<rparr>;
          (s, e) = sync_and_close (dp_env p) s (tb_file builder);
          s = (if ok s \<and> current_entries > 0 then table_usable (dp_table_cache p) output_number current_bytes e else s)
      in (s, cs, db\<lparr>db_env := e\<rparr>))"

definition InstallCompactionResults ::
    "('e, 'w, 'r, 'd) db_params \<Rightarrow> ('e, 'w) compaction_state \<Rightarrow> ('e, 'w) db_state \<Rightarrow>
     status \<times> ('e, 'w) compaction_state \<times> ('e, 'w) db_state" where
  "InstallCompactionResults p cs db =
     (let c = cs_compaction cs;
          edit = AddInputDeletions (vh_files (db_versions db)) c (cp_edit c);
          edit = fold (\<lambda>out. AddFile (cp_level c + 1) (out_number out) (out_file_size out) (out_smallest out) (out_largest out))
            (cs_outputs cs) edit;
          (s, db) = LogAndApply_db p edit db
      in (s, cs\<lparr>cs_compaction := c\<lparr>cp_edit := edit\<rparr>\<rparr>, db))"

subsection \<open>Dropping entries\<close>

text \<open>The local variables of the loop that tell about the user key of the entries just seen.\<close>

record key_state =
  ks_current_user_key :: bytes
  ks_has_current_user_key :: bool
  ks_last_sequence_for_key :: sequence_number

definition new_key_state :: key_state where
  "new_key_state = \<lparr>ks_current_user_key = [], ks_has_current_user_key = False, ks_last_sequence_for_key = kMaxSequenceNumber\<rparr>"

definition drop_entry ::
    "'w version_set \<Rightarrow> sequence_number \<Rightarrow> bytes \<Rightarrow> key_state \<Rightarrow> compaction \<Rightarrow> bool \<times> key_state \<times> compaction" where
  "drop_entry st smallest_snapshot key ks c =
     (case ParseInternalKey key of
        None \<Rightarrow> (False, new_key_state, c)
      | Some ikey \<Rightarrow>
          let ks =
                (if \<not> ks_has_current_user_key ks \<or>
                    cmp_Compare (vs_user_comparator st) (pik_user_key ikey) (ks_current_user_key ks) \<noteq> 0
                 then \<lparr>ks_current_user_key = pik_user_key ikey, ks_has_current_user_key = True,
                       ks_last_sequence_for_key = kMaxSequenceNumber\<rparr>
                 else ks);
              (drop, c) =
                (if ks_last_sequence_for_key ks \<le> smallest_snapshot then (True, c)
                 else if pik_type ikey = kTypeDeletion \<and> pik_sequence ikey \<le> smallest_snapshot
                 then IsBaseLevelForKey (pik_user_key ikey) st c
                 else (False, c))
          in (drop, ks\<lparr>ks_last_sequence_for_key := pik_sequence ikey\<rparr>, c))"

subsection \<open>The loop\<close>

definition add_output ::
    "('e, 'w, 'r, 'd) db_params \<Rightarrow> bytes \<Rightarrow> bytes \<Rightarrow> ('e, 'w) compaction_state \<Rightarrow> ('e, 'w) db_state \<Rightarrow>
     ('e, 'w) compaction_state \<times> ('e, 'w) db_state" where
  "add_output p key value cs db =
     (let builder = in_env (db_env db) (the (cs_builder cs));
          cs = (if TableBuilder_NumEntries builder = 0 then set_current_output (\<lambda>out. out\<lparr>out_smallest := key\<rparr>) cs else cs);
          cs = set_current_output (\<lambda>out. out\<lparr>out_largest := key\<rparr>) cs;
          builder = TableBuilder_Add (file_table (dp_env p) (dp_snappy p)) key value builder
      in (cs\<lparr>cs_builder := Some builder\<rparr>, db\<lparr>db_env := snd (tb_file builder)\<rparr>))"

text \<open>An entry that is kept: the output file is opened when there is none and closed when it is big enough.\<close>

definition keep_entry ::
    "('e, 'w, 'r, 'd) db_params \<Rightarrow> bytes \<Rightarrow> bytes \<Rightarrow> status \<Rightarrow> ('e, 'w) compaction_state \<Rightarrow> ('e, 'w) db_state \<Rightarrow>
     status \<times> ('e, 'w) compaction_state \<times> ('e, 'w) db_state" where
  "keep_entry p key value input_status cs db =
     (let (s, cs, db) = (if cs_builder cs = None then OpenCompactionOutputFile p cs db else (Status_OK, cs, db))
      in if \<not> ok s then (s, cs, db)
         else
           let (cs, db) = add_output p key value cs db
           in if TableBuilder_FileSize (the (cs_builder cs)) \<ge> MaxOutputFileSize (cs_compaction cs)
              then FinishCompactionOutputFile p input_status cs db else (s, cs, db))"

definition compaction_step ::
    "('e, 'w, 'r, 'd) db_params \<Rightarrow> bytes \<Rightarrow> bytes \<Rightarrow> status \<Rightarrow> key_state \<Rightarrow> ('e, 'w) compaction_state \<Rightarrow> ('e, 'w) db_state \<Rightarrow>
     status \<times> key_state \<times> ('e, 'w) compaction_state \<times> ('e, 'w) db_state" where
  "compaction_step p key value input_status ks cs db =
     (let (stop, c) = ShouldStopBefore key (db_versions db) (cs_compaction cs);
          cs = cs\<lparr>cs_compaction := c\<rparr>;
          (s, cs, db) = (if stop \<and> cs_builder cs \<noteq> None then FinishCompactionOutputFile p input_status cs db else (Status_OK, cs, db))
      in if \<not> ok s then (s, ks, cs, db)
         else
           let (drop, ks, c) = drop_entry (db_versions db) (cs_smallest_snapshot cs) key ks (cs_compaction cs);
               cs = cs\<lparr>cs_compaction := c\<rparr>
           in if drop then (s, ks, cs, db)
              else let (s, cs, db) = keep_entry p key value input_status cs db in (s, ks, cs, db))"

partial_function (option) compaction_loop ::
    "('e, 'w, 'r, 'd) db_params \<Rightarrow> 'i iterator_class \<Rightarrow> 'i \<Rightarrow> key_state \<Rightarrow> ('e, 'w) compaction_state \<Rightarrow> ('e, 'w) db_state \<Rightarrow>
     (status \<times> 'i \<times> ('e, 'w) compaction_state \<times> ('e, 'w) db_state) option" where
  "compaction_loop p ops input ks cs db =
     (if it_Valid ops input \<and> \<not> db_shutting_down db then do {
        db \<leftarrow> (if db_imm db \<noteq> None then CompactMemTable p db else Some db);
        let (s, ks, cs, db) = compaction_step p (it_key ops input) (it_value ops input) (it_status ops input) ks cs db
        in if ok s then compaction_loop p ops (it_Next ops input) ks cs db else Some (s, input, cs, db)
      }
      else Some (Status_OK, input, cs, db))"

definition DoCompactionWork ::
    "('e, 'w, 'r, 'd) db_params \<Rightarrow> compaction \<Rightarrow> ('e, 'w) db_state \<Rightarrow>
     (status \<times> ('e, 'w) compaction_state \<times> ('e, 'w) db_state) option" where
  "DoCompactionWork p c db =
     (let smallest_snapshot =
            (if SnapshotList_empty (db_snapshots db) then vs_last_sequence (db_versions db)
             else snd (SnapshotList_oldest (db_snapshots db)));
          icmp = InternalKey_Compare (db_ucmp db);
          (opss, input) = MakeInputIterator icmp (dp_table_cache p (db_env db)) (vs_options (db_versions db)) (vh_files (db_versions db)) c;
          ops = merged_class icmp opss
      in do {
        (s, input, cs, db) \<leftarrow> compaction_loop p ops (it_SeekToFirst ops input) new_key_state (CompactionState c smallest_snapshot) db;
        let s = (if ok s \<and> db_shutting_down db then Status_IOError (str ''Deleting DB during compaction'') [] else s);
            (s, cs, db) = (if ok s \<and> cs_builder cs \<noteq> None then FinishCompactionOutputFile p (it_status ops input) cs db else (s, cs, db));
            s = (if ok s then it_status ops input else s);
            (s, cs, db) = (if ok s then InstallCompactionResults p cs db else (s, cs, db))
        in Some (s, cs, if \<not> ok s then RecordBackgroundError s db else db)
      })"

text \<open>\<^verbatim>\<open>delete compact->outfile\<close> closes a file that was left open.\<close>

definition CleanupCompaction ::
    "('e, 'w, 'r, 'd) db_params \<Rightarrow> ('e, 'w) compaction_state \<Rightarrow> ('e, 'w) db_state \<Rightarrow> ('e, 'w) db_state" where
  "CleanupCompaction p cs db =
     (let db = (case cs_builder cs of
            Some b \<Rightarrow> db\<lparr>db_env := snd (file_Close (dp_env p) (fst (tb_file (TableBuilder_Abandon b))) (db_env db))\<rparr>
          | None \<Rightarrow> db)
      in db\<lparr>db_pending_outputs := db_pending_outputs db - out_number ` set (cs_outputs cs)\<rparr>)"

subsection \<open>The background thread\<close>

definition TrivialMove :: "('e, 'w, 'r, 'd) db_params \<Rightarrow> compaction \<Rightarrow> ('e, 'w) db_state \<Rightarrow> status \<times> compaction \<times> ('e, 'w) db_state" where
  "TrivialMove p c db =
     (let f = vh_files (db_versions db) (compaction_input 0 0 c);
          edit = AddFile (cp_level c + 1) (fm_number f) (fm_file_size f) (fm_smallest f) (fm_largest f)
            (VersionEdit_DeleteFile (cp_level c) (fm_number f) (cp_edit c));
          (s, db) = LogAndApply_db p edit db
      in (s, c\<lparr>cp_edit := edit\<rparr>, if \<not> ok s then RecordBackgroundError s db else db))"

definition choose_compaction :: "('e, 'w) db_state \<Rightarrow> (compaction option \<times> ('e, 'w) db_state) option" where
  "choose_compaction db = do {
     (c, versions) \<leftarrow> (case db_manual_compaction db of
         Some m \<Rightarrow> CompactRange (mc_level m) (mc_begin m) (mc_end m) (db_versions db)
       | None \<Rightarrow> PickCompaction (db_versions db));
     Some (c, db\<lparr>db_versions := versions\<rparr>)
   }"

definition run_compaction ::
    "('e, 'w, 'r, 'd) db_params \<Rightarrow> bool \<Rightarrow> compaction \<Rightarrow> ('e, 'w) db_state \<Rightarrow> (status \<times> ('e, 'w) db_state) option" where
  "run_compaction p is_manual c db =
     (if \<not> is_manual \<and> IsTrivialMove c (db_versions db) then
        let (s, c, db) = TrivialMove p c db
        in Some (s, db\<lparr>db_versions := Compaction_delete c (db_versions db)\<rparr>)
      else do {
        (s, cs, db) \<leftarrow> DoCompactionWork p c db;
        let db = CleanupCompaction p cs db;
            (c, versions) = ReleaseInputs (cs_compaction cs) (db_versions db);
            db = DeleteObsoleteFiles p (db\<lparr>db_versions := versions\<rparr>)
        in Some (s, db\<lparr>db_versions := Compaction_delete c (db_versions db)\<rparr>)
      })"

text \<open>What is left of a manual compaction is kept by its caller, in whose record \<^verbatim>\<open>manual_compaction_\<close> points.\<close>

definition BackgroundCompaction ::
    "('e, 'w, 'r, 'd) db_params \<Rightarrow> ('e, 'w) db_state \<Rightarrow> (manual_compaction option \<times> ('e, 'w) db_state) option" where
  "BackgroundCompaction p db =
     (if db_imm db \<noteq> None then do { db \<leftarrow> CompactMemTable p db; Some (None, db) }
      else do {
        (c, db) \<leftarrow> choose_compaction db;
        (s, db') \<leftarrow> (case c of None \<Rightarrow> Some (Status_OK, db) | Some c \<Rightarrow> run_compaction p (db_manual_compaction db \<noteq> None) c db);
        Some (case db_manual_compaction db of
          None \<Rightarrow> (None, db')
        | Some m \<Rightarrow>
            let manual_end = (case c of
                    None \<Rightarrow> [] | Some c \<Rightarrow> fm_largest (vh_files (db_versions db) (compaction_input 0 (num_input_files 0 c - 1) c)));
                m = m\<lparr>mc_done := c = None \<or> \<not> ok s\<rparr>;
                m = (if \<not> mc_done m then m\<lparr>mc_begin := Some manual_end\<rparr> else m)
            in (Some m, db'\<lparr>db_manual_compaction := None\<rparr>))
      })"

definition BackgroundCall ::
    "('e, 'w, 'r, 'd) db_params \<Rightarrow> ('e, 'w) db_state \<Rightarrow> (manual_compaction option \<times> ('e, 'w) db_state) option" where
  "BackgroundCall p db = do {
     (m, db) \<leftarrow> (if db_shutting_down db \<or> \<not> ok (db_bg_error db) then Some (None, db) else BackgroundCompaction p db);
     Some (m, MaybeScheduleCompaction (db\<lparr>db_bg_compaction_scheduled := False\<rparr>))
   }"

end
