(* ===== verification/LDB_CompactionSpec.thy ===== *)
theory LDB_CompactionSpec
  imports LDB_Compaction LDB_VersionSetSpec
begin

text \<open>
  What the choice of a compaction guarantees: inputs that can be replaced by their merge without a
  conflict in the two levels, and the test for the base level of a key.
\<close>

subsection \<open>Ranges\<close>

definition covers :: "(bytes \<Rightarrow> bytes \<Rightarrow> int) \<Rightarrow> FileMetaData list \<Rightarrow> bytes \<times> bytes \<Rightarrow> bool" where
  "covers icmp fs = (\<lambda>(smallest, largest). smallest \<in> fm_smallest ` set fs \<and> largest \<in> fm_largest ` set fs \<and>
     (\<forall>f \<in> set fs. icmp smallest (fm_smallest f) \<le> 0 \<and> icmp (fm_largest f) largest \<le> 0))"

lemma GetRange_snoc:
  "fs \<noteq> [] \<Longrightarrow> GetRange icmp (fs @ [f]) =
     (if icmp (fm_smallest f) (fst (GetRange icmp fs)) < 0 then fm_smallest f else fst (GetRange icmp fs),
      if icmp (fm_largest f) (snd (GetRange icmp fs)) > 0 then fm_largest f else snd (GetRange icmp fs))"
  by (simp add: GetRange_def enumerate_append_eq case_prod_beta)

text \<open>The files between the user keys of a range, and files that are wholly before or behind all of some files.\<close>

abbreviation in_range :: "(bytes \<Rightarrow> bytes \<Rightarrow> int) \<Rightarrow> bytes \<times> bytes \<Rightarrow> FileMetaData \<Rightarrow> bool" where
  "in_range cmp r f \<equiv> touches cmp (Some (ExtractUserKey (fst r))) (Some (ExtractUserKey (snd r))) f"

definition apart :: "(bytes \<Rightarrow> bytes \<Rightarrow> int) \<Rightarrow> FileMetaData list \<Rightarrow> FileMetaData \<Rightarrow> bool" where
  "apart icmp fs g \<longleftrightarrow> (\<forall>f \<in> set fs. icmp (fm_largest f) (fm_smallest g) < 0) \<or> (\<forall>f \<in> set fs. icmp (fm_largest g) (fm_smallest f) < 0)"

text \<open>
  What holds of the inputs: they are files of the level, with all that overlap them in level 0; those of the next level are the
  files in their range, and every other file of that level is apart from all inputs.
\<close>

definition inputs_ok :: "(bytes \<Rightarrow> bytes \<Rightarrow> int) \<Rightarrow> 'w version_set \<Rightarrow> nat \<Rightarrow> file_ptr list \<Rightarrow> bool" where
  "inputs_ok cmp st level inputs0 \<longleftrightarrow> inputs0 \<noteq> [] \<and> set inputs0 \<subseteq> set (v_files (current_version st) level) \<and>
     (level = 0 \<longrightarrow> (\<forall>p \<in> set inputs0. \<forall>q \<in> set (v_files (current_version st) 0).
        overlap cmp (vh_files st p) (vh_files st q) \<longrightarrow> q \<in> set inputs0))"

definition ranged_ok :: "(bytes \<Rightarrow> bytes \<Rightarrow> int) \<Rightarrow> 'w version_set \<Rightarrow> nat \<Rightarrow> ranged_inputs \<Rightarrow> bool" where
  "ranged_ok cmp st level = (\<lambda>((inputs0, inputs1), range0, whole). inputs_ok cmp st level inputs0 \<and>
     range0 = GetRange (InternalKey_Compare cmp) (map (vh_files st) inputs0) \<and>
     inputs1 = filter (\<lambda>p. in_range cmp range0 (vh_files st p)) (v_files (current_version st) (level + 1)) \<and>
     whole = GetRange (InternalKey_Compare cmp) (map (vh_files st) (inputs0 @ inputs1)))"

definition setup_ok :: "(bytes \<Rightarrow> bytes \<Rightarrow> int) \<Rightarrow> 'w version_set \<Rightarrow> compaction \<Rightarrow> bool" where
  "setup_ok cmp st c \<longleftrightarrow>
     (let v = current_version st; h = vh_files st; level = cp_level c; inputs = cp_inputs c 0 @ cp_inputs c 1 in
        inputs_ok cmp st level (cp_inputs c 0) \<and> set (cp_inputs c 1) \<subseteq> set (v_files v (level + 1)) \<and>
        (\<forall>q \<in> set (v_files v (level + 1)) - set (cp_inputs c 1). apart (InternalKey_Compare cmp) (map h inputs) (h q)) \<and>
        (level + 2 < kNumLevels \<longrightarrow>
          cp_grandparents c = filter (\<lambda>p. in_range cmp (GetRange (InternalKey_Compare cmp) (map h inputs)) (h p)) (v_files v (level + 2))))"

text \<open>
  What is recorded: the reference to the input version, and the largest key of the inputs of the level as the place where the next
  compaction of the level starts, in the version set and in the edit. Nothing else changes.
\<close>

definition greatest_key :: "(bytes \<Rightarrow> bytes \<Rightarrow> int) \<Rightarrow> FileMetaData list \<Rightarrow> bytes \<Rightarrow> bool" where
  "greatest_key icmp fs k \<longleftrightarrow> k \<in> fm_largest ` set fs \<and> (\<forall>f \<in> set fs. icmp (fm_largest f) k \<le> 0)"

definition taken :: "compaction \<Rightarrow> 'w version_set \<Rightarrow> 'w version_set \<Rightarrow> bool" where
  "taken c st st' \<longleftrightarrow> cp_input_version c = vs_current st \<and>
     (\<exists>ptr. greatest_key (vs_icmp st) (map (vh_files st) (cp_inputs c 0)) ptr \<and>
        st' = (Version_Ref (the (vs_current st)) st)\<lparr>vs_compact_pointer := (vs_compact_pointer st)(cp_level c := ptr)\<rparr> \<and>
        cp_edit c = SetCompactPointer (cp_level c) ptr new_VersionEdit)"

text \<open>
  The files of a level in a range that was asked for, and those of them that one compaction is to take: all in
  level 0, and in the other levels the first ones, until they reach the size of an output file together.
\<close>

definition asked :: "(bytes \<Rightarrow> bytes \<Rightarrow> int) \<Rightarrow> 'w version_set \<Rightarrow> nat \<Rightarrow> bytes option \<Rightarrow> bytes option \<Rightarrow> file_ptr list" where
  "asked cmp st level lo hi =
     filter (\<lambda>p. touches cmp (map_option ExtractUserKey lo) (map_option ExtractUserKey hi) (vh_files st p)) (v_files (current_version st) level)"

definition up_to_size :: "'w version_set \<Rightarrow> nat \<Rightarrow> file_ptr list \<Rightarrow> file_ptr list" where
  "up_to_size st level fs =
     (if level = 0 then fs
      else nths fs {i. \<forall>j < i. sum_list (map (\<lambda>p. fm_file_size (vh_files st p)) (take (Suc j) fs)) < MaxFileSizeForLevel (vs_options st) level})"

text \<open>The level and the file that a version asks to compact are there.\<close>

definition pick_ok :: "'w version_set \<Rightarrow> bool" where
  "pick_ok st \<longleftrightarrow>
     (let v = current_version st in
        (v_compaction_score v \<ge> 1 \<longrightarrow> 0 \<le> v_compaction_level v \<and> nat (v_compaction_level v) + 1 < kNumLevels \<and> v_files v (nat (v_compaction_level v)) \<noteq> []) \<and>
        (\<forall>f. v_file_to_compact v = Some f \<longrightarrow> nat (v_file_to_compact_level v) + 1 < kNumLevels \<and> f \<in> set (v_files v (nat (v_file_to_compact_level v)))))"

lemma find_in: "find P xs = Some x \<Longrightarrow> x \<in> set xs"
  by (induction xs) (auto split: if_splits)

lemma first_after_pointer_in: "set (first_after_pointer st level files) \<subseteq> set files"
  by (auto simp: first_after_pointer_def dest: find_in [OF sym] split: option.splits)

context user_comparator
begin

lemma GetRange_covers:
  assumes "fs \<noteq> []" and "\<forall>f \<in> set fs. file_ok Compare f"
  shows "covers icmp fs (GetRange icmp fs)"
  using assms
proof (induction fs rule: rev_nonempty_induct)
  case (single f)
  then show ?case using internal.cmp_self by (simp add: GetRange_def covers_def file_ok_def)
next
  case (snoc f fs)
  obtain s l where r: "GetRange icmp fs = (s, l)" by (cases "GetRange icmp fs")
  have IH: "s \<in> fm_smallest ` set fs" "l \<in> fm_largest ` set fs"
      "\<forall>f \<in> set fs. icmp s (fm_smallest f) \<le> 0 \<and> icmp (fm_largest f) l \<le> 0"
    using snoc.IH snoc.prems by (simp_all add: covers_def r)
  have len: "8 \<le> length s" "8 \<le> length l" "8 \<le> length (fm_smallest f)" "8 \<le> length (fm_largest f)"
      "\<And>g. g \<in> set fs \<Longrightarrow> 8 \<le> length (fm_smallest g) \<and> 8 \<le> length (fm_largest g)"
    using IH(1,2) snoc.prems by (auto simp: file_ok_def)
  let ?s = "if icmp (fm_smallest f) s < 0 then fm_smallest f else s" and ?l = "if icmp (fm_largest f) l > 0 then fm_largest f else l"
  have "icmp ?s (fm_smallest f) \<le> 0" "icmp (fm_largest f) ?l \<le> 0"
    using internal.cmp_self len(3,4) internal.cmp_flip [OF len(3,1)] internal.cmp_flip [OF len(1,3)] by (auto simp: not_less)
  moreover have "icmp ?s s \<le> 0" "icmp l ?l \<le> 0"
    using internal.cmp_self len(1,2) internal.cmp_flip [OF len(2,4)] by (auto simp: not_less)
  then have "icmp ?s (fm_smallest g) \<le> 0 \<and> icmp (fm_largest g) ?l \<le> 0" if "g \<in> set fs" for g
    using IH(3) that len internal.cmp_trans [of ?s s "fm_smallest g"] internal.cmp_trans [of "fm_largest g" l ?l] by auto
  ultimately show ?case
    using IH(1,2) by (auto simp: GetRange_snoc [OF snoc.hyps] r covers_def)
qed

lemma icmp_user: "8 \<le> length a \<Longrightarrow> 8 \<le> length b \<Longrightarrow> icmp a b \<le> 0 \<Longrightarrow> Compare (ExtractUserKey a) (ExtractUserKey b) \<le> 0"
  by (auto simp: icmp_less_iff)

lemma user_less: "8 \<le> length a \<Longrightarrow> 8 \<le> length b \<Longrightarrow> Compare (ExtractUserKey a) (ExtractUserKey b) < 0 \<Longrightarrow> icmp a b < 0"
  by (simp add: icmp_less_iff)

lemma covered_file_in_range:
  assumes "covers icmp fs r" and "f \<in> set fs" and "\<forall>f \<in> set fs. file_ok Compare f"
  shows "in_range Compare r f"
proof -
  have "8 \<le> length (fst r)" "8 \<le> length (snd r)" using assms by (auto simp: covers_def case_prod_beta file_ok_def)
  moreover have "icmp (fst r) (fm_smallest f) \<le> 0" "icmp (fm_largest f) (snd r) \<le> 0" "file_ok Compare f"
    using assms by (auto simp: covers_def case_prod_beta)
  ultimately have "Compare (ExtractUserKey (fst r)) (ExtractUserKey (fm_smallest f)) \<le> 0"
      "Compare (ExtractUserKey (fm_largest f)) (ExtractUserKey (snd r)) \<le> 0"
      "Compare (ExtractUserKey (fm_smallest f)) (ExtractUserKey (fm_largest f)) \<le> 0"
    using icmp_user file_users by (auto simp: file_ok_def)
  then show ?thesis
    using cmp_trans [of "ExtractUserKey (fst r)" "ExtractUserKey (fm_smallest f)" "ExtractUserKey (fm_largest f)"]
      cmp_trans [of "ExtractUserKey (fm_smallest f)" "ExtractUserKey (fm_largest f)" "ExtractUserKey (snd r)"]
    by (simp add: touches_def)
qed

lemma level_order:
  assumes "level_ok Compare gs" and "f \<in> set gs" and "g \<in> set gs"
    and "Compare (ExtractUserKey (fm_smallest f)) (ExtractUserKey (fm_smallest g)) < 0"
  shows "icmp (fm_largest f) (fm_smallest g) < 0"
proof -
  obtain i j where ij: "i < length gs" "f = gs ! i" "j < length gs" "g = gs ! j" using assms(2,3) by (auto simp: in_set_conv_nth)
  have "\<not> j \<le> i"
  proof
    assume "j \<le> i"
    have "Compare (ExtractUserKey (fm_smallest g)) (ExtractUserKey (fm_smallest f)) \<le> 0"
    proof (cases "j = i")
      case True
      then show ?thesis using ij cmp_self by simp
    next
      case False
      then have "Compare (ExtractUserKey (fm_largest g)) (ExtractUserKey (fm_smallest f)) \<le> 0"
        using level_users [OF assms(1), of j i] \<open>j \<le> i\<close> ij by simp
      then show ?thesis using file_users [of g] assms(1,3) cmp_trans by (auto simp: level_ok_def)
    qed
    then show False using assms(4) cmp_flip by force
  qed
  then show ?thesis using assms(1) ij sorted_wrt_nth_less [of _ gs i j] by (auto simp: level_ok_def)
qed

lemma level_order':
  assumes "level_ok Compare gs" and "f \<in> set gs" and "g \<in> set gs"
    and "Compare (ExtractUserKey (fm_largest f)) (ExtractUserKey (fm_largest g)) < 0"
  shows "icmp (fm_largest f) (fm_smallest g) < 0"
proof -
  obtain i j where ij: "i < length gs" "f = gs ! i" "j < length gs" "g = gs ! j" using assms(2,3) by (auto simp: in_set_conv_nth)
  have "\<not> j \<le> i"
  proof
    assume "j \<le> i"
    have "Compare (ExtractUserKey (fm_largest g)) (ExtractUserKey (fm_largest f)) \<le> 0"
    proof (cases "j = i")
      case True
      then show ?thesis using ij cmp_self by simp
    next
      case False
      then have "Compare (ExtractUserKey (fm_largest g)) (ExtractUserKey (fm_smallest f)) \<le> 0"
        using level_users [OF assms(1), of j i] \<open>j \<le> i\<close> ij by simp
      then show ?thesis using file_users [of f] assms(1,2) cmp_trans by (auto simp: level_ok_def)
    qed
    then show False using assms(4) cmp_flip by force
  qed
  then show ?thesis using assms(1) ij sorted_wrt_nth_less [of _ gs i j] by (auto simp: level_ok_def)
qed

lemma outsider_apart:
  assumes "fs \<noteq> []" and "\<forall>f \<in> set fs. file_ok Compare f" and "covers icmp fs r"
    and "level_ok Compare gs" and "g \<in> set gs" and "\<not> in_range Compare r g"
  shows "apart icmp (fs @ filter (in_range Compare r) gs) g"
proof -
  have ok: "file_ok Compare g" "\<And>f. f \<in> set gs \<Longrightarrow> file_ok Compare f" using assms(4,5) by (auto simp: level_ok_def)
  have r: "8 \<le> length (fst r)" "8 \<le> length (snd r)" using assms(2,3) by (auto simp: covers_def case_prod_beta file_ok_def)
  have users: "Compare (ExtractUserKey (fst r)) (ExtractUserKey (fm_smallest f)) \<le> 0" "Compare (ExtractUserKey (fm_largest f)) (ExtractUserKey (snd r)) \<le> 0"
    if "f \<in> set fs" for f
    using that assms(2,3) icmp_user r by (auto simp: covers_def case_prod_beta file_ok_def)
  consider "Compare (ExtractUserKey (fm_largest g)) (ExtractUserKey (fst r)) < 0" | "Compare (ExtractUserKey (snd r)) (ExtractUserKey (fm_smallest g)) < 0"
    using assms(6) cmp_flip by (auto simp: touches_def not_le)
  then show ?thesis
  proof cases
    case 1
    have "icmp (fm_largest g) (fm_smallest f) < 0" if "f \<in> set fs" for f
      using 1 users(1) [OF that] cmp_less_le_trans user_less ok(1) that assms(2) by (auto simp: file_ok_def)
    moreover have "icmp (fm_largest g) (fm_smallest f) < 0" if "f \<in> set gs" "in_range Compare r f" for f
      using level_order' [OF assms(4,5) that(1)] that(2) 1
        cmp_less_le_trans [of "ExtractUserKey (fm_largest g)" "ExtractUserKey (fst r)" "ExtractUserKey (fm_largest f)"]
      by (simp add: touches_def)
    ultimately show ?thesis by (auto simp: apart_def)
  next
    case 2
    have "icmp (fm_largest f) (fm_smallest g) < 0" if "f \<in> set fs" for f
      using 2 users(2) [OF that] cmp_le_less_trans user_less ok(1) that assms(2) by (auto simp: file_ok_def)
    moreover have "icmp (fm_largest f) (fm_smallest g) < 0" if "f \<in> set gs" "in_range Compare r f" for f
      using level_order [OF assms(4) that(1) assms(5)] that(2) 2
        cmp_le_less_trans [of "ExtractUserKey (fm_smallest f)" "ExtractUserKey (snd r)" "ExtractUserKey (fm_smallest g)"]
      by (simp add: touches_def)
    ultimately show ?thesis by (auto simp: apart_def)
  qed
qed

subsection \<open>Setting up the inputs\<close>

lemma version_file_ok:
  assumes "version_ok Compare h v" and "level < kNumLevels" and "p \<in> set (v_files v level)"
  shows "file_ok Compare (h p)"
  using assms by (cases "level = 0") (auto simp: version_ok_def level_ok_def)

lemma current_overlapping:
  assumes "cmp_Compare (vs_user_comparator st) = Compare" and "version_ok Compare (vh_files st) (current_version st)"
  shows "\<exists>inputs. CurrentOverlappingInputs st level (Some lo) (Some hi) = Some inputs \<and>
    set inputs \<subseteq> set (v_files (current_version st) level) \<and>
    (\<forall>p \<in> set (v_files (current_version st) level). in_range Compare (lo, hi) (vh_files st p) \<longrightarrow> p \<in> set inputs) \<and>
    (level = 0 \<longrightarrow> (\<forall>p \<in> set inputs. \<forall>q \<in> set (v_files (current_version st) 0). overlap Compare (vh_files st p) (vh_files st q) \<longrightarrow> q \<in> set inputs)) \<and>
    (0 < level \<longrightarrow> inputs = filter (\<lambda>p. in_range Compare (lo, hi) (vh_files st p)) (v_files (current_version st) level))"
  using overlapping_inputs [of level "current_version st" "vh_files st" "Some lo" "Some hi"] assms
  by (cases "level = 0") (auto simp: CurrentOverlappingInputs_def closed_inputs_def version_ok_def)

lemma expand_inputs_ok:
  assumes c: "cmp_Compare (vs_user_comparator st) = Compare" "version_ok Compare (vh_files st) (current_version st)"
    and r: "ranged_ok Compare st level r" and level: "level + 1 < kNumLevels"
  shows "\<exists>r'. expand_inputs level r st = Some r' \<and> ranged_ok Compare st level r' \<and> set (fst (fst r)) \<subseteq> set (fst (fst r'))"
proof -
  obtain inputs0 inputs1 s l as al where r': "r = ((inputs0, inputs1), (s, l), (as, al))" by (metis prod.collapse)
  obtain e0 where e0: "CurrentOverlappingInputs st level (Some as) (Some al) = Some e0" "set e0 \<subseteq> set (v_files (current_version st) level)"
      "\<forall>p \<in> set (v_files (current_version st) level). in_range Compare (as, al) (vh_files st p) \<longrightarrow> p \<in> set e0"
      "level = 0 \<longrightarrow> (\<forall>p \<in> set e0. \<forall>q \<in> set (v_files (current_version st) 0). overlap Compare (vh_files st p) (vh_files st q) \<longrightarrow> q \<in> set e0)"
    using current_overlapping [OF c, of level as al] by blast
  obtain ns nl where n: "GetRange icmp (map (vh_files st) e0) = (ns, nl)" by (cases "GetRange icmp (map (vh_files st) e0)")
  obtain e1 where e1: "CurrentOverlappingInputs st (level + 1) (Some ns) (Some nl) = Some e1"
      "e1 = filter (\<lambda>p. in_range Compare (ns, nl) (vh_files st p)) (v_files (current_version st) (level + 1))"
    using current_overlapping [OF c, of "level + 1" ns nl] by auto
  let ?grow = "length e0 > length inputs0 \<and> TotalFileSize (map (vh_files st) inputs1) + TotalFileSize (map (vh_files st) e0)
      < ExpandedCompactionByteSizeLimit (vs_options st)"
  have eq: "expand_inputs level r st = Some (if ?grow \<and> length e1 = length inputs1
      then ((e0, e1), (ns, nl), GetRange2 icmp (map (vh_files st) e0) (map (vh_files st) e1)) else r)"
    using e0(1) e1(1) n c(1) by (simp add: expand_inputs_def r' Let_def)
  have "ranged_ok Compare st level ((e0, e1), (ns, nl), GetRange2 icmp (map (vh_files st) e0) (map (vh_files st) e1))" if ?grow
    using that e0(2,4) e1(2) n by (auto simp: ranged_ok_def inputs_ok_def GetRange2_def)
  moreover have "p \<in> set e0" if p: "p \<in> set inputs0" for p
  proof -
    let ?fs = "map (vh_files st) (inputs0 @ inputs1)"
    have files: "set inputs0 \<subseteq> set (v_files (current_version st) level)" "set inputs1 \<subseteq> set (v_files (current_version st) (level + 1))"
        "GetRange icmp ?fs = (as, al)"
      using r by (auto simp: r' ranged_ok_def inputs_ok_def)
    have ok: "\<forall>f \<in> set ?fs. file_ok Compare f" "?fs \<noteq> []"
      using files(1,2) version_file_ok [OF c(2), of level] version_file_ok [OF c(2), of "level + 1"] level p by auto
    have "in_range Compare (as, al) (vh_files st p)"
      by (rule covered_file_in_range [OF GetRange_covers [OF ok(2,1), unfolded files(3)] _ ok(1)]) (use p in auto)
    then show ?thesis using e0(3) files(1) p by blast
  qed
  ultimately show ?thesis using eq r unfolding r' by auto
qed

lemma ranged_apart:
  assumes v: "version_ok Compare (vh_files st) (current_version st)" "level + 1 < kNumLevels" and r: "ranged_ok Compare st level ((i0, i1), range0, whole)"
    and q: "q \<in> set (v_files (current_version st) (level + 1))" "q \<notin> set i1"
  shows "apart icmp (map (vh_files st) (i0 @ i1)) (vh_files st q)"
proof -
  have i0: "inputs_ok Compare st level i0" "range0 = GetRange icmp (map (vh_files st) i0)"
      "i1 = filter (\<lambda>p. in_range Compare range0 (vh_files st p)) (v_files (current_version st) (level + 1))"
    using r by (auto simp: ranged_ok_def)
  have ok: "\<forall>f \<in> set (map (vh_files st) i0). file_ok Compare f" "map (vh_files st) i0 \<noteq> []"
    using i0(1) version_file_ok [OF v(1), of level] v(2) by (auto simp: inputs_ok_def)
  have gs: "level_ok Compare (level_files (vh_files st) (current_version st) (level + 1))" using v by (simp add: version_ok_def)
  have "apart icmp (map (vh_files st) i0 @ filter (in_range Compare range0) (level_files (vh_files st) (current_version st) (level + 1))) (vh_files st q)"
    by (rule outsider_apart [OF ok(2,1) _ gs]) (use GetRange_covers [OF ok(2,1)] i0(2,3) q in auto)
  then show ?thesis unfolding i0(3) by (simp add: filter_map comp_def)
qed

lemma SetupOtherInputs_ok:
  assumes c: "cmp_Compare (vs_user_comparator st) = Compare" "version_ok Compare (vh_files st) (current_version st)"
    and level: "cp_level c + 1 < kNumLevels" and i0: "inputs_ok Compare st (cp_level c) (cp_inputs c 0)"
  shows "\<exists>c' st'. SetupOtherInputs c st = Some (c', st') \<and> setup_ok Compare st c' \<and> cp_level c' = cp_level c \<and> cp_input_version c' = cp_input_version c \<and>
    set (cp_inputs c 0) \<subseteq> set (cp_inputs c' 0) \<and>
    st' = st\<lparr>vs_compact_pointer := (vs_compact_pointer st)(cp_level c := snd (GetRange icmp (map (vh_files st) (cp_inputs c' 0))))\<rparr> \<and>
    cp_edit c' = SetCompactPointer (cp_level c) (vs_compact_pointer st' (cp_level c)) (cp_edit c)"
proof -
  let ?l = "cp_level c" and ?files = "map (vh_files st)"
  obtain s l where r0: "GetRange icmp (?files (cp_inputs c 0)) = (s, l)" by (cases "GetRange icmp (?files (cp_inputs c 0))")
  obtain i1 where i1: "CurrentOverlappingInputs st (?l + 1) (Some s) (Some l) = Some i1"
      "i1 = filter (\<lambda>p. in_range Compare (s, l) (vh_files st p)) (v_files (current_version st) (?l + 1))"
    using current_overlapping [OF c, of "?l + 1" s l] by auto
  let ?r = "((cp_inputs c 0, i1), (s, l), GetRange2 icmp (?files (cp_inputs c 0)) (?files i1))"
  have r: "ranged_ok Compare st ?l ?r" using i0 r0 i1(2) by (simp add: ranged_ok_def GetRange2_def)
  obtain j0 j1 s' l' as al where r': "(if i1 \<noteq> [] then expand_inputs ?l ?r st else Some ?r) = Some ((j0, j1), (s', l'), (as, al))"
      "ranged_ok Compare st ?l ((j0, j1), (s', l'), (as, al))" "set (cp_inputs c 0) \<subseteq> set j0"
    using expand_inputs_ok [OF c r level] r by (cases "i1 \<noteq> []") (auto, metis fst_conv prod.collapse)
  obtain g where g: "CurrentOverlappingInputs st (?l + 2) (Some as) (Some al) = Some g"
      "g = filter (\<lambda>p. in_range Compare (as, al) (vh_files st p)) (v_files (current_version st) (?l + 2))"
    using current_overlapping [OF c, of "?l + 2" as al] by auto
  let ?g = "if ?l + 2 < kNumLevels then g else cp_grandparents c"
  let ?c = "c\<lparr>cp_inputs := (cp_inputs c)(0 := j0, 1 := j1), cp_grandparents := ?g, cp_edit := SetCompactPointer ?l l' (cp_edit c)\<rparr>"
  have eq: "SetupOtherInputs c st = Some (?c, st\<lparr>vs_compact_pointer := (vs_compact_pointer st)(?l := l')\<rparr>)"
    using r0 i1(1) r'(1) g(1) c(1) by (simp add: SetupOtherInputs_def Let_def)
  have fields: "cp_inputs ?c 0 = j0" "cp_inputs ?c 1 = j1" "cp_level ?c = ?l" "cp_grandparents ?c = ?g" by simp_all
  have all: "GetRange icmp (?files (j0 @ j1)) = (as, al)" "inputs_ok Compare st ?l j0" "snd (GetRange icmp (?files j0)) = l'"
      "set j1 \<subseteq> set (v_files (current_version st) (?l + 1))"
    using r'(2) by (auto simp: ranged_ok_def) (metis snd_conv)
  have "setup_ok Compare st ?c"
    unfolding setup_ok_def Let_def fields using all ranged_apart [OF c(2) level r'(2)] g(2) by simp
  then show ?thesis using eq all(3) r'(3) by auto
qed

lemma setup_ok_cong:
  "vh_files st' = vh_files st \<Longrightarrow> v_files (current_version st') = v_files (current_version st) \<Longrightarrow> setup_ok Compare st' c = setup_ok Compare st c"
  by (simp add: setup_ok_def inputs_ok_def Let_def)

lemma use_current_version_simps:
  assumes "use_current_version c st = (c', st')"
  shows "c' = c\<lparr>cp_input_version := vs_current st\<rparr>" "vh_files st' = vh_files st" "v_files (current_version st') = v_files (current_version st)"
    "vs_user_comparator st' = vs_user_comparator st" "vs_compact_pointer st' = vs_compact_pointer st" "st' = Version_Ref (the (vs_current st)) st"
  using assms by (auto simp: use_current_version_def Version_Ref_def set_version_refs_def)

lemma setup_after_use:
  assumes c: "cmp_Compare (vs_user_comparator st) = Compare" "version_ok Compare (vh_files st) (current_version st)"
    and level: "level + 1 < kNumLevels" and i0: "inputs_ok Compare st level inputs0" and u: "use_current_version (Compaction options level) st = (c0, st0)"
  shows "\<exists>c' st'. SetupOtherInputs (c0\<lparr>cp_inputs := (cp_inputs c0)(0 := inputs0)\<rparr>) st0 = Some (c', st') \<and> setup_ok Compare st c' \<and>
    cp_level c' = level \<and> taken c' st st' \<and> set inputs0 \<subseteq> set (cp_inputs c' 0)"
proof -
  note u' = use_current_version_simps [OF u]
  let ?c = "c0\<lparr>cp_inputs := (cp_inputs c0)(0 := inputs0)\<rparr>"
  have st0: "cmp_Compare (vs_user_comparator st0) = Compare" "version_ok Compare (vh_files st0) (current_version st0)" "inputs_ok Compare st0 level inputs0"
    using u' c i0 by (simp_all add: version_ok_def inputs_ok_def)
  have fields: "cp_level ?c = level" "cp_inputs ?c 0 = inputs0" using u'(1) by (simp_all add: Compaction_def)
  obtain c' st' where s: "SetupOtherInputs ?c st0 = Some (c', st')" "setup_ok Compare st0 c'" "cp_level c' = level"
      "cp_input_version c' = cp_input_version ?c"
      "st' = st0\<lparr>vs_compact_pointer := (vs_compact_pointer st0)(level := snd (GetRange icmp (map (vh_files st0) (cp_inputs c' 0))))\<rparr>"
      "cp_edit c' = SetCompactPointer level (vs_compact_pointer st' level) (cp_edit ?c)" "set inputs0 \<subseteq> set (cp_inputs c' 0)"
    using SetupOtherInputs_ok [OF st0(1,2), of ?c] level st0(3) unfolding fields by blast
  have set_up: "setup_ok Compare st c'" using setup_ok_cong [OF u'(2,3)] s(2) by blast
  let ?fs = "map (vh_files st) (cp_inputs c' 0)"
  have "?fs \<noteq> []" "\<forall>f \<in> set ?fs. file_ok Compare f"
    using set_up version_file_ok [OF c(2), of level] level s(3) by (auto simp: setup_ok_def inputs_ok_def Let_def)
  from GetRange_covers [OF this] have "greatest_key icmp ?fs (snd (GetRange icmp ?fs))"
    by (auto simp: covers_def greatest_key_def split: prod.splits)
  then have "taken c' st st'" using s(3-6) u'(1,2,5,6) c(1) by (auto simp: taken_def Compaction_def)
  then show ?thesis using s(1,3,7) set_up by blast
qed

lemma picked_inputs:
  assumes c: "cmp_Compare (vs_user_comparator st) = Compare" "version_ok Compare (vh_files st) (current_version st)" and level: "level < kNumLevels"
    and p: "set ps \<subseteq> set (v_files (current_version st) level)" "ps \<noteq> []" and u: "use_current_version c0 st = (c1, st0)"
  shows "\<exists>inputs0. (if level = 0 then let (smallest, largest) = GetRange (vs_icmp st0) (map (vh_files st0) ps)
      in CurrentOverlappingInputs st0 0 (Some smallest) (Some largest) else Some ps) = Some inputs0 \<and> inputs_ok Compare st level inputs0 \<and> set ps \<subseteq> set inputs0"
proof (cases "level = 0")
  case False
  then show ?thesis using p by (simp add: inputs_ok_def)
next
  case zero: True
  let ?v = "current_version st" and ?h = "vh_files st"
  note u' = use_current_version_simps [OF u]
  obtain s l where r: "GetRange icmp (map ?h ps) = (s, l)" by fastforce
  have ok: "\<forall>f \<in> set (map ?h ps). file_ok Compare f" using p(1) version_file_ok [OF c(2) level] by auto
  have st0: "cmp_Compare (vs_user_comparator st0) = Compare" "version_ok Compare (vh_files st0) (current_version st0)"
    using u' c by (simp_all add: version_ok_def)
  obtain inputs0 where i: "CurrentOverlappingInputs st0 0 (Some s) (Some l) = Some inputs0" "set inputs0 \<subseteq> set (v_files ?v 0)"
      "\<forall>p \<in> set (v_files ?v 0). in_range Compare (s, l) (?h p) \<longrightarrow> p \<in> set inputs0"
      "\<forall>p \<in> set inputs0. \<forall>q \<in> set (v_files ?v 0). overlap Compare (?h p) (?h q) \<longrightarrow> q \<in> set inputs0"
    using current_overlapping [OF st0, of 0 s l] unfolding u'(2,3) by blast
  have "p0 \<in> set inputs0" if p0: "p0 \<in> set ps" for p0
  proof -
    have "in_range Compare (s, l) (?h p0)"
      using covered_file_in_range [OF GetRange_covers [OF _ ok] _ ok, of "?h p0"] p0 p(2) unfolding r by simp
    then show ?thesis using i(3) p0 p(1) zero by auto
  qed
  then have sub: "set ps \<subseteq> set inputs0" by blast
  then have "inputs0 \<noteq> []" using p(2) by auto
  then show ?thesis using sub i(1,2,4) zero r c(1) u'(2,4) by (auto simp: inputs_ok_def)
qed

lemma PickCompaction_ok:
  assumes c: "cmp_Compare (vs_user_comparator st) = Compare" "version_ok Compare (vh_files st) (current_version st)" and pick: "pick_ok st"
  shows "\<exists>c st'. PickCompaction st = Some (c, st') \<and> (c = None \<longleftrightarrow> \<not> NeedsCompaction st) \<and>
    (\<forall>c'. c = Some c' \<longrightarrow> setup_ok Compare st c' \<and> cp_level c' + 1 < kNumLevels \<and> taken c' st st' \<and>
      cp_level c' = fst (picked st) \<and> set (snd (picked st)) \<subseteq> set (cp_inputs c' 0))"
proof (cases "NeedsCompaction st")
  case False
  then show ?thesis by (simp add: PickCompaction_def NeedsCompaction_def Let_def)
next
  case True
  obtain level ps where ps: "picked st = (level, ps)" by fastforce
  have level: "level + 1 < kNumLevels" and p: "set ps \<subseteq> set (v_files (current_version st) level)" "ps \<noteq> []"
    using True pick ps first_after_pointer_in [of st level "v_files (current_version st) level"]
    by (auto simp: pick_ok_def NeedsCompaction_def picked_def Let_def split: if_splits)
  obtain c0 st0 where u: "use_current_version (Compaction (vs_options st) level) st = (c0, st0)" by fastforce
  obtain inputs0 where i0: "(if level = 0 then let (smallest, largest) = GetRange (vs_icmp st0) (map (vh_files st0) ps)
      in CurrentOverlappingInputs st0 0 (Some smallest) (Some largest) else Some ps) = Some inputs0" "inputs_ok Compare st level inputs0" "set ps \<subseteq> set inputs0"
    using picked_inputs [OF c _ p u] level by auto
  obtain c' st' where s: "SetupOtherInputs (c0\<lparr>cp_inputs := (cp_inputs c0)(0 := inputs0)\<rparr>) st0 = Some (c', st')" "setup_ok Compare st c'"
      "cp_level c' = level" "taken c' st st'" "set inputs0 \<subseteq> set (cp_inputs c' 0)"
    using setup_after_use [OF c level i0(2) u] by blast
  have "PickCompaction st = Some (Some c', st')"
    unfolding PickCompaction_def Let_def ps prod.case u i0(1) [unfolded Let_def] s(1)
    using True s(1) by (simp add: NeedsCompaction_def)
  then show ?thesis using True s(2-5) i0(3) level ps by auto
qed

lemma limit_inputs_prefix: "set (limit_inputs h limit n fs) \<subseteq> set fs" "limit_inputs h limit n fs = [] \<longleftrightarrow> fs = []"
  by (induction fs arbitrary: n) (auto simp: Let_def)

lemma limit_inputs_nths:
  "limit_inputs h limit n fs = nths fs {i. \<forall>j < i. n + sum_list (map (\<lambda>p. fm_file_size (h p)) (take (Suc j) fs)) < limit}"
proof (induction fs arbitrary: n)
  case (Cons f fs)
  let ?sum = "\<lambda>fs. sum_list (map (\<lambda>p. fm_file_size (h p)) fs)"
  have "{j. Suc j \<in> {i. \<forall>j < i. n + ?sum (take (Suc j) (f # fs)) < limit}} =
      (if n + fm_file_size (h f) \<ge> limit then {} else {i. \<forall>j < i. n + fm_file_size (h f) + ?sum (take (Suc j) fs) < limit})"
    by (auto simp: All_less_Suc2 add.assoc not_le)
  then show ?case using Cons.IH [of "n + fm_file_size (h f)"] by (simp add: nths_Cons Let_def del: take_Suc_Cons)
qed simp

lemma limit_inputs_up_to_size:
  "0 < level \<Longrightarrow> limit_inputs (vh_files st) (MaxFileSizeForLevel (vs_options st) level) 0 fs = up_to_size st level fs"
  by (simp add: up_to_size_def limit_inputs_nths)

lemma requested_inputs:
  assumes "cmp_Compare (vs_user_comparator st) = Compare" and "version_ok Compare (vh_files st) (current_version st)"
  shows "\<exists>inputs. CurrentOverlappingInputs st level lo hi = Some inputs \<and> set inputs \<subseteq> set (v_files (current_version st) level) \<and>
    (level = 0 \<longrightarrow> (\<forall>p \<in> set inputs. \<forall>q \<in> set (v_files (current_version st) 0). overlap Compare (vh_files st p) (vh_files st q) \<longrightarrow> q \<in> set inputs)) \<and>
    set (asked Compare st level lo hi) \<subseteq> set inputs \<and> (0 < level \<longrightarrow> inputs = asked Compare st level lo hi) \<and>
    (asked Compare st level lo hi = [] \<longrightarrow> inputs = [])"
proof (cases "level = 0")
  case True
  have ok: "level = 0 \<Longrightarrow> \<forall>p \<in> set (v_files (current_version st) 0). file_ok Compare (vh_files st p)" using assms(2) by (simp add: version_ok_def)
  let ?closed = "closed_inputs Compare (vh_files st) (v_files (current_version st) 0) (map_option ExtractUserKey lo) (map_option ExtractUserKey hi)"
  obtain inputs where i: "CurrentOverlappingInputs st level lo hi = Some inputs" "?closed (set inputs)"
      "set inputs \<subseteq> set (v_files (current_version st) 0)" "\<forall>S. ?closed S \<longrightarrow> set inputs \<subseteq> S"
    using overlapping_inputs [of level "current_version st" "vh_files st" lo hi, OF ok] True assms(1)
    unfolding CurrentOverlappingInputs_def if_P [OF True] by auto
  have "?closed {}" if "asked Compare st level lo hi = []"
    using that True by (simp add: closed_inputs_def asked_def filter_empty_conv)
  then have "asked Compare st level lo hi = [] \<longrightarrow> inputs = []" using i(4) by (metis set_empty subset_empty)
  moreover have "set (asked Compare st level lo hi) \<subseteq> set inputs" using i(2) True by (auto simp: closed_inputs_def asked_def)
  moreover have "\<forall>p \<in> set inputs. \<forall>q \<in> set (v_files (current_version st) 0). overlap Compare (vh_files st p) (vh_files st q) \<longrightarrow> q \<in> set inputs"
    using i(2) unfolding closed_inputs_def by blast
  ultimately show ?thesis using i(1,3) True by (intro exI [of _ inputs]) simp
next
  case False
  then show ?thesis using overlapping_inputs [of level "current_version st" "vh_files st" lo hi] assms(1)
    by (auto simp: CurrentOverlappingInputs_def asked_def)
qed

lemma CompactRange_ok:
  assumes c: "cmp_Compare (vs_user_comparator st) = Compare" "version_ok Compare (vh_files st) (current_version st)" and level: "level + 1 < kNumLevels"
  shows "\<exists>c st'. CompactRange level lo hi st = Some (c, st') \<and> (c = None \<longleftrightarrow> asked Compare st level lo hi = []) \<and>
    (\<forall>c'. c = Some c' \<longrightarrow> setup_ok Compare st c' \<and> cp_level c' = level \<and> taken c' st st' \<and>
      set (up_to_size st level (asked Compare st level lo hi)) \<subseteq> set (cp_inputs c' 0))"
proof -
  let ?v = "current_version st" and ?h = "vh_files st"
  obtain inputs where i: "CurrentOverlappingInputs st level lo hi = Some inputs" "set inputs \<subseteq> set (v_files ?v level)"
      "level = 0 \<longrightarrow> (\<forall>p \<in> set inputs. \<forall>q \<in> set (v_files ?v 0). overlap Compare (?h p) (?h q) \<longrightarrow> q \<in> set inputs)"
      "set (asked Compare st level lo hi) \<subseteq> set inputs" "0 < level \<longrightarrow> inputs = asked Compare st level lo hi"
      "asked Compare st level lo hi = [] \<longrightarrow> inputs = []"
    using requested_inputs [OF c] by blast
  show ?thesis
  proof (cases "inputs = []")
    case True
    then show ?thesis using i(1,4) by (simp add: CompactRange_def)
  next
    case False
    let ?i = "if level > 0 then limit_inputs ?h (MaxFileSizeForLevel (vs_options st) level) 0 inputs else inputs"
    have ok: "inputs_ok Compare st level ?i" 
      using i(2,3) False limit_inputs_prefix(1) [of ?h "MaxFileSizeForLevel (vs_options st) level" 0 inputs]
      by (auto simp: inputs_ok_def limit_inputs_prefix(2))
    obtain c0 st0 where u: "use_current_version (Compaction (vs_options st) level) st = (c0, st0)" by fastforce
    obtain c' st' where s: "SetupOtherInputs (c0\<lparr>cp_inputs := (cp_inputs c0)(0 := ?i)\<rparr>) st0 = Some (c', st')" "setup_ok Compare st c'"
        "cp_level c' = level" "taken c' st st'" "set ?i \<subseteq> set (cp_inputs c' 0)"
      using setup_after_use [OF c level ok u] by blast
    have "CompactRange level lo hi st = Some (Some c', st')"
      using i(1) False u s(1) by (simp add: CompactRange_def Let_def)
    moreover have "asked Compare st level lo hi \<noteq> []" using False i(6) by blast
    moreover have "set (up_to_size st level (asked Compare st level lo hi)) \<subseteq> set (cp_inputs c' 0)"
      using s(5) i(4,5) limit_inputs_up_to_size [of level st] by (cases "level = 0") (auto simp: up_to_size_def)
    ultimately show ?thesis using s(2-4) by auto
  qed
qed

end

subsection \<open>The base level of a key\<close>

text \<open>All files in front of the pointers of the levels end before the key.\<close>

definition ptrs_ok :: "(bytes \<Rightarrow> bytes \<Rightarrow> int) \<Rightarrow> file_store \<Rightarrow> version \<Rightarrow> (nat \<Rightarrow> nat) \<Rightarrow> bytes \<Rightarrow> bool" where
  "ptrs_ok cmp h v ptrs k \<longleftrightarrow> (\<forall>lvl. ptrs lvl \<le> length (v_files v lvl) \<and>
     (\<forall>j < ptrs lvl. cmp (ExtractUserKey (fm_largest (level_files h v lvl ! j))) k < 0))"

text \<open>No file of the levels behind a level and its next one has the user key in its range.\<close>

definition base_for :: "(bytes \<Rightarrow> bytes \<Rightarrow> int) \<Rightarrow> file_store \<Rightarrow> version \<Rightarrow> nat \<Rightarrow> bytes \<Rightarrow> bool" where
  "base_for cmp h v level k \<longleftrightarrow> (\<forall>lvl \<in> {level + 2..<kNumLevels}. \<forall>p \<in> set (v_files v lvl). \<not> touches cmp (Some k) (Some k) (h p))"

lemma ptrs_ok_start [simp]: "ptrs_ok cmp h v (\<lambda>i. 0) k"
  by (simp add: ptrs_ok_def)

context user_comparator
begin

lemma ptrs_ok_mono: "ptrs_ok Compare h v ptrs k \<Longrightarrow> Compare k k' \<le> 0 \<Longrightarrow> ptrs_ok Compare h v ptrs k'"
  unfolding ptrs_ok_def using cmp_less_le_trans by blast

lemma advance_level_ptr_ok:
  assumes "level_ok Compare fs" and "i \<le> length fs" and "\<forall>j < i. Compare (ExtractUserKey (fm_largest (fs ! j))) k < 0"
  shows "\<exists>i'. advance_level_ptr Compare fs k i = (i', \<exists>f \<in> set fs. touches Compare (Some k) (Some k) f) \<and> i' \<le> length fs \<and>
    (\<forall>j < i'. Compare (ExtractUserKey (fm_largest (fs ! j))) k < 0)"
  using assms(2,3)
proof (induction "length fs - i" arbitrary: i)
  case 0
  then have "\<not> touches Compare (Some k) (Some k) f" if "f \<in> set fs" for f
    using that cmp_flip [of "ExtractUserKey (fm_largest f)" k] by (auto simp: touches_def in_set_conv_nth)
  then show ?case using 0 by (subst advance_level_ptr.simps) auto
next
  case (Suc n)
  then have i: "i < length fs" by simp
  let ?f = "fs ! i"
  show ?case
  proof (cases "Compare k (ExtractUserKey (fm_largest ?f)) \<le> 0")
    case False
    then have less: "Compare (ExtractUserKey (fm_largest ?f)) k < 0" using cmp_flip by simp
    then have "\<forall>j < Suc i. Compare (ExtractUserKey (fm_largest (fs ! j))) k < 0" using Suc.prems(2) less_Suc_eq by auto
    from Suc.hyps(1) [OF _ _ this] show ?thesis using Suc.hyps(2) i False by (subst advance_level_ptr.simps) simp
  next
    case True
    have "(\<exists>f \<in> set fs. touches Compare (Some k) (Some k) f) \<longleftrightarrow> Compare k (ExtractUserKey (fm_smallest ?f)) \<ge> 0"
    proof
      assume "Compare k (ExtractUserKey (fm_smallest ?f)) \<ge> 0"
      then have "touches Compare (Some k) (Some k) ?f" using True cmp_flip [of k] by (simp add: touches_def not_less [symmetric])
      then show "\<exists>f \<in> set fs. touches Compare (Some k) (Some k) f" using i by auto
    next
      assume "\<exists>f \<in> set fs. touches Compare (Some k) (Some k) f"
      then obtain j where j: "j < length fs" "touches Compare (Some k) (Some k) (fs ! j)" by (auto simp: in_set_conv_nth)
      have "\<not> Compare (ExtractUserKey (fm_largest (fs ! j))) k < 0" using j(2) cmp_flip by (simp add: touches_def)
      then have "i \<le> j" using Suc.prems(2) by (meson not_less)
      have "Compare (ExtractUserKey (fm_smallest ?f)) k \<le> 0"
      proof (cases "i = j")
        case True
        then show ?thesis using j(2) by (simp add: touches_def)
      next
        case False
        have "Compare (ExtractUserKey (fm_smallest ?f)) (ExtractUserKey (fm_largest ?f)) \<le> 0"
          using file_users assms(1) i by (auto simp: level_ok_def)
        moreover have "Compare (ExtractUserKey (fm_largest ?f)) (ExtractUserKey (fm_smallest (fs ! j))) \<le> 0"
          using level_users [OF assms(1) _ j(1)] False \<open>i \<le> j\<close> by simp
        moreover have "Compare (ExtractUserKey (fm_smallest (fs ! j))) k \<le> 0" using j(2) by (simp add: touches_def)
        ultimately show ?thesis using cmp_trans by blast
      qed
      then show "Compare k (ExtractUserKey (fm_smallest ?f)) \<ge> 0" using cmp_flip [of k] by (simp add: not_less [symmetric])
    qed
    then show ?thesis using True i Suc.prems by (subst advance_level_ptr.simps) (simp add: Let_def)
  qed
qed

lemma base_level_loop_ok:
  assumes "\<forall>lvl \<in> set lvls. level_ok Compare (level_files h v lvl)" and "ptrs_ok Compare h v ptrs k"
  shows "\<exists>ptrs'. base_level_loop Compare h v k lvls ptrs =
      (\<forall>lvl \<in> set lvls. \<forall>p \<in> set (v_files v lvl). \<not> touches Compare (Some k) (Some k) (h p), ptrs') \<and> ptrs_ok Compare h v ptrs' k"
  using assms
proof (induction lvls arbitrary: ptrs)
  case (Cons lvl lvls)
  obtain i where i: "advance_level_ptr Compare (level_files h v lvl) k (ptrs lvl) = (i, \<exists>f \<in> set (level_files h v lvl). touches Compare (Some k) (Some k) f)"
      "i \<le> length (v_files v lvl)" "\<forall>j < i. Compare (ExtractUserKey (fm_largest (level_files h v lvl ! j))) k < 0"
  proof -
    have "ptrs lvl \<le> length (level_files h v lvl)" "\<forall>j < ptrs lvl. Compare (ExtractUserKey (fm_largest (level_files h v lvl ! j))) k < 0"
      using Cons.prems(2) by (simp_all add: ptrs_ok_def)
    from advance_level_ptr_ok [OF _ this] show ?thesis using that Cons.prems(1) by (auto simp del: nth_map)
  qed
  have ptrs: "ptrs_ok Compare h v (ptrs(lvl := i)) k" using Cons.prems(2) i(2,3) by (simp add: ptrs_ok_def)
  show ?case
  proof (cases "\<exists>f \<in> set (level_files h v lvl). touches Compare (Some k) (Some k) f")
    case True
    then show ?thesis using i(1) ptrs by auto
  next
    case False
    have "\<forall>lvl \<in> set lvls. level_ok Compare (level_files h v lvl)" using Cons.prems(1) by simp
    from Cons.IH [OF this ptrs] obtain ptrs' where "base_level_loop Compare h v k lvls (ptrs(lvl := i)) =
        (\<forall>lvl \<in> set lvls. \<forall>p \<in> set (v_files v lvl). \<not> touches Compare (Some k) (Some k) (h p), ptrs')" "ptrs_ok Compare h v ptrs' k"
      by blast
    then show ?thesis using i(1) False by auto
  qed
qed simp

lemma IsBaseLevelForKey_ok:
  assumes "cmp_Compare (vs_user_comparator st) = Compare" and "version_ok Compare (vh_files st) v" and "v = vh_versions st (the (cp_input_version c))"
    and "ptrs_ok Compare (vh_files st) v (cp_level_ptrs c) k"
  shows "\<exists>ptrs. IsBaseLevelForKey k st c = (base_for Compare (vh_files st) v (cp_level c) k, c\<lparr>cp_level_ptrs := ptrs\<rparr>) \<and> ptrs_ok Compare (vh_files st) v ptrs k"
proof -
  have "\<forall>lvl \<in> set [cp_level c + 2..<kNumLevels]. level_ok Compare (level_files (vh_files st) v lvl)"
    using assms(2) by (auto simp: version_ok_def)
  from base_level_loop_ok [OF this assms(4)] show ?thesis
    using assms(1,3) by (auto simp: IsBaseLevelForKey_def base_for_def)
qed

end

subsection \<open>Versions that ask for a compaction\<close>

lemma best_level_found:
  "snd (best_level st v) \<ge> 1 \<Longrightarrow> 0 \<le> fst (best_level st v) \<and> nat (fst (best_level st v)) < kNumLevels - 1 \<and>
    level_score st v (nat (fst (best_level st v))) = snd (best_level st v)"
proof -
  let ?step = "\<lambda>level (best_level, best_score). let score = level_score st v level
         in if score > best_score then (int level, score) else (best_level, best_score)"
  have "let (l, s) = fold ?step ls (l0, s0) in (l, s) = (l0, s0) \<or> (0 \<le> l \<and> nat l \<in> set ls \<and> level_score st v (nat l) = s)"
    for ls and l0 :: int and s0
  proof (induction ls arbitrary: l0 s0)
    case (Cons a ls)
    show ?case using Cons.IH [of "int a" "level_score st v a"] Cons.IH [of l0 s0]
      by (cases "level_score st v a > s0") (auto simp: Let_def split: prod.splits)
  qed simp
  from this [of "[0..<kNumLevels - 1]" "- 1" "- 1"] show "snd (best_level st v) \<ge> 1 \<Longrightarrow> ?thesis"
    by (auto simp: best_level_def Let_def split: prod.splits)
qed

lemma double_of_zero [simp]: "double_of 0 = 0"
  by (simp add: double_of_def)

lemma level_score_empty: "v_files v level = [] \<Longrightarrow> level_score st v level = 0"
  by (cases "level = 0") (simp_all add: level_score_def TotalFileSize_def)

text \<open>What \<^verbatim>\<open>Finalize\<close> stores asks for the compaction of a level with files; a file to compact comes from the statistics of seeks.\<close>

lemma Finalize_pick_ok:
  assumes "v_compaction_level (current_version st) = fst (best_level st (current_version st))"
    and "v_compaction_score (current_version st) = snd (best_level st (current_version st))"
    and "\<forall>f. v_file_to_compact (current_version st) = Some f \<longrightarrow> nat (v_file_to_compact_level (current_version st)) + 1 < kNumLevels \<and>
      f \<in> set (v_files (current_version st) (nat (v_file_to_compact_level (current_version st))))"
  shows "pick_ok st"
proof -
  let ?v = "current_version st"
  have "v_files ?v (nat (fst (best_level st ?v))) \<noteq> []" if "snd (best_level st ?v) \<ge> 1"
    using best_level_found [OF that] level_score_empty [of ?v _ st] that by force
  then show ?thesis using assms best_level_found [of st ?v] by (auto simp: pick_ok_def Let_def)
qed

subsection \<open>Properties\<close>

text \<open>
  Claim C10: the inputs of a compaction can be replaced by their merge. The choice always ends; it yields a compaction exactly when one is
  needed, of the level and with the files that are due. Its inputs are files of the level, in level 0 with all files that overlap one of them, while every file of
  the next level that is not an input lies wholly before or behind all inputs, so that new files within their
  range keep the level sorted. The grandparents are the files of the level after that in the range, and the largest key of the inputs
  is recorded for the level in the version set and in the edit. The same holds of
  a range that was asked for, which gives a compaction exactly when a file of the level is in the range.
\<close>

theorem compaction_inputs_safe:
  assumes "user_comparator (cmp_Compare (vs_user_comparator st)) Separator Successor"
    and "version_ok (cmp_Compare (vs_user_comparator st)) (vh_files st) (current_version st)" and "pick_ok st"
  shows "(\<exists>c st'. PickCompaction st = Some (c, st') \<and> (c = None \<longleftrightarrow> \<not> NeedsCompaction st) \<and>
      (\<forall>c'. c = Some c' \<longrightarrow> setup_ok (cmp_Compare (vs_user_comparator st)) st c' \<and> cp_level c' + 1 < kNumLevels \<and> taken c' st st' \<and>
        cp_level c' = fst (picked st) \<and> set (snd (picked st)) \<subseteq> set (cp_inputs c' 0))) \<and>
    (\<forall>level lo hi. level + 1 < kNumLevels \<longrightarrow> (\<exists>c st'. CompactRange level lo hi st = Some (c, st') \<and>
      (c = None \<longleftrightarrow> asked (cmp_Compare (vs_user_comparator st)) st level lo hi = []) \<and>
      (\<forall>c'. c = Some c' \<longrightarrow> setup_ok (cmp_Compare (vs_user_comparator st)) st c' \<and> cp_level c' = level \<and> taken c' st st' \<and>
        set (up_to_size st level (asked (cmp_Compare (vs_user_comparator st)) st level lo hi)) \<subseteq> set (cp_inputs c' 0))))"
  using user_comparator.PickCompaction_ok [OF assms(1) refl assms(2,3)] user_comparator.CompactRange_ok [OF assms(1) refl assms(2)] by blast

text \<open>Two files of level 1 that share a user key, the second with the older versions of it; a seek compaction is due for the first.\<close>

definition boundary_files :: file_store where
  "boundary_files p = \<lparr>fm_refs = 1, fm_allowed_seeks = 100, fm_number = word_of_nat p + 4, fm_file_size = 1000,
     fm_smallest = InternalKey (if p = 0 then str ''a'' else str ''k'') (if p = 0 then 9 else 5) kTypeValue,
     fm_largest = InternalKey (if p = 0 then str ''k'' else str ''z'') (if p = 0 then 7 else 5) kTypeValue\<rparr>"

definition boundary_version :: version where
  "boundary_version = new_Version\<lparr>v_files := (\<lambda>l. if l = 1 then [0, 1] else []), v_file_to_compact := Some 0, v_file_to_compact_level := 1\<rparr>"

definition boundary_state :: "unit version_set" where
  "boundary_state = (VersionSet (str ''/db'') Options BytewiseComparator)
     \<lparr>vh_files := boundary_files, vs_current := Some 0, vh_versions := (\<lambda>v. boundary_version)\<rparr>"

lemma boundary_simps [simp]:
  "vh_files boundary_state = boundary_files" "vs_user_comparator boundary_state = BytewiseComparator" "vs_current boundary_state = Some 0"
  "vh_versions boundary_state v = boundary_version"
  by (simp_all add: boundary_state_def VersionSet_fields)

lemma boundary_ok: "version_ok BytewiseCompare boundary_files boundary_version"
proof -
  have "level_ok BytewiseCompare [boundary_files 0, boundary_files 1]" by code_simp
  then show ?thesis by (simp add: version_ok_def level_ok_def boundary_version_def new_Version_def)
qed

theorem compaction_inputs_safe_witness:
  "\<exists>c st'. PickCompaction boundary_state = Some (Some c, st') \<and> setup_ok BytewiseCompare boundary_state c \<and> cp_inputs c 0 \<noteq> [] \<and>
    (\<exists>c st'. CompactRange 1 None None boundary_state = Some (c, st'))"
proof -
  have cmp: "cmp_Compare (vs_user_comparator boundary_state) = BytewiseCompare" by (simp add: BytewiseComparator_def)
  have uc: "user_comparator (cmp_Compare (vs_user_comparator boundary_state)) FindShortestSeparator FindShortSuccessor"
    unfolding cmp by (rule bytewise.user_comparator_axioms)
  have ok: "version_ok (cmp_Compare (vs_user_comparator boundary_state)) (vh_files boundary_state) (current_version boundary_state)"
    unfolding cmp using boundary_ok by simp
  have pick: "pick_ok boundary_state" by (simp add: pick_ok_def boundary_version_def new_Version_def kNumLevels_def)
  have needed: "NeedsCompaction boundary_state" by (simp add: NeedsCompaction_def boundary_version_def)
  obtain c st' where "PickCompaction boundary_state = Some (Some c, st')" "setup_ok BytewiseCompare boundary_state c"
    using compaction_inputs_safe [OF uc ok pick] needed unfolding cmp by auto
  moreover have "\<exists>c st'. CompactRange 1 None None boundary_state = Some (c, st')"
    using conjunct2 [OF compaction_inputs_safe [OF uc ok pick], rule_format, of 1 None None]
    by (auto simp: kNumLevels_def)
  ultimately show ?thesis by (auto simp: setup_ok_def inputs_ok_def Let_def)
qed

text \<open>
  The inputs of a sorted level are not closed under files that share a user key at their boundary. Here the
  first file alone moves to the next level, while older versions of its last key stay in the level above
  and are found first from then on.
\<close>

lemma boundary_file_left_behind:
  "\<exists>c st'. PickCompaction boundary_state = Some (Some c, st') \<and> cp_level c = 1 \<and> cp_inputs c 0 = [0] \<and> cp_inputs c 1 = [] \<and>
    IsTrivialMove c st' \<and> v_files boundary_version 1 = [0, 1] \<and>
    ExtractUserKey (fm_largest (boundary_files 0)) = ExtractUserKey (fm_smallest (boundary_files 1)) \<and>
    InternalKey_Compare BytewiseCompare (fm_largest (boundary_files 0)) (fm_smallest (boundary_files 1)) < 0"
proof -
  obtain s l where r: "GetRange (InternalKey_Compare BytewiseCompare) [boundary_files 0] = (s, l)" by fastforce
  have none: "GetOverlappingInputs BytewiseCompare boundary_files v level lo hi = Some []" if "0 < level" "v_files v level = []" for v level lo hi
    using that by (simp add: GetOverlappingInputs_def bytewise.overlapping_sorted_level)
  have pick: "picked boundary_state = (1, [0])"
    by (simp add: picked_def boundary_version_def new_Version_def)
  have keys: "ExtractUserKey (fm_largest (boundary_files 0)) = ExtractUserKey (fm_smallest (boundary_files 1))"
    "InternalKey_Compare BytewiseCompare (fm_largest (boundary_files 0)) (fm_smallest (boundary_files 1)) < 0" by code_simp+
  have "MaxGrandParentOverlapBytes Options = sint (20971520 :: 32 word)"
    by (simp add: MaxGrandParentOverlapBytes_def TargetFileSize_def Options_def)
  also have "\<dots> = 20971520" by (simp add: signed_take_bit_int_eq_self)
  finally have "0 \<le> MaxGrandParentOverlapBytes Options" by simp
  moreover have "vs_options boundary_state = Options" by (simp add: boundary_state_def)
  ultimately show ?thesis using keys
    by (simp add: PickCompaction_def pick use_current_version_def SetupOtherInputs_def CurrentOverlappingInputs_def Compaction_def r none
        Version_Ref_def set_version_refs_def BytewiseComparator_def boundary_version_def new_Version_def kNumLevels_def Let_def
        IsTrivialMove_def num_input_files_def TotalFileSize_def)
qed

end
