(* ===== verification/LDB_CompactionWorkSpec.thy ===== *)
theory LDB_CompactionWorkSpec
  imports LDB_CompactionWork LDB_CompactionSpec LDB_DbIterSpec "HOL-Library.Sublist"
begin

text \<open>
  What a compaction keeps: the entries it drops are never missed by a reader at a snapshot that
  still exists.
\<close>

subsection \<open>Reading at a snapshot\<close>

text \<open>
  The value of a user key for a reader of a snapshot: the newest visible entry decides, and only when there is none
  the older data is asked, whose answer is given.
\<close>

definition read_at :: "(bytes \<Rightarrow> bytes \<Rightarrow> int) \<Rightarrow> sequence_number \<Rightarrow> bytes \<Rightarrow> entry list \<Rightarrow> bytes option \<Rightarrow> bytes option" where
  "read_at cmp S k es older =
     (case find (\<lambda>e. visible S e \<and> cmp (ExtractUserKey (fst e)) k = 0) es of
        Some e \<Rightarrow> if ExtractValueType (fst e) = kTypeValue then Some (snd e) else None
      | None \<Rightarrow> older)"

text \<open>The entries that the loop of a compaction keeps.\<close>

fun kept_entries :: "'w version_set \<Rightarrow> sequence_number \<Rightarrow> key_state \<Rightarrow> compaction \<Rightarrow> entry list \<Rightarrow> entry list" where
  "kept_entries st smallest ks c [] = []"
| "kept_entries st smallest ks c (e # es) =
     (let (drop, ks, c) = drop_entry st smallest (fst e) ks c
      in if drop then kept_entries st smallest ks c es else e # kept_entries st smallest ks c es)"

lemma find_append_none: "\<forall>x \<in> set xs. \<not> P x \<Longrightarrow> find P (xs @ ys) = find P ys"
  by (induction xs) simp_all

lemma find_kept:
  assumes "i < n" and "keep i" and "P (f i)" and "\<And>j. j < i \<Longrightarrow> keep j \<Longrightarrow> \<not> P (f j)"
  shows "find P (map f (filter keep [0..<n])) = Some (f i)"
proof -
  have "[0..<n] = [0..<i] @ i # [Suc i..<n]" using assms(1) by (metis less_imp_le_nat upt_add_eq_append upt_conv_Cons le0 le_add_diff_inverse)
  moreover have "find P (map f (filter keep [0..<i]) @ xs) = find P xs" for xs
    by (rule find_append_none) (use assms(4) in auto)
  ultimately show ?thesis using assms(2,3) by simp
qed

lemma find_none: "\<forall>x \<in> set xs. \<not> P x \<Longrightarrow> find P xs = None"
  by (simp add: find_None_iff)

context sorted_keys
begin

text \<open>The rule, for the entry at a position: hidden by the entry before it, or a deletion without older data.\<close>

definition hidden :: "sequence_number \<Rightarrow> nat \<Rightarrow> bool" where
  "hidden smallest i \<longleftrightarrow> 0 < i \<and> Compare (uk i) (uk (i - 1)) = 0 \<and> visible smallest (es ! (i - 1))"

definition dropped :: "sequence_number \<Rightarrow> (bytes \<Rightarrow> bool) \<Rightarrow> nat \<Rightarrow> bool" where
  "dropped smallest base i \<longleftrightarrow> hidden smallest i \<or> ty i = kTypeDeletion \<and> visible smallest (es ! i) \<and> base (uk i)"

definition knows :: "key_state \<Rightarrow> nat \<Rightarrow> bool" where
  "knows ks i \<longleftrightarrow> (if i = 0 then \<not> ks_has_current_user_key ks
     else ks_has_current_user_key ks \<and> Compare (uk (i - 1)) (ks_current_user_key ks) = 0 \<and>
       (\<exists>k. ParseInternalKey (fst (es ! (i - 1))) = Some k \<and> ks_last_sequence_for_key ks = pik_sequence k))"

lemma drop_entry_at:
  assumes st: "cmp_Compare (vs_user_comparator st) = Compare" "version_ok Compare (vh_files st) v" "v = vh_versions st (the (cp_input_version c))"
    and i: "i < length es" and ks: "knows ks i" and ptrs: "ptrs_ok Compare (vh_files st) v (cp_level_ptrs c) (uk i)"
    and small: "smallest < kMaxSequenceNumber"
  shows "\<exists>ks' ptrs'. drop_entry st smallest (fst (es ! i)) ks c =
      (dropped smallest (base_for Compare (vh_files st) v (cp_level c)) i, ks', c\<lparr>cp_level_ptrs := ptrs'\<rparr>) \<and>
    knows ks' (Suc i) \<and> ptrs_ok Compare (vh_files st) v ptrs' (uk i)"
proof -
  obtain k s t where e: "uk i = k" "ty i = t" "\<And>S. visible S (es ! i) \<longleftrightarrow> s \<le> S"
      "ParseInternalKey (fst (es ! i)) = Some \<lparr>pik_user_key = k, pik_sequence = s, pik_type = t\<rparr>"
    using key_parts [OF i] by metis
  let ?new = "\<not> ks_has_current_user_key ks \<or> Compare k (ks_current_user_key ks) \<noteq> 0"
  let ?ks = "if ?new then \<lparr>ks_current_user_key = k, ks_has_current_user_key = True, ks_last_sequence_for_key = kMaxSequenceNumber\<rparr> else ks"
  have has: "ks_has_current_user_key ?ks" "Compare k (ks_current_user_key ?ks) = 0" by (auto simp: cmp_self)
  have hid: "ks_last_sequence_for_key ?ks \<le> smallest \<longleftrightarrow> hidden smallest i"
  proof (cases "i = 0")
    case True
    then show ?thesis using ks small by (simp add: knows_def hidden_def)
  next
    case False
    then have prev: "ks_has_current_user_key ks" "Compare (uk (i - 1)) (ks_current_user_key ks) = 0"
        "\<exists>k. ParseInternalKey (fst (es ! (i - 1))) = Some k \<and> ks_last_sequence_for_key ks = pik_sequence k"
      using ks by (simp_all add: knows_def)
    have "Compare k (ks_current_user_key ks) = 0 \<longleftrightarrow> Compare k (uk (i - 1)) = 0"
      using same_trans [of k "uk (i - 1)" "ks_current_user_key ks"] same_trans [of k "ks_current_user_key ks" "uk (i - 1)"]
        cmp_zero_sym [of "uk (i - 1)" "ks_current_user_key ks"] prev(2) by auto
    then show ?thesis using prev False small e(1) by (auto simp: hidden_def visible_def)
  qed
  obtain ptrs' where base: "IsBaseLevelForKey k st c = (base_for Compare (vh_files st) v (cp_level c) k, c\<lparr>cp_level_ptrs := ptrs'\<rparr>)"
      "ptrs_ok Compare (vh_files st) v ptrs' k"
    using IsBaseLevelForKey_ok [OF st(1,2,3)] ptrs unfolding e(1) by blast
  let ?dc = "if ks_last_sequence_for_key ?ks \<le> smallest then (True, c)
    else if t = kTypeDeletion \<and> s \<le> smallest then IsBaseLevelForKey k st c else (False, c)"
  have eq: "drop_entry st smallest (fst (es ! i)) ks c = (fst ?dc, ?ks\<lparr>ks_last_sequence_for_key := s\<rparr>, snd ?dc)"
    using e(4) st(1) by (simp add: drop_entry_def Let_def case_prod_beta)
  have "knows (?ks\<lparr>ks_last_sequence_for_key := s\<rparr>) (Suc i)"
    using has e by (simp add: knows_def)
  moreover have "fst ?dc = dropped smallest (base_for Compare (vh_files st) v (cp_level c)) i"
    unfolding hid using base(1) e by (auto simp: dropped_def)
  moreover have "snd ?dc = c\<lparr>cp_level_ptrs := if \<not> hidden smallest i \<and> t = kTypeDeletion \<and> s \<le> smallest then ptrs' else cp_level_ptrs c\<rparr>"
    unfolding hid using base(1) by simp
  ultimately have "drop_entry st smallest (fst (es ! i)) ks c = (dropped smallest (base_for Compare (vh_files st) v (cp_level c)) i,
      ?ks\<lparr>ks_last_sequence_for_key := s\<rparr>, c\<lparr>cp_level_ptrs := if \<not> hidden smallest i \<and> t = kTypeDeletion \<and> s \<le> smallest then ptrs' else cp_level_ptrs c\<rparr>)"
    and "knows (?ks\<lparr>ks_last_sequence_for_key := s\<rparr>) (Suc i)"
    by (simp_all only: eq)
  moreover have "ptrs_ok Compare (vh_files st) v (if \<not> hidden smallest i \<and> t = kTypeDeletion \<and> s \<le> smallest then ptrs' else cp_level_ptrs c) (uk i)"
    using base(2) ptrs e(1) by simp
  ultimately show ?thesis by blast
qed

lemma kept_entries_from:
  assumes st: "cmp_Compare (vs_user_comparator st) = Compare" "version_ok Compare (vh_files st) v" "v = vh_versions st (the (cp_input_version c))"
    and small: "smallest < kMaxSequenceNumber" and "i \<le> length es" and "knows ks i"
    and "i < length es \<longrightarrow> ptrs_ok Compare (vh_files st) v (cp_level_ptrs c) (uk i)"
  shows "kept_entries st smallest ks c (drop i es) =
    map ((!) es) (filter (\<lambda>j. \<not> dropped smallest (base_for Compare (vh_files st) v (cp_level c)) j) [i..<length es])"
  using assms(3,5-)
proof (induction "length es - i" arbitrary: i ks c)
  case (Suc n)
  then have i: "i < length es" by simp
  let ?base = "base_for Compare (vh_files st) v (cp_level c)"
  obtain ks' ptrs' where d: "drop_entry st smallest (fst (es ! i)) ks c = (dropped smallest ?base i, ks', c\<lparr>cp_level_ptrs := ptrs'\<rparr>)"
      "knows ks' (Suc i)" "ptrs_ok Compare (vh_files st) v ptrs' (uk i)"
    using drop_entry_at [OF st(1,2) Suc.prems(1) i Suc.prems(3) _ small] Suc.prems(4) i by blast
  have "Suc i < length es \<longrightarrow> ptrs_ok Compare (vh_files st) v ptrs' (uk (Suc i))"
    using ptrs_ok_mono [OF d(3)] uk_sorted [of i "Suc i"] by simp
  then have IH: "kept_entries st smallest ks' (c\<lparr>cp_level_ptrs := ptrs'\<rparr>) (drop (Suc i) es) =
      map ((!) es) (filter (\<lambda>j. \<not> dropped smallest ?base j) [Suc i..<length es])"
    using Suc.hyps(1) [of "Suc i" "c\<lparr>cp_level_ptrs := ptrs'\<rparr>" ks'] Suc.hyps(2) Suc.prems(1) d(2) i by simp
  have "drop i es = es ! i # drop (Suc i) es" "[i..<length es] = i # [Suc i..<length es]" using i by (simp_all add: Cons_nth_drop_Suc upt_conv_Cons)
  then show ?case using d(1) IH by simp
qed simp

lemma base_for_same: "Compare a b = 0 \<Longrightarrow> base_for Compare h v level a \<Longrightarrow> base_for Compare h v level b"
proof -
  assume same: "Compare a b = 0"
  have "touches Compare (Some a) (Some a) f" if "touches Compare (Some b) (Some b) f" for f
    using that cmp_trans [of a b "ExtractUserKey (fm_largest f)"] cmp_trans [of "ExtractUserKey (fm_smallest f)" b a] same cmp_zero_sym [of a b]
    by (simp add: touches_def)
  then show "base_for Compare h v level a \<Longrightarrow> base_for Compare h v level b" by (auto simp: base_for_def)
qed

text \<open>Behind a visible entry, the entries of its key are hidden.\<close>

lemma hidden_behind:
  assumes "i < j" and "j < length es" and "visible smallest (es ! i)" and "Compare (uk i) (uk j) = 0"
  shows "hidden smallest j"
proof -
  have same: "Compare (uk i) (uk (j - 1)) = 0" "Compare (uk (j - 1)) (uk j) = 0" using key_same [of i "j - 1" j] assms by simp_all
  have "visible smallest (es ! (j - 1))"
  proof (cases "i = j - 1")
    case True
    then show ?thesis using assms(3) by simp
  next
    case False
    have i: "i < length es" and j: "j - 1 < length es" using assms(1,2) by simp_all
    obtain k s t where a: "fst (es ! i) = InternalKey k s t" "s \<le> kMaxSequenceNumber" "uk i = k" "\<And>S. visible S (es ! i) \<longleftrightarrow> s \<le> S"
      using key_parts [OF i] by metis
    obtain k' s' t' where b: "fst (es ! (j - 1)) = InternalKey k' s' t'" "s' \<le> kMaxSequenceNumber" "uk (j - 1) = k'" "\<And>S. visible S (es ! (j - 1)) \<longleftrightarrow> s' \<le> S"
      using key_parts [OF j] by metis
    have "InternalKey_Compare Compare (fst (es ! i)) (fst (es ! (j - 1))) < 0"
      using sorted_wrt_nth_less [OF sorted, of i "j - 1"] False assms(1,2) by simp
    then have "InternalKey_Compare Compare (InternalKey k s t) (InternalKey k' s' t') < 0" using a(1) b(1) by simp
    moreover have "Compare k k' = 0" using same(1) a(3) b(3) by simp
    ultimately have "s' \<le> s" using InternalKey_Compare_keys(1) [OF a(2) b(2), of Compare k t k' t'] by auto
    then show ?thesis using a(4) b(4) assms(3) by (meson order_trans)
  qed
  then show ?thesis using same(2) assms(1) cmp_zero_sym [of "uk j" "uk (j - 1)"] by (simp add: hidden_def)
qed

lemma dropped_reads:
  assumes S: "smallest \<le> S" and older: "base k \<Longrightarrow> older = None" and same: "\<And>a. Compare a k = 0 \<Longrightarrow> base a \<Longrightarrow> base k"
  shows "read_at Compare S k (map ((!) es) (filter (\<lambda>j. \<not> dropped smallest base j) [0..<length es])) older = read_at Compare S k es older"
proof -
  let ?P = "\<lambda>e. visible S e \<and> Compare (ExtractUserKey (fst e)) k = 0"
  let ?kept = "map ((!) es) (filter (\<lambda>j. \<not> dropped smallest base j) [0..<length es])"
  have vis: "visible S (es ! i)" if "i < length es" "visible smallest (es ! i)" for i
    using key_parts [OF that(1)] that(2) S by (metis order_trans)
  have id: "map ((!) es) (filter (\<lambda>j. True) [0..<length es]) = es" by (simp add: map_nth)
  show ?thesis
  proof (cases "\<exists>i < length es. ?P (es ! i)")
    case False
    then have "\<forall>x \<in> set es. \<not> ?P x" by (metis in_set_conv_nth)
    moreover from this have "\<forall>x \<in> set ?kept. \<not> ?P x" by auto
    ultimately show ?thesis using find_none [of ?kept ?P] find_none [of es ?P] by (simp only: read_at_def)
  next
    case True
    then obtain i where i: "i < length es" "?P (es ! i)" "\<And>j. j < i \<Longrightarrow> \<not> ?P (es ! j)"
      using exists_least_iff [of "\<lambda>i. i < length es \<and> ?P (es ! i)"] by (auto intro: less_trans)
    have all: "find ?P es = Some (es ! i)" using find_kept [of i "length es" "\<lambda>_. True" ?P "(!) es"] i unfolding id by simp
    show ?thesis
    proof (cases "dropped smallest base i")
      case False
      then have "find ?P ?kept = Some (es ! i)" using find_kept [of i "length es" "\<lambda>j. \<not> dropped smallest base j" ?P "(!) es"] i by simp
      then show ?thesis using all by (simp only: read_at_def)
    next
      case dropped: True
      have "\<not> hidden smallest i"
      proof
        assume h: "hidden smallest i"
        then have "?P (es ! (i - 1))" using vis [of "i - 1"] i(1,2) same_trans [of "uk (i - 1)" "uk i" k] cmp_zero_sym [of "uk i" "uk (i - 1)"]
          by (auto simp: hidden_def)
        moreover have "0 < i" using h by (simp add: hidden_def)
        ultimately show False using i(3) [of "i - 1"] by simp
      qed
      then have del: "ty i = kTypeDeletion" "visible smallest (es ! i)" "base (uk i)" using dropped by (simp_all add: dropped_def)
      have none: "\<not> ?P (es ! j)" if j: "j < length es" "\<not> dropped smallest base j" for j
      proof
        assume P: "?P (es ! j)"
        then have "i < j" using i(3) j dropped by (metis linorder_neqE_nat)
        moreover have "Compare (uk i) (uk j) = 0" using same_trans [of "uk i" k "uk j"] i(2) P cmp_zero_sym [of "uk j" k] by simp
        ultimately show False using hidden_behind [OF _ j(1) del(2)] j(2) by (simp add: dropped_def)
      qed
      then have kept: "find ?P ?kept = None" by (intro find_none) auto
      have "kTypeDeletion \<noteq> kTypeValue" by (simp add: kTypeDeletion_def kTypeValue_def)
      moreover have "base k" using same [of "uk i"] i(2) del(3) by blast
      ultimately show ?thesis unfolding read_at_def all kept using del(1) older by simp
    qed
  qed
qed

lemma kept_entries_rule:
  assumes "cmp_Compare (vs_user_comparator st) = Compare" and "version_ok Compare (vh_files st) v" and "v = vh_versions st (the (cp_input_version c))"
    and "smallest < kMaxSequenceNumber" and "cp_level_ptrs c = (\<lambda>i. 0)"
  shows "kept_entries st smallest new_key_state c es =
    map ((!) es) (filter (\<lambda>j. \<not> dropped smallest (base_for Compare (vh_files st) v (cp_level c)) j) [0..<length es])"
  using kept_entries_from [OF assms(1-4), of 0 new_key_state] assms(5) by (simp add: knows_def new_key_state_def)

lemma kept_reads:
  assumes c: "cmp_Compare (vs_user_comparator st) = Compare" "version_ok Compare (vh_files st) v" "v = vh_versions st (the (cp_input_version c))"
    and "smallest < kMaxSequenceNumber" and "cp_level_ptrs c = (\<lambda>i. 0)" and "smallest \<le> S"
    and "\<And>k. base_for Compare (vh_files st) v (cp_level c) k \<Longrightarrow> older k = None"
  shows "read_at Compare S k (kept_entries st smallest new_key_state c es) (older k) = read_at Compare S k es (older k)"
    and "subseq (kept_entries st smallest new_key_state c es) es"
proof -
  let ?base = "base_for Compare (vh_files st) v (cp_level c)"
  show "read_at Compare S k (kept_entries st smallest new_key_state c es) (older k) = read_at Compare S k es (older k)"
    unfolding kept_entries_rule [OF assms(1-5)] using assms(6,7) base_for_same by (intro dropped_reads) blast+
  have "subseq (map ((!) es) (filter (\<lambda>j. \<not> dropped smallest ?base j) [0..<length es])) (map ((!) es) [0..<length es])"
    by (intro subseq_map subseq_filter_left)
  then show "subseq (kept_entries st smallest new_key_state c es) es" unfolding kept_entries_rule [OF assms(1-5)] by (simp only: map_nth)
qed

end

subsection \<open>Properties\<close>

text \<open>
  Claim C9: no reader notices a compaction. The entries that the loop keeps are entries of its inputs, in their order, and
  every read at a snapshot that is not older than the oldest one gives for every key what it gave over all
  inputs, when the older levels behind, that have nothing for a key outside of their files, are read next. In
  particular a deletion is dropped only where nothing older can come to light.
\<close>

theorem compaction_keeps_reads:
  assumes "user_comparator (cmp_Compare (vs_user_comparator st)) Separator Successor"
    and "version_ok (cmp_Compare (vs_user_comparator st)) (vh_files st) (vh_versions st (the (cp_input_version c)))" and "cp_level_ptrs c = (\<lambda>i. 0)"
    and "keys_ok es" and "sorted_wrt (\<lambda>a b. vs_icmp st (fst a) (fst b) < 0) es"
    and "smallest < kMaxSequenceNumber" and "smallest \<le> S"
    and "\<And>k. base_for (cmp_Compare (vs_user_comparator st)) (vh_files st) (vh_versions st (the (cp_input_version c))) (cp_level c) k \<Longrightarrow> older k = None"
  shows "subseq (kept_entries st smallest new_key_state c es) es \<and>
    (\<forall>k. read_at (cmp_Compare (vs_user_comparator st)) S k (kept_entries st smallest new_key_state c es) (older k) =
      read_at (cmp_Compare (vs_user_comparator st)) S k es (older k))"
proof -
  have "sorted_keys (cmp_Compare (vs_user_comparator st)) Separator Successor es"
    using assms(1,4,5) by (intro sorted_keys.intro sorted_keys_axioms.intro)
  from sorted_keys.kept_reads [OF this refl assms(2) refl assms(6,3,7), where older = older, OF assms(8)] show ?thesis by simp
qed

text \<open>Two versions of a key that were overwritten by a deletion; the oldest snapshot is behind all of them.\<close>

theorem compaction_keeps_reads_witness:
  "let es = [(InternalKey [7] 9 kTypeDeletion, []), (InternalKey [7] 5 kTypeValue, [1])];
       c = (Compaction Options 1)\<lparr>cp_input_version := Some 0\<rparr>
   in read_at BytewiseCompare 20 [7] (kept_entries boundary_state 10 new_key_state c es) None = None"
proof -
  let ?k1 = "InternalKey [7] 5 kTypeValue" and ?k2 = "InternalKey [7] 9 kTypeDeletion"
  let ?es = "[(?k2, []), (?k1, [1 :: byte])]" and ?c = "(Compaction Options 1)\<lparr>cp_input_version := Some 0\<rparr>"
  have cmp: "cmp_Compare (vs_user_comparator boundary_state) = BytewiseCompare" by (simp add: BytewiseComparator_def)
  have uc: "user_comparator (cmp_Compare (vs_user_comparator boundary_state)) FindShortestSeparator FindShortSuccessor"
    unfolding cmp by (rule bytewise.user_comparator_axioms)
  have ok: "version_ok (cmp_Compare (vs_user_comparator boundary_state)) (vh_files boundary_state) (vh_versions boundary_state (the (cp_input_version ?c)))"
    unfolding cmp using boundary_ok by simp
  have "\<exists>k s t. ?k1 = InternalKey k s t \<and> s \<le> kMaxSequenceNumber \<and> t \<le> kTypeValue"
    by (intro exI [of _ "[7]"] exI [of _ 5] exI [of _ kTypeValue]) (simp add: kMaxSequenceNumber_def)
  moreover have "\<exists>k s t. ?k2 = InternalKey k s t \<and> s \<le> kMaxSequenceNumber \<and> t \<le> kTypeValue"
    by (intro exI [of _ "[7]"] exI [of _ 9] exI [of _ kTypeDeletion]) (simp add: kMaxSequenceNumber_def kTypeDeletion_def)
  ultimately have keys: "keys_ok ?es" by (simp add: keys_ok_def)
  have sorted: "sorted_wrt (\<lambda>a b. vs_icmp boundary_state (fst a) (fst b) < 0) ?es"
    by (simp add: cmp InternalKey_Compare_keys kMaxSequenceNumber_def BytewiseComparator_def BytewiseCompare_def slice_compare_iffs)
  have "read_at BytewiseCompare 20 [7] (kept_entries boundary_state 10 new_key_state ?c ?es) None = read_at BytewiseCompare 20 [7] ?es None"
    using compaction_keeps_reads [OF uc ok _ keys sorted, of 10 20 "\<lambda>k. None"] unfolding cmp
    by (simp add: Compaction_def kMaxSequenceNumber_def)
  also have "\<dots> = None" by code_simp
  finally show ?thesis by (simp add: Let_def)
qed

end
