(* ===== verification/LDB_Cache.thy ===== *)
theory LDB_Cache
  imports LDB_Bloom "HOL-Library.Monad_Syntax"
begin

text \<open>
  The cache of \<^verbatim>\<open>util/cache.cc\<close>: the hash table of handles, one shard with its two lists, and the sharded
  cache. A handle is known by its address; the handles live in a store shared by all shards. A chain of a
  bucket (\<^verbatim>\<open>next_hash\<close>) and the circular lists \<^verbatim>\<open>lru_\<close> and \<^verbatim>\<open>in_use_\<close> are the lists of their addresses, the latter from
  \<^verbatim>\<open>next\<close> of the head on, oldest first. The handles given to their deleters are kept in a list. Results are
  \<^const>\<open>None\<close> where a loop would not end.
\<close>

subsection \<open>Handles\<close>

record 'v lru_handle =
  lh_value :: 'v
  lh_charge :: u64
  lh_in_cache :: bool
  lh_refs :: u32
  lh_hash :: u32
  lh_key :: bytes

type_synonym handle_ptr = nat

subsection \<open>The hash table\<close>

record handle_table =
  ht_length :: u32
  ht_elems :: u32
  ht_list :: "handle_ptr list list"

definition bucket_of :: "u32 \<Rightarrow> u32 \<Rightarrow> nat" where
  "bucket_of hash len = unat (hash AND (len - 1))"

text \<open>A slot: the bucket and the place in its chain, behind the last entry when there is no match.\<close>

definition FindPointer :: "(handle_ptr \<Rightarrow> 'v lru_handle) \<Rightarrow> bytes \<Rightarrow> u32 \<Rightarrow> handle_table \<Rightarrow> nat \<times> nat" where
  "FindPointer h key hash t =
     (let b = bucket_of hash (ht_length t)
      in (b, length (takeWhile (\<lambda>e. lh_hash (h e) \<noteq> hash \<or> key \<noteq> lh_key (h e)) (ht_list t ! b))))"

definition slot_entry :: "handle_table \<Rightarrow> nat \<times> nat \<Rightarrow> handle_ptr option" where
  "slot_entry t = (\<lambda>(b, i). if i < length (ht_list t ! b) then Some (ht_list t ! b ! i) else None)"

partial_function (option) table_length :: "u32 \<Rightarrow> u32 \<Rightarrow> u32 option" where
  "table_length new_length elems = (if new_length < elems then table_length (new_length * 2) elems else Some new_length)"

definition push_entry :: "(handle_ptr \<Rightarrow> 'v lru_handle) \<Rightarrow> u32 \<Rightarrow> handle_ptr \<Rightarrow> handle_ptr list list \<Rightarrow> handle_ptr list list" where
  "push_entry h len e l = (let b = bucket_of (lh_hash (h e)) len in l[b := e # l ! b])"

definition Resize :: "(handle_ptr \<Rightarrow> 'v lru_handle) \<Rightarrow> handle_table \<Rightarrow> handle_table option" where
  "Resize h t = do {
     new_length \<leftarrow> table_length 4 (ht_elems t);
     Some (t\<lparr>ht_list := fold (push_entry h new_length) (concat (take (unat (ht_length t)) (ht_list t)))
               (replicate (unat new_length) []),
             ht_length := new_length\<rparr>)
   }"

definition HandleTable :: "(handle_ptr \<Rightarrow> 'v lru_handle) \<Rightarrow> handle_table option" where
  "HandleTable h = Resize h \<lparr>ht_length = 0, ht_elems = 0, ht_list = []\<rparr>"

definition HandleTable_Lookup :: "(handle_ptr \<Rightarrow> 'v lru_handle) \<Rightarrow> bytes \<Rightarrow> u32 \<Rightarrow> handle_table \<Rightarrow> handle_ptr option" where
  "HandleTable_Lookup h key hash t = slot_entry t (FindPointer h key hash t)"

definition HandleTable_Insert ::
    "(handle_ptr \<Rightarrow> 'v lru_handle) \<Rightarrow> handle_ptr \<Rightarrow> handle_table \<Rightarrow> (handle_ptr option \<times> handle_table) option" where
  "HandleTable_Insert h e t =
     (let (b, i) = FindPointer h (lh_key (h e)) (lh_hash (h e)) t; chain = ht_list t ! b
      in case slot_entry t (b, i) of
           Some old \<Rightarrow> Some (Some old, t\<lparr>ht_list := (ht_list t)[b := chain[i := e]]\<rparr>)
         | None \<Rightarrow>
             let t = t\<lparr>ht_list := (ht_list t)[b := chain @ [e]], ht_elems := ht_elems t + 1\<rparr>
             in do {
               t \<leftarrow> (if ht_elems t > ht_length t then Resize h t else Some t);
               Some (None, t)
             })"

definition HandleTable_Remove ::
    "(handle_ptr \<Rightarrow> 'v lru_handle) \<Rightarrow> bytes \<Rightarrow> u32 \<Rightarrow> handle_table \<Rightarrow> handle_ptr option \<times> handle_table" where
  "HandleTable_Remove h key hash t =
     (let (b, i) = FindPointer h key hash t; chain = ht_list t ! b; result = slot_entry t (b, i)
      in (result,
          if result \<noteq> None
          then t\<lparr>ht_list := (ht_list t)[b := take i chain @ drop (Suc i) chain], ht_elems := ht_elems t - 1\<rparr>
          else t))"

subsection \<open>One shard\<close>

record 'v handle_store =
  hs_handle :: "handle_ptr \<Rightarrow> 'v lru_handle"
  hs_fresh :: handle_ptr
  hs_deleted :: "handle_ptr list"

record 'v lru_cache = "'v handle_store" +
  lc_capacity :: u64
  lc_usage :: u64
  lc_lru :: "handle_ptr list"
  lc_in_use :: "handle_ptr list"
  lc_table :: handle_table

definition handle_store :: "'v handle_store" where
  "handle_store = \<lparr>hs_handle = (\<lambda>e. undefined), hs_fresh = 0, hs_deleted = []\<rparr>"

text \<open>The constructor followed by \<^verbatim>\<open>SetCapacity\<close>, in a store of handles.\<close>

definition LRUCache :: "u64 \<Rightarrow> 'v handle_store \<Rightarrow> 'v lru_cache option" where
  "LRUCache capacity s = do {
     t \<leftarrow> HandleTable (hs_handle s);
     Some (handle_store.extend s (lru_cache.fields capacity 0 [] [] t))
   }"

definition set_handle :: "handle_ptr \<Rightarrow> ('v lru_handle \<Rightarrow> 'v lru_handle) \<Rightarrow> 'v lru_cache \<Rightarrow> 'v lru_cache" where
  "set_handle e f c = c\<lparr>hs_handle := (hs_handle c)(e := f (hs_handle c e))\<rparr>"

text \<open>An entry is in one list at most; taking it out of its list concerns no other.\<close>

definition LRU_Remove :: "handle_ptr \<Rightarrow> 'v lru_cache \<Rightarrow> 'v lru_cache" where
  "LRU_Remove e c = c\<lparr>lc_lru := remove1 e (lc_lru c), lc_in_use := remove1 e (lc_in_use c)\<rparr>"

definition LRU_Append_lru :: "handle_ptr \<Rightarrow> 'v lru_cache \<Rightarrow> 'v lru_cache" where
  "LRU_Append_lru e c = c\<lparr>lc_lru := lc_lru c @ [e]\<rparr>"

definition LRU_Append_in_use :: "handle_ptr \<Rightarrow> 'v lru_cache \<Rightarrow> 'v lru_cache" where
  "LRU_Append_in_use e c = c\<lparr>lc_in_use := lc_in_use c @ [e]\<rparr>"

definition LRUCache_Ref :: "handle_ptr \<Rightarrow> 'v lru_cache \<Rightarrow> 'v lru_cache" where
  "LRUCache_Ref e c =
     (let h = hs_handle c e; c = (if lh_refs h = 1 \<and> lh_in_cache h then LRU_Append_in_use e (LRU_Remove e c) else c)
      in set_handle e (\<lambda>h. h\<lparr>lh_refs := lh_refs h + 1\<rparr>) c)"

definition LRUCache_Unref :: "handle_ptr \<Rightarrow> 'v lru_cache \<Rightarrow> 'v lru_cache" where
  "LRUCache_Unref e c =
     (let c = set_handle e (\<lambda>h. h\<lparr>lh_refs := lh_refs h - 1\<rparr>) c; h = hs_handle c e
      in if lh_refs h = 0 then c\<lparr>hs_deleted := hs_deleted c @ [e]\<rparr>
         else if lh_in_cache h \<and> lh_refs h = 1 then LRU_Append_lru e (LRU_Remove e c)
         else c)"

definition FinishErase :: "handle_ptr option \<Rightarrow> 'v lru_cache \<Rightarrow> bool \<times> 'v lru_cache" where
  "FinishErase r c =
     (case r of
        None \<Rightarrow> (False, c)
      | Some e \<Rightarrow>
          let c = set_handle e (\<lambda>h. h\<lparr>lh_in_cache := False\<rparr>) (LRU_Remove e c)
          in (True, LRUCache_Unref e (c\<lparr>lc_usage := lc_usage c - lh_charge (hs_handle c e)\<rparr>)))"

definition remove_key :: "bytes \<Rightarrow> u32 \<Rightarrow> 'v lru_cache \<Rightarrow> bool \<times> 'v lru_cache" where
  "remove_key key hash c =
     (let (r, t) = HandleTable_Remove (hs_handle c) key hash (lc_table c) in FinishErase r (c\<lparr>lc_table := t\<rparr>))"

definition remove_oldest :: "'v lru_cache \<Rightarrow> 'v lru_cache" where
  "remove_oldest c = (let old = hs_handle c (hd (lc_lru c)) in snd (remove_key (lh_key old) (lh_hash old) c))"

partial_function (option) evict :: "'v lru_cache \<Rightarrow> 'v lru_cache option" where
  "evict c = (if lc_usage c > lc_capacity c \<and> lc_lru c \<noteq> [] then evict (remove_oldest c) else Some c)"

definition LRUCache_Lookup :: "bytes \<Rightarrow> u32 \<Rightarrow> 'v lru_cache \<Rightarrow> handle_ptr option \<times> 'v lru_cache" where
  "LRUCache_Lookup key hash c =
     (case HandleTable_Lookup (hs_handle c) key hash (lc_table c) of
        Some e \<Rightarrow> (Some e, LRUCache_Ref e c)
      | None \<Rightarrow> (None, c))"

definition LRUCache_Release :: "handle_ptr \<Rightarrow> 'v lru_cache \<Rightarrow> 'v lru_cache" where
  "LRUCache_Release e c = LRUCache_Unref e c"

definition new_handle :: "'v lru_handle \<Rightarrow> 'v lru_cache \<Rightarrow> handle_ptr \<times> 'v lru_cache" where
  "new_handle h c = (hs_fresh c, c\<lparr>hs_handle := (hs_handle c)(hs_fresh c := h), hs_fresh := Suc (hs_fresh c)\<rparr>)"

text \<open>The cache takes a reference of its own.\<close>

definition adopt :: "handle_ptr \<Rightarrow> u64 \<Rightarrow> 'v lru_cache \<Rightarrow> 'v lru_cache" where
  "adopt e charge c =
     (let c = LRU_Append_in_use e (set_handle e (\<lambda>h. h\<lparr>lh_refs := lh_refs h + 1, lh_in_cache := True\<rparr>) c)
      in c\<lparr>lc_usage := lc_usage c + charge\<rparr>)"

definition LRUCache_Insert ::
    "bytes \<Rightarrow> u32 \<Rightarrow> 'v \<Rightarrow> u64 \<Rightarrow> 'v lru_cache \<Rightarrow> (handle_ptr \<times> 'v lru_cache) option" where
  "LRUCache_Insert key hash v charge c =
     (let (e, c) = new_handle \<lparr>lh_value = v, lh_charge = charge, lh_in_cache = False, lh_refs = 1, lh_hash = hash, lh_key = key\<rparr> c
      in do {
        c \<leftarrow> (if lc_capacity c > 0 then
                let c = adopt e charge c
                in do {
                  (old, t) \<leftarrow> HandleTable_Insert (hs_handle c) e (lc_table c);
                  Some (snd (FinishErase old (c\<lparr>lc_table := t\<rparr>)))
                }
              else Some c);
        c \<leftarrow> evict c;
        Some (e, c)
      })"

definition LRUCache_Erase :: "bytes \<Rightarrow> u32 \<Rightarrow> 'v lru_cache \<Rightarrow> 'v lru_cache" where
  "LRUCache_Erase key hash c = snd (remove_key key hash c)"

partial_function (option) LRUCache_Prune :: "'v lru_cache \<Rightarrow> 'v lru_cache option" where
  "LRUCache_Prune c = (if lc_lru c \<noteq> [] then LRUCache_Prune (remove_oldest c) else Some c)"

definition LRUCache_TotalCharge :: "'v lru_cache \<Rightarrow> u64" where
  "LRUCache_TotalCharge c = lc_usage c"

definition LRUCache_delete :: "'v lru_cache \<Rightarrow> 'v lru_cache" where
  "LRUCache_delete c = fold (\<lambda>e c. LRUCache_Unref e (set_handle e (\<lambda>h. h\<lparr>lh_in_cache := False\<rparr>) c)) (lc_lru c) c"

subsection \<open>The sharded cache\<close>

definition kNumShardBits :: nat where
  "kNumShardBits = 4"

definition kNumShards :: nat where
  "kNumShards = 2 ^ kNumShardBits"

definition HashSlice :: "bytes \<Rightarrow> u32" where
  "HashSlice s = Hash s 0"

definition Shard :: "u32 \<Rightarrow> nat" where
  "Shard hash = unat (drop_bit (32 - kNumShardBits) hash)"

record 'v sharded_cache =
  sc_store :: "'v handle_store"
  sc_shard :: "unit lru_cache_ext list"
  sc_last_id :: u64

text \<open>An operation of a shard, on the store that all of them share.\<close>

definition get_shard :: "nat \<Rightarrow> 'v sharded_cache \<Rightarrow> 'v lru_cache" where
  "get_shard s c = handle_store.extend (sc_store c) (sc_shard c ! s)"

definition put_shard :: "nat \<Rightarrow> 'v lru_cache \<Rightarrow> 'v sharded_cache \<Rightarrow> 'v sharded_cache" where
  "put_shard s l c = c\<lparr>sc_store := handle_store.truncate l, sc_shard := (sc_shard c)[s := handle_store.more l]\<rparr>"

definition NewLRUCache :: "u64 \<Rightarrow> 'v sharded_cache option" where
  "NewLRUCache capacity = do {
     let s = handle_store;
     l \<leftarrow> LRUCache ((capacity + (of_nat kNumShards - 1)) div of_nat kNumShards) s;
     Some \<lparr>sc_store = s, sc_shard = replicate kNumShards (handle_store.more l), sc_last_id = 0\<rparr>
   }"

definition Cache_Insert :: "bytes \<Rightarrow> 'v \<Rightarrow> u64 \<Rightarrow> 'v sharded_cache \<Rightarrow> (handle_ptr \<times> 'v sharded_cache) option" where
  "Cache_Insert key v charge c =
     (let hash = HashSlice key; s = Shard hash in do {
        (e, l) \<leftarrow> LRUCache_Insert key hash v charge (get_shard s c);
        Some (e, put_shard s l c)
      })"

definition Cache_Lookup :: "bytes \<Rightarrow> 'v sharded_cache \<Rightarrow> handle_ptr option \<times> 'v sharded_cache" where
  "Cache_Lookup key c =
     (let hash = HashSlice key; s = Shard hash; (r, l) = LRUCache_Lookup key hash (get_shard s c)
      in (r, put_shard s l c))"

definition Cache_Release :: "handle_ptr \<Rightarrow> 'v sharded_cache \<Rightarrow> 'v sharded_cache" where
  "Cache_Release e c =
     (let s = Shard (lh_hash (hs_handle (sc_store c) e)) in put_shard s (LRUCache_Release e (get_shard s c)) c)"

definition Cache_Erase :: "bytes \<Rightarrow> 'v sharded_cache \<Rightarrow> 'v sharded_cache" where
  "Cache_Erase key c =
     (let hash = HashSlice key; s = Shard hash in put_shard s (LRUCache_Erase key hash (get_shard s c)) c)"

definition Cache_Value :: "handle_ptr \<Rightarrow> 'v sharded_cache \<Rightarrow> 'v" where
  "Cache_Value e c = lh_value (hs_handle (sc_store c) e)"

definition Cache_NewId :: "'v sharded_cache \<Rightarrow> u64 \<times> 'v sharded_cache" where
  "Cache_NewId c = (let i = sc_last_id c + 1 in (i, c\<lparr>sc_last_id := i\<rparr>))"

definition Cache_Prune :: "'v sharded_cache \<Rightarrow> 'v sharded_cache option" where
  "Cache_Prune c =
     fold (\<lambda>s r. do { c \<leftarrow> r; l \<leftarrow> LRUCache_Prune (get_shard s c); Some (put_shard s l c) }) [0..<kNumShards] (Some c)"

definition Cache_TotalCharge :: "'v sharded_cache \<Rightarrow> u64" where
  "Cache_TotalCharge c = fold (\<lambda>s n. n + LRUCache_TotalCharge (get_shard s c)) [0..<kNumShards] 0"

end
