(* ===== verification/LDB_CacheSpec.thy ===== *)
theory LDB_CacheSpec
  imports LDB_Cache "HOL-Library.Multiset"
begin

text \<open>
  The cache keeps its promises to any client: its hash table finds what is cached, the references are counted right, and
  a handle goes to its deleter once, when neither the cache nor a client refers to it.
\<close>

subsection \<open>The hash table holds a set of handles\<close>

definition table_ok :: "(bytes \<Rightarrow> u32) \<Rightarrow> (handle_ptr \<Rightarrow> 'v lru_handle) \<Rightarrow> handle_ptr set \<Rightarrow> handle_table \<Rightarrow> bool" where
  "table_ok H h S t \<longleftrightarrow>
     (\<exists>k. 2 \<le> k \<and> k < 32 \<and> ht_length t = 2 ^ k \<and> length (ht_list t) = 2 ^ k) \<and>
     finite S \<and> unat (ht_elems t) = card S \<and> card S \<le> unat (ht_length t) \<and>
     inj_on (\<lambda>e. lh_key (h e)) S \<and> (\<forall>e \<in> S. lh_hash (h e) = H (lh_key (h e))) \<and>
     (\<forall>b < length (ht_list t). distinct (ht_list t ! b) \<and>
        set (ht_list t ! b) = {e \<in> S. bucket_of (lh_hash (h e)) (ht_length t) = b})"

lemma table_ok_cong:
  assumes "\<And>e. e \<in> S \<Longrightarrow> lh_key (h' e) = lh_key (h e) \<and> lh_hash (h' e) = lh_hash (h e)"
  shows "table_ok H h' S t \<longleftrightarrow> table_ok H h S t"
proof -
  have "inj_on (\<lambda>e. lh_key (h' e)) S = inj_on (\<lambda>e. lh_key (h e)) S" using assms by (intro inj_on_cong) simp
  moreover have "{e \<in> S. bucket_of (lh_hash (h' e)) l = b} = {e \<in> S. bucket_of (lh_hash (h e)) l = b}" for l b using assms by auto
  ultimately show ?thesis using assms unfolding table_ok_def by simp
qed

lemma unat_power:
  assumes "k < 32"
  shows "unat ((2 :: u32) ^ k) = 2 ^ k"
proof -
  have "(2 :: nat) ^ k < 2 ^ LENGTH(32)" using power_strict_increasing [OF assms, of "2 :: nat"] by simp
  then have "unat (word_of_nat (2 ^ k) :: u32) = 2 ^ k" by (rule unat_word_of_nat_small)
  then show ?thesis by (simp only: of_nat_power of_nat_numeral)
qed

lemma table_okI:
  assumes "2 \<le> k" and "k < 32" and "ht_length t = 2 ^ k" and "length (ht_list t) = 2 ^ k"
    and "finite S" and "unat (ht_elems t) = card S" and "card S \<le> 2 ^ k"
    and "inj_on (\<lambda>e. lh_key (h e)) S" and "\<forall>e \<in> S. lh_hash (h e) = H (lh_key (h e))"
    and "\<And>b. b < 2 ^ k \<Longrightarrow> distinct (ht_list t ! b) \<and> set (ht_list t ! b) = {e \<in> S. bucket_of (lh_hash (h e)) (2 ^ k) = b}"
  shows "table_ok H h S t"
  unfolding table_ok_def using assms by (intro conjI) (blast, simp_all add: unat_power)

lemma table_okE:
  assumes "table_ok H h S t"
  obtains k where "2 \<le> k" and "k < 32" and "ht_length t = 2 ^ k" and "length (ht_list t) = 2 ^ k"
    and "finite S" and "unat (ht_elems t) = card S" and "card S \<le> 2 ^ k"
    and "inj_on (\<lambda>e. lh_key (h e)) S" and "\<forall>e \<in> S. lh_hash (h e) = H (lh_key (h e))"
    and "\<forall>b < 2 ^ k. distinct (ht_list t ! b) \<and> set (ht_list t ! b) = {e \<in> S. bucket_of (lh_hash (h e)) (2 ^ k) = b}"
proof -
  obtain k where k: "2 \<le> k" "k < 32" "ht_length t = 2 ^ k" "length (ht_list t) = 2 ^ k" using assms by (auto simp: table_ok_def)
  then show thesis using that [of k] assms by (simp add: table_ok_def unat_power)
qed

lemma bucket_bound: "k < 32 \<Longrightarrow> bucket_of hash (2 ^ k) < 2 ^ k"
proof -
  assume k: "k < 32"
  have "hash AND ((2 :: u32) ^ k - 1) = take_bit k hash" by (simp add: take_bit_eq_mask mask_eq_exp_minus_1)
  then have "bucket_of hash (2 ^ k) = take_bit k (unat hash)" by (simp add: bucket_of_def unsigned_take_bit_eq)
  then show ?thesis by (simp add: take_bit_eq_mod)
qed

lemma table_bucket:
  assumes "table_ok H h S t"
  shows "bucket_of hash (ht_length t) < length (ht_list t)"
  using assms bucket_bound by (auto simp: table_ok_def)

lemma slot_cases:
  assumes t: "table_ok H h S t"
  obtains (found) b i e where "FindPointer h key (H key) t = (b, i)" and "slot_entry t (b, i) = Some e" and "b < length (ht_list t)"
      and "i < length (ht_list t ! b)" and "ht_list t ! b ! i = e" and "e \<in> S" and "lh_key (h e) = key"
      and "b = bucket_of (H key) (ht_length t)"
  | (missing) b where "FindPointer h key (H key) t = (b, length (ht_list t ! b))" and "slot_entry t (b, length (ht_list t ! b)) = None"
      and "b = bucket_of (H key) (ht_length t)" and "b < length (ht_list t)" and "\<And>e. e \<in> S \<Longrightarrow> lh_key (h e) \<noteq> key"
proof -
  let ?b = "bucket_of (H key) (ht_length t)"
  let ?P = "\<lambda>e. lh_hash (h e) \<noteq> H key \<or> key \<noteq> lh_key (h e)"
  let ?chain = "ht_list t ! ?b"
  have b: "?b < length (ht_list t)" by (rule table_bucket [OF t])
  then have chain: "set ?chain = {e \<in> S. bucket_of (lh_hash (h e)) (ht_length t) = ?b}" using t by (simp add: table_ok_def)
  have hash: "\<forall>e \<in> S. lh_hash (h e) = H (lh_key (h e))" using t by (simp add: table_ok_def)
  have fp: "FindPointer h key (H key) t = (?b, length (takeWhile ?P ?chain))" by (simp add: FindPointer_def Let_def)
  show thesis
  proof (cases "\<exists>e \<in> S. lh_key (h e) = key")
    case True
    then have "\<exists>e \<in> set ?chain. \<not> ?P e" using chain hash by fastforce
    have i: "length (takeWhile ?P ?chain) < length ?chain"
    proof (rule ccontr)
      assume "\<not> length (takeWhile ?P ?chain) < length ?chain"
      then have "takeWhile ?P ?chain = ?chain" using takeWhile_eq_take [of ?P ?chain] by simp
      then show False using \<open>\<exists>e \<in> set ?chain. \<not> ?P e\<close> by (simp only: takeWhile_eq_all_conv) blast
    qed
    then have "\<not> ?P (?chain ! length (takeWhile ?P ?chain))" by (rule nth_length_takeWhile)
    moreover have "?chain ! length (takeWhile ?P ?chain) \<in> S" using nth_mem [OF i] chain by simp
    ultimately show thesis using found [OF fp _ b i refl] i by (simp add: slot_entry_def)
  next
    case False
    then have "\<forall>e \<in> set ?chain. ?P e" using chain by auto
    then have "takeWhile ?P ?chain = ?chain" by (simp only: takeWhile_eq_all_conv)
    then have "FindPointer h key (H key) t = (?b, length ?chain)" using fp by (simp only:)
    from missing [OF this _ refl b] False show thesis by (auto simp: slot_entry_def)
  qed
qed

lemma HandleTable_Lookup_ok:
  assumes "table_ok H h S t"
  shows "HandleTable_Lookup h key (H key) t = Some e \<longleftrightarrow> e \<in> S \<and> lh_key (h e) = key"
  using assms
proof (cases rule: slot_cases [of H h S t key])
  case (found b i d)
  then have "d = e" if "e \<in> S" "lh_key (h e) = key" using assms that by (auto simp: table_ok_def inj_on_def)
  then show ?thesis using found by (auto simp: HandleTable_Lookup_def)
qed (auto simp: HandleTable_Lookup_def)

text \<open>Growing the array.\<close>

lemma table_length_ok:
  assumes "unat elems \<le> 2 ^ 31" and "k \<le> 31" and "2 \<le> k"
  shows "\<exists>m. 2 \<le> m \<and> m < 32 \<and> table_length (2 ^ k) elems = Some (2 ^ m) \<and> unat elems \<le> 2 ^ m"
  using assms(2,3)
proof (induction "31 - k" arbitrary: k)
  case 0
  then have k: "k = 31" by simp
  have "\<not> 2 ^ k < elems" using assms(1) unfolding k by (simp add: word_less_nat_alt)
  then have "table_length (2 ^ k) elems = Some (2 ^ k)" by (subst table_length.simps) simp
  then show ?case using k assms(1) by (intro exI [of _ k]) simp
next
  case (Suc n)
  show ?case
  proof (cases "2 ^ k < elems")
    case True
    then have "table_length (2 ^ k) elems = table_length (2 ^ Suc k) elems" by (subst table_length.simps) (simp add: mult.commute)
    then show ?thesis using Suc.hyps(1) [of "Suc k"] Suc.hyps(2) Suc.prems by simp
  next
    case False
    moreover have "k < 32" using Suc.prems(1) by simp
    ultimately have "unat elems \<le> 2 ^ k" by (simp only: word_less_nat_alt unat_power not_less)
    moreover have "table_length (2 ^ k) elems = Some (2 ^ k)" using False by (subst table_length.simps) simp
    ultimately show ?thesis using Suc.prems by (intro exI [of _ k]) simp
  qed
qed

lemma push_entries:
  assumes "distinct es" and k: "k < 32" "length l = 2 ^ k" and "\<forall>b < length l. distinct (l ! b) \<and> set (l ! b) \<inter> set es = {}"
  shows "length (fold (push_entry h (2 ^ k)) es l) = 2 ^ k \<and> (\<forall>b < 2 ^ k. distinct (fold (push_entry h (2 ^ k)) es l ! b) \<and>
    set (fold (push_entry h (2 ^ k)) es l ! b) = set (l ! b) \<union> {e \<in> set es. bucket_of (lh_hash (h e)) (2 ^ k) = b})"
  using assms
proof (induction es arbitrary: l)
  case (Cons e es)
  let ?j = "bucket_of (lh_hash (h e)) (2 ^ k)"
  have j: "?j < length l" using bucket_bound [OF k(1)] Cons.prems(3) by simp
  have nth: "push_entry h (2 ^ k) e l ! b = (if b = ?j then e # l ! b else l ! b)" if "b < length l" for b
    using that by (simp add: push_entry_def Let_def)
  have len: "length (push_entry h (2 ^ k) e l) = 2 ^ k" using Cons.prems(3) by (simp add: push_entry_def Let_def)
  have "\<forall>b < length (push_entry h (2 ^ k) e l). distinct (push_entry h (2 ^ k) e l ! b) \<and> set (push_entry h (2 ^ k) e l ! b) \<inter> set es = {}"
    using Cons.prems nth len by auto
  from Cons.IH [OF _ k(1) len this] Cons.prems(1,3) nth show ?case by auto
qed simp

lemma Resize_ok:
  assumes len: "length (ht_list t) = unat (ht_length t)" and "finite S" and S: "unat (ht_elems t) = card S" "card S \<le> 2 ^ 31"
    and "inj_on (\<lambda>e. lh_key (h e)) S" and "\<forall>e \<in> S. lh_hash (h e) = H (lh_key (h e))"
    and chains: "distinct (concat (ht_list t))" "set (concat (ht_list t)) = S"
  shows "\<exists>t'. Resize h t = Some t' \<and> table_ok H h S t'"
proof -
  obtain m where m: "2 \<le> m" "m < 32" "table_length 4 (ht_elems t) = Some (2 ^ m)" "unat (ht_elems t) \<le> 2 ^ m"
    using table_length_ok [of "ht_elems t" 2] S by auto
  let ?es = "concat (ht_list t)"
  obtain l where fold: "fold (push_entry h (2 ^ m)) ?es (replicate (2 ^ m) []) = l" by blast
  have l: "length l = 2 ^ m \<and> (\<forall>b < 2 ^ m. distinct (l ! b) \<and> set (l ! b) = {e \<in> S. bucket_of (lh_hash (h e)) (2 ^ m) = b})"
    using push_entries [OF chains(1) m(2), of "replicate (2 ^ m) []" h] unfolding chains(2) fold by simp
  have "Resize h t = Some (t\<lparr>ht_list := l, ht_length := 2 ^ m\<rparr>)"
    using m(2,3) fold by (simp add: Resize_def unat_power len [symmetric])
  moreover have "table_ok H h S (t\<lparr>ht_list := l, ht_length := 2 ^ m\<rparr>)"
    using l m assms(2-6) unfolding table_ok_def by (auto simp: unat_power)
  ultimately show ?thesis by blast
qed

lemma chains_concat:
  assumes "\<forall>b < length l. distinct (l ! b) \<and> set (l ! b) = {e \<in> S. f e = b}" and "\<forall>e \<in> S. f e < length l"
  shows "distinct (concat l) \<and> set (concat l) = S"
proof
  have "set (l ! i) \<inter> set (l ! j) = {}" if "i < length l" "j < length l" "i \<noteq> j" for i j using assms(1) that by auto
  then have "distinct (filter (\<lambda>xs. xs \<noteq> []) l)"
  proof -
    have "filter (\<lambda>xs. xs \<noteq> []) l = map ((!) l) (filter (\<lambda>i. l ! i \<noteq> []) [0..<length l])"
      by (metis (no_types, lifting) comp_apply filter_cong filter_map map_nth)
    moreover have "inj_on ((!) l) (set (filter (\<lambda>i. l ! i \<noteq> []) [0..<length l]))"
    proof (rule inj_onI)
      fix i j
      assume "i \<in> set (filter (\<lambda>i. l ! i \<noteq> []) [0..<length l])" "j \<in> set (filter (\<lambda>i. l ! i \<noteq> []) [0..<length l])" "l ! i = l ! j"
      then show "i = j" using \<open>\<And>i j. i < length l \<Longrightarrow> j < length l \<Longrightarrow> i \<noteq> j \<Longrightarrow> set (l ! i) \<inter> set (l ! j) = {}\<close> [of i j] by auto
    qed
    ultimately show ?thesis by (simp add: distinct_map)
  qed
  then have a: "distinct (removeAll [] l)" by (simp add: removeAll_filter_not_eq neq_commute)
  have b: "\<forall>ys. ys \<in> set l \<longrightarrow> distinct ys" using assms(1) by (metis in_set_conv_nth)
  have c: "set ys \<inter> set zs = {}" if yz: "ys \<in> set l" "zs \<in> set l" "ys \<noteq> zs" for ys zs
  proof -
    obtain i j where "i < length l" "l ! i = ys" "j < length l" "l ! j = zs" using yz(1,2) by (metis in_set_conv_nth)
    then show ?thesis using yz(3) \<open>\<And>i j. i < length l \<Longrightarrow> j < length l \<Longrightarrow> i \<noteq> j \<Longrightarrow> set (l ! i) \<inter> set (l ! j) = {}\<close> [of i j] by auto
  qed
  show "distinct (concat l)"
  proof -
    have "\<forall>ys zs. ys \<in> set l \<and> zs \<in> set l \<and> ys \<noteq> zs \<longrightarrow> set ys \<inter> set zs = {}" using c by (intro allI impI) (elim conjE)
    then show ?thesis unfolding distinct_concat_iff using a b by (intro conjI) (simp_all only:)
  qed
  have "set l = (!) l ` {..<length l}" by (auto simp: set_conv_nth)
  then have "set (concat l) = (\<Union>i < length l. set (l ! i))" by simp
  also have "\<dots> = (\<Union>i < length l. {e \<in> S. f e = i})" using assms(1) by simp
  finally show "set (concat l) = S" using assms(2) by auto
qed

text \<open>Insertion replaces the handle with the key, if there is one, and removal takes it out.\<close>

definition with_key :: "(handle_ptr \<Rightarrow> 'v lru_handle) \<Rightarrow> handle_ptr set \<Rightarrow> bytes \<Rightarrow> handle_ptr option \<Rightarrow> bool" where
  "with_key h S key r \<longleftrightarrow> (\<forall>e. r = Some e \<longleftrightarrow> e \<in> S \<and> lh_key (h e) = key)"

lemma with_key_cases:
  "with_key h S key None \<longleftrightarrow> (\<forall>e \<in> S. lh_key (h e) \<noteq> key)"
  "with_key h S key (Some e) \<longleftrightarrow> e \<in> S \<and> lh_key (h e) = key \<and> (\<forall>d \<in> S. lh_key (h d) = key \<longrightarrow> d = e)"
  by (auto simp: with_key_def)

lemma HandleTable_Insert_ok:
  assumes t: "table_ok H h S t" and e: "e \<notin> S" "lh_hash (h e) = H (lh_key (h e))" and size: "card S < 2 ^ 31"
  shows "\<exists>r t'. HandleTable_Insert h e t = Some (r, t') \<and> with_key h S (lh_key (h e)) r \<and> table_ok H h (insert e (S - set_option r)) t'"
proof -
  from t obtain k where k: "2 \<le> k" "k < 32" "ht_length t = 2 ^ k" "length (ht_list t) = 2 ^ k"
    and S: "finite S" "unat (ht_elems t) = card S" "card S \<le> 2 ^ k" "inj_on (\<lambda>e. lh_key (h e)) S" "\<forall>e \<in> S. lh_hash (h e) = H (lh_key (h e))"
    and all: "\<forall>b < 2 ^ k. distinct (ht_list t ! b) \<and> set (ht_list t ! b) = {e \<in> S. bucket_of (lh_hash (h e)) (2 ^ k) = b}"
    by (rule table_okE)
  note chains = all [rule_format]
  from t show ?thesis
  proof (cases rule: slot_cases [of H h S t "lh_key (h e)"])
    case (found b i old)
    let ?t = "t\<lparr>ht_list := (ht_list t)[b := (ht_list t ! b)[i := e]]\<rparr>" and ?S = "insert e (S - {old})"
    have ins: "HandleTable_Insert h e t = Some (Some old, ?t)" using found(1,2) e(2) by (simp add: HandleTable_Insert_def)
    have key: "with_key h S (lh_key (h e)) (Some old)" using found(6,7) S(4) by (auto simp: with_key_def inj_on_def)
    have card: "card ?S = card S"
      using card_insert_disjoint [of "S - {old}" e] card_Suc_Diff1 [OF S(1) found(6)] S(1) e(1) by (simp del: card_Diff_insert)
    have inj: "inj_on (\<lambda>e. lh_key (h e)) ?S" using S(4) found(6,7) e(1) by (auto simp: inj_on_def)
    have hash: "\<forall>e \<in> ?S. lh_hash (h e) = H (lh_key (h e))" using S(5) e(2) by simp
    have place: "bucket_of (lh_hash (h e)) (2 ^ k) = b" "bucket_of (lh_hash (h old)) (2 ^ k) = b"
      using found(6-8) S(5) e(2) k(3) by simp_all
    have chains': "distinct (ht_list ?t ! c) \<and> set (ht_list ?t ! c) = {e \<in> ?S. bucket_of (lh_hash (h e)) (2 ^ k) = c}" if c: "c < 2 ^ k" for c
    proof (cases "c = b")
      case True
      then have "set (ht_list ?t ! c) = insert e (set (ht_list t ! b) - {old})"
        using found(3-5) chains [OF c] by (auto simp: set_update_distinct)
      moreover have "distinct (ht_list ?t ! c)" using True found(3) chains [OF c] e(1) by (auto intro: distinct_list_update)
      moreover have "{e \<in> ?S. bucket_of (lh_hash (h e)) (2 ^ k) = c} = insert e ({e \<in> S. bucket_of (lh_hash (h e)) (2 ^ k) = c} - {old})"
        using True place(1) by blast
      ultimately show ?thesis using chains [OF c] True by simp
    next
      case False
      then have "{e \<in> ?S. bucket_of (lh_hash (h e)) (2 ^ k) = c} = {e \<in> S. bucket_of (lh_hash (h e)) (2 ^ k) = c}"
        using place by blast
      then show ?thesis using chains [OF c] False by simp
    qed
    have "table_ok H h ?S ?t"
      by (rule table_okI [OF k(1,2) _ _ _ _ _ inj hash chains']) (simp_all add: k S(1-3) card del: card_Diff_insert)
    then show ?thesis using ins key by auto
  next
    case (missing b)
    let ?t = "t\<lparr>ht_list := (ht_list t)[b := ht_list t ! b @ [e]], ht_elems := ht_elems t + 1\<rparr>" and ?S = "insert e S"
    have eq: "HandleTable_Insert h e t = (if ht_length t < ht_elems t + 1 then Resize h ?t else Some ?t) \<bind> (\<lambda>t. Some (None, t))"
      using missing(1,2) e(2) by (simp add: HandleTable_Insert_def)
    have key: "with_key h S (lh_key (h e)) None" using missing(5) by (auto simp: with_key_def)
    have elems: "unat (ht_elems t + 1) = card ?S" using S(1,2) e(1) size by (simp add: unat_word_ariths)
    have "lh_key (h e) \<notin> (\<lambda>e. lh_key (h e)) ` S" using missing(5) by (metis (no_types, lifting) imageE)
    then have inj: "inj_on (\<lambda>e. lh_key (h e)) ?S" using S(4) e(1) by (simp add: inj_on_insert)
    have hash: "\<forall>e \<in> ?S. lh_hash (h e) = H (lh_key (h e))" using S(5) e(2) by simp
    have place: "bucket_of (lh_hash (h e)) (2 ^ k) = b" using missing(3) e(2) k(3) by simp
    have chains': "distinct (ht_list ?t ! c) \<and> set (ht_list ?t ! c) = {e \<in> ?S. bucket_of (lh_hash (h e)) (2 ^ k) = c}" if c: "c < 2 ^ k" for c
    proof (cases "c = b")
      case True
      then have "{e \<in> ?S. bucket_of (lh_hash (h e)) (2 ^ k) = c} = insert e {e \<in> S. bucket_of (lh_hash (h e)) (2 ^ k) = c}"
        using place by blast
      then show ?thesis using chains [OF c] True missing(4) e(1) by simp
    next
      case False
      then have "{e \<in> ?S. bucket_of (lh_hash (h e)) (2 ^ k) = c} = {e \<in> S. bucket_of (lh_hash (h e)) (2 ^ k) = c}"
        using place by blast
      then show ?thesis using chains [OF c] False by simp
    qed
    show ?thesis
    proof (cases "ht_length t < ht_elems t + 1")
      case True
      have "\<forall>b < length (ht_list ?t). distinct (ht_list ?t ! b) \<and> set (ht_list ?t ! b) = {e \<in> ?S. bucket_of (lh_hash (h e)) (2 ^ k) = b}"
        using chains' k(4) by simp
      moreover have "\<forall>e \<in> ?S. bucket_of (lh_hash (h e)) (2 ^ k) < length (ht_list ?t)" using bucket_bound [OF k(2)] k(4) by simp
      ultimately have "distinct (concat (ht_list ?t)) \<and> set (concat (ht_list ?t)) = ?S" by (rule chains_concat)
      moreover have "length (ht_list ?t) = unat (ht_length ?t)" using k by (simp add: unat_power)
      ultimately obtain t' where "Resize h ?t = Some t'" "table_ok H h ?S t'"
        using Resize_ok [of ?t ?S h H] S(1) elems inj hash size e(1) by auto
      then show ?thesis using eq True key by auto
    next
      case False
      then have "card ?S \<le> 2 ^ k" using elems k by (simp only: word_less_nat_alt unat_power not_less)
      then have "table_ok H h ?S ?t" 
        by (intro table_okI [OF k(1,2) _ _ _ _ _ inj hash chains']) (use k(3,4) S(1) elems in simp_all)
      then show ?thesis using eq False key by auto
    qed
  qed
qed

lemma HandleTable_Remove_ok:
  assumes t: "table_ok H h S t"
  shows "\<exists>r t'. HandleTable_Remove h key (H key) t = (r, t') \<and> with_key h S key r \<and> table_ok H h (S - set_option r) t'"
proof -
  from t obtain k where k: "2 \<le> k" "k < 32" "ht_length t = 2 ^ k" "length (ht_list t) = 2 ^ k"
    and S: "finite S" "unat (ht_elems t) = card S" "card S \<le> 2 ^ k" "inj_on (\<lambda>e. lh_key (h e)) S" "\<forall>e \<in> S. lh_hash (h e) = H (lh_key (h e))"
    and all: "\<forall>b < 2 ^ k. distinct (ht_list t ! b) \<and> set (ht_list t ! b) = {e \<in> S. bucket_of (lh_hash (h e)) (2 ^ k) = b}"
    by (rule table_okE)
  note chains = all [rule_format]
  from t show ?thesis
  proof (cases rule: slot_cases [of H h S t key])
    case (found b i old)
    let ?chain = "ht_list t ! b" and ?S = "S - {old}"
    let ?t = "t\<lparr>ht_list := (ht_list t)[b := take i ?chain @ drop (Suc i) ?chain], ht_elems := ht_elems t - 1\<rparr>"
    have ins: "HandleTable_Remove h key (H key) t = (Some old, ?t)" using found(1,2) by (simp add: HandleTable_Remove_def Let_def)
    have key: "with_key h S key (Some old)" using found(6,7) S(4) by (auto simp: with_key_def inj_on_def)
    have elems: "unat (ht_elems t - 1) = card ?S"
    proof -
      have "0 < card S" using S(1) found(6) by (auto simp: card_gt_0_iff)
      then have "ht_elems t \<noteq> 0" using S(2) by auto
      then have "unat (ht_elems t - 1) = unat (ht_elems t) - 1" by (rule unat_minus_one)
      then show ?thesis using S(1,2) found(6) by simp
    qed
    have chains': "distinct (ht_list ?t ! c) \<and> set (ht_list ?t ! c) = {e \<in> ?S. bucket_of (lh_hash (h e)) (2 ^ k) = c}" if c: "c < 2 ^ k" for c
    proof (cases "c = b")
      case True
      have "?chain = take i ?chain @ old # drop (Suc i) ?chain" using found(4,5) id_take_nth_drop by blast
      moreover have "distinct ?chain" using chains [OF c] True by simp
      ultimately have "distinct (take i ?chain @ old # drop (Suc i) ?chain)" "set ?chain = set (take i ?chain @ old # drop (Suc i) ?chain)"
        by simp_all
      then have "distinct (take i ?chain @ drop (Suc i) ?chain) \<and> set (take i ?chain @ drop (Suc i) ?chain) = set ?chain - {old}" by auto
      then show ?thesis using True found(3) chains [OF c] by auto
    next
      case False
      moreover have "bucket_of (lh_hash (h old)) (2 ^ k) = b" using found(6-8) S(5) k(3) by simp
      ultimately show ?thesis using chains [OF c] by auto
    qed
    have card: "card ?S \<le> 2 ^ k" using S(1,3) card_Diff1_le [of S old] by linarith
    have inj: "inj_on (\<lambda>e. lh_key (h e)) ?S" using S(4) by (rule inj_on_diff)
    have hash: "\<forall>e \<in> ?S. lh_hash (h e) = H (lh_key (h e))" using S(5) by simp
    have "table_ok H h ?S ?t"
      by (rule table_okI [OF k(1,2) _ _ _ _ _ inj hash chains']) (simp_all add: k(3,4) S(1) elems card del: card_Diff_insert card_Diff_singleton)
    then show ?thesis using ins key by auto
  next
    case (missing b)
    then have "HandleTable_Remove h key (H key) t = (None, t)" by (simp add: HandleTable_Remove_def)
    then show ?thesis using t missing(5) by (auto simp: with_key_def)
  qed
qed

subsection \<open>Lists and references\<close>

definition cached :: "'v lru_cache \<Rightarrow> handle_ptr set" where
  "cached c = set (lc_lru c) \<union> set (lc_in_use c)"

text \<open>The two lists and the counts of references, when the clients hold a multiset of handles.\<close>

definition lists_ok :: "(bytes \<Rightarrow> u32) \<Rightarrow> 'v lru_cache \<Rightarrow> handle_ptr multiset \<Rightarrow> bool" where
  "lists_ok H c held \<longleftrightarrow>
     distinct (lc_lru c @ lc_in_use c) \<and>
     (\<forall>e \<in> cached c \<union> set_mset held. e < hs_fresh c) \<and>
     (\<forall>e < hs_fresh c. (lh_in_cache (hs_handle c e) \<longleftrightarrow> e \<in> cached c) \<and>
        unat (lh_refs (hs_handle c e)) = count held e + of_bool (e \<in> cached c) \<and>
        lh_hash (hs_handle c e) = H (lh_key (hs_handle c e))) \<and>
     (\<forall>e \<in> cached c. e \<in> set (lc_in_use c) \<longleftrightarrow> e \<in># held) \<and>
     distinct (hs_deleted c) \<and> set (hs_deleted c) = {e. e < hs_fresh c \<and> e \<notin> cached c \<and> e \<notin># held} \<and>
     lc_usage c = (\<Sum>e \<in> cached c. lh_charge (hs_handle c e))"

text \<open>What no operation changes: the entries themselves, and here also the table.\<close>

definition same_entries :: "'v lru_cache \<Rightarrow> 'v lru_cache \<Rightarrow> bool" where
  "same_entries c c' \<longleftrightarrow> lc_capacity c' = lc_capacity c \<and>
     (\<forall>e < hs_fresh c. lh_key (hs_handle c' e) = lh_key (hs_handle c e) \<and> lh_hash (hs_handle c' e) = lh_hash (hs_handle c e) \<and>
        lh_value (hs_handle c' e) = lh_value (hs_handle c e) \<and> lh_charge (hs_handle c' e) = lh_charge (hs_handle c e))"

definition frame :: "'v lru_cache \<Rightarrow> 'v lru_cache \<Rightarrow> bool" where
  "frame c c' \<longleftrightarrow> same_entries c c' \<and> hs_fresh c' = hs_fresh c \<and> lc_table c' = lc_table c"

lemma frame_trans: "frame a b \<Longrightarrow> frame b c \<Longrightarrow> frame a c"
  by (simp add: frame_def same_entries_def)

lemma same_entries_trans: "same_entries a b \<Longrightarrow> same_entries b c \<Longrightarrow> hs_fresh a \<le> hs_fresh b \<Longrightarrow> same_entries a c"
  by (simp add: same_entries_def)

lemma finite_cached [simp]: "finite (cached c)"
  by (simp add: cached_def)

lemma lists_okD:
  assumes "lists_ok H c held"
  shows "distinct (lc_lru c)" "distinct (lc_in_use c)" "set (lc_lru c) \<inter> set (lc_in_use c) = {}"
    and "\<And>e. e \<in> cached c \<Longrightarrow> e < hs_fresh c" and "\<And>e. e \<in># held \<Longrightarrow> e < hs_fresh c"
    and "\<And>e. e < hs_fresh c \<Longrightarrow> lh_in_cache (hs_handle c e) \<longleftrightarrow> e \<in> cached c"
    and "\<And>e. e < hs_fresh c \<Longrightarrow> unat (lh_refs (hs_handle c e)) = count held e + of_bool (e \<in> cached c)"
    and "\<And>e. e < hs_fresh c \<Longrightarrow> lh_hash (hs_handle c e) = H (lh_key (hs_handle c e))"
    and "\<And>e. e \<in> cached c \<Longrightarrow> e \<in> set (lc_in_use c) \<longleftrightarrow> e \<in># held"
    and "distinct (hs_deleted c)" "set (hs_deleted c) = {e. e < hs_fresh c \<and> e \<notin> cached c \<and> e \<notin># held}"
    and "lc_usage c = (\<Sum>e \<in> cached c. lh_charge (hs_handle c e))"
  using assms by (simp_all add: lists_ok_def)

text \<open>Giving up a reference of a client.\<close>

lemma unat_pred: "unat (w :: u32) = Suc n \<Longrightarrow> unat (w - 1) = n"
  using unat_minus_one [of w] by fastforce

lemma Unref_cases:
  "LRUCache_Unref e c =
     (let c' = set_handle e (\<lambda>h. h\<lparr>lh_refs := lh_refs h - 1\<rparr>) c; refs = lh_refs (hs_handle c e) - 1
      in if refs = 0 then c'\<lparr>hs_deleted := hs_deleted c @ [e]\<rparr>
         else if lh_in_cache (hs_handle c e) \<and> refs = 1 then LRU_Append_lru e (LRU_Remove e c') else c')"
  by (simp add: LRUCache_Unref_def Let_def set_handle_def)

lemma Unref_ok:
  assumes ok: "lists_ok H c (add_mset e held)"
  shows "lists_ok H (LRUCache_Unref e c) held" and "cached (LRUCache_Unref e c) = cached c" and "frame c (LRUCache_Unref e c)"
    and "e \<notin> cached c \<Longrightarrow> lc_lru (LRUCache_Unref e c) = lc_lru c \<and> lc_in_use (LRUCache_Unref e c) = lc_in_use c"
proof -
  note D = lists_okD [OF ok]
  let ?h = "hs_handle c e" and ?c = "set_handle e (\<lambda>h. h\<lparr>lh_refs := lh_refs h - 1\<rparr>) c"
  have e: "e < hs_fresh c" using D(5) by simp
  have refs: "unat (lh_refs ?h - 1) = count held e + of_bool (e \<in> cached c)" using D(7) [OF e] by (intro unat_pred) simp
  have zero: "lh_refs ?h - 1 = 0 \<longleftrightarrow> e \<notin># held \<and> e \<notin> cached c" by (auto simp: word_unat_eq_iff refs not_in_iff)
  have one: "lh_refs ?h - 1 = 1 \<longleftrightarrow> count held e + of_bool (e \<in> cached c) = 1" by (simp add: word_unat_eq_iff refs)
  have in_cache: "lh_in_cache ?h \<longleftrightarrow> e \<in> cached c" by (rule D(6) [OF e])
  have in_use: "e \<in> cached c \<Longrightarrow> e \<in> set (lc_in_use c)" using D(9) by simp
  consider (freed) "e \<notin># held" "e \<notin> cached c" | (idle) "e \<notin># held" "e \<in> cached c" | (held) "e \<in># held" by blast
  then have "lists_ok H (LRUCache_Unref e c) held \<and> cached (LRUCache_Unref e c) = cached c \<and> frame c (LRUCache_Unref e c) \<and>
    (e \<notin> cached c \<longrightarrow> lc_lru (LRUCache_Unref e c) = lc_lru c \<and> lc_in_use (LRUCache_Unref e c) = lc_in_use c)"
  proof cases
    case freed
    then have eq: "LRUCache_Unref e c = ?c\<lparr>hs_deleted := hs_deleted c @ [e]\<rparr>" using zero by (simp add: LRUCache_Unref_def set_handle_def)
    have same: "cached (LRUCache_Unref e c) = cached c" by (simp add: eq cached_def set_handle_def)
    have "e \<notin> set (hs_deleted c)" using D(11) by simp
    moreover have "set (hs_deleted c @ [e]) = {d. d < hs_fresh c \<and> d \<notin> cached c \<and> d \<notin># held}" using D(11) freed e by auto
    ultimately show ?thesis using D refs freed same unfolding lists_ok_def same
      by (auto simp: eq set_handle_def frame_def same_entries_def intro: sum.cong)
  next
    case idle
    then have eq: "LRUCache_Unref e c = LRU_Append_lru e (LRU_Remove e ?c)"
      using zero one in_cache by (simp add: LRUCache_Unref_def set_handle_def not_in_iff)
    have lists: "lc_lru (LRUCache_Unref e c) = lc_lru c @ [e]" "lc_in_use (LRUCache_Unref e c) = remove1 e (lc_in_use c)"
      using remove1_idem [of e "lc_lru c"] D(3) in_use [OF idle(2)]
      by (auto simp: eq LRU_Append_lru_def LRU_Remove_def set_handle_def)
    then have same: "cached (LRUCache_Unref e c) = cached c" using D(2) in_use [OF idle(2)] by (auto simp: cached_def)
    have "set (remove1 e (lc_in_use c)) = set (lc_in_use c) - {e}" using D(2) by simp
    then have iff: "\<forall>d \<in> cached c. d \<in> set (remove1 e (lc_in_use c)) \<longleftrightarrow> d \<in># held" using D(9) idle(1) by auto
    have dist: "distinct ((lc_lru c @ [e]) @ remove1 e (lc_in_use c))"
      using D(1-3) in_use [OF idle(2)] by auto
    show ?thesis using D(4-8,10-12) refs idle same unfolding lists_ok_def same lists
      by (intro conjI iff dist) (auto simp: eq LRU_Append_lru_def LRU_Remove_def set_handle_def frame_def same_entries_def intro: sum.cong)
  next
    case held
    then have "\<not> lh_refs ?h - 1 = 0" "\<not> (lh_in_cache ?h \<and> lh_refs ?h - 1 = 1)"
      using one in_cache unfolding zero by (auto simp: not_in_iff)
    then have eq: "LRUCache_Unref e c = ?c" by (simp only: Unref_cases Let_def if_False)
    have same: "cached (LRUCache_Unref e c) = cached c" by (simp add: eq cached_def set_handle_def)
    have "set_mset (add_mset e held) = set_mset held" using held by auto
    then show ?thesis using D refs held same unfolding lists_ok_def same
      by (auto simp: eq set_handle_def frame_def same_entries_def intro: sum.cong)
  qed
  then show "lists_ok H (LRUCache_Unref e c) held" and "cached (LRUCache_Unref e c) = cached c" and "frame c (LRUCache_Unref e c)"
    and "e \<notin> cached c \<Longrightarrow> lc_lru (LRUCache_Unref e c) = lc_lru c \<and> lc_in_use (LRUCache_Unref e c) = lc_in_use c" by blast+
qed

text \<open>Taking one, of an entry in the cache.\<close>

lemma unat_succ: "unat (w :: u32) = n \<Longrightarrow> n + 1 < 2 ^ 32 \<Longrightarrow> unat (w + 1) = Suc n"
  by (simp add: unat_word_ariths)

lemma Ref_ok:
  assumes ok: "lists_ok H c held" and e: "e \<in> cached c" and size: "size held + 2 < 2 ^ 32"
  shows "lists_ok H (LRUCache_Ref e c) (add_mset e held)" and "cached (LRUCache_Ref e c) = cached c" and "frame c (LRUCache_Ref e c)"
proof -
  note D = lists_okD [OF ok]
  let ?h = "hs_handle c e" and ?f = "\<lambda>h. h\<lparr>lh_refs := lh_refs h + 1\<rparr>"
  have fresh: "e < hs_fresh c" using D(4) e by simp
  have refs: "unat (lh_refs ?h) = count held e + 1" using D(7) [OF fresh] e by simp
  have "count held e + 1 + 1 < 2 ^ 32" using size count_le_size [of held e] by linarith
  then have refs': "unat (lh_refs ?h + 1) = Suc (count held e + 1)" by (intro unat_succ refs)
  have one: "lh_refs ?h = 1 \<longleftrightarrow> e \<notin># held" by (auto simp: word_unat_eq_iff refs not_in_iff)
  have in_cache: "lh_in_cache ?h" using D(6) [OF fresh] e by simp
  have "lists_ok H (LRUCache_Ref e c) (add_mset e held) \<and> cached (LRUCache_Ref e c) = cached c \<and> frame c (LRUCache_Ref e c)"
  proof (cases "e \<in># held")
    case True
    then have eq: "LRUCache_Ref e c = set_handle e ?f c" using one by (simp add: LRUCache_Ref_def)
    have same: "cached (LRUCache_Ref e c) = cached c" by (simp add: eq cached_def set_handle_def)
    have "set_mset (add_mset e held) = set_mset held" using True by auto
    then show ?thesis using D refs' True e same unfolding lists_ok_def same
      by (auto simp: eq set_handle_def frame_def same_entries_def intro: sum.cong)
  next
    case False
    then have idle: "e \<in> set (lc_lru c)" "e \<notin> set (lc_in_use c)" using D(9) [OF e] e by (auto simp: cached_def)
    from False have eq: "LRUCache_Ref e c = set_handle e ?f (LRU_Append_in_use e (LRU_Remove e c))"
      using one in_cache by (simp add: LRUCache_Ref_def)
    have lists: "lc_lru (LRUCache_Ref e c) = remove1 e (lc_lru c)" "lc_in_use (LRUCache_Ref e c) = lc_in_use c @ [e]"
      using remove1_idem [OF idle(2)] by (simp_all add: eq LRU_Append_in_use_def LRU_Remove_def set_handle_def)
    then have same: "cached (LRUCache_Ref e c) = cached c" using D(1) idle(1) by (auto simp: cached_def)
    have iff: "\<forall>d \<in> cached c. d \<in> set (lc_in_use c @ [e]) \<longleftrightarrow> d \<in># add_mset e held" using D(9) by auto
    have dist: "distinct (remove1 e (lc_lru c) @ lc_in_use c @ [e])" using D(1-3) idle by auto
    show ?thesis using D(4-8,10-12) refs' False e same unfolding lists_ok_def same lists
      by (intro conjI iff dist) (auto simp: eq LRU_Append_in_use_def LRU_Remove_def set_handle_def frame_def same_entries_def intro: sum.cong)
  qed
  then show "lists_ok H (LRUCache_Ref e c) (add_mset e held)" and "cached (LRUCache_Ref e c) = cached c" and "frame c (LRUCache_Ref e c)"
    by blast+
qed

text \<open>Removal from the cache: its reference is given up like that of a client.\<close>

lemma FinishErase_ok:
  assumes ok: "lists_ok H c held" and e: "e \<in> cached c"
  shows "lists_ok H (snd (FinishErase (Some e) c)) held" and "cached (snd (FinishErase (Some e) c)) = cached c - {e}"
    and "frame c (snd (FinishErase (Some e) c))"
    and "lc_lru (snd (FinishErase (Some e) c)) = remove1 e (lc_lru c)"
    and "lc_in_use (snd (FinishErase (Some e) c)) = remove1 e (lc_in_use c)"
    and "lc_usage (snd (FinishErase (Some e) c)) = lc_usage c - lh_charge (hs_handle c e)"
proof -
  note D = lists_okD [OF ok]
  let ?c = "set_handle e (\<lambda>h. h\<lparr>lh_in_cache := False\<rparr>) (LRU_Remove e c)"
  let ?d = "?c\<lparr>lc_usage := lc_usage c - lh_charge (hs_handle c e)\<rparr>"
  have eq: "snd (FinishErase (Some e) c) = LRUCache_Unref e ?d" by (simp add: FinishErase_def Let_def set_handle_def LRU_Remove_def)
  have fresh: "e < hs_fresh c" using D(4) e by simp
  have sets: "set (remove1 e (lc_lru c)) = set (lc_lru c) - {e}" "set (remove1 e (lc_in_use c)) = set (lc_in_use c) - {e}"
    using D(1,2) by simp_all
  have cached: "cached ?d = cached c - {e}" using sets by (auto simp: cached_def set_handle_def LRU_Remove_def)
  have sum: "lc_usage c - lh_charge (hs_handle c e) = (\<Sum>d \<in> cached c - {e}. lh_charge (hs_handle c d))"
    using D(12) e by (simp add: sum.remove [OF finite_cached e])
  have "lists_ok H ?d (add_mset e held)"
    unfolding lists_ok_def cached using D sets sum e fresh
    by (auto simp: set_handle_def LRU_Remove_def intro: sum.cong)
  from Unref_ok [OF this] cached have all: "lists_ok H (LRUCache_Unref e ?d) held" "cached (LRUCache_Unref e ?d) = cached c - {e}"
      "frame ?d (LRUCache_Unref e ?d)" "lc_lru (LRUCache_Unref e ?d) = lc_lru ?d" "lc_in_use (LRUCache_Unref e ?d) = lc_in_use ?d" by simp_all
  moreover have "frame c ?d" by (simp add: frame_def same_entries_def set_handle_def LRU_Remove_def)
  moreover have "lc_usage (LRUCache_Unref e ?d) = lc_usage ?d"
    by (simp add: LRUCache_Unref_def Let_def set_handle_def LRU_Append_lru_def LRU_Remove_def)
  ultimately show "lists_ok H (snd (FinishErase (Some e) c)) held" and "cached (snd (FinishErase (Some e) c)) = cached c - {e}"
    and "frame c (snd (FinishErase (Some e) c))" and "lc_lru (snd (FinishErase (Some e) c)) = remove1 e (lc_lru c)"
    and "lc_in_use (snd (FinishErase (Some e) c)) = remove1 e (lc_in_use c)"
    and "lc_usage (snd (FinishErase (Some e) c)) = lc_usage c - lh_charge (hs_handle c e)"
    unfolding eq by (auto intro: frame_trans simp: set_handle_def LRU_Remove_def)
qed

subsection \<open>The operations\<close>

definition cache_ok :: "(bytes \<Rightarrow> u32) \<Rightarrow> 'v lru_cache \<Rightarrow> handle_ptr multiset \<Rightarrow> bool" where
  "cache_ok H c held \<longleftrightarrow> lists_ok H c held \<and> table_ok H (hs_handle c) (cached c) (lc_table c)"

abbreviation key_of :: "'v lru_cache \<Rightarrow> handle_ptr \<Rightarrow> bytes" where
  "key_of c e \<equiv> lh_key (hs_handle c e)"

lemma table_frame:
  assumes "frame c c'" and "table_ok H (hs_handle c) S t" and "\<And>e. e \<in> S \<Longrightarrow> e < hs_fresh c"
  shows "table_ok H (hs_handle c') S t"
  using assms by (subst table_ok_cong [where h = "hs_handle c"]) (auto simp: frame_def same_entries_def)

lemma filter_with_key:
  assumes "with_key h (cached c) key (Some e)" and "distinct xs" and "set xs \<subseteq> cached c"
  shows "filter (\<lambda>d. lh_key (h d) \<noteq> key) xs = remove1 e xs"
proof -
  have "lh_key (h d) \<noteq> key \<longleftrightarrow> d \<noteq> e" if "d \<in> set xs" for d using assms(1,3) that by (auto simp: with_key_def)
  then have "filter (\<lambda>d. lh_key (h d) \<noteq> key) xs = filter (\<lambda>d. d \<noteq> e) xs" by (rule filter_cong [OF refl])
  then show ?thesis using assms(2) by (simp add: distinct_remove1_removeAll removeAll_filter_not_eq neq_commute)
qed

lemma filter_without_key:
  assumes "with_key h (cached c) key None" and "set xs \<subseteq> cached c"
  shows "filter (\<lambda>d. lh_key (h d) \<noteq> key) xs = xs"
  using assms by (auto simp: with_key_def filter_id_conv)

lemma erase_ok:
  assumes l: "lists_ok H c held" and t: "table_ok H (hs_handle c) (cached c - set_option r) (lc_table c)"
    and r: "\<And>e. r = Some e \<Longrightarrow> e \<in> cached c"
  shows "cache_ok H (snd (FinishErase r c)) held" and "cached (snd (FinishErase r c)) = cached c - set_option r"
    and "same_entries c (snd (FinishErase r c))" and "hs_fresh (snd (FinishErase r c)) = hs_fresh c"
proof -
  have "cache_ok H (snd (FinishErase r c)) held \<and> cached (snd (FinishErase r c)) = cached c - set_option r \<and> frame c (snd (FinishErase r c))"
  proof (cases r)
    case None
    then show ?thesis using l t by (simp add: FinishErase_def cache_ok_def frame_def same_entries_def)
  next
    case (Some e)
    note F = FinishErase_ok [OF l r [OF Some]]
    have "table_ok H (hs_handle (snd (FinishErase r c))) (cached c - {e}) (lc_table c)"
      using table_frame [OF F(3), of H "cached c - {e}"] t lists_okD(4) [OF l] unfolding Some by simp
    then show ?thesis using F Some by (simp add: cache_ok_def frame_def)
  qed
  then show "cache_ok H (snd (FinishErase r c)) held" and "cached (snd (FinishErase r c)) = cached c - set_option r"
    and "same_entries c (snd (FinishErase r c))" and "hs_fresh (snd (FinishErase r c)) = hs_fresh c" by (simp_all add: frame_def)
qed

lemma erase_lists:
  assumes l: "lists_ok H c held" and r: "with_key (hs_handle c) (cached c) key r"
  shows "lc_lru (snd (FinishErase r c)) = filter (\<lambda>e. key_of c e \<noteq> key) (lc_lru c)"
    and "lc_in_use (snd (FinishErase r c)) = filter (\<lambda>e. key_of c e \<noteq> key) (lc_in_use c)"
proof -
  have sub: "set (lc_lru c) \<subseteq> cached c" "set (lc_in_use c) \<subseteq> cached c" by (auto simp: cached_def)
  have "lc_lru (snd (FinishErase r c)) = filter (\<lambda>e. key_of c e \<noteq> key) (lc_lru c) \<and>
      lc_in_use (snd (FinishErase r c)) = filter (\<lambda>e. key_of c e \<noteq> key) (lc_in_use c)"
  proof (cases r)
    case None
    note w = r [unfolded None]
    show ?thesis using filter_without_key [OF w sub(1)] filter_without_key [OF w sub(2)] None by (simp add: FinishErase_def)
  next
    case (Some e)
    then have "e \<in> cached c" using r by (simp add: with_key_cases)
    note F = FinishErase_ok [OF l this]
    note w = r [unfolded Some]
    show ?thesis using F(4,5) filter_with_key [OF w lists_okD(1) [OF l] sub(1)] filter_with_key [OF w lists_okD(2) [OF l] sub(2)] Some
      by simp
  qed
  then show "lc_lru (snd (FinishErase r c)) = filter (\<lambda>e. key_of c e \<noteq> key) (lc_lru c)"
    and "lc_in_use (snd (FinishErase r c)) = filter (\<lambda>e. key_of c e \<noteq> key) (lc_in_use c)" by blast+
qed

lemma lists_ok_table [simp]: "lists_ok H (c\<lparr>lc_table := t\<rparr>) held = lists_ok H c held"
  by (simp add: lists_ok_def cached_def)

lemma cached_table [simp]: "cached (c\<lparr>lc_table := t\<rparr>) = cached c"
  by (simp add: cached_def)

lemma same_entries_table [simp]: "same_entries (c\<lparr>lc_table := t\<rparr>) c' = same_entries c c'"
  by (simp add: same_entries_def)

lemma remove_key_ok:
  assumes ok: "cache_ok H c held"
  shows "cache_ok H (snd (remove_key key (H key) c)) held"
    and "cached (snd (remove_key key (H key) c)) = {e \<in> cached c. key_of c e \<noteq> key}"
    and "same_entries c (snd (remove_key key (H key) c))" and "hs_fresh (snd (remove_key key (H key) c)) = hs_fresh c"
    and "lc_lru (snd (remove_key key (H key) c)) = filter (\<lambda>e. key_of c e \<noteq> key) (lc_lru c)"
    and "lc_in_use (snd (remove_key key (H key) c)) = filter (\<lambda>e. key_of c e \<noteq> key) (lc_in_use c)"
proof -
  have l: "lists_ok H c held" and t: "table_ok H (hs_handle c) (cached c) (lc_table c)" using ok by (simp_all add: cache_ok_def)
  obtain r t' where r: "HandleTable_Remove (hs_handle c) key (H key) (lc_table c) = (r, t')"
      "with_key (hs_handle c) (cached c) key r" "table_ok H (hs_handle c) (cached c - set_option r) t'"
    using HandleTable_Remove_ok [OF t] by blast
  let ?c = "c\<lparr>lc_table := t'\<rparr>"
  have eq: "remove_key key (H key) c = FinishErase r ?c" using r(1) by (simp add: remove_key_def)
  have l': "lists_ok H ?c held" and t'': "table_ok H (hs_handle ?c) (cached ?c - set_option r) (lc_table ?c)" using l r(3) by simp_all
  have mem: "\<And>e. r = Some e \<Longrightarrow> e \<in> cached ?c" using r(2) unfolding with_key_def cached_table by blast
  have "cached c - set_option r = {e \<in> cached c. key_of c e \<noteq> key}" using r(2) by (cases r) (auto simp: with_key_cases)
  with erase_ok [OF l' t'' mem] erase_lists [OF l'] r(2)
  show "cache_ok H (snd (remove_key key (H key) c)) held"
    and "cached (snd (remove_key key (H key) c)) = {e \<in> cached c. key_of c e \<noteq> key}"
    and "same_entries c (snd (remove_key key (H key) c))" and "hs_fresh (snd (remove_key key (H key) c)) = hs_fresh c"
    and "lc_lru (snd (remove_key key (H key) c)) = filter (\<lambda>e. key_of c e \<noteq> key) (lc_lru c)"
    and "lc_in_use (snd (remove_key key (H key) c)) = filter (\<lambda>e. key_of c e \<noteq> key) (lc_in_use c)"
    unfolding eq by simp_all
qed

text \<open>Eviction of the oldest entries that no client uses.\<close>

lemma remove_oldest_ok:
  assumes ok: "cache_ok H c held" and lru: "lc_lru c = e # es"
  shows "cache_ok H (remove_oldest c) held" and "same_entries c (remove_oldest c)" and "hs_fresh (remove_oldest c) = hs_fresh c"
    and "lc_lru (remove_oldest c) = es" and "lc_in_use (remove_oldest c) = lc_in_use c"
    and "lc_usage (remove_oldest c) = lc_usage c - lh_charge (hs_handle c e)"
proof -
  have l: "lists_ok H c held" and t: "table_ok H (hs_handle c) (cached c) (lc_table c)" using ok by (simp_all add: cache_ok_def)
  have e: "e \<in> cached c" and "e < hs_fresh c" using lru lists_okD(4) [OF l] by (auto simp: cached_def)
  then have "lh_hash (hs_handle c e) = H (key_of c e)" using lists_okD(8) [OF l] by simp
  then have eq: "remove_oldest c = snd (remove_key (key_of c e) (H (key_of c e)) c)" by (simp add: remove_oldest_def lru Let_def)
  note R = remove_key_ok [OF ok, of "key_of c e", folded eq]
  have inj: "d = e" if "d \<in> cached c" "key_of c d = key_of c e" for d
    using t that e by (elim table_okE) (auto dest: inj_onD)
  then have other: "key_of c d \<noteq> key_of c e \<longleftrightarrow> d \<noteq> e" if "d \<in> cached c" for d using that by auto
  have disj: "e \<notin> set es" "e \<notin> set (lc_in_use c)" using lists_okD(1,3) [OF l] lru by auto
  have keep: "filter (\<lambda>d. key_of c d \<noteq> key_of c e) xs = xs" if "set xs \<subseteq> cached c" "e \<notin> set xs" for xs
    using that other by (metis (mono_tags, lifting) filter_True subsetD)
  have "lc_lru (remove_oldest c) = es" using R(5) keep [of es] disj(1) lru by (auto simp: cached_def)
  moreover have "lc_in_use (remove_oldest c) = lc_in_use c" using R(6) keep [of "lc_in_use c"] disj(2) by (simp add: cached_def)
  moreover have "lc_usage (remove_oldest c) = lc_usage c - lh_charge (hs_handle c e)"
  proof -
    have "cached (remove_oldest c) = cached c - {e}" using R(2) other e by auto
    moreover have "(\<Sum>d \<in> cached c - {e}. lh_charge (hs_handle (remove_oldest c) d)) = (\<Sum>d \<in> cached c - {e}. lh_charge (hs_handle c d))"
      using R(3) lists_okD(4) [OF l] by (intro sum.cong) (auto simp: same_entries_def)
    ultimately have "lc_usage (remove_oldest c) = (\<Sum>d \<in> cached c - {e}. lh_charge (hs_handle c d))"
      using R(1) lists_okD(12) by (metis cache_ok_def)
    then show ?thesis using lists_okD(12) [OF l] sum.remove [OF finite_cached e, of "\<lambda>d. lh_charge (hs_handle c d)"] by simp
  qed
  ultimately show "cache_ok H (remove_oldest c) held" and "same_entries c (remove_oldest c)" and "hs_fresh (remove_oldest c) = hs_fresh c"
    and "lc_lru (remove_oldest c) = es" and "lc_in_use (remove_oldest c) = lc_in_use c"
    and "lc_usage (remove_oldest c) = lc_usage c - lh_charge (hs_handle c e)" using R(1,3,4) by blast+
qed

text \<open>The charge of a list of entries.\<close>

abbreviation charges :: "'v lru_cache \<Rightarrow> handle_ptr list \<Rightarrow> u64" where
  "charges c es \<equiv> sum_list (map (\<lambda>e. lh_charge (hs_handle c e)) es)"

lemma evict_ok:
  assumes "cache_ok H c held"
  shows "\<exists>n c'. evict c = Some c' \<and> cache_ok H c' held \<and> same_entries c c' \<and> hs_fresh c' = hs_fresh c \<and>
    n \<le> length (lc_lru c) \<and> lc_lru c' = drop n (lc_lru c) \<and> lc_in_use c' = lc_in_use c \<and>
    (lc_usage c' \<le> lc_capacity c \<or> lc_lru c' = []) \<and> lc_usage c' = lc_usage c - charges c (take n (lc_lru c)) \<and>
    (\<forall>m < n. lc_capacity c < lc_usage c - charges c (take m (lc_lru c)))"
  using assms
proof (induction "lc_lru c" arbitrary: c)
  case Nil
  then have "evict c = Some c" by (subst evict.simps) simp
  then show ?case using Nil by (intro exI [of _ 0] exI [of _ c]) (simp add: same_entries_def)
next
  case (Cons e es)
  note lru = Cons.hyps(2) [symmetric]
  note R = remove_oldest_ok [OF Cons.prems lru]
  show ?case
  proof (cases "lc_usage c > lc_capacity c")
    case False
    then have "evict c = Some c" by (subst evict.simps) simp
    then show ?thesis using Cons.prems False by (intro exI [of _ 0] exI [of _ c]) (simp add: same_entries_def not_less)
  next
    case True
    then have eq: "evict c = evict (remove_oldest c)" using lru by (subst evict.simps) simp
    have cap: "lc_capacity (remove_oldest c) = lc_capacity c" using R(2) by (simp add: same_entries_def)
    obtain n c' where IH: "evict (remove_oldest c) = Some c'" "cache_ok H c' held" "same_entries (remove_oldest c) c'"
        "hs_fresh c' = hs_fresh c" "n \<le> length es" "lc_lru c' = drop n es" "lc_in_use c' = lc_in_use c"
        "lc_usage c' \<le> lc_capacity c \<or> lc_lru c' = []"
        "lc_usage c' = lc_usage c - lh_charge (hs_handle c e) - charges (remove_oldest c) (take n es)"
        "\<forall>m < n. lc_capacity c < lc_usage c - lh_charge (hs_handle c e) - charges (remove_oldest c) (take m es)"
      using Cons.hyps(1) [OF R(4) [symmetric] R(1), unfolded R(3-6) cap] by blast
    have "\<forall>d \<in> set es. d < hs_fresh c" using Cons.prems lru lists_okD(4) by (fastforce simp: cache_ok_def cached_def)
    then have charges: "charges (remove_oldest c) (take m es) = charges c (take m es)" for m
      using R(2) in_set_takeD [of _ m es] by (intro arg_cong [where f = sum_list] map_cong refl) (auto simp: same_entries_def)
    have "lc_capacity c < lc_usage c - charges c (take m (lc_lru c))" if "m < Suc n" for m
      using IH(10) that True lru charges by (cases m) (simp_all add: diff_diff_eq)
    moreover have "lc_usage c' = lc_usage c - charges c (take (Suc n) (lc_lru c))" using IH(9) lru charges by (simp add: diff_diff_eq)
    moreover have "same_entries c c'" using same_entries_trans [OF R(2) IH(3)] R(3) by simp
    ultimately show ?thesis using eq IH(1-8) lru by (intro exI [of _ "Suc n"] exI [of _ c']) simp
  qed
qed

lemma Prune_ok:
  assumes "cache_ok H c held"
  shows "\<exists>c'. LRUCache_Prune c = Some c' \<and> cache_ok H c' held \<and> same_entries c c' \<and> hs_fresh c' = hs_fresh c \<and>
    lc_lru c' = [] \<and> lc_in_use c' = lc_in_use c"
  using assms
proof (induction "lc_lru c" arbitrary: c)
  case Nil
  then show ?case by (subst LRUCache_Prune.simps) (simp add: same_entries_def)
next
  case (Cons e es)
  note lru = Cons.hyps(2) [symmetric]
  note R = remove_oldest_ok [OF Cons.prems lru]
  have eq: "LRUCache_Prune c = LRUCache_Prune (remove_oldest c)" using lru by (subst LRUCache_Prune.simps) simp
  obtain c' where IH: "LRUCache_Prune (remove_oldest c) = Some c'" "cache_ok H c' held" "same_entries (remove_oldest c) c'"
      "hs_fresh c' = hs_fresh c" "lc_lru c' = []" "lc_in_use c' = lc_in_use c"
    using Cons.hyps(1) [OF R(4) [symmetric] R(1), unfolded R(3-5)] by blast
  moreover have "same_entries c c'" using same_entries_trans [OF R(2) IH(3)] R(3) by simp
  ultimately show ?case unfolding eq by blast
qed

text \<open>Insertion.\<close>

lemma new_handle_ok:
  assumes ok: "cache_ok H c held" and h: "lh_in_cache h = False" "lh_refs h = 1" "lh_hash h = H (lh_key h)"
  defines "c1 \<equiv> snd (new_handle h c)"
  shows "cache_ok H c1 (add_mset (hs_fresh c) held)" and "cached c1 = cached c" and "same_entries c c1" and "hs_fresh c1 = Suc (hs_fresh c)"
    and "hs_handle c1 (hs_fresh c) = h" and "hs_fresh c \<notin> cached c" and "count held (hs_fresh c) = 0"
    and "lc_lru c1 = lc_lru c" and "lc_in_use c1 = lc_in_use c" and "lc_table c1 = lc_table c"
proof -
  let ?e = "hs_fresh c"
  have l: "lists_ok H c held" and t: "table_ok H (hs_handle c) (cached c) (lc_table c)" using ok by (simp_all add: cache_ok_def)
  note D = lists_okD [OF l]
  have c1: "c1 = c\<lparr>hs_handle := (hs_handle c)(?e := h), hs_fresh := Suc ?e\<rparr>" by (simp add: c1_def new_handle_def)
  have e: "?e \<notin> cached c" "?e \<notin># held" using D(4,5) by blast+
  have same: "cached c1 = cached c" by (simp add: c1 cached_def)
  have "table_ok H (hs_handle c1) (cached c) (lc_table c)"
    using t e(1) by (subst table_ok_cong [where h = "hs_handle c"]) (auto simp: c1)
  moreover have "lists_ok H c1 (add_mset ?e held)"
  proof -
    have "\<forall>d \<in> cached c. d \<in> set (lc_in_use c) \<longleftrightarrow> d \<in># add_mset ?e held" using D(9) e by auto
    moreover have "set (hs_deleted c) = {d. d < Suc ?e \<and> d \<notin> cached c \<and> d \<notin># add_mset ?e held}"
      using D(11) by (auto simp: less_Suc_eq)
    moreover have "(\<Sum>d \<in> cached c. lh_charge (((hs_handle c)(?e := h)) d)) = lc_usage c"
      unfolding D(12) using e(1) by (intro sum.cong) auto
    moreover have "count held ?e = 0" using e(2) by (simp add: not_in_iff)
    ultimately show ?thesis using D(1-8,10) e h unfolding lists_ok_def same by (auto simp: c1 less_Suc_eq)
  qed
  ultimately show "cache_ok H c1 (add_mset ?e held)" and "cached c1 = cached c" and "same_entries c c1" and "hs_fresh c1 = Suc ?e"
    and "hs_handle c1 ?e = h" and "?e \<notin> cached c" and "count held ?e = 0"
    and "lc_lru c1 = lc_lru c" and "lc_in_use c1 = lc_in_use c" and "lc_table c1 = lc_table c"
    using same e by (simp_all add: cache_ok_def c1 same_entries_def not_in_iff)
qed

text \<open>The new handle put in the cache, beside the entry it replaces.\<close>

lemma adopt_ok:
  assumes l: "lists_ok H c held" and e: "e \<in># held" "e \<notin> cached c" and size: "size held + 1 < 2 ^ 32"
    and charge: "charge = lh_charge (hs_handle c e)"
  shows "lists_ok H (adopt e charge c) held" and "cached (adopt e charge c) = insert e (cached c)" and "frame c (adopt e charge c)"
    and "lc_lru (adopt e charge c) = lc_lru c" and "lc_in_use (adopt e charge c) = lc_in_use c @ [e]"
proof -
  note D = lists_okD [OF l]
  have fresh: "e < hs_fresh c" using D(5) e(1) by simp
  have lists: "lc_lru (adopt e charge c) = lc_lru c" "lc_in_use (adopt e charge c) = lc_in_use c @ [e]"
    by (simp_all add: adopt_def LRU_Append_in_use_def set_handle_def Let_def)
  have cached: "cached (adopt e charge c) = insert e (cached c)" using lists by (simp add: cached_def)
  have frame: "frame c (adopt e charge c)"
    by (simp add: frame_def same_entries_def adopt_def LRU_Append_in_use_def set_handle_def Let_def)
  have "count held e + 1 < 2 ^ 32" using size count_le_size [of held e] by linarith
  then have refs: "unat (lh_refs (hs_handle c e) + 1) = Suc (count held e)" using D(7) [OF fresh] e(2) by (intro unat_succ) simp_all
  have dist: "distinct (lc_lru c @ lc_in_use c @ [e])" using D(1-3) e(2) by (auto simp: cached_def)
  have iff: "\<forall>d \<in> insert e (cached c). d \<in> set (lc_in_use c @ [e]) \<longleftrightarrow> d \<in># held" using D(9) e(1) by auto
  have del: "set (hs_deleted c) = {d. d < hs_fresh c \<and> d \<notin> insert e (cached c) \<and> d \<notin># held}" using D(11) e by auto
  have "(\<Sum>d \<in> insert e (cached c). lh_charge (hs_handle c d)) = lc_usage c + charge"
    using e(2) by (simp add: D(12) charge)
  moreover have "(\<Sum>d \<in> insert e (cached c). lh_charge (hs_handle (adopt e charge c) d)) = (\<Sum>d \<in> insert e (cached c). lh_charge (hs_handle c d))"
    using frame fresh D(4) by (intro sum.cong) (auto simp: frame_def same_entries_def)
  ultimately have sum: "lc_usage (adopt e charge c) = (\<Sum>d \<in> insert e (cached c). lh_charge (hs_handle (adopt e charge c) d))"
    by (simp add: adopt_def LRU_Append_in_use_def set_handle_def Let_def)
  have handle: "hs_handle (adopt e charge c) = (hs_handle c)(e := hs_handle c e\<lparr>lh_refs := lh_refs (hs_handle c e) + 1, lh_in_cache := True\<rparr>)"
      "hs_fresh (adopt e charge c) = hs_fresh c" "hs_deleted (adopt e charge c) = hs_deleted c"
    by (simp_all add: adopt_def LRU_Append_in_use_def set_handle_def Let_def)
  have "\<forall>d < hs_fresh c. (lh_in_cache (hs_handle (adopt e charge c) d) \<longleftrightarrow> d \<in> insert e (cached c)) \<and>
      unat (lh_refs (hs_handle (adopt e charge c) d)) = count held d + of_bool (d \<in> insert e (cached c)) \<and>
      lh_hash (hs_handle (adopt e charge c) d) = H (lh_key (hs_handle (adopt e charge c) d))"
    using D(6-8) refs by (simp add: handle)
  moreover have "\<forall>d \<in> insert e (cached c) \<union> set_mset held. d < hs_fresh c" using D(4,5) fresh by auto
  ultimately have "lists_ok H (adopt e charge c) held"
    unfolding lists_ok_def cached lists handle(2,3) using dist iff del sum D(10) by (intro conjI)
  then show "lists_ok H (adopt e charge c) held" and "cached (adopt e charge c) = insert e (cached c)" and "frame c (adopt e charge c)"
    and "lc_lru (adopt e charge c) = lc_lru c" and "lc_in_use (adopt e charge c) = lc_in_use c @ [e]"
    using cached frame lists by simp_all
qed

lemma Insert_uncached:
  assumes "\<not> 0 < lc_capacity c"
  shows "LRUCache_Insert key hash v charge c =
    do { c' \<leftarrow> evict (snd (new_handle \<lparr>lh_value = v, lh_charge = charge, lh_in_cache = False, lh_refs = 1, lh_hash = hash, lh_key = key\<rparr> c));
         Some (hs_fresh c, c') }"
  using assms by (simp add: LRUCache_Insert_def new_handle_def)

lemma LRUCache_Insert_ok:
  assumes ok: "cache_ok H c held" and size: "size held + 2 < 2 ^ 32" and elems: "unat (ht_elems (lc_table c)) < 2 ^ 31"
  shows "\<exists>c' n. LRUCache_Insert key (H key) v charge c = Some (hs_fresh c, c') \<and> cache_ok H c' (add_mset (hs_fresh c) held) \<and>
    same_entries c c' \<and> hs_fresh c' = Suc (hs_fresh c) \<and> key_of c' (hs_fresh c) = key \<and> lh_value (hs_handle c' (hs_fresh c)) = v \<and>
    lh_charge (hs_handle c' (hs_fresh c)) = charge \<and>
    (0 < lc_capacity c \<longrightarrow>
      hs_fresh c \<in> cached c' \<and> lc_in_use c' = filter (\<lambda>e. key_of c e \<noteq> key) (lc_in_use c) @ [hs_fresh c] \<and>
      lc_lru c' = drop n (filter (\<lambda>e. key_of c e \<noteq> key) (lc_lru c)) \<and> (lc_usage c' \<le> lc_capacity c \<or> lc_lru c' = []) \<and>
      (\<forall>m < n. lc_capacity c < lc_usage c' + charges c (drop m (take n (filter (\<lambda>e. key_of c e \<noteq> key) (lc_lru c))))))"
proof -
  let ?e = "hs_fresh c"
  let ?h = "\<lparr>lh_value = v, lh_charge = charge, lh_in_cache = False, lh_refs = 1, lh_hash = H key, lh_key = key\<rparr>"
  obtain c1 where new: "new_handle ?h c = (?e, c1)" by (simp add: new_handle_def)
  have N: "cache_ok H c1 (add_mset ?e held)" "cached c1 = cached c" "same_entries c c1" "hs_fresh c1 = Suc ?e"
      "hs_handle c1 ?e = ?h" "?e \<notin> cached c" "count held ?e = 0" "lc_lru c1 = lc_lru c" "lc_in_use c1 = lc_in_use c" "lc_table c1 = lc_table c"
    using new_handle_ok [OF ok, of ?h] unfolding new by simp_all
  show ?thesis
  proof (cases "0 < lc_capacity c")
    case False
    obtain c' where E: "evict c1 = Some c'" "cache_ok H c' (add_mset ?e held)" "same_entries c1 c'" "hs_fresh c' = hs_fresh c1"
      using evict_ok [OF N(1)] by blast
    have "LRUCache_Insert key (H key) v charge c = Some (?e, c')" using Insert_uncached [OF False] new E(1) by simp
    moreover have "same_entries c c'" using same_entries_trans [OF N(3) E(3)] N(4) by simp
    ultimately show ?thesis using E N False by (intro exI [of _ c'] exI [of _ 0]) (simp add: same_entries_def)
  next
    case True
    let ?c2 = "adopt ?e charge c1"
    have l1: "lists_ok H c1 (add_mset ?e held)" and t1: "table_ok H (hs_handle c1) (cached c1) (lc_table c1)"
      using N(1) by (simp_all add: cache_ok_def)
    have A: "lists_ok H ?c2 (add_mset ?e held)" "cached ?c2 = insert ?e (cached c)" "frame c1 ?c2" "lc_lru ?c2 = lc_lru c" "lc_in_use ?c2 = lc_in_use c @ [?e]"
      using adopt_ok [OF l1, of ?e charge] N size by simp_all
    have key: "key_of ?c2 ?e = key" "lh_hash (hs_handle ?c2 ?e) = H key" "lh_charge (hs_handle ?c2 ?e) = charge" "lh_value (hs_handle ?c2 ?e) = v"
      using A(3) N(4,5) by (simp_all add: frame_def same_entries_def)
    have same: "key_of ?c2 d = key_of c d" "lh_charge (hs_handle ?c2 d) = lh_charge (hs_handle c d)" if "d \<in> cached c" for d
    proof -
      have "d < hs_fresh c" using ok that lists_okD(4) unfolding cache_ok_def by blast
      then show "key_of ?c2 d = key_of c d" "lh_charge (hs_handle ?c2 d) = lh_charge (hs_handle c d)"
        using A(3) N(3,4) by (simp_all add: frame_def same_entries_def)
    qed
    have t2: "table_ok H (hs_handle ?c2) (cached c) (lc_table ?c2)"
      using table_frame [OF A(3) t1 lists_okD(4) [OF l1]] N(2) A(3) by (simp add: frame_def)
    have "card (cached c) < 2 ^ 31" using elems ok by (auto simp: cache_ok_def table_ok_def)
    from HandleTable_Insert_ok [OF t2 N(6) _ this] key(1,2) obtain r t' where ins: "HandleTable_Insert (hs_handle ?c2) ?e (lc_table ?c2) = Some (r, t')"
        "with_key (hs_handle ?c2) (cached c) key r" "table_ok H (hs_handle ?c2) (insert ?e (cached c - set_option r)) t'" by auto
    let ?c3 = "?c2\<lparr>lc_table := t'\<rparr>"
    have r: "\<And>d. r = Some d \<Longrightarrow> d \<in> cached c \<and> d \<noteq> ?e \<and> key_of c d = key" using ins(2) N(6) same(1) by (auto simp: with_key_cases)
    have S: "insert ?e (cached c - set_option r) = cached ?c3 - set_option r" using A(2) r by (cases r) auto
    have l3: "lists_ok H ?c3 (add_mset ?e held)" using A(1) by simp
    have t3: "table_ok H (hs_handle ?c3) (cached ?c3 - set_option r) (lc_table ?c3)" using ins(3) unfolding S by simp
    note E = erase_ok [OF l3 t3]
    obtain c4 where c4: "snd (FinishErase r ?c3) = c4" by blast
    have "set_option r \<subseteq> cached ?c3" using r A(2) by (cases r) auto
    then have mem: "\<And>d. r = Some d \<Longrightarrow> d \<in> cached ?c3" by auto
    have ok4: "cache_ok H c4 (add_mset ?e held)" "cached c4 = insert ?e (cached c - set_option r)" "same_entries ?c2 c4" "hs_fresh c4 = Suc ?e"
      using E(1-4) [OF mem] A(3) N(4) unfolding c4 S by (simp_all add: frame_def)
    have sub: "set (lc_lru c) \<subseteq> cached c" "set (lc_in_use c) \<subseteq> cached c" by (auto simp: cached_def)
    have keys: "filter (\<lambda>d. key_of ?c2 d \<noteq> key) xs = filter (\<lambda>d. key_of c d \<noteq> key) xs" if "set xs \<subseteq> cached c" for xs
      using that same(1) by (intro filter_cong refl) auto
    have lists4: "lc_lru c4 = filter (\<lambda>d. key_of c d \<noteq> key) (lc_lru c) \<and> lc_in_use c4 = filter (\<lambda>d. key_of c d \<noteq> key) (lc_in_use c) @ [?e]"
    proof (cases r)
      case None
      note w = ins(2) [unfolded None]
      show ?thesis using filter_without_key [OF w sub(1)] filter_without_key [OF w sub(2)] A(4,5) keys [OF sub(1)] keys [OF sub(2)]
        unfolding c4 [symmetric] None by (simp add: FinishErase_def)
    next
      case (Some d)
      note w = ins(2) [unfolded Some] and F = FinishErase_ok [OF l3 mem [OF Some]] and D = lists_okD [OF ok [unfolded cache_ok_def, THEN conjunct1]]
      have "remove1 d (lc_in_use c @ [?e]) = remove1 d (lc_in_use c) @ [?e]"
        using r [OF Some] by (simp add: remove1_append remove1_idem)
      then show ?thesis using filter_with_key [OF w D(1) sub(1)] filter_with_key [OF w D(2) sub(2)] A(4,5) keys [OF sub(1)] keys [OF sub(2)] F(4,5)
        unfolding c4 [symmetric] Some by simp
    qed
    let ?L = "filter (\<lambda>d. key_of c d \<noteq> key) (lc_lru c)"
    have cap4: "lc_capacity c4 = lc_capacity c" using ok4(3) A(3) N(3) by (simp add: frame_def same_entries_def)
    obtain n c' where V: "evict c4 = Some c'" "cache_ok H c' (add_mset ?e held)" "same_entries c4 c'" "hs_fresh c' = Suc ?e"
        "lc_lru c' = drop n ?L" "lc_in_use c' = lc_in_use c4" "lc_usage c' \<le> lc_capacity c \<or> lc_lru c' = []"
        "lc_usage c' = lc_usage c4 - charges c4 (take n ?L)" "\<forall>m < n. lc_capacity c < lc_usage c4 - charges c4 (take m ?L)"
      using evict_ok [OF ok4(1), unfolded ok4(4) cap4 lists4 [THEN conjunct1]] by blast
    have "LRUCache_Insert key (H key) v charge c = Some (?e, c')"
      using True new ins(1) V(1) N(3) c4 by (simp add: LRUCache_Insert_def Let_def same_entries_def)
    moreover have "same_entries c c'"
    proof -
      have "same_entries c ?c2" using same_entries_trans [OF N(3)] A(3) N(4) by (simp add: frame_def)
      then have "same_entries c c4" using same_entries_trans [OF _ ok4(3)] A(3) N(4) by (simp add: frame_def)
      then show ?thesis using same_entries_trans [OF _ V(3)] ok4(4) by simp
    qed
    moreover have "key_of c' ?e = key" "lh_value (hs_handle c' ?e) = v" "lh_charge (hs_handle c' ?e) = charge"
      using key V(3) ok4(3,4) A(3) N(4) by (simp_all add: frame_def same_entries_def)
    moreover have "lc_capacity c < lc_usage c' + charges c (drop m (take n ?L))" if "m < n" for m
    proof -
      have "charges c4 xs = charges c xs" if "set xs \<subseteq> set (lc_lru c)" for xs
      proof (intro arg_cong [where f = sum_list] map_cong refl)
        fix d
        assume "d \<in> set xs"
        then have d: "d \<in> cached c" using that sub(1) by auto
        then have "d < hs_fresh c" using ok lists_okD(4) unfolding cache_ok_def by blast
        then show "lh_charge (hs_handle c4 d) = lh_charge (hs_handle c d)"
          using same(2) [OF d] ok4(3) A(3) N(4) by (simp add: frame_def same_entries_def)
      qed
      moreover have "set (take n ?L) \<subseteq> set (lc_lru c)" "set (drop m (take n ?L)) \<subseteq> set (lc_lru c)" "set (take m ?L) \<subseteq> set (lc_lru c)"
        by (meson order_trans filter_is_subset set_take_subset set_drop_subset)+
      moreover have split: "take m ?L @ drop m (take n ?L) = take n ?L" using that append_take_drop_id [of m "take n ?L"] by (simp add: min_def)
      have "charges c4 (take m ?L @ drop m (take n ?L)) = charges c4 (take m ?L) + charges c4 (drop m (take n ?L))"
        by (simp only: map_append sum_list.append)
      then have "charges c4 (take n ?L) = charges c4 (take m ?L) + charges c4 (drop m (take n ?L))" unfolding split .
      ultimately have "lc_usage c' + charges c (drop m (take n ?L)) = lc_usage c4 - charges c4 (take m ?L)" using V(8) by simp
      then show ?thesis using V(9) that by simp
    qed
    moreover have "?e \<in> cached c'" using V(6) lists4 by (simp add: cached_def)
    ultimately show ?thesis using V lists4 by (intro exI [of _ c'] exI [of _ n]) simp
  qed
qed

lemma LRUCache_Lookup_ok:
  assumes ok: "cache_ok H c held"
  shows "fst (LRUCache_Lookup key (H key) c) = Some e \<longleftrightarrow> e \<in> cached c \<and> key_of c e = key"
    and "LRUCache_Lookup key (H key) c = (Some e, c') \<Longrightarrow> size held + 2 < 2 ^ 32 \<Longrightarrow> cache_ok H c' (add_mset e held)"
    and "LRUCache_Lookup key (H key) c = (None, c') \<Longrightarrow> c' = c"
    and "LRUCache_Lookup key (H key) c = (Some e, c') \<Longrightarrow> size held + 2 < 2 ^ 32 \<Longrightarrow> lc_capacity c' = lc_capacity c"
proof -
  have l: "lists_ok H c held" and t: "table_ok H (hs_handle c) (cached c) (lc_table c)" using ok by (simp_all add: cache_ok_def)
  note L = HandleTable_Lookup_ok [OF t]
  show "fst (LRUCache_Lookup key (H key) c) = Some e \<longleftrightarrow> e \<in> cached c \<and> key_of c e = key"
    unfolding L [symmetric] by (simp add: LRUCache_Lookup_def split: option.split)
  show "LRUCache_Lookup key (H key) c = (None, c') \<Longrightarrow> c' = c" by (simp add: LRUCache_Lookup_def split: option.splits)
  assume hit: "LRUCache_Lookup key (H key) c = (Some e, c')" and size: "size held + 2 < 2 ^ 32"
  then have e: "e \<in> cached c" and c': "c' = LRUCache_Ref e c" using L [of key e] by (auto simp: LRUCache_Lookup_def split: option.splits)
  note R = Ref_ok [OF l e size]
  show "cache_ok H c' (add_mset e held)" and "lc_capacity c' = lc_capacity c"
    using R table_frame [OF R(3) t lists_okD(4) [OF l]] unfolding c' by (simp_all add: cache_ok_def frame_def same_entries_def)
qed

lemma LRUCache_Release_ok:
  assumes "cache_ok H c (add_mset e held)"
  shows "cache_ok H (LRUCache_Release e c) held" and "lc_capacity (LRUCache_Release e c) = lc_capacity c"
    and "cached (LRUCache_Release e c) = cached c" and "same_entries c (LRUCache_Release e c)"
proof -
  have l: "lists_ok H c (add_mset e held)" and t: "table_ok H (hs_handle c) (cached c) (lc_table c)" using assms by (simp_all add: cache_ok_def)
  note U = Unref_ok [OF l]
  show "cache_ok H (LRUCache_Release e c) held" and "lc_capacity (LRUCache_Release e c) = lc_capacity c"
    and "cached (LRUCache_Release e c) = cached c" and "same_entries c (LRUCache_Release e c)"
    using U table_frame [OF U(3) t lists_okD(4) [OF l]] by (simp_all add: LRUCache_Release_def cache_ok_def frame_def same_entries_def)
qed

lemma LRUCache_ok:
  assumes "LRUCache capacity s = Some c" and "hs_fresh s = 0" and "hs_deleted s = []"
  shows "cache_ok H c {#} \<and> lc_capacity c = capacity"
proof -
  obtain t where t: "HandleTable (hs_handle s) = Some t" "c = handle_store.extend s (lru_cache.fields capacity 0 [] [] t)"
    using assms(1) by (auto simp: LRUCache_def bind_eq_Some_conv)
  have "\<exists>t'. Resize (hs_handle s) \<lparr>ht_length = 0, ht_elems = 0, ht_list = []\<rparr> = Some t' \<and> table_ok H (hs_handle s) {} t'"
    by (rule Resize_ok) simp_all
  then have "table_ok H (hs_handle s) {} t" using t(1) by (simp add: HandleTable_def)
  then show ?thesis using assms(2,3) by (simp add: t(2) cache_ok_def lists_ok_def cached_def handle_store.defs lru_cache.defs)
qed

subsection \<open>Clients\<close>

text \<open>
  What clients can do with a shard: they release the handles that they hold, and there are fewer than 2^32 - 2 of these, with
  fewer than 2^31 entries, so that no counter overflows.
\<close>

inductive cache_client :: "(bytes \<Rightarrow> u32) \<Rightarrow> u64 \<Rightarrow> 'v lru_cache \<Rightarrow> handle_ptr multiset \<Rightarrow> bool"
  for H :: "bytes \<Rightarrow> u32" and capacity :: u64 where
  new: "LRUCache capacity handle_store = Some c \<Longrightarrow> cache_client H capacity c {#}"
| insert: "cache_client H capacity c held \<Longrightarrow> size held + 2 < 2 ^ 32 \<Longrightarrow> unat (ht_elems (lc_table c)) < 2 ^ 31 \<Longrightarrow>
    LRUCache_Insert key (H key) v charge c = Some (e, c') \<Longrightarrow> cache_client H capacity c' (add_mset e held)"
| hit: "cache_client H capacity c held \<Longrightarrow> size held + 2 < 2 ^ 32 \<Longrightarrow>
    LRUCache_Lookup key (H key) c = (Some e, c') \<Longrightarrow> cache_client H capacity c' (add_mset e held)"
| miss: "cache_client H capacity c held \<Longrightarrow> LRUCache_Lookup key (H key) c = (None, c') \<Longrightarrow> cache_client H capacity c' held"
| release: "cache_client H capacity c (add_mset e held) \<Longrightarrow> cache_client H capacity (LRUCache_Release e c) held"
| erase: "cache_client H capacity c held \<Longrightarrow> cache_client H capacity (LRUCache_Erase key (H key) c) held"
| prune: "cache_client H capacity c held \<Longrightarrow> LRUCache_Prune c = Some c' \<Longrightarrow> cache_client H capacity c' held"

lemma cache_client_ok:
  "cache_client H capacity c held \<Longrightarrow> cache_ok H c held \<and> lc_capacity c = capacity"
proof (induction rule: cache_client.induct)
  case (new c)
  then show ?case by (rule LRUCache_ok) (simp_all add: handle_store_def)
next
  case (insert c held key v charge e c')
  then show ?case using LRUCache_Insert_ok [of H c held key v charge] by (auto simp: same_entries_def)
next
  case (hit c held key e c')
  then show ?case using LRUCache_Lookup_ok(2,4) by metis
next
  case (miss c held key c')
  then show ?case using LRUCache_Lookup_ok(3) by metis
next
  case (release c e held)
  then show ?case using LRUCache_Release_ok by metis
next
  case (erase c held key)
  then show ?case using remove_key_ok(1,3) [of H c held key] by (simp add: LRUCache_Erase_def same_entries_def)
next
  case (prune c held c')
  then show ?case using Prune_ok [of H c held] by (auto simp: same_entries_def)
qed

subsection \<open>Properties\<close>

text \<open>
  Claim C16: the cache is well-formed whatever its clients do. A handle is given to its deleter exactly once, when it is neither in the
  cache nor held by a client; the handles in the cache are in the list of those in use or in the LRU list, depending on
  whether a client holds them; the usage is the sum of their charges; a lookup finds exactly the cached entry with the
  key; and pruning ends.
\<close>

theorem cache_well_formed:
  assumes "cache_client H capacity c held"
  shows "distinct (hs_deleted c) \<and> set (hs_deleted c) = {e. e < hs_fresh c \<and> e \<notin> cached c \<and> e \<notin># held} \<and>
    distinct (lc_lru c @ lc_in_use c) \<and> set (lc_in_use c) = {e \<in> cached c. e \<in># held} \<and> set (lc_lru c) = {e \<in> cached c. e \<notin># held} \<and>
    LRUCache_TotalCharge c = (\<Sum>e \<in> cached c. lh_charge (hs_handle c e)) \<and>
    (\<forall>key e. fst (LRUCache_Lookup key (H key) c) = Some e \<longleftrightarrow> e \<in> cached c \<and> key_of c e = key) \<and>
    LRUCache_Prune c \<noteq> None"
proof -
  have ok: "cache_ok H c held" using cache_client_ok [OF assms] by simp
  then have "lists_ok H c held" by (simp add: cache_ok_def)
  note D = lists_okD [OF this]
  have "set (lc_in_use c) = {e \<in> cached c. e \<in># held}" "set (lc_lru c) = {e \<in> cached c. e \<notin># held}"
    using D(3,9) by (auto simp: cached_def)
  then show ?thesis using D(1-3,10-12) LRUCache_Lookup_ok(1) [OF ok] Prune_ok [OF ok] by (auto simp: LRUCache_TotalCharge_def)
qed

text \<open>A client inserts an entry, releases it and finds it again.\<close>

lemma cache_example:
  "\<exists>c c'. LRUCache 10 (handle_store :: nat handle_store) = Some c \<and> cache_client H 10 c {#} \<and> LRUCache_Insert [1] (H [1]) 5 3 c = Some (0, c') \<and>
     cache_client H 10 c' {#0#} \<and> cached c' = {0} \<and> key_of c' 0 = [1]"
proof -
  let ?h = "hs_handle (handle_store :: nat handle_store)"
  have "\<exists>t'. Resize ?h \<lparr>ht_length = 0, ht_elems = 0, ht_list = []\<rparr> = Some t' \<and> table_ok H ?h {} t'"
    by (rule Resize_ok) simp_all
  then obtain c where new: "LRUCache 10 (handle_store :: nat handle_store) = Some c" by (auto simp: LRUCache_def HandleTable_def)
  then have client: "cache_client H 10 c {#}" by (rule cache_client.new)
  then have ok: "cache_ok H c {#}" "lc_capacity c = 10" using cache_client_ok by blast+
  have empty: "cached c = {}" "hs_fresh c = 0" using new
    by (auto simp: LRUCache_def bind_eq_Some_conv cached_def handle_store_def handle_store.defs lru_cache.defs)
  then have elems: "unat (ht_elems (lc_table c)) < 2 ^ 31" using ok(1) by (simp add: cache_ok_def table_ok_def)
  then obtain c' where "LRUCache_Insert [1] (H [1]) 5 3 c = Some (0, c')" "cached c' = {0}" "key_of c' 0 = [1]"
    using LRUCache_Insert_ok [OF ok(1), of "[1]" 5 3] ok(2) empty by (auto simp: cached_def)
  moreover from this have "cache_client H 10 c' {#0#}" using cache_client.insert [OF client _ elems] by simp
  ultimately show ?thesis using new client by auto
qed

theorem cache_well_formed_witness:
  "\<exists>c :: nat lru_cache. cache_client HashSlice 10 c {#} \<and> fst (LRUCache_Lookup [1] (HashSlice [1]) c) = Some 0 \<and>
     set (lc_lru c) = cached c \<and> 0 \<in> cached c"
proof -
  obtain c' :: "nat lru_cache" where c': "cache_client HashSlice 10 c' (add_mset 0 {#})" "cached c' = {0}" "key_of c' 0 = [1]"
    using cache_example [of HashSlice] by auto
  have client: "cache_client HashSlice 10 (LRUCache_Release 0 c') {#}" using c'(1) by (rule cache_client.release)
  have ok: "cache_ok HashSlice c' (add_mset 0 {#})" using cache_client_ok [OF c'(1)] by simp
  note R = LRUCache_Release_ok [OF ok]
  have "0 < hs_fresh c'" using ok lists_okD(5) [of HashSlice c' "add_mset 0 {#}" 0] by (simp add: cache_ok_def)
  then have "0 \<in> cached (LRUCache_Release 0 c')" "key_of (LRUCache_Release 0 c') 0 = [1]" using R(3,4) c'(2,3) by (simp_all add: same_entries_def)
  then show ?thesis using cache_well_formed [OF client] client by (intro exI [of _ "LRUCache_Release 0 c'"]) auto
qed

text \<open>
  Claim C17: an insertion returns a handle for the new entry, which replaces the entry with its key; then the least recently used entries
  that no client holds are evicted, as many as needed and no more, until the usage is within the capacity or none is left. The
  next lookup of the key finds the new entry.
\<close>

theorem cache_insert_evicts_oldest:
  assumes "cache_client H capacity c held" and "0 < capacity" and "size held + 2 < 2 ^ 32" and "unat (ht_elems (lc_table c)) < 2 ^ 31"
  shows "\<exists>e c' n. LRUCache_Insert key (H key) v charge c = Some (e, c') \<and> e \<notin> cached c \<union> set_mset held \<and>
    lh_value (hs_handle c' e) = v \<and> fst (LRUCache_Lookup key (H key) c') = Some e \<and>
    lc_in_use c' = filter (\<lambda>d. key_of c d \<noteq> key) (lc_in_use c) @ [e] \<and>
    lc_lru c' = drop n (filter (\<lambda>d. key_of c d \<noteq> key) (lc_lru c)) \<and>
    (LRUCache_TotalCharge c' \<le> capacity \<or> lc_lru c' = []) \<and>
    (\<forall>m < n. capacity < LRUCache_TotalCharge c' + charges c (drop m (take n (filter (\<lambda>d. key_of c d \<noteq> key) (lc_lru c)))))"
proof -
  have ok: "cache_ok H c held" "lc_capacity c = capacity" using cache_client_ok [OF assms(1)] by simp_all
  have fresh: "hs_fresh c \<notin> cached c \<union> set_mset held" using ok(1) lists_okD(4,5) by (fastforce simp: cache_ok_def)
  obtain c' n where I: "LRUCache_Insert key (H key) v charge c = Some (hs_fresh c, c')" "cache_ok H c' (add_mset (hs_fresh c) held)"
      "key_of c' (hs_fresh c) = key" "lh_value (hs_handle c' (hs_fresh c)) = v" "hs_fresh c \<in> cached c'"
      "lc_in_use c' = filter (\<lambda>d. key_of c d \<noteq> key) (lc_in_use c) @ [hs_fresh c]"
      "lc_lru c' = drop n (filter (\<lambda>d. key_of c d \<noteq> key) (lc_lru c))" "lc_usage c' \<le> capacity \<or> lc_lru c' = []"
      "\<forall>m < n. capacity < lc_usage c' + charges c (drop m (take n (filter (\<lambda>d. key_of c d \<noteq> key) (lc_lru c))))"
    using LRUCache_Insert_ok [OF ok(1) assms(3,4), of key v charge] ok(2) assms(2) by auto
  have "fst (LRUCache_Lookup key (H key) c') = Some (hs_fresh c)" using LRUCache_Lookup_ok(1) [OF I(2)] I(3,5) by simp
  with I fresh show ?thesis unfolding LRUCache_TotalCharge_def by (intro exI [of _ "hs_fresh c"] exI [of _ c'] exI [of _ n]) blast
qed

text \<open>A second entry with the key of the first, which is still in use.\<close>

theorem cache_insert_evicts_oldest_witness:
  "\<exists>(c :: nat lru_cache) e c'. LRUCache_Insert [1] (HashSlice [1]) 6 3 c = Some (e, c') \<and> e \<noteq> 0 \<and> 0 \<in> cached c \<and>
     fst (LRUCache_Lookup [1] (HashSlice [1]) c') = Some e \<and> lh_value (hs_handle c' e) = 6"
proof -
  obtain c' :: "nat lru_cache" where c': "cache_client HashSlice 10 c' {#0#}" "cached c' = {0}" "key_of c' 0 = [1]"
    using cache_example [of HashSlice] by auto
  have ok: "cache_ok HashSlice c' {#0#}" using cache_client_ok [OF c'(1)] by simp
  then have elems: "unat (ht_elems (lc_table c')) < 2 ^ 31" using c'(2) by (simp add: cache_ok_def table_ok_def)
  have size: "0 < (10 :: u64)" "size {#0 :: nat#} + 2 < 2 ^ 32" by simp_all
  obtain e c'' where I: "LRUCache_Insert [1] (HashSlice [1]) 6 3 c' = Some (e, c'')" "e \<notin> cached c' \<union> set_mset {#0#}"
      "fst (LRUCache_Lookup [1] (HashSlice [1]) c'') = Some e" "lh_value (hs_handle c'' e) = 6"
    using cache_insert_evicts_oldest [OF c'(1) size elems, of "[1]" 6 3] by (elim exE conjE) (rule that)
  have "e \<noteq> 0" and "0 \<in> cached c'" using I(2) c'(2) by simp_all
  then show ?thesis using I(1,3,4) by (intro exI [of _ c'] exI [of _ e] exI [of _ c''] conjI)
qed

end
