(* ===== verification/LDB_TableCache.thy ===== *)
theory LDB_TableCache
  imports LDB_Cache LDB_Table LDB_FileName
begin

text \<open>
  The table cache of \<^verbatim>\<open>db/table_cache.cc\<close>: open tables by file number, in a cache of \<^verbatim>\<open>util/cache.cc\<close>. The files come from
  the environment, which is a record of functions on its state; a file that is deleted is closed there. The callback
  of \<^verbatim>\<open>Get\<close> is the entry that it is called with.
\<close>

record ('e, 'f) table_files =
  ta_NewRandomAccessFile :: "bytes \<Rightarrow> 'e \<Rightarrow> status \<times> 'f option \<times> 'e"
  ta_delete_file :: "'f \<Rightarrow> 'e \<Rightarrow> 'e"
  ta_file :: "'f \<Rightarrow> table_file"

record 'f table_and_file =
  taf_file :: 'f
  taf_table :: table

record 'f table_cache =
  tc_dbname :: bytes
  tc_options :: db_options
  tc_cache :: "'f table_and_file sharded_cache"

definition TableCache :: "bytes \<Rightarrow> db_options \<Rightarrow> int \<Rightarrow> 'f table_cache option" where
  "TableCache dbname options entries = do {
     cache \<leftarrow> NewLRUCache (word_of_int entries);
     Some \<lparr>tc_dbname = dbname, tc_options = options, tc_cache = cache\<rparr>
   }"

definition DeleteEntry :: "('e, 'f) table_files \<Rightarrow> 'f table_and_file \<Rightarrow> 'e \<Rightarrow> 'e" where
  "DeleteEntry env tf e = ta_delete_file env (taf_file tf) e"

text \<open>A new state of the cache, with the deleter called for each handle that was freed on the way.\<close>

definition with_cache ::
    "('e, 'f) table_files \<Rightarrow> 'f table_and_file sharded_cache \<Rightarrow> 'f table_cache \<Rightarrow> 'e \<Rightarrow> 'f table_cache \<times> 'e" where
  "with_cache env cache tc e =
     (tc\<lparr>tc_cache := cache\<rparr>,
      fold (\<lambda>h. DeleteEntry env (Cache_Value h cache))
        (drop (length (hs_deleted (sc_store (tc_cache tc)))) (hs_deleted (sc_store cache))) e)"

definition UnrefEntry :: "('e, 'f) table_files \<Rightarrow> handle_ptr \<Rightarrow> 'f table_cache \<Rightarrow> 'e \<Rightarrow> 'f table_cache \<times> 'e" where
  "UnrefEntry env h tc e = with_cache env (Cache_Release h (tc_cache tc)) tc e"

text \<open>The file with either name of a table.\<close>

definition open_table_file :: "('e, 'f) table_files \<Rightarrow> bytes \<Rightarrow> u64 \<Rightarrow> 'e \<Rightarrow> status \<times> 'f option \<times> 'e" where
  "open_table_file env dbname file_number e =
     (let (s, file, e) = ta_NewRandomAccessFile env (TableFileName dbname file_number) e
      in if ok s then (s, file, e)
         else
           let (s', file, e) = ta_NewRandomAccessFile env (SSTTableFileName dbname file_number) e
           in (if ok s' then Status_OK else s, file, e))"

definition FindTable ::
    "('e, 'f) table_files \<Rightarrow> u64 \<Rightarrow> u64 \<Rightarrow> 'f table_cache \<Rightarrow> 'e \<Rightarrow> (status \<times> handle_ptr option \<times> 'f table_cache \<times> 'e) option" where
  "FindTable env file_number file_size tc e =
     (let key = EncodeFixed64 file_number;
          (handle, cache) = Cache_Lookup key (tc_cache tc);
          (tc, e) = with_cache env cache tc e
      in if handle \<noteq> None then Some (Status_OK, handle, tc, e)
         else
           let (s, file, e) = open_table_file env (tc_dbname tc) file_number e in do {
             (s, table) \<leftarrow> (if ok s then Table_Open (tc_options tc) (ta_file env (the file)) file_size else Some (s, None));
             if \<not> ok s then Some (s, None, tc, case file of Some f \<Rightarrow> ta_delete_file env f e | None \<Rightarrow> e)
             else do {
               (h, cache) \<leftarrow> Cache_Insert key \<lparr>taf_file = the file, taf_table = the table\<rparr> 1 (tc_cache tc);
               let (tc, e) = with_cache env cache tc e in Some (s, Some h, tc, e)
             }
           })"

definition cached_table :: "handle_ptr \<Rightarrow> 'f table_cache \<Rightarrow> table" where
  "cached_table h tc = taf_table (Cache_Value h (tc_cache tc))"

text \<open>
  The iterator of a table with the handle that \<^verbatim>\<open>UnrefEntry\<close> releases when the iterator is deleted, or the error
  that an empty iterator holds.
\<close>

definition TableCache_NewIterator ::
    "('e, 'f) table_files \<Rightarrow> read_options \<Rightarrow> u64 \<Rightarrow> u64 \<Rightarrow> 'f table_cache \<Rightarrow> 'e \<Rightarrow>
     ((status + table \<times> (block_iterator, block_iterator) two_level_iter \<times> handle_ptr) \<times> 'f table_cache \<times> 'e) option" where
  "TableCache_NewIterator env options file_number file_size tc e = do {
     (s, handle, tc, e) \<leftarrow> FindTable env file_number file_size tc e;
     if \<not> ok s then Some (Inl s, tc, e)
     else
       let h = the handle; table = cached_table h tc
       in Some (Inr (table, Table_NewIterator table options, h), tc, e)
   }"

definition TableCache_Get ::
    "('e, 'f) table_files \<Rightarrow> read_options \<Rightarrow> u64 \<Rightarrow> u64 \<Rightarrow> bytes \<Rightarrow> 'f table_cache \<Rightarrow> 'e \<Rightarrow>
     (status \<times> entry option \<times> 'f table_cache \<times> 'e) option" where
  "TableCache_Get env options file_number file_size k tc e = do {
     (s, handle, tc, e) \<leftarrow> FindTable env file_number file_size tc e;
     if \<not> ok s then Some (s, None, tc, e)
     else do {
       let h = the handle;
       (s, saved) \<leftarrow> InternalGet (cached_table h tc) options k;
       let (tc, e) = UnrefEntry env h tc e in Some (s, saved, tc, e)
     }
   }"

definition TableCache_Evict :: "('e, 'f) table_files \<Rightarrow> u64 \<Rightarrow> 'f table_cache \<Rightarrow> 'e \<Rightarrow> 'f table_cache \<times> 'e" where
  "TableCache_Evict env file_number tc e = with_cache env (Cache_Erase (EncodeFixed64 file_number) (tc_cache tc)) tc e"

end
