(* ===== verification/LDB_BlockCache.thy ===== *)
theory LDB_BlockCache
  imports LDB_CacheSpec LDB_Table
begin

text \<open>
  Reading blocks of tables through a block cache (\<^verbatim>\<open>Table::BlockReader\<close> in full), and that a cache which only this function
  fills does not change what is read.
\<close>

subsection \<open>Reading through a cache\<close>

text \<open>How the iterator frees its block: nothing to free, delete the block, or release the handle of the cache.\<close>

datatype block_cleanup = NoCleanup | DeleteBlock | ReleaseBlock handle_ptr

definition block_cache_key :: "u64 \<Rightarrow> u64 \<Rightarrow> bytes" where
  "block_cache_key cache_id offset = EncodeFixed64 cache_id @ EncodeFixed64 offset"

text \<open>The identifier that \<^verbatim>\<open>Table::Open\<close> takes for a table.\<close>

definition table_cache_id :: "block sharded_cache option \<Rightarrow> u64 \<times> block sharded_cache option" where
  "table_cache_id block_cache =
     (case block_cache of None \<Rightarrow> (0, None) | Some c \<Rightarrow> let (i, c) = Cache_NewId c in (i, Some c))"

definition read_cached ::
    "table \<Rightarrow> u64 \<Rightarrow> read_options \<Rightarrow> block_handle \<Rightarrow> block sharded_cache \<Rightarrow>
     (status \<times> block option \<times> handle_ptr option \<times> block sharded_cache) option" where
  "read_cached tbl cache_id options handle c =
     (let key = block_cache_key cache_id (bh_offset handle); (cache_handle, c) = Cache_Lookup key c
      in case cache_handle of
           Some h \<Rightarrow> Some (Status_OK, Some (Cache_Value h c), Some h, c)
         | None \<Rightarrow> do {
             (s, contents) \<leftarrow> table_ReadBlock (tbl_file tbl) (ro_verify_checksums options) handle;
             if ok s then
               let block = Block (bc_data contents)
               in if bc_cachable contents \<and> ro_fill_cache options then do {
                    (h, c) \<leftarrow> Cache_Insert key block (word_of_nat (blk_size block)) c;
                    Some (s, Some block, Some h, c)
                  }
                  else Some (s, Some block, None, c)
             else Some (s, None, None, c)
           })"

definition CachedBlockReader ::
    "table \<Rightarrow> u64 \<Rightarrow> read_options \<Rightarrow> bytes \<Rightarrow> block sharded_cache option \<Rightarrow>
     (block_iterator \<times> block_cleanup \<times> block sharded_cache option) option" where
  "CachedBlockReader tbl cache_id options index_value block_cache =
     (case BlockHandle_DecodeFrom new_BlockHandle index_value of
        (s, handle, input) \<Rightarrow> do {
          (s, block, cache_handle, block_cache) \<leftarrow>
            (if \<not> ok s then Some (s, None, None, block_cache)
             else case block_cache of
               Some c \<Rightarrow> do {
                 (s, block, h, c) \<leftarrow> read_cached tbl cache_id options handle c;
                 Some (s, block, h, Some c)
               }
             | None \<Rightarrow> do {
                 (s, contents) \<leftarrow> table_ReadBlock (tbl_file tbl) (ro_verify_checksums options) handle;
                 Some (s, if ok s then Some (Block (bc_data contents)) else None, None, None)
               });
          Some (case block of
            Some b \<Rightarrow> (Block_NewIterator b, case cache_handle of None \<Rightarrow> DeleteBlock | Some h \<Rightarrow> ReleaseBlock h, block_cache)
          | None \<Rightarrow> (EmptyIterator (NewErrorIterator s), NoCleanup, block_cache))
        })"

text \<open>The cleanup of the iterator.\<close>

definition run_block_cleanup :: "block_cleanup \<Rightarrow> block sharded_cache option \<Rightarrow> block sharded_cache option" where
  "run_block_cleanup cleanup block_cache =
     (case cleanup of ReleaseBlock h \<Rightarrow> map_option (Cache_Release h) block_cache | _ \<Rightarrow> block_cache)"

lemma CachedBlockReader_None:
  "map_option fst (CachedBlockReader tbl cache_id options index_value None) = BlockReader tbl options index_value"
  by (auto simp: CachedBlockReader_def BlockReader_def bind_eq_None_conv split: prod.splits bind_splits)

subsection \<open>Entries never change\<close>

definition chained :: "handle_table \<Rightarrow> handle_ptr set" where
  "chained t = set (concat (ht_list t))"

text \<open>The buckets are as many as the length of the table says, a power of two.\<close>

definition table_shape :: "handle_table \<Rightarrow> bool" where
  "table_shape t \<longleftrightarrow> (\<exists>k < 32. ht_length t = 2 ^ k \<and> length (ht_list t) = 2 ^ k)"

text \<open>An operation allocates no handle, puts none into the table, and leaves the keys and values of all as they are.\<close>

definition shrinks :: "'v lru_cache \<Rightarrow> 'v lru_cache \<Rightarrow> bool" where
  "shrinks c c' \<longleftrightarrow> hs_fresh c' = hs_fresh c \<and> chained (lc_table c') \<subseteq> chained (lc_table c) \<and>
     (table_shape (lc_table c) \<longrightarrow> table_shape (lc_table c')) \<and>
     (\<forall>e. lh_key (hs_handle c' e) = lh_key (hs_handle c e) \<and> lh_value (hs_handle c' e) = lh_value (hs_handle c e))"

lemma shrinks_refl [simp]: "shrinks c c"
  by (simp add: shrinks_def)

lemma shrinks_trans: "shrinks a b \<Longrightarrow> shrinks b c \<Longrightarrow> shrinks a c"
  by (auto simp: shrinks_def)

lemma shrinks_Ref: "shrinks c (LRUCache_Ref e c)"
  by (simp add: shrinks_def LRUCache_Ref_def LRU_Append_in_use_def LRU_Remove_def set_handle_def Let_def)

lemma shrinks_Unref: "shrinks c (LRUCache_Unref e c)"
  by (simp add: shrinks_def LRUCache_Unref_def LRU_Append_lru_def LRU_Remove_def set_handle_def Let_def)

lemma shrinks_FinishErase: "shrinks c (snd (FinishErase r c))"
proof (cases r)
  case (Some e)
  let ?c = "set_handle e (\<lambda>h. h\<lparr>lh_in_cache := False\<rparr>) (LRU_Remove e c)"
  have "shrinks c (?c\<lparr>lc_usage := u\<rparr>)" for u by (simp add: shrinks_def LRU_Remove_def set_handle_def)
  from shrinks_trans [OF this shrinks_Unref] show ?thesis by (simp add: FinishErase_def Let_def Some)
qed (simp add: FinishErase_def)

lemma entries_update: "set (concat (l[b := chain])) \<subseteq> set (concat l) \<union> (if b < length l then set chain else {})"
  using set_update_subset_insert [of l b chain] by (auto simp: not_less list_update_beyond)

lemma entries_nth: "b < length l \<Longrightarrow> set (l ! b) \<subseteq> set (concat l)"
  using nth_mem by fastforce

lemma chained_update:
  assumes "ht_list t' = (ht_list t)[b := chain]" and "b < length (ht_list t) \<Longrightarrow> set chain \<subseteq> X \<union> set (ht_list t ! b)"
  shows "chained t' \<subseteq> X \<union> chained t"
proof -
  have "chained t' \<subseteq> chained t \<union> (if b < length (ht_list t) then set chain else {})"
    using entries_update [of "ht_list t" b chain] by (simp only: chained_def assms(1))
  moreover have "b < length (ht_list t) \<Longrightarrow> set chain \<subseteq> X \<union> chained t"
    using assms(2) entries_nth [of b "ht_list t"] unfolding chained_def by blast
  ultimately show ?thesis by (auto split: if_splits)
qed

lemma chained_Remove: "chained (snd (HandleTable_Remove h key hash t)) \<subseteq> chained t"
proof -
  obtain b i where p: "FindPointer h key hash t = (b, i)" by force
  have "set (take i (ht_list t ! b) @ drop (Suc i) (ht_list t ! b)) \<subseteq> {} \<union> set (ht_list t ! b)"
    using set_take_subset set_drop_subset by fastforce
  from chained_update [where X = "{}", OF _ this] p show ?thesis
    by (simp add: HandleTable_Remove_def Let_def)
qed

lemma shape_Remove: "table_shape t \<Longrightarrow> table_shape (snd (HandleTable_Remove h key hash t))"
  by (cases "FindPointer h key hash t") (auto simp: table_shape_def HandleTable_Remove_def Let_def)

lemma chained_push: "set (concat (fold (push_entry h len) es l)) \<subseteq> set es \<union> set (concat l)"
proof (induction es arbitrary: l)
  case (Cons e es)
  let ?b = "bucket_of (lh_hash (h e)) len"
  have "set (concat (push_entry h len e l)) \<subseteq> insert e (set (concat l))"
    using entries_update [of l ?b "e # l ! ?b"] entries_nth [of ?b l] unfolding push_entry_def Let_def
    by (simp only: list.set split: if_splits) blast+
  then show ?case using Cons [of "push_entry h len e l"] by (simp only: fold.simps comp_apply list.set) blast
qed simp

lemma chained_Resize:
  assumes "Resize h t = Some t'"
  shows "chained t' \<subseteq> chained t"
proof -
  obtain n where "ht_list t' = fold (push_entry h n) (concat (take (unat (ht_length t)) (ht_list t))) (replicate (unat n) [])"
    using assms by (auto simp: Resize_def bind_eq_Some_conv)
  then have "chained t' \<subseteq> set (concat (take (unat (ht_length t)) (ht_list t))) \<union> set (concat (replicate (unat n) []))"
    using chained_push unfolding chained_def by metis
  moreover have "set (concat (take (unat (ht_length t)) (ht_list t))) \<subseteq> chained t"
    using set_take_subset [of _ "ht_list t"] unfolding chained_def by (fastforce dest: in_set_takeD)
  ultimately show ?thesis by auto
qed

lemma table_length_power:
  assumes "table_length n elems = Some m" and "n = 2 ^ k" and "k < 32"
  shows "\<exists>k < 32. m = 2 ^ k"
proof -
  have "(\<forall>k < 32. n = 2 ^ k \<longrightarrow> (\<exists>k < 32. m = 2 ^ k)) \<and> \<not> (n = 0 \<and> 0 < elems)"
  proof (rule table_length.raw_induct [OF _ assms(1)])
    fix rec :: "u32 \<Rightarrow> u32 \<Rightarrow> u32 option" and n elems m
    assume IH: "\<And>n elems m. rec n elems = Some m \<Longrightarrow> (\<forall>k < 32. n = 2 ^ k \<longrightarrow> (\<exists>k < 32. m = 2 ^ k)) \<and> \<not> (n = 0 \<and> 0 < elems)"
      and step: "(if n < elems then rec (n * 2) elems else Some n) = Some m"
    have "\<exists>k < 32. m = 2 ^ k" if k: "k < 32" "n = 2 ^ k" for k
    proof (cases "n < elems")
      case True
      then have rec: "rec (n * 2) elems = Some m" using step by simp
      have "0 < elems" using True by (simp add: word_less_nat_alt)
      then have "n * 2 \<noteq> 0" using IH [OF rec] by blast
      moreover have "n * 2 = 2 ^ Suc k" using k(2) by simp
      ultimately have "k \<noteq> 31" by auto
      then have "Suc k < 32" using k(1) by simp
      then show ?thesis using IH [OF rec] \<open>n * 2 = 2 ^ Suc k\<close> by blast
    qed (use step k in auto)
    moreover have "\<not> (n = 0 \<and> 0 < elems)"
      using step IH [of 0 elems m] by (cases "n = 0 \<and> 0 < elems") simp_all
    ultimately show "(\<forall>k < 32. n = 2 ^ k \<longrightarrow> (\<exists>k < 32. m = 2 ^ k)) \<and> \<not> (n = 0 \<and> 0 < elems)" by blast
  qed
  then show ?thesis using assms(2,3) by blast
qed

lemma length_push: "length (fold (push_entry h len) es l) = length l"
  by (induction es arbitrary: l) (simp_all add: push_entry_def Let_def)

lemma shape_Resize:
  assumes "Resize h t = Some t'"
  shows "table_shape t'"
proof -
  obtain n where n: "table_length 4 (ht_elems t) = Some n" "ht_length t' = n" "length (ht_list t') = unat n"
    using assms by (auto simp: Resize_def bind_eq_Some_conv length_push)
  then obtain k where "k < 32" "n = 2 ^ k" using table_length_power [OF n(1), of 2] by auto
  then show ?thesis unfolding table_shape_def using n(2,3) unat_power [of k] by (intro exI [of _ k]) simp
qed

lemma shape_Insert:
  assumes "HandleTable_Insert h e t = Some (r, t')" and "table_shape t"
  shows "table_shape t'"
proof -
  obtain b i where p: "FindPointer h (lh_key (h e)) (lh_hash (h e)) t = (b, i)" by force
  let ?t = "t\<lparr>ht_list := (ht_list t)[b := ht_list t ! b @ [e]], ht_elems := ht_elems t + 1\<rparr>"
  have "t' = t\<lparr>ht_list := (ht_list t)[b := (ht_list t ! b)[i := e]]\<rparr> \<or> t' = ?t \<or> Resize h ?t = Some t'"
    using assms(1) p by (auto simp: HandleTable_Insert_def Let_def bind_eq_Some_conv split: option.splits if_splits)
  then show ?thesis using assms(2) shape_Resize [of h ?t t'] by (elim disjE) (simp_all add: table_shape_def)
qed

lemma chained_Insert:
  assumes "HandleTable_Insert h e t = Some (r, t')"
  shows "chained t' \<subseteq> insert e (chained t)"
proof -
  obtain b i where p: "FindPointer h (lh_key (h e)) (lh_hash (h e)) t = (b, i)" by force
  have "set ((ht_list t ! b)[i := e]) \<subseteq> {e} \<union> set (ht_list t ! b)" using set_update_subset_insert by fastforce
  note found = chained_update [OF _ this]
  show ?thesis
  proof (cases "slot_entry t (b, i)")
    case None
    let ?t = "t\<lparr>ht_list := (ht_list t)[b := ht_list t ! b @ [e]], ht_elems := ht_elems t + 1\<rparr>"
    have "chained ?t \<subseteq> {e} \<union> chained t" by (rule chained_update [of _ _ b "ht_list t ! b @ [e]"]) simp_all
    moreover have "t' = ?t \<or> Resize h ?t = Some t'"
      using assms p None by (auto simp: HandleTable_Insert_def Let_def bind_eq_Some_conv split: if_splits)
    ultimately show ?thesis using chained_Resize [of h ?t t'] by auto
  next
    case (Some old)
    then have "ht_list t' = (ht_list t)[b := (ht_list t ! b)[i := e]]" using assms p by (auto simp: HandleTable_Insert_def Let_def)
    from found [OF this] show ?thesis by simp
  qed
qed

lemma shrinks_remove_key: "shrinks c (snd (remove_key key hash c))"
proof -
  obtain r t where t: "HandleTable_Remove (hs_handle c) key hash (lc_table c) = (r, t)" by force
  then have "shrinks c (c\<lparr>lc_table := t\<rparr>)" using chained_Remove [of "hs_handle c" key hash "lc_table c"] shape_Remove [of "lc_table c" "hs_handle c" key hash] by (simp add: shrinks_def)
  then show ?thesis using shrinks_trans [OF _ shrinks_FinishErase] t by (simp add: remove_key_def)
qed

lemma shrinks_evict:
  assumes "evict c = Some c'"
  shows "shrinks c c'"
proof (rule evict.raw_induct [OF _ assms])
  fix evict :: "'a lru_cache \<Rightarrow> 'a lru_cache option" and c c' :: "'a lru_cache"
  assume IH: "\<And>c c'. evict c = Some c' \<Longrightarrow> shrinks c c'"
    and step: "(if lc_capacity c < lc_usage c \<and> lc_lru c \<noteq> [] then evict (remove_oldest c) else Some c) = Some c'"
  have "shrinks c c'" if "evict (remove_oldest c) = Some c'"
    using shrinks_trans [OF shrinks_remove_key IH [OF that [unfolded remove_oldest_def Let_def]]] .
  then show "shrinks c c'" using step by (simp split: if_splits)
qed

lemma Insert_entries:
  assumes "LRUCache_Insert key hash v charge c = Some (e, c')"
  shows "e = hs_fresh c" "hs_fresh c' = Suc (hs_fresh c)" "chained (lc_table c') \<subseteq> insert e (chained (lc_table c))"
    and "table_shape (lc_table c) \<Longrightarrow> table_shape (lc_table c')" and "lh_key (hs_handle c' e) = key" "lh_value (hs_handle c' e) = v"
    and "\<And>d. d \<noteq> e \<Longrightarrow> lh_key (hs_handle c' d) = lh_key (hs_handle c d) \<and> lh_value (hs_handle c' d) = lh_value (hs_handle c d)"
proof -
  let ?h = "\<lparr>lh_value = v, lh_charge = charge, lh_in_cache = False, lh_refs = 1, lh_hash = hash, lh_key = key\<rparr>"
  obtain c1 where new: "new_handle ?h c = (hs_fresh c, c1)" by (simp add: new_handle_def)
  obtain c2 where c2: "evict c2 = Some c'" "e = hs_fresh c" and ins: "c2 = c1 \<or> (\<exists>old t. HandleTable_Insert (hs_handle (adopt e charge c1)) e (lc_table c1) = Some (old, t) \<and>
      c2 = snd (FinishErase old ((adopt e charge c1)\<lparr>lc_table := t\<rparr>)))"
    using assms new by (auto simp: LRUCache_Insert_def Let_def adopt_def bind_eq_Some_conv set_handle_def LRU_Append_in_use_def split: if_splits)
  have s1: "hs_fresh c1 = Suc e" "lc_table c1 = lc_table c" "hs_handle c1 = (hs_handle c)(e := ?h)"
    using new c2(2) by (auto simp: new_handle_def)
  let ?entries = "\<lambda>c2 :: 'a lru_cache. hs_fresh c2 = Suc e \<and> chained (lc_table c2) \<subseteq> insert e (chained (lc_table c)) \<and>
    (table_shape (lc_table c) \<longrightarrow> table_shape (lc_table c2)) \<and>
    (\<forall>d. lh_key (hs_handle c2 d) = lh_key (hs_handle c1 d) \<and> lh_value (hs_handle c2 d) = lh_value (hs_handle c1 d))"
  have mono: "?entries y" if "?entries x" "shrinks x y" for x y using that by (auto simp: shrinks_def)
  have "?entries c2" using ins
  proof (elim disjE exE conjE)
    fix old t
    assume t: "HandleTable_Insert (hs_handle (adopt e charge c1)) e (lc_table c1) = Some (old, t)"
      and "c2 = snd (FinishErase old ((adopt e charge c1)\<lparr>lc_table := t\<rparr>))"
    moreover have "?entries ((adopt e charge c1)\<lparr>lc_table := t\<rparr>)"
      using chained_Insert [OF t] shape_Insert [OF t] s1 by (simp add: adopt_def set_handle_def LRU_Append_in_use_def Let_def)
    ultimately show ?thesis using mono [OF _ shrinks_FinishErase] by blast
  qed (use s1 in auto)
  then have "?entries c'" using mono shrinks_evict [OF c2(1)] by blast
  then show "e = hs_fresh c" "hs_fresh c' = Suc (hs_fresh c)" "chained (lc_table c') \<subseteq> insert e (chained (lc_table c))"
    "table_shape (lc_table c) \<Longrightarrow> table_shape (lc_table c')" "lh_key (hs_handle c' e) = key" "lh_value (hs_handle c' e) = v"
    "\<And>d. d \<noteq> e \<Longrightarrow> lh_key (hs_handle c' d) = lh_key (hs_handle c d) \<and> lh_value (hs_handle c' d) = lh_value (hs_handle c d)"
    using c2(2) s1 by simp_all
qed

lemma Lookup_entries:
  assumes "LRUCache_Lookup key hash c = (r, c')"
  shows "shrinks c c'" and "table_shape (lc_table c) \<Longrightarrow> r = Some e \<Longrightarrow> e \<in> chained (lc_table c) \<and> lh_key (hs_handle c e) = key"
proof -
  show "shrinks c c'" using assms shrinks_Ref by (auto simp: LRUCache_Lookup_def split: option.splits)
  assume shape: "table_shape (lc_table c)" and "r = Some e"
  let ?b = "bucket_of hash (ht_length (lc_table c))" and ?P = "\<lambda>e. lh_hash (hs_handle c e) \<noteq> hash \<or> key \<noteq> lh_key (hs_handle c e)"
  let ?i = "length (takeWhile ?P (ht_list (lc_table c) ! ?b))"
  have "slot_entry (lc_table c) (?b, ?i) = Some e"
    using assms \<open>r = Some e\<close> by (auto simp: LRUCache_Lookup_def HandleTable_Lookup_def FindPointer_def Let_def split: option.splits)
  then have i: "?i < length (ht_list (lc_table c) ! ?b)" "e = ht_list (lc_table c) ! ?b ! ?i"
    by (auto simp: slot_entry_def split: if_splits)
  have "?b < length (ht_list (lc_table c))" using shape bucket_bound by (auto simp: table_shape_def)
  then have "e \<in> chained (lc_table c)" using entries_nth [of ?b "ht_list (lc_table c)"] nth_mem [OF i(1)] i(2) unfolding chained_def by blast
  moreover have "\<not> ?P e" using nth_length_takeWhile [OF i(1)] i(2) by simp
  ultimately show "e \<in> chained (lc_table c) \<and> lh_key (hs_handle c e) = key" by blast
qed

subsection \<open>Reading through the cache changes nothing\<close>

text \<open>
  The blocks of a table that a cache has under its identifier, for handles with an offset of their own each, are those that
  reading the file gives.
\<close>

definition block_agrees :: "table \<Rightarrow> u64 \<Rightarrow> bool \<Rightarrow> block_handle set \<Rightarrow> bytes \<Rightarrow> block \<Rightarrow> bool" where
  "block_agrees tbl cache_id verify handles key block \<longleftrightarrow>
     (\<forall>handle \<in> handles. key = block_cache_key cache_id (bh_offset handle) \<longrightarrow>
       (\<exists>contents. table_ReadBlock (tbl_file tbl) verify handle = Some (Status_OK, contents) \<and> block = Block (bc_data contents)))"

definition block_cache_ok :: "table \<Rightarrow> u64 \<Rightarrow> bool \<Rightarrow> block_handle set \<Rightarrow> block sharded_cache \<Rightarrow> bool" where
  "block_cache_ok tbl cache_id verify handles c \<longleftrightarrow>
     length (sc_shard c) = kNumShards \<and>
     (\<forall>s < kNumShards. let l = get_shard s c in table_shape (lc_table l) \<and>
       (\<forall>e \<in> chained (lc_table l). e < hs_fresh (sc_store c) \<and>
          block_agrees tbl cache_id verify handles (lh_key (hs_handle (sc_store c) e)) (lh_value (hs_handle (sc_store c) e))))"

lemma block_cache_key_inject: "block_cache_key i a = block_cache_key i' b \<Longrightarrow> a = b"
  unfolding block_cache_key_def 
  by (metis DecodeFixed64_EncodeFixed64 append_eq_append_conv append_Nil2)

lemma Shard_bound: "Shard hash < kNumShards"
  using unsigned_less [of hash, where 'a = nat]
  by (simp add: Shard_def kNumShards_def kNumShardBits_def unsigned_drop_bit_eq drop_bit_eq_div unat_div less_mult_imp_div_less)

lemma extend_store:
  fixes t u :: "'v handle_store"
  shows "handle_store.extend t m = (handle_store.extend u m)\<lparr>hs_handle := hs_handle t, hs_fresh := hs_fresh t, hs_deleted := hs_deleted t\<rparr>"
  by (simp add: handle_store.defs)

lemma lc_table_extend:
  fixes t u :: "'v handle_store"
  shows "lc_table (handle_store.extend t m) = lc_table (handle_store.extend u m)"
  by (subst extend_store [of t m u]) simp

lemma shard_fields [simp]:
  "hs_fresh (get_shard s c) = hs_fresh (sc_store c)" "hs_handle (get_shard s c) = hs_handle (sc_store c)"
  "hs_fresh (sc_store (put_shard s l c)) = hs_fresh l" "hs_handle (sc_store (put_shard s l c)) = hs_handle l"
  "length (sc_shard (put_shard s l c)) = length (sc_shard c)"
  "s < length (sc_shard c) \<Longrightarrow> lc_table (get_shard s (put_shard s l c)) = lc_table l"
  "s \<noteq> s' \<Longrightarrow> lc_table (get_shard s' (put_shard s l c)) = lc_table (get_shard s' c)"
  subgoal by (simp add: get_shard_def handle_store.defs)
  subgoal by (simp add: get_shard_def handle_store.defs)
  subgoal by (simp add: put_shard_def handle_store.defs)
  subgoal by (simp add: put_shard_def handle_store.defs)
  subgoal by (simp add: put_shard_def)
  subgoal by (cases l) (simp add: get_shard_def put_shard_def handle_store.defs)
  subgoal unfolding get_shard_def put_shard_def by (simp, rule lc_table_extend)
  done

lemma block_cache_ok_entry:
  assumes "block_cache_ok tbl cache_id verify handles c" and "s < kNumShards"
  shows "table_shape (lc_table (get_shard s c))"
    and "e \<in> chained (lc_table (get_shard s c)) \<Longrightarrow> e < hs_fresh (sc_store c) \<and>
      block_agrees tbl cache_id verify handles (lh_key (hs_handle (sc_store c) e)) (lh_value (hs_handle (sc_store c) e))"
  using assms by (auto simp: block_cache_ok_def Let_def)

lemma block_cache_ok_shrinks:
  assumes ok: "block_cache_ok tbl cache_id verify handles c" and s: "s < kNumShards" and l: "shrinks (get_shard s c) l"
  shows "block_cache_ok tbl cache_id verify handles (put_shard s l c)"
proof -
  have len: "length (sc_shard c) = kNumShards" using ok by (simp add: block_cache_ok_def)
  have "table_shape (lc_table (get_shard i (put_shard s l c))) \<and> (\<forall>e \<in> chained (lc_table (get_shard i (put_shard s l c))).
      e < hs_fresh l \<and> block_agrees tbl cache_id verify handles (lh_key (hs_handle l e)) (lh_value (hs_handle l e)))"
    if i: "i < kNumShards" for i
    using block_cache_ok_entry [OF ok i] l s len by (cases "i = s") (auto simp: shrinks_def)
  then show ?thesis using len by (simp add: block_cache_ok_def Let_def)
qed

lemma block_cache_ok_insert:
  assumes ok: "block_cache_ok tbl cache_id verify handles c" and s: "s < kNumShards"
    and ins: "LRUCache_Insert key hash v charge (get_shard s c) = Some (e, l)" and v: "block_agrees tbl cache_id verify handles key v"
  shows "block_cache_ok tbl cache_id verify handles (put_shard s l c)" and "lh_value (hs_handle l e) = v"
proof -
  note E = Insert_entries [OF ins]
  have len: "length (sc_shard c) = kNumShards" using ok by (simp add: block_cache_ok_def)
  have entry: "d < hs_fresh l \<and> block_agrees tbl cache_id verify handles (lh_key (hs_handle l d)) (lh_value (hs_handle l d))"
    if "d = e \<or> d \<in> chained (lc_table (get_shard i c))" "i < kNumShards" for d i
    using that block_cache_ok_entry(2) [OF ok that(2), of d] E(1,2,5,6) E(7) [of d] v by (cases "d = e") auto
  have "table_shape (lc_table (get_shard i (put_shard s l c))) \<and> (\<forall>e \<in> chained (lc_table (get_shard i (put_shard s l c))).
      e < hs_fresh l \<and> block_agrees tbl cache_id verify handles (lh_key (hs_handle l e)) (lh_value (hs_handle l e)))"
    if i: "i < kNumShards" for i
    using block_cache_ok_entry(1) [OF ok i] entry [of _ i] i E(3,4) s len by (cases "i = s") auto
  then show "block_cache_ok tbl cache_id verify handles (put_shard s l c)" using len by (simp add: block_cache_ok_def Let_def)
  show "lh_value (hs_handle l e) = v" by (rule E(6))
qed

lemma block_cache_ok_Lookup:
  assumes ok: "block_cache_ok tbl cache_id verify handles c" and "Cache_Lookup key c = (r, c')"
  shows "block_cache_ok tbl cache_id verify handles c'" and "r = Some e \<Longrightarrow> block_agrees tbl cache_id verify handles key (Cache_Value e c')"
proof -
  let ?s = "Shard (HashSlice key)"
  obtain l where l: "LRUCache_Lookup key (HashSlice key) (get_shard ?s c) = (r, l)" "c' = put_shard ?s l c"
    using assms(2) by (auto simp: Cache_Lookup_def Let_def split: prod.splits)
  note L = Lookup_entries [OF l(1)]
  show "block_cache_ok tbl cache_id verify handles c'" unfolding l(2) by (rule block_cache_ok_shrinks [OF ok Shard_bound L(1)])
  show "block_agrees tbl cache_id verify handles key (Cache_Value e c')" if "r = Some e"
    using L(2) [OF block_cache_ok_entry(1) [OF ok Shard_bound] that] block_cache_ok_entry(2) [OF ok Shard_bound [of "HashSlice key"], of e] L(1)
    by (simp add: l(2) Cache_Value_def shrinks_def)
qed

lemma block_cache_ok_Release:
  "block_cache_ok tbl cache_id verify handles c \<Longrightarrow> block_cache_ok tbl cache_id verify handles (Cache_Release e c)"
  by (simp add: Cache_Release_def LRUCache_Release_def Let_def block_cache_ok_shrinks Shard_bound shrinks_Unref)

lemma block_cache_ok_Insert:
  assumes "block_cache_ok tbl cache_id verify handles c" and "Cache_Insert key v charge c = Some (e, c')"
    and "block_agrees tbl cache_id verify handles key v"
  shows "block_cache_ok tbl cache_id verify handles c'" and "Cache_Value e c' = v"
  using assms block_cache_ok_insert [OF assms(1) Shard_bound _ assms(3)]
  by (auto simp: Cache_Insert_def Let_def bind_eq_Some_conv Cache_Value_def)

lemma block_cache_ok_new:
  assumes "NewLRUCache capacity = Some c"
  shows "block_cache_ok tbl cache_id verify handles c"
proof -
  obtain l :: "block lru_cache" where l: "LRUCache ((capacity + (of_nat kNumShards - 1)) div of_nat kNumShards) handle_store = Some l"
    "c = \<lparr>sc_store = handle_store, sc_shard = replicate kNumShards (handle_store.more l), sc_last_id = 0\<rparr>"
    using assms by (auto simp: NewLRUCache_def Let_def bind_eq_Some_conv)
  then obtain t where t: "Resize (hs_handle (handle_store :: block handle_store)) \<lparr>ht_length = 0, ht_elems = 0, ht_list = []\<rparr> = Some t"
    "l = handle_store.extend (handle_store :: block handle_store) (lru_cache.fields ((capacity + (of_nat kNumShards - 1)) div of_nat kNumShards) 0 [] [] t)"
    by (auto simp: LRUCache_def HandleTable_def bind_eq_Some_conv)
  have "chained t = {}" using chained_Resize [OF t(1)] by (simp add: chained_def)
  moreover have "lc_table (get_shard s c) = t" if "s < kNumShards" for s
    using that by (simp add: get_shard_def l(2) t(2) handle_store.defs lru_cache.defs)
  ultimately show ?thesis using shape_Resize [OF t(1)] by (simp add: block_cache_ok_def l(2) Let_def)
qed

text \<open>
  With a cache that holds only what reading gives, a block is what it is without the cache, and the cache stays so, also when
  the iterator is deleted.
\<close>

lemma read_cached_reads:
  assumes ok: "block_cache_ok tbl cache_id (ro_verify_checksums options) handles c" and inj: "inj_on bh_offset handles" and h: "handle \<in> handles"
    and run: "read_cached tbl cache_id options handle c = Some (s, block, r, c')"
  shows "block_cache_ok tbl cache_id (ro_verify_checksums options) handles c'"
    and "\<exists>contents. table_ReadBlock (tbl_file tbl) (ro_verify_checksums options) handle = Some (s, contents) \<and>
      block = (if ok s then Some (Block (bc_data contents)) else None)"
proof -
  let ?key = "block_cache_key cache_id (bh_offset handle)" and ?read = "table_ReadBlock (tbl_file tbl) (ro_verify_checksums options) handle"
  let ?ok = "block_cache_ok tbl cache_id (ro_verify_checksums options) handles"
  obtain l c1 where l: "Cache_Lookup ?key c = (l, c1)" by force
  note L = block_cache_ok_Lookup [OF ok l]
  have "?ok c' \<and> (\<exists>contents. ?read = Some (s, contents) \<and> block = (if ok s then Some (Block (bc_data contents)) else None))"
  proof (cases l)
    case (Some e)
    then have "c' = c1" "s = Status_OK" "block = Some (Cache_Value e c1)" using run l by (auto simp: read_cached_def Let_def)
    then show ?thesis using L(1) L(2) [OF Some] h by (auto simp: block_agrees_def ok_iff)
  next
    case None
    then obtain contents where read: "?read = Some (s, contents)" and rest: "if ok s then
        (let b = Block (bc_data contents) in block = Some b \<and>
          (if bc_cachable contents \<and> ro_fill_cache options then \<exists>e. Cache_Insert ?key b (word_of_nat (blk_size b)) c1 = Some (e, c') else c' = c1))
        else block = None \<and> c' = c1"
      using run l by (auto simp: read_cached_def Let_def bind_eq_Some_conv split: if_splits)
    have "block_agrees tbl cache_id (ro_verify_checksums options) handles ?key (Block (bc_data contents))" if "ok s"
      using read that inj h block_cache_key_inject unfolding block_agrees_def ok_iff inj_on_def by blast
    then show ?thesis
      using read rest L(1) block_cache_ok_Insert(1) [OF L(1)] by (auto simp: Let_def split: if_splits)
  qed
  then show "?ok c'" and "\<exists>contents. ?read = Some (s, contents) \<and> block = (if ok s then Some (Block (bc_data contents)) else None)"
    by blast+
qed

lemma CachedBlockReader_reads:
  assumes ok: "block_cache_ok tbl cache_id (ro_verify_checksums options) handles c" and inj: "inj_on bh_offset handles"
    and handle: "BlockHandle_DecodeFrom new_BlockHandle index_value = (s, handle, input)" "ok s \<Longrightarrow> handle \<in> handles"
    and run: "CachedBlockReader tbl cache_id options index_value (Some c) = Some (it, cleanup, block_cache)"
  shows "BlockReader tbl options index_value = Some it"
    and "\<exists>c'. block_cache = Some c' \<and> block_cache_ok tbl cache_id (ro_verify_checksums options) handles c' \<and>
      (\<exists>c''. run_block_cleanup cleanup block_cache = Some c'' \<and> block_cache_ok tbl cache_id (ro_verify_checksums options) handles c'')"
proof -
  let ?ok = "block_cache_ok tbl cache_id (ro_verify_checksums options) handles"
  have clean: "\<exists>c''. run_block_cleanup cleanup (Some c') = Some c'' \<and> ?ok c''" if "?ok c'" for c'
    using that block_cache_ok_Release by (auto simp: run_block_cleanup_def split: block_cleanup.splits)
  have "BlockReader tbl options index_value = Some it \<and> (\<exists>c'. block_cache = Some c' \<and> ?ok c')"
  proof (cases "ok s")
    case False
    then show ?thesis using run handle(1) ok by (auto simp: CachedBlockReader_def BlockReader_def)
  next
    case True
    then obtain s1 b r c' where read: "read_cached tbl cache_id options handle c = Some (s1, b, r, c')" and "block_cache = Some c'"
      and it: "it = (case b of Some b \<Rightarrow> Block_NewIterator b | None \<Rightarrow> EmptyIterator (NewErrorIterator s1))"
      using run handle(1) by (auto simp: CachedBlockReader_def bind_eq_Some_conv split: option.splits)
    note R = read_cached_reads [OF ok inj handle(2) [OF True] read]
    then show ?thesis using True handle(1) it \<open>block_cache = Some c'\<close> by (auto simp: BlockReader_def)
  qed
  then show "BlockReader tbl options index_value = Some it" "\<exists>c'. block_cache = Some c' \<and> ?ok c' \<and> (\<exists>c''. run_block_cleanup cleanup block_cache = Some c'' \<and> ?ok c'')"
    using clean by blast+
qed

end
