(* ===== verification/LDB_DbRead.thy ===== *)
theory LDB_DbRead
  imports LDB_CompactionWork LDB_DbIter
begin

text \<open>
  The operations of \<^verbatim>\<open>db/db_impl.cc\<close> that read: \<^verbatim>\<open>Get\<close>, iterators, snapshots, properties and approximate sizes, and the
  manual compactions. A memtable that an iterator or a lookup still uses outlives its replacement, so its
  references need not be counted here.
\<close>

subsection \<open>Lookups\<close>

definition read_snapshot :: "read_options \<Rightarrow> ('e, 'w) db_state \<Rightarrow> sequence_number" where
  "read_snapshot options db =
     (case ro_snapshot options of Some number \<Rightarrow> number | None \<Rightarrow> vs_last_sequence (db_versions db))"

text \<open>The answer of a memtable, when it has one.\<close>

definition mem_answer :: "memtable \<Rightarrow> lookup_key \<Rightarrow> bytes \<Rightarrow> (status \<times> bytes) option option" where
  "mem_answer mem lkey value =
     (case MemTable_Get mem lkey of
        None \<Rightarrow> None
      | Some (Found v) \<Rightarrow> Some (Some (Status_OK, v))
      | Some Deleted \<Rightarrow> Some (Some (Status_NotFound [] [], value))
      | Some Missing \<Rightarrow> Some None)"

definition set_current_stats :: "bool \<times> file_store \<times> version \<Rightarrow> ('e, 'w) db_state \<Rightarrow> ('e, 'w) db_state" where
  "set_current_stats = (\<lambda>(compact, h, v) db.
     let st = db_versions db;
         db = db\<lparr>db_versions := st\<lparr>vh_files := h, vh_versions := (vh_versions st)(the (vs_current st) := v)\<rparr>\<rparr>
     in if compact then MaybeScheduleCompaction db else db)"

definition DBImpl_Get ::
    "('e, 'w, 'r, 'd) db_params \<Rightarrow> read_options \<Rightarrow> bytes \<Rightarrow> bytes \<Rightarrow> ('e, 'w) db_state \<Rightarrow>
     (status \<times> bytes \<times> ('e, 'w) db_state) option" where
  "DBImpl_Get p options key value db =
     (let lkey = LookupKey key (read_snapshot options db);
          current = the (vs_current (db_versions db));
          unref = (\<lambda>db. db\<lparr>db_versions := Version_Unref current (db_versions db)\<rparr>);
          db = db\<lparr>db_versions := Version_Ref current (db_versions db)\<rparr>
      in do {
        answer \<leftarrow> mem_answer (db_mem db) lkey value;
        answer \<leftarrow> (case (answer, db_imm db) of (None, Some imm) \<Rightarrow> mem_answer imm lkey value | _ \<Rightarrow> Some answer);
        Some (case answer of
            Some (s, value) \<Rightarrow> (s, value, unref db)
          | None \<Rightarrow>
              let st = db_versions db;
                  (s, value, stats) = Version_Get (db_ucmp db) (dp_table_cache p (db_env db) options) (vh_files st) (current_version st) lkey value;
                  db = set_current_stats (UpdateStats stats (vh_files st) (current_version st)) db
              in (s, value, unref db))
      })"

subsection \<open>Iterators\<close>

type_synonym 'd child_iter = "skip_iter + 'd + (nat, 'd) two_level_iter"

text \<open>The children with their classes: the memtables, then what \<^verbatim>\<open>AddIterators\<close> adds.\<close>

definition version_classes ::
    "(bytes \<Rightarrow> bytes \<Rightarrow> int) \<Rightarrow> 'd table_source \<Rightarrow> file_store \<Rightarrow> version \<Rightarrow> ('d + (nat, 'd) two_level_iter) iterator_class list" where
  "version_classes icmp cache h v =
     (let ops = (\<lambda>files. either_class (ts_class cache) (TwoLevel_class (level_env icmp cache files)))
      in map (\<lambda>f. ops []) (level_files h v 0) @
         map (\<lambda>level. ops (level_files h v level)) (filter (\<lambda>level. v_files v level \<noteq> []) [1..<kNumLevels]))"

definition internal_children ::
    "('e, 'w, 'r, 'd) db_params \<Rightarrow> read_options \<Rightarrow> ('e, 'w) db_state \<Rightarrow> ('d child_iter iterator_class \<times> 'd child_iter) list" where
  "internal_children p options db =
     (let st = db_versions db; cache = dp_table_cache p (db_env db) options; icmp = InternalKey_Compare (db_ucmp db);
          tables = zip (version_classes icmp cache (vh_files st) (current_version st))
            (AddIterators icmp cache (vh_files st) (current_version st) []);
          mem = (\<lambda>m. (either_class (MemTableIterator_class m) (either_class (ts_class cache) (TwoLevel_class (level_env icmp cache []))),
            Inl MemTable_NewIterator))
      in mem (db_mem db) # (case db_imm db of Some imm \<Rightarrow> [mem imm] | None \<Rightarrow> []) @
         map (\<lambda>(ops, it). (either_class (MemTableIterator_class (db_mem db)) ops, Inr it)) tables)"

text \<open>The iterator with the classes of its children, the latest snapshot, the seed, and the version that it refers to.\<close>

definition NewInternalIterator ::
    "('e, 'w, 'r, 'd) db_params \<Rightarrow> read_options \<Rightarrow> ('e, 'w) db_state \<Rightarrow>
     ('d child_iter iterator_class list \<times> 'd child_iter merged) \<times> sequence_number \<times> u32 \<times> version_ptr \<times> ('e, 'w) db_state" where
  "NewInternalIterator p options db =
     (let list = internal_children p options db; current = the (vs_current (db_versions db)); seed = db_seed db + 1
      in ((map fst list, NewMergingIterator (map fst list) (map snd list)), vs_last_sequence (db_versions db), seed, current,
          db\<lparr>db_versions := Version_Ref current (db_versions db), db_seed := seed\<rparr>))"

definition CleanupIteratorState :: "version_ptr \<Rightarrow> ('e, 'w) db_state \<Rightarrow> ('e, 'w) db_state" where
  "CleanupIteratorState v db = db\<lparr>db_versions := Version_Unref v (db_versions db)\<rparr>"

definition DBImpl_NewIterator ::
    "('e, 'w, 'r, 'd) db_params \<Rightarrow> read_options \<Rightarrow> ('e, 'w) db_state \<Rightarrow>
     'd child_iter merged db_iter iterator_class \<times> 'd child_iter merged db_iter \<times> version_ptr \<times> ('e, 'w) db_state" where
  "DBImpl_NewIterator p options db =
     (let ((opss, iter), latest_snapshot, seed, v, db) = NewInternalIterator p options db;
          snapshot = (case ro_snapshot options of Some number \<Rightarrow> number | None \<Rightarrow> latest_snapshot)
      in (DBIter_class (merged_class (InternalKey_Compare (db_ucmp db)) opss) (db_ucmp db),
          NewDBIterator iter snapshot seed, v, db))"

definition DBImpl_RecordReadSample :: "bytes \<Rightarrow> ('e, 'w) db_state \<Rightarrow> ('e, 'w) db_state" where
  "DBImpl_RecordReadSample key db =
     (let st = db_versions db in set_current_stats (RecordReadSample (db_ucmp db) key (vh_files st) (current_version st)) db)"

subsection \<open>Snapshots\<close>

definition GetSnapshot :: "('e, 'w) db_state \<Rightarrow> nat \<times> ('e, 'w) db_state" where
  "GetSnapshot db =
     (let (s, l) = SnapshotList_New (vs_last_sequence (db_versions db)) (db_snapshots db) in (s, db\<lparr>db_snapshots := l\<rparr>))"

definition ReleaseSnapshot :: "nat \<Rightarrow> ('e, 'w) db_state \<Rightarrow> ('e, 'w) db_state" where
  "ReleaseSnapshot s db = db\<lparr>db_snapshots := SnapshotList_Delete s (db_snapshots db)\<rparr>"

subsection \<open>Properties and sizes\<close>

text \<open>The table of \<^verbatim>\<open>leveldb.stats\<close>, which shows times, and the charge of the block cache are arguments.\<close>

definition GetProperty :: "bytes \<Rightarrow> nat \<Rightarrow> bytes \<Rightarrow> ('e, 'w) db_state \<Rightarrow> bytes option" where
  "GetProperty stats_table block_cache_charge property db =
     (let prefix = str ''leveldb.''; per_level = str ''num-files-at-level''
      in if \<not> starts_with property prefix then None
         else
           let rest = drop (length prefix) property
           in if starts_with rest per_level then
                (case ConsumeDecimalNumber (drop (length per_level) rest) of
                   (True, Some level, []) \<Rightarrow>
                     if unat level \<ge> kNumLevels then None else Some (decimal (NumLevelFiles (db_versions db) (unat level)))
                 | _ \<Rightarrow> None)
              else if rest = str ''stats'' then Some stats_table
              else if rest = str ''sstables'' then
                Some (Version_DebugString (vh_files (db_versions db)) (current_version (db_versions db)))
              else if rest = str ''approximate-memory-usage'' then
                Some (decimal (block_cache_charge + ApproximateMemoryUsage (db_mem db) +
                  (case db_imm db of Some imm \<Rightarrow> ApproximateMemoryUsage imm | None \<Rightarrow> 0)))
              else None)"

text \<open>The size of each range; where a key would be in a table file is asked of the table cache.\<close>

definition GetApproximateSizes ::
    "(u64 \<Rightarrow> u64 \<Rightarrow> bytes \<Rightarrow> u64 option) \<Rightarrow> (bytes \<times> bytes) list \<Rightarrow> ('e, 'w) db_state \<Rightarrow> u64 list" where
  "GetApproximateSizes offset_in ranges db =
     map (\<lambda>(start_key, limit_key).
         let offset_of = (\<lambda>key. VersionSet_ApproximateOffsetOf offset_in (db_versions db) (current_version (db_versions db))
               (InternalKey key kMaxSequenceNumber kValueTypeForSeek));
             start = offset_of start_key; limit = offset_of limit_key
         in if limit \<ge> start then limit - start else 0) ranges"

subsection \<open>Manual compactions\<close>

definition max_level_with_files :: "bytes option \<Rightarrow> bytes option \<Rightarrow> ('e, 'w) db_state \<Rightarrow> nat" where
  "max_level_with_files begin_key end_key db =
     (let st = db_versions db
      in fold (\<lambda>level max_level.
           if OverlapInLevel (db_ucmp db) (vh_files st) (current_version st) level begin_key end_key then level else max_level)
         [1..<kNumLevels] 1)"

definition new_manual_compaction :: "nat \<Rightarrow> bytes option \<Rightarrow> bytes option \<Rightarrow> manual_compaction" where
  "new_manual_compaction level begin_key end_key =
     \<lparr>mc_level = level, mc_done = False,
      mc_begin = map_option (\<lambda>key. InternalKey key kMaxSequenceNumber kValueTypeForSeek) begin_key,
      mc_end = map_option (\<lambda>key. InternalKey key 0 0) end_key\<rparr>"

text \<open>
  One round of the loop that waits for a manual compaction: whether it is over, and the state. When another compaction
  runs it waits for \<^verbatim>\<open>bg_cv_\<close>.
\<close>

definition CompactRange_round :: "manual_compaction \<Rightarrow> ('e, 'w) db_state \<Rightarrow> bool \<times> ('e, 'w) db_state" where
  "CompactRange_round manual db =
     (if \<not> mc_done manual \<and> \<not> db_shutting_down db \<and> ok (db_bg_error db) then
        (False, if db_manual_compaction db = None
                then MaybeScheduleCompaction (db\<lparr>db_manual_compaction := Some manual\<rparr>) else db)
      else (True, db))"

end
