(* ===== verification/LDB_DbWrite.thy ===== *)
theory LDB_DbWrite
  imports LDB_CompactionWork LDB_WriteBatch
begin

text \<open>
  The write path of \<^verbatim>\<open>db/db_impl.cc\<close>: the queue of writers, the group of batches that the writer at its front commits, and
  the room that it makes in the memtable. The threads take turns: each function here is what a thread does
  between two places where it gives up the mutex, and \<^verbatim>\<open>Write\<close> is the sequence of them, in which other threads
  may run between any two. A writer is known by the address of its \<^verbatim>\<open>Writer\<close> object.
\<close>

subsection \<open>Writers\<close>

record writer =
  w_status :: status
  w_batch :: "bytes option"
  w_sync :: bool
  w_done :: bool

type_synonym writer_ptr = nat

text \<open>
  Where the writer at the front is: before its turn, in the loop of \<^verbatim>\<open>MakeRoomForWrite\<close> with its variables, or with its group
  at the log, without the mutex.
\<close>

record write_group =
  wg_updates :: bytes
  wg_is_tmp :: bool
  wg_last_writer :: writer_ptr
  wg_last_sequence :: u64

datatype turn = Waiting | MakingRoom bool bool | Logging write_group

record ('e, 'w) write_state =
  ws_db :: "('e, 'w) db_state"
  ws_writer :: "writer_ptr \<Rightarrow> writer"
  ws_writers :: "writer_ptr list"
  ws_tmp_batch :: bytes
  ws_turn :: turn
  ws_returned :: "writer_ptr \<Rightarrow> status option"

subsection \<open>Groups of batches\<close>

fun group_loop ::
    "(writer_ptr \<Rightarrow> writer) \<Rightarrow> writer_ptr \<Rightarrow> nat \<Rightarrow> writer_ptr list \<Rightarrow> nat \<Rightarrow> bool \<Rightarrow> bytes \<Rightarrow> writer_ptr \<Rightarrow>
     bool \<times> bytes \<times> writer_ptr" where
  "group_loop wr front max_size [] group_size is_tmp tmp last_writer = (is_tmp, tmp, last_writer)"
| "group_loop wr front max_size (w # ws) group_size is_tmp tmp last_writer =
     (if w_sync (wr w) \<and> \<not> w_sync (wr front) then (is_tmp, tmp, last_writer)
      else case w_batch (wr w) of
        None \<Rightarrow> group_loop wr front max_size ws group_size is_tmp tmp w
      | Some batch \<Rightarrow>
          let group_size = group_size + length batch
          in if group_size > max_size then (is_tmp, tmp, last_writer)
             else
               let tmp = (if \<not> is_tmp then WriteBatch_Append tmp (the (w_batch (wr front))) else tmp)
               in group_loop wr front max_size ws group_size True (WriteBatch_Append tmp batch) w)"

definition max_group_size :: "nat \<Rightarrow> nat" where
  "max_group_size group_size = (if group_size \<le> 128 * 2 ^ 10 then group_size + 128 * 2 ^ 10 else 2 ^ 20)"

text \<open>The batch of the group with whether it is \<^verbatim>\<open>tmp_batch_\<close>, what that batch is then, and the last writer of the group.\<close>

definition BuildBatchGroup :: "(writer_ptr \<Rightarrow> writer) \<Rightarrow> writer_ptr list \<Rightarrow> bytes \<Rightarrow> bytes \<times> bool \<times> bytes \<times> writer_ptr" where
  "BuildBatchGroup wr writers tmp_batch =
     (let front = hd writers; batch = the (w_batch (wr front));
          (is_tmp, tmp, last_writer) = group_loop wr front (max_group_size (length batch)) (tl writers) (length batch) False tmp_batch front
      in (if is_tmp then tmp else batch, is_tmp, tmp, last_writer))"

subsection \<open>Making room\<close>

datatype room = Return status | Delay | Wait | Switched

definition switch_memtable ::
    "('e, 'w, 'r, 'd) db_params \<Rightarrow> ('e, 'w) db_state \<Rightarrow> room \<times> ('e, 'w) db_state" where
  "switch_memtable p db =
     (let (new_log_number, versions) = NewFileNumber (db_versions db)
      in case NewWritableFile (dp_env p) (LogFileName (dp_dbname p) new_log_number) (db_env db) of
           (s, None, e) \<Rightarrow> (Return s, db\<lparr>db_versions := ReuseFileNumber new_log_number versions, db_env := e\<rparr>)
         | (s, Some lfile, e) \<Rightarrow>
             let e = (case db_log db of Some lg \<Rightarrow> snd (file_Close (dp_env p) (lw_dest lg) e) | None \<Rightarrow> e)
             in (Switched, MaybeScheduleCompaction
                   (db\<lparr>db_versions := versions, db_env := e, db_logfile_number := new_log_number, db_log := Some (Writer lfile),
                       db_imm := Some (db_mem db), db_mem := MemTable_Ref (MemTable (dp_heap p) (dp_user_comparator p))\<rparr>)))"

text \<open>One round of the loop; \<^const>\<open>Delay\<close> and \<^const>\<open>Wait\<close> give up the mutex.\<close>

definition MakeRoom_round ::
    "('e, 'w, 'r, 'd) db_params \<Rightarrow> bool \<Rightarrow> bool \<Rightarrow> ('e, 'w) db_state \<Rightarrow> room \<times> ('e, 'w) db_state" where
  "MakeRoom_round p force allow_delay db =
     (if \<not> ok (db_bg_error db) then (Return (db_bg_error db), db)
      else if allow_delay \<and> NumLevelFiles (db_versions db) 0 \<ge> kL0_SlowdownWritesTrigger then (Delay, db)
      else if \<not> force \<and> ApproximateMemoryUsage (db_mem db) \<le> opt_write_buffer_size (dp_options p) then (Return Status_OK, db)
      else if db_imm db \<noteq> None then (Wait, db)
      else if NumLevelFiles (db_versions db) 0 \<ge> kL0_StopWritesTrigger then (Wait, db)
      else switch_memtable p db)"

subsection \<open>Write\<close>

definition Write_enqueue :: "writer_ptr \<Rightarrow> bytes option \<Rightarrow> bool \<Rightarrow> ('e, 'w) write_state \<Rightarrow> ('e, 'w) write_state" where
  "Write_enqueue w my_batch sync s =
     s\<lparr>ws_writer := (ws_writer s)(w := \<lparr>w_status = Status_OK, w_batch = my_batch, w_sync = sync, w_done = False\<rparr>),
       ws_writers := ws_writers s @ [w], ws_returned := (ws_returned s)(w := None)\<rparr>"

text \<open>A writer that another one has finished.\<close>

definition Write_wake :: "writer_ptr \<Rightarrow> ('e, 'w) write_state \<Rightarrow> ('e, 'w) write_state" where
  "Write_wake w s = s\<lparr>ws_returned := (ws_returned s)(w \<mapsto> w_status (ws_writer s w))\<rparr>"

fun pop_writers ::
    "writer_ptr \<Rightarrow> writer_ptr \<Rightarrow> status \<Rightarrow> writer_ptr list \<Rightarrow> (writer_ptr \<Rightarrow> writer) \<Rightarrow> writer_ptr list \<times> (writer_ptr \<Rightarrow> writer)" where
  "pop_writers me last_writer status [] wr = ([], wr)"
| "pop_writers me last_writer status (ready # writers) wr =
     (let wr = (if ready \<noteq> me then wr(ready := (wr ready)\<lparr>w_status := status, w_done := True\<rparr>) else wr)
      in if ready = last_writer then (writers, wr) else pop_writers me last_writer status writers wr)"

definition Write_finish :: "writer_ptr \<Rightarrow> writer_ptr \<Rightarrow> status \<Rightarrow> ('e, 'w) write_state \<Rightarrow> ('e, 'w) write_state" where
  "Write_finish me last_writer status s =
     (let (writers, wr) = pop_writers me last_writer status (ws_writers s) (ws_writer s)
      in s\<lparr>ws_writers := writers, ws_writer := wr, ws_turn := Waiting, ws_returned := (ws_returned s)(me \<mapsto> status)\<rparr>)"

text \<open>The writer at the front takes its turn.\<close>

definition Write_lead :: "('e, 'w) write_state \<Rightarrow> ('e, 'w) write_state" where
  "Write_lead s =
     (let force = w_batch (ws_writer s (hd (ws_writers s))) = None in s\<lparr>ws_turn := MakingRoom force (\<not> force)\<rparr>)"

text \<open>With room made: the group is formed and numbered, and the mutex given up.\<close>

definition Write_group :: "('e, 'w) write_state \<Rightarrow> ('e, 'w) write_state" where
  "Write_group s =
     (let me = hd (ws_writers s); last_sequence = vs_last_sequence (db_versions (ws_db s));
          (updates, is_tmp, tmp, last_writer) = BuildBatchGroup (ws_writer s) (ws_writers s) (ws_tmp_batch s);
          updates = WriteBatch_SetSequence updates (last_sequence + 1)
      in s\<lparr>ws_tmp_batch := if is_tmp then updates else tmp,
           ws_writer := if is_tmp then ws_writer s
             else (ws_writer s)(me := (ws_writer s me)\<lparr>w_batch := Some updates\<rparr>),
           ws_turn := Logging \<lparr>wg_updates = updates, wg_is_tmp = is_tmp, wg_last_writer = last_writer,
             wg_last_sequence = last_sequence + ucast (WriteBatch_Count updates)\<rparr>\<rparr>)"

definition Write_room :: "('e, 'w, 'r, 'd) db_params \<Rightarrow> bool \<Rightarrow> bool \<Rightarrow> ('e, 'w) write_state \<Rightarrow> ('e, 'w) write_state" where
  "Write_room p force allow_delay s =
     (let me = hd (ws_writers s); (r, db) = MakeRoom_round p force allow_delay (ws_db s); s = s\<lparr>ws_db := db\<rparr>
      in case r of
           Delay \<Rightarrow> s\<lparr>ws_turn := MakingRoom force False\<rparr>
         | Wait \<Rightarrow> s
         | Switched \<Rightarrow> s\<lparr>ws_turn := MakingRoom False allow_delay\<rparr>
         | Return status \<Rightarrow>
             if ok status \<and> w_batch (ws_writer s me) \<noteq> None then Write_group s else Write_finish me me status s)"

text \<open>
  The group goes to the log and into the memtable: the status, whether a failed \<^verbatim>\<open>Sync\<close> left the log in doubt,
  and the state. The result is \<^const>\<open>None\<close> when a search in the skip list does not end.
\<close>

definition log_group ::
    "('e, 'w, 'r, 'd) db_params \<Rightarrow> bytes \<Rightarrow> bool \<Rightarrow> ('e, 'w) db_state \<Rightarrow> (status \<times> bool \<times> ('e, 'w) db_state) option" where
  "log_group p updates sync db =
     (let (s, lg, e) = log_AddRecord (dp_env p) (the (db_log db)) updates (db_env db);
          (s, sync_error, lg, e) =
            (if ok s \<and> sync then
               let (s, file, e) = file_Sync (dp_env p) (lw_dest lg) e in (s, \<not> ok s, with_dest lg file, e)
             else (s, False, lg, e));
          db = db\<lparr>db_log := Some lg, db_env := e\<rparr>
      in if ok s then
           case WriteBatch_InsertInto (\<lambda>seq type key value m. do { m \<leftarrow> m; MemTable_Add (dp_heap p) seq type key value m })
                  updates (Some (db_mem db)) of
             (s, Some mem) \<Rightarrow> Some (s, sync_error, db\<lparr>db_mem := mem\<rparr>)
           | (s, None) \<Rightarrow> None
         else Some (s, sync_error, db))"

definition Write_log :: "('e, 'w, 'r, 'd) db_params \<Rightarrow> write_group \<Rightarrow> ('e, 'w) write_state \<Rightarrow> ('e, 'w) write_state option" where
  "Write_log p g s =
     (let me = hd (ws_writers s) in do {
        (status, sync_error, db) \<leftarrow> log_group p (wg_updates g) (w_sync (ws_writer s me)) (ws_db s);
        let db = (if sync_error then RecordBackgroundError status db else db);
            db = db\<lparr>db_versions := SetLastSequence_vs (wg_last_sequence g) (db_versions db)\<rparr>;
            s = s\<lparr>ws_db := db, ws_tmp_batch := if wg_is_tmp g then WriteBatch_Clear else ws_tmp_batch s\<rparr>
        in Some (Write_finish me (wg_last_writer g) status s)
      })"

text \<open>The convenience methods write a batch of one operation.\<close>

definition DB_Put :: "bytes \<Rightarrow> bytes \<Rightarrow> bytes" where
  "DB_Put key value = WriteBatch_Put WriteBatch_Clear key value"

definition DB_Delete :: "bytes \<Rightarrow> bytes" where
  "DB_Delete key = WriteBatch_Delete WriteBatch_Clear key"

end
