(* ===== verification/LDB_DbOpen.thy ===== *)
theory LDB_DbOpen
  imports LDB_DbWrite
begin

text \<open>
  Opening and destroying a database in \<^verbatim>\<open>db/db_impl.cc\<close>: the recovery from the MANIFEST and the log files. Until \<^verbatim>\<open>mem_\<close> is set, it is
  a value of its own, which is \<^const>\<open>None\<close> for the null pointer.
\<close>

subsection \<open>Recovery from a log file\<close>

record 'r log_recovery =
  lv_reader :: "'r log_reader"
  lv_status :: status
  lv_mem :: "memtable option"
  lv_compactions :: nat
  lv_save_manifest :: bool
  lv_edit :: version_edit
  lv_max_sequence :: sequence_number

text \<open>The reporter writes to the status only with paranoid checks.\<close>

definition note_corruption :: "db_options \<Rightarrow> 'r log_recovery \<Rightarrow> 'r log_recovery" where
  "note_corruption options lv =
     (if opt_paranoid_checks options then lv\<lparr>lv_status := reported (lv_reader lv) (lv_status lv)\<rparr> else lv)"

definition insert_record ::
    "('e, 'w, 'r, 'd) db_params \<Rightarrow> bytes \<Rightarrow> 'r log_recovery \<Rightarrow> 'r log_recovery option" where
  "insert_record p batch lv =
     (let mem = (case lv_mem lv of Some m \<Rightarrow> m | None \<Rightarrow> MemTable_Ref (MemTable (dp_heap p) (dp_user_comparator p)))
      in case WriteBatch_InsertInto (\<lambda>seq type key value m. do { m \<leftarrow> m; MemTable_Add (dp_heap p) seq type key value m }) batch (Some mem) of
           (s, None) \<Rightarrow> None
         | (s, Some mem) \<Rightarrow> Some (lv\<lparr>lv_mem := Some mem, lv_status := MaybeIgnoreError (dp_options p) s\<rparr>))"

definition note_sequence :: "bytes \<Rightarrow> 'r log_recovery \<Rightarrow> 'r log_recovery" where
  "note_sequence batch lv =
     (let last_seq = WriteBatch_Sequence batch + ucast (WriteBatch_Count batch) - 1
      in if last_seq > lv_max_sequence lv then lv\<lparr>lv_max_sequence := last_seq\<rparr> else lv)"

text \<open>A memtable that became too big goes to level 0.\<close>

definition spill_memtable ::
    "('e, 'w, 'r, 'd) db_params \<Rightarrow> 'r log_recovery \<Rightarrow> ('e, 'w) db_state \<Rightarrow> ('r log_recovery \<times> ('e, 'w) db_state) option" where
  "spill_memtable p lv db =
     (if ApproximateMemoryUsage (the (lv_mem lv)) > opt_write_buffer_size (dp_options p) then do {
        (s, edit, db) \<leftarrow> WriteLevel0Table p (the (lv_mem lv)) (lv_edit lv) None db;
        Some (lv\<lparr>lv_compactions := lv_compactions lv + 1, lv_save_manifest := True, lv_status := s, lv_edit := edit, lv_mem := None\<rparr>, db)
      }
      else Some (lv, db))"

text \<open>The body of the loop for a record; the first component tells to leave the loop.\<close>

definition replay_record ::
    "('e, 'w, 'r, 'd) db_params \<Rightarrow> bytes \<Rightarrow> 'r log_recovery \<Rightarrow> ('e, 'w) db_state \<Rightarrow> (bool \<times> 'r log_recovery \<times> ('e, 'w) db_state) option" where
  "replay_record p record lv db =
     (if length record < 12 then
        Some (False, if opt_paranoid_checks (dp_options p) \<and> ok (lv_status lv)
                     then lv\<lparr>lv_status := Status_Corruption (str ''log record too small'') []\<rparr> else lv, db)
      else do {
        lv \<leftarrow> insert_record p record lv;
        if \<not> ok (lv_status lv) then Some (True, lv, db)
        else do {
          (lv, db) \<leftarrow> spill_memtable p (note_sequence record lv) db;
          Some (\<not> ok (lv_status lv), lv, db)
        }
      })"

partial_function (option) replay_loop ::
    "('e, 'w, 'r, 'd) db_params \<Rightarrow> 'r log_recovery \<Rightarrow> ('e, 'w) db_state \<Rightarrow> ('r log_recovery \<times> ('e, 'w) db_state) option" where
  "replay_loop p lv db = do {
     (record, reader) \<leftarrow> ReadRecord (file_Read (dp_env p)) (file_Skip (dp_env p)) (lv_reader lv);
     let lv = note_corruption (dp_options p) (lv\<lparr>lv_reader := reader\<rparr>)
     in if record = None \<or> \<not> ok (lv_status lv) then Some (lv, db)
        else do {
          (stop, lv, db) \<leftarrow> replay_record p (the record) lv db;
          if stop then Some (lv, db) else replay_loop p lv db
        }
   }"

text \<open>The last log goes on being used when the options say so: the memtable becomes \<^verbatim>\<open>mem_\<close>.\<close>

definition reuse_log ::
    "('e, 'w, 'r, 'd) db_params \<Rightarrow> u64 \<Rightarrow> 'r log_recovery \<Rightarrow> ('e, 'w) db_state \<Rightarrow> 'r log_recovery \<times> memtable option \<times> ('e, 'w) db_state" where
  "reuse_log p log_number lv db =
     (let fname = LogFileName (dp_dbname p) log_number; (s, lfile_size, e) = GetFileSize (dp_env p) fname (db_env db)
      in if \<not> ok s then (lv, None, db\<lparr>db_env := e\<rparr>)
         else
           case NewAppendableFile (dp_env p) fname e of
             (s, None, e) \<Rightarrow> (lv, None, db\<lparr>db_env := e\<rparr>)
           | (s, Some file, e) \<Rightarrow>
               (lv\<lparr>lv_mem := None\<rparr>,
                Some (case lv_mem lv of Some m \<Rightarrow> m | None \<Rightarrow> MemTable_Ref (MemTable (dp_heap p) (dp_user_comparator p))),
                db\<lparr>db_env := e, db_log := Some (Writer_at file lfile_size), db_logfile_number := log_number\<rparr>))"

definition RecoverLogFile ::
    "('e, 'w, 'r, 'd) db_params \<Rightarrow> u64 \<Rightarrow> bool \<Rightarrow> bool \<Rightarrow> version_edit \<Rightarrow> sequence_number \<Rightarrow> ('e, 'w) db_state \<Rightarrow>
     (status \<times> bool \<times> version_edit \<times> sequence_number \<times> memtable option \<times> ('e, 'w) db_state) option" where
  "RecoverLogFile p log_number last_log save_manifest edit max_sequence db =
     (case NewSequentialFile (dp_env p) (LogFileName (dp_dbname p) log_number) (db_env db) of
        (s, None, e) \<Rightarrow> Some (MaybeIgnoreError (dp_options p) s, save_manifest, edit, max_sequence, None, db\<lparr>db_env := e\<rparr>)
      | (s, Some file, e) \<Rightarrow> do {
          (lv, db) \<leftarrow> replay_loop p
            \<lparr>lv_reader = Reader file True True 0, lv_status = s, lv_mem = None, lv_compactions = 0,
             lv_save_manifest = save_manifest, lv_edit = edit, lv_max_sequence = max_sequence\<rparr> (db\<lparr>db_env := e\<rparr>);
          let (lv, mem, db) =
                (if ok (lv_status lv) \<and> opt_reuse_logs (dp_options p) \<and> last_log \<and> lv_compactions lv = 0
                 then reuse_log p log_number lv db else (lv, None, db));
          (lv, db) \<leftarrow>
            (case lv_mem lv of
               Some m \<Rightarrow>
                 if ok (lv_status lv) then do {
                   (s, edit, db) \<leftarrow> WriteLevel0Table p m (lv_edit lv) None db;
                   Some (lv\<lparr>lv_save_manifest := True, lv_status := s, lv_edit := edit\<rparr>, db)
                 }
                 else Some (lv, db)
             | None \<Rightarrow> Some (lv, db));
          Some (lv_status lv, lv_save_manifest lv, lv_edit lv, lv_max_sequence lv, mem, db)
        })"

subsection \<open>Recovery of a database\<close>

text \<open>The database is created where it may be; the status tells whether to go on.\<close>

definition create_or_check :: "('e, 'w, 'r, 'd) db_params \<Rightarrow> 'e \<Rightarrow> status \<times> 'e" where
  "create_or_check p e =
     (if \<not> dp_FileExists p (CurrentFileName (dp_dbname p)) e then
        if opt_create_if_missing (dp_options p) then NewDB p e
        else (Status_InvalidArgument (dp_dbname p) (str ''does not exist (create_if_missing is false)''), e)
      else if opt_error_if_exists (dp_options p)
      then (Status_InvalidArgument (dp_dbname p) (str ''exists (error_if_exists is true)''), e)
      else (Status_OK, e))"

text \<open>The files of the directory: the numbers of the logs that are needed, and which of the live files are missing.\<close>

definition scan_files :: "'w version_set \<Rightarrow> bytes list \<Rightarrow> u64 list \<times> u64 set" where
  "scan_files st filenames =
     fold (\<lambda>filename (logs, expected).
         case ParseFileName filename of
           Some (number, type) \<Rightarrow>
             (if type = kLogFile \<and> (number \<ge> vs_log_number st \<or> number = vs_prev_log_number st) then logs @ [number] else logs,
              expected - {number})
         | None \<Rightarrow> (logs, expected)) filenames ([], AddLiveFiles st {})"

fun recover_logs ::
    "('e, 'w, 'r, 'd) db_params \<Rightarrow> u64 list \<Rightarrow> bool \<Rightarrow> version_edit \<Rightarrow> sequence_number \<Rightarrow> memtable option \<Rightarrow> ('e, 'w) db_state \<Rightarrow>
     (status \<times> bool \<times> version_edit \<times> sequence_number \<times> memtable option \<times> ('e, 'w) db_state) option" where
  "recover_logs p [] save_manifest edit max_sequence mem db = Some (Status_OK, save_manifest, edit, max_sequence, mem, db)"
| "recover_logs p (lg # logs) save_manifest edit max_sequence mem db = do {
     (s, save_manifest, edit, max_sequence, mem', db) \<leftarrow> RecoverLogFile p lg (logs = []) save_manifest edit max_sequence db;
     let mem = (if mem' \<noteq> None then mem' else mem)
     in if \<not> ok s then Some (s, save_manifest, edit, max_sequence, mem, db)
        else recover_logs p logs save_manifest edit max_sequence mem
          (db\<lparr>db_versions := MarkFileNumberUsed lg (db_versions db)\<rparr>)
   }"

definition DBImpl_Recover ::
    "('e, 'w, 'r, 'd) db_params \<Rightarrow> version_edit \<Rightarrow> ('e, 'w) db_state \<Rightarrow>
     (status \<times> bool \<times> version_edit \<times> memtable option \<times> ('e, 'w) db_state) option" where
  "DBImpl_Recover p edit db =
     (let (created, e) = dp_CreateDir p (db_env db);
          (s, e) = dp_LockFile p (LockFileName (dp_dbname p)) e;
          (s, e) = (if ok s then create_or_check p e else (s, e))
      in if \<not> ok s then Some (s, False, edit, None, db\<lparr>db_env := e\<rparr>)
         else do {
           (s, save_manifest, st, e) \<leftarrow> Recover (dp_env p) (db_versions db) e;
           let db = db\<lparr>db_versions := st, db_env := e\<rparr>; (listed, filenames) = dp_GetChildren p e;
               (logs, expected) = scan_files st filenames
           in if \<not> ok s then Some (s, save_manifest, edit, None, db)
              else if \<not> ok listed then Some (listed, save_manifest, edit, None, db)
              else if expected \<noteq> {} then
                Some (Status_Corruption (decimal (card expected) @ str '' missing files; e.g.'') (TableFileName (dp_dbname p) (Min expected)),
                      save_manifest, edit, None, db)
              else do {
                (s, save_manifest, edit, max_sequence, mem, db) \<leftarrow> recover_logs p (sort logs) save_manifest edit 0 None db;
                Some (s, save_manifest, edit, mem,
                      if ok s \<and> vs_last_sequence (db_versions db) < max_sequence
                      then db\<lparr>db_versions := SetLastSequence_vs max_sequence (db_versions db)\<rparr> else db)
              }
         })"

subsection \<open>Open and destroy\<close>

text \<open>The constructor. The memtable stands for \<^verbatim>\<open>mem_\<close> until it is set; nothing looks at it before.\<close>

definition DBImpl :: "('e, 'w, 'r, 'd) db_params \<Rightarrow> 'e \<Rightarrow> ('e, 'w) db_state" where
  "DBImpl p e =
     \<lparr>db_env = e, db_versions = VersionSet (dp_dbname p) (dp_options p) (dp_user_comparator p), db_shutting_down = False,
      db_mem = MemTable (dp_heap p) (dp_user_comparator p), db_imm = None, db_logfile_number = 0, db_log = None, db_seed = 0,
      db_snapshots = SnapshotList, db_pending_outputs = {}, db_bg_compaction_scheduled = False, db_manual_compaction = None,
      db_bg_error = Status_OK\<rparr>"

definition new_log_and_memtable ::
    "('e, 'w, 'r, 'd) db_params \<Rightarrow> version_edit \<Rightarrow> ('e, 'w) db_state \<Rightarrow> status \<times> version_edit \<times> memtable option \<times> ('e, 'w) db_state" where
  "new_log_and_memtable p edit db =
     (let (new_log_number, versions) = NewFileNumber (db_versions db)
      in case NewWritableFile (dp_env p) (LogFileName (dp_dbname p) new_log_number) (db_env db) of
           (s, None, e) \<Rightarrow> (s, edit, None, db\<lparr>db_versions := versions, db_env := e\<rparr>)
         | (s, Some lfile, e) \<Rightarrow>
             (s, SetLogNumber new_log_number edit, Some (MemTable_Ref (MemTable (dp_heap p) (dp_user_comparator p))),
              db\<lparr>db_versions := versions, db_env := e, db_logfile_number := new_log_number, db_log := Some (Writer lfile)\<rparr>))"

text \<open>\<^verbatim>\<open>DB::Open\<close>; a database that cannot be opened is deleted again.\<close>

definition DB_Open :: "('e, 'w, 'r, 'd) db_params \<Rightarrow> 'e \<Rightarrow> (status \<times> ('e, 'w) db_state) option" where
  "DB_Open p e = do {
     (s, save_manifest, edit, mem, db) \<leftarrow> DBImpl_Recover p new_VersionEdit (DBImpl p e);
     let (s, edit, mem, db) = (if ok s \<and> mem = None then new_log_and_memtable p edit db else (s, edit, mem, db));
         (s, db) = (if ok s \<and> save_manifest
                    then LogAndApply_db p (SetLogNumber (db_logfile_number db) (SetPrevLogNumber 0 edit)) db else (s, db));
         db = (case mem of Some m \<Rightarrow> db\<lparr>db_mem := m\<rparr> | None \<Rightarrow> db)
     in Some (s, if ok s then MaybeScheduleCompaction (DeleteObsoleteFiles p db) else db)
   }"

text \<open>The destructor begins with asking the background thread to stop.\<close>

definition DBImpl_shut_down :: "('e, 'w) db_state \<Rightarrow> ('e, 'w) db_state" where
  "DBImpl_shut_down db = db\<lparr>db_shutting_down := True\<rparr>"

definition DestroyDB :: "('e, 'w, 'r, 'd) db_params \<Rightarrow> 'e \<Rightarrow> status \<times> 'e" where
  "DestroyDB p e =
     (let filenames = snd (dp_GetChildren p e)
      in if filenames = [] then (Status_OK, e)
         else
           let lockname = LockFileName (dp_dbname p); (result, e) = dp_LockFile p lockname e
           in if \<not> ok result then (result, e)
              else
                let (result, e) =
                      fold (\<lambda>filename (result, e).
                          case ParseFileName filename of
                            Some (number, type) \<Rightarrow>
                              if type \<noteq> kDBLockFile then
                                let (del, e) = DeleteFile (dp_env p) (dp_dbname p @ str ''/'' @ filename) e
                                in (if ok result \<and> \<not> ok del then del else result, e)
                              else (result, e)
                          | None \<Rightarrow> (result, e)) filenames (result, e);
                    (unlocked, e) = dp_UnlockFile p lockname e;
                    (deleted, e) = DeleteFile (dp_env p) lockname e;
                    (removed, e) = dp_DeleteDir p e
                in (result, e))"

end
