(* ===== verification/LDB_DbWriteSpec.thy ===== *)
theory LDB_DbWriteSpec
  imports LDB_DbWrite LDB_MemTableSpec
begin

text \<open>
  What a group of writers does: the writer at the front of the queue commits a prefix of the queue as one
  batch, with one record in the log and one status for all.
\<close>

subsection \<open>Groups\<close>

text \<open>The operations of a writer, given those of its batch; a writer without a batch has none.\<close>

definition group_ops :: "(writer_ptr \<Rightarrow> writer) \<Rightarrow> (writer_ptr \<Rightarrow> write_op list) \<Rightarrow> writer_ptr list \<Rightarrow> write_op list" where
  "group_ops wr ops ws = concat (map (\<lambda>w. if w_batch (wr w) = None then [] else ops w) ws)"

definition batch_size :: "(writer_ptr \<Rightarrow> writer) \<Rightarrow> writer_ptr \<Rightarrow> nat" where
  "batch_size wr w = (case w_batch (wr w) of None \<Rightarrow> 0 | Some b \<Rightarrow> length b)"

text \<open>
  The writer at a position of the queue joins the one at the front: it asks for a sync only when the front does, and all
  batches up to its own stay below the size limit.
\<close>

definition joins :: "(writer_ptr \<Rightarrow> writer) \<Rightarrow> writer_ptr list \<Rightarrow> nat \<Rightarrow> bool" where
  "joins wr queue i \<longleftrightarrow> (w_sync (wr (queue ! i)) \<longrightarrow> w_sync (wr (hd queue))) \<and>
     (w_batch (wr (queue ! i)) \<noteq> None \<longrightarrow>
       sum_list (map (batch_size wr) (take (Suc i) queue)) \<le> max_group_size (batch_size wr (hd queue)))"

lemma group_ops_simps [simp]:
  "group_ops wr ops [] = []" "group_ops wr ops (us @ ws) = group_ops wr ops us @ group_ops wr ops ws"
  "group_ops wr ops (w # ws) = (if w_batch (wr w) = None then [] else ops w) @ group_ops wr ops ws"
  by (simp_all add: group_ops_def)

text \<open>The loop over the writers behind those already taken, which are \<open>done\<close> with the operations \<open>acc\<close>.\<close>

lemma group_loop_result:
  assumes "\<forall>w \<in> set ws. \<forall>b. w_batch (wr w) = Some b \<longrightarrow> (\<exists>n. holds_ops b n (ops w))"
    and "if is_tmp then \<exists>n. holds_ops tmp n acc else tmp = WriteBatch_Clear \<and> (\<exists>n. holds_ops (the (w_batch (wr front))) n acc)"
    and "group_loop wr front max_size ws gs is_tmp tmp lw = (is_tmp', tmp', lw')"
  shows "\<exists>n \<le> length ws. lw' = last (lw # take n ws) \<and>
    (if is_tmp' then \<exists>k. holds_ops tmp' k (acc @ group_ops wr ops (take n ws)) else \<not> is_tmp \<and> tmp' = WriteBatch_Clear \<and> group_ops wr ops (take n ws) = []) \<and>
    (\<forall>i \<le> n. i < length ws \<longrightarrow> (i < n \<longleftrightarrow> (w_sync (wr (ws ! i)) \<longrightarrow> w_sync (wr front)) \<and>
      (w_batch (wr (ws ! i)) \<noteq> None \<longrightarrow> gs + sum_list (map (batch_size wr) (take (Suc i) ws)) \<le> max_size)))"
  using assms
proof (induction ws arbitrary: gs is_tmp tmp lw acc)
  case Nil
  then show ?case by (auto split: if_splits)
next
  case (Cons w ws)
  let ?goal = "\<lambda>n. lw' = last (lw # take n (w # ws)) \<and>
    (if is_tmp' then \<exists>k. holds_ops tmp' k (acc @ group_ops wr ops (take n (w # ws))) else \<not> is_tmp \<and> tmp' = WriteBatch_Clear \<and> group_ops wr ops (take n (w # ws)) = []) \<and>
    (\<forall>i \<le> n. i < length (w # ws) \<longrightarrow> (i < n \<longleftrightarrow> (w_sync (wr ((w # ws) ! i)) \<longrightarrow> w_sync (wr front)) \<and>
      (w_batch (wr ((w # ws) ! i)) \<noteq> None \<longrightarrow> gs + sum_list (map (batch_size wr) (take (Suc i) (w # ws))) \<le> max_size)))"
  have stop: ?case if "is_tmp' = is_tmp" "tmp' = tmp" "lw' = lw"
    "\<not> ((w_sync (wr w) \<longrightarrow> w_sync (wr front)) \<and> (w_batch (wr w) \<noteq> None \<longrightarrow> gs + batch_size wr w \<le> max_size))"
  proof -
    have "?goal 0" using that Cons.prems(2) by (auto split: if_splits)
    then show ?thesis by blast
  qed
  have go: ?case if join: "w_sync (wr w) \<longrightarrow> w_sync (wr front)" "w_batch (wr w) \<noteq> None \<longrightarrow> gs + batch_size wr w \<le> max_size"
    and new: "if is_tmp1 then \<exists>n. holds_ops tmp1 n (acc @ group_ops wr ops [w])
      else tmp1 = WriteBatch_Clear \<and> \<not> is_tmp \<and> group_ops wr ops [w] = [] \<and> (\<exists>n. holds_ops (the (w_batch (wr front))) n acc)"
    and rest: "group_loop wr front max_size ws (gs + batch_size wr w) is_tmp1 tmp1 w = (is_tmp', tmp', lw')" for is_tmp1 tmp1
  proof -
    have "\<forall>w \<in> set ws. \<forall>b. w_batch (wr w) = Some b \<longrightarrow> (\<exists>n. holds_ops b n (ops w))" using Cons.prems(1) by simp
    moreover have "if is_tmp1 then \<exists>n. holds_ops tmp1 n (acc @ group_ops wr ops [w])
        else tmp1 = WriteBatch_Clear \<and> (\<exists>n. holds_ops (the (w_batch (wr front))) n (acc @ group_ops wr ops [w]))" using new by auto
    ultimately obtain n where n: "n \<le> length ws" "lw' = last (w # take n ws)"
        "if is_tmp' then \<exists>k. holds_ops tmp' k ((acc @ group_ops wr ops [w]) @ group_ops wr ops (take n ws))
         else \<not> is_tmp1 \<and> tmp' = WriteBatch_Clear \<and> group_ops wr ops (take n ws) = []"
        "\<forall>i \<le> n. i < length ws \<longrightarrow> (i < n \<longleftrightarrow> (w_sync (wr (ws ! i)) \<longrightarrow> w_sync (wr front)) \<and>
          (w_batch (wr (ws ! i)) \<noteq> None \<longrightarrow> gs + batch_size wr w + sum_list (map (batch_size wr) (take (Suc i) ws)) \<le> max_size))"
      using Cons.IH [OF _ _ rest] by blast
    have "i \<le> Suc n \<longrightarrow> i < length (w # ws) \<longrightarrow> (i < Suc n \<longleftrightarrow> (w_sync (wr ((w # ws) ! i)) \<longrightarrow> w_sync (wr front)) \<and>
      (w_batch (wr ((w # ws) ! i)) \<noteq> None \<longrightarrow> gs + sum_list (map (batch_size wr) (take (Suc i) (w # ws))) \<le> max_size))" for i
      using n(4) [rule_format, of "i - 1"] join by (cases i) (simp_all add: add.assoc)
    moreover have "lw' = last (lw # take (Suc n) (w # ws))" using n(2) by simp
    moreover have "if is_tmp' then \<exists>k. holds_ops tmp' k (acc @ group_ops wr ops (take (Suc n) (w # ws)))
        else \<not> is_tmp \<and> tmp' = WriteBatch_Clear \<and> group_ops wr ops (take (Suc n) (w # ws)) = []"
      using n(3) new by (auto split: if_splits)
    ultimately have "?goal (Suc n)" by blast
    moreover have "Suc n \<le> length (w # ws)" using n(1) by simp
    ultimately show ?thesis by blast
  qed
  show ?case
  proof (cases "w_sync (wr w) \<and> \<not> w_sync (wr front)")
    case True
    then show ?thesis using Cons.prems(3) by (intro stop) auto
  next
    case sync: False
    show ?thesis
    proof (cases "w_batch (wr w)")
      case None
      then show ?thesis
        using sync Cons.prems(2,3) by (intro go [of is_tmp tmp]) (auto simp: batch_size_def split: if_splits)
    next
      case (Some b)
      then obtain k where b: "holds_ops b k (ops w)" using Cons.prems(1) by auto
      let ?tmp = "if \<not> is_tmp then WriteBatch_Append tmp (the (w_batch (wr front))) else tmp"
      have "\<exists>n. holds_ops ?tmp n acc"
        using Cons.prems(2) Append_holds [OF holds_Clear, of "the (w_batch (wr front))"] by (auto split: if_splits)
      then obtain n where n: "holds_ops ?tmp n acc" by blast
      have new: "\<exists>n. holds_ops (WriteBatch_Append ?tmp b) n (acc @ group_ops wr ops [w])"
        using Append_holds [OF n b] Some by (intro exI [of _ n]) simp
      show ?thesis
      proof (cases "gs + length b > max_size")
        case True
        then show ?thesis using sync Some Cons.prems(3) by (intro stop) (auto simp: batch_size_def)
      next
        case False
        then have "group_loop wr front max_size ws (gs + batch_size wr w) True (WriteBatch_Append ?tmp b) w = (is_tmp', tmp', lw')"
          using Cons.prems(3) Some sync by (simp add: Let_def batch_size_def)
        then show ?thesis using False Some sync new by (intro go [of True]) (auto simp: batch_size_def)
      qed
    qed
  qed
qed

text \<open>The front of the queue with those that join it.\<close>

lemma BuildBatchGroup_result:
  assumes "\<forall>w \<in> set (me # ws). \<forall>b. w_batch (wr w) = Some b \<longrightarrow> (\<exists>n. holds_ops b n (ops w))" and "w_batch (wr me) \<noteq> None"
    and "BuildBatchGroup wr (me # ws) WriteBatch_Clear = (updates, is_tmp, tmp, lw)"
  shows "\<exists>n. 0 < n \<and> n \<le> length (me # ws) \<and> lw = last (take n (me # ws)) \<and>
    (\<exists>k. holds_ops updates k (group_ops wr ops (take n (me # ws)))) \<and> (if is_tmp then tmp = updates else tmp = WriteBatch_Clear) \<and>
    (\<forall>i. 0 < i \<and> i \<le> n \<and> i < length (me # ws) \<longrightarrow> (i < n \<longleftrightarrow> joins wr (me # ws) i))"
proof -
  obtain b where b: "w_batch (wr me) = Some b" using assms(2) by blast
  obtain tmp' where loop: "group_loop wr me (max_group_size (length b)) ws (length b) False WriteBatch_Clear me = (is_tmp, tmp', lw)"
    and u: "updates = (if is_tmp then tmp' else b)" "tmp = tmp'"
    using assms(3) b by (auto simp: BuildBatchGroup_def Let_def split: prod.splits)
  obtain k where k: "holds_ops b k (ops me)" using assms(1) b by auto
  have "\<forall>w \<in> set ws. \<forall>b. w_batch (wr w) = Some b \<longrightarrow> (\<exists>n. holds_ops b n (ops w))" using assms(1) by simp
  moreover have "if False then \<exists>n. holds_ops WriteBatch_Clear n (ops me)
      else WriteBatch_Clear = WriteBatch_Clear \<and> (\<exists>n. holds_ops (the (w_batch (wr me))) n (ops me))" using b k by auto
  ultimately obtain n where n: "n \<le> length ws" "lw = last (me # take n ws)"
      "if is_tmp then \<exists>k. holds_ops tmp' k (ops me @ group_ops wr ops (take n ws)) else \<not> False \<and> tmp' = WriteBatch_Clear \<and> group_ops wr ops (take n ws) = []"
      "\<forall>i \<le> n. i < length ws \<longrightarrow> (i < n \<longleftrightarrow> (w_sync (wr (ws ! i)) \<longrightarrow> w_sync (wr me)) \<and>
        (w_batch (wr (ws ! i)) \<noteq> None \<longrightarrow> length b + sum_list (map (batch_size wr) (take (Suc i) ws)) \<le> max_group_size (length b)))"
    using group_loop_result [OF _ _ loop] by blast
  have "\<exists>k. holds_ops updates k (group_ops wr ops (take (Suc n) (me # ws)))"
    using n(3) u(1) b k by (auto split: if_splits)
  moreover have "if is_tmp then tmp = updates else tmp = WriteBatch_Clear" using n(3) u by simp
  moreover have "i < Suc n \<longleftrightarrow> joins wr (me # ws) i" if "0 < i \<and> i \<le> Suc n \<and> i < length (me # ws)" for i
    using n(4) [rule_format, of "i - 1"] that b by (cases i) (simp_all add: joins_def batch_size_def)
  ultimately show ?thesis using n(1,2) by (intro exI [of _ "Suc n"]) simp
qed

subsection \<open>Finishing a group\<close>

lemma pop_writers_result:
  "distinct (ws @ rest) \<Longrightarrow> ws \<noteq> [] \<Longrightarrow>
   pop_writers me (last ws) status (ws @ rest) wr =
     (rest, \<lambda>w. if w \<in> set ws \<and> w \<noteq> me then (wr w)\<lparr>w_status := status, w_done := True\<rparr> else wr w)"
proof (induction ws arbitrary: wr)
  case (Cons w ws)
  show ?case
  proof (cases "ws = []")
    case True
    then show ?thesis by (auto simp: Let_def fun_eq_iff)
  next
    case False
    then have "w \<noteq> last ws" using Cons.prems(1) by auto
    then show ?thesis using Cons False by (auto simp: Let_def fun_eq_iff)
  qed
qed simp

subsection \<open>The group in the log and in the memtable\<close>

lemma log_group_result:
  assumes c: "user_comparator (cmp_Compare c) S U" and rec: "holds_ops updates seq gops"
    and ops: "\<forall>a \<in> set gops. write_ok (op_write 0 a)" "unat seq + length gops \<le> 2 ^ 56"
    and us: "sorted_wrt (\<lambda>a b. fst a < fst b) us" "\<forall>u \<in> set us. write_ok u \<and> fst u < seq" "mem_add_all (dp_heap p) us (MemTable (dp_heap p) c) = Some (db_mem db)"
    and logged: "log_AddRecord (dp_env p) (the (db_log db)) updates (db_env db) = (s1, lg1, e1)"
      "(if ok s1 \<and> sync then file_Sync (dp_env p) (lw_dest lg1) e1 else (s1, lw_dest lg1, e1)) = (s, file, e)"
  shows "\<exists>mem. log_group p updates sync db = Some (s, ok s1 \<and> \<not> ok s,
      db\<lparr>db_log := Some (with_dest lg1 file), db_env := e, db_mem := mem\<rparr>) \<and>
    mem_add_all (dp_heap p) (if ok s then us @ op_writes seq gops else us) (MemTable (dp_heap p) c) = Some mem"
proof -
  have new: "seq \<le> fst w" if "w \<in> set (op_writes seq gops)" for w
    using op_writes_range [OF ops(2) that] by (simp add: word_le_nat_alt)
  have sorted: "sorted_wrt (\<lambda>a b. fst a < fst b) (us @ op_writes seq gops)" "\<forall>w \<in> set (us @ op_writes seq gops). write_ok w"
    using us(1,2) op_writes_sorted [OF ops(2)] op_writes_ok [OF ops(2,1)] new by (auto simp: sorted_wrt_append intro: order.strict_trans2)
  obtain mem where mem: "mem_add_all (dp_heap p) (us @ op_writes seq gops) (MemTable (dp_heap p) c) = Some mem"
    using adds_return [OF c sorted] by blast
  have small: "\<forall>a \<in> set gops. op_small a" using ops(1) op_write_small by blast
  have add: "(\<lambda>seq type key value m. m \<bind> MemTable_Add (dp_heap p) seq type key value) = opt_Add (dp_heap p)"
    by (simp add: opt_Add_def fun_eq_iff)
  have "WriteBatch_InsertInto (opt_Add (dp_heap p)) updates (Some (db_mem db)) = (Status_OK, Some mem)"
    using InsertInto_holds [OF rec small, of "opt_Add (dp_heap p)" "Some (db_mem db)"] mem us(3) by (simp add: add_ops_writes mem_add_all_append)
  moreover have "with_dest lg1 (lw_dest lg1) = lg1" by (cases lg1) (simp add: with_dest_def)
  ultimately show ?thesis
    using logged us(3) mem unfolding log_group_def add
    by (cases "ok s1"; cases sync) (auto simp: Let_def ok_iff split: prod.splits if_splits)
qed

subsection \<open>Properties\<close>

text \<open>
  What the other threads leave alone while the front writer works at the log without the mutex: the queue grows at
  its end, and the writers in it, the batch of the group, the memtable and the log stay.
\<close>

definition undisturbed :: "('e, 'w) write_state \<Rightarrow> writer_ptr list \<Rightarrow> ('e, 'w) write_state \<Rightarrow> bool" where
  "undisturbed s later s' \<longleftrightarrow> ws_writers s' = ws_writers s @ later \<and> distinct (ws_writers s') \<and>
     (\<forall>w \<in> set (ws_writers s). ws_writer s' w = ws_writer s w) \<and> ws_tmp_batch s' = ws_tmp_batch s \<and> ws_turn s' = ws_turn s \<and>
     db_mem (ws_db s') = db_mem (ws_db s) \<and> db_log (ws_db s') = db_log (ws_db s)"

lemma undisturbed_enqueue:
  "undisturbed s later s' \<Longrightarrow> w \<notin> set (ws_writers s') \<Longrightarrow> undisturbed s (later @ [w]) (Write_enqueue w b sync s')"
  by (auto simp: undisturbed_def Write_enqueue_def)

lemma undisturbed_wake: "undisturbed s later s' \<Longrightarrow> undisturbed s later (Write_wake w s')"
  by (auto simp: undisturbed_def Write_wake_def)

text \<open>
  Claim C40: a group commits as one batch. The writer at the front takes a prefix of the queue, as long as the next one joins it, and no longer. The
  record for the log holds the operations of the group in the order of the queue, numbered from the one behind the last sequence
  number, which advances by as many. When the record is appended and, if the front asks for it, synced without an error, the memtable gets exactly these writes; when not, it gets none, and a
  failed sync stops all later writes. The call returns; all writers of the group, and no others, leave the queue with that status, and the batch that
  was used for gathering is empty again, whatever writers came meanwhile.
\<close>

theorem group_commit:
  assumes "user_comparator (cmp_Compare c) Separator Successor"
    and "ws_writers s = me # ws" and "w_batch (ws_writer s me) \<noteq> None" and "ws_tmp_batch s = WriteBatch_Clear"
    and "\<forall>w \<in> set (me # ws). \<forall>b. w_batch (ws_writer s w) = Some b \<longrightarrow> (\<exists>n. holds_ops b n (ops w))"
    and "\<forall>a \<in> set (group_ops (ws_writer s) ops (me # ws)). write_ok (op_write 0 a)"
    and "length (group_ops (ws_writer s) ops (me # ws)) < 2 ^ 32"
    and "last_seq = vs_last_sequence (db_versions (ws_db s))" and "unat last_seq + 1 + length (group_ops (ws_writer s) ops (me # ws)) \<le> 2 ^ 56"
    and "sorted_wrt (\<lambda>a b. fst a < fst b) us" and "\<forall>u \<in> set us. write_ok u \<and> fst u \<le> last_seq"
    and "mem_add_all (dp_heap p) us (MemTable (dp_heap p) c) = Some (db_mem (ws_db s))"
    and "undisturbed (Write_group s) later s'"
  shows "\<exists>n g s2. 0 < n \<and> n \<le> length (me # ws) \<and>
    (\<forall>i. 0 < i \<and> i \<le> n \<and> i < length (me # ws) \<longrightarrow> (i < n \<longleftrightarrow> joins (ws_writer s) (me # ws) i)) \<and>
    ws_turn s' = Logging g \<and> Write_log p g s' = Some s2 \<and>
    (let group = take n (me # ws); gops = group_ops (ws_writer s) ops group;
         (added, lg, e) = log_AddRecord (dp_env p) (the (db_log (ws_db s'))) (wg_updates g) (db_env (ws_db s'));
         (status, file, e) = (if ok added \<and> w_sync (ws_writer s me) then file_Sync (dp_env p) (lw_dest lg) e else (added, lw_dest lg, e))
     in holds_ops (wg_updates g) (last_seq + 1) gops \<and>
       mem_add_all (dp_heap p) (if ok status then us @ op_writes (last_seq + 1) gops else us) (MemTable (dp_heap p) c) = Some (db_mem (ws_db s2)) \<and>
       vs_last_sequence (db_versions (ws_db s2)) = last_seq + word_of_nat (length gops) \<and>
       db_log (ws_db s2) = Some (with_dest lg file) \<and> db_env (ws_db s2) = e \<and>
       db_bg_error (ws_db s2) = (if ok added \<and> \<not> ok status \<and> ok (db_bg_error (ws_db s')) then status else db_bg_error (ws_db s')) \<and>
       ws_writers s2 = drop n (me # ws) @ later \<and> ws_turn s2 = Waiting \<and> ws_tmp_batch s2 = WriteBatch_Clear \<and>
       ws_returned s2 = (ws_returned s')(me \<mapsto> status) \<and>
       ws_writer s2 = (\<lambda>w. if w \<in> set group \<and> w \<noteq> me then (ws_writer s' w)\<lparr>w_status := status, w_done := True\<rparr> else ws_writer s' w))"
proof -
  obtain updates is_tmp tmp lw where build: "BuildBatchGroup (ws_writer s) (me # ws) WriteBatch_Clear = (updates, is_tmp, tmp, lw)"
    by (metis prod_cases4)
  from BuildBatchGroup_result [OF assms(5,3) build] obtain n k where n: "0 < n" "n \<le> length (me # ws)" "lw = last (take n (me # ws))"
      "holds_ops updates k (group_ops (ws_writer s) ops (take n (me # ws)))" "if is_tmp then tmp = updates else tmp = WriteBatch_Clear"
      "\<forall>i. 0 < i \<and> i \<le> n \<and> i < length (me # ws) \<longrightarrow> (i < n \<longleftrightarrow> joins (ws_writer s) (me # ws) i)" by blast
  define group where "group = take n (me # ws)"
  define gops where "gops = group_ops (ws_writer s) ops group"
  define rec where "rec = WriteBatch_SetSequence updates (last_seq + 1)"
  have rec: "holds_ops rec (last_seq + 1) gops" using SetSequence_holds [OF n(4)] by (simp add: rec_def gops_def group_def)
  have all: "group_ops (ws_writer s) ops (me # ws) = gops @ group_ops (ws_writer s) ops (drop n (me # ws))"
    unfolding gops_def group_def by (subst group_ops_simps(2) [symmetric]) (simp only: append_take_drop_id)
  then have len: "length gops < 2 ^ 32" "unat last_seq + 1 + length gops \<le> 2 ^ 56" "\<forall>a \<in> set gops. write_ok (op_write 0 a)"
    using assms(6,7,9) by auto
  have count: "ucast (WriteBatch_Count rec) = (word_of_nat (length gops) :: u64)"
    using len(1) rec by (simp add: unsigned_of_nat take_bit_nat_eq_self)
  let ?s1 = "Write_group s"
  have tail: "take n (me # ws) = me # take (n - 1) ws" using n(1) by (cases n) simp_all
  have s1: "ws_writers ?s1 = me # ws" "ws_tmp_batch ?s1 = (if is_tmp then rec else WriteBatch_Clear)" "w_sync (ws_writer ?s1 me) = w_sync (ws_writer s me)"
    "ws_turn ?s1 = Logging \<lparr>wg_updates = rec, wg_is_tmp = is_tmp, wg_last_writer = lw, wg_last_sequence = last_seq + word_of_nat (length gops)\<rparr>"
    "ws_db ?s1 = ws_db s"
    using build n(5) count assms(2,4) by (auto simp: Write_group_def Let_def rec_def assms(8))
  from assms(13) have d: "ws_writers s' = (me # ws) @ later" "distinct ((me # ws) @ later)" "ws_tmp_batch s' = (if is_tmp then rec else WriteBatch_Clear)"
    "w_sync (ws_writer s' me) = w_sync (ws_writer s me)" "ws_turn s' = ws_turn ?s1" "db_mem (ws_db s') = db_mem (ws_db s)"
    by (auto simp: undisturbed_def s1)
  obtain added lg1 e1 where add: "log_AddRecord (dp_env p) (the (db_log (ws_db s'))) rec (db_env (ws_db s')) = (added, lg1, e1)" by (metis prod_cases3)
  obtain status dest e where sync: "(if ok added \<and> w_sync (ws_writer s me) then file_Sync (dp_env p) (lw_dest lg1) e1 else (added, lw_dest lg1, e1)) = (status, dest, e)"
    by (metis prod_cases3)
  have seq: "unat (last_seq + 1) = unat last_seq + 1" using assms(9) by (simp add: unat_word_ariths)
  have "\<forall>u \<in> set us. write_ok u \<and> fst u < last_seq + 1" using assms(11) seq by (auto simp: word_less_nat_alt word_le_nat_alt)
  moreover have "unat (last_seq + 1) + length gops \<le> 2 ^ 56" using len(2) seq by simp
  moreover have "mem_add_all (dp_heap p) us (MemTable (dp_heap p) c) = Some (db_mem (ws_db s'))" using assms(12) d(6) by simp
  ultimately obtain mem where mem: "log_group p rec (w_sync (ws_writer s me)) (ws_db s') = Some (status, ok added \<and> \<not> ok status,
      (ws_db s')\<lparr>db_log := Some (with_dest lg1 dest), db_env := e, db_mem := mem\<rparr>)"
      "mem_add_all (dp_heap p) (if ok status then us @ op_writes (last_seq + 1) gops else us) (MemTable (dp_heap p) c) = Some mem"
    using log_group_result [OF assms(1) rec len(3) _ assms(10) _ _ add sync] by blast
  have queue: "(me # ws) @ later = group @ (drop n (me # ws) @ later)" unfolding group_def by (simp only: append_assoc [symmetric] append_take_drop_id)
  have "group \<noteq> []" using n(1) by (simp add: group_def tail)
  with pop_writers_result [of group "drop n (me # ws) @ later" me status "ws_writer s'"] d(2) n(3)
  have pop: "pop_writers me lw status ((me # ws) @ later) (ws_writer s') = (drop n (me # ws) @ later,
      \<lambda>w. if w \<in> set group \<and> w \<noteq> me then (ws_writer s' w)\<lparr>w_status := status, w_done := True\<rparr> else ws_writer s' w)"
    unfolding queue by (simp add: group_def)
  let ?g = "\<lparr>wg_updates = rec, wg_is_tmp = is_tmp, wg_last_writer = lw, wg_last_sequence = last_seq + word_of_nat (length gops)\<rparr>"
  let ?db = "(ws_db s')\<lparr>db_log := Some (with_dest lg1 dest), db_env := e, db_mem := mem\<rparr>"
  let ?db = "(if ok added \<and> \<not> ok status then RecordBackgroundError status ?db else ?db)"
  let ?db = "?db\<lparr>db_versions := SetLastSequence_vs (last_seq + word_of_nat (length gops)) (db_versions ?db)\<rparr>"
  let ?wr = "\<lambda>w. if w \<in> set group \<and> w \<noteq> me then (ws_writer s' w)\<lparr>w_status := status, w_done := True\<rparr> else ws_writer s' w"
  let ?s2 = "s'\<lparr>ws_db := ?db, ws_tmp_batch := WriteBatch_Clear, ws_writers := drop n (me # ws) @ later, ws_writer := ?wr,
    ws_turn := Waiting, ws_returned := (ws_returned s')(me \<mapsto> status)\<rparr>"
  define s2 where "s2 = ?s2"
  have s2: "Write_log p ?g s' = Some s2"
    using mem(1) d(1,3,4) pop by (auto simp: s2_def Write_log_def Write_finish_def Let_def split: if_splits)
  have res: "vs_last_sequence (db_versions (ws_db s2)) = last_seq + word_of_nat (length gops)" "db_log (ws_db s2) = Some (with_dest lg1 dest)"
    "db_env (ws_db s2) = e" "db_mem (ws_db s2) = mem"
    "db_bg_error (ws_db s2) = (if ok added \<and> \<not> ok status \<and> ok (db_bg_error (ws_db s')) then status else db_bg_error (ws_db s'))"
    "ws_writers s2 = drop n (me # ws) @ later" "ws_turn s2 = Waiting" "ws_tmp_batch s2 = WriteBatch_Clear"
    "ws_returned s2 = (ws_returned s')(me \<mapsto> status)" "ws_writer s2 = ?wr"
    by (simp_all add: s2_def RecordBackgroundError_def SetLastSequence_vs_def)
  show ?thesis
    apply (intro exI [of _ n] exI [of _ ?g] exI [of _ s2] conjI n(1,2,6) s2)
    subgoal using d(5) s1(4) by simp
    subgoal using rec mem(2) res by (simp only: Let_def write_group.simps add sync prod.case group_def [symmetric] gops_def [symmetric] simp_thms)
    done
qed

text \<open>A database with an empty memtable, in which one thread waits to put a value and another to delete it.\<close>

definition example_params :: "(fs, posix_writable, posix_sequential, status) db_params" where
  "example_params = \<lparr>dp_env = PosixDbEnv good_kernel,
     dp_table_cache = (\<lambda>e options. \<lparr>ts_class = EmptyIterator_class, ts_error = NewErrorIterator,
       ts_NewIterator = \<lambda>n len. NewEmptyIterator, ts_Get = \<lambda>n len key. (Status_OK, None)\<rparr>),
     dp_snappy = \<lparr>Snappy_Compress = \<lambda>b. None, Snappy_GetUncompressedLength = \<lambda>b. None, Snappy_Uncompress = \<lambda>b. None\<rparr>,
     dp_GetChildren = \<lambda>e. (Status_OK, []), dp_FileExists = PosixEnv_FileExists, dp_CreateDir = Pair Status_OK, dp_DeleteDir = Pair Status_OK,
     dp_LockFile = \<lambda>name. Pair Status_OK, dp_UnlockFile = \<lambda>name. Pair Status_OK, dp_heap = bump_heap, dp_dbname = str ''db'',
     dp_user_comparator = BytewiseComparator, dp_options = Options\<rparr>"

definition example_db :: "(fs, posix_writable) db_state" where
  "example_db = \<lparr>db_env = empty_fs, db_versions = SetLastSequence_vs 41 (VersionSet (str ''db'') Options BytewiseComparator), db_shutting_down = False,
     db_mem = MemTable bump_heap BytewiseComparator, db_imm = None, db_logfile_number = 3,
     db_log = Some (Writer (open_stream good_kernel (str ''w'') (str ''db/000003.log'') empty_fs)), db_seed = 0, db_snapshots = SnapshotList,
     db_pending_outputs = {}, db_bg_compaction_scheduled = False, db_manual_compaction = None, db_bg_error = Status_OK\<rparr>"

definition example_writes :: "(fs, posix_writable) write_state" where
  "example_writes = \<lparr>ws_db = example_db, ws_writer = (\<lambda>w. \<lparr>w_status = Status_OK,
       w_batch = Some (if w = 0 then DB_Put [1] [7] else DB_Delete [1]), w_sync = False, w_done = False\<rparr>),
     ws_writers = [0, 1], ws_tmp_batch = WriteBatch_Clear, ws_turn = MakingRoom False True, ws_returned = (\<lambda>w. None)\<rparr>"

lemma DB_Put_holds: "holds_ops (DB_Put k v) 0 [PutOp k v]"
  using batch_op_holds [OF holds_Clear, of "PutOp k v"] by (simp add: DB_Put_def)

lemma DB_Delete_holds: "holds_ops (DB_Delete k) 0 [DeleteOp k]"
  using batch_op_holds [OF holds_Clear, of "DeleteOp k"] by (simp add: DB_Delete_def)

lemma undisturbed_refl: "distinct (ws_writers s) \<Longrightarrow> undisturbed s [] s"
  by (simp add: undisturbed_def)

theorem group_commit_witness:
  "\<exists>g s2. ws_turn (Write_group example_writes) = Logging g \<and> holds_ops (wg_updates g) 42 [PutOp [1] [7], DeleteOp [1]] \<and>
    Write_log example_params g (Write_enqueue 2 None False (Write_group example_writes)) = Some s2 \<and>
    ws_writers s2 = [2] \<and> vs_last_sequence (db_versions (ws_db s2)) = 43 \<and> ws_returned s2 0 = Some (w_status (ws_writer s2 1))"
proof -
  let ?s = example_writes and ?ops = "\<lambda>w::nat. if w = 0 then [PutOp [1] [7]] else [DeleteOp [1]]"
  let ?s' = "Write_enqueue 2 None False (Write_group ?s)"
  have queue: "ws_writers (Write_group ?s) = [0, 1]" and writers: "ws_writers ?s = [0, 1]"
    by (auto simp: Write_group_def example_writes_def Let_def split: prod.splits)
  have seq: "41 = vs_last_sequence (db_versions (ws_db ?s))"
    by (simp add: example_writes_def example_db_def SetLastSequence_vs_def)
  have holds: "\<forall>w \<in> set [0, 1]. \<forall>b. w_batch (ws_writer ?s w) = Some b \<longrightarrow> (\<exists>n. holds_ops b n (?ops w))"
    using DB_Put_holds DB_Delete_holds by (fastforce simp: example_writes_def)
  have gops: "group_ops (ws_writer ?s) ?ops [0, 1] = [PutOp [1] [7], DeleteOp [1]]" by (simp add: example_writes_def)
  have "length (DB_Put [1] [7]) = 17" "length (DB_Delete [1]) = 15" by code_simp+
  then have joins: "joins (ws_writer ?s) [0, 1] 1"
    by (simp add: joins_def example_writes_def batch_size_def max_group_size_def)
  have "undisturbed (Write_group ?s) ([] @ [2]) ?s'"
    by (intro undisturbed_enqueue undisturbed_refl) (simp_all add: queue)
  note later = this
  have start: "w_batch (ws_writer ?s 0) \<noteq> None" "ws_tmp_batch ?s = WriteBatch_Clear"
    "mem_add_all (dp_heap example_params) [] (MemTable (dp_heap example_params) BytewiseComparator) = Some (db_mem (ws_db ?s))"
    by (simp_all add: example_writes_def example_db_def example_params_def)
  have small: "\<forall>a \<in> set (group_ops (ws_writer ?s) ?ops [0, 1]). write_ok (op_write 0 a)"
    "length (group_ops (ws_writer ?s) ?ops [0, 1]) < 2 ^ 32" "unat (41 :: u64) + 1 + length (group_ops (ws_writer ?s) ?ops [0, 1]) \<le> 2 ^ 56"
    unfolding gops by (simp_all add: kTypeValue_def kTypeDeletion_def)
  have old: "sorted_wrt (\<lambda>a b. fst a < fst b) ([] :: mem_write list)" "\<forall>u \<in> set ([] :: mem_write list). write_ok u \<and> fst u \<le> 41" by simp_all
  note commit = group_commit [OF uc_bytewise writers start(1,2) holds small(1,2) seq small(3) old start(3) later, unfolded Let_def case_prod_beta]
  obtain n g s2 st where n: "0 < n" "n \<le> length [0 :: nat, 1]"
      "\<forall>i. 0 < i \<and> i \<le> n \<and> i < length [0 :: nat, 1] \<longrightarrow> (i < n \<longleftrightarrow> joins (ws_writer ?s) [0, 1] i)"
    and g: "ws_turn ?s' = Logging g" "Write_log example_params g ?s' = Some s2"
    and r: "holds_ops (wg_updates g) (41 + 1) (group_ops (ws_writer ?s) ?ops (take n [0, 1]))"
      "vs_last_sequence (db_versions (ws_db s2)) = 41 + word_of_nat (length (group_ops (ws_writer ?s) ?ops (take n [0, 1])))"
      "ws_writers s2 = drop n [0, 1] @ [] @ [2]" "ws_returned s2 = (ws_returned ?s')(0 \<mapsto> st)"
      "ws_writer s2 = (\<lambda>w. if w \<in> set (take n [0, 1]) \<and> w \<noteq> 0 then (ws_writer ?s' w)\<lparr>w_status := st, w_done := True\<rparr> else ws_writer ?s' w)"
    using commit by (elim exE conjE) (rule that)
  have "n = 2" using n joins by (cases "n = 1") auto
  then have "take n [0, 1] = [0 :: nat, 1]" "drop n [0, 1] = ([] :: nat list)" by simp_all
  note r = r [unfolded this gops]
  have "ws_turn (Write_group ?s) = Logging g" using g(1) by (simp add: Write_enqueue_def)
  with g(2) r show ?thesis by (intro exI [of _ g] exI [of _ s2]) simp
qed

end
