(* ===== verification/Spec2Isabelle.thy ===== *)
theory Spec2Isabelle
  imports LDB_LogSpec LDB_FilterBlock LDB_WriteBatch LDB_BlockSpec LDB_TableSpec LDB_FileSystem LDB_VersionEdit LDB_MergerSpec LDB_RecoverSpec LDB_DbIterSpec LDB_CompactionWorkSpec LDB_CacheSpec LDB_TableCache LDB_BlockCache LDB_DbRead LDB_DbOpen LDB_DbWriteSpec
begin

text \<open>
  LevelDB is the storage library inside the macOS client (\<^verbatim>\<open>src/macOS-client/Pods/leveldb-library\<close>). It keeps a sorted
  map from keys to values. This development models it function by function and proves what its parts promise. File names below
  are relative to that directory.

  \<^bold>\<open>How the program works.\<close> A client writes batches of operations. A batch gets sequence numbers and goes as one record to
  the write-ahead log, then into the memtable, a skip list of internal keys (user key, sequence number and type).
  A full memtable becomes a table file of level 0; compactions merge table files into deeper levels and drop entries that no
  reader can see. Which files make up the database is kept in versions; every change of them is an edit in the
  MANIFEST, which is again a log, and \<^verbatim>\<open>CURRENT\<close> names the MANIFEST. A reader takes a sequence number as its snapshot and
  merges the memtables and the files of the current version. Opening a database replays the MANIFEST and then the logs.

  \<^bold>\<open>Values and effects.\<close> Bytes and fixed-width integers are words (\<open>LDB_Prelude\<close>), a slice or string is a list of bytes. An
  operation takes and returns the state it changes. A failure is a \<open>status\<close>, as in the code; a result \<^const>\<open>None\<close> of an operation means that a loop
  does not end, that an array is read out of its bounds, or that no iterator exists, as the theory says. Objects that are shared
  are entries of a store known by their addresses: files and versions (\<open>version_heap\<close>), handles of caches, nodes of skip lists. A
  virtual class is a record of its functions; what its header promises is a locale, and each implementation is an
  interpretation.
\<close>

section \<open>The theories and the code\<close>

text \<open>
  \<^bold>\<open>Foundations\<close> (\<^verbatim>\<open>include/leveldb\<close>, \<^verbatim>\<open>util\<close>, \<^verbatim>\<open>port\<close>).
  \<^item> \<open>LDB_Prelude\<close>: types and lemmas that all share. \<open>LDB_Slice\<close>, \<open>LDB_Status\<close>, \<open>LDB_Options\<close>, \<open>LDB_Logging\<close>: the classes and functions of these names.
  \<^item> \<open>LDB_Comparator\<close> (\<^verbatim>\<open>comparator.h\<close>, \<^verbatim>\<open>comparator.cc\<close>): the locales \<open>comparator\<close> and \<open>user_comparator\<close>, interpreted by the bytewise comparator.
  \<^item> \<open>LDB_Coding\<close> (\<^verbatim>\<open>coding.cc\<close>): fixed and variable length integers, with their round trips, the exact condition of failure, and the unrolled encoder equal to the loop.
  \<^item> \<open>LDB_Crc32c\<close> (\<^verbatim>\<open>crc32c.cc\<close>, \<^verbatim>\<open>port_posix_sse.cc\<close>): the table-driven and the accelerated routine equal the bit-serial checksum.
  \<^item> \<open>LDB_Bloom\<close> (\<^verbatim>\<open>hash.cc\<close>, \<^verbatim>\<open>bloom.cc\<close>): the locale \<open>filter_policy\<close>; no false negatives.
  \<^item> \<open>LDB_Arena\<close> (\<^verbatim>\<open>arena.cc\<close>, \<^verbatim>\<open>random.h\<close>): allocations are disjoint and aligned; the generator is the minimal standard one.
  \<^item> \<open>LDB_Env\<close>, \<open>LDB_FileSystem\<close> (\<^verbatim>\<open>env.h\<close>, \<^verbatim>\<open>env.cc\<close>, \<^verbatim>\<open>env_posix.cc\<close>, \<^verbatim>\<open>filename.cc\<close>): the file classes and \<^verbatim>\<open>PosixEnv\<close> over a file system and a kernel that decides which
    calls fail; the replacement of \<^verbatim>\<open>CURRENT\<close> is atomic. \<open>LDB_FileName\<close>: the names that the parser takes are those of the grammar of \<^verbatim>\<open>filename.cc\<close> and the temporary files.
  \<^item> \<open>LDB_Cache\<close>, \<open>LDB_CacheSpec\<close> (\<^verbatim>\<open>cache.cc\<close>): hash table, shards and sharded cache; under any client the counts are right, a handle is freed once, and insertion evicts the oldest entries.

  \<^bold>\<open>Logs and batches\<close> (\<^verbatim>\<open>db\<close>).
  \<^item> \<open>LDB_Log\<close>, \<open>LDB_LogSpec\<close> (\<^verbatim>\<open>log_writer.cc\<close>, \<^verbatim>\<open>log_reader.cc\<close>): what is written is read back; after a cut at any byte the reader gives the records that are whole; the reader returns on any file.
  \<^item> \<open>LDB_DbFormat\<close> (\<^verbatim>\<open>dbformat.cc\<close>): internal keys, their order as a sublocale of the comparators, lookup keys.
  \<^item> \<open>LDB_WriteBatch\<close> (\<^verbatim>\<open>write_batch.cc\<close>): which bytes are accepted as a batch, and the calls of its handler.
  \<^item> \<open>LDB_SkipList\<close>, \<open>LDB_SkipListSpec\<close> (\<^verbatim>\<open>skiplist.h\<close>), \<open>LDB_MemTable\<close>, \<open>LDB_MemTableSpec\<close> (\<^verbatim>\<open>memtable.cc\<close>): the skip list is an ordered set for any heights of its nodes; a lookup finds the newest visible operation.

  \<^bold>\<open>Tables\<close> (\<^verbatim>\<open>table\<close>).
  \<^item> \<open>LDB_Block\<close>, \<open>LDB_BlockSpec\<close> (\<^verbatim>\<open>block_builder.cc\<close>, \<^verbatim>\<open>block.cc\<close>); \<open>LDB_FilterBlock\<close> (\<^verbatim>\<open>filter_block.cc\<close>); \<open>LDB_Format\<close>, \<open>LDB_Table\<close>, \<open>LDB_TableBuild\<close>, \<open>LDB_TableSpec\<close> (\<^verbatim>\<open>format.cc\<close>, \<^verbatim>\<open>table_builder.cc\<close>, \<^verbatim>\<open>table.cc\<close>):
    what a builder wrote is what the iterator and the lookups of the opened table give. \<open>LDB_BlockCache\<close>: reading blocks through a cache gives the same.
  \<^item> \<open>LDB_Iterator\<close> (\<^verbatim>\<open>iterator.h\<close>): the class, the cleanup functions and the contract \<open>entry_iterator\<close>, a cursor on a list of entries. Blocks, tables (\<open>LDB_TwoLevel\<close>, \<^verbatim>\<open>two_level_iterator.cc\<close>),
    memtables, merges (\<open>LDB_Merger\<close>, \<open>LDB_MergerSpec\<close>, \<^verbatim>\<open>merger.cc\<close>) and the iterator of clients (\<open>LDB_DbIter\<close>, \<open>LDB_DbIterSpec\<close>, \<^verbatim>\<open>db_iter.cc\<close>) meet it.
  \<^item> \<open>LDB_TableCache\<close> (\<^verbatim>\<open>table_cache.cc\<close>): open tables by file number.

  \<^bold>\<open>Versions and compactions\<close> (\<^verbatim>\<open>version_edit.cc\<close>, \<^verbatim>\<open>version_set.cc\<close>).
  \<^item> \<open>LDB_VersionEdit\<close>: edits and their encoding. \<open>LDB_Version\<close>, \<open>LDB_VersionSpec\<close>: searches, overlaps and the level for a new file. \<open>LDB_VersionBuilder\<close>, \<open>LDB_VersionBuilderSpec\<close>: the builder computes
    the files of the next version and keeps the reference counts. \<open>LDB_VersionSet\<close>, \<open>LDB_VersionSetSpec\<close>, \<open>LDB_RecoverSpec\<close>: \<^verbatim>\<open>LogAndApply\<close> installs a version exactly when it is logged, and \<^verbatim>\<open>Recover\<close> rebuilds it.
  \<^item> \<open>LDB_Compaction\<close>, \<open>LDB_CompactionSpec\<close>: the inputs of a compaction can be replaced by their merge.

  \<^bold>\<open>The database\<close> (\<^verbatim>\<open>db_impl.cc\<close>, \<^verbatim>\<open>builder.cc\<close>, \<^verbatim>\<open>snapshot.h\<close>).
  \<^item> \<open>LDB_Builder\<close>, \<open>LDB_DbImpl\<close>: the state of a database, memtables written to level 0, obsolete files. \<open>LDB_CompactionWork\<close>, \<open>LDB_CompactionWorkSpec\<close>: the loop of a compaction and the background call;
    the entries that are dropped are missed by no snapshot.
  \<^item> \<open>LDB_DbWrite\<close>, \<open>LDB_DbWriteSpec\<close>: the queue of writers; a group commits as one batch. \<open>LDB_DbRead\<close>: lookups, iterators, snapshots, properties and manual compactions.
    \<open>LDB_DbOpen\<close>: recovery, opening and destroying. The last two are models on which no theorem is stated yet.
\<close>

section \<open>How the proofs are built\<close>

text \<open>
  \<^bold>\<open>Contracts.\<close> The locale \<open>entry_iterator\<close> says which entry an iterator stands at after each operation. It is interpreted on the classes of the code, and each layer of iterators
  is verified against the contract of the layer below, so that the iterator of a client is shown to be a cursor over the view of its snapshot for any sequence of operations. The locales of
  comparators, filter policies, writable files and table writers work in the same way.

  \<^bold>\<open>Invariants.\<close> Each mutable structure has one: \<open>skip_inv\<close>, \<open>table_inv\<close>, \<open>cache_ok\<close>, \<open>heap_inv\<close> and \<open>vset_inv\<close>, \<open>block_cache_ok\<close>. Every operation is shown to keep it; the properties are read off it.

  \<^bold>\<open>Refinement.\<close> The specifications are independent of the code: lists of entries and cursors for iterators, folds of edits over sets of files for versions, the newest visible operation for
  lookups, the bit-serial division for the checksum, a grammar for batches and file names.

  \<^bold>\<open>Termination.\<close> Loops with a structural or measured bound are \<^theory_text>\<open>fun\<close>. Loops that run as long as some iterator or file goes on are \<^theory_text>\<open>partial_function (option)\<close>; that they
  return is proved wherever a property rests on them: the log reader and its draining, searches in blocks and skip lists, the scans over empty blocks and hidden entries, overlapping inputs, and eviction. There is no fuel.

  \<^bold>\<open>Bounds.\<close> Where the code relies on sizes that fit a field, the property has the bound as a hypothesis: blocks below 4 GB, keys and values below 2^32 bytes, sequence numbers below 2^56, fewer than 2^31
  entries in a shard of a cache. A witness shows for each property that its hypotheses can be met.
\<close>

section \<open>What is not modelled\<close>

text \<open>
  \<^item> Threads, mutexes and atomic pointers: the models are sequential. The write path is cut where the code gives up its mutex, so that other steps can come between.
  \<^item> The repair of a broken database (\<^verbatim>\<open>repair.cc\<close>), the bindings for C (\<^verbatim>\<open>c.cc\<close>), the dump tool, statistics and times, the information log, and in \<^verbatim>\<open>PosixEnv\<close> the directories, the background thread and the clock.
  \<^item> The compression library, the allocator, the kernel and the table cache of a database are arguments. The call that evicts a deleted table from the table cache is left out of \<open>DeleteObsoleteFiles\<close>, since the
    cache has no state there.
  \<^item> A write that fails is followed only by writes that fail in the model of a standard stream (\<open>write_stream\<close>).
  \<^item> The clients of the notification service (Swift and Java), and the other pods.
\<close>

end
